(* ===== verification/K_Prelude.thy ===== *)
theory K_Prelude
  imports Main "HOL-Library.Word" "HOL-Library.Multiset"
begin

unbundle bit_operations_syntax

text \<open>
  What every component of the development shares: the C integer types of
  \<^verbatim>\<open>include/stddef.h\<close> as words, the ways a kernel function can fail
  (\<^verbatim>\<open>panic\<close>, a failed \<^verbatim>\<open>assert\<close>, an access outside an array or through a
  null pointer, a spin on a lock that is never released, a list element linked into a
  second list), the result type that makes
  each of them a value, and generic lemmas on lists and words.
\<close>

section \<open>Integer types\<close>

type_synonym u8 = "8 word"
type_synonym u16 = "16 word"
type_synonym u32 = "32 word"
type_synonym u64 = "64 word"

section \<open>Results\<close>

text \<open>
  The kernel never unwinds: a \<open>panic\<close>, a failed assertion or a wild access ends the
  computation. \<open>Fail\<close> carries which of them happened.
\<close>

datatype fault =
    Panic string
  | Assert_failed
  | Out_of_bounds
  | Null_pointer
  | Spin_forever
  | Relinked

datatype 'a res = Ok 'a | Fail fault

fun bind_res :: "'a res \<Rightarrow> ('a \<Rightarrow> 'b res) \<Rightarrow> 'b res" where
  "bind_res (Ok x) f = f x"
| "bind_res (Fail e) f = Fail e"

text \<open>\<open>assert(e)\<close> of \<^verbatim>\<open>include/assert.h\<close>.\<close>

definition kassert :: "bool \<Rightarrow> unit res" where
  "kassert b = (if b then Ok () else Fail Assert_failed)"

text \<open>Checked array accesses.\<close>

definition aread :: "'a list \<Rightarrow> nat \<Rightarrow> 'a res" where
  "aread xs i = (if i < length xs then Ok (xs ! i) else Fail Out_of_bounds)"

definition awrite :: "'a list \<Rightarrow> nat \<Rightarrow> 'a \<Rightarrow> 'a list res" where
  "awrite xs i x = (if i < length xs then Ok (xs[i := x]) else Fail Out_of_bounds)"

lemma bind_res_cong [fundef_cong]:
  "m = m' \<Longrightarrow> (\<And>x. m' = Ok x \<Longrightarrow> f x = f' x) \<Longrightarrow> bind_res m f = bind_res m' f'"
  by (cases m') auto

lemma bind_res_eq_Ok [simp]: "bind_res m f = Ok y \<longleftrightarrow> (\<exists>x. m = Ok x \<and> f x = Ok y)"
  by (cases m) auto

lemma bind_res_eq_Fail:
  "bind_res m f = Fail e \<longleftrightarrow> m = Fail e \<or> (\<exists>x. m = Ok x \<and> f x = Fail e)"
  by (cases m) auto

lemma bind_res_assoc: "bind_res (bind_res m f) g = bind_res m (\<lambda>x. bind_res (f x) g)"
  by (cases m) simp_all

lemma kassert_True [simp]: "b \<Longrightarrow> kassert b = Ok ()"
  by (simp add: kassert_def)

lemma kassert_False [simp]: "\<not> b \<Longrightarrow> kassert b = Fail Assert_failed"
  by (simp add: kassert_def)

lemma kassert_eq_Ok [simp]: "kassert b = Ok u \<longleftrightarrow> b"
  by (simp add: kassert_def)

lemma aread_Ok [simp]: "i < length xs \<Longrightarrow> aread xs i = Ok (xs ! i)"
  by (simp add: aread_def)

lemma awrite_Ok [simp]: "i < length xs \<Longrightarrow> awrite xs i x = Ok (xs[i := x])"
  by (simp add: awrite_def)

lemma aread_eq_Ok: "aread xs i = Ok x \<longleftrightarrow> i < length xs \<and> x = xs ! i"
  by (auto simp: aread_def)

lemma awrite_eq_Ok: "awrite xs i x = Ok ys \<longleftrightarrow> i < length xs \<and> ys = xs[i := x]"
  by (auto simp: awrite_def)

section \<open>Lists\<close>

lemma mset_take_update:
  "i < n \<Longrightarrow> n \<le> length xs \<Longrightarrow> take n (xs[i := x]) = (take n xs)[i := x]"
  by (simp add: take_update_swap)

lemma set_take_nth: "x \<in> set (take n xs) \<longleftrightarrow> (\<exists>i < n. i < length xs \<and> xs ! i = x)"
  by (auto simp: in_set_conv_nth)

section \<open>Words\<close>

lemma word_pred_less: "(0::'a::len word) < x \<Longrightarrow> unat (x - 1) = unat x - 1"
  by (metis less_imp_not_eq unat_minus_one)

lemma word_less_pred_iff: "(0::'a::len word) < c \<Longrightarrow> x < c \<longleftrightarrow> x \<le> c - 1"
  by (simp add: word_less_nat_alt word_le_nat_alt word_pred_less) arith

lemma word_succ_less:
  assumes "(x::'a::len word) < y"
  shows "unat (x + 1) = unat x + 1"
proof -
  have "unat y < 2 ^ LENGTH('a)" by (rule unsigned_less)
  then have "unat x + 1 < 2 ^ LENGTH('a)"
    using assms unfolding word_less_nat_alt by linarith
  then show ?thesis by (simp add: unat_word_ariths)
qed

end
