(* ===== verification/Max_Heap.thy ===== *)
theory Max_Heap
  imports K_Prelude
begin

text \<open>
  The binary max-heap of \<^verbatim>\<open>max_heap.c\<close>, which the frame allocator uses to hold the
  page numbers that were given back. The array is the list \<open>heapArray\<close>, of which the
  first \<open>CurrentSize\<close> cells are in use. Positions are array indices: the C code keeps
  them in an \<^verbatim>\<open>int\<close>, which is exact for every heap of fewer than \<open>2^31\<close> cells
  (the kernel creates one, of at most 2056 cells).
\<close>

section \<open>Data and operations\<close>

record maxHeap =
  heapArray :: "u64 list"
  CurrentSize :: nat
  MaxSize :: nat

text \<open>
  \<open>base\<close> is the array that \<^verbatim>\<open>buddy_alloc\<close> returned for the \<^verbatim>\<open>8*n\<close> bytes.
\<close>

definition heap_init :: "u64 list \<Rightarrow> nat \<Rightarrow> maxHeap" where
  "heap_init base n = \<lparr>heapArray = base, CurrentSize = 0, MaxSize = n\<rparr>"

definition heap_empty :: "maxHeap \<Rightarrow> bool" where
  "heap_empty h \<longleftrightarrow> CurrentSize h = 0"

definition heap_leaf :: "maxHeap \<Rightarrow> nat \<Rightarrow> bool" where
  "heap_leaf h pos \<longleftrightarrow> pos > CurrentSize h div 2 \<and> pos < CurrentSize h"

definition heap_lc :: "nat \<Rightarrow> nat" where
  "heap_lc pos = 2 * pos + 1"

definition heap_rc :: "nat \<Rightarrow> nat" where
  "heap_rc pos = 2 * pos + 2"

definition heap_parent :: "nat \<Rightarrow> nat" where
  "heap_parent pos = (pos - 1) div 2"

lemma heap_parent_less [simp, termination_simp]: "0 < p \<Longrightarrow> heap_parent p < p"
  by (simp add: heap_parent_def)

text \<open>The loop of \<^verbatim>\<open>heap_SiftUp\<close>: larger parents move down into the hole at \<open>p\<close>.\<close>

fun sift_up_loop :: "u64 list \<Rightarrow> nat \<Rightarrow> u64 \<Rightarrow> u64 list \<times> nat" where
  "sift_up_loop a p t =
     (if 0 < p \<and> a ! heap_parent p < t
      then sift_up_loop (a[p := a ! heap_parent p]) (heap_parent p) t
      else (a, p))"

declare sift_up_loop.simps [simp del]

definition heap_SiftUp :: "maxHeap \<Rightarrow> nat \<Rightarrow> maxHeap" where
  "heap_SiftUp h pos =
     (let t = heapArray h ! pos; (a, p) = sift_up_loop (heapArray h) pos t
      in h\<lparr>heapArray := a[p := t]\<rparr>)"

text \<open>
  The loop of \<^verbatim>\<open>heap_SiftDown\<close>: \<open>j\<close> starts at the left child, moves to the right one
  when that exists and is larger, and the loop stops when the saved value is not smaller.
\<close>

function sift_down_loop :: "u64 list \<Rightarrow> nat \<Rightarrow> nat \<Rightarrow> nat \<Rightarrow> u64 \<Rightarrow> u64 list \<times> nat" where
  "sift_down_loop a n i j t =
     (if j < n
      then (let j' = (if j < n - 1 \<and> a ! j < a ! (j + 1) then j + 1 else j)
            in if t < a ! j'
               then sift_down_loop (a[i := a ! j']) n j' (2 * j' + 1) t
               else (a, i))
      else (a, i))"
  by pat_completeness auto
termination
  by (relation "measure (\<lambda>(a, n, i, j, t). n - j)") (auto split: if_splits)

declare sift_down_loop.simps [simp del]

definition heap_SiftDown :: "maxHeap \<Rightarrow> nat \<Rightarrow> maxHeap" where
  "heap_SiftDown h pos =
     (let t = heapArray h ! pos;
          (a, i) = sift_down_loop (heapArray h) (CurrentSize h) pos (2 * pos + 1) t
      in h\<lparr>heapArray := a[i := t]\<rparr>)"

definition heap_insert :: "maxHeap \<Rightarrow> u64 \<Rightarrow> maxHeap res" where
  "heap_insert h newnode =
     (if CurrentSize h = MaxSize h then Fail (Panic ''no space for maxheap !'')
      else bind_res (awrite (heapArray h) (CurrentSize h) newnode) (\<lambda>a.
             let h' = heap_SiftUp (h\<lparr>heapArray := a\<rparr>) (CurrentSize h)
             in Ok (h'\<lparr>CurrentSize := CurrentSize h' + 1\<rparr>)))"

definition heap_removeMax :: "maxHeap \<Rightarrow> maxHeap res" where
  "heap_removeMax h =
     (if heap_empty h then Fail (Panic ''no elements in this maxheap !'')
      else bind_res (aread (heapArray h) 0) (\<lambda>t.
           bind_res (aread (heapArray h) (CurrentSize h - 1)) (\<lambda>l.
             let h' = h\<lparr>heapArray := (heapArray h)[0 := l, CurrentSize h - 1 := t],
                        CurrentSize := CurrentSize h - 1\<rparr>
             in Ok (if CurrentSize h' > 1 then heap_SiftDown h' 0 else h'))))"

definition heap_top :: "maxHeap \<Rightarrow> u64 res" where
  "heap_top h = aread (heapArray h) 0"

text \<open>The scan of \<^verbatim>\<open>is_some\<close>, from index \<open>i\<close>.\<close>

function is_some_loop :: "maxHeap \<Rightarrow> u64 \<Rightarrow> nat \<Rightarrow> bool" where
  "is_some_loop m ppn i =
     (if i < CurrentSize m
      then (if heapArray m ! i = ppn then True else is_some_loop m ppn (i + 1))
      else False)"
  by pat_completeness auto
termination
  by (relation "measure (\<lambda>(m, ppn, i). CurrentSize m - i)") auto

declare is_some_loop.simps [simp del]

definition is_some :: "maxHeap \<Rightarrow> u64 \<Rightarrow> bool" where
  "is_some m ppn = is_some_loop m ppn 0"

section \<open>Well-formedness\<close>

text \<open>The cells in use, as a list and as a multiset.\<close>

abbreviation heap_cells :: "maxHeap \<Rightarrow> u64 list" where
  "heap_cells h \<equiv> take (CurrentSize h) (heapArray h)"

definition heap_mset :: "maxHeap \<Rightarrow> u64 multiset" where
  "heap_mset h = mset (heap_cells h)"

text \<open>No cell is larger than its parent.\<close>

definition heap_ordered :: "u64 list \<Rightarrow> nat \<Rightarrow> bool" where
  "heap_ordered a n \<longleftrightarrow> (\<forall>k < n. 0 < k \<longrightarrow> a ! k \<le> a ! heap_parent k)"

definition heap_wf :: "maxHeap \<Rightarrow> bool" where
  "heap_wf h \<longleftrightarrow> CurrentSize h \<le> MaxSize h \<and> length (heapArray h) = MaxSize h
     \<and> MaxSize h < 2 ^ 31 \<and> heap_ordered (heapArray h) (CurrentSize h)"

lemma heap_wfD:
  assumes "heap_wf h"
  shows "CurrentSize h \<le> MaxSize h" and "length (heapArray h) = MaxSize h"
    and "heap_ordered (heapArray h) (CurrentSize h)" and "MaxSize h < 2 ^ 31"
  using assms by (auto simp: heap_wf_def)

lemma heap_root_max:
  "heap_ordered a n \<Longrightarrow> k < n \<Longrightarrow> a ! k \<le> a ! 0"
proof (induction k rule: less_induct)
  case (less k)
  show ?case
  proof (cases "k = 0")
    case False
    then have "a ! k \<le> a ! heap_parent k" using less.prems by (simp add: heap_ordered_def)
    also have "\<dots> \<le> a ! 0" using False less by (simp add: heap_parent_def)
    finally show ?thesis .
  qed simp
qed

section \<open>Sifting up\<close>

text \<open>
  While the hole moves up, the array with the saved value put into the hole is ordered
  except between the hole and its parent, and what hangs below the hole also fits below
  the hole's parent.
\<close>

definition heap_except_up :: "u64 list \<Rightarrow> nat \<Rightarrow> nat \<Rightarrow> bool" where
  "heap_except_up b n p \<longleftrightarrow>
     (\<forall>k < n. 0 < k \<longrightarrow> k \<noteq> p \<longrightarrow> b ! k \<le> b ! heap_parent k) \<and>
     (\<forall>k < n. 0 < k \<longrightarrow> 0 < p \<longrightarrow> heap_parent k = p \<longrightarrow> b ! k \<le> b ! heap_parent p)"

definition swap_cells :: "'a list \<Rightarrow> nat \<Rightarrow> nat \<Rightarrow> 'a list" where
  "swap_cells a i j = a[i := a ! j, j := a ! i]"

lemma swap_cells_length [simp]: "length (swap_cells a i j) = length a"
  by (simp add: swap_cells_def)

lemma swap_cells_nth:
  "i < length a \<Longrightarrow> j < length a \<Longrightarrow>
     swap_cells a i j ! k = (if k = j then a ! i else if k = i then a ! j else a ! k)"
  by (auto simp: swap_cells_def nth_list_update)

lemma mset_take_swap_cells:
  assumes "i < n" and "j < n" and "n \<le> length a"
  shows "mset (take n (swap_cells a i j)) = mset (take n a)"
proof -
  have "take n (swap_cells a i j) = (take n a)[i := take n a ! j, j := take n a ! i]"
    using assms by (simp add: swap_cells_def take_update_swap)
  then show ?thesis using assms mset_swap [of j "take n a" i] by simp
qed

lemma hole_moves:
  assumes "p < length a" and "q < length a" and "p \<noteq> q"
  shows "(a[p := a ! q])[q := t] = swap_cells (a[p := t]) p q"
  using assms by (auto simp: swap_cells_def list_eq_iff_nth_eq nth_list_update)

lemma heap_except_up_step:
  assumes ex: "heap_except_up b n p" and p: "0 < p" "p < n" and n: "n \<le> length b"
    and lt: "b ! heap_parent p < b ! p"
  shows "heap_except_up (swap_cells b p (heap_parent p)) n (heap_parent p)"
proof -
  let ?q = "heap_parent p"
  have q: "?q < p" using p by simp
  have nth: "swap_cells b p ?q ! k = (if k = ?q then b ! p else if k = p then b ! ?q else b ! k)" for k
    using p q n by (simp add: swap_cells_nth)
  have A: "swap_cells b p ?q ! k \<le> swap_cells b p ?q ! heap_parent k"
    if k: "k < n" "0 < k" "k \<noteq> ?q" for k
  proof (cases "k = p")
    case True
    then show ?thesis using lt q by (simp add: nth)
  next
    case False
    have kle: "b ! k \<le> b ! heap_parent k" using ex k False by (simp add: heap_except_up_def)
    show ?thesis
    proof (cases "heap_parent k = p")
      case True
      then have "b ! k \<le> b ! ?q" using ex k p by (auto simp: heap_except_up_def)
      then show ?thesis using True False k q by (simp add: nth)
    next
      case False2: False
      then show ?thesis using kle lt False k by (auto simp: nth)
    qed
  qed
  have B: "swap_cells b p ?q ! k \<le> swap_cells b p ?q ! heap_parent ?q"
    if k: "k < n" "0 < k" "0 < ?q" "heap_parent k = ?q" for k
  proof -
    have qn: "?q < n" using q p(2) by (rule less_trans)
    have qq: "heap_parent ?q < ?q" using k by simp
    have up: "b ! ?q \<le> b ! heap_parent ?q"
      using ex qn k q by (simp add: heap_except_up_def)
    show ?thesis
    proof (cases "k = p")
      case True
      then show ?thesis using up qq q by (simp add: nth)
    next
      case False
      then have "b ! k \<le> b ! ?q" using ex k by (auto simp: heap_except_up_def)
      moreover have "k \<noteq> ?q" using k by (metis heap_parent_less less_irrefl)
      ultimately show ?thesis using False up qq q by (simp add: nth)
    qed
  qed
  show ?thesis unfolding heap_except_up_def using A B by blast
qed

lemma sift_up_loop_correct:
  assumes "sift_up_loop a p t = (a', p')" and "p < n" and "n \<le> length a"
    and "heap_except_up (a[p := t]) n p"
  shows "length a' = length a \<and> p' < n \<and> heap_ordered (a'[p' := t]) n
    \<and> mset (take n (a'[p' := t])) = mset (take n (a[p := t]))
    \<and> drop n a' = drop n a"
  using assms
proof (induction a p t arbitrary: a' p' rule: sift_up_loop.induct)
  case (1 a p t)
  let ?q = "heap_parent p"
  show ?case
  proof (cases "0 < p \<and> a ! ?q < t")
    case True
    have q: "?q < p" using True by simp
    have mv: "(a[p := a ! ?q])[?q := t] = swap_cells (a[p := t]) p ?q"
      using q "1.prems" by (intro hole_moves) auto
    have "heap_except_up (swap_cells (a[p := t]) p ?q) n ?q"
      using "1.prems" True q by (intro heap_except_up_step) auto
    moreover have "sift_up_loop (a[p := a ! ?q]) ?q t = (a', p')"
      using "1.prems"(1) True by (simp add: sift_up_loop.simps [of a p t])
    ultimately have IH: "length a' = length a \<and> p' < n \<and> heap_ordered (a'[p' := t]) n
        \<and> mset (take n (a'[p' := t])) = mset (take n ((a[p := a ! ?q])[?q := t]))
        \<and> drop n a' = drop n (a[p := a ! ?q])"
      using "1.IH" [OF True] q "1.prems" by (simp add: mv)
    have "mset (take n (swap_cells (a[p := t]) p ?q)) = mset (take n (a[p := t]))"
      using q "1.prems" by (intro mset_take_swap_cells) auto
    then show ?thesis using IH "1.prems" by (simp add: mv)
  next
    case False
    then have eq: "a' = a" "p' = p"
      using "1.prems"(1) by (auto simp: sift_up_loop.simps [of a p t])
    have "heap_ordered (a[p := t]) n"
      unfolding heap_ordered_def
    proof (intro allI impI)
      fix k assume k: "k < n" "0 < k"
      show "a[p := t] ! k \<le> a[p := t] ! heap_parent k"
      proof (cases "k = p")
        case True
        have "?q \<noteq> p" using True k by (metis heap_parent_less less_irrefl)
        then have "a[p := t] ! ?q = a ! ?q" by simp
        then show ?thesis using True False k "1.prems" by simp
      next
        case False
        then show ?thesis using "1.prems"(4) k by (simp add: heap_except_up_def)
      qed
    qed
    then show ?thesis using eq "1.prems" by simp
  qed
qed

section \<open>Sifting down\<close>

text \<open>
  Dually, while the hole moves down, the array is ordered except below the hole, and
  what hangs below the hole fits below the hole's parent.
\<close>

definition heap_except_down :: "u64 list \<Rightarrow> nat \<Rightarrow> nat \<Rightarrow> bool" where
  "heap_except_down b n i \<longleftrightarrow>
     (\<forall>k < n. 0 < k \<longrightarrow> heap_parent k \<noteq> i \<longrightarrow> b ! k \<le> b ! heap_parent k) \<and>
     (\<forall>k < n. 0 < k \<longrightarrow> 0 < i \<longrightarrow> heap_parent k = i \<longrightarrow> b ! k \<le> b ! heap_parent i)"

lemma heap_parent_eq: "0 < k \<Longrightarrow> heap_parent k = i \<longleftrightarrow> k = 2 * i + 1 \<or> k = 2 * i + 2"
  unfolding heap_parent_def by presburger

lemma heap_except_down_step:
  assumes ex: "heap_except_down b n i" and j: "j < n" "0 < j" "heap_parent j = i"
    and n: "n \<le> length b"
    and big: "\<And>k. k < n \<Longrightarrow> 0 < k \<Longrightarrow> heap_parent k = i \<Longrightarrow> b ! k \<le> b ! j"
    and lt: "b ! i < b ! j"
  shows "heap_except_down (swap_cells b i j) n j"
proof -
  have ij: "i < j" using j heap_parent_less by blast
  have nth: "swap_cells b i j ! k = (if k = j then b ! i else if k = i then b ! j else b ! k)" for k
    using ij j n by (simp add: swap_cells_nth)
  have A: "swap_cells b i j ! k \<le> swap_cells b i j ! heap_parent k"
    if k: "k < n" "0 < k" "heap_parent k \<noteq> j" for k
  proof -
    consider "k = j" | "k \<noteq> j" "k = i" | "k \<noteq> j" "k \<noteq> i" "heap_parent k = i"
      | "k \<noteq> j" "k \<noteq> i" "heap_parent k \<noteq> i" by blast
    then show ?thesis
    proof cases
      case 1
      then show ?thesis using j lt ij by (auto simp: nth)
    next
      case 2
      then have "heap_parent i < i" using k by simp
      moreover have "b ! j \<le> b ! heap_parent i"
        using ex j k 2 by (auto simp: heap_except_down_def)
      ultimately show ?thesis using 2 ij by (simp add: nth)
    next
      case 3
      then show ?thesis using big k ij by (simp add: nth)
    next
      case 4
      then show ?thesis using ex k by (simp add: nth heap_except_down_def)
    qed
  qed
  have B: "swap_cells b i j ! k \<le> swap_cells b i j ! heap_parent j"
    if k: "k < n" "0 < k" "heap_parent k = j" for k
  proof -
    have "j < k" using k heap_parent_less by blast
    moreover have "b ! k \<le> b ! j"
      using ex k j ij by (auto simp: heap_except_down_def)
    ultimately show ?thesis using j ij by (simp add: nth)
  qed
  show ?thesis unfolding heap_except_down_def using A B by blast
qed

lemma heap_except_down_done:
  assumes "heap_except_down b n i"
    and "\<And>k. k < n \<Longrightarrow> 0 < k \<Longrightarrow> heap_parent k = i \<Longrightarrow> b ! k \<le> b ! i"
  shows "heap_ordered b n"
  using assms unfolding heap_ordered_def heap_except_down_def by metis

lemma sift_down_loop_correct:
  assumes "sift_down_loop a n i j t = (a', i')" and "j = 2 * i + 1" and "i < n"
    and "n \<le> length a" and "heap_except_down (a[i := t]) n i"
  shows "length a' = length a \<and> i' < n \<and> heap_ordered (a'[i' := t]) n
    \<and> mset (take n (a'[i' := t])) = mset (take n (a[i := t]))
    \<and> drop n a' = drop n a"
  using assms
proof (induction a n i j t arbitrary: a' i' rule: sift_down_loop.induct)
  case (1 a n i j t)
  define j' where "j' = (if j < n - 1 \<and> a ! j < a ! (j + 1) then j + 1 else j)"
  have unfold: "sift_down_loop a n i j t =
      (if j < n then if t < a ! j' then sift_down_loop (a[i := a ! j']) n j' (2 * j' + 1) t
         else (a, i) else (a, i))"
    by (subst sift_down_loop.simps) (simp add: j'_def Let_def)
  have other: "a[i := t] ! k = a ! k" if "0 < k" "heap_parent k = i" for k
    using that heap_parent_less [of k] by (simp add: nth_list_update_neq)
  have big: "a ! k \<le> a ! j'" if "k < n" "0 < k" "heap_parent k = i" for k
    using that "1.prems"(2) by (auto simp: j'_def heap_parent_eq)
  show ?case
  proof (cases "j < n \<and> t < a ! j'")
    case True
    have j': "j' < n" "0 < j'" "heap_parent j' = i"
      using True "1.prems"(2) by (auto simp: j'_def heap_parent_eq)
    have ij: "i < j'" using j' heap_parent_less by blast
    have mv: "(a[i := a ! j'])[j' := t] = swap_cells (a[i := t]) i j'"
      using ij j' "1.prems" by (intro hole_moves) auto
    have "heap_except_down (swap_cells (a[i := t]) i j') n j'"
      using "1.prems" j' big other True
      by (intro heap_except_down_step) (auto simp: other)
    moreover have "sift_down_loop (a[i := a ! j']) n j' (2 * j' + 1) t = (a', i')"
      using "1.prems"(1) True by (simp add: unfold)
    ultimately have IH: "length a' = length a \<and> i' < n \<and> heap_ordered (a'[i' := t]) n
        \<and> mset (take n (a'[i' := t])) = mset (take n ((a[i := a ! j'])[j' := t]))
        \<and> drop n a' = drop n (a[i := a ! j'])"
      using "1.IH" [OF _ j'_def] True j' "1.prems" by (simp add: mv)
    have "mset (take n (swap_cells (a[i := t]) i j')) = mset (take n (a[i := t]))"
      using ij j' "1.prems" by (intro mset_take_swap_cells) auto
    then show ?thesis using IH "1.prems" by (simp add: mv)
  next
    case False
    then have eq: "a' = a" "i' = i" using "1.prems"(1) unfold by (auto split: if_splits)
    have "heap_ordered (a[i := t]) n"
    proof (rule heap_except_down_done [OF "1.prems"(5)])
      fix k assume k: "k < n" "0 < k" "heap_parent k = i"
      then have "j < n" using "1.prems"(2) by (auto simp: heap_parent_eq)
      then have "a ! j' \<le> t" using False by auto
      then show "a[i := t] ! k \<le> a[i := t] ! i"
        using k big [OF k] other [OF k(2,3)] "1.prems" by simp
    qed
    then show ?thesis using eq "1.prems" by simp
  qed
qed

section \<open>The operations on the whole heap\<close>

lemma heap_insert_full: "CurrentSize h = MaxSize h \<Longrightarrow>
    heap_insert h x = Fail (Panic ''no space for maxheap !'')"
  by (simp add: heap_insert_def)

lemma heap_except_up_new:
  assumes "heap_ordered a n" and "n < length a"
  shows "heap_except_up (a[n := x]) (Suc n) n"
proof -
  have "heap_parent k \<noteq> n" if "k < Suc n" "0 < k" for k
    using that heap_parent_less [of k] by linarith
  moreover have "a[n := x] ! k \<le> a[n := x] ! heap_parent k" if "k < n" "0 < k" for k
    using that assms less_trans [OF heap_parent_less that(1)] by (simp add: heap_ordered_def)
  ultimately show ?thesis unfolding heap_except_up_def by (auto simp: less_Suc_eq)
qed

lemma heap_insert_Ok:
  assumes wf: "heap_wf h" and room: "CurrentSize h < MaxSize h"
  shows "\<exists>h'. heap_insert h x = Ok h' \<and> heap_wf h' \<and> CurrentSize h' = CurrentSize h + 1
    \<and> MaxSize h' = MaxSize h \<and> heap_mset h' = add_mset x (heap_mset h)"
proof -
  let ?n = "CurrentSize h" and ?a = "heapArray h"
  obtain a' p' where lp: "sift_up_loop (?a[?n := x]) ?n x = (a', p')" by fastforce
  have len: "length ?a = MaxSize h" using wf by (simp add: heap_wf_def)
  have ex: "heap_except_up (?a[?n := x]) (Suc ?n) ?n"
    using wf room by (intro heap_except_up_new) (auto simp: heap_wf_def)
  have "length a' = length ?a \<and> p' < Suc ?n \<and> heap_ordered (a'[p' := x]) (Suc ?n)
      \<and> mset (take (Suc ?n) (a'[p' := x])) = mset (take (Suc ?n) (?a[?n := x]))"
    using sift_up_loop_correct [OF lp, of "Suc ?n"] ex room len by simp
  moreover have "take (Suc ?n) (?a[?n := x]) = take ?n ?a @ [x]"
    using room len by (simp add: take_Suc_conv_app_nth)
  ultimately show ?thesis
    using wf room len
    by (simp add: heap_insert_def heap_SiftUp_def lp Let_def heap_wf_def heap_mset_def)
qed

lemma heap_removeMax_empty: "CurrentSize h = 0 \<Longrightarrow>
    heap_removeMax h = Fail (Panic ''no elements in this maxheap !'')"
  by (simp add: heap_removeMax_def heap_empty_def)

text \<open>Swapping the root with the last cell leaves a heap that is wrong at the root only.\<close>

lemma heap_except_down_root:
  assumes "heap_ordered a (Suc n)" and "Suc n \<le> length a"
  shows "heap_except_down (a[0 := a ! n, n := a ! 0]) n 0"
proof -
  have nth: "a[0 := a ! n, n := a ! 0] ! k = (if k = n then a ! 0 else if k = 0 then a ! n else a ! k)"
    for k using less_le_trans [OF zero_less_Suc assms(2)] assms(2) by (auto simp: nth_list_update)
  have "a ! k \<le> a ! heap_parent k" if "k < n" "0 < k" for k
    using that assms(1) by (simp add: heap_ordered_def)
  moreover have "heap_parent k < n" if "k < n" "0 < k" for k
    using that heap_parent_less [of k] by linarith
  ultimately show ?thesis unfolding heap_except_down_def by (auto simp: nth)
qed

lemma mset_drop_last_root:
  assumes "Suc n \<le> length a"
  shows "mset (take n (a[0 := a ! n, n := a ! 0])) = mset (take (Suc n) a) - {#a ! 0#}"
proof -
  have sw: "a[0 := a ! n, n := a ! 0] = swap_cells a 0 n" by (simp add: swap_cells_def)
  have "mset (take (Suc n) a) = mset (take (Suc n) (swap_cells a 0 n))"
    using assms by (simp add: mset_take_swap_cells)
  also have "take (Suc n) (swap_cells a 0 n) = take n (swap_cells a 0 n) @ [a ! 0]"
    using less_le_trans [OF zero_less_Suc assms] assms
    by (simp add: take_Suc_conv_app_nth swap_cells_nth)
  finally show ?thesis by (simp add: sw)
qed

lemma heap_removeMax_Ok:
  assumes wf: "heap_wf h" and ne: "CurrentSize h \<noteq> 0"
  shows "\<exists>h'. heap_removeMax h = Ok h' \<and> heap_wf h' \<and> CurrentSize h' = CurrentSize h - 1
    \<and> MaxSize h' = MaxSize h \<and> heap_mset h' = heap_mset h - {#heapArray h ! 0#}"
proof -
  let ?a = "heapArray h"
  obtain n where n: "CurrentSize h = Suc n" using ne by (cases "CurrentSize h") auto
  have len: "length ?a = MaxSize h" "Suc n \<le> length ?a" and ord: "heap_ordered ?a (Suc n)"
    using wf n by (auto simp: heap_wf_def)
  define b where "b = ?a[0 := ?a ! n, n := ?a ! 0]"
  have lb: "length b = MaxSize h" using len by (simp add: b_def)
  have ms: "mset (take n b) = heap_mset h - {#?a ! 0#}"
    using mset_drop_last_root [OF len(2)] n by (simp add: heap_mset_def b_def)
  have rm: "heap_removeMax h = (let h' = h\<lparr>heapArray := b, CurrentSize := n\<rparr>
      in Ok (if n > 1 then heap_SiftDown h' 0 else h'))"
    using n len by (simp add: heap_removeMax_def heap_empty_def Let_def b_def)
  show ?thesis
  proof (cases "n > 1")
    case True
    obtain a' i' where lp: "sift_down_loop b n 0 1 (b ! 0) = (a', i')" by fastforce
    have "heap_except_down (b[0 := b ! 0]) n 0"
      using heap_except_down_root [OF ord len(2)] by (simp add: b_def)
    then have "length a' = length b \<and> i' < n \<and> heap_ordered (a'[i' := b ! 0]) n
        \<and> mset (take n (a'[i' := b ! 0])) = mset (take n (b[0 := b ! 0]))"
      using sift_down_loop_correct [OF lp] True len lb by simp
    then show ?thesis
      using True wf n len lb ms lp
      by (simp add: rm Let_def heap_SiftDown_def heap_wf_def heap_mset_def)
  next
    case False
    then have "heap_ordered b n" by (auto simp: heap_ordered_def)
    then show ?thesis using False wf n len lb ms
      by (simp add: rm Let_def heap_wf_def heap_mset_def)
  qed
qed

lemma heap_top_Max:
  assumes "heap_wf h" and "CurrentSize h \<noteq> 0"
  shows "heap_top h = Ok (heapArray h ! 0)" and "heapArray h ! 0 \<in># heap_mset h"
    and "\<And>x. x \<in># heap_mset h \<Longrightarrow> x \<le> heapArray h ! 0"
  using assms
  by (auto simp: heap_top_def heap_wf_def heap_mset_def set_take_nth intro: heap_root_max)

lemma is_some_loop_iff:
  "is_some_loop m ppn i \<longleftrightarrow> (\<exists>k. i \<le> k \<and> k < CurrentSize m \<and> heapArray m ! k = ppn)"
proof (induction m ppn i rule: is_some_loop.induct)
  case (1 m ppn i)
  show ?case
  proof (cases "i < CurrentSize m \<and> heapArray m ! i \<noteq> ppn")
    case True
    then have "is_some_loop m ppn i \<longleftrightarrow>
        (\<exists>k. i + 1 \<le> k \<and> k < CurrentSize m \<and> heapArray m ! k = ppn)"
      using 1 by (subst is_some_loop.simps) simp
    also have "\<dots> \<longleftrightarrow> (\<exists>k. i \<le> k \<and> k < CurrentSize m \<and> heapArray m ! k = ppn)"
      using True by (metis Suc_eq_plus1 Suc_leD not_less_eq_eq le_antisym)
    finally show ?thesis .
  next
    case False
    then show ?thesis by (subst is_some_loop.simps) auto
  qed
qed

lemma is_some_iff: "heap_wf m \<Longrightarrow> is_some m ppn \<longleftrightarrow> ppn \<in># heap_mset m"
  by (auto simp: is_some_def is_some_loop_iff heap_mset_def set_take_nth heap_wf_def)

lemma heap_init_wf: "length base = n \<Longrightarrow> n < 2 ^ 31 \<Longrightarrow>
    heap_wf (heap_init base n) \<and> heap_mset (heap_init base n) = {#}"
  by (simp add: heap_init_def heap_wf_def heap_ordered_def heap_mset_def)

section \<open>The interface\<close>

text \<open>
  What a client of the heap relies on: a bounded queue over a multiset, whose top is the
  largest element.
\<close>

locale bounded_max_queue =
  fixes ins :: "'q \<Rightarrow> 'a::linorder \<Rightarrow> 'q res"
    and rem :: "'q \<Rightarrow> 'q res"
    and top :: "'q \<Rightarrow> 'a res"
    and mem :: "'q \<Rightarrow> 'a \<Rightarrow> bool"
    and invar :: "'q \<Rightarrow> bool"
    and elems :: "'q \<Rightarrow> 'a multiset"
    and cap :: "'q \<Rightarrow> nat"
  assumes ins_ok: "invar q \<Longrightarrow> size (elems q) < cap q \<Longrightarrow>
      \<exists>q'. ins q x = Ok q' \<and> invar q' \<and> cap q' = cap q \<and> elems q' = add_mset x (elems q)"
    and rem_ok: "invar q \<Longrightarrow> elems q \<noteq> {#} \<Longrightarrow>
      \<exists>q' t. rem q = Ok q' \<and> top q = Ok t \<and> invar q' \<and> cap q' = cap q \<and> elems q' = elems q - {#t#}"
    and top_max: "invar q \<Longrightarrow> elems q \<noteq> {#} \<Longrightarrow> top q = Ok (Max_mset (elems q))"
    and mem_iff: "invar q \<Longrightarrow> mem q x \<longleftrightarrow> x \<in># elems q"
begin

text \<open>In a queue without repetitions, removing the top leaves only smaller elements.\<close>

lemma rem_below_top:
  assumes "invar q" and "elems q \<noteq> {#}" and "\<And>x. count (elems q) x \<le> 1"
  obtains q' t where "rem q = Ok q'" and "top q = Ok t" and "invar q'" and "cap q' = cap q"
    and "elems q' = elems q - {#t#}" and "t \<in># elems q" and "\<And>x. x \<in># elems q' \<Longrightarrow> x < t"
proof -
  obtain q' t where q': "rem q = Ok q'" "top q = Ok t" "invar q'" "cap q' = cap q"
    "elems q' = elems q - {#t#}" using rem_ok assms by metis
  have t: "t = Max_mset (elems q)" using top_max assms q'(2) by simp
  then have tin: "t \<in># elems q" using assms(2) by simp
  have "x < t" if "x \<in># elems q'" for x
  proof -
    have xin: "x \<in># elems q" using that q'(5) by (auto dest: in_diffD)
    have "x \<noteq> t"
    proof
      assume "x = t"
      then have "count (elems q) t \<ge> 2" using that q'(5) by (simp add: in_diff_count)
      then show False using assms(3) [of t] by simp
    qed
    moreover have "x \<le> t" using xin t by simp
    ultimately show ?thesis by simp
  qed
  then show ?thesis using that q' tin by blast
qed

end

lemma heap_mset_size: "heap_wf h \<Longrightarrow> size (heap_mset h) = CurrentSize h"
  by (simp add: heap_mset_def heap_wf_def)

lemma heap_mset_empty_iff: "heap_wf h \<Longrightarrow> heap_mset h = {#} \<longleftrightarrow> CurrentSize h = 0"
  using heap_mset_size [of h] by (metis size_eq_0_iff_empty)

interpretation mh: bounded_max_queue heap_insert heap_removeMax heap_top is_some heap_wf heap_mset MaxSize
proof
  fix q :: maxHeap and x :: u64
  assume wf: "heap_wf q"
  show "\<exists>q'. heap_insert q x = Ok q' \<and> heap_wf q' \<and> MaxSize q' = MaxSize q
      \<and> heap_mset q' = add_mset x (heap_mset q)" if "size (heap_mset q) < MaxSize q"
    using heap_insert_Ok [OF wf, of x] that heap_mset_size [OF wf] by auto
  assume ne: "heap_mset q \<noteq> {#}"
  then have cs: "CurrentSize q \<noteq> 0" using heap_mset_empty_iff [OF wf] by simp
  show "\<exists>q' t. heap_removeMax q = Ok q' \<and> heap_top q = Ok t \<and> heap_wf q' \<and> MaxSize q' = MaxSize q
      \<and> heap_mset q' = heap_mset q - {#t#}"
    using heap_removeMax_Ok [OF wf cs] heap_top_Max(1) [OF wf cs] by auto
  show "heap_top q = Ok (Max_mset (heap_mset q))"
    using heap_top_Max [OF wf cs] by (auto intro: Max_eqI [symmetric])
next
  fix q :: maxHeap and x :: u64
  assume "heap_wf q"
  then show "is_some q x \<longleftrightarrow> x \<in># heap_mset q" by (rule is_some_iff)
qed

section \<open>Properties\<close>

text \<open>Take out the largest element until nothing is left.\<close>

fun heap_drain :: "nat \<Rightarrow> maxHeap \<Rightarrow> u64 list res" where
  "heap_drain 0 h = Ok []"
| "heap_drain (Suc n) h =
     bind_res (heap_top h) (\<lambda>t. bind_res (heap_removeMax h) (\<lambda>h. bind_res (heap_drain n h) (\<lambda>ts. Ok (t # ts))))"

lemma heap_drain_ok:
  assumes "heap_wf h" and "CurrentSize h = n"
  shows "\<exists>ts. heap_drain n h = Ok ts \<and> mset ts = heap_mset h \<and> sorted_wrt (\<ge>) ts"
  using assms
proof (induction n arbitrary: h)
  case 0
  then show ?case using heap_mset_empty_iff [of h] by simp
next
  case (Suc n)
  then have ne: "CurrentSize h \<noteq> 0" by simp
  note top = heap_top_Max [OF Suc.prems(1) ne]
  obtain h' where h': "heap_removeMax h = Ok h'" "heap_wf h'" "CurrentSize h' = n"
    "heap_mset h' = heap_mset h - {#heapArray h ! 0#}"
    using heap_removeMax_Ok [OF Suc.prems(1) ne] Suc.prems(2) by auto
  then obtain ts where ts: "heap_drain n h' = Ok ts" "mset ts = heap_mset h'" "sorted_wrt (\<ge>) ts"
    using Suc.IH by blast
  have "\<forall>x \<in> set ts. x \<le> heapArray h ! 0"
  proof
    fix x assume "x \<in> set ts"
    then have "x \<in># heap_mset h'" using ts(2) by (metis set_mset_mset)
    then show "x \<le> heapArray h ! 0" using top(3) h'(4) in_diffD by metis
  qed
  then show ?case using ts h' top by simp
qed

text \<open>\<^verbatim>\<open>heap_insert\<close> on a well-formed heap with room adds exactly the new element and
  keeps the heap well-formed, and emptying the heap with \<^verbatim>\<open>heap_top\<close> and
  \<^verbatim>\<open>heap_removeMax\<close> then returns every element in descending order: the array code is
  a priority queue.\<close>

theorem heap_insert_drain_sorted:
  assumes "heap_wf h" and "CurrentSize h < MaxSize h"
  shows "\<exists>h' ts. heap_insert h x = Ok h' \<and> heap_wf h'
    \<and> heap_drain (CurrentSize h') h' = Ok ts \<and> mset ts = add_mset x (heap_mset h) \<and> sorted_wrt (\<ge>) ts"
  using heap_insert_Ok [OF assms, of x] heap_drain_ok by fastforce

theorem heap_insert_drain_sorted_witness:
  "\<exists>h' ts. heap_insert \<lparr>heapArray = [9, 4, 0, 0], CurrentSize = 2, MaxSize = 4\<rparr> 7 = Ok h' \<and> heap_wf h'
    \<and> heap_drain (CurrentSize h') h' = Ok ts \<and> mset ts = {#7, 9, 4#} \<and> sorted_wrt (\<ge>) ts"
proof -
  let ?h = "\<lparr>heapArray = [9, 4, 0, 0], CurrentSize = 2, MaxSize = 4\<rparr>"
  have "heap_wf ?h"
    by (simp add: heap_wf_def heap_ordered_def heap_parent_def less_2_cases_iff)
  moreover have "heap_mset ?h = {#9, 4#}" by (simp add: heap_mset_def)
  ultimately show ?thesis using heap_insert_drain_sorted [of ?h 7] by simp
qed

end
