(* ===== verification/Addr.thy ===== *)
theory Addr
  imports K_Prelude
begin

text \<open>
  Addresses and page numbers, from \<^verbatim>\<open>include/mm.h\<close>: both are 64-bit words, a page is
  4096 bytes, and the conversions are shifts, masks and divisions.
\<close>

type_synonym paddr = u64
type_synonym ppn = u64
type_synonym vaddr = u64
type_synonym vpn = u64

definition PAGE_SIZE :: u64 where "PAGE_SIZE = 4096"
definition PAGE_OFFSET_BITS :: nat where "PAGE_OFFSET_BITS = 12"
definition KERNEL_HEAP_SIZE :: u64 where "KERNEL_HEAP_SIZE = 4096 * 1024"
definition KERNEL_STACK_SIZE :: u64 where "KERNEL_STACK_SIZE = 4096 * 4"
definition USER_STACK_SIZE :: u64 where "USER_STACK_SIZE = 4096 * 2"
definition MEMORY_END :: u64 where "MEMORY_END = 0x80800000"
definition ULONG_MAX :: u64 where "ULONG_MAX = 0xffffffffffffffff"
definition TRAMPOLINE :: u64 where "TRAMPOLINE = ULONG_MAX - PAGE_SIZE + 1"
definition TRAP_CONTEXT :: u64 where "TRAP_CONTEXT = TRAMPOLINE - PAGE_SIZE"
definition VMA_START :: u64 where "VMA_START = 0x40000000"

lemmas page_consts = PAGE_SIZE_def PAGE_OFFSET_BITS_def

definition get_offset :: "u64 \<Rightarrow> u64" where
  "get_offset a = a AND (PAGE_SIZE - 1)"

definition is_aligned :: "u64 \<Rightarrow> bool" where
  "is_aligned a \<longleftrightarrow> get_offset a = 0"

definition pa_floor :: "paddr \<Rightarrow> ppn" where
  "pa_floor pa = pa div PAGE_SIZE"

definition pa_ceil :: "paddr \<Rightarrow> ppn" where
  "pa_ceil pa = (pa + PAGE_SIZE - 1) div PAGE_SIZE"

definition va_floor :: "vaddr \<Rightarrow> vpn" where
  "va_floor va = pa_floor va"

definition va_ceil :: "vaddr \<Rightarrow> vpn" where
  "va_ceil va = pa_ceil va"

definition pa2ppn :: "paddr \<Rightarrow> ppn" where
  "pa2ppn pa = pa_floor pa"

definition ppn2pa :: "ppn \<Rightarrow> paddr" where
  "ppn2pa p = push_bit PAGE_OFFSET_BITS p"

definition va2vpn :: "vaddr \<Rightarrow> vpn" where
  "va2vpn va = pa2ppn va"

definition vpn2va :: "vpn \<Rightarrow> vaddr" where
  "vpn2va v = ppn2pa v"

section \<open>Conversions\<close>

lemma PAGE_SIZE_pow: "PAGE_SIZE = 2 ^ 12" "PAGE_SIZE - 1 = mask 12"
  by (simp_all add: PAGE_SIZE_def mask_eq_exp_minus_1)

lemma get_offset_mask: "get_offset a = take_bit 12 a"
  by (simp add: get_offset_def PAGE_SIZE_def take_bit_eq_mask mask_eq_exp_minus_1)

lemma pa_floor_drop: "pa_floor a = drop_bit 12 a"
  by (simp add: pa_floor_def PAGE_SIZE_pow drop_bit_eq_div)

lemmas vpn_conv = va2vpn_def pa2ppn_def vpn2va_def ppn2pa_def PAGE_OFFSET_BITS_def pa_floor_drop

text \<open>A page number that fits its 52 bits survives the trip through its address.\<close>

lemma pa2ppn_ppn2pa: "p < 2 ^ 52 \<Longrightarrow> pa2ppn (ppn2pa p) = p"
proof -
  assume "p < 2 ^ 52"
  then have "take_bit 52 p = p"
    by (simp add: take_bit_eq_mask less_mask_eq)
  moreover have "drop_bit 12 (push_bit 12 p) = take_bit 52 p"
    by (rule bit_word_eqI) (auto simp: bit_simps)
  ultimately show ?thesis by (simp add: vpn_conv)
qed

text \<open>Page base and page offset put the address together again.\<close>

lemma addr_split: "ppn2pa (pa2ppn a) OR get_offset a = a"
  by (rule bit_word_eqI) (auto simp: vpn_conv get_offset_mask bit_simps)

lemma addr_split_add: "vpn2va (va2vpn a) + get_offset a = a"
proof -
  have "push_bit 12 (drop_bit 12 a) AND take_bit 12 a = 0"
    by (rule bit_word_eqI) (auto simp: bit_simps)
  then have "push_bit 12 (drop_bit 12 a) + take_bit 12 a = push_bit 12 (drop_bit 12 a) OR take_bit 12 a"
    by (simp add: disjunctive_add_eq_or)
  also have "\<dots> = a" by (rule bit_word_eqI) (auto simp: bit_simps)
  finally show ?thesis by (simp add: vpn_conv get_offset_mask)
qed

lemma get_offset_less: "unat (get_offset a) < 4096"
proof -
  have "unat (take_bit 12 a) < 2 ^ 12"
    by (simp add: unsigned_take_bit_eq take_bit_nat_less_exp del: power_numeral)
  then show ?thesis by (simp add: get_offset_mask)
qed

end
