(* ===== verification/Frame_Alloc.thy ===== *)
theory Frame_Alloc
  imports Max_Heap Addr
begin

text \<open>
  The physical page allocator of \<^verbatim>\<open>mm_frame_allocator.c\<close>. Pages below \<open>current\<close> have
  been handed out at least once; those that came back sit in the max-heap \<open>recycled\<close>,
  and whenever the largest of them is the page just below \<open>current\<close> the allocator moves
  \<open>current\<close> down. The structure's \<^verbatim>\<open>lock\<close> and \<^verbatim>\<open>map\<close> members are never used.
\<close>

section \<open>Operations\<close>

record FrameAllocator =
  fcurrent :: ppn
  fend :: ppn
  recycled :: maxHeap

text \<open>
  \<open>ekernel\<close> is the address of the linker symbol, \<open>base\<close> the array for the heap, which
  the C code takes from \<^verbatim>\<open>buddy_alloc\<close>.
\<close>

definition frame_allocator_init :: "paddr \<Rightarrow> u64 list \<Rightarrow> FrameAllocator" where
  "frame_allocator_init ekernel base =
     (let c = pa_ceil (ekernel + PAGE_SIZE); e = pa_floor MEMORY_END; page_nums = e - c
      in \<lparr>fcurrent = c, fend = e, recycled = heap_init base (unat page_nums)\<rparr>)"

definition frame_alloc :: "FrameAllocator \<Rightarrow> (ppn \<times> FrameAllocator) res" where
  "frame_alloc self =
     (if \<not> heap_empty (recycled self)
      then bind_res (aread (heapArray (recycled self)) (CurrentSize (recycled self) - 1)) (\<lambda>t.
             Ok (t, self\<lparr>recycled := (recycled self)\<lparr>CurrentSize := CurrentSize (recycled self) - 1\<rparr>\<rparr>))
      else if fcurrent self = fend self then Fail (Panic ''no frame to alloc !'')
      else let self' = self\<lparr>fcurrent := fcurrent self + 1\<rparr> in Ok (fcurrent self' - 1, self'))"

lemma heap_removeMax_size:
  "heap_removeMax h = Ok h' \<Longrightarrow> 0 < CurrentSize h \<and> CurrentSize h' = CurrentSize h - 1"
  by (auto simp: heap_removeMax_def heap_empty_def heap_SiftDown_def Let_def split: if_splits prod.splits)

text \<open>The coalescing loop of \<^verbatim>\<open>frame_dealloc\<close>.\<close>

function dealloc_loop :: "FrameAllocator \<Rightarrow> FrameAllocator res" where
  "dealloc_loop self =
     bind_res (heap_top (recycled self)) (\<lambda>t.
       if t = fcurrent self - 1
       then bind_res (heap_removeMax (recycled self)) (\<lambda>h.
              dealloc_loop (self\<lparr>recycled := h, fcurrent := fcurrent self - 1\<rparr>))
       else Ok self)"
  by pat_completeness auto
termination
  by (relation "measure (\<lambda>self. CurrentSize (recycled self))") (auto dest: heap_removeMax_size)

declare dealloc_loop.simps [simp del]

definition frame_dealloc :: "FrameAllocator \<Rightarrow> ppn \<Rightarrow> FrameAllocator res" where
  "frame_dealloc self ppn =
     (if ppn \<ge> fcurrent self \<or> is_some (recycled self) ppn
      then Fail (Panic ''Frame ppn has not been allocated!'')
      else bind_res (heap_insert (recycled self) ppn) (\<lambda>h. dealloc_loop (self\<lparr>recycled := h\<rparr>)))"

definition frame_remain_size :: "FrameAllocator \<Rightarrow> u64" where
  "frame_remain_size self = fend self - fcurrent self + of_nat (CurrentSize (recycled self))"

section \<open>Invariant\<close>

text \<open>
  \<open>lo\<close> is the value \<open>current\<close> had after initialisation. The recycled pages are distinct
  pages of \<open>[lo, current)\<close>, and the heap has room for every page there is.
\<close>

definition fa_inv :: "ppn \<Rightarrow> FrameAllocator \<Rightarrow> bool" where
  "fa_inv lo self \<longleftrightarrow> 0 < lo \<and> lo \<le> fcurrent self \<and> fcurrent self \<le> fend self
     \<and> heap_wf (recycled self) \<and> unat (fend self) - unat lo \<le> MaxSize (recycled self)
     \<and> distinct (heap_cells (recycled self))
     \<and> set (heap_cells (recycled self)) \<subseteq> {lo..<fcurrent self}"

text \<open>The pages that are handed out, and the pages that can still be handed out.\<close>

definition fa_allocated :: "ppn \<Rightarrow> FrameAllocator \<Rightarrow> ppn set" where
  "fa_allocated lo self = {lo..<fcurrent self} - set (heap_cells (recycled self))"

definition fa_free :: "FrameAllocator \<Rightarrow> ppn set" where
  "fa_free self = set (heap_cells (recycled self)) \<union> {fcurrent self..<fend self}"

text \<open>No recycled page sits just below \<open>current\<close>.\<close>

definition fa_coalesced :: "FrameAllocator \<Rightarrow> bool" where
  "fa_coalesced self \<longleftrightarrow> fcurrent self - 1 \<notin> set (heap_cells (recycled self))"

lemma card_word_interval: "card {a..<b :: u64} = unat b - unat a"
proof -
  have "unat ` {a..<b} = {unat a..<unat b}"
  proof (intro equalityI subsetI)
    fix n assume n: "n \<in> {unat a..<unat b}"
    have "unat b < 2 ^ 64" using unsigned_less [of b, where ?'a = nat] by simp
    with n have u: "unat (of_nat n :: u64) = n" by (simp add: unat_of_nat)
    with n have "of_nat n \<in> {a..<b}" by (simp add: word_less_nat_alt word_le_nat_alt)
    with u show "n \<in> unat ` {a..<b}" by force
  qed (auto simp: word_less_nat_alt word_le_nat_alt)
  moreover have "card (unat ` {a..<b}) = card {a..<b}"
    by (rule card_image) (auto simp: inj_on_def intro: unsigned_word_eqI)
  ultimately show ?thesis by simp
qed

lemma word_interval_Suc:
  assumes "0 < c" and "lo \<le> c - 1"
  shows "{lo..<c :: u64} = insert (c - 1) {lo..<c - 1}"
proof (rule set_eqI)
  fix x
  have "x < c \<longleftrightarrow> x < c - 1 \<or> x = c - 1"
    using word_less_pred_iff [OF assms(1)] by (simp add: le_less)
  then show "x \<in> {lo..<c} \<longleftrightarrow> x \<in> insert (c - 1) {lo..<c - 1}" using assms(2) by auto
qed

lemma fa_invD:
  assumes "fa_inv lo self"
  shows "0 < lo" and "lo \<le> fcurrent self" and "fcurrent self \<le> fend self"
    and "heap_wf (recycled self)" and "unat (fend self) - unat lo \<le> MaxSize (recycled self)"
    and "distinct (heap_cells (recycled self))"
    and "set (heap_cells (recycled self)) \<subseteq> {lo..<fcurrent self}"
  using assms by (auto simp: fa_inv_def)

text \<open>Cells as a set and as a multiset.\<close>

lemma set_heap_mset [simp]: "set_mset (heap_mset h) = set (heap_cells h)"
  by (simp add: heap_mset_def)

lemma distinct_heap_mset: "distinct (heap_cells h) \<longleftrightarrow> (\<forall>x. count (heap_mset h) x \<le> 1)"
proof -
  have "(count (mset xs) x \<le> 1) = (count (mset xs) x = (if x \<in> set xs then 1 else 0))"
    for x and xs :: "u64 list"
    using count_greater_zero_iff [of "mset xs" x] count_mset_0_iff [of xs x]
    by (auto simp del: count_greater_zero_iff count_mset_0_iff)
  then show ?thesis unfolding heap_mset_def distinct_count_atmost_1 by blast
qed

lemma fa_inv_cells_room:
  assumes "fa_inv lo self" and "p \<in> fa_allocated lo self"
  shows "CurrentSize (recycled self) < MaxSize (recycled self)"
proof -
  let ?c = "heap_cells (recycled self)"
  have "insert p (set ?c) \<subseteq> {lo..<fend self}"
    using fa_invD [OF assms(1)] assms(2) by (force simp: fa_allocated_def)
  then have "card (insert p (set ?c)) \<le> card {lo..<fend self}"
    by (intro card_mono) auto
  moreover have "card (insert p (set ?c)) = Suc (CurrentSize (recycled self))"
    using assms by (simp add: fa_inv_def fa_allocated_def heap_wf_def distinct_card)
  ultimately show ?thesis using assms by (simp add: fa_inv_def card_word_interval)
qed

section \<open>Allocation\<close>

lemma frame_alloc_recycled:
  assumes inv: "fa_inv lo self" and ne: "CurrentSize (recycled self) \<noteq> 0"
  shows "\<exists>p self'. frame_alloc self = Ok (p, self') \<and> p \<in> fa_free self \<and> p \<notin> fa_allocated lo self
    \<and> fa_inv lo self' \<and> fa_allocated lo self' = insert p (fa_allocated lo self)
    \<and> fend self' = fend self \<and> (fa_coalesced self \<longrightarrow> fa_coalesced self')"
proof -
  let ?h = "recycled self"
  obtain n where n: "CurrentSize ?h = Suc n" using ne by (cases "CurrentSize ?h") auto
  have len: "n < length (heapArray ?h)" using fa_invD [OF inv] n by (simp add: heap_wf_def)
  define t where "t = heapArray ?h ! n"
  define self' where "self' = self\<lparr>recycled := ?h\<lparr>CurrentSize := n\<rparr>\<rparr>"
  have cells: "heap_cells ?h = heap_cells (recycled self') @ [t]"
    using n len by (simp add: t_def self'_def take_Suc_conv_app_nth)
  have run: "frame_alloc self = Ok (t, self')"
    using n len by (simp add: frame_alloc_def heap_empty_def t_def self'_def)
  have "heap_wf (recycled self')"
    using fa_invD(4) [OF inv] n by (auto simp: heap_wf_def heap_ordered_def self'_def)
  then have inv': "fa_inv lo self'"
    using fa_invD [OF inv] cells by (auto simp: fa_inv_def self'_def)
  have cur: "fcurrent self' = fcurrent self" "fend self' = fend self" by (simp_all add: self'_def)
  have t: "t \<in> set (heap_cells ?h)" "t \<notin> set (heap_cells (recycled self'))"
    using cells fa_invD(6) [OF inv] by auto
  have "fa_allocated lo self' = insert t (fa_allocated lo self)"
    using cells t fa_invD(7) [OF inv] by (auto simp: fa_allocated_def cur)
  moreover have "fa_coalesced self \<longrightarrow> fa_coalesced self'"
    using cells by (auto simp: fa_coalesced_def cur)
  ultimately show ?thesis using run inv' t cur
    by (auto simp: fa_free_def fa_allocated_def)
qed

lemma frame_alloc_fresh:
  assumes inv: "fa_inv lo self" and e: "CurrentSize (recycled self) = 0"
    and lt: "fcurrent self < fend self"
  shows "\<exists>p self'. frame_alloc self = Ok (p, self') \<and> p \<in> fa_free self \<and> p \<notin> fa_allocated lo self
    \<and> fa_inv lo self' \<and> fa_allocated lo self' = insert p (fa_allocated lo self)
    \<and> fend self' = fend self \<and> (fa_coalesced self \<longrightarrow> fa_coalesced self')"
proof -
  define self' where "self' = self\<lparr>fcurrent := fcurrent self + 1\<rparr>"
  have run: "frame_alloc self = Ok (fcurrent self, self')"
    using e lt by (auto simp: frame_alloc_def heap_empty_def self'_def Let_def)
  have u: "unat (fcurrent self + 1) = unat (fcurrent self) + 1" by (rule word_succ_less [OF lt])
  then have le: "fcurrent self + 1 \<le> fend self" "0 < fcurrent self + 1" "lo \<le> fcurrent self + 1"
    using lt fa_invD(2) [OF inv] by (simp_all add: word_less_nat_alt word_le_nat_alt)
  have "{lo..<fcurrent self + 1} = insert (fcurrent self) {lo..<fcurrent self}"
    using word_interval_Suc [OF le(2), of lo] fa_invD(2) [OF inv] by simp
  then have "fa_allocated lo self' = insert (fcurrent self) (fa_allocated lo self)"
    using e by (simp add: fa_allocated_def self'_def)
  moreover have "fa_inv lo self'"
    using fa_invD [OF inv] le e by (simp add: fa_inv_def self'_def)
  ultimately show ?thesis using run lt e
    by (auto simp: fa_free_def fa_allocated_def self'_def fa_coalesced_def)
qed

lemma frame_alloc_ok:
  assumes inv: "fa_inv lo self" and fr: "fa_free self \<noteq> {}"
  shows "\<exists>p self'. frame_alloc self = Ok (p, self') \<and> p \<in> fa_free self \<and> p \<notin> fa_allocated lo self
    \<and> fa_inv lo self' \<and> fa_allocated lo self' = insert p (fa_allocated lo self)
    \<and> fend self' = fend self \<and> (fa_coalesced self \<longrightarrow> fa_coalesced self')"
proof (cases "CurrentSize (recycled self) = 0")
  case True
  then have "fcurrent self < fend self" using fr by (auto simp: fa_free_def)
  then show ?thesis using frame_alloc_fresh [OF inv True] by blast
next
  case False
  then show ?thesis using frame_alloc_recycled [OF inv] by blast
qed

lemma frame_alloc_exhausted:
  assumes "fa_inv lo self" and "fa_free self = {}"
  shows "frame_alloc self = Fail (Panic ''no frame to alloc !'')"
proof -
  have "CurrentSize (recycled self) = 0 \<or> heapArray (recycled self) = []"
    using assms(2) by (simp add: fa_free_def)
  then have "CurrentSize (recycled self) = 0" using fa_invD(4) [OF assms(1)] by (auto simp: heap_wf_def)
  moreover have "fcurrent self = fend self"
    using assms fa_invD(3) [OF assms(1)] by (auto simp: fa_free_def)
  ultimately show ?thesis by (simp add: frame_alloc_def heap_empty_def)
qed

section \<open>Deallocation\<close>

lemma heap_removeMax_last:
  assumes "heap_wf h" and "CurrentSize h = 1" and "heap_removeMax h = Ok h'"
  shows "heapArray h' ! 0 = heapArray h ! 0"
  using assms by (auto simp: heap_removeMax_def heap_empty_def heap_wf_def Let_def)

text \<open>
  One turn of the loop: when the largest recycled page is the one below \<open>current\<close>, it
  leaves the heap and \<open>current\<close> moves down over it; the free pages stay the same. The
  heap may become empty, and then the stale cell 0 does not make the loop go on. The loop
  needs no lower bound of the pages, only that they are different and below \<open>current\<close>.
\<close>

definition fa_core :: "FrameAllocator \<Rightarrow> bool" where
  "fa_core self \<longleftrightarrow> fcurrent self \<le> fend self \<and> heap_wf (recycled self)
     \<and> distinct (heap_cells (recycled self)) \<and> (\<forall>q \<in> set (heap_cells (recycled self)). q < fcurrent self)"

lemma fa_inv_core: "fa_inv lo self \<Longrightarrow> fa_core self"
  using fa_invD [of lo self] by (auto simp: fa_core_def)

lemma core_step:
  assumes core: "fa_core self" and ne: "CurrentSize (recycled self) \<noteq> 0"
    and top: "heapArray (recycled self) ! 0 = fcurrent self - 1"
  obtains h where "heap_removeMax (recycled self) = Ok h" and "0 < fcurrent self"
    and "fa_core (self\<lparr>recycled := h, fcurrent := fcurrent self - 1\<rparr>)"
    and "set (heap_cells (recycled self)) = insert (fcurrent self - 1) (set (heap_cells h))"
    and "CurrentSize h \<noteq> 0 \<or> heapArray h ! 0 \<noteq> fcurrent self - 1 - 1"
    and "MaxSize h = MaxSize (recycled self)"
proof -
  let ?h = "recycled self" and ?t = "fcurrent self - 1"
  have wf: "heap_wf ?h" and dist: "distinct (heap_cells ?h)" using core by (simp_all add: fa_core_def)
  have ne': "heap_mset ?h \<noteq> {#}" using ne heap_mset_empty_iff [OF wf] by simp
  obtain h t where h: "heap_removeMax ?h = Ok h" "heap_top ?h = Ok t" "heap_wf h"
    "MaxSize h = MaxSize ?h" "heap_mset h = heap_mset ?h - {#t#}" "t \<in># heap_mset ?h"
    and below: "\<And>x. x \<in># heap_mset h \<Longrightarrow> x < t"
    using mh.rem_below_top [OF wf ne'] dist distinct_heap_mset by metis
  have t: "t = ?t" using h(2) heap_top_Max(1) [OF wf ne] top by simp
  have tin: "?t \<in> set (heap_cells ?h)" using h(6) t by simp
  then have pos: "0 < fcurrent self" using core by (metis fa_core_def le_less_trans word_zero_le)
  have cells: "set (heap_cells ?h) = insert ?t (set (heap_cells h))"
    using h(5,6) t by (metis insert_DiffM set_heap_mset set_mset_add_mset_insert)
  have dist': "distinct (heap_cells h)"
    using dist h(5) unfolding distinct_heap_mset by (metis count_diff diff_le_self le_trans)
  have "fcurrent self \<le> fend self" using core by (simp add: fa_core_def)
  then have "?t \<le> fend self"
    using pos by (metis word_less_pred_iff less_imp_le order_trans order_refl)
  then have core': "fa_core (self\<lparr>recycled := h, fcurrent := ?t\<rparr>)"
    using h(3) dist' below t by (simp add: fa_core_def)
  have "CurrentSize h \<noteq> 0 \<or> heapArray h ! 0 \<noteq> ?t - 1"
  proof (cases "CurrentSize h = 0")
    case True
    then have "CurrentSize ?h = 1" using heap_removeMax_size [OF h(1)] by simp
    then have "heapArray h ! 0 = ?t" using heap_removeMax_last [OF wf _ h(1)] top by simp
    then show ?thesis by simp
  qed simp
  then show ?thesis using that h pos core' cells by blast
qed

lemma word_interval_pred:
  assumes "0 < c" and "c \<le> e"
  shows "{c - 1..<e :: u64} = insert (c - 1) {c..<e}"
proof (rule set_eqI)
  fix x
  have u: "unat (c - 1) = unat c - 1" "0 < unat c" using assms(1) by (simp_all add: unat_sub word_le_nat_alt word_less_nat_alt)
  then have "x = c - 1 \<longleftrightarrow> unat x = unat c - 1" by (metis unsigned_word_eqI)
  then show "x \<in> {c - 1..<e} \<longleftrightarrow> x \<in> insert (c - 1) {c..<e}"
    using u assms(2) by (simp only: insert_iff atLeastLessThan_iff word_le_nat_alt word_less_nat_alt) linarith
qed

lemma dealloc_core_ok:
  assumes "fa_core self" and "0 < MaxSize (recycled self)"
    and "CurrentSize (recycled self) \<noteq> 0 \<or> heapArray (recycled self) ! 0 \<noteq> fcurrent self - 1"
  shows "\<exists>self'. dealloc_loop self = Ok self' \<and> fa_free self' = fa_free self"
  using assms
proof (induction self rule: dealloc_loop.induct)
  case (1 self)
  let ?h = "recycled self"
  have top: "heap_top ?h = Ok (heapArray ?h ! 0)"
    using "1.prems"(1,2) by (simp add: heap_top_def heap_wf_def fa_core_def)
  show ?case
  proof (cases "heapArray ?h ! 0 = fcurrent self - 1")
    case True
    then have "CurrentSize ?h \<noteq> 0" using "1.prems"(3) by simp
    from core_step [OF "1.prems"(1) this True] obtain h where h: "heap_removeMax ?h = Ok h" "0 < fcurrent self"
      "fa_core (self\<lparr>recycled := h, fcurrent := fcurrent self - 1\<rparr>)"
      "set (heap_cells ?h) = insert (fcurrent self - 1) (set (heap_cells h))"
      "CurrentSize h \<noteq> 0 \<or> heapArray h ! 0 \<noteq> fcurrent self - 1 - 1" "MaxSize h = MaxSize ?h" .
    have "fa_free (self\<lparr>recycled := h, fcurrent := fcurrent self - 1\<rparr>) = fa_free self"
      using word_interval_pred [OF h(2)] "1.prems"(1) h(4) by (auto simp: fa_free_def fa_core_def)
    moreover have "dealloc_loop self = dealloc_loop (self\<lparr>recycled := h, fcurrent := fcurrent self - 1\<rparr>)"
      by (subst dealloc_loop.simps) (simp add: top True h(1))
    ultimately show ?thesis using "1.IH" [OF top True h(1)] h "1.prems"(2) by simp
  qed (subst dealloc_loop.simps, simp add: top)
qed

lemma dealloc_step:
  assumes inv: "fa_inv lo self" and ne: "CurrentSize (recycled self) \<noteq> 0"
    and top: "heapArray (recycled self) ! 0 = fcurrent self - 1"
  obtains h where "heap_removeMax (recycled self) = Ok h"
    and "fa_inv lo (self\<lparr>recycled := h, fcurrent := fcurrent self - 1\<rparr>)"
    and "fa_allocated lo (self\<lparr>recycled := h, fcurrent := fcurrent self - 1\<rparr>) = fa_allocated lo self"
    and "CurrentSize h \<noteq> 0 \<or> heapArray h ! 0 \<noteq> fcurrent self - 1 - 1"
    and "MaxSize h = MaxSize (recycled self)"
proof -
  let ?t = "fcurrent self - 1"
  from core_step [OF fa_inv_core [OF inv] ne top] obtain h where
    h: "heap_removeMax (recycled self) = Ok h" "0 < fcurrent self" "fa_core (self\<lparr>recycled := h, fcurrent := ?t\<rparr>)"
      "set (heap_cells (recycled self)) = insert ?t (set (heap_cells h))"
      "CurrentSize h \<noteq> 0 \<or> heapArray h ! 0 \<noteq> ?t - 1" "MaxSize h = MaxSize (recycled self)" .
  have lo: "lo \<le> ?t" using h(4) fa_invD(7) [OF inv] by auto
  have sub: "set (heap_cells h) \<subseteq> {lo..<?t}" using h(3,4) fa_invD(7) [OF inv] by (auto simp: fa_core_def)
  have "fa_inv lo (self\<lparr>recycled := h, fcurrent := ?t\<rparr>)"
    using fa_invD [OF inv] h(3,6) lo sub by (simp add: fa_inv_def fa_core_def)
  moreover have "fa_allocated lo (self\<lparr>recycled := h, fcurrent := ?t\<rparr>) = fa_allocated lo self"
    using h(4) sub word_interval_Suc [OF h(2) lo] by (auto simp: fa_allocated_def)
  ultimately show ?thesis using that h by blast
qed

lemma dealloc_loop_ok:
  assumes "fa_inv lo self" and "0 < MaxSize (recycled self)"
    and "CurrentSize (recycled self) \<noteq> 0 \<or> heapArray (recycled self) ! 0 \<noteq> fcurrent self - 1"
  shows "\<exists>self'. dealloc_loop self = Ok self' \<and> fa_inv lo self'
    \<and> fa_allocated lo self' = fa_allocated lo self \<and> fend self' = fend self \<and> fa_coalesced self'"
  using assms
proof (induction self rule: dealloc_loop.induct)
  case (1 self)
  let ?h = "recycled self"
  have wf: "heap_wf ?h" using "1.prems"(1) by (rule fa_invD)
  then have top: "heap_top ?h = Ok (heapArray ?h ! 0)"
    using "1.prems"(2) by (simp add: heap_top_def heap_wf_def)
  show ?case
  proof (cases "heapArray ?h ! 0 = fcurrent self - 1")
    case True
    then have "CurrentSize ?h \<noteq> 0" using "1.prems"(3) by simp
    then obtain h where h: "heap_removeMax ?h = Ok h"
      "fa_inv lo (self\<lparr>recycled := h, fcurrent := fcurrent self - 1\<rparr>)"
      "fa_allocated lo (self\<lparr>recycled := h, fcurrent := fcurrent self - 1\<rparr>) = fa_allocated lo self"
      "CurrentSize h \<noteq> 0 \<or> heapArray h ! 0 \<noteq> fcurrent self - 1 - 1" "MaxSize h = MaxSize ?h"
      using dealloc_step [OF "1.prems"(1) _ True] by blast
    have "dealloc_loop self = dealloc_loop (self\<lparr>recycled := h, fcurrent := fcurrent self - 1\<rparr>)"
      by (subst dealloc_loop.simps) (simp add: top True h(1))
    then show ?thesis using "1.IH" [OF top True h(1)] h "1.prems"(2) by simp
  next
    case False
    have "fa_coalesced self"
      unfolding fa_coalesced_def
    proof
      assume m: "fcurrent self - 1 \<in> set (heap_cells ?h)"
      then have ne: "CurrentSize ?h \<noteq> 0" by (cases "CurrentSize ?h") simp_all
      have "fcurrent self - 1 \<le> heapArray ?h ! 0"
        using heap_top_Max(3) [OF wf ne] m by simp
      moreover have "heapArray ?h ! 0 < fcurrent self"
        using heap_top_Max(2) [OF wf ne] fa_invD(7) [OF "1.prems"(1)] by auto
      moreover have "0 < fcurrent self" using fa_invD(1,2) [OF "1.prems"(1)] by auto
      ultimately show False using False word_less_pred_iff by (metis antisym)
    qed
    then show ?thesis using "1.prems" False by (subst dealloc_loop.simps) (simp add: top)
  qed
qed

lemma frame_dealloc_ok:
  assumes inv: "fa_inv lo self" and p: "p \<in> fa_allocated lo self"
  shows "\<exists>self'. frame_dealloc self p = Ok self' \<and> fa_inv lo self'
    \<and> fa_allocated lo self' = fa_allocated lo self - {p} \<and> fend self' = fend self
    \<and> fa_coalesced self'"
proof -
  let ?h = "recycled self"
  have wf: "heap_wf ?h" using inv by (rule fa_invD)
  have room: "CurrentSize ?h < MaxSize ?h" using fa_inv_cells_room [OF inv p] .
  have pc: "p < fcurrent self" "p \<notin> set (heap_cells ?h)" "lo \<le> p"
    using p by (auto simp: fa_allocated_def)
  have guard: "\<not> (p \<ge> fcurrent self \<or> is_some ?h p)"
    using pc is_some_iff [OF wf] by auto
  obtain h where h: "heap_insert ?h p = Ok h" "heap_wf h" "CurrentSize h = CurrentSize ?h + 1"
    "MaxSize h = MaxSize ?h" "heap_mset h = add_mset p (heap_mset ?h)"
    using heap_insert_Ok [OF wf room] by blast
  have cells: "set (heap_cells h) = insert p (set (heap_cells ?h))"
    using h(5) by (metis set_heap_mset set_mset_add_mset_insert)
  have dist: "distinct (heap_cells h)"
    using fa_invD(6) [OF inv] pc(2) h(5) unfolding distinct_heap_mset
    by (auto simp: heap_mset_def count_mset_0_iff [THEN iffD2])
  have inv': "fa_inv lo (self\<lparr>recycled := h\<rparr>)"
    using fa_invD [OF inv] h cells dist pc by (simp add: fa_inv_def)
  moreover have "fa_allocated lo (self\<lparr>recycled := h\<rparr>) = fa_allocated lo self - {p}"
    using cells by (auto simp: fa_allocated_def)
  ultimately show ?thesis
    using dealloc_loop_ok [OF inv'] guard h room by (auto simp: frame_dealloc_def)
qed

lemma frame_dealloc_bad:
  assumes "fa_inv lo self" and "lo \<le> p" and "p \<notin> fa_allocated lo self"
  shows "frame_dealloc self p = Fail (Panic ''Frame ppn has not been allocated!'')"
proof -
  have "p \<ge> fcurrent self \<or> is_some (recycled self) p"
    using assms is_some_iff [OF fa_invD(4) [OF assms(1)]] by (auto simp: fa_allocated_def)
  then show ?thesis by (simp add: frame_dealloc_def)
qed

text \<open>A page below the managed ones is in the heap of no allocator, so that the check lets it pass.\<close>

lemma frame_dealloc_below:
  assumes inv: "fa_inv lo self" and p: "p < lo" and room: "CurrentSize (recycled self) \<noteq> MaxSize (recycled self)"
  shows "\<exists>self'. frame_dealloc self p = Ok self' \<and> fa_free self' = insert p (fa_free self)"
proof -
  let ?h = "recycled self"
  have wf: "heap_wf ?h" using inv by (rule fa_invD)
  have pc: "p < fcurrent self" "p \<notin> set (heap_cells ?h)" using p fa_invD(2,7) [OF inv] by force+
  have "CurrentSize ?h < MaxSize ?h" using room wf by (simp add: heap_wf_def)
  then obtain h where h: "heap_insert ?h p = Ok h" "heap_wf h" "CurrentSize h = CurrentSize ?h + 1"
    "MaxSize h = MaxSize ?h" "heap_mset h = add_mset p (heap_mset ?h)" "0 < MaxSize ?h"
    using heap_insert_Ok [OF wf] by fastforce
  have cells: "set (heap_cells h) = insert p (set (heap_cells ?h))"
    using h(5) by (metis set_heap_mset set_mset_add_mset_insert)
  have dist: "distinct (heap_cells h)"
    using fa_invD(6) [OF inv] pc(2) h(5) unfolding distinct_heap_mset
    by (auto simp: heap_mset_def count_mset_0_iff [THEN iffD2])
  have "fa_core (self\<lparr>recycled := h\<rparr>)"
    using fa_inv_core [OF inv] h(2) dist cells pc(1) by (simp add: fa_core_def)
  moreover have "fa_free (self\<lparr>recycled := h\<rparr>) = insert p (fa_free self)" using cells by (simp add: fa_free_def)
  moreover have "\<not> (p \<ge> fcurrent self \<or> is_some ?h p)" using pc is_some_iff [OF wf] by auto
  ultimately show ?thesis using dealloc_core_ok [of "self\<lparr>recycled := h\<rparr>"] h by (simp add: frame_dealloc_def)
qed

lemma frame_dealloc_below_full:
  assumes inv: "fa_inv lo self" and p: "p < lo" and full: "CurrentSize (recycled self) = MaxSize (recycled self)"
  shows "frame_dealloc self p = Fail (Panic ''no space for maxheap !'')"
proof -
  have "p < fcurrent self" "p \<notin> set (heap_cells (recycled self))" using p fa_invD(2,7) [OF inv] by force+
  then have "\<not> (p \<ge> fcurrent self \<or> is_some (recycled self) p)" using is_some_iff [OF fa_invD(4) [OF inv]] by auto
  then show ?thesis by (simp add: frame_dealloc_def heap_insert_full full)
qed

section \<open>The interface\<close>

text \<open>
  What page tables and address spaces rely on: an allocator splits a fixed set of pages
  into used and free ones, hands out free pages and takes used ones back.
\<close>

locale page_frames =
  fixes alloc :: "'s \<Rightarrow> ('p \<times> 's) res"
    and dealloc :: "'s \<Rightarrow> 'p \<Rightarrow> 's res"
    and invar :: "'s \<Rightarrow> bool"
    and used :: "'s \<Rightarrow> 'p set"
    and free :: "'s \<Rightarrow> 'p set"
  assumes alloc_ok: "invar s \<Longrightarrow> free s \<noteq> {} \<Longrightarrow> \<exists>p s'. alloc s = Ok (p, s') \<and> invar s'
      \<and> p \<in> free s \<and> used s' = insert p (used s) \<and> free s' = free s - {p}"
    and alloc_none: "invar s \<Longrightarrow> free s = {} \<Longrightarrow> \<exists>e. alloc s = Fail e"
    and dealloc_ok: "invar s \<Longrightarrow> p \<in> used s \<Longrightarrow> \<exists>s'. dealloc s p = Ok s' \<and> invar s'
      \<and> used s' = used s - {p} \<and> free s' = insert p (free s)"
    and disjoint: "invar s \<Longrightarrow> used s \<inter> free s = {}"
    and finite_free: "invar s \<Longrightarrow> finite (free s)"
begin

lemma alloc_cases:
  assumes "invar s" and "alloc s = Ok (p, s')"
  shows "invar s'" and "p \<in> free s" and "p \<notin> used s" and "used s' = insert p (used s)"
    and "free s' = free s - {p}"
proof -
  have "free s \<noteq> {}" using alloc_none [OF assms(1)] assms(2) by auto
  from alloc_ok [OF assms(1) this] assms(2)
  show "invar s'" and "p \<in> free s" and "used s' = insert p (used s)" and "free s' = free s - {p}"
    by auto
  then show "p \<notin> used s" using disjoint [OF assms(1)] by auto
qed

text \<open>Giving a page back at once restores both sets.\<close>

lemma alloc_dealloc:
  assumes "invar s" and "alloc s = Ok (p, s')"
  shows "\<exists>s''. dealloc s' p = Ok s'' \<and> invar s'' \<and> used s'' = used s \<and> free s'' = free s"
proof -
  note c = alloc_cases [OF assms]
  have "p \<in> used s'" using c by simp
  from dealloc_ok [OF c(1) this] c show ?thesis by auto
qed

end

text \<open>A run of \<open>n\<close> allocations.\<close>

fun alloc_n :: "('s \<Rightarrow> ('p \<times> 's) res) \<Rightarrow> nat \<Rightarrow> 's \<Rightarrow> ('p list \<times> 's) res" where
  "alloc_n alloc 0 s = Ok ([], s)"
| "alloc_n alloc (Suc n) s =
     bind_res (alloc s) (\<lambda>(p, s').
     bind_res (alloc_n alloc n s') (\<lambda>(ps, s''). Ok (p # ps, s'')))"

context page_frames
begin

lemma alloc_n_ok:
  assumes "invar s" and "n \<le> card (free s)"
  shows "\<exists>ps s'. alloc_n alloc n s = Ok (ps, s') \<and> length ps = n \<and> distinct ps
    \<and> set ps \<subseteq> free s \<and> invar s' \<and> used s' = used s \<union> set ps \<and> free s' = free s - set ps"
  using assms
proof (induction n arbitrary: s)
  case 0
  then show ?case by simp
next
  case (Suc n)
  then have "free s \<noteq> {}" by auto
  then obtain p s1 where s1: "alloc s = Ok (p, s1)" using alloc_ok Suc.prems(1) by blast
  note c = alloc_cases [OF Suc.prems(1) s1]
  have "n \<le> card (free s1)"
    using Suc.prems c finite_free [OF Suc.prems(1)] by (simp add: card_Diff_singleton)
  from Suc.IH [OF c(1) this] show ?case using s1 c by fastforce
qed

lemma alloc_n_exhausts:
  assumes "invar s" and "card (free s) < n"
  shows "\<exists>e. alloc_n alloc n s = Fail e"
  using assms
proof (induction n arbitrary: s)
  case 0
  then show ?case by simp
next
  case (Suc n)
  show ?case
  proof (cases "free s = {}")
    case True
    then show ?thesis using alloc_none [OF Suc.prems(1)] by (auto simp: bind_res_eq_Fail)
  next
    case False
    then obtain p s1 where s1: "alloc s = Ok (p, s1)" using alloc_ok Suc.prems(1) by blast
    note c = alloc_cases [OF Suc.prems(1) s1]
    have "card (free s1) < n"
      using Suc.prems c finite_free [OF Suc.prems(1)] card_gt_0_iff [of "free s"]
      by (auto simp: card_Diff_singleton)
    from Suc.IH [OF c(1) this] show ?thesis using s1 by auto
  qed
qed

end

lemma fa_free_compl:
  assumes "fa_inv lo self"
  shows "fa_free self = {lo..<fend self} - fa_allocated lo self"
  using fa_invD(2,3,7) [OF assms] by (force simp: fa_free_def fa_allocated_def)

lemma fa_allocated_below: "fa_inv lo self \<Longrightarrow> fa_allocated lo self \<subseteq> {lo..<fend self}"
  by (auto simp: fa_allocated_def dest!: fa_invD(3))

interpretation pf: page_frames frame_alloc frame_dealloc "fa_inv lo" "fa_allocated lo" fa_free
  for lo
proof
  fix s p
  assume inv: "fa_inv lo s"
  show "\<exists>p s'. frame_alloc s = Ok (p, s') \<and> fa_inv lo s' \<and> p \<in> fa_free s
      \<and> fa_allocated lo s' = insert p (fa_allocated lo s) \<and> fa_free s' = fa_free s - {p}"
    if "fa_free s \<noteq> {}"
    using frame_alloc_ok [OF inv that] fa_free_compl [OF inv] fa_free_compl by fastforce
  show "\<exists>e. frame_alloc s = Fail e" if "fa_free s = {}"
    using frame_alloc_exhausted [OF inv that] by blast
  show "\<exists>s'. frame_dealloc s p = Ok s' \<and> fa_inv lo s' \<and> fa_allocated lo s' = fa_allocated lo s - {p}
      \<and> fa_free s' = insert p (fa_free s)" if "p \<in> fa_allocated lo s"
    using frame_dealloc_ok [OF inv that] fa_free_compl [OF inv] fa_free_compl
      fa_allocated_below [OF inv] that by fastforce
  show "fa_allocated lo s \<inter> fa_free s = {}" using fa_free_compl [OF inv] by auto
  show "finite (fa_free s)" by simp
qed

section \<open>Properties\<close>

text \<open>The allocator starts with every page free and none in use.\<close>

lemma frame_allocator_init_inv:
  assumes "0 < pa_ceil (ek + PAGE_SIZE)" and "pa_ceil (ek + PAGE_SIZE) \<le> pa_floor MEMORY_END"
    and "length base = unat (pa_floor MEMORY_END - pa_ceil (ek + PAGE_SIZE))"
  shows "fa_inv (pa_ceil (ek + PAGE_SIZE)) (frame_allocator_init ek base)"
    and "fa_allocated (pa_ceil (ek + PAGE_SIZE)) (frame_allocator_init ek base) = {}"
proof -
  let ?c = "pa_ceil (ek + PAGE_SIZE)" and ?e = "pa_floor MEMORY_END"
  have sub: "unat (?e - ?c) = unat ?e - unat ?c" using assms(2) by (simp add: unat_sub)
  have "unat ?e < 2 ^ 31" by (simp add: pa_floor_def MEMORY_END_def PAGE_SIZE_def)
  then have "heap_wf (heap_init base (unat (?e - ?c)))"
    using heap_init_wf [of base "unat (?e - ?c)"] assms(3) sub by simp
  then show "fa_inv ?c (frame_allocator_init ek base)"
    using assms sub by (simp add: fa_inv_def frame_allocator_init_def Let_def heap_init_def)
  show "fa_allocated ?c (frame_allocator_init ek base) = {}"
    by (simp add: fa_allocated_def frame_allocator_init_def Let_def)
qed

lemma frame_remain_size_card:
  assumes "fa_inv lo self"
  shows "unat (frame_remain_size self) = card (fa_free self)"
proof -
  let ?h = "recycled self"
  have "card (fa_free self) = card (set (heap_cells ?h)) + card {fcurrent self..<fend self}"
  proof (unfold fa_free_def, rule card_Un_disjoint)
    have "x < fcurrent self" if "x \<in> set (heap_cells ?h)" for x
      using subsetD [OF fa_invD(7) [OF assms] that] by simp
    then show "set (heap_cells ?h) \<inter> {fcurrent self..<fend self} = {}" by fastforce
  qed simp_all
  also have "\<dots> = CurrentSize ?h + (unat (fend self) - unat (fcurrent self))"
    using fa_invD(4,6) [OF assms] by (simp add: distinct_card card_word_interval heap_wf_def)
  finally have card: "card (fa_free self) = CurrentSize ?h + unat (fend self - fcurrent self)"
    using fa_invD(3) [OF assms] by (simp add: unat_sub)
  have "card (fa_free self) \<le> card {0..<fend self}"
    using fa_free_compl [OF assms] by (intro card_mono) auto
  then have lt: "card (fa_free self) < 2 ^ 64"
    using unsigned_less [of "fend self", where ?'a = nat] by (simp add: card_word_interval)
  have "unat (of_nat (CurrentSize ?h) :: u64) = CurrentSize ?h"
    using card lt by (simp add: unat_of_nat)
  then show ?thesis using card lt unfolding frame_remain_size_def unat_word_ariths by simp
qed

text \<open>C1: \<^verbatim>\<open>frame_alloc\<close>, with a page left, returns a free page that nobody holds, marks
  exactly it as held and keeps the allocator well-formed; with no page left it panics.\<close>

theorem frame_alloc_contract:
  assumes "fa_inv lo self"
  shows "if fa_free self = {} then frame_alloc self = Fail (Panic ''no frame to alloc !'')
    else \<exists>p self'. frame_alloc self = Ok (p, self') \<and> p \<in> fa_free self \<and> p \<notin> fa_allocated lo self
      \<and> fa_inv lo self' \<and> fa_allocated lo self' = insert p (fa_allocated lo self)
      \<and> fa_free self' = fa_free self - {p}"
proof (cases "fa_free self = {}")
  case True
  then show ?thesis using frame_alloc_exhausted [OF assms] by simp
next
  case False
  then obtain p self' where a: "frame_alloc self = Ok (p, self')" using pf.alloc_ok [OF assms] by blast
  with False show ?thesis using pf.alloc_cases [OF assms a] by simp
qed

definition fa_ex :: FrameAllocator where
  "fa_ex = \<lparr>fcurrent = 7, fend = 10, recycled = \<lparr>heapArray = [4, 3, 0, 0, 0, 0, 0, 0], CurrentSize = 2, MaxSize = 8\<rparr>\<rparr>"

lemma fa_ex_inv: "fa_inv 2 fa_ex"
  by (simp add: fa_inv_def fa_ex_def heap_wf_def heap_ordered_def heap_parent_def less_2_cases_iff)

theorem frame_alloc_contract_witness:
  "\<exists>p self'. frame_alloc fa_ex = Ok (p, self') \<and> p \<in> fa_free fa_ex \<and> p \<notin> fa_allocated 2 fa_ex
      \<and> fa_inv 2 self' \<and> fa_allocated 2 self' = insert p (fa_allocated 2 fa_ex)
      \<and> fa_free self' = fa_free fa_ex - {p}"
proof -
  have "fa_free fa_ex \<noteq> {}" by (simp add: fa_free_def fa_ex_def)
  then show ?thesis using frame_alloc_contract [OF fa_ex_inv] by simp
qed

text \<open>C2: \<^verbatim>\<open>frame_dealloc\<close> of a page that is held frees exactly that page, keeps the
  allocator well-formed and leaves no recycled page just below \<open>current\<close>; a page of the managed range
  that is not held, a second free included, and a page above the range make it panic. A page below the range, \<open>p < lo\<close>, is not
  noticed: it becomes one of the pages that \<^verbatim>\<open>frame_alloc\<close> can hand out, unless the heap is full, which makes
  the insertion panic.\<close>

theorem frame_dealloc_contract:
  assumes "fa_inv lo self"
  shows "if p \<in> fa_allocated lo self
    then \<exists>self'. frame_dealloc self p = Ok self' \<and> fa_inv lo self' \<and> fa_coalesced self'
      \<and> fa_allocated lo self' = fa_allocated lo self - {p} \<and> fa_free self' = insert p (fa_free self)
    else if lo \<le> p then frame_dealloc self p = Fail (Panic ''Frame ppn has not been allocated!'')
    else if CurrentSize (recycled self) = MaxSize (recycled self)
    then frame_dealloc self p = Fail (Panic ''no space for maxheap !'')
    else \<exists>self'. frame_dealloc self p = Ok self' \<and> fa_free self' = insert p (fa_free self)"
proof (cases "p \<in> fa_allocated lo self")
  case True
  then obtain self' where s: "frame_dealloc self p = Ok self'" "fa_coalesced self'"
    using frame_dealloc_ok [OF assms(1)] by blast
  then show ?thesis using pf.dealloc_ok [OF assms(1) True] True by auto
next
  case False
  then show ?thesis
    using frame_dealloc_bad [OF assms _ False] frame_dealloc_below [OF assms] frame_dealloc_below_full [OF assms]
    by (auto simp: not_le)
qed

theorem frame_dealloc_contract_witness:
  "\<exists>self'. frame_dealloc fa_ex 6 = Ok self' \<and> fa_inv 2 self' \<and> fa_coalesced self'
      \<and> fa_allocated 2 self' = fa_allocated 2 fa_ex - {6} \<and> fa_free self' = insert 6 (fa_free fa_ex)"
proof -
  have "(6::u64) \<in> fa_allocated 2 fa_ex" by (simp add: fa_allocated_def fa_ex_def)
  then show ?thesis using frame_dealloc_contract [OF fa_ex_inv, of 6] by simp
qed

text \<open>C3: From initialisation on, \<open>n\<close> calls of \<^verbatim>\<open>frame_alloc\<close> return \<open>n\<close> different pages
  between the end of the kernel and the end of memory as long as \<^verbatim>\<open>frame_remain_size\<close>
  is at least \<open>n\<close>, and one of them fails otherwise: the count is exact.\<close>

theorem frame_allocator_capacity:
  assumes "0 < pa_ceil (ek + PAGE_SIZE)" and "pa_ceil (ek + PAGE_SIZE) \<le> pa_floor MEMORY_END"
    and "length base = unat (pa_floor MEMORY_END - pa_ceil (ek + PAGE_SIZE))"
  shows "if n \<le> unat (frame_remain_size (frame_allocator_init ek base))
    then \<exists>ps self'. alloc_n frame_alloc n (frame_allocator_init ek base) = Ok (ps, self')
      \<and> length ps = n \<and> distinct ps \<and> set ps \<subseteq> {pa_ceil (ek + PAGE_SIZE)..<pa_floor MEMORY_END}
      \<and> fa_allocated (pa_ceil (ek + PAGE_SIZE)) self' = set ps
    else \<exists>e. alloc_n frame_alloc n (frame_allocator_init ek base) = Fail e"
proof -
  let ?lo = "pa_ceil (ek + PAGE_SIZE)" and ?s = "frame_allocator_init ek base"
  note inv = frame_allocator_init_inv [OF assms]
  have "fend ?s = pa_floor MEMORY_END" by (simp add: frame_allocator_init_def Let_def)
  then have fr: "fa_free ?s = {?lo..<pa_floor MEMORY_END}"
    using fa_free_compl [OF inv(1)] inv(2) by simp
  show ?thesis
    using pf.alloc_n_ok [OF inv(1), of n] pf.alloc_n_exhausts [OF inv(1), of n]
    unfolding frame_remain_size_card [OF inv(1)] fr inv(2) by auto
qed

theorem frame_allocator_capacity_witness:
  "\<exists>ps self'. alloc_n frame_alloc 1 (frame_allocator_init (MEMORY_END - 2 * PAGE_SIZE) [0]) = Ok (ps, self')
      \<and> length ps = 1 \<and> distinct ps
      \<and> set ps \<subseteq> {pa_ceil (MEMORY_END - 2 * PAGE_SIZE + PAGE_SIZE)..<pa_floor MEMORY_END}
      \<and> fa_allocated (pa_ceil (MEMORY_END - 2 * PAGE_SIZE + PAGE_SIZE)) self' = set ps"
proof -
  let ?e = "MEMORY_END - 2 * PAGE_SIZE"
  have h: "0 < pa_ceil (?e + PAGE_SIZE)" "pa_ceil (?e + PAGE_SIZE) \<le> pa_floor MEMORY_END"
    "length [0::u64] = unat (pa_floor MEMORY_END - pa_ceil (?e + PAGE_SIZE))"
    by (simp_all add: pa_ceil_def pa_floor_def MEMORY_END_def PAGE_SIZE_def)
  have "1 \<le> unat (frame_remain_size (frame_allocator_init ?e [0]))"
    by (simp add: frame_remain_size_def frame_allocator_init_def heap_init_def pa_ceil_def pa_floor_def
        MEMORY_END_def PAGE_SIZE_def)
  then show ?thesis using frame_allocator_capacity [OF h, of 1] by simp
qed

end
