(* ===== verification/Spinlock.thy ===== *)
theory Spinlock
  imports K_Prelude
begin

text \<open>
  Spin locks and interrupt nesting, from \<^verbatim>\<open>sync_spinlock.c\<close>, with the interrupt switch
  of \<^verbatim>\<open>exception.c\<close> and \<^verbatim>\<open>mycpu\<close> of \<^verbatim>\<open>tk_proc.c\<close>. Three views:
  the functions as one hart runs them; the same steps interleaved over all harts, for
  mutual exclusion; and the abstract lock that the other components of the development
  use, a flag that says whether the running hart holds it, which the functions refine.
\<close>

section \<open>State and operations of one hart\<close>

text \<open>
  \<open>current\<close> is the task the processor runs, a pointer. \<open>depth_of_ir\<close> and \<open>ir_enable\<close>
  count the nesting of \<^verbatim>\<open>push_off\<close> and remember whether interrupts were on outside.
\<close>

record Processor =
  current :: "nat option"
  idle_task_cx :: nat
  depth_of_ir :: int
  ir_enable :: bool

record spinlock =
  locked :: u32
  lname :: string
  cpu :: "nat option"

text \<open>\<open>tp\<close> is the hart number that \<^verbatim>\<open>r_tp\<close> reads, \<open>sie\<close> the bit \<open>SSTATUS_SIE\<close>.\<close>

record hart =
  tp :: nat
  sie :: bool
  cpus :: "nat \<Rightarrow> Processor"

definition cpuid :: "hart \<Rightarrow> nat" where
  "cpuid c = tp c"

definition mycpu :: "hart \<Rightarrow> Processor" where
  "mycpu c = cpus c (cpuid c)"

definition set_mycpu :: "Processor \<Rightarrow> hart \<Rightarrow> hart" where
  "set_mycpu p c = c\<lparr>cpus := (cpus c)(cpuid c := p)\<rparr>"

definition irq_enable :: "hart \<Rightarrow> hart" where
  "irq_enable c = c\<lparr>sie := True\<rparr>"

definition irq_disable :: "hart \<Rightarrow> hart" where
  "irq_disable c = c\<lparr>sie := False\<rparr>"

definition irq_get :: "hart \<Rightarrow> bool" where
  "irq_get c = sie c"

definition push_off :: "hart \<Rightarrow> hart" where
  "push_off c =
     (let old = irq_get c;
          c = irq_disable c;
          c = (if depth_of_ir (mycpu c) = 0 then set_mycpu ((mycpu c)\<lparr>ir_enable := old\<rparr>) c else c)
      in set_mycpu ((mycpu c)\<lparr>depth_of_ir := depth_of_ir (mycpu c) + 1\<rparr>) c)"

definition pop_off :: "hart \<Rightarrow> hart res" where
  "pop_off c =
     (if irq_get c then Fail (Panic ''pop_off when irq_enable'')
      else if depth_of_ir (mycpu c) < 1 then Fail (Panic ''pop_off without a push off'')
      else let c = set_mycpu ((mycpu c)\<lparr>depth_of_ir := depth_of_ir (mycpu c) - 1\<rparr>) c
           in Ok (if depth_of_ir (mycpu c) = 0 \<and> ir_enable (mycpu c) then irq_enable c else c))"

definition initlock :: "string \<Rightarrow> spinlock" where
  "initlock name = \<lparr>locked = 0, lname = name, cpu = None\<rparr>"

definition holding :: "spinlock \<Rightarrow> hart \<Rightarrow> bool" where
  "holding lk c \<longleftrightarrow> locked lk \<noteq> 0 \<and> cpu lk = Some (cpuid c)"

text \<open>
  \<^verbatim>\<open>__sync_lock_test_and_set\<close> returns the old value and stores the new one. Run by
  one hart alone, a lock that another hart holds is never released: the loop spins.
\<close>

definition test_and_set :: "spinlock \<Rightarrow> u32 \<times> spinlock" where
  "test_and_set lk = (locked lk, lk\<lparr>locked := 1\<rparr>)"

definition acquire :: "spinlock \<Rightarrow> hart \<Rightarrow> (spinlock \<times> hart) res" where
  "acquire lk c =
     (let c = push_off c
      in if holding lk c then Fail (Panic ''dead lock'')
         else let (old, lk) = test_and_set lk
              in if old \<noteq> 0 then Fail Spin_forever
                 else Ok (lk\<lparr>cpu := Some (cpuid c)\<rparr>, c))"

definition release :: "spinlock \<Rightarrow> hart \<Rightarrow> (spinlock \<times> hart) res" where
  "release lk c =
     (if \<not> holding lk c then Fail (Panic ''?????'')
      else let lk = lk\<lparr>cpu := None\<rparr>;
               lk = lk\<lparr>locked := 0\<rparr>
           in bind_res (pop_off c) (\<lambda>c. Ok (lk, c)))"

section \<open>Interrupt nesting\<close>

lemmas irq_defs = irq_get_def irq_enable_def irq_disable_def mycpu_def set_mycpu_def cpuid_def

text \<open>Inside a critical section interrupts are off; the depth is never negative.\<close>

definition hart_ok :: "hart \<Rightarrow> bool" where
  "hart_ok c \<longleftrightarrow> 0 \<le> depth_of_ir (mycpu c) \<and> (0 < depth_of_ir (mycpu c) \<longrightarrow> \<not> sie c)"

text \<open>What a matched pair leaves changed: the remembered flag, at the outermost level only.\<close>

definition settled :: "hart \<Rightarrow> hart" where
  "settled c = (if depth_of_ir (mycpu c) = 0 then set_mycpu ((mycpu c)\<lparr>ir_enable := sie c\<rparr>) c else c)"

lemma push_off_ok:
  "hart_ok c \<Longrightarrow> hart_ok (push_off c) \<and> \<not> sie (push_off c)
     \<and> depth_of_ir (mycpu (push_off c)) = depth_of_ir (mycpu c) + 1 \<and> tp (push_off c) = tp c"
  by (auto simp: push_off_def hart_ok_def irq_defs Let_def)

lemma push_pop: "hart_ok c \<Longrightarrow> pop_off (push_off c) = Ok (settled c)"
  by (auto simp: push_off_def pop_off_def hart_ok_def settled_def irq_defs Let_def)

text \<open>\<open>n\<close> times \<^verbatim>\<open>push_off\<close>, then \<open>n\<close> times \<^verbatim>\<open>pop_off\<close>.\<close>

fun pops :: "nat \<Rightarrow> hart \<Rightarrow> hart res" where
  "pops 0 c = Ok c"
| "pops (Suc n) c = bind_res (pop_off c) (pops n)"

lemma settled_settled: "hart_ok c \<Longrightarrow> settled (push_off c) = push_off c"
  by (auto simp: push_off_def hart_ok_def settled_def irq_defs Let_def)

lemma push_n_ok: "hart_ok c \<Longrightarrow> hart_ok ((push_off ^^ n) c)"
  by (induction n) (auto simp: push_off_ok)

lemma push_pop_n:
  assumes "hart_ok c"
  shows "pops (Suc n) ((push_off ^^ Suc n) c) = Ok (settled c)"
  using assms
proof (induction n)
  case 0
  then show ?case by (simp add: push_pop)
next
  case (Suc n)
  let ?d = "(push_off ^^ Suc n) c"
  have ok: "hart_ok ?d" using Suc.prems by (rule push_n_ok)
  have "settled ?d = ?d"
    using settled_settled [OF push_n_ok [OF Suc.prems, of n]] by simp
  then have "pop_off (push_off ?d) = Ok ?d" using push_pop [OF ok] by simp
  then show ?case using Suc by simp
qed

section \<open>Acquire and release on one hart\<close>

lemma acquire_free:
  assumes "locked lk = 0"
  shows "acquire lk c = Ok (lk\<lparr>locked := 1, cpu := Some (tp c)\<rparr>, push_off c)"
proof -
  have "tp (push_off c) = tp c" by (auto simp: push_off_def irq_defs Let_def)
  then show ?thesis using assms by (simp add: acquire_def holding_def test_and_set_def cpuid_def Let_def)
qed

lemma acquire_release:
  assumes "hart_ok c" and "locked lk = 0" and "acquire lk c = Ok (lk', c')"
  shows "release lk' c' = Ok (lk\<lparr>cpu := None\<rparr>, settled c)"
proof -
  have "tp (push_off c) = tp c" using push_off_ok [OF assms(1)] by simp
  then show ?thesis
    using assms push_pop [OF assms(1)]
    by (auto simp: acquire_free [OF assms(2)] release_def holding_def cpuid_def Let_def)
qed

lemma acquire_twice_panics:
  "holding lk c \<Longrightarrow> acquire lk c = Fail (Panic ''dead lock'')"
proof -
  have "tp (push_off c) = tp c" by (auto simp: push_off_def irq_defs Let_def)
  then show "holding lk c \<Longrightarrow> acquire lk c = Fail (Panic ''dead lock'')"
    by (simp add: acquire_def holding_def cpuid_def Let_def)
qed

section \<open>All harts, interleaved\<close>

text \<open>
  Between two instructions of one hart every other hart may run. A hart is outside; has
  passed the holding check of \<^verbatim>\<open>acquire\<close> and spins on the atomic swap; has won the swap
  but not yet recorded itself; is inside; or has cleared the record in
  \<^verbatim>\<open>release\<close> and not yet stored zero. \<open>Crashed\<close> is a panic.
\<close>

datatype lock_pc = Outside | Spinning | Won | Inside | Leaving | Crashed

record lock_sys =
  lk :: spinlock
  pcs :: "nat \<Rightarrow> lock_pc"

definition held_by :: "spinlock \<Rightarrow> nat \<Rightarrow> bool" where
  "held_by l i \<longleftrightarrow> locked l \<noteq> 0 \<and> cpu l = Some i"

inductive lock_step :: "lock_sys \<Rightarrow> lock_sys \<Rightarrow> bool" where
  enter: "pcs s i = Outside \<Longrightarrow> \<not> held_by (lk s) i \<Longrightarrow>
     lock_step s (s\<lparr>pcs := (pcs s)(i := Spinning)\<rparr>)"
| enter_panic: "pcs s i = Outside \<Longrightarrow> held_by (lk s) i \<Longrightarrow>
     lock_step s (s\<lparr>pcs := (pcs s)(i := Crashed)\<rparr>)"
| swap_busy: "pcs s i = Spinning \<Longrightarrow> test_and_set (lk s) = (old, l) \<Longrightarrow> old \<noteq> 0 \<Longrightarrow>
     lock_step s (s\<lparr>lk := l\<rparr>)"
| swap_won: "pcs s i = Spinning \<Longrightarrow> test_and_set (lk s) = (old, l) \<Longrightarrow> old = 0 \<Longrightarrow>
     lock_step s (s\<lparr>lk := l, pcs := (pcs s)(i := Won)\<rparr>)"
| record_cpu: "pcs s i = Won \<Longrightarrow>
     lock_step s (s\<lparr>lk := (lk s)\<lparr>cpu := Some i\<rparr>, pcs := (pcs s)(i := Inside)\<rparr>)"
| leave: "pcs s i = Inside \<Longrightarrow> held_by (lk s) i \<Longrightarrow>
     lock_step s (s\<lparr>lk := (lk s)\<lparr>cpu := None\<rparr>, pcs := (pcs s)(i := Leaving)\<rparr>)"
| leave_panic: "pcs s i = Inside \<Longrightarrow> \<not> held_by (lk s) i \<Longrightarrow>
     lock_step s (s\<lparr>pcs := (pcs s)(i := Crashed)\<rparr>)"
| store_zero: "pcs s i = Leaving \<Longrightarrow>
     lock_step s (s\<lparr>lk := (lk s)\<lparr>locked := 0\<rparr>, pcs := (pcs s)(i := Outside)\<rparr>)"

inductive lock_reachable :: "string \<Rightarrow> lock_sys \<Rightarrow> bool" for nm where
  init: "lock_reachable nm \<lparr>lk = initlock nm, pcs = (\<lambda>_. Outside)\<rparr>"
| step: "lock_reachable nm s \<Longrightarrow> lock_step s t \<Longrightarrow> lock_reachable nm t"

definition owns :: "lock_pc \<Rightarrow> bool" where
  "owns p \<longleftrightarrow> p = Won \<or> p = Inside \<or> p = Leaving"

text \<open>
  The invariant: the lock word is set exactly while some hart \<open>own\<close> owns the lock, no
  other hart does, the recorded hart is the one inside, and nobody has panicked.
\<close>

definition lock_owner_inv :: "lock_sys \<Rightarrow> nat option \<Rightarrow> bool" where
  "lock_owner_inv s own \<longleftrightarrow> (locked (lk s) \<noteq> 0 \<longleftrightarrow> own \<noteq> None)
     \<and> (\<forall>i. owns (pcs s i) \<longleftrightarrow> own = Some i)
     \<and> (\<forall>i. cpu (lk s) = Some i \<longleftrightarrow> pcs s i = Inside) \<and> (\<forall>i. pcs s i \<noteq> Crashed)"

lemma owns_simps [simp]:
  "owns Won" "owns Inside" "owns Leaving" "\<not> owns Outside" "\<not> owns Spinning" "\<not> owns Crashed"
  by (simp_all add: owns_def)

lemma lock_owner_inv_owns: "lock_owner_inv s own \<Longrightarrow> own = Some i \<longleftrightarrow> owns (pcs s i)"
  by (simp add: lock_owner_inv_def)

lemma lock_owner_inv_others:
  "lock_owner_inv s own \<Longrightarrow> own = Some i \<Longrightarrow> j \<noteq> i \<Longrightarrow> pcs s j \<noteq> Inside"
  using lock_owner_inv_owns [of s own j] by auto

lemma lock_owner_inv_held:
  "lock_owner_inv s own \<Longrightarrow> held_by (lk s) i \<longleftrightarrow> pcs s i = Inside"
  by (auto simp: lock_owner_inv_def held_by_def) (metis option.distinct(1) owns_simps(2))

text \<open>Changing one hart's position, the lock and the owner keeps the invariant when they agree.\<close>

lemma lock_owner_inv_upd:
  assumes "lock_owner_inv s own" and "q \<noteq> Crashed"
    and "locked l \<noteq> 0 \<longleftrightarrow> own' \<noteq> None" and "owns q \<longleftrightarrow> own' = Some i"
    and "\<And>j. j \<noteq> i \<Longrightarrow> own' = Some j \<longleftrightarrow> own = Some j"
    and "cpu l = Some i \<longleftrightarrow> q = Inside"
    and "\<And>j. j \<noteq> i \<Longrightarrow> cpu l = Some j \<longleftrightarrow> cpu (lk s) = Some j"
  shows "lock_owner_inv (s\<lparr>lk := l, pcs := (pcs s)(i := q)\<rparr>) own'"
  using assms unfolding lock_owner_inv_def by simp

lemma lock_owner_inv_step:
  assumes "lock_step s t" and inv: "lock_owner_inv s own"
  shows "\<exists>own'. lock_owner_inv t own'"
  using assms(1)
proof (cases rule: lock_step.cases)
  case (enter i)
  have "lock_owner_inv (s\<lparr>lk := lk s, pcs := (pcs s)(i := Spinning)\<rparr>) own"
    using inv enter lock_owner_inv_owns [OF inv]
    by (intro lock_owner_inv_upd [OF inv]) (auto simp: lock_owner_inv_def)
  then show ?thesis using enter(1) by auto
next
  case (enter_panic i)
  then show ?thesis using lock_owner_inv_held [OF inv] by simp
next
  case (swap_busy i old l)
  then have "lock_owner_inv t own" using inv by (auto simp: lock_owner_inv_def test_and_set_def)
  then show ?thesis ..
next
  case (swap_won i old l)
  then have none: "own = None" using inv by (auto simp: lock_owner_inv_def test_and_set_def)
  have "lock_owner_inv (s\<lparr>lk := l, pcs := (pcs s)(i := Won)\<rparr>) (Some i)"
    using inv swap_won none
    by (intro lock_owner_inv_upd [OF inv]) (auto simp: lock_owner_inv_def test_and_set_def)
  then show ?thesis using swap_won(1) by auto
next
  case (record_cpu i)
  then have own: "own = Some i" using lock_owner_inv_owns [OF inv] by simp
  have "lock_owner_inv (s\<lparr>lk := (lk s)\<lparr>cpu := Some i\<rparr>, pcs := (pcs s)(i := Inside)\<rparr>) (Some i)"
    using inv record_cpu own lock_owner_inv_others [OF inv own]
    by (intro lock_owner_inv_upd [OF inv]) (auto simp: lock_owner_inv_def)
  then show ?thesis using record_cpu(1) by auto
next
  case (leave i)
  then have own: "own = Some i" using lock_owner_inv_owns [OF inv] by simp
  have "lock_owner_inv (s\<lparr>lk := (lk s)\<lparr>cpu := None\<rparr>, pcs := (pcs s)(i := Leaving)\<rparr>) (Some i)"
    using inv leave own lock_owner_inv_others [OF inv own]
    by (intro lock_owner_inv_upd [OF inv]) (auto simp: lock_owner_inv_def)
  then show ?thesis using leave(1) by auto
next
  case (leave_panic i)
  then show ?thesis using lock_owner_inv_held [OF inv] by simp
next
  case (store_zero i)
  then have own: "own = Some i" using lock_owner_inv_owns [OF inv] by simp
  have "lock_owner_inv (s\<lparr>lk := (lk s)\<lparr>locked := 0\<rparr>, pcs := (pcs s)(i := Outside)\<rparr>) None"
    using inv store_zero own lock_owner_inv_owns [OF inv]
    by (intro lock_owner_inv_upd [OF inv]) (auto simp: lock_owner_inv_def)
  then show ?thesis using store_zero(1) by auto
qed

lemma lock_reachable_inv: "lock_reachable nm s \<Longrightarrow> \<exists>own. lock_owner_inv s own"
proof (induction rule: lock_reachable.induct)
  case init
  have "lock_owner_inv \<lparr>lk = initlock nm, pcs = (\<lambda>_. Outside)\<rparr> None"
    by (simp add: lock_owner_inv_def initlock_def)
  then show ?case ..
next
  case (step s t)
  then show ?case by (blast intro: lock_owner_inv_step)
qed

section \<open>The abstract lock\<close>

text \<open>
  What the other components see of a spin lock, on the hart that runs them: whether it
  is held. Acquiring it twice and releasing it unheld are the two panics of the code.
\<close>

type_synonym klock = bool

definition lock_acquire :: "klock \<Rightarrow> klock res" where
  "lock_acquire l = (if l then Fail (Panic ''dead lock'') else Ok True)"

definition lock_release :: "klock \<Rightarrow> klock res" where
  "lock_release l = (if l then Ok False else Fail (Panic ''?????''))"

lemma lock_acquire_simps [simp]:
  "lock_acquire False = Ok True" "lock_acquire True = Fail (Panic ''dead lock'')"
  by (simp_all add: lock_acquire_def)

lemma lock_release_simps [simp]:
  "lock_release True = Ok False" "lock_release False = Fail (Panic ''?????'')"
  by (simp_all add: lock_release_def)

text \<open>
  The contract: on a lock that no other hart holds, the concrete operation gives exactly
  the abstract result, and keeps the hart well-formed.
\<close>

definition local_lock :: "spinlock \<Rightarrow> hart \<Rightarrow> bool" where
  "local_lock l c \<longleftrightarrow> (locked l = 0 \<or> cpu l = Some (tp c)) \<and> hart_ok c
     \<and> (locked l \<noteq> 0 \<longrightarrow> 0 < depth_of_ir (mycpu c))"

locale klock_impl =
  fixes acq :: "'l \<Rightarrow> 'c \<Rightarrow> ('l \<times> 'c) res"
    and rel :: "'l \<Rightarrow> 'c \<Rightarrow> ('l \<times> 'c) res"
    and held :: "'l \<Rightarrow> 'c \<Rightarrow> bool"
    and good :: "'l \<Rightarrow> 'c \<Rightarrow> bool"
  assumes acq_sim: "good l c \<Longrightarrow> lock_acquire (held l c) = Ok b \<Longrightarrow>
      \<exists>l' c'. acq l c = Ok (l', c') \<and> good l' c' \<and> held l' c' = b"
    and acq_fail: "good l c \<Longrightarrow> lock_acquire (held l c) = Fail e \<Longrightarrow> acq l c = Fail e"
    and rel_sim: "good l c \<Longrightarrow> lock_release (held l c) = Ok b \<Longrightarrow>
      \<exists>l' c'. rel l c = Ok (l', c') \<and> good l' c' \<and> held l' c' = b"
    and rel_fail: "good l c \<Longrightarrow> lock_release (held l c) = Fail e \<Longrightarrow> rel l c = Fail e"
begin

lemma bracket:
  assumes "good l c" and "\<not> held l c"
  shows "\<exists>l1 c1 l2 c2. acq l c = Ok (l1, c1) \<and> held l1 c1 \<and> rel l1 c1 = Ok (l2, c2)
    \<and> good l2 c2 \<and> \<not> held l2 c2"
proof -
  obtain l1 c1 where 1: "acq l c = Ok (l1, c1)" "good l1 c1" "held l1 c1"
    using acq_sim [OF assms(1), of True] assms(2) by auto
  then obtain l2 c2 where "rel l1 c1 = Ok (l2, c2)" "good l2 c2" "\<not> held l2 c2"
    using rel_sim [OF 1(2), of False] by auto
  with 1 show ?thesis by blast
qed

end

lemma release_held:
  assumes "local_lock l c" and "holding l c"
  shows "\<exists>c'. release l c = Ok (l\<lparr>cpu := None, locked := 0\<rparr>, c') \<and> hart_ok c'"
  using assms
  by (auto simp: local_lock_def release_def pop_off_def holding_def hart_ok_def irq_defs Let_def)

interpretation sl: klock_impl acquire release holding local_lock
proof
  fix l c b e
  assume g: "local_lock l c"
  show "\<exists>l' c'. acquire l c = Ok (l', c') \<and> local_lock l' c' \<and> holding l' c' = b"
    if "lock_acquire (holding l c) = Ok b"
  proof -
    have "\<not> holding l c" and b: "b" using that by (auto simp: lock_acquire_def split: if_splits)
    then have "locked l = 0" using g by (auto simp: local_lock_def holding_def cpuid_def)
    then show ?thesis using g b push_off_ok [of c] acquire_free [of l c]
      by (auto simp: local_lock_def holding_def cpuid_def hart_ok_def)
  qed
  show "acquire l c = Fail e" if "lock_acquire (holding l c) = Fail e"
    using that acquire_twice_panics by (auto simp: lock_acquire_def split: if_splits)
  show "\<exists>l' c'. release l c = Ok (l', c') \<and> local_lock l' c' \<and> holding l' c' = b"
    if "lock_release (holding l c) = Ok b"
    using that release_held [OF g] by (auto simp: lock_release_def local_lock_def holding_def split: if_splits)
  show "release l c = Fail e" if "lock_release (holding l c) = Fail e"
    using that by (auto simp: lock_release_def release_def split: if_splits)
qed

section \<open>Properties\<close>

text \<open>C4: Whatever the interleaving of the harts' steps through \<^verbatim>\<open>acquire\<close> and
  \<^verbatim>\<open>release\<close>, two harts are never inside at once, the lock word is set exactly while
  one is between winning the swap and storing zero, and no hart ever panics.\<close>

theorem lock_mutual_exclusion:
  assumes "lock_reachable nm s"
  shows "(pcs s i = Inside \<and> pcs s j = Inside \<longrightarrow> i = j) \<and> pcs s i \<noteq> Crashed
    \<and> (locked (lk s) \<noteq> 0 \<longleftrightarrow> (\<exists>k. owns (pcs s k)))"
proof -
  obtain own where inv: "lock_owner_inv s own" using lock_reachable_inv [OF assms] by blast
  have "i = j" if "pcs s i = Inside" "pcs s j = Inside"
    using that lock_owner_inv_owns [OF inv, of i] lock_owner_inv_owns [OF inv, of j] by simp
  then show ?thesis using inv by (auto simp: lock_owner_inv_def)
qed

lemma lock_reachable_two:
  "lock_reachable ''t'' \<lparr>lk = (initlock ''t'')\<lparr>locked := 1, cpu := Some 0\<rparr>,
     pcs = (\<lambda>_. Outside)(0 := Inside, 1 := Spinning)\<rparr>"
proof -
  let ?s0 = "\<lparr>lk = initlock ''t'', pcs = (\<lambda>_. Outside)\<rparr>"
  have l: "test_and_set (initlock ''t'') = (0, (initlock ''t'')\<lparr>locked := 1\<rparr>)"
    by (simp add: test_and_set_def initlock_def)
  have 1: "lock_reachable ''t'' (?s0\<lparr>pcs := (pcs ?s0)(0 := Spinning)\<rparr>)"
    by (rule lock_reachable.step [OF lock_reachable.init lock_step.enter])
      (simp_all add: held_by_def initlock_def)
  have 2: "lock_reachable ''t'' \<lparr>lk = (initlock ''t'')\<lparr>locked := 1\<rparr>, pcs = (\<lambda>_. Outside)(0 := Won)\<rparr>"
    using lock_reachable.step [OF 1 lock_step.swap_won [of _ 0 0 "(initlock ''t'')\<lparr>locked := 1\<rparr>"]] l
    by simp
  have 3: "lock_reachable ''t'' \<lparr>lk = (initlock ''t'')\<lparr>locked := 1, cpu := Some 0\<rparr>,
     pcs = (\<lambda>_. Outside)(0 := Inside)\<rparr>"
    using lock_reachable.step [OF 2 lock_step.record_cpu [of _ 0]] by simp
  show ?thesis
    using lock_reachable.step [OF 3 lock_step.enter [of _ 1]] by (simp add: held_by_def)
qed

theorem lock_mutual_exclusion_witness:
  "\<exists>s. lock_reachable ''t'' s \<and> pcs s 0 = Inside \<and> pcs s 1 = Spinning
     \<and> (\<forall>i j. pcs s i = Inside \<and> pcs s j = Inside \<longrightarrow> i = j)"
proof -
  let ?s = "\<lparr>lk = (initlock ''t'')\<lparr>locked := 1, cpu := Some 0\<rparr>,
     pcs = (\<lambda>_. Outside)(0 := Inside, 1 := Spinning)\<rparr>"
  have "\<forall>i j. pcs ?s i = Inside \<and> pcs ?s j = Inside \<longrightarrow> i = j"
    using lock_mutual_exclusion [OF lock_reachable_two] by blast
  moreover have "pcs ?s 0 = Inside" "pcs ?s 1 = Spinning" by simp_all
  ultimately show ?thesis using lock_reachable_two by blast
qed

text \<open>Nested critical sections: after \<open>n\<close> calls of \<^verbatim>\<open>push_off\<close> interrupts are off,
  and the matching calls of \<^verbatim>\<open>pop_off\<close> all succeed and give back the interrupt state
  and the depth from before the first; only the remembered flag is rewritten.\<close>

theorem push_pop_nested:
  assumes "hart_ok c"
  shows "\<not> sie ((push_off ^^ Suc n) c)
    \<and> (\<exists>c'. pops (Suc n) ((push_off ^^ Suc n) c) = Ok c' \<and> sie c' = sie c
        \<and> depth_of_ir (mycpu c') = depth_of_ir (mycpu c) \<and> (\<forall>k. k \<noteq> cpuid c \<longrightarrow> cpus c' k = cpus c k))"
  using push_pop_n [OF assms, of n] push_off_ok [OF push_n_ok [OF assms, of n]]
  by (auto simp: settled_def irq_defs)

theorem push_pop_nested_witness:
  "let c = \<lparr>tp = 1, sie = True, cpus = (\<lambda>_. \<lparr>current = None, idle_task_cx = 0, depth_of_ir = 0, ir_enable = False\<rparr>)\<rparr>
   in \<not> sie ((push_off ^^ 3) c) \<and> (\<exists>c'. pops 3 ((push_off ^^ 3) c) = Ok c' \<and> sie c')"
proof -
  let ?c = "\<lparr>tp = 1, sie = True, cpus = (\<lambda>_. \<lparr>current = None, idle_task_cx = 0, depth_of_ir = 0, ir_enable = False\<rparr>)\<rparr>"
  have "hart_ok ?c" by (simp add: hart_ok_def irq_defs)
  from push_pop_nested [OF this, of 2] show ?thesis by (auto simp: Let_def eval_nat_numeral)
qed

text \<open>C5: \<^verbatim>\<open>acquire\<close> and \<^verbatim>\<open>release\<close> refine the abstract lock: on a lock no other hart
  holds, a free lock is taken and given back with interrupts restored, taking a lock the
  hart holds is the panic \<open>dead lock\<close> and releasing one it does not hold is the other
  panic.\<close>

theorem spinlock_refines_klock:
  assumes "local_lock l c"
  shows "if holding l c then acquire l c = Fail (Panic ''dead lock'')
    \<and> (\<exists>l' c'. release l c = Ok (l', c') \<and> \<not> holding l' c' \<and> local_lock l' c')
    else release l c = Fail (Panic ''?????'')
    \<and> (\<exists>l1 c1 l2 c2. acquire l c = Ok (l1, c1) \<and> holding l1 c1 \<and> release l1 c1 = Ok (l2, c2)
         \<and> local_lock l2 c2 \<and> \<not> holding l2 c2)"
  using sl.bracket [OF assms] sl.rel_sim [OF assms, of False] sl.rel_fail [OF assms] sl.acq_fail [OF assms]
  by auto

theorem spinlock_refines_klock_witness:
  "let c = \<lparr>tp = 0, sie = True, cpus = (\<lambda>_. \<lparr>current = None, idle_task_cx = 0, depth_of_ir = 0, ir_enable = False\<rparr>)\<rparr>
   in \<exists>l1 c1 l2 c2. acquire (initlock ''a'') c = Ok (l1, c1) \<and> holding l1 c1 \<and> release l1 c1 = Ok (l2, c2)
         \<and> local_lock l2 c2 \<and> \<not> holding l2 c2"
proof -
  let ?c = "\<lparr>tp = 0, sie = True, cpus = (\<lambda>_. \<lparr>current = None, idle_task_cx = 0, depth_of_ir = 0, ir_enable = False\<rparr>)\<rparr>"
  have "local_lock (initlock ''a'') ?c" by (simp add: local_lock_def hart_ok_def irq_defs initlock_def)
  moreover have "\<not> holding (initlock ''a'') ?c" by (simp add: holding_def initlock_def)
  ultimately show ?thesis using spinlock_refines_klock [of "initlock ''a''" ?c] by simp
qed

end
