(* ===== verification/Klist.thy ===== *)
theory Klist
  imports Spinlock
begin

text \<open>
  The doubly linked list of \<^verbatim>\<open>list.c\<close>: every list has two sentinel nodes, the elements
  hang between them, and nodes are embedded in other structures. The heap maps a node's
  address to its two links; 0 is the null pointer, and following it is a fault. The
  lists of different owners live in one heap, so that what an operation leaves alone can
  be stated.
\<close>

section \<open>State and operations\<close>

type_synonym ptr = nat

abbreviation NULL :: ptr where "NULL \<equiv> 0"

record list_heap =
  prv :: "ptr \<Rightarrow> ptr"
  nxt :: "ptr \<Rightarrow> ptr"

text \<open>\<open>head\<close> and \<open>tail\<close> are the addresses of the two sentinel members.\<close>

record klist =
  llock :: klock
  head :: ptr
  tail :: ptr

definition get_prv :: "list_heap \<Rightarrow> ptr \<Rightarrow> ptr res" where
  "get_prv h p = (if p = NULL then Fail Null_pointer else Ok (prv h p))"

definition get_nxt :: "list_heap \<Rightarrow> ptr \<Rightarrow> ptr res" where
  "get_nxt h p = (if p = NULL then Fail Null_pointer else Ok (nxt h p))"

definition set_prv :: "list_heap \<Rightarrow> ptr \<Rightarrow> ptr \<Rightarrow> list_heap res" where
  "set_prv h p q = (if p = NULL then Fail Null_pointer else Ok (h\<lparr>prv := (prv h)(p := q)\<rparr>))"

definition set_nxt :: "list_heap \<Rightarrow> ptr \<Rightarrow> ptr \<Rightarrow> list_heap res" where
  "set_nxt h p q = (if p = NULL then Fail Null_pointer else Ok (h\<lparr>nxt := (nxt h)(p := q)\<rparr>))"

definition list_init :: "list_heap \<Rightarrow> klist \<Rightarrow> list_heap \<times> klist" where
  "list_init h l =
     (h\<lparr>prv := (prv h)(head l := NULL, tail l := head l),
        nxt := (nxt h)(head l := tail l, tail l := NULL)\<rparr>,
      l\<lparr>llock := False\<rparr>)"

definition list_insert_before :: "list_heap \<Rightarrow> ptr \<Rightarrow> ptr \<Rightarrow> list_heap res" where
  "list_insert_before h before elem =
     bind_res (get_prv h before) (\<lambda>p.
     bind_res (set_nxt h p elem) (\<lambda>h.
     bind_res (get_prv h before) (\<lambda>p.
     bind_res (set_prv h elem p) (\<lambda>h.
     bind_res (set_nxt h elem before) (\<lambda>h.
     set_prv h before elem)))))"

definition list_push :: "list_heap \<times> klist \<Rightarrow> ptr \<Rightarrow> (list_heap \<times> klist) res" where
  "list_push hl elem = (case hl of (h, l) \<Rightarrow>
     bind_res (lock_acquire (llock l)) (\<lambda>b.
     bind_res (get_nxt h (head l)) (\<lambda>f.
     bind_res (list_insert_before h f elem) (\<lambda>h.
     bind_res (lock_release b) (\<lambda>b. Ok (h, l\<lparr>llock := b\<rparr>))))))"

definition list_append :: "list_heap \<times> klist \<Rightarrow> ptr \<Rightarrow> (list_heap \<times> klist) res" where
  "list_append hl elem = (case hl of (h, l) \<Rightarrow>
     bind_res (lock_acquire (llock l)) (\<lambda>b.
     bind_res (list_insert_before h (tail l) elem) (\<lambda>h.
     bind_res (lock_release b) (\<lambda>b. Ok (h, l\<lparr>llock := b\<rparr>)))))"

definition list_remove :: "list_heap \<Rightarrow> ptr \<Rightarrow> list_heap res" where
  "list_remove h pelem =
     bind_res (get_prv h pelem) (\<lambda>p.
     bind_res (get_nxt h pelem) (\<lambda>n.
     bind_res (set_nxt h p n) (\<lambda>h.
     bind_res (get_nxt h pelem) (\<lambda>n.
     bind_res (get_prv h pelem) (\<lambda>p.
     bind_res (set_prv h n p) (\<lambda>h.
     bind_res (set_prv h pelem NULL) (\<lambda>h.
     set_nxt h pelem NULL)))))))"

definition list_pop :: "list_heap \<times> klist \<Rightarrow> (ptr \<times> list_heap \<times> klist) res" where
  "list_pop hl = (case hl of (h, l) \<Rightarrow>
     bind_res (lock_acquire (llock l)) (\<lambda>b.
     bind_res (get_nxt h (head l)) (\<lambda>elem.
     bind_res (list_remove h elem) (\<lambda>h.
     bind_res (lock_release b) (\<lambda>b. Ok (elem, h, l\<lparr>llock := b\<rparr>))))))"

definition list_tail :: "list_heap \<times> klist \<Rightarrow> (ptr \<times> list_heap \<times> klist) res" where
  "list_tail hl = (case hl of (h, l) \<Rightarrow>
     bind_res (lock_acquire (llock l)) (\<lambda>b.
     bind_res (get_prv h (tail l)) (\<lambda>elem.
     bind_res (lock_release b) (\<lambda>b. Ok (elem, h, l\<lparr>llock := b\<rparr>)))))"

text \<open>
  The traversals. \<open>None\<close> stands for a loop that does not end, on links that run in a
  circle.
\<close>

partial_function (option) elem_find_loop :: "list_heap \<Rightarrow> ptr \<Rightarrow> ptr \<Rightarrow> ptr \<Rightarrow> bool res option" where
  "elem_find_loop h t obj_elem elem =
     (if elem = t then Some (Ok False)
      else if elem = obj_elem then Some (Ok True)
      else if elem = NULL then Some (Fail Null_pointer)
      else elem_find_loop h t obj_elem (nxt h elem))"

definition elem_find :: "list_heap \<times> klist \<Rightarrow> ptr \<Rightarrow> bool res option" where
  "elem_find hl obj_elem = (case hl of (h, l) \<Rightarrow> elem_find_loop h (tail l) obj_elem (nxt h (head l)))"

definition list_empty :: "list_heap \<times> klist \<Rightarrow> bool" where
  "list_empty hl = (case hl of (h, l) \<Rightarrow> nxt h (head l) = tail l)"

partial_function (option) traversal_loop ::
  "list_heap \<Rightarrow> ptr \<Rightarrow> (ptr \<Rightarrow> int \<Rightarrow> bool) \<Rightarrow> int \<Rightarrow> ptr \<Rightarrow> ptr res option" where
  "traversal_loop h t func arg elem =
     (if elem = t then Some (Ok NULL)
      else if func elem arg then Some (Ok elem)
      else if elem = NULL then Some (Fail Null_pointer)
      else traversal_loop h t func arg (nxt h elem))"

definition list_traversal ::
  "list_heap \<times> klist \<Rightarrow> (ptr \<Rightarrow> int \<Rightarrow> bool) \<Rightarrow> int \<Rightarrow> ptr res option" where
  "list_traversal hl func arg = (case hl of (h, l) \<Rightarrow>
     (if list_empty (h, l) then Some (Ok NULL)
      else traversal_loop h (tail l) func arg (nxt h (head l))))"

partial_function (option) list_len_loop :: "list_heap \<Rightarrow> ptr \<Rightarrow> ptr \<Rightarrow> u32 \<Rightarrow> u32 res option" where
  "list_len_loop h t elem n =
     (if elem = t then Some (Ok n)
      else if elem = NULL then Some (Fail Null_pointer)
      else list_len_loop h t (nxt h elem) (n + 1))"

definition list_len :: "list_heap \<times> klist \<Rightarrow> u32 res option" where
  "list_len hl = (case hl of (h, l) \<Rightarrow> list_len_loop h (tail l) (nxt h (head l)) 0)"

section \<open>The list a heap holds\<close>

fun links :: "list_heap \<Rightarrow> ptr list \<Rightarrow> bool" where
  "links h (a # b # ns) \<longleftrightarrow> nxt h a = b \<and> prv h b = a \<and> links h (b # ns)"
| "links h ns \<longleftrightarrow> True"

abbreviation nodes :: "klist \<Rightarrow> ptr list \<Rightarrow> ptr list" where
  "nodes l xs \<equiv> head l # xs @ [tail l]"

text \<open>\<open>l\<close> holds the elements \<open>xs\<close>, in this order, and its lock is free.\<close>

definition is_klist :: "list_heap \<Rightarrow> klist \<Rightarrow> ptr list \<Rightarrow> bool" where
  "is_klist h l xs \<longleftrightarrow> \<not> llock l \<and> distinct (nodes l xs) \<and> NULL \<notin> set (nodes l xs)
     \<and> links h (nodes l xs) \<and> prv h (head l) = NULL \<and> nxt h (tail l) = NULL"

lemma links_append_iff: "links h (xs @ a # ys) \<longleftrightarrow> links h (xs @ [a]) \<and> links h (a # ys)"
proof (induction xs)
  case (Cons x xs)
  then show ?case by (cases xs) auto
qed simp

lemma links_cong:
  assumes "\<And>p. p \<in> set (butlast ns) \<Longrightarrow> nxt h' p = nxt h p"
    and "\<And>p. p \<in> set (tl ns) \<Longrightarrow> prv h' p = prv h p"
  shows "links h' ns = links h ns"
  using assms
proof (induction h ns rule: links.induct)
  case (1 h a b ns)
  have "links h' (b # ns) = links h (b # ns)"
    using "1.prems" by (intro "1.IH") (auto dest: in_set_butlastD intro: list.set_sel(2))
  then show ?case using "1.prems"(1) [of a] "1.prems"(2) [of b] by simp
qed simp_all

text \<open>What an operation on one list leaves alone: every list whose nodes it does not write.\<close>

lemma is_klist_frame:
  assumes "is_klist h l xs" and "\<And>p. p \<in> set (nodes l xs) \<Longrightarrow> nxt h' p = nxt h p \<and> prv h' p = prv h p"
  shows "is_klist h' l xs"
proof -
  have "links h' (nodes l xs) = links h (nodes l xs)"
    by (rule links_cong) (use assms(2) in \<open>auto dest: in_set_butlastD\<close>)
  then show ?thesis using assms by (simp add: is_klist_def)
qed

lemma list_init_ok:
  assumes "head l \<noteq> NULL" and "tail l \<noteq> NULL" and "head l \<noteq> tail l" and "list_init h l = (h', l')"
  shows "is_klist h' l' []"
  using assms by (auto simp: list_init_def is_klist_def)

section \<open>Insertion\<close>

lemma list_insert_before_run:
  assumes "before \<noteq> NULL" and "prv h before = p" and "p \<noteq> NULL" and "elem \<noteq> NULL"
  shows "list_insert_before h before elem = Ok
    (h\<lparr>nxt := (nxt h)(p := elem, elem := before), prv := (prv h)(elem := p, before := elem)\<rparr>)"
  using assms by (simp add: list_insert_before_def get_prv_def set_nxt_def set_prv_def)

lemma links_insert:
  assumes l: "links h (xs @ a # b # ys)" and d: "distinct (xs @ a # b # ys)" and e: "e \<notin> set (xs @ a # b # ys)"
  shows "links (h\<lparr>nxt := (nxt h)(a := e, e := b), prv := (prv h)(e := a, b := e)\<rparr>) (xs @ a # e # b # ys)"
    (is "links ?h _")
proof -
  have 1: "links h (xs @ [a])" "links h (b # ys)"
    using l links_append_iff [of h xs a "b # ys"] by auto
  have "links ?h (xs @ [a]) = links h (xs @ [a])"
  proof (rule links_cong)
    fix p assume "p \<in> set (tl (xs @ [a]))"
    then have "p \<in> set (xs @ [a])" by (meson list.set_sel(2) snoc_eq_iff_butlast)
    then show "prv ?h p = prv h p" using d e by auto
  qed (use d e in auto)
  then have "links ?h (xs @ [a])" using 1(1) by simp
  moreover have "links ?h (b # ys) = links h (b # ys)"
    by (rule links_cong) (use d e in \<open>auto dest!: in_set_butlastD split: if_splits\<close>)
  ultimately show ?thesis
    using links_append_iff [of ?h xs a "e # b # ys"] d e 1(2) by auto
qed

text \<open>Inserting before any node but the head: the new element takes its place in the list.\<close>

lemma list_insert_before_ok:
  assumes kl: "is_klist h l (xs @ ys)" and e: "e \<notin> set (nodes l (xs @ ys))" "e \<noteq> NULL"
  shows "\<exists>h'. list_insert_before h (hd (ys @ [tail l])) e = Ok h' \<and> is_klist h' l (xs @ e # ys)
    \<and> (\<forall>p. p \<notin> set (e # nodes l (xs @ ys)) \<longrightarrow> nxt h' p = nxt h p \<and> prv h' p = prv h p)"
proof -
  obtain zs a where za: "head l # xs = zs @ [a]" by (metis append_butlast_last_id list.distinct(1))
  obtain b ws where bw: "ys @ [tail l] = b # ws" by (cases "ys @ [tail l]") auto
  have n: "nodes l (xs @ ys) = zs @ a # b # ws"
  proof -
    have "nodes l (xs @ ys) = (head l # xs) @ (ys @ [tail l])" by simp
    also have "\<dots> = (zs @ [a]) @ (b # ws)" by (simp only: za bw)
    finally show ?thesis by simp
  qed
  have n': "nodes l (xs @ e # ys) = zs @ a # e # b # ws"
  proof -
    have "nodes l (xs @ e # ys) = (head l # xs) @ e # (ys @ [tail l])" by simp
    also have "\<dots> = (zs @ [a]) @ e # (b # ws)" by (simp only: za bw)
    finally show ?thesis by simp
  qed
  have lk: "links h (zs @ a # b # ws)" and d: "distinct (zs @ a # b # ws)"
    and nz: "NULL \<notin> set (zs @ a # b # ws)" and lf: "\<not> llock l"
    using kl unfolding is_klist_def n by auto
  have pa: "prv h b = a" using lk links_append_iff [of h zs a "b # ws"] by simp
  define h' where "h' = h\<lparr>nxt := (nxt h)(a := e, e := b), prv := (prv h)(e := a, b := e)\<rparr>"
  have run: "list_insert_before h b e = Ok h'"
    unfolding h'_def using nz pa e(2) by (intro list_insert_before_run) auto
  have en: "e \<notin> set (zs @ a # b # ws)" using e(1) unfolding n .
  have "links h' (zs @ a # e # b # ws)"
    unfolding h'_def by (rule links_insert [OF lk d en])
  moreover have "head l \<noteq> e" "tail l \<noteq> e" using e(1) by auto
  moreover have "head l \<noteq> b" "tail l \<noteq> a"
  proof -
    have "b \<in> set (ys @ [tail l])" "a \<in> set (head l # xs)" by (simp_all add: bw za)
    then show "head l \<noteq> b" "tail l \<noteq> a" using kl by (auto simp: is_klist_def)
  qed
  ultimately have "is_klist h' l (xs @ e # ys)"
    using kl nz d en e(2) lf unfolding is_klist_def n' by (auto simp: h'_def)
  moreover have "a \<in> set (nodes l (xs @ ys))" "b \<in> set (nodes l (xs @ ys))" by (simp_all only: n) auto
  ultimately show ?thesis using run bw by (auto simp: h'_def)
qed

lemma list_append_ok:
  assumes "is_klist h l xs" and "e \<notin> set (nodes l xs)" and "e \<noteq> NULL"
  shows "\<exists>h'. list_append (h, l) e = Ok (h', l) \<and> is_klist h' l (xs @ [e])
    \<and> (\<forall>p. p \<notin> set (e # nodes l xs) \<longrightarrow> nxt h' p = nxt h p \<and> prv h' p = prv h p)"
  using list_insert_before_ok [of h l xs "[]" e] assms
  by (auto simp: list_append_def is_klist_def)

lemma klist_first:
  assumes "is_klist h l xs"
  shows "nxt h (head l) = hd (xs @ [tail l])" and "get_nxt h (head l) = Ok (hd (xs @ [tail l]))"
  using assms by (cases xs; auto simp: is_klist_def get_nxt_def)+

lemma list_push_ok:
  assumes "is_klist h l xs" and "e \<notin> set (nodes l xs)" and "e \<noteq> NULL"
  shows "\<exists>h'. list_push (h, l) e = Ok (h', l) \<and> is_klist h' l (e # xs)
    \<and> (\<forall>p. p \<notin> set (e # nodes l xs) \<longrightarrow> nxt h' p = nxt h p \<and> prv h' p = prv h p)"
  using list_insert_before_ok [of h l "[]" xs e] assms klist_first [OF assms(1)]
  by (auto simp: list_push_def is_klist_def)

section \<open>Removal\<close>

lemma list_remove_run:
  assumes "e \<noteq> NULL" and "prv h e = a" and "nxt h e = b" and "a \<noteq> NULL" and "b \<noteq> NULL"
    and "a \<noteq> e" and "b \<noteq> e"
  shows "list_remove h e = Ok
    (h\<lparr>nxt := (nxt h)(a := b, e := NULL), prv := (prv h)(b := a, e := NULL)\<rparr>)"
  using assms by (simp add: list_remove_def get_prv_def get_nxt_def set_nxt_def set_prv_def)

text \<open>
  Removing an element unlinks it, clears its two pointers, and leaves the others in order.
\<close>

lemma list_remove_ok:
  assumes kl: "is_klist h l (xs @ e # ys)"
  shows "\<exists>h'. list_remove h e = Ok h' \<and> is_klist h' l (xs @ ys) \<and> nxt h' e = NULL \<and> prv h' e = NULL
    \<and> (\<forall>p. p \<notin> set (nodes l (xs @ e # ys)) \<longrightarrow> nxt h' p = nxt h p \<and> prv h' p = prv h p)"
proof -
  obtain zs a where za: "head l # xs = zs @ [a]" by (metis append_butlast_last_id list.distinct(1))
  obtain b ws where bw: "ys @ [tail l] = b # ws" by (cases "ys @ [tail l]") auto
  have n: "nodes l (xs @ ys) = zs @ a # b # ws"
  proof -
    have "nodes l (xs @ ys) = (head l # xs) @ (ys @ [tail l])" by simp
    also have "\<dots> = (zs @ [a]) @ (b # ws)" by (simp only: za bw)
    finally show ?thesis by simp
  qed
  have n': "nodes l (xs @ e # ys) = zs @ a # e # b # ws"
  proof -
    have "nodes l (xs @ e # ys) = (head l # xs) @ e # (ys @ [tail l])" by simp
    also have "\<dots> = (zs @ [a]) @ e # (b # ws)" by (simp only: za bw)
    finally show ?thesis by simp
  qed
  have lk: "links h (zs @ a # e # b # ws)" and d: "distinct (zs @ a # e # b # ws)"
    and nz: "NULL \<notin> set (zs @ a # e # b # ws)" and lf: "\<not> llock l"
    using kl unfolding is_klist_def n' by auto
  have seg: "links h (zs @ [a])" "nxt h e = b" "prv h e = a" "links h (b # ws)"
    using lk links_append_iff [of h zs a "e # b # ws"] by auto
  define h' where "h' = h\<lparr>nxt := (nxt h)(a := b, e := NULL), prv := (prv h)(b := a, e := NULL)\<rparr>"
  have run: "list_remove h e = Ok h'"
    unfolding h'_def using nz d seg by (intro list_remove_run) auto
  have "links h' (zs @ [a]) = links h (zs @ [a])"
  proof (rule links_cong)
    fix p assume "p \<in> set (tl (zs @ [a]))"
    then have "p \<in> set (zs @ [a])" by (meson list.set_sel(2) snoc_eq_iff_butlast)
    then show "prv h' p = prv h p" using d by (auto simp: h'_def)
  qed (use d in \<open>auto simp: h'_def\<close>)
  moreover have "links h' (b # ws) = links h (b # ws)"
    by (rule links_cong) (use d in \<open>auto simp: h'_def dest!: in_set_butlastD split: if_splits\<close>)
  ultimately have "links h' (zs @ a # b # ws)"
    using links_append_iff [of h' zs a "b # ws"] seg d by (auto simp: h'_def)
  moreover have "head l \<noteq> b" "tail l \<noteq> a" "head l \<noteq> e" "tail l \<noteq> e"
  proof -
    have "b \<in> set (ys @ [tail l])" "a \<in> set (head l # xs)" by (simp_all add: bw za)
    then show "head l \<noteq> b" "tail l \<noteq> a" "head l \<noteq> e" "tail l \<noteq> e"
      using kl by (auto simp: is_klist_def)
  qed
  ultimately have "is_klist h' l (xs @ ys)"
    using kl nz d lf unfolding is_klist_def n by (auto simp: h'_def)
  moreover have "a \<in> set (nodes l (xs @ e # ys))" "b \<in> set (nodes l (xs @ e # ys))"
    "e \<in> set (nodes l (xs @ e # ys))" by (simp_all only: n') auto
  ultimately show ?thesis using run by (auto simp: h'_def)
qed

lemma list_pop_ok:
  assumes "is_klist h l (x # xs)"
  shows "\<exists>h'. list_pop (h, l) = Ok (x, h', l) \<and> is_klist h' l xs \<and> nxt h' x = NULL \<and> prv h' x = NULL
    \<and> (\<forall>p. p \<notin> set (nodes l (x # xs)) \<longrightarrow> nxt h' p = nxt h p \<and> prv h' p = prv h p)"
  using list_remove_ok [of h l "[]" x xs] assms klist_first [OF assms]
  by (auto simp: list_pop_def is_klist_def)

text \<open>Popping an empty list follows the tail's null link: the caller must test first.\<close>

lemma list_pop_empty:
  assumes "is_klist h l []"
  shows "list_pop (h, l) = Fail Null_pointer"
  using assms klist_first [OF assms]
  by (simp add: list_pop_def list_remove_def is_klist_def get_prv_def get_nxt_def set_nxt_def set_prv_def)

lemma list_empty_iff: "is_klist h l xs \<Longrightarrow> list_empty (h, l) \<longleftrightarrow> xs = []"
  using klist_first [of h l xs] by (cases xs) (auto simp: list_empty_def is_klist_def)

lemma list_tail_ok:
  assumes "is_klist h l (xs @ [x])"
  shows "list_tail (h, l) = Ok (x, h, l)"
proof -
  have "prv h (tail l) = x"
    using assms links_append_iff [of h "head l # xs" x "[tail l]"] by (simp add: is_klist_def)
  then show ?thesis using assms by (simp add: list_tail_def is_klist_def get_prv_def)
qed

section \<open>Traversals\<close>

text \<open>
  A suffix of the node list, ending at the tail: every loop below walks such a suffix.
\<close>

lemma links_next: "links h (x # xs @ [t]) \<Longrightarrow> nxt h x = hd (xs @ [t]) \<and> links h (xs @ [t])"
  by (cases xs) auto

lemma elem_find_loop_ok:
  assumes "links h (xs @ [t])" and "NULL \<notin> set xs" and "t \<notin> set xs"
  shows "elem_find_loop h t e (hd (xs @ [t])) = Some (Ok (e \<in> set xs))"
  using assms
proof (induction xs)
  case Nil
  then show ?case by (simp add: elem_find_loop.simps)
next
  case (Cons x xs)
  then show ?case using links_next [of h x xs t] by (subst elem_find_loop.simps) auto
qed

lemma traversal_loop_ok:
  assumes "links h (xs @ [t])" and "NULL \<notin> set xs" and "t \<notin> set xs"
  shows "traversal_loop h t f arg (hd (xs @ [t])) =
    Some (Ok (case find (\<lambda>x. f x arg) xs of None \<Rightarrow> NULL | Some x \<Rightarrow> x))"
  using assms
proof (induction xs)
  case Nil
  then show ?case by (simp add: traversal_loop.simps)
next
  case (Cons x xs)
  then show ?case using links_next [of h x xs t] by (subst traversal_loop.simps) auto
qed

lemma list_len_loop_ok:
  assumes "links h (xs @ [t])" and "NULL \<notin> set xs" and "t \<notin> set xs"
  shows "list_len_loop h t (hd (xs @ [t])) n = Some (Ok (n + of_nat (length xs)))"
  using assms
proof (induction xs arbitrary: n)
  case Nil
  then show ?case by (simp add: list_len_loop.simps)
next
  case (Cons x xs)
  then show ?case using links_next [of h x xs t] by (subst list_len_loop.simps) (auto simp: add_ac)
qed

lemma klist_suffix:
  assumes "is_klist h l xs"
  shows "links h (xs @ [tail l])" and "NULL \<notin> set xs" and "tail l \<notin> set xs"
  using assms links_next [of h "head l" xs "tail l"] by (auto simp: is_klist_def)

lemma elem_find_ok:
  assumes kl: "is_klist h l xs"
  shows "elem_find (h, l) e = Some (Ok (e \<in> set xs))"
  using elem_find_loop_ok [OF klist_suffix [OF kl], of e] by (simp add: elem_find_def klist_first [OF kl])

lemma list_traversal_ok:
  assumes kl: "is_klist h l xs"
  shows "list_traversal (h, l) f arg =
     Some (Ok (case find (\<lambda>x. f x arg) xs of None \<Rightarrow> NULL | Some x \<Rightarrow> x))"
  using traversal_loop_ok [OF klist_suffix [OF kl], of f arg]
  by (cases xs) (simp_all add: list_traversal_def klist_first [OF kl] list_empty_iff [OF kl])

lemma list_len_ok:
  assumes kl: "is_klist h l xs"
  shows "list_len (h, l) = Some (Ok (of_nat (length xs)))"
  using list_len_loop_ok [OF klist_suffix [OF kl], of 0] by (simp add: list_len_def klist_first [OF kl])

section \<open>The interface\<close>

text \<open>
  What the task manager, the wait queues and the address spaces rely on: a first-in
  first-out queue of elements, seen through the list it holds.
\<close>

locale fifo_queue =
  fixes app :: "'s \<Rightarrow> 'a \<Rightarrow> 's res"
    and pop :: "'s \<Rightarrow> ('a \<times> 's) res"
    and is_emp :: "'s \<Rightarrow> bool"
    and holds :: "'s \<Rightarrow> 'a list \<Rightarrow> bool"
    and fresh :: "'s \<Rightarrow> 'a \<Rightarrow> bool"
  assumes app_ok: "holds s xs \<Longrightarrow> fresh s x \<Longrightarrow> x \<notin> set xs \<Longrightarrow>
      \<exists>s'. app s x = Ok s' \<and> holds s' (xs @ [x]) \<and> (\<forall>y. fresh s' y \<longleftrightarrow> fresh s y)"
    and pop_ok: "holds s (x # xs) \<Longrightarrow> \<exists>s'. pop s = Ok (x, s') \<and> holds s' xs \<and> (\<forall>y. fresh s' y \<longleftrightarrow> fresh s y)"
    and emp_iff: "holds s xs \<Longrightarrow> is_emp s \<longleftrightarrow> xs = []"

text \<open>Append all elements of a list; pop \<open>n\<close> times.\<close>

fun app_all :: "('s \<Rightarrow> 'a \<Rightarrow> 's res) \<Rightarrow> 's \<Rightarrow> 'a list \<Rightarrow> 's res" where
  "app_all app s [] = Ok s"
| "app_all app s (x # xs) = bind_res (app s x) (\<lambda>s. app_all app s xs)"

fun pop_n :: "('s \<Rightarrow> ('a \<times> 's) res) \<Rightarrow> nat \<Rightarrow> 's \<Rightarrow> ('a list \<times> 's) res" where
  "pop_n pop 0 s = Ok ([], s)"
| "pop_n pop (Suc n) s =
     bind_res (pop s) (\<lambda>(x, s). bind_res (pop_n pop n s) (\<lambda>(xs, s). Ok (x # xs, s)))"

context fifo_queue
begin

lemma app_all_ok:
  assumes "holds s xs" and "\<forall>y \<in> set ys. fresh s y" and "distinct ys" and "set xs \<inter> set ys = {}"
  shows "\<exists>s'. app_all app s ys = Ok s' \<and> holds s' (xs @ ys)"
  using assms
proof (induction ys arbitrary: s xs)
  case Nil
  then show ?case by simp
next
  case (Cons y ys)
  have y: "fresh s y" "y \<notin> set xs" using Cons.prems by auto
  obtain s1 where s1: "app s y = Ok s1" "holds s1 (xs @ [y])" "\<forall>z. fresh s1 z \<longleftrightarrow> fresh s z"
    using app_ok [OF Cons.prems(1) y] by blast
  have "\<exists>s'. app_all app s1 ys = Ok s' \<and> holds s' ((xs @ [y]) @ ys)"
    using Cons.prems s1 by (intro Cons.IH) auto
  then show ?case using s1 by simp
qed

lemma pop_n_ok:
  assumes "holds s (xs @ ys)"
  shows "\<exists>s'. pop_n pop (length xs) s = Ok (xs, s') \<and> holds s' ys"
  using assms
proof (induction xs arbitrary: s)
  case Nil
  then show ?case by simp
next
  case (Cons x xs)
  then obtain s1 where "pop s = Ok (x, s1)" "holds s1 (xs @ ys)" using pop_ok by fastforce
  then show ?case using Cons.IH [of s1] by fastforce
qed

text \<open>First in, first out: what goes into an empty queue comes out in the same order.\<close>

lemma fifo:
  assumes "holds s []" and "\<forall>y \<in> set ys. fresh s y" and "distinct ys"
  shows "\<exists>s1 s2. app_all app s ys = Ok s1 \<and> pop_n pop (length ys) s1 = Ok (ys, s2) \<and> is_emp s2"
proof -
  obtain s1 where s1: "app_all app s ys = Ok s1" "holds s1 ys"
    using app_all_ok [OF assms(1,2,3)] by auto
  then obtain s2 where "pop_n pop (length ys) s1 = Ok (ys, s2)" "holds s2 []"
    using pop_n_ok [of s1 ys "[]"] by auto
  with s1 emp_iff show ?thesis by blast
qed

end

definition klist_fresh :: "list_heap \<times> klist \<Rightarrow> ptr \<Rightarrow> bool" where
  "klist_fresh hl p \<longleftrightarrow> p \<noteq> NULL \<and> p \<noteq> head (snd hl) \<and> p \<noteq> tail (snd hl)"

interpretation kl: fifo_queue list_append list_pop list_empty "\<lambda>hl xs. is_klist (fst hl) (snd hl) xs"
  klist_fresh
proof
  fix s :: "list_heap \<times> klist" and xs x
  obtain h l where s: "s = (h, l)" by fastforce
  show "\<exists>s'. list_append s x = Ok s' \<and> is_klist (fst s') (snd s') (xs @ [x])
      \<and> (\<forall>y. klist_fresh s' y \<longleftrightarrow> klist_fresh s y)"
    if "is_klist (fst s) (snd s) xs" "klist_fresh s x" "x \<notin> set xs"
    using list_append_ok [of h l xs x] that by (auto simp: s klist_fresh_def)
  show "\<exists>s'. list_pop s = Ok (x, s') \<and> is_klist (fst s') (snd s') xs
      \<and> (\<forall>y. klist_fresh s' y \<longleftrightarrow> klist_fresh s y)"
    if "is_klist (fst s) (snd s) (x # xs)"
    using list_pop_ok [of h l x xs] that by (auto simp: s klist_fresh_def)
  show "list_empty s \<longleftrightarrow> xs = []" if "is_klist (fst s) (snd s) xs"
    using list_empty_iff [of h l xs] that by (simp add: s)
qed

section \<open>Properties\<close>

text \<open>Elements appended to a fresh list come back out of \<^verbatim>\<open>list_pop\<close> in the order they
  went in, every call succeeding, and the list is empty again.\<close>

theorem list_fifo:
  assumes "head l \<noteq> NULL" and "tail l \<noteq> NULL" and "head l \<noteq> tail l"
    and "distinct xs" and "NULL \<notin> set xs" and "head l \<notin> set xs" and "tail l \<notin> set xs"
  shows "\<exists>s1 s2. app_all list_append (list_init h l) xs = Ok s1
    \<and> pop_n list_pop (length xs) s1 = Ok (xs, s2) \<and> list_empty s2"
proof -
  obtain h' l' where i: "list_init h l = (h', l')" by fastforce
  have kl: "is_klist (fst (list_init h l)) (snd (list_init h l)) []"
    using list_init_ok [OF assms(1-3) i] i by simp
  have "\<forall>y \<in> set xs. klist_fresh (list_init h l) y"
    using assms by (auto simp: klist_fresh_def list_init_def intro: gr0I)
  then show ?thesis using kl.fifo [OF kl _ assms(4)] by blast
qed

theorem list_fifo_witness:
  "\<exists>s1 s2. app_all list_append (list_init \<lparr>prv = (\<lambda>_. 0), nxt = (\<lambda>_. 0)\<rparr> \<lparr>llock = False, head = 1, tail = 2\<rparr>) [5, 3, 9] = Ok s1
    \<and> pop_n list_pop 3 s1 = Ok ([5, 3, 9], s2) \<and> list_empty s2"
  using list_fifo [of "\<lparr>llock = False, head = 1, tail = 2\<rparr>" "[5, 3, 9]" "\<lparr>prv = (\<lambda>_. 0), nxt = (\<lambda>_. 0)\<rparr>"]
  by (simp add: numeral_3_eq_3)

text \<open>\<^verbatim>\<open>list_remove\<close> unlinks an element from the middle of a list: the rest keeps its
  order, the element's links are cleared, nodes of other lists are untouched, and
  \<^verbatim>\<open>elem_find\<close> and \<^verbatim>\<open>list_len\<close> terminate and see the shorter list.\<close>

theorem list_remove_middle:
  assumes "is_klist h l (xs @ e # ys)"
  shows "\<exists>h'. list_remove h e = Ok h' \<and> is_klist h' l (xs @ ys) \<and> nxt h' e = NULL \<and> prv h' e = NULL
    \<and> (\<forall>p. p \<notin> set (nodes l (xs @ e # ys)) \<longrightarrow> nxt h' p = nxt h p \<and> prv h' p = prv h p)
    \<and> elem_find (h', l) e = Some (Ok False)
    \<and> list_len (h', l) = Some (Ok (of_nat (length xs + length ys)))"
proof -
  obtain h' where h': "list_remove h e = Ok h'" "is_klist h' l (xs @ ys)" "nxt h' e = NULL" "prv h' e = NULL"
    "\<forall>p. p \<notin> set (nodes l (xs @ e # ys)) \<longrightarrow> nxt h' p = nxt h p \<and> prv h' p = prv h p"
    using list_remove_ok [OF assms] by blast
  have "e \<notin> set (xs @ ys)" using assms by (auto simp: is_klist_def)
  then show ?thesis using h' elem_find_ok [OF h'(2), of e] list_len_ok [OF h'(2)] by auto
qed

theorem list_remove_middle_witness:
  "let h = \<lparr>prv = (\<lambda>_. 0)(5 := 1, 6 := 5, 7 := 6, 2 := 7), nxt = (\<lambda>_. 0)(1 := 5, 5 := 6, 6 := 7, 7 := 2)\<rparr>;
       l = \<lparr>llock = False, head = 1, tail = 2\<rparr>
   in \<exists>h'. list_remove h 6 = Ok h' \<and> is_klist h' l [5, 7] \<and> elem_find (h', l) 6 = Some (Ok False)"
proof -
  let ?h = "\<lparr>prv = (\<lambda>_. 0)(5 := 1, 6 := 5, 7 := 6, 2 := 7), nxt = (\<lambda>_. 0)(1 := 5, 5 := 6, 6 := 7, 7 := 2)\<rparr>"
  let ?l = "\<lparr>llock = False, head = 1, tail = 2\<rparr>"
  have "is_klist ?h ?l ([5] @ 6 # [7])" by (simp add: is_klist_def)
  from list_remove_middle [OF this] show ?thesis by (auto simp: Let_def)
qed

end
