(* ===== verification/Phys_Mem.thy ===== *)
theory Phys_Mem
  imports K_Prelude
begin

text \<open>
  Physical memory, as the kernel sees it through its identity mapping: a byte for every
  64-bit address. The block operations of \<^verbatim>\<open>string.c\<close> on it, and the aligned 64-bit
  accesses that page tables are made of. \<open>wbytes\<close> and \<open>rbytes\<close> are the specification:
  store and fetch a block of bytes at once.
\<close>

type_synonym mem = "u64 \<Rightarrow> u8"

section \<open>Block operations of string.c\<close>

text \<open>The counter of the loop is an \<^verbatim>\<open>int\<close>; blocks of two gigabytes do not exist here.\<close>

primrec memset_loop :: "mem \<Rightarrow> u64 \<Rightarrow> u8 \<Rightarrow> nat \<Rightarrow> mem" where
  "memset_loop m p c 0 = m"
| "memset_loop m p c (Suc n) = memset_loop (m(p := c)) (p + 1) c n"

definition memset :: "mem \<Rightarrow> u64 \<Rightarrow> u8 \<Rightarrow> u64 \<Rightarrow> mem" where
  "memset m dest c n = memset_loop m dest c (unat n)"

primrec memcmp_loop :: "mem \<Rightarrow> u64 \<Rightarrow> u64 \<Rightarrow> nat \<Rightarrow> int" where
  "memcmp_loop m s1 s2 0 = 0"
| "memcmp_loop m s1 s2 (Suc n) =
     (if m s1 \<noteq> m s2 then uint (m s1) - uint (m s2) else memcmp_loop m (s1 + 1) (s2 + 1) n)"

definition memcmp :: "mem \<Rightarrow> u64 \<Rightarrow> u64 \<Rightarrow> u32 \<Rightarrow> int" where
  "memcmp m v1 v2 n = memcmp_loop m v1 v2 (unat n)"

text \<open>The two loops of \<^verbatim>\<open>memmove\<close>.\<close>

primrec copy_down :: "mem \<Rightarrow> u64 \<Rightarrow> u64 \<Rightarrow> nat \<Rightarrow> mem" where
  "copy_down m d s 0 = m"
| "copy_down m d s (Suc n) = (let s = s - 1; d = d - 1 in copy_down (m(d := m s)) d s n)"

primrec copy_up :: "mem \<Rightarrow> u64 \<Rightarrow> u64 \<Rightarrow> nat \<Rightarrow> mem" where
  "copy_up m d s 0 = m"
| "copy_up m d s (Suc n) = copy_up (m(d := m s)) (d + 1) (s + 1) n"

definition memmove :: "mem \<Rightarrow> u64 \<Rightarrow> u64 \<Rightarrow> u32 \<Rightarrow> mem" where
  "memmove m dst src n =
     (if src < dst \<and> src + ucast n > dst then copy_down m (dst + ucast n) (src + ucast n) (unat n)
      else copy_up m dst src (unat n))"

definition memcpy :: "mem \<Rightarrow> u64 \<Rightarrow> u64 \<Rightarrow> u32 \<Rightarrow> mem" where
  "memcpy m dst src n = memmove m dst src n"

section \<open>Blocks of bytes\<close>

definition rbytes :: "mem \<Rightarrow> u64 \<Rightarrow> nat \<Rightarrow> u8 list" where
  "rbytes m a n = map (\<lambda>i. m (a + of_nat i)) [0..<n]"

definition wbytes :: "mem \<Rightarrow> u64 \<Rightarrow> u8 list \<Rightarrow> mem" where
  "wbytes m a bs = (\<lambda>x. if unat (x - a) < length bs then bs ! unat (x - a) else m x)"

lemma length_rbytes [simp]: "length (rbytes m a n) = n"
  by (simp add: rbytes_def)

lemma rbytes_0 [simp]: "rbytes m a 0 = []"
  by (simp add: rbytes_def)

lemma rbytes_nth [simp]: "i < n \<Longrightarrow> rbytes m a n ! i = m (a + of_nat i)"
  by (simp add: rbytes_def)

lemma rbytes_Suc: "rbytes m a (Suc n) = m a # rbytes m (a + 1) n"
  by (simp add: rbytes_def upt_conv_Cons map_Suc_upt [symmetric] add.assoc del: upt_Suc map_Suc_upt)

lemma rbytes_snoc: "rbytes m a (Suc n) = rbytes m a n @ [m (a + of_nat n)]"
  by (simp add: rbytes_def)

lemma rbytes_cong: "(\<And>i. i < n \<Longrightarrow> m (a + of_nat i) = m' (a + of_nat i)) \<Longrightarrow> rbytes m a n = rbytes m' a n"
  by (simp add: rbytes_def)

lemma wbytes_Nil [simp]: "wbytes m a [] = m"
  by (simp add: wbytes_def)

lemma word_diff_zero_iff: "unat (x - a :: 'a::len word) = 0 \<longleftrightarrow> x = a"
  by (simp add: unsigned_eq_0_iff)

lemma word_pred_diff: "(x::'a::len word) \<noteq> a \<Longrightarrow> unat (x - (a + 1)) = unat (x - a) - 1"
  by (metis add.commute diff_diff_eq eq_iff_diff_eq_0 unat_minus_one)

lemma wbytes_Cons:
  assumes "length bs < 2 ^ 64"
  shows "wbytes m a (b # bs) = wbytes (m(a := b)) (a + 1) bs"
proof (rule ext)
  fix x
  show "wbytes m a (b # bs) x = wbytes (m(a := b)) (a + 1) bs x"
  proof (cases "x = a")
    case True
    have "a - (a + 1) = - 1" by simp
    then have "unat (a - (a + 1)) = 2 ^ 64 - 1" by (simp add: unsigned_minus_1_eq_mask mask_eq_exp_minus_1)
    then show ?thesis using True assms by (simp add: wbytes_def)
  next
    case False
    then have "0 < unat (x - a)" using word_diff_zero_iff [of x a] by simp
    then show ?thesis using False word_pred_diff [OF False]
      by (auto simp: wbytes_def nth_Cons')
  qed
qed

lemma wbytes_snoc:
  assumes "length bs < 2 ^ 64"
  shows "wbytes m a (bs @ [b]) = wbytes (m(a + of_nat (length bs) := b)) a bs"
proof (rule ext)
  fix x
  have u: "unat (of_nat (length bs) :: u64) = length bs" using assms by (simp add: unat_of_nat)
  have "unat (x - a) = length bs \<longleftrightarrow> x = a + of_nat (length bs)"
    using u unsigned_word_eqI [where ?'a = nat, of "x - a" "of_nat (length bs)"] by (auto simp: algebra_simps)
  then show "wbytes m a (bs @ [b]) x = wbytes (m(a + of_nat (length bs) := b)) a bs x"
    by (auto simp: wbytes_def nth_append)
qed

lemma unat_of_nat_u64: "n < 2 ^ 64 \<Longrightarrow> unat (of_nat n :: u64) = n"
  by (simp add: unat_of_nat)

lemma wbytes_in: "i < length bs \<Longrightarrow> length bs \<le> 2 ^ 64 \<Longrightarrow> wbytes m a bs (a + of_nat i) = bs ! i"
  using unat_of_nat_u64 [of i] by (simp add: wbytes_def)

lemma rbytes_wbytes: "length bs \<le> 2 ^ 64 \<Longrightarrow> rbytes (wbytes m a bs) a (length bs) = bs"
  by (rule nth_equalityI) (simp_all add: wbytes_in)

lemma wbytes_out: "(\<And>i. i < length bs \<Longrightarrow> x \<noteq> a + of_nat i) \<Longrightarrow> wbytes m a bs x = m x"
proof -
  assume *: "\<And>i. i < length bs \<Longrightarrow> x \<noteq> a + of_nat i"
  have "x = a + of_nat (unat (x - a))" by simp
  then have "\<not> unat (x - a) < length bs" using * by blast
  then show ?thesis by (simp add: wbytes_def)
qed

section \<open>The block operations store blocks\<close>

lemma memset_loop_wbytes: "n \<le> 2 ^ 64 \<Longrightarrow> memset_loop m p c n = wbytes m p (replicate n c)"
  by (induction n arbitrary: m p) (simp_all add: wbytes_Cons)

lemma memset_wbytes: "memset m p c n = wbytes m p (replicate (unat n) c)"
  using unsigned_less [of n, where ?'a = nat] by (simp add: memset_def memset_loop_wbytes less_imp_le)

lemma copy_up_wbytes:
  assumes "\<And>i j. i < j \<Longrightarrow> j < n \<Longrightarrow> d + of_nat i \<noteq> s + of_nat j" and "n \<le> 2 ^ 64"
  shows "copy_up m d s n = wbytes m d (rbytes m s n)"
  using assms
proof (induction n arbitrary: m d s)
  case 0
  then show ?case by simp
next
  case (Suc n)
  have apart: "d + 1 + of_nat i \<noteq> s + 1 + of_nat j" if "i < j" "j < n" for i j
    using Suc.prems(1) [of "Suc i" "Suc j"] that by (simp add: add_ac)
  have keep: "rbytes (m(d := m s)) (s + 1) n = rbytes m (s + 1) n"
    using Suc.prems(1) [of 0 "Suc i" for i] by (intro rbytes_cong) (auto simp: add_ac)
  have "copy_up m d s (Suc n) = wbytes (m(d := m s)) (d + 1) (rbytes (m(d := m s)) (s + 1) n)"
    using Suc.IH [of "d + 1" "s + 1" "m(d := m s)", OF apart] Suc.prems(2) by (simp del: fun_upd_apply)
  also have "\<dots> = wbytes m d (rbytes m s (Suc n))"
    unfolding keep rbytes_Suc using Suc.prems(2) by (subst wbytes_Cons) simp_all
  finally show ?case .
qed

lemma copy_down_wbytes:
  assumes "\<And>i j. j < i \<Longrightarrow> i < n \<Longrightarrow> d + of_nat i \<noteq> s + of_nat j" and "n \<le> 2 ^ 64"
  shows "copy_down m (d + of_nat n) (s + of_nat n) n = wbytes m d (rbytes m s n)"
  using assms
proof (induction n arbitrary: m)
  case 0
  then show ?case by simp
next
  case (Suc n)
  let ?m = "m(d + of_nat n := m (s + of_nat n))"
  have keep: "rbytes ?m s n = rbytes m s n"
  proof (rule rbytes_cong)
    fix i assume "i < n"
    with Suc.prems(1) [of i n] show "?m (s + of_nat i) = m (s + of_nat i)" by auto
  qed
  have "copy_down m (d + of_nat (Suc n)) (s + of_nat (Suc n)) (Suc n) = copy_down ?m (d + of_nat n) (s + of_nat n) n"
    by (simp add: Let_def)
  also have "\<dots> = wbytes ?m d (rbytes ?m s n)" using Suc by simp
  also have "\<dots> = wbytes m d (rbytes m s (Suc n))"
    unfolding keep rbytes_snoc using Suc.prems(2) by (subst wbytes_snoc) simp_all
  finally show ?case .
qed

text \<open>Two addresses of blocks that do not wrap around, compared as numbers.\<close>

lemma block_addr_eq:
  assumes "unat d + i < 2 ^ 64" and "unat s + j < 2 ^ 64" and "d + of_nat i = s + of_nat (j::nat)"
  shows "unat (d::u64) + i = unat s + j"
proof -
  have u: "unat (of_nat i :: u64) = i" "unat (of_nat j :: u64) = j"
    using assms by (simp_all add: unat_of_nat)
  have "unat (d + of_nat i) = unat d + i" "unat (s + of_nat j) = unat s + j"
    using assms u unfolding unat_word_ariths by simp_all
  then show ?thesis using assms(3) by simp
qed

lemma memmove_wbytes:
  assumes d: "unat dst + unat n < 2 ^ 64" and s: "unat src + unat n < 2 ^ 64"
  shows "memmove m dst src n = wbytes m dst (rbytes m src (unat n))"
proof -
  have un: "unat (ucast n :: u64) = unat n"
    using unsigned_less [of n, where ?'a = nat] by (simp add: unsigned_ucast_eq take_bit_nat_eq_self)
  have uw: "(ucast n :: u64) = of_nat (unat n)" by (rule of_nat_unat [symmetric])
  have le: "unat n \<le> 2 ^ 64" using d by simp
  have end_s: "unat (src + ucast n) = unat src + unat n"
    using s un unfolding unat_word_ariths by simp
  show ?thesis
  proof (cases "src < dst \<and> src + ucast n > dst")
    case True
    have "copy_down m (dst + ucast n) (src + ucast n) (unat n) = wbytes m dst (rbytes m src (unat n))"
      unfolding uw
    proof (rule copy_down_wbytes)
      fix i j assume ij: "j < i" "i < unat n"
      show "dst + of_nat i \<noteq> src + of_nat j"
      proof
        assume "dst + of_nat i = src + of_nat j"
        with ij d s have "unat dst + i = unat src + j" by (intro block_addr_eq) simp_all
        with True ij show False by (simp add: word_less_nat_alt)
      qed
    qed (rule le)
    with True show ?thesis by (simp add: memmove_def)
  next
    case False
    have "copy_up m dst src (unat n) = wbytes m dst (rbytes m src (unat n))"
    proof (rule copy_up_wbytes)
      fix i j assume ij: "i < j" "j < unat n"
      show "dst + of_nat i \<noteq> src + of_nat j"
      proof
        assume "dst + of_nat i = src + of_nat j"
        with ij d s have "unat dst + i = unat src + j" by (intro block_addr_eq) simp_all
        with False ij show False by (simp add: word_less_nat_alt end_s)
      qed
    qed (rule le)
    with False show ?thesis by (auto simp: memmove_def)
  qed
qed

lemma memcmp_loop_eq_iff: "memcmp_loop m a b n = 0 \<longleftrightarrow> rbytes m a n = rbytes m b n"
  by (induction n arbitrary: a b) (auto simp: rbytes_Suc word_uint_eq_iff)

section \<open>64-bit accesses\<close>

text \<open>The machine is little endian.\<close>

primrec le_word :: "u8 list \<Rightarrow> u64" where
  "le_word [] = 0"
| "le_word (b # bs) = ucast b OR push_bit 8 (le_word bs)"

primrec le_bytes :: "nat \<Rightarrow> u64 \<Rightarrow> u8 list" where
  "le_bytes 0 w = []"
| "le_bytes (Suc n) w = ucast w # le_bytes n (drop_bit 8 w)"

definition ru64 :: "mem \<Rightarrow> u64 \<Rightarrow> u64" where
  "ru64 m a = le_word (rbytes m a 8)"

definition wu64 :: "mem \<Rightarrow> u64 \<Rightarrow> u64 \<Rightarrow> mem" where
  "wu64 m a w = wbytes m a (le_bytes 8 w)"

lemma length_le_bytes [simp]: "length (le_bytes n w) = n"
  by (induction n arbitrary: w) simp_all

lemma le_word_le_bytes: "le_word (le_bytes n w) = take_bit (8 * n) w"
proof (induction n arbitrary: w)
  case 0
  then show ?case by simp
next
  case (Suc n)
  show ?case
    by (rule bit_word_eqI) (auto simp: Suc bit_simps)
qed

lemma ru64_wu64 [simp]: "ru64 (wu64 m a w) a = w"
proof -
  have "rbytes (wbytes m a (le_bytes 8 w)) a 8 = le_bytes 8 w"
    using rbytes_wbytes [of "le_bytes 8 w" m a] by simp
  then show ?thesis using le_word_le_bytes [of 8 w] by (simp add: ru64_def wu64_def take_bit_word_eq_self)
qed

lemma ru64_cong: "(\<And>i. i < 8 \<Longrightarrow> m (a + of_nat i) = m' (a + of_nat i)) \<Longrightarrow> ru64 m a = ru64 m' a"
  unfolding ru64_def by (subst rbytes_cong) auto

lemma wu64_out: "(\<And>i. i < 8 \<Longrightarrow> x \<noteq> a + of_nat i) \<Longrightarrow> wu64 m a w x = m x"
  unfolding wu64_def by (rule wbytes_out) simp

lemma le_word_zero: "le_word (replicate n 0) = 0"
  by (induction n) simp_all

end
