(* ===== verification/Buddy.thy ===== *)
theory Buddy
  imports Spinlock Phys_Mem
begin

text \<open>
  The kernel heap of \<^verbatim>\<open>bitmap_buddy.c\<close>: a buddy allocator whose binary tree stores, per
  node, the logarithm of the largest free block below it, one byte per node for blocks of
  32 bytes and more, one bit per node for the two lowest levels of 16 and 8 bytes.
  Indexes and sizes are natural numbers where the C code's 32 bits cannot overflow for a
  heap of less than \<open>2^31\<close> bytes; the request is kept at 32 bits, because rounding it up
  can overflow.
\<close>

section \<open>Numbers\<close>

definition LEFT_LEAF :: "nat \<Rightarrow> nat" where "LEFT_LEAF i = i * 2 + 1"
definition RIGHT_LEAF :: "nat \<Rightarrow> nat" where "RIGHT_LEAF i = i * 2 + 2"
definition PARENT :: "nat \<Rightarrow> nat" where "PARENT i = (i + 1) div 2 - 1"

definition IS_POWER_OF_2 :: "u32 \<Rightarrow> bool" where
  "IS_POWER_OF_2 x \<longleftrightarrow> x AND (x - 1) = 0"

definition fixsize :: "u32 \<Rightarrow> u32" where
  "fixsize sz =
     (let sz = sz OR drop_bit 1 sz;
          sz = sz OR drop_bit 2 sz;
          sz = sz OR drop_bit 4 sz;
          sz = sz OR drop_bit 8 sz;
          sz = sz OR drop_bit 16 sz
      in sz + 1)"

function klog2 :: "nat \<Rightarrow> nat" where
  "klog2 value = (if value > 1 then klog2 (value div 2) + 1 else 0)"
  by pat_completeness auto
termination by (relation "measure id") simp_all

declare klog2.simps [simp del]

text \<open>Square and multiply, modulo \<open>2^64\<close>.\<close>

function pow2_loop :: "u64 \<Rightarrow> u64 \<Rightarrow> nat \<Rightarrow> u64" where
  "pow2_loop a res b =
     (if b > 0 then pow2_loop (a * a) (if odd b then res * a else res) (b div 2) else res)"
  by pat_completeness auto
termination by (relation "measure (\<lambda>(a, res, b). b)") simp_all

declare pow2_loop.simps [simp del]

definition pow2 :: "nat \<Rightarrow> u64" where
  "pow2 b = pow2_loop 2 1 b"

section \<open>The tree\<close>

record bitmap_buddy =
  block :: klock
  space :: u64
  bsize :: nat
  min_alloc_size :: nat
  bbt :: "u8 list"

definition bitmap_scan_test :: "bitmap_buddy \<Rightarrow> nat \<Rightarrow> bool" where
  "bitmap_scan_test b bit_idx =
     (let base = bsize b div 16 - 1;
          byte_idx = (bit_idx - base) div 8;
          bit_odd = bit_idx mod 8
      in bit (bbt b ! (base + byte_idx)) bit_odd)"

definition bitmap_set :: "bitmap_buddy \<Rightarrow> nat \<Rightarrow> bool \<Rightarrow> bitmap_buddy" where
  "bitmap_set b bit_idx v =
     (let base = bsize b div 16 - 1;
          byte_idx = (bit_idx - base) div 8;
          bit_odd = bit_idx mod 8;
          old = bbt b ! (base + byte_idx)
      in b\<lparr>bbt := (bbt b)[base + byte_idx := (if v then set_bit bit_odd old else unset_bit bit_odd old)]\<rparr>)"

definition in_bitmap :: "bitmap_buddy \<Rightarrow> nat \<Rightarrow> bool" where
  "in_bitmap b index \<longleftrightarrow> index \<ge> bsize b div 16 - 1"

definition get_size :: "bitmap_buddy \<Rightarrow> nat \<Rightarrow> nat" where
  "get_size b index =
     (if in_bitmap b index
      then (if in_bitmap b (PARENT index)
            then (if bitmap_scan_test b index then klog2 8 else 0)
            else (if bitmap_scan_test b index
                  then (let l = bitmap_scan_test b (LEFT_LEAF index);
                            r = bitmap_scan_test b (RIGHT_LEAF index)
                        in if l \<and> r then klog2 16 else if l \<or> r then klog2 8 else 0)
                  else 0))
      else unat (bbt b ! index))"

text \<open>
  The first loop of \<^verbatim>\<open>buddy_new\<close>: fill the byte levels; it returns the index where the
  16-byte level starts.
\<close>

function new_loop :: "nat \<Rightarrow> nat \<Rightarrow> nat \<Rightarrow> u8 list \<Rightarrow> nat \<times> u8 list" where
  "new_loop sz i node_size t =
     (if i < 2 * sz - 1
      then (if IS_POWER_OF_2 (of_nat (i + 1))
            then (let node_size = node_size div 2
                  in if node_size = 16 then (i, t)
                     else new_loop sz (i + 1) node_size (t[i := of_nat (klog2 node_size)]))
            else new_loop sz (i + 1) node_size (t[i := of_nat (klog2 node_size)]))
      else (i, t))"
  by pat_completeness auto
termination by (relation "measure (\<lambda>(sz, i, node_size, t). 2 * sz - 1 - i)") auto

declare new_loop.simps [simp del]

text \<open>
  \<open>t\<close> is the memory for the tree. The result is \<open>None\<close>, the null pointer, for a size that
  is not a power of two.
\<close>

definition buddy_new :: "u32 \<Rightarrow> u8 list \<Rightarrow> bitmap_buddy option" where
  "buddy_new sz t =
     (if sint sz < 1 \<or> \<not> IS_POWER_OF_2 sz then None
      else let n = unat sz;
               (i, t) = new_loop n 0 (2 * n) t;
               bit_node_size = n div 8 + n div 16;
               t = take i t @ replicate (bit_node_size div 8) 0xff @ drop (i + bit_node_size div 8) t
           in Some \<lparr>block = False, space = 0, bsize = n, min_alloc_size = 8, bbt = t\<rparr>)"

section \<open>Allocation\<close>

text \<open>The descent: from node \<open>index\<close> of \<open>node_size\<close> bytes to a node of \<open>sz\<close> bytes.\<close>

partial_function (option) alloc_search :: "bitmap_buddy \<Rightarrow> u32 \<Rightarrow> nat \<Rightarrow> nat \<Rightarrow> (nat \<times> nat) option" where
  "alloc_search b sz node_size index =
     (if node_size \<noteq> unat sz
      then (if pow2 (get_size b (LEFT_LEAF index)) \<ge> ucast sz
            then alloc_search b sz (node_size div 2) (LEFT_LEAF index)
            else alloc_search b sz (node_size div 2) (RIGHT_LEAF index))
      else Some (node_size, index))"

definition byte_node :: "bitmap_buddy \<Rightarrow> nat \<Rightarrow> nat \<Rightarrow> bitmap_buddy" where
  "byte_node b index v = b\<lparr>bbt := (bbt b)[index := of_nat v]\<rparr>"

text \<open>The way back up.\<close>

function alloc_update :: "bitmap_buddy \<Rightarrow> nat \<Rightarrow> bitmap_buddy" where
  "alloc_update b index =
     (if index \<noteq> 0
      then (if in_bitmap b index
            then (let index = PARENT index
                  in if in_bitmap b index
                     then alloc_update (bitmap_set b index
                            (bitmap_scan_test b (LEFT_LEAF index) \<or> bitmap_scan_test b (RIGHT_LEAF index))) index
                     else alloc_update (byte_node b index
                            (max (get_size b (LEFT_LEAF index)) (get_size b (RIGHT_LEAF index)))) index)
            else (let index = PARENT index
                  in alloc_update (byte_node b index
                       (max (unat (bbt b ! LEFT_LEAF index)) (unat (bbt b ! RIGHT_LEAF index)))) index))
      else b)"
  by pat_completeness auto
termination by (relation "measure snd") (auto simp: PARENT_def)

declare alloc_update.simps [simp del]

text \<open>
  The request is rounded up to a power of two of at least 8. Note the early return: the
  lock stays taken.
\<close>

definition round_request :: "u32 \<Rightarrow> u32" where
  "round_request sz =
     (if sz \<le> 8 then 8 else if \<not> IS_POWER_OF_2 sz then fixsize sz else sz)"

definition buddy_alloc :: "bitmap_buddy \<Rightarrow> mem \<Rightarrow> u32 \<Rightarrow> (u64 \<times> bitmap_buddy \<times> mem) res option" where
  "buddy_alloc b m sz =
     (case lock_acquire (block b) of Fail e \<Rightarrow> Some (Fail e)
      | Ok l \<Rightarrow>
         let b = b\<lparr>block := l\<rparr>;
             sz = round_request sz
         in if pow2 (unat (bbt b ! 0)) < ucast sz then Some (Ok (0, b, m))
            else (case alloc_search b sz (bsize b) 0 of None \<Rightarrow> None
                  | Some (node_size, index) \<Rightarrow>
                     let b = (if sz \<le> 16 then bitmap_set b index False else byte_node b index 0);
                         offset = of_nat ((index + 1) * node_size - bsize b);
                         b = alloc_update b index;
                         m = memset m (space b + offset) 0 (ucast sz)
                     in Some (bind_res (lock_release (block b)) (\<lambda>l. Ok (space b + offset, b\<lparr>block := l\<rparr>, m)))))"

section \<open>Freeing\<close>

text \<open>From the node of one byte up to the node of eight.\<close>

definition leaf_index :: "bitmap_buddy \<Rightarrow> nat \<Rightarrow> nat" where
  "leaf_index b offset = PARENT (PARENT (PARENT (offset + bsize b - 1)))"

text \<open>Up to the first node that is marked as allocated.\<close>

function free_search :: "bitmap_buddy \<Rightarrow> nat \<Rightarrow> nat \<Rightarrow> (nat \<times> nat) res" where
  "free_search b index node_size =
     (if get_size b index \<noteq> 0
      then (if index = 0 then Fail (Panic ''unknow fault in free'')
            else free_search b (PARENT index) (node_size * 2))
      else Ok (index, node_size))"
  by pat_completeness auto
termination by (relation "measure (\<lambda>(b, index, node_size). index)") (auto simp: PARENT_def)

declare free_search.simps [simp del]

function free_update :: "bitmap_buddy \<Rightarrow> nat \<Rightarrow> nat \<Rightarrow> bitmap_buddy" where
  "free_update b index node_size =
     (if index \<noteq> 0
      then (let index = PARENT index;
                node_size = node_size * 2;
                left_longest = get_size b (LEFT_LEAF index);
                right_longest = get_size b (RIGHT_LEAF index)
            in if in_bitmap b index then free_update (bitmap_set b index True) index node_size
               else free_update (byte_node b index
                      (if left_longest + right_longest = klog2 node_size then klog2 node_size
                       else max left_longest right_longest)) index node_size)
      else b)"
  by pat_completeness auto
termination by (relation "measure (\<lambda>(b, index, node_size). index)") (auto simp: PARENT_def)

declare free_update.simps [simp del]

definition buddy_free :: "bitmap_buddy \<Rightarrow> u64 \<Rightarrow> bitmap_buddy res" where
  "buddy_free b p =
     (if p = 0 then Ok b
      else bind_res (lock_acquire (block b)) (\<lambda>l.
           let b = b\<lparr>block := l\<rparr>; offset = p - space b
           in bind_res (kassert (unat offset < bsize b)) (\<lambda>_.
              bind_res (free_search b (leaf_index b (unat offset)) 8) (\<lambda>(index, node_size).
                let b = (if in_bitmap b index then bitmap_set b index True else byte_node b index (klog2 node_size));
                    b = free_update b index node_size
                in bind_res (lock_release (block b)) (\<lambda>l. Ok (b\<lparr>block := l\<rparr>))))))"

section \<open>Sizes\<close>

text \<open>
  \<^verbatim>\<open>buddy_size\<close> has no test for the root: it is only called for blocks that are allocated.
\<close>

partial_function (option) size_search :: "bitmap_buddy \<Rightarrow> nat \<Rightarrow> nat \<Rightarrow> nat option" where
  "size_search b index node_size =
     (if get_size b index \<noteq> 0 then size_search b (PARENT index) (node_size * 2) else Some node_size)"

definition buddy_size :: "bitmap_buddy \<Rightarrow> u64 \<Rightarrow> nat option res" where
  "buddy_size b p =
     (let offset = p - space b
      in bind_res (kassert (unat offset < bsize b)) (\<lambda>_. Ok (size_search b (leaf_index b (unat offset)) 8)))"

definition idx_illegal :: "bitmap_buddy \<Rightarrow> nat \<Rightarrow> bool" where
  "idx_illegal b index \<longleftrightarrow> index < bsize b div 4 - 1"

function get_size2_loop :: "nat \<Rightarrow> nat \<Rightarrow> nat" where
  "get_size2_loop node_size idx =
     (if idx \<noteq> 0 then get_size2_loop (node_size div 2) (PARENT idx) else node_size)"
  by pat_completeness auto
termination by (relation "measure snd") (auto simp: PARENT_def)

declare get_size2_loop.simps [simp del]

definition get_size2 :: "bitmap_buddy \<Rightarrow> nat \<Rightarrow> nat" where
  "get_size2 b idx = get_size2_loop (bsize b) idx"

text \<open>
  \<^verbatim>\<open>buddy_remain_size\<close>: a depth-first walk with an explicit stack (\<^verbatim>\<open>astack\<close>, whose bottom
  element -1 ends the loop, here the empty stack); it adds up the allocated blocks.
\<close>

partial_function (option) remain_loop :: "bitmap_buddy \<Rightarrow> nat \<Rightarrow> nat list \<Rightarrow> nat \<Rightarrow> nat option" where
  "remain_loop b index astack alloced =
     (if get_size b index = 0
      then (case astack of [] \<Rightarrow> Some (alloced + get_size2 b index)
            | i # st \<Rightarrow> remain_loop b i st (alloced + get_size2 b index))
      else let st = (if idx_illegal b (RIGHT_LEAF index) then RIGHT_LEAF index # astack else astack)
           in if idx_illegal b (LEFT_LEAF index) then remain_loop b (LEFT_LEAF index) st alloced
              else (case st of [] \<Rightarrow> Some alloced | i # st \<Rightarrow> remain_loop b i st alloced))"

definition buddy_remain_size :: "bitmap_buddy \<Rightarrow> nat option" where
  "buddy_remain_size b = (case remain_loop b 0 [] 0 of None \<Rightarrow> None | Some a \<Rightarrow> Some (bsize b - a))"

definition heap_allocator_init :: "u8 list \<Rightarrow> u64 \<Rightarrow> bitmap_buddy option" where
  "heap_allocator_init t heap_space =
     (case buddy_new (4096 * 1024) t of None \<Rightarrow> None | Some b \<Rightarrow> Some (b\<lparr>space := heap_space\<rparr>))"

declare alloc_search.simps [code] size_search.simps [code] remain_loop.simps [code]

section \<open>Arithmetic\<close>

lemma klog2_pow [simp]: "klog2 (2 ^ k) = k"
proof (induction k)
  case 0
  then show ?case by (simp add: klog2.simps)
next
  case (Suc k)
  moreover have "1 < 2 * (2::nat) ^ k" by (metis one_less_power one_less_numeral_iff power_Suc semiring_norm(76) zero_less_Suc)
  ultimately show ?case by (subst klog2.simps) simp
qed

lemma klog2_8_16 [simp]: "klog2 8 = 3" "klog2 16 = 4"
  using klog2_pow [of 3] klog2_pow [of 4] by simp_all

lemma pow2_loop_eq: "pow2_loop a res b = res * a ^ b"
proof (induction a res b rule: pow2_loop.induct)
  case (1 a res b)
  show ?case
  proof (cases "b > 0")
    case True
    have "(a * a) ^ (b div 2) = a ^ (2 * (b div 2))" by (metis power_mult power2_eq_square)
    moreover have "res * a ^ b = (if odd b then res * a else res) * a ^ (2 * (b div 2))"
    proof (cases "odd b")
      case True
      then have "a ^ b = a * a ^ (2 * (b div 2))" by (metis odd_two_times_div_two_succ power_Suc add.commute plus_1_eq_Suc)
      then show ?thesis using True by (simp add: mult.assoc)
    qed simp
    ultimately show ?thesis using 1 True by (subst pow2_loop.simps) simp
  qed (simp add: pow2_loop.simps)
qed

lemma pow2_eq: "pow2 b = 2 ^ b"
  by (simp add: pow2_def pow2_loop_eq)

lemma unat_pow2: "b < 64 \<Longrightarrow> unat (pow2 b) = 2 ^ b"
proof -
  assume "b < 64"
  then have "(2::nat) ^ b < 2 ^ 64" by (rule power_strict_increasing) simp
  then have "unat (of_nat (2 ^ b) :: u64) = 2 ^ b" by (rule unat_of_nat_u64)
  then show ?thesis by (simp add: pow2_eq)
qed

lemma PARENT_child [simp]: "PARENT (LEFT_LEAF i) = i" "PARENT (RIGHT_LEAF i) = i"
  by (simp_all add: PARENT_def LEFT_LEAF_def RIGHT_LEAF_def)

lemma child_cases: "i \<noteq> 0 \<Longrightarrow> i = LEFT_LEAF (PARENT i) \<or> i = RIGHT_LEAF (PARENT i)"
  unfolding PARENT_def LEFT_LEAF_def RIGHT_LEAF_def by presburger

lemma child_neq: "LEFT_LEAF i \<noteq> 0" "RIGHT_LEAF i \<noteq> 0" "LEFT_LEAF i \<noteq> RIGHT_LEAF i"
  by (simp_all add: LEFT_LEAF_def RIGHT_LEAF_def)

lemma child_pos [simp]: "0 < LEFT_LEAF i" "0 < RIGHT_LEAF i"
  by (simp_all add: LEFT_LEAF_def RIGHT_LEAF_def)

lemma PARENT_less: "i \<noteq> 0 \<Longrightarrow> PARENT i < i"
  by (simp add: PARENT_def)

text \<open>The level of a node, counted from the root.\<close>

function depth :: "nat \<Rightarrow> nat" where
  "depth i = (if i = 0 then 0 else Suc (depth (PARENT i)))"
  by pat_completeness auto

termination by (relation "measure id") (auto simp: PARENT_def)

declare depth.simps [simp del]

lemma depth_0 [simp]: "depth 0 = 0"
  by (simp add: depth.simps)

lemma depth_child [simp]: "depth (LEFT_LEAF i) = Suc (depth i)" "depth (RIGHT_LEAF i) = Suc (depth i)"
  by (subst depth.simps, simp add: child_neq)+

lemma depth_parent: "i \<noteq> 0 \<Longrightarrow> depth i = Suc (depth (PARENT i))"
  by (subst depth.simps) simp

lemma depth_bounds: "2 ^ depth i \<le> i + 1 \<and> i + 1 < 2 * 2 ^ depth i"
proof (induction i rule: depth.induct)
  case (1 i)
  show ?case
  proof (cases "i = 0")
    case False
    have "PARENT i + 1 = (i + 1) div 2" using False by (simp add: PARENT_def)
    then have "2 ^ depth (PARENT i) \<le> (i + 1) div 2 \<and> (i + 1) div 2 < 2 * 2 ^ depth (PARENT i)" using 1 False by simp
    then show ?thesis unfolding depth_parent [OF False] by auto
  qed simp
qed

lemma depth_le_iff: "depth i < d \<longleftrightarrow> i + 1 < 2 ^ d"
proof
  assume "depth i < d"
  then have "2 * 2 ^ depth i \<le> (2::nat) ^ d" by (metis Suc_leI power_Suc power_increasing one_le_numeral)
  then show "i + 1 < 2 ^ d" using depth_bounds [of i] by linarith
next
  assume "i + 1 < 2 ^ d"
  then have "(2::nat) ^ depth i < 2 ^ d" using depth_bounds [of i] by linarith
  then show "depth i < d" by simp
qed

section \<open>The shape of the tree\<close>

text \<open>
  \<open>K\<close> is the logarithm of the heap's size. The nodes of depth at most \<open>K - 3\<close> exist;
  those of depth \<open>K - 4\<close> and \<open>K - 3\<close> are bits, which start at byte \<open>bit_base K\<close>.
\<close>

definition bit_base :: "nat \<Rightarrow> nat" where
  "bit_base K = 2 ^ (K - 4) - 1"

definition buddy_shape :: "nat \<Rightarrow> bitmap_buddy \<Rightarrow> bool" where
  "buddy_shape K b \<longleftrightarrow> bsize b = 2 ^ K \<and> 7 \<le> K \<and> K \<le> 30 \<and> bit_base K + 3 * 2 ^ (K - 7) \<le> length (bbt b)"

lemma base_iff: "i < bit_base K \<longleftrightarrow> depth i < K - 4"
  using depth_le_iff [of i "K - 4"] by (simp add: bit_base_def less_diff_conv)

lemma shape_base:
  assumes "buddy_shape K b"
  shows "bsize b div 16 - 1 = bit_base K" and "in_bitmap b i \<longleftrightarrow> K - 4 \<le> depth i"
proof -
  have "K = (K - 4) + 4" using assms by (simp add: buddy_shape_def)
  then have "(2::nat) ^ K = 2 ^ (K - 4) * 2 ^ 4" by (metis power_add)
  then show 1: "bsize b div 16 - 1 = bit_base K" using assms by (simp add: buddy_shape_def bit_base_def)
  show "in_bitmap b i \<longleftrightarrow> K - 4 \<le> depth i"
    using base_iff [of i K] unfolding in_bitmap_def 1 by linarith
qed

lemma bit_pos:
  assumes sh: "buddy_shape K b" and i: "K - 4 \<le> depth i" "depth i \<le> K - 3"
  shows "bit_base K + (i - bit_base K) div 8 < length (bbt b)" and "bit_base K \<le> i"
proof -
  have K: "7 \<le> K" using sh by (simp add: buddy_shape_def)
  define t where "t = K - 7"
  have "K - 4 = t + 3" "K - 2 = t + 5" using K by (simp_all add: t_def)
  then have p: "(2::nat) ^ (K - 4) = 8 * 2 ^ (K - 7)" "(2::nat) ^ (K - 2) = 32 * 2 ^ (K - 7)"
    unfolding t_def [symmetric] by (simp_all add: power_add)
  have "depth i < K - 2" using i K by simp
  then have hi: "i + 1 < 32 * 2 ^ (K - 7)" using depth_le_iff [of i "K - 2"] p by simp
  show lo: "bit_base K \<le> i" using base_iff [of i K] i by linarith
  have "i - bit_base K < 24 * 2 ^ (K - 7)" using hi lo p unfolding bit_base_def by linarith
  then have "(i - bit_base K) div 8 < 3 * 2 ^ (K - 7)" by (simp add: div_less_iff_less_mult mult.commute)
  then show "bit_base K + (i - bit_base K) div 8 < length (bbt b)"
    using sh unfolding buddy_shape_def by linarith
qed

lemma bit_pos_inj:
  assumes i: "L \<le> i" and j: "L \<le> j" and d: "(i - L) div 8 = (j - L) div 8" and m: "i mod 8 = j mod 8"
  shows "i = (j::nat)"
proof -
  obtain a where a: "i = L + a" using i by (auto simp: le_iff_add)
  obtain c where c: "j = L + c" using j by (auto simp: le_iff_add)
  have "int (L + a) mod 8 = int (L + c) mod 8" using m a c by (metis of_nat_mod of_nat_numeral)
  then have "int a mod 8 = int c mod 8"
    using mod_diff_cong [of "int (L + a)" 8 "int (L + c)" "int L" "int L"] by simp
  then have "a mod 8 = c mod 8" by (metis of_nat_eq_iff of_nat_mod of_nat_numeral)
  then have "a = c" using d a c by (metis add_diff_cancel_left' mult_div_mod_eq)
  then show ?thesis using a c by simp
qed

lemma shape_set [simp]:
  "buddy_shape K (bitmap_set b i x) \<longleftrightarrow> buddy_shape K b" "buddy_shape K (byte_node b i v) \<longleftrightarrow> buddy_shape K b"
  "bsize (bitmap_set b i x) = bsize b" "bsize (byte_node b i v) = bsize b"
  "space (bitmap_set b i x) = space b" "space (byte_node b i v) = space b"
  "block (bitmap_set b i x) = block b" "block (byte_node b i v) = block b"
  by (simp_all add: buddy_shape_def bitmap_set_def byte_node_def Let_def)

text \<open>The bit of a node, the byte of a node, and what the two updates do to them.\<close>

lemma scan_set:
  assumes sh: "buddy_shape K b" and i: "K - 4 \<le> depth i" "depth i \<le> K - 3" and j: "K - 4 \<le> depth j" "depth j \<le> K - 3"
  shows "bitmap_scan_test (bitmap_set b i x) j = (if j = i then x else bitmap_scan_test b j)"
proof -
  note pi = bit_pos [OF sh i] and pj = bit_pos [OF sh j]
  have L: "bsize b div 16 - Suc 0 = bit_base K" using shape_base(1) [OF sh] by simp
  define pos where "pos = (\<lambda>k. bit_base K + (k - bit_base K) div 8)"
  define old where "old = bbt b ! pos i"
  have set: "bbt (bitmap_set b i x) = (bbt b)[pos i := (if x then set_bit (i mod 8) old else unset_bit (i mod 8) old)]"
    by (simp add: bitmap_set_def Let_def L pos_def old_def)
  have test: "bitmap_scan_test b' j = bit (bbt b' ! pos j) (j mod 8)" if "bsize b' = bsize b" for b'
    using that by (simp add: bitmap_scan_test_def Let_def L pos_def)
  have m8: "j mod 8 < 8" by simp
  have len: "pos j < length (bbt b)" using pj(1) by (simp add: pos_def)
  show ?thesis
  proof (cases "pos i = pos j")
    case False
    then show ?thesis using test [of b] test [of "bitmap_set b i x"] set by auto
  next
    case True
    have "j = i \<longleftrightarrow> j mod 8 = i mod 8"
      using bit_pos_inj [OF pj(2) pi(2)] True by (auto simp: pos_def)
    then show ?thesis using test [of b] test [of "bitmap_set b i x"] set True len m8
      by (auto simp: bit_set_bit_iff bit_unset_bit_iff old_def)
  qed
qed

lemma byte_set:
  assumes sh: "buddy_shape K b" and j: "depth j < K - 4"
  shows "bbt (bitmap_set b i x) ! j = bbt b ! j"
  using base_iff [of j K] j unfolding bitmap_set_def Let_def shape_base(1) [OF sh] by simp

lemma scan_byte:
  assumes sh: "buddy_shape K b" and i: "depth i < K - 4"
  shows "bitmap_scan_test (byte_node b i v) j = bitmap_scan_test b j"
proof -
  have "i \<noteq> bit_base K + k" for k using base_iff [of i K] i by auto
  then show ?thesis using shape_base(1) [OF sh] by (simp add: bitmap_scan_test_def Let_def byte_node_def)
qed

lemma byte_byte:
  assumes sh: "buddy_shape K b" and i: "depth i < K - 4" and v: "v < 256"
  shows "unat (bbt (byte_node b i v) ! j) = (if j = i then v else unat (bbt b ! j))"
proof -
  have "i < length (bbt b)" using base_iff [of i K] i sh unfolding buddy_shape_def by linarith
  then show ?thesis using v by (simp add: byte_node_def nth_list_update unat_of_nat)
qed

section \<open>The invariant\<close>

abbreviation lv :: "bitmap_buddy \<Rightarrow> nat \<Rightarrow> nat" where
  "lv b i \<equiv> get_size b (LEFT_LEAF i)"

abbreviation rv :: "bitmap_buddy \<Rightarrow> nat \<Rightarrow> nat" where
  "rv b i \<equiv> get_size b (RIGHT_LEAF i)"

text \<open>
  A node is marked as taken, or completely free with both halves, or holds the maximum
  of its halves.
\<close>

definition node_ok :: "nat \<Rightarrow> bitmap_buddy \<Rightarrow> nat \<Rightarrow> bool" where
  "node_ok K b i \<longleftrightarrow> get_size b i = 0
     \<or> (get_size b i = K - depth i \<and> lv b i = K - depth i - 1 \<and> rv b i = K - depth i - 1)
     \<or> get_size b i = max (lv b i) (rv b i)"

definition tree_ok :: "nat \<Rightarrow> bitmap_buddy \<Rightarrow> bool" where
  "tree_ok K b \<longleftrightarrow> buddy_shape K b \<and> (\<forall>i. depth i \<le> K - 3 \<longrightarrow> get_size b i \<le> K - depth i)
     \<and> (\<forall>i. depth i < K - 3 \<longrightarrow> node_ok K b i)"

lemma tree_okD:
  assumes "tree_ok K b"
  shows "buddy_shape K b" and "\<And>i. depth i \<le> K - 3 \<Longrightarrow> get_size b i \<le> K - depth i"
    and "\<And>i. depth i < K - 3 \<Longrightarrow> node_ok K b i"
  using assms by (simp_all add: tree_ok_def)

lemma shape_K: "buddy_shape K b \<Longrightarrow> 7 \<le> K" "buddy_shape K b \<Longrightarrow> K \<le> 30"
  by (simp_all add: buddy_shape_def)

lemma size_byte: "buddy_shape K b \<Longrightarrow> depth i < K - 4 \<Longrightarrow> get_size b i = unat (bbt b ! i)"
  by (simp add: get_size_def shape_base(2))

lemma size_16:
  assumes sh: "buddy_shape K b" and d: "depth i = K - 4"
  shows "get_size b i = (if bitmap_scan_test b i
    then (if bitmap_scan_test b (LEFT_LEAF i) \<and> bitmap_scan_test b (RIGHT_LEAF i) then 4
          else if bitmap_scan_test b (LEFT_LEAF i) \<or> bitmap_scan_test b (RIGHT_LEAF i) then 3 else 0) else 0)"
proof -
  have "i \<noteq> 0" using d shape_K(1) [OF sh] by (intro notI) simp
  then have "depth (PARENT i) < K - 4" using depth_parent [of i] d by simp
  then show ?thesis using d by (simp add: get_size_def shape_base(2) [OF sh] Let_def)
qed

lemma size_8:
  assumes sh: "buddy_shape K b" and d: "depth i = K - 3"
  shows "get_size b i = (if bitmap_scan_test b i then 3 else 0)"
proof -
  have "i \<noteq> 0" using d shape_K(1) [OF sh] by (intro notI) simp
  then have "depth (PARENT i) = K - 4" using depth_parent [of i] d by simp
  moreover have "K - 4 \<le> depth i" using d by linarith
  ultimately show ?thesis by (simp add: get_size_def shape_base(2) [OF sh])
qed

section \<open>Ancestors\<close>

inductive under :: "nat \<Rightarrow> nat \<Rightarrow> bool" for a where
  self: "under a a"
| step: "i \<noteq> 0 \<Longrightarrow> under a (PARENT i) \<Longrightarrow> under a i"

inductive_cases underE: "under a i"

lemma under_depth: "under a i \<Longrightarrow> depth a \<le> depth i"
  by (induction rule: under.induct) (simp_all add: depth_parent)

lemma under_trans: "under b i \<Longrightarrow> under a b \<Longrightarrow> under a i"
  by (induction rule: under.induct) (auto intro: under.step)

lemma under_root [simp]: "under a 0 \<longleftrightarrow> a = 0"
  by (auto intro: under.self elim: underE)

lemma under_child: "under i (LEFT_LEAF i)" "under i (RIGHT_LEAF i)"
  by (rule under.step; simp add: child_neq under.self)+

lemma under_same_depth: "under a i \<Longrightarrow> depth a = depth i \<Longrightarrow> a = i"
  by (erule underE) (auto dest: under_depth simp: depth_parent)

text \<open>\<open>a\<close> is a proper ancestor of \<open>i\<close>.\<close>

definition above :: "nat \<Rightarrow> nat \<Rightarrow> bool" where
  "above a i \<longleftrightarrow> i \<noteq> 0 \<and> under a (PARENT i)"

lemma above_depth: "above a i \<Longrightarrow> depth a < depth i"
  by (auto simp: above_def depth_parent dest: under_depth)

lemma above_parent: "i \<noteq> 0 \<Longrightarrow> above a i \<longleftrightarrow> a = PARENT i \<or> above a (PARENT i)"
  unfolding above_def by (auto intro: under.self under.step elim: underE)

lemma under_above: "under a i \<longleftrightarrow> a = i \<or> above a i"
  unfolding above_def by (auto intro: under.self under.step elim: underE)

section \<open>The search\<close>

lemma pow2_ge_iff:
  assumes "unat sz = 2 ^ c" and "v < 64"
  shows "ucast (sz :: u32) \<le> pow2 v \<longleftrightarrow> c \<le> v"
proof -
  have "unat (ucast sz :: u64) = unat sz"
    using unsigned_less [of sz, where ?'a = nat] by (simp add: unsigned_ucast_eq take_bit_nat_eq_self)
  then show ?thesis using assms unat_pow2 [of v] by (simp add: word_le_nat_alt)
qed

lemma alloc_search_ok:
  assumes ok: "tree_ok K b" and sz: "unat sz = 2 ^ c" and c: "3 \<le> c"
  shows "depth i \<le> K - c \<Longrightarrow> c \<le> K \<Longrightarrow> c \<le> get_size b i \<Longrightarrow>
    \<exists>j. alloc_search b sz (2 ^ (K - depth i)) i = Some (2 ^ c, j) \<and> depth j = K - c \<and> get_size b j = c
      \<and> under i j \<and> (\<forall>a. under a j \<longrightarrow> under a i \<or> c \<le> get_size b a)"
proof (induction "K - c - depth i" arbitrary: i)
  case 0
  then have d: "depth i = K - c" by simp
  then have "K - depth i = c" using 0 by simp
  moreover have "get_size b i = c"
    using tree_okD(2) [OF ok, of i] d c 0 by (simp add: calculation)
  moreover have "alloc_search b sz (2 ^ c) i = Some (2 ^ c, i)"
    by (subst alloc_search.simps) (simp add: sz)
  ultimately show ?case using d by (intro exI [of _ i]) (auto intro: under.self)
next
  case (Suc n)
  then have d: "depth i < K - c" "depth i < K - 3" using c by simp_all
  have ne: "K - depth i \<noteq> c" using d(1) by simp
  have half: "2 ^ (K - depth i) div 2 = (2::nat) ^ (K - Suc (depth i))"
  proof -
    have "K - depth i = Suc (K - Suc (depth i))" using d by simp
    then show ?thesis by simp
  qed
  have K: "K \<le> 30" using shape_K(2) [OF tree_okD(1) [OF ok]] .
  have "lv b i \<le> K" using tree_okD(2) [OF ok, of "LEFT_LEAF i"] d by simp
  then have test: "ucast sz \<le> pow2 (lv b i) \<longleftrightarrow> c \<le> lv b i" using K by (intro pow2_ge_iff [OF sz]) simp
  have nd: "node_ok K b i" using tree_okD(3) [OF ok d(2)] .
  have one: "c \<le> lv b i \<or> c \<le> rv b i"
    using nd Suc.prems(3) c d(1) unfolding node_ok_def by auto
  obtain k where k: "k = LEFT_LEAF i \<or> k = RIGHT_LEAF i" "c \<le> get_size b k"
    "alloc_search b sz (2 ^ (K - depth i)) i = alloc_search b sz (2 ^ (K - depth k)) k"
  proof (cases "c \<le> lv b i")
    case True
    then have "alloc_search b sz (2 ^ (K - depth i)) i = alloc_search b sz (2 ^ (K - depth (LEFT_LEAF i))) (LEFT_LEAF i)"
      using test ne half by (subst alloc_search.simps) (simp add: sz)
    then show ?thesis using that [of "LEFT_LEAF i"] True by simp
  next
    case False
    then have "alloc_search b sz (2 ^ (K - depth i)) i = alloc_search b sz (2 ^ (K - depth (RIGHT_LEAF i))) (RIGHT_LEAF i)"
      using test ne half by (subst alloc_search.simps) (simp add: sz)
    then show ?thesis using that [of "RIGHT_LEAF i"] one False by simp
  qed
  have dk: "depth k = Suc (depth i)" and ik: "under i k" and kp: "PARENT k = i" "k \<noteq> 0"
    using k(1) by (auto simp: under_child child_neq)
  have "n = K - c - depth k" using Suc.hyps(2) dk by simp
  then obtain j where j: "alloc_search b sz (2 ^ (K - depth k)) k = Some (2 ^ c, j)" "depth j = K - c" "get_size b j = c"
    "under k j" "\<forall>a. under a j \<longrightarrow> under a k \<or> c \<le> get_size b a"
    using Suc.hyps(1) [of k] d(1) dk Suc.prems(2) k(2) by auto
  have "under a i \<or> c \<le> get_size b a" if "under a j" for a
    using j(5) that k(2) kp by (auto simp: under_above [of a k] above_def)
  then show ?case using j k(3) under_trans [OF j(4) ik] by auto
qed

section \<open>The way up\<close>

lemma size_byte_node:
  assumes sh: "buddy_shape K b" and p: "depth p < K - 4" and x: "x < 256" and i: "depth i \<le> K - 3"
  shows "get_size (byte_node b p x) i = (if i = p then x else get_size b i)"
proof -
  have sh': "buddy_shape K (byte_node b p x)" using sh by simp
  consider "depth i < K - 4" | "depth i = K - 4" | "depth i = K - 3" using i by linarith
  then show ?thesis
  proof cases
    case 1
    then show ?thesis using size_byte [OF sh'] size_byte [OF sh] byte_byte [OF sh p x] by simp
  next
    case 2
    then show ?thesis using size_16 [OF sh'] size_16 [OF sh] scan_byte [OF sh p] p by auto
  next
    case 3
    then show ?thesis using size_8 [OF sh'] size_8 [OF sh] scan_byte [OF sh p] p by auto
  qed
qed

lemma size_set_16:
  assumes sh: "buddy_shape K b" and p: "depth p = K - 4" and i: "depth i \<le> K - 3" "i \<noteq> p"
  shows "get_size (bitmap_set b p x) i = get_size b i"
proof -
  have sh': "buddy_shape K (bitmap_set b p x)" using sh by simp
  have K: "7 \<le> K" using shape_K(1) [OF sh] .
  have p': "K - 4 \<le> depth p" "depth p \<le> K - 3" using p by simp_all
  consider "depth i < K - 4" | "depth i = K - 4" | "depth i = K - 3" using i by linarith
  then show ?thesis
  proof cases
    case 1
    then show ?thesis using size_byte [OF sh'] size_byte [OF sh] byte_set [OF sh] by simp
  next
    case 2
    then have "LEFT_LEAF i \<noteq> p" "RIGHT_LEAF i \<noteq> p" using p by (metis depth_child Suc_n_not_le_n order_refl)+
    then show ?thesis using 2 i(2) K size_16 [OF sh' 2] size_16 [OF sh 2]
      scan_set [OF sh p'] by simp
  next
    case 3
    then show ?thesis using i(2) K size_8 [OF sh' 3] size_8 [OF sh 3] scan_set [OF sh p', of i x] by simp
  qed
qed

lemma size_set_16_self:
  assumes sh: "buddy_shape K b" and p: "depth p = K - 4"
  shows "get_size (bitmap_set b p x) p = (if x
    then (if bitmap_scan_test b (LEFT_LEAF p) \<and> bitmap_scan_test b (RIGHT_LEAF p) then 4
          else if bitmap_scan_test b (LEFT_LEAF p) \<or> bitmap_scan_test b (RIGHT_LEAF p) then 3 else 0) else 0)"
proof -
  have sh': "buddy_shape K (bitmap_set b p x)" using sh by simp
  have K: "7 \<le> K" using shape_K(1) [OF sh] .
  have p': "K - 4 \<le> depth p" "depth p \<le> K - 3" using p by simp_all
  have "LEFT_LEAF p \<noteq> p" "RIGHT_LEAF p \<noteq> p" by (simp_all add: LEFT_LEAF_def RIGHT_LEAF_def)
  then show ?thesis using size_16 [OF sh' p] scan_set [OF sh p'] p K by simp
qed

lemma size_set_8:
  assumes sh: "buddy_shape K b" and p: "depth p = K - 3" and i: "depth i \<le> K - 3" "i \<noteq> PARENT p"
  shows "get_size (bitmap_set b p x) i = (if i = p then (if x then 3 else 0) else get_size b i)"
proof -
  have sh': "buddy_shape K (bitmap_set b p x)" using sh by simp
  have K: "7 \<le> K" using shape_K(1) [OF sh] .
  have p': "K - 4 \<le> depth p" "depth p \<le> K - 3" using p by simp_all
  consider "depth i < K - 4" | "depth i = K - 4" | "depth i = K - 3" using i by linarith
  then show ?thesis
  proof cases
    case 1
    then show ?thesis using size_byte [OF sh'] size_byte [OF sh] byte_set [OF sh] p K by auto
  next
    case 2
    have "LEFT_LEAF i \<noteq> p" "RIGHT_LEAF i \<noteq> p" using i(2) by auto
    then show ?thesis using 2 p K size_16 [OF sh' 2] size_16 [OF sh 2] scan_set [OF sh p'] by auto
  next
    case 3
    then show ?thesis using K size_8 [OF sh' 3] size_8 [OF sh 3] scan_set [OF sh p', of i x] by simp
  qed
qed

text \<open>One step up: the parent gets the maximum of its halves and nothing else changes.\<close>

lemma alloc_update_step:
  assumes sh: "buddy_shape K b" and i: "i \<noteq> 0" "depth i \<le> K - 3" and leaf: "depth i = K - 3 \<longrightarrow> get_size b i = 0"
    and bd: "\<And>k. depth k \<le> K - 3 \<Longrightarrow> get_size b k \<le> K - depth k"
  shows "\<exists>b1. alloc_update b i = alloc_update b1 (PARENT i) \<and> buddy_shape K b1
    \<and> space b1 = space b \<and> block b1 = block b \<and> bsize b1 = bsize b
    \<and> (\<forall>k. depth k \<le> K - 3 \<longrightarrow> get_size b1 k = (if k = PARENT i then max (lv b k) (rv b k) else get_size b k))"
proof -
  let ?p = "PARENT i"
  have K: "7 \<le> K" "K \<le> 30" using shape_K sh by blast+
  have dp: "depth i = Suc (depth ?p)" using depth_parent [OF i(1)] .
  show ?thesis
  proof (cases "depth ?p < K - 4")
    case True
    have lr: "lv b ?p \<le> 30" "rv b ?p \<le> 30"
      using bd [of "LEFT_LEAF ?p"] bd [of "RIGHT_LEAF ?p"] dp i(2) K by simp_all
    define b1 where "b1 = byte_node b ?p (max (lv b ?p) (rv b ?p))"
    have "alloc_update b i = alloc_update b1 ?p"
    proof (cases "in_bitmap b i")
      case True
      then show ?thesis using \<open>depth ?p < K - 4\<close> i(1) unfolding b1_def
        by (subst alloc_update.simps) (simp add: shape_base(2) [OF sh] Let_def)
    next
      case False
      then have "depth i < K - 4" using shape_base(2) [OF sh] by simp
      then have "unat (bbt b ! LEFT_LEAF ?p) = lv b ?p" "unat (bbt b ! RIGHT_LEAF ?p) = rv b ?p"
        using size_byte [OF sh] dp by simp_all
      then show ?thesis using False i(1) unfolding b1_def by (subst alloc_update.simps) (simp add: Let_def)
    qed
    moreover have "get_size b1 k = (if k = ?p then max (lv b k) (rv b k) else get_size b k)" if "depth k \<le> K - 3" for k
      unfolding b1_def using size_byte_node [OF sh True _ that] lr by simp
    ultimately show ?thesis using sh by (intro exI [of _ b1]) (simp add: b1_def)
  next
    case False
    then have d: "depth ?p = K - 4" "depth i = K - 3" using dp i(2) by simp_all
    define b1 where "b1 = bitmap_set b ?p (bitmap_scan_test b (LEFT_LEAF ?p) \<or> bitmap_scan_test b (RIGHT_LEAF ?p))"
    have run: "alloc_update b i = alloc_update b1 ?p"
      unfolding b1_def using i(1) d by (subst alloc_update.simps) (simp add: shape_base(2) [OF sh] Let_def)
    have ch: "lv b ?p = (if bitmap_scan_test b (LEFT_LEAF ?p) then 3 else 0)"
      "rv b ?p = (if bitmap_scan_test b (RIGHT_LEAF ?p) then 3 else 0)"
      using size_8 [OF sh] d dp by simp_all
    have "lv b ?p = 0 \<or> rv b ?p = 0" using child_cases [OF i(1)] leaf d(2) by metis
    then have "get_size b1 ?p = max (lv b ?p) (rv b ?p)"
      unfolding b1_def size_set_16_self [OF sh d(1)] ch by (auto split: if_splits)
    then have "get_size b1 k = (if k = ?p then max (lv b k) (rv b k) else get_size b k)" if "depth k \<le> K - 3" for k
      using size_set_16 [OF sh d(1) that] by (simp add: b1_def)
    then show ?thesis using sh run by (intro exI [of _ b1]) (simp add: b1_def)
  qed
qed

lemma alloc_update_ok:
  assumes "buddy_shape K b" and "depth i \<le> K - 3" and "depth i = K - 3 \<longrightarrow> get_size b i = 0"
    and "\<And>k. depth k \<le> K - 3 \<Longrightarrow> get_size b k \<le> K - depth k"
    and "\<And>k. depth k < K - 3 \<Longrightarrow> \<not> above k i \<Longrightarrow> node_ok K b k"
  shows "tree_ok K (alloc_update b i) \<and> space (alloc_update b i) = space b \<and> block (alloc_update b i) = block b
    \<and> (\<forall>k. depth k \<le> K - 3 \<longrightarrow> \<not> above k i \<longrightarrow> get_size (alloc_update b i) k = get_size b k)
    \<and> (\<forall>k. above k i \<longrightarrow> get_size (alloc_update b i) k = max (lv (alloc_update b i) k) (rv (alloc_update b i) k))"
  using assms
proof (induction i arbitrary: b rule: less_induct)
  case (less i)
  note sh = less.prems(1) and bd = less.prems(4)
  show ?case
  proof (cases "i = 0")
    case True
    then have "alloc_update b i = b" by (subst alloc_update.simps) simp
    moreover have "\<not> above k i" for k using True by (simp add: above_def)
    ultimately show ?thesis using less.prems by (simp add: tree_ok_def)
  next
    case False
    let ?p = "PARENT i"
    have dp: "depth i = Suc (depth ?p)" using depth_parent [OF False] .
    obtain b1 where b1: "alloc_update b i = alloc_update b1 ?p" "buddy_shape K b1"
      "space b1 = space b" "block b1 = block b"
      "\<forall>k. depth k \<le> K - 3 \<longrightarrow> get_size b1 k = (if k = ?p then max (lv b k) (rv b k) else get_size b k)"
      using alloc_update_step [OF sh False less.prems(2,3) bd] by auto
    have v1: "get_size b1 k = (if k = ?p then max (lv b k) (rv b k) else get_size b k)" if "depth k \<le> K - 3" for k
      using b1(5) that by blast
    have bd1: "get_size b1 k \<le> K - depth k" if "depth k \<le> K - 3" for k
      using v1 [OF that] bd [OF that] bd [of "LEFT_LEAF ?p"] bd [of "RIGHT_LEAF ?p"] dp less.prems(2) by auto
    have ok1: "node_ok K b1 k" if k: "depth k < K - 3" "\<not> above k ?p" for k
    proof (cases "k = ?p")
      case True
      have "LEFT_LEAF k \<noteq> k" "RIGHT_LEAF k \<noteq> k" by (simp_all add: LEFT_LEAF_def RIGHT_LEAF_def)
      then show ?thesis using True v1 [of k] v1 [of "LEFT_LEAF k"] v1 [of "RIGHT_LEAF k"] k(1) by (simp add: node_ok_def)
    next
      case False
      have na: "\<not> above k i" using above_parent [OF \<open>i \<noteq> 0\<close>, of k] k(2) False by simp
      have "LEFT_LEAF k \<noteq> ?p" "RIGHT_LEAF k \<noteq> ?p"
        using k(2) above_def [of k ?p] under.self by (metis PARENT_child child_neq(1,2))+
      then show ?thesis using less.prems(5) [OF k(1) na] False v1 [of k] v1 [of "LEFT_LEAF k"] v1 [of "RIGHT_LEAF k"] k(1)
        by (simp add: node_ok_def)
    qed
    have "depth ?p \<noteq> K - 3" "depth ?p \<le> K - 3" using dp less.prems(2) by simp_all
    then have IH: "tree_ok K (alloc_update b1 ?p) \<and> space (alloc_update b1 ?p) = space b1 \<and> block (alloc_update b1 ?p) = block b1
      \<and> (\<forall>k. depth k \<le> K - 3 \<longrightarrow> \<not> above k ?p \<longrightarrow> get_size (alloc_update b1 ?p) k = get_size b1 k)
      \<and> (\<forall>k. above k ?p \<longrightarrow> get_size (alloc_update b1 ?p) k = max (lv (alloc_update b1 ?p) k) (rv (alloc_update b1 ?p) k))"
      using less.IH [OF PARENT_less [OF False] b1(2) _ _ bd1 ok1] by simp
    let ?b = "alloc_update b i"
    have keep: "get_size ?b k = get_size b1 k" if "depth k \<le> K - 3" "\<not> above k ?p" for k
      using IH that b1(1) by simp
    have lrp: "\<not> above (LEFT_LEAF ?p) ?p" "\<not> above (RIGHT_LEAF ?p) ?p" "\<not> above ?p ?p"
      using above_depth by fastforce+
    have "LEFT_LEAF ?p \<noteq> ?p" "RIGHT_LEAF ?p \<noteq> ?p" by (simp_all add: LEFT_LEAF_def RIGHT_LEAF_def)
    then have pm: "get_size ?b ?p = max (lv ?b ?p) (rv ?b ?p)"
      using keep [of ?p] keep [of "LEFT_LEAF ?p"] keep [of "RIGHT_LEAF ?p"] lrp v1 [of ?p]
        v1 [of "LEFT_LEAF ?p"] v1 [of "RIGHT_LEAF ?p"] dp less.prems(2) by simp
    show ?thesis
    proof (intro conjI allI impI)
      show "tree_ok K ?b" "space ?b = space b" "block ?b = block b" using IH b1 by simp_all
      show "get_size ?b k = get_size b k" if "depth k \<le> K - 3" "\<not> above k i" for k
        using keep [OF that(1)] v1 [OF that(1)] that(2) above_parent [OF False, of k] by simp
      show "get_size ?b k = max (lv ?b k) (rv ?b k)" if "above k i" for k
        using that above_parent [OF False, of k] pm IH b1(1) by auto
    qed
  qed
qed

section \<open>Free blocks\<close>

text \<open>
  An eight-byte cell is free when no node above it is marked as taken. \<open>free_bytes\<close>
  gives the offsets of the free cells' bytes.
\<close>

definition free_leaf :: "nat \<Rightarrow> bitmap_buddy \<Rightarrow> nat \<Rightarrow> bool" where
  "free_leaf K b x \<longleftrightarrow> depth x = K - 3 \<and> (\<forall>a. under a x \<longrightarrow> get_size b a \<noteq> 0)"

definition leaf_of :: "nat \<Rightarrow> nat \<Rightarrow> nat" where
  "leaf_of K off = off div 8 + 2 ^ (K - 3) - 1"

definition free_bytes :: "nat \<Rightarrow> bitmap_buddy \<Rightarrow> nat set" where
  "free_bytes K b = {off. off < 2 ^ K \<and> free_leaf K b (leaf_of K off)}"

lemma full_subtree:
  assumes ok: "tree_ok K b" and j: "get_size b j = K - depth j"
  shows "under j x \<Longrightarrow> depth x \<le> K - 3 \<Longrightarrow> get_size b x = K - depth x"
proof (induction rule: under.induct)
  case self
  then show ?case using j by simp
next
  case (step i)
  let ?p = "PARENT i"
  have K: "7 \<le> K" using shape_K(1) [OF tree_okD(1) [OF ok]] .
  have d: "depth i = Suc (depth ?p)" using depth_parent [OF step(1)] .
  then have dp: "depth ?p < K - 3" using step.prems by simp
  have f: "get_size b ?p = K - depth ?p" using step.IH dp by simp
  have "lv b ?p \<le> K - Suc (depth ?p)" "rv b ?p \<le> K - Suc (depth ?p)"
    using tree_okD(2) [OF ok, of "LEFT_LEAF ?p"] tree_okD(2) [OF ok, of "RIGHT_LEAF ?p"] dp by simp_all
  then have "lv b ?p = K - depth ?p - 1 \<and> rv b ?p = K - depth ?p - 1"
    using tree_okD(3) [OF ok dp] f dp K unfolding node_ok_def by auto
  then show ?case using child_cases [OF step(1)] d by (metis diff_diff_left plus_1_eq_Suc add.commute)
qed

lemma under_div:
  "depth i = e + depth a \<Longrightarrow> under a i \<longleftrightarrow> (i + 1) div 2 ^ e = a + 1"
proof (induction e arbitrary: i)
  case 0
  then show ?case using under_same_depth [of a i] under.self by auto
next
  case (Suc e)
  then have i: "i \<noteq> 0" by (intro notI) simp
  have "PARENT i + 1 = (i + 1) div 2" using i by (simp add: PARENT_def)
  then have "(i + 1) div 2 ^ Suc e = (PARENT i + 1) div 2 ^ e" by (simp add: div_mult2_eq)
  moreover have "under a i \<longleftrightarrow> under a (PARENT i)"
    using Suc.prems i by (auto intro: under.step elim: underE)
  ultimately show ?case using Suc.IH [of "PARENT i"] Suc.prems depth_parent [OF i] by simp
qed

lemma leaf_of_depth:
  assumes "off < 2 ^ K" and "3 \<le> K"
  shows "depth (leaf_of K off) = K - 3"
proof -
  have "(2::nat) ^ K = 8 * 2 ^ (K - 3)"
    using assms(2) power_add [of "2::nat" 3 "K - 3"] by simp
  then have "off div 8 < 2 ^ (K - 3)" using assms(1) by (simp add: div_less_iff_less_mult mult.commute)
  moreover have "(0::nat) < 2 ^ (K - 3)" by simp
  ultimately have "2 ^ (K - 3) \<le> leaf_of K off + 1" "leaf_of K off + 1 < 2 * 2 ^ (K - 3)"
    unfolding leaf_of_def by linarith+
  then have "\<not> depth (leaf_of K off) < K - 3" "depth (leaf_of K off) < Suc (K - 3)"
    unfolding depth_le_iff by simp_all
  then show ?thesis by simp
qed

lemma block_cells:
  assumes off: "off < 2 ^ K" and c: "3 \<le> c" "c \<le> K" and j: "depth j = K - c"
  shows "under j (leaf_of K off) \<longleftrightarrow> (j + 1) * 2 ^ c - 2 ^ K \<le> off \<and> off < (j + 1) * 2 ^ c - 2 ^ K + 2 ^ c"
proof -
  have d: "depth (leaf_of K off) = (c - 3) + depth j" using leaf_of_depth [OF off] c j by simp
  have p: "(2::nat) ^ K = 8 * 2 ^ (K - 3)" "(2::nat) ^ c = 8 * 2 ^ (c - 3)"
    using c power_add [of "2::nat" 3 "K - 3"] power_add [of "2::nat" 3 "c - 3"] by simp_all
  have "leaf_of K off + 1 = (off + 2 ^ K) div 8" unfolding leaf_of_def p(1) by simp
  then have "(leaf_of K off + 1) div 2 ^ (c - 3) = (off + 2 ^ K) div 2 ^ c"
    unfolding p(2) by (simp add: div_mult2_eq)
  then have "under j (leaf_of K off) \<longleftrightarrow> (off + 2 ^ K) div 2 ^ c = j + 1" using under_div [OF d] by simp
  also have "\<dots> \<longleftrightarrow> (j + 1) * 2 ^ c \<le> off + 2 ^ K \<and> off + 2 ^ K < (j + 1) * 2 ^ c + 2 ^ c"
  proof
    assume "(off + 2 ^ K) div 2 ^ c = j + 1"
    moreover have "(off + 2 ^ K) mod 2 ^ c < 2 ^ c" by simp
    ultimately show "(j + 1) * 2 ^ c \<le> off + 2 ^ K \<and> off + 2 ^ K < (j + 1) * 2 ^ c + 2 ^ c"
      using div_mult_mod_eq [of "off + 2 ^ K" "2 ^ c"] by (metis add_less_cancel_left le_add1)
  next
    assume a: "(j + 1) * 2 ^ c \<le> off + 2 ^ K \<and> off + 2 ^ K < (j + 1) * 2 ^ c + 2 ^ c"
    then show "(off + 2 ^ K) div 2 ^ c = j + 1"
      by (intro div_nat_eqI) (simp_all add: mult.commute algebra_simps)
  qed
  also have "\<dots> \<longleftrightarrow> (j + 1) * 2 ^ c - 2 ^ K \<le> off \<and> off < (j + 1) * 2 ^ c - 2 ^ K + 2 ^ c"
  proof -
    have "(2::nat) ^ K = 2 ^ (K - c) * 2 ^ c" using c power_add [of "2::nat" "K - c" c] by simp
    moreover have "2 ^ (K - c) \<le> j + 1" using depth_bounds [of j] j by simp
    ultimately have "2 ^ K \<le> (j + 1) * 2 ^ c" by (metis mult_le_mono1)
    then show ?thesis by linarith
  qed
  finally show ?thesis .
qed

text \<open>Marking node \<open>j\<close> as taken and updating its ancestors removes exactly its cells.\<close>

definition mark :: "bitmap_buddy \<Rightarrow> nat \<Rightarrow> nat \<Rightarrow> bitmap_buddy" where
  "mark b c j = (if c \<le> 4 then bitmap_set b j False else byte_node b j 0)"

lemma mark_sizes:
  assumes ok: "tree_ok K b" and c: "3 \<le> c" "c \<le> K" and j: "depth j = K - c"
    and k: "depth k \<le> K - 3" "k \<noteq> PARENT j \<or> 4 \<le> c"
  shows "get_size (mark b c j) k = (if k = j then 0 else get_size b k)"
proof -
  note sh = tree_okD(1) [OF ok]
  have K: "7 \<le> K" using shape_K(1) [OF sh] .
  consider "c = 3" | "c = 4" | "5 \<le> c" using c by linarith
  then show ?thesis
  proof cases
    case 1
    then show ?thesis using k j size_set_8 [OF sh, of j k False] by (simp add: mark_def)
  next
    case 2
    then have "depth j = K - 4" using j by simp
    then show ?thesis using 2 k size_set_16 [OF sh, of j k False] size_set_16_self [OF sh, of j False] by (simp add: mark_def)
  next
    case 3
    then show ?thesis using k j c K size_byte_node [OF sh, of j 0 k] by (simp add: mark_def)
  qed
qed

text \<open>What is known of the node that the search found.\<close>

definition found :: "nat \<Rightarrow> bitmap_buddy \<Rightarrow> nat \<Rightarrow> nat \<Rightarrow> bool" where
  "found K b c j \<longleftrightarrow> tree_ok K b \<and> 3 \<le> c \<and> c \<le> K \<and> depth j = K - c \<and> get_size b j = c
     \<and> (\<forall>a. above a j \<longrightarrow> get_size b a \<noteq> 0)"

lemma foundD:
  assumes "found K b c j"
  shows "tree_ok K b" and "3 \<le> c" "c \<le> K" and "depth j = K - c" and "get_size b j = c"
    and "\<And>a. above a j \<Longrightarrow> get_size b a \<noteq> 0" and "depth j \<le> K - 3"
  using assms by (auto simp: found_def)

lemma not_above_self [simp]: "\<not> above j j"
  using above_depth by fastforce

lemma found_sizes:
  assumes f: "found K b c j" and k: "depth k \<le> K - 3" "\<not> above k j"
  shows "get_size (mark b c j) k = (if k = j then 0 else get_size b k)"
proof -
  have K: "7 \<le> K" using shape_K(1) [OF tree_okD(1) [OF foundD(1) [OF f]]] .
  have "k \<noteq> PARENT j \<or> 4 \<le> c"
  proof (cases "j = 0")
    case True
    then show ?thesis using foundD(2,4) [OF f] K by (cases "c = 3") auto
  next
    case False
    then have "above (PARENT j) j" by (simp add: above_def under.self)
    then show ?thesis using k(2) by blast
  qed
  then show ?thesis using mark_sizes [OF foundD(1-4) [OF f] k(1)] by simp
qed

lemma found_bound:
  assumes f: "found K b c j" and k: "depth k \<le> K - 3"
  shows "get_size (mark b c j) k \<le> K - depth k"
proof (cases "k \<noteq> PARENT j \<or> 4 \<le> c")
  case True
  then show ?thesis using mark_sizes [OF foundD(1-4) [OF f] k] tree_okD(2) [OF foundD(1) [OF f] k] by simp
next
  case False
  note sh = tree_okD(1) [OF foundD(1) [OF f]]
  have K: "7 \<le> K" using shape_K(1) [OF sh] .
  have "c = 3" using False foundD(2) [OF f] by simp
  then have dj: "depth j = K - 3" using foundD(4) [OF f] by simp
  then have "j \<noteq> 0" using K by (intro notI) simp
  then have "depth k = K - 4" using False depth_parent [of j] dj by simp
  moreover have "buddy_shape K (mark b c j)" using sh by (simp add: mark_def)
  ultimately show ?thesis using size_16 [of K "mark b c j" k] K by simp
qed

lemma found_node:
  assumes f: "found K b c j" and k: "depth k < K - 3" "\<not> above k j"
  shows "node_ok K (mark b c j) k"
proof (cases "k = j")
  case True
  then show ?thesis using found_sizes [OF f foundD(7) [OF f]] by (simp add: node_ok_def)
next
  case False
  have ch: "\<not> above x j \<and> x \<noteq> j" if "PARENT x = k" "x \<noteq> 0" for x
    using k(2) that by (metis False above_def under.self under.step under_trans)
  have "get_size (mark b c j) (LEFT_LEAF k) = lv b k" "get_size (mark b c j) (RIGHT_LEAF k) = rv b k"
    using found_sizes [OF f, of "LEFT_LEAF k"] found_sizes [OF f, of "RIGHT_LEAF k"] ch [of "LEFT_LEAF k"]
      ch [of "RIGHT_LEAF k"] k(1) by (simp_all add: child_neq)
  moreover have "get_size (mark b c j) k = get_size b k" using found_sizes [OF f _ k(2)] k(1) False by simp
  ultimately show ?thesis using tree_okD(3) [OF foundD(1) [OF f] k(1)] by (simp add: node_ok_def)
qed

lemma found_update:
  assumes f: "found K b c j" and b2: "b2 = alloc_update (mark b c j) j"
  shows "tree_ok K b2" and "space b2 = space b" and "block b2 = block b" and "bsize b2 = bsize b"
    and "\<And>k. depth k \<le> K - 3 \<Longrightarrow> \<not> above k j \<Longrightarrow> get_size b2 k = (if k = j then 0 else get_size b k)"
    and "\<And>k. above k j \<Longrightarrow> get_size b2 k = max (lv b2 k) (rv b2 k)"
proof -
  note sh = tree_okD(1) [OF foundD(1) [OF f]]
  have shm: "buddy_shape K (mark b c j)" using sh by (simp add: mark_def)
  have z: "depth j = K - 3 \<longrightarrow> get_size (mark b c j) j = 0" using found_sizes [OF f foundD(7) [OF f]] by simp
  note upd = alloc_update_ok [OF shm foundD(7) [OF f] z found_bound [OF f] found_node [OF f], folded b2]
  show ok: "tree_ok K b2" using upd by blast
  show "space b2 = space b" "block b2 = block b" using upd by (simp_all add: mark_def)
  show "bsize b2 = bsize b" using sh tree_okD(1) [OF ok] by (simp add: buddy_shape_def)
  show "get_size b2 k = (if k = j then 0 else get_size b k)" if "depth k \<le> K - 3" "\<not> above k j" for k
    using upd that found_sizes [OF f that] by simp
  show "get_size b2 k = max (lv b2 k) (rv b2 k)" if "above k j" for k using upd that by blast
qed

text \<open>Two nodes over the same cell: one is above the other.\<close>

lemma under_linear: "under a x \<Longrightarrow> under j x \<Longrightarrow> under j a \<or> above a j"
proof (induction rule: under.induct)
  case self
  then show ?case by simp
next
  case (step i)
  show ?case
  proof (cases "i = j")
    case True
    then show ?thesis using step.hyps by (simp add: above_def)
  next
    case False
    then have "under j (PARENT i)" using step.prems by (auto elim: underE)
    then show ?thesis using step.IH by simp
  qed
qed

lemma found_block_free:
  assumes f: "found K b c j" and x: "depth x = K - 3" "under j x"
  shows "free_leaf K b x"
  unfolding free_leaf_def
proof (intro conjI allI impI)
  fix a assume a: "under a x"
  have K: "7 \<le> K" using shape_K(1) [OF tree_okD(1) [OF foundD(1) [OF f]]] .
  from under_linear [OF a x(2)] show "get_size b a \<noteq> 0"
  proof
    assume u: "under j a"
    have d: "depth a \<le> K - 3" using under_depth [OF a] x(1) by simp
    have "get_size b j = K - depth j" using foundD(3,4,5) [OF f] by simp
    then show ?thesis using full_subtree [OF foundD(1) [OF f] _ u d] d K by simp
  qed (rule foundD(6) [OF f])
qed (rule x)

lemma found_free_after:
  assumes f: "found K b c j" and b2: "b2 = alloc_update (mark b c j) j"
  shows "free_leaf K b2 x \<longleftrightarrow> free_leaf K b x \<and> \<not> under j x"
proof
  note keep = found_update(5) [OF f b2]
  assume f2: "free_leaf K b2 x"
  then have d: "depth x = K - 3" and nz: "\<And>a. under a x \<Longrightarrow> get_size b2 a \<noteq> 0" by (simp_all add: free_leaf_def)
  have "\<not> under j x" using nz [of j] keep [OF foundD(7) [OF f]] by auto
  moreover have "get_size b a \<noteq> 0" if "under a x" for a
    using foundD(6) [OF f, of a] nz [OF that] keep [of a] under_depth [OF that] d
    by (cases "above a j") (auto split: if_splits)
  ultimately show "free_leaf K b x \<and> \<not> under j x" using d by (simp add: free_leaf_def)
next
  note keep = found_update(5) [OF f b2] and mx = found_update(6) [OF f b2]
  assume f1: "free_leaf K b x \<and> \<not> under j x"
  then have d: "depth x = K - 3" and nz: "\<And>a. under a x \<Longrightarrow> get_size b a \<noteq> 0" by (simp_all add: free_leaf_def)
  have one: "get_size b2 (PARENT i) \<noteq> 0" if i: "i \<noteq> 0" "under i x" "get_size b2 i \<noteq> 0" for i
  proof -
    let ?q = "PARENT i"
    have qx: "under ?q x" using i by (metis under.self under.step under_trans)
    show ?thesis
    proof (cases "above ?q j")
      case True
      then show ?thesis using mx [OF True] child_cases [OF i(1)] i(3) by (metis max_nat.eq_neutr_iff)
    next
      case False
      have "?q \<noteq> j" using qx f1 by auto
      then show ?thesis using keep [OF _ False] nz [OF qx] under_depth [OF qx] d by simp
    qed
  qed
  have up: "get_size b2 a \<noteq> 0" if "under a y" "under y x" "get_size b2 y \<noteq> 0" for a y
    using that
  proof (induction rule: under.induct)
    case (step i)
    then have "under (PARENT i) x" by (metis under.self under.step under_trans)
    then show ?case using step one by simp
  qed simp
  have "\<not> above x j" using above_depth [of x j] d foundD(7) [OF f] by auto
  moreover have "x \<noteq> j" using f1 under.self by auto
  ultimately have "get_size b2 x \<noteq> 0" using keep [of x] d nz [OF under.self] by simp
  then show "free_leaf K b2 x" using up [OF _ under.self] d by (auto simp: free_leaf_def)
qed

section \<open>Rounding the request\<close>

lemma round_small: "sz \<le> 8 \<Longrightarrow> unat (round_request sz) = 2 ^ 3"
  by (simp add: round_request_def)

text \<open>Filling all bits below the highest one.\<close>

definition smear :: "u32 \<Rightarrow> u32" where
  "smear x = (let s = x OR drop_bit 1 x; s = s OR drop_bit 2 s; s = s OR drop_bit 4 s; s = s OR drop_bit 8 s
              in s OR drop_bit 16 s)"

lemma fixsize_smear: "fixsize x = smear x + 1"
  by (simp only: fixsize_def smear_def Let_def)

lemma smear_bits:
  fixes x :: u32
  assumes "bit x n" and "\<And>i. n < i \<Longrightarrow> \<not> bit x i"
  shows "bit (smear x) i \<longleftrightarrow> i \<le> n"
proof -
  have n: "n < 32" using bit_imp_le_length [OF assms(1)] by simp
  have 1: "bit (x OR drop_bit 1 x) i \<longleftrightarrow> (\<exists>k < 2. bit x (i + k))" for i
    by (auto simp: bit_simps less_2_cases_iff add.commute)
  define s1 where "s1 = x OR drop_bit 1 x"
  have dbl: "(\<exists>k < 2 * w. bit x (i + k)) \<longleftrightarrow> (\<exists>k < w. bit x (i + k)) \<or> (\<exists>k < w. bit x (w + i + k))" for i w
  proof
    assume "\<exists>k < 2 * w. bit x (i + k)"
    then obtain k where k: "k < 2 * w" "bit x (i + k)" by blast
    show "(\<exists>k < w. bit x (i + k)) \<or> (\<exists>k < w. bit x (w + i + k))"
    proof (cases "k < w")
      case False
      then have "k - w < w" "w + i + (k - w) = i + k" using k(1) by auto
      then show ?thesis using k(2) by metis
    qed (use k in blast)
  next
    assume "(\<exists>k < w. bit x (i + k)) \<or> (\<exists>k < w. bit x (w + i + k))"
    then show "\<exists>k < 2 * w. bit x (i + k)"
    proof
      assume "\<exists>k < w. bit x (i + k)"
      then obtain k where "k < w" "bit x (i + k)" by blast
      then show ?thesis by (intro exI [of _ k]) simp
    next
      assume "\<exists>k < w. bit x (w + i + k)"
      then obtain k where "k < w" "bit x (w + i + k)" by blast
      then show ?thesis by (intro exI [of _ "w + k"]) (simp add: add_ac)
    qed
  qed
  have 2: "bit (s1 OR drop_bit 2 s1) i \<longleftrightarrow> (\<exists>k < 4. bit x (i + k))" for i
    using dbl [of 2 i] 1 [folded s1_def, of i] 1 [folded s1_def, of "2 + i"] by (simp add: bit_simps)
  define s2 where "s2 = s1 OR drop_bit 2 s1"
  have 3: "bit (s2 OR drop_bit 4 s2) i \<longleftrightarrow> (\<exists>k < 8. bit x (i + k))" for i
    using dbl [of 4 i] 2 [folded s2_def, of i] 2 [folded s2_def, of "4 + i"] by (simp add: bit_simps)
  define s3 where "s3 = s2 OR drop_bit 4 s2"
  have 4: "bit (s3 OR drop_bit 8 s3) i \<longleftrightarrow> (\<exists>k < 16. bit x (i + k))" for i
    using dbl [of 8 i] 3 [folded s3_def, of i] 3 [folded s3_def, of "8 + i"] by (simp add: bit_simps)
  define s4 where "s4 = s3 OR drop_bit 8 s3"
  have 5: "bit (s4 OR drop_bit 16 s4) i \<longleftrightarrow> (\<exists>k < 32. bit x (i + k))" for i
    using dbl [of 16 i] 4 [folded s4_def, of i] 4 [folded s4_def, of "16 + i"] by (simp add: bit_simps)
  have "(\<exists>k < 32. bit x (i + k)) \<longleftrightarrow> i \<le> n"
  proof
    assume "\<exists>k < 32. bit x (i + k)"
    then show "i \<le> n" using assms(2) by (metis le_add1 not_le order.trans)
  next
    assume "i \<le> n"
    then show "\<exists>k < 32. bit x (i + k)" using assms(1) n by (intro exI [of _ "n - i"]) simp
  qed
  then show ?thesis using 5 [of i] unfolding smear_def Let_def s4_def s3_def s2_def s1_def by simp
qed

lemma bit_u32: "bit (x :: u32) i \<longleftrightarrow> odd (unat x div 2 ^ i)"
proof -
  have "bit (unat x) i \<longleftrightarrow> bit x i" by (simp add: bit_unsigned_iff)
  then show ?thesis by (simp add: bit_iff_odd [of "unat x"])
qed

lemma highest_bit:
  assumes "x \<noteq> (0 :: u32)"
  shows "\<exists>n < 32. 2 ^ n \<le> unat x \<and> unat x < 2 ^ (n + 1) \<and> bit x n \<and> (\<forall>i > n. \<not> bit x i)"
proof -
  have "1 \<le> unat x" using assms by (metis One_nat_def Suc_leI unat_gt_0)
  then obtain n where n: "2 ^ n \<le> unat x" "unat x < 2 ^ (n + 1)" using ex_power_ivl1 [of 2 "unat x"] by auto
  have "unat x div 2 ^ n = 1" using n by (intro div_nat_eqI) simp_all
  then have b: "bit x n" by (simp add: bit_u32)
  have "\<not> bit x i" if "n < i" for i
  proof -
    have "2 ^ (n + 1) \<le> (2::nat) ^ i" using that by (intro power_increasing) simp_all
    then have "unat x < 2 ^ i" using n(2) by linarith
    then show ?thesis by (simp add: bit_u32)
  qed
  then show ?thesis using n b bit_imp_le_length [OF b] by auto
qed

lemma power_of_2:
  assumes "IS_POWER_OF_2 x" and "x \<noteq> 0"
  shows "\<exists>n < 32. unat x = 2 ^ n"
proof -
  obtain n where n: "n < 32" "2 ^ n \<le> unat x" "unat x < 2 ^ (n + 1)" "bit x n" using highest_bit [OF assms(2)] by blast
  have "unat x = 2 ^ n"
  proof (rule ccontr)
    assume "unat x \<noteq> 2 ^ n"
    then have "2 ^ n \<le> unat x - 1" "unat x - 1 < 2 * 2 ^ n" using n by simp_all
    moreover have "unat (x - 1) = unat x - 1" using assms(2) by (metis unat_minus_one)
    ultimately have "unat (x - 1) div 2 ^ n = 1" by (intro div_nat_eqI) simp_all
    then have "bit (x - 1) n" by (simp add: bit_u32)
    then have "bit (x AND (x - 1)) n" using n(4) by (simp add: bit_simps)
    then show False using assms(1) by (simp add: IS_POWER_OF_2_def)
  qed
  then show ?thesis using n(1) by blast
qed

lemma power_of_2_conv:
  assumes "unat x = 2 ^ n"
  shows "IS_POWER_OF_2 x"
proof -
  have "x \<noteq> 0" using assms by (intro notI) simp
  then have u: "unat (x - 1) = 2 ^ n - 1" using assms by (metis unat_minus_one)
  have low: "bit (x - 1) i \<longleftrightarrow> i < n" for i
  proof -
    have "bit (2 ^ n - 1 :: nat) i \<longleftrightarrow> i < n" by (metis bit_mask_iff mask_nat_def possible_bit_nat)
    then show ?thesis using u by (metis bit_iff_odd bit_u32)
  qed
  have hi: "bit x i \<longleftrightarrow> i = n" for i
  proof -
    have "bit (2 ^ n :: nat) i \<longleftrightarrow> i = n" by (simp add: bit_exp_iff)
    then show ?thesis using assms by (metis bit_iff_odd bit_u32)
  qed
  have "x AND (x - 1) = 0" by (rule bit_word_eqI) (simp add: bit_simps low hi)
  then show ?thesis by (simp add: IS_POWER_OF_2_def)
qed

lemma fixsize_eq:
  assumes "bit x n" and "\<And>i. n < i \<Longrightarrow> \<not> bit x i"
  shows "fixsize x = 2 ^ (n + 1)"
proof -
  have n: "n < 32" using bit_imp_le_length [OF assms(1)] by simp
  have "smear x = mask (n + 1)"
    by (rule bit_word_eqI) (auto simp: smear_bits [OF assms] bit_mask_iff)
  then have "fixsize x = mask (n + 1) + 1" by (simp only: fixsize_smear)
  also have "\<dots> = 2 ^ (n + 1)" unfolding mask_eq_exp_minus_1 by simp
  finally show ?thesis .
qed

lemma unat_two_power: "k < 32 \<Longrightarrow> unat (2 ^ k :: u32) = 2 ^ k"
proof -
  assume "k < 32"
  then have "(2::nat) ^ k < 2 ^ 32" by (rule power_strict_increasing) simp
  moreover have "unat (of_nat m :: u32) = m" if "m < 2 ^ 32" for m using that by (simp add: unat_of_nat take_bit_nat_eq_self)
  ultimately have "unat (of_nat (2 ^ k) :: u32) = 2 ^ k" by blast
  then show ?thesis by simp
qed

text \<open>
  A request of at most \<open>2^31\<close> bytes is rounded up to the next power of two; a larger one
  wraps around to zero.
\<close>

lemma round_request_ok:
  assumes "unat sz \<le> 2 ^ 31"
  shows "\<exists>c. 3 \<le> c \<and> c < 32 \<and> unat (round_request sz) = 2 ^ c \<and> unat sz \<le> 2 ^ c \<and> (8 < unat sz \<longrightarrow> 2 ^ c < 2 * unat sz)"
proof (cases "sz \<le> 8")
  case True
  then have "unat (round_request sz) = 2 ^ 3" "unat sz \<le> 8" using round_small by (simp_all add: word_le_nat_alt)
  then show ?thesis by (intro exI [of _ 3]) simp
next
  case False
  then have big: "8 < unat sz" "sz \<noteq> 0" by (auto simp: word_le_nat_alt)
  show ?thesis
  proof (cases "IS_POWER_OF_2 sz")
    case True
    obtain n where n: "n < 32" "unat sz = 2 ^ n" using power_of_2 [OF True big(2)] by blast
    have "3 < n"
    proof (rule ccontr)
      assume "\<not> 3 < n"
      then have "(2::nat) ^ n \<le> 2 ^ 3" by (intro power_increasing) simp_all
      then show False using big(1) n(2) by simp
    qed
    then show ?thesis using n False True big by (intro exI [of _ n]) (simp add: round_request_def)
  next
    case ne: False
    obtain n where n: "n < 32" "2 ^ n \<le> unat sz" "unat sz < 2 ^ (n + 1)" "bit sz n" "\<forall>i > n. \<not> bit sz i"
      using highest_bit [OF big(2)] by blast
    have neq: "unat sz \<noteq> 2 ^ n" using power_of_2_conv ne by blast
    have "n < 31"
    proof (rule ccontr)
      assume "\<not> n < 31"
      then have "n = 31" using n(1) by simp
      then show False using n(2) neq assms by simp
    qed
    moreover have "2 \<le> n"
    proof (rule ccontr)
      assume "\<not> 2 \<le> n"
      then have "(2::nat) ^ (n + 1) \<le> 2 ^ 2" by (intro power_increasing) simp_all
      then show False using big(1) n(3) by simp
    qed
    moreover have "round_request sz = 2 ^ (n + 1)" using False ne fixsize_eq [OF n(4)] n(5) by (simp add: round_request_def)
    ultimately show ?thesis using unat_two_power [of "n + 1"] n(2,3) neq by (intro exI [of _ "n + 1"]) simp
  qed
qed

section \<open>buddy\_alloc\<close>

lemma block_update [simp]:
  "get_size (b\<lparr>block := x\<rparr>) i = get_size b i" "buddy_shape K (b\<lparr>block := x\<rparr>) \<longleftrightarrow> buddy_shape K b"
proof -
  have "bitmap_scan_test (b\<lparr>block := x\<rparr>) = bitmap_scan_test b" "in_bitmap (b\<lparr>block := x\<rparr>) = in_bitmap b"
    by (rule ext; simp add: bitmap_scan_test_def in_bitmap_def)+
  then show "get_size (b\<lparr>block := x\<rparr>) i = get_size b i" by (simp add: get_size_def Let_def)
qed (simp add: buddy_shape_def)

lemma tree_ok_block [simp]: "tree_ok K (b\<lparr>block := x\<rparr>) \<longleftrightarrow> tree_ok K b" "free_bytes K (b\<lparr>block := x\<rparr>) = free_bytes K b"
  by (simp_all add: tree_ok_def node_ok_def free_bytes_def free_leaf_def)

lemma root_size:
  assumes ok: "tree_ok K b"
  shows "unat (bbt b ! 0) = get_size b 0 \<and> get_size b 0 \<le> K"
  using size_byte [OF tree_okD(1) [OF ok], of 0] tree_okD(2) [OF ok, of 0] shape_K(1) [OF tree_okD(1) [OF ok]] by simp

lemma search_found:
  assumes ok: "tree_ok K b" and sz: "unat sz = 2 ^ c" and c: "3 \<le> c" "c \<le> get_size b 0"
  shows "\<exists>j. alloc_search b sz (bsize b) 0 = Some (2 ^ c, j) \<and> found K b c j"
proof -
  have cK: "c \<le> K" using root_size [OF ok] c(2) by simp
  have bs: "bsize b = 2 ^ K" using tree_okD(1) [OF ok] by (simp add: buddy_shape_def)
  obtain j where j: "alloc_search b sz (2 ^ (K - depth 0)) 0 = Some (2 ^ c, j)" "depth j = K - c" "get_size b j = c"
    "\<forall>a. under a j \<longrightarrow> under a 0 \<or> c \<le> get_size b a"
    using alloc_search_ok [OF ok sz c(1), of 0] cK c(2) by auto
  have "get_size b a \<noteq> 0" if "above a j" for a
  proof -
    have "under a j" using that by (simp add: under_above)
    then have "a = 0 \<or> c \<le> get_size b a" using j(4) by simp
    then show ?thesis using c by auto
  qed
  then show ?thesis using j ok c(1) cK bs unfolding found_def by auto
qed

lemma block_bounds:
  assumes "found K b c j"
  shows "(j + 1) * 2 ^ c - 2 ^ K + 2 ^ c \<le> 2 ^ K" and "2 ^ c dvd (j + 1) * 2 ^ c - 2 ^ K"
proof -
  have p: "(2::nat) ^ K = 2 ^ (K - c) * 2 ^ c" using foundD(3) [OF assms] power_add [of "2::nat" "K - c" c] by simp
  have "2 ^ (K - c) \<le> j + 1" "j + 2 \<le> 2 * 2 ^ (K - c)" using depth_bounds [of j] foundD(4) [OF assms] by simp_all
  then have "2 ^ K \<le> (j + 1) * 2 ^ c" "(j + 2) * 2 ^ c \<le> 2 * 2 ^ K"
    unfolding p by (metis mult_le_mono1, metis mult.assoc mult_le_mono1)
  then show "(j + 1) * 2 ^ c - 2 ^ K + 2 ^ c \<le> 2 ^ K" by (simp add: algebra_simps)
  show "2 ^ c dvd (j + 1) * 2 ^ c - 2 ^ K" unfolding p by (intro dvd_diff_nat) simp_all
qed

lemma free_bytes_update:
  assumes f: "found K b c j" and b2: "b2 = alloc_update (mark b c j) j"
  defines "off \<equiv> (j + 1) * 2 ^ c - 2 ^ K"
  shows "{off..<off + 2 ^ c} \<subseteq> free_bytes K b" and "free_bytes K b2 = free_bytes K b - {off..<off + 2 ^ c}"
proof -
  have cells: "under j (leaf_of K x) \<longleftrightarrow> off \<le> x \<and> x < off + 2 ^ c" if "x < 2 ^ K" for x
    unfolding off_def using block_cells [OF that foundD(2-4) [OF f]] .
  have K: "3 \<le> K" using foundD(2,3) [OF f] by simp
  have le: "off + 2 ^ c \<le> 2 ^ K" unfolding off_def using block_bounds(1) [OF f] .
  show "{off..<off + 2 ^ c} \<subseteq> free_bytes K b"
  proof
    fix x assume x: "x \<in> {off..<off + 2 ^ c}"
    then have xK: "x < 2 ^ K" using le by simp
    then have "free_leaf K b (leaf_of K x)"
      using found_block_free [OF f leaf_of_depth [OF xK K]] cells [OF xK] x by simp
    then show "x \<in> free_bytes K b" using xK by (simp add: free_bytes_def)
  qed
  show "free_bytes K b2 = free_bytes K b - {off..<off + 2 ^ c}"
    using found_free_after [OF f b2] cells by (auto simp: free_bytes_def)
qed

lemma buddy_alloc_ok:
  assumes ok: "tree_ok K b" and lk: "\<not> block b" and sz: "unat (round_request sz) = 2 ^ c" and c: "3 \<le> c" "c \<le> get_size b 0"
  shows "\<exists>off b'. buddy_alloc b m sz = Some (Ok (space b + of_nat off, b', wbytes m (space b + of_nat off) (replicate (2 ^ c) 0)))
    \<and> tree_ok K b' \<and> \<not> block b' \<and> space b' = space b \<and> 2 ^ c dvd off \<and> off + 2 ^ c \<le> 2 ^ K
    \<and> {off..<off + 2 ^ c} \<subseteq> free_bytes K b \<and> free_bytes K b' = free_bytes K b - {off..<off + 2 ^ c}"
proof -
  let ?b = "b\<lparr>block := True\<rparr>" and ?sz = "round_request sz"
  have ok1: "tree_ok K ?b" using ok by simp
  obtain j where j: "alloc_search ?b ?sz (bsize ?b) 0 = Some (2 ^ c, j)" "found K ?b c j"
    using search_found [OF ok1 sz c(1)] c(2) by auto
  have K: "K \<le> 30" using shape_K(2) [OF tree_okD(1) [OF ok]] .
  have "\<not> pow2 (unat (bbt b ! 0)) < ucast ?sz"
    using pow2_ge_iff [OF sz, of "get_size b 0"] root_size [OF ok] c(2) K by auto
  moreover have "(if ?sz \<le> 16 then bitmap_set ?b j False else byte_node ?b j 0) = mark ?b c j"
  proof -
    have "?sz \<le> 16 \<longleftrightarrow> (2::nat) ^ c \<le> 2 ^ 4" using sz by (simp add: word_le_nat_alt)
    also have "\<dots> \<longleftrightarrow> c \<le> 4" by (rule power_increasing_iff) simp
    finally show ?thesis by (simp add: mark_def)
  qed
  moreover define b2 where "b2 = alloc_update (mark ?b c j) j"
  note u = found_update [OF j(2) b2_def] and fb = free_bytes_update [OF j(2) b2_def] and bb = block_bounds [OF j(2)]
  define off where "off = (j + 1) * 2 ^ c - 2 ^ K"
  have bs: "bsize b = 2 ^ K" using tree_okD(1) [OF ok] by (simp add: buddy_shape_def)
  have "bsize (mark ?b c j) = 2 ^ K" using bs by (simp add: mark_def)
  moreover have "unat (ucast ?sz :: u64) = unat ?sz"
    using unsigned_less [of ?sz, where ?'a = nat] by (simp add: unsigned_ucast_eq take_bit_nat_eq_self)
  then have "unat (ucast ?sz :: u64) = 2 ^ c" using sz by simp
  ultimately have "buddy_alloc b m sz = Some (Ok (space b + of_nat off, b2\<lparr>block := False\<rparr>,
      wbytes m (space b + of_nat off) (replicate (2 ^ c) 0)))"
    using j(1) lk u(2,3) unfolding buddy_alloc_def
    by (simp add: Let_def b2_def [symmetric] off_def memset_wbytes del: of_nat_mult of_nat_add of_nat_diff)
  then show ?thesis using u fb bb unfolding off_def [symmetric] by (intro exI [of _ off] exI [of _ "b2\<lparr>block := False\<rparr>"]) simp
qed

text \<open>With no block large enough the function returns the null pointer and keeps the lock.\<close>

lemma buddy_alloc_none:
  assumes ok: "tree_ok K b" and lk: "\<not> block b" and sz: "unat (round_request sz) = 2 ^ c" and c: "get_size b 0 < c"
  shows "buddy_alloc b m sz = Some (Ok (0, b\<lparr>block := True\<rparr>, m))"
proof -
  have K: "K \<le> 30" using shape_K(2) [OF tree_okD(1) [OF ok]] .
  have "pow2 (unat (bbt b ! 0)) < ucast (round_request sz)"
    using pow2_ge_iff [OF sz, of "get_size b 0"] root_size [OF ok] c K by (auto simp: not_le [symmetric])
  then show ?thesis using lk by (simp add: buddy_alloc_def Let_def)
qed

section \<open>buddy\_free\<close>

text \<open>
  What holds whatever is allocated and released: no node claims more than its size. The other half of \<open>tree_ok\<close> does not
  survive a release.
\<close>

definition sizes_ok :: "nat \<Rightarrow> bitmap_buddy \<Rightarrow> bool" where
  "sizes_ok K b \<longleftrightarrow> buddy_shape K b \<and> (\<forall>i. depth i \<le> K - 3 \<longrightarrow> get_size b i \<le> K - depth i)"

lemma tree_sizes: "tree_ok K b \<Longrightarrow> sizes_ok K b"
  by (simp add: tree_ok_def sizes_ok_def)

lemma sizes_okD:
  assumes "sizes_ok K b"
  shows "buddy_shape K b" and "\<And>i. depth i \<le> K - 3 \<Longrightarrow> get_size b i \<le> K - depth i" and "7 \<le> K" and "K \<le> 30"
  using assms by (simp_all add: sizes_ok_def buddy_shape_def)

text \<open>The value of a node above a released block, from the values of its halves: what the test of the code computes for a node with a byte, and two bits for a node of 16 bytes.\<close>

definition joined :: "nat \<Rightarrow> bitmap_buddy \<Rightarrow> nat \<Rightarrow> nat" where
  "joined K b k =
     (if depth k = K - 4 then (if lv b k = 3 \<and> rv b k = 3 then 4 else max (lv b k) (rv b k))
      else if lv b k + rv b k = K - depth k then K - depth k else max (lv b k) (rv b k))"

lemma joined_le: "sizes_ok K b \<Longrightarrow> depth k < K - 3 \<Longrightarrow> joined K b k \<le> K - depth k"
  using sizes_okD(2) [of K b "LEFT_LEAF k"] sizes_okD(2) [of K b "RIGHT_LEAF k"] by (auto simp: joined_def)

text \<open>The bit of a node of 16 bytes is set on the way up, and its value is then that of its two bits.\<close>

lemma joined_16:
  assumes sh: "buddy_shape K b" and p: "depth p = K - 4"
  shows "get_size (bitmap_set b p True) p = joined K b p"
proof -
  have "depth (LEFT_LEAF p) = K - 3" "depth (RIGHT_LEAF p) = K - 3" using p shape_K(1) [OF sh] by simp_all
  then show ?thesis using size_8 [OF sh] p by (simp add: size_set_16_self [OF sh p] joined_def)
qed

lemma free_update_step:
  assumes ok: "sizes_ok K b" and i: "i \<noteq> 0" "depth i \<le> K - 3"
  shows "\<exists>b1. free_update b i (2 ^ (K - depth i)) = free_update b1 (PARENT i) (2 ^ (K - depth (PARENT i))) \<and> sizes_ok K b1
    \<and> space b1 = space b \<and> block b1 = block b
    \<and> (\<forall>k. depth k \<le> K - 3 \<longrightarrow> get_size b1 k = (if k = PARENT i then joined K b k else get_size b k))"
proof -
  let ?p = "PARENT i"
  note sh = sizes_okD(1) [OF ok]
  have dp: "depth i = Suc (depth ?p)" using depth_parent [OF i(1)] .
  have K: "7 \<le> K" "K \<le> 30" using sizes_okD [OF ok] by blast+
  have ns: "2 ^ (K - depth i) * 2 = (2::nat) ^ (K - depth ?p)"
  proof -
    have "K - depth ?p = Suc (K - depth i)" using dp i(2) K by simp
    then show ?thesis by simp
  qed
  define b1 where "b1 = (if depth ?p < K - 4 then byte_node b ?p (joined K b ?p) else bitmap_set b ?p True)"
  have run: "free_update b i (2 ^ (K - depth i)) = free_update b1 ?p (2 ^ (K - depth ?p))"
    using i(1) by (subst free_update.simps) (simp add: Let_def ns b1_def shape_base(2) [OF sh] joined_def)
  have v: "get_size b1 k = (if k = ?p then joined K b k else get_size b k)" if k: "depth k \<le> K - 3" for k
  proof (cases "depth ?p < K - 4")
    case True
    have "depth ?p < K - 3" using True by simp
    then have "joined K b ?p \<le> 30" using joined_le [OF ok, of ?p] K by linarith
    then have "joined K b ?p < 256" by simp
    then show ?thesis using size_byte_node [OF sh True _ k] True by (simp add: b1_def)
  next
    case False
    then have d: "depth ?p = K - 4" using dp i(2) by simp
    show ?thesis using joined_16 [OF sh d] size_set_16 [OF sh d k] False by (simp add: b1_def)
  qed
  have "sizes_ok K b1"
    unfolding sizes_ok_def
  proof (intro conjI allI impI)
    show "buddy_shape K b1" using sh by (simp add: b1_def)
    show "get_size b1 k \<le> K - depth k" if "depth k \<le> K - 3" for k
      using v [OF that] joined_le [OF ok, of ?p] sizes_okD(2) [OF ok that] dp i(2) by simp
  qed
  moreover have "space b1 = space b" "block b1 = block b" by (simp_all add: b1_def)
  ultimately show ?thesis using run v by blast
qed

lemma leaf_not_self [simp]: "LEFT_LEAF i \<noteq> i" "RIGHT_LEAF i \<noteq> i"
  by (simp_all add: LEFT_LEAF_def RIGHT_LEAF_def)

lemma free_update_ok:
  assumes "sizes_ok K b" and "depth i \<le> K - 3"
  shows "\<exists>b'. free_update b i (2 ^ (K - depth i)) = b' \<and> sizes_ok K b' \<and> space b' = space b \<and> block b' = block b
    \<and> (\<forall>k. depth k \<le> K - 3 \<longrightarrow> \<not> above k i \<longrightarrow> get_size b' k = get_size b k)
    \<and> (\<forall>k. above k i \<longrightarrow> get_size b' k = joined K b' k)"
  using assms
proof (induction i arbitrary: b rule: less_induct)
  case (less i)
  show ?case
  proof (cases "i = 0")
    case True
    then have "free_update b i (2 ^ (K - depth i)) = b" by (subst free_update.simps) simp
    moreover have "\<not> above k i" for k using True by (simp add: above_def)
    ultimately show ?thesis using less.prems by simp
  next
    case False
    let ?p = "PARENT i"
    have dp: "depth i = Suc (depth ?p)" using depth_parent [OF False] .
    obtain b1 where b1: "free_update b i (2 ^ (K - depth i)) = free_update b1 ?p (2 ^ (K - depth ?p))" "sizes_ok K b1"
      "space b1 = space b" "block b1 = block b"
      and v: "\<And>k. depth k \<le> K - 3 \<Longrightarrow> get_size b1 k = (if k = ?p then joined K b k else get_size b k)"
      using free_update_step [OF less.prems(1) False less.prems(2)] by auto
    have "depth ?p \<le> K - 3" using dp less.prems(2) by simp
    from less.IH [OF PARENT_less [OF False] b1(2) this] obtain b' where
      b': "free_update b1 ?p (2 ^ (K - depth ?p)) = b'" "sizes_ok K b'" "space b' = space b1" "block b' = block b1"
      and keep: "\<And>k. depth k \<le> K - 3 \<Longrightarrow> \<not> above k ?p \<Longrightarrow> get_size b' k = get_size b1 k"
      and up: "\<And>k. above k ?p \<Longrightarrow> get_size b' k = joined K b' k"
      by blast
    have "\<not> above (LEFT_LEAF ?p) ?p" "\<not> above (RIGHT_LEAF ?p) ?p" "\<not> above ?p ?p" using above_depth by fastforce+
    then have ch: "lv b' ?p = lv b ?p" "rv b' ?p = rv b ?p" "get_size b' ?p = joined K b ?p"
      using keep [of ?p] keep [of "LEFT_LEAF ?p"] keep [of "RIGHT_LEAF ?p"] v [of ?p] v [of "LEFT_LEAF ?p"] v [of "RIGHT_LEAF ?p"]
        dp less.prems(2) by simp_all
    then have "joined K b' ?p = joined K b ?p" by (simp add: joined_def)
    then have "get_size b' k = joined K b' k" if "above k i" for k
      using that above_parent [OF False, of k] up ch(3) by auto
    moreover have "get_size b' k = get_size b k" if "depth k \<le> K - 3" "\<not> above k i" for k
      using that keep v above_parent [OF False, of k] by simp
    ultimately show ?thesis using b1 b' by auto
  qed
qed

lemma root_above: "i \<noteq> 0 \<Longrightarrow> above 0 i"
proof (induction i rule: less_induct)
  case (less i)
  then show ?case using PARENT_less [of i] by (cases "PARENT i = 0") (auto simp: above_parent)
qed

text \<open>The search from the cell upwards ends at the first node that is marked as taken.\<close>

lemma free_search_ok:
  assumes "depth x \<le> K" and "under a x" and "get_size b a = 0"
  shows "\<exists>i. free_search b x (2 ^ (K - depth x)) = Ok (i, 2 ^ (K - depth i)) \<and> under i x \<and> get_size b i = 0
    \<and> (\<forall>k. under k x \<longrightarrow> above i k \<longrightarrow> get_size b k \<noteq> 0)"
  using assms
proof (induction x rule: less_induct)
  case (less x)
  show ?case
  proof (cases "get_size b x = 0")
    case True
    then have "free_search b x (2 ^ (K - depth x)) = Ok (x, 2 ^ (K - depth x))" by (subst free_search.simps) simp
    moreover have "\<not> above x k" if "under k x" for k using above_depth [of x k] under_depth [OF that] by auto
    ultimately show ?thesis using True under.self by blast
  next
    case False
    then have "a \<noteq> x" using less.prems(3) by auto
    then have x: "x \<noteq> 0" "under a (PARENT x)" using less.prems(2) by (auto elim: underE)
    have d: "depth x = Suc (depth (PARENT x))" using depth_parent [OF x(1)] .
    then have "K - depth (PARENT x) = Suc (K - depth x)" using less.prems(1) by simp
    then have "free_search b x (2 ^ (K - depth x)) = free_search b (PARENT x) (2 ^ (K - depth (PARENT x)))"
      using False x(1) by (subst free_search.simps) (simp add: mult.commute)
    moreover have "depth (PARENT x) \<le> K" using d less.prems(1) by simp
    ultimately obtain i where i: "free_search b x (2 ^ (K - depth x)) = Ok (i, 2 ^ (K - depth i))" "under i (PARENT x)" "get_size b i = 0"
      "\<forall>k. under k (PARENT x) \<longrightarrow> above i k \<longrightarrow> get_size b k \<noteq> 0"
      using less.IH [OF PARENT_less [OF x(1)] _ x(2) less.prems(3)] by auto
    have "get_size b k \<noteq> 0" if "under k x" "above i k" for k
      using that i(4) False by (auto elim: underE)
    then show ?thesis using i under.step [OF x(1) i(2)] by blast
  qed
qed

lemma free_search_none:
  assumes "\<And>a. under a x \<Longrightarrow> get_size b a \<noteq> 0"
  shows "free_search b x n = Fail (Panic ''unknow fault in free'')"
  using assms
proof (induction x arbitrary: n rule: less_induct)
  case (less x)
  have "get_size b x \<noteq> 0" by (rule less.prems) (rule under.self)
  moreover have "free_search b (PARENT x) (n * 2) = Fail (Panic ''unknow fault in free'')" if "x \<noteq> 0"
    by (rule less.IH [OF PARENT_less [OF that]]) (rule less.prems, rule under.step [OF that])
  ultimately show ?case by (subst free_search.simps) simp
qed

lemma PARENT_pred: "0 < n \<Longrightarrow> PARENT (n - 1) = n div 2 - 1"
  by (simp add: PARENT_def)

lemma leaf_index_leaf:
  assumes "buddy_shape K b"
  shows "leaf_index b off = leaf_of K off"
proof -
  define m :: nat where "m = 2 ^ (K - 3)"
  have K: "(2::nat) ^ K = 8 * m" "bsize b = 2 ^ K" "0 < m"
    using assms power_add [of "2::nat" 3 "K - 3"] by (simp_all add: m_def buddy_shape_def)
  let ?n = "off + 8 * m"
  have pos: "0 < ?n" "0 < ?n div 2" "0 < ?n div 2 div 2" using K(3) by simp_all
  have "leaf_index b off = ?n div 2 div 2 div 2 - 1"
    unfolding leaf_index_def K(1,2) PARENT_pred [OF pos(1)] PARENT_pred [OF pos(2)] PARENT_pred [OF pos(3)] by (rule refl)
  also have "?n div 2 div 2 div 2 = ?n div 8" by (simp only: div_mult2_eq [symmetric]) simp
  also have "?n div 8 = off div 8 + m" by simp
  finally show ?thesis by (simp add: leaf_of_def m_def)
qed

text \<open>The node of the block is marked as free.\<close>

definition unmark :: "bitmap_buddy \<Rightarrow> nat \<Rightarrow> nat \<Rightarrow> bitmap_buddy" where
  "unmark b i v = (if in_bitmap b i then bitmap_set b i True else byte_node b i v)"

lemma unmark_ok:
  assumes ok: "sizes_ok K b" and i: "depth i \<le> K - 3"
  defines "b1 \<equiv> unmark b i (K - depth i)"
  shows "sizes_ok K b1" "space b1 = space b" "block b1 = block b"
    "\<And>k. depth k \<le> K - 3 \<Longrightarrow> \<not> under k i \<Longrightarrow> get_size b1 k = get_size b k"
    "get_size b1 i = (if depth i = K - 4 then joined K b1 i else K - depth i)"
proof -
  note sh = sizes_okD(1) [OF ok]
  have K: "7 \<le> K" "K \<le> 30" using sizes_okD [OF ok] by blast+
  have sh1: "buddy_shape K b1" using sh by (simp add: b1_def unmark_def)
  consider "depth i < K - 4" | "depth i = K - 4" | "depth i = K - 3" using i by linarith
  then have v: "(\<forall>k. depth k \<le> K - 3 \<longrightarrow> k \<noteq> i \<longrightarrow> (depth i = K - 3 \<longrightarrow> k \<noteq> PARENT i) \<longrightarrow> get_size b1 k = get_size b k)
    \<and> get_size b1 i = (if depth i = K - 4 then joined K b1 i else K - depth i)"
  proof cases
    case 1
    then have "b1 = byte_node b i (K - depth i)" using shape_base(2) [OF sh] by (simp add: b1_def unmark_def)
    then show ?thesis using size_byte_node [OF sh 1, of "K - depth i"] 1 K by simp
  next
    case 2
    then have b1: "b1 = bitmap_set b i True" using shape_base(2) [OF sh] by (simp add: b1_def unmark_def)
    have "lv b1 i = lv b i" "rv b1 i = rv b i" using size_set_16 [OF sh 2] 2 K by (simp_all add: b1)
    then have "joined K b1 i = joined K b i" by (simp add: joined_def)
    then show ?thesis using size_set_16 [OF sh 2] joined_16 [OF sh 2] 2 by (simp add: b1)
  next
    case 3
    then have b1: "b1 = bitmap_set b i True" using shape_base(2) [OF sh] by (simp add: b1_def unmark_def)
    have "i \<noteq> PARENT i" using 3 K PARENT_less [of i] by (cases "i = 0") auto
    moreover have "K - 3 \<noteq> K - 4" using K by simp
    ultimately show ?thesis using size_set_8 [OF sh 3] 3 K by (simp add: b1)
  qed
  show "get_size b1 i = (if depth i = K - 4 then joined K b1 i else K - depth i)" using v by blast
  show "get_size b1 k = get_size b k" if "depth k \<le> K - 3" "\<not> under k i" for k
  proof -
    have "k \<noteq> i" using that(2) under.self by auto
    moreover have "k \<noteq> PARENT i" if "depth i = K - 3"
    proof -
      have "i \<noteq> 0" using that K by (intro notI) simp
      then show ?thesis using \<open>\<not> under k i\<close> under.step under.self by auto
    qed
    ultimately show ?thesis using v that(1) by blast
  qed
  have "get_size b1 k \<le> K - depth k" if k: "depth k \<le> K - 3" for k
  proof -
    consider "depth k = K - 4" | "depth k = K - 3" | "depth k < K - 4" using k by linarith
    then show ?thesis
    proof cases
      case 3
      then show ?thesis
      proof (cases "k = i")
        case False
        have "depth i = K - 3 \<longrightarrow> k \<noteq> PARENT i" using 3 K depth_parent [of i] by (cases "i = 0") auto
        then show ?thesis using v False k sizes_okD(2) [OF ok k] by simp
      qed (use v 3 in simp)
    qed (use size_16 [OF sh1] size_8 [OF sh1] K in simp_all)
  qed
  then show "sizes_ok K b1" using sh1 by (simp add: sizes_ok_def)
  show "space b1 = space b" "block b1 = block b" by (simp_all add: b1_def unmark_def)
qed

lemma sizes_ok_block [simp]: "sizes_ok K (b\<lparr>block := x\<rparr>) \<longleftrightarrow> sizes_ok K b" "joined K (b\<lparr>block := x\<rparr>) k = joined K b k"
  by (simp_all add: sizes_ok_def joined_def buddy_shape_def)

lemma buddy_free_ok:
  assumes ok: "sizes_ok K b" and fr: "\<not> block b" and p: "p \<noteq> 0" and off: "unat (p - space b) < 2 ^ K"
    and a: "under a (leaf_of K (unat (p - space b)))" "get_size b a = 0"
  shows "\<exists>i b'. buddy_free b p = Ok b' \<and> sizes_ok K b' \<and> \<not> block b' \<and> space b' = space b
    \<and> under i (leaf_of K (unat (p - space b))) \<and> get_size b i = 0
    \<and> (\<forall>k. under k (leaf_of K (unat (p - space b))) \<longrightarrow> above i k \<longrightarrow> get_size b k \<noteq> 0)
    \<and> (\<forall>k. depth k \<le> K - 3 \<longrightarrow> \<not> under k i \<longrightarrow> get_size b' k = get_size b k)
    \<and> get_size b' i = (if depth i = K - 4 then joined K b' i else K - depth i)
    \<and> (\<forall>k. above k i \<longrightarrow> get_size b' k = joined K b' k)"
proof -
  let ?x = "leaf_of K (unat (p - space b))" and ?b0 = "b\<lparr>block := True\<rparr>"
  note sh = sizes_okD(1) [OF ok]
  have K: "7 \<le> K" using sizes_okD [OF ok] by blast
  have dx: "depth ?x = K - 3" using leaf_of_depth [OF off] K by simp
  have "(2::nat) ^ (K - depth ?x) = 8" using dx K by simp
  then obtain i where i: "free_search ?b0 ?x 8 = Ok (i, 2 ^ (K - depth i))" "under i ?x" "get_size b i = 0"
    "\<forall>k. under k ?x \<longrightarrow> above i k \<longrightarrow> get_size b k \<noteq> 0"
    using free_search_ok [of ?x K a ?b0] a dx by auto
  have di: "depth i \<le> K - 3" using under_depth [OF i(2)] dx by simp
  define b1 where "b1 = unmark ?b0 i (K - depth i)"
  have ok0: "sizes_ok K ?b0" using ok by simp
  note u = unmark_ok [OF ok0 di, folded b1_def]
  obtain b2 where b2: "free_update b1 i (2 ^ (K - depth i)) = b2" "sizes_ok K b2" "space b2 = space b1" "block b2 = block b1"
    and keep: "\<And>k. depth k \<le> K - 3 \<Longrightarrow> \<not> above k i \<Longrightarrow> get_size b2 k = get_size b1 k"
    and up: "\<And>k. above k i \<Longrightarrow> get_size b2 k = joined K b2 k"
    using free_update_ok [OF u(1) di] by blast
  have run: "buddy_free b p = Ok (b2\<lparr>block := False\<rparr>)"
  proof -
    have "buddy_shape K ?b0" using sizes_okD(1) [OF ok0] .
    then have "leaf_index ?b0 (unat (p - space b)) = ?x" by (rule leaf_index_leaf)
    moreover have "bsize b = 2 ^ K" using sh by (simp add: buddy_shape_def)
    moreover have "block b2" using b2(4) u(3) by simp
    ultimately show ?thesis
      using p off fr i(1) b2(1) unfolding b1_def unmark_def
      by (cases "in_bitmap ?b0 i") (simp_all add: buddy_free_def lock_acquire_def lock_release_def kassert_def Let_def del: bind_res_eq_Ok)
  qed
  have ch: "lv b2 i = lv b1 i" "rv b2 i = rv b1 i" if "depth i = K - 4"
  proof -
    have "Suc (K - 4) = K - 3" using K by simp
    then show "lv b2 i = lv b1 i" "rv b2 i = rv b1 i"
      using keep [of "LEFT_LEAF i"] keep [of "RIGHT_LEAF i"] above_depth [of "LEFT_LEAF i" i] above_depth [of "RIGHT_LEAF i" i] that by auto
  qed
  have at: "get_size b2 i = (if depth i = K - 4 then joined K b2 i else K - depth i)"
    using keep [OF di] u(5) ch by (simp add: joined_def)
  have "get_size b2 k = get_size b k" if "depth k \<le> K - 3" "\<not> under k i" for k
    using that keep u(4) by (simp add: under_above)
  then show ?thesis using run b2 u(2) i at up
    by (intro exI [of _ i] exI [of _ "b2\<lparr>block := False\<rparr>"]) simp
qed

lemma buddy_free_unknown:
  assumes ok: "sizes_ok K b" and fr: "\<not> block b" and p: "p \<noteq> 0" and off: "unat (p - space b) < 2 ^ K"
    and a: "\<forall>a. under a (leaf_of K (unat (p - space b))) \<longrightarrow> get_size b a \<noteq> 0"
  shows "buddy_free b p = Fail (Panic ''unknow fault in free'')"
proof -
  have "buddy_shape K (b\<lparr>block := True\<rparr>)" "bsize b = 2 ^ K" using sizes_okD(1) [OF ok] by (simp_all add: buddy_shape_def)
  then show ?thesis
    using p off fr a free_search_none [of "leaf_of K (unat (p - space b))" "b\<lparr>block := True\<rparr>" 8] leaf_index_leaf [of K "b\<lparr>block := True\<rparr>"]
    by (simp add: buddy_free_def lock_acquire_def kassert_def Let_def)
qed

section \<open>buddy\_new\<close>

lemma level_start:
  assumes "i + 1 < 2 ^ 32"
  shows "IS_POWER_OF_2 (of_nat (i + 1)) \<longleftrightarrow> i + 1 = 2 ^ depth i"
proof -
  have "unat (of_nat k :: u32) = k" if "k < 2 ^ 32" for k using that by (simp add: unat_of_nat take_bit_nat_eq_self)
  then have u: "unat (of_nat (i + 1) :: u32) = i + 1" using assms by blast
  have nz: "(of_nat (i + 1) :: u32) \<noteq> 0"
  proof
    assume "(of_nat (i + 1) :: u32) = 0"
    then show False using u by (metis Suc_eq_plus1 nat.distinct(1) unsigned_0)
  qed
  show ?thesis
  proof
    assume "IS_POWER_OF_2 (of_nat (i + 1))"
    then obtain n where n: "i + 1 = 2 ^ n" using power_of_2 [OF _ nz] u by auto
    have "2 ^ depth i \<le> (2::nat) ^ n" "(2::nat) ^ n < 2 ^ Suc (depth i)" using depth_bounds [of i] n by simp_all
    then have "depth i \<le> n" "n < Suc (depth i)" by (simp_all only: power_increasing_iff power_strict_increasing_iff one_less_numeral_iff semiring_norm)
    then show "i + 1 = 2 ^ depth i" using n by simp
  next
    assume "i + 1 = 2 ^ depth i"
    then show "IS_POWER_OF_2 (of_nat (i + 1))" using power_of_2_conv [of "of_nat (i + 1)" "depth i"] u by simp
  qed
qed

text \<open>The level only grows at a power of two.\<close>

lemma depth_pred:
  assumes "0 < i"
  shows "depth i = (if i + 1 = 2 ^ depth i then Suc (depth (i - 1)) else depth (i - 1))"
proof -
  note b = depth_bounds [of i] and b' = depth_bounds [of "i - 1"]
  show ?thesis
  proof (cases "i + 1 = 2 ^ depth i")
    case True
    have d: "depth i \<noteq> 0" using True assms by (cases "depth i") auto
    then have "2 ^ depth i = 2 * (2::nat) ^ (depth i - 1)" by (metis Suc_pred' bot_nat_0.not_eq_extremum power_Suc)
    then have "\<not> i - 1 + 1 < 2 ^ (depth i - 1)" "i - 1 + 1 < 2 ^ depth i" using True assms by linarith+
    then have "\<not> depth (i - 1) < depth i - 1" "depth (i - 1) < depth i" unfolding depth_le_iff .
    then show ?thesis using True d by simp
  next
    case False
    then have "\<not> i - 1 + 1 < 2 ^ depth i" "i - 1 + 1 < 2 ^ Suc (depth i)" using b assms by simp_all
    then have "\<not> depth (i - 1) < depth i" "depth (i - 1) < Suc (depth i)" unfolding depth_le_iff .
    then show ?thesis using False by simp
  qed
qed

lemma new_loop_ok:
  assumes K: "7 \<le> K" "K \<le> 30"
  shows "i \<le> bit_base K \<Longrightarrow> bit_base K < length t \<Longrightarrow>
    node_size = (if i = 0 then 2 ^ (K + 1) else 2 ^ (K - depth (i - 1))) \<Longrightarrow>
    (\<forall>k < i. t ! k = of_nat (K - depth k)) \<Longrightarrow>
    \<exists>t'. new_loop (2 ^ K) i node_size t = (bit_base K, t') \<and> length t' = length t
      \<and> (\<forall>k < bit_base K. t' ! k = of_nat (K - depth k))"
proof (induction "bit_base K - i" arbitrary: i node_size t)
  case 0
  then have i: "i = bit_base K" by simp
  have b1: "bit_base K + 1 = 2 ^ (K - 4)" by (simp add: bit_base_def)
  have d: "depth i = K - 4"
  proof -
    have "\<not> depth i < K - 4" "depth i < Suc (K - 4)" using b1 i unfolding depth_le_iff by simp_all
    then show ?thesis by simp
  qed
  have "(8::nat) \<le> 2 ^ (K - 4)" using power_increasing [of 3 "K - 4" "2::nat"] K by simp
  then have i0: "0 < i" using i b1 by simp
  have lt: "(2::nat) ^ (K - 4) < 2 ^ 32" using K by (intro power_strict_increasing) simp_all
  have "depth (i - 1) = K - 5" using depth_pred [OF i0] d b1 i K by simp
  then have "K - depth (i - 1) = 5" using K by simp
  then have "node_size div 2 = 16" using 0(4) i0 by simp
  moreover have "IS_POWER_OF_2 (of_nat (i + 1))" using level_start [of i] lt b1 i d by (simp del: of_nat_add of_nat_Suc)
  moreover have "i < 2 * 2 ^ K - 1"
  proof -
    have "(2::nat) ^ (K - 4) \<le> 2 ^ K" by (intro power_increasing) simp_all
    then show ?thesis using i b1 by linarith
  qed
  ultimately have "new_loop (2 ^ K) i node_size t = (i, t)" by (subst new_loop.simps) simp
  then show ?case using 0(5) i by simp
next
  case (Suc n)
  then have i: "i < bit_base K" by simp
  have di: "depth i < K - 4" using i base_iff by blast
  have b1: "bit_base K + 1 = 2 ^ (K - 4)" by (simp add: bit_base_def)
  have lt: "(2::nat) ^ (K - 4) < 2 ^ 32" using K by (intro power_strict_increasing) simp_all
  have pw: "IS_POWER_OF_2 (of_nat (i + 1)) \<longleftrightarrow> i + 1 = 2 ^ depth i" using level_start [of i] lt b1 i by simp
  define ns where "ns = (2::nat) ^ (K - depth i)"
  have half: "node_size div 2 = ns" if "i + 1 = 2 ^ depth i"
  proof (cases "i = 0")
    case True
    then show ?thesis using Suc.prems(3) by (simp add: ns_def)
  next
    case False
    then have "depth i = Suc (depth (i - 1))" using depth_pred [of i] that by simp
    then have "K - depth (i - 1) = Suc (K - depth i)" using di by simp
    then show ?thesis using Suc.prems(3) False by (simp add: ns_def)
  qed
  have same: "node_size = ns" if "i + 1 \<noteq> 2 ^ depth i"
  proof -
    have i0: "i \<noteq> 0" using that by (intro notI) simp
    then show ?thesis using that depth_pred [of i] Suc.prems(3) by (simp add: ns_def)
  qed
  have n16: "ns \<noteq> 16"
  proof
    assume "ns = 16"
    then have "(2::nat) ^ (K - depth i) = 2 ^ 4" by (simp add: ns_def)
    then have "K - depth i = 4" by (metis power_inject_exp one_less_numeral_iff semiring_norm(76))
    then show False using di by simp
  qed
  have klog: "klog2 ns = K - depth i" by (simp add: ns_def)
  have "i < 2 * 2 ^ K - 1"
  proof -
    have "(2::nat) ^ (K - 4) \<le> 2 ^ K" by (intro power_increasing) simp_all
    then show ?thesis using i b1 by linarith
  qed
  then have run: "new_loop (2 ^ K) i node_size t = new_loop (2 ^ K) (i + 1) ns (t[i := of_nat (K - depth i)])"
    using pw half same n16 klog by (subst new_loop.simps) (auto simp: Let_def)
  have "\<exists>t'. new_loop (2 ^ K) (i + 1) ns (t[i := of_nat (K - depth i)]) = (bit_base K, t')
      \<and> length t' = length (t[i := of_nat (K - depth i)]) \<and> (\<forall>k < bit_base K. t' ! k = of_nat (K - depth k))"
    using Suc.hyps(2) i Suc.prems(2,4) by (intro Suc.hyps(1)) (auto simp: ns_def nth_list_update less_Suc_eq)
  then show ?case using run by simp
qed

lemma fresh_tree:
  assumes sh: "buddy_shape K b" and bytes: "\<And>k. k < bit_base K \<Longrightarrow> bbt b ! k = of_nat (K - depth k)"
    and bits: "\<And>k. k < 3 * 2 ^ (K - 7) \<Longrightarrow> bbt b ! (bit_base K + k) = 0xff"
  shows "tree_ok K b" and "free_bytes K b = {..<2 ^ K}"
proof -
  have K: "7 \<le> K" "K \<le> 30" using shape_K sh by blast+
  have test: "bitmap_scan_test b i" if i: "K - 4 \<le> depth i" "depth i \<le> K - 3" for i
  proof -
    define t where "t = K - 7"
    have "K - 4 = t + 3" "K - 2 = t + 5" using K by (simp_all add: t_def)
    then have p: "(2::nat) ^ (K - 4) = 8 * 2 ^ (K - 7)" "(2::nat) ^ (K - 2) = 32 * 2 ^ (K - 7)"
      unfolding t_def [symmetric] by (simp_all add: power_add)
    have "depth i < K - 2" using i K by simp
    then have "i + 1 < 32 * 2 ^ (K - 7)" using depth_le_iff [of i "K - 2"] p by simp
    then have "i - bit_base K < 24 * 2 ^ (K - 7)" using bit_pos(2) [OF sh i] p unfolding bit_base_def by linarith
    then have "(i - bit_base K) div 8 < 3 * 2 ^ (K - 7)" by (simp add: div_less_iff_less_mult mult.commute)
    then have "bbt b ! (bit_base K + (i - bit_base K) div 8) = 0xff" by (rule bits)
    moreover have "bit (0xff :: u8) (i mod 8)"
    proof -
      have "(0xff :: u8) = mask 8" by (simp add: mask_eq_exp_minus_1)
      then show ?thesis unfolding \<open>(0xff :: u8) = mask 8\<close> bit_mask_iff by simp
    qed
    ultimately show ?thesis using shape_base(1) [OF sh] by (simp add: bitmap_scan_test_def Let_def)
  qed
  have v: "get_size b i = K - depth i" if d: "depth i \<le> K - 3" for i
  proof -
    consider "depth i < K - 4" | "depth i = K - 4" | "depth i = K - 3" using d by linarith
    then show ?thesis
    proof cases
      case 1
      then have "get_size b i = unat (of_nat (K - depth i) :: u8)" using size_byte [OF sh 1] bytes base_iff by simp
      also have "\<dots> = K - depth i" using K by (simp add: unat_of_nat take_bit_nat_eq_self)
      finally show ?thesis .
    next
      case 2
      then show ?thesis using size_16 [OF sh 2] test [of i] test [of "LEFT_LEAF i"] test [of "RIGHT_LEAF i"] K by simp
    next
      case 3
      then show ?thesis using size_8 [OF sh 3] test [of i] K by simp
    qed
  qed
  have "node_ok K b i" if "depth i < K - 3" for i using that by (simp add: node_ok_def v)
  then show "tree_ok K b" using sh v by (simp add: tree_ok_def)
  have "free_leaf K b (leaf_of K x)" if "x < 2 ^ K" for x
  proof -
    have d: "depth (leaf_of K x) = K - 3" using leaf_of_depth [OF that] K by simp
    have "get_size b a \<noteq> 0" if "under a (leaf_of K x)" for a
      using v [of a] under_depth [OF that] d K by simp
    then show ?thesis using d by (simp add: free_leaf_def)
  qed
  then show "free_bytes K b = {..<2 ^ K}" by (auto simp: free_bytes_def)
qed

lemma buddy_new_ok:
  assumes K: "7 \<le> K" "K \<le> 30" and len: "bit_base K + 3 * 2 ^ (K - 7) \<le> length t"
  shows "\<exists>b. buddy_new (2 ^ K) t = Some b \<and> tree_ok K b \<and> \<not> block b \<and> free_bytes K b = {..<2 ^ K}"
proof -
  have u: "unat (2 ^ K :: u32) = 2 ^ K" using K by (intro unat_two_power) simp
  have s: "sint (2 ^ K :: u32) = 2 ^ K"
  proof -
    have "(2::int) ^ K < 2 ^ 31" using K by (intro power_strict_increasing) simp_all
    moreover have "uint (2 ^ K :: u32) = 2 ^ K" using u by (metis of_nat_numeral of_nat_power uint_nat)
    moreover have "- ((2::int) ^ 31) \<le> 2 ^ K" by (rule order_trans [of _ 0]) simp_all
    ultimately show ?thesis using signed_take_bit_int_eq_self [of 31 "2 ^ K"] by (simp only: sint_uint) simp
  qed
  have b0: "bit_base K < length t"
  proof -
    have "(0::nat) < 3 * 2 ^ (K - 7)" by simp
    then show ?thesis using len by linarith
  qed
  obtain t' where t': "new_loop (2 ^ K) 0 (2 * 2 ^ K) t = (bit_base K, t')" "length t' = length t"
    "\<forall>k < bit_base K. t' ! k = of_nat (K - depth k)"
    using new_loop_ok [OF K, of 0 t "2 * 2 ^ K"] b0 by auto
  define q where "q = K - 7"
  have bits: "((2::nat) ^ K div 8 + 2 ^ K div 16) div 8 = 3 * 2 ^ (K - 7)"
  proof -
    have "K = q + 7" using K by (simp add: q_def)
    then show ?thesis unfolding q_def [symmetric] by (simp add: power_add)
  qed
  define b where "b = \<lparr>block = False, space = 0, bsize = 2 ^ K, min_alloc_size = 8,
     bbt = take (bit_base K) t' @ replicate (3 * 2 ^ (K - 7)) 0xff @ drop (bit_base K + 3 * 2 ^ (K - 7)) t'\<rparr>"
  have "IS_POWER_OF_2 (2 ^ K)" using power_of_2_conv [OF u] .
  then have "buddy_new (2 ^ K) t = Some b"
    using s u t'(1) bits one_le_power [of "2::int" K] by (simp add: buddy_new_def Let_def b_def not_less [symmetric])
  moreover have sh: "buddy_shape K b" using K len t'(2) by (simp add: buddy_shape_def b_def)
  moreover have "bbt b ! k = of_nat (K - depth k)" if "k < bit_base K" for k
    using that t'(2,3) b0 by (simp add: b_def nth_append)
  moreover have "bbt b ! (bit_base K + k) = 0xff" if "k < 3 * 2 ^ (K - 7)" for k
    using that t'(2) b0 by (simp add: b_def nth_append)
  ultimately show ?thesis using fresh_tree [OF sh] by (auto simp: b_def)
qed

section \<open>What clients rely on\<close>

text \<open>
  A client only needs that a block handed out consists of cells that were free and no
  longer are: then the blocks of any sequence of requests are disjoint.
\<close>

fun alloc_seq :: "('s \<Rightarrow> 'r \<Rightarrow> (nat set \<times> 's) option) \<Rightarrow> 's \<Rightarrow> 'r list \<Rightarrow> (nat set list \<times> 's) option" where
  "alloc_seq al s [] = Some ([], s)"
| "alloc_seq al s (r # rs) = (case al s r of None \<Rightarrow> None
     | Some (B, s') \<Rightarrow> (case alloc_seq al s' rs of None \<Rightarrow> None | Some (Bs, t) \<Rightarrow> Some (B # Bs, t)))"

locale block_heap =
  fixes al :: "'s \<Rightarrow> 'r \<Rightarrow> (nat set \<times> 's) option"
    and invar :: "'s \<Rightarrow> bool"
    and free :: "'s \<Rightarrow> nat set"
    and request :: "'r \<Rightarrow> bool"
  assumes al_block: "invar s \<Longrightarrow> request r \<Longrightarrow> al s r = Some (B, s') \<Longrightarrow> invar s' \<and> B \<subseteq> free s \<and> free s' = free s - B"
begin

lemma seq_free:
  assumes "invar s" "\<forall>r \<in> set rs. request r" "alloc_seq al s rs = Some (Bs, t)"
  shows "invar t \<and> \<Union> (set Bs) \<subseteq> free s \<and> free t = free s - \<Union> (set Bs)"
  using assms
proof (induction rs arbitrary: s Bs)
  case (Cons r rs)
  obtain B s' Bs' where s: "al s r = Some (B, s')" "alloc_seq al s' rs = Some (Bs', t)" "Bs = B # Bs'"
    using Cons.prems by (auto split: option.splits)
  have a: "invar s'" "B \<subseteq> free s" "free s' = free s - B" using al_block [OF _ _ s(1)] Cons.prems by auto
  then have "invar t \<and> \<Union> (set Bs') \<subseteq> free s' \<and> free t = free s' - \<Union> (set Bs')"
    using Cons.IH [OF a(1) _ s(2)] Cons.prems by simp
  then show ?case using a s(3) by auto
qed simp

lemma seq_disjoint:
  assumes "invar s" "\<forall>r \<in> set rs. request r" "alloc_seq al s rs = Some (Bs, t)"
  shows "\<forall>i j. i < j \<longrightarrow> j < length Bs \<longrightarrow> Bs ! i \<inter> Bs ! j = {}"
  using assms
proof (induction rs arbitrary: s Bs)
  case (Cons r rs)
  obtain B s' Bs' where s: "al s r = Some (B, s')" "alloc_seq al s' rs = Some (Bs', t)" "Bs = B # Bs'"
    using Cons.prems by (auto split: option.splits)
  have f: "invar s'" "free s' = free s - B" using al_block [OF _ _ s(1)] Cons.prems by auto
  have "\<Union> (set Bs') \<subseteq> free s - B" using seq_free [OF f(1) _ s(2)] f(2) Cons.prems by auto
  then have d: "B \<inter> Bs' ! k = {}" if "k < length Bs'" for k using nth_mem [OF that] by fast
  have IH: "\<forall>i j. i < j \<longrightarrow> j < length Bs' \<longrightarrow> Bs' ! i \<inter> Bs' ! j = {}"
    using Cons.IH [OF f(1) _ s(2)] Cons.prems by auto
  show ?case
  proof (intro allI impI)
    fix i j assume "i < j" "j < length Bs"
    then show "Bs ! i \<inter> Bs ! j = {}" using d IH s(3) by (cases i; cases j) auto
  qed
qed simp

end

text \<open>
  An allocation as the client sees it: a null pointer or a panic is no block, otherwise the
  block is the set of its offsets in the heap. The heap lies in memory without wrapping
  around and not at address zero.
\<close>

definition heap_alloc :: "bitmap_buddy \<times> mem \<Rightarrow> u32 \<Rightarrow> (nat set \<times> (bitmap_buddy \<times> mem)) option" where
  "heap_alloc s sz = (case buddy_alloc (fst s) (snd s) sz of
       Some (Ok (p, b', m')) \<Rightarrow>
         if p = 0 then None
         else Some ({unat (p - space (fst s)) ..< unat (p - space (fst s)) + unat (round_request sz)}, (b', m'))
     | _ \<Rightarrow> None)"

definition heap_inv :: "nat \<Rightarrow> bitmap_buddy \<times> mem \<Rightarrow> bool" where
  "heap_inv K s \<longleftrightarrow> tree_ok K (fst s) \<and> \<not> block (fst s)"

lemma heap_alloc_block:
  assumes inv: "heap_inv K s" and sz: "unat sz \<le> 2 ^ 31" and al: "heap_alloc s sz = Some (B, s')"
  shows "heap_inv K s' \<and> B \<subseteq> free_bytes K (fst s) \<and> free_bytes K (fst s') = free_bytes K (fst s) - B"
proof -
  have ok: "tree_ok K (fst s)" "\<not> block (fst s)" using inv by (simp_all add: heap_inv_def)
  obtain c where c: "3 \<le> c" "unat (round_request sz) = 2 ^ c" using round_request_ok [OF sz] by blast
  show ?thesis
  proof (cases "c \<le> get_size (fst s) 0")
    case False
    then have "heap_alloc s sz = None"
      using buddy_alloc_none [OF ok c(2), of "snd s"] by (simp add: heap_alloc_def)
    then show ?thesis using al by simp
  next
    case True
    obtain off b' m' where b: "buddy_alloc (fst s) (snd s) sz = Some (Ok (space (fst s) + of_nat off, b', m'))"
      "tree_ok K b'" "\<not> block b'" "off + 2 ^ c \<le> 2 ^ K" "{off..<off + 2 ^ c} \<subseteq> free_bytes K (fst s)"
      "free_bytes K b' = free_bytes K (fst s) - {off..<off + 2 ^ c}"
      using buddy_alloc_ok [OF ok c(2,1) True, of "snd s"] by blast
    have "(2::nat) ^ K \<le> 2 ^ 30" using shape_K(2) [OF tree_okD(1) [OF ok(1)]] by (intro power_increasing) simp_all
    then have "off < 2 ^ 64" using b(4) by simp
    then have "unat (of_nat off :: u64) = off" by (simp add: unat_of_nat take_bit_nat_eq_self)
    then have "B = {off..<off + 2 ^ c}" "s' = (b', m')"
      using al b(1) c(2) by (auto simp: heap_alloc_def split: if_splits)
    then show ?thesis using b by (simp add: heap_inv_def)
  qed
qed

interpretation bh: block_heap heap_alloc "heap_inv K" "\<lambda>s. free_bytes K (fst s)" "\<lambda>sz. unat sz \<le> 2 ^ 31" for K
  by unfold_locales (rule heap_alloc_block)

section \<open>Properties\<close>

text \<open>C11: on a heap whose tree is consistent and whose lock is free, a request of at most
  \<open>2^31\<close> bytes is rounded up to a power of two of at least eight and less than twice the
  request. If the root says that much is free, \<^verbatim>\<open>buddy_alloc\<close> returns a block of that size that is
  aligned to it, lies inside the heap and was free; it fills the block with zeros and
  changes no other memory, removes exactly these cells from the free ones, keeps the tree
  consistent and releases the lock. Otherwise it returns the null pointer, and the lock is
  still held.\<close>

theorem buddy_alloc_contract:
  assumes "tree_ok K b" and "\<not> block b" and "unat sz \<le> 2 ^ 31"
  shows "\<exists>c. 3 \<le> c \<and> unat sz \<le> 2 ^ c \<and> (8 < unat sz \<longrightarrow> 2 ^ c < 2 * unat sz) \<and>
    (if c \<le> get_size b 0
     then \<exists>off b'. buddy_alloc b m sz
            = Some (Ok (space b + of_nat off, b', wbytes m (space b + of_nat off) (replicate (2 ^ c) 0)))
          \<and> tree_ok K b' \<and> \<not> block b' \<and> space b' = space b \<and> 2 ^ c dvd off \<and> off + 2 ^ c \<le> 2 ^ K
          \<and> {off..<off + 2 ^ c} \<subseteq> free_bytes K b \<and> free_bytes K b' = free_bytes K b - {off..<off + 2 ^ c}
     else buddy_alloc b m sz = Some (Ok (0, b\<lparr>block := True\<rparr>, m)))"
proof -
  obtain c where c: "3 \<le> c" "unat (round_request sz) = 2 ^ c" "unat sz \<le> 2 ^ c" "8 < unat sz \<longrightarrow> 2 ^ c < 2 * unat sz"
    using round_request_ok [OF assms(3)] by blast
  have "if c \<le> get_size b 0
     then \<exists>off b'. buddy_alloc b m sz
            = Some (Ok (space b + of_nat off, b', wbytes m (space b + of_nat off) (replicate (2 ^ c) 0)))
          \<and> tree_ok K b' \<and> \<not> block b' \<and> space b' = space b \<and> 2 ^ c dvd off \<and> off + 2 ^ c \<le> 2 ^ K
          \<and> {off..<off + 2 ^ c} \<subseteq> free_bytes K b \<and> free_bytes K b' = free_bytes K b - {off..<off + 2 ^ c}
     else buddy_alloc b m sz = Some (Ok (0, b\<lparr>block := True\<rparr>, m))"
    using buddy_alloc_ok [OF assms(1,2) c(2,1)] buddy_alloc_none [OF assms(1,2) c(2)] by (cases "c \<le> get_size b 0") auto
  then show ?thesis using c by blast
qed

text \<open>A small heap: 128 bytes at address 4096.\<close>

definition small_heap :: bitmap_buddy where
  "small_heap = (case buddy_new 128 (replicate 10 0) of Some b \<Rightarrow> b\<lparr>space := 0x1000\<rparr>)"

lemma tree_ok_space [simp]: "tree_ok K (b\<lparr>space := x\<rparr>) \<longleftrightarrow> tree_ok K b" "free_bytes K (b\<lparr>space := x\<rparr>) = free_bytes K b"
proof -
  have "bitmap_scan_test (b\<lparr>space := x\<rparr>) = bitmap_scan_test b" "in_bitmap (b\<lparr>space := x\<rparr>) = in_bitmap b"
    by (rule ext; simp add: bitmap_scan_test_def in_bitmap_def)+
  then have g: "get_size (b\<lparr>space := x\<rparr>) i = get_size b i" for i by (simp add: get_size_def Let_def)
  then show "tree_ok K (b\<lparr>space := x\<rparr>) \<longleftrightarrow> tree_ok K b" "free_bytes K (b\<lparr>space := x\<rparr>) = free_bytes K b"
    by (simp_all add: tree_ok_def node_ok_def buddy_shape_def free_bytes_def free_leaf_def)
qed

lemma small_heap_ok: "tree_ok 7 small_heap" "\<not> block small_heap" "free_bytes 7 small_heap = {..<128}" "space small_heap = 0x1000"
proof -
  have "bit_base 7 + 3 * 2 ^ (7 - 7) \<le> length (replicate 10 (0::u8))" by (simp add: bit_base_def)
  then obtain b where b: "buddy_new (2 ^ 7) (replicate 10 0) = Some b" "tree_ok 7 b" "\<not> block b" "free_bytes 7 b = {..<2 ^ 7}"
    using buddy_new_ok [of 7 "replicate 10 0"] by auto
  then have sm: "small_heap = b\<lparr>space := 0x1000\<rparr>" unfolding small_heap_def by simp
  show "tree_ok 7 small_heap" "\<not> block small_heap" "free_bytes 7 small_heap = {..<128}" "space small_heap = 0x1000" unfolding sm using b by simp_all
qed

text \<open>A run of calls on the small heap: allocations with their results, and frees.\<close>

datatype heap_call = Alloc u32 | Free u64

fun heap_run :: "bitmap_buddy \<Rightarrow> mem \<Rightarrow> heap_call list \<Rightarrow> (u64 list \<times> bitmap_buddy) option" where
  "heap_run b m [] = Some ([], b)"
| "heap_run b m (Alloc sz # cs) = (case buddy_alloc b m sz of
      Some (Ok (p, b', m')) \<Rightarrow> (case heap_run b' m' cs of None \<Rightarrow> None | Some (ps, t) \<Rightarrow> Some (p # ps, t))
    | _ \<Rightarrow> None)"
| "heap_run b m (Free p # cs) = (case buddy_free b p of Ok b' \<Rightarrow> heap_run b' m cs | Fail e \<Rightarrow> None)"

text \<open>C12: from initialisation on, the blocks that any sequence of successful requests of at
  most \<open>2^31\<close> bytes returns lie in the heap and are pairwise disjoint.\<close>

theorem buddy_allocs_disjoint:
  assumes "7 \<le> K" and "K \<le> 30" and "bit_base K + 3 * 2 ^ (K - 7) \<le> length t"
    and "buddy_new (2 ^ K) t = Some b"
    and "\<forall>sz \<in> set rs. unat sz \<le> 2 ^ 31"
    and "alloc_seq heap_alloc (b\<lparr>space := sp\<rparr>, m) rs = Some (Bs, s)"
  shows "\<Union> (set Bs) \<subseteq> {..<2 ^ K} \<and> (\<forall>i j. i < j \<longrightarrow> j < length Bs \<longrightarrow> Bs ! i \<inter> Bs ! j = {})"
proof -
  have "tree_ok K b" "\<not> block b" and f: "free_bytes K b = {..<2 ^ K}"
    using buddy_new_ok [OF assms(1-3)] assms(4) by auto
  then have inv: "heap_inv K (b\<lparr>space := sp\<rparr>, m)" by (simp add: heap_inv_def)
  show ?thesis using bh.seq_free [OF inv assms(5,6)] bh.seq_disjoint [OF inv assms(5,6)] f by simp
qed

theorem buddy_allocs_disjoint_witness:
  "\<exists>b Bs s. buddy_new (2 ^ 7) (replicate 10 0) = Some b
     \<and> alloc_seq heap_alloc (b\<lparr>space := 0x1000\<rparr>, \<lambda>_. 0) [32, 16] = Some (Bs, s)
     \<and> Bs = [{0..<32}, {32..<48}] \<and> Bs ! 0 \<inter> Bs ! 1 = {}"
proof -
  have len: "bit_base 7 + 3 * 2 ^ (7 - 7) \<le> length (replicate 10 (0::u8))" by (simp add: bit_base_def)
  obtain b where b: "buddy_new (2 ^ 7) (replicate 10 0) = Some b" using buddy_new_ok [OF _ _ len] by auto
  have sm: "small_heap = b\<lparr>space := 0x1000\<rparr>" using b unfolding small_heap_def by simp
  have "map_option fst (alloc_seq heap_alloc (small_heap, \<lambda>_. 0) [32, 16]) = Some [{0..<32}, {32..<48}]"
    by code_simp
  then obtain s where s: "alloc_seq heap_alloc (b\<lparr>space := 0x1000\<rparr>, \<lambda>_. 0) [32, 16] = Some ([{0..<32}, {32..<48}], s)"
    unfolding sm by auto
  have "[{0..<32}, {32..<48}] ! 0 \<inter> [{0..<32}, {32..<48::nat}] ! 1 = {}"
    using buddy_allocs_disjoint [OF _ _ len b _ s] by fastforce
  then show ?thesis using b s by blast
qed

theorem buddy_alloc_contract_witness:
  "tree_ok 7 small_heap \<and> (\<exists>c. 3 \<le> c \<and> 20 \<le> (2::nat) ^ c \<and> (2::nat) ^ c < 40 \<and>
    (if c \<le> get_size small_heap 0
     then \<exists>off b'. buddy_alloc small_heap (\<lambda>_. 1) 20
            = Some (Ok (0x1000 + of_nat off, b', wbytes (\<lambda>_. 1) (0x1000 + of_nat off) (replicate (2 ^ c) 0)))
          \<and> {off..<off + 2 ^ c} \<subseteq> {..<128} \<and> free_bytes 7 b' = {..<128} - {off..<off + 2 ^ c}
     else buddy_alloc small_heap (\<lambda>_. 1) 20 = Some (Ok (0, small_heap\<lparr>block := True\<rparr>, \<lambda>_. 1))))"
  using buddy_alloc_contract [OF small_heap_ok(1,2), of 20 "\<lambda>_. 1"] small_heap_ok(1) unfolding small_heap_ok(3,4)
  by (simp split: if_splits) blast

text \<open>Where the limit of \<open>2^31\<close> comes from: a larger request is rounded to zero.\<close>

lemma round_request_wraps:
  assumes "2 ^ 31 < unat sz"
  shows "round_request sz = 0"
proof -
  have nz: "sz \<noteq> 0" using assms by auto
  obtain n where n: "n < 32" "unat sz < 2 ^ (n + 1)" "bit sz n" "\<forall>i > n. \<not> bit sz i"
    using highest_bit [OF nz] by blast
  have "\<not> n < 31"
  proof
    assume "n < 31"
    then have "(2::nat) ^ (n + 1) \<le> 2 ^ 31" by (intro power_increasing) simp_all
    then show False using n(2) assms by simp
  qed
  then have n31: "n = 31" using n(1) by simp
  have "\<not> IS_POWER_OF_2 sz"
  proof
    assume "IS_POWER_OF_2 sz"
    then obtain k where "k < 32" "unat sz = 2 ^ k" using power_of_2 [OF _ nz] by blast
    then have "unat sz \<le> 2 ^ 31" using power_increasing [of k 31 "2::nat"] by simp
    then show False using assms by simp
  qed
  moreover have "\<not> sz \<le> 8" using assms by (simp add: word_le_nat_alt)
  ultimately show ?thesis using fixsize_eq [OF n(3)] n(4) n31 by (simp add: round_request_def)
qed

text \<open>A block that is freed is not merged with its buddy. On a heap of 128 bytes, after one
  request of 8 bytes and its release, a request of 128 bytes gets the null pointer although
  every byte is free, and the lock stays held: whatever is requested next ends in the
  dead lock panic.\<close>

theorem buddy_free_does_not_merge:
  "map_option fst (heap_run small_heap (\<lambda>_. 0) [Alloc 128]) = Some [0x1000]
   \<and> (\<exists>b. heap_run small_heap (\<lambda>_. 0) [Alloc 8, Free 0x1000, Alloc 128] = Some ([0x1000, 0], b)
         \<and> (\<forall>m sz. buddy_alloc b m sz = Some (Fail (Panic ''dead lock''))))"
proof -
  have "map_option (\<lambda>(ps, b). (ps, block b)) (heap_run small_heap (\<lambda>_. 0) [Alloc 8, Free 0x1000, Alloc 128]) = Some ([0x1000, 0], True)"
    by code_simp
  then obtain b where b: "heap_run small_heap (\<lambda>_. 0) [Alloc 8, Free 0x1000, Alloc 128] = Some ([0x1000, 0], b)" "block b"
    by (auto simp del: heap_run.simps)
  have "buddy_alloc b m sz = Some (Fail (Panic ''dead lock''))" for m sz
    using b(2) by (simp add: buddy_alloc_def lock_acquire_def)
  moreover have "map_option fst (heap_run small_heap (\<lambda>_. 0) [Alloc 128]) = Some [0x1000]" by code_simp
  ultimately show ?thesis using b(1) by blast
qed

text \<open>A concrete run: after six requests and the release of one
  block of 8 bytes, a request of 128 bytes returns the whole heap, while five of the blocks,
  the first one at the same address, are still allocated.\<close>

lemma buddy_hands_out_twice:
  "map_option fst (heap_run small_heap (\<lambda>_. 0)
     [Alloc 32, Alloc 16, Alloc 8, Alloc 8, Alloc 32, Alloc 16, Free 4144, Alloc 128])
   = Some [4096, 4128, 4144, 4152, 4160, 4192, 4096]"
  by code_simp

text \<open>C14: what \<^verbatim>\<open>buddy_free\<close> does to every node of the tree, for every tree in which no node claims more than its
  size, which it keeps, and every address inside the heap. If no node above the cell of the address is marked as taken, it panics. Otherwise
  the lowest such node \<open>i\<close> becomes wholly free, nodes that are neither \<open>i\<close> nor above it keep their value, a node of 16 bytes
  is wholly free exactly if both halves are, and a larger node above \<open>i\<close> becomes wholly free, value \<open>K - depth k\<close>, exactly if the \<^emph>\<open>logarithms\<close> kept in
  its halves add up to its own. Hence above 16 bytes two wholly free halves are never merged, and every node that is
  marked as wholly free has a half that is not: blocks in use are handed out again.\<close>

theorem buddy_free_effect:
  assumes "sizes_ok K b" and "\<not> block b" and "p \<noteq> 0" and "unat (p - space b) < 2 ^ K"
  shows "if \<forall>a. under a (leaf_of K (unat (p - space b))) \<longrightarrow> get_size b a \<noteq> 0
    then buddy_free b p = Fail (Panic ''unknow fault in free'')
    else \<exists>i b'. buddy_free b p = Ok b' \<and> sizes_ok K b' \<and> \<not> block b' \<and> space b' = space b
      \<and> under i (leaf_of K (unat (p - space b))) \<and> get_size b i = 0
      \<and> (\<forall>k. under k (leaf_of K (unat (p - space b))) \<longrightarrow> above i k \<longrightarrow> get_size b k \<noteq> 0)
      \<and> (depth i \<noteq> K - 4 \<longrightarrow> get_size b' i = K - depth i)
      \<and> (\<forall>k. depth k \<le> K - 3 \<longrightarrow> \<not> under k i \<longrightarrow> get_size b' k = get_size b k)
      \<and> (\<forall>k. under k i \<longrightarrow> depth k = K - 4 \<longrightarrow> get_size b' k = (if lv b' k = 3 \<and> rv b' k = 3 then 4 else max (lv b' k) (rv b' k)))
      \<and> (\<forall>k. above k i \<longrightarrow> depth k < K - 4 \<longrightarrow>
          get_size b' k = (if lv b' k + rv b' k = K - depth k then K - depth k else max (lv b' k) (rv b' k))
          \<and> (lv b' k = K - depth k - 1 \<longrightarrow> rv b' k = K - depth k - 1 \<longrightarrow> get_size b' k = K - depth k - 1)
          \<and> (get_size b' k = K - depth k \<longrightarrow> lv b' k < K - depth k - 1 \<or> rv b' k < K - depth k - 1))"
proof (cases "\<forall>a. under a (leaf_of K (unat (p - space b))) \<longrightarrow> get_size b a \<noteq> 0")
  case True
  then show ?thesis using buddy_free_unknown [OF assms] by simp
next
  case False
  then obtain a where a: "under a (leaf_of K (unat (p - space b)))" "get_size b a = 0" by blast
  from buddy_free_ok [OF assms a] obtain i b' where
    b': "buddy_free b p = Ok b'" "sizes_ok K b'" "\<not> block b'" "space b' = space b"
      "under i (leaf_of K (unat (p - space b)))" "get_size b i = 0"
      "\<forall>k. under k (leaf_of K (unat (p - space b))) \<longrightarrow> above i k \<longrightarrow> get_size b k \<noteq> 0"
      "\<forall>k. depth k \<le> K - 3 \<longrightarrow> \<not> under k i \<longrightarrow> get_size b' k = get_size b k"
      "get_size b' i = (if depth i = K - 4 then joined K b' i else K - depth i)"
      "\<forall>k. above k i \<longrightarrow> get_size b' k = joined K b' k"
    by blast
  have 16: "get_size b' k = (if lv b' k = 3 \<and> rv b' k = 3 then 4 else max (lv b' k) (rv b' k))" if "under k i" "depth k = K - 4" for k
    using that b'(9,10) by (auto simp: under_above joined_def)
  have large: "get_size b' k = (if lv b' k + rv b' k = K - depth k then K - depth k else max (lv b' k) (rv b' k))
          \<and> (lv b' k = K - depth k - 1 \<longrightarrow> rv b' k = K - depth k - 1 \<longrightarrow> get_size b' k = K - depth k - 1)
          \<and> (get_size b' k = K - depth k \<longrightarrow> lv b' k < K - depth k - 1 \<or> rv b' k < K - depth k - 1)"
    if "above k i" "depth k < K - 4" for k
  proof -
    have j: "get_size b' k = (if lv b' k + rv b' k = K - depth k then K - depth k else max (lv b' k) (rv b' k))"
      using b'(10) that by (simp add: joined_def)
    have "lv b' k \<le> K - depth k - 1" "rv b' k \<le> K - depth k - 1"
      using sizes_okD(2) [OF b'(2), of "LEFT_LEAF k"] sizes_okD(2) [OF b'(2), of "RIGHT_LEAF k"] that(2) by simp_all
    then show ?thesis using that(2) unfolding j by (auto simp: max_def)
  qed
  have own: "depth i \<noteq> K - 4 \<longrightarrow> get_size b' i = K - depth i" using b'(9) by simp
  show ?thesis unfolding if_not_P [OF False]
    by (rule exI [of _ i], rule exI [of _ b'], intro conjI) ((fact | intro allI impI, rule 16 large, assumption, assumption)+)
qed

text \<open>The state after the six requests; releasing the third block marks the heap as wholly free.\<close>

definition used_heap :: bitmap_buddy where
  "used_heap = (case heap_run small_heap (\<lambda>_. 0) [Alloc 32, Alloc 16, Alloc 8, Alloc 8, Alloc 32, Alloc 16] of Some (ps, b) \<Rightarrow> b)"

lemma used_heap_ok: "sizes_ok 7 used_heap"
proof -
  have "list_all (\<lambda>i. get_size used_heap i \<le> 7 - depth i) [0..<31]" by code_simp
  then have "get_size used_heap i \<le> 7 - depth i" if "depth i \<le> 7 - 3" for i
    using that depth_le_iff [of i 5] by (auto simp: list_all_iff)
  moreover have "buddy_shape 7 used_heap"
    unfolding buddy_shape_def bit_base_def by code_simp
  ultimately show ?thesis by (simp add: sizes_ok_def)
qed

theorem buddy_free_effect_witness:
  "\<exists>b'. buddy_free used_heap 4144 = Ok b' \<and> get_size b' 0 = 7 \<and> (lv b' 0 < 6 \<or> rv b' 0 < 6)"
proof -
  have s: "\<not> block used_heap \<and> space used_heap = 4096" by code_simp
  have u: "(4144 :: u64) \<noteq> 0" "unat (4144 - space used_heap) < 2 ^ 7" using s by simp_all
  have r: "(case buddy_free used_heap 4144 of Ok b' \<Rightarrow> get_size b' 0 = 7 | Fail e \<Rightarrow> False) \<and> get_size used_heap 0 \<noteq> 0" by code_simp
  note e = buddy_free_effect [OF used_heap_ok conjunct1 [OF s] u]
  have "\<not> (\<forall>a. under a (leaf_of 7 (unat (4144 - space used_heap))) \<longrightarrow> get_size used_heap a \<noteq> 0)"
    using e r by (auto split: if_splits)
  with e obtain i b' where b': "buddy_free used_heap 4144 = Ok b'" "get_size used_heap i = 0"
    "\<forall>k. above k i \<longrightarrow> depth k < 7 - 4 \<longrightarrow> get_size b' k = 7 - depth k \<longrightarrow> lv b' k < 7 - depth k - 1 \<or> rv b' k < 7 - depth k - 1"
    by (auto split: if_splits)
  have "i \<noteq> 0" using b'(2) r by metis
  then have "above 0 i" using root_above by blast
  moreover have 7: "get_size b' 0 = 7" using r b'(1) by simp
  ultimately have "lv b' 0 < 6 \<or> rv b' 0 < 6" using b'(3) [rule_format, of 0] by simp
  then show ?thesis using b'(1) 7 by blast
qed

end
