(* ===== verification/Kstring.thy ===== *)
theory Kstring
  imports Phys_Mem
begin

text \<open>
  The string routines of \<^verbatim>\<open>string.c\<close> on memory. Several read eight bytes at a time and
  test them for a zero byte with the word trick \<^verbatim>\<open>HASZERO\<close>; the lemmas show that they
  compute what the plain byte loops do. A loop that runs until it meets a byte is a
  partial function: not returning is \<open>None\<close>.
\<close>

section \<open>Character classes and numbers\<close>

definition isspace :: "u8 \<Rightarrow> bool" where
  "isspace c \<longleftrightarrow> c = 32 \<or> (ucast c :: u32) - 9 < 5"

definition isdigit :: "u8 \<Rightarrow> bool" where
  "isdigit c \<longleftrightarrow> (ucast c :: u32) - 48 < 10"

partial_function (option) skip_space :: "mem \<Rightarrow> u64 \<Rightarrow> u64 option" where
  "skip_space m s = (if isspace (m s) then skip_space m (s + 1) else Some s)"

partial_function (option) atoi_digits :: "mem \<Rightarrow> u64 \<Rightarrow> int \<Rightarrow> int option" where
  "atoi_digits m s n = (if isdigit (m s) then atoi_digits m (s + 1) (10 * n - (uint (m s) - 48)) else Some n)"

definition atoi :: "mem \<Rightarrow> u64 \<Rightarrow> int option" where
  "atoi m s =
     (case skip_space m s of None \<Rightarrow> None
      | Some s \<Rightarrow>
         (let neg = (m s = 45);
              s = (if m s = 45 \<or> m s = 43 then s + 1 else s)
          in case atoi_digits m s 0 of None \<Rightarrow> None
             | Some n \<Rightarrow> Some (if neg then n else - n)))"

section \<open>Comparison and search\<close>

partial_function (option) strcmp :: "mem \<Rightarrow> u64 \<Rightarrow> u64 \<Rightarrow> int option" where
  "strcmp m l r =
     (if m l = m r \<and> m l \<noteq> 0 then strcmp m (l + 1) (r + 1) else Some (uint (m l) - uint (m r)))"

primrec strncmp_loop :: "mem \<Rightarrow> u64 \<Rightarrow> u64 \<Rightarrow> nat \<Rightarrow> int" where
  "strncmp_loop m p q 0 = 0"
| "strncmp_loop m p q (Suc n) =
     (if m p \<noteq> 0 \<and> m p = m q then strncmp_loop m (p + 1) (q + 1) n else uint (m p) - uint (m q))"

definition strncmp :: "mem \<Rightarrow> u64 \<Rightarrow> u64 \<Rightarrow> u32 \<Rightarrow> int" where
  "strncmp m p q n = strncmp_loop m p q (unat n)"

text \<open>The outer \<open>option\<close> is termination, the value 0 the null pointer.\<close>

partial_function (option) strchr :: "mem \<Rightarrow> u64 \<Rightarrow> u8 \<Rightarrow> u64 option" where
  "strchr m s c = (if m s \<noteq> 0 then (if m s = c then Some s else strchr m (s + 1) c) else Some 0)"

section \<open>Word-wise scanning\<close>

definition SS :: u64 where "SS = 8"
definition ONES :: u64 where "ONES = - 1 div 255"
definition HIGHS :: u64 where "HIGHS = ONES * (255 div 2 + 1)"
definition HASZERO :: "u64 \<Rightarrow> bool" where
  "HASZERO x \<longleftrightarrow> (x - ONES) AND NOT x AND HIGHS \<noteq> 0"

text \<open>\<open>Inl\<close> is the early return.\<close>

partial_function (option) strlen_align :: "mem \<Rightarrow> u64 \<Rightarrow> (u64 + u64) option" where
  "strlen_align m s =
     (if s mod SS \<noteq> 0 then (if m s = 0 then Some (Inl s) else strlen_align m (s + 1)) else Some (Inr s))"

partial_function (option) strlen_words :: "mem \<Rightarrow> u64 \<Rightarrow> u64 option" where
  "strlen_words m w = (if \<not> HASZERO (ru64 m w) then strlen_words m (w + SS) else Some w)"

partial_function (option) strlen_bytes :: "mem \<Rightarrow> u64 \<Rightarrow> u64 option" where
  "strlen_bytes m s = (if m s \<noteq> 0 then strlen_bytes m (s + 1) else Some s)"

definition strlen :: "mem \<Rightarrow> u64 \<Rightarrow> u64 option" where
  "strlen m a =
     (case strlen_align m a of None \<Rightarrow> None
      | Some (Inl s) \<Rightarrow> Some (s - a)
      | Some (Inr s) \<Rightarrow>
         (case strlen_words m s of None \<Rightarrow> None
          | Some w \<Rightarrow> (case strlen_bytes m w of None \<Rightarrow> None | Some s \<Rightarrow> Some (s - a))))"

text \<open>The three loops of \<^verbatim>\<open>memchr\<close>; \<open>n\<close> is what is left.\<close>

fun memchr_align :: "mem \<Rightarrow> u64 \<Rightarrow> u8 \<Rightarrow> nat \<Rightarrow> u64 \<times> nat" where
  "memchr_align m s c n =
     (if s AND (SS - 1) \<noteq> 0 \<and> n \<noteq> 0 \<and> m s \<noteq> c then memchr_align m (s + 1) c (n - 1) else (s, n))"

fun memchr_words :: "mem \<Rightarrow> u64 \<Rightarrow> u64 \<Rightarrow> nat \<Rightarrow> u64 \<times> nat" where
  "memchr_words m w k n =
     (if 8 \<le> n \<and> \<not> HASZERO (ru64 m w XOR k) then memchr_words m (w + SS) k (n - 8) else (w, n))"

fun memchr_bytes :: "mem \<Rightarrow> u64 \<Rightarrow> u8 \<Rightarrow> nat \<Rightarrow> u64 \<times> nat" where
  "memchr_bytes m s c n = (if n \<noteq> 0 \<and> m s \<noteq> c then memchr_bytes m (s + 1) c (n - 1) else (s, n))"

declare memchr_align.simps [simp del] memchr_words.simps [simp del] memchr_bytes.simps [simp del]

definition memchr :: "mem \<Rightarrow> u64 \<Rightarrow> u8 \<Rightarrow> u64 \<Rightarrow> u64 option" where
  "memchr m src c n =
     (let (s, l) = memchr_align m src c (unat n);
          (s, l) = (if l \<noteq> 0 \<and> m s \<noteq> c then memchr_words m s (ONES * ucast c) l else (s, l));
          (s, l) = memchr_bytes m s c l
      in if l \<noteq> 0 then Some s else None)"

definition strnlen :: "mem \<Rightarrow> u64 \<Rightarrow> u64 \<Rightarrow> u64" where
  "strnlen m s n = (case memchr m s 0 n of Some p \<Rightarrow> p - s | None \<Rightarrow> n)"

section \<open>Copying strings\<close>

text \<open>\<open>Inl\<close>: the zero was copied, return. \<open>Inr\<close>: go on behind the loop.\<close>

partial_function (option) strcpy_align :: "mem \<Rightarrow> u64 \<Rightarrow> u64 \<Rightarrow> ((u64 \<times> mem) + (u64 \<times> u64 \<times> mem)) option" where
  "strcpy_align m d s =
     (if s mod SS \<noteq> 0
      then (let m' = m(d := m s) in if m' d = 0 then Some (Inl (d, m')) else strcpy_align m' (d + 1) (s + 1))
      else Some (Inr (d, s, m)))"

partial_function (option) strcpy_words :: "mem \<Rightarrow> u64 \<Rightarrow> u64 \<Rightarrow> (u64 \<times> u64 \<times> mem) option" where
  "strcpy_words m wd ws =
     (if \<not> HASZERO (ru64 m ws) then strcpy_words (wu64 m wd (ru64 m ws)) (wd + SS) (ws + SS) else Some (wd, ws, m))"

partial_function (option) strcpy_bytes :: "mem \<Rightarrow> u64 \<Rightarrow> u64 \<Rightarrow> (u64 \<times> mem) option" where
  "strcpy_bytes m d s =
     (let m' = m(d := m s) in if m' d \<noteq> 0 then strcpy_bytes m' (d + 1) (s + 1) else Some (d, m'))"

text \<open>The result is the address of the final zero, not the start of the copy.\<close>

definition strcpy :: "mem \<Rightarrow> u64 \<Rightarrow> u64 \<Rightarrow> (u64 \<times> mem) option" where
  "strcpy m d s =
     (if s mod SS = d mod SS
      then (case strcpy_align m d s of None \<Rightarrow> None
            | Some (Inl r) \<Rightarrow> Some r
            | Some (Inr (d, s, m)) \<Rightarrow>
               (case strcpy_words m d s of None \<Rightarrow> None | Some (d, s, m) \<Rightarrow> strcpy_bytes m d s))
      else strcpy_bytes m d s)"

text \<open>\<^verbatim>\<open>strncpy\<close>: \<open>n\<close> counts down; the rest of the destination is cleared.\<close>

fun strncpy_align :: "mem \<Rightarrow> u64 \<Rightarrow> u64 \<Rightarrow> nat \<Rightarrow> mem \<times> u64 \<times> u64 \<times> nat" where
  "strncpy_align m d s n =
     (if s AND (SS - 1) \<noteq> 0 \<and> n \<noteq> 0
      then (let m' = m(d := m s) in if m' d \<noteq> 0 then strncpy_align m' (d + 1) (s + 1) (n - 1) else (m', d, s, n))
      else (m, d, s, n))"

fun strncpy_words :: "mem \<Rightarrow> u64 \<Rightarrow> u64 \<Rightarrow> nat \<Rightarrow> mem \<times> u64 \<times> u64 \<times> nat" where
  "strncpy_words m wd ws n =
     (if 8 \<le> n \<and> \<not> HASZERO (ru64 m ws) then strncpy_words (wu64 m wd (ru64 m ws)) (wd + SS) (ws + SS) (n - 8)
      else (m, wd, ws, n))"

fun strncpy_bytes :: "mem \<Rightarrow> u64 \<Rightarrow> u64 \<Rightarrow> nat \<Rightarrow> mem \<times> u64 \<times> nat" where
  "strncpy_bytes m d s n =
     (if n \<noteq> 0
      then (let m' = m(d := m s) in if m' d \<noteq> 0 then strncpy_bytes m' (d + 1) (s + 1) (n - 1) else (m', d, n))
      else (m, d, n))"

declare strncpy_align.simps [simp del] strncpy_words.simps [simp del] strncpy_bytes.simps [simp del]

definition strncpy :: "mem \<Rightarrow> u64 \<Rightarrow> u64 \<Rightarrow> u64 \<Rightarrow> u64 \<times> mem" where
  "strncpy m d s n =
     (let (m, d, s, l, tail) =
            (if s AND (SS - 1) = d AND (SS - 1)
             then (let (m, d, s, l) = strncpy_align m d s (unat n)
                   in if l = 0 \<or> m s = 0 then (m, d, s, l, True)
                      else (let (m, d, s, l) = strncpy_words m d s l in (m, d, s, l, False)))
             else (m, d, s, unat n, False));
          (m, d, l) = (if tail then (m, d, l) else strncpy_bytes m d s l)
      in (d, memset m d 0 (of_nat l)))"

section \<open>Wide characters\<close>

text \<open>
  \<^verbatim>\<open>dst\<close> points to 16-bit characters; only the low byte of each is stored, so what the
  high bytes were stays. The final zero is 16 bits wide. \<open>len\<close> is not negative in any
  caller; the loop stops when it has run that often.
\<close>

primrec wnstr_loop :: "mem \<Rightarrow> u64 \<Rightarrow> u64 \<Rightarrow> nat \<Rightarrow> mem \<times> u64" where
  "wnstr_loop m dst src 0 = (m, dst)"
| "wnstr_loop m dst src (Suc len) =
     (if m src \<noteq> 0 then wnstr_loop (m(dst := m src)) (dst + 2) (src + 1) len else (m, dst))"

definition wnstr :: "mem \<Rightarrow> u64 \<Rightarrow> u64 \<Rightarrow> nat \<Rightarrow> mem" where
  "wnstr m dst src len = (let (m, dst) = wnstr_loop m dst src len in m(dst := 0, dst + 1 := 0))"

primrec snstr_loop :: "mem \<Rightarrow> u64 \<Rightarrow> u64 \<Rightarrow> nat \<Rightarrow> mem \<times> u64 \<times> nat" where
  "snstr_loop m dst src 0 = (m, dst, 0)"
| "snstr_loop m dst src (Suc len) =
     (if m src \<noteq> 0 \<or> m (src + 1) \<noteq> 0 then snstr_loop (m(dst := m src)) (dst + 1) (src + 2) len else (m, dst, len))"

definition snstr :: "mem \<Rightarrow> u64 \<Rightarrow> u64 \<Rightarrow> nat \<Rightarrow> mem" where
  "snstr m dst src len = (let (m, dst, len) = snstr_loop m dst src len in memset_loop m dst 0 len)"

partial_function (option) strcat_copy :: "mem \<Rightarrow> u64 \<Rightarrow> u64 \<Rightarrow> mem option" where
  "strcat_copy m dest src =
     (let m' = m(dest := m src) in if m src \<noteq> 0 then strcat_copy m' (dest + 1) (src + 1) else Some m')"

definition strcat :: "mem \<Rightarrow> u64 \<Rightarrow> u64 \<Rightarrow> (u64 \<times> mem) option" where
  "strcat m dest src =
     (case strlen_bytes m dest of None \<Rightarrow> None
      | Some e \<Rightarrow> (case strcat_copy m e src of None \<Rightarrow> None | Some m \<Rightarrow> Some (dest, m)))"

section \<open>The zero-byte test\<close>

text \<open>Byte \<open>i\<close> of a word, counted from the low end.\<close>

definition byte :: "u64 \<Rightarrow> nat \<Rightarrow> int" where
  "byte x i = uint x div 2 ^ (8 * i) mod 256"

lemma ONES_eq: "ONES = 0x0101010101010101"
proof -
  have "(- 1 :: u64) = 0xffffffffffffffff" by simp
  then show ?thesis unfolding ONES_def by simp
qed

lemma byte_ONES: "i < 8 \<Longrightarrow> byte ONES i = 1"
proof -
  assume "i < 8"
  then consider "i = 0" | "i = 1" | "i = 2" | "i = 3" | "i = 4" | "i = 5" | "i = 6" | "i = 7" by linarith
  then show ?thesis by cases (simp_all add: byte_def ONES_eq)
qed

lemma mod_split: "(X::int) mod 2 ^ (k + 8) = X mod 2 ^ k + 2 ^ k * (X div 2 ^ k mod 256)"
  using zmod_zmult2_eq [of 256 X "2 ^ k"] by (simp add: power_add add.commute)

lemma low_bytes_ge:
  assumes "\<And>i. i < j \<Longrightarrow> byte x i \<noteq> 0" and "j \<le> 8"
  shows "uint ONES mod 2 ^ (8 * j) \<le> uint x mod 2 ^ (8 * j)"
  using assms
proof (induction j)
  case 0
  then show ?case by simp
next
  case (Suc j)
  have "1 \<le> byte x j" using Suc.prems(1) [of j] using pos_mod_sign [of 256 "uint x div 2 ^ (8 * j)"]
    by (simp add: byte_def del: pos_mod_sign)
  then have "2 ^ (8 * j) * 1 \<le> 2 ^ (8 * j) * byte x j" by (intro mult_left_mono) simp_all
  moreover have "uint ONES mod 2 ^ (8 * j) \<le> uint x mod 2 ^ (8 * j)" using Suc by simp
  moreover have "byte ONES j = 1" using byte_ONES Suc.prems(2) by simp
  moreover have "uint ONES mod 2 ^ (8 * j + 8) = uint ONES mod 2 ^ (8 * j) + 2 ^ (8 * j)"
    using mod_split [of "uint ONES" "8 * j"] byte_ONES [of j] Suc.prems(2) by (simp add: byte_def)
  moreover have "uint x mod 2 ^ (8 * j + 8) = uint x mod 2 ^ (8 * j) + 2 ^ (8 * j) * byte x j"
    by (simp add: mod_split byte_def)
  moreover have e: "8 * Suc j = 8 * j + 8" by simp
  ultimately show ?case unfolding e by linarith
qed

text \<open>Below the first zero byte there is no borrow, and at it the subtraction gives 255.\<close>

lemma zero_byte_bit:
  assumes low: "\<And>i. i < j \<Longrightarrow> byte x i \<noteq> 0" and zero: "byte x j = 0" and j: "j < 8"
  shows "bit (x - ONES) (8 * j + 7)" and "\<not> bit x (8 * j + 7)"
proof -
  let ?k = "8 * j" and ?X = "uint x" and ?O = "uint ONES"
  define D where "D = ?X mod 2 ^ ?k - ?O mod 2 ^ ?k"
  have D: "0 \<le> D" "D < 2 ^ ?k"
    using low_bytes_ge [where j = j, OF low] j
      pos_mod_bound [OF zero_less_power [of "2::int" ?k], of ?X] pos_mod_sign [OF zero_less_power [of "2::int" ?k], of ?O]
    unfolding D_def by linarith+
  have X: "?X mod 2 ^ (?k + 8) = ?X mod 2 ^ ?k" using mod_split [of ?X ?k] zero by (simp add: byte_def)
  have O: "?O mod 2 ^ (?k + 8) = ?O mod 2 ^ ?k + 2 ^ ?k"
    using mod_split [of ?O ?k] byte_ONES [OF j] by (simp add: byte_def)
  define H where "H = ?X div 2 ^ (?k + 8) - ?O div 2 ^ (?k + 8)"
  have p8: "(2::int) ^ (?k + 8) = 2 * 2 ^ (?k + 7)" and p7: "(2::int) ^ (?k + 7) = 128 * 2 ^ ?k"
    by (simp_all add: power_add)
  have diff: "?X - ?O = 2 ^ (?k + 7) * (2 * H) + (D - 2 ^ ?k)"
  proof -
    have "?X = 2 ^ (?k + 8) * (?X div 2 ^ (?k + 8)) + ?X mod 2 ^ ?k"
      "?O = 2 ^ (?k + 8) * (?O div 2 ^ (?k + 8)) + (?O mod 2 ^ ?k + 2 ^ ?k)"
      using X O by (metis mult_div_mod_eq)+
    then show ?thesis unfolding H_def D_def p8 by (simp add: algebra_simps)
  qed
  have "(D - 2 ^ ?k) div 2 ^ (?k + 7) = - 1"
    using D p7 by (intro int_div_pos_eq [where r = "D - 2 ^ ?k + 2 ^ (?k + 7)"]) simp_all
  then have "(?X - ?O) div 2 ^ (?k + 7) = 2 * H - 1" unfolding diff by simp
  then have "odd ((?X - ?O) div 2 ^ (?k + 7))" by simp
  then have "bit (?X - ?O) (?k + 7)" by (simp add: bit_iff_odd)
  moreover have "?k + 7 < 64" using j by simp
  moreover have "uint (x - ONES) = take_bit 64 (?X - ?O)" by (simp add: uint_word_ariths take_bit_eq_mod)
  ultimately have "bit (uint (x - ONES)) (8 * j + 7)" by (simp only: bit_take_bit_iff simp_thms)
  then show "bit (x - ONES) (8 * j + 7)" by (simp add: bit_uint_iff)
  have "take_bit 8 (drop_bit ?k ?X) = 0" using zero by (simp add: byte_def take_bit_eq_mod drop_bit_eq_div)
  then have "\<not> bit (take_bit 8 (drop_bit ?k ?X)) 7" by simp
  then show "\<not> bit x (8 * j + 7)" by (simp add: bit_simps)
qed

lemma HASZERO_complete:
  assumes "\<not> HASZERO x" and "j < 8"
  shows "byte x j \<noteq> 0"
  using assms(2)
proof (induction j rule: less_induct)
  case (less j)
  show ?case
  proof
    assume z: "byte x j = 0"
    have low: "byte x i \<noteq> 0" if "i < j" for i using less that by simp
    have "bit HIGHS (8 * j + 7)"
    proof -
      have h: "HIGHS = 0x8080808080808080" by (simp add: HIGHS_def ONES_eq)
      from less.prems consider "j = 0" | "j = 1" | "j = 2" | "j = 3" | "j = 4" | "j = 5" | "j = 6" | "j = 7" by linarith
      then show ?thesis by cases (simp_all add: h)
    qed
    then have "bit ((x - ONES) AND NOT x AND HIGHS) (8 * j + 7)"
      using zero_byte_bit [OF low z less.prems] less.prems by (simp add: bit_simps)
    then have "HASZERO x" unfolding HASZERO_def by auto
    with assms(1) show False by simp
  qed
qed

lemma byte_le_word:
  assumes "i < length bs" and "length bs \<le> 8"
  shows "byte (le_word bs) i = uint (bs ! i)"
proof -
  have "ucast (drop_bit (8 * i) (le_word bs)) = bs ! i"
    using assms
  proof (induction bs arbitrary: i)
    case (Cons b bs)
    show ?case
    proof (cases i)
      case 0
      then show ?thesis by (intro bit_word_eqI) (auto simp: bit_simps)
    next
      case (Suc k)
      then have "ucast (drop_bit (8 * k) (le_word bs)) = bs ! k" using Cons by simp
      moreover have "ucast (drop_bit (8 * i) (le_word (b # bs))) = (ucast (drop_bit (8 * k) (le_word bs)) :: u8)"
        using Suc Cons.prems by (intro bit_word_eqI) (auto simp: bit_simps dest: bit_imp_le_length)
      ultimately show ?thesis using Suc by simp
    qed
  qed simp
  then have u: "uint (ucast (drop_bit (8 * i) (le_word bs)) :: u8) = uint (bs ! i)" by simp
  have d: "uint (drop_bit (8 * i) (le_word bs)) = uint (le_word bs) div 2 ^ (8 * i)"
    unfolding drop_bit_eq_div [symmetric] by (rule bit_eqI) (auto simp: bit_simps)
  have "uint (ucast (drop_bit (8 * i) (le_word bs)) :: u8) = uint (drop_bit (8 * i) (le_word bs)) mod 256"
    by (simp add: unsigned_ucast_eq take_bit_eq_mod)
  then show ?thesis using u unfolding byte_def d by simp
qed

text \<open>When the test says no, none of the eight bytes is zero.\<close>

lemma HASZERO_bytes: "\<not> HASZERO (ru64 m w) \<Longrightarrow> i < 8 \<Longrightarrow> m (w + of_nat i) \<noteq> 0"
proof
  assume "\<not> HASZERO (ru64 m w)" and i: "i < 8" and z: "m (w + of_nat i) = 0"
  then have "byte (ru64 m w) i \<noteq> 0" by (intro HASZERO_complete)
  moreover have "byte (ru64 m w) i = uint (rbytes m w 8 ! i)" using i unfolding ru64_def by (intro byte_le_word) simp_all
  ultimately show False using z i by simp
qed

section \<open>Strings in memory\<close>

text \<open>The string \<open>cs\<close> starts at \<open>a\<close> and ends with a zero byte.\<close>

primrec cstr :: "mem \<Rightarrow> u64 \<Rightarrow> u8 list \<Rightarrow> bool" where
  "cstr m a [] \<longleftrightarrow> m a = 0"
| "cstr m a (c # cs) \<longleftrightarrow> c \<noteq> 0 \<and> m a = c \<and> cstr m (a + 1) cs"

lemma cstr_drop: "cstr m a cs \<Longrightarrow> k \<le> length cs \<Longrightarrow> cstr m (a + of_nat k) (drop k cs)"
proof (induction cs arbitrary: a k)
  case Nil
  then show ?case by simp
next
  case (Cons c cs)
  then show ?case by (cases k) (simp_all add: add.assoc [symmetric])
qed

lemma cstr_nth: "cstr m a cs \<Longrightarrow> i < length cs \<Longrightarrow> m (a + of_nat i) = cs ! i \<and> cs ! i \<noteq> 0"
proof (induction cs arbitrary: a i)
  case (Cons c cs)
  then show ?case using Cons.IH [of "a + 1" "i - 1"] by (cases i) (auto simp: add.assoc [symmetric])
qed simp

lemma cstr_end: "cstr m a cs \<Longrightarrow> m (a + of_nat (length cs)) = 0"
  using cstr_drop [of m a cs "length cs"] by simp

lemma cstr_rbytes: "cstr m a cs \<Longrightarrow> rbytes m a (Suc (length cs)) = cs @ [0]"
  by (induction cs arbitrary: a) (simp_all add: rbytes_Suc [of m _ "Suc n" for n], simp add: rbytes_Suc)

lemma strlen_bytes_ok: "cstr m s cs \<Longrightarrow> strlen_bytes m s = Some (s + of_nat (length cs))"
  by (induction cs arbitrary: s) (subst strlen_bytes.simps, simp add: add.assoc)+

lemma strlen_align_ok:
  "cstr m s cs \<Longrightarrow> strlen_align m s = Some (Inl (s + of_nat (length cs)))
     \<or> (\<exists>k \<le> length cs. strlen_align m s = Some (Inr (s + of_nat k)))"
proof (induction cs arbitrary: s)
  case Nil
  then show ?case by (subst (1 2) strlen_align.simps) simp
next
  case (Cons c cs)
  then have IH: "strlen_align m (s + 1) = Some (Inl (s + 1 + of_nat (length cs)))
     \<or> (\<exists>k \<le> length cs. strlen_align m (s + 1) = Some (Inr (s + 1 + of_nat k)))" by simp
  show ?case
  proof (cases "s mod SS = 0")
    case True
    then have "strlen_align m s = Some (Inr (s + of_nat 0))" by (subst strlen_align.simps) simp
    then show ?thesis by blast
  next
    case False
    then have "strlen_align m s = strlen_align m (s + 1)" using Cons.prems by (subst strlen_align.simps) simp
    then show ?thesis using IH
      by (auto simp: add.assoc intro: exI [of _ "Suc k" for k] simp flip: of_nat_Suc)
  qed
qed

lemma strlen_words_ok:
  "cstr m w cs \<Longrightarrow> \<exists>k \<le> length cs. strlen_words m w = Some (w + of_nat k)"
proof (induction "length cs" arbitrary: w cs rule: less_induct)
  case less
  show ?case
  proof (cases "HASZERO (ru64 m w)")
    case True
    then have "strlen_words m w = Some (w + of_nat 0)" by (subst strlen_words.simps) simp
    then show ?thesis by blast
  next
    case False
    have l: "8 \<le> length cs"
    proof (rule ccontr)
      assume "\<not> 8 \<le> length cs"
      then show False using HASZERO_bytes [OF False, of "length cs"] cstr_end [OF less.prems] by simp
    qed
    have c: "cstr m (w + SS) (drop 8 cs)" using cstr_drop [OF less.prems l] by (simp add: SS_def)
    have "length (drop 8 cs) < length cs" using l by simp
    then obtain k where k: "k \<le> length (drop 8 cs)" "strlen_words m (w + SS) = Some (w + SS + of_nat k)"
      using less.hyps [OF _ c] by blast
    have "strlen_words m w = Some (w + of_nat (8 + k))"
      using False k(2) by (subst strlen_words.simps) (simp add: SS_def add.assoc)
    then show ?thesis using k(1) l by (intro exI [of _ "8 + k"]) simp
  qed
qed

lemma strlen_ok:
  assumes "cstr m a cs"
  shows "strlen m a = Some (of_nat (length cs))"
  using strlen_align_ok [OF assms]
proof
  assume "strlen_align m a = Some (Inl (a + of_nat (length cs)))"
  then show ?thesis by (simp add: strlen_def)
next
  assume "\<exists>k \<le> length cs. strlen_align m a = Some (Inr (a + of_nat k))"
  then obtain k where k: "k \<le> length cs" "strlen_align m a = Some (Inr (a + of_nat k))" by blast
  note 1 = cstr_drop [OF assms k(1)]
  obtain l where l: "l \<le> length (drop k cs)" "strlen_words m (a + of_nat k) = Some (a + of_nat k + of_nat l)"
    using strlen_words_ok [OF 1] by blast
  have "strlen_bytes m (a + of_nat k + of_nat l) = Some (a + of_nat k + of_nat l + of_nat (length (drop l (drop k cs))))"
    using strlen_bytes_ok [OF cstr_drop [OF 1 l(1)]] .
  moreover have "of_nat k + (of_nat l + (of_nat (length cs - (k + l)) :: u64)) = of_nat (length cs)"
  proof -
    have "k + (l + (length cs - (k + l))) = length cs" using k(1) l(1) by simp
    then show ?thesis by (metis of_nat_add)
  qed
  ultimately show ?thesis using k(2) l(2) by (simp add: strlen_def add.assoc add.commute [of l k])
qed

section \<open>memchr\<close>

text \<open>What each of the three loops does: skip bytes that are not \<open>c\<close>.\<close>

definition skips :: "mem \<Rightarrow> u8 \<Rightarrow> u64 \<times> nat \<Rightarrow> u64 \<times> nat \<Rightarrow> bool" where
  "skips m c p q \<longleftrightarrow> (\<exists>k. snd p = k + snd q \<and> fst q = fst p + of_nat k \<and> (\<forall>i < k. m (fst p + of_nat i) \<noteq> c))"

lemma skips_refl [simp]: "skips m c p p"
  by (auto simp: skips_def)

lemma skips_trans:
  assumes "skips m c p q" and "skips m c q r"
  shows "skips m c p r"
proof -
  obtain k where k: "snd p = k + snd q" "fst q = fst p + of_nat k" "\<forall>i < k. m (fst p + of_nat i) \<noteq> c"
    using assms(1) by (auto simp: skips_def)
  obtain l where l: "snd q = l + snd r" "fst r = fst q + of_nat l" "\<forall>i < l. m (fst q + of_nat i) \<noteq> c"
    using assms(2) by (auto simp: skips_def)
  have "m (fst p + of_nat i) \<noteq> c" if "i < k + l" for i
  proof (cases "i < k")
    case False
    then have "i - k < l" using that by simp
    then have "m (fst q + of_nat (i - k)) \<noteq> c" using l(3) by blast
    moreover have "fst q + of_nat (i - k) = fst p + of_nat i" using False k(2) by simp
    ultimately show ?thesis by simp
  qed (use k(3) in simp)
  then show ?thesis using k l unfolding skips_def by (intro exI [of _ "k + l"]) simp
qed

lemma skips_one: "m s \<noteq> c \<Longrightarrow> n \<noteq> 0 \<Longrightarrow> skips m c (s, n) (s + 1, n - 1)"
  unfolding skips_def by (intro exI [of _ 1]) simp

lemma memchr_align_skips: "skips m c (s, n) (memchr_align m s c n)"
proof (induction m s c n rule: memchr_align.induct)
  case (1 m s c n)
  show ?case
  proof (cases "s AND (SS - 1) \<noteq> 0 \<and> n \<noteq> 0 \<and> m s \<noteq> c")
    case True
    then have "memchr_align m s c n = memchr_align m (s + 1) c (n - 1)" by (subst memchr_align.simps) simp
    then show ?thesis using 1 [OF True] skips_trans [OF skips_one [of m s c n]] True by simp
  next
    case False
    then have "memchr_align m s c n = (s, n)" by (subst memchr_align.simps) auto
    then show ?thesis by simp
  qed
qed

lemma memchr_bytes_skips:
  "skips m c (s, n) (memchr_bytes m s c n) \<and> (snd (memchr_bytes m s c n) = 0 \<or> m (fst (memchr_bytes m s c n)) = c)"
proof (induction m s c n rule: memchr_bytes.induct)
  case (1 m s c n)
  show ?case
  proof (cases "n \<noteq> 0 \<and> m s \<noteq> c")
    case True
    then have "memchr_bytes m s c n = memchr_bytes m (s + 1) c (n - 1)" by (subst memchr_bytes.simps) simp
    then show ?thesis using 1 [OF True] skips_trans [OF skips_one [of m s c n]] True by simp
  next
    case False
    then have "memchr_bytes m s c n = (s, n)" by (subst memchr_bytes.simps) auto
    then show ?thesis using False by simp
  qed
qed

lemma le_word_Cons_add: "le_word (b # bs) = ucast b + 256 * le_word bs"
proof -
  have "(ucast b :: u64) AND push_bit 8 (le_word bs) = 0"
    by (rule bit_word_eqI) (auto simp: bit_simps dest: bit_imp_le_length)
  then have "ucast b OR push_bit 8 (le_word bs) = ucast b + push_bit 8 (le_word bs)"
    by (simp add: disjunctive_add_eq_or)
  then show ?thesis by (simp add: push_bit_eq_mult mult.commute)
qed

lemma ONES_mult: "ONES * ucast c = le_word (replicate 8 c)"
proof -
  have r: "replicate 8 c = [c, c, c, c, c, c, c, c]" by (simp add: eval_nat_numeral)
  show ?thesis unfolding ONES_eq r le_word_Cons_add by (simp add: algebra_simps)
qed

lemma le_word_xor: "length xs = length ys \<Longrightarrow> le_word xs XOR le_word ys = le_word (map2 (XOR) xs ys)"
proof (induction xs ys rule: list_induct2)
  case (Cons x xs y ys)
  have "le_word (x # xs) XOR le_word (y # ys) = (ucast (x XOR y) :: u64) OR push_bit 8 (le_word xs XOR le_word ys)"
    by (rule bit_word_eqI) (auto simp: bit_simps dest: bit_imp_le_length)
  then show ?case using Cons.IH by simp
qed simp

lemma HASZERO_xor:
  assumes "\<not> HASZERO (ru64 m w XOR ONES * ucast c)" and i: "i < 8"
  shows "m (w + of_nat i) \<noteq> c"
proof
  assume e: "m (w + of_nat i) = c"
  let ?ys = "map2 (XOR) (rbytes m w 8) (replicate 8 c)"
  have x: "ru64 m w XOR ONES * ucast c = le_word ?ys"
    unfolding ru64_def ONES_mult by (rule le_word_xor) simp
  have "byte (le_word ?ys) i \<noteq> 0" using HASZERO_complete [OF assms] unfolding x .
  moreover have "byte (le_word ?ys) i = uint (?ys ! i)" using i by (intro byte_le_word) simp_all
  moreover have "?ys ! i = 0" using e i by simp
  ultimately show False by simp
qed

lemma memchr_words_skips: "skips m c (s, n) (memchr_words m s (ONES * ucast c) n)"
proof (induction m s "ONES * ucast c" n rule: memchr_words.induct)
  case (1 m s n)
  let ?k = "ONES * ucast c"
  show ?case
  proof (cases "8 \<le> n \<and> \<not> HASZERO (ru64 m s XOR ?k)")
    case True
    then have e: "memchr_words m s ?k n = memchr_words m (s + SS) ?k (n - 8)" by (subst memchr_words.simps) simp
    have "skips m c (s, n) (s + SS, n - 8)"
      unfolding skips_def using True HASZERO_xor [of m s c] by (intro exI [of _ 8]) (auto simp: SS_def)
    then show ?thesis using 1 [OF True] skips_trans unfolding e by blast
  next
    case False
    then have "memchr_words m s ?k n = (s, n)" by (subst memchr_words.simps) auto
    then show ?thesis by simp
  qed
qed

lemma memchr_ok:
  "memchr m src c n = Some p \<longleftrightarrow>
     (\<exists>i < unat n. p = src + of_nat i \<and> m p = c \<and> (\<forall>j < i. m (src + of_nat j) \<noteq> c))"
  "memchr m src c n = None \<longleftrightarrow> (\<forall>i < unat n. m (src + of_nat i) \<noteq> c)"
proof -
  obtain s1 l1 where 1: "memchr_align m src c (unat n) = (s1, l1)" by fastforce
  obtain s2 l2 where 2: "(if l1 \<noteq> 0 \<and> m s1 \<noteq> c then memchr_words m s1 (ONES * ucast c) l1 else (s1, l1)) = (s2, l2)"
    by fastforce
  obtain s3 l3 where 3: "memchr_bytes m s2 c l2 = (s3, l3)" by fastforce
  have "skips m c (src, unat n) (s1, l1)" using memchr_align_skips [of m c src "unat n"] 1 by simp
  moreover have "skips m c (s1, l1) (s2, l2)" using memchr_words_skips [of m c s1 l1] 2 by (auto split: if_splits)
  moreover have "skips m c (s2, l2) (s3, l3)" and fin: "l3 = 0 \<or> m s3 = c"
    using memchr_bytes_skips [of m c s2 l2] 3 by auto
  ultimately have "skips m c (src, unat n) (s3, l3)" by (blast intro: skips_trans)
  then obtain k where k: "unat n = k + l3" "s3 = src + of_nat k" "\<forall>i < k. m (src + of_nat i) \<noteq> c"
    by (auto simp: skips_def)
  have r: "memchr m src c n = (if l3 \<noteq> 0 then Some s3 else None)"
    using 1 2 3 by (simp add: memchr_def)
  show "memchr m src c n = None \<longleftrightarrow> (\<forall>i < unat n. m (src + of_nat i) \<noteq> c)"
  proof (cases "l3 = 0")
    case False
    then have "k < unat n" "m (src + of_nat k) = c" using k fin by auto
    then show ?thesis using r False by auto
  qed (use r k in auto)
  show "memchr m src c n = Some p \<longleftrightarrow>
     (\<exists>i < unat n. p = src + of_nat i \<and> m p = c \<and> (\<forall>j < i. m (src + of_nat j) \<noteq> c))"
  proof
    assume "memchr m src c n = Some p"
    then show "\<exists>i < unat n. p = src + of_nat i \<and> m p = c \<and> (\<forall>j < i. m (src + of_nat j) \<noteq> c)"
      using r k fin by (intro exI [of _ k]) (auto split: if_splits)
  next
    assume "\<exists>i < unat n. p = src + of_nat i \<and> m p = c \<and> (\<forall>j < i. m (src + of_nat j) \<noteq> c)"
    then obtain i where i: "i < unat n" "p = src + of_nat i" "m p = c" "\<forall>j < i. m (src + of_nat j) \<noteq> c" by blast
    have "\<not> i < k" using k(3) i(2,3) by auto
    moreover from this have "l3 \<noteq> 0" using i(1) k(1) by simp
    moreover from this have "\<not> k < i" using fin i(4) k(2) by auto
    ultimately show "memchr m src c n = Some p" using r i(2) k(2) by (simp add: not_less antisym)
  qed
qed

section \<open>Comparison\<close>

lemma uint_pos_iff: "0 < uint (x::u8) \<longleftrightarrow> x \<noteq> 0"
  by (simp add: word_uint_eq_iff less_le)

lemma strcmp_ok:
  assumes "cstr m l xs" and "cstr m r ys"
  shows "\<exists>v. strcmp m l r = Some v \<and> (v = 0 \<longleftrightarrow> xs = ys) \<and> (v < 0 \<longleftrightarrow> (xs, ys) \<in> lexord {(a, b). a < b})"
  using assms
proof (induction xs arbitrary: l r ys)
  case Nil
  then show ?case using uint_pos_iff [of "m r"] by (cases ys) (subst strcmp.simps, auto)+
next
  case (Cons x xs)
  note c = Cons.prems
  show ?case
  proof (cases ys)
    case Nil
    then show ?thesis using c uint_pos_iff [of "m l"] by (subst strcmp.simps) (auto simp: word_less_def)
  next
    case (Cons y ys')
    show ?thesis
    proof (cases "x = y")
      case True
      obtain v where v: "strcmp m (l + 1) (r + 1) = Some v" "v = 0 \<longleftrightarrow> xs = ys'" "v < 0 \<longleftrightarrow> (xs, ys') \<in> lexord {(a, b). a < b}"
        using Cons.IH [of "l + 1" "r + 1" ys'] c Cons by auto
      have "strcmp m l r = Some v" using c Cons True v(1) by (subst strcmp.simps) simp
      then show ?thesis using v Cons True by simp
    next
      case False
      then have "strcmp m l r = Some (uint x - uint y)" using c Cons by (subst strcmp.simps) simp
      then show ?thesis using False Cons by (auto simp: word_less_def word_uint_eq_iff)
    qed
  qed
qed

lemma strncmp_ok:
  assumes "cstr m p xs" and "cstr m q ys"
  shows "strncmp m p q n = 0 \<longleftrightarrow> take (unat n) xs = take (unat n) ys"
proof -
  have "strncmp_loop m p q k = 0 \<longleftrightarrow> take k xs = take k ys" for k
    using assms
  proof (induction k arbitrary: p q xs ys)
    case (Suc k)
    show ?case
    proof (cases xs)
      case Nil
      then show ?thesis using Suc.prems by (cases ys) (auto simp: word_uint_eq_iff)
    next
      case (Cons x xs')
      then show ?thesis using Suc by (cases ys) (auto simp: word_uint_eq_iff)
    qed
  qed simp
  then show ?thesis by (simp add: strncmp_def)
qed

section \<open>strcpy\<close>

lemma le_bytes_take_bit: "8 * k \<le> n \<Longrightarrow> le_bytes k (take_bit n w) = le_bytes k w"
proof (induction k arbitrary: n w)
  case (Suc k)
  have "(ucast (take_bit n w) :: u8) = ucast w" using Suc.prems by (intro bit_word_eqI) (auto simp: bit_simps)
  moreover have "drop_bit 8 (take_bit n w) = take_bit (n - 8) (drop_bit 8 w)"
    using Suc.prems by (intro bit_word_eqI) (auto simp: bit_simps)
  ultimately show ?case using Suc by simp
qed simp

lemma le_bytes_le_word: "length bs \<le> 8 \<Longrightarrow> le_bytes (length bs) (le_word bs) = bs"
proof (induction bs)
  case (Cons b bs)
  have "ucast (le_word (b # bs)) = b" by (rule bit_word_eqI) (auto simp: bit_simps)
  moreover have "drop_bit 8 (le_word (b # bs)) = take_bit 56 (le_word bs)"
    by (rule bit_word_eqI) (auto simp: bit_simps dest: bit_imp_le_length)
  moreover have "le_bytes (length bs) (take_bit 56 (le_word bs)) = le_bytes (length bs) (le_word bs)"
    using Cons.prems by (intro le_bytes_take_bit) simp
  ultimately show ?case using Cons by simp
qed simp

lemma wbytes_append:
  assumes "length bs + length bs' \<le> 2 ^ 64"
  shows "wbytes (wbytes m a bs) (a + of_nat (length bs)) bs' = wbytes m a (bs @ bs')"
proof (rule ext)
  fix x
  let ?u = "unat (x - a)" and ?n = "length bs" and ?n' = "length bs'"
  show "wbytes (wbytes m a bs) (a + of_nat ?n) bs' x = wbytes m a (bs @ bs') x"
  proof (cases "bs' = []")
    case False
    then have n: "?n < 2 ^ 64" using assms by (cases bs') auto
    have u: "unat (of_nat ?n :: u64) = ?n" using n by (rule unat_of_nat_u64)
    have d: "x - (a + of_nat ?n) = (x - a) - of_nat ?n" by simp
    have diff: "unat (x - (a + of_nat ?n)) = (if ?n \<le> ?u then ?u - ?n else ?u + 2 ^ 64 - ?n)"
      unfolding d using unat_sub_if' [of "x - a" "of_nat ?n"] u by simp
    have d1: "unat (x - (a + of_nat ?n)) = ?u - ?n" if "?n \<le> ?u" using diff that by simp
    have d2: "\<not> unat (x - (a + of_nat ?n)) < ?n'" if "?u < ?n"
    proof -
      have "unat (x - (a + of_nat ?n)) = ?u + 2 ^ 64 - ?n" using diff that by simp
      then show ?thesis using that assms n by linarith
    qed
    show ?thesis using d1 d2 by (cases "?u < ?n") (auto simp: wbytes_def nth_append)
  qed simp
qed

lemma wu64_ru64: "wu64 m a (ru64 m' b) = wbytes m a (rbytes m' b 8)"
  using le_bytes_le_word [of "rbytes m' b 8"] by (simp add: wu64_def ru64_def)

text \<open>
  \<open>k\<close> bytes are copied; source and destination do not overlap.
\<close>

definition copied :: "mem \<Rightarrow> u64 \<Rightarrow> u8 list \<Rightarrow> nat \<Rightarrow> mem" where
  "copied m d cs k = wbytes m d (take k (cs @ [0]))"

definition apart :: "u64 \<Rightarrow> u64 \<Rightarrow> nat \<Rightarrow> bool" where
  "apart d s n \<longleftrightarrow> (\<forall>i < n. \<forall>j < n. d + of_nat i \<noteq> s + of_nat j) \<and> n < 2 ^ 64"

lemma copied_src:
  assumes "cstr m s cs" and "apart d s (Suc (length cs))" and "j \<le> length cs"
  shows "copied m d cs k (s + of_nat j) = (cs @ [0]) ! j"
proof -
  have "copied m d cs k (s + of_nat j) = m (s + of_nat j)"
    unfolding copied_def
  proof (rule wbytes_out)
    fix i assume "i < length (take k (cs @ [0]))"
    then have "i < Suc (length cs)" by simp
    then show "s + of_nat j \<noteq> d + of_nat i" using assms(2,3) unfolding apart_def by (metis less_Suc_eq_le)
  qed
  moreover have "m (s + of_nat j) = (cs @ [0]) ! j"
    using assms(1,3) cstr_nth [OF assms(1)] cstr_end [OF assms(1)] by (cases "j = length cs") (auto simp: nth_append)
  ultimately show ?thesis by simp
qed

lemma copied_step:
  assumes c: "cstr m s cs" and ap: "apart d s (Suc (length cs))" and k: "k + n \<le> Suc (length cs)"
  shows "wbytes (copied m d cs k) (d + of_nat k) (rbytes (copied m d cs k) (s + of_nat k) n) = copied m d cs (k + n)"
proof -
  let ?t = "cs @ [0]"
  have r: "rbytes (copied m d cs k) (s + of_nat k) n = take n (drop k ?t)"
  proof (rule nth_equalityI)
    show "length (rbytes (copied m d cs k) (s + of_nat k) n) = length (take n (drop k ?t))" using k by simp
    fix i assume "i < length (rbytes (copied m d cs k) (s + of_nat k) n)"
    then have i: "i < n" by simp
    have "s + of_nat k + of_nat i = s + of_nat (k + i)" by (simp add: add.assoc)
    from this [symmetric] show "rbytes (copied m d cs k) (s + of_nat k) n ! i = take n (drop k ?t) ! i"
      using copied_src [OF c ap, of "k + i" k] i k by (simp add: add.assoc del: take_append drop_append of_nat_add)
  qed
  have l: "length (take k ?t) = k" using k by simp
  have "take k ?t @ take n (drop k ?t) = take (k + n) ?t" by (rule take_add [symmetric])
  then show ?thesis
    unfolding r unfolding copied_def using wbytes_append [of "take k ?t" "take n (drop k ?t)" m d] l k ap
    by (simp add: apart_def del: take_append drop_append)
qed

lemma copied_one:
  assumes "cstr m s cs" and "apart d s (Suc (length cs))" and "k \<le> length cs"
  shows "(copied m d cs k)(d + of_nat k := copied m d cs k (s + of_nat k)) = copied m d cs (Suc k)"
  using copied_step [OF assms(1,2), of k 1] assms(3)
    wbytes_Cons [of "[]" "copied m d cs k" "d + of_nat k" "copied m d cs k (s + of_nat k)"]
  by (simp add: rbytes_Suc)

lemma copied_at:
  assumes "cstr m s cs" and "apart d s (Suc (length cs))" and "k \<le> length cs"
  shows "copied m d cs (Suc k) (d + of_nat k) = copied m d cs k (s + of_nat k)"
  using fun_cong [OF copied_one [OF assms], of "d + of_nat k"] by simp

lemma strcpy_bytes_ok:
  assumes c: "cstr m s cs" and ap: "apart d s (Suc (length cs))" and k: "k \<le> length cs"
  shows "strcpy_bytes (copied m d cs k) (d + of_nat k) (s + of_nat k) = Some (d + of_nat (length cs), copied m d cs (Suc (length cs)))"
  using k
proof (induction "length cs - k" arbitrary: k)
  case 0
  then have e: "k = length cs" by simp
  have "copied m d cs k (s + of_nat k) = 0" using copied_src [OF c ap, of k k] 0 e by simp
  then show ?case using copied_one [OF c ap, of k] copied_at [OF c ap, of k] e
    by (subst strcpy_bytes.simps) (simp add: Let_def)
next
  case (Suc l)
  then have lt: "k < length cs" by simp
  have "copied m d cs k (s + of_nat k) = cs ! k" using copied_src [OF c ap, of k k] lt by (simp add: nth_append)
  then have nz: "copied m d cs k (s + of_nat k) \<noteq> 0" using cstr_nth [OF c lt] by simp
  have "strcpy_bytes (copied m d cs k) (d + of_nat k) (s + of_nat k)
      = strcpy_bytes (copied m d cs (Suc k)) (d + of_nat k + 1) (s + of_nat k + 1)"
    using copied_one [OF c ap, of k] copied_at [OF c ap, of k] lt nz
    by (subst strcpy_bytes.simps) (simp add: Let_def)
  then show ?case using Suc.hyps(1) [of "Suc k"] Suc.hyps(2) lt by (simp add: add_ac)
qed

lemma strcpy_align_ok:
  assumes c: "cstr m s cs" and ap: "apart d s (Suc (length cs))" and k: "k \<le> length cs"
  shows "strcpy_align (copied m d cs k) (d + of_nat k) (s + of_nat k)
       = Some (Inl (d + of_nat (length cs), copied m d cs (Suc (length cs))))
    \<or> (\<exists>l \<le> length cs. strcpy_align (copied m d cs k) (d + of_nat k) (s + of_nat k)
       = Some (Inr (d + of_nat l, s + of_nat l, copied m d cs l)))"
  using k
proof (induction "length cs - k" arbitrary: k)
  case 0
  then have e: "k = length cs" by simp
  have "copied m d cs k (s + of_nat k) = 0" using copied_src [OF c ap, of k k] 0 e by simp
  then show ?case using copied_one [OF c ap, of k] copied_at [OF c ap, of k] e
    by (subst (1 2) strcpy_align.simps) (auto simp: Let_def)
next
  case (Suc l)
  then have lt: "k < length cs" by simp
  have "copied m d cs k (s + of_nat k) = cs ! k" using copied_src [OF c ap, of k k] lt by (simp add: nth_append)
  then have nz: "copied m d cs k (s + of_nat k) \<noteq> 0" using cstr_nth [OF c lt] by simp
  show ?case
  proof (cases "(s + of_nat k) mod SS = 0")
    case True
    then have "strcpy_align (copied m d cs k) (d + of_nat k) (s + of_nat k)
       = Some (Inr (d + of_nat k, s + of_nat k, copied m d cs k))" by (subst strcpy_align.simps) simp
    then show ?thesis using lt by (intro disjI2 exI [of _ k]) simp
  next
    case False
    then have "strcpy_align (copied m d cs k) (d + of_nat k) (s + of_nat k)
      = strcpy_align (copied m d cs (Suc k)) (d + of_nat (Suc k)) (s + of_nat (Suc k))"
      using copied_one [OF c ap, of k] copied_at [OF c ap, of k] lt nz
      by (subst strcpy_align.simps) (simp add: Let_def add_ac)
    then show ?thesis using Suc.hyps(1) [of "Suc k"] Suc.hyps(2) lt by simp
  qed
qed

lemma strcpy_words_ok:
  assumes c: "cstr m s cs" and ap: "apart d s (Suc (length cs))" and k: "k \<le> length cs"
  shows "\<exists>l \<le> length cs. strcpy_words (copied m d cs k) (d + of_nat k) (s + of_nat k)
       = Some (d + of_nat l, s + of_nat l, copied m d cs l)"
  using k
proof (induction "length cs - k" arbitrary: k rule: less_induct)
  case less
  let ?m = "copied m d cs k" and ?w = "s + (of_nat k :: u64)"
  show ?case
  proof (cases "HASZERO (ru64 ?m ?w)")
    case True
    then have "strcpy_words ?m (d + of_nat k) ?w = Some (d + of_nat k, ?w, ?m)" by (subst strcpy_words.simps) simp
    then show ?thesis using less.prems by blast
  next
    case False
    have k8: "k + 8 \<le> length cs"
    proof (rule ccontr)
      assume "\<not> k + 8 \<le> length cs"
      then have j: "length cs - k < 8" by simp
      have "?w + of_nat (length cs - k) = s + of_nat (length cs)" using less.prems
        by (metis add.assoc le_add_diff_inverse of_nat_add)
      moreover have "?m (s + of_nat (length cs)) = 0" using copied_src [OF c ap, of "length cs" k] by simp
      ultimately have "?m (?w + of_nat (length cs - k)) = 0" by (simp only:)
      then show False using HASZERO_bytes [OF False j] by simp
    qed
    have "wu64 ?m (d + of_nat k) (ru64 ?m ?w) = copied m d cs (k + 8)"
      unfolding wu64_ru64 using copied_step [OF c ap, of k 8] k8 by simp
    then have "strcpy_words ?m (d + of_nat k) ?w = strcpy_words (copied m d cs (k + 8)) (d + of_nat (k + 8)) (s + of_nat (k + 8))"
      using False by (subst strcpy_words.simps) (simp add: SS_def add.assoc)
    then show ?thesis using less.hyps [of "k + 8"] k8 by simp
  qed
qed

lemma strcpy_ok:
  assumes c: "cstr m s cs" and ap: "apart d s (Suc (length cs))"
  shows "strcpy m d s = Some (d + of_nat (length cs), wbytes m d (cs @ [0]))"
proof -
  have m0: "copied m d cs 0 = m" by (simp add: copied_def)
  have fin: "copied m d cs (Suc (length cs)) = wbytes m d (cs @ [0])" by (simp add: copied_def)
  have bytes: "strcpy_bytes m d s = Some (d + of_nat (length cs), wbytes m d (cs @ [0]))"
    using strcpy_bytes_ok [OF c ap, of 0] m0 fin by simp
  show ?thesis
  proof (cases "s mod SS = d mod SS")
    case True
    from strcpy_align_ok [OF c ap, of 0] m0 fin
    consider "strcpy_align m d s = Some (Inl (d + of_nat (length cs), wbytes m d (cs @ [0])))"
      | l where "l \<le> length cs" "strcpy_align m d s = Some (Inr (d + of_nat l, s + of_nat l, copied m d cs l))" by auto
    then show ?thesis
    proof cases
      case 1
      then show ?thesis using True by (simp add: strcpy_def)
    next
      case 2
      obtain j where "j \<le> length cs" "strcpy_words (copied m d cs l) (d + of_nat l) (s + of_nat l)
         = Some (d + of_nat j, s + of_nat j, copied m d cs j)"
        using strcpy_words_ok [OF c ap 2(1)] by blast
      then show ?thesis using True 2(2) strcpy_bytes_ok [OF c ap] fin by (simp add: strcpy_def)
    qed
  qed (use bytes in \<open>simp add: strcpy_def\<close>)
qed

section \<open>Numbers\<close>

definition digits_value :: "u8 list \<Rightarrow> int" where
  "digits_value ds = foldl (\<lambda>n c. 10 * n + (uint c - 48)) 0 ds"

lemma atoi_digits_ok:
  assumes "rbytes m s (length ds) = ds" and "\<forall>c \<in> set ds. isdigit c" and "\<not> isdigit (m (s + of_nat (length ds)))"
  shows "atoi_digits m s n = Some (- foldl (\<lambda>n c. 10 * n + (uint c - 48)) (- n) ds)"
  using assms
proof (induction ds arbitrary: s n)
  case Nil
  then show ?case by (subst atoi_digits.simps) simp
next
  case (Cons c ds)
  then have c: "m s = c" "rbytes m (s + 1) (length ds) = ds" by (simp_all add: rbytes_Suc)
  have "atoi_digits m s n = atoi_digits m (s + 1) (10 * n - (uint c - 48))"
    using Cons.prems(2) c(1) by (subst atoi_digits.simps) simp
  also have "\<dots> = Some (- foldl (\<lambda>n c. 10 * n + (uint c - 48)) (- (10 * n - (uint c - 48))) ds)"
    using Cons.prems c(2) by (intro Cons.IH) (simp_all add: add.assoc)
  finally show ?case by simp
qed

lemma ucast_sub_less:
  assumes "k < 200" and "j < 50"
  shows "(ucast c :: u32) - of_nat k < of_nat j \<longleftrightarrow> k \<le> unat (c::u8) \<and> unat c < k + j"
proof -
  have u: "unat (ucast c :: u32) = unat c"
    using unsigned_less [of c, where ?'a = nat] by (simp add: unsigned_ucast_eq take_bit_nat_eq_self)
  have n: "unat (of_nat k :: u32) = k" "unat (of_nat j :: u32) = j" using assms by (simp_all add: unat_of_nat)
  have "unat ((ucast c :: u32) - of_nat k) = (if k \<le> unat c then unat c - k else unat c + 2 ^ 32 - k)"
    using unat_sub_if' [of "ucast c :: u32" "of_nat k"] u n by simp
  then show ?thesis using n assms by (auto simp: word_less_nat_alt)
qed

lemma isdigit_iff: "isdigit c \<longleftrightarrow> 48 \<le> unat c \<and> unat c < 58"
  using ucast_sub_less [of 48 10 c] by (simp add: isdigit_def)

lemma isspace_iff: "isspace c \<longleftrightarrow> unat c = 32 \<or> (9 \<le> unat c \<and> unat c < 14)"
proof -
  have "c = 32 \<longleftrightarrow> unat c = 32" using unsigned_word_eqI [where ?'a = nat, of c 32] by auto
  then show ?thesis using ucast_sub_less [of 9 5 c] by (simp add: isspace_def)
qed

lemma skip_space_ok:
  assumes "rbytes m s (length sp) = sp" and "\<forall>c \<in> set sp. isspace c" and "\<not> isspace (m (s + of_nat (length sp)))"
  shows "skip_space m s = Some (s + of_nat (length sp))"
  using assms
proof (induction sp arbitrary: s)
  case Nil
  then show ?case by (subst skip_space.simps) simp
next
  case (Cons c sp)
  then have "skip_space m (s + 1) = Some (s + 1 + of_nat (length sp))"
    by (intro Cons.IH) (simp_all add: rbytes_Suc add.assoc)
  then show ?case using Cons.prems(1,2) by (subst skip_space.simps) (simp add: rbytes_Suc add.assoc)
qed

lemma rbytes_append_iff:
  "rbytes m a (length xs + length ys) = xs @ ys \<longleftrightarrow>
     rbytes m a (length xs) = xs \<and> rbytes m (a + of_nat (length xs)) (length ys) = ys"
  by (induction xs arbitrary: a) (auto simp: rbytes_Suc add.assoc)

lemma atoi_ok:
  assumes "rbytes m s (length (sp @ sg @ ds)) = sp @ sg @ ds" and "\<forall>c \<in> set sp. isspace c"
    and "sg = [] \<or> sg = [43] \<or> sg = [45]" and "ds \<noteq> []" and "\<forall>c \<in> set ds. isdigit c"
    and "\<not> isdigit (m (s + of_nat (length (sp @ sg @ ds))))"
  shows "atoi m s = Some (if sg = [45] then - digits_value ds else digits_value ds)"
proof -
  define s1 where "s1 = s + of_nat (length sp)"
  define s2 where "s2 = s1 + of_nat (length sg)"
  have sp: "rbytes m s (length sp) = sp" and sg: "rbytes m s1 (length sg) = sg" and ds: "rbytes m s2 (length ds) = ds"
    using assms(1) rbytes_append_iff [of m s sp "sg @ ds"] rbytes_append_iff [of m s1 sg ds]
    by (simp_all add: s1_def [symmetric] s2_def [symmetric])
  have dig: "isdigit (m s2)"
  proof -
    have l: "0 < length ds" using assms(4) by simp
    have "m s2 = rbytes m s2 (length ds) ! 0" using rbytes_nth [OF l, of m s2] by simp
    then have "m s2 = ds ! 0" unfolding ds .
    then show ?thesis using assms(5) nth_mem [OF l] by simp
  qed
  then have d2: "48 \<le> unat (m s2)" "unat (m s2) < 58" by (simp_all add: isdigit_iff)
  have n2: "m s2 \<noteq> 45" "m s2 \<noteq> 43" using d2 by auto
  consider "sg = []" "s1 = s2" | "sg = [43]" "s2 = s1 + 1" "m s1 = 43" | "sg = [45]" "s2 = s1 + 1" "m s1 = 45"
    using sg assms(3) unfolding s2_def by (auto simp: rbytes_Suc)
  note sign = this
  have "\<not> isspace (m s1)" using sign d2 by cases (simp_all add: isspace_iff)
  then have 1: "skip_space m s = Some s1"
    using skip_space_ok [OF sp assms(2)] by (simp add: s1_def)
  have 2: "(if m s1 = 45 \<or> m s1 = 43 then s1 + 1 else s1) = s2" "m s1 = 45 \<longleftrightarrow> sg = [45]"
    using sign n2 by (cases; simp)+
  have "s2 + of_nat (length ds) = s + of_nat (length (sp @ sg @ ds))"
    unfolding s1_def s2_def by (simp add: add.assoc)
  then have "\<not> isdigit (m (s2 + of_nat (length ds)))" using assms(6) by (simp only: simp_thms)
  then have "atoi_digits m s2 0 = Some (- digits_value ds)"
    using atoi_digits_ok [OF ds assms(5)] by (simp add: digits_value_def)
  then show ?thesis using 1 2 by (simp add: atoi_def Let_def)
qed

section \<open>Properties\<close>

text \<open>C15: \<^verbatim>\<open>strlen\<close>, which scans eight bytes at a time with the \<^verbatim>\<open>HASZERO\<close> trick once the
  pointer is aligned, terminates on every string and returns its length.\<close>

theorem strlen_correct:
  assumes "cstr m a cs"
  shows "strlen m a = Some (of_nat (length cs))"
  using strlen_ok [OF assms] .

definition mem_hello :: mem where
  "mem_hello = wbytes (\<lambda>_. 255) 0x1003 [104, 101, 108, 108, 111, 44, 32, 119, 111, 114, 108, 100, 0]"

lemma mem_hello_cstr: "cstr mem_hello 0x1003 [104, 101, 108, 108, 111, 44, 32, 119, 111, 114, 108, 100]"
  by (simp add: mem_hello_def wbytes_def)

theorem strlen_correct_witness: "strlen mem_hello 0x1003 = Some 12"
  using strlen_correct [OF mem_hello_cstr] by simp

text \<open>\<^verbatim>\<open>memchr\<close>, with its word-wise middle loop, returns the first of the \<open>n\<close> bytes that
  equals \<open>c\<close>, and the null pointer exactly when there is none.\<close>

theorem memchr_correct:
  "(memchr m src c n = Some p \<longleftrightarrow>
     (\<exists>i < unat n. p = src + of_nat i \<and> m p = c \<and> \<not> (\<exists>j < i. m (src + of_nat j) = c)))
   \<and> (memchr m src c n = None \<longleftrightarrow> \<not> (\<exists>i < unat n. m (src + of_nat i) = c))"
  using memchr_ok [of m src c n] by blast

text \<open>\<^verbatim>\<open>strcmp\<close> of two strings terminates and orders them as sequences of unsigned
  bytes: zero exactly for equal strings, negative exactly for the lexicographically
  smaller first one.\<close>

theorem strcmp_correct:
  assumes "cstr m l xs" and "cstr m r ys"
  shows "\<exists>v. strcmp m l r = Some v \<and> (v = 0 \<longleftrightarrow> xs = ys) \<and> (v < 0 \<longleftrightarrow> (xs, ys) \<in> lexord {(a, b). a < b})"
  using strcmp_ok [OF assms] .

theorem strcmp_correct_witness:
  "\<exists>v. strcmp mem_hello 0x1008 0x1009 = Some v \<and> (v < 0 \<longleftrightarrow> ([44, 32, 119, 111, 114, 108, 100], [32, 119, 111, 114, 108, 100]) \<in> lexord {(a, b :: u8). a < b})"
proof -
  have "cstr mem_hello 0x1008 [44, 32, 119, 111, 114, 108, 100]" "cstr mem_hello 0x1009 [32, 119, 111, 114, 108, 100]"
    by (simp_all add: mem_hello_def wbytes_def)
  from strcmp_correct [OF this] show ?thesis by blast
qed

text \<open>\<^verbatim>\<open>strcpy\<close> between blocks that do not overlap terminates, stores the string and its
  zero at the destination and nothing else, aligned or not, and returns the address of
  the zero (not the destination, as the C library's function would).\<close>

theorem strcpy_correct:
  assumes "cstr m s cs" and "apart d s (Suc (length cs))"
  shows "strcpy m d s = Some (d + of_nat (length cs), wbytes m d (cs @ [0]))"
  using strcpy_ok [OF assms] .

theorem strcpy_correct_witness:
  "strcpy mem_hello 0x200B 0x1003
     = Some (0x2017, wbytes mem_hello 0x200B [104, 101, 108, 108, 111, 44, 32, 119, 111, 114, 108, 100, 0])"
proof -
  have "apart 0x200B 0x1003 13"
    unfolding apart_def
  proof (intro conjI allI impI)
    fix i j :: nat assume ij: "i < 13" "j < 13"
    show "(0x200B :: u64) + of_nat i \<noteq> 0x1003 + of_nat j"
    proof
      assume "(0x200B :: u64) + of_nat i = 0x1003 + of_nat j"
      then have "unat (0x200B :: u64) + i = unat (0x1003 :: u64) + j"
        using ij by (intro block_addr_eq) simp_all
      then show False using ij by simp
    qed
  qed simp
  then show ?thesis using strcpy_correct [OF mem_hello_cstr, of "0x200B"] by (simp add: eval_nat_numeral)
qed

text \<open>\<^verbatim>\<open>atoi\<close> skips white space, takes an optional sign and returns the value of the
  digits that follow, up to the first byte that is not a digit.\<close>

theorem atoi_correct:
  assumes "rbytes m s (length (sp @ sg @ ds)) = sp @ sg @ ds" and "\<forall>c \<in> set sp. isspace c"
    and "sg = [] \<or> sg = [43] \<or> sg = [45]" and "ds \<noteq> []" and "\<forall>c \<in> set ds. isdigit c"
    and "\<not> isdigit (m (s + of_nat (length (sp @ sg @ ds))))"
  shows "atoi m s = Some (if sg = [45] then - digits_value ds else digits_value ds)"
  using atoi_ok [OF assms] .

theorem atoi_correct_witness:
  "atoi (wbytes (\<lambda>_. 0) 0x100 [32, 45, 49, 50, 51, 0]) 0x100 = Some (- 123)"
proof -
  let ?m = "wbytes (\<lambda>_. 0) 0x100 [32, 45, 49, 50, 51, 0]"
  have r: "rbytes ?m 0x100 (length ([32] @ [45] @ [49, 50, 51])) = [32] @ [45] @ [49, 50, 51]"
    by (simp add: rbytes_def wbytes_def upt_rec)
  have d: "\<forall>c \<in> set [49, 50, 51]. isdigit c" "\<forall>c \<in> set [32]. isspace c" by (simp_all add: isdigit_iff isspace_iff)
  have e: "\<not> isdigit (?m (0x100 + of_nat (length ([32] @ [45] @ [49, 50, 51 :: u8]))))"
    by (simp add: wbytes_def isdigit_iff)
  show ?thesis using atoi_correct [OF r d(2) _ _ d(1) e] by (simp add: digits_value_def)
qed

end
