(* ===== verification/Page_Table.thy ===== *)
theory Page_Table
  imports Frame_Alloc Phys_Mem
begin

text \<open>
  The three-level page tables of \<^verbatim>\<open>mm_page_table.c\<close>. Tables are pages of physical
  memory, taken from the frame allocator, and an entry is an aligned 64-bit cell of such
  a page. The circular \<^verbatim>\<open>fvec\<close> chain that remembers the table pages is the list of its
  pages from the root node on; the kernel-heap cells its nodes sit in are not tracked.
  A kernel buffer that a copy routine fills or reads is a list of bytes of its own.
\<close>

section \<open>Entries\<close>

type_synonym pte = u64

definition PTE_V :: u8 where "PTE_V = 0x01"
definition PTE_R :: u8 where "PTE_R = 0x02"
definition PTE_W :: u8 where "PTE_W = 0x04"
definition PTE_X :: u8 where "PTE_X = 0x08"
definition PTE_U :: u8 where "PTE_U = 0x10"

text \<open>The loop fills the indexes from the last one down.\<close>

primrec vpn_indexes_loop :: "nat \<Rightarrow> vpn \<Rightarrow> u64 list \<Rightarrow> u64 list" where
  "vpn_indexes_loop 0 v index3 = index3"
| "vpn_indexes_loop (Suc i) v index3 = vpn_indexes_loop i (drop_bit 9 v) (index3[i := v AND 511])"

definition vpn_indexes :: "vpn \<Rightarrow> u64 list" where
  "vpn_indexes v = vpn_indexes_loop 3 v [0, 0, 0]"

definition get_pte_array :: "ppn \<Rightarrow> u64" where
  "get_pte_array p = ppn2pa p"

definition get_byte_array :: "ppn \<Rightarrow> u64" where
  "get_byte_array p = ppn2pa p"

definition pte_new :: "ppn \<Rightarrow> u8 \<Rightarrow> pte" where
  "pte_new p flags = push_bit 10 p OR ucast flags"

definition pte_get_ppn :: "pte \<Rightarrow> ppn" where
  "pte_get_ppn e = (let t = push_bit 44 1 - 1 in drop_bit 10 e AND t)"

definition pte_get_pa :: "pte \<Rightarrow> paddr" where
  "pte_get_pa e = ppn2pa (pte_get_ppn e)"

definition pte_get_flags :: "pte \<Rightarrow> u8" where
  "pte_get_flags e = ucast (e AND 0x0FF)"

definition pte_empty :: "mem \<Rightarrow> u64 \<Rightarrow> mem" where
  "pte_empty m a = wu64 m a 0"

definition pte_is_valid :: "pte \<Rightarrow> bool" where
  "pte_is_valid e \<longleftrightarrow> pte_get_flags e AND PTE_V \<noteq> 0"

definition pte_readable :: "pte \<Rightarrow> bool" where
  "pte_readable e \<longleftrightarrow> pte_get_flags e AND PTE_R \<noteq> 0"

definition pte_writable :: "pte \<Rightarrow> bool" where
  "pte_writable e \<longleftrightarrow> pte_get_flags e AND PTE_W \<noteq> 0"

definition pte_excutable :: "pte \<Rightarrow> bool" where
  "pte_excutable e \<longleftrightarrow> pte_get_flags e AND PTE_X \<noteq> 0"

section \<open>Tables\<close>

record kmem =
  phys :: mem
  frames :: FrameAllocator

record PageTable =
  root_ppn :: ppn
  fnode :: "ppn list"

definition fvec_init :: "ppn \<Rightarrow> ppn list" where
  "fvec_init root = [root]"

text \<open>A new node goes right behind the root node.\<close>

fun fvec_push :: "ppn list \<Rightarrow> ppn \<Rightarrow> ppn list" where
  "fvec_push (r # rest) p = r # p # rest"
| "fvec_push [] p = [p]"

text \<open>
  The chain is cut behind the root node: the nodes after it go first, the root last.
\<close>

primrec fvec_destory_loop :: "FrameAllocator \<Rightarrow> ppn list \<Rightarrow> FrameAllocator res" where
  "fvec_destory_loop fa [] = Ok fa"
| "fvec_destory_loop fa (p # ps) = bind_res (frame_dealloc fa p) (\<lambda>fa. fvec_destory_loop fa ps)"

definition fvec_destory :: "FrameAllocator \<Rightarrow> ppn list \<Rightarrow> FrameAllocator res" where
  "fvec_destory fa f = fvec_destory_loop fa (tl f @ [hd f])"

definition pt_new :: "kmem \<Rightarrow> (PageTable \<times> kmem) res" where
  "pt_new s =
     bind_res (frame_alloc (frames s)) (\<lambda>(frame, fa).
       let p = get_byte_array frame;
           m = memset (phys s) p 0 PAGE_SIZE
       in Ok (\<lparr>root_ppn = frame, fnode = fvec_init frame\<rparr>, \<lparr>phys = m, frames = fa\<rparr>))"

definition pt_free :: "kmem \<Rightarrow> PageTable \<Rightarrow> kmem res" where
  "pt_free s pt = bind_res (fvec_destory (frames s) (fnode pt)) (\<lambda>fa. Ok (s\<lparr>frames := fa\<rparr>))"

text \<open>The address of entry \<open>i\<close> of the table in page \<open>p\<close>.\<close>

definition pte_at :: "ppn \<Rightarrow> u64 \<Rightarrow> u64" where
  "pte_at p i = get_pte_array p + 8 * i"

text \<open>
  The walk of \<^verbatim>\<open>find_pte_create\<close> over the indexes that are left; the last index ends it
  with the entry's address.
\<close>

fun find_pte_create_loop :: "kmem \<Rightarrow> ppn list \<Rightarrow> ppn \<Rightarrow> u64 list \<Rightarrow> (u64 \<times> kmem \<times> ppn list) res" where
  "find_pte_create_loop s f p [] = Ok (0, s, f)"
| "find_pte_create_loop s f p [i] = Ok (pte_at p i, s, f)"
| "find_pte_create_loop s f p (i # j # is) =
     (let pte = pte_at p i
      in if \<not> pte_is_valid (ru64 (phys s) pte)
         then bind_res (frame_alloc (frames s)) (\<lambda>(frame, fa).
                let m = memset (phys s) (get_byte_array frame) 0 PAGE_SIZE;
                    m = wu64 m pte (pte_new frame PTE_V);
                    f = fvec_push f frame
                in find_pte_create_loop \<lparr>phys = m, frames = fa\<rparr> f (pte_get_ppn (ru64 m pte)) (j # is))
         else find_pte_create_loop s f (pte_get_ppn (ru64 (phys s) pte)) (j # is))"

definition find_pte_create :: "kmem \<Rightarrow> PageTable \<Rightarrow> vpn \<Rightarrow> (u64 \<times> kmem \<times> PageTable) res" where
  "find_pte_create s self v =
     bind_res (find_pte_create_loop s (fnode self) (root_ppn self) (vpn_indexes v)) (\<lambda>(pte, s, f).
       Ok (pte, s, self\<lparr>fnode := f\<rparr>))"

text \<open>\<open>None\<close> is the null pointer.\<close>

fun find_pte_loop :: "mem \<Rightarrow> ppn \<Rightarrow> u64 list \<Rightarrow> u64 option" where
  "find_pte_loop m p [] = None"
| "find_pte_loop m p [i] = Some (pte_at p i)"
| "find_pte_loop m p (i # j # is) =
     (let pte = pte_at p i
      in if \<not> pte_is_valid (ru64 m pte) then None
         else find_pte_loop m (pte_get_ppn (ru64 m pte)) (j # is))"

definition find_pte :: "mem \<Rightarrow> PageTable \<Rightarrow> vpn \<Rightarrow> u64 option" where
  "find_pte m self v = find_pte_loop m (root_ppn self) (vpn_indexes v)"

definition map_page :: "kmem \<Rightarrow> PageTable \<Rightarrow> vpn \<Rightarrow> ppn \<Rightarrow> u8 \<Rightarrow> (kmem \<times> PageTable) res" where
  "map_page s self v p flags =
     bind_res (find_pte_create s self v) (\<lambda>(pte, s, self).
     bind_res (kassert (\<not> pte_is_valid (ru64 (phys s) pte))) (\<lambda>_.
     Ok (s\<lparr>phys := wu64 (phys s) pte (pte_new p (flags OR PTE_V))\<rparr>, self)))"

definition unmap_page :: "kmem \<Rightarrow> PageTable \<Rightarrow> vpn \<Rightarrow> (kmem \<times> PageTable) res" where
  "unmap_page s self v =
     bind_res (find_pte_create s self v) (\<lambda>(pte, s, self).
     bind_res (kassert (pte_is_valid (ru64 (phys s) pte))) (\<lambda>_.
     Ok (s\<lparr>phys := pte_empty (phys s) pte\<rparr>, self)))"

definition token :: "PageTable \<Rightarrow> u64" where
  "token self = push_bit 60 8 OR root_ppn self"

text \<open>
  Which table the current task translates with: the initial process uses the kernel's.
\<close>

definition task_table :: "bool \<Rightarrow> PageTable \<Rightarrow> PageTable \<Rightarrow> PageTable" where
  "task_table is_initproc own kpt = (if \<not> is_initproc then own else kpt)"

definition va2pa :: "mem \<Rightarrow> PageTable \<Rightarrow> vaddr \<Rightarrow> paddr res" where
  "va2pa m pt va =
     (let off = get_offset va; v = va2vpn va
      in case find_pte m pt v of
           None \<Rightarrow> Fail (Panic ''page fault !'')
         | Some pte \<Rightarrow> (let p = pte_get_ppn (ru64 m pte) in Ok (ppn2pa p OR off)))"

text \<open>
  The copy routines work page by page; \<open>n\<close> is what is left of the current page, at most
  what is left to copy, and it is never zero.
\<close>

definition chunk :: "vaddr \<Rightarrow> vaddr \<Rightarrow> u64 \<Rightarrow> u64" where
  "chunk a va len = (let n = PAGE_SIZE - (a - va) in if n > len then len else n)"

lemma chunk_bounds:
  assumes "len \<noteq> 0"
  shows "0 < chunk a (vpn2va (va2vpn a)) len" and "chunk a (vpn2va (va2vpn a)) len \<le> len"
    and "unat (chunk a (vpn2va (va2vpn a)) len) = min (unat len) (4096 - unat (get_offset a))"
proof -
  have d: "a - vpn2va (va2vpn a) = get_offset a" using addr_split_add [of a] by (simp add: algebra_simps)
  have o: "unat (get_offset a) < 4096" by (rule get_offset_less)
  have n: "unat (PAGE_SIZE - get_offset a) = 4096 - unat (get_offset a)"
    using o by (subst unat_sub) (simp_all add: PAGE_SIZE_def word_le_nat_alt)
  show "unat (chunk a (vpn2va (va2vpn a)) len) = min (unat len) (4096 - unat (get_offset a))"
    using n by (auto simp: chunk_def d Let_def word_less_nat_alt)
  moreover have "0 < unat len" using assms by (simp add: unat_gt_0)
  ultimately show "0 < chunk a (vpn2va (va2vpn a)) len" "chunk a (vpn2va (va2vpn a)) len \<le> len"
    using o by (simp_all add: word_less_nat_alt word_le_nat_alt)
qed

lemma chunk_decreases [termination_simp]:
  "len \<noteq> 0 \<Longrightarrow> unat (len - chunk a (vpn2va (va2vpn a)) len) < unat len"
  using chunk_bounds [of len a] by (simp add: unat_sub word_less_nat_alt word_le_nat_alt)

function copyin2_loop :: "mem \<Rightarrow> PageTable \<Rightarrow> vaddr \<Rightarrow> u64 \<Rightarrow> u8 list res" where
  "copyin2_loop m pt srcva len =
     (if len = 0 then Ok []
      else let va = vpn2va (va2vpn srcva)
           in bind_res (va2pa m pt va) (\<lambda>pa.
                let n = chunk srcva va len;
                    bs = rbytes m (pa + (srcva - va)) (unat n)
                in bind_res (copyin2_loop m pt (va + PAGE_SIZE) (len - n)) (\<lambda>bs'. Ok (bs @ bs'))))"
  by pat_completeness auto
termination by (relation "measure (\<lambda>(m, pt, a, len). unat len)") (simp_all add: chunk_decreases)

declare copyin2_loop.simps [simp del]

text \<open>The result is the return value and the bytes stored at \<^verbatim>\<open>dst\<close>.\<close>

definition copyin2 :: "mem \<Rightarrow> PageTable \<Rightarrow> vaddr \<Rightarrow> u64 \<Rightarrow> (int \<times> u8 list) res" where
  "copyin2 m pt srcva len = bind_res (copyin2_loop m pt srcva len) (\<lambda>bs. Ok (0, bs))"

function copyout2_loop :: "mem \<Rightarrow> PageTable \<Rightarrow> vaddr \<Rightarrow> u8 list \<Rightarrow> u64 \<Rightarrow> mem res" where
  "copyout2_loop m pt dstva src len =
     (if len = 0 then Ok m
      else let va = vpn2va (va2vpn dstva)
           in bind_res (va2pa m pt va) (\<lambda>pa.
                let n = chunk dstva va len
                in if length src < unat n then Fail Out_of_bounds
                   else copyout2_loop (wbytes m (pa + (dstva - va)) (take (unat n) src)) pt
                          (va + PAGE_SIZE) (drop (unat n) src) (len - n)))"
  by pat_completeness auto
termination by (relation "measure (\<lambda>(m, pt, a, src, len). unat len)") (simp_all add: chunk_decreases)

declare copyout2_loop.simps [simp del]

text \<open>\<open>sz\<close> is \<^verbatim>\<open>mytask()->base_size\<close>.\<close>

definition copyout2 :: "u64 \<Rightarrow> mem \<Rightarrow> PageTable \<Rightarrow> vaddr \<Rightarrow> u8 list \<Rightarrow> u64 \<Rightarrow> (int \<times> mem) res" where
  "copyout2 sz m pt dstva src len =
     (if (dstva + len > sz \<or> dstva \<ge> sz) \<and> dstva < VMA_START then Ok (- 1, m)
      else bind_res (copyout2_loop m pt dstva src len) (\<lambda>m. Ok (0, m)))"

text \<open>The inner loop: the bytes it stores and whether it met the final zero.\<close>

primrec copyinstr2_inner :: "mem \<Rightarrow> u64 \<Rightarrow> nat \<Rightarrow> u8 list \<times> bool" where
  "copyinstr2_inner m p 0 = ([], False)"
| "copyinstr2_inner m p (Suc n) =
     (if m p = 0 then ([0], True)
      else let (bs, go_null) = copyinstr2_inner m (p + 1) n in (m p # bs, go_null))"

function copyinstr2_loop :: "mem \<Rightarrow> PageTable \<Rightarrow> vaddr \<Rightarrow> u64 \<Rightarrow> (u8 list \<times> bool) res" where
  "copyinstr2_loop m pt srcva maxn =
     (if maxn = 0 then Ok ([], False)
      else let va = vpn2va (va2vpn srcva)
           in bind_res (va2pa m pt va) (\<lambda>pa.
                let n = chunk srcva va maxn;
                    (bs, go_null) = copyinstr2_inner m (pa + (srcva - va)) (unat n)
                in if go_null then Ok (bs, True)
                   else bind_res (copyinstr2_loop m pt (va + PAGE_SIZE) (maxn - n)) (\<lambda>(bs', go_null).
                          Ok (bs @ bs', go_null))))"
  by pat_completeness auto
termination by (relation "measure (\<lambda>(m, pt, a, maxn). unat maxn)") (simp_all add: chunk_decreases)

declare copyinstr2_loop.simps [simp del]

text \<open>\<^verbatim>\<open>max < 0\<close> is never true of an unsigned number.\<close>

definition copyinstr2 :: "u64 \<Rightarrow> mem \<Rightarrow> PageTable \<Rightarrow> vaddr \<Rightarrow> u64 \<Rightarrow> (int \<times> u8 list) res" where
  "copyinstr2 sz m pt srcva maxn =
     (if srcva + maxn > sz \<or> srcva \<ge> sz then Ok (- 1, [])
      else bind_res (copyinstr2_loop m pt srcva maxn) (\<lambda>(bs, go_null). Ok (if go_null then 0 else - 1, bs)))"

section \<open>Entry arithmetic\<close>

lemma vpn_indexes_eq: "vpn_indexes v = [drop_bit 18 v AND 511, drop_bit 9 v AND 511, v AND 511]"
  by (simp add: vpn_indexes_def numeral_3_eq_3)

lemma idx_less: "(v::u64) AND 511 < 512"
  using word_and_le1 [of v 511] by (rule le_less_trans) simp

lemma pte_get_flags_eq: "pte_get_flags e = ucast (take_bit 8 e)"
  by (simp add: pte_get_flags_def take_bit_eq_mask mask_eq_exp_minus_1)

lemma pte_get_ppn_eq: "pte_get_ppn e = take_bit 44 (drop_bit 10 e)"
  by (simp add: pte_get_ppn_def take_bit_eq_mask mask_eq_exp_minus_1 push_bit_eq_mult)

lemma pte_new_flags: "pte_get_flags (pte_new p fl) = fl"
  by (rule bit_word_eqI) (auto simp: pte_get_flags_eq pte_new_def bit_simps)

lemma pte_new_ppn:
  assumes "p < 2 ^ 44"
  shows "pte_get_ppn (pte_new p fl) = p"
proof -
  have "take_bit 44 p = p" using assms by (simp add: take_bit_eq_mask less_mask_eq)
  then have b: "bit p n \<Longrightarrow> n < 44" for n by (metis bit_take_bit_iff)
  show ?thesis
    by (rule bit_word_eqI) (auto simp: pte_get_ppn_eq pte_new_def bit_simps dest: b bit_imp_le_length)
qed

lemma pte_new_valid: "pte_is_valid (pte_new p fl) \<longleftrightarrow> fl AND PTE_V \<noteq> 0"
  by (simp add: pte_is_valid_def pte_new_flags)

lemma PTE_V_set [simp]: "PTE_V \<noteq> 0" "(fl OR PTE_V) AND PTE_V \<noteq> 0"
proof -
  have "bit ((fl OR PTE_V) AND PTE_V) 0" by (simp add: PTE_V_def bit_simps)
  then show "(fl OR PTE_V) AND PTE_V \<noteq> 0" by auto
qed (simp add: PTE_V_def)

lemma zero_invalid [simp]: "\<not> pte_is_valid 0"
  by (simp add: pte_is_valid_def pte_get_flags_def)

lemma unat_pte_at:
  assumes "p < 2 ^ 52" and "i < 512" and "k < 8"
  shows "unat (pte_at p i + of_nat k) = unat p * 4096 + 8 * unat i + k"
proof -
  have p: "unat p < 2 ^ 52" and i: "unat i < 512"
    using assms by (simp_all add: word_less_nat_alt)
  have 1: "unat (push_bit 12 p) = unat p * 4096"
    using p unfolding push_bit_eq_mult unat_word_ariths by simp
  have 2: "unat (8 * i) = 8 * unat i" using i unfolding unat_word_ariths by simp
  have 3: "unat (of_nat k :: u64) = k" using assms(3) by (simp add: unat_of_nat)
  have "unat (push_bit 12 p + 8 * i) = unat p * 4096 + 8 * unat i"
    using p i unfolding unat_word_ariths 1 2 by simp
  then have "unat (push_bit 12 p + 8 * i + of_nat k) = unat p * 4096 + 8 * unat i + k"
    using p i assms(3) 3 by (subst unat_word_ariths) simp
  then show ?thesis by (simp add: pte_at_def get_pte_array_def vpn_conv)
qed

lemma pte_at_apart:
  assumes "p < 2 ^ 52" and "q < 2 ^ 52" and "i < 512" and "j < 512" and "k < 8" and "l < 8"
    and "pte_at p i + of_nat k = pte_at q j + of_nat l"
  shows "p = q \<and> i = j"
proof -
  have e: "unat p * 4096 + 8 * unat i + k = unat q * 4096 + 8 * unat j + l"
    using unat_pte_at [of p i k] unat_pte_at [of q j l] assms by simp
  have i: "unat i < 512" "unat j < 512" using assms by (simp_all add: word_less_nat_alt)
  have "unat p = (unat p * 4096 + (8 * unat i + k)) div 4096"
    "unat q = (unat q * 4096 + (8 * unat j + l)) div 4096"
    using i assms(5,6) by simp_all
  then have "unat p = unat q" using e by (simp only: add.assoc)
  moreover have "unat i = (8 * unat i + k) div 8" "unat j = (8 * unat j + l) div 8"
    using assms(5,6) by simp_all
  with e have "unat i = unat j" unfolding \<open>unat p = unat q\<close> by simp
  ultimately show ?thesis by (simp add: unsigned_word_eqI)
qed


section \<open>Entries in memory\<close>

definition entry :: "mem \<Rightarrow> ppn \<Rightarrow> u64 \<Rightarrow> pte" where
  "entry m p i = ru64 m (pte_at p i)"

lemma entry_write:
  assumes "p < 2 ^ 52" and "i < 512" and "q < 2 ^ 52" and "j < 512"
  shows "entry (wu64 m (pte_at p i) w) q j = (if q = p \<and> j = i then w else entry m q j)"
proof (cases "q = p \<and> j = i")
  case True
  then show ?thesis by (simp add: entry_def)
next
  case False
  then have "wu64 m (pte_at p i) w (pte_at q j + of_nat k) = m (pte_at q j + of_nat k)" if "k < 8" for k
    using that pte_at_apart [OF assms(3,1,4,2) that] by (intro wu64_out) blast
  then show ?thesis using False unfolding entry_def by (auto intro: ru64_cong)
qed

text \<open>The address \<open>x\<close> lies in page \<open>p\<close>.\<close>

lemma byte_page:
  assumes "p < 2 ^ 52" and "k < 4096"
  shows "pa2ppn (ppn2pa p + of_nat k) = p" and "unat (ppn2pa p + of_nat k) = unat p * 4096 + k"
proof -
  have p: "unat p < 2 ^ 52" using assms by (simp add: word_less_nat_alt)
  have 1: "unat (push_bit 12 p) = unat p * 4096"
    using p unfolding push_bit_eq_mult unat_word_ariths by simp
  have 3: "unat (of_nat k :: u64) = k" using assms(2) by (simp add: unat_of_nat)
  have u: "unat (push_bit 12 p + of_nat k) = unat p * 4096 + k"
    using p assms(2) 3 1 by (subst unat_word_ariths) simp
  then show "unat (ppn2pa p + of_nat k) = unat p * 4096 + k" by (simp add: vpn_conv)
  have "unat (drop_bit 12 (push_bit 12 p + of_nat k)) = unat p"
    using u p assms(2) unfolding unsigned_drop_bit_eq by (simp add: drop_bit_eq_div take_bit_nat_eq_self)
  then show "pa2ppn (ppn2pa p + of_nat k) = p" by (simp add: vpn_conv unsigned_word_eqI)
qed

lemma pte_at_page:
  assumes "p < 2 ^ 52" and "i < 512" and "k < 8"
  shows "pa2ppn (pte_at p i + of_nat k) = p"
proof -
  have "8 * unat i + k < 4096" using assms(2,3) by (simp add: word_less_nat_alt)
  moreover have "pte_at p i + of_nat k = ppn2pa p + of_nat (8 * unat i + k)"
    by (simp add: pte_at_def get_pte_array_def)
  ultimately show ?thesis using byte_page(1) [OF assms(1)] by metis
qed

lemma wu64_other_page:
  "p < 2 ^ 52 \<Longrightarrow> i < 512 \<Longrightarrow> pa2ppn x \<noteq> p \<Longrightarrow> wu64 m (pte_at p i) w x = m x"
  by (rule wu64_out) (auto simp: pte_at_page)

lemma memset_page:
  assumes "p < 2 ^ 52"
  shows "memset m (get_byte_array p) c PAGE_SIZE x = (if pa2ppn x = p then c else m x)"
proof (cases "pa2ppn x = p")
  case True
  have off: "unat (get_offset x) < 4096" by (rule get_offset_less)
  have x: "x = ppn2pa p + of_nat (unat (get_offset x))"
    using addr_split_add [of x] True by (simp add: vpn2va_def va2vpn_def)
  have "wbytes m (ppn2pa p) (replicate 4096 c) (ppn2pa p + of_nat (unat (get_offset x))) = c"
    using off by (subst wbytes_in) simp_all
  then have "wbytes m (ppn2pa p) (replicate 4096 c) x = c" using x by simp
  then show ?thesis using True by (simp add: memset_wbytes get_byte_array_def PAGE_SIZE_def)
next
  case False
  then have "wbytes m (ppn2pa p) (replicate 4096 c) x = m x"
    using byte_page(1) [OF assms] by (intro wbytes_out) auto
  then show ?thesis using False by (simp add: memset_wbytes get_byte_array_def PAGE_SIZE_def)
qed

lemma entry_memset:
  assumes "p < 2 ^ 52" and "q < 2 ^ 52" and "j < 512"
  shows "entry (memset m (get_byte_array p) 0 PAGE_SIZE) q j = (if q = p then 0 else entry m q j)"
proof -
  let ?m = "memset m (get_byte_array p) 0 PAGE_SIZE"
  have b: "?m (pte_at q j + of_nat k) = (if q = p then 0 else m (pte_at q j + of_nat k))" if "k < 8" for k
    using memset_page [OF assms(1)] pte_at_page [OF assms(2,3) that] by simp
  show ?thesis
  proof (cases "q = p")
    case True
    then have "rbytes ?m (pte_at q j) 8 = replicate 8 0" using b by (intro nth_equalityI) simp_all
    then show ?thesis using True le_word_zero by (simp add: entry_def ru64_def)
  next
    case False
    then show ?thesis using b unfolding entry_def by (auto intro: ru64_cong)
  qed
qed

section \<open>The tree of tables\<close>

text \<open>The table that the path of indexes \<open>is\<close> leads to from the table in page \<open>p\<close>.\<close>

fun tab :: "mem \<Rightarrow> ppn \<Rightarrow> u64 list \<Rightarrow> ppn option" where
  "tab m p [] = Some p"
| "tab m p (i # is) = (if pte_is_valid (entry m p i) then tab m (pte_get_ppn (entry m p i)) is else None)"

definition child :: "mem \<Rightarrow> ppn \<Rightarrow> u64 \<Rightarrow> ppn option" where
  "child m p i = (if pte_is_valid (entry m p i) then Some (pte_get_ppn (entry m p i)) else None)"

lemma tab_snoc: "tab m p (is @ [i]) = (case tab m p is of None \<Rightarrow> None | Some q \<Rightarrow> child m q i)"
  by (induction "is" arbitrary: p) (auto simp: child_def)

text \<open>Paths to tables: at most two indexes.\<close>

definition tpath :: "u64 list \<Rightarrow> bool" where
  "tpath is \<longleftrightarrow> length is \<le> 2 \<and> (\<forall>i \<in> set is. i < 512)"

definition tables :: "mem \<Rightarrow> ppn \<Rightarrow> ppn set" where
  "tables m r = {p. \<exists>is. tpath is \<and> tab m r is = Some p}"

text \<open>
  The invariant: the tables are allocated pages, no page serves as two tables, the
  \<^verbatim>\<open>fvec\<close> chain lists exactly the tables, starting with the root.
\<close>

definition pt_inv :: "ppn \<Rightarrow> kmem \<Rightarrow> PageTable \<Rightarrow> bool" where
  "pt_inv lo s pt \<longleftrightarrow> fa_inv lo (frames s) \<and> fend (frames s) \<le> 2 ^ 44
     \<and> tables (phys s) (root_ppn pt) \<subseteq> fa_allocated lo (frames s)
     \<and> (\<forall>is js p. tpath is \<longrightarrow> tpath js \<longrightarrow> tab (phys s) (root_ppn pt) is = Some p
          \<longrightarrow> tab (phys s) (root_ppn pt) js = Some p \<longrightarrow> is = js)
     \<and> set (fnode pt) = tables (phys s) (root_ppn pt) \<and> distinct (fnode pt)
     \<and> fnode pt \<noteq> [] \<and> hd (fnode pt) = root_ppn pt"

text \<open>What a page table promises: a partial map from virtual page numbers to valid entries.\<close>

definition leaf :: "mem \<Rightarrow> ppn \<Rightarrow> u64 list \<Rightarrow> u64 \<Rightarrow> pte option" where
  "leaf m r is k = (case tab m r is of None \<Rightarrow> None
     | Some p \<Rightarrow> if pte_is_valid (entry m p k) then Some (entry m p k) else None)"

definition pt_lookup :: "mem \<Rightarrow> PageTable \<Rightarrow> vpn \<Rightarrow> pte option" where
  "pt_lookup m pt v = leaf m (root_ppn pt) [drop_bit 18 v AND 511, drop_bit 9 v AND 511] (v AND 511)"

lemma tables_small:
  assumes "pt_inv lo s pt" and "p \<in> tables (phys s) (root_ppn pt)"
  shows "p < 2 ^ 44" and "p < 2 ^ 52"
proof -
  have "p \<in> {lo..<fend (frames s)}"
    using assms fa_allocated_below [of lo "frames s"] by (auto simp: pt_inv_def)
  moreover have "fend (frames s) \<le> 2 ^ 44" using assms(1) by (simp add: pt_inv_def)
  ultimately show "p < 2 ^ 44" by (auto intro: order.strict_trans2)
  then show "p < 2 ^ 52" by (rule order.strict_trans) simp
qed

lemma tpathI [simp, intro]:
  "tpath []" "i < 512 \<Longrightarrow> tpath [i]" "i < 512 \<Longrightarrow> j < 512 \<Longrightarrow> tpath [i, j]"
  by (auto simp: tpath_def)

lemma tpath_snoc: "tpath (is @ [i]) \<longleftrightarrow> length is \<le> 1 \<and> tpath is \<and> i < 512"
  by (auto simp: tpath_def)


lemma tab_inj:
  "pt_inv lo s pt \<Longrightarrow> tpath is \<Longrightarrow> tpath js \<Longrightarrow> tab (phys s) (root_ppn pt) is = Some p \<Longrightarrow>
     tab (phys s) (root_ppn pt) js = Some p \<Longrightarrow> is = js"
  by (auto simp: pt_inv_def)

lemma tablesI: "tpath is \<Longrightarrow> tab m r is = Some p \<Longrightarrow> p \<in> tables m r"
  by (auto simp: tables_def)

section \<open>Growing the tree\<close>

text \<open>
  One step of \<^verbatim>\<open>find_pte_create\<close> that finds no table: a fresh page \<open>q\<close> is cleared and hung
  under entry \<open>i\<close> of the table \<open>p\<close>. Exactly one path is new.
\<close>

definition grow_step ::
  "ppn \<Rightarrow> kmem \<Rightarrow> PageTable \<Rightarrow> u64 list \<Rightarrow> ppn \<Rightarrow> u64 \<Rightarrow> ppn \<Rightarrow> FrameAllocator \<Rightarrow> mem \<Rightarrow> bool" where
  "grow_step lo s pt is p i q fa' m' \<longleftrightarrow> pt_inv lo s pt \<and> length is \<le> 1 \<and> tpath is \<and> i < 512
     \<and> tab (phys s) (root_ppn pt) is = Some p \<and> \<not> pte_is_valid (entry (phys s) p i)
     \<and> frame_alloc (frames s) = Ok (q, fa')
     \<and> m' = wu64 (memset (phys s) (get_byte_array q) 0 PAGE_SIZE) (pte_at p i) (pte_new q PTE_V)"

lemma grow_stepD:
  assumes "grow_step lo s pt is p i q fa' m'"
  shows grow_inv: "pt_inv lo s pt" and grow_short: "length is \<le> 1" and grow_path: "tpath is" and grow_i: "i < 512"
    and grow_at: "tab (phys s) (root_ppn pt) is = Some p"
    and grow_none: "\<not> pte_is_valid (entry (phys s) p i)"
    and grow_alloc: "frame_alloc (frames s) = Ok (q, fa')"
    and grow_m: "m' = wu64 (memset (phys s) (get_byte_array q) 0 PAGE_SIZE) (pte_at p i) (pte_new q PTE_V)"
  using assms by (simp_all add: grow_step_def)

lemma grow_fa_inv: "grow_step lo s pt is p i q fa' m' \<Longrightarrow> fa_inv lo (frames s)"
  by (simp add: grow_step_def pt_inv_def)

lemma grow_old_none: "grow_step lo s pt is p i q fa' m' \<Longrightarrow> tab (phys s) (root_ppn pt) (is @ [i]) = None"
  by (simp add: grow_step_def tab_snoc child_def)

lemma grow_frames:
  assumes g: "grow_step lo s pt is p i q fa' m'"
  shows "fa_inv lo fa'" and "q \<in> fa_free (frames s)" and "q \<notin> fa_allocated lo (frames s)"
    and "fa_allocated lo fa' = insert q (fa_allocated lo (frames s))" and "fa_free fa' = fa_free (frames s) - {q}"
  by (rule pf.alloc_cases [OF grow_fa_inv [OF g] grow_alloc [OF g]])+

lemma grow_q_small:
  assumes g: "grow_step lo s pt is p i q fa' m'"
  shows "q < 2 ^ 44" and "q < 2 ^ 52"
proof -
  have e: "fend (frames s) \<le> 2 ^ 44" using grow_inv [OF g] by (simp add: pt_inv_def)
  have "q < fend (frames s)" using grow_frames(2) [OF g] fa_free_compl [OF grow_fa_inv [OF g]] by auto
  then show "q < 2 ^ 44" using e by (rule order.strict_trans2)
  then show "q < 2 ^ 52" by (rule order.strict_trans) simp
qed

lemma grow_p_table:
  assumes g: "grow_step lo s pt is p i q fa' m'"
  shows "p \<in> tables (phys s) (root_ppn pt)" and "p < 2 ^ 52"
  using tablesI [OF grow_path [OF g] grow_at [OF g]] tables_small [OF grow_inv [OF g]] by auto

lemma grow_q_fresh:
  assumes g: "grow_step lo s pt is p i q fa' m'"
  shows "q \<notin> tables (phys s) (root_ppn pt)"
  using grow_inv [OF g] grow_frames(3) [OF g] by (auto simp: pt_inv_def)

lemma grow_entry:
  assumes g: "grow_step lo s pt is p i q fa' m'" and "r < 2 ^ 52" and "j < 512"
  shows "entry m' r j = (if r = p \<and> j = i then pte_new q PTE_V else if r = q then 0 else entry (phys s) r j)"
  unfolding grow_m [OF g] using assms(2,3) grow_q_small [OF g] grow_p_table [OF g] grow_i [OF g]
  by (simp add: entry_write entry_memset)

lemma grow_child:
  assumes g: "grow_step lo s pt is p i q fa' m'" and r: "r \<in> tables (phys s) (root_ppn pt)" and j: "j < 512"
  shows "child m' r j = (if r = p \<and> j = i then Some q else child (phys s) r j)"
  using grow_entry [OF g tables_small(2) [OF grow_inv [OF g] r] j] r grow_q_fresh [OF g] grow_q_small [OF g]
  by (auto simp: child_def pte_new_valid pte_new_ppn)

lemma grow_q_empty:
  assumes g: "grow_step lo s pt is p i q fa' m'" and "j < 512"
  shows "entry m' q j = 0"
  using grow_entry [OF g grow_q_small(2) [OF g] assms(2)] grow_p_table [OF g] grow_q_fresh [OF g] by auto

lemma grow_tab:
  assumes g: "grow_step lo s pt is p i q fa' m'" and "tpath js"
  shows "tab m' (root_ppn pt) js = (if js = is @ [i] then Some q else tab (phys s) (root_ppn pt) js)"
  using assms(2)
proof (induction js rule: rev_induct)
  case Nil
  then show ?case by simp
next
  case (snoc k js)
  then have js: "tpath js" "k < 512" by (simp_all add: tpath_snoc)
  show ?case
  proof (cases "js = is @ [i]")
    case True
    then have "tab m' (root_ppn pt) js = Some q" "tab (phys s) (root_ppn pt) js = None"
      using snoc.IH [OF js(1)] grow_old_none [OF g] by simp_all
    then have "tab m' (root_ppn pt) (js @ [k]) = None" "tab (phys s) (root_ppn pt) (js @ [k]) = None"
      unfolding tab_snoc using grow_q_empty [OF g js(2)] by (simp_all add: child_def)
    then show ?thesis using True by simp
  next
    case False
    then have IH: "tab m' (root_ppn pt) js = tab (phys s) (root_ppn pt) js" using snoc.IH [OF js(1)] by simp
    show ?thesis
    proof (cases "tab (phys s) (root_ppn pt) js")
      case None
      then show ?thesis using IH grow_at [OF g] by (auto simp: tab_snoc)
    next
      case (Some r)
      then have r: "r \<in> tables (phys s) (root_ppn pt)" using js(1) by (auto intro: tablesI)
      have "r = p \<longleftrightarrow> js = is"
        using tab_inj [OF grow_inv [OF g] js(1) grow_path [OF g] Some] grow_at [OF g] Some by auto
      then show ?thesis using IH Some grow_child [OF g r js(2)] by (auto simp: tab_snoc)
    qed
  qed
qed

lemma grow_tables:
  assumes g: "grow_step lo s pt is p i q fa' m'"
  shows "tables m' (root_ppn pt) = insert q (tables (phys s) (root_ppn pt))"
proof (intro equalityI subsetI)
  fix r assume "r \<in> tables m' (root_ppn pt)"
  then obtain js where "tpath js" "tab m' (root_ppn pt) js = Some r" by (auto simp: tables_def)
  then show "r \<in> insert q (tables (phys s) (root_ppn pt))"
    using grow_tab [OF g] by (auto intro: tablesI split: if_splits)
next
  have new: "tpath (is @ [i])" using grow_short [OF g] grow_path [OF g] grow_i [OF g] by (simp add: tpath_snoc)
  fix r assume r: "r \<in> insert q (tables (phys s) (root_ppn pt))"
  show "r \<in> tables m' (root_ppn pt)"
  proof (cases "r = q")
    case True
    then show ?thesis using grow_tab [OF g new] new by (auto intro: tablesI)
  next
    case False
    then obtain js where js: "tpath js" "tab (phys s) (root_ppn pt) js = Some r" using r by (auto simp: tables_def)
    then have "js \<noteq> is @ [i]" using grow_old_none [OF g] by auto
    then show ?thesis using js grow_tab [OF g js(1)] by (auto intro: tablesI)
  qed
qed

lemma grow_inj:
  assumes g: "grow_step lo s pt is p i q fa' m'" and "tpath js" and "tpath ks"
    and "tab m' (root_ppn pt) js = Some r" and "tab m' (root_ppn pt) ks = Some r"
  shows "js = ks"
proof -
  have "r \<noteq> q" if "tab (phys s) (root_ppn pt) js = Some r" "tpath js" for js
    using grow_q_fresh [OF g] tablesI [OF that(2,1)] by auto
  then show ?thesis
    using assms grow_tab [OF g assms(2)] grow_tab [OF g assms(3)] tab_inj [OF grow_inv [OF g] assms(2,3)]
    by (auto split: if_splits)
qed

lemma grow_pt_inv:
  assumes g: "grow_step lo s pt is p i q fa' m'"
  shows "pt_inv lo \<lparr>phys = m', frames = fa'\<rparr> (pt\<lparr>fnode := fvec_push (fnode pt) q\<rparr>)"
proof -
  note inv = grow_inv [OF g]
  obtain rest where f: "fnode pt = root_ppn pt # rest" using inv by (cases "fnode pt") (auto simp: pt_inv_def)
  have "fend fa' = fend (frames s)"
    using frame_alloc_ok [OF grow_fa_inv [OF g]] grow_alloc [OF g] grow_frames(2) [OF g] by fastforce
  moreover have "distinct (fvec_push (fnode pt) q)" "set (fvec_push (fnode pt) q) = insert q (set (fnode pt))"
    using inv grow_q_fresh [OF g] f by (auto simp: pt_inv_def)
  moreover have "\<forall>js ks r. tpath js \<longrightarrow> tpath ks \<longrightarrow> tab m' (root_ppn pt) js = Some r \<longrightarrow>
      tab m' (root_ppn pt) ks = Some r \<longrightarrow> js = ks"
    using grow_inj [OF g] by blast
  ultimately show ?thesis
    using inv grow_frames [OF g] f grow_tables [OF g] by (simp add: pt_inv_def subset_insertI2)
qed

lemma grow_leaf:
  assumes g: "grow_step lo s pt is p i q fa' m'" and "tpath js" and "length js = 2" and "k < 512"
  shows "leaf m' (root_ppn pt) js k = leaf (phys s) (root_ppn pt) js k"
proof (cases "js = is @ [i]")
  case True
  then have "tab m' (root_ppn pt) js = Some q" "tab (phys s) (root_ppn pt) js = None"
    using grow_tab [OF g assms(2)] grow_old_none [OF g] by simp_all
  then show ?thesis using grow_q_empty [OF g assms(4)] by (simp add: leaf_def)
next
  case False
  then have t: "tab m' (root_ppn pt) js = tab (phys s) (root_ppn pt) js" using grow_tab [OF g assms(2)] by simp
  show ?thesis
  proof (cases "tab (phys s) (root_ppn pt) js")
    case None
    then show ?thesis using t by (simp add: leaf_def)
  next
    case (Some r)
    have rt: "r \<in> tables (phys s) (root_ppn pt)" using tablesI [OF assms(2) Some] .
    have "r \<noteq> p"
      using tab_inj [OF grow_inv [OF g] assms(2) grow_path [OF g] Some] grow_at [OF g] assms(3) grow_short [OF g]
      by auto
    then have "entry m' r k = entry (phys s) r k"
      using grow_entry [OF g tables_small(2) [OF grow_inv [OF g] rt] assms(4)] rt grow_q_fresh [OF g] by auto
    then show ?thesis using t Some by (simp add: leaf_def)
  qed
qed

lemma grow_bytes:
  assumes g: "grow_step lo s pt is p i q fa' m'" and x: "pa2ppn x \<notin> tables m' (root_ppn pt)"
  shows "m' x = phys s x"
proof -
  have "pa2ppn x \<noteq> p" "pa2ppn x \<noteq> q" using x grow_tables [OF g] grow_p_table(1) [OF g] by auto
  then show ?thesis unfolding grow_m [OF g]
    using grow_p_table(2) [OF g] grow_q_small(2) [OF g] grow_i [OF g] by (simp add: wu64_other_page memset_page)
qed

section \<open>find\_pte\_create\<close>

text \<open>
  \<open>(s', pt')\<close> is \<open>(s, pt)\<close> with perhaps more tables: no virtual page changed its entry, and
  no byte changed outside the tables, the new ones being pages that were free.
\<close>

definition pt_ext :: "ppn \<Rightarrow> kmem \<Rightarrow> PageTable \<Rightarrow> kmem \<Rightarrow> PageTable \<Rightarrow> bool" where
  "pt_ext lo s pt s' pt' \<longleftrightarrow> pt_inv lo s' pt' \<and> root_ppn pt' = root_ppn pt
     \<and> (\<forall>js k. tpath js \<longrightarrow> length js = 2 \<longrightarrow> k < 512 \<longrightarrow>
          leaf (phys s') (root_ppn pt) js k = leaf (phys s) (root_ppn pt) js k)
     \<and> set (fnode pt) \<subseteq> set (fnode pt') \<and> set (fnode pt') \<subseteq> set (fnode pt) \<union> fa_free (frames s)
     \<and> fa_allocated lo (frames s') = fa_allocated lo (frames s) \<union> set (fnode pt')
     \<and> fa_free (frames s') \<subseteq> fa_free (frames s)
     \<and> (\<forall>x. pa2ppn x \<notin> set (fnode pt') \<longrightarrow> phys s' x = phys s x)"

lemma pt_inv_tables:
  assumes "pt_inv lo s pt"
  shows "set (fnode pt) = tables (phys s) (root_ppn pt)" and "set (fnode pt) \<subseteq> fa_allocated lo (frames s)"
    and "fa_inv lo (frames s)"
  using assms by (simp_all add: pt_inv_def)

lemma pt_ext_refl: "pt_inv lo s pt \<Longrightarrow> pt_ext lo s pt s pt"
  using pt_inv_tables(2) [of lo s pt] by (simp add: pt_ext_def Un_absorb2)

lemma pt_extD:
  assumes "pt_ext lo s pt s' pt'"
  shows "pt_inv lo s' pt'" and "root_ppn pt' = root_ppn pt"
    and "\<And>js k. tpath js \<Longrightarrow> length js = 2 \<Longrightarrow> k < 512 \<Longrightarrow>
          leaf (phys s') (root_ppn pt) js k = leaf (phys s) (root_ppn pt) js k"
    and "set (fnode pt) \<subseteq> set (fnode pt')" and "set (fnode pt') \<subseteq> set (fnode pt) \<union> fa_free (frames s)"
    and "fa_allocated lo (frames s') = fa_allocated lo (frames s) \<union> set (fnode pt')"
    and "fa_free (frames s') \<subseteq> fa_free (frames s)"
    and "\<And>x. pa2ppn x \<notin> set (fnode pt') \<Longrightarrow> phys s' x = phys s x"
  using assms unfolding pt_ext_def by blast+

lemma pt_ext_trans:
  assumes 1: "pt_ext lo s pt s' pt'" and 2: "pt_ext lo s' pt' s'' pt''"
  shows "pt_ext lo s pt s'' pt''"
  unfolding pt_ext_def
proof (intro conjI allI impI)
  show "pt_inv lo s'' pt''" by (rule pt_extD(1) [OF 2])
  show "root_ppn pt'' = root_ppn pt" using pt_extD(2) [OF 1] pt_extD(2) [OF 2] by simp
  show "leaf (phys s'') (root_ppn pt) js k = leaf (phys s) (root_ppn pt) js k"
    if "tpath js" "length js = 2" "k < 512" for js k
    using pt_extD(3) [OF 1 that] pt_extD(3) [OF 2 that] pt_extD(2) [OF 1] by simp
  show "set (fnode pt) \<subseteq> set (fnode pt'')" using pt_extD(4) [OF 1] pt_extD(4) [OF 2] by (rule subset_trans)
  show "set (fnode pt'') \<subseteq> set (fnode pt) \<union> fa_free (frames s)"
    using pt_extD(5,7) [OF 1] pt_extD(5) [OF 2] by blast
  show "fa_allocated lo (frames s'') = fa_allocated lo (frames s) \<union> set (fnode pt'')"
    using pt_extD(6) [OF 1] pt_extD(4,6) [OF 2] by blast
  show "fa_free (frames s'') \<subseteq> fa_free (frames s)" using pt_extD(7) [OF 2] pt_extD(7) [OF 1] by (rule subset_trans)
  show "phys s'' x = phys s x" if "pa2ppn x \<notin> set (fnode pt'')" for x
    using pt_extD(8) [OF 1] pt_extD(8) [OF 2 that] pt_extD(4) [OF 2] that by auto
qed

lemma pt_ext_grow:
  assumes g: "grow_step lo s pt is p i q fa' m'"
  shows "pt_ext lo s pt \<lparr>phys = m', frames = fa'\<rparr> (pt\<lparr>fnode := fvec_push (fnode pt) q\<rparr>)"
proof -
  let ?s = "\<lparr>phys = m', frames = fa'\<rparr>" and ?pt = "pt\<lparr>fnode := fvec_push (fnode pt) q\<rparr>"
  note inv = pt_inv_tables [OF grow_inv [OF g]] and inv' = pt_inv_tables [OF grow_pt_inv [OF g]]
  have new: "set (fnode ?pt) = insert q (set (fnode pt))" using inv(1) inv'(1) grow_tables [OF g] by simp
  have al: "fa_allocated lo fa' = fa_allocated lo (frames s) \<union> set (fnode ?pt)"
    unfolding new using grow_frames(4) [OF g] inv(2) by auto
  have lf: "leaf m' (root_ppn pt) js k = leaf (phys s) (root_ppn pt) js k"
    if "tpath js" "length js = 2" "k < 512" for js k using grow_leaf [OF g that] .
  have bt: "m' x = phys s x" if "pa2ppn x \<notin> set (fnode ?pt)" for x
    using grow_bytes [OF g] that inv'(1) by simp
  show ?thesis
    unfolding pt_ext_def using grow_pt_inv [OF g] lf bt al new grow_frames(2,5) [OF g]
    by (simp add: subset_insertI)
qed

lemma pte_at_entry: "ru64 m (pte_at p i) = entry m p i"
  by (simp add: entry_def)

lemma fpc_step:
  assumes inv: "pt_inv lo s pt" and path: "tpath (is @ [i])" and at: "tab (phys s) (root_ppn pt) is = Some p"
    and free: "fa_free (frames s) \<noteq> {}"
  shows "\<exists>s' f' q. find_pte_create_loop s (fnode pt) p (i # j # js) = find_pte_create_loop s' f' q (j # js)
    \<and> pt_ext lo s pt s' (pt\<lparr>fnode := f'\<rparr>) \<and> tab (phys s') (root_ppn pt) (is @ [i]) = Some q
    \<and> card (fa_free (frames s)) \<le> card (fa_free (frames s')) + 1"
proof (cases "pte_is_valid (entry (phys s) p i)")
  case True
  then show ?thesis
    using pt_ext_refl [OF inv] at
    by (intro exI [of _ s] exI [of _ "fnode pt"] exI [of _ "pte_get_ppn (entry (phys s) p i)"])
      (simp add: pte_at_entry Let_def tab_snoc child_def)
next
  case False
  obtain q fa' where al: "frame_alloc (frames s) = Ok (q, fa')"
    using pf.alloc_ok [OF pt_inv_tables(3) [OF inv] free] by blast
  define m' where "m' = wu64 (memset (phys s) (get_byte_array q) 0 PAGE_SIZE) (pte_at p i) (pte_new q PTE_V)"
  have g: "grow_step lo s pt is p i q fa' m'"
    using inv path at False al m'_def by (simp add: grow_step_def tpath_snoc)
  have t: "tab m' (root_ppn pt) (is @ [i]) = Some q" using grow_tab [OF g path] by simp
  have "pte_get_ppn (entry m' p i) = q"
    using grow_entry [OF g grow_p_table(2) [OF g] grow_i [OF g]] pte_new_ppn [OF grow_q_small(1) [OF g]] by simp
  then have run: "find_pte_create_loop s (fnode pt) p (i # j # js)
      = find_pte_create_loop \<lparr>phys = m', frames = fa'\<rparr> (fvec_push (fnode pt) q) q (j # js)"
    using False al by (simp add: pte_at_entry Let_def m'_def)
  have "card (fa_free (frames s)) \<le> card (fa_free fa') + 1"
    unfolding grow_frames(5) [OF g] using grow_frames(2) [OF g] by (simp add: card_Diff_singleton)
  then show ?thesis using run t pt_ext_grow [OF g] by (metis kmem.select_convs(1) kmem.select_convs(2))
qed

lemma find_pte_create_ok:
  assumes inv: "pt_inv lo s pt" and free: "2 \<le> card (fa_free (frames s))"
  shows "\<exists>p s' pt'. find_pte_create s pt v = Ok (pte_at p (v AND 511), s', pt') \<and> pt_ext lo s pt s' pt'
    \<and> tab (phys s') (root_ppn pt) [drop_bit 18 v AND 511, drop_bit 9 v AND 511] = Some p
    \<and> card (fa_free (frames s)) \<le> card (fa_free (frames s')) + 2"
proof -
  let ?i = "drop_bit 18 v AND 511" and ?j = "drop_bit 9 v AND 511" and ?k = "v AND 511"
  note idx = idx_less [of "drop_bit 18 v"] idx_less [of "drop_bit 9 v"]
  have "fa_free (frames s) \<noteq> {}" using free by auto
  then obtain s1 f1 q1 where 1: "find_pte_create_loop s (fnode pt) (root_ppn pt) [?i, ?j, ?k]
      = find_pte_create_loop s1 f1 q1 [?j, ?k]"
    "pt_ext lo s pt s1 (pt\<lparr>fnode := f1\<rparr>)" "tab (phys s1) (root_ppn pt) [?i] = Some q1"
    "card (fa_free (frames s)) \<le> card (fa_free (frames s1)) + 1"
    using fpc_step [OF inv, of "[]" ?i "root_ppn pt" ?j "[?k]"] idx by auto
  let ?pt1 = "pt\<lparr>fnode := f1\<rparr>"
  have inv1: "pt_inv lo s1 ?pt1" using 1(2) by (simp add: pt_ext_def)
  have "fa_free (frames s1) \<noteq> {}" using free 1(4) by auto
  then obtain s2 f2 q2 where 2: "find_pte_create_loop s1 f1 q1 [?j, ?k] = find_pte_create_loop s2 f2 q2 [?k]"
    "pt_ext lo s1 ?pt1 s2 (pt\<lparr>fnode := f2\<rparr>)" "tab (phys s2) (root_ppn pt) [?i, ?j] = Some q2"
    "card (fa_free (frames s1)) \<le> card (fa_free (frames s2)) + 1"
    using fpc_step [OF inv1, of "[?i]" ?j q1 ?k "[]"] idx 1(3) by auto
  have "find_pte_create s pt v = Ok (pte_at q2 ?k, s2, pt\<lparr>fnode := f2\<rparr>)"
    using 1(1) 2(1) by (simp add: find_pte_create_def vpn_indexes_eq)
  moreover have "card (fa_free (frames s)) \<le> card (fa_free (frames s2)) + 2" using 1(4) 2(4) by linarith
  ultimately show ?thesis using pt_ext_trans [OF 1(2) 2(2)] 2(3) by blast
qed

section \<open>Writing a leaf entry\<close>

lemma leaf_write_tab:
  assumes inv: "pt_inv lo s pt" and path: "tpath is" and two: "length is = 2"
    and at: "tab (phys s) (root_ppn pt) is = Some p" and k: "k < 512" and js: "tpath js"
  shows "tab (wu64 (phys s) (pte_at p k) w) (root_ppn pt) js = tab (phys s) (root_ppn pt) js"
  using js
proof (induction js rule: rev_induct)
  case Nil
  then show ?case by simp
next
  case (snoc j js)
  then have js: "tpath js" "j < 512" "length js \<le> 1" by (simp_all add: tpath_snoc)
  note IH = snoc.IH [OF js(1)]
  show ?case
  proof (cases "tab (phys s) (root_ppn pt) js")
    case None
    then show ?thesis using IH by (simp add: tab_snoc)
  next
    case (Some r)
    have "r \<noteq> p" using tab_inj [OF inv js(1) path Some] at two js(3) by auto
    then have "entry (wu64 (phys s) (pte_at p k) w) r j = entry (phys s) r j"
      using tables_small(2) [OF inv tablesI [OF js(1) Some]] tables_small(2) [OF inv tablesI [OF path at]] js(2) k
      by (simp add: entry_write)
    then show ?thesis using IH Some by (simp add: tab_snoc child_def)
  qed
qed

lemma leaf_write:
  assumes inv: "pt_inv lo s pt" and path: "tpath is" and two: "length is = 2"
    and at: "tab (phys s) (root_ppn pt) is = Some p" and k: "k < 512"
    and js: "tpath js" "l < 512"
  shows "leaf (wu64 (phys s) (pte_at p k) w) (root_ppn pt) js l
    = (if js = is \<and> l = k then (if pte_is_valid w then Some w else None) else leaf (phys s) (root_ppn pt) js l)"
proof (cases "tab (phys s) (root_ppn pt) js")
  case None
  then show ?thesis using leaf_write_tab [OF inv path two at k js(1)] at by (auto simp: leaf_def)
next
  case (Some r)
  have "r = p \<longleftrightarrow> js = is" using tab_inj [OF inv js(1) path Some] at Some by auto
  moreover have "entry (wu64 (phys s) (pte_at p k) w) r l = (if r = p \<and> l = k then w else entry (phys s) r l)"
    using tables_small(2) [OF inv tablesI [OF js(1) Some]] tables_small(2) [OF inv tablesI [OF path at]] js(2) k
    by (intro entry_write)
  ultimately show ?thesis using leaf_write_tab [OF inv path two at k js(1)] Some by (auto simp: leaf_def)
qed

lemma leaf_write_inv:
  assumes inv: "pt_inv lo s pt" and path: "tpath is" and two: "length is = 2"
    and at: "tab (phys s) (root_ppn pt) is = Some p" and k: "k < 512"
  shows "pt_inv lo (s\<lparr>phys := wu64 (phys s) (pte_at p k) w\<rparr>) pt"
proof -
  let ?m = "wu64 (phys s) (pte_at p k) w"
  have t: "tpath js \<Longrightarrow> tab ?m (root_ppn pt) js = tab (phys s) (root_ppn pt) js" for js
    using leaf_write_tab [OF inv path two at k] .
  then have "tables ?m (root_ppn pt) = tables (phys s) (root_ppn pt)" by (auto simp: tables_def)
  then show ?thesis using inv t unfolding pt_inv_def by simp
qed

section \<open>Virtual page numbers\<close>

lemma vpn_index_bits:
  "bit (drop_bit n v AND 511 :: u64) i \<longleftrightarrow> i < 9 \<and> bit v (n + i)"
proof -
  have "(511::u64) = mask 9" by (simp add: mask_eq_exp_minus_1)
  then have "drop_bit n v AND 511 = take_bit 9 (drop_bit n v)" by (simp add: take_bit_eq_mask)
  then show ?thesis by (auto simp: bit_simps)
qed

lemma same_indexes_iff:
  "drop_bit 18 u AND 511 = drop_bit 18 (v::u64) AND 511 \<and> drop_bit 9 u AND 511 = drop_bit 9 v AND 511
    \<and> u AND 511 = v AND 511 \<longleftrightarrow> take_bit 27 u = take_bit 27 v"
proof
  assume a: "drop_bit 18 u AND 511 = drop_bit 18 v AND 511 \<and> drop_bit 9 u AND 511 = drop_bit 9 v AND 511
    \<and> u AND 511 = v AND 511"
  have "bit u n = bit v n" if n: "n < 27" for n
  proof -
    consider "n < 9" | "9 \<le> n" "n < 18" | "18 \<le> n" by linarith
    then show ?thesis
    proof cases
      case 1
      then show ?thesis using a vpn_index_bits [of 0 u n] vpn_index_bits [of 0 v n] by simp
    next
      case 2
      then show ?thesis using a vpn_index_bits [of 9 u "n - 9"] vpn_index_bits [of 9 v "n - 9"] by auto
    next
      case 3
      then show ?thesis using a n vpn_index_bits [of 18 u "n - 18"] vpn_index_bits [of 18 v "n - 18"] by auto
    qed
  qed
  then show "take_bit 27 u = take_bit 27 v" by (intro bit_word_eqI) (auto simp: bit_take_bit_iff)
next
  assume t: "take_bit 27 u = take_bit 27 v"
  have b: "bit u n = bit v n" if "n < 27" for n using t that by (metis bit_take_bit_iff)
  have "drop_bit k u AND 511 = drop_bit k v AND 511" if "k \<le> 18" for k
    using b that by (intro bit_word_eqI) (auto simp: vpn_index_bits)
  from this [of 0] this [of 9] this [of 18]
  show "drop_bit 18 u AND 511 = drop_bit 18 v AND 511 \<and> drop_bit 9 u AND 511 = drop_bit 9 v AND 511
    \<and> u AND 511 = v AND 511" by simp
qed

lemma pt_ext_lookup: "pt_ext lo s pt s' pt' \<Longrightarrow> pt_lookup (phys s') pt' u = pt_lookup (phys s) pt u"
  using pt_extD(2,3) [of lo s pt s' pt'] by (simp add: pt_lookup_def idx_less)

section \<open>map and unmap\<close>

text \<open>What both do once \<^verbatim>\<open>find_pte_create\<close> has found the entry: store \<open>w\<close> there.\<close>

lemma store_leaf_ok:
  assumes ext: "pt_ext lo s pt s' pt'"
    and at: "tab (phys s') (root_ppn pt) [drop_bit 18 v AND 511, drop_bit 9 v AND 511] = Some p"
    and s2: "s2 = s'\<lparr>phys := wu64 (phys s') (pte_at p (v AND 511)) w\<rparr>"
  shows "pt_inv lo s2 pt'"
    and "pt_lookup (phys s2) pt' u = (if take_bit 27 u = take_bit 27 v then (if pte_is_valid w then Some w else None)
           else pt_lookup (phys s) pt u)"
    and "pa2ppn x \<notin> set (fnode pt') \<Longrightarrow> phys s2 x = phys s x"
proof -
  let ?is = "[drop_bit 18 v AND 511, drop_bit 9 v AND 511]"
  note inv = pt_extD(1) [OF ext]
  have r: "root_ppn pt' = root_ppn pt" using pt_extD(2) [OF ext] .
  have path: "tpath ?is" by (simp add: idx_less)
  have at': "tab (phys s') (root_ppn pt') ?is = Some p" using at r by simp
  show "pt_inv lo s2 pt'" unfolding s2 using leaf_write_inv [OF inv path _ at'] idx_less by simp
  show "pt_lookup (phys s2) pt' u = (if take_bit 27 u = take_bit 27 v then (if pte_is_valid w then Some w else None)
           else pt_lookup (phys s) pt u)"
    using leaf_write [OF inv path _ at' idx_less [of v] _ idx_less [of u],
        of "[drop_bit 18 u AND 511, drop_bit 9 u AND 511]" w] same_indexes_iff [of u v]
      pt_ext_lookup [OF ext, of u]
    by (auto simp: s2 pt_lookup_def idx_less)
  have pt: "p \<in> tables (phys s') (root_ppn pt')" using tablesI [OF path at'] .
  then have "p \<in> set (fnode pt')" using pt_inv_tables(1) [OF inv] by simp
  then have "pa2ppn x \<noteq> p" if "pa2ppn x \<notin> set (fnode pt')" using that by auto
  then show "phys s2 x = phys s x" if "pa2ppn x \<notin> set (fnode pt')"
    using that pt_extD(8) [OF ext that] wu64_other_page [OF tables_small(2) [OF inv pt] idx_less [of v], of x]
    by (simp add: s2)
qed

lemma found_entry:
  assumes ext: "pt_ext lo s pt s' pt'"
    and at: "tab (phys s') (root_ppn pt) [drop_bit 18 v AND 511, drop_bit 9 v AND 511] = Some p"
  shows "pte_is_valid (ru64 (phys s') (pte_at p (v AND 511))) \<longleftrightarrow> pt_lookup (phys s) pt v \<noteq> None"
  using pt_ext_lookup [OF ext, of v] at pt_extD(2) [OF ext]
  by (auto simp: pt_lookup_def leaf_def pte_at_entry split: if_splits)

lemma map_page_ok:
  assumes inv: "pt_inv lo s pt" and free: "2 \<le> card (fa_free (frames s))" and new: "pt_lookup (phys s) pt v = None"
  shows "\<exists>s' pt'. map_page s pt v p fl = Ok (s', pt') \<and> pt_inv lo s' pt' \<and> root_ppn pt' = root_ppn pt
    \<and> (\<forall>u. pt_lookup (phys s') pt' u = (if take_bit 27 u = take_bit 27 v then Some (pte_new p (fl OR PTE_V))
             else pt_lookup (phys s) pt u))
    \<and> set (fnode pt) \<subseteq> set (fnode pt') \<and> set (fnode pt') \<subseteq> set (fnode pt) \<union> fa_free (frames s)
    \<and> fa_allocated lo (frames s') = fa_allocated lo (frames s) \<union> set (fnode pt')
    \<and> card (fa_free (frames s)) \<le> card (fa_free (frames s')) + 2
    \<and> fa_free (frames s') \<subseteq> fa_free (frames s)
    \<and> (\<forall>x. pa2ppn x \<notin> set (fnode pt') \<longrightarrow> phys s' x = phys s x)"
proof -
  obtain q s1 pt1 where f: "find_pte_create s pt v = Ok (pte_at q (v AND 511), s1, pt1)" "pt_ext lo s pt s1 pt1"
    "tab (phys s1) (root_ppn pt) [drop_bit 18 v AND 511, drop_bit 9 v AND 511] = Some q"
    "card (fa_free (frames s)) \<le> card (fa_free (frames s1)) + 2"
    using find_pte_create_ok [OF inv free] by blast
  define w where "w = pte_new p (fl OR PTE_V)"
  define s2 where "s2 = s1\<lparr>phys := wu64 (phys s1) (pte_at q (v AND 511)) w\<rparr>"
  have run: "map_page s pt v p fl = Ok (s2, pt1)"
    using f(1) found_entry [OF f(2,3)] new by (simp add: map_page_def s2_def w_def)
  have w: "pte_is_valid w" by (simp add: w_def pte_new_valid)
  note st = store_leaf_ok [OF f(2,3) s2_def]
  have "frames s2 = frames s1" by (simp add: s2_def)
  then show ?thesis using run st w pt_extD [OF f(2)] f(4) unfolding w_def by simp
qed

lemma map_page_twice:
  assumes inv: "pt_inv lo s pt" and free: "2 \<le> card (fa_free (frames s))" and old: "pt_lookup (phys s) pt v \<noteq> None"
  shows "map_page s pt v p fl = Fail Assert_failed"
proof -
  obtain q s1 pt1 where f: "find_pte_create s pt v = Ok (pte_at q (v AND 511), s1, pt1)" "pt_ext lo s pt s1 pt1"
    "tab (phys s1) (root_ppn pt) [drop_bit 18 v AND 511, drop_bit 9 v AND 511] = Some q"
    using find_pte_create_ok [OF inv free] by blast
  then show ?thesis using found_entry [OF f(2,3)] old by (simp add: map_page_def)
qed

lemma unmap_page_ok:
  assumes inv: "pt_inv lo s pt" and free: "2 \<le> card (fa_free (frames s))" and old: "pt_lookup (phys s) pt v \<noteq> None"
  shows "\<exists>s' pt'. unmap_page s pt v = Ok (s', pt') \<and> pt_inv lo s' pt' \<and> root_ppn pt' = root_ppn pt
    \<and> (\<forall>u. pt_lookup (phys s') pt' u = (if take_bit 27 u = take_bit 27 v then None else pt_lookup (phys s) pt u))
    \<and> set (fnode pt) \<subseteq> set (fnode pt') \<and> set (fnode pt') \<subseteq> set (fnode pt) \<union> fa_free (frames s)
    \<and> (\<forall>x. pa2ppn x \<notin> set (fnode pt') \<longrightarrow> phys s' x = phys s x)"
proof -
  obtain q s1 pt1 where f: "find_pte_create s pt v = Ok (pte_at q (v AND 511), s1, pt1)" "pt_ext lo s pt s1 pt1"
    "tab (phys s1) (root_ppn pt) [drop_bit 18 v AND 511, drop_bit 9 v AND 511] = Some q"
    using find_pte_create_ok [OF inv free] by blast
  define s2 where "s2 = s1\<lparr>phys := wu64 (phys s1) (pte_at q (v AND 511)) 0\<rparr>"
  have run: "unmap_page s pt v = Ok (s2, pt1)"
    using f(1) found_entry [OF f(2,3)] old by (simp add: unmap_page_def pte_empty_def s2_def)
  note st = store_leaf_ok [OF f(2,3) s2_def]
  show ?thesis using run st pt_extD [OF f(2)] by simp
qed

text \<open>
  A page that is mapped needs no new table: \<^verbatim>\<open>unmap\<close> only clears the entry. The allocator does
  not matter for that, and \<open>fa\<close> need not be the current one: the tables may have been given
  back already, as long as nobody has written to them.
\<close>

lemma unmap_page_present:
  assumes inv: "pt_inv lo \<lparr>phys = phys s, frames = fa\<rparr> pt" and old: "pt_lookup (phys s) pt v \<noteq> None"
  shows "\<exists>m'. unmap_page s pt v = Ok (s\<lparr>phys := m'\<rparr>, pt) \<and> pt_inv lo \<lparr>phys = m', frames = fa\<rparr> pt
    \<and> (\<forall>u. pt_lookup m' pt u = (if take_bit 27 u = take_bit 27 v then None else pt_lookup (phys s) pt u))
    \<and> (\<forall>x. pa2ppn x \<notin> set (fnode pt) \<longrightarrow> m' x = phys s x)"
proof -
  let ?s = "\<lparr>phys = phys s, frames = fa\<rparr>"
  obtain p where p: "tab (phys s) (root_ppn pt) [drop_bit 18 v AND 511, drop_bit 9 v AND 511] = Some p"
    and e: "pte_is_valid (entry (phys s) p (v AND 511))"
    using old by (auto simp: pt_lookup_def leaf_def split: option.splits if_splits)
  define s2 where "s2 = ?s\<lparr>phys := wu64 (phys s) (pte_at p (v AND 511)) 0\<rparr>"
  have run: "unmap_page s pt v = Ok (s\<lparr>phys := phys s2\<rparr>, pt)"
    using p e
    by (auto simp: unmap_page_def find_pte_create_def vpn_indexes_eq pte_at_entry pte_empty_def s2_def Let_def split: if_splits)
  note st = store_leaf_ok [OF pt_ext_refl [OF inv], of v p s2 0]
  have "pt_inv lo \<lparr>phys = phys s2, frames = fa\<rparr> pt" using st(1) p by (simp add: s2_def)
  then show ?thesis using run st(2,3) p by (auto simp: s2_def)
qed

lemma unmap_page_absent:
  assumes inv: "pt_inv lo s pt" and free: "2 \<le> card (fa_free (frames s))" and old: "pt_lookup (phys s) pt v = None"
  shows "unmap_page s pt v = Fail Assert_failed"
proof -
  obtain q s1 pt1 where f: "find_pte_create s pt v = Ok (pte_at q (v AND 511), s1, pt1)" "pt_ext lo s pt s1 pt1"
    "tab (phys s1) (root_ppn pt) [drop_bit 18 v AND 511, drop_bit 9 v AND 511] = Some q"
    using find_pte_create_ok [OF inv free] by blast
  then show ?thesis using found_entry [OF f(2,3)] old by (simp add: unmap_page_def)
qed

section \<open>Creating and destroying a table\<close>

lemma pt_new_ok:
  assumes inv: "fa_inv lo (frames s)" and e: "fend (frames s) \<le> 2 ^ 44" and free: "fa_free (frames s) \<noteq> {}"
  shows "\<exists>pt s'. pt_new s = Ok (pt, s') \<and> pt_inv lo s' pt \<and> (\<forall>v. pt_lookup (phys s') pt v = None)
    \<and> root_ppn pt \<in> fa_free (frames s) \<and> fa_allocated lo (frames s') = insert (root_ppn pt) (fa_allocated lo (frames s))
    \<and> fa_free (frames s') = fa_free (frames s) - {root_ppn pt}
    \<and> (\<forall>x. pa2ppn x \<noteq> root_ppn pt \<longrightarrow> phys s' x = phys s x)"
proof -
  obtain q fa' where al: "frame_alloc (frames s) = Ok (q, fa')" using pf.alloc_ok [OF inv free] by blast
  note c = pf.alloc_cases [OF inv al]
  have "q < fend (frames s)" using c(2) fa_free_compl [OF inv] by auto
  then have "q < 2 ^ 44" using e by (rule order.strict_trans2)
  then have q: "q < 2 ^ 52" by (rule order.strict_trans) simp
  define m where "m = memset (phys s) (get_byte_array q) 0 PAGE_SIZE"
  have z: "j < 512 \<Longrightarrow> entry m q j = 0" for j using entry_memset [OF q q, of j "phys s"] by (simp add: m_def)
  have t: "tab m q is = (if is = [] then Some q else None)" if "tpath is" for "is"
    using that z by (cases "is") (auto simp: tpath_def)
  have tb: "tables m q = {q}" using t by (auto simp: tables_def split: if_splits)
  have f: "fend fa' = fend (frames s)" using frame_alloc_ok [OF inv free] al by auto
  have "pt_inv lo \<lparr>phys = m, frames = fa'\<rparr> \<lparr>root_ppn = q, fnode = [q]\<rparr>"
    using c f e tb t by (simp add: pt_inv_def)
  moreover have "pt_lookup m \<lparr>root_ppn = q, fnode = [q]\<rparr> v = None" for v
    using t [of "[drop_bit 18 v AND 511, drop_bit 9 v AND 511]"] by (simp add: pt_lookup_def leaf_def idx_less)
  moreover have "m x = phys s x" if "pa2ppn x \<noteq> q" for x using memset_page [OF q] that by (simp add: m_def)
  moreover have "pt_new s = Ok (\<lparr>root_ppn = q, fnode = [q]\<rparr>, \<lparr>phys = m, frames = fa'\<rparr>)"
    using al by (simp add: pt_new_def m_def fvec_init_def Let_def)
  ultimately show ?thesis using c by simp
qed

lemma fvec_destory_loop_ok:
  assumes "fa_inv lo fa" and "set ps \<subseteq> fa_allocated lo fa" and "distinct ps"
  shows "\<exists>fa'. fvec_destory_loop fa ps = Ok fa' \<and> fa_inv lo fa'
    \<and> fa_allocated lo fa' = fa_allocated lo fa - set ps \<and> fa_free fa' = fa_free fa \<union> set ps"
  using assms
proof (induction ps arbitrary: fa)
  case Nil
  then show ?case by simp
next
  case (Cons p ps)
  then obtain fa1 where 1: "frame_dealloc fa p = Ok fa1" "fa_inv lo fa1"
    "fa_allocated lo fa1 = fa_allocated lo fa - {p}" "fa_free fa1 = insert p (fa_free fa)"
    using pf.dealloc_ok [of lo fa p] by auto
  have "set ps \<subseteq> fa_allocated lo fa1" using Cons.prems 1 by auto
  then obtain fa2 where "fvec_destory_loop fa1 ps = Ok fa2" "fa_inv lo fa2"
    "fa_allocated lo fa2 = fa_allocated lo fa1 - set ps" "fa_free fa2 = fa_free fa1 \<union> set ps"
    using Cons.IH [OF 1(2)] Cons.prems by auto
  then show ?case using 1 by auto
qed

lemma pt_free_ok:
  assumes inv: "pt_inv lo s pt"
  shows "\<exists>s'. pt_free s pt = Ok s' \<and> phys s' = phys s \<and> fa_inv lo (frames s')
    \<and> fa_allocated lo (frames s') = fa_allocated lo (frames s) - set (fnode pt)
    \<and> fa_free (frames s') = fa_free (frames s) \<union> set (fnode pt)"
proof -
  have ne: "fnode pt \<noteq> []" and d: "distinct (fnode pt)" using inv by (simp_all add: pt_inv_def)
  then have "set (tl (fnode pt) @ [hd (fnode pt)]) = set (fnode pt)" "distinct (tl (fnode pt) @ [hd (fnode pt)])"
    by (cases "fnode pt"; simp)+
  then show ?thesis
    using fvec_destory_loop_ok [of lo "frames s" "tl (fnode pt) @ [hd (fnode pt)]"] pt_inv_tables(2,3) [OF inv]
    by (auto simp: pt_free_def fvec_destory_def)
qed

section \<open>Translation\<close>

lemma find_pte_tab:
  "find_pte m pt v = (case tab m (root_ppn pt) [drop_bit 18 v AND 511, drop_bit 9 v AND 511] of
     None \<Rightarrow> None | Some p \<Rightarrow> Some (pte_at p (v AND 511)))"
  by (simp add: find_pte_def vpn_indexes_eq pte_at_entry Let_def)

lemma va2pa_mapped:
  assumes "pt_lookup m pt (va2vpn va) = Some e"
  shows "va2pa m pt va = Ok (pte_get_pa e OR get_offset va)"
  using assms
  by (auto simp: va2pa_def find_pte_tab pt_lookup_def leaf_def pte_at_entry pte_get_pa_def Let_def
      split: option.splits if_splits)

text \<open>
  \<^verbatim>\<open>va2pa\<close> never looks at the valid bit of the last level: a page that is not mapped, in a
  region that has a table, is translated with whatever its entry holds.
\<close>

lemma va2pa_invalid_leaf:
  assumes "tab m (root_ppn pt) [drop_bit 18 (va2vpn va) AND 511, drop_bit 9 (va2vpn va) AND 511] = Some p"
    and "entry m p (va2vpn va AND 511) = 0"
  shows "pt_lookup m pt (va2vpn va) = None" and "va2pa m pt va = Ok (get_offset va)"
  using assms by (simp_all add: pt_lookup_def leaf_def va2pa_def find_pte_tab pte_at_entry pte_get_ppn_def ppn2pa_def Let_def)

section \<open>Offsets within a page\<close>

lemma ppn_small: "pa2ppn a < 2 ^ 52"
proof -
  have "drop_bit 12 a = take_bit 52 (drop_bit 12 a)" by (rule bit_word_eqI) (auto simp: bit_simps dest: bit_imp_le_length)
  then have "unat (drop_bit 12 a) < 2 ^ 52" by (metis take_bit_nat_less_exp unsigned_take_bit_eq)
  then show ?thesis by (simp add: vpn_conv word_less_nat_alt)
qed

lemma page_base: "vpn2va (va2vpn a) = a - get_offset a" "a - vpn2va (va2vpn a) = get_offset a"
  using addr_split_add [of a] by (simp_all add: algebra_simps)

lemma in_page:
  assumes "unat (get_offset a) + k < 4096"
  shows "va2vpn (a + of_nat k) = va2vpn a" and "get_offset (a + of_nat k) = get_offset a + of_nat k"
proof -
  let ?p = "pa2ppn a" and ?n = "unat (get_offset a) + k"
  have a: "a + of_nat k = ppn2pa ?p + of_nat ?n"
    using addr_split_add [of a] by (simp add: vpn2va_def va2vpn_def algebra_simps)
  show v: "va2vpn (a + of_nat k) = va2vpn a"
    unfolding a using byte_page(1) [OF ppn_small assms] by (simp add: va2vpn_def)
  show "get_offset (a + of_nat k) = get_offset a + of_nat k"
  proof -
    have "get_offset (a + of_nat k) = a + of_nat k - vpn2va (va2vpn a)"
      using page_base(2) [of "a + of_nat k"] v by simp
    also have "\<dots> = a - vpn2va (va2vpn a) + of_nat k" by simp
    finally show ?thesis unfolding page_base(2) [of a] .
  qed
qed

lemma page_end:
  assumes "unat (get_offset a) + k = 4096"
  shows "a + of_nat k = vpn2va (va2vpn a) + PAGE_SIZE"
proof -
  have "get_offset a + of_nat k = of_nat (unat (get_offset a) + k)" by simp
  then have "get_offset a + of_nat k = PAGE_SIZE" unfolding assms by (simp add: PAGE_SIZE_def)
  then show ?thesis using addr_split_add [of a] by (metis add.assoc)
qed

lemma or_offset_add: "ppn2pa p OR get_offset a = ppn2pa p + get_offset a"
proof -
  have "ppn2pa p AND get_offset a = 0"
    by (rule bit_word_eqI) (auto simp: vpn_conv get_offset_mask bit_simps)
  then show ?thesis by (simp add: disjunctive_add_eq_or)
qed

lemma va2pa_base:
  "va2pa m pt a = bind_res (va2pa m pt (vpn2va (va2vpn a))) (\<lambda>pa. Ok (pa + get_offset a))"
proof -
  let ?b = "vpn2va (va2vpn a)"
  have o: "get_offset ?b = 0"
    by (rule bit_word_eqI) (auto simp: vpn_conv get_offset_mask bit_simps)
  have v: "va2vpn ?b = va2vpn a"
    using pa2ppn_ppn2pa [OF ppn_small, of a] by (simp add: va2vpn_def vpn2va_def)
  show ?thesis by (simp add: va2pa_def v o or_offset_add Let_def split: option.splits)
qed

lemma va2pa_in_page:
  assumes "unat (get_offset a) + k < 4096"
  shows "va2pa m pt (a + of_nat k) = bind_res (va2pa m pt (vpn2va (va2vpn a))) (\<lambda>pa. Ok (pa + get_offset a + of_nat k))"
  using va2pa_base [of m pt "a + of_nat k"] in_page [OF assms] by (simp add: add.assoc)

section \<open>The copy routines, byte by byte\<close>

text \<open>The reference: translate every single byte.\<close>

primrec read_user :: "mem \<Rightarrow> PageTable \<Rightarrow> vaddr \<Rightarrow> nat \<Rightarrow> u8 list res" where
  "read_user m pt va 0 = Ok []"
| "read_user m pt va (Suc n) =
     bind_res (va2pa m pt va) (\<lambda>pa. bind_res (read_user m pt (va + 1) n) (\<lambda>bs. Ok (m pa # bs)))"

primrec write_user :: "mem \<Rightarrow> PageTable \<Rightarrow> vaddr \<Rightarrow> u8 list \<Rightarrow> mem res" where
  "write_user m pt va [] = Ok m"
| "write_user m pt va (b # bs) = bind_res (va2pa m pt va) (\<lambda>pa. write_user (m(pa := b)) pt (va + 1) bs)"

primrec read_user_str :: "mem \<Rightarrow> PageTable \<Rightarrow> vaddr \<Rightarrow> nat \<Rightarrow> (u8 list \<times> bool) res" where
  "read_user_str m pt va 0 = Ok ([], False)"
| "read_user_str m pt va (Suc n) =
     bind_res (va2pa m pt va) (\<lambda>pa.
       if m pa = 0 then Ok ([0], True)
       else bind_res (read_user_str m pt (va + 1) n) (\<lambda>(bs, z). Ok (m pa # bs, z)))"

lemma read_user_add:
  "read_user m pt va (a + b) = bind_res (read_user m pt va a) (\<lambda>xs.
     bind_res (read_user m pt (va + of_nat a) b) (\<lambda>ys. Ok (xs @ ys)))"
proof (induction a arbitrary: va)
  case 0
  then show ?case by (cases "read_user m pt va b") simp_all
next
  case (Suc a)
  then show ?case by (simp add: bind_res_assoc add.assoc)
qed

lemma read_user_page:
  assumes "unat (get_offset a) + n \<le> 4096" and "va2pa m pt (vpn2va (va2vpn a)) = Ok pa"
  shows "read_user m pt a n = Ok (rbytes m (pa + get_offset a) n)"
  using assms(1)
proof (induction n)
  case 0
  then show ?case by simp
next
  case (Suc n)
  have "va2pa m pt (a + of_nat n) = Ok (pa + get_offset a + of_nat n)"
    using va2pa_in_page [of a n m pt] Suc.prems assms(2) by simp
  then have "read_user m pt (a + of_nat n) 1 = Ok [m (pa + get_offset a + of_nat n)]" by simp
  then show ?case using read_user_add [of m pt a n 1] Suc by (simp add: rbytes_snoc)
qed

lemma read_user_fault:
  assumes "va2pa m pt (vpn2va (va2vpn a)) = Fail e" and "0 < n"
  shows "read_user m pt a n = Fail e"
  using assms va2pa_base [of m pt a] by (cases n) simp_all

text \<open>Where the next page starts, when the chunk does not end the copy.\<close>

lemma next_chunk:
  assumes "len \<noteq> 0" and "n = chunk a (vpn2va (va2vpn a)) len"
  shows "unat len = unat n + unat (len - n)" and "0 < unat n" and "unat (get_offset a) + unat n \<le> 4096"
    and "len - n \<noteq> 0 \<Longrightarrow> a + of_nat (unat n) = vpn2va (va2vpn a) + PAGE_SIZE"
proof -
  note c = chunk_bounds [OF assms(1), of a, folded assms(2)]
  show l: "unat len = unat n + unat (len - n)" using c(2) by (simp add: unat_sub word_le_nat_alt)
  show "0 < unat n" using c(1) by (simp add: word_less_nat_alt)
  show "unat (get_offset a) + unat n \<le> 4096" using c(3) get_offset_less [of a] by simp
  assume "len - n \<noteq> 0"
  then have "0 < unat (len - n)" by (simp add: unat_gt_0)
  then have "unat (get_offset a) + unat n = 4096" using l c(3) get_offset_less [of a] by linarith
  then show "a + of_nat (unat n) = vpn2va (va2vpn a) + PAGE_SIZE" by (rule page_end)
qed

lemma copyin2_loop_ok: "copyin2_loop m pt a len = read_user m pt a (unat len)"
proof (induction m pt a len rule: copyin2_loop.induct)
  case (1 m pt a len)
  show ?case
  proof (cases "len = 0")
    case True
    then show ?thesis by (simp add: copyin2_loop.simps)
  next
    case False
    let ?va = "vpn2va (va2vpn a)"
    define n where "n = chunk a ?va len"
    note nc = next_chunk [OF False n_def]
    show ?thesis
    proof (cases "va2pa m pt ?va")
      case (Fail e)
      then show ?thesis using read_user_fault [OF Fail, of "unat len"] False
        by (subst copyin2_loop.simps) (simp add: Let_def unat_gt_0)
    next
      case (Ok pa)
      have IH: "copyin2_loop m pt (?va + PAGE_SIZE) (len - n) = read_user m pt (?va + PAGE_SIZE) (unat (len - n))"
        using "1.IH" [OF False refl Ok refl refl] by (simp add: n_def)
      have rest: "read_user m pt (a + of_nat (unat n)) (unat (len - n)) = read_user m pt (?va + PAGE_SIZE) (unat (len - n))"
      proof (cases "len - n = 0")
        case False
        then show ?thesis using nc(4) by metis
      qed simp
      have "read_user m pt a (unat n) = Ok (rbytes m (pa + get_offset a) (unat n))"
        using read_user_page [OF nc(3) Ok] .
      then show ?thesis
        using False Ok IH rest read_user_add [of m pt a "unat n" "unat (len - n)"] nc(1)
        by (subst copyin2_loop.simps) (simp add: Let_def n_def [symmetric] page_base(2))
    qed
  qed
qed

lemma read_user_str_add:
  "read_user_str m pt va (a + b) = bind_res (read_user_str m pt va a) (\<lambda>(xs, z).
     if z then Ok (xs, True) else bind_res (read_user_str m pt (va + of_nat a) b) (\<lambda>(ys, z). Ok (xs @ ys, z)))"
proof (induction a arbitrary: va)
  case 0
  then show ?case by (cases "read_user_str m pt va b") auto
next
  case (Suc a)
  have "bind_res (bind_res (read_user_str m pt (va + 1) a) (\<lambda>(xs, z).
          if z then Ok (xs, True) else bind_res (read_user_str m pt (va + 1 + of_nat a) b) (\<lambda>(ys, z). Ok (xs @ ys, z))))
        (\<lambda>(bs, z). Ok (c # bs, z))
      = bind_res (bind_res (read_user_str m pt (va + 1) a) (\<lambda>(bs, z). Ok (c # bs, z))) (\<lambda>(xs, z).
          if z then Ok (xs, True) else bind_res (read_user_str m pt (va + 1 + of_nat a) b) (\<lambda>(ys, z). Ok (xs @ ys, z)))" for c
    by (cases "read_user_str m pt (va + 1) a"; cases "read_user_str m pt (va + 1 + of_nat a) b") (auto split: prod.splits)
  moreover have e: "va + of_nat (Suc a) = va + 1 + of_nat a" by simp
  ultimately show ?case unfolding e using Suc [of "va + 1"] by (cases "va2pa m pt va") simp_all
qed

lemma read_user_str_page:
  assumes "unat (get_offset a) + k + n \<le> 4096" and "va2pa m pt (vpn2va (va2vpn a)) = Ok pa"
  shows "read_user_str m pt (a + of_nat k) n = Ok (copyinstr2_inner m (pa + get_offset a + of_nat k) n)"
  using assms(1)
proof (induction n arbitrary: k)
  case 0
  then show ?case by simp
next
  case (Suc n)
  have "va2pa m pt (a + of_nat k) = Ok (pa + get_offset a + of_nat k)"
    using va2pa_in_page [of a k m pt] Suc.prems assms(2) by simp
  moreover have "read_user_str m pt (a + of_nat (Suc k)) n = Ok (copyinstr2_inner m (pa + get_offset a + of_nat (Suc k)) n)"
    using Suc.IH [of "Suc k"] Suc.prems by simp
  then have "read_user_str m pt (a + of_nat k + 1) n = Ok (copyinstr2_inner m (pa + get_offset a + of_nat k + 1) n)"
    by (simp add: add_ac)
  ultimately show ?case by (simp add: split_beta)
qed

lemma read_user_str_fault:
  assumes "va2pa m pt (vpn2va (va2vpn a)) = Fail e" and "0 < n"
  shows "read_user_str m pt a n = Fail e"
  using assms va2pa_base [of m pt a] by (cases n) simp_all

lemma copyinstr2_loop_ok: "copyinstr2_loop m pt a len = read_user_str m pt a (unat len)"
proof (induction m pt a len rule: copyinstr2_loop.induct)
  case (1 m pt a len)
  show ?case
  proof (cases "len = 0")
    case True
    then show ?thesis by (simp add: copyinstr2_loop.simps)
  next
    case False
    let ?va = "vpn2va (va2vpn a)"
    define n where "n = chunk a ?va len"
    note nc = next_chunk [OF False n_def]
    show ?thesis
    proof (cases "va2pa m pt ?va")
      case (Fail e)
      then show ?thesis using read_user_str_fault [OF Fail, of "unat len"] False
        by (subst copyinstr2_loop.simps) (simp add: Let_def unat_gt_0)
    next
      case (Ok pa)
      obtain bs z where bs: "copyinstr2_inner m (pa + get_offset a) (unat n) = (bs, z)" by fastforce
      then have page: "read_user_str m pt a (unat n) = Ok (bs, z)"
        using read_user_str_page [of a 0 "unat n" m pt pa] nc(3) Ok by simp
      have rest: "read_user_str m pt (a + of_nat (unat n)) (unat (len - n)) = read_user_str m pt (?va + PAGE_SIZE) (unat (len - n))"
      proof (cases "len - n = 0")
        case False
        then show ?thesis using nc(4) by metis
      qed simp
      have IH: "copyinstr2_loop m pt (?va + PAGE_SIZE) (len - n) = read_user_str m pt (?va + PAGE_SIZE) (unat (len - n))"
        if "\<not> z"
        using "1.IH" [OF False refl Ok n_def refl, of bs z] that bs by (simp add: page_base(2))
      show ?thesis
        using False Ok IH rest read_user_str_add [of m pt a "unat n" "unat (len - n)"] nc(1) page bs
        by (subst copyinstr2_loop.simps) (simp add: Let_def n_def [symmetric] page_base(2))
    qed
  qed
qed

section \<open>Writing user memory\<close>

lemma table_entry_stable:
  assumes inv: "pt_inv lo s pt" and same: "\<And>x. pa2ppn x \<in> set (fnode pt) \<Longrightarrow> m' x = phys s x"
    and p: "p \<in> tables (phys s) (root_ppn pt)" and j: "j < 512"
  shows "entry m' p j = entry (phys s) p j"
  unfolding entry_def
  by (rule ru64_cong) (simp add: same pte_at_page [OF tables_small(2) [OF inv p] j] p pt_inv_tables(1) [OF inv])

lemma tab_stable:
  assumes inv: "pt_inv lo s pt" and same: "\<And>x. pa2ppn x \<in> set (fnode pt) \<Longrightarrow> m' x = phys s x" and js: "tpath js"
  shows "tab m' (root_ppn pt) js = tab (phys s) (root_ppn pt) js"
  using js
proof (induction js rule: rev_induct)
  case Nil
  then show ?case by simp
next
  case (snoc j js)
  then have js: "tpath js" "j < 512" by (simp_all add: tpath_snoc)
  then show ?case
    using snoc.IH [OF js(1)] table_entry_stable [where m' = m', OF inv same tablesI [OF js(1)] js(2)]
    by (auto simp: tab_snoc child_def split: option.splits)
qed

lemma va2pa_stable:
  assumes inv: "pt_inv lo s pt" and same: "\<And>x. pa2ppn x \<in> set (fnode pt) \<Longrightarrow> m' x = phys s x"
  shows "va2pa m' pt a = va2pa (phys s) pt a"
proof -
  let ?v = "va2vpn a"
  let ?is = "[drop_bit 18 ?v AND 511, drop_bit 9 ?v AND 511]"
  have path: "tpath ?is" by (simp add: idx_less)
  have t: "tab m' (root_ppn pt) ?is = tab (phys s) (root_ppn pt) ?is" using tab_stable [OF inv same path] .
  have "entry m' p (?v AND 511) = entry (phys s) p (?v AND 511)" if "tab (phys s) (root_ppn pt) ?is = Some p" for p
    using table_entry_stable [OF inv same tablesI [OF path that] idx_less] .
  with t show ?thesis unfolding va2pa_def find_pte_tab by (simp add: pte_at_entry Let_def split: option.splits)
qed

lemma pt_inv_stable:
  assumes inv: "pt_inv lo s pt" and same: "\<And>x. pa2ppn x \<in> set (fnode pt) \<Longrightarrow> m' x = phys s x"
  shows "pt_inv lo (s\<lparr>phys := m'\<rparr>) pt"
proof -
  have t: "tpath js \<Longrightarrow> tab m' (root_ppn pt) js = tab (phys s) (root_ppn pt) js" for js
    using tab_stable [OF inv same] .
  then have "tables m' (root_ppn pt) = tables (phys s) (root_ppn pt)" by (auto simp: tables_def)
  then show ?thesis using inv t unfolding pt_inv_def by simp
qed

text \<open>
  Every byte of the range is mapped, outside the table pages: \<open>f i\<close> is the physical
  address of its byte \<open>i\<close>.
\<close>

definition user_range :: "mem \<Rightarrow> PageTable \<Rightarrow> vaddr \<Rightarrow> nat \<Rightarrow> (nat \<Rightarrow> paddr) \<Rightarrow> bool" where
  "user_range m pt a n f \<longleftrightarrow> (\<forall>i < n. va2pa m pt (a + of_nat i) = Ok (f i) \<and> pa2ppn (f i) \<notin> set (fnode pt))"

lemma user_range_stable:
  assumes inv: "pt_inv lo s pt" and r: "user_range (phys s) pt a n f"
    and same: "\<And>x. pa2ppn x \<in> set (fnode pt) \<Longrightarrow> m' x = phys s x"
  shows "user_range m' pt a n f"
  using r va2pa_stable [where m' = m', OF inv same] by (simp add: user_range_def)

lemma user_range_Suc:
  assumes "user_range m pt a (Suc n) f"
  shows "va2pa m pt a = Ok (f 0)" and "pa2ppn (f 0) \<notin> set (fnode pt)" and "user_range m pt (a + 1) n (\<lambda>i. f (Suc i))"
proof -
  have h: "va2pa m pt (a + of_nat i) = Ok (f i) \<and> pa2ppn (f i) \<notin> set (fnode pt)" if "i < Suc n" for i
    using assms that unfolding user_range_def by blast
  from h [of 0] show "va2pa m pt a = Ok (f 0)" "pa2ppn (f 0) \<notin> set (fnode pt)" by simp_all
  from h [of "Suc i" for i] show "user_range m pt (a + 1) n (\<lambda>i. f (Suc i))"
    by (simp add: user_range_def add.assoc)
qed

lemma write_user_ok:
  assumes "pt_inv lo s pt" and "user_range (phys s) pt a (length bs) f" and "inj_on f {..<length bs}"
  shows "\<exists>m'. write_user (phys s) pt a bs = Ok m' \<and> (\<forall>i < length bs. m' (f i) = bs ! i)
    \<and> (\<forall>x. x \<notin> f ` {..<length bs} \<longrightarrow> m' x = phys s x)"
  using assms
proof (induction bs arbitrary: s a f)
  case Nil
  then show ?case by simp
next
  case (Cons b bs)
  let ?s = "s\<lparr>phys := (phys s)(f 0 := b)\<rparr>" and ?f = "\<lambda>i. f (Suc i)"
  note u = user_range_Suc [OF Cons.prems(2) [unfolded length_Cons]]
  have same: "(phys ?s) x = phys s x" if "pa2ppn x \<in> set (fnode pt)" for x
    using that u(2) by auto
  have inv': "pt_inv lo ?s pt" using pt_inv_stable [OF Cons.prems(1), of "(phys s)(f 0 := b)"] same by simp
  have r': "user_range (phys ?s) pt (a + 1) (length bs) ?f"
    using user_range_stable [OF Cons.prems(1) u(3)] same by simp
  have i': "inj_on ?f {..<length bs}"
    using Cons.prems(3) by (auto simp: inj_on_def)
  obtain m' where m': "write_user (phys ?s) pt (a + 1) bs = Ok m'" "\<forall>i < length bs. m' (?f i) = bs ! i"
    "\<forall>x. x \<notin> ?f ` {..<length bs} \<longrightarrow> m' x = phys ?s x"
    using Cons.IH [OF inv' r' i'] by blast
  have f0: "f 0 \<notin> ?f ` {..<length bs}" using Cons.prems(3) by (auto simp: inj_on_def)
  have "m' (f i) = (b # bs) ! i" if "i < length (b # bs)" for i
    using that m'(2,3) f0 by (cases i) auto
  moreover have "m' x = phys s x" if "x \<notin> f ` {..<length (b # bs)}" for x
  proof -
    have "f 0 \<in> f ` {..<length (b # bs)}" "?f ` {..<length bs} \<subseteq> f ` {..<length (b # bs)}" by auto
    then have "x \<noteq> f 0" "x \<notin> ?f ` {..<length bs}" using that by auto
    then show ?thesis using m'(3) by simp
  qed
  ultimately show ?case using m'(1) u(1) by auto
qed

lemma read_user_range:
  "(\<forall>i < n. va2pa m pt (a + of_nat i) = Ok (f i)) \<Longrightarrow> read_user m pt a n = Ok (map (\<lambda>i. m (f i)) [0..<n])"
proof (induction n)
  case 0
  then show ?case by simp
next
  case (Suc n)
  then show ?case using read_user_add [of m pt a n 1] by simp
qed

text \<open>One chunk of \<^verbatim>\<open>copyout2\<close> is a run of byte stores.\<close>

lemma write_user_append:
  "write_user m pt a (xs @ ys) = bind_res (write_user m pt a xs) (\<lambda>m. write_user m pt (a + of_nat (length xs)) ys)"
  by (induction xs arbitrary: m a) (simp_all add: bind_res_assoc add.assoc)

lemma write_user_page:
  assumes "pt_inv lo s pt" and "unat (get_offset a) + length bs \<le> 4096"
    and "va2pa (phys s) pt (vpn2va (va2vpn a)) = Ok pa"
    and "\<And>i. i < length bs \<Longrightarrow> pa2ppn (pa + get_offset a + of_nat i) \<notin> set (fnode pt)"
  shows "write_user (phys s) pt a bs = Ok (wbytes (phys s) (pa + get_offset a) bs)"
  using assms(2,4)
proof (induction bs rule: rev_induct)
  case Nil
  then show ?case by simp
next
  case (snoc b bs)
  let ?m = "wbytes (phys s) (pa + get_offset a) bs"
  have w: "write_user (phys s) pt a bs = Ok ?m" using snoc by simp
  have same: "?m x = phys s x" if "pa2ppn x \<in> set (fnode pt)" for x
    using that snoc.prems(2) by (intro wbytes_out) fastforce
  have "va2pa ?m pt (a + of_nat (length bs)) = va2pa (phys s) pt (a + of_nat (length bs))"
    using va2pa_stable [OF assms(1) same] .
  also have "\<dots> = Ok (pa + get_offset a + of_nat (length bs))"
    using va2pa_in_page [of a "length bs" "phys s" pt] assms(3) snoc.prems(1) by simp
  finally have t: "va2pa ?m pt (a + of_nat (length bs)) = Ok (pa + get_offset a + of_nat (length bs))" .
  have "?m(pa + get_offset a + of_nat (length bs) := b) = wbytes (phys s) (pa + get_offset a) (bs @ [b])"
  proof (rule ext)
    fix x
    have "unat (of_nat (length bs) :: u64) = length bs" using snoc.prems(1) by (intro unat_of_nat_u64) simp
    then have "unat (x - (pa + get_offset a)) = length bs \<longleftrightarrow> x = pa + get_offset a + of_nat (length bs)"
      using unsigned_word_eqI [where ?'a = nat, of "x - (pa + get_offset a)" "of_nat (length bs)"]
      by (auto simp: algebra_simps)
    then show "(?m(pa + get_offset a + of_nat (length bs) := b)) x = wbytes (phys s) (pa + get_offset a) (bs @ [b]) x"
      by (auto simp: wbytes_def nth_append)
  qed
  then show ?case using w t write_user_append [of "phys s" pt a bs "[b]"] by simp
qed

lemma copyout2_loop_ok:
  assumes "pt_inv lo s pt" and "user_range (phys s) pt a (unat len) f" and "length src = unat len"
  shows "copyout2_loop (phys s) pt a src len = write_user (phys s) pt a src"
  using assms
proof (induction "unat len" arbitrary: s a src len f rule: less_induct)
  case less
  note inv = less.prems(1) and ur = less.prems(2)
  show ?case
  proof (cases "len = 0")
    case True
    then show ?thesis using less.prems(3) by (simp add: copyout2_loop.simps)
  next
    case False
    let ?va = "vpn2va (va2vpn a)"
    define n where "n = chunk a ?va len"
    note nc = next_chunk [OF False n_def]
    have range: "va2pa (phys s) pt (a + of_nat i) = Ok (f i) \<and> pa2ppn (f i) \<notin> set (fnode pt)" if "i < unat len" for i
      using ur that unfolding user_range_def by blast
    obtain pa where pa: "va2pa (phys s) pt ?va = Ok pa"
      using range [of 0] va2pa_base [of "phys s" pt a] nc(1,2) by (cases "va2pa (phys s) pt ?va") auto
    have off: "pa2ppn (pa + get_offset a + of_nat i) \<notin> set (fnode pt)" if "i < unat n" for i
      using range [of i] va2pa_in_page [of a i "phys s" pt] pa that nc(1,3) by auto
    define m1 where "m1 = wbytes (phys s) (pa + get_offset a) (take (unat n) src)"
    have len: "length (take (unat n) src) = unat n" using less.prems(3) nc(1) by simp
    have w: "write_user (phys s) pt a (take (unat n) src) = Ok m1"
      unfolding m1_def using nc(3) len off by (intro write_user_page [OF inv _ pa]) simp_all
    have same: "m1 x = phys s x" if "pa2ppn x \<in> set (fnode pt)" for x
      unfolding m1_def using that off len by (intro wbytes_out) fastforce
    let ?s1 = "s\<lparr>phys := m1\<rparr>"
    have inv1: "pt_inv lo ?s1 pt" using pt_inv_stable [OF inv same] .
    have r1: "user_range (phys ?s1) pt (a + of_nat (unat n)) (unat (len - n)) (\<lambda>i. f (i + unat n))"
      unfolding user_range_def
    proof (intro allI impI)
      fix i assume i: "i < unat (len - n)"
      have e: "a + of_nat (unat n) + of_nat i = a + of_nat (i + unat n)" by simp
      show "va2pa (phys ?s1) pt (a + of_nat (unat n) + of_nat i) = Ok (f (i + unat n)) \<and> pa2ppn (f (i + unat n)) \<notin> set (fnode pt)"
        unfolding e using range [of "i + unat n"] i nc(1) va2pa_stable [OF inv same] by simp
    qed
    have "copyout2_loop (phys ?s1) pt (a + of_nat (unat n)) (drop (unat n) src) (len - n)
        = write_user (phys ?s1) pt (a + of_nat (unat n)) (drop (unat n) src)"
      using less.prems(3) nc(1,2) by (intro less.hyps [OF _ inv1 r1]) simp_all
    moreover have "copyout2_loop m1 pt (?va + PAGE_SIZE) (drop (unat n) src) (len - n)
        = copyout2_loop m1 pt (a + of_nat (unat n)) (drop (unat n) src) (len - n)"
    proof (cases "len - n = 0")
      case True
      then show ?thesis by (simp add: copyout2_loop.simps)
    next
      case False
      then show ?thesis using nc(4) by metis
    qed
    moreover have "write_user (phys s) pt a src = write_user m1 pt (a + of_nat (unat n)) (drop (unat n) src)"
      using write_user_append [of "phys s" pt a "take (unat n) src" "drop (unat n) src"] w len by simp
    moreover have "\<not> length src < unat n" using less.prems(3) nc(1) by simp
    ultimately show ?thesis
      using False pa by (subst copyout2_loop.simps) (simp add: Let_def n_def [symmetric] page_base(2) m1_def)
  qed
qed

section \<open>Properties\<close>

text \<open>C7: \<^verbatim>\<open>map\<close> refines adding a pair to a partial map: with two free pages for tables and
  the page not mapped yet, it succeeds, the page's translation becomes the new entry,
  every other page keeps its own, the tree stays well-formed, only free pages become
  tables and no byte outside the tables changes; a page already mapped fails the assert.\<close>

theorem map_page_refines:
  assumes "pt_inv lo s pt" and "2 \<le> card (fa_free (frames s))"
  shows "if pt_lookup (phys s) pt v \<noteq> None then map_page s pt v p fl = Fail Assert_failed
    else \<exists>s' pt'. map_page s pt v p fl = Ok (s', pt') \<and> pt_inv lo s' pt'
      \<and> pt_lookup (phys s') pt' = (\<lambda>u. if take_bit 27 u = take_bit 27 v then Some (pte_new p (fl OR PTE_V))
             else pt_lookup (phys s) pt u)
      \<and> set (fnode pt') \<subseteq> set (fnode pt) \<union> fa_free (frames s)
      \<and> fa_allocated lo (frames s') = fa_allocated lo (frames s) \<union> set (fnode pt')
      \<and> card (fa_free (frames s)) \<le> card (fa_free (frames s')) + 2
      \<and> (\<forall>x. pa2ppn x \<notin> set (fnode pt') \<longrightarrow> phys s' x = phys s x)"
  using map_page_ok [OF assms, of v p fl] map_page_twice [OF assms, of v p fl] by (auto simp: fun_eq_iff)

text \<open>An allocator with many free pages, and a page table made with it.\<close>

definition fa_big :: FrameAllocator where
  "fa_big = \<lparr>fcurrent = 2, fend = 10, recycled = \<lparr>heapArray = replicate 8 0, CurrentSize = 0, MaxSize = 8\<rparr>\<rparr>"

lemma fa_big_inv: "fa_inv 2 fa_big" "card (fa_free fa_big) = 8"
  by (simp_all add: fa_inv_def fa_big_def heap_wf_def heap_ordered_def fa_free_def card_word_interval)

lemma pt_example:
  "\<exists>pt s. pt_inv 2 s pt \<and> (\<forall>v. pt_lookup (phys s) pt v = None) \<and> 7 \<le> card (fa_free (frames s))
     \<and> set (fnode pt) \<subseteq> {2..<10} \<and> fa_free (frames s) \<subseteq> {2..<10}"
proof -
  let ?s = "\<lparr>phys = (\<lambda>_. 7), frames = fa_big\<rparr>"
  have ne: "fa_free fa_big \<noteq> {}" using fa_big_inv(2) by auto
  obtain pt s where a: "pt_new ?s = Ok (pt, s)" "pt_inv 2 s pt" "\<forall>v. pt_lookup (phys s) pt v = None"
    "root_ppn pt \<in> fa_free fa_big" "fa_allocated 2 (frames s) = insert (root_ppn pt) (fa_allocated 2 fa_big)"
    using pt_new_ok [of 2 ?s] fa_big_inv(1) ne by (auto simp: fa_big_def)
  have al: "fa_allocated 2 fa_big = {}" by (simp add: fa_allocated_def fa_big_def)
  have fe: "fend (frames s) = 10"
    using a(1) frame_alloc_ok [OF fa_big_inv(1) ne]
    by (auto simp: pt_new_def Let_def fa_big_def)
  have fr: "fa_free (frames s) = {2..<10} - {root_ppn pt}"
    using fa_free_compl [OF pt_inv_tables(3) [OF a(2)]] a(5) al fe by simp
  have "card ({2..<10::u64} - {root_ppn pt}) \<ge> 7"
    by (rule order_trans [OF _ diff_card_le_card_Diff]) (simp_all add: card_word_interval)
  moreover have "set (fnode pt) \<subseteq> {2..<10}"
    using pt_inv_tables(2,3) [OF a(2)] fa_allocated_below [of 2 "frames s"] fe by auto
  moreover have "fa_free (frames s) \<subseteq> {2..<10}" using fr by auto
  ultimately show ?thesis using a(2,3) fr by metis
qed

theorem map_page_refines_witness:
  "\<exists>s pt s' pt'. pt_inv 2 s pt \<and> map_page s pt 0x12345 99 PTE_R = Ok (s', pt') \<and> pt_inv 2 s' pt'
     \<and> pt_lookup (phys s') pt' 0x12345 = Some (pte_new 99 (PTE_R OR PTE_V)) \<and> pt_lookup (phys s') pt' 0x12346 = None"
proof -
  obtain pt s where i: "pt_inv 2 s pt" "\<forall>v. pt_lookup (phys s) pt v = None" "7 \<le> card (fa_free (frames s))"
    using pt_example by blast
  have c: "2 \<le> card (fa_free (frames s))" using i(3) by simp
  obtain s' pt' where m: "map_page s pt 0x12345 99 PTE_R = Ok (s', pt')" "pt_inv 2 s' pt'"
    "pt_lookup (phys s') pt' = (\<lambda>u. if take_bit 27 u = take_bit 27 0x12345 then Some (pte_new 99 (PTE_R OR PTE_V))
             else pt_lookup (phys s) pt u)"
    using i(2) map_page_refines [OF i(1) c, of "0x12345" 99 PTE_R] by auto
  have "pt_lookup (phys s') pt' 0x12345 = Some (pte_new 99 (PTE_R OR PTE_V))" "pt_lookup (phys s') pt' 0x12346 = None"
    unfolding m(3) using i(2) by simp_all
  with i(1) m(1,2) show ?thesis by blast
qed

text \<open>C8: \<^verbatim>\<open>unmap\<close> refines removing a pair: a mapped page loses its entry and all others keep
  theirs, no byte outside the tables changes; a page that is not mapped fails the assert.\<close>

theorem unmap_page_refines:
  assumes "pt_inv lo s pt" and "2 \<le> card (fa_free (frames s))"
  shows "if pt_lookup (phys s) pt v = None then unmap_page s pt v = Fail Assert_failed
    else \<exists>s' pt'. unmap_page s pt v = Ok (s', pt') \<and> pt_inv lo s' pt'
      \<and> pt_lookup (phys s') pt' = (\<lambda>u. if take_bit 27 u = take_bit 27 v then None else pt_lookup (phys s) pt u)
      \<and> (\<forall>x. pa2ppn x \<notin> set (fnode pt') \<longrightarrow> phys s' x = phys s x)"
  using unmap_page_ok [OF assms, of v] unmap_page_absent [OF assms, of v] by (auto simp: fun_eq_iff)

lemma pt_example_mapped:
  "\<exists>pt s. pt_inv 2 s pt \<and> pt_lookup (phys s) pt 5 = Some (pte_new 99 (PTE_R OR PTE_V))
     \<and> 2 \<le> card (fa_free (frames s)) \<and> 99 \<notin> set (fnode pt)"
proof -
  obtain pt s where i: "pt_inv 2 s pt" "\<forall>v. pt_lookup (phys s) pt v = None" "7 \<le> card (fa_free (frames s))"
    "set (fnode pt) \<subseteq> {2..<10}" "fa_free (frames s) \<subseteq> {2..<10}"
    using pt_example by blast
  have c: "2 \<le> card (fa_free (frames s))" using i(3) by simp
  have n: "pt_lookup (phys s) pt 5 = None" using i(2) by simp
  obtain s' pt' where m: "pt_inv 2 s' pt'"
    "\<forall>u. pt_lookup (phys s') pt' u = (if take_bit 27 u = take_bit 27 5 then Some (pte_new 99 (PTE_R OR PTE_V))
             else pt_lookup (phys s) pt u)"
    "set (fnode pt') \<subseteq> set (fnode pt) \<union> fa_free (frames s)"
    "card (fa_free (frames s)) \<le> card (fa_free (frames s')) + 2"
    using map_page_ok [OF i(1) c n, of 99 PTE_R] by metis
  have "pt_lookup (phys s') pt' 5 = Some (pte_new 99 (PTE_R OR PTE_V))" using m(2) by simp
  moreover have "99 \<notin> set (fnode pt')" using m(3) i(4,5) by force
  moreover have "2 \<le> card (fa_free (frames s'))" using m(4) i(3) by linarith
  ultimately show ?thesis using m(1) by blast
qed

theorem unmap_page_refines_witness:
  "\<exists>s pt s' pt'. pt_inv 2 s pt \<and> unmap_page s pt 5 = Ok (s', pt') \<and> pt_inv 2 s' pt'
     \<and> pt_lookup (phys s') pt' 5 = None"
proof -
  obtain pt s where i: "pt_inv 2 s pt" "pt_lookup (phys s) pt 5 = Some (pte_new 99 (PTE_R OR PTE_V))"
    "2 \<le> card (fa_free (frames s))"
    using pt_example_mapped by blast
  then obtain s' pt' where "unmap_page s pt 5 = Ok (s', pt')" "pt_inv 2 s' pt'"
    "pt_lookup (phys s') pt' = (\<lambda>u. if take_bit 27 u = take_bit 27 5 then None else pt_lookup (phys s) pt u)"
    using unmap_page_refines [OF i(1,3), of 5] by auto
  with i(1) show ?thesis by (metis (mono_tags, lifting))
qed

text \<open>C9: A new page table translates nothing and owns one page that was free;
  \<^verbatim>\<open>pt_free\<close> gives back exactly the pages that serve as its tables, each once, and the
  allocator never panics.\<close>

theorem pt_lifecycle:
  assumes "fa_inv lo (frames s)" and "fend (frames s) \<le> 2 ^ 44" and "fa_free (frames s) \<noteq> {}"
  shows "(\<exists>pt s'. pt_new s = Ok (pt, s') \<and> pt_inv lo s' pt \<and> (\<forall>v. pt_lookup (phys s') pt v = None)
      \<and> fa_allocated lo (frames s') = insert (root_ppn pt) (fa_allocated lo (frames s)))
    \<and> (\<forall>s1 pt1. pt_inv lo s1 pt1 \<longrightarrow> (\<exists>s2. pt_free s1 pt1 = Ok s2 \<and> fa_inv lo (frames s2)
      \<and> fa_allocated lo (frames s2) = fa_allocated lo (frames s1) - tables (phys s1) (root_ppn pt1)
      \<and> fa_free (frames s2) = fa_free (frames s1) \<union> tables (phys s1) (root_ppn pt1)))"
proof -
  have "\<exists>s2. pt_free s1 pt1 = Ok s2 \<and> fa_inv lo (frames s2)
      \<and> fa_allocated lo (frames s2) = fa_allocated lo (frames s1) - tables (phys s1) (root_ppn pt1)
      \<and> fa_free (frames s2) = fa_free (frames s1) \<union> tables (phys s1) (root_ppn pt1)"
    if "pt_inv lo s1 pt1" for s1 pt1
    using pt_free_ok [OF that] pt_inv_tables(1) [OF that] by auto
  then show ?thesis using pt_new_ok [OF assms] by blast
qed

theorem pt_lifecycle_witness:
  "\<exists>pt s'. pt_new \<lparr>phys = (\<lambda>_. 7), frames = fa_big\<rparr> = Ok (pt, s') \<and> pt_inv 2 s' pt
     \<and> (\<exists>s2. pt_free s' pt = Ok s2 \<and> fa_inv 2 (frames s2))"
proof -
  have ne: "fa_free fa_big \<noteq> {}" using fa_big_inv(2) by auto
  have fend: "fend fa_big \<le> 2 ^ 44" by (simp add: fa_big_def)
  show ?thesis
    using pt_lifecycle [of 2 "\<lparr>phys = (\<lambda>_. 7), frames = fa_big\<rparr>"] fa_big_inv(1) fend ne by simp metis
qed

text \<open>\<^verbatim>\<open>copyin2\<close>, which translates once per page and moves whole chunks, returns exactly
  the bytes a translation of every single address would read, and panics exactly when
  one of those translations would.\<close>

theorem copyin2_bytewise:
  "copyin2 m pt srcva len = bind_res (read_user m pt srcva (unat len)) (\<lambda>bs. Ok (0, bs))"
  by (simp add: copyin2_def copyin2_loop_ok)

text \<open>\<^verbatim>\<open>copyinstr2\<close> reads a string as a byte-by-byte reference would: up to and
  including the first zero with result 0, or \<open>max\<close> bytes without one with result -1,
  across page borders; a range outside the task is refused before any access.\<close>

theorem copyinstr2_bytewise:
  "copyinstr2 sz m pt srcva maxn =
     (if srcva + maxn > sz \<or> srcva \<ge> sz then Ok (- 1, [])
      else bind_res (read_user_str m pt srcva (unat maxn)) (\<lambda>(bs, z). Ok (if z then 0 else - 1, bs)))"
  by (simp add: copyinstr2_def copyinstr2_loop_ok)

text \<open>C10: What \<^verbatim>\<open>copyout2\<close> writes is what \<^verbatim>\<open>copyin2\<close> reads back: on a mapped range that
  avoids the table pages the copy succeeds, stores exactly the source bytes at the
  translated addresses, changes no other byte, and the page table stays intact.\<close>

theorem copyout2_copyin2:
  assumes "pt_inv lo s pt" and "user_range (phys s) pt dstva (length src) f" and "inj_on f {..<length src}"
    and "length src = unat len" and "\<not> ((dstva + len > sz \<or> dstva \<ge> sz) \<and> dstva < VMA_START)"
  shows "\<exists>m'. copyout2 sz (phys s) pt dstva src len = Ok (0, m') \<and> copyin2 m' pt dstva len = Ok (0, src)
    \<and> (\<forall>x. x \<notin> f ` {..<length src} \<longrightarrow> m' x = phys s x) \<and> pt_inv lo (s\<lparr>phys := m'\<rparr>) pt"
proof -
  obtain m' where w: "write_user (phys s) pt dstva src = Ok m'" "\<forall>i < length src. m' (f i) = src ! i"
    "\<forall>x. x \<notin> f ` {..<length src} \<longrightarrow> m' x = phys s x"
    using write_user_ok [OF assms(1-3)] by blast
  have ur: "va2pa (phys s) pt (dstva + of_nat i) = Ok (f i) \<and> pa2ppn (f i) \<notin> set (fnode pt)" if "i < length src" for i
    using assms(2) that unfolding user_range_def by blast
  have same: "m' x = phys s x" if "pa2ppn x \<in> set (fnode pt)" for x
  proof -
    have "x \<notin> f ` {..<length src}" using ur that by auto
    then show ?thesis using w(3) by simp
  qed
  have out: "copyout2 sz (phys s) pt dstva src len = Ok (0, m')"
    using copyout2_loop_ok [OF assms(1) _ assms(4)] assms(2,4,5) w(1) by (auto simp: copyout2_def)
  have "read_user m' pt dstva (length src) = Ok (map (\<lambda>i. m' (f i)) [0..<length src])"
    using ur va2pa_stable [OF assms(1) same] by (intro read_user_range) simp
  moreover have "map (\<lambda>i. m' (f i)) [0..<length src] = src"
    using w(2) by (intro nth_equalityI) simp_all
  ultimately have "copyin2 m' pt dstva len = Ok (0, src)"
    using assms(4) by (simp add: copyin2_def copyin2_loop_ok)
  then show ?thesis using out w(3) pt_inv_stable [OF assms(1) same] by blast
qed

lemma inj_on_offset: "n \<le> 2 ^ 64 \<Longrightarrow> inj_on (\<lambda>i. a + (of_nat i :: u64)) {..<n}"
proof (rule inj_onI)
  fix i j assume n: "n \<le> 2 ^ 64" and i: "i \<in> {..<n}" and j: "j \<in> {..<n}" and "a + of_nat i = a + (of_nat j :: u64)"
  then have "unat (of_nat i :: u64) = unat (of_nat j :: u64)" by simp
  moreover have "i < 2 ^ 64" "j < 2 ^ 64" using n i j by simp_all
  ultimately show "i = j" by (simp only: unat_of_nat_u64)
qed

lemma pt_example_range:
  assumes l: "pt_lookup m pt 5 = Some (pte_new 99 fl)" and n: "99 \<notin> set (fnode pt)" and k: "k \<le> 4096"
  shows "user_range m pt 0x5000 k (\<lambda>i. ppn2pa 99 + of_nat i)"
  unfolding user_range_def
proof (intro allI impI conjI)
  fix i assume "i < k"
  then have i: "i < 4096" using k by simp
  have o: "get_offset 0x5000 = 0" by (simp add: get_offset_def PAGE_SIZE_def)
  have v: "va2vpn (0x5000 + of_nat i) = 5" "get_offset (0x5000 + of_nat i) = of_nat i"
    using in_page [of "0x5000" i] i o by (simp_all add: va2vpn_def pa2ppn_def pa_floor_def PAGE_SIZE_def)
  have "va2pa m pt (0x5000 + of_nat i) = Ok (pte_get_pa (pte_new 99 fl) OR get_offset (0x5000 + of_nat i))"
    using l v(1) by (intro va2pa_mapped) simp
  then show "va2pa m pt (0x5000 + of_nat i) = Ok (ppn2pa 99 + of_nat i)"
    using v(2) pte_new_ppn [of 99 fl] or_offset_add [of 99 "0x5000 + of_nat i"] by (simp add: pte_get_pa_def)
  show "pa2ppn (ppn2pa 99 + of_nat i) \<notin> set (fnode pt)" using byte_page(1) [of 99 i] i n by simp
qed

theorem copyout2_copyin2_witness:
  "\<exists>s pt m'. pt_inv 2 s pt \<and> copyout2 0x9000 (phys s) pt 0x5000 [1, 2, 3] 3 = Ok (0, m')
     \<and> copyin2 m' pt 0x5000 3 = Ok (0, [1, 2, 3])"
proof -
  obtain pt s where i: "pt_inv 2 s pt" "pt_lookup (phys s) pt 5 = Some (pte_new 99 (PTE_R OR PTE_V))"
    "99 \<notin> set (fnode pt)"
    using pt_example_mapped by blast
  let ?src = "[1, 2, 3] :: u8 list" and ?f = "\<lambda>i. ppn2pa 99 + (of_nat i :: u64)"
  have r: "user_range (phys s) pt 0x5000 (length ?src) ?f"
    using i by (intro pt_example_range) simp_all
  have inj: "inj_on ?f {..<length ?src}"
    by (rule inj_on_offset) simp
  have "length ?src = unat (3::u64)" "\<not> (((0x5000::u64) + 3 > 0x9000 \<or> (0x5000::u64) \<ge> 0x9000) \<and> 0x5000 < VMA_START)"
    by (simp_all add: VMA_START_def)
  from copyout2_copyin2 [OF i(1) r inj this] i(1) show ?thesis by blast
qed

text \<open>\<^verbatim>\<open>va2pa\<close> does not check the last level: an address whose page is not mapped, next
  to a page that is, is translated to a physical address below the page size instead
  of raising the page fault.\<close>

theorem va2pa_unmapped_leaf:
  assumes "tab m (root_ppn pt) [drop_bit 18 (va2vpn va) AND 511, drop_bit 9 (va2vpn va) AND 511] = Some p"
    and "entry m p (va2vpn va AND 511) = 0"
  shows "pt_lookup m pt (va2vpn va) = None \<and> va2pa m pt va = Ok (get_offset va)"
  using va2pa_invalid_leaf [OF assms] by blast

definition mem_two_tables :: mem where
  "mem_two_tables = wu64 (wu64 (\<lambda>_. 0) (pte_at 2 0) (pte_new 3 PTE_V)) (pte_at 3 0) (pte_new 4 PTE_V)"

lemma entry_zero_mem: "entry (\<lambda>_. 0) p i = 0"
proof -
  have "rbytes (\<lambda>_. 0) (pte_at p i) 8 = replicate 8 0" by (simp add: rbytes_def map_replicate_const)
  then show ?thesis using le_word_zero [of 8] by (simp add: entry_def ru64_def)
qed

theorem va2pa_unmapped_leaf_witness:
  "pt_lookup mem_two_tables \<lparr>root_ppn = 2, fnode = [2, 4, 3]\<rparr> 5 = None
    \<and> va2pa mem_two_tables \<lparr>root_ppn = 2, fnode = [2, 4, 3]\<rparr> 0x5678 = Ok 0x678"
proof -
  let ?pt = "\<lparr>root_ppn = 2, fnode = [2, 4, 3]\<rparr> :: PageTable"
  have v: "va2vpn 0x5678 = 5" by (simp add: va2vpn_def pa2ppn_def pa_floor_def PAGE_SIZE_def)
  have e: "entry mem_two_tables 2 0 = pte_new 3 PTE_V" "entry mem_two_tables 3 0 = pte_new 4 PTE_V"
    "entry mem_two_tables 4 5 = 0"
    by (simp_all add: mem_two_tables_def entry_write entry_zero_mem)
  have "tab mem_two_tables 2 [0, 0] = Some 4"
    using e pte_new_ppn [of 3 PTE_V] pte_new_ppn [of 4 PTE_V] by (simp add: pte_new_valid)
  then show ?thesis
    using va2pa_unmapped_leaf [of mem_two_tables ?pt "0x5678" 4] v e(3)
    by (simp add: get_offset_def PAGE_SIZE_def)
qed

end
