(* ===== verification/Bitmap.thy ===== *)
theory Bitmap
  imports K_Prelude
begin

text \<open>
  The bit map of \<^verbatim>\<open>bitmap.c\<close>: one bit per item, a set bit for an item in use. The array behind
  \<^verbatim>\<open>bits\<close> is a list whose length is the number of bytes that really exist, so that an access
  past it is the fault \<open>Out_of_bounds\<close>; \<^verbatim>\<open>btmp_bytes_len\<close> is the length the map believes in.
  The theorems say what \<^verbatim>\<open>bitmap_scan\<close> returns: the first run of clear bits, in a range that
  is one bit longer than the map.
\<close>

section \<open>The code\<close>

record bitmap =
  btmp_bytes_len :: u32
  bits :: "u8 list"

definition bitmap_init :: "bitmap \<Rightarrow> bitmap res" where
  "bitmap_init btmp =
     (let n = unat (btmp_bytes_len btmp)
      in if n \<le> length (bits btmp) then Ok (btmp\<lparr>bits := replicate n 0 @ drop n (bits btmp)\<rparr>)
         else Fail Out_of_bounds)"

definition bitmap_scan_test :: "bitmap \<Rightarrow> u32 \<Rightarrow> bool res" where
  "bitmap_scan_test btmp bit_idx =
     bind_res (aread (bits btmp) (unat (bit_idx div 8)))
       (\<lambda>x. Ok (x AND push_bit (unat (bit_idx mod 8)) 1 \<noteq> 0))"

text \<open>The first byte that is not full, tested before the index is.\<close>

function scan_byte :: "bitmap \<Rightarrow> nat \<Rightarrow> nat res" where
  "scan_byte btmp idx_byte =
     bind_res (aread (bits btmp) idx_byte)
       (\<lambda>x. if x = 0xff \<and> idx_byte < unat (btmp_bytes_len btmp) then scan_byte btmp (idx_byte + 1) else Ok idx_byte)"
  by pat_completeness auto
termination
  by (relation "measure (\<lambda>(b, i). length (bits b) - i)") (auto simp: aread_eq_Ok)

text \<open>The first clear bit of a byte.\<close>

function scan_bit :: "u8 \<Rightarrow> nat \<Rightarrow> nat" where
  "scan_bit x idx_bit = (if push_bit idx_bit 1 AND x \<noteq> 0 then scan_bit x (idx_bit + 1) else idx_bit)"
  by pat_completeness auto
termination
proof (relation "measure (\<lambda>(x, j). 8 - j)")
  fix x :: u8 and j
  assume "push_bit j 1 AND x \<noteq> 0"
  then have "push_bit j (1::u8) \<noteq> 0" by (metis and_zero_eq and.commute)
  then have "j < 8" by (simp add: not_le [symmetric])
  then show "((x, j + 1), (x, j)) \<in> measure (\<lambda>(x, j). 8 - j)" by simp
qed simp

text \<open>Counting clear bits from \<open>next_bit\<close> on until \<open>cnt\<close> of them follow each other.\<close>

primrec scan_run :: "bitmap \<Rightarrow> u32 \<Rightarrow> nat \<Rightarrow> u32 \<Rightarrow> u32 \<Rightarrow> int res" where
  "scan_run btmp cnt 0 next_bit cntd = Ok (- 1)"
| "scan_run btmp cnt (Suc bit_left) next_bit cntd =
     bind_res (bitmap_scan_test btmp next_bit)
       (\<lambda>t. let cntd = (if t then 0 else cntd + 1)
            in if cntd = cnt then Ok (sint (next_bit - cnt + 1))
               else scan_run btmp cnt bit_left (next_bit + 1) cntd)"

definition bitmap_scan :: "bitmap \<Rightarrow> u32 \<Rightarrow> int res" where
  "bitmap_scan btmp cnt =
     bind_res (scan_byte btmp 0) (\<lambda>idx_byte.
     bind_res (kassert (idx_byte < unat (btmp_bytes_len btmp))) (\<lambda>_.
       if idx_byte = unat (btmp_bytes_len btmp) then Ok (- 1)
       else let start = (of_nat (idx_byte * 8 + scan_bit (bits btmp ! idx_byte) 0) :: u32)
            in if cnt = 1 then Ok (sint start)
               else scan_run btmp cnt (unat (btmp_bytes_len btmp * 8 - start)) (start + 1) 1))"

definition bitmap_set :: "bitmap \<Rightarrow> u32 \<Rightarrow> int \<Rightarrow> bitmap res" where
  "bitmap_set btmp bit_idx value =
     bind_res (kassert (value = 0 \<or> value = 1)) (\<lambda>_.
     let byte_idx = unat (bit_idx div 8); m = push_bit (unat (bit_idx mod 8)) 1
     in bind_res (aread (bits btmp) byte_idx) (\<lambda>x.
        bind_res (awrite (bits btmp) byte_idx (if value \<noteq> 0 then x OR m else x AND NOT m)) (\<lambda>ys.
        Ok (btmp\<lparr>bits := ys\<rparr>))))"

section \<open>Bits\<close>

text \<open>Bit \<open>i\<close> of the map, as a function.\<close>

definition used :: "bitmap \<Rightarrow> nat \<Rightarrow> bool" where
  "used btmp i \<longleftrightarrow> bit (bits btmp ! (i div 8)) (i mod 8)"

lemma mask_bit: "k < 8 \<Longrightarrow> (x::u8) AND 2 ^ k \<noteq> 0 \<longleftrightarrow> bit x k"
proof -
  assume k: "k < 8"
  have "bit (x AND 2 ^ k) j \<longleftrightarrow> j = k \<and> bit x k" for j
    using k by (auto simp: bit_and_iff bit_exp_iff)
  then show ?thesis unfolding bit_eq_iff [of "x AND 2 ^ k" 0] using k by simp
qed

lemma unat_div_mod8: "unat ((i::u32) div 8) = unat i div 8" "unat (i mod 8) = unat i mod 8"
  by (simp_all add: unat_div unat_mod)

lemma scan_test_ok [simp]:
  "unat i div 8 < length (bits b) \<Longrightarrow> bitmap_scan_test b i = Ok (used b (unat i))"
  by (simp add: bitmap_scan_test_def unat_div_mod8 mask_bit used_def)

lemma bitmap_set_ok:
  assumes "unat i div 8 < length (bits b)" and "v = 0 \<or> v = 1"
  shows "\<exists>b'. bitmap_set b i v = Ok b' \<and> btmp_bytes_len b' = btmp_bytes_len b \<and> length (bits b') = length (bits b)
    \<and> (\<forall>j. j div 8 < length (bits b) \<longrightarrow> used b' j = (if j = unat i then v = 1 else used b j))"
proof -
  let ?m = "(2::u8) ^ (unat i mod 8)" and ?k = "unat i div 8"
  let ?y = "if v \<noteq> 0 then bits b ! ?k OR ?m else bits b ! ?k AND NOT ?m"
  have y: "bit ?y k \<longleftrightarrow> (if k = unat i mod 8 then v = 1 else bit (bits b ! ?k) k)" if "k < 8" for k
    using assms(2) that by (auto simp: bit_or_iff bit_and_iff bit_not_iff bit_exp_iff)
  have "bitmap_set b i v = Ok (b\<lparr>bits := (bits b)[?k := ?y]\<rparr>)"
    using assms by (auto simp: bitmap_set_def unat_div_mod8 Let_def)
  moreover have "used (b\<lparr>bits := (bits b)[?k := ?y]\<rparr>) j = (if j = unat i then v = 1 else used b j)"
    if "j div 8 < length (bits b)" for j
  proof (cases "j div 8 = ?k")
    case True
    then have "used (b\<lparr>bits := (bits b)[?k := ?y]\<rparr>) j = bit ?y (j mod 8)" using that by (simp add: used_def)
    moreover have "j mod 8 = unat i mod 8 \<longleftrightarrow> j = unat i" using True by (metis div_mult_mod_eq)
    ultimately show ?thesis using True y [of "j mod 8"] by (simp add: used_def)
  qed (auto simp: used_def)
  ultimately show ?thesis by fastforce
qed

lemma bit_ff: "k < 8 \<Longrightarrow> bit (0xff::u8) k"
  by (cases k rule: nat.exhaust) (auto simp: numeral_eq_Suc less_Suc_eq)

section \<open>Scanning\<close>

text \<open>One byte more than the map believes in really exists.\<close>

definition bitmap_wf :: "bitmap \<Rightarrow> bool" where
  "bitmap_wf b \<longleftrightarrow> unat (btmp_bytes_len b) < length (bits b) \<and> unat (btmp_bytes_len b) < 2 ^ 28"

declare scan_byte.simps [simp del] scan_bit.simps [simp del]

lemma scan_byte_ok:
  assumes "bitmap_wf b" and "i \<le> unat (btmp_bytes_len b)"
  shows "\<exists>j. scan_byte b i = Ok j \<and> i \<le> j \<and> j \<le> unat (btmp_bytes_len b) \<and> (\<forall>k. i \<le> k \<longrightarrow> k < j \<longrightarrow> bits b ! k = 0xff)
    \<and> (j = unat (btmp_bytes_len b) \<or> bits b ! j \<noteq> 0xff)"
  using assms
proof (induction "unat (btmp_bytes_len b) - i" arbitrary: i)
  case 0
  then show ?case by (subst scan_byte.simps) (auto simp: bitmap_wf_def)
next
  case (Suc n)
  show ?case
  proof (cases "bits b ! i = 0xff")
    case False
    then show ?thesis using Suc.prems by (subst scan_byte.simps) (auto simp: bitmap_wf_def)
  next
    case True
    have lt: "i < unat (btmp_bytes_len b)" using Suc.hyps(2) by simp
    then have n: "n = unat (btmp_bytes_len b) - (i + 1)" "i + 1 \<le> unat (btmp_bytes_len b)" using Suc.hyps(2) by linarith+
    obtain j where j: "scan_byte b (i + 1) = Ok j" "i + 1 \<le> j" "j \<le> unat (btmp_bytes_len b)"
      "\<forall>k. i + 1 \<le> k \<longrightarrow> k < j \<longrightarrow> bits b ! k = 0xff" "j = unat (btmp_bytes_len b) \<or> bits b ! j \<noteq> 0xff"
      using Suc.hyps(1) [OF n(1) Suc.prems(1) n(2)] by blast
    have "scan_byte b i = Ok j" using j(1) lt True Suc.prems(1) by (subst scan_byte.simps) (simp add: bitmap_wf_def)
    then show ?thesis using j True by (metis Suc_eq_plus1 Suc_leD Suc_leI le_neq_implies_less)
  qed
qed

lemma scan_bit_ok:
  assumes "x \<noteq> 0xff" and "\<forall>k < j. bit x k" and "j \<le> 8"
  shows "j \<le> scan_bit x j \<and> scan_bit x j < 8 \<and> \<not> bit x (scan_bit x j) \<and> (\<forall>k < scan_bit x j. bit x k)"
  using assms(2,3)
proof (induction "8 - j" arbitrary: j)
  case 0
  then have "bit x k \<longleftrightarrow> bit (0xff::u8) k" for k
    using bit_imp_le_length [of x k] bit_imp_le_length [of "0xff::u8" k] bit_ff [of k] by (cases "k < 8") auto
  then have "x = 0xff" by (simp add: bit_eq_iff)
  then show ?case using assms(1) by simp
next
  case (Suc n)
  then have j: "j < 8" by simp
  have "(push_bit j 1 AND x \<noteq> 0) = bit x j" using mask_bit [OF j, of x] by (simp add: and.commute)
  then show ?case
  proof (cases "bit x j")
    case True
    then have "scan_bit x j = scan_bit x (j + 1)" using \<open>_ = bit x j\<close> by (subst scan_bit.simps) simp
    moreover have "\<forall>k < j + 1. bit x k" using Suc.prems(1) True by (auto simp: less_Suc_eq)
    moreover have "n = 8 - (j + 1)" using Suc.hyps(2) by linarith
    ultimately show ?thesis using Suc.hyps(1) [of "j + 1"] j by simp
  next
    case False
    then have "scan_bit x j = j" using \<open>_ = bit x j\<close> by (subst scan_bit.simps) simp
    then show ?thesis using False Suc.prems j by simp
  qed
qed

lemma sint_small: "n < 2 ^ 31 \<Longrightarrow> sint (of_nat n :: u32) = int n"
proof -
  assume n: "n < 2 ^ 31"
  then have "uint (of_nat n :: u32) = int n" by (simp add: uint_nat unat_of_nat take_bit_nat_eq_self)
  moreover have "int n < 2 ^ 31" using n by simp
  moreover have "- ((2::int) ^ 31) \<le> int n" by (rule order_trans [of _ 0]) simp_all
  ultimately show ?thesis using signed_take_bit_int_eq_self [of 31 "int n"] by (simp only: sint_uint) simp
qed

text \<open>A run of \<open>c\<close> clear bits from \<open>r\<close>.\<close>

definition clear :: "bitmap \<Rightarrow> nat \<Rightarrow> nat \<Rightarrow> bool" where
  "clear b r c \<longleftrightarrow> (\<forall>i. r \<le> i \<longrightarrow> i < r + c \<longrightarrow> \<not> used b i)"

text \<open>
  The state of the loop: the \<open>cntd\<close> bits before \<open>nb\<close> are clear, no run of \<open>cnt\<close> clear bits
  ends at or before \<open>nb\<close>, and the bit before the current run is set or missing.
\<close>

lemma scan_run_ok:
  assumes wf: "bitmap_wf b" and c: "1 \<le> c" "c < 2 ^ 32"
    and nb: "nb + n = 8 * unat (btmp_bytes_len b) + 1" and k: "k \<le> nb" "k < c" "clear b (nb - k) k"
    and no: "\<forall>r. r + c \<le> nb \<longrightarrow> \<not> clear b r c" and before: "\<forall>r. r < nb - k \<longrightarrow> \<not> clear b r (nb - r)"
  shows "\<exists>v. scan_run b (of_nat c) n (of_nat nb) (of_nat k) = Ok v \<and>
    (if v = - 1 then \<forall>r. r + c \<le> 8 * unat (btmp_bytes_len b) + 1 \<longrightarrow> \<not> clear b r c
     else \<exists>r. v = int r \<and> r + c \<le> 8 * unat (btmp_bytes_len b) + 1 \<and> clear b r c \<and> (\<forall>r' < r. \<not> clear b r' c))"
  using nb k no before
proof (induction n arbitrary: nb k)
  case 0
  then show ?case by simp
next
  case (Suc n)
  let ?L = "unat (btmp_bytes_len b)"
  have len: "?L < length (bits b)" "?L < 2 ^ 28" using wf by (simp_all add: bitmap_wf_def)
  have nb: "nb \<le> 8 * ?L" using Suc.prems(1) by simp
  have u: "unat (of_nat nb :: u32) = nb" using nb len by (simp add: unat_of_nat take_bit_nat_eq_self)
  have t: "bitmap_scan_test b (of_nat nb) = Ok (used b nb)" using nb len by (subst scan_test_ok) (simp_all add: u)
  define k' where "k' = (if used b nb then 0 else k + 1)"
  have k': "(if used b nb then 0 else of_nat k + 1) = (of_nat k' :: u32)" by (simp add: k'_def)
  have eq: "(of_nat k' = (of_nat c :: u32)) \<longleftrightarrow> k' = c"
    using c Suc.prems(3) by (auto simp: k'_def word_of_nat_eq_iff take_bit_nat_eq_self)
  have cl: "clear b (nb + 1 - k') k'" using Suc.prems(2,4) by (auto simp: clear_def k'_def less_Suc_eq)
  show ?case
  proof (cases "k' = c")
    case True
    then have kc: "\<not> used b nb" "c = k + 1" "c \<le> nb + 1" using c Suc.prems(2) by (auto simp: k'_def split: if_splits)
    then have "(of_nat nb - of_nat c + 1 :: u32) = of_nat (nb + 1 - c)" by (simp add: of_nat_diff)
    then have v: "scan_run b (of_nat c) (Suc n) (of_nat nb) (of_nat k) = Ok (int (nb + 1 - c))"
      using t k' eq True sint_small [of "nb + 1 - c"] nb len by (simp del: of_nat_add of_nat_Suc)
    have "\<not> clear b r c" if r: "r < nb + 1 - c" for r using Suc.prems(5) r by auto
    then have "clear b (nb + 1 - c) c \<and> (\<forall>r < nb + 1 - c. \<not> clear b r c)" using cl True by simp
    moreover have "nb + 1 - c + c \<le> 8 * ?L + 1" using kc(3) nb by simp
    moreover have "int (nb + 1 - c) \<noteq> - 1" by simp
    ultimately show ?thesis using v by metis
  next
    case False
    have "k' \<le> nb + 1" "k' < c" using Suc.prems(2,3) False c by (auto simp: k'_def)
    moreover have "\<not> clear b r c" if "r + c \<le> nb + 1" for r
    proof
      assume cr: "clear b r c"
      then have r: "r = nb + 1 - c" "\<not> used b nb" using that Suc.prems(5) c by (auto simp: clear_def le_Suc_eq)
      then have "r < nb - k" using False Suc.prems(3) that c by (auto simp: k'_def)
      then show False using Suc.prems(6) cr r(1) that by (auto simp: clear_def)
    qed
    moreover have "\<not> clear b r (nb + 1 - r)" if "r < nb + 1 - k'" for r
    proof (cases "used b nb")
      case True
      then show ?thesis using that by (auto simp: clear_def k'_def intro: exI [of _ nb])
    next
      case False
      then have "\<not> clear b r (nb - r)" using that Suc.prems(6) by (simp add: k'_def)
      then show ?thesis using that unfolding clear_def by (metis Suc_eq_plus1 Suc_leI add_diff_inverse_nat diff_le_self
          less_SucI less_diff_conv le_less_trans not_less zero_less_diff add.commute less_imp_le diff_add)
    qed
    moreover have "scan_run b (of_nat c) (Suc n) (of_nat nb) (of_nat k) = scan_run b (of_nat c) n (of_nat (nb + 1)) (of_nat k')"
      using t k' eq False by (simp add: Let_def add.commute [of 1])
    moreover have "nb + 1 + n = 8 * ?L + 1" using Suc.prems(1) by simp
    ultimately show ?thesis using Suc.IH [of "nb + 1" k'] cl by presburger
  qed
qed

lemma bitmap_scan_ok:
  assumes wf: "bitmap_wf b" and c: "1 \<le> unat cnt" and free: "\<exists>i < unat (btmp_bytes_len b). bits b ! i \<noteq> 0xff"
  shows "\<exists>v. bitmap_scan b cnt = Ok v \<and>
    (if v = - 1 then \<forall>r. r + unat cnt \<le> 8 * unat (btmp_bytes_len b) + 1 \<longrightarrow> \<not> clear b r (unat cnt)
     else \<exists>r. v = int r \<and> r + unat cnt \<le> 8 * unat (btmp_bytes_len b) + 1 \<and> clear b r (unat cnt)
            \<and> (\<forall>r' < r. \<not> clear b r' (unat cnt)))"
proof -
  let ?L = "unat (btmp_bytes_len b)"
  have len: "?L < length (bits b)" "?L < 2 ^ 28" using wf by (simp_all add: bitmap_wf_def)
  obtain j where j: "scan_byte b 0 = Ok j" "j \<le> ?L" "\<forall>k < j. bits b ! k = 0xff" "j = ?L \<or> bits b ! j \<noteq> 0xff"
    using scan_byte_ok [OF wf, of 0] by auto
  then have jL: "j < ?L" "bits b ! j \<noteq> 0xff" using free by (metis le_neq_implies_less, metis le_neq_implies_less)
  define q where "q = scan_bit (bits b ! j) 0"
  have q: "q < 8" "\<not> bit (bits b ! j) q" "\<forall>k < q. bit (bits b ! j) k"
    using scan_bit_ok [OF jL(2), of 0] by (auto simp: q_def)
  define s where "s = j * 8 + q"
  have sdm: "s div 8 = j" "s mod 8 = q" using q(1) by (simp_all add: s_def)
  have sL: "s < 8 * ?L" using jL(1) q(1) by (simp add: s_def)
  have us: "unat (of_nat s :: u32) = s" using sL len by (simp add: unat_of_nat take_bit_nat_eq_self)
  have first: "used b i" if "i < s" for i
  proof (cases "i div 8 = j")
    case True
    then have "i mod 8 < q" using that sdm by (metis div_mult_mod_eq nat_add_left_cancel_less)
    then show ?thesis using q(3) True by (simp add: used_def)
  next
    case False
    then have "i div 8 < j" using that sdm(1) by (metis div_le_mono le_neq_implies_less less_imp_le)
    then show ?thesis using j(3) bit_ff [of "i mod 8"] by (simp add: used_def)
  qed
  have ns: "\<not> used b s" using q(2) by (simp add: used_def sdm)
  have no: "\<not> clear b r k" if "r < s" "1 \<le> k" for r k using first [OF that(1)] that(2) by (auto simp: clear_def)
  show ?thesis
  proof (cases "unat cnt = 1")
    case True
    then have "cnt = 1" by (metis unat_1 word_unat_eq_iff)
    then have "bitmap_scan b cnt = Ok (int s)"
      using j(1) jL(1) sint_small [of s] sL len by (simp add: bitmap_scan_def s_def q_def)
    moreover have "clear b s 1" using ns by (auto simp: clear_def less_Suc_eq)
    moreover have "\<forall>r' < s. \<not> clear b r' 1" using no by simp
    moreover have "s + 1 \<le> 8 * ?L + 1" "int s \<noteq> - 1" using sL by simp_all
    ultimately show ?thesis unfolding True by metis
  next
    case False
    have bl: "unat (btmp_bytes_len b * 8 - of_nat s) = 8 * ?L - s"
    proof -
      have "unat (btmp_bytes_len b * 8) = ?L * 8" using len(2) unat_mult_lem [of "btmp_bytes_len b" 8] by simp
      moreover have "of_nat s \<le> btmp_bytes_len b * 8" using calculation sL us by (simp add: word_le_nat_alt)
      ultimately show ?thesis using us by (simp add: unat_sub)
    qed
    have "bitmap_scan b cnt = scan_run b cnt (8 * ?L - s) (of_nat (s + 1)) 1"
    proof -
      have "cnt \<noteq> 1" using False by auto
      then show ?thesis using j(1) jL(1) bl by (simp add: bitmap_scan_def Let_def q_def [symmetric] s_def [symmetric] add.commute [of 1] del: of_nat_mult of_nat_add)
    qed
    moreover have "clear b (s + 1 - 1) 1" using ns by (auto simp: clear_def less_Suc_eq)
    moreover have "\<forall>r. r + unat cnt \<le> s + 1 \<longrightarrow> \<not> clear b r (unat cnt)" using no c False by auto
    moreover have "\<forall>r. r < s + 1 - 1 \<longrightarrow> \<not> clear b r (s + 1 - r)" using no by auto
    moreover have "unat cnt < 2 ^ 32" using unsigned_less [of cnt] by simp
    moreover have "s + 1 + (8 * ?L - s) = 8 * ?L + 1" "1 \<le> s + 1" "1 < unat cnt" using sL c False by simp_all
    ultimately show ?thesis
      using scan_run_ok [OF wf c, of "s + 1" "8 * ?L - s" 1] by (simp only: of_nat_1 of_nat_unat ucast_id)
  qed
qed

section \<open>Properties\<close>

text \<open>On a map with a free bit, \<^verbatim>\<open>bitmap_scan\<close> returns the first position from which \<open>cnt\<close> bits
  are clear, or -1 when there is none; the bits it considers are those of the map and the one
  after its last.\<close>

theorem bitmap_scan_first_fit:
  assumes "bitmap_wf b" and "1 \<le> unat cnt" and "\<exists>i < unat (btmp_bytes_len b). bits b ! i \<noteq> 0xff"
  shows "\<exists>v. bitmap_scan b cnt = Ok v \<and>
    (if v = - 1 then \<forall>r. r + unat cnt \<le> 8 * unat (btmp_bytes_len b) + 1 \<longrightarrow> \<not> clear b r (unat cnt)
     else \<exists>r. v = int r \<and> r + unat cnt \<le> 8 * unat (btmp_bytes_len b) + 1 \<and> clear b r (unat cnt)
            \<and> (\<forall>r' < r. \<not> clear b r' (unat cnt)))"
  using bitmap_scan_ok [OF assms] .

theorem bitmap_scan_first_fit_witness:
  "bitmap_scan \<lparr>btmp_bytes_len = 2, bits = [0xff, 0x0b, 0]\<rparr> 3 = Ok 12
   \<and> clear \<lparr>btmp_bytes_len = 2, bits = [0xff, 0x0b, 0]\<rparr> 12 3"
proof -
  let ?b = "\<lparr>btmp_bytes_len = 2, bits = [0xff, 0x0b, 0]\<rparr>"
  have v: "bitmap_scan ?b 3 = Ok 12" by code_simp
  have "bitmap_wf ?b" "\<exists>i < unat (btmp_bytes_len ?b). bits ?b ! i \<noteq> 0xff" "1 \<le> unat (3::u32)"
    by (auto simp: bitmap_wf_def intro: exI [of _ 1])
  then have "\<exists>v. bitmap_scan ?b 3 = Ok v \<and>
    (if v = - 1 then \<forall>r. r + unat (3::u32) \<le> 8 * unat (btmp_bytes_len ?b) + 1 \<longrightarrow> \<not> clear ?b r (unat (3::u32))
     else \<exists>r. v = int r \<and> r + unat (3::u32) \<le> 8 * unat (btmp_bytes_len ?b) + 1 \<and> clear ?b r (unat (3::u32))
            \<and> (\<forall>r' < r. \<not> clear ?b r' (unat (3::u32))))"
    by (intro bitmap_scan_first_fit)
  then have "\<exists>r. 12 = int r \<and> clear ?b r 3" using v by auto
  then show ?thesis using v by (metis int_ops(3) nat_int)
qed

text \<open>The bit after the last one counts: in a map of 16 bits with only the last one clear,
  two consecutive bits are found from 15 on. If the array ends with the map, the same call
  reads outside it; so does a search in a full map, before the assertion can fail.\<close>

theorem bitmap_scan_past_end:
  "bitmap_scan \<lparr>btmp_bytes_len = 2, bits = [0xff, 0x7f, 0]\<rparr> 2 = Ok 15
   \<and> bitmap_scan \<lparr>btmp_bytes_len = 2, bits = [0xff, 0x7f]\<rparr> 2 = Fail Out_of_bounds
   \<and> bitmap_scan \<lparr>btmp_bytes_len = 2, bits = [0xff, 0xff]\<rparr> 1 = Fail Out_of_bounds"
  by code_simp

end
