(* ===== verification/Pid_Alloc.thy ===== *)
theory Pid_Alloc
  imports Spinlock Addr
begin

text \<open>
  The allocator of process identifiers of \<^verbatim>\<open>tk_pid.c\<close>: a counter and a stack of 31 released
  identifiers. The theorems: identifiers in use are never handed out again as long as every
  release succeeds; what the search for double releases really tests; and the places of the
  kernel stacks that the identifiers determine.
\<close>

section \<open>The code\<close>

record PidAllocator =
  plock :: bool
  current_pid :: u64
  recycled_stack :: "u64 list"
  psp :: u8

definition pid_init :: "u64 list \<Rightarrow> PidAllocator" where
  "pid_init st = \<lparr>plock = False, current_pid = 1, recycled_stack = st, psp = 0\<rparr>"

definition pid_alloc :: "PidAllocator \<Rightarrow> (u64 \<times> PidAllocator) res" where
  "pid_alloc a =
     bind_res (lock_acquire (plock a)) (\<lambda>l.
     bind_res
       (if psp a \<noteq> 0
        then bind_res (aread (recycled_stack a) (unat (psp a - 1))) (\<lambda>r. Ok (r, a\<lparr>plock := l, psp := psp a - 1\<rparr>))
        else let a = a\<lparr>plock := l, current_pid := current_pid a + 1\<rparr> in Ok (current_pid a - 1, a))
       (\<lambda>(r, a). bind_res (lock_release (plock a)) (\<lambda>l. Ok (r, a\<lparr>plock := l\<rparr>))))"

text \<open>The loop compares the same element, the one at the top of the stack, in every round.\<close>

primrec dealloc_scan :: "PidAllocator \<Rightarrow> u64 \<Rightarrow> nat \<Rightarrow> unit res" where
  "dealloc_scan a pid 0 = Ok ()"
| "dealloc_scan a pid (Suc n) =
     bind_res (aread (recycled_stack a) (unat (psp a)))
       (\<lambda>x. if x = pid then Fail (Panic ''pid has been deallocated'') else dealloc_scan a pid n)"

definition pid_dealloc :: "PidAllocator \<Rightarrow> u64 \<Rightarrow> PidAllocator res" where
  "pid_dealloc a pid =
     bind_res (lock_acquire (plock a)) (\<lambda>l.
     bind_res (kassert (pid < current_pid a)) (\<lambda>_.
     bind_res (dealloc_scan a pid (unat (psp a))) (\<lambda>_.
     bind_res (awrite (recycled_stack a) (unat (psp a)) pid) (\<lambda>st.
     bind_res (lock_release l) (\<lambda>l. Ok (a\<lparr>plock := l, recycled_stack := st, psp := psp a + 1\<rparr>))))))"


definition kernel_stack_pos :: "u64 \<Rightarrow> u64 \<times> u64" where
  "kernel_stack_pos pid =
     (let top = TRAP_CONTEXT - pid * (KERNEL_STACK_SIZE + 4096) in (top - KERNEL_STACK_SIZE, top))"

definition ks_get_top :: "u64 \<Rightarrow> u64" where
  "ks_get_top pid = TRAP_CONTEXT - pid * (KERNEL_STACK_SIZE + 4096)"

section \<open>Identifiers in use\<close>

definition recycled :: "PidAllocator \<Rightarrow> u64 list" where
  "recycled a = take (unat (psp a)) (recycled_stack a)"

text \<open>Every identifier below the counter is in use or on the stack, not both, and the stack has no duplicates.\<close>

definition pid_inv :: "PidAllocator \<Rightarrow> u64 set \<Rightarrow> bool" where
  "pid_inv a live \<longleftrightarrow> \<not> plock a \<and> length (recycled_stack a) = 31 \<and> unat (psp a) \<le> 31 \<and> distinct (recycled a)
     \<and> live \<inter> set (recycled a) = {} \<and> live \<union> set (recycled a) = {1..<current_pid a} \<and> 1 \<le> current_pid a"

lemma pid_init_inv: "length st = 31 \<Longrightarrow> pid_inv (pid_init st) {}"
  by (simp add: pid_inv_def pid_init_def recycled_def)

lemma pid_alloc_ok:
  assumes inv: "pid_inv a live" and nw: "current_pid a \<noteq> - 1"
  shows "\<exists>p a'. pid_alloc a = Ok (p, a') \<and> p \<notin> live \<and> p \<noteq> 0 \<and> pid_inv a' (insert p live)"
proof (cases "psp a = 0")
  case True
  let ?c = "current_pid a"
  have "pid_alloc a = Ok (?c, a\<lparr>plock := False, current_pid := ?c + 1\<rparr>)"
    using inv True by (simp add: pid_alloc_def pid_inv_def Let_def)
  moreover have "?c \<notin> live" "?c \<noteq> 0" using inv True by (auto simp: pid_inv_def recycled_def)
  moreover have u: "unat (?c + 1) = Suc (unat ?c)"
  proof -
    have "1 + ?c \<noteq> 0" using nw by (metis add_eq_0_iff)
    then show ?thesis using unatSuc [of ?c] by (simp add: add.commute)
  qed
  moreover have "{1..<?c + 1} = insert ?c {1..<?c}"
  proof -
    have "x < ?c + 1 \<longleftrightarrow> x \<le> ?c" for x by (simp add: u word_less_nat_alt word_le_nat_alt less_Suc_eq_le)
    then show ?thesis using inv by (auto simp: pid_inv_def order.order_iff_strict)
  qed
  moreover have "1 \<le> ?c + 1" by (simp add: u word_le_nat_alt)
  ultimately show ?thesis using inv True by (auto simp: pid_inv_def recycled_def)
next
  case False
  have u: "unat (psp a - 1) = unat (psp a) - 1" "0 < unat (psp a)"
    using False word_pred_less [of "psp a"] by (simp_all add: word_neq_0_conv unat_gt_0)
  let ?n = "unat (psp a) - 1" and ?p = "recycled_stack a ! (unat (psp a) - 1)"
  have len: "?n < length (recycled_stack a)" using inv u(2) by (auto simp: pid_inv_def)
  have split: "recycled a = take ?n (recycled_stack a) @ [?p]"
    using take_Suc_conv_app_nth [OF len] u(2) by (simp add: recycled_def)
  have "pid_alloc a = Ok (?p, a\<lparr>plock := False, psp := psp a - 1\<rparr>)"
    using inv False u(1) len by (simp add: pid_alloc_def pid_inv_def)
  moreover have "recycled (a\<lparr>plock := False, psp := psp a - 1\<rparr>) = take ?n (recycled_stack a)"
    using u(1) by (simp add: recycled_def)
  moreover have "?p \<noteq> 0"
  proof -
    have "?p \<in> {1..<current_pid a}" using inv split by (auto simp: pid_inv_def)
    then show ?thesis by auto
  qed
  ultimately show ?thesis using inv split u(1) by (auto simp: pid_inv_def)
qed


lemma dealloc_scan_ok:
  "unat (psp a) < length (recycled_stack a) \<Longrightarrow>
   dealloc_scan a pid n = (if 0 < n \<and> recycled_stack a ! unat (psp a) = pid
     then Fail (Panic ''pid has been deallocated'') else Ok ())"
  by (induction n) auto

lemma pid_dealloc_eq:
  assumes "\<not> plock a" and "unat (psp a) < length (recycled_stack a)"
  shows "pid_dealloc a pid =
    (if \<not> pid < current_pid a then Fail Assert_failed
     else if psp a \<noteq> 0 \<and> recycled_stack a ! unat (psp a) = pid then Fail (Panic ''pid has been deallocated'')
     else Ok (a\<lparr>plock := False, recycled_stack := (recycled_stack a)[unat (psp a) := pid], psp := psp a + 1\<rparr>))"
  using assms by (auto simp: pid_dealloc_def dealloc_scan_ok unat_gt_0 word_neq_0_conv)

lemma pid_dealloc_ok:
  assumes inv: "pid_inv a live" and p: "p \<in> live" and full: "unat (psp a) < 31"
    and top: "psp a = 0 \<or> recycled_stack a ! unat (psp a) \<noteq> p"
  shows "\<exists>a'. pid_dealloc a p = Ok a' \<and> pid_inv a' (live - {p})"
proof -
  let ?a = "a\<lparr>plock := False, recycled_stack := (recycled_stack a)[unat (psp a) := p], psp := psp a + 1\<rparr>"
  have len: "unat (psp a) < length (recycled_stack a)" "\<not> plock a" and pc: "p < current_pid a"
    using inv full p by (auto simp: pid_inv_def)
  then have eq: "pid_dealloc a p = Ok ?a" using pid_dealloc_eq [OF len(2,1)] top by auto
  have "unat (psp a + 1) = unat (psp a) + 1" using word_succ_less [of "psp a" 31] full by (simp add: word_less_nat_alt)
  then have u: "unat (psp a + 1) = Suc (unat (psp a))" by simp
  have r: "recycled ?a = recycled a @ [p]"
    using len(1) by (simp add: recycled_def u take_Suc_conv_app_nth)
  have "p \<notin> set (recycled a)" using inv p by (auto simp: pid_inv_def)
  then have "pid_inv ?a (live - {p})" using inv p full u r by (auto simp: pid_inv_def)
  then show ?thesis using eq by blast
qed

section \<open>Properties\<close>

text \<open>C16: identifiers are unique: \<^verbatim>\<open>pid_alloc\<close> returns an identifier that is not in use and
  not zero, and \<^verbatim>\<open>pid_dealloc\<close> takes back one that is in use, provided there is room on the stack
  of released identifiers and the stale slot above its top does not happen to hold it.\<close>

theorem pid_unique:
  assumes "pid_inv a live" and "current_pid a \<noteq> - 1"
  shows "(\<exists>p a'. pid_alloc a = Ok (p, a') \<and> p \<notin> live \<and> p \<noteq> 0 \<and> pid_inv a' (insert p live))
    \<and> (\<forall>p \<in> live. unat (psp a) < 31 \<longrightarrow> (psp a = 0 \<or> recycled_stack a ! unat (psp a) \<noteq> p) \<longrightarrow>
         (\<exists>a'. pid_dealloc a p = Ok a' \<and> pid_inv a' (live - {p})))"
  using pid_alloc_ok [OF assms] pid_dealloc_ok [OF assms(1)] by blast

theorem pid_unique_witness:
  "(\<exists>p a'. pid_alloc (pid_init (replicate 31 0)) = Ok (p, a') \<and> p \<noteq> 0 \<and> pid_inv a' {p})"
proof -
  have "pid_inv (pid_init (replicate 31 0)) {}" using pid_init_inv by simp
  moreover have "current_pid (pid_init (replicate 31 0)) \<noteq> - 1" by (simp add: pid_init_def)
  ultimately show ?thesis using pid_unique [of "pid_init (replicate 31 0)" "{}"] by simp
qed

text \<open>A run of calls; the result lists what the allocations returned.\<close>

datatype pid_call = Get | Put u64

fun pid_run :: "PidAllocator \<Rightarrow> pid_call list \<Rightarrow> u64 list res" where
  "pid_run a [] = Ok []"
| "pid_run a (Get # cs) = bind_res (pid_alloc a) (\<lambda>(p, a). bind_res (pid_run a cs) (\<lambda>ps. Ok (p # ps)))"
| "pid_run a (Put p # cs) = bind_res (pid_dealloc a p) (\<lambda>a. pid_run a cs)"

text \<open>The search for double releases looks at the slot above the top of the stack instead of
  the slots below it. A double release is accepted, after which one identifier is handed out
  twice; and a legal release is refused when the identifier was the last one taken from the
  stack.\<close>

theorem pid_double_release:
  "pid_run (pid_init (replicate 31 0)) [Get, Get, Put 1, Put 1, Get, Get] = Ok [1, 2, 1, 1]
   \<and> pid_run (pid_init (replicate 31 0)) [Get, Get, Put 1, Put 2, Get, Put 2]
       = Fail (Panic ''pid has been deallocated'')
   \<and> pid_run (pid_init (replicate 31 0)) [Get, Get, Put 1, Put 2, Get] = Ok [1, 2, 2]"
  by code_simp

text \<open>Where the stacks lie: 16384 bytes each, with a page between them.\<close>

lemma unat_stack_top:
  assumes "unat x < 2 ^ 40"
  shows "unat (TRAP_CONTEXT - x * (KERNEL_STACK_SIZE + 4096)) = 2 ^ 64 - 8192 - unat x * 20480"
proof -
  have T: "unat TRAP_CONTEXT = 2 ^ 64 - 8192" by (simp add: TRAP_CONTEXT_def TRAMPOLINE_def ULONG_MAX_def PAGE_SIZE_def)
  have m: "unat (x * (KERNEL_STACK_SIZE + 4096)) = unat x * 20480"
    using assms unat_mult_lem [of x 20480] by (simp add: KERNEL_STACK_SIZE_def)
  then have "x * (KERNEL_STACK_SIZE + 4096) \<le> TRAP_CONTEXT" using assms T by (simp add: word_le_nat_alt)
  then show ?thesis using m T by (simp add: unat_sub)
qed

lemma unat_stack_bottom:
  assumes "unat x < 2 ^ 40"
  shows "unat (TRAP_CONTEXT - x * (KERNEL_STACK_SIZE + 4096) - KERNEL_STACK_SIZE) = 2 ^ 64 - 8192 - unat x * 20480 - 16384"
proof -
  have "KERNEL_STACK_SIZE \<le> TRAP_CONTEXT - x * (KERNEL_STACK_SIZE + 4096)"
    using unat_stack_top [OF assms] assms by (simp add: word_le_nat_alt KERNEL_STACK_SIZE_def)
  then show ?thesis using unat_stack_top [OF assms] by (simp add: unat_sub KERNEL_STACK_SIZE_def)
qed

text \<open>The kernel stacks of different processes do not overlap: each is 16 KiB long, lies below
  the trap context and is followed by a page that belongs to no stack.\<close>

theorem kernel_stacks_apart:
  assumes "unat p < unat q" and "unat q < 2 ^ 40"
  shows "fst (kernel_stack_pos p) < snd (kernel_stack_pos p) \<and> snd (kernel_stack_pos p) \<le> TRAP_CONTEXT
    \<and> snd (kernel_stack_pos p) = ks_get_top p
    \<and> unat (snd (kernel_stack_pos p)) = unat (fst (kernel_stack_pos p)) + 16384
    \<and> unat (snd (kernel_stack_pos q)) + 4096 \<le> unat (fst (kernel_stack_pos p))"
proof -
  have T: "unat TRAP_CONTEXT = 2 ^ 64 - 8192" by (simp add: TRAP_CONTEXT_def TRAMPOLINE_def ULONG_MAX_def PAGE_SIZE_def)
  have p: "unat p < 2 ^ 40" using assms by simp
  show ?thesis
    using assms unat_stack_top [OF p] unat_stack_top [OF assms(2)] unat_stack_bottom [OF p] T
    by (simp add: kernel_stack_pos_def ks_get_top_def Let_def word_less_nat_alt word_le_nat_alt) linarith
qed

theorem kernel_stacks_apart_witness:
  "unat (snd (kernel_stack_pos 2)) + 4096 \<le> unat (fst (kernel_stack_pos 1))"
  using kernel_stacks_apart [of 1 2] by simp

end
