(* ===== verification/Semaphore.thy ===== *)
theory Semaphore
  imports Spinlock
begin

text \<open>
  The semaphores of \<^verbatim>\<open>sync_sem.c\<close>. The caller is given by the process identifier of
  \<^verbatim>\<open>mytask()\<close>, or \<open>None\<close> while the hart runs no task. Waking the first task of the wait queue is
  reported in the result of \<open>sem_signal\<close>: the task that \<^verbatim>\<open>wakeup_fromwq\<close> makes ready. The
  theorems say how far the semaphore is a lock: it is one as long as no two calls of
  \<^verbatim>\<open>sem_wait\<close> overlap, and it never makes the second caller wait.
\<close>

section \<open>The code\<close>

record semaphore =
  svalue :: u32
  slock :: bool
  waiters :: "nat list"
  spid :: u64

definition sem_init :: "u32 \<Rightarrow> u64 \<Rightarrow> semaphore" where
  "sem_init v pid = \<lparr>svalue = v, slock = False, waiters = [], spid = pid\<rparr>"

text \<open>
  \<^verbatim>\<open>value\<close> is a \<^verbatim>\<open>uint\<close>: it wraps at zero, and \<^verbatim>\<open>value < 0\<close> compares as unsigned. When it holds,
  the caller goes to sleep inside the loop and does not return from this call.
\<close>

definition sem_wait :: "u64 option \<Rightarrow> semaphore \<Rightarrow> semaphore res" where
  "sem_wait me s =
     bind_res (lock_acquire (slock s)) (\<lambda>l.
     let s = s\<lparr>slock := l, svalue := svalue s - 1\<rparr>
     in if svalue s < 0 then Fail Spin_forever
        else let s = (case me of None \<Rightarrow> s | Some p \<Rightarrow> s\<lparr>spid := p\<rparr>)
             in bind_res (lock_release (slock s)) (\<lambda>l. Ok (s\<lparr>slock := l\<rparr>)))"

definition sem_signal :: "semaphore \<Rightarrow> (nat list \<times> semaphore) res" where
  "sem_signal s =
     bind_res (lock_acquire (slock s)) (\<lambda>l.
     let s = s\<lparr>slock := l, svalue := svalue s + 1\<rparr>;
         (woken, s) = (if svalue s \<le> 0 then (take 1 (waiters s), s\<lparr>waiters := drop 1 (waiters s)\<rparr>) else ([], s));
         s = s\<lparr>spid := 0\<rparr>
     in bind_res (lock_release (slock s)) (\<lambda>l. Ok (woken, s\<lparr>slock := l\<rparr>)))"

definition sem_hold :: "u64 option \<Rightarrow> semaphore \<Rightarrow> (bool \<times> semaphore) res" where
  "sem_hold me s =
     bind_res (lock_acquire (slock s)) (\<lambda>l.
     let i = (case me of Some p \<Rightarrow> svalue s \<le> 0 \<and> p = spid s | None \<Rightarrow> svalue s \<le> 0)
     in bind_res (lock_release l) (\<lambda>l. Ok (i, s\<lparr>slock := l\<rparr>)))"

section \<open>Lemmas\<close>

text \<open>A free semaphore, and one held by the caller.\<close>

definition sem_free :: "semaphore \<Rightarrow> bool" where
  "sem_free s \<longleftrightarrow> svalue s = 1 \<and> \<not> slock s \<and> waiters s = []"

definition sem_mine :: "u64 option \<Rightarrow> semaphore \<Rightarrow> bool" where
  "sem_mine me s \<longleftrightarrow> svalue s = 0 \<and> \<not> slock s \<and> waiters s = [] \<and> (\<forall>p. me = Some p \<longrightarrow> spid s = p)"

lemma sem_init_free [simp]: "sem_free (sem_init 1 p)"
  by (simp add: sem_free_def sem_init_def)

lemma sem_wait_eq:
  "\<not> slock s \<Longrightarrow> sem_wait me s = Ok (s\<lparr>svalue := svalue s - 1, spid := (case me of None \<Rightarrow> spid s | Some p \<Rightarrow> p)\<rparr>)"
  by (cases me) (simp_all add: sem_wait_def Let_def)

lemma sem_wait_free:
  assumes "sem_free s"
  shows "\<exists>s'. sem_wait me s = Ok s' \<and> sem_mine me s'"
  using assms by (cases me) (simp_all add: sem_free_def sem_mine_def sem_wait_eq)

lemma sem_hold_mine: "sem_mine me s \<Longrightarrow> sem_hold me s = Ok (True, s)"
  by (cases me) (auto simp: sem_mine_def sem_hold_def)

lemma sem_hold_free: "sem_free s \<Longrightarrow> sem_hold me s = Ok (False, s)"
  by (cases me) (auto simp: sem_free_def sem_hold_def)

lemma sem_signal_mine:
  assumes "sem_mine me s"
  shows "\<exists>s'. sem_signal s = Ok ([], s') \<and> sem_free s'"
  using assms by (simp add: sem_free_def sem_mine_def sem_signal_def Let_def)

text \<open>C17: \<^verbatim>\<open>sem_wait\<close> never waits: whatever the value, also when another process holds the
  semaphore, it takes it and records the caller as the holder; the value below zero that should
  make it wait is the largest unsigned number.\<close>

theorem sem_wait_never_blocks:
  assumes "\<not> slock s"
  shows "\<exists>s'. sem_wait me s = Ok s' \<and> svalue s' = svalue s - 1 \<and> waiters s' = waiters s
    \<and> (\<forall>p. me = Some p \<longrightarrow> spid s' = p)
    \<and> (svalue s = 0 \<longrightarrow> svalue s' = 0xffffffff)"
  using assms by (cases me) (auto simp: sem_wait_eq)

theorem sem_wait_never_blocks_witness:
  "\<exists>s'. sem_wait (Some 2) \<lparr>svalue = 0, slock = False, waiters = [], spid = 1\<rparr> = Ok s' \<and> spid s' = 2"
  using sem_wait_never_blocks [of "\<lparr>svalue = 0, slock = False, waiters = [], spid = 1\<rparr>" "Some 2"] by auto

end
