(* ===== verification/Bcache.thy ===== *)
theory Bcache
  imports Semaphore Phys_Mem
begin

text \<open>
  The buffer cache of \<^verbatim>\<open>fs_buf.c\<close> over the disk of \<^verbatim>\<open>fs_disk.c\<close>. The ring of buffers through
  \<^verbatim>\<open>prev\<close> and \<^verbatim>\<open>next\<close> is the list of their numbers from \<^verbatim>\<open>head.next\<close>, the most recently used, to
  \<^verbatim>\<open>head.prev\<close>. The sectors that the driver of the card reads and writes are a function from
  sector numbers to bytes. Tasks woken by a semaphore are recorded in \<open>bwoken\<close>. The theorems:
  the cache is transparent, that is, reading and writing sectors through it is reading and
  writing the disk, and it replaces the least recently used free buffer.
\<close>

section \<open>The code\<close>

definition BSIZE :: nat where "BSIZE = 512"
definition NBUF :: nat where "NBUF = 13 * 3"

record buf =
  valid :: bool
  bdev :: u32
  sectorno :: u32
  bsem :: semaphore
  refcnt :: u32
  bdata :: "u8 list"

record bcache =
  clock :: bool
  bufs :: "buf list"
  lru :: "nat list"
  DBRsec :: u32
  disk :: "u32 \<Rightarrow> u8 list"
  bwoken :: "nat list"

definition disk_read :: "bcache \<Rightarrow> buf \<Rightarrow> buf" where
  "disk_read bc r = r\<lparr>bdata := disk bc (sectorno r + DBRsec bc)\<rparr>"

definition disk_write :: "bcache \<Rightarrow> buf \<Rightarrow> bcache" where
  "disk_write bc w = bc\<lparr>disk := (disk bc)(sectorno w + DBRsec bc := bdata w)\<rparr>"

text \<open>
  Is there a master boot record? The first two bytes of sector 1 are copied into \<^verbatim>\<open>fi\<close>, whose
  other two bytes (\<open>junk\<close>) are never set.
\<close>

definition disk_init :: "u16 \<Rightarrow> bcache \<Rightarrow> bcache" where
  "disk_init junk bc =
     (let fi = push_bit 16 (ucast junk) OR (ucast (le_word (take 2 (disk bc 1))) :: u32)
      in if fi \<noteq> 0x5252 then bc\<lparr>DBRsec := ucast (le_word (take 4 (drop 0x1C6 (disk bc 0))))\<rparr> else bc)"

definition init_buf :: "buf \<Rightarrow> buf" where
  "init_buf b = b\<lparr>refcnt := 0, sectorno := NOT 0, bdev := NOT 0, bsem := sem_init 1 (spid (bsem b))\<rparr>"

primrec binit_loop :: "nat list \<Rightarrow> bcache \<Rightarrow> bcache" where
  "binit_loop [] bc = bc"
| "binit_loop (i # is) bc = binit_loop is (bc\<lparr>bufs := (bufs bc)[i := init_buf (bufs bc ! i)], lru := i # lru bc\<rparr>)"

definition binit :: "bcache \<Rightarrow> bcache" where
  "binit bc = binit_loop [0..<NBUF] (bc\<lparr>clock := False, lru := []\<rparr>)"

abbreviation set_buf :: "bcache \<Rightarrow> nat \<Rightarrow> buf \<Rightarrow> bcache" where
  "set_buf bc i b \<equiv> bc\<lparr>bufs := (bufs bc)[i := b]\<rparr>"

text \<open>The end of both branches of \<^verbatim>\<open>bget\<close>: drop the cache lock, then take the buffer.\<close>

definition bget_lock :: "u64 option \<Rightarrow> bcache \<Rightarrow> nat \<Rightarrow> (nat \<times> bcache) res" where
  "bget_lock me bc i =
     bind_res (lock_release (clock bc)) (\<lambda>l.
     bind_res (sem_wait me (bsem (bufs bc ! i))) (\<lambda>s.
     Ok (i, set_buf (bc\<lparr>clock := l\<rparr>) i ((bufs bc ! i)\<lparr>bsem := s\<rparr>))))"

definition bget :: "u64 option \<Rightarrow> bcache \<Rightarrow> u32 \<Rightarrow> u32 \<Rightarrow> (nat \<times> bcache) res" where
  "bget me bc dev sec =
     bind_res (lock_acquire (clock bc)) (\<lambda>l.
     let bc = bc\<lparr>clock := l\<rparr>
     in case find (\<lambda>i. bdev (bufs bc ! i) = dev \<and> sectorno (bufs bc ! i) = sec) (lru bc) of
          Some i \<Rightarrow> bget_lock me (set_buf bc i ((bufs bc ! i)\<lparr>refcnt := refcnt (bufs bc ! i) + 1\<rparr>)) i
        | None \<Rightarrow>
           (case find (\<lambda>i. refcnt (bufs bc ! i) = 0) (rev (lru bc)) of
              Some i \<Rightarrow> bget_lock me (set_buf bc i ((bufs bc ! i)\<lparr>bdev := dev, sectorno := sec, valid := False, refcnt := 1\<rparr>)) i
            | None \<Rightarrow> Fail (Panic ''bget: no buffers'')))"

definition bread :: "u64 option \<Rightarrow> bcache \<Rightarrow> u32 \<Rightarrow> u32 \<Rightarrow> (nat \<times> bcache) res" where
  "bread me bc dev sec =
     bind_res (bget me bc dev sec) (\<lambda>(i, bc).
     Ok (i, if valid (bufs bc ! i) then bc
            else set_buf bc i ((disk_read bc (bufs bc ! i))\<lparr>valid := True\<rparr>)))"

definition bwrite :: "u64 option \<Rightarrow> bcache \<Rightarrow> nat \<Rightarrow> bcache res" where
  "bwrite me bc i =
     bind_res (sem_hold me (bsem (bufs bc ! i))) (\<lambda>(h, s).
     if \<not> h then Fail (Panic ''bwrite'')
     else let bc = set_buf bc i ((bufs bc ! i)\<lparr>bsem := s\<rparr>) in Ok (disk_write bc (bufs bc ! i)))"

definition brelse :: "u64 option \<Rightarrow> bcache \<Rightarrow> nat \<Rightarrow> bcache res" where
  "brelse me bc i =
     bind_res (sem_hold me (bsem (bufs bc ! i))) (\<lambda>(h, s).
     if \<not> h then Fail (Panic ''brelse'')
     else bind_res (sem_signal s) (\<lambda>(w, s).
          bind_res (lock_acquire (clock bc)) (\<lambda>l.
          let b = (bufs bc ! i)\<lparr>bsem := s, refcnt := refcnt (bufs bc ! i) - 1\<rparr>;
              bc = set_buf (bc\<lparr>clock := l, bwoken := bwoken bc @ w\<rparr>) i b;
              bc = (if refcnt b = 0 then bc\<lparr>lru := i # remove1 i (lru bc)\<rparr> else bc)
          in bind_res (lock_release l) (\<lambda>l. Ok (bc\<lparr>clock := l\<rparr>)))))"

definition bpin :: "bcache \<Rightarrow> nat \<Rightarrow> bcache res" where
  "bpin bc i =
     bind_res (lock_acquire (clock bc)) (\<lambda>l.
     bind_res (lock_release l) (\<lambda>l.
     Ok (set_buf (bc\<lparr>clock := l\<rparr>) i ((bufs bc ! i)\<lparr>refcnt := refcnt (bufs bc ! i) + 1\<rparr>))))"

definition bunpin :: "bcache \<Rightarrow> nat \<Rightarrow> bcache res" where
  "bunpin bc i =
     bind_res (lock_acquire (clock bc)) (\<lambda>l.
     bind_res (lock_release l) (\<lambda>l.
     Ok (set_buf (bc\<lparr>clock := l\<rparr>) i ((bufs bc ! i)\<lparr>refcnt := refcnt (bufs bc ! i) - 1\<rparr>))))"

text \<open>
  The two ways in which the file system uses a buffer: read it and release it; read it,
  change its bytes, write it and release it.
\<close>

definition sec_read :: "u64 option \<Rightarrow> bcache \<Rightarrow> u32 \<Rightarrow> (u8 list \<times> bcache) res" where
  "sec_read me bc sec =
     bind_res (bread me bc 0 sec) (\<lambda>(i, bc).
     bind_res (brelse me bc i) (\<lambda>bc'. Ok (bdata (bufs bc ! i), bc')))"

definition sec_modify :: "u64 option \<Rightarrow> bcache \<Rightarrow> u32 \<Rightarrow> (u8 list \<Rightarrow> u8 list) \<Rightarrow> bcache res" where
  "sec_modify me bc sec f =
     bind_res (bread me bc 0 sec) (\<lambda>(i, bc).
     bind_res (bwrite me (set_buf bc i ((bufs bc ! i)\<lparr>bdata := f (bdata (bufs bc ! i))\<rparr>)) i) (\<lambda>bc.
     brelse me bc i))"

section \<open>The invariant\<close>

text \<open>A ring of all buffers, and no sector in two of them.\<close>

definition ring_ok :: "bcache \<Rightarrow> bool" where
  "ring_ok bc \<longleftrightarrow> \<not> clock bc \<and> length (bufs bc) = NBUF \<and> distinct (lru bc) \<and> set (lru bc) = {..<NBUF}"

definition one_copy :: "buf list \<Rightarrow> bool" where
  "one_copy bs \<longleftrightarrow> (\<forall>i < length bs. \<forall>j < length bs. bdev (bs ! i) = 0 \<longrightarrow> bdev (bs ! j) = 0 \<longrightarrow>
     sectorno (bs ! i) = sectorno (bs ! j) \<longrightarrow> i = j)"

text \<open>A buffer nobody uses, whose data, if valid, is that of the disk; a buffer held by the caller.\<close>

definition buf_idle :: "bcache \<Rightarrow> buf \<Rightarrow> bool" where
  "buf_idle bc b \<longleftrightarrow> refcnt b = 0 \<and> sem_free (bsem b) \<and> (bdev b = 0 \<or> bdev b = NOT 0 \<and> \<not> valid b)
     \<and> (valid b \<longrightarrow> bdata b = disk bc (sectorno b + DBRsec bc))"

definition buf_mine :: "u64 option \<Rightarrow> u32 \<Rightarrow> buf \<Rightarrow> bool" where
  "buf_mine me sec b \<longleftrightarrow> refcnt b = 1 \<and> sem_mine me (bsem b) \<and> bdev b = 0 \<and> sectorno b = sec \<and> valid b"

text \<open>The cache at rest, and while one buffer is held for sector \<open>sec\<close>.\<close>

definition cache_ok :: "bcache \<Rightarrow> bool" where
  "cache_ok bc \<longleftrightarrow> ring_ok bc \<and> one_copy (bufs bc) \<and> (\<forall>i < NBUF. buf_idle bc (bufs bc ! i))"

definition cache_held :: "u64 option \<Rightarrow> bcache \<Rightarrow> nat \<Rightarrow> u32 \<Rightarrow> bool" where
  "cache_held me bc i sec \<longleftrightarrow> ring_ok bc \<and> one_copy (bufs bc) \<and> i < NBUF \<and> buf_mine me sec (bufs bc ! i)
     \<and> (\<forall>j < NBUF. j \<noteq> i \<longrightarrow> buf_idle bc (bufs bc ! j))"

lemma NBUF_pos [simp]: "0 < NBUF" by (simp add: NBUF_def)

lemma ring_okD:
  assumes "ring_ok bc"
  shows "\<not> clock bc" "length (bufs bc) = NBUF" "distinct (lru bc)" "set (lru bc) = {..<NBUF}"
  using assms by (simp_all add: ring_ok_def)

lemma cache_okD:
  assumes "cache_ok bc"
  shows "ring_ok bc" "one_copy (bufs bc)" "\<And>i. i < NBUF \<Longrightarrow> buf_idle bc (bufs bc ! i)"
  using assms by (simp_all add: cache_ok_def)

lemma idleD:
  assumes "buf_idle bc b"
  shows "refcnt b = 0" "sem_free (bsem b)" "valid b \<Longrightarrow> bdata b = disk bc (sectorno b + DBRsec bc)"
  using assms by (simp_all add: buf_idle_def)

lemma one_copy_update:
  assumes "one_copy bs" and "\<And>j. j < length bs \<Longrightarrow> j \<noteq> i \<Longrightarrow> bdev (bs ! j) = 0 \<Longrightarrow> sectorno (bs ! j) \<noteq> sectorno b"
  shows "one_copy (bs[i := b])"
  using assms unfolding one_copy_def by (metis length_list_update nth_list_update_eq nth_list_update_neq)

lemma buf_idle_cong:
  "disk bc' = disk bc \<Longrightarrow> DBRsec bc' = DBRsec bc \<Longrightarrow> buf_idle bc' b = buf_idle bc b"
  by (simp add: buf_idle_def)

lemma held_intro:
  assumes ok: "cache_ok bc" and i: "i < NBUF"
    and no: "\<And>j. j < NBUF \<Longrightarrow> j \<noteq> i \<Longrightarrow> bdev (bufs bc ! j) = 0 \<Longrightarrow> sectorno (bufs bc ! j) \<noteq> sec"
    and b: "buf_mine me sec b"
  shows "cache_held me (set_buf bc i b) i sec"
proof -
  have len: "length (bufs bc) = NBUF" using ring_okD(2) [OF cache_okD(1) [OF ok]] .
  have "one_copy ((bufs bc)[i := b])"
    using one_copy_update [OF cache_okD(2) [OF ok]] no b len by (simp add: buf_mine_def)
  moreover have "buf_idle (set_buf bc i b) ((bufs bc)[i := b] ! j)" if "j < NBUF" "j \<noteq> i" for j
    using cache_okD(3) [OF ok that(1)] that(2) by (simp add: buf_idle_def)
  ultimately show ?thesis using cache_okD(1) [OF ok] i b len unfolding cache_held_def ring_ok_def by simp
qed

text \<open>Which buffer \<open>bread\<close> takes.\<close>

lemma bget_lock_ok:
  assumes "clock bc" "i < length (bufs bc)" "sem_free (bsem (bufs bc ! i))"
  shows "\<exists>s. bget_lock me bc i = Ok (i, set_buf (bc\<lparr>clock := False\<rparr>) i ((bufs bc ! i)\<lparr>bsem := s\<rparr>)) \<and> sem_mine me s"
  using sem_wait_free [OF assms(3), of me] assms(1,2) by (auto simp: bget_lock_def)

lemma bread_hit:
  assumes ok: "cache_ok bc" and hit: "find (\<lambda>i. bdev (bufs bc ! i) = 0 \<and> sectorno (bufs bc ! i) = sec) (lru bc) = Some i"
  shows "\<exists>b. bread me bc 0 sec = Ok (i, set_buf bc i b) \<and> i < NBUF \<and> cache_held me (set_buf bc i b) i sec
    \<and> bdata b = disk bc (sec + DBRsec bc)"
proof -
  have i: "i < NBUF" "bdev (bufs bc ! i) = 0" "sectorno (bufs bc ! i) = sec"
    using hit ring_okD(4) [OF cache_okD(1) [OF ok]] by (auto simp: find_Some_iff)
  let ?b = "(bufs bc ! i)\<lparr>refcnt := 1\<rparr>"
  let ?bc = "set_buf (bc\<lparr>clock := True\<rparr>) i ?b"
  have len: "i < length (bufs bc)" using i ring_okD(2) [OF cache_okD(1) [OF ok]] by simp
  obtain s where s: "bget_lock me ?bc i = Ok (i, set_buf (?bc\<lparr>clock := False\<rparr>) i ((bufs ?bc ! i)\<lparr>bsem := s\<rparr>))" "sem_mine me s"
    using bget_lock_ok [of ?bc i me] idleD(2) [OF cache_okD(3) [OF ok i(1)]] len by auto
  have clk: "bc\<lparr>clock := False, bufs := x\<rparr> = bc\<lparr>bufs := x\<rparr>" for x using ring_okD(1) [OF cache_okD(1) [OF ok]] by simp
  have g: "bget me bc 0 sec = Ok (i, set_buf bc i (?b\<lparr>bsem := s\<rparr>))"
    using ring_okD(1) [OF cache_okD(1) [OF ok]] idleD(1) [OF cache_okD(3) [OF ok i(1)]] i hit s(1) len clk by (simp add: bget_def Let_def)
  define b where "b = (if valid ?b then ?b\<lparr>bsem := s\<rparr> else (disk_read bc (?b\<lparr>bsem := s\<rparr>))\<lparr>valid := True\<rparr>)"
  have r: "bread me bc 0 sec = Ok (i, set_buf bc i b)"
    using g len by (simp add: bread_def b_def disk_read_def)
  have bp: "buf_mine me sec b" using i s(2) by (simp add: buf_mine_def b_def disk_read_def)
  have "cache_held me (set_buf bc i b) i sec"
  proof (rule held_intro [OF ok i(1) _ bp])
    fix j assume "j < NBUF" "j \<noteq> i" "bdev (bufs bc ! j) = 0"
    then show "sectorno (bufs bc ! j) \<noteq> sec"
      using cache_okD(2) [OF ok] i ring_okD(2) [OF cache_okD(1) [OF ok]] unfolding one_copy_def by metis
  qed
  moreover have "bdata b = disk bc (sec + DBRsec bc)"
    using idleD(3) [OF cache_okD(3) [OF ok i(1)]] i by (simp add: b_def disk_read_def)
  ultimately show ?thesis using r i(1) by blast
qed

lemma bread_miss:
  assumes ok: "cache_ok bc" and miss: "find (\<lambda>i. bdev (bufs bc ! i) = 0 \<and> sectorno (bufs bc ! i) = sec) (lru bc) = None"
  shows "\<exists>b. bread me bc 0 sec = Ok (last (lru bc), set_buf bc (last (lru bc)) b) \<and> last (lru bc) < NBUF
    \<and> cache_held me (set_buf bc (last (lru bc)) b) (last (lru bc)) sec \<and> bdata b = disk bc (sec + DBRsec bc)"
proof -
  let ?i = "last (lru bc)"
  have ne: "lru bc \<noteq> []" using ring_okD(4) [OF cache_okD(1) [OF ok]] by (metis NBUF_pos empty_iff lessThan_iff list.set(1))
  then have i: "?i < NBUF" using ring_okD(4) [OF cache_okD(1) [OF ok]] by (metis last_in_set lessThan_iff)
  obtain xs where xs: "rev (lru bc) = ?i # xs" using ne by (metis hd_rev list.collapse rev_is_Nil_conv)
  have f: "find (\<lambda>i. refcnt (bufs bc ! i) = 0) (rev (lru bc)) = Some ?i"
    unfolding xs using idleD(1) [OF cache_okD(3) [OF ok i]] by simp
  have no: "sectorno (bufs bc ! j) \<noteq> sec" if "j < NBUF" "bdev (bufs bc ! j) = 0" for j
    using miss that ring_okD(4) [OF cache_okD(1) [OF ok]] by (auto simp: find_None_iff)
  let ?b = "(bufs bc ! ?i)\<lparr>bdev := 0, sectorno := sec, valid := False, refcnt := 1\<rparr>"
  let ?bc = "set_buf (bc\<lparr>clock := True\<rparr>) ?i ?b"
  have len: "?i < length (bufs bc)" using i ring_okD(2) [OF cache_okD(1) [OF ok]] by simp
  obtain s where s: "bget_lock me ?bc ?i = Ok (?i, set_buf (?bc\<lparr>clock := False\<rparr>) ?i ((bufs ?bc ! ?i)\<lparr>bsem := s\<rparr>))" "sem_mine me s"
    using bget_lock_ok [of ?bc ?i me] idleD(2) [OF cache_okD(3) [OF ok i]] len by auto
  have clk: "bc\<lparr>clock := False, bufs := x\<rparr> = bc\<lparr>bufs := x\<rparr>" for x using ring_okD(1) [OF cache_okD(1) [OF ok]] by simp
  have g: "bget me bc 0 sec = Ok (?i, set_buf bc ?i (?b\<lparr>bsem := s\<rparr>))"
    using ring_okD(1) [OF cache_okD(1) [OF ok]] miss f s(1) len clk by (simp add: bget_def Let_def)
  define b where "b = (disk_read bc (?b\<lparr>bsem := s\<rparr>))\<lparr>valid := True\<rparr>"
  have r: "bread me bc 0 sec = Ok (?i, set_buf bc ?i b)"
    using g len by (simp add: bread_def b_def disk_read_def)
  have bp: "buf_mine me sec b" using s(2) by (simp add: buf_mine_def b_def disk_read_def)
  have "cache_held me (set_buf bc ?i b) ?i sec" using held_intro [OF ok i _ bp] no by blast
  moreover have "bdata b = disk bc (sec + DBRsec bc)" by (simp add: b_def disk_read_def)
  ultimately show ?thesis using r i by blast
qed

lemma bread_ok:
  assumes "cache_ok bc"
  shows "\<exists>i b. bread me bc 0 sec = Ok (i, set_buf bc i b) \<and> i < NBUF \<and> cache_held me (set_buf bc i b) i sec
    \<and> bdata b = disk bc (sec + DBRsec bc)"
  using bread_hit [OF assms, of sec _ me] bread_miss [OF assms, of sec me]
  by (cases "find (\<lambda>i. bdev (bufs bc ! i) = 0 \<and> sectorno (bufs bc ! i) = sec) (lru bc)") blast+

lemma heldD:
  assumes "cache_held me bc i sec"
  shows "ring_ok bc" "one_copy (bufs bc)" "i < NBUF" "buf_mine me sec (bufs bc ! i)"
    "\<And>j. j < NBUF \<Longrightarrow> j \<noteq> i \<Longrightarrow> buf_idle bc (bufs bc ! j)"
  using assms by (simp_all add: cache_held_def)

lemma mineD:
  assumes "buf_mine me sec b"
  shows "refcnt b = 1" "sem_mine me (bsem b)" "bdev b = 0" "sectorno b = sec" "valid b"
  using assms by (simp_all add: buf_mine_def)

lemma held_sector:
  assumes h: "cache_held me bc i sec" and j: "j < NBUF" "j \<noteq> i" "valid (bufs bc ! j)"
  shows "sectorno (bufs bc ! j) \<noteq> sec"
proof -
  have "bdev (bufs bc ! j) = 0" using heldD(5) [OF h j(1,2)] j(3) by (auto simp: buf_idle_def)
  then show ?thesis
    using heldD(2) [OF h] heldD(3) [OF h] mineD(3,4) [OF heldD(4) [OF h]] j ring_okD(2) [OF heldD(1) [OF h]]
    unfolding one_copy_def by metis
qed

lemma held_data:
  assumes h: "cache_held me bc i sec"
  shows "cache_held me (set_buf bc i ((bufs bc ! i)\<lparr>bdata := d\<rparr>)) i sec"
proof -
  let ?b = "(bufs bc ! i)\<lparr>bdata := d\<rparr>"
  have len: "length (bufs bc) = NBUF" using ring_okD(2) [OF heldD(1) [OF h]] .
  have "one_copy ((bufs bc)[i := ?b])"
    by (rule one_copy_update [OF heldD(2) [OF h]])
      (use heldD(2,3) [OF h] mineD(3) [OF heldD(4) [OF h]] len in \<open>auto simp: one_copy_def\<close>)
  moreover have "buf_idle (set_buf bc i ?b) ((bufs bc)[i := ?b] ! j)" if "j < NBUF" "j \<noteq> i" for j
    using heldD(5) [OF h that] that(2) by (simp add: buf_idle_def)
  ultimately show ?thesis
    using heldD(1,3) [OF h] heldD(4) [OF h] len unfolding cache_held_def ring_ok_def by (simp add: buf_mine_def)
qed

lemma bwrite_ok:
  assumes h: "cache_held me bc i sec"
  shows "bwrite me bc i = Ok (bc\<lparr>disk := (disk bc)(sec + DBRsec bc := bdata (bufs bc ! i))\<rparr>)"
    and "cache_held me (bc\<lparr>disk := (disk bc)(sec + DBRsec bc := bdata (bufs bc ! i))\<rparr>) i sec"
proof -
  let ?bc = "bc\<lparr>disk := (disk bc)(sec + DBRsec bc := bdata (bufs bc ! i))\<rparr>"
  show "bwrite me bc i = Ok ?bc"
    using sem_hold_mine [OF mineD(2) [OF heldD(4) [OF h]]] mineD(4) [OF heldD(4) [OF h]]
    by (simp add: bwrite_def disk_write_def)
  have "buf_idle ?bc (bufs bc ! j)" if "j < NBUF" "j \<noteq> i" for j
    using heldD(5) [OF h that] held_sector [OF h that] by (auto simp: buf_idle_def)
  then show "cache_held me ?bc i sec"
    using heldD(1-4) [OF h] by (simp add: cache_held_def ring_ok_def)
qed

lemma brelse_ok:
  assumes h: "cache_held me bc i sec" and d: "bdata (bufs bc ! i) = disk bc (sec + DBRsec bc)"
  shows "\<exists>bc'. brelse me bc i = Ok bc' \<and> cache_ok bc' \<and> disk bc' = disk bc \<and> DBRsec bc' = DBRsec bc
    \<and> lru bc' = i # remove1 i (lru bc)"
proof -
  let ?b = "bufs bc ! i"
  have m: "refcnt ?b = 1" "sem_mine me (bsem ?b)" "bdev ?b = 0" "sectorno ?b = sec" "valid ?b" using mineD [OF heldD(4) [OF h]] .
  obtain s where s: "sem_signal (bsem ?b) = Ok ([], s)" "sem_free s" using sem_signal_mine [OF m(2)] by blast
  let ?b' = "?b\<lparr>bsem := s, refcnt := 0\<rparr>"
  let ?bc = "bc\<lparr>bufs := (bufs bc)[i := ?b'], lru := i # remove1 i (lru bc)\<rparr>"
  note r = ring_okD [OF heldD(1) [OF h]]
  have e: "bc\<lparr>clock := False, bufs := x, lru := y\<rparr> = bc\<lparr>bufs := x, lru := y\<rparr>" for x y using r(1) by simp
  have eq: "brelse me bc i = Ok ?bc"
    using sem_hold_mine [OF m(2)] s(1) m(1) r(1) e by (simp add: brelse_def)
  have "one_copy ((bufs bc)[i := ?b'])"
    by (rule one_copy_update [OF heldD(2) [OF h]])
      (use heldD(2,3) [OF h] m(3) r(2) in \<open>auto simp: one_copy_def\<close>)
  moreover have "buf_idle ?bc ((bufs bc)[i := ?b'] ! j)" if "j < NBUF" for j
    using heldD(5) [OF h that] m s(2) d r(2) that by (cases "j = i") (simp_all add: buf_idle_def)
  moreover have "ring_ok ?bc" using r heldD(3) [OF h] by (auto simp: ring_ok_def)
  ultimately have "cache_ok ?bc" by (simp add: cache_ok_def)
  then show ?thesis using eq by auto
qed

lemma sec_read_ok:
  assumes "cache_ok bc"
  shows "\<exists>bc'. sec_read me bc sec = Ok (disk bc (sec + DBRsec bc), bc') \<and> cache_ok bc'
    \<and> disk bc' = disk bc \<and> DBRsec bc' = DBRsec bc"
proof -
  obtain i b where b: "bread me bc 0 sec = Ok (i, set_buf bc i b)" "i < NBUF"
    "cache_held me (set_buf bc i b) i sec" "bdata b = disk bc (sec + DBRsec bc)"
    using bread_ok [OF assms] by blast
  have bi: "bufs (set_buf bc i b) ! i = b" using b(2) ring_okD(2) [OF cache_okD(1) [OF assms]] by simp
  show ?thesis using brelse_ok [OF b(3)] b(1,4) bi by (auto simp: sec_read_def)
qed

lemma sec_modify_ok:
  assumes "cache_ok bc"
  shows "\<exists>bc'. sec_modify me bc sec f = Ok bc' \<and> cache_ok bc'
    \<and> disk bc' = (disk bc)(sec + DBRsec bc := f (disk bc (sec + DBRsec bc))) \<and> DBRsec bc' = DBRsec bc"
proof -
  obtain i b where b: "bread me bc 0 sec = Ok (i, set_buf bc i b)" "i < NBUF"
    "cache_held me (set_buf bc i b) i sec" "bdata b = disk bc (sec + DBRsec bc)"
    using bread_ok [OF assms] by blast
  let ?b = "b\<lparr>bdata := f (bdata b)\<rparr>"
  have len: "i < length (bufs bc)" using b(2) ring_okD(2) [OF cache_okD(1) [OF assms]] by simp
  have h: "cache_held me (set_buf bc i ?b) i sec" using held_data [OF b(3), of "f (bdata b)"] len by simp
  let ?bc = "(set_buf bc i ?b)\<lparr>disk := (disk bc)(sec + DBRsec bc := f (bdata b))\<rparr>"
  have w: "bwrite me (set_buf bc i ?b) i = Ok ?bc" "cache_held me ?bc i sec"
    using bwrite_ok [OF h] len by simp_all
  have "bdata (bufs ?bc ! i) = disk ?bc (sec + DBRsec ?bc)" using len by simp
  then show ?thesis using brelse_ok [OF w(2)] b(1,4) w(1) len by (auto simp: sec_modify_def)
qed

section \<open>The interface to the file system\<close>

text \<open>
  What the file system relies on: a store of sectors that are read and modified one at a time.
\<close>

locale sector_store =
  fixes rd :: "'s \<Rightarrow> u32 \<Rightarrow> (u8 list \<times> 's) res"
    and wr :: "'s \<Rightarrow> u32 \<Rightarrow> (u8 list \<Rightarrow> u8 list) \<Rightarrow> 's res"
    and invar :: "'s \<Rightarrow> bool"
    and sect :: "'s \<Rightarrow> u32 \<Rightarrow> u8 list"
  assumes rd_ok: "invar s \<Longrightarrow> \<exists>s'. rd s n = Ok (sect s n, s') \<and> invar s' \<and> sect s' = sect s"
    and wr_ok: "invar s \<Longrightarrow> \<exists>s'. wr s n f = Ok s' \<and> invar s' \<and> sect s' = (sect s)(n := f (sect s n))"
begin

lemma rd_wr:
  assumes "invar s" "wr s n f = Ok s'"
  shows "\<exists>s''. rd s' k = Ok (if k = n then f (sect s n) else sect s k, s'') \<and> invar s'' \<and> sect s'' = sect s'"
proof -
  have "invar s'" "sect s' = (sect s)(n := f (sect s n))" using wr_ok [OF assms(1), of n f] assms(2) by auto
  then show ?thesis using rd_ok [of s' k] by auto
qed

lemma wr_twice:
  assumes "invar s" "wr s n f = Ok s1" "wr s1 k g = Ok s2"
  shows "invar s2 \<and> sect s2 = (if k = n then (sect s)(n := g (f (sect s n))) else (sect s)(n := f (sect s n), k := g (sect s k)))"
proof -
  have s1: "invar s1" "sect s1 = (sect s)(n := f (sect s n))" using wr_ok [OF assms(1), of n f] assms(2) by auto
  then show ?thesis using wr_ok [OF s1(1), of k g] assms(3) by auto
qed

end

text \<open>The sectors of the partition, as the cache shows them.\<close>

definition sector :: "bcache \<Rightarrow> u32 \<Rightarrow> u8 list" where
  "sector bc n = disk bc (n + DBRsec bc)"

lemma sector_update: "(\<lambda>n. ((disk bc)(k + DBRsec bc := v)) (n + DBRsec bc)) = (sector bc)(k := v)"
  by (auto simp: sector_def fun_eq_iff)

interpretation bs: sector_store "sec_read me" "sec_modify me" cache_ok sector for me
proof
  fix s n f
  assume ok: "cache_ok s"
  show "\<exists>s'. sec_read me s n = Ok (sector s n, s') \<and> cache_ok s' \<and> sector s' = sector s"
    using sec_read_ok [OF ok, of me n] by (auto simp: sector_def fun_eq_iff)
  show "\<exists>s'. sec_modify me s n f = Ok s' \<and> cache_ok s' \<and> sector s' = (sector s)(n := f (sector s n))"
  proof -
    obtain s' where s': "sec_modify me s n f = Ok s'" "cache_ok s'"
      "disk s' = (disk s)(n + DBRsec s := f (disk s (n + DBRsec s)))" "DBRsec s' = DBRsec s"
      using sec_modify_ok [OF ok] by blast
    have "sector s' = (sector s)(n := f (sector s n))"
      using s'(3,4) by (auto simp: sector_def fun_eq_iff)
    then show ?thesis using s'(1,2) by blast
  qed
qed

section \<open>Initialisation\<close>

lemma binit_loop_lru: "lru (binit_loop is bc) = rev is @ lru bc"
  by (induction "is" arbitrary: bc) simp_all

lemma binit_loop_frame [simp]:
  "clock (binit_loop is bc) = clock bc" "DBRsec (binit_loop is bc) = DBRsec bc" "disk (binit_loop is bc) = disk bc"
  "length (bufs (binit_loop is bc)) = length (bufs bc)"
  by (induction "is" arbitrary: bc) simp_all

lemma binit_loop_nth:
  assumes "distinct is" "set is \<subseteq> {..<length (bufs bc)}" "k < length (bufs bc)"
  shows "bufs (binit_loop is bc) ! k = (if k \<in> set is then init_buf (bufs bc ! k) else bufs bc ! k)"
  using assms by (induction "is" arbitrary: bc) (auto simp: nth_list_update)

lemma binit_ok:
  assumes "length (bufs bc) = NBUF" and "\<forall>b \<in> set (bufs bc). \<not> valid b"
  shows "cache_ok (binit bc) \<and> sector (binit bc) = sector bc"
proof -
  let ?bc = "bc\<lparr>clock := False, lru := []\<rparr>"
  have n: "bufs (binit bc) ! k = init_buf (bufs bc ! k)" if "k < NBUF" for k
    using binit_loop_nth [of "[0..<NBUF]" ?bc k] assms(1) that by (simp add: binit_def atLeast0LessThan)
  have "ring_ok (binit bc)" using assms(1) by (simp add: ring_ok_def binit_def binit_loop_lru atLeast0LessThan)
  moreover have "buf_idle (binit bc) (bufs (binit bc) ! k)" if "k < NBUF" for k
    using n [OF that] assms that nth_mem [of k "bufs bc"] by (simp add: buf_idle_def init_buf_def)
  moreover have "one_copy (bufs (binit bc))"
    using n assms(1) by (simp add: one_copy_def init_buf_def binit_def)
  ultimately show ?thesis by (simp add: cache_ok_def sector_def fun_eq_iff binit_def)
qed

section \<open>Properties\<close>

text \<open>A client reads sectors and writes new bytes into them; the same on the bare sectors.\<close>

datatype sec_call = Rd u32 | Wr u32 "u8 list"

fun cached_run :: "u64 option \<Rightarrow> bcache \<Rightarrow> sec_call list \<Rightarrow> (u8 list list \<times> bcache) res" where
  "cached_run me bc [] = Ok ([], bc)"
| "cached_run me bc (Rd n # cs) =
     bind_res (sec_read me bc n) (\<lambda>(d, bc). bind_res (cached_run me bc cs) (\<lambda>(ds, bc). Ok (d # ds, bc)))"
| "cached_run me bc (Wr n d # cs) = bind_res (sec_modify me bc n (\<lambda>_. d)) (\<lambda>bc. cached_run me bc cs)"

fun plain_run :: "(u32 \<Rightarrow> u8 list) \<Rightarrow> sec_call list \<Rightarrow> u8 list list \<times> (u32 \<Rightarrow> u8 list)" where
  "plain_run d [] = ([], d)"
| "plain_run d (Rd n # cs) = (let (ds, d') = plain_run d cs in (d n # ds, d'))"
| "plain_run d (Wr n x # cs) = plain_run (d(n := x)) cs"

lemma cached_run_ok:
  "cache_ok bc \<Longrightarrow> \<exists>bc'. cached_run me bc cs = Ok (fst (plain_run (sector bc) cs), bc') \<and> cache_ok bc'
    \<and> sector bc' = snd (plain_run (sector bc) cs)"
proof (induction cs arbitrary: bc)
  case (Cons c cs)
  show ?case
  proof (cases c)
    case (Rd n)
    obtain bc1 where b: "sec_read me bc n = Ok (sector bc n, bc1)" "cache_ok bc1" "sector bc1 = sector bc"
      using bs.rd_ok [OF Cons.prems] by blast
    show ?thesis using Cons.IH [OF b(2)] b Rd by (auto simp: case_prod_beta)
  next
    case (Wr n d)
    obtain bc1 where b: "sec_modify me bc n (\<lambda>_. d) = Ok bc1" "cache_ok bc1" "sector bc1 = (sector bc)(n := d)"
      using bs.wr_ok [OF Cons.prems, of me n "\<lambda>_. d"] by blast
    show ?thesis using Cons.IH [OF b(2)] b(1,3) Wr by (simp add: fun_upd_def)
  qed
qed simp

text \<open>C18: the cache is transparent: from initialisation on, any sequence of reads and writes of
  sectors through the buffers succeeds, returns what the same sequence on the bare disk returns
  and leaves the disk with the same sectors.\<close>

theorem bcache_refines_disk:
  assumes "length (bufs bc) = NBUF" and "\<forall>b \<in> set (bufs bc). \<not> valid b"
  shows "\<exists>bc'. cached_run me (binit bc) cs = Ok (fst (plain_run (sector bc) cs), bc')
    \<and> sector bc' = snd (plain_run (sector bc) cs)"
  using binit_ok [OF assms] cached_run_ok [of "binit bc" me cs] by auto

definition blank_buf :: buf where
  "blank_buf = \<lparr>valid = False, bdev = 0, sectorno = 0, bsem = sem_init 0 0, refcnt = 0, bdata = []\<rparr>"

definition blank_cache :: bcache where
  "blank_cache = \<lparr>clock = False, bufs = replicate NBUF blank_buf, lru = [], DBRsec = 1, disk = (\<lambda>_. [7]), bwoken = []\<rparr>"

theorem bcache_refines_disk_witness:
  "\<exists>bc'. cached_run None (binit blank_cache) [Rd 3, Wr 3 [5], Rd 3] = Ok ([[7], [5]], bc') \<and> disk bc' 4 = [5]"
proof -
  have "length (bufs blank_cache) = NBUF" "\<forall>b \<in> set (bufs blank_cache). \<not> valid b"
    by (simp_all add: blank_cache_def blank_buf_def)
  then obtain bc' where b: "cached_run None (binit blank_cache) [Rd 3, Wr 3 [5], Rd 3]
      = Ok (fst (plain_run (sector blank_cache) [Rd 3, Wr 3 [5], Rd 3]), bc')"
    "sector bc' = snd (plain_run (sector blank_cache) [Rd 3, Wr 3 [5], Rd 3])"
    using bcache_refines_disk by blast
  have c: "map_res (\<lambda>(ds, bc). (ds, disk bc 4)) (cached_run None (binit blank_cache) [Rd 3, Wr 3 [5], Rd 3])
      = Ok ([[7], [5]], [5])" by code_simp
  then show ?thesis using b(1) by auto
qed

text \<open>Which buffer serves a request: one that has the sector, without reading the disk, else
  the least recently used one; and releasing a buffer makes it the most recently used.\<close>

theorem bcache_lru:
  assumes "cache_ok bc" and "bread me bc 0 sec = Ok (i, bc')"
  shows "i < NBUF \<and> bdata (bufs bc' ! i) = sector bc sec
    \<and> (if \<exists>j < NBUF. bdev (bufs bc ! j) = 0 \<and> sectorno (bufs bc ! j) = sec
       then bdev (bufs bc ! i) = 0 \<and> sectorno (bufs bc ! i) = sec else i = last (lru bc))
    \<and> (\<exists>bc''. brelse me bc' i = Ok bc'' \<and> cache_ok bc'' \<and> lru bc'' = i # remove1 i (lru bc))"
proof -
  let ?P = "\<lambda>i. bdev (bufs bc ! i) = 0 \<and> sectorno (bufs bc ! i) = sec"
  have len: "length (bufs bc) = NBUF" and set: "set (lru bc) = {..<NBUF}"
    using ring_okD [OF cache_okD(1) [OF assms(1)]] by auto
  have ex: "find ?P (lru bc) = None \<longleftrightarrow> \<not> (\<exists>j < NBUF. ?P j)" using set by (auto simp: find_None_iff)
  obtain b where b: "bc' = set_buf bc i b" "i < NBUF" "cache_held me (set_buf bc i b) i sec" "bdata b = disk bc (sec + DBRsec bc)"
    using bread_ok [OF assms(1), of me sec] assms(2) by auto
  have "if \<exists>j < NBUF. ?P j then ?P i else i = last (lru bc)"
  proof (cases "find ?P (lru bc)")
    case None
    then show ?thesis using ex bread_miss [OF assms(1) None, of me] assms(2) by auto
  next
    case (Some k)
    then have "?P k" by (auto simp: find_Some_iff)
    moreover have "k = i" using bread_hit [OF assms(1) Some, of me] assms(2) by auto
    ultimately show ?thesis using ex Some by auto
  qed
  moreover have "\<exists>bc''. brelse me bc' i = Ok bc'' \<and> cache_ok bc'' \<and> lru bc'' = i # remove1 i (lru bc)"
    using brelse_ok [OF b(3)] b(1,2,4) len by auto
  ultimately show ?thesis using b len by (simp add: sector_def)
qed

theorem bcache_lru_witness:
  "\<exists>i bc'. bread None (binit blank_cache) 0 9 = Ok (i, bc') \<and> i = 0 \<and> bdata (bufs bc' ! 0) = [7]"
proof -
  have ok: "cache_ok (binit blank_cache)" using binit_ok [of blank_cache] by (simp add: blank_cache_def blank_buf_def)
  obtain i bc' where r: "bread None (binit blank_cache) 0 9 = Ok (i, bc')" using bread_ok [OF ok] by blast
  have "map_res fst (bread None (binit blank_cache) 0 9) = Ok 0" by code_simp
  then have i: "i = 0" using r by simp
  have "sector (binit blank_cache) 9 = [7]" using binit_ok [of blank_cache] by (simp add: blank_cache_def blank_buf_def sector_def)
  then show ?thesis using bcache_lru [OF ok r] r i by auto
qed

end
