(* ===== verification/Ucopy.thy ===== *)
theory Ucopy
  imports Page_Table
begin

text \<open>
  Copies between the file system and its caller: \<^verbatim>\<open>either_copyin\<close> and \<^verbatim>\<open>either_copyout\<close> of
  \<^verbatim>\<open>tk_proc.c\<close>. The other side is a user address, translated by the page table of the running
  task, or a buffer of the kernel, given by its bytes; \<open>pos\<close> is how far the pointer has moved
  into it.
\<close>

text \<open>What the running task contributes: its memory, page table, \<^verbatim>\<open>base_size\<close> and identifier.\<close>

record ucx =
  umem :: mem
  upt :: PageTable
  usz :: u64
  upid :: "u64 option"

datatype kbuf = Kern "u8 list" | User u64

text \<open>Bytes of a buffer replaced from position \<open>pos\<close> on.\<close>

definition patch :: "'a list \<Rightarrow> nat \<Rightarrow> 'a list \<Rightarrow> 'a list" where
  "patch bs pos src = take pos bs @ src @ drop (pos + length src) bs"

definition either_copyout :: "ucx \<Rightarrow> kbuf \<Rightarrow> nat \<Rightarrow> u8 list \<Rightarrow> (int \<times> ucx \<times> kbuf) res" where
  "either_copyout u dst pos src =
     (case dst of
        User a \<Rightarrow> bind_res (copyout2 (usz u) (umem u) (upt u) (a + of_nat pos) src (of_nat (length src)))
                    (\<lambda>(r, m). Ok (r, u\<lparr>umem := m\<rparr>, dst))
      | Kern bs \<Rightarrow> if pos + length src \<le> length bs then Ok (0, u, Kern (patch bs pos src)) else Fail Out_of_bounds)"

definition either_copyin :: "ucx \<Rightarrow> kbuf \<Rightarrow> nat \<Rightarrow> nat \<Rightarrow> (int \<times> u8 list) res" where
  "either_copyin u src pos n =
     (case src of
        User a \<Rightarrow> copyin2 (umem u) (upt u) (a + of_nat pos) (of_nat n)
      | Kern bs \<Rightarrow> if pos + n \<le> length bs then Ok (0, take n (drop pos bs)) else Fail Out_of_bounds)"

lemma length_patch [simp]: "pos + length src \<le> length bs \<Longrightarrow> length (patch bs pos src) = length bs"
  by (simp add: patch_def)

lemma patch_Nil [simp]: "patch bs pos [] = bs"
  by (simp add: patch_def)

lemma nth_patch:
  "pos + length src \<le> length bs \<Longrightarrow> i < length bs \<Longrightarrow>
   patch bs pos src ! i = (if pos \<le> i \<and> i < pos + length src then src ! (i - pos) else bs ! i)"
  by (auto simp: patch_def nth_append)

lemma take_drop_patch [simp]:
  "pos + length src \<le> length bs \<Longrightarrow> take (length src) (drop pos (patch bs pos src)) = src"
  by (simp add: patch_def)

lemma patch_full: "length src = length bs \<Longrightarrow> patch bs 0 src = src"
  by (simp add: patch_def)

lemma patch_append:
  assumes "pos + length xs + length ys \<le> length bs"
  shows "patch (patch bs pos xs) (pos + length xs) ys = patch bs pos (xs @ ys)"
  using assms by (simp add: patch_def add.commute add.left_commute)

lemma copyout_kern [simp]:
  "pos + length src \<le> length bs \<Longrightarrow> either_copyout u (Kern bs) pos src = Ok (0, u, Kern (patch bs pos src))"
  by (simp add: either_copyout_def)

lemma copyin_kern [simp]:
  "pos + n \<le> length bs \<Longrightarrow> either_copyin u (Kern bs) pos n = Ok (0, take n (drop pos bs))"
  by (simp add: either_copyin_def)

end
