(* ===== verification/Fat_Table.thy ===== *)
theory Fat_Table
  imports Bcache Ucopy
begin

text \<open>
  The lower half of the FAT32 file system (\<^verbatim>\<open>fs_fat32.c\<close>): the parameters of the volume, the file
  allocation table and the clusters, on top of the buffer cache. The theorems: the table is an
  array indexed by cluster numbers, allocation takes the first free cluster, marks it as the end
  of a chain and clears it, and what is written to a cluster is read back.
\<close>

section \<open>The state\<close>

record fat32 =
  first_data_sec :: u32
  data_sec_cnt :: u32
  data_clus_cnt :: u32
  byts_per_clus :: u32
  byts_per_sec :: u16
  sec_per_clus :: u8
  rsvd_sec_cnt :: u16
  fat_cnt :: u8
  hidd_sec :: u32
  tot_sec :: u32
  fat_sz :: u32
  root_clus :: u32
  number_of_empty_cluster :: u32
  next_avail_cluster :: u32

text \<open>
  An entry of a directory in memory. Pointers to entries are numbers: 0 is \<^verbatim>\<open>root\<close>, \<open>i + 1\<close> is
  \<^verbatim>\<open>ecache.entries[i]\<close>. The file name is the array of 256 bytes.
\<close>

record dirent =
  filename :: "u8 list"
  attribute :: u8
  first_clus :: u32
  file_size :: u32
  cur_clus :: u32
  clus_cnt :: u32
  ddev :: u8
  dirty :: bool
  dvalid :: int
  dref :: int
  doff :: u32
  dparent :: "nat option"
  dsem :: semaphore

text \<open>
  The file system: the buffers with the disk, the volume, the cache of entries with its lock,
  the ring of entries behind \<^verbatim>\<open>root\<close> (from \<^verbatim>\<open>root.d_elem.next\<close> to \<^verbatim>\<open>root.d_elem.prev\<close>) and the
  running task.
\<close>

record fs =
  bc :: bcache
  fat :: fat32
  eclock :: bool
  ents :: "dirent list"
  eorder :: "nat list"
  ux :: ucx

abbreviation me :: "fs \<Rightarrow> u64 option" where
  "me s \<equiv> upid (ux s)"

definition FAT32_EOC :: u32 where "FAT32_EOC = 0x0FFFFFF8"
definition FAT32_FEOC :: u32 where "FAT32_FEOC = 0x0FFFFFFF"

text \<open>Little endian numbers in a sector or a directory slot.\<close>

definition le16 :: "u8 list \<Rightarrow> nat \<Rightarrow> u16" where
  "le16 d off = ucast (le_word (take 2 (drop off d)))"

definition le32 :: "u8 list \<Rightarrow> nat \<Rightarrow> u32" where
  "le32 d off = ucast (le_word (take 4 (drop off d)))"

definition put16 :: "u8 list \<Rightarrow> nat \<Rightarrow> u16 \<Rightarrow> u8 list" where
  "put16 d off v = patch d off (le_bytes 2 (ucast v))"

definition put32 :: "u8 list \<Rightarrow> nat \<Rightarrow> u32 \<Rightarrow> u8 list" where
  "put32 d off v = patch d off (le_bytes 4 (ucast v))"

section \<open>The table\<close>

definition first_sec_of_clus :: "fat32 \<Rightarrow> u32 \<Rightarrow> u32" where
  "first_sec_of_clus f cluster = (cluster - 2) * ucast (sec_per_clus f) + first_data_sec f"

definition fat_sec_of_clus :: "fat32 \<Rightarrow> u32 \<Rightarrow> u8 \<Rightarrow> u32" where
  "fat_sec_of_clus f cluster fat_num =
     ucast (rsvd_sec_cnt f) + push_bit 2 cluster div ucast (byts_per_sec f) + fat_sz f * (ucast fat_num - 1)"

definition fat_offset_of_clus :: "fat32 \<Rightarrow> u32 \<Rightarrow> u32" where
  "fat_offset_of_clus f cluster = push_bit 2 cluster mod ucast (byts_per_sec f)"

definition read_fat :: "fs \<Rightarrow> u32 \<Rightarrow> (u32 \<times> fs) res" where
  "read_fat s cluster =
     (if cluster \<ge> FAT32_EOC then Ok (cluster, s)
      else if cluster > data_clus_cnt (fat s) + 1 then Ok (0, s)
      else bind_res (sec_read (me s) (bc s) (fat_sec_of_clus (fat s) cluster 1)) (\<lambda>(d, b).
           Ok (le32 d (unat (fat_offset_of_clus (fat s) cluster)), s\<lparr>bc := b\<rparr>)))"

definition write_fat :: "fs \<Rightarrow> u32 \<Rightarrow> u32 \<Rightarrow> (int \<times> fs) res" where
  "write_fat s cluster content =
     (if cluster > data_clus_cnt (fat s) + 1 then Ok (- 1, s)
      else bind_res (sec_modify (me s) (bc s) (fat_sec_of_clus (fat s) cluster 1)
              (\<lambda>d. put32 d (unat (fat_offset_of_clus (fat s) cluster)) content)) (\<lambda>b.
           Ok (0, s\<lparr>bc := b\<rparr>)))"

primrec zero_loop :: "fs \<Rightarrow> u32 \<Rightarrow> nat \<Rightarrow> fs res" where
  "zero_loop s sec 0 = Ok s"
| "zero_loop s sec (Suc n) =
     bind_res (sec_modify (me s) (bc s) sec (\<lambda>d. replicate BSIZE 0)) (\<lambda>b. zero_loop (s\<lparr>bc := b\<rparr>) (sec + 1) n)"

definition zero_clus :: "fs \<Rightarrow> u32 \<Rightarrow> fs res" where
  "zero_clus s cluster = zero_loop s (first_sec_of_clus (fat s) cluster) (unat (sec_per_clus (fat s)))"

text \<open>\<open>n\<close> sectors of the table are left, \<open>i\<close> have been searched.\<close>

primrec alloc_loop :: "fs \<Rightarrow> u8 \<Rightarrow> nat \<Rightarrow> nat \<Rightarrow> (u32 \<times> fs) res" where
  "alloc_loop s dev 0 i = Ok (1, s)"
| "alloc_loop s dev (Suc n) i =
     (let ent_per_sec = unat (byts_per_sec (fat s)) div 4
      in bind_res (bread (me s) (bc s) (ucast dev) (ucast (rsvd_sec_cnt (fat s)) + of_nat i)) (\<lambda>(k, b).
         let d = bdata (bufs b ! k)
         in case find (\<lambda>j. le32 d (4 * j) = 0) [0..<ent_per_sec] of
              Some j \<Rightarrow>
                bind_res (bwrite (me s) (set_buf b k ((bufs b ! k)\<lparr>bdata := put32 d (4 * j) FAT32_FEOC\<rparr>)) k) (\<lambda>b.
                bind_res (brelse (me s) b k) (\<lambda>b.
                let clus = of_nat (i * ent_per_sec + j)
                in bind_res (zero_clus (s\<lparr>bc := b\<rparr>) clus) (\<lambda>s. Ok (clus, s))))
            | None \<Rightarrow> bind_res (brelse (me s) b k) (\<lambda>b. alloc_loop (s\<lparr>bc := b\<rparr>) dev n (i + 1))))"

definition alloc_clus :: "fs \<Rightarrow> u8 \<Rightarrow> (u32 \<times> fs) res" where
  "alloc_clus s dev = alloc_loop s dev (unat (fat_sz (fat s))) 0"

definition free_clus :: "fs \<Rightarrow> u32 \<Rightarrow> fs res" where
  "free_clus s cluster = bind_res (write_fat s cluster 0) (\<lambda>(r, s). Ok s)"

section \<open>Clusters\<close>

text \<open>
  One round of \<^verbatim>\<open>rw_clus\<close> on the sector \<open>sec\<close>: the copy at offset \<open>off\<close> of its data, from or to
  position \<open>pos\<close> of the other side. The result says whether the copy failed.
\<close>

definition rw_sector :: "fs \<Rightarrow> bool \<Rightarrow> kbuf \<Rightarrow> nat \<Rightarrow> u32 \<Rightarrow> nat \<Rightarrow> nat \<Rightarrow> (int \<times> fs \<times> kbuf) res" where
  "rw_sector s write data pos sec off m =
     bind_res (bread (me s) (bc s) 0 sec) (\<lambda>(k, b).
     if write
     then bind_res (either_copyin (ux s) data pos m) (\<lambda>(bad, bs).
          bind_res (if bad \<noteq> - 1
                    then bwrite (me s) (set_buf b k ((bufs b ! k)\<lparr>bdata := patch (bdata (bufs b ! k)) off bs\<rparr>)) k
                    else Ok b) (\<lambda>b.
          bind_res (brelse (me s) b k) (\<lambda>b. Ok (bad, s\<lparr>bc := b\<rparr>, data))))
     else bind_res (either_copyout (ux s) data pos (take m (drop off (bdata (bufs b ! k))))) (\<lambda>(bad, u, data).
          bind_res (brelse (me s) b k) (\<lambda>b. Ok (bad, s\<lparr>bc := b, ux := u\<rparr>, data))))"

function rw_loop :: "fs \<Rightarrow> bool \<Rightarrow> kbuf \<Rightarrow> nat \<Rightarrow> u32 \<Rightarrow> nat \<Rightarrow> nat \<Rightarrow> nat \<Rightarrow> (nat \<times> fs \<times> kbuf) res" where
  "rw_loop s write data pos sec off n tot =
     (if tot < n
      then let m = min (BSIZE - off mod BSIZE) (n - tot)
           in bind_res (rw_sector s write data pos sec (off mod BSIZE) m) (\<lambda>(bad, s, data).
              if bad = - 1 then Ok (tot, s, data)
              else rw_loop s write data (pos + m) (sec + 1) (off + m) n (tot + m))
      else Ok (tot, s, data))"
  by pat_completeness auto
termination
  by (relation "measure (\<lambda>(s, w, d, p, sec, off, n, tot). n - tot)") (auto simp: BSIZE_def min_def)

declare rw_loop.simps [simp del]

definition rw_clus :: "fs \<Rightarrow> u32 \<Rightarrow> bool \<Rightarrow> kbuf \<Rightarrow> nat \<Rightarrow> u32 \<Rightarrow> u32 \<Rightarrow> (nat \<times> fs \<times> kbuf) res" where
  "rw_clus s cluster write data pos off n =
     (if off + n > byts_per_clus (fat s) then Fail (Panic ''offset out of range'')
      else let sec = first_sec_of_clus (fat s) cluster + off div ucast (byts_per_sec (fat s))
           in rw_loop s write data pos sec (unat (off mod ucast (byts_per_sec (fat s)))) (unat n) 0)"

section \<open>Mounting\<close>

definition blank_dirent :: "semaphore \<Rightarrow> dirent" where
  "blank_dirent sem = \<lparr>filename = replicate 256 0, attribute = 0, first_clus = 0, file_size = 0, cur_clus = 0,
     clus_cnt = 0, ddev = 0, dirty = False, dvalid = 0, dref = 0, doff = 0, dparent = None, dsem = sem\<rparr>"

definition parse_bpb :: "fat32 \<Rightarrow> u8 list \<Rightarrow> fat32" where
  "parse_bpb f d =
     (let f = f\<lparr>byts_per_sec := le16 d 0x0B, sec_per_clus := d ! 0x0D, rsvd_sec_cnt := le16 d 0x0E,
            fat_cnt := d ! 0x10, hidd_sec := le32 d 0x1C, tot_sec := le32 d 0x20, fat_sz := le32 d 0x24,
            root_clus := le32 d 0x2C\<rparr>;
          f = f\<lparr>first_data_sec := ucast (rsvd_sec_cnt f) + ucast (fat_cnt f) * fat_sz f\<rparr>;
          f = f\<lparr>data_sec_cnt := tot_sec f - first_data_sec f\<rparr>
      in f\<lparr>data_clus_cnt := data_sec_cnt f div ucast (sec_per_clus f),
           byts_per_clus := ucast (sec_per_clus f) * ucast (byts_per_sec f)\<rparr>)"

text \<open>\<open>''FAT32''\<close> as bytes, and one entry of the cache after the loop.\<close>

definition fat32_magic :: "u8 list" where "fat32_magic = [0x46, 0x41, 0x54, 0x33, 0x32]"

definition init_entry :: "dirent \<Rightarrow> dirent" where
  "init_entry de = de\<lparr>ddev := 0, dvalid := 0, dref := 0, dirty := False, dparent := None, dsem := sem_init 1 (spid (dsem de))\<rparr>"

definition fat32_init :: "fs \<Rightarrow> fs res" where
  "fat32_init s =
     bind_res (sec_read (me s) (bc s) 0) (\<lambda>(d, b).
     if take 5 (drop 0x52 d) \<noteq> fat32_magic then Fail (Panic ''not FAT32 volume'')
     else let s = s\<lparr>bc := b, fat := parse_bpb (fat s) d\<rparr>
          in if byts_per_sec (fat s) \<noteq> 512 then Fail (Panic ''byts_per_sec != BSIZE'')
             else let root = (blank_dirent (sem_init 1 0))\<lparr>filename := 0x2f # replicate 255 0,
                        attribute := 0x10 OR 0x04, first_clus := root_clus (fat s), cur_clus := root_clus (fat s), dvalid := 1\<rparr>;
                      s = s\<lparr>eclock := False, ents := root # map init_entry (tl (ents s)), eorder := rev [1..<51]\<rparr>
                  in bind_res (sec_read (me s) (bc s) 1) (\<lambda>(d, b).
                     if le32 d 0 \<noteq> 0x41615252 then Fail (Panic ''wrong in fsinfo sec'')
                     else Ok (s\<lparr>bc := b, fat := (fat s)\<lparr>number_of_empty_cluster := le32 d 0x1E8, next_avail_cluster := le32 d 0x1EC\<rparr>\<rparr>)))"

section \<open>Numbers in sectors\<close>

lemma patch_apart:
  assumes "pos + length src \<le> length bs" and "a + n \<le> pos \<or> pos + length src \<le> a" and "a + n \<le> length bs"
  shows "take n (drop a (patch bs pos src)) = take n (drop a bs)"
  using assms by (intro nth_equalityI) (auto simp: nth_patch)

lemma le32_put32 [simp]: "off + 4 \<le> length d \<Longrightarrow> le32 (put32 d off v) off = v"
proof -
  assume "off + 4 \<le> length d"
  then have "take 4 (drop off (put32 d off v)) = le_bytes 4 (ucast v)"
    using take_drop_patch [of off "le_bytes 4 (ucast v)" d] by (simp add: put32_def)
  then have "le32 (put32 d off v) off = ucast (take_bit 32 (ucast v :: u64))"
    by (simp add: le32_def le_word_le_bytes)
  also have "\<dots> = v" by (rule bit_word_eqI) (auto simp: bit_simps)
  finally show ?thesis .
qed

lemma le32_put32_apart:
  assumes "off + 4 \<le> length d" "a + 4 \<le> length d" "a + 4 \<le> off \<or> off + 4 \<le> a"
  shows "le32 (put32 d off v) a = le32 d a"
  using patch_apart [of off "le_bytes 4 (ucast v)" d a 4] assms by (simp add: le32_def put32_def)

lemma length_put32 [simp]: "off + 4 \<le> length d \<Longrightarrow> length (put32 d off v) = length d"
  by (simp add: put32_def)

lemma length_put16 [simp]: "off + 2 \<le> length d \<Longrightarrow> length (put16 d off v) = length d"
  by (simp add: put16_def)

section \<open>Well-formed volumes\<close>

text \<open>
  Sectors of 512 bytes, a cluster of at least one sector, the data behind the table, a table
  long enough for the data clusters, cluster numbers below the marks for the end of a chain,
  and sector numbers that fit into 32 bits.
\<close>

definition fat_wf :: "fat32 \<Rightarrow> bool" where
  "fat_wf f \<longleftrightarrow> byts_per_sec f = 512 \<and> 0 < unat (sec_per_clus f)
     \<and> unat (byts_per_clus f) = unat (sec_per_clus f) * 512
     \<and> unat (rsvd_sec_cnt f) + unat (fat_sz f) \<le> unat (first_data_sec f)
     \<and> unat (first_data_sec f) + unat (data_clus_cnt f) * unat (sec_per_clus f) < 2 ^ 32
     \<and> unat (data_clus_cnt f) + 2 \<le> unat (fat_sz f) * 128
     \<and> unat (data_clus_cnt f) + 2 < 0x0FFFFFF8"

definition vol_ok :: "fs \<Rightarrow> bool" where
  "vol_ok s \<longleftrightarrow> cache_ok (bc s) \<and> fat_wf (fat s) \<and> (\<forall>n. length (sector (bc s) n) = 512)"

lemma fat_wfD:
  assumes "fat_wf f"
  shows "byts_per_sec f = 512" "0 < unat (sec_per_clus f)" "unat (byts_per_clus f) = unat (sec_per_clus f) * 512"
    "unat (rsvd_sec_cnt f) + unat (fat_sz f) \<le> unat (first_data_sec f)"
    "unat (first_data_sec f) + unat (data_clus_cnt f) * unat (sec_per_clus f) < 2 ^ 32"
    "unat (data_clus_cnt f) + 2 \<le> unat (fat_sz f) * 128"
    "unat (data_clus_cnt f) + 2 < 0x0FFFFFF8"
  using assms by (simp_all add: fat_wf_def)

lemma vol_okD:
  assumes "vol_ok s"
  shows "cache_ok (bc s)" "fat_wf (fat s)" "\<And>n. length (sector (bc s) n) = 512"
  using assms by (simp_all add: vol_ok_def)

text \<open>The data clusters are numbered from 2.\<close>

definition is_clus :: "fat32 \<Rightarrow> u32 \<Rightarrow> bool" where
  "is_clus f c \<longleftrightarrow> 2 \<le> unat c \<and> unat c < unat (data_clus_cnt f) + 2"

text \<open>Entry \<open>c\<close> of the table.\<close>

definition fat_ent :: "fs \<Rightarrow> nat \<Rightarrow> u32" where
  "fat_ent s c = le32 (sector (bc s) (of_nat (unat (rsvd_sec_cnt (fat s)) + c div 128))) (4 * (c mod 128))"

lemma unat_u32_small: "n < 2 ^ 32 \<Longrightarrow> unat (of_nat n :: u32) = n"
  by (simp add: unat_of_nat take_bit_nat_eq_self)

lemma fat_addr:
  assumes "fat_wf f" and "unat c < unat (data_clus_cnt f) + 2"
  shows "fat_sec_of_clus f c 1 = of_nat (unat (rsvd_sec_cnt f) + unat c div 128)"
    and "unat (fat_offset_of_clus f c) = 4 * (unat c mod 128)"
proof -
  have c: "unat c < 2 ^ 28" using assms fat_wfD(7) [OF assms(1)] by simp
  have "push_bit 2 c = c * 4" by (simp add: push_bit_eq_mult)
  moreover have "unat (c * 4) = unat c * 4" using c unat_mult_lem [of c 4] by simp
  ultimately have sh: "unat (push_bit 2 c) = unat c * 4" by simp
  have "unat (push_bit 2 c div 512) = unat c div 128" using sh by (simp add: unat_div)
  then have "push_bit 2 c div 512 = of_nat (unat c div 128)" by (metis of_nat_unat ucast_id)
  moreover have "(ucast (rsvd_sec_cnt f) :: u32) = of_nat (unat (rsvd_sec_cnt f))" by (simp add: of_nat_unat)
  ultimately show "fat_sec_of_clus f c 1 = of_nat (unat (rsvd_sec_cnt f) + unat c div 128)"
    using fat_wfD(1) [OF assms(1)] by (simp add: fat_sec_of_clus_def)
  have "unat (push_bit 2 c mod 512) = (unat c * 4) mod 512" using sh by (simp add: unat_mod)
  also have "\<dots> = 4 * (unat c mod 128)" using mult_mod_right [of 4 "unat c" 128] by (simp add: mult.commute)
  finally show "unat (fat_offset_of_clus f c) = 4 * (unat c mod 128)"
    using fat_wfD(1) [OF assms(1)] by (simp add: fat_offset_of_clus_def)
qed

lemma EOC_less: "fat_wf f \<Longrightarrow> unat c < unat (data_clus_cnt f) + 2 \<Longrightarrow> c < FAT32_EOC \<and> \<not> c > data_clus_cnt f + 1"
proof -
  assume wf: "fat_wf f" and c: "unat c < unat (data_clus_cnt f) + 2"
  have "unat (data_clus_cnt f + 1) = unat (data_clus_cnt f) + 1"
    using fat_wfD(7) [OF wf] word_succ_less [of "data_clus_cnt f" "0x0FFFFFFF"] by (simp add: word_less_nat_alt)
  then show ?thesis using c fat_wfD(7) [OF wf] by (simp add: FAT32_EOC_def word_less_nat_alt not_less)
qed

text \<open>A step that only changes sectors: the state keeps everything but the buffers.\<close>

definition sectors_to :: "fs \<Rightarrow> fs \<Rightarrow> (u32 \<Rightarrow> u8 list) \<Rightarrow> bool" where
  "sectors_to s s' V \<longleftrightarrow> (\<exists>b. s' = s\<lparr>bc := b\<rparr> \<and> cache_ok b \<and> sector b = V)"

lemma sectors_toI: "cache_ok b \<Longrightarrow> sector b = V \<Longrightarrow> sectors_to s (s\<lparr>bc := b\<rparr>) V"
  by (auto simp: sectors_to_def)

lemma sectors_toD:
  assumes "sectors_to s s' V"
  shows "cache_ok (bc s')" "sector (bc s') = V" "fat s' = fat s" "ents s' = ents s" "ux s' = ux s" "eclock s' = eclock s"
    "eorder s' = eorder s"
  using assms by (auto simp: sectors_to_def)

lemma sectors_to_trans: "sectors_to s s1 V \<Longrightarrow> sectors_to s1 s2 W \<Longrightarrow> sectors_to s s2 W"
  by (auto simp: sectors_to_def)

lemma sectors_to_vol:
  assumes "vol_ok s" "sectors_to s s' V" "\<And>n. length (V n) = 512"
  shows "vol_ok s'"
  using assms sectors_toD [OF assms(2)] by (simp add: vol_ok_def)

section \<open>The table as an array\<close>

lemma read_fat_ok:
  assumes "vol_ok s" "unat c < unat (data_clus_cnt (fat s)) + 2"
  shows "\<exists>s'. read_fat s c = Ok (fat_ent s (unat c), s') \<and> sectors_to s s' (sector (bc s))"
proof -
  have "\<not> c \<ge> FAT32_EOC" "\<not> c > data_clus_cnt (fat s) + 1"
    using EOC_less [OF vol_okD(2) [OF assms(1)] assms(2)] by (auto simp: not_le)
  then show ?thesis
    using bs.rd_ok [OF vol_okD(1) [OF assms(1)], of "me s" "fat_sec_of_clus (fat s) c 1"]
      fat_addr [OF vol_okD(2) [OF assms(1)] assms(2)]
    by (auto simp: read_fat_def fat_ent_def intro: sectors_toI)
qed

lemma write_fat_ok:
  assumes "vol_ok s" "unat c < unat (data_clus_cnt (fat s)) + 2"
  defines "n \<equiv> of_nat (unat (rsvd_sec_cnt (fat s)) + unat c div 128) :: u32"
  shows "\<exists>s'. write_fat s c v = Ok (0, s')
    \<and> sectors_to s s' ((sector (bc s))(n := put32 (sector (bc s) n) (4 * (unat c mod 128)) v))"
proof -
  have "\<not> c > data_clus_cnt (fat s) + 1" using EOC_less [OF vol_okD(2) [OF assms(1)] assms(2)] by simp
  moreover obtain b where "sec_modify (me s) (bc s) n (\<lambda>d. put32 d (4 * (unat c mod 128)) v) = Ok b" "cache_ok b"
    "sector b = (sector (bc s))(n := put32 (sector (bc s) n) (4 * (unat c mod 128)) v)"
    using bs.wr_ok [OF vol_okD(1) [OF assms(1)], of "me s" n "\<lambda>d. put32 d (4 * (unat c mod 128)) v"] by blast
  ultimately show ?thesis using fat_addr [OF vol_okD(2) [OF assms(1)] assms(2)]
    by (auto simp: write_fat_def n_def intro: sectors_toI)
qed

lemma fat_sec_inj:
  assumes wf: "fat_wf f" and c: "c < unat (data_clus_cnt f) + 2" and k: "k < unat (data_clus_cnt f) + 2"
    and eq: "(of_nat (unat (rsvd_sec_cnt f) + c div 128) :: u32) = of_nat (unat (rsvd_sec_cnt f) + k div 128)"
  shows "c div 128 = k div 128"
proof -
  have lt: "unat (rsvd_sec_cnt f) + j div 128 < 2 ^ 32" if "j < unat (data_clus_cnt f) + 2" for j
  proof -
    have "j div 128 < unat (fat_sz f)" using that fat_wfD(6) [OF wf] by (simp add: div_less_iff_less_mult)
    then show ?thesis using fat_wfD(4,5) [OF wf] by simp
  qed
  have "unat (rsvd_sec_cnt f) + c div 128 = unat (rsvd_sec_cnt f) + k div 128"
    using eq unat_u32_small [OF lt [OF c]] unat_u32_small [OF lt [OF k]] by metis
  then show ?thesis by simp
qed

lemma fat_ent_update:
  assumes ok: "vol_ok s" and c: "c < unat (data_clus_cnt (fat s)) + 2" and k: "k < unat (data_clus_cnt (fat s)) + 2"
    and fat: "fat s' = fat s"
    and V: "sector (bc s') = (sector (bc s))(of_nat (unat (rsvd_sec_cnt (fat s)) + c div 128) :=
              put32 (sector (bc s) (of_nat (unat (rsvd_sec_cnt (fat s)) + c div 128))) (4 * (c mod 128)) v)"
  shows "fat_ent s' k = (if k = c then v else fat_ent s k)"
proof (cases "k div 128 = c div 128")
  case True
  let ?d = "sector (bc s) (of_nat (unat (rsvd_sec_cnt (fat s)) + c div 128))"
  have len: "length ?d = 512" using vol_okD(3) [OF ok] .
  have "k = c \<longleftrightarrow> k mod 128 = c mod 128" using True by (metis div_mult_mod_eq)
  moreover have "le32 (put32 ?d (4 * (c mod 128)) v) (4 * (k mod 128)) = (if k mod 128 = c mod 128 then v else le32 ?d (4 * (k mod 128)))"
  proof -
    have "c mod 128 < 128" "k mod 128 < 128" by simp_all
    then have a: "4 * (c mod 128) + 4 \<le> length ?d" "4 * (k mod 128) + 4 \<le> length ?d"
      "k mod 128 \<noteq> c mod 128 \<Longrightarrow> 4 * (k mod 128) + 4 \<le> 4 * (c mod 128) \<or> 4 * (c mod 128) + 4 \<le> 4 * (k mod 128)"
      using len by (simp_all add: linorder_neq_iff) linarith+
    then show ?thesis using le32_put32_apart [OF a(1,2)] le32_put32 [OF a(1)] by (cases "k mod 128 = c mod 128") simp_all
  qed
  ultimately show ?thesis using True by (simp add: fat_ent_def V fat)
next
  case False
  then have "(of_nat (unat (rsvd_sec_cnt (fat s)) + k div 128) :: u32) \<noteq> of_nat (unat (rsvd_sec_cnt (fat s)) + c div 128)"
    using fat_sec_inj [OF vol_okD(2) [OF ok] k c] by blast
  then show ?thesis using False by (auto simp: fat_ent_def V fat simp del: of_nat_add)
qed

section \<open>Clusters as byte arrays\<close>

definition sec_bytes :: "(u32 \<Rightarrow> u8 list) \<Rightarrow> u32 \<Rightarrow> nat \<Rightarrow> u8 list" where
  "sec_bytes V sec k = concat (map (\<lambda>i. V (sec + of_nat i)) [0..<k])"

definition clus_bytes :: "fs \<Rightarrow> u32 \<Rightarrow> u8 list" where
  "clus_bytes s c = sec_bytes (sector (bc s)) (first_sec_of_clus (fat s) c) (unat (sec_per_clus (fat s)))"

lemma sec_bytes_0 [simp]: "sec_bytes V sec 0 = []"
  by (simp add: sec_bytes_def)

lemma sec_bytes_Suc: "sec_bytes V sec (Suc k) = V sec @ sec_bytes V (sec + 1) k"
proof -
  have "map (\<lambda>i. V (sec + of_nat i)) [0..<Suc k] = V sec # map (\<lambda>i. V (sec + 1 + of_nat i)) [0..<k]"
    by (simp add: map_upt_Suc add.assoc del: upt_Suc)
  then show ?thesis by (simp add: sec_bytes_def)
qed

lemma length_sec_bytes: "(\<And>n. length (V n) = 512) \<Longrightarrow> length (sec_bytes V sec k) = 512 * k"
  by (induction k arbitrary: sec) (simp_all add: sec_bytes_Suc)

lemma sec_bytes_cong: "(\<And>i. i < k \<Longrightarrow> V (sec + of_nat i) = W (sec + of_nat i)) \<Longrightarrow> sec_bytes V sec k = sec_bytes W sec k"
  unfolding sec_bytes_def by (intro arg_cong [of _ _ concat] map_cong) auto

lemma rw_sector_read:
  assumes "vol_ok s" and "off + m \<le> 512" and "pos + m \<le> length bs"
  shows "\<exists>s'. rw_sector s False (Kern bs) pos sec off m
      = Ok (0, s', Kern (patch bs pos (take m (drop off (sector (bc s) sec))))) \<and> sectors_to s s' (sector (bc s))"
proof -
  obtain i b where b: "bread (me s) (bc s) 0 sec = Ok (i, set_buf (bc s) i b)" "i < NBUF"
    "cache_held (me s) (set_buf (bc s) i b) i sec" "bdata b = disk (bc s) (sec + DBRsec (bc s))"
    using bread_ok [OF vol_okD(1) [OF assms(1)]] by blast
  have bi: "bufs (set_buf (bc s) i b) ! i = b" using b(2) ring_okD(2) [OF cache_okD(1) [OF vol_okD(1) [OF assms(1)]]] by simp
  have len: "length (bdata b) = 512" using vol_okD(3) [OF assms(1), of sec] b(4) by (simp add: sector_def)
  obtain b' where b': "brelse (me s) (set_buf (bc s) i b) i = Ok b'" "cache_ok b'" "disk b' = disk (bc s)" "DBRsec b' = DBRsec (bc s)"
    using brelse_ok [OF b(3)] b(4) bi by auto
  have "sector b' = sector (bc s)" using b'(3,4) by (simp add: sector_def fun_eq_iff)
  moreover have "length (take m (drop off (bdata b))) = m" using len assms(2) by simp
  ultimately show ?thesis using b(1,4) b' bi assms(3)
    by (auto simp: rw_sector_def sectors_to_def sector_def [of _ sec])
qed

lemma rw_sector_write:
  assumes ok: "vol_ok s" and off: "off + m \<le> 512" and pos: "pos + m \<le> length bs"
  shows "\<exists>s'. rw_sector s True (Kern bs) pos sec off m = Ok (0, s', Kern bs)
    \<and> sectors_to s s' ((sector (bc s))(sec := patch (sector (bc s) sec) off (take m (drop pos bs))))"
proof -
  let ?f = "\<lambda>d. patch d off (take m (drop pos bs))"
  have "rw_sector s True (Kern bs) pos sec off m = bind_res (sec_modify (me s) (bc s) sec ?f) (\<lambda>b. Ok (0, s\<lparr>bc := b\<rparr>, Kern bs))"
    using pos by (cases "bread (me s) (bc s) 0 sec") (auto simp: rw_sector_def sec_modify_def bind_res_assoc split: prod.splits)
  then show ?thesis using bs.wr_ok [OF vol_okD(1) [OF ok], of "me s" sec ?f] by (auto intro: sectors_toI)
qed

text \<open>The arithmetic of one round, with \<open>r\<close> bytes left.\<close>

lemma chunk_arith:
  assumes "m = min (512 - off mod 512) r" and "0 < r"
  shows "off mod 512 + m \<le> 512" "0 < m" "m \<le> r" "m = r \<or> (off + m) mod 512 = 0"
    and "off mod 512 + r \<le> 512 * Suc K \<Longrightarrow> m \<noteq> r \<Longrightarrow> r - m \<le> 512 * K"
    and "m = r \<or> off mod 512 + m = 512"
proof -
  have o: "off mod 512 < 512" by simp
  show "off mod 512 + m \<le> 512" "0 < m" "m \<le> r" using assms o by auto
  have c: "m = r \<or> m + off mod 512 = 512" using assms(1) o by (auto simp: min_def)
  then show "m = r \<or> off mod 512 + m = 512" by auto
  from c show "m = r \<or> (off + m) mod 512 = 0"
  proof
    assume "m + off mod 512 = 512"
    then have "(off mod 512 + m) mod 512 = 0" by (simp add: add.commute)
    then show ?thesis by (simp add: mod_add_left_eq)
  qed simp
  show "r - m \<le> 512 * K" if "off mod 512 + r \<le> 512 * Suc K" "m \<noteq> r" using c that by simp
qed

lemma take_drop_chunk:
  assumes "length V0 = 512" "m = min (512 - k) r" "k < 512"
  shows "take r (drop k (V0 @ rest)) = take m (drop k V0) @ take (r - m) rest"
  using assms by (auto simp: min_def)

lemma sectors_to_refl: "vol_ok s \<Longrightarrow> sectors_to s s (sector (bc s))"
  by (auto simp: sectors_to_def vol_ok_def intro: exI [of _ "bc s"])

lemma rw_loop_done [simp]: "rw_loop s w data pos sec off n n = Ok (n, s, data)"
  by (simp add: rw_loop.simps)

lemma rw_loop_step:
  assumes "tot < n" and "m = min (512 - off mod 512) (n - tot)"
    and "rw_sector s w data pos sec (off mod 512) m = Ok (0, s1, data1)"
  shows "rw_loop s w data pos sec off n tot = rw_loop s1 w data1 (pos + m) (sec + 1) (off + m) n (tot + m)"
  using assms by (subst rw_loop.simps) (simp add: BSIZE_def Let_def)

lemma rw_loop_read:
  assumes "vol_ok s" and "tot \<le> n" and "off mod 512 + (n - tot) \<le> 512 * K" and "pos + (n - tot) \<le> length bs"
  shows "\<exists>s'. rw_loop s False (Kern bs) pos sec off n tot
      = Ok (n, s', Kern (patch bs pos (take (n - tot) (drop (off mod 512) (sec_bytes (sector (bc s)) sec K)))))
    \<and> sectors_to s s' (sector (bc s))"
  using assms
proof (induction K arbitrary: s tot off pos bs sec)
  case 0
  then have "tot = n" by simp
  then show ?case using sectors_to_refl [OF 0(1)] by simp
next
  case (Suc K)
  let ?V = "sector (bc s)"
  show ?case
  proof (cases "tot = n")
    case True
    then show ?thesis using sectors_to_refl [OF Suc.prems(1)] by simp
  next
    case False
    define m where "m = min (512 - off mod 512) (n - tot)"
    have r: "0 < n - tot" using False Suc.prems(2) by simp
    note m = chunk_arith [OF m_def r]
    let ?A = "take m (drop (off mod 512) (?V sec))" and ?B = "take (n - (tot + m)) (sec_bytes ?V (sec + 1) K)"
    have lA: "length ?A = m" using vol_okD(3) [OF Suc.prems(1), of sec] m(1) by simp
    obtain s1 where s1: "rw_sector s False (Kern bs) pos sec (off mod 512) m = Ok (0, s1, Kern (patch bs pos ?A))" "sectors_to s s1 ?V"
      using rw_sector_read [OF Suc.prems(1) m(1), of pos bs sec] m(3) Suc.prems(4) by auto
    have v1: "vol_ok s1" using sectors_to_vol [OF Suc.prems(1) s1(2)] vol_okD(3) [OF Suc.prems(1)] by simp
    have "\<exists>s'. rw_loop s1 False (Kern (patch bs pos ?A)) (pos + m) (sec + 1) (off + m) n (tot + m)
        = Ok (n, s', Kern (patch (patch bs pos ?A) (pos + m) ?B)) \<and> sectors_to s1 s' ?V"
    proof (cases "m = n - tot")
      case True
      then have "tot + m = n" using r by simp
      then show ?thesis using sectors_to_refl [OF v1] sectors_toD(2) [OF s1(2)] by simp
    next
      case False
      then show ?thesis
        using Suc.IH [OF v1, of "tot + m" "off + m" "pos + m" "patch bs pos ?A" "sec + 1"] m(3,4) m(5) [OF Suc.prems(3)]
          Suc.prems(4) lA sectors_toD(2) [OF s1(2)] by simp
    qed
    moreover have "patch (patch bs pos ?A) (pos + m) ?B = patch bs pos (take (n - tot) (drop (off mod 512) (sec_bytes ?V sec (Suc K))))"
      using take_drop_chunk [OF vol_okD(3) [OF Suc.prems(1)] m_def] patch_append [of pos ?A ?B bs] lA m(3) Suc.prems(4)
      by (simp add: sec_bytes_Suc)
    ultimately show ?thesis using rw_loop_step [OF _ m_def s1(1)] sectors_to_trans [OF s1(2)] r by auto
  qed
qed

text \<open>The sectors after writing \<open>data\<close> from offset \<open>k\<close> of sector \<open>sec\<close> on.\<close>

definition written :: "(u32 \<Rightarrow> u8 list) \<Rightarrow> u32 \<Rightarrow> nat \<Rightarrow> nat \<Rightarrow> u8 list \<Rightarrow> (u32 \<Rightarrow> u8 list) \<Rightarrow> bool" where
  "written V sec K k data W \<longleftrightarrow> sec_bytes W sec K = patch (sec_bytes V sec K) k data
     \<and> (\<forall>x. (\<forall>i < K. x \<noteq> sec + of_nat i) \<longrightarrow> W x = V x) \<and> (\<forall>x. length (W x) = 512)"

lemma written_Nil: "(\<And>x. length (V x) = 512) \<Longrightarrow> written V sec K k [] V"
  by (simp add: written_def)

lemma written_step:
  assumes V: "\<And>x. length (V x) = 512" and K: "Suc K < 2 ^ 32" and A: "k + length A \<le> 512"
    and W: "written (V(sec := patch (V sec) k A)) (sec + 1) K 0 B W" and B: "B = [] \<or> k + length A = 512"
    and lB: "length B \<le> 512 * K"
  shows "written V sec (Suc K) k (A @ B) W"
proof -
  let ?V = "V(sec := patch (V sec) k A)"
  have ne: "sec \<noteq> sec + 1 + of_nat i" if "i < K" for i
  proof -
    have "unat (1 + of_nat i :: u32) = 1 + i" using that K unat_u32_small [of "1 + i"] by simp
    then have "(1 + of_nat i :: u32) \<noteq> 0" by (metis add_eq_0_iff_both_eq_0 one_neq_zero unat_0)
    then show ?thesis by (simp add: add.assoc)
  qed
  have w1: "W sec = patch (V sec) k A" using W ne by (simp add: written_def)
  have same: "sec_bytes ?V (sec + 1) K = sec_bytes V (sec + 1) K" using ne by (intro sec_bytes_cong) auto
  have len: "length (sec_bytes V (sec + 1) K) = 512 * K" using length_sec_bytes [OF V] .
  have "sec_bytes W sec (Suc K) = patch (V sec) k A @ patch (sec_bytes V (sec + 1) K) 0 B"
    using W w1 same by (simp add: written_def sec_bytes_Suc)
  also have "\<dots> = patch (V sec @ sec_bytes V (sec + 1) K) k (A @ B)"
  proof (cases "B = []")
    case False
    then have "k + length A = 512" using B by simp
    moreover from this have "k + (length A + length B) - 512 = length B" by simp
    ultimately show ?thesis using V [of sec] by (simp add: patch_def)
  qed (use A V [of sec] in \<open>simp add: patch_def\<close>)
  finally have "sec_bytes W sec (Suc K) = patch (sec_bytes V sec (Suc K)) k (A @ B)" by (simp add: sec_bytes_Suc)
  moreover have "W x = V x" if "\<forall>i < Suc K. x \<noteq> sec + of_nat i" for x
  proof -
    have "x \<noteq> sec" using that by auto
    moreover have "\<forall>i < K. x \<noteq> sec + 1 + of_nat i" using that by (metis Suc_less_eq add.assoc of_nat_Suc)
    ultimately show ?thesis using W by (simp add: written_def)
  qed
  ultimately show ?thesis using W by (simp add: written_def)
qed

lemma rw_loop_write:
  assumes "vol_ok s" and "tot \<le> n" and "off mod 512 + (n - tot) \<le> 512 * K" and "K < 2 ^ 32" and "pos + (n - tot) \<le> length bs"
  shows "\<exists>s' W. rw_loop s True (Kern bs) pos sec off n tot = Ok (n, s', Kern bs) \<and> sectors_to s s' W
    \<and> written (sector (bc s)) sec K (off mod 512) (take (n - tot) (drop pos bs)) W"
  using assms
proof (induction K arbitrary: s tot off pos sec)
  case 0
  then have "tot = n" by simp
  then show ?case using sectors_to_refl [OF 0(1)] written_Nil [OF vol_okD(3) [OF 0(1)]] by auto
next
  case (Suc K)
  let ?V = "sector (bc s)"
  show ?case
  proof (cases "tot = n")
    case True
    then show ?thesis using sectors_to_refl [OF Suc.prems(1)] written_Nil [OF vol_okD(3) [OF Suc.prems(1)]] by auto
  next
    case False
    define m where "m = min (512 - off mod 512) (n - tot)"
    have r: "0 < n - tot" using False Suc.prems(2) by simp
    note m = chunk_arith [OF m_def r]
    let ?A = "take m (drop pos bs)" and ?B = "take (n - (tot + m)) (drop (pos + m) bs)"
    define V1 where "V1 = ?V(sec := patch (?V sec) (off mod 512) ?A)"
    have lA: "length ?A = m" using m(3) Suc.prems(5) by simp
    obtain s1 where s1: "rw_sector s True (Kern bs) pos sec (off mod 512) m = Ok (0, s1, Kern bs)" "sectors_to s s1 V1"
      using rw_sector_write [OF Suc.prems(1) m(1), of pos bs sec] m(3) Suc.prems(5) unfolding V1_def by auto
    have l1: "length (V1 x) = 512" for x using vol_okD(3) [OF Suc.prems(1)] lA m(1) by (simp add: V1_def)
    have v1: "vol_ok s1" using sectors_to_vol [OF Suc.prems(1) s1(2) l1] .
    have "\<exists>s' W. rw_loop s1 True (Kern bs) (pos + m) (sec + 1) (off + m) n (tot + m) = Ok (n, s', Kern bs)
        \<and> sectors_to s1 s' W \<and> written V1 (sec + 1) K 0 ?B W"
    proof (cases "m = n - tot")
      case True
      then have "tot + m = n" using r by simp
      then show ?thesis using sectors_to_refl [OF v1] sectors_toD(2) [OF s1(2)] written_Nil [of V1, OF l1] by auto
    next
      case False
      moreover have "tot + m \<le> n" using m(3) Suc.prems(2) by simp
      ultimately show ?thesis
        using Suc.IH [OF v1, of "tot + m" "off + m" "pos + m" "sec + 1"] m(3,4) m(5) [OF Suc.prems(3)]
          Suc.prems(4,5) sectors_toD(2) [OF s1(2)] by simp
    qed
    then obtain s' W where s': "rw_loop s1 True (Kern bs) (pos + m) (sec + 1) (off + m) n (tot + m) = Ok (n, s', Kern bs)"
      "sectors_to s1 s' W" "written V1 (sec + 1) K 0 ?B W" by blast
    have lB: "length ?B \<le> 512 * K" and B: "?B = [] \<or> off mod 512 + length ?A = 512"
      using m(5) [OF Suc.prems(3)] m(6) lA by (cases "m = n - tot"; simp)+
    have A: "off mod 512 + length ?A \<le> 512" using lA m(1) by simp
    have "written ?V sec (Suc K) (off mod 512) (?A @ ?B) W"
      by (rule written_step [OF vol_okD(3) [OF Suc.prems(1)] Suc.prems(4) A s'(3) [unfolded V1_def] B lB])
    moreover have "?A @ ?B = take (n - tot) (drop pos bs)"
    proof -
      have e: "n - tot = m + (n - (tot + m))" using m(3) by simp
      show ?thesis unfolding e take_add by (simp add: add.commute)
    qed
    ultimately show ?thesis using rw_loop_step [OF _ m_def s1(1)] s'(1) sectors_to_trans [OF s1(2) s'(2)] r by auto
  qed
qed

lemma unat_u32: "unat (x :: u32) < 2 ^ 32"
proof -
  have "unat x < 2 ^ LENGTH(32)" by (rule unsigned_less)
  then show ?thesis by simp
qed

lemma unat_ucast8: "unat (ucast (x :: u8) :: u32) = unat x"
proof -
  have "unat x < 2 ^ LENGTH(8)" by (rule unsigned_less)
  then show ?thesis by (simp add: unsigned_ucast_eq take_bit_nat_eq_self)
qed

lemma sec_split:
  assumes "a + n \<le> 512 * (k::nat)"
  shows "a div 512 \<le> k" and "a mod 512 + n \<le> 512 * (k - a div 512)"
proof -
  define q r where "q = a div 512" and "r = a mod 512"
  have a: "a = 512 * q + r" by (simp add: q_def r_def)
  then show "a div 512 \<le> k" using assms by (simp add: q_def [symmetric])
  have "r + n \<le> 512 * k - 512 * q" using a assms by linarith
  then show "a mod 512 + n \<le> 512 * (k - a div 512)" unfolding q_def [symmetric] r_def [symmetric] by (simp only: diff_mult_distrib2)
qed

text \<open>The sectors of a cluster.\<close>

lemma clus_addr:
  assumes wf: "fat_wf f" and c: "is_clus f c"
  shows "unat (first_sec_of_clus f c) = unat (first_data_sec f) + (unat c - 2) * unat (sec_per_clus f)"
    and "unat (first_sec_of_clus f c) + unat (sec_per_clus f) < 2 ^ 32"
proof -
  let ?spc = "unat (sec_per_clus f)"
  have "(unat c - 2) * ?spc + ?spc \<le> unat (data_clus_cnt f) * ?spc"
  proof -
    have "unat c - 2 + 1 \<le> unat (data_clus_cnt f)" using c unfolding is_clus_def by linarith
    then have "(unat c - 2 + 1) * ?spc \<le> unat (data_clus_cnt f) * ?spc" by (rule mult_le_mono1)
    then show ?thesis by simp
  qed
  then have b: "unat (first_data_sec f) + ((unat c - 2) * ?spc + ?spc) < 2 ^ 32" using fat_wfD(5) [OF wf] by linarith
  have "unat (c - 2) = unat c - 2" using c by (subst unat_sub) (simp_all add: is_clus_def word_le_nat_alt)
  moreover have "unat (ucast (sec_per_clus f) :: u32) = ?spc" by (rule unat_ucast8)
  ultimately have m: "unat ((c - 2) * ucast (sec_per_clus f)) = (unat c - 2) * ?spc"
    using b unat_mult_lem [of "c - 2" "ucast (sec_per_clus f)"] by simp
  show "unat (first_sec_of_clus f c) = unat (first_data_sec f) + (unat c - 2) * ?spc"
    using b m unat_add_lem [of "(c - 2) * ucast (sec_per_clus f)" "first_data_sec f"] by (simp add: first_sec_of_clus_def)
  then show "unat (first_sec_of_clus f c) + ?spc < 2 ^ 32" using b by linarith
qed

lemma rw_range:
  assumes wf: "fat_wf f" and n: "unat off + unat n \<le> unat (byts_per_clus f)"
  shows "\<not> off + n > byts_per_clus f" and "unat (off div ucast (byts_per_sec f)) = unat off div 512"
    and "unat (off mod ucast (byts_per_sec f)) = unat off mod 512"
proof -
  have "unat (off + n) = unat off + unat n" using n unat_u32 [of "byts_per_clus f"] unat_add_lem [of off n] by simp
  then show "\<not> off + n > byts_per_clus f" using n by (simp add: word_less_nat_alt)
  show "unat (off div ucast (byts_per_sec f)) = unat off div 512" "unat (off mod ucast (byts_per_sec f)) = unat off mod 512"
    using fat_wfD(1) [OF wf] by (simp_all add: unat_div unat_mod)
qed

lemma sec_bytes_add: "sec_bytes V sec (j + k) = sec_bytes V sec j @ sec_bytes V (sec + of_nat j) k"
proof (induction j arbitrary: sec)
  case (Suc j)
  show ?case using Suc [of "sec + 1"] by (simp add: sec_bytes_Suc add.assoc)
qed simp

lemma unat_add_small: "unat (sec::u32) + i < 2 ^ 32 \<Longrightarrow> unat (sec + of_nat i) = unat sec + i"
  using unat_u32_small [of i] unat_add_lem [of sec "of_nat i"] by simp

lemma written_extend:
  assumes W: "written V (sec + of_nat j) K k data W" and V: "\<And>x. length (V x) = 512"
    and b: "unat sec + j + K < 2 ^ 32"
  shows "written V sec (j + K) (512 * j + k) data W"
proof -
  have apart: "sec + of_nat i \<noteq> sec + of_nat j + of_nat l" if i: "i < j" and l: "l < K" for i l
  proof
    assume eq: "sec + of_nat i = sec + of_nat j + of_nat l"
    have "unat (sec + of_nat i) = unat sec + i" using b i by (intro unat_add_small) simp
    moreover have "unat (sec + of_nat (j + l)) = unat sec + (j + l)" using b l by (intro unat_add_small) simp
    ultimately show False using eq i by (simp add: add.assoc)
  qed
  then have "W (sec + of_nat i) = V (sec + of_nat i)" if "i < j" for i using W that by (simp add: written_def)
  then have "sec_bytes W sec j = sec_bytes V sec j" by (rule sec_bytes_cong)
  then have "sec_bytes W sec (j + K) = patch (sec_bytes V sec (j + K)) (512 * j + k) data"
    using W length_sec_bytes [OF V] by (simp add: sec_bytes_add written_def patch_def)
  moreover have "W x = V x" if "\<forall>i < j + K. x \<noteq> sec + of_nat i" for x
  proof -
    have "x \<noteq> sec + of_nat j + of_nat l" if "l < K" for l
      using \<open>\<forall>i < j + K. x \<noteq> sec + of_nat i\<close> [rule_format, of "j + l"] that by (simp add: add.assoc)
    then show ?thesis using W by (simp add: written_def)
  qed
  ultimately show ?thesis using W by (simp add: written_def)
qed

lemma rw_clus_read:
  assumes ok: "vol_ok s" and n: "unat off + unat n \<le> unat (byts_per_clus (fat s))" and bs: "pos + unat n \<le> length bs"
  shows "\<exists>s'. rw_clus s c False (Kern bs) pos off n = Ok (unat n, s', Kern (patch bs pos (take (unat n) (drop (unat off) (clus_bytes s c)))))
    \<and> sectors_to s s' (sector (bc s))"
proof -
  let ?f = "fat s" and ?V = "sector (bc s)" and ?spc = "unat (sec_per_clus (fat s))" and ?j = "unat off div 512"
  note wf = vol_okD(2) [OF ok]
  note r = rw_range [OF wf n]
  let ?sec = "first_sec_of_clus ?f c + off div ucast (byts_per_sec ?f)"
  have sec: "?sec = first_sec_of_clus ?f c + of_nat ?j" using r(2) by (metis of_nat_unat ucast_id)
  have le: "unat off + unat n \<le> 512 * ?spc" using n fat_wfD(3) [OF wf] by simp
  note j = sec_split(1) [OF le] and K = sec_split(2) [OF le]
  have "clus_bytes s c = sec_bytes ?V (first_sec_of_clus ?f c) (?j + (?spc - ?j))" using j by (simp add: clus_bytes_def)
  then have "drop (512 * ?j) (clus_bytes s c) = sec_bytes ?V ?sec (?spc - ?j)"
    using length_sec_bytes [OF vol_okD(3) [OF ok]] by (simp add: sec_bytes_add sec)
  then have "drop (unat off mod 512) (sec_bytes ?V ?sec (?spc - ?j)) = drop (unat off) (clus_bytes s c)"
    by (metis add.commute drop_drop mod_mult_div_eq)
  then show ?thesis
    using rw_loop_read [OF ok, of 0 "unat n" "unat off mod 512" "?spc - ?j" pos bs ?sec] K r bs
    by (simp add: rw_clus_def)
qed

lemma rw_clus_write:
  assumes ok: "vol_ok s" and c: "is_clus (fat s) c" and n: "unat off + unat n \<le> unat (byts_per_clus (fat s))"
    and bs: "pos + unat n \<le> length bs"
  shows "\<exists>s' W. rw_clus s c True (Kern bs) pos off n = Ok (unat n, s', Kern bs) \<and> sectors_to s s' W
    \<and> written (sector (bc s)) (first_sec_of_clus (fat s) c) (unat (sec_per_clus (fat s))) (unat off) (take (unat n) (drop pos bs)) W"
proof -
  let ?f = "fat s" and ?V = "sector (bc s)" and ?spc = "unat (sec_per_clus (fat s))" and ?j = "unat off div 512"
  note wf = vol_okD(2) [OF ok]
  note r = rw_range [OF wf n]
  let ?sec = "first_sec_of_clus ?f c + off div ucast (byts_per_sec ?f)"
  have sec: "?sec = first_sec_of_clus ?f c + of_nat ?j" using r(2) by (metis of_nat_unat ucast_id)
  have le: "unat off + unat n \<le> 512 * ?spc" using n fat_wfD(3) [OF wf] by simp
  note j = sec_split(1) [OF le] and K = sec_split(2) [OF le]
  have b: "unat (first_sec_of_clus ?f c) + ?j + (?spc - ?j) < 2 ^ 32" using clus_addr(2) [OF wf c] j by simp
  obtain s' W where W: "rw_loop s True (Kern bs) pos ?sec (unat off mod 512) (unat n) 0 = Ok (unat n, s', Kern bs)"
    "sectors_to s s' W" "written ?V ?sec (?spc - ?j) (unat off mod 512) (take (unat n) (drop pos bs)) W"
    using rw_loop_write [OF ok, of 0 "unat n" "unat off mod 512" "?spc - ?j" pos bs ?sec] K bs b by auto
  have "written ?V (first_sec_of_clus ?f c) ?spc (unat off) (take (unat n) (drop pos bs)) W"
    using written_extend [OF W(3) [unfolded sec] vol_okD(3) [OF ok] b] j by simp
  then show ?thesis using W(1,2) r by (auto simp: rw_clus_def)
qed

section \<open>The volume as a table and byte arrays\<close>

text \<open>
  A step of the file system that leaves everything but the disk alone, after which the table
  is \<open>T\<close> and the clusters hold \<open>D\<close>.
\<close>

definition vol_step :: "fs \<Rightarrow> fs \<Rightarrow> (nat \<Rightarrow> u32) \<Rightarrow> (u32 \<Rightarrow> u8 list) \<Rightarrow> bool" where
  "vol_step s s' T D \<longleftrightarrow> vol_ok s' \<and> (\<exists>b. s' = s\<lparr>bc := b\<rparr>)
     \<and> (\<forall>k < unat (data_clus_cnt (fat s)) + 2. fat_ent s' k = T k) \<and> (\<forall>c. is_clus (fat s) c \<longrightarrow> clus_bytes s' c = D c)"

lemma vol_stepD:
  assumes "vol_step s s' T D"
  shows "vol_ok s'" "fat s' = fat s" "ents s' = ents s" "ux s' = ux s" "eclock s' = eclock s" "eorder s' = eorder s"
    "\<And>k. k < unat (data_clus_cnt (fat s)) + 2 \<Longrightarrow> fat_ent s' k = T k" "\<And>c. is_clus (fat s) c \<Longrightarrow> clus_bytes s' c = D c"
  using assms by (auto simp: vol_step_def)

lemma vol_step_trans:
  assumes "vol_step s s1 T1 D1" "vol_step s1 s2 T2 D2"
  shows "vol_step s s2 T2 D2"
  using assms vol_stepD(2) [OF assms(1)] by (auto simp: vol_step_def)

lemma vol_step_cong:
  assumes "vol_step s s' T D" "\<And>k. k < unat (data_clus_cnt (fat s)) + 2 \<Longrightarrow> T k = T' k"
    "\<And>c. is_clus (fat s) c \<Longrightarrow> D c = D' c"
  shows "vol_step s s' T' D'"
  using assms by (auto simp: vol_step_def)

lemma length_clus_bytes: "vol_ok s \<Longrightarrow> length (clus_bytes s c) = unat (byts_per_clus (fat s))"
  using length_sec_bytes [OF vol_okD(3)] fat_wfD(3) [OF vol_okD(2)] by (simp add: clus_bytes_def)

lemma sectors_to_same:
  assumes "vol_ok s" "sectors_to s s' (sector (bc s))"
  shows "vol_step s s' (fat_ent s) (clus_bytes s)"
  using assms sectors_to_vol [OF assms] vol_okD(3) [OF assms(1)]
  by (auto simp: vol_step_def sectors_to_def fat_ent_def clus_bytes_def)

text \<open>Data sectors are not table sectors.\<close>

lemma table_sec_less:
  assumes wf: "fat_wf f" and k: "k < unat (fat_sz f) * 128"
  shows "unat (of_nat (unat (rsvd_sec_cnt f) + k div 128) :: u32) = unat (rsvd_sec_cnt f) + k div 128"
    and "unat (rsvd_sec_cnt f) + k div 128 < unat (first_data_sec f)"
proof -
  have "k div 128 < unat (fat_sz f)" using k by (simp add: div_less_iff_less_mult)
  then show "unat (rsvd_sec_cnt f) + k div 128 < unat (first_data_sec f)" using fat_wfD(4) [OF wf] by simp
  then show "unat (of_nat (unat (rsvd_sec_cnt f) + k div 128) :: u32) = unat (rsvd_sec_cnt f) + k div 128"
    using fat_wfD(5) [OF wf] by (intro unat_u32_small) simp
qed

lemma data_sec:
  assumes wf: "fat_wf f" and c: "is_clus f c" and i: "i < unat (sec_per_clus f)"
  shows "unat (first_sec_of_clus f c + of_nat i) = unat (first_data_sec f) + (unat c - 2) * unat (sec_per_clus f) + i"
  using clus_addr [OF wf c] i unat_add_small [of "first_sec_of_clus f c" i] by simp

lemma data_sec_inj:
  assumes wf: "fat_wf f" and c: "is_clus f c" "is_clus f d" and i: "i < unat (sec_per_clus f)" "j < unat (sec_per_clus f)"
    and eq: "first_sec_of_clus f c + of_nat i = first_sec_of_clus f d + of_nat j"
  shows "c = d"
proof -
  let ?n = "unat (sec_per_clus f)"
  have "(unat c - 2) * ?n + i = (unat d - 2) * ?n + j"
    using data_sec [OF wf c(1) i(1)] data_sec [OF wf c(2) i(2)] eq by simp
  then have "((unat c - 2) * ?n + i) div ?n = ((unat d - 2) * ?n + j) div ?n" by simp
  then have "unat c - 2 = unat d - 2" using i by simp
  then have "unat c = unat d" using c unfolding is_clus_def by linarith
  then show ?thesis by (simp add: word_unat_eq_iff)
qed

lemma table_write_step:
  assumes ok: "vol_ok s" and c: "unat c < unat (data_clus_cnt (fat s)) + 2"
    and s': "sectors_to s s' ((sector (bc s))(of_nat (unat (rsvd_sec_cnt (fat s)) + unat c div 128) :=
       put32 (sector (bc s) (of_nat (unat (rsvd_sec_cnt (fat s)) + unat c div 128))) (4 * (unat c mod 128)) v))"
  shows "vol_step s s' ((fat_ent s)(unat c := v)) (clus_bytes s)"
proof -
  let ?f = "fat s" and ?n = "of_nat (unat (rsvd_sec_cnt (fat s)) + unat c div 128) :: u32"
  note wf = vol_okD(2) [OF ok]
  let ?W = "(sector (bc s))(?n := put32 (sector (bc s) ?n) (4 * (unat c mod 128)) v)"
  have len: "length (?W x) = 512" for x
  proof -
    have "4 * (unat c mod 128) + 4 \<le> 512" using mod_less_divisor [of 128 "unat c"] by linarith
    then show ?thesis using vol_okD(3) [OF ok] by simp
  qed
  have ck: "unat c < unat (fat_sz ?f) * 128" using c fat_wfD(6) [OF wf] by simp
  have "clus_bytes s' d = clus_bytes s d" if d: "is_clus ?f d" for d
  proof -
    have "first_sec_of_clus ?f d + of_nat i \<noteq> ?n" if "i < unat (sec_per_clus ?f)" for i
      using data_sec [OF wf d that] table_sec_less [OF wf ck] by auto
    then have "sec_bytes ?W (first_sec_of_clus ?f d) (unat (sec_per_clus ?f)) = sec_bytes (sector (bc s)) (first_sec_of_clus ?f d) (unat (sec_per_clus ?f))"
      by (intro sec_bytes_cong) simp
    then show ?thesis unfolding clus_bytes_def sectors_toD(2,3) [OF s'] .
  qed
  moreover have "fat_ent s' k = ((fat_ent s)(unat c := v)) k" if "k < unat (data_clus_cnt ?f) + 2" for k
    using fat_ent_update [OF ok c that sectors_toD(3) [OF s'] sectors_toD(2) [OF s']] by simp
  moreover have "vol_ok s'" using sectors_to_vol [OF ok s' len] .
  ultimately show ?thesis using s' by (auto simp: vol_step_def sectors_to_def)
qed

lemma clus_write_step:
  assumes ok: "vol_ok s" and c: "is_clus (fat s) c" and s': "sectors_to s s' W"
    and W: "written (sector (bc s)) (first_sec_of_clus (fat s) c) (unat (sec_per_clus (fat s))) k data W"
  shows "vol_step s s' (fat_ent s) ((clus_bytes s)(c := patch (clus_bytes s c) k data))"
proof -
  let ?f = "fat s"
  note wf = vol_okD(2) [OF ok]
  have same: "W x = sector (bc s) x" if "\<And>i. i < unat (sec_per_clus ?f) \<Longrightarrow> x \<noteq> first_sec_of_clus ?f c + of_nat i" for x
    using W that by (simp add: written_def)
  have "clus_bytes s' d = ((clus_bytes s)(c := patch (clus_bytes s c) k data)) d" if d: "is_clus ?f d" for d
  proof (cases "d = c")
    case True
    then show ?thesis using W sectors_toD(2,3) [OF s'] by (simp add: clus_bytes_def written_def)
  next
    case False
    then have "W (first_sec_of_clus ?f d + of_nat i) = sector (bc s) (first_sec_of_clus ?f d + of_nat i)"
      if "i < unat (sec_per_clus ?f)" for i
      using data_sec_inj [OF wf d c that] by (intro same) blast
    then have "sec_bytes W (first_sec_of_clus ?f d) (unat (sec_per_clus ?f)) = sec_bytes (sector (bc s)) (first_sec_of_clus ?f d) (unat (sec_per_clus ?f))"
      by (rule sec_bytes_cong)
    then show ?thesis using False unfolding clus_bytes_def sectors_toD(2,3) [OF s'] by simp
  qed
  moreover have "fat_ent s' k = fat_ent s k" if k: "k < unat (data_clus_cnt ?f) + 2" for k
  proof -
    have kk: "k < unat (fat_sz ?f) * 128" using k fat_wfD(6) [OF wf] by simp
    have "of_nat (unat (rsvd_sec_cnt ?f) + k div 128) \<noteq> first_sec_of_clus ?f c + of_nat i" if "i < unat (sec_per_clus ?f)" for i
      using data_sec [OF wf c that] table_sec_less [OF wf kk] by auto
    then show ?thesis using same sectors_toD(2,3) [OF s'] by (simp add: fat_ent_def)
  qed
  moreover have "vol_ok s'" using sectors_to_vol [OF ok s'] W by (simp add: written_def)
  ultimately show ?thesis using s' by (auto simp: vol_step_def sectors_to_def)
qed

lemma zero_loop_ok:
  assumes "vol_ok s" and "n < 2 ^ 32"
  shows "\<exists>s' W. zero_loop s sec n = Ok s' \<and> sectors_to s s' W \<and> written (sector (bc s)) sec n 0 (replicate (512 * n) 0) W"
  using assms
proof (induction n arbitrary: s sec)
  case 0
  then show ?case using sectors_to_refl [OF 0(1)] written_Nil [OF vol_okD(3) [OF 0(1)]] by auto
next
  case (Suc n)
  let ?V = "sector (bc s)" and ?Z = "replicate 512 (0::u8)"
  have z: "patch (?V sec) 0 ?Z = ?Z" using vol_okD(3) [OF Suc.prems(1)] by (intro patch_full) simp
  define V1 where "V1 = ?V(sec := ?Z)"
  obtain s1 where s1: "sec_modify (me s) (bc s) sec (\<lambda>d. ?Z) = Ok s1" "cache_ok s1" "sector s1 = V1"
    using bs.wr_ok [OF vol_okD(1) [OF Suc.prems(1)], of "me s" sec "\<lambda>d. ?Z"] unfolding V1_def by blast
  have st: "sectors_to s (s\<lparr>bc := s1\<rparr>) V1" using s1 by (auto intro: sectors_toI)
  have v1: "vol_ok (s\<lparr>bc := s1\<rparr>)" using sectors_to_vol [OF Suc.prems(1) st] vol_okD(3) [OF Suc.prems(1)] by (simp add: V1_def)
  obtain s' W where W: "zero_loop (s\<lparr>bc := s1\<rparr>) (sec + 1) n = Ok s'" "sectors_to (s\<lparr>bc := s1\<rparr>) s' W"
    "written V1 (sec + 1) n 0 (replicate (512 * n) 0) W"
    using Suc.IH [OF v1, of "sec + 1"] Suc.prems(2) s1(3) by auto
  have "written ?V sec (Suc n) 0 (?Z @ replicate (512 * n) 0) W"
    using W(3) z by (intro written_step [OF vol_okD(3) [OF Suc.prems(1)]]) (use Suc.prems(2) in \<open>simp_all add: V1_def\<close>)
  then show ?case using W(1) s1(1) sectors_to_trans [OF st W(2)] by (auto simp: replicate_add BSIZE_def)
qed

lemma zero_clus_ok:
  assumes ok: "vol_ok s" and c: "is_clus (fat s) c"
  shows "\<exists>s'. zero_clus s c = Ok s'
    \<and> vol_step s s' (fat_ent s) ((clus_bytes s)(c := replicate (unat (byts_per_clus (fat s))) 0))"
proof -
  let ?n = "unat (sec_per_clus (fat s))"
  have "?n < 2 ^ 32" using clus_addr(2) [OF vol_okD(2) [OF ok] c] by simp
  then obtain s' W where W: "zero_clus s c = Ok s'" "sectors_to s s' W"
    "written (sector (bc s)) (first_sec_of_clus (fat s) c) ?n 0 (replicate (512 * ?n) 0) W"
    using zero_loop_ok [OF ok, of ?n "first_sec_of_clus (fat s) c"] by (auto simp: zero_clus_def)
  have b: "unat (byts_per_clus (fat s)) = 512 * ?n" using fat_wfD(3) [OF vol_okD(2) [OF ok]] by simp
  have "patch (clus_bytes s c) 0 (replicate (512 * ?n) 0) = replicate (unat (byts_per_clus (fat s))) 0"
    using length_clus_bytes [OF ok, of c] b by (simp add: patch_full)
  then show ?thesis using clus_write_step [OF ok c W(2,3)] W(1) by auto
qed

text \<open>The first free entry of a sector of the table.\<close>

lemma find_upt:
  "find P [0..<n] = (if \<exists>j < n. P j then Some (LEAST j. P j) else None)"
proof (cases "\<exists>j < n. P j")
  case True
  then obtain j where j: "j < n" "P j" by blast
  obtain m where m: "m = (LEAST j. P j)" "P m" "m \<le> j" "\<And>k. k < m \<Longrightarrow> \<not> P k"
    using LeastI [of P, OF j(2)] Least_le [of P, OF j(2)] not_less_Least [of _ P] by metis
  have "find P [0..<n] = Some m"
    unfolding find_Some_iff using m(2-4) j(1) by (intro exI [of _ m]) simp
  then show ?thesis using True m(1) by simp
qed (auto simp: find_None_iff)

lemma alloc_step_none:
  assumes ok: "vol_ok s" and z: "\<forall>j < 128. le32 (sector (bc s) (ucast (rsvd_sec_cnt (fat s)) + of_nat i)) (4 * j) \<noteq> 0"
  shows "\<exists>s1. alloc_loop s 0 (Suc n) i = alloc_loop s1 0 n (i + 1) \<and> sectors_to s s1 (sector (bc s))"
proof -
  let ?sec = "ucast (rsvd_sec_cnt (fat s)) + of_nat i :: u32"
  obtain k b where b: "bread (me s) (bc s) 0 ?sec = Ok (k, set_buf (bc s) k b)" "k < NBUF"
    "cache_held (me s) (set_buf (bc s) k b) k ?sec" "bdata b = disk (bc s) (?sec + DBRsec (bc s))"
    using bread_ok [OF vol_okD(1) [OF ok]] by blast
  have bi: "bufs (set_buf (bc s) k b) ! k = b" using b(2) ring_okD(2) [OF cache_okD(1) [OF vol_okD(1) [OF ok]]] by simp
  have "find (\<lambda>j. le32 (bdata b) (4 * j) = 0) [0..<128] = None" using z b(4) by (auto simp: find_upt sector_def)
  moreover obtain b' where b': "brelse (me s) (set_buf (bc s) k b) k = Ok b'" "cache_ok b'" "disk b' = disk (bc s)" "DBRsec b' = DBRsec (bc s)"
    using brelse_ok [OF b(3)] b(4) bi by auto
  moreover have "sector b' = sector (bc s)" using b'(3,4) by (simp add: sector_def fun_eq_iff)
  ultimately show ?thesis using b(1) bi fat_wfD(1) [OF vol_okD(2) [OF ok]]
    by (auto simp: Let_def sectors_to_def intro!: exI [of _ "s\<lparr>bc := b'\<rparr>"])
qed

lemma alloc_step_some:
  assumes ok: "vol_ok s" and j: "j < 128" "le32 (sector (bc s) (ucast (rsvd_sec_cnt (fat s)) + of_nat i)) (4 * j) = 0"
    and least: "\<forall>l < j. le32 (sector (bc s) (ucast (rsvd_sec_cnt (fat s)) + of_nat i)) (4 * l) \<noteq> 0"
  defines "sec \<equiv> ucast (rsvd_sec_cnt (fat s)) + of_nat i :: u32"
  shows "\<exists>s1. alloc_loop s 0 (Suc n) i = bind_res (zero_clus s1 (of_nat (i * 128 + j))) (\<lambda>s. Ok (of_nat (i * 128 + j), s))
    \<and> sectors_to s s1 ((sector (bc s))(sec := put32 (sector (bc s) sec) (4 * j) FAT32_FEOC))"
proof -
  let ?f = "\<lambda>d. put32 d (4 * j) FAT32_FEOC"
  obtain k b where b: "bread (me s) (bc s) 0 sec = Ok (k, set_buf (bc s) k b)" "k < NBUF" "bdata b = disk (bc s) (sec + DBRsec (bc s))"
    using bread_ok [OF vol_okD(1) [OF ok]] by blast
  have bi: "bufs (set_buf (bc s) k b) ! k = b" using b(2) ring_okD(2) [OF cache_okD(1) [OF vol_okD(1) [OF ok]]] by simp
  have "(LEAST j. le32 (bdata b) (4 * j) = 0) = j"
    using j(2) least b(3) by (intro Least_equality) (auto simp: sector_def sec_def not_less [symmetric])
  then have "find (\<lambda>j. le32 (bdata b) (4 * j) = 0) [0..<128] = Some j"
    using j b(3) by (auto simp: find_upt sector_def sec_def)
  then have "alloc_loop s 0 (Suc n) i = bind_res (sec_modify (me s) (bc s) sec ?f)
      (\<lambda>b. bind_res (zero_clus (s\<lparr>bc := b\<rparr>) (of_nat (i * 128 + j))) (\<lambda>s. Ok (of_nat (i * 128 + j), s)))"
    using b(1) bi fat_wfD(1) [OF vol_okD(2) [OF ok]] by (simp add: sec_modify_def bind_res_assoc sec_def [symmetric] Let_def)
  moreover obtain b' where "sec_modify (me s) (bc s) sec ?f = Ok b'" "cache_ok b'" "sector b' = (sector (bc s))(sec := ?f (sector (bc s) sec))"
    using bs.wr_ok [OF vol_okD(1) [OF ok], of "me s" sec ?f] by blast
  ultimately show ?thesis by (auto simp: sectors_to_def intro!: exI [of _ "s\<lparr>bc := b'\<rparr>"])
qed

lemma fat_ent_word:
  "fat_ent s (128 * i + j) = le32 (sector (bc s) (ucast (rsvd_sec_cnt (fat s)) + of_nat i)) (4 * j)" if "j < 128"
  using that by (simp add: fat_ent_def)

lemma sectors_to_fat_ent: "sectors_to s s1 (sector (bc s)) \<Longrightarrow> fat_ent s1 k = fat_ent s k"
  by (auto simp: sectors_to_def fat_ent_def)

lemma alloc_loop_first:
  assumes "vol_ok s" and "128 * i \<le> k" "k < 128 * (i + n)" and "fat_ent s k = 0"
    and "\<forall>j. 128 * i \<le> j \<longrightarrow> j < k \<longrightarrow> fat_ent s j \<noteq> 0"
  shows "\<exists>s1. alloc_loop s 0 n i = bind_res (zero_clus s1 (of_nat k)) (\<lambda>s. Ok (of_nat k, s))
    \<and> sectors_to s s1 ((sector (bc s))(of_nat (unat (rsvd_sec_cnt (fat s)) + k div 128) :=
         put32 (sector (bc s) (of_nat (unat (rsvd_sec_cnt (fat s)) + k div 128))) (4 * (k mod 128)) FAT32_FEOC))"
  using assms
proof (induction n arbitrary: s i)
  case 0
  then show ?case by simp
next
  case (Suc n)
  show ?case
  proof (cases "k < 128 * (i + 1)")
    case True
    define j where "j = k - 128 * i"
    have k: "k = 128 * i + j" "j < 128" using True Suc.prems(2) by (simp_all add: j_def)
    have "le32 (sector (bc s) (ucast (rsvd_sec_cnt (fat s)) + of_nat i)) (4 * j) = 0"
      using Suc.prems(4) fat_ent_word [OF k(2), of s i] k(1) by simp
    moreover have "\<forall>l < j. le32 (sector (bc s) (ucast (rsvd_sec_cnt (fat s)) + of_nat i)) (4 * l) \<noteq> 0"
    proof (intro allI impI)
      fix l assume "l < j"
      then show "le32 (sector (bc s) (ucast (rsvd_sec_cnt (fat s)) + of_nat i)) (4 * l) \<noteq> 0"
        using Suc.prems(5) [rule_format, of "128 * i + l"] fat_ent_word [of l s i] k by simp
    qed
    moreover have e: "i * 128 + j = k" "k div 128 = i" "k mod 128 = j" using k by simp_all
    moreover have "of_nat (unat (rsvd_sec_cnt (fat s)) + k div 128) = (ucast (rsvd_sec_cnt (fat s)) + of_nat i :: u32)"
      using e(2) by simp
    ultimately show ?thesis using alloc_step_some [OF Suc.prems(1) k(2), of i n] by (simp only: e)
  next
    case False
    have "\<forall>j < 128. le32 (sector (bc s) (ucast (rsvd_sec_cnt (fat s)) + of_nat i)) (4 * j) \<noteq> 0"
    proof (intro allI impI)
      fix j :: nat assume "j < 128"
      then show "le32 (sector (bc s) (ucast (rsvd_sec_cnt (fat s)) + of_nat i)) (4 * j) \<noteq> 0"
        using Suc.prems(5) [rule_format, of "128 * i + j"] fat_ent_word [of j s i] False by simp
    qed
    then obtain s1 where s1: "alloc_loop s 0 (Suc n) i = alloc_loop s1 0 n (i + 1)" "sectors_to s s1 (sector (bc s))"
      using alloc_step_none [OF Suc.prems(1), of i n] by blast
    have v1: "vol_ok s1" using sectors_to_vol [OF Suc.prems(1) s1(2)] vol_okD(3) [OF Suc.prems(1)] by simp
    show ?thesis
      using Suc.IH [OF v1, of "i + 1"] Suc.prems(3-5) False sectors_to_fat_ent [OF s1(2)] sectors_toD(2,3) [OF s1(2)] s1(1)
        sectors_to_trans [OF s1(2)] by simp blast
  qed
qed

lemma alloc_loop_full:
  assumes "vol_ok s" and "\<forall>j. 128 * i \<le> j \<longrightarrow> j < 128 * (i + n) \<longrightarrow> fat_ent s j \<noteq> 0"
  shows "\<exists>s'. alloc_loop s 0 n i = Ok (1, s') \<and> sectors_to s s' (sector (bc s))"
  using assms
proof (induction n arbitrary: s i)
  case 0
  then show ?case using sectors_to_refl by auto
next
  case (Suc n)
  have "\<forall>j < 128. le32 (sector (bc s) (ucast (rsvd_sec_cnt (fat s)) + of_nat i)) (4 * j) \<noteq> 0"
  proof (intro allI impI)
    fix j :: nat assume "j < 128"
    then show "le32 (sector (bc s) (ucast (rsvd_sec_cnt (fat s)) + of_nat i)) (4 * j) \<noteq> 0"
      using Suc.prems(2) [rule_format, of "128 * i + j"] fat_ent_word [of j s i] by simp
  qed
  then obtain s1 where s1: "alloc_loop s 0 (Suc n) i = alloc_loop s1 0 n (i + 1)" "sectors_to s s1 (sector (bc s))"
    using alloc_step_none [OF Suc.prems(1), of i n] by blast
  have v1: "vol_ok s1" using sectors_to_vol [OF Suc.prems(1) s1(2)] vol_okD(3) [OF Suc.prems(1)] by simp
  show ?case
    using Suc.IH [OF v1, of "i + 1"] Suc.prems(2) sectors_to_fat_ent [OF s1(2)] sectors_toD(2) [OF s1(2)] s1(1)
      sectors_to_trans [OF s1(2)] by auto
qed

lemma alloc_clus_ok:
  assumes ok: "vol_ok s" and k: "is_clus (fat s) c" "fat_ent s (unat c) = 0" and least: "\<forall>j < unat c. fat_ent s j \<noteq> 0"
  shows "\<exists>s'. alloc_clus s 0 = Ok (c, s')
    \<and> vol_step s s' ((fat_ent s)(unat c := FAT32_FEOC)) ((clus_bytes s)(c := replicate (unat (byts_per_clus (fat s))) 0))"
proof -
  have lt: "unat c < unat (data_clus_cnt (fat s)) + 2" using k(1) by (simp add: is_clus_def)
  then have lt2: "unat c < 128 * (0 + unat (fat_sz (fat s)))" using fat_wfD(6) [OF vol_okD(2) [OF ok]] by simp
  have cc: "of_nat (unat c) = c" by simp
  obtain s1 where s1: "alloc_clus s 0 = bind_res (zero_clus s1 c) (\<lambda>s. Ok (c, s))"
    "sectors_to s s1 ((sector (bc s))(of_nat (unat (rsvd_sec_cnt (fat s)) + unat c div 128) :=
       put32 (sector (bc s) (of_nat (unat (rsvd_sec_cnt (fat s)) + unat c div 128))) (4 * (unat c mod 128)) FAT32_FEOC))"
    using alloc_loop_first [OF ok _ lt2 k(2)] least unfolding alloc_clus_def cc by auto
  have st: "vol_step s s1 ((fat_ent s)(unat c := FAT32_FEOC)) (clus_bytes s)" using table_write_step [OF ok lt s1(2)] .
  obtain s' where s': "zero_clus s1 c = Ok s'" "vol_step s1 s' (fat_ent s1) ((clus_bytes s1)(c := replicate (unat (byts_per_clus (fat s1))) 0))"
    using zero_clus_ok [OF vol_stepD(1) [OF st]] k(1) vol_stepD(2) [OF st] by auto
  have "vol_step s s' ((fat_ent s)(unat c := FAT32_FEOC)) ((clus_bytes s)(c := replicate (unat (byts_per_clus (fat s))) 0))"
    by (rule vol_step_cong [OF vol_step_trans [OF st s'(2)]]) (use vol_stepD(2,7,8) [OF st] in auto)
  then show ?thesis using s1(1) s'(1) by auto
qed

lemma read_fat_step:
  assumes "vol_ok s" "unat c < unat (data_clus_cnt (fat s)) + 2"
  shows "\<exists>s'. read_fat s c = Ok (fat_ent s (unat c), s') \<and> vol_step s s' (fat_ent s) (clus_bytes s)"
  using read_fat_ok [OF assms] sectors_to_same [OF assms(1)] by blast

lemma write_fat_step:
  assumes "vol_ok s" "unat c < unat (data_clus_cnt (fat s)) + 2"
  shows "\<exists>s'. write_fat s c v = Ok (0, s') \<and> vol_step s s' ((fat_ent s)(unat c := v)) (clus_bytes s)"
  using write_fat_ok [OF assms] table_write_step [OF assms] by blast

lemma rw_clus_read_step:
  assumes "vol_ok s" and "unat off + unat n \<le> unat (byts_per_clus (fat s))" and "pos + unat n \<le> length bs"
  shows "\<exists>s'. rw_clus s c False (Kern bs) pos off n = Ok (unat n, s', Kern (patch bs pos (take (unat n) (drop (unat off) (clus_bytes s c)))))
    \<and> vol_step s s' (fat_ent s) (clus_bytes s)"
  using rw_clus_read [OF assms] sectors_to_same [OF assms(1)] by blast

lemma rw_clus_write_step:
  assumes "vol_ok s" and "is_clus (fat s) c" and "unat off + unat n \<le> unat (byts_per_clus (fat s))" and "pos + unat n \<le> length bs"
  shows "\<exists>s'. rw_clus s c True (Kern bs) pos off n = Ok (unat n, s', Kern bs)
    \<and> vol_step s s' (fat_ent s) ((clus_bytes s)(c := patch (clus_bytes s c) (unat off) (take (unat n) (drop pos bs))))"
  using rw_clus_write [OF assms] clus_write_step [OF assms(1,2)] by blast

end
