(* ===== verification/Fat_File.thy ===== *)
theory Fat_File
  imports Fat_Table
begin

text \<open>
  Files as chains of clusters: the position of an entry in its chain (\<^verbatim>\<open>reloc_clus\<close>), reading,
  writing and truncating (\<^verbatim>\<open>eread\<close>, \<^verbatim>\<open>ewrite\<close>, \<^verbatim>\<open>etrunc\<close> of \<^verbatim>\<open>fs_fat32.c\<close>). A walk along a chain
  that has no end is bounded by fuel and is then the fault \<open>Spin_forever\<close>.
\<close>

section \<open>The code\<close>

definition ATTR_READ_ONLY :: u8 where "ATTR_READ_ONLY = 0x01"
definition ATTR_DIRECTORY :: u8 where "ATTR_DIRECTORY = 0x10"
definition ATTR_ARCHIVE :: u8 where "ATTR_ARCHIVE = 0x20"
definition ATTR_LONG_NAME :: u8 where "ATTR_LONG_NAME = 0x0F"

abbreviation ent :: "fs \<Rightarrow> nat \<Rightarrow> dirent" where
  "ent s e \<equiv> ents s ! e"

abbreviation set_ent :: "fs \<Rightarrow> nat \<Rightarrow> dirent \<Rightarrow> fs" where
  "set_ent s e d \<equiv> s\<lparr>ents := (ents s)[e := d]\<rparr>"

text \<open>
  The first loop of \<^verbatim>\<open>reloc_clus\<close>, for the \<open>n\<close> clusters that are missing. The end of the chain is
  tested on a signed \<^verbatim>\<open>int\<close>. \<open>False\<close> stands for the early return of -1.
\<close>

primrec reloc_fwd :: "fs \<Rightarrow> nat \<Rightarrow> bool \<Rightarrow> nat \<Rightarrow> (bool \<times> fs) res" where
  "reloc_fwd s e alloc 0 = Ok (True, s)"
| "reloc_fwd s e alloc (Suc n) =
     bind_res (read_fat s (cur_clus (ent s e))) (\<lambda>(clus, s).
     if sint clus \<ge> sint FAT32_EOC
     then (if alloc
           then bind_res (alloc_clus s (ddev (ent s e))) (\<lambda>(clus, s).
                bind_res (write_fat s (cur_clus (ent s e)) clus) (\<lambda>(r, s).
                reloc_fwd (set_ent s e ((ent s e)\<lparr>cur_clus := clus, clus_cnt := clus_cnt (ent s e) + 1\<rparr>)) e alloc n))
           else Ok (False, set_ent s e ((ent s e)\<lparr>cur_clus := first_clus (ent s e), clus_cnt := 0\<rparr>)))
     else reloc_fwd (set_ent s e ((ent s e)\<lparr>cur_clus := clus, clus_cnt := clus_cnt (ent s e) + 1\<rparr>)) e alloc n)"

text \<open>The second loop, from the first cluster.\<close>

primrec reloc_back :: "fs \<Rightarrow> nat \<Rightarrow> nat \<Rightarrow> fs res" where
  "reloc_back s e 0 = Ok s"
| "reloc_back s e (Suc n) =
     bind_res (read_fat s (cur_clus (ent s e))) (\<lambda>(clus, s).
     if clus \<ge> FAT32_EOC then Fail (Panic ''reloc_clus'')
     else reloc_back (set_ent s e ((ent s e)\<lparr>cur_clus := clus, clus_cnt := clus_cnt (ent s e) + 1\<rparr>)) e n)"

definition reloc_clus :: "fs \<Rightarrow> nat \<Rightarrow> u32 \<Rightarrow> bool \<Rightarrow> (int \<times> fs) res" where
  "reloc_clus s e off alloc =
     (let clus_num = off div byts_per_clus (fat s)
      in bind_res (reloc_fwd s e alloc (unat clus_num - unat (clus_cnt (ent s e)))) (\<lambda>(go, s).
         if \<not> go then Ok (- 1, s)
         else bind_res (if clus_num < clus_cnt (ent s e)
                        then reloc_back (set_ent s e ((ent s e)\<lparr>cur_clus := first_clus (ent s e), clus_cnt := 0\<rparr>)) e (unat clus_num)
                        else Ok s) (\<lambda>s.
              Ok (sint (off mod byts_per_clus (fat s)), s))))"

text \<open>What is left of the cluster at \<open>off\<close>, at most what is left of the request.\<close>

definition clus_chunk :: "fat32 \<Rightarrow> u32 \<Rightarrow> nat \<Rightarrow> nat" where
  "clus_chunk f off left = min (unat (byts_per_clus f - off mod byts_per_clus f)) left"

text \<open>A round that copies nothing would be repeated forever.\<close>

function eread_loop :: "fs \<Rightarrow> nat \<Rightarrow> kbuf \<Rightarrow> u32 \<Rightarrow> nat \<Rightarrow> nat \<Rightarrow> (nat \<times> fs \<times> kbuf) res" where
  "eread_loop s e dst off n tot =
     (if cur_clus (ent s e) < FAT32_EOC \<and> tot < n
      then bind_res (reloc_clus s e off False) (\<lambda>(r, s).
           let m = clus_chunk (fat s) off (n - tot)
           in bind_res (rw_clus s (cur_clus (ent s e)) False dst tot (off mod byts_per_clus (fat s)) (of_nat m)) (\<lambda>(k, s, dst).
              if k \<noteq> m then Ok (tot, s, dst)
              else if m = 0 then Fail Spin_forever
              else eread_loop s e dst (off + of_nat m) n (tot + m)))
      else Ok (tot, s, dst))"
  by pat_completeness auto
termination
  by (relation "measure (\<lambda>(s, e, d, off, n, tot). n - tot)") (auto simp: clus_chunk_def)

declare eread_loop.simps [simp del]

definition eread :: "fs \<Rightarrow> nat \<Rightarrow> kbuf \<Rightarrow> u32 \<Rightarrow> u32 \<Rightarrow> (int \<times> fs \<times> kbuf) res" where
  "eread s e dst off n =
     (if off > file_size (ent s e) \<or> off + n < off \<or> attribute (ent s e) AND ATTR_DIRECTORY \<noteq> 0 then Ok (0, s, dst)
      else let n = (if off + n > file_size (ent s e) then file_size (ent s e) - off else n)
           in bind_res (eread_loop s e dst off (unat n) 0) (\<lambda>(tot, s, dst). Ok (int tot, s, dst)))"

text \<open>The loop also returns the offset behind the last byte written.\<close>

function ewrite_loop :: "fs \<Rightarrow> nat \<Rightarrow> kbuf \<Rightarrow> u32 \<Rightarrow> nat \<Rightarrow> nat \<Rightarrow> (nat \<times> u32 \<times> fs) res" where
  "ewrite_loop s e src off n tot =
     (if tot < n
      then bind_res (reloc_clus s e off True) (\<lambda>(r, s).
           let m = clus_chunk (fat s) off (n - tot)
           in bind_res (rw_clus s (cur_clus (ent s e)) True src tot (off mod byts_per_clus (fat s)) (of_nat m)) (\<lambda>(k, s, src).
              if k \<noteq> m then Ok (tot, off, s)
              else if m = 0 then Fail Spin_forever
              else ewrite_loop s e src (off + of_nat m) n (tot + m)))
      else Ok (tot, off, s))"
  by pat_completeness auto
termination
  by (relation "measure (\<lambda>(s, e, d, off, n, tot). n - tot)") (auto simp: clus_chunk_def)

declare ewrite_loop.simps [simp del]

definition ewrite :: "fs \<Rightarrow> nat \<Rightarrow> kbuf \<Rightarrow> u32 \<Rightarrow> u32 \<Rightarrow> (int \<times> fs) res" where
  "ewrite s e src off n =
     (if off > file_size (ent s e) \<or> off + n < off \<or> unat off + unat n > 0xffffffff
         \<or> attribute (ent s e) AND ATTR_READ_ONLY \<noteq> 0 then Ok (- 1, s)
      else bind_res (if first_clus (ent s e) = 0
                     then bind_res (alloc_clus s (ddev (ent s e))) (\<lambda>(c, s).
                          Ok (set_ent s e ((ent s e)\<lparr>cur_clus := c, first_clus := c, clus_cnt := 0, dirty := True\<rparr>)))
                     else Ok s) (\<lambda>s.
           bind_res (ewrite_loop s e src off (unat n) 0) (\<lambda>(tot, off, s).
           Ok (int tot, if n > 0 \<and> off > file_size (ent s e)
                        then set_ent s e ((ent s e)\<lparr>file_size := off, dirty := True\<rparr>) else s))))"

text \<open>Each round frees the cluster it leaves, so that one more round than there are clusters is enough.\<close>

primrec etrunc_loop :: "nat \<Rightarrow> fs \<Rightarrow> u32 \<Rightarrow> fs res" where
  "etrunc_loop 0 s clus = Fail Spin_forever"
| "etrunc_loop (Suc fuel) s clus =
     (if clus \<ge> 2 \<and> clus < FAT32_EOC
      then bind_res (read_fat s clus) (\<lambda>(nxt, s).
           bind_res (free_clus s clus) (\<lambda>s. etrunc_loop fuel s nxt))
      else Ok s)"

definition etrunc :: "fs \<Rightarrow> nat \<Rightarrow> fs res" where
  "etrunc s e =
     bind_res (etrunc_loop (unat (data_clus_cnt (fat s)) + 3) s (first_clus (ent s e))) (\<lambda>s.
     Ok (set_ent s e ((ent s e)\<lparr>file_size := 0, first_clus := 0, dirty := True\<rparr>)))"

section \<open>Chains\<close>

text \<open>The marks for the end of a chain, which are the same read as signed numbers.\<close>

definition eoc :: "u32 \<Rightarrow> bool" where
  "eoc c \<longleftrightarrow> 0x0FFFFFF8 \<le> unat c \<and> unat c < 2 ^ 31"

fun is_chain :: "fs \<Rightarrow> u32 \<Rightarrow> u32 list \<Rightarrow> bool" where
  "is_chain s c [] \<longleftrightarrow> eoc c"
| "is_chain s c (d # ds) \<longleftrightarrow> c = d \<and> is_clus (fat s) d \<and> is_chain s (fat_ent s (unat d)) ds"

definition file_bytes :: "fs \<Rightarrow> u32 list \<Rightarrow> u8 list" where
  "file_bytes s cs = concat (map (clus_bytes s) cs)"

text \<open>Entry \<open>e\<close> has the chain \<open>cs\<close> and stands on one of its clusters.\<close>

definition file_at :: "fs \<Rightarrow> nat \<Rightarrow> u32 list \<Rightarrow> bool" where
  "file_at s e cs \<longleftrightarrow> e < length (ents s) \<and> ddev (ent s e) = 0 \<and> cs \<noteq> [] \<and> is_chain s (first_clus (ent s e)) cs
     \<and> unat (clus_cnt (ent s e)) < length cs \<and> cur_clus (ent s e) = cs ! unat (clus_cnt (ent s e))"

definition free_clusters :: "fs \<Rightarrow> u32 set" where
  "free_clusters s = {c. is_clus (fat s) c \<and> fat_ent s (unat c) = 0}"

lemma eoc_not_clus: "fat_wf f \<Longrightarrow> eoc c \<Longrightarrow> \<not> is_clus f c"
  using fat_wfD(7) [of f] by (auto simp: eoc_def is_clus_def)

lemma sint_EOC:
  fixes c :: u32
  assumes "unat c < 2 ^ 31"
  shows "sint c \<ge> sint FAT32_EOC \<longleftrightarrow> 0x0FFFFFF8 \<le> unat c"
proof -
  obtain k where k: "unat c = k" "uint c = int k" by simp
  then have "signed_take_bit 31 (uint c) = uint c" using assms by (intro signed_take_bit_int_eq_self) simp_all
  then have "sint c = uint c" by (simp add: sint_uint)
  then show ?thesis unfolding k by (simp add: FAT32_EOC_def)
qed

lemma eoc_EOC:
  assumes "eoc c"
  shows "c \<ge> FAT32_EOC" "sint c \<ge> sint FAT32_EOC"
  using assms sint_EOC [of c] by (simp_all add: eoc_def FAT32_EOC_def word_le_nat_alt)

lemma clus_EOC:
  assumes "fat_wf f" "is_clus f c"
  shows "c < FAT32_EOC" "\<not> sint c \<ge> sint FAT32_EOC" "2 \<le> c"
proof -
  have u: "unat c < 0x0FFFFFF8" "2 \<le> unat c" using assms fat_wfD(7) [OF assms(1)] by (auto simp: is_clus_def)
  then show "c < FAT32_EOC" "2 \<le> c" by (simp_all add: FAT32_EOC_def word_less_nat_alt word_le_nat_alt)
  show "\<not> sint c \<ge> sint FAT32_EOC" using u sint_EOC [of c] by simp
qed

lemma chain_clus: "is_chain s c cs \<Longrightarrow> d \<in> set cs \<Longrightarrow> is_clus (fat s) d"
  by (induction cs arbitrary: c) auto

lemma chain_next:
  "is_chain s c cs \<Longrightarrow> i < length cs \<Longrightarrow> is_chain s (fat_ent s (unat (cs ! i))) (drop (Suc i) cs)"
proof (induction cs arbitrary: c i)
  case (Cons d ds)
  then show ?case by (cases i) auto
qed simp

lemma chain_at: "is_chain s c cs \<Longrightarrow> i < length cs \<Longrightarrow> is_chain s (cs ! i) (drop i cs)"
proof (induction cs arbitrary: c i)
  case (Cons d ds)
  then show ?case by (cases i) auto
qed simp

lemma chain_unique: "fat_wf (fat s) \<Longrightarrow> is_chain s c cs \<Longrightarrow> is_chain s c ds \<Longrightarrow> cs = ds"
proof (induction cs arbitrary: c ds)
  case Nil
  then show ?case using eoc_not_clus by (cases ds) auto
next
  case (Cons d cs)
  then show ?case using eoc_not_clus by (cases ds) auto
qed

lemma chain_distinct:
  assumes "fat_wf (fat s)" "is_chain s c cs"
  shows "distinct cs"
  unfolding distinct_conv_nth
proof (intro allI impI notI)
  fix i j assume i: "i < length cs" and j: "j < length cs" and "i \<noteq> j" and eq: "cs ! i = cs ! j"
  have "drop i cs = drop j cs"
    using chain_unique [OF assms(1) chain_at [OF assms(2) i]] chain_at [OF assms(2) j] eq by simp
  then have "length cs - i = length cs - j" by (metis length_drop)
  then show False using i j \<open>i \<noteq> j\<close> by linarith
qed

text \<open>A chain is no longer than the volume.\<close>

lemma clusters_card:
  assumes "fat_wf f"
  shows "finite {c. is_clus f c}" "card {c. is_clus f c} = unat (data_clus_cnt f)"
proof -
  have "inj_on unat {c. is_clus f c}" by (auto intro!: inj_onI simp: word_unat_eq_iff)
  moreover have "unat ` {c. is_clus f c} = {2..<unat (data_clus_cnt f) + 2}"
  proof (intro set_eqI iffI)
    fix k assume k: "k \<in> {2..<unat (data_clus_cnt f) + 2}"
    then have "unat (of_nat k :: u32) = k" using fat_wfD(7) [OF assms] by (intro unat_u32_small) simp
    then show "k \<in> unat ` {c. is_clus f c}" using k by (intro image_eqI [of _ _ "of_nat k"]) (auto simp: is_clus_def)
  qed (auto simp: is_clus_def)
  ultimately show "finite {c. is_clus f c}" "card {c. is_clus f c} = unat (data_clus_cnt f)"
    using card_image [of unat "{c. is_clus f c}"] finite_image_iff [of unat "{c. is_clus f c}"] by simp_all
qed

lemma chain_short:
  assumes "fat_wf (fat s)" "is_chain s c cs"
  shows "length cs \<le> unat (data_clus_cnt (fat s))"
proof -
  have "card (set cs) \<le> card {c. is_clus (fat s) c}"
    using chain_clus [OF assms(2)] clusters_card(1) [OF assms(1)] by (intro card_mono) auto
  then show ?thesis using chain_distinct [OF assms] clusters_card(2) [OF assms(1)] by (simp add: distinct_card)
qed

text \<open>A chain only depends on the entries of its clusters, and its clusters are not free.\<close>

lemma chain_cong:
  "is_chain s c cs \<Longrightarrow> fat s' = fat s \<Longrightarrow> (\<And>d. d \<in> set cs \<Longrightarrow> fat_ent s' (unat d) = fat_ent s (unat d)) \<Longrightarrow> is_chain s' c cs"
  by (induction cs arbitrary: c) auto

lemma chain_head: "is_chain s c cs \<Longrightarrow> c \<noteq> 0"
  by (cases cs) (auto simp: eoc_def is_clus_def)

lemma chain_not_free: "is_chain s c cs \<Longrightarrow> d \<in> set cs \<Longrightarrow> d \<notin> free_clusters s"
  using chain_head by (induction cs arbitrary: c) (auto simp: free_clusters_def)

lemma chain_append:
  "is_chain s c (xs @ [d]) \<Longrightarrow> is_clus (fat s) n \<Longrightarrow> fat s' = fat s \<Longrightarrow>
   (\<And>x. x \<in> set xs \<Longrightarrow> fat_ent s' (unat x) = fat_ent s (unat x)) \<Longrightarrow> fat_ent s' (unat d) = n \<Longrightarrow> eoc (fat_ent s' (unat n)) \<Longrightarrow>
   is_chain s' c (xs @ [d, n])"
  by (induction xs arbitrary: c) auto

lemma free_finite: "fat_wf (fat s) \<Longrightarrow> finite (free_clusters s)"
  using clusters_card(1) [of "fat s"] by (rule rev_finite_subset) (auto simp: free_clusters_def)

section \<open>Moving along a chain\<close>

lemma fat_ent_ents [simp]: "fat_ent (s\<lparr>ents := x\<rparr>) = fat_ent s"
  by (simp add: fat_ent_def fun_eq_iff)

lemma clus_bytes_ents [simp]: "clus_bytes (s\<lparr>ents := x\<rparr>) = clus_bytes s"
  by (simp add: clus_bytes_def fun_eq_iff)

lemma vol_ok_ents [simp]: "vol_ok (s\<lparr>ents := x\<rparr>) = vol_ok s"
  by (simp add: vol_ok_def)

lemma is_chain_ents [simp]: "is_chain (s\<lparr>ents := x\<rparr>) c cs = is_chain s c cs"
  by (induction cs arbitrary: c) simp_all

lemma file_bytes_cong: "(\<And>c. c \<in> set cs \<Longrightarrow> clus_bytes s' c = clus_bytes s c) \<Longrightarrow> file_bytes s' cs = file_bytes s cs"
  unfolding file_bytes_def by (intro arg_cong [of _ _ concat] map_cong) auto

text \<open>
  An operation on entry \<open>e\<close> with the chain \<open>cs\<close>: it moves the entry's position, may append free
  clusters to the chain, and leaves the table and the contents outside the chain alone. The new
  chain is \<open>cs'\<close> and holds \<open>X\<close>.
\<close>

definition moved :: "fs \<Rightarrow> fs \<Rightarrow> nat \<Rightarrow> bool" where
  "moved s s' e \<longleftrightarrow> (\<exists>b c k. s' = s\<lparr>bc := b, ents := (ents s)[e := (ent s e)\<lparr>cur_clus := c, clus_cnt := k\<rparr>]\<rparr>)"

definition kept_outside :: "fs \<Rightarrow> fs \<Rightarrow> u32 list \<Rightarrow> bool" where
  "kept_outside s s' cs \<longleftrightarrow> (\<forall>c. unat c < unat (data_clus_cnt (fat s)) + 2 \<longrightarrow> c \<notin> set cs \<longrightarrow> fat_ent s' (unat c) = fat_ent s (unat c))
     \<and> (\<forall>c. is_clus (fat s) c \<longrightarrow> c \<notin> set cs \<longrightarrow> clus_bytes s' c = clus_bytes s c)"

definition grown :: "fs \<Rightarrow> fs \<Rightarrow> nat \<Rightarrow> u32 list \<Rightarrow> u32 list \<Rightarrow> u8 list \<Rightarrow> bool" where
  "grown s s' e cs cs' X \<longleftrightarrow> vol_ok s' \<and> moved s s' e \<and> file_at s' e cs' \<and> (\<exists>new. cs' = cs @ new \<and> set new \<subseteq> free_clusters s)
     \<and> kept_outside s s' cs' \<and> file_bytes s' cs' = X"

lemma kept_outsideD:
  assumes "kept_outside s s' cs"
  shows "unat c < unat (data_clus_cnt (fat s)) + 2 \<Longrightarrow> c \<notin> set cs \<Longrightarrow> fat_ent s' (unat c) = fat_ent s (unat c)"
    "is_clus (fat s) c \<Longrightarrow> c \<notin> set cs \<Longrightarrow> fat_ent s' (unat c) = fat_ent s (unat c) \<and> clus_bytes s' c = clus_bytes s c"
  using assms by (auto simp: kept_outside_def is_clus_def)

lemma movedD:
  assumes "moved s s' e"
  shows "fat s' = fat s" "length (ents s') = length (ents s)" "ux s' = ux s"
    "e < length (ents s) \<Longrightarrow> file_size (ent s' e) = file_size (ent s e) \<and> first_clus (ent s' e) = first_clus (ent s e)
       \<and> attribute (ent s' e) = attribute (ent s e) \<and> ddev (ent s' e) = ddev (ent s e)"
    "i \<noteq> e \<Longrightarrow> ent s' i = ent s i"
  using assms by (auto simp: moved_def)

lemma moved_trans:
  assumes "moved s s1 e" "moved s1 s2 e"
  shows "moved s s2 e"
proof -
  obtain b c k where 1: "s1 = s\<lparr>bc := b, ents := (ents s)[e := (ent s e)\<lparr>cur_clus := c, clus_cnt := k\<rparr>]\<rparr>"
    using assms(1) by (auto simp: moved_def)
  obtain b' c' k' where 2: "s2 = s1\<lparr>bc := b', ents := (ents s1)[e := (ent s1 e)\<lparr>cur_clus := c', clus_cnt := k'\<rparr>]\<rparr>"
    using assms(2) by (auto simp: moved_def)
  have "(ents s1)[e := (ent s1 e)\<lparr>cur_clus := c', clus_cnt := k'\<rparr>] = (ents s)[e := (ent s e)\<lparr>cur_clus := c', clus_cnt := k'\<rparr>]"
    using 1 by (cases "e < length (ents s)") (simp_all add: list_update_beyond)
  then show ?thesis unfolding moved_def 2 by (simp add: 1) blast
qed

lemma grownD:
  assumes "grown s s' e cs cs' X"
  shows "vol_ok s'" "moved s s' e" "file_at s' e cs'" "kept_outside s s' cs'" "file_bytes s' cs' = X" "fat s' = fat s"
  using assms movedD(1) by (auto simp: grown_def)

text \<open>What has been appended is no longer free, and nothing else changes that.\<close>

lemma file_at_chain: "file_at s e cs \<Longrightarrow> is_chain s (first_clus (ent s e)) cs"
  by (simp add: file_at_def)

lemma grown_free:
  assumes "grown s s' e cs cs' X" "file_at s e cs"
  shows "free_clusters s' = free_clusters s - set cs'"
proof (intro set_eqI)
  fix c
  note g = grownD [OF assms(1)]
  show "c \<in> free_clusters s' \<longleftrightarrow> c \<in> free_clusters s - set cs'"
  proof (cases "c \<in> set cs'")
    case True
    then show ?thesis using chain_not_free [OF file_at_chain [OF g(3)]] by simp
  next
    case False
    then show ?thesis using kept_outsideD(2) [OF g(4)] g(6) by (auto simp: free_clusters_def)
  qed
qed

lemma grown_room:
  assumes "grown s s' e cs cs' X" "file_at s e cs" "vol_ok s"
  shows "length cs' + card (free_clusters s') = length cs + card (free_clusters s)"
proof -
  obtain new where new: "cs' = cs @ new" "set new \<subseteq> free_clusters s" using assms(1) by (auto simp: grown_def)
  have "distinct cs'"
    using chain_distinct [OF vol_okD(2) [OF grownD(1)] file_at_chain [OF grownD(3)]] assms(1) by blast
  then have "card (set new) = length new" using new(1) by (simp add: distinct_card)
  moreover have "free_clusters s' = free_clusters s - set new"
    using grown_free [OF assms(1,2)] chain_not_free [OF file_at_chain [OF assms(2)]] new(1) by auto
  ultimately have "card (free_clusters s') = card (free_clusters s) - length new"
    using card_Diff_subset [of "set new" "free_clusters s"] new(2) by simp
  moreover have "length new \<le> card (free_clusters s)"
    using card_mono [OF free_finite [OF vol_okD(2) [OF assms(3)]] new(2)] \<open>card (set new) = length new\<close> by simp
  ultimately show ?thesis using new(1) by simp
qed

lemma grown_trans:
  assumes "grown s s1 e cs cs1 X" "grown s1 s2 e cs1 cs2 Y" "file_at s e cs"
  shows "grown s s2 e cs cs2 Y"
proof -
  note g1 = grownD [OF assms(1)] and g2 = grownD [OF assms(2)]
  obtain n1 n2 where n: "cs1 = cs @ n1" "set n1 \<subseteq> free_clusters s" "cs2 = cs1 @ n2" "set n2 \<subseteq> free_clusters s1"
    using assms(1,2) by (auto simp: grown_def)
  have "set (n1 @ n2) \<subseteq> free_clusters s" using n(2,4) grown_free [OF assms(1,3)] by auto
  moreover have "kept_outside s s2 cs2" using g1(4,6) g2(4) n(3) by (simp add: kept_outside_def)
  ultimately show ?thesis using g2 moved_trans [OF g1(2) g2(2)] n(1,3) by (auto simp: grown_def)
qed

text \<open>Chains of other files keep their clusters and contents.\<close>

lemma grown_others:
  assumes g: "grown s s' e cs cs' X" and ds: "is_chain s d ds" "set ds \<inter> set cs = {}"
  shows "is_chain s' d ds" "file_bytes s' ds = file_bytes s ds"
proof -
  have "x \<notin> set cs'" "is_clus (fat s) x" if "x \<in> set ds" for x
    using that g ds chain_not_free [OF ds(1) that] chain_clus [OF ds(1) that] by (auto simp: grown_def)
  then have "fat_ent s' (unat x) = fat_ent s (unat x) \<and> clus_bytes s' x = clus_bytes s x" if "x \<in> set ds" for x
    using kept_outsideD(2) [OF grownD(4) [OF g]] that by blast
  then show "is_chain s' d ds" "file_bytes s' ds = file_bytes s ds"
    using chain_cong [OF ds(1) grownD(6) [OF g]] by (auto intro!: file_bytes_cong)
qed

text \<open>The entries 0 and 1 of the table belong to no cluster and are in use.\<close>

definition table_ok :: "fs \<Rightarrow> bool" where
  "table_ok s \<longleftrightarrow> fat_ent s 0 \<noteq> 0 \<and> fat_ent s 1 \<noteq> 0"

lemma grown_table:
  assumes "grown s s' e cs cs' X" "table_ok s"
  shows "table_ok s'"
proof -
  have "x \<notin> set cs'" if "unat x < 2" for x
    using that chain_clus [OF file_at_chain [OF grownD(3) [OF assms(1)]]] by (force simp: is_clus_def)
  then have "fat_ent s' (unat (0::u32)) = fat_ent s (unat (0::u32))" "fat_ent s' (unat (1::u32)) = fat_ent s (unat (1::u32))"
    by (intro kept_outsideD(1) [OF grownD(4) [OF assms(1)]]; simp)+
  then show ?thesis using assms(2) by (simp add: table_ok_def)
qed

lemma alloc_clus_free:
  assumes ok: "vol_ok s" and t: "table_ok s" and f: "free_clusters s \<noteq> {}"
  shows "\<exists>c s'. alloc_clus s 0 = Ok (c, s') \<and> c \<in> free_clusters s \<and> (\<forall>d \<in> free_clusters s. c \<le> d)
    \<and> vol_step s s' ((fat_ent s)(unat c := FAT32_FEOC)) ((clus_bytes s)(c := replicate (unat (byts_per_clus (fat s))) 0))"
proof -
  obtain d where d: "is_clus (fat s) d" "fat_ent s (unat d) = 0" using f by (auto simp: free_clusters_def)
  define k where "k = (LEAST k. fat_ent s k = 0)"
  have k: "fat_ent s k = 0" "k \<le> unat d" "\<And>j. j < k \<Longrightarrow> fat_ent s j \<noteq> 0"
    unfolding k_def using d(2) by (auto intro: LeastI Least_le dest: not_less_Least)
  have u: "unat (of_nat k :: u32) = k"
    using k(2) d(1) fat_wfD(7) [OF vol_okD(2) [OF ok]] by (intro unat_u32_small) (simp add: is_clus_def)
  have "k \<noteq> 0" "k \<noteq> 1" using k(1) t unfolding table_ok_def by metis+
  then have c: "is_clus (fat s) (of_nat k)" using k(2) d(1) by (simp add: is_clus_def u)
  have "fat_ent s (unat (of_nat k :: u32)) = 0" "\<forall>j < unat (of_nat k :: u32). fat_ent s j \<noteq> 0" using k(1,3) u by simp_all
  moreover have "\<forall>d \<in> free_clusters s. of_nat k \<le> d"
    using k(3) u by (auto simp: free_clusters_def word_le_nat_alt not_less [symmetric])
  ultimately show ?thesis using alloc_clus_ok [OF ok c] c by (auto simp: free_clusters_def)
qed

lemma chain_index:
  assumes "vol_ok s" "is_chain s c cs" "k \<le> length cs"
  shows "unat (of_nat k :: u32) = k"
  using chain_short [OF vol_okD(2) [OF assms(1)] assms(2)] assms(3) fat_wfD(7) [OF vol_okD(2) [OF assms(1)]]
  by (intro unat_u32_small) simp

lemma vol_step_moved:
  assumes "vol_step s s0 T D"
  shows "moved s (set_ent s0 e ((ent s0 e)\<lparr>cur_clus := c, clus_cnt := k\<rparr>)) e"
proof -
  obtain b where "s0 = s\<lparr>bc := b\<rparr>" using assms by (auto simp: vol_step_def)
  then show ?thesis unfolding moved_def by (intro exI [of _ b] exI [of _ c] exI [of _ k]) simp
qed

lemma placed_ok:
  assumes ok: "vol_ok s" and st: "vol_step s s0 (fat_ent s) (clus_bytes s)" and f: "file_at s e cs" and k: "k < length cs"
  shows "grown s (set_ent s0 e ((ent s0 e)\<lparr>cur_clus := cs ! k, clus_cnt := of_nat k\<rparr>)) e cs cs (file_bytes s cs)"
proof -
  let ?s = "set_ent s0 e ((ent s0 e)\<lparr>cur_clus := cs ! k, clus_cnt := of_nat k\<rparr>)"
  note d = vol_stepD [OF st]
  note ch = file_at_chain [OF f]
  have fe: "fat_ent ?s (unat c) = fat_ent s (unat c)" if "unat c < unat (data_clus_cnt (fat s)) + 2" for c using d(7) [OF that] by simp
  have ch': "is_chain ?s (first_clus (ent s e)) cs"
    using chain_cong [OF ch, of ?s] d(2) fe chain_clus [OF ch] by (auto simp: is_clus_def)
  have fb: "file_bytes ?s cs = file_bytes s cs" using d(8) chain_clus [OF ch] by (intro file_bytes_cong) auto
  have "file_at ?s e cs" using f ch' k d(3) chain_index [OF ok ch, of k] by (simp add: file_at_def)
  moreover have "moved s ?s e" by (rule vol_step_moved [OF st])
  moreover have "kept_outside s ?s cs" using fe d(8) by (auto simp: kept_outside_def)
  ultimately show ?thesis using d(1) fb by (auto simp: grown_def)
qed

lemma appended_ok:
  assumes ok: "vol_ok s" and f: "file_at s e cs" and c: "c \<in> free_clusters s"
    and st: "vol_step s s0 ((fat_ent s)(unat c := FAT32_FEOC, unat (last cs) := c)) ((clus_bytes s)(c := replicate (unat (byts_per_clus (fat s))) 0))"
  shows "grown s (set_ent s0 e ((ent s0 e)\<lparr>cur_clus := c, clus_cnt := of_nat (length cs)\<rparr>)) e cs (cs @ [c])
    (file_bytes s cs @ replicate (unat (byts_per_clus (fat s))) 0)"
proof -
  let ?s = "set_ent s0 e ((ent s0 e)\<lparr>cur_clus := c, clus_cnt := of_nat (length cs)\<rparr>)"
  note d = vol_stepD [OF st]
  note ch = file_at_chain [OF f]
  have ne: "cs \<noteq> []" using f by (simp add: file_at_def)
  have cc: "is_clus (fat s) c" and nin: "c \<notin> set cs" using c chain_not_free [OF ch] by (auto simp: free_clusters_def)
  have dist: "distinct cs" using chain_distinct [OF vol_okD(2) [OF ok] ch] .
  have lc: "is_clus (fat s) x" if "x \<in> set cs" for x using chain_clus [OF ch that] .
  have fe: "fat_ent ?s (unat x) = ((fat_ent s)(unat c := FAT32_FEOC, unat (last cs) := c)) (unat x)"
    if "unat x < unat (data_clus_cnt (fat s)) + 2" for x using d(7) [OF that] by simp
  have fe': "fat_ent ?s (unat x) = (if x = last cs then c else if x = c then FAT32_FEOC else fat_ent s (unat x))"
    if "is_clus (fat s) x" for x using fe [of x] that by (auto simp: is_clus_def word_unat_eq_iff)
  have "butlast cs @ [last cs] = cs" using ne by simp
  moreover have "last cs \<notin> set (butlast cs)" using dist ne by (metis append_butlast_last_id distinct_append disjoint_insert(1) list.set(2))
  moreover have "x \<noteq> c" "is_clus (fat s) x" if "x \<in> set (butlast cs)" for x using that nin lc in_set_butlastD by fast+
  moreover have "eoc (fat_ent ?s (unat c))" using fe' [OF cc] nin ne by (auto simp: eoc_def FAT32_FEOC_def)
  ultimately have "is_chain ?s (first_clus (ent s e)) (butlast cs @ [last cs, c])"
    using ch cc d(2) fe' lc last_in_set [OF ne] by (intro chain_append [of s]) auto
  then have ch': "is_chain ?s (first_clus (ent s e)) (cs @ [c])" using ne by (metis append.assoc append_Cons append_Nil append_butlast_last_id)
  have "length (cs @ [c]) < 2 ^ 32"
    using chain_short [OF _ ch'] vol_okD(2) [OF d(1)] d(2) fat_wfD(7) [OF vol_okD(2) [OF ok]] by simp
  then have fa: "file_at ?s e (cs @ [c])" using f ch' d(3) unat_u32_small [of "length cs"] by (simp add: file_at_def)
  have "fat_ent ?s (unat x) = fat_ent s (unat x)"
    if "unat x < unat (data_clus_cnt (fat s)) + 2" "x \<notin> set (cs @ [c])" for x
  proof -
    have "x \<noteq> last cs" "x \<noteq> c" using that(2) last_in_set [OF ne] by auto
    then have "unat x \<noteq> unat (last cs)" "unat x \<noteq> unat c" by (simp_all add: word_unat_eq_iff)
    then show ?thesis using fe [OF that(1)] by simp
  qed
  then have "kept_outside s ?s (cs @ [c])" using d(8) by (auto simp: kept_outside_def)
  moreover have "file_bytes ?s (cs @ [c]) = file_bytes s cs @ replicate (unat (byts_per_clus (fat s))) 0"
  proof -
    have "file_bytes ?s cs = file_bytes s cs" using d(8) lc nin by (intro file_bytes_cong) auto
    then show ?thesis using d(8) [OF cc] by (simp add: file_bytes_def)
  qed
  ultimately show ?thesis using d(1) c fa vol_step_moved [OF st] by (auto simp: grown_def)
qed

lemma file_atD:
  assumes "file_at s e cs"
  shows "e < length (ents s)" "ddev (ent s e) = 0" "cs \<noteq> []" "is_chain s (first_clus (ent s e)) cs"
    "unat (clus_cnt (ent s e)) < length cs" "cur_clus (ent s e) = cs ! unat (clus_cnt (ent s e))" "is_clus (fat s) (cur_clus (ent s e))"
  using assms chain_clus [of s _ cs "cur_clus (ent s e)"] by (auto simp: file_at_def)

lemma chain_next_nth:
  assumes "is_chain s c cs" "Suc i < length cs"
  shows "fat_ent s (unat (cs ! i)) = cs ! Suc i"
  using chain_next [OF assms(1), of i] assms(2) by (simp add: Cons_nth_drop_Suc [symmetric])

lemma chain_next_last: "is_chain s c cs \<Longrightarrow> cs \<noteq> [] \<Longrightarrow> eoc (fat_ent s (unat (last cs)))"
  using chain_next [of s c cs "length cs - 1"] by (simp add: last_conv_nth)

lemma read_cur:
  assumes "vol_ok s" "file_at s e cs"
  shows "\<exists>s'. read_fat s (cur_clus (ent s e)) = Ok (fat_ent s (unat (cur_clus (ent s e))), s') \<and> vol_step s s' (fat_ent s) (clus_bytes s)"
  using read_fat_step [OF assms(1)] file_atD(7) [OF assms(2)] by (simp add: is_clus_def)

lemma fwd_next:
  assumes ok: "vol_ok s" and f: "file_at s e cs" and k: "Suc (unat (clus_cnt (ent s e))) < length cs"
  shows "\<exists>s1. reloc_fwd s e alloc (Suc n) = reloc_fwd s1 e alloc n \<and> reloc_back s e (Suc n) = reloc_back s1 e n
    \<and> grown s s1 e cs cs (file_bytes s cs) \<and> unat (clus_cnt (ent s1 e)) = Suc (unat (clus_cnt (ent s e)))"
proof -
  let ?k = "unat (clus_cnt (ent s e))"
  note d = file_atD [OF f]
  obtain s0 where s0: "read_fat s (cur_clus (ent s e)) = Ok (cs ! Suc ?k, s0)" "vol_step s s0 (fat_ent s) (clus_bytes s)"
    using read_cur [OF ok f] chain_next_nth [OF d(4) k] d(6) by auto
  let ?s1 = "set_ent s0 e ((ent s0 e)\<lparr>cur_clus := cs ! Suc ?k, clus_cnt := of_nat (Suc ?k)\<rparr>)"
  have e0: "ents s0 = ents s" using vol_stepD(3) [OF s0(2)] .
  have c: "is_clus (fat s) (cs ! Suc ?k)" using chain_clus [OF d(4)] k by simp
  note eo = clus_EOC [OF vol_okD(2) [OF ok] c]
  have "grown s ?s1 e cs cs (file_bytes s cs)" using placed_ok [OF ok s0(2) f k] by simp
  moreover have "unat (clus_cnt (ent ?s1 e)) = Suc ?k" using chain_index [OF ok d(4)] k d(1) e0 by (simp del: of_nat_Suc)
  moreover have "reloc_fwd s e alloc (Suc n) = reloc_fwd ?s1 e alloc n" "reloc_back s e (Suc n) = reloc_back ?s1 e n"
    using s0(1) eo(2) eo(1) [unfolded not_le [symmetric]] e0 by (auto simp: add.commute)
  ultimately show ?thesis by blast
qed

lemma fwd_append:
  assumes ok: "vol_ok s" and f: "file_at s e cs" and k: "Suc (unat (clus_cnt (ent s e))) = length cs"
    and t: "table_ok s" and fr: "free_clusters s \<noteq> {}"
  shows "\<exists>s1 c. reloc_fwd s e True (Suc n) = reloc_fwd s1 e True n
    \<and> grown s s1 e cs (cs @ [c]) (file_bytes s cs @ replicate (unat (byts_per_clus (fat s))) 0)
    \<and> unat (clus_cnt (ent s1 e)) = Suc (unat (clus_cnt (ent s e)))"
proof -
  let ?k = "unat (clus_cnt (ent s e))"
  note d = file_atD [OF f]
  have cur: "cur_clus (ent s e) = last cs" using d(3,6) k [symmetric] by (simp add: last_conv_nth)
  obtain s0 where s0: "read_fat s (cur_clus (ent s e)) = Ok (fat_ent s (unat (last cs)), s0)" "vol_step s s0 (fat_ent s) (clus_bytes s)"
    using read_cur [OF ok f] cur by auto
  note v0 = vol_stepD [OF s0(2)]
  have t0: "table_ok s0" and f0: "free_clusters s0 = free_clusters s"
    using t v0(2,7) by (auto simp: table_ok_def free_clusters_def is_clus_def)
  obtain c s2 where s2: "alloc_clus s0 0 = Ok (c, s2)" "c \<in> free_clusters s"
    "vol_step s0 s2 ((fat_ent s0)(unat c := FAT32_FEOC)) ((clus_bytes s0)(c := replicate (unat (byts_per_clus (fat s0))) 0))"
    using alloc_clus_free [OF v0(1) t0] f0 fr by auto
  note v2 = vol_stepD [OF s2(3)]
  have lc: "unat (last cs) < unat (data_clus_cnt (fat s2)) + 2" using d(7) cur v0(2) v2(2) by (simp add: is_clus_def)
  obtain s3 where s3: "write_fat s2 (last cs) c = Ok (0, s3)" "vol_step s2 s3 ((fat_ent s2)(unat (last cs) := c)) (clus_bytes s2)"
    using write_fat_step [OF v2(1) lc] by blast
  have cc: "is_clus (fat s) c" using s2(2) by (simp add: free_clusters_def)
  have st: "vol_step s s3 ((fat_ent s)(unat c := FAT32_FEOC, unat (last cs) := c)) ((clus_bytes s)(c := replicate (unat (byts_per_clus (fat s))) 0))"
    by (rule vol_step_cong [OF vol_step_trans [OF vol_step_trans [OF s0(2) s2(3)] s3(2)]])
      (use v0(2,7,8) v2(7,8) in auto)
  let ?s1 = "set_ent s3 e ((ent s3 e)\<lparr>cur_clus := c, clus_cnt := of_nat (length cs)\<rparr>)"
  have e3: "ents s3 = ents s" "ents s2 = ents s" "ents s0 = ents s" using vol_stepD(3) [OF st] v0(3) v2(3) by simp_all
  have g: "grown s ?s1 e cs (cs @ [c]) (file_bytes s cs @ replicate (unat (byts_per_clus (fat s))) 0)"
    using appended_ok [OF ok f s2(2) st] .
  have "unat (of_nat (length cs) :: u32) = length cs" using chain_index [OF ok d(4)] by simp
  moreover have "reloc_fwd s e True (Suc n) = reloc_fwd ?s1 e True n"
    using s0(1) eoc_EOC(2) [OF chain_next_last [OF d(4,3)]] s2(1) s3(1) d(2) e3 cur by (simp add: k [symmetric] add.commute)
  ultimately show ?thesis using g d(1) e3 k by (intro exI [of _ ?s1] exI [of _ c]) simp
qed

lemma reloc_fwd_ok:
  assumes "vol_ok s" and "file_at s e cs" and "alloc \<longrightarrow> table_ok s"
    and "unat (clus_cnt (ent s e)) + n < length cs + (if alloc then card (free_clusters s) else 0)"
  shows "\<exists>s' cs' z. reloc_fwd s e alloc n = Ok (True, s') \<and> grown s s' e cs cs' (file_bytes s cs @ replicate z 0)
    \<and> unat (clus_cnt (ent s' e)) = unat (clus_cnt (ent s e)) + n \<and> length cs' = max (length cs) (unat (clus_cnt (ent s e)) + n + 1)"
  using assms
proof (induction n arbitrary: s cs)
  case 0
  note d = file_atD [OF 0(2)]
  have "vol_step s s (fat_ent s) (clus_bytes s)" using sectors_to_same [OF 0(1) sectors_to_refl [OF 0(1)]] .
  then have "grown s s e cs cs (file_bytes s cs)"
    using placed_ok [OF 0(1) _ 0(2) d(5), of s] by (simp add: d(6) [symmetric])
  then show ?case using d(5) by (intro exI [of _ s] exI [of _ cs] exI [of _ 0]) simp
next
  case (Suc n)
  let ?k = "unat (clus_cnt (ent s e))"
  have "\<exists>s1 cs1 z. reloc_fwd s e alloc (Suc n) = reloc_fwd s1 e alloc n \<and> grown s s1 e cs cs1 (file_bytes s cs @ replicate z 0)
    \<and> unat (clus_cnt (ent s1 e)) = Suc ?k \<and> length cs1 = max (length cs) (?k + 2)"
  proof (cases "Suc ?k < length cs")
    case True
    obtain s1 where "reloc_fwd s e alloc (Suc n) = reloc_fwd s1 e alloc n" "grown s s1 e cs cs (file_bytes s cs)"
      "unat (clus_cnt (ent s1 e)) = Suc ?k" using fwd_next [OF Suc.prems(1,2) True, of alloc n] by blast
    then show ?thesis using True by (intro exI [of _ s1] exI [of _ cs] exI [of _ 0]) (simp del: reloc_fwd.simps)
  next
    case False
    then have k: "Suc ?k = length cs" using file_atD(5) [OF Suc.prems(2)] by simp
    then have a: "alloc" "free_clusters s \<noteq> {}" using Suc.prems(4) by (auto split: if_splits)
    have t: "table_ok s" using a(1) Suc.prems(3) by simp
    obtain s1 c where "reloc_fwd s e alloc (Suc n) = reloc_fwd s1 e alloc n" "unat (clus_cnt (ent s1 e)) = Suc ?k"
      "grown s s1 e cs (cs @ [c]) (file_bytes s cs @ replicate (unat (byts_per_clus (fat s))) 0)"
      using fwd_append [OF Suc.prems(1,2) k t a(2), of n] a(1) by auto
    then show ?thesis using k
      by (intro exI [of _ s1] exI [of _ "cs @ [c]"] exI [of _ "unat (byts_per_clus (fat s))"]) (simp del: reloc_fwd.simps)
  qed
  then obtain s1 cs1 z where s1: "reloc_fwd s e alloc (Suc n) = reloc_fwd s1 e alloc n"
    "grown s s1 e cs cs1 (file_bytes s cs @ replicate z 0)" "unat (clus_cnt (ent s1 e)) = Suc ?k" "length cs1 = max (length cs) (?k + 2)" by blast
  note g = grownD [OF s1(2)]
  have room: "unat (clus_cnt (ent s1 e)) + n < length cs1 + (if alloc then card (free_clusters s1) else 0)"
    using grown_room [OF s1(2) Suc.prems(2,1)] Suc.prems(4) s1(3,4) by (auto split: if_splits)
  obtain s' cs' z' where s': "reloc_fwd s1 e alloc n = Ok (True, s')" "grown s1 s' e cs1 cs' (file_bytes s1 cs1 @ replicate z' 0)"
    "unat (clus_cnt (ent s' e)) = Suc ?k + n" "length cs' = max (length cs1) (Suc ?k + n + 1)"
    using Suc.IH [OF g(1,3) _ room] grown_table [OF s1(2)] Suc.prems(3) s1(3) by auto
  have "grown s s' e cs cs' (file_bytes s cs @ replicate (z + z') 0)"
    using grown_trans [OF s1(2) s'(2) Suc.prems(2)] g(5) by (simp add: replicate_add)
  then show ?case using s1(1,4) s'(1,3,4) by (intro exI [of _ s'] exI [of _ cs'] exI [of _ "z + z'"]) (simp del: reloc_fwd.simps)
qed

lemma reloc_back_ok:
  assumes "vol_ok s" and "file_at s e cs" and "unat (clus_cnt (ent s e)) + n < length cs"
  shows "\<exists>s'. reloc_back s e n = Ok s' \<and> grown s s' e cs cs (file_bytes s cs) \<and> unat (clus_cnt (ent s' e)) = unat (clus_cnt (ent s e)) + n"
  using assms
proof (induction n arbitrary: s)
  case 0
  then show ?case using reloc_fwd_ok [OF 0(1,2), of False 0] by (auto simp: grown_def)
next
  case (Suc n)
  then have k: "Suc (unat (clus_cnt (ent s e))) < length cs" by simp
  obtain s1 where s1: "reloc_back s e (Suc n) = reloc_back s1 e n" "grown s s1 e cs cs (file_bytes s cs)"
    "unat (clus_cnt (ent s1 e)) = Suc (unat (clus_cnt (ent s e)))" using fwd_next [OF Suc.prems(1,2) k] by blast
  note g = grownD [OF s1(2)]
  obtain s' where "reloc_back s1 e n = Ok s'" "grown s1 s' e cs cs (file_bytes s1 cs)"
    "unat (clus_cnt (ent s' e)) = Suc (unat (clus_cnt (ent s e))) + n"
    using Suc.IH [OF g(1,3)] s1(3) Suc.prems(3) by auto
  then show ?case using s1(1) grown_trans [OF s1(2) _ Suc.prems(2)] g(5) by (auto simp del: reloc_back.simps)
qed

lemma file_start_ok:
  assumes "vol_ok s" "file_at s e cs"
  shows "grown s (set_ent s e ((ent s e)\<lparr>cur_clus := first_clus (ent s e), clus_cnt := 0\<rparr>)) e cs cs (file_bytes s cs)"
proof -
  note d = file_atD [OF assms(2)]
  have "first_clus (ent s e) = cs ! 0" using d(3,4) by (cases cs) auto
  then show ?thesis
    using placed_ok [OF assms(1) sectors_to_same [OF assms(1) sectors_to_refl [OF assms(1)]] assms(2), of 0] d(3) by simp
qed

text \<open>\<^verbatim>\<open>reloc_clus\<close> puts the entry on the cluster of the offset, and appends clusters when it may.\<close>

lemma reloc_clus_ok:
  assumes ok: "vol_ok s" and f: "file_at s e cs" and t: "alloc \<longrightarrow> table_ok s"
    and k: "unat off div unat (byts_per_clus (fat s)) < length cs + (if alloc then card (free_clusters s) else 0)"
  shows "\<exists>r s' cs' z. reloc_clus s e off alloc = Ok (r, s') \<and> grown s s' e cs cs' (file_bytes s cs @ replicate z 0)
    \<and> unat (clus_cnt (ent s' e)) = unat off div unat (byts_per_clus (fat s))
    \<and> length cs' = max (length cs) (unat off div unat (byts_per_clus (fat s)) + 1)"
proof -
  define q where "q = unat off div unat (byts_per_clus (fat s))"
  have q: "unat (off div byts_per_clus (fat s)) = q" by (simp add: q_def unat_div_distrib)
  let ?c = "unat (clus_cnt (ent s e))"
  have n: "?c + (q - ?c) < length cs + (if alloc then card (free_clusters s) else 0)"
    using k file_atD(5) [OF f] unfolding q_def [symmetric] by simp
  obtain s1 cs1 z where s1: "reloc_fwd s e alloc (q - ?c) = Ok (True, s1)" "grown s s1 e cs cs1 (file_bytes s cs @ replicate z 0)"
    "unat (clus_cnt (ent s1 e)) = ?c + (q - ?c)" "length cs1 = max (length cs) (?c + (q - ?c) + 1)"
    using reloc_fwd_ok [OF ok f t n] by blast
  note g = grownD [OF s1(2)]
  show ?thesis
  proof (cases "q < ?c")
    case True
    let ?s2 = "set_ent s1 e ((ent s1 e)\<lparr>cur_clus := first_clus (ent s1 e), clus_cnt := 0\<rparr>)"
    have g2: "grown s1 ?s2 e cs1 cs1 (file_bytes s1 cs1)" using file_start_ok [OF g(1,3)] .
    have c0: "unat (clus_cnt (ent ?s2 e)) = 0" using file_atD(1) [OF g(3)] by simp
    have "unat (clus_cnt (ent ?s2 e)) + q < length cs1" using c0 s1(4) True by simp
    then obtain s3 where s3: "reloc_back ?s2 e q = Ok s3" "grown ?s2 s3 e cs1 cs1 (file_bytes ?s2 cs1)" "unat (clus_cnt (ent s3 e)) = q"
      using reloc_back_ok [OF grownD(1,3) [OF g2], of q] c0 by auto
    have "grown s s3 e cs cs1 (file_bytes s cs @ replicate z 0)"
      using grown_trans [OF s1(2) grown_trans [OF g2 s3(2) g(3)] f] grownD(5) [OF g2] g(5) by simp
    moreover have "off div byts_per_clus (fat s) < clus_cnt (ent s1 e)" using True s1(3) q by (simp add: word_less_nat_alt)
    moreover have "length cs1 = max (length cs) (q + 1)" using s1(4) True file_atD(5) [OF f] by simp
    ultimately show ?thesis using s1(1) s3 q unfolding q_def [symmetric] by (auto simp: reloc_clus_def Let_def)
  next
    case False
    then have "unat (clus_cnt (ent s1 e)) = q" using s1(3) by simp
    moreover have "\<not> off div byts_per_clus (fat s) < clus_cnt (ent s1 e)" using calculation q by (simp add: word_less_nat_alt)
    moreover have "length cs1 = max (length cs) (q + 1)" using s1(4) False by simp
    ultimately show ?thesis using s1(1,2) q unfolding q_def [symmetric] by (auto simp: reloc_clus_def Let_def)
  qed
qed

end
