(* ===== verification/Fat_Content.thy ===== *)
theory Fat_Content
  imports Fat_File
begin

text \<open>
  What the operations on files do to their contents. The bytes of a file are the bytes of the
  clusters of its chain, cut to its size; \<^verbatim>\<open>eread\<close> returns a part of them, \<^verbatim>\<open>ewrite\<close> replaces a part
  and appends clusters when needed, \<^verbatim>\<open>etrunc\<close> gives the clusters back, and none of them touches
  another file.
\<close>

section \<open>Contents of a chain\<close>

lemma concat_slice:
  assumes "\<And>c. c \<in> set cs \<Longrightarrow> length (D c) = B" and "k < length cs" and "i + m \<le> B"
  shows "take m (drop (k * B + i) (concat (map D cs))) = take m (drop i (D (cs ! k)))"
  using assms
proof (induction cs arbitrary: k)
  case (Cons c cs)
  then show ?case by (cases k) simp_all
qed simp

lemma concat_patch:
  assumes "\<And>c. c \<in> set cs \<Longrightarrow> length (D c) = B" and "distinct cs" and "k < length cs" and "i + length src \<le> B"
  shows "concat (map (D(cs ! k := patch (D (cs ! k)) i src)) cs) = patch (concat (map D cs)) (k * B + i) src"
  using assms
proof (induction cs arbitrary: k)
  case (Cons c cs)
  show ?case
  proof (cases k)
    case 0
    have "map (D(c := patch (D c) i src)) cs = map D cs" using Cons.prems(2) by (intro map_cong) auto
    then have "concat (map (D((c # cs) ! 0 := patch (D ((c # cs) ! 0)) i src)) (c # cs)) = patch (D c) i src @ concat (map D cs)"
      unfolding list.map concat.simps nth_Cons_0 fun_upd_same by (rule arg_cong)
    also have "\<dots> = patch (concat (map D (c # cs))) i src" using Cons.prems(1) [of c] Cons.prems(4) by (simp add: patch_def)
    finally show ?thesis unfolding 0 mult_0 add_0 .
  next
    case (Suc j)
    then have "cs ! j \<noteq> c" using Cons.prems(2,3) by auto
    then show ?thesis using Suc Cons.IH [of j] Cons.prems by (simp add: patch_def add.assoc)
  qed
qed simp

lemma length_file_bytes:
  assumes "vol_ok s"
  shows "length (file_bytes s cs) = length cs * unat (byts_per_clus (fat s))"
  using length_clus_bytes [OF assms] by (induction cs) (simp_all add: file_bytes_def)

text \<open>A write to the clusters of the chain.\<close>

lemma data_grown:
  assumes ok: "vol_ok s" and f: "file_at s e cs" and st: "vol_step s s' (fat_ent s) D"
    and D: "\<And>c. is_clus (fat s) c \<Longrightarrow> c \<notin> set cs \<Longrightarrow> D c = clus_bytes s c"
  shows "grown s s' e cs cs (concat (map D cs))" "ents s' = ents s"
proof -
  note v = vol_stepD [OF st]
  note d = file_atD [OF f]
  show e: "ents s' = ents s" by (rule v(3))
  have c: "is_clus (fat s) x" if "x \<in> set cs" for x using chain_clus [OF d(4) that] .
  have ch: "is_chain s' (first_clus (ent s e)) cs"
    using chain_cong [OF d(4) v(2)] v(7) c by (auto simp: is_clus_def)
  have "moved s s' e" using vol_step_moved [OF st, of e "clus_cnt (ent s e)" "cur_clus (ent s e)"] by (simp add: e [symmetric])
  moreover have "file_at s' e cs" using f ch e by (simp add: file_at_def)
  moreover have "kept_outside s s' cs" using v(7,8) D by (auto simp: kept_outside_def)
  moreover have "file_bytes s' cs = concat (map D cs)"
    unfolding file_bytes_def using v(8) c by (intro arg_cong [of _ _ concat] map_cong) auto
  ultimately show "grown s s' e cs cs (concat (map D cs))" using v(1) by (auto simp: grown_def)
qed

text \<open>One round of the two loops, after \<^verbatim>\<open>reloc_clus\<close>.\<close>

lemma chunk_clus:
  assumes ok: "vol_ok s" and m: "m = clus_chunk (fat s) off r"
  shows "unat (off mod byts_per_clus (fat s)) = unat off mod unat (byts_per_clus (fat s))"
    "unat (off mod byts_per_clus (fat s)) + m \<le> unat (byts_per_clus (fat s))" "m \<le> r" "unat (of_nat m :: u32) = m" "0 < r \<Longrightarrow> 0 < m"
proof -
  let ?B = "byts_per_clus (fat s)"
  have B: "0 < unat ?B" using fat_wfD(2,3) [OF vol_okD(2) [OF ok]] by simp
  show u: "unat (off mod ?B) = unat off mod unat ?B" by (rule unat_mod_distrib)
  have lt: "unat (off mod ?B) < unat ?B" using B by (simp add: u)
  then have "unat (?B - off mod ?B) = unat ?B - unat (off mod ?B)" by (intro unat_sub) (simp add: word_le_nat_alt)
  then have mm: "m = min (unat ?B - unat (off mod ?B)) r" using m by (simp add: clus_chunk_def)
  then show "unat (off mod ?B) + m \<le> unat ?B" "m \<le> r" "0 < r \<Longrightarrow> 0 < m" using lt by auto
  have "m \<le> unat ?B" using mm lt by simp
  moreover have "unat ?B < 2 ^ 32" using unat_u32 [of ?B] by simp
  ultimately show "unat (of_nat m :: u32) = m" by (intro unat_u32_small) simp
qed

lemma rw_cur_read:
  assumes ok: "vol_ok s" and f: "file_at s e cs" and q: "unat (clus_cnt (ent s e)) = unat off div unat (byts_per_clus (fat s))"
    and m: "m = clus_chunk (fat s) off r" and bs: "pos + m \<le> length bs"
  shows "\<exists>s'. rw_clus s (cur_clus (ent s e)) False (Kern bs) pos (off mod byts_per_clus (fat s)) (of_nat m)
      = Ok (m, s', Kern (patch bs pos (take m (drop (unat off) (file_bytes s cs)))))
    \<and> grown s s' e cs cs (file_bytes s cs)"
proof -
  let ?B = "unat (byts_per_clus (fat s))"
  note d = file_atD [OF f] and c = chunk_clus [OF ok m]
  have "(unat off div ?B) * ?B + unat off mod ?B = unat off" by simp
  then have sl: "take m (drop (unat off) (file_bytes s cs)) = take m (drop (unat off mod ?B) (clus_bytes s (cur_clus (ent s e))))"
    using concat_slice [of cs "clus_bytes s" ?B "unat off div ?B" "unat off mod ?B" m] length_clus_bytes [OF ok] d(5,6) q c(1,2)
    by (simp add: file_bytes_def)
  have n: "unat (off mod byts_per_clus (fat s)) + unat (of_nat m :: u32) \<le> ?B" using c(2,4) by simp
  obtain s' where s': "rw_clus s (cur_clus (ent s e)) False (Kern bs) pos (off mod byts_per_clus (fat s)) (of_nat m)
      = Ok (m, s', Kern (patch bs pos (take m (drop (unat off mod ?B) (clus_bytes s (cur_clus (ent s e)))))))"
    "vol_step s s' (fat_ent s) (clus_bytes s)"
    using rw_clus_read_step [OF ok n, of pos bs "cur_clus (ent s e)"] bs c(1,4) by auto
  then show ?thesis using data_grown(1) [OF ok f s'(2)] sl by (auto simp: file_bytes_def)
qed

lemma rw_cur_write:
  assumes ok: "vol_ok s" and f: "file_at s e cs" and q: "unat (clus_cnt (ent s e)) = unat off div unat (byts_per_clus (fat s))"
    and m: "m = clus_chunk (fat s) off r" and bs: "pos + m \<le> length bs"
  shows "\<exists>s'. rw_clus s (cur_clus (ent s e)) True (Kern bs) pos (off mod byts_per_clus (fat s)) (of_nat m) = Ok (m, s', Kern bs)
    \<and> grown s s' e cs cs (patch (file_bytes s cs) (unat off) (take m (drop pos bs)))"
proof -
  let ?B = "unat (byts_per_clus (fat s))" and ?src = "take m (drop pos bs)" and ?c = "cur_clus (ent s e)"
  note d = file_atD [OF f] and c = chunk_clus [OF ok m]
  have "(unat off div ?B) * ?B + unat off mod ?B = unat off" by simp
  then have pt: "concat (map ((clus_bytes s)(?c := patch (clus_bytes s ?c) (unat off mod ?B) ?src)) cs) = patch (file_bytes s cs) (unat off) ?src"
    using concat_patch [of cs "clus_bytes s" ?B "unat off div ?B" "unat off mod ?B" ?src] length_clus_bytes [OF ok] d(5,6) q c(1,2) bs
      chain_distinct [OF vol_okD(2) [OF ok] d(4)] by (simp add: file_bytes_def)
  have n: "unat (off mod byts_per_clus (fat s)) + unat (of_nat m :: u32) \<le> ?B" using c(2,4) by simp
  obtain s' where s': "rw_clus s ?c True (Kern bs) pos (off mod byts_per_clus (fat s)) (of_nat m) = Ok (m, s', Kern bs)"
    "vol_step s s' (fat_ent s) ((clus_bytes s)(?c := patch (clus_bytes s ?c) (unat off mod ?B) ?src))"
    using rw_clus_write_step [OF ok d(7) n, of pos bs] bs c(1,4) by auto
  have "?c \<in> set cs" using d(5,6) by simp
  then have "grown s s' e cs cs (concat (map ((clus_bytes s)(?c := patch (clus_bytes s ?c) (unat off mod ?B) ?src)) cs))"
    by (intro data_grown(1) [OF ok f s'(2)]) auto
  then show ?thesis using s'(1) unfolding pt by blast
qed

section \<open>Reading and writing\<close>

lemma eread_loop_ok:
  assumes "vol_ok s" and "file_at s e cs" and "tot \<le> n" and "n \<le> length bs" and "unat off + (n - tot) < 2 ^ 32"
    and "unat off + (n - tot) \<le> length cs * unat (byts_per_clus (fat s))"
  shows "\<exists>s'. eread_loop s e (Kern bs) off n tot = Ok (n, s', Kern (patch bs tot (take (n - tot) (drop (unat off) (file_bytes s cs)))))
    \<and> grown s s' e cs cs (file_bytes s cs)"
  using assms
proof (induction "n - tot" arbitrary: s bs off tot rule: less_induct)
  case less
  note ok = less.prems(1) and f = less.prems(2)
  have B: "0 < unat (byts_per_clus (fat s))" using fat_wfD(2,3) [OF vol_okD(2) [OF ok]] by simp
  show ?case
  proof (cases "tot < n")
    case False
    then show ?thesis using less.prems(3) data_grown(1) [OF ok f sectors_to_same [OF ok sectors_to_refl [OF ok]]]
      by (auto simp: eread_loop.simps file_bytes_def)
  next
    case True
    let ?B = "unat (byts_per_clus (fat s))" and ?X = "file_bytes s cs"
    have q: "unat off div ?B < length cs"
      using less.prems(6) True B by (simp add: div_less_iff_less_mult)
    obtain r s1 cs1 z where s1: "reloc_clus s e off False = Ok (r, s1)" "grown s s1 e cs cs1 (?X @ replicate z 0)"
      "unat (clus_cnt (ent s1 e)) = unat off div ?B" "length cs1 = length cs"
      using reloc_clus_ok [OF ok f, of False off] q by auto
    have cs1: "cs1 = cs" using s1(2,4) by (auto simp: grown_def)
    note g1 = grownD [OF s1(2) [unfolded cs1]]
    have z: "z = 0" using length_file_bytes [OF g1(1), of cs] length_file_bytes [OF ok, of cs] g1(5,6) by simp
    define m where "m = clus_chunk (fat s1) off (n - tot)"
    note c = chunk_clus [OF g1(1) m_def]
    have tm: "tot + m \<le> length bs" using c(3) less.prems(4) True by linarith
    obtain s2 where s2: "rw_clus s1 (cur_clus (ent s1 e)) False (Kern bs) tot (off mod byts_per_clus (fat s1)) (of_nat m)
        = Ok (m, s2, Kern (patch bs tot (take m (drop (unat off) ?X))))" "grown s1 s2 e cs cs ?X"
      using rw_cur_read [OF g1(1,3) _ m_def, of tot bs] s1(3) g1(5,6) z tm by auto
    note g2 = grownD [OF s2(2)]
    have g: "grown s s2 e cs cs ?X" using grown_trans [OF s1(2) [unfolded cs1] s2(2) f] .
    have u: "unat (off + of_nat m) = unat off + m" using less.prems(5) c(3) by (intro unat_add_small) simp
    have lX: "length ?X = length cs * ?B" using length_file_bytes [OF ok] .
    have ltake: "length (take m (drop (unat off) ?X)) = m" using less.prems(6) c(3) lX by simp
    have lp: "length (patch bs tot (take m (drop (unat off) ?X))) = length bs"
      using ltake c(3) True less.prems(4) by (intro length_patch) simp
    have mp: "0 < m" "m \<le> n - tot" using c(3,5) True by simp_all
    then have "n - (tot + m) < n - tot" "tot + m \<le> n" using True by simp_all
    then obtain s3 where s3: "eread_loop s2 e (Kern (patch bs tot (take m (drop (unat off) ?X)))) (off + of_nat m) n (tot + m)
        = Ok (n, s3, Kern (patch (patch bs tot (take m (drop (unat off) ?X))) (tot + m) (take (n - (tot + m)) (drop (unat off + m) ?X))))"
      "grown s2 s3 e cs cs ?X"
      using less.hyps [of "tot + m" s2 "patch bs tot (take m (drop (unat off) ?X))" "off + of_nat m", OF _ g2(1,3)] u lp g2(5,6) g1(6)
        less.prems(4-6) by auto
    have "patch (patch bs tot (take m (drop (unat off) ?X))) (tot + m) (take (n - (tot + m)) (drop (unat off + m) ?X))
      = patch bs tot (take m (drop (unat off) ?X) @ take (n - (tot + m)) (drop (unat off + m) ?X))"
      using patch_append [of tot "take m (drop (unat off) ?X)" "take (n - (tot + m)) (drop (unat off + m) ?X)" bs] ltake mp less.prems(4,6) lX
      by simp
    moreover have "take m (drop (unat off) ?X) @ take (n - (tot + m)) (drop (unat off + m) ?X) = take (n - tot) (drop (unat off) ?X)"
      using take_add [of m "n - (tot + m)" "drop (unat off) ?X"] mp by (simp add: add.commute)
    moreover have "cur_clus (ent s e) < FAT32_EOC" using clus_EOC(1) [OF vol_okD(2) [OF ok] file_atD(7) [OF f]] .
    moreover have "eread_loop s e (Kern bs) off n tot
        = eread_loop s2 e (Kern (patch bs tot (take m (drop (unat off) ?X)))) (off + of_nat m) n (tot + m)"
      using True calculation(3) s1(1) s2(1) mp by (subst eread_loop.simps) (simp add: Let_def m_def [symmetric])
    ultimately show ?thesis using s3(1) grown_trans [OF g s3(2) f] by auto
  qed
qed

lemma patch_extend: "pos + length src \<le> length xs \<Longrightarrow> patch (xs @ ys) pos src = patch xs pos src @ ys"
  by (simp add: patch_def)

lemma round_in_chain:
  fixes a B :: nat
  assumes "a div B < l" "a mod B + m \<le> B"
  shows "a + m \<le> l * B"
proof -
  have "a + m \<le> Suc (a div B) * B" using assms(2) div_mult_mod_eq [of a B] unfolding mult_Suc by linarith
  also have "\<dots> \<le> l * B" using assms(1) by (intro mult_le_mono1) simp
  finally show ?thesis .
qed

lemma grown_length:
  assumes "grown s s' e cs cs' (X @ replicate z 0)" "length X = length cs * unat (byts_per_clus (fat s))"
  shows "length X + z = length cs' * unat (byts_per_clus (fat s))"
  using length_file_bytes [OF grownD(1) [OF assms(1)], of cs'] grownD(5,6) [OF assms(1)] assms(2) by simp

lemma ewrite_loop_ok:
  assumes "vol_ok s" and "table_ok s" and "file_at s e cs" and "tot \<le> n" and "n \<le> length bs" and "unat off + (n - tot) < 2 ^ 32"
    and "unat off + (n - tot) \<le> (length cs + card (free_clusters s)) * unat (byts_per_clus (fat s))"
    and "unat off \<le> length cs * unat (byts_per_clus (fat s))"
  shows "\<exists>s' cs' z. ewrite_loop s e (Kern bs) off n tot = Ok (n, off + of_nat (n - tot), s')
    \<and> grown s s' e cs cs' (patch (file_bytes s cs @ replicate z 0) (unat off) (take (n - tot) (drop tot bs)))
    \<and> unat off + (n - tot) \<le> length cs' * unat (byts_per_clus (fat s))
    \<and> length (file_bytes s cs) + z = length cs' * unat (byts_per_clus (fat s))"
  using assms
proof (induction "n - tot" arbitrary: s cs off tot rule: less_induct)
  case less
  note ok = less.prems(1) and f = less.prems(3)
  let ?B = "unat (byts_per_clus (fat s))" and ?X = "file_bytes s cs"
  have B: "0 < ?B" using fat_wfD(2,3) [OF vol_okD(2) [OF ok]] by simp
  have lX: "length ?X = length cs * ?B" using length_file_bytes [OF ok] .
  show ?case
  proof (cases "tot < n")
    case False
    moreover have "grown s s e cs cs ?X"
      using data_grown(1) [OF ok f sectors_to_same [OF ok sectors_to_refl [OF ok]]] by (simp add: file_bytes_def)
    ultimately show ?thesis using less.prems(4,8) lX
      by (intro exI [of _ s] exI [of _ cs] exI [of _ 0]) (simp add: ewrite_loop.simps)
  next
    case True
    have q: "unat off div ?B < length cs + card (free_clusters s)"
      using less.prems(7) True B by (simp add: div_less_iff_less_mult)
    obtain r s1 cs1 z where s1: "reloc_clus s e off True = Ok (r, s1)" "grown s s1 e cs cs1 (?X @ replicate z 0)"
      "unat (clus_cnt (ent s1 e)) = unat off div ?B"
      using reloc_clus_ok [OF ok f, of True off] q less.prems(2) by auto
    note g1 = grownD [OF s1(2)]
    define m where "m = clus_chunk (fat s1) off (n - tot)"
    note c = chunk_clus [OF g1(1) m_def]
    let ?A = "take m (drop tot bs)"
    have tm: "tot + m \<le> n" "0 < m" using c(3,5) True by simp_all
    have lA: "length ?A = m" using tm less.prems(5) by simp
    obtain s2 where s2: "rw_clus s1 (cur_clus (ent s1 e)) True (Kern bs) tot (off mod byts_per_clus (fat s1)) (of_nat m) = Ok (m, s2, Kern bs)"
        "grown s1 s2 e cs1 cs1 (patch (?X @ replicate z 0) (unat off) ?A)"
      using rw_cur_write [OF g1(1,3) _ m_def, of tot bs] s1(3) g1(5,6) tm less.prems(5) by auto
    note g2 = grownD [OF s2(2)]
    have g: "grown s s2 e cs cs1 (patch (?X @ replicate z 0) (unat off) ?A)" using grown_trans [OF s1(2) s2(2) f] .
    have f2: "fat s2 = fat s" using g1(6) g2(6) by simp
    have lz: "length ?X + z = length cs1 * ?B" by (rule grown_length [OF s1(2) lX])
    have offm: "unat off + m \<le> length cs1 * ?B"
      using round_in_chain [of "unat off" ?B "length cs1" m] file_atD(5) [OF g1(3)] s1(3) c(1,2) g1(6) by simp
    have u: "unat (off + of_nat m) = unat off + m" using less.prems(6) c(3) by (intro unat_add_small) simp
    have room: "length cs1 + card (free_clusters s2) = length cs + card (free_clusters s)" using grown_room [OF g f ok] .
    have "n - (tot + m) < n - tot" using tm True by simp
    then obtain s3 cs3 z3 where s3: "ewrite_loop s2 e (Kern bs) (off + of_nat m) n (tot + m) = Ok (n, off + of_nat m + of_nat (n - (tot + m)), s3)"
      "grown s2 s3 e cs1 cs3 (patch (patch (?X @ replicate z 0) (unat off) ?A @ replicate z3 0) (unat off + m) (take (n - (tot + m)) (drop (tot + m) bs)))"
      "unat off + m + (n - (tot + m)) \<le> length cs3 * ?B" "length (patch (?X @ replicate z 0) (unat off) ?A) + z3 = length cs3 * ?B"
      using less.hyps [of "tot + m" s2 cs1 "off + of_nat m", OF _ g2(1) grown_table [OF g less.prems(2)] g2(3) tm(1) less.prems(5)] u room f2 g2(5)
        less.prems(6,7) offm tm(1) by auto
    let ?R = "take (n - (tot + m)) (drop (tot + m) bs)"
    have g3: "grown s s3 e cs cs3 (patch (patch (?X @ replicate z 0) (unat off) ?A @ replicate z3 0) (unat off + m) ?R)"
      using grown_trans [OF g s3(2) f] .
    have e1: "patch (?X @ replicate z 0) (unat off) ?A @ replicate z3 0 = patch (?X @ replicate (z + z3) 0) (unat off) ?A"
      using patch_extend [of "unat off" ?A "?X @ replicate z 0" "replicate z3 0"] lA lz offm by (simp add: replicate_add)
    have l3: "length cs3 * ?B = length ?X + z + z3"
      using s3(4) lz offm lA by simp
    have e2: "?A @ ?R = take (n - tot) (drop tot bs)"
      using take_add [of m "n - (tot + m)" "drop tot bs"] tm by (simp add: add.commute)
    have "patch (patch (?X @ replicate (z + z3) 0) (unat off) ?A) (unat off + m) ?R = patch (?X @ replicate (z + z3) 0) (unat off) (?A @ ?R)"
      using patch_append [of "unat off" ?A ?R "?X @ replicate (z + z3) 0"] lA s3(3) l3 tm less.prems(5) by simp
    then have "grown s s3 e cs cs3 (patch (?X @ replicate (z + z3) 0) (unat off) (take (n - tot) (drop tot bs)))" using g3 by (simp only: e1 e2)
    moreover have "ewrite_loop s e (Kern bs) off n tot = ewrite_loop s2 e (Kern bs) (off + of_nat m) n (tot + m)"
      using True s1(1) s2(1) tm by (subst ewrite_loop.simps) (simp add: Let_def m_def [symmetric])
    moreover have "off + of_nat m + of_nat (n - (tot + m)) = off + of_nat (n - tot)"
      using tm by (simp add: of_nat_diff)
    ultimately show ?thesis using s3(1,3) tm l3 by (intro exI [of _ s3] exI [of _ cs3] exI [of _ "z + z3"]) simp
  qed
qed

section \<open>Truncation\<close>

lemma free_clus_step:
  assumes "vol_ok s" "is_clus (fat s) c"
  shows "\<exists>s'. free_clus s c = Ok s' \<and> vol_step s s' ((fat_ent s)(unat c := 0)) (clus_bytes s)"
  using write_fat_step [OF assms(1), of c 0] assms(2) by (auto simp: free_clus_def is_clus_def)

lemma etrunc_round:
  assumes ok: "vol_ok s" and c: "is_clus (fat s) c"
  shows "\<exists>s1. etrunc_loop (Suc fuel) s c = etrunc_loop fuel s1 (fat_ent s (unat c))
    \<and> vol_step s s1 ((fat_ent s)(unat c := 0)) (clus_bytes s)"
proof -
  obtain s0 where s0: "read_fat s c = Ok (fat_ent s (unat c), s0)" "vol_step s s0 (fat_ent s) (clus_bytes s)"
    using read_fat_step [OF ok] c by (auto simp: is_clus_def)
  note v = vol_stepD [OF s0(2)]
  obtain s1 where s1: "free_clus s0 c = Ok s1" "vol_step s0 s1 ((fat_ent s0)(unat c := 0)) (clus_bytes s0)"
    using free_clus_step [OF v(1)] c v(2) by auto
  have "vol_step s s1 ((fat_ent s)(unat c := 0)) (clus_bytes s)"
    by (rule vol_step_cong [OF vol_step_trans [OF s0(2) s1(2)]]) (use v(7,8) in auto)
  then show ?thesis using s0(1) s1(1) clus_EOC [OF vol_okD(2) [OF ok] c] by auto
qed

lemma etrunc_loop_ok:
  assumes "vol_ok s" and "is_chain s c cs" and "length cs < fuel"
  shows "\<exists>s'. etrunc_loop fuel s c = Ok s' \<and> vol_step s s' (\<lambda>k. if k \<in> unat ` set cs then 0 else fat_ent s k) (clus_bytes s)"
  using assms
proof (induction cs arbitrary: s c fuel)
  case Nil
  then obtain f where "fuel = Suc f" by (cases fuel) auto
  then show ?case using Nil sectors_to_same [OF Nil(1) sectors_to_refl [OF Nil(1)]] eoc_EOC(1) [of c] by auto
next
  case (Cons d cs)
  then obtain f where f: "fuel = Suc f" "length cs < f" by (cases fuel) auto
  have c: "c = d" "is_clus (fat s) d" and tl: "is_chain s (fat_ent s (unat d)) cs" using Cons.prems(2) by auto
  have nin: "d \<notin> set cs" using chain_distinct [OF vol_okD(2) [OF Cons.prems(1)] Cons.prems(2)] by simp
  obtain s1 where s1: "etrunc_loop fuel s d = etrunc_loop f s1 (fat_ent s (unat d))" "vol_step s s1 ((fat_ent s)(unat d := 0)) (clus_bytes s)"
    using etrunc_round [OF Cons.prems(1) c(2), of f] f(1) by auto
  note v = vol_stepD [OF s1(2)]
  have "fat_ent s1 (unat x) = fat_ent s (unat x)" if "x \<in> set cs" for x
  proof -
    have "unat x \<noteq> unat d" using that nin by (auto simp: word_unat_eq_iff [symmetric])
    then show ?thesis using v(7) [of "unat x"] chain_clus [OF tl that] by (simp add: is_clus_def)
  qed
  then have "is_chain s1 (fat_ent s (unat d)) cs" by (intro chain_cong [OF tl v(2)])
  then obtain s' where s': "etrunc_loop f s1 (fat_ent s (unat d)) = Ok s'"
    "vol_step s1 s' (\<lambda>k. if k \<in> unat ` set cs then 0 else fat_ent s1 k) (clus_bytes s1)"
    using Cons.IH [OF v(1) _ f(2)] by blast
  have "vol_step s s' (\<lambda>k. if k \<in> unat ` set (d # cs) then 0 else fat_ent s k) (clus_bytes s)"
    by (rule vol_step_cong [OF vol_step_trans [OF s1(2) s'(2)]]) (use v(7,8) in auto)
  then show ?case using s1(1) s'(1) c(1) by auto
qed

text \<open>
  Whatever the table holds, cycles and numbers out of range included, the loop ends: it never
  leaves a cluster in use behind it.
\<close>

definition busy_clusters :: "fs \<Rightarrow> u32 set" where
  "busy_clusters s = {c. is_clus (fat s) c \<and> fat_ent s (unat c) \<noteq> 0}"

lemma busy_card:
  assumes "vol_ok s"
  shows "finite (busy_clusters s)" "card (busy_clusters s) \<le> unat (data_clus_cnt (fat s))"
proof -
  note c = clusters_card [OF vol_okD(2) [OF assms]]
  have "busy_clusters s \<subseteq> {c. is_clus (fat s) c}" by (auto simp: busy_clusters_def)
  then show "finite (busy_clusters s)" "card (busy_clusters s) \<le> unat (data_clus_cnt (fat s))"
    using c finite_subset card_mono [OF c(1)] by (blast, fastforce)
qed

lemma etrunc_stop: "c < 2 \<or> FAT32_EOC \<le> c \<Longrightarrow> etrunc_loop (Suc f) s c = Ok s"
  by auto

lemma etrunc_far:
  assumes "2 \<le> c" "c < FAT32_EOC" "\<not> is_clus (fat s) c" "vol_ok s"
  shows "etrunc_loop (Suc (Suc f)) s c = Ok s"
proof -
  have "unat (data_clus_cnt (fat s) + 1) = unat (data_clus_cnt (fat s)) + 1"
    using fat_wfD(7) [OF vol_okD(2) [OF assms(4)]] unat_add_small [of "data_clus_cnt (fat s)" 1] by simp
  then have "data_clus_cnt (fat s) + 1 < c" using assms(1,3) by (simp add: is_clus_def word_less_nat_alt word_le_nat_alt)
  then have "read_fat s c = Ok (0, s)" "free_clus s c = Ok s" using assms(2) by (auto simp: read_fat_def free_clus_def write_fat_def)
  then show ?thesis using assms(1,2) by simp
qed

lemma etrunc_loop_ends:
  assumes "vol_ok s" and "card (busy_clusters s) + 2 \<le> fuel"
  shows "\<exists>s'. etrunc_loop fuel s c = Ok s' \<and> vol_ok s' \<and> ents s' = ents s \<and> fat s' = fat s"
  using assms
proof (induction fuel arbitrary: s c)
  case (Suc f)
  obtain g where g: "f = Suc g" using Suc.prems(2) by (cases f) auto
  show ?case
  proof (cases "c < 2 \<or> FAT32_EOC \<le> c")
    case True
    then show ?thesis using etrunc_stop [of c f s] Suc.prems(1) by (auto simp del: etrunc_loop.simps)
  next
    case False
    then have r: "2 \<le> c" "c < FAT32_EOC" by auto
    show ?thesis
    proof (cases "is_clus (fat s) c")
      case no: False
      then show ?thesis using etrunc_far [OF r no Suc.prems(1), of g] g Suc.prems(1) by (auto simp del: etrunc_loop.simps)
    next
      case c: True
      obtain s1 where s1: "etrunc_loop (Suc f) s c = etrunc_loop f s1 (fat_ent s (unat c))" "vol_step s s1 ((fat_ent s)(unat c := 0)) (clus_bytes s)"
        using etrunc_round [OF Suc.prems(1) c] by blast
      note v = vol_stepD [OF s1(2)]
      show ?thesis
      proof (cases "fat_ent s (unat c) = 0")
        case True
        then show ?thesis using s1(1) etrunc_stop [of 0 g s1] g v(1-3) by (auto simp del: etrunc_loop.simps)
      next
        case b: False
        have fe: "fat_ent s1 (unat x) = (if x = c then 0 else fat_ent s (unat x))" if x: "is_clus (fat s) x" for x
          using v(7) [of "unat x"] x unfolding is_clus_def by (simp add: word_unat_eq_iff)
        have "busy_clusters s1 = busy_clusters s - {c}" unfolding busy_clusters_def v(2) using fe by (auto split: if_splits)
        moreover have "c \<in> busy_clusters s" using b c by (simp add: busy_clusters_def)
        ultimately have "card (busy_clusters s) = Suc (card (busy_clusters s1))"
          using card_Suc_Diff1 [OF busy_card(1) [OF Suc.prems(1)]] by simp
        then have "card (busy_clusters s1) + 2 \<le> f" using Suc.prems(2) by simp
        then obtain s' where "etrunc_loop f s1 (fat_ent s (unat c)) = Ok s'" "vol_ok s'" "ents s' = ents s1" "fat s' = fat s1"
          using Suc.IH [OF v(1)] by blast
        then show ?thesis using s1(1) v(2,3) by (auto simp del: etrunc_loop.simps)
      qed
    qed
  qed
qed simp

section \<open>Files\<close>

text \<open>
  A file is the entry \<open>e\<close> with the chain \<open>cs\<close>, empty when nothing has been allocated, and a size
  that the chain can hold.
\<close>

definition file_ok :: "fs \<Rightarrow> nat \<Rightarrow> u32 list \<Rightarrow> bool" where
  "file_ok s e cs \<longleftrightarrow> (if cs = [] then e < length (ents s) \<and> ddev (ent s e) = 0 \<and> first_clus (ent s e) = 0 else file_at s e cs)
     \<and> unat (file_size (ent s e)) \<le> length cs * unat (byts_per_clus (fat s))"

definition file_data :: "fs \<Rightarrow> nat \<Rightarrow> u32 list \<Rightarrow> u8 list" where
  "file_data s e cs = take (unat (file_size (ent s e))) (file_bytes s cs)"

text \<open>Chains that share no cluster with \<open>cs\<close> are the same in both states, with their contents.\<close>

definition others_kept :: "fs \<Rightarrow> fs \<Rightarrow> u32 list \<Rightarrow> bool" where
  "others_kept s s' cs \<longleftrightarrow>
     (\<forall>d ds. is_chain s d ds \<longrightarrow> set ds \<inter> set cs = {} \<longrightarrow> is_chain s' d ds \<and> file_bytes s' ds = file_bytes s ds)"

lemma grown_file:
  assumes "grown s s' e cs cs (file_bytes s cs)" "file_ok s e cs" "cs \<noteq> []"
  shows "file_ok s' e cs" "file_data s' e cs = file_data s e cs"
proof -
  note g = grownD [OF assms(1)]
  have "e < length (ents s)" using assms(2,3) by (simp add: file_ok_def file_at_def)
  then have "file_size (ent s' e) = file_size (ent s e)" using movedD(4) [OF g(2)] by simp
  then show "file_ok s' e cs" "file_data s' e cs = file_data s e cs"
    using assms(2,3) g(3,5,6) by (simp_all add: file_ok_def file_data_def)
qed

text \<open>\<^verbatim>\<open>eread\<close> copies the bytes of the file from the offset on, at most \<open>n\<close> and not beyond the end of the
  file, returns their number and changes no file.\<close>

lemma eread_ok:
  assumes ok: "vol_ok s" and f: "file_ok s e cs" and dir: "attribute (ent s e) AND ATTR_DIRECTORY = 0"
    and off: "off \<le> file_size (ent s e)" "unat off + unat n < 2 ^ 32" and bs: "unat n \<le> length bs"
  defines "part \<equiv> take (unat n) (drop (unat off) (file_data s e cs))"
  shows "\<exists>s'. eread s e (Kern bs) off n = Ok (int (length part), s', Kern (patch bs 0 part))
    \<and> vol_ok s' \<and> file_ok s' e cs \<and> file_data s' e cs = file_data s e cs \<and> others_kept s s' cs"
proof -
  let ?B = "unat (byts_per_clus (fat s))" and ?sz = "unat (file_size (ent s e))"
  have u: "unat (off + n) = unat off + unat n" using off(2) unat_add_lem [of off n] by simp
  have go: "\<not> off > file_size (ent s e)" "\<not> off + n < off" using leD [OF off(1)] u by (auto simp: word_less_nat_alt)
  define m where "m = (if off + n > file_size (ent s e) then file_size (ent s e) - off else n)"
  have le: "unat off \<le> ?sz" using off(1) by (simp add: word_le_nat_alt)
  have m: "unat m = min (unat n) (?sz - unat off)"
    using u off(1) le by (auto simp: m_def word_less_nat_alt unat_sub min_def)
  have lX: "length (file_bytes s cs) = length cs * ?B" using length_file_bytes [OF ok] .
  have sz: "?sz \<le> length cs * ?B" using f by (simp add: file_ok_def)
  have lp: "length part = unat m" using m lX sz by (simp add: part_def file_data_def min.commute)
  have part: "part = take (unat m) (drop (unat off) (file_bytes s cs))"
    unfolding part_def file_data_def using m le lX sz by (auto simp: drop_take min_def)
  have er: "eread s e (Kern bs) off n = bind_res (eread_loop s e (Kern bs) off (unat m) 0) (\<lambda>(tot, s, dst). Ok (int tot, s, dst))"
    using go dir by (simp add: eread_def m_def Let_def)
  show ?thesis
  proof (cases "cs = []")
    case True
    then have "unat m = 0" using m sz by simp
    then show ?thesis using er ok f lp by (auto simp: eread_loop.simps others_kept_def)
  next
    case False
    have fa: "file_at s e cs" using f False by (simp add: file_ok_def)
    have "unat off + (unat m - 0) < 2 ^ 32" "unat off + (unat m - 0) \<le> length cs * ?B" "unat m \<le> length bs"
      using off(2) m le sz bs by auto
    then obtain s' where s': "eread_loop s e (Kern bs) off (unat m) 0 = Ok (unat m, s', Kern (patch bs 0 part))"
      "grown s s' e cs cs (file_bytes s cs)"
      using eread_loop_ok [OF ok fa, of 0 "unat m" bs off] part by auto
    then show ?thesis using er lp grownD(1) [OF s'(2)] grown_file [OF s'(2) f False] grown_others [OF s'(2)]
      by (auto simp: others_kept_def)
  qed
qed

lemma take_patch:
  assumes "a \<le> k" "k \<le> length X" "a + length src \<le> length X + z"
  shows "take (max k (a + length src)) (patch (X @ replicate z v) a src) = take a (take k X) @ src @ drop (a + length src) (take k X)"
proof (cases "a + length src \<le> k")
  case True
  define r where "r = k - (a + length src)"
  have k: "k = a + length src + r" using True by (simp add: r_def)
  have "length (take a X @ src) = a + length src" using assms by simp
  then have "take k ((take a X @ src) @ drop (a + length src) (X @ replicate z v)) = (take a X @ src) @ take r (drop (a + length src) (X @ replicate z v))"
    unfolding k by (simp only: take_append) simp
  moreover have "take r (drop (a + length src) (X @ replicate z v)) = drop (a + length src) (take k X)"
    using assms(2) by (simp add: drop_take k)
  moreover have "max k (a + length src) = k" "take a (take k X) = take a X" "take a (X @ replicate z v) = take a X"
    using True assms(1,2) by (simp_all add: min_def)
  ultimately show ?thesis by (simp only: patch_def append_assoc)
next
  case False
  have "min a (length X) = a" using assms by simp
  then show ?thesis using False assms by (simp add: patch_def max_def)
qed

definition end_write :: "fs \<Rightarrow> nat \<Rightarrow> u32 \<Rightarrow> fs" where
  "end_write s e off = (if off > file_size (ent s e) then set_ent s e ((ent s e)\<lparr>file_size := off, dirty := True\<rparr>) else s)"

lemma end_write_file:
  assumes "file_at s e cs"
  shows "file_at (end_write s e off) e cs" "unat (file_size (ent (end_write s e off) e)) = max (unat (file_size (ent s e))) (unat off)"
    "vol_ok (end_write s e off) = vol_ok s" "fat (end_write s e off) = fat s" "file_bytes (end_write s e off) ds = file_bytes s ds"
    "is_chain (end_write s e off) d ds = is_chain s d ds"
proof -
  note d = file_atD [OF assms]
  show "file_at (end_write s e off) e cs" using assms d(1) by (simp add: end_write_def file_at_def)
  show "unat (file_size (ent (end_write s e off) e)) = max (unat (file_size (ent s e))) (unat off)"
    using d(1) by (auto simp: end_write_def max_def word_less_nat_alt)
qed (simp_all add: end_write_def file_bytes_def)

text \<open>The loop and the new size, from an entry that has a chain.\<close>

lemma ewrite_tail:
  assumes ok: "vol_ok s" and t: "table_ok s" and f: "file_at s e cs" and sz: "unat (file_size (ent s e)) \<le> length cs * unat (byts_per_clus (fat s))"
    and off: "off \<le> file_size (ent s e)" "unat off + unat n < 2 ^ 32" and n: "0 < unat n" "unat n \<le> length bs"
    and room: "unat off + unat n \<le> (length cs + card (free_clusters s)) * unat (byts_per_clus (fat s))"
  shows "\<exists>s' s'' cs'. ewrite_loop s e (Kern bs) off (unat n) 0 = Ok (unat n, off + n, s') \<and> s'' = end_write s' e (off + n)
    \<and> vol_ok s'' \<and> file_ok s'' e cs' \<and> others_kept s s'' cs \<and> attribute (ent s'' e) = attribute (ent s e)
    \<and> file_data s'' e cs' = take (unat off) (file_data s e cs) @ take (unat n) bs @ drop (unat off + unat n) (file_data s e cs)"
proof -
  let ?B = "unat (byts_per_clus (fat s))" and ?sz = "unat (file_size (ent s e))"
  have le: "unat off \<le> ?sz" using off(1) by (simp add: word_le_nat_alt)
  have u: "unat (off + n) = unat off + unat n" using off(2) unat_add_lem [of off n] by simp
  obtain s' cs' z where s': "ewrite_loop s e (Kern bs) off (unat n) 0 = Ok (unat n, off + n, s')"
    "grown s s' e cs cs' (patch (file_bytes s cs @ replicate z 0) (unat off) (take (unat n) bs))"
    "unat off + unat n \<le> length cs' * ?B" "length (file_bytes s cs) + z = length cs' * ?B"
    using ewrite_loop_ok [OF ok t f, of 0 "unat n" bs off] off(2) n room le sz by auto
  note g = grownD [OF s'(2)]
  let ?s = "end_write s' e (off + n)"
  note ew = end_write_file [OF g(3), of "off + n"]
  have e: "e < length (ents s)" using file_atD(1) [OF f] .
  have size: "file_size (ent s' e) = file_size (ent s e)" "attribute (ent ?s e) = attribute (ent s e)"
    using movedD(2,4) [OF g(2)] e by (simp_all add: end_write_def)
  have lX: "length (file_bytes s cs) = length cs * ?B" using length_file_bytes [OF ok] .
  have "?sz \<le> length cs' * ?B" using sz s'(4) lX by simp
  then have "file_ok ?s e cs'" using ew(1,2,4) size u s'(3) g(6) file_atD(3) [OF g(3)] by (simp add: file_ok_def)
  moreover have "file_data ?s e cs' = take (unat off) (file_data s e cs) @ take (unat n) bs @ drop (unat off + unat n) (file_data s e cs)"
    using take_patch [of "unat off" ?sz "file_bytes s cs" "take (unat n) bs" z 0] le sz lX s'(3,4) n(2) ew(2,5) size u g(5)
    by (simp add: file_data_def)
  moreover have "others_kept s ?s cs" using grown_others [OF s'(2)] ew(5,6) by (auto simp: others_kept_def)
  ultimately show ?thesis using s'(1) ew(3) g(1) size(2) by blast
qed

lemma ewrite_go:
  assumes "off \<le> file_size (ent s e)" "unat off + unat n < 2 ^ 32" "attribute (ent s e) AND ATTR_READ_ONLY = 0" "0 < unat n"
  shows "ewrite s e (Kern bs) off n =
    bind_res (if first_clus (ent s e) = 0
              then bind_res (alloc_clus s (ddev (ent s e))) (\<lambda>(c, s).
                   Ok (set_ent s e ((ent s e)\<lparr>cur_clus := c, first_clus := c, clus_cnt := 0, dirty := True\<rparr>)))
              else Ok s) (\<lambda>s. bind_res (ewrite_loop s e (Kern bs) off (unat n) 0) (\<lambda>(tot, off, s). Ok (int tot, end_write s e off)))"
proof -
  have "unat (off + n) = unat off + unat n" using assms(2) unat_add_lem [of off n] by simp
  then have "\<not> off + n < off" "\<not> off > file_size (ent s e)" "n > 0" using leD [OF assms(1)] assms(4) by (auto simp: word_less_nat_alt)
  then show ?thesis using assms(2,3) by (simp add: ewrite_def end_write_def)
qed

text \<open>The first cluster of an empty file.\<close>

lemma first_cluster:
  assumes ok: "vol_ok s" and t: "table_ok s" and f: "file_ok s e []" and fr: "free_clusters s \<noteq> {}"
  shows "\<exists>c s0 s1. alloc_clus s 0 = Ok (c, s0)
    \<and> s1 = set_ent s0 e ((ent s0 e)\<lparr>cur_clus := c, first_clus := c, clus_cnt := 0, dirty := True\<rparr>)
    \<and> vol_ok s1 \<and> table_ok s1 \<and> file_at s1 e [c] \<and> fat s1 = fat s \<and> others_kept s s1 []
    \<and> file_size (ent s1 e) = file_size (ent s e) \<and> attribute (ent s1 e) = attribute (ent s e)
    \<and> card (free_clusters s) = 1 + card (free_clusters s1) \<and> (\<forall>d ds. is_chain s d ds \<longrightarrow> c \<notin> set ds)"
proof -
  obtain c s0 where s0: "alloc_clus s 0 = Ok (c, s0)" "c \<in> free_clusters s"
    "vol_step s s0 ((fat_ent s)(unat c := FAT32_FEOC)) ((clus_bytes s)(c := replicate (unat (byts_per_clus (fat s))) 0))"
    using alloc_clus_free [OF ok t fr] by blast
  note v = vol_stepD [OF s0(3)]
  let ?s1 = "set_ent s0 e ((ent s0 e)\<lparr>cur_clus := c, first_clus := c, clus_cnt := 0, dirty := True\<rparr>)"
  have cc: "is_clus (fat s) c" "fat_ent s (unat c) = 0" using s0(2) by (auto simp: free_clusters_def)
  have e: "e < length (ents s)" "ddev (ent s e) = 0" using f by (auto simp: file_ok_def)
  have fe: "fat_ent s0 (unat x) = (if x = c then FAT32_FEOC else fat_ent s (unat x))" if "is_clus (fat s) x" for x
    using v(7) [of "unat x"] that unfolding is_clus_def by (simp add: word_unat_eq_iff)
  have fc: "fat_ent s0 (unat c) = FAT32_FEOC" using fe [OF cc(1)] by simp
  have feoc: "FAT32_FEOC \<noteq> 0" by (simp add: FAT32_FEOC_def)
  have "table_ok ?s1" using t v(7) [of 0] v(7) [of 1] feoc by (auto simp: table_ok_def)
  moreover have "file_at ?s1 e [c]" using e v(2,3) cc(1) fc by (simp add: file_at_def eoc_def FAT32_FEOC_def)
  moreover have "free_clusters s0 = free_clusters s - {c}"
    unfolding free_clusters_def v(2) using fe by (auto simp: FAT32_FEOC_def split: if_splits)
  then have "card (free_clusters s) = 1 + card (free_clusters ?s1)"
    using card_Suc_Diff1 [OF free_finite [OF vol_okD(2) [OF ok]] s0(2)] by (simp add: free_clusters_def)
  moreover have nin: "c \<notin> set ds" if "is_chain s d ds" for d ds using chain_not_free [OF that] s0(2) by blast
  moreover have "others_kept s ?s1 []"
    unfolding others_kept_def
  proof (intro allI impI)
    fix d ds assume ch: "is_chain s d ds"
    have "fat_ent s0 (unat x) = fat_ent s (unat x) \<and> clus_bytes s0 x = clus_bytes s x" if "x \<in> set ds" for x
      using fe [OF chain_clus [OF ch that]] v(8) [OF chain_clus [OF ch that]] nin [OF ch] that by auto
    then have "is_chain s0 d ds" "file_bytes s0 ds = file_bytes s ds" using chain_cong [OF ch v(2)] by (auto intro: file_bytes_cong)
    then show "is_chain ?s1 d ds \<and> file_bytes ?s1 ds = file_bytes s ds" by (simp add: file_bytes_def)
  qed
  ultimately show ?thesis using s0(1) v(1-3) e(1) by (intro exI [of _ c] exI [of _ s0] exI [of _ ?s1]) simp
qed

text \<open>\<^verbatim>\<open>ewrite\<close> replaces the bytes of the file from the offset on and extends the file when needed, as long as
  the volume has free clusters; no other file changes.\<close>

lemma ewrite_ok:
  assumes ok: "vol_ok s" and t: "table_ok s" and f: "file_ok s e cs" and ro: "attribute (ent s e) AND ATTR_READ_ONLY = 0"
    and off: "off \<le> file_size (ent s e)" "unat off + unat n < 2 ^ 32" and n: "0 < unat n" "unat n \<le> length bs"
    and room: "unat off + unat n \<le> (length cs + card (free_clusters s)) * unat (byts_per_clus (fat s))"
  shows "\<exists>s' cs'. ewrite s e (Kern bs) off n = Ok (int (unat n), s') \<and> vol_ok s' \<and> file_ok s' e cs' \<and> others_kept s s' cs
    \<and> attribute (ent s' e) = attribute (ent s e)
    \<and> file_data s' e cs' = take (unat off) (file_data s e cs) @ take (unat n) bs @ drop (unat off + unat n) (file_data s e cs)"
proof (cases "cs = []")
  case False
  have fa: "file_at s e cs" and sz: "unat (file_size (ent s e)) \<le> length cs * unat (byts_per_clus (fat s))"
    using f False by (auto simp: file_ok_def)
  have "first_clus (ent s e) \<noteq> 0" using chain_head [OF file_at_chain [OF fa]] .
  then show ?thesis using ewrite_tail [OF ok t fa sz off n room] ewrite_go [OF off ro n(1), of bs] by auto
next
  case True
  let ?B = "unat (byts_per_clus (fat s))"
  have f': "file_ok s e []" using f True by simp
  have z: "file_size (ent s e) = 0" using f' by (simp add: file_ok_def unat_eq_0)
  have fr: "free_clusters s \<noteq> {}" using room n(1) True by auto
  have fc: "first_clus (ent s e) = 0" "ddev (ent s e) = 0" using f' by (auto simp: file_ok_def)
  obtain c s0 s1 where a: "alloc_clus s 0 = Ok (c, s0)"
    and s1: "s1 = set_ent s0 e ((ent s0 e)\<lparr>cur_clus := c, first_clus := c, clus_cnt := 0, dirty := True\<rparr>)"
    and v: "vol_ok s1" "table_ok s1" "file_at s1 e [c]" "fat s1 = fat s" "others_kept s s1 []"
      "file_size (ent s1 e) = file_size (ent s e)" "attribute (ent s1 e) = attribute (ent s e)" "card (free_clusters s) = 1 + card (free_clusters s1)"
    and nin: "\<And>d ds. is_chain s d ds \<Longrightarrow> c \<notin> set ds"
    using first_cluster [OF ok t f' fr] by blast
  have "unat (file_size (ent s1 e)) \<le> length [c] * unat (byts_per_clus (fat s1))" "off \<le> file_size (ent s1 e)"
    "unat off + unat n \<le> (length [c] + card (free_clusters s1)) * unat (byts_per_clus (fat s1))"
    using v(4,6,8) z off(1) room True by simp_all
  then obtain s' s'' cs' where w: "ewrite_loop s1 e (Kern bs) off (unat n) 0 = Ok (unat n, off + n, s')" "s'' = end_write s' e (off + n)"
    "vol_ok s''" "file_ok s'' e cs'" "others_kept s1 s'' [c]" "attribute (ent s'' e) = attribute (ent s e)"
    "file_data s'' e cs' = take (unat off) (file_data s1 e [c]) @ take (unat n) bs @ drop (unat off + unat n) (file_data s1 e [c])"
    using ewrite_tail [OF v(1-3) _ _ off(2) n] v(7) by metis
  have "file_data s1 e [c] = []" "file_data s e cs = []" using z v(6) by (simp_all add: file_data_def)
  moreover have "others_kept s s'' cs" using v(5) w(5) nin True unfolding others_kept_def by (metis Int_insert_right_if0 inf_bot_right list.set(1,2))
  moreover have "ewrite s e (Kern bs) off n = Ok (int (unat n), s'')"
    using ewrite_go [OF off ro n(1), of bs] fc a w(1,2) s1 by simp
  ultimately show ?thesis using w(3,4,6,7) by auto
qed

text \<open>C19: \<^verbatim>\<open>ewrite\<close> replaces the bytes of a file from any offset up to its end, across clusters and
  with clusters added on the way; \<^verbatim>\<open>eread\<close> then returns the new contents from every offset, cut to
  the request and to the end of the file; neither changes another file.\<close>

theorem file_write_read:
  assumes ok: "vol_ok s" and t: "table_ok s" and f: "file_ok s e cs"
    and at: "attribute (ent s e) AND ATTR_READ_ONLY = 0" "attribute (ent s e) AND ATTR_DIRECTORY = 0"
    and off: "off \<le> file_size (ent s e)" "unat off + length bs < 2 ^ 32" and bs: "bs \<noteq> []"
    and room: "unat off + length bs \<le> (length cs + card (free_clusters s)) * unat (byts_per_clus (fat s))"
  defines "new \<equiv> take (unat off) (file_data s e cs) @ bs @ drop (unat off + length bs) (file_data s e cs)"
  shows "\<exists>s' cs'. ewrite s e (Kern bs) off (of_nat (length bs)) = Ok (int (length bs), s')
    \<and> vol_ok s' \<and> file_ok s' e cs' \<and> file_data s' e cs' = new \<and> others_kept s s' cs
    \<and> (\<forall>o' n buf. unat o' \<le> length new \<longrightarrow> unat o' + unat n < 2 ^ 32 \<longrightarrow> length buf = unat n \<longrightarrow>
         (let part = take (unat n) (drop (unat o') new)
          in \<exists>s''. eread s' e (Kern buf) o' n = Ok (int (length part), s'', Kern (patch buf 0 part))
               \<and> vol_ok s'' \<and> file_ok s'' e cs' \<and> file_data s'' e cs' = new \<and> others_kept s' s'' cs'))"
proof -
  have u: "unat (of_nat (length bs) :: u32) = length bs" using off(2) by (intro unat_u32_small) simp
  obtain s' cs' where w: "ewrite s e (Kern bs) off (of_nat (length bs)) = Ok (int (length bs), s')" "vol_ok s'" "file_ok s' e cs'"
    "others_kept s s' cs" "attribute (ent s' e) = attribute (ent s e)" "file_data s' e cs' = new"
    using ewrite_ok [OF ok t f at(1) off(1), of "of_nat (length bs)" bs] off(2) bs room u by (auto simp: new_def)
  have rd: "\<exists>s''. eread s' e (Kern buf) o' n = Ok (int (length (take (unat n) (drop (unat o') new))), s'', Kern (patch buf 0 (take (unat n) (drop (unat o') new))))
      \<and> vol_ok s'' \<and> file_ok s'' e cs' \<and> file_data s'' e cs' = new \<and> others_kept s' s'' cs'"
    if o': "unat o' \<le> length new" "unat o' + unat n < 2 ^ 32" "length buf = unat n" for o' n :: u32 and buf
  proof -
    have "o' \<le> file_size (ent s' e)" using o'(1) w(6) by (simp add: file_data_def word_le_nat_alt flip: w(6))
    then show ?thesis using eread_ok [OF w(2,3), of o' n buf] at(2) w(5,6) o'(2,3) by simp
  qed
  show ?thesis
    unfolding Let_def by (intro exI [of _ s'] exI [of _ cs'] conjI w allI impI rd)
qed

text \<open>C20: \<^verbatim>\<open>etrunc\<close> frees exactly the clusters of the file and leaves it empty; no other file changes.\<close>

theorem etrunc_frees:
  assumes ok: "vol_ok s" and f: "file_ok s e cs"
  shows "\<exists>s'. etrunc s e = Ok s' \<and> vol_ok s' \<and> file_ok s' e [] \<and> free_clusters s' = free_clusters s \<union> set cs \<and> others_kept s s' cs"
proof -
  note wf = vol_okD(2) [OF ok]
  have e: "e < length (ents s)" "ddev (ent s e) = 0" using f by (auto simp: file_ok_def file_at_def split: if_splits)
  have "\<exists>s0. etrunc_loop (unat (data_clus_cnt (fat s)) + 3) s (first_clus (ent s e)) = Ok s0
    \<and> vol_step s s0 (\<lambda>k. if k \<in> unat ` set cs then 0 else fat_ent s k) (clus_bytes s)"
  proof (cases "cs = []")
    case True
    then have "first_clus (ent s e) = 0" using f by (simp add: file_ok_def)
    then show ?thesis using True sectors_to_same [OF ok sectors_to_refl [OF ok]] by (simp add: numeral_3_eq_3)
  next
    case False
    then have ch: "is_chain s (first_clus (ent s e)) cs" using f by (simp add: file_ok_def file_at_def)
    then show ?thesis using etrunc_loop_ok [OF ok ch] chain_short [OF wf ch] by simp
  qed
  then obtain s0 where s0: "etrunc_loop (unat (data_clus_cnt (fat s)) + 3) s (first_clus (ent s e)) = Ok s0"
    "vol_step s s0 (\<lambda>k. if k \<in> unat ` set cs then 0 else fat_ent s k) (clus_bytes s)" by blast
  note v = vol_stepD [OF s0(2)]
  have cl: "is_clus (fat s) x" if "x \<in> set cs" for x
    using that f chain_clus [of s _ cs x] by (cases "cs = []") (auto simp: file_ok_def file_at_def)
  have fe: "fat_ent s0 (unat x) = (if x \<in> set cs then 0 else fat_ent s (unat x))" if "is_clus (fat s) x" for x
    using v(7) [of "unat x"] that by (auto simp: is_clus_def image_iff word_unat_eq_iff [symmetric])
  let ?s = "set_ent s0 e ((ent s0 e)\<lparr>file_size := 0, first_clus := 0, dirty := True\<rparr>)"
  have "file_ok ?s e []" using e v(3) by (simp add: file_ok_def)
  moreover have "free_clusters ?s = free_clusters s \<union> set cs"
    unfolding free_clusters_def using fe cl v(2) by auto
  moreover have "others_kept s ?s cs"
    unfolding others_kept_def
  proof (intro allI impI)
    fix d ds assume ch: "is_chain s d ds" and dj: "set ds \<inter> set cs = {}"
    have "fat_ent s0 (unat x) = fat_ent s (unat x) \<and> clus_bytes s0 x = clus_bytes s x" if "x \<in> set ds" for x
      using fe [OF chain_clus [OF ch that]] v(8) [OF chain_clus [OF ch that]] dj that by auto
    then have "is_chain s0 d ds" "file_bytes s0 ds = file_bytes s ds" using chain_cong [OF ch v(2)] by (auto intro: file_bytes_cong)
    then show "is_chain ?s d ds \<and> file_bytes ?s ds = file_bytes s ds" by (simp add: file_bytes_def)
  qed
  ultimately show ?thesis using s0(1) v(1) by (simp add: etrunc_def)
qed

text \<open>C21: \<^verbatim>\<open>etrunc\<close> terminates on every volume, even when the table has cycles or numbers out of range.\<close>

theorem etrunc_terminates:
  assumes "vol_ok s"
  shows "\<exists>s'. etrunc s e = Ok s' \<and> vol_ok s'"
proof -
  have "card (busy_clusters s) + 2 \<le> unat (data_clus_cnt (fat s)) + 3" using busy_card(2) [OF assms] by simp
  from etrunc_loop_ends [OF assms this, of "first_clus (ent s e)"] show ?thesis by (auto simp: etrunc_def)
qed

text \<open>A small volume: two clusters of one sector, both free, and an empty file.\<close>

definition ex_fat :: fat32 where
  "ex_fat = \<lparr>first_data_sec = 2, data_sec_cnt = 2, data_clus_cnt = 2, byts_per_clus = 512, byts_per_sec = 512, sec_per_clus = 1,
     rsvd_sec_cnt = 1, fat_cnt = 1, hidd_sec = 0, tot_sec = 4, fat_sz = 1, root_clus = 2,
     number_of_empty_cluster = 0, next_avail_cluster = 0\<rparr>"

definition ex_table :: "u8 list" where
  "ex_table = [0xFF, 0xFF, 0xFF, 0x0F, 0xFF, 0xFF, 0xFF, 0x0F] @ replicate 504 0"

definition ex_cache :: bcache where
  "ex_cache = binit (blank_cache\<lparr>DBRsec := 0, disk := (\<lambda>n. if n = 1 then ex_table else replicate 512 0)\<rparr>)"

definition ex_vol :: fs where
  "ex_vol = \<lparr>bc = ex_cache, fat = ex_fat, eclock = False, ents = [blank_dirent (sem_init 1 0)], eorder = [],
     ux = \<lparr>umem = (\<lambda>_. 0), upt = \<lparr>root_ppn = 0, fnode = []\<rparr>, usz = 0, upid = None\<rparr>\<rparr>"

lemma ex_sector: "cache_ok ex_cache" "sector ex_cache n = (if n = 1 then ex_table else replicate 512 0)"
  using binit_ok [of "blank_cache\<lparr>DBRsec := 0, disk := (\<lambda>n. if n = 1 then ex_table else replicate 512 0)\<rparr>"]
  by (simp_all add: ex_cache_def blank_cache_def blank_buf_def sector_def)

lemma ex_vol_ok: "vol_ok ex_vol" "table_ok ex_vol" "file_ok ex_vol 0 []" "1 \<le> card (free_clusters ex_vol)"
proof -
  show ok: "vol_ok ex_vol" by (simp add: vol_ok_def ex_vol_def ex_sector fat_wf_def ex_fat_def ex_table_def)
  have fe: "fat_ent ex_vol k = le32 ex_table (4 * k)" if "k < 128" for k
    using that by (simp add: fat_ent_def ex_vol_def ex_fat_def ex_sector)
  show "table_ok ex_vol" by (simp add: table_ok_def fe) (simp add: ex_table_def le32_def)
  show "file_ok ex_vol 0 []" by (simp add: file_ok_def ex_vol_def blank_dirent_def)
  have "2 \<in> free_clusters ex_vol"
    using fe [of 2] by (simp add: free_clusters_def is_clus_def) (simp add: ex_vol_def ex_fat_def ex_table_def le32_def le_word_zero)
  then show "1 \<le> card (free_clusters ex_vol)"
    using card_gt_0_iff [of "free_clusters ex_vol"] free_finite [OF vol_okD(2) [OF ok]] by (auto simp: Suc_le_eq)
qed

lemma ex_entry: "file_size (ent ex_vol 0) = 0" "attribute (ent ex_vol 0) = 0" "byts_per_clus (fat ex_vol) = 512"
  by (simp_all add: ex_vol_def ex_fat_def blank_dirent_def)

text \<open>The same volume with a file in cluster 2.\<close>

definition ex_vol2 :: fs where
  "ex_vol2 = ex_vol\<lparr>bc := binit (blank_cache\<lparr>DBRsec := 0, disk := (\<lambda>n. if n = 1 then put32 ex_table 8 FAT32_FEOC else replicate 512 0)\<rparr>),
     ents := [(blank_dirent (sem_init 1 0))\<lparr>first_clus := 2, cur_clus := 2, file_size := 100\<rparr>]\<rparr>"

lemma ex_vol2_ok: "vol_ok ex_vol2" "file_ok ex_vol2 0 [2]"
proof -
  have sec: "cache_ok (bc ex_vol2)" "sector (bc ex_vol2) n = (if n = 1 then put32 ex_table 8 FAT32_FEOC else replicate 512 0)" for n
    using binit_ok [of "blank_cache\<lparr>DBRsec := 0, disk := (\<lambda>n. if n = 1 then put32 ex_table 8 FAT32_FEOC else replicate 512 0)\<rparr>"]
    by (simp_all add: ex_vol2_def blank_cache_def blank_buf_def sector_def)
  have fat: "fat ex_vol2 = ex_fat" "ents ex_vol2 = [(blank_dirent (sem_init 1 0))\<lparr>first_clus := 2, cur_clus := 2, file_size := 100\<rparr>]"
    by (simp_all add: ex_vol2_def ex_vol_def)
  have len: "length ex_table = 512" by (simp add: ex_table_def)
  show "vol_ok ex_vol2" by (simp add: vol_ok_def sec fat fat_wf_def ex_fat_def len)
  have "fat_ent ex_vol2 2 = FAT32_FEOC" by (simp add: fat_ent_def fat sec) (simp add: ex_fat_def len)
  then have "eoc (fat_ent ex_vol2 2)" by (simp add: eoc_def FAT32_FEOC_def)
  then show "file_ok ex_vol2 0 [2]" by (simp add: file_ok_def file_at_def fat is_clus_def) (simp add: ex_fat_def blank_dirent_def)
qed

theorem file_write_read_witness:
  "\<exists>s' cs s''. ewrite ex_vol 0 (Kern [7, 8, 9]) 0 3 = Ok (3, s') \<and> file_data s' 0 cs = [7, 8, 9]
     \<and> eread s' 0 (Kern [0, 0, 0, 0]) 1 4 = Ok (2, s'', Kern [8, 9, 0, 0])"
proof -
  let ?bs = "[7, 8, 9] :: u8 list"
  have fd: "file_data ex_vol 0 [] = []" by (simp add: file_data_def file_bytes_def)
  have p: "attribute (ent ex_vol 0) AND ATTR_READ_ONLY = 0" "attribute (ent ex_vol 0) AND ATTR_DIRECTORY = 0" "0 \<le> file_size (ent ex_vol 0)"
    "unat (0::u32) + length ?bs < 2 ^ 32" "?bs \<noteq> []"
    "unat (0::u32) + length ?bs \<le> (length ([]::u32 list) + card (free_clusters ex_vol)) * unat (byts_per_clus (fat ex_vol))"
    using ex_entry ex_vol_ok(4) by simp_all
  obtain s' cs where w: "ewrite ex_vol 0 (Kern ?bs) 0 (of_nat (length ?bs)) = Ok (int (length ?bs), s')" "file_data s' 0 cs = ?bs"
    and r: "\<forall>o' n buf. unat o' \<le> length ?bs \<longrightarrow> unat o' + unat n < 2 ^ 32 \<longrightarrow> length buf = unat n \<longrightarrow>
      (\<exists>s''. eread s' 0 (Kern buf) o' n = Ok (int (length (take (unat n) (drop (unat o') ?bs))), s'', Kern (patch buf 0 (take (unat n) (drop (unat o') ?bs)))))"
    using file_write_read [OF ex_vol_ok(1-3) p, unfolded fd take_Nil drop_Nil append_Nil append_Nil2 Let_def] by blast
  show ?thesis using w spec [OF spec [OF spec [OF r, of 1], of 4], of "[0, 0, 0, 0]"] by (auto simp: patch_def)
qed

theorem etrunc_frees_witness:
  "\<exists>s'. etrunc ex_vol2 0 = Ok s' \<and> free_clusters s' = insert 2 (free_clusters ex_vol2) \<and> file_ok s' 0 []"
  using etrunc_frees [OF ex_vol2_ok] by auto

theorem etrunc_terminates_witness:
  "\<exists>s'. etrunc (ex_vol\<lparr>ents := [(blank_dirent (sem_init 1 0))\<lparr>first_clus := 3\<rparr>]\<rparr>) 0 = Ok s'"
  using etrunc_terminates [of "ex_vol\<lparr>ents := [(blank_dirent (sem_init 1 0))\<lparr>first_clus := 3\<rparr>]\<rparr>" 0] ex_vol_ok(1) by auto

text \<open>\<^verbatim>\<open>alloc_clus\<close> returns the first free cluster, marks it as the end of a chain and clears it,
  \<^verbatim>\<open>read_fat\<close> sees the mark, and \<^verbatim>\<open>free_clus\<close> restores the table; with nothing free in the table the
  result is 1. Nothing else of the volume changes.\<close>

theorem alloc_free_clus:
  assumes ok: "vol_ok s" and t: "table_ok s"
  shows "(free_clusters s \<noteq> {} \<longrightarrow>
      (\<exists>c s1 s2 s3. c \<in> free_clusters s \<and> (\<forall>d \<in> free_clusters s. c \<le> d) \<and> alloc_clus s 0 = Ok (c, s1)
        \<and> vol_step s s1 ((fat_ent s)(unat c := FAT32_FEOC)) ((clus_bytes s)(c := replicate (unat (byts_per_clus (fat s))) 0))
        \<and> read_fat s1 c = Ok (FAT32_FEOC, s2) \<and> free_clus s2 c = Ok s3
        \<and> vol_step s s3 (fat_ent s) ((clus_bytes s)(c := replicate (unat (byts_per_clus (fat s))) 0))))
    \<and> ((\<forall>k < 128 * unat (fat_sz (fat s)). fat_ent s k \<noteq> 0) \<longrightarrow>
      (\<exists>s'. alloc_clus s 0 = Ok (1, s') \<and> vol_step s s' (fat_ent s) (clus_bytes s)))"
proof (intro conjI impI)
  assume fr: "free_clusters s \<noteq> {}"
  obtain c s1 where s1: "c \<in> free_clusters s" "\<forall>d \<in> free_clusters s. c \<le> d" "alloc_clus s 0 = Ok (c, s1)"
    "vol_step s s1 ((fat_ent s)(unat c := FAT32_FEOC)) ((clus_bytes s)(c := replicate (unat (byts_per_clus (fat s))) 0))"
    using alloc_clus_free [OF ok t fr] by blast
  note v1 = vol_stepD [OF s1(4)]
  have c: "is_clus (fat s) c" "fat_ent s (unat c) = 0" using s1(1) by (auto simp: free_clusters_def)
  then have cl: "unat c < unat (data_clus_cnt (fat s)) + 2" by (simp add: is_clus_def)
  obtain s2 where s2: "read_fat s1 c = Ok (FAT32_FEOC, s2)" "vol_step s1 s2 (fat_ent s1) (clus_bytes s1)"
    using read_fat_step [OF v1(1), of c] cl v1(2) v1(7) [OF cl] by auto
  note v2 = vol_stepD [OF s2(2)]
  obtain s3 where s3: "free_clus s2 c = Ok s3" "vol_step s2 s3 ((fat_ent s2)(unat c := 0)) (clus_bytes s2)"
    using free_clus_step [OF v2(1)] c(1) v1(2) v2(2) by auto
  have "vol_step s s3 (fat_ent s) ((clus_bytes s)(c := replicate (unat (byts_per_clus (fat s))) 0))"
    by (rule vol_step_cong [OF vol_step_trans [OF s1(4) vol_step_trans [OF s2(2) s3(2)]]])
      (use v1(2,7,8) v2(7,8) c(2) in auto)
  then show "\<exists>c s1 s2 s3. c \<in> free_clusters s \<and> (\<forall>d \<in> free_clusters s. c \<le> d) \<and> alloc_clus s 0 = Ok (c, s1)
        \<and> vol_step s s1 ((fat_ent s)(unat c := FAT32_FEOC)) ((clus_bytes s)(c := replicate (unat (byts_per_clus (fat s))) 0))
        \<and> read_fat s1 c = Ok (FAT32_FEOC, s2) \<and> free_clus s2 c = Ok s3
        \<and> vol_step s s3 (fat_ent s) ((clus_bytes s)(c := replicate (unat (byts_per_clus (fat s))) 0))"
    using s1 s2(1) s3(1) by blast
next
  assume "\<forall>k < 128 * unat (fat_sz (fat s)). fat_ent s k \<noteq> 0"
  then show "\<exists>s'. alloc_clus s 0 = Ok (1, s') \<and> vol_step s s' (fat_ent s) (clus_bytes s)"
    using alloc_loop_full [OF ok, of 0 "unat (fat_sz (fat s))"] sectors_to_same [OF ok] by (auto simp: alloc_clus_def)
qed

theorem alloc_free_clus_witness:
  "\<exists>c s1 s2 s3. c \<in> free_clusters ex_vol \<and> alloc_clus ex_vol 0 = Ok (c, s1) \<and> read_fat s1 c = Ok (FAT32_FEOC, s2) \<and> free_clus s2 c = Ok s3"
proof -
  have "free_clusters ex_vol \<noteq> {}" using ex_vol_ok(4) by auto
  then show ?thesis using alloc_free_clus [OF ex_vol_ok(1,2)] by blast
qed

definition ex_full :: fs where
  "ex_full = ex_vol\<lparr>bc := binit (blank_cache\<lparr>DBRsec := 0, disk := (\<lambda>n. if n = 1 then put32 (put32 ex_table 8 FAT32_FEOC) 12 FAT32_FEOC else [1])\<rparr>)\<rparr>"

text \<open>The search of \<^verbatim>\<open>alloc_clus\<close> does not stop at the last data cluster: on a volume of two clusters, both in
  use, it hands out cluster 4, whose sector lies behind the volume and is cleared on the disk.\<close>

theorem alloc_clus_past_end:
  "tot_sec (fat ex_full) = 4 \<and> data_clus_cnt (fat ex_full) = 2 \<and> disk (bc ex_full) 4 = [1]
   \<and> map_res (\<lambda>(c, s). (c, disk (bc s) 4)) (alloc_clus ex_full 0) = Ok (4, replicate 512 0)"
  by code_simp

end
