(* ===== verification/Fat_Dir.thy ===== *)
theory Fat_Dir
  imports Fat_Name
begin

text \<open>
  Directories and the cache of their entries (\<^verbatim>\<open>fs_fat32.c\<close>): references and locks of entries,
  reading, making, updating and removing the slots of a directory, and looking up a name, an
  element of a path and a path. Searching a directory and following the parents of an entry
  are bounded by fuel; without end they are the fault \<open>Spin_forever\<close>.
\<close>

section \<open>References and locks\<close>

abbreviation NAMELEN :: nat where "NAMELEN \<equiv> 255"

definition upd_ent :: "nat \<Rightarrow> (dirent \<Rightarrow> dirent) \<Rightarrow> fs \<Rightarrow> fs" where
  "upd_ent e f s = set_ent s e (f (ent s e))"

text \<open>\<^verbatim>\<open>eget\<close>; the entry pointed to by \<^verbatim>\<open>parent\<close> of a cached entry also gains a reference when the entry had none.\<close>

definition eget :: "fs \<Rightarrow> nat \<Rightarrow> u8 list option \<Rightarrow> (nat \<times> fs) res" where
  "eget s parent name =
     bind_res (lock_acquire (eclock s)) (\<lambda>l.
     let s = s\<lparr>eclock := l\<rparr>;
         hit = (case name of None \<Rightarrow> None
                | Some nm \<Rightarrow> find (\<lambda>e. dvalid (ent s e) = 1 \<and> dparent (ent s e) = Some parent \<and> streq NAMELEN (filename (ent s e)) nm) (eorder s))
     in case hit of
          Some e \<Rightarrow>
            let fresh = (dref (ent s e) = 0);
                s = upd_ent e (\<lambda>d. d\<lparr>dref := dref d + 1\<rparr>) s;
                s = (if fresh then upd_ent parent (\<lambda>d. d\<lparr>dref := dref d + 1\<rparr>) s else s)
            in bind_res (lock_release (eclock s)) (\<lambda>l. Ok (e, s\<lparr>eclock := l\<rparr>))
        | None \<Rightarrow>
            (case find (\<lambda>e. dref (ent s e) = 0) (rev (eorder s)) of
               Some e \<Rightarrow>
                 let s = upd_ent e (\<lambda>d. d\<lparr>dref := 1, ddev := ddev (ent s parent), doff := 0, dvalid := 0, dirty := False\<rparr>) s
                 in bind_res (lock_release (eclock s)) (\<lambda>l. Ok (e, s\<lparr>eclock := l\<rparr>))
             | None \<Rightarrow> Fail (Panic ''eget: insufficient ecache'')))"

definition edup :: "fs \<Rightarrow> nat \<Rightarrow> fs res" where
  "edup s e =
     bind_res (lock_acquire (eclock s)) (\<lambda>l.
     bind_res (lock_release l) (\<lambda>l. Ok (upd_ent e (\<lambda>d. d\<lparr>dref := dref d + 1\<rparr>) (s\<lparr>eclock := l\<rparr>))))"

definition elock :: "fs \<Rightarrow> nat option \<Rightarrow> fs res" where
  "elock s ep =
     (case ep of None \<Rightarrow> Fail (Panic ''elock'')
      | Some e \<Rightarrow> if dref (ent s e) < 1 then Fail (Panic ''elock'')
                  else bind_res (sem_wait (me s) (dsem (ent s e))) (\<lambda>sm. Ok (upd_ent e (\<lambda>d. d\<lparr>dsem := sm\<rparr>) s)))"

definition eunlock :: "fs \<Rightarrow> nat option \<Rightarrow> fs res" where
  "eunlock s ep =
     (case ep of None \<Rightarrow> Fail (Panic ''eunlock'')
      | Some e \<Rightarrow>
         bind_res (sem_hold (me s) (dsem (ent s e))) (\<lambda>(h, sm).
         if \<not> h \<or> dref (ent s e) < 1 then Fail (Panic ''eunlock'')
         else bind_res (sem_signal sm) (\<lambda>(w, sm). Ok (upd_ent e (\<lambda>d. d\<lparr>dsem := sm\<rparr>) (s\<lparr>bc := (bc s)\<lparr>bwoken := bwoken (bc s) @ w\<rparr>\<rparr>)))))"

section \<open>Slots on disk\<close>

definition emake :: "fs \<Rightarrow> nat \<Rightarrow> nat \<Rightarrow> u32 \<Rightarrow> fs res" where
  "emake s dp ep off =
     (if attribute (ent s dp) AND ATTR_DIRECTORY = 0 then Fail (Panic ''emake: not dir'')
      else if off mod 32 \<noteq> 0 then Fail (Panic ''emake: not aligned'')
      else if off \<le> 32
      then let nm = (if off = 0 then [0x2e] @ replicate 10 0x20 else [0x2e, 0x2e] @ replicate 9 0x20);
               de = sne_slot nm ATTR_DIRECTORY (first_clus (ent s ep)) 0
           in bind_res (reloc_clus s dp off True) (\<lambda>(r, s).
              bind_res (rw_clus s (cur_clus (ent s dp)) True (Kern de) 0 (word_of_int r) 32) (\<lambda>(k, s, b). Ok s))
      else let fname = filename (ent s ep);
               entcnt = (length (cstr fname) + 12) div 13;
               shortname = generate_shortname (cstr fname);
               write_slot = (\<lambda>de (s, off). bind_res (reloc_clus s dp off True) (\<lambda>(r, s).
                  bind_res (rw_clus s (cur_clus (ent s dp)) True (Kern de) 0 (word_of_int r) 32) (\<lambda>(k, s, b). Ok (s, off + 32))));
               d = ent s ep
           in bind_res (fold (\<lambda>i m. bind_res m (write_slot (lne_slot fname i entcnt (cal_checksum shortname))))
                  (rev [1..<entcnt + 1]) (Ok (s, off))) (\<lambda>so.
              bind_res (write_slot (sne_slot shortname (attribute d) (first_clus d) (file_size d)) so) (\<lambda>(s, off). Ok s)))"

text \<open>The number of long name slots of an entry, read from its first slot.\<close>

definition slot_order :: "fs \<Rightarrow> nat \<Rightarrow> int \<Rightarrow> (u32 \<times> fs) res" where
  "slot_order s p off =
     bind_res (rw_clus s (cur_clus (ent s p)) False (Kern [0, 0, 0, 0]) 0 (word_of_int off) 1) (\<lambda>(k, s, b).
     case b of Kern bs \<Rightarrow> Ok (le32 bs 0 AND NOT 0x40, s) | User a \<Rightarrow> Fail Null_pointer)"

definition eupdate :: "fs \<Rightarrow> nat \<Rightarrow> fs res" where
  "eupdate s e =
     (if \<not> dirty (ent s e) \<or> dvalid (ent s e) \<noteq> 1 then Ok s
      else case dparent (ent s e) of None \<Rightarrow> Fail Null_pointer
      | Some p \<Rightarrow>
         bind_res (reloc_clus s p (doff (ent s e)) False) (\<lambda>(off, s).
         bind_res (slot_order s p off) (\<lambda>(entcnt, s).
         bind_res (reloc_clus s p (doff (ent s e) + push_bit 5 entcnt) False) (\<lambda>(off, s).
         bind_res (rw_clus s (cur_clus (ent s p)) False (Kern (replicate 32 0)) 0 (word_of_int off) 32) (\<lambda>(k, s, b).
         case b of User a \<Rightarrow> Fail Null_pointer
         | Kern de \<Rightarrow>
            let d = ent s e;
                de = put32 (put16 (put16 de 20 (ucast (drop_bit 16 (first_clus d)))) 26 (ucast (first_clus d AND 0xffff))) 28 (file_size d)
            in bind_res (rw_clus s (cur_clus (ent s p)) True (Kern de) 0 (word_of_int off) 32) (\<lambda>(k, s, b).
               Ok (upd_ent e (\<lambda>d. d\<lparr>dirty := False\<rparr>) s)))))))"

primrec eremove_loop :: "fs \<Rightarrow> nat \<Rightarrow> u32 \<Rightarrow> int \<Rightarrow> nat \<Rightarrow> fs res" where
  "eremove_loop s p off off2 0 = Ok s"
| "eremove_loop s p off off2 (Suc n) =
     bind_res (rw_clus s (cur_clus (ent s p)) True (Kern [0xe5]) 0 (word_of_int off2) 1) (\<lambda>(k, s, b).
     bind_res (reloc_clus s p (off + 32) False) (\<lambda>(off2, s). eremove_loop s p (off + 32) off2 n))"

definition eremove :: "fs \<Rightarrow> nat \<Rightarrow> fs res" where
  "eremove s e =
     (if dvalid (ent s e) \<noteq> 1 then Ok s
      else case dparent (ent s e) of None \<Rightarrow> Fail Null_pointer
      | Some p \<Rightarrow>
         bind_res (reloc_clus s p (doff (ent s e)) False) (\<lambda>(off2, s).
         bind_res (slot_order s p off2) (\<lambda>(entcnt, s).
         bind_res (eremove_loop s p (doff (ent s e)) off2 (unat entcnt + 1)) (\<lambda>s.
         Ok (upd_ent e (\<lambda>d. d\<lparr>dvalid := - 1\<rparr>) s)))))"

text \<open>
  Dropping a reference. The last one writes the entry back, or truncates it when it has been
  removed, and drops the reference to the parent.
\<close>

primrec eput :: "nat \<Rightarrow> fs \<Rightarrow> nat \<Rightarrow> fs res" where
  "eput 0 s e = Fail Spin_forever"
| "eput (Suc fuel) s e =
     bind_res (lock_acquire (eclock s)) (\<lambda>l.
     let s = s\<lparr>eclock := l\<rparr>
     in if e \<noteq> 0 \<and> dvalid (ent s e) \<noteq> 0 \<and> dref (ent s e) = 1
        then bind_res (sem_wait (me s) (dsem (ent s e))) (\<lambda>sm.
             let s = (upd_ent e (\<lambda>d. d\<lparr>dsem := sm\<rparr>) s)\<lparr>eorder := e # remove1 e (eorder s)\<rparr>
             in bind_res (lock_release (eclock s)) (\<lambda>l.
                let s = s\<lparr>eclock := l\<rparr>
                in bind_res (if dvalid (ent s e) = - 1 then etrunc s e
                             else bind_res (elock s (dparent (ent s e))) (\<lambda>s.
                                  bind_res (eupdate s e) (\<lambda>s. eunlock s (dparent (ent s e))))) (\<lambda>s.
                   bind_res (sem_signal (dsem (ent s e))) (\<lambda>(w, sm).
                   let s = upd_ent e (\<lambda>d. d\<lparr>dsem := sm\<rparr>) (s\<lparr>bc := (bc s)\<lparr>bwoken := bwoken (bc s) @ w\<rparr>\<rparr>);
                       eparent = dparent (ent s e)
                   in bind_res (lock_acquire (eclock s)) (\<lambda>l.
                      bind_res (lock_release l) (\<lambda>l.
                      let s = upd_ent e (\<lambda>d. d\<lparr>dref := dref d - 1\<rparr>) (s\<lparr>eclock := l\<rparr>)
                      in if dref (ent s e) = 0
                         then (case eparent of None \<Rightarrow> Fail Null_pointer | Some p \<Rightarrow> eput fuel s p)
                         else Ok s))))))
        else bind_res (lock_release l) (\<lambda>l. Ok (upd_ent e (\<lambda>d. d\<lparr>dref := dref d - 1\<rparr>) (s\<lparr>eclock := l\<rparr>))))"

record kstat =
  st_name :: "u8 list"
  st_dev :: u8
  st_type :: nat
  st_size :: u32

definition estat :: "dirent \<Rightarrow> kstat" where
  "estat de = \<lparr>st_name = take 32 (cstr (filename de)), st_dev = ddev de,
     st_type = (if attribute de AND ATTR_DIRECTORY \<noteq> 0 then 1 else 2), st_size = file_size de\<rparr>"

section \<open>Searching a directory\<close>

text \<open>
  The loop of \<^verbatim>\<open>enext\<close>: \<open>cnt\<close> empty slots so far, the name gathered in \<open>ep\<close>; \<open>have\<close> says that
  the pointer \<^verbatim>\<open>count\<close> is not yet null.
\<close>

primrec enext_loop :: "nat \<Rightarrow> fs \<Rightarrow> nat \<Rightarrow> dirent \<Rightarrow> u32 \<Rightarrow> int \<Rightarrow> bool \<Rightarrow> int \<Rightarrow> (int \<times> int \<times> dirent \<times> fs) res" where
  "enext_loop 0 s dp ep off cnt have_count count' = Fail Spin_forever"
| "enext_loop (Suc fuel) s dp ep off cnt have_count count' =
     bind_res (reloc_clus s dp off False) (\<lambda>(off2, s).
     if off2 = - 1 then Ok (- 1, count', ep, s)
     else bind_res (rw_clus s (cur_clus (ent s dp)) False (Kern (replicate 32 0)) 0 (word_of_int off2) 32) (\<lambda>(k, s, b).
     case b of User a \<Rightarrow> Fail Null_pointer
     | Kern de \<Rightarrow>
        if k \<noteq> 32 \<or> de ! 0 = 0 then Ok (- 1, count', ep, s)
        else if de ! 0 = 0xe5 then enext_loop fuel s dp ep (off + 32) (cnt + 1) have_count count'
        else if cnt \<noteq> 0 then (if have_count then Ok (0, cnt, ep, s) else Fail Null_pointer)
        else if de ! 11 = ATTR_LONG_NAME
        then let lcnt = uint (de ! 0 AND NOT 0x40); last_slot = (de ! 0 AND 0x40 \<noteq> 0)
             in if last_slot \<and> \<not> have_count then Fail Null_pointer
                else bind_res (read_entry_name (filename ep) ((lcnt - 1) * 13) de) (\<lambda>nm.
                     enext_loop fuel s dp (ep\<lparr>filename := nm\<rparr>) (off + 32) cnt (have_count \<and> \<not> last_slot)
                       (if last_slot then lcnt + 1 else count'))
        else bind_res (if have_count then read_entry_name (filename ep) 0 de else Ok (filename ep)) (\<lambda>nm.
             Ok (1, if have_count then 1 else count', read_entry_info (ep\<lparr>filename := nm\<rparr>) de, s))))"

definition enext :: "nat \<Rightarrow> fs \<Rightarrow> nat \<Rightarrow> dirent \<Rightarrow> u32 \<Rightarrow> int \<Rightarrow> (int \<times> int \<times> dirent \<times> fs) res" where
  "enext fuel s dp ep off count' =
     (if attribute (ent s dp) AND ATTR_DIRECTORY = 0 then Fail (Panic ''enext not dir'')
      else if dvalid ep \<noteq> 0 then Fail (Panic ''enext ep valid'')
      else if off mod 32 \<noteq> 0 then Fail (Panic ''enext not align'')
      else if dvalid (ent s dp) \<noteq> 1 then Ok (- 1, count', ep, s)
      else enext_loop fuel s dp (ep\<lparr>filename := replicate 256 0\<rparr>) off 0 True count')"

text \<open>
  The loop of \<^verbatim>\<open>dirlookup\<close>. The test reads \<^verbatim>\<open>type = enext(...) != -1\<close>: \<open>ty\<close> is 1 for every result but -1. \<open>poff\<close> is
  the value stored through the pointer, \<open>want\<close> that the pointer is not null.
\<close>

primrec dirlookup_loop :: "nat \<Rightarrow> fs \<Rightarrow> nat \<Rightarrow> nat \<Rightarrow> u8 list \<Rightarrow> int \<Rightarrow> u32 \<Rightarrow> int \<Rightarrow> bool \<Rightarrow> u32 \<Rightarrow> (bool \<times> bool \<times> u32 \<times> u32 \<times> fs) res" where
  "dirlookup_loop 0 s dp ep fname entcnt off count' want poff = Fail Spin_forever"
| "dirlookup_loop (Suc fuel) s dp ep fname entcnt off count' want poff =
     bind_res (enext fuel s dp (ent s ep) off count') (\<lambda>(r, count', d, s).
     let s = set_ent s ep d; ty = (if r \<noteq> - 1 then 1 else 0 :: int)
     in if ty = 0 then Ok (False, want, poff, off, s)
        else if ty \<noteq> 0 \<and> streq NAMELEN fname (filename (ent s ep))
        then bind_res (edup s dp) (\<lambda>s.
             Ok (True, want, poff, off, upd_ent ep (\<lambda>d. d\<lparr>dparent := Some dp, doff := off, dvalid := 1\<rparr>) s))
        else dirlookup_loop fuel s dp ep fname entcnt (off + push_bit 5 (word_of_int count')) count' want poff)"

text \<open>The entry found, if any, and the offset for a new one.\<close>

definition dirlookup :: "nat \<Rightarrow> fs \<Rightarrow> nat \<Rightarrow> u8 list \<Rightarrow> bool \<Rightarrow> u32 \<Rightarrow> (nat option \<times> u32 \<times> fs) res" where
  "dirlookup fuel s dp fname want poff =
     (if attribute (ent s dp) AND ATTR_DIRECTORY = 0 then Fail (Panic ''dirlookup not DIR'')
      else if streq NAMELEN fname [0x2e] then bind_res (edup s dp) (\<lambda>s. Ok (Some dp, poff, s))
      else if streq NAMELEN fname [0x2e, 0x2e]
      then (if dp = 0 then bind_res (edup s 0) (\<lambda>s. Ok (Some 0, poff, s))
            else (case dparent (ent s dp) of
                    None \<Rightarrow> Ok (None, poff, s)
                  | Some p \<Rightarrow> bind_res (edup s p) (\<lambda>s. Ok (Some p, poff, s))))
      else if dvalid (ent s dp) \<noteq> 1 then Ok (None, poff, s)
      else bind_res (eget s dp (Some fname)) (\<lambda>(ep, s).
           if dvalid (ent s ep) = 1 then Ok (Some ep, poff, s)
           else let entcnt = int ((length (cstr fname) + 12) div 13 + 1)
                in bind_res (reloc_clus s dp 0 False) (\<lambda>(r, s).
                   bind_res (dirlookup_loop fuel s dp ep fname entcnt 0 0 want poff) (\<lambda>(found, want, poff, off, s).
                   if found then Ok (Some ep, poff, s)
                   else let poff = (if want then off else poff)
                        in bind_res (eput fuel s ep) (\<lambda>s. Ok (None, poff, s))))))"

definition ealloc :: "nat \<Rightarrow> fs \<Rightarrow> nat \<Rightarrow> u8 list \<Rightarrow> u8 \<Rightarrow> (nat option \<times> fs) res" where
  "ealloc fuel s dp name attr =
     (if attribute (ent s dp) AND ATTR_DIRECTORY = 0 then Fail (Panic ''ealloc not dir'')
      else if dvalid (ent s dp) \<noteq> 1 then Ok (None, s)
      else case formatname name of None \<Rightarrow> Ok (None, s)
      | Some name \<Rightarrow>
         bind_res (dirlookup fuel s dp name True 0) (\<lambda>(found, off, s).
         case found of Some ep \<Rightarrow> Ok (Some ep, s)
         | None \<Rightarrow>
            bind_res (eget s dp (Some name)) (\<lambda>(ep, s).
            bind_res (elock s (Some ep)) (\<lambda>s.
            bind_res (edup s dp) (\<lambda>s.
            let s = upd_ent ep (\<lambda>d. d\<lparr>attribute := attr, file_size := 0, first_clus := 0, dparent := Some dp, doff := off,
                      clus_cnt := 0, cur_clus := 0, dirty := False,
                      filename := take 255 (cstr name @ replicate 255 0) @ [0]\<rparr>) s
            in bind_res (if attr = ATTR_DIRECTORY
                         then bind_res (alloc_clus s (ddev (ent s dp))) (\<lambda>(c, s).
                              let s = upd_ent ep (\<lambda>d. d\<lparr>attribute := attribute d OR ATTR_DIRECTORY, cur_clus := c, first_clus := c\<rparr>) s
                              in bind_res (emake s ep ep 0) (\<lambda>s. emake s ep dp 32))
                         else Ok (upd_ent ep (\<lambda>d. d\<lparr>attribute := attribute d OR ATTR_ARCHIVE\<rparr>) s)) (\<lambda>s.
               bind_res (emake s dp ep off) (\<lambda>s.
               bind_res (eunlock (upd_ent ep (\<lambda>d. d\<lparr>dvalid := 1\<rparr>) s) (Some ep)) (\<lambda>s.
               Ok (Some ep, s)))))))))"

section \<open>Paths\<close>

text \<open>The next element of a path, at most 255 bytes of it, and what follows it.\<close>

definition skipelem :: "u8 list \<Rightarrow> (u8 list \<times> u8 list) option" where
  "skipelem path =
     (let path = dropWhile (\<lambda>c. c = 0x2f) path
      in if path = [] then None
         else Some (take 255 (takeWhile (\<lambda>c. c \<noteq> 0x2f) path), dropWhile (\<lambda>c. c = 0x2f) (dropWhile (\<lambda>c. c \<noteq> 0x2f) path)))"

lemma skipelem_shorter:
  assumes "skipelem path = Some nr"
  shows "length (snd nr) < length path"
proof -
  obtain name rest where nr: "nr = (name, rest)" by fastforce
  then have a: "skipelem path = Some (name, rest)" using assms by simp
  let ?p = "dropWhile (\<lambda>c. c = 0x2f) path"
  have p: "?p \<noteq> []" "rest = dropWhile (\<lambda>c. c = 0x2f) (dropWhile (\<lambda>c. c \<noteq> 0x2f) ?p)"
    using a by (auto simp: skipelem_def Let_def split: if_splits)
  then obtain x xs where x: "?p = x # xs" by (cases ?p) auto
  then have x2f: "x \<noteq> 0x2f" using hd_dropWhile [OF p(1)] by simp
  have "length rest \<le> length (dropWhile (\<lambda>c. c \<noteq> 0x2f) ?p)" unfolding p(2) by (rule length_dropWhile_le)
  also have "\<dots> = length (dropWhile (\<lambda>c. c \<noteq> 0x2f) xs)" unfolding x using x2f by simp
  also have "\<dots> \<le> length xs" by (rule length_dropWhile_le)
  finally have "length rest \<le> length xs" .
  moreover have "length ?p \<le> length path" by (rule length_dropWhile_le)
  ultimately show ?thesis using x nr by simp
qed

function lookup_loop :: "nat \<Rightarrow> fs \<Rightarrow> nat \<Rightarrow> u8 list \<Rightarrow> bool \<Rightarrow> u8 list \<Rightarrow> (nat option \<times> u8 list \<times> fs) res" where
  "lookup_loop fuel s e path parent nm =
     (case skipelem path of
        None \<Rightarrow> if parent then bind_res (eput fuel s e) (\<lambda>s. Ok (None, nm, s)) else Ok (Some e, nm, s)
      | Some nr \<Rightarrow>
         bind_res (elock s (Some e)) (\<lambda>s.
         if attribute (ent s e) AND ATTR_DIRECTORY = 0
         then bind_res (eunlock s (Some e)) (\<lambda>s. bind_res (eput fuel s e) (\<lambda>s. Ok (None, (fst nr), s)))
         else if parent \<and> (snd nr) = [] then bind_res (eunlock s (Some e)) (\<lambda>s. Ok (Some e, (fst nr), s))
         else bind_res (dirlookup fuel s e (fst nr) False 0) (\<lambda>(nxt, po, s).
              bind_res (eunlock s (Some e)) (\<lambda>s.
              bind_res (eput fuel s e) (\<lambda>s.
              case nxt of None \<Rightarrow> Ok (None, (fst nr), s)
              | Some e' \<Rightarrow> lookup_loop fuel s e' (snd nr) parent (fst nr))))))"
  by pat_completeness auto
termination
proof (relation "measure (\<lambda>(f, s, e, path, p, n). length path)", goal_cases)
  case (2 fuel s e path parent nm nr)
  then show ?case by (simp (no_asm_simp) add: skipelem_shorter)
qed simp

declare lookup_loop.simps [simp del]

text \<open>
  \<open>cwd\<close> is the current directory of the task; \<open>nm\<close> is what the array \<^verbatim>\<open>name\<close> held before. A null
  \<open>cwd\<close> is returned as it is by \<^verbatim>\<open>edup\<close> and makes \<^verbatim>\<open>elock\<close> panic.
\<close>

definition lookup_path :: "nat \<Rightarrow> fs \<Rightarrow> nat option \<Rightarrow> u8 list \<Rightarrow> bool \<Rightarrow> u8 list \<Rightarrow> (nat option \<times> u8 list \<times> fs) res" where
  "lookup_path fuel s cwd path parent nm =
     (case path of
        [] \<Rightarrow> Ok (None, nm, s)
      | c # cs \<Rightarrow>
         if c = 0x2f then bind_res (edup s 0) (\<lambda>s. lookup_loop fuel s 0 path parent nm)
         else (case cwd of
                 None \<Rightarrow> Fail (Panic ''elock'')
               | Some e \<Rightarrow> bind_res (edup s e) (\<lambda>s. lookup_loop fuel s e path parent nm)))"

definition ename :: "nat \<Rightarrow> fs \<Rightarrow> nat option \<Rightarrow> u8 list \<Rightarrow> (nat option \<times> fs) res" where
  "ename fuel s cwd path = bind_res (lookup_path fuel s cwd path False []) (\<lambda>(e, nm, s). Ok (e, s))"

definition enameparent :: "nat \<Rightarrow> fs \<Rightarrow> nat option \<Rightarrow> u8 list \<Rightarrow> (nat option \<times> u8 list \<times> fs) res" where
  "enameparent fuel s cwd path = lookup_path fuel s cwd path True []"

end
