(* ===== verification/Sched.thy ===== *)
theory Sched
  imports Spinlock Ucopy
begin

text \<open>
  Tasks and their scheduling: the task manager (\<^verbatim>\<open>tk_manage.c\<close>), sleeping, waking and the idle
  loop (\<^verbatim>\<open>tk_proc.c\<close>), yielding and waiting for children (\<^verbatim>\<open>tk_task.c\<close>). Tasks run on one hart:
  \<^verbatim>\<open>main\<close> never lets the other one past its first loop. Pointers to task control blocks are
  numbers, 0 is \<^verbatim>\<open>INITPROC\<close>. A queue of tasks is the list of the tasks whose \<^verbatim>\<open>tag\<close> is in it, which
  is what the linked lists of the code implement as long as no tag is in two of them; linking a
  tag a second time is the fault \<open>Relinked\<close>. The theorems are about the state machine that the
  operations form: every task that can run is in one queue, none is lost, and the ready queue
  is served in order.
\<close>

section \<open>The state\<close>

datatype TaskStatus = UNINIT | Ready | Running | Zombie | Sleeping

text \<open>What scheduling reads and writes of \<^verbatim>\<open>struct TaskControlBlock\<close>; \<open>tag_linked\<close> says that the links of \<^verbatim>\<open>tag\<close> are set.\<close>

record tcb =
  pid :: u64
  tcb_lock :: klock
  task_status :: TaskStatus
  exit_code :: u32
  parent :: "nat option"
  child :: "nat list"
  tag_linked :: bool
  stimes :: u32
  utimes :: u32

text \<open>The task manager, the tasks and \<^verbatim>\<open>cpu->current\<close>.\<close>

record sched =
  tm_lock :: klock
  ready_queue :: "nat list"
  sleep_vec :: "nat list"
  all_task :: "nat list"
  tasks :: "nat \<Rightarrow> tcb"
  current :: "nat option"

definition INITPROC :: nat where "INITPROC = 0"

abbreviation set_task :: "sched \<Rightarrow> nat \<Rightarrow> tcb \<Rightarrow> sched" where
  "set_task s t d \<equiv> s\<lparr>tasks := (tasks s)(t := d)\<rparr>"

definition tm_init :: "sched \<Rightarrow> sched" where
  "tm_init s = s\<lparr>tm_lock := False, ready_queue := [], all_task := [], sleep_vec := []\<rparr>"

text \<open>Setting and clearing the links of a tag.\<close>

definition link_tag :: "sched \<Rightarrow> nat \<Rightarrow> sched res" where
  "link_tag s t = (if tag_linked (tasks s t) then Fail Relinked else Ok (set_task s t ((tasks s t)\<lparr>tag_linked := True\<rparr>)))"

definition unlink_tag :: "sched \<Rightarrow> nat \<Rightarrow> sched" where
  "unlink_tag s t = set_task s t ((tasks s t)\<lparr>tag_linked := False\<rparr>)"

definition set_status :: "sched \<Rightarrow> nat \<Rightarrow> TaskStatus \<Rightarrow> sched" where
  "set_status s t st = set_task s t ((tasks s t)\<lparr>task_status := st\<rparr>)"

definition lock_task :: "sched \<Rightarrow> nat \<Rightarrow> sched res" where
  "lock_task s t = bind_res (lock_acquire (tcb_lock (tasks s t))) (\<lambda>l. Ok (set_task s t ((tasks s t)\<lparr>tcb_lock := l\<rparr>)))"

definition unlock_task :: "sched \<Rightarrow> nat \<Rightarrow> sched res" where
  "unlock_task s t = bind_res (lock_release (tcb_lock (tasks s t))) (\<lambda>l. Ok (set_task s t ((tasks s t)\<lparr>tcb_lock := l\<rparr>)))"

section \<open>The task manager\<close>

definition task_create :: "sched \<Rightarrow> nat \<Rightarrow> sched res" where
  "task_create s t =
     bind_res (lock_acquire (tm_lock s)) (\<lambda>l.
     if t \<in> set (all_task s) then Fail Relinked
     else bind_res (lock_release l) (\<lambda>l. Ok (s\<lparr>tm_lock := l, all_task := t # all_task s\<rparr>)))"

definition task_add :: "sched \<Rightarrow> nat \<Rightarrow> sched res" where
  "task_add s t =
     bind_res (lock_acquire (tm_lock s)) (\<lambda>l.
     bind_res (link_tag (s\<lparr>tm_lock := l\<rparr>) t) (\<lambda>s.
     let s = s\<lparr>ready_queue := ready_queue s @ [t]\<rparr>
     in bind_res (lock_release (tm_lock s)) (\<lambda>l. Ok (s\<lparr>tm_lock := l\<rparr>))))"

definition task_fetch :: "sched \<Rightarrow> (nat option \<times> sched) res" where
  "task_fetch s =
     bind_res (lock_acquire (tm_lock s)) (\<lambda>l.
     let s = s\<lparr>tm_lock := l\<rparr>
     in case ready_queue s of
          [] \<Rightarrow> bind_res (lock_release (tm_lock s)) (\<lambda>l. Ok (None, s\<lparr>tm_lock := l\<rparr>))
        | t # q \<Rightarrow>
            let s = unlink_tag (s\<lparr>ready_queue := q\<rparr>) t
            in bind_res (lock_release (tm_lock s)) (\<lambda>l. Ok (Some t, s\<lparr>tm_lock := l\<rparr>)))"

section \<open>Sleeping, waking, running\<close>

definition mytask :: "sched \<Rightarrow> nat option" where
  "mytask s = current s"

text \<open>
  \<^verbatim>\<open>sleep\<close> up to the call of \<^verbatim>\<open>schedule\<close>, on the wait queue \<open>wq\<close>. The lock is \<open>None\<close> when it is the
  one of the task itself, which then stays held, and otherwise the state of the lock.
\<close>

definition sleep_enter :: "sched \<Rightarrow> nat list \<Rightarrow> klock option \<Rightarrow> (nat list \<times> klock option \<times> sched) res" where
  "sleep_enter s wq lo =
     (case mytask s of
        None \<Rightarrow> Fail Null_pointer
      | Some p \<Rightarrow>
          bind_res (case lo of
                      None \<Rightarrow> Ok (None, s)
                    | Some l \<Rightarrow> bind_res (lock_task s p) (\<lambda>s. bind_res (lock_release l) (\<lambda>l. Ok (Some l, s)))) (\<lambda>(lo, s).
          if tag_linked (tasks s p) then Fail (Panic ''????'')
          else bind_res (link_tag s p) (\<lambda>s. Ok (wq @ [p], lo, set_status s p Sleeping))))"

text \<open>What \<^verbatim>\<open>sleep\<close> does once the task runs again.\<close>

definition sleep_leave :: "sched \<Rightarrow> klock option \<Rightarrow> (klock option \<times> sched) res" where
  "sleep_leave s lo =
     (case mytask s of
        None \<Rightarrow> Fail Null_pointer
      | Some p \<Rightarrow> (case lo of
          None \<Rightarrow> Ok (None, s)
        | Some l \<Rightarrow> bind_res (unlock_task s p) (\<lambda>s. bind_res (lock_acquire l) (\<lambda>l. Ok (Some l, s)))))"

definition wakeup_fromwq :: "sched \<Rightarrow> nat list \<Rightarrow> (nat list \<times> sched) res" where
  "wakeup_fromwq s wq =
     (case wq of
        [] \<Rightarrow> Ok (wq, s)
      | p # wq \<Rightarrow>
          let s = unlink_tag s p
          in if task_status (tasks s p) \<noteq> Sleeping then Fail (Panic ''!!!!'')
             else bind_res (task_add (set_status s p Ready) p) (\<lambda>s. Ok (wq, s)))"

definition wakeup_fromsv :: "sched \<Rightarrow> nat \<Rightarrow> sched res" where
  "wakeup_fromsv s p =
     (if p \<in> set (sleep_vec s)
      then let s = unlink_tag ((set_status s p Ready)\<lparr>sleep_vec := remove1 p (sleep_vec s)\<rparr>) p
           in task_add s p
      else Ok s)"

text \<open>One turn of the endless loop of \<^verbatim>\<open>run\<close>, up to the switch to the task it returns.\<close>

definition run_turn :: "sched \<Rightarrow> (nat option \<times> sched) res" where
  "run_turn s =
     bind_res (task_fetch s) (\<lambda>(task, s).
     bind_res (if ready_queue s = []
               then (case all_task s of
                       [] \<Rightarrow> Ok s
                     | t # ts \<Rightarrow> bind_res (link_tag (s\<lparr>all_task := ts\<rparr>) t) (\<lambda>s. Ok (s\<lparr>ready_queue := t # ready_queue s\<rparr>)))
               else Ok s) (\<lambda>s.
     case task of
       None \<Rightarrow> Ok (None, s)
     | Some t \<Rightarrow> Ok (Some t, (set_status s t Running)\<lparr>current := Some t\<rparr>)))"

definition suspend_current_and_run_next :: "sched \<Rightarrow> sched res" where
  "suspend_current_and_run_next s =
     (case mytask s of
        None \<Rightarrow> Fail Null_pointer
      | Some t \<Rightarrow>
          bind_res (lock_task s t) (\<lambda>s.
          bind_res (unlock_task (set_status s t Ready) t) (\<lambda>s.
          task_add s t)))"

section \<open>Ending and waiting\<close>

text \<open>
  The first half of \<^verbatim>\<open>exit_current_and_run_next\<close>: the task becomes a zombie and its children go
  to \<^verbatim>\<open>INITPROC\<close>. Its resources are released while its lock is held.
\<close>

definition exit_begin :: "sched \<Rightarrow> u32 \<Rightarrow> (nat \<times> sched) res" where
  "exit_begin s code =
     (case mytask s of
        None \<Rightarrow> Fail Null_pointer
      | Some t \<Rightarrow>
          if t = INITPROC then Fail (Panic ''initproc exit'')
          else bind_res (lock_task s t) (\<lambda>s.
               let s = set_task s t ((tasks s t)\<lparr>task_status := Zombie, exit_code := code\<rparr>)
               in bind_res (lock_task s INITPROC) (\<lambda>s.
                  let cs = child (tasks s t);
                      s = s\<lparr>tasks := (\<lambda>c. if c \<in> set cs then (tasks s c)\<lparr>parent := Some INITPROC\<rparr> else tasks s c)\<rparr>;
                      s = set_task s t ((tasks s t)\<lparr>child := []\<rparr>);
                      s = set_task s INITPROC ((tasks s INITPROC)\<lparr>child := child (tasks s INITPROC) @ cs\<rparr>)
                  in bind_res (unlock_task s INITPROC) (\<lambda>s. Ok (t, s)))))"

text \<open>The second half, up to the call of \<^verbatim>\<open>schedule\<close> that never returns.\<close>

definition exit_end :: "sched \<Rightarrow> nat \<Rightarrow> sched res" where
  "exit_end s t =
     (let original_parent = parent (tasks s t)
      in bind_res (unlock_task s t) (\<lambda>s.
         case original_parent of None \<Rightarrow> Ok s | Some p \<Rightarrow> wakeup_fromsv s p))"

text \<open>The result of an operation that may put the caller to sleep.\<close>

datatype 'a outcome = Return 'a | Blocked

text \<open>
  The search of \<^verbatim>\<open>waitpid\<close> through the children: the first zombie that is asked for, and whether
  any child is. Each child is locked while it is looked at.
\<close>

primrec wait_scan :: "sched \<Rightarrow> u64 \<Rightarrow> bool \<Rightarrow> nat list \<Rightarrow> (nat option \<times> bool) res" where
  "wait_scan s pd flag [] = Ok (None, flag)"
| "wait_scan s pd flag (c # cs) =
     bind_res (lock_acquire (tcb_lock (tasks s c))) (\<lambda>l.
     if (pd = - 1 \<or> pd = pid (tasks s c)) \<and> task_status (tasks s c) = Zombie then Ok (Some c, True)
     else wait_scan s pd (flag \<or> pd = - 1 \<or> pd = pid (tasks s c)) cs)"

text \<open>
  One turn of the loop of \<^verbatim>\<open>waitpid\<close>, with the lock of the caller held. The exit code of the child
  is shifted in place before it is copied to the user.
\<close>

definition wait_turn :: "ucx \<Rightarrow> sched \<Rightarrow> u64 \<Rightarrow> u64 \<Rightarrow> u32 \<Rightarrow> bool \<Rightarrow> (u64 outcome \<times> ucx \<times> sched) res" where
  "wait_turn u s pd addr options flag =
     (case mytask s of
        None \<Rightarrow> Fail Null_pointer
      | Some p \<Rightarrow>
          bind_res (wait_scan s pd flag (child (tasks s p))) (\<lambda>(found, flag).
          case found of
            Some c \<Rightarrow>
              let s = set_task s c ((tasks s c)\<lparr>exit_code := push_bit 8 (exit_code (tasks s c))\<rparr>)
              in bind_res (if addr = 0 then Ok (0, u)
                           else bind_res (copyout2 (usz u) (umem u) (upt u) addr (le_bytes 4 (ucast (exit_code (tasks s c)))) 4)
                                  (\<lambda>(r, m). Ok (r, u\<lparr>umem := m\<rparr>))) (\<lambda>(r, u).
                 if r < 0 then bind_res (unlock_task s p) (\<lambda>s. Ok (Return (- 1), u, s))
                 else bind_res (unlock_task (set_task s p ((tasks s p)\<lparr>child := remove1 c (child (tasks s p))\<rparr>)) p) (\<lambda>s.
                      Ok (Return (pid (tasks s c)), u, s)))
          | None \<Rightarrow>
              if \<not> flag \<or> task_status (tasks s p) = Zombie then bind_res (unlock_task s p) (\<lambda>s. Ok (Return (- 1), u, s))
              else if options = 0
                   then bind_res (sleep_enter s (sleep_vec s) None) (\<lambda>(wq, lo, s). Ok (Blocked, u, s\<lparr>sleep_vec := wq\<rparr>))
                   else Ok (Return 0, u, s)))"

definition waitpid :: "ucx \<Rightarrow> sched \<Rightarrow> u64 \<Rightarrow> u64 \<Rightarrow> u32 \<Rightarrow> (u64 outcome \<times> ucx \<times> sched) res" where
  "waitpid u s pd addr options =
     (case mytask s of
        None \<Rightarrow> Fail Null_pointer
      | Some p \<Rightarrow> bind_res (lock_task s p) (\<lambda>s. wait_turn u s pd addr options False))"

definition wait_any :: "ucx \<Rightarrow> sched \<Rightarrow> u64 \<Rightarrow> (u64 outcome \<times> ucx \<times> sched) res" where
  "wait_any u s addr = waitpid u s (- 1) addr 0"

text \<open>The four counters of \<^verbatim>\<open>struct tms\<close>.\<close>

definition getTimes :: "sched \<Rightarrow> (u32 \<times> u32 \<times> u32 \<times> u32) res" where
  "getTimes s =
     (case mytask s of
        None \<Rightarrow> Fail Null_pointer
      | Some p \<Rightarrow> Ok (utimes (tasks s p), stimes (tasks s p), 0, 0))"

section \<open>The state machine\<close>

text \<open>
  The hart runs the idle loop or a task. The wait queues of pipes and semaphores are numbered.
  \<open>Spawn\<close> and \<open>Create\<close> are \<^verbatim>\<open>fork\<close> and \<^verbatim>\<open>tcb_new\<close> with a control block that has not been used, followed
  by \<^verbatim>\<open>task_add\<close> and \<^verbatim>\<open>task_create\<close>; \<open>Wait\<close> and \<open>Waited\<close> are \<^verbatim>\<open>waitpid\<close> and its loop after a wake-up.
\<close>

datatype mode = Idle | Busy

datatype event =
    Dispatch nat | Turn | Yield | SleepOn nat | Awake | WakeFrom nat
  | Wait ucx u64 u64 u32 | Waited ucx u64 u64 u32 | Exit u32 | Spawn nat tcb | Create nat tcb

type_synonym config = "mode \<times> sched \<times> (nat \<Rightarrow> nat list)"

fun mode_after :: "'a outcome \<Rightarrow> mode" where
  "mode_after (Return x) = Busy"
| "mode_after Blocked = Idle"

definition new_task :: "sched \<Rightarrow> nat \<Rightarrow> tcb \<Rightarrow> bool" where
  "new_task s t d \<longleftrightarrow> task_status (tasks s t) = UNINIT \<and> task_status d = Ready \<and> \<not> tag_linked d"

inductive sched_step :: "config \<Rightarrow> event \<Rightarrow> config \<Rightarrow> bool" where
  dispatch: "run_turn s = Ok (Some t, s') \<Longrightarrow> sched_step (Idle, s, q) (Dispatch t) (Busy, s', q)"
| turn: "run_turn s = Ok (None, s') \<Longrightarrow> sched_step (Idle, s, q) Turn (Idle, s', q)"
| yield: "suspend_current_and_run_next s = Ok s' \<Longrightarrow> sched_step (Busy, s, q) Yield (Idle, s', q)"
| sleep_on: "sleep_enter s (q i) (Some l) = Ok (wq, l', s') \<Longrightarrow> sched_step (Busy, s, q) (SleepOn i) (Idle, s', q(i := wq))"
| awake: "sleep_leave s (Some l) = Ok (l', s') \<Longrightarrow> sched_step (Busy, s, q) Awake (Busy, s', q)"
| wake_from: "wakeup_fromwq s (q i) = Ok (wq, s') \<Longrightarrow> sched_step (Busy, s, q) (WakeFrom i) (Busy, s', q(i := wq))"
| wait: "waitpid u s pd addr opts = Ok (r, u', s') \<Longrightarrow> sched_step (Busy, s, q) (Wait u pd addr opts) (mode_after r, s', q)"
| waited: "wait_turn u s pd addr opts True = Ok (r, u', s') \<Longrightarrow> sched_step (Busy, s, q) (Waited u pd addr opts) (mode_after r, s', q)"
| exit: "exit_begin s code = Ok (t, s1) \<Longrightarrow> exit_end s1 t = Ok s' \<Longrightarrow> sched_step (Busy, s, q) (Exit code) (Idle, s', q)"
| spawn: "new_task s t d \<Longrightarrow> task_add (set_task s t d) t = Ok s' \<Longrightarrow> sched_step (Busy, s, q) (Spawn t d) (Busy, s', q)"
| create: "new_task s t d \<Longrightarrow> task_create (set_task s t d) t = Ok s' \<Longrightarrow> sched_step (Busy, s, q) (Create t d) (Busy, s', q)"

inductive sched_run :: "config \<Rightarrow> event list \<Rightarrow> config \<Rightarrow> bool" where
  run_nil: "sched_run c [] c"
| run_step: "sched_step c e c1 \<Longrightarrow> sched_run c1 es c2 \<Longrightarrow> sched_run c (e # es) c2"

section \<open>Every task is in one place\<close>

text \<open>The tasks in a wait queue, and that no wait queue shares a task with another.\<close>

definition waiting :: "nat list \<Rightarrow> (nat \<Rightarrow> nat list) \<Rightarrow> nat set" where
  "waiting V q = set V \<union> (\<Union>i. set (q i))"

definition apart :: "nat list \<Rightarrow> (nat \<Rightarrow> nat list) \<Rightarrow> bool" where
  "apart V q \<longleftrightarrow> distinct V \<and> (\<forall>i. distinct (q i)) \<and> (\<forall>i. set V \<inter> set (q i) = {}) \<and> (\<forall>i j. i \<noteq> j \<longrightarrow> set (q i) \<inter> set (q j) = {})"

lemma waiting_add_q:
  "waiting V (q(i := q i @ [t])) = insert t (waiting V q)" "apart V q \<Longrightarrow> t \<notin> waiting V q \<Longrightarrow> apart V (q(i := q i @ [t]))"
  by (auto simp: waiting_def apart_def split: if_splits)

lemma waiting_add_v:
  "waiting (V @ [t]) q = insert t (waiting V q)" "apart V q \<Longrightarrow> t \<notin> waiting V q \<Longrightarrow> apart (V @ [t]) q"
  by (auto simp: waiting_def apart_def)

lemma apart_subset:
  assumes "apart V q" and "\<And>j. set (q' j) \<subseteq> set (q j) \<and> distinct (q' j)" and "set V' \<subseteq> set V" "distinct V'"
  shows "apart V' q'"
  unfolding apart_def
proof (intro conjI allI impI)
  show "set V' \<inter> set (q' i) = {}" for i using assms unfolding apart_def by (meson disjoint_iff subsetD)
  show "set (q' i) \<inter> set (q' j) = {}" if "i \<noteq> j" for i j
    using assms(1) assms(2) [of i] assms(2) [of j] that unfolding apart_def by (meson disjoint_iff subsetD)
qed (use assms in auto)

lemma waiting_drop_q:
  assumes "apart V q" "q i = t # ts"
  shows "waiting V (q(i := ts)) = waiting V q - {t}" "apart V (q(i := ts))"
proof -
  have t: "t \<notin> set ts" "t \<notin> set V" using assms unfolding apart_def by (metis distinct.simps(2), metis IntI empty_iff list.set_intros(1))
  have o: "t \<notin> set (q j)" if "j \<noteq> i" for j
    using assms that unfolding apart_def by (metis IntI empty_iff list.set_intros(1))
  have s: "set (q i) = insert t (set ts)" using assms(2) by simp
  show "waiting V (q(i := ts)) = waiting V q - {t}"
  proof (intro set_eqI)
    fix x
    have "x \<in> waiting V q \<longleftrightarrow> x \<in> set V \<or> x \<in> insert t (set ts) \<or> (\<exists>j. j \<noteq> i \<and> x \<in> set (q j))"
      unfolding waiting_def using s by auto
    moreover have "x \<in> waiting V (q(i := ts)) \<longleftrightarrow> x \<in> set V \<or> x \<in> set ts \<or> (\<exists>j. j \<noteq> i \<and> x \<in> set (q j))"
      unfolding waiting_def by auto
    ultimately show "x \<in> waiting V (q(i := ts)) \<longleftrightarrow> x \<in> waiting V q - {t}" using t o by auto
  qed
  have "set ts \<subseteq> set (q i)" "distinct ts" using s assms by (auto simp: apart_def dest!: spec [of _ i])
  then show "apart V (q(i := ts))" using assms(1) by (intro apart_subset [OF assms(1)]) (auto simp: apart_def)
qed

lemma waiting_drop_v:
  assumes "apart V q" "t \<in> set V"
  shows "waiting (remove1 t V) q = waiting V q - {t}" "apart (remove1 t V) q"
proof -
  have "distinct V" "\<And>i. t \<notin> set (q i)" using assms unfolding apart_def by auto
  then show "waiting (remove1 t V) q = waiting V q - {t}" by (auto simp: waiting_def set_remove1_eq)
  show "apart (remove1 t V) q"
    using assms(1) set_remove1_subset [of t V] by (intro apart_subset [OF assms(1)]) (auto simp: apart_def)
qed

text \<open>
  The invariant in terms of the queues, the states of the tasks, which tags are linked, and the
  running task: the ready tasks are those in the ready queue or not yet started, the sleeping ones
  are in one wait queue each, and the running one is in none.
\<close>

definition places :: "mode \<Rightarrow> nat list \<Rightarrow> nat list \<Rightarrow> nat list \<Rightarrow> (nat \<Rightarrow> nat list) \<Rightarrow> (nat \<Rightarrow> TaskStatus) \<Rightarrow> (nat \<Rightarrow> bool) \<Rightarrow> nat option \<Rightarrow> bool" where
  "places m R V A q st ln cur \<longleftrightarrow>
     distinct R \<and> distinct A \<and> set R \<inter> set A = {} \<and> apart V q
     \<and> (\<forall>t. st t = Ready \<longleftrightarrow> t \<in> set R \<or> t \<in> set A)
     \<and> (\<forall>t. st t = Sleeping \<longleftrightarrow> t \<in> waiting V q)
     \<and> (\<forall>t. st t = Running \<longleftrightarrow> m = Busy \<and> cur = Some t)
     \<and> (\<forall>t. ln t \<longleftrightarrow> t \<in> set R \<or> t \<in> waiting V q)
     \<and> (m = Busy \<longrightarrow> cur \<noteq> None)"

lemma placesD:
  assumes "places m R V A q st ln cur"
  shows "distinct R" "distinct A" "set R \<inter> set A = {}" "apart V q"
    "st t = Ready \<longleftrightarrow> t \<in> set R \<or> t \<in> set A" "st t = Sleeping \<longleftrightarrow> t \<in> waiting V q"
    "st t = Running \<longleftrightarrow> m = Busy \<and> cur = Some t" "ln t \<longleftrightarrow> t \<in> set R \<or> t \<in> waiting V q" "m = Busy \<Longrightarrow> cur \<noteq> None"
  using assms unfolding places_def by blast+

lemma places_running:
  assumes "places Busy R V A q st ln (Some t)"
  shows "st t = Running" "\<not> ln t" "t \<notin> set R" "t \<notin> set A" "t \<notin> waiting V q"
  using placesD(5-8) [OF assms, of t] by auto

text \<open>The moves of a task between the places.\<close>

lemma places_ready:
  assumes P: "places m R V A q st ln cur" and t: "\<not> ln t" "st t \<noteq> Ready" and m: "m' = (if st t = Running then Idle else m)"
  shows "places m' (R @ [t]) V A q (st(t := Ready)) (ln(t := True)) cur"
proof -
  note d = placesD [OF P]
  have "t \<notin> set R" "t \<notin> set A" "t \<notin> waiting V q" using t d(5) [of t] d(8) [of t] by auto
  then show ?thesis unfolding places_def using d m by (auto split: if_splits)
qed

lemma places_sleep:
  assumes P: "places Busy R V A q st ln (Some t)" and w: "waiting V' q' = insert t (waiting V q)" "apart V' q'"
  shows "places Idle R V' A q' (st(t := Sleeping)) (ln(t := True)) (Some t)"
proof -
  note d = placesD [OF P] and r = places_running [OF P]
  show ?thesis unfolding places_def using d r w by auto
qed

lemma places_wake:
  assumes P: "places m R V A q st ln cur" and t: "t \<in> waiting V q" and w: "waiting V' q' = waiting V q - {t}" "apart V' q'"
  shows "places m (R @ [t]) V' A q' (st(t := Ready)) (ln(t := True)) cur"
proof -
  note d = placesD [OF P]
  have s: "st t = Sleeping" using d(6) t by blast
  then have "t \<notin> set R" "t \<notin> set A" "\<not> (m = Busy \<and> cur = Some t)" using d(5) [of t] d(7) [of t] by auto
  then show ?thesis unfolding places_def using d w s by auto
qed

lemma places_fetch:
  assumes P: "places Idle (t # R) V A q st ln cur"
  shows "places Busy R V A q (st(t := Running)) (ln(t := False)) (Some t)"
proof -
  note d = placesD [OF P]
  have s: "st t = Ready" using d(5) by simp
  then have "t \<notin> waiting V q" "t \<notin> set R" "t \<notin> set A" using d(1,3) d(6) [of t] by auto
  then show ?thesis unfolding places_def using d s by auto
qed

lemma places_refill:
  assumes P: "places m [] V (t # A) q st ln cur"
  shows "places m [t] V A q st (ln(t := True)) cur"
proof -
  note d = placesD [OF P]
  have s: "st t = Ready" using d(5) by simp
  then have "t \<notin> waiting V q" using d(6) [of t] by auto
  then show ?thesis unfolding places_def using d s by auto
qed

lemma places_new:
  assumes P: "places m R V A q st ln cur" and t: "st t = UNINIT"
  shows "places m (R @ [t]) V A q (st(t := Ready)) (ln(t := True)) cur" "places m R V (t # A) q (st(t := Ready)) (ln(t := False)) cur" "\<not> ln t" "t \<notin> set A"
proof -
  note d = placesD [OF P]
  have n: "t \<notin> set R" "t \<notin> set A" "t \<notin> waiting V q" "\<not> (m = Busy \<and> cur = Some t)"
    using t d(5) [of t] d(6) [of t] d(7) [of t] by auto
  then show "places m (R @ [t]) V A q (st(t := Ready)) (ln(t := True)) cur" unfolding places_def using d t by auto
  show "places m R V (t # A) q (st(t := Ready)) (ln(t := False)) cur" unfolding places_def using d t n by auto
  show "\<not> ln t" "t \<notin> set A" using n d(8) by auto
qed

lemma places_exit:
  assumes P: "places Busy R V A q st ln (Some t)"
  shows "places Idle R V A q (st(t := Zombie)) ln (Some t)"
proof -
  note d = placesD [OF P] and r = places_running [OF P]
  show ?thesis unfolding places_def using d r by auto
qed

section \<open>The operations keep it\<close>

definition stf :: "sched \<Rightarrow> nat \<Rightarrow> TaskStatus" where
  "stf s t = task_status (tasks s t)"

definition lnf :: "sched \<Rightarrow> nat \<Rightarrow> bool" where
  "lnf s t = tag_linked (tasks s t)"

definition sched_inv :: "config \<Rightarrow> bool" where
  "sched_inv c = (case c of (m, s, q) \<Rightarrow>
     \<not> tm_lock s \<and> places m (ready_queue s) (sleep_vec s) (all_task s) q (stf s) (lnf s) (current s))"

text \<open>The part of the state that the invariant reads.\<close>

definition view :: "sched \<Rightarrow> bool \<times> nat list \<times> nat list \<times> nat list \<times> (nat \<Rightarrow> TaskStatus) \<times> (nat \<Rightarrow> bool) \<times> nat option" where
  "view s = (tm_lock s, ready_queue s, sleep_vec s, all_task s, stf s, lnf s, current s)"

lemma view_eq:
  "view s = (l, R, V, A, st, ln, cur) \<longleftrightarrow> tm_lock s = l \<and> ready_queue s = R \<and> sleep_vec s = V \<and> all_task s = A \<and> stf s = st \<and> lnf s = ln \<and> current s = cur"
  by (auto simp: view_def)

lemma sched_inv_view: "sched_inv (m, s, q) \<longleftrightarrow> (\<exists>R V A st ln cur. view s = (False, R, V, A, st, ln, cur) \<and> places m R V A q st ln cur)"
  by (auto simp: sched_inv_def view_eq)

text \<open>What each operation does to that part.\<close>

lemma view_task: "task_status d = task_status (tasks s t) \<Longrightarrow> tag_linked d = tag_linked (tasks s t) \<Longrightarrow> view (set_task s t d) = view s"
  by (auto simp: view_def stf_def lnf_def fun_eq_iff)

lemma lock_task_view: "lock_task s t = Ok s' \<Longrightarrow> view s' = view s"
  by (auto simp: lock_task_def view_task)

lemma unlock_task_view: "unlock_task s t = Ok s' \<Longrightarrow> view s' = view s"
  by (auto simp: unlock_task_def view_task)

lemma set_status_view: "view s = (l, R, V, A, st, ln, cur) \<Longrightarrow> view (set_status s t x) = (l, R, V, A, st(t := x), ln, cur)"
  by (auto simp: view_eq set_status_def stf_def lnf_def fun_eq_iff)

lemma unlink_view: "view s = (l, R, V, A, st, ln, cur) \<Longrightarrow> view (unlink_tag s t) = (l, R, V, A, st, ln(t := False), cur)"
  by (auto simp: view_eq unlink_tag_def stf_def lnf_def fun_eq_iff)

lemma link_view:
  "view s = (l, R, V, A, st, ln, cur) \<Longrightarrow> link_tag s t = Ok s' \<Longrightarrow> \<not> ln t \<and> view s' = (l, R, V, A, st, ln(t := True), cur)"
  by (auto simp: view_eq link_tag_def stf_def lnf_def fun_eq_iff split: if_splits)

lemma link_ok: "view s = (l, R, V, A, st, ln, cur) \<Longrightarrow> \<not> ln t \<Longrightarrow> \<exists>s'. link_tag s t = Ok s'"
  by (auto simp: view_eq link_tag_def lnf_def)

lemma view_fields:
  assumes "view s = (l, R, V, A, st, ln, cur)"
  shows "view (s\<lparr>tm_lock := l'\<rparr>) = (l', R, V, A, st, ln, cur)" "view (s\<lparr>ready_queue := R'\<rparr>) = (l, R', V, A, st, ln, cur)"
    "view (s\<lparr>sleep_vec := V'\<rparr>) = (l, R, V', A, st, ln, cur)" "view (s\<lparr>all_task := A'\<rparr>) = (l, R, V, A', st, ln, cur)"
    "view (s\<lparr>current := cur'\<rparr>) = (l, R, V, A, st, ln, cur')"
  using assms by (auto simp: view_def stf_def lnf_def fun_eq_iff)

lemma task_add_view:
  assumes "view s = (False, R, V, A, st, ln, cur)" "\<not> ln t"
  shows "\<exists>s'. task_add s t = Ok s' \<and> view s' = (False, R @ [t], V, A, st, ln(t := True), cur)"
proof -
  have tl: "tm_lock s = False" using assms(1) by (simp add: view_eq)
  have v0: "view (s\<lparr>tm_lock := True\<rparr>) = (True, R, V, A, st, ln, cur)" using view_fields(1) [OF assms(1)] .
  obtain s1 where s1: "link_tag (s\<lparr>tm_lock := True\<rparr>) t = Ok s1" using link_ok [OF v0 assms(2)] by blast
  then have v1: "view s1 = (True, R, V, A, st, ln(t := True), cur)" using link_view [OF v0] by blast
  have v2: "view (s1\<lparr>ready_queue := R @ [t]\<rparr>) = (True, R @ [t], V, A, st, ln(t := True), cur)" using view_fields(2) [OF v1] .
  have f: "ready_queue s1 = R" "tm_lock s1 = True" using v1 by (simp_all add: view_eq)
  show ?thesis using tl s1 f view_fields(1) [OF v2, of False] by (simp add: task_add_def Let_def)
qed

lemma task_fetch_view:
  assumes "view s = (False, R, V, A, st, ln, cur)"
  shows "R = [] \<Longrightarrow> \<exists>s'. task_fetch s = Ok (None, s') \<and> view s' = view s"
    "R = t # R' \<Longrightarrow> \<exists>s'. task_fetch s = Ok (Some t, s') \<and> view s' = (False, R', V, A, st, ln(t := False), cur)"
proof -
  have tl: "tm_lock s = False" "ready_queue s = R" using assms by (simp_all add: view_eq)
  show "\<exists>s'. task_fetch s = Ok (None, s') \<and> view s' = view s" if "R = []"
    using tl that assms view_fields(1) [OF assms, of False] by (simp add: task_fetch_def Let_def)
  assume R: "R = t # R'"
  have v1: "view (s\<lparr>tm_lock := True, ready_queue := R'\<rparr>) = (True, R', V, A, st, ln, cur)"
    using view_fields(2) [OF view_fields(1) [OF assms]] .
  let ?s2 = "unlink_tag (s\<lparr>tm_lock := True, ready_queue := R'\<rparr>) t"
  have v2: "view ?s2 = (True, R', V, A, st, ln(t := False), cur)" using unlink_view [OF v1] .
  have l2: "tm_lock ?s2 = True" using v2 by (simp add: view_eq)
  show "\<exists>s'. task_fetch s = Ok (Some t, s') \<and> view s' = (False, R', V, A, st, ln(t := False), cur)"
    using tl R l2 view_fields(1) [OF v2, of False] by (simp add: task_fetch_def Let_def)
qed

lemma wakeup_wq_view:
  assumes v: "view s = (False, R, V, A, st, ln, cur)" and t: "st t = Sleeping"
  shows "\<exists>s'. wakeup_fromwq s (t # ts) = Ok (ts, s') \<and> view s' = (False, R @ [t], V, A, st(t := Ready), ln(t := True), cur)"
proof -
  note v1 = unlink_view [OF v, of t] and v2 = set_status_view [OF unlink_view [OF v, of t], of t Ready]
  obtain s' where s': "task_add (set_status (unlink_tag s t) t Ready) t = Ok s'"
    "view s' = (False, R @ [t], V, A, st(t := Ready), (ln(t := False))(t := True), cur)"
    using task_add_view [OF v2, of t] by auto
  have "task_status (tasks (unlink_tag s t) t) = Sleeping" using v1 t by (auto simp: view_eq stf_def fun_eq_iff)
  then show ?thesis using s' by (simp add: wakeup_fromwq_def Let_def)
qed

lemma wakeup_sv_view:
  assumes v: "view s = (False, R, V, A, st, ln, cur)"
  shows "\<exists>s'. wakeup_fromsv s t = Ok s' \<and> view s' =
    (if t \<in> set V then (False, R @ [t], remove1 t V, A, st(t := Ready), ln(t := True), cur) else view s)"
proof (cases "t \<in> set V")
  case True
  have V: "sleep_vec s = V" using v by (simp add: view_eq)
  note v1 = unlink_view [OF view_fields(3) [OF set_status_view [OF v, of t Ready], of "remove1 t V"], of t]
  obtain s' where "task_add (unlink_tag ((set_status s t Ready)\<lparr>sleep_vec := remove1 t V\<rparr>) t) t = Ok s'"
    "view s' = (False, R @ [t], remove1 t V, A, st(t := Ready), (ln(t := False))(t := True), cur)"
    using task_add_view [OF v1, of t] by auto
  then show ?thesis using True V by (simp add: wakeup_fromsv_def Let_def)
qed (use v in \<open>simp add: wakeup_fromsv_def view_eq\<close>)

lemma sleep_enter_view:
  assumes v: "view s = (l, R, V, A, st, ln, Some t)" and e: "sleep_enter s wq lo = Ok (wq', lo', s')"
  shows "wq' = wq @ [t] \<and> \<not> ln t \<and> view s' = (l, R, V, A, st(t := Sleeping), ln(t := True), Some t)"
proof -
  have c: "mytask s = Some t" using v by (simp add: view_eq mytask_def)
  obtain s1 s2 lo1 where s1: "(case lo of None \<Rightarrow> Ok (None, s) | Some l \<Rightarrow> bind_res (lock_task s t) (\<lambda>s. bind_res (lock_release l) (\<lambda>l. Ok (Some l, s)))) = Ok (lo1, s1)"
    and s2: "link_tag s1 t = Ok s2" "s' = set_status s2 t Sleeping" "wq' = wq @ [t]"
    using e c by (auto simp: sleep_enter_def split: if_splits)
  have "view s1 = view s" using s1 lock_task_view by (auto split: option.splits)
  then have v1: "view s1 = (l, R, V, A, st, ln, Some t)" using v by simp
  note v2 = link_view [OF v1 s2(1)]
  show ?thesis using set_status_view [OF conjunct2 [OF v2], of t Sleeping] v2 s2 by simp
qed

text \<open>A turn of the idle loop: the head of the ready queue runs, and an empty queue takes the next task that has not started.\<close>

lemma run_turn_view:
  assumes v: "view s = (False, R, V, A, st, ln, cur)" and P: "places Idle R V A q st ln cur"
  shows "\<exists>task s' R' A' st' ln' cur'. run_turn s = Ok (task, s') \<and> view s' = (False, R', V, A', st', ln', cur')
    \<and> places (case task of None \<Rightarrow> Idle | Some t \<Rightarrow> Busy) R' V A' q st' ln' cur'
    \<and> (case task of None \<Rightarrow> R = [] | Some t \<Rightarrow> R \<noteq> [] \<and> t = hd R \<and> cur' = Some t \<and> (tl R \<noteq> [] \<longrightarrow> R' = tl R))"
proof -
  define R1 where "R1 = tl R"
  define ln1 where "ln1 = (if R = [] then ln else ln(hd R := False))"
  define task where "task = (if R = [] then None else Some (hd R))"
  define st2 where "st2 = (if R = [] then st else st(hd R := Running))"
  define cur2 where "cur2 = (if R = [] then cur else Some (hd R))"
  define m where "m = (if R = [] then Idle else Busy)"
  obtain s1 where s1: "task_fetch s = Ok (task, s1)" "view s1 = (False, R1, V, A, st, ln1, cur)"
    using task_fetch_view [OF v] v by (cases R) (auto simp: task_def R1_def ln1_def)
  have P2: "places m R1 V A q st2 ln1 cur2"
    using P places_fetch by (cases R) (auto simp: R1_def ln1_def st2_def cur2_def m_def)
  show ?thesis
  proof (cases "R1 = [] \<and> A \<noteq> []")
    case True
    then obtain t A' where A: "A = t # A'" and R1: "R1 = []" by (cases A) auto
    have P3: "places m [t] V A' q st2 (ln1(t := True)) cur2" using places_refill P2 A R1 by simp
    have "\<not> ln1 t" using placesD(8) [OF P2, of t] placesD(5,6) [OF P2, of t] A R1 by auto
    then obtain s2 where s2: "link_tag (s1\<lparr>all_task := A'\<rparr>) t = Ok s2" "view s2 = (False, R1, V, A', st, ln1(t := True), cur)"
      using link_ok [OF view_fields(4) [OF s1(2)]] link_view [OF view_fields(4) [OF s1(2)]] by blast
    have f: "ready_queue s1 = []" "all_task s1 = t # A'" "ready_queue s2 = []" using s1(2) s2(2) A R1 by (simp_all add: view_eq)
    note v3 = view_fields(2) [OF s2(2), of "[t]"]
    note v4 = view_fields(5) [OF set_status_view [OF v3, of "hd R" Running], of "Some (hd R)"]
    show ?thesis using s1(1) s2(1) f P3 v3 v4 R1
      by (cases R) (auto simp: run_turn_def task_def st2_def cur2_def m_def R1_def)
  next
    case False
    note v4 = view_fields(5) [OF set_status_view [OF s1(2), of "hd R" Running], of "Some (hd R)"]
    have f: "ready_queue s1 = R1" "all_task s1 = A" using s1(2) by (simp_all add: view_eq)
    show ?thesis using s1 f P2 v4 False
      by (cases R; cases A) (auto simp: run_turn_def task_def st2_def cur2_def m_def R1_def)
  qed
qed

lemma suspend_view:
  assumes v: "view s = (False, R, V, A, st, ln, Some t)" and e: "suspend_current_and_run_next s = Ok s'"
  shows "\<not> ln t \<and> view s' = (False, R @ [t], V, A, st(t := Ready), ln(t := True), Some t)"
proof -
  have c: "mytask s = Some t" using v by (simp add: view_eq mytask_def)
  obtain s1 s2 where s: "lock_task s t = Ok s1" "unlock_task (set_status s1 t Ready) t = Ok s2" "task_add s2 t = Ok s'"
    using e c by (auto simp: suspend_current_and_run_next_def)
  have "view s2 = (False, R, V, A, st(t := Ready), ln, Some t)"
    using unlock_task_view [OF s(2)] set_status_view [OF lock_task_view [OF s(1), unfolded v], of t Ready] by simp
  then show ?thesis using s(3) task_add_view [of s2 R V A "st(t := Ready)" ln "Some t" t]
    by (auto simp: task_add_def view_eq lnf_def link_tag_def split: if_splits)
qed

text \<open>Reparenting touches neither states nor tags.\<close>

lemma exit_begin_view:
  assumes v: "view s = (l, R, V, A, st, ln, Some t)" and e: "exit_begin s code = Ok (t', s')"
  shows "t' = t \<and> t \<noteq> INITPROC \<and> view s' = (l, R, V, A, st(t := Zombie), ln, Some t)"
proof -
  have c: "mytask s = Some t" using v by (simp add: view_eq mytask_def)
  obtain s1 s3 s4 where s: "lock_task s t = Ok s1"
    "lock_task (set_task s1 t ((tasks s1 t)\<lparr>task_status := Zombie, exit_code := code\<rparr>)) INITPROC = Ok s3"
    "t' = t" "t \<noteq> INITPROC" and s4: "unlock_task s4 INITPROC = Ok s'" "view s4 = view s3"
    using e c unfolding exit_begin_def Let_def
    by (auto simp: view_def stf_def lnf_def fun_eq_iff split: if_splits)
  have v1: "view s1 = (l, R, V, A, st, ln, Some t)" using lock_task_view [OF s(1)] v by simp
  have "view (set_task s1 t ((tasks s1 t)\<lparr>task_status := Zombie, exit_code := code\<rparr>)) = (l, R, V, A, st(t := Zombie), ln, Some t)"
    using v1 by (auto simp: view_eq stf_def lnf_def fun_eq_iff)
  then show ?thesis using s(3,4) unlock_task_view [OF s4(1)] s4(2) lock_task_view [OF s(2)] by simp
qed

lemma exit_end_view:
  assumes v: "view s = (False, R, V, A, st, ln, cur)" and e: "exit_end s t = Ok s'"
  shows "view s' = view s \<or> (\<exists>p \<in> set V. view s' = (False, R @ [p], remove1 p V, A, st(p := Ready), ln(p := True), cur))"
proof -
  obtain s1 where s1: "unlock_task s t = Ok s1" "(case parent (tasks s t) of None \<Rightarrow> Ok s1 | Some p \<Rightarrow> wakeup_fromsv s1 p) = Ok s'"
    using e by (auto simp: exit_end_def Let_def)
  have v1: "view s1 = (False, R, V, A, st, ln, cur)" using unlock_task_view [OF s1(1)] v by simp
  show ?thesis
  proof (cases "parent (tasks s t)")
    case None
    then show ?thesis using s1(2) v v1 by simp
  next
    case (Some p)
    then show ?thesis using s1(2) v v1 wakeup_sv_view [OF v1, of p] by (auto split: if_splits)
  qed
qed

text \<open>A turn of \<^verbatim>\<open>waitpid\<close> leaves the queues alone or puts the caller to sleep.\<close>

lemma wait_turn_view:
  assumes v: "view s = (l, R, V, A, st, ln, Some t)" and e: "wait_turn u s pd addr opts flag = Ok (r, u', s')"
  shows "case r of Return x \<Rightarrow> view s' = view s | Blocked \<Rightarrow> \<not> ln t \<and> view s' = (l, R, V @ [t], A, st(t := Sleeping), ln(t := True), Some t)"
proof -
  have c: "mytask s = Some t" "sleep_vec s = V" using v by (simp_all add: view_eq mytask_def)
  obtain found flag' where f: "wait_scan s pd flag (child (tasks s t)) = Ok (found, flag')"
    using e c by (auto simp: wait_turn_def)
  show ?thesis
  proof (cases found)
    case (Some z)
    have "view (set_task (set_task s z ((tasks s z)\<lparr>exit_code := x\<rparr>)) t ((tasks (set_task s z ((tasks s z)\<lparr>exit_code := x\<rparr>)) t)\<lparr>child := y\<rparr>)) = view s" for x y
      by (simp add: view_def stf_def lnf_def fun_eq_iff)
    then show ?thesis using Some e c f
      by (auto simp: wait_turn_def Let_def view_task dest!: unlock_task_view split: if_splits)
  next
    case None
    then show ?thesis using e c f sleep_enter_view [OF v] view_fields(3)
      by (auto simp: wait_turn_def dest!: unlock_task_view split: if_splits)
  qed
qed

lemma waitpid_view:
  assumes v: "view s = (l, R, V, A, st, ln, Some t)" and e: "waitpid u s pd addr opts = Ok (r, u', s')"
  shows "case r of Return x \<Rightarrow> view s' = view s | Blocked \<Rightarrow> \<not> ln t \<and> view s' = (l, R, V @ [t], A, st(t := Sleeping), ln(t := True), Some t)"
proof -
  have c: "mytask s = Some t" using v by (simp add: view_eq mytask_def)
  obtain s1 where s1: "lock_task s t = Ok s1" "wait_turn u s1 pd addr opts False = Ok (r, u', s')"
    using e c by (auto simp: waitpid_def)
  have v1: "view s1 = (l, R, V, A, st, ln, Some t)" using lock_task_view [OF s1(1)] v by simp
  show ?thesis using wait_turn_view [OF v1 s1(2)] v v1 by (cases r) simp_all
qed

lemma blocked_places:
  assumes P: "places Busy R V A q st ln (Some t)"
    and r: "case r of Return x \<Rightarrow> view s' = (False, R, V, A, st, ln, Some t)
      | Blocked \<Rightarrow> view s' = (False, R, V @ [t], A, st(t := Sleeping), ln(t := True), Some t)"
  shows "sched_inv (mode_after r, s', q)"
proof (cases r)
  case (Return x)
  then show ?thesis using P r by (auto simp: sched_inv_view)
next
  case Blocked
  have "places Idle R (V @ [t]) A q (st(t := Sleeping)) (ln(t := True)) (Some t)"
    using places_sleep [OF P waiting_add_v] placesD(4) [OF P] places_running(5) [OF P] by blast
  then show ?thesis using Blocked r by (auto simp: sched_inv_view)
qed

lemma sched_step_inv:
  assumes "sched_step c e c'" "sched_inv c"
  shows "sched_inv c'"
  using assms
proof (induction rule: sched_step.induct)
  case (dispatch s t s' q)
  then obtain R V A st ln cur where v: "view s = (False, R, V, A, st, ln, cur)" "places Idle R V A q st ln cur" by (auto simp: sched_inv_view)
  show ?case using run_turn_view [OF v] dispatch(1) by (auto simp: sched_inv_view)
next
  case (turn s s' q)
  then obtain R V A st ln cur where v: "view s = (False, R, V, A, st, ln, cur)" "places Idle R V A q st ln cur" by (auto simp: sched_inv_view)
  show ?case using run_turn_view [OF v] turn(1) by (auto simp: sched_inv_view)
next
  case (yield s s' q)
  then obtain R V A st ln cur where v: "view s = (False, R, V, A, st, ln, cur)" and P: "places Busy R V A q st ln cur" by (auto simp: sched_inv_view)
  obtain t where t: "cur = Some t" using placesD(9) [OF P] by auto
  have "places Idle (R @ [t]) V A q (st(t := Ready)) (ln(t := True)) (Some t)"
    using places_ready [OF P, of t Idle] places_running [OF P [unfolded t]] t by simp
  then show ?case using suspend_view [OF v [unfolded t] yield(1)] by (auto simp: sched_inv_view)
next
  case (sleep_on s q i l wq l' s')
  then obtain R V A st ln cur where v: "view s = (False, R, V, A, st, ln, cur)" and P: "places Busy R V A q st ln cur" by (auto simp: sched_inv_view)
  obtain t where t: "cur = Some t" using placesD(9) [OF P] by auto
  note e = sleep_enter_view [OF v [unfolded t] sleep_on(1)] and P' = P [unfolded t]
  have "places Idle R V A (q(i := q i @ [t])) (st(t := Sleeping)) (ln(t := True)) (Some t)"
    using places_sleep [OF P' waiting_add_q] placesD(4) [OF P'] places_running(5) [OF P'] by blast
  then show ?case using e by (auto simp: sched_inv_view)
next
  case (awake s l l' s' q)
  then have "view s' = view s" by (auto simp: sleep_leave_def dest: unlock_task_view split: option.splits)
  then show ?case using awake(2) by (auto simp: sched_inv_view)
next
  case (wake_from s q i wq s')
  then obtain R V A st ln cur where v: "view s = (False, R, V, A, st, ln, cur)" and P: "places Busy R V A q st ln cur" by (auto simp: sched_inv_view)
  show ?case
  proof (cases "q i")
    case Nil
    then have "wq = q i" "s' = s" using wake_from(1) by (auto simp: wakeup_fromwq_def)
    then show ?thesis using wake_from(2) by simp
  next
    case (Cons t ts)
    then have t: "t \<in> waiting V q" by (auto simp: waiting_def intro!: exI [of _ i])
    have w: "wq = ts" "view s' = (False, R @ [t], V, A, st(t := Ready), ln(t := True), cur)"
      using wakeup_wq_view [OF v, of t ts] placesD(6) [OF P, of t] t wake_from(1) Cons by auto
    show ?thesis using places_wake [OF P t waiting_drop_q [OF placesD(4) [OF P] Cons]] w by (auto simp: sched_inv_view)
  qed
next
  case (wait u s pd addr opts r u' s' q)
  then obtain R V A st ln cur where v: "view s = (False, R, V, A, st, ln, cur)" and P: "places Busy R V A q st ln cur" by (auto simp: sched_inv_view)
  obtain t where t: "cur = Some t" using placesD(9) [OF P] by auto
  show ?case
    using blocked_places [OF P [unfolded t], where r = r and s' = s'] waitpid_view [OF v [unfolded t] wait(1)] v t by (cases r) auto
next
  case (waited u s pd addr opts r u' s' q)
  then obtain R V A st ln cur where v: "view s = (False, R, V, A, st, ln, cur)" and P: "places Busy R V A q st ln cur" by (auto simp: sched_inv_view)
  obtain t where t: "cur = Some t" using placesD(9) [OF P] by auto
  show ?case
    using blocked_places [OF P [unfolded t], where r = r and s' = s'] wait_turn_view [OF v [unfolded t] waited(1)] v t by (cases r) auto
next
  case (exit s code t s1 s' q)
  then obtain R V A st ln cur where v: "view s = (False, R, V, A, st, ln, cur)" and P: "places Busy R V A q st ln cur" by (auto simp: sched_inv_view)
  obtain u where u: "cur = Some u" using placesD(9) [OF P] by auto
  have v1: "view s1 = (False, R, V, A, st(u := Zombie), ln, Some u)" using exit_begin_view [OF v [unfolded u] exit(1)] by simp
  have P1: "places Idle R V A q (st(u := Zombie)) ln (Some u)" using places_exit [OF P [unfolded u]] .
  from exit_end_view [OF v1 exit(2)] show ?case
  proof
    assume "view s' = view s1"
    then show ?thesis using v1 P1 by (auto simp: sched_inv_view)
  next
    assume "\<exists>p \<in> set V. view s' = (False, R @ [p], remove1 p V, A, (st(u := Zombie))(p := Ready), ln(p := True), Some u)"
    then obtain p where p: "p \<in> set V" "view s' = (False, R @ [p], remove1 p V, A, (st(u := Zombie))(p := Ready), ln(p := True), Some u)" by blast
    have "p \<in> waiting V q" using p(1) by (simp add: waiting_def)
    then show ?thesis using places_wake [OF P1 _ waiting_drop_v [OF placesD(4) [OF P] p(1)]] p(2) by (auto simp: sched_inv_view)
  qed
next
  case (spawn s t d s' q)
  then obtain R V A st ln cur where v: "view s = (False, R, V, A, st, ln, cur)" and P: "places Busy R V A q st ln cur" by (auto simp: sched_inv_view)
  have u: "st t = UNINIT" using spawn(1) v by (auto simp: new_task_def view_eq stf_def)
  have "view (set_task s t d) = (False, R, V, A, st(t := Ready), ln(t := False), cur)"
    using v spawn(1) by (auto simp: view_eq new_task_def stf_def lnf_def fun_eq_iff)
  then have "view s' = (False, R @ [t], V, A, st(t := Ready), ln(t := True), cur)"
    using task_add_view [of "set_task s t d" R V A "st(t := Ready)" "ln(t := False)" cur t] spawn(2) by auto
  then show ?case using places_new(1) [OF P u] by (auto simp: sched_inv_view)
next
  case (create s t d s' q)
  then obtain R V A st ln cur where v: "view s = (False, R, V, A, st, ln, cur)" and P: "places Busy R V A q st ln cur" by (auto simp: sched_inv_view)
  have u: "st t = UNINIT" using create(1) v by (auto simp: new_task_def view_eq stf_def)
  have "view s' = (False, R, V, t # A, st(t := Ready), ln(t := False), cur)"
    using v create by (auto simp: task_create_def view_eq new_task_def stf_def lnf_def fun_eq_iff split: if_splits)
  then show ?case using places_new(2) [OF P u] by (auto simp: sched_inv_view)
qed

section \<open>The ready queue is served in order\<close>

definition queue_moves :: "nat list \<Rightarrow> event \<Rightarrow> nat list \<Rightarrow> bool" where
  "queue_moves R e R' = (case e of
     Dispatch t \<Rightarrow> R \<noteq> [] \<and> t = hd R \<and> (tl R \<noteq> [] \<longrightarrow> R' = tl R)
   | _ \<Rightarrow> R \<noteq> [] \<longrightarrow> (\<exists>new. R' = R @ new))"

lemma view_ready: "view s = (l, R, V, A, st, ln, cur) \<Longrightarrow> ready_queue s = R"
  by (simp add: view_eq)

lemma sched_step_queue:
  assumes "sched_step (m, s, q) e (m', s', q')" "sched_inv (m, s, q)"
  shows "queue_moves (ready_queue s) e (ready_queue s')"
proof -
  obtain R V A st ln cur where v: "view s = (False, R, V, A, st, ln, cur)" and P: "places m R V A q st ln cur"
    using assms(2) by (auto simp: sched_inv_view)
  have busy: "\<exists>t. cur = Some t" if "m = Busy" using placesD(9) [OF P that] by simp
  show ?thesis using assms(1)
  proof (cases rule: sched_step.cases)
    case (dispatch t)
    then show ?thesis using run_turn_view [OF v, of q] P by (auto simp: queue_moves_def view_eq v [THEN view_ready])
  next
    case turn
    then show ?thesis using run_turn_view [OF v, of q] P by (auto simp: queue_moves_def view_ready [OF v])
  next
    case yield
    then obtain t where "cur = Some t" using busy by blast
    then show ?thesis using suspend_view [of s R V A st ln t s'] yield v by (auto simp: queue_moves_def view_eq)
  next
    case (sleep_on i l wq l')
    then obtain t where "cur = Some t" using busy by blast
    then show ?thesis using sleep_enter_view [of s False R V A st ln t _ _ wq l' s'] sleep_on v by (auto simp: queue_moves_def view_eq)
  next
    case (awake l l')
    then have "view s' = view s" by (auto simp: sleep_leave_def dest: unlock_task_view split: option.splits)
    then show ?thesis using awake by (auto simp: queue_moves_def view_def)
  next
    case (wake_from i wq)
    show ?thesis
    proof (cases "q i")
      case Nil
      then show ?thesis using wake_from by (auto simp: wakeup_fromwq_def queue_moves_def)
    next
      case (Cons t ts)
      then have "t \<in> waiting V q" by (auto simp: waiting_def intro!: exI [of _ i])
      then show ?thesis using wakeup_wq_view [OF v, of t ts] placesD(6) [OF P, of t] Cons wake_from by (auto simp: queue_moves_def view_eq v [THEN view_ready])
    qed
  next
    case (wait u pd addr opts r u')
    then obtain t where "cur = Some t" using busy by blast
    then show ?thesis using waitpid_view [of s False R V A st ln t u pd addr opts r u' s'] wait v by (cases r) (auto simp: queue_moves_def view_eq)
  next
    case (waited u pd addr opts r u')
    then obtain t where "cur = Some t" using busy by blast
    then show ?thesis using wait_turn_view [of s False R V A st ln t u pd addr opts True r u' s'] waited v by (cases r) (auto simp: queue_moves_def view_eq)
  next
    case (exit code t s1)
    then obtain u where u: "cur = Some u" using busy by blast
    have "view s1 = (False, R, V, A, st(u := Zombie), ln, Some u)" using exit_begin_view [of s False R V A st ln u code t s1] exit v u by simp
    then show ?thesis using exit_end_view [of s1 R V A "st(u := Zombie)" ln "Some u" t s'] exit v by (auto simp: queue_moves_def view_def)
  next
    case (spawn t d)
    then show ?thesis by (auto simp: queue_moves_def task_add_def Let_def link_tag_def split: if_splits)
  next
    case (create t d)
    then show ?thesis by (auto simp: queue_moves_def task_create_def split: if_splits)
  qed
qed

fun is_dispatch :: "event \<Rightarrow> bool" where
  "is_dispatch (Dispatch t) = True"
| "is_dispatch _ = False"

lemma queue_moves_other:
  assumes "queue_moves R e R'" "\<not> is_dispatch e" "i < length R"
  shows "i < length R' \<and> R' ! i = R ! i"
proof -
  have "R \<noteq> []" using assms(3) by auto
  then obtain new where "R' = R @ new" using assms(1,2) by (cases e) (auto simp: queue_moves_def)
  then show ?thesis using assms(3) by (simp add: nth_append)
qed

lemma queue_moves_dispatch:
  assumes "queue_moves R (Dispatch t) R'" "i < length R"
  shows "t = R ! 0" "0 < i \<Longrightarrow> i - 1 < length R' \<and> R' ! (i - 1) = R ! i"
proof -
  show "t = R ! 0" using assms by (cases R) (auto simp: queue_moves_def)
  assume "0 < i"
  moreover obtain x xs where R: "R = x # xs" using assms(2) by (cases R) auto
  moreover from calculation have "xs \<noteq> []" using assms(2) by auto
  ultimately show "i - 1 < length R' \<and> R' ! (i - 1) = R ! i" using assms by (cases i) (auto simp: queue_moves_def)
qed

lemma served_in_order:
  assumes "sched_run c es c'" "c = (m, s, q)" "sched_inv c" "i < length (ready_queue s)" "i < length (filter is_dispatch es)"
  shows "filter is_dispatch es ! i = Dispatch (ready_queue s ! i)"
  using assms
proof (induction arbitrary: m s q i rule: sched_run.induct)
  case (run_step c e c1 es c2)
  obtain m1 s1 q1 where c1: "c1 = (m1, s1, q1)" by (cases c1)
  have inv1: "sched_inv c1" using sched_step_inv [OF run_step.hyps(1) run_step.prems(2)] .
  have mv: "queue_moves (ready_queue s) e (ready_queue s1)"
    using sched_step_queue run_step.hyps(1) run_step.prems(1,2) c1 by blast
  show ?case
  proof (cases e)
    case (Dispatch t)
    note d = queue_moves_dispatch [OF mv [unfolded Dispatch] run_step.prems(3)]
    show ?thesis
    proof (cases i)
      case 0
      then show ?thesis using d(1) Dispatch by simp
    next
      case (Suc j)
      then show ?thesis using run_step.IH [OF c1 inv1, of j] d(2) run_step.prems(4) Dispatch by simp
    qed
  qed (use queue_moves_other [OF mv _ run_step.prems(3)] run_step.IH [OF c1 inv1, of i] run_step.prems(4) in simp_all)
qed simp

section \<open>The lock of a task that waits\<close>

text \<open>What the operations of other tasks leave to task \<open>p\<close>: its lock, and that its control block is in use.\<close>

definition keeps :: "nat \<Rightarrow> sched \<Rightarrow> sched \<Rightarrow> bool" where
  "keeps p s s' \<longleftrightarrow> tcb_lock (tasks s' p) = tcb_lock (tasks s p) \<and> current s' = current s
     \<and> (task_status (tasks s p) \<noteq> UNINIT \<longrightarrow> task_status (tasks s' p) \<noteq> UNINIT)"

lemma keeps_trans: "keeps p s s1 \<Longrightarrow> keeps p s1 s2 \<Longrightarrow> keeps p s s2"
  by (auto simp: keeps_def)

lemma keeps_task:
  assumes "t \<noteq> p"
  shows "keeps p s (set_task s t d)" "lock_task s t = Ok s' \<Longrightarrow> keeps p s s'" "unlock_task s t = Ok s' \<Longrightarrow> keeps p s s'"
  using assms by (auto simp: keeps_def lock_task_def unlock_task_def)

lemma keeps_status: "x \<noteq> UNINIT \<Longrightarrow> keeps p s (set_status s t x)"
  by (auto simp: keeps_def set_status_def)

lemma keeps_tag: "keeps p s (unlink_tag s t)" "link_tag s t = Ok s' \<Longrightarrow> keeps p s s'"
  by (auto simp: keeps_def unlink_tag_def link_tag_def split: if_splits)

lemma keeps_fields [simp]:
  "keeps p s (s'\<lparr>tm_lock := l\<rparr>) = keeps p s s'" "keeps p s (s'\<lparr>ready_queue := R\<rparr>) = keeps p s s'"
  "keeps p s (s'\<lparr>sleep_vec := V\<rparr>) = keeps p s s'" "keeps p s (s'\<lparr>all_task := A\<rparr>) = keeps p s s'"
  "keeps p (s\<lparr>tm_lock := l\<rparr>) s' = keeps p s s'" "keeps p (s\<lparr>all_task := A\<rparr>) s' = keeps p s s'" "keeps p (s\<lparr>sleep_vec := V\<rparr>) s' = keeps p s s'"
  "keeps p (s\<lparr>ready_queue := R\<rparr>) s' = keeps p s s'" "keeps p s s"
  by (simp_all add: keeps_def)

lemma keeps_add: "task_add s t = Ok s' \<Longrightarrow> keeps p s s'"
  using keeps_tag(2) [of _ t _ p] by (fastforce simp: task_add_def Let_def)

lemma keeps_create: "task_create s t = Ok s' \<Longrightarrow> keeps p s s'"
  by (auto simp: task_create_def split: if_splits)

lemma keeps_wake:
  shows "wakeup_fromwq s w = Ok (w', s') \<Longrightarrow> keeps p s s'" "wakeup_fromsv s t = Ok s' \<Longrightarrow> keeps p s s'"
proof -
  have r: "keeps p s (set_status (unlink_tag s x) x Ready)" for x
    using keeps_trans [OF keeps_tag(1) keeps_status [of Ready]] by simp
  show "keeps p s s'" if "wakeup_fromwq s w = Ok (w', s')"
  proof (cases w)
    case (Cons x xs)
    then have "task_add (set_status (unlink_tag s x) x Ready) x = Ok s'" using that by (auto simp: wakeup_fromwq_def Let_def split: if_splits)
    then show ?thesis using keeps_trans [OF r keeps_add] by blast
  qed (use that in \<open>simp add: wakeup_fromwq_def\<close>)
  show "keeps p s s'" if "wakeup_fromsv s t = Ok s'"
  proof (cases "t \<in> set (sleep_vec s)")
    case True
    let ?s = "(set_status s t Ready)\<lparr>sleep_vec := remove1 t (sleep_vec s)\<rparr>"
    have "keeps p s ?s" using keeps_status [of Ready p s t] by simp
    moreover have "task_add (unlink_tag ?s t) t = Ok s'" using that True by (simp add: wakeup_fromsv_def Let_def)
    ultimately show ?thesis using keeps_tag(1) keeps_add by (blast intro: keeps_trans)
  qed (use that in \<open>simp add: wakeup_fromsv_def\<close>)
qed

lemma keeps_fetch: "task_fetch s = Ok (r, s') \<Longrightarrow> keeps p s s'"
proof -
  assume f: "task_fetch s = Ok (r, s')"
  show ?thesis
  proof (cases "ready_queue s")
    case Nil
    then show ?thesis using f by (auto simp: task_fetch_def Let_def)
  next
    case (Cons t q)
    obtain l l' where "s' = (unlink_tag (s\<lparr>tm_lock := l, ready_queue := q\<rparr>) t)\<lparr>tm_lock := l'\<rparr>"
      using f Cons by (auto simp: task_fetch_def Let_def)
    moreover have "keeps p (s\<lparr>tm_lock := l, ready_queue := q\<rparr>) (unlink_tag (s\<lparr>tm_lock := l, ready_queue := q\<rparr>) t)" by (rule keeps_tag(1))
    ultimately show ?thesis by simp
  qed
qed

lemma run_turn_split:
  assumes "run_turn s = Ok (r, s')"
  shows "\<exists>s1 s2. task_fetch s = Ok (r, s1) \<and> keeps p s1 s2
    \<and> s' = (case r of None \<Rightarrow> s2 | Some t \<Rightarrow> (set_status s2 t Running)\<lparr>current := Some t\<rparr>)"
proof -
  obtain task s1 where 1: "task_fetch s = Ok (task, s1)" using assms by (auto simp: run_turn_def)
  define x where "x = (if ready_queue s1 = []
               then (case all_task s1 of
                       [] \<Rightarrow> Ok s1
                     | t # ts \<Rightarrow> bind_res (link_tag (s1\<lparr>all_task := ts\<rparr>) t) (\<lambda>s. Ok (s\<lparr>ready_queue := t # ready_queue s\<rparr>)))
               else Ok s1)"
  obtain s2 where 2: "x = Ok s2" using assms 1 by (auto simp: run_turn_def x_def)
  have "keeps p s1 s2"
    using 2 by (cases "all_task s1") (auto simp: x_def split: if_splits dest!: keeps_tag(2) [of _ _ _ p])
  moreover have "(case task of None \<Rightarrow> Ok (None, s2) | Some t \<Rightarrow> Ok (Some t, (set_status s2 t Running)\<lparr>current := Some t\<rparr>)) = Ok (r, s')"
    using assms 1 2 by (simp add: run_turn_def flip: x_def)
  ultimately show ?thesis using 1 by (auto split: option.splits)
qed

lemma keeps_turn:
  assumes "run_turn s = Ok (r, s')"
  shows "tcb_lock (tasks s' p) = tcb_lock (tasks s p)" "task_status (tasks s p) \<noteq> UNINIT \<Longrightarrow> task_status (tasks s' p) \<noteq> UNINIT"
    "r = Some t \<Longrightarrow> current s' = Some t"
proof -
  obtain s1 s2 where s: "task_fetch s = Ok (r, s1)" "keeps p s1 s2"
    "s' = (case r of None \<Rightarrow> s2 | Some t \<Rightarrow> (set_status s2 t Running)\<lparr>current := Some t\<rparr>)"
    using run_turn_split [OF assms] by blast
  show "tcb_lock (tasks s' p) = tcb_lock (tasks s p)" "task_status (tasks s p) \<noteq> UNINIT \<Longrightarrow> task_status (tasks s' p) \<noteq> UNINIT"
    "r = Some t \<Longrightarrow> current s' = Some t"
    using keeps_fetch [OF s(1), of p] s(2,3) by (auto simp: keeps_def set_status_def split: option.splits)
qed

text \<open>The operations of the running task, which is not \<open>p\<close>.\<close>

lemma keeps_sleep:
  assumes "current s = Some t" and "t \<noteq> p"
  shows "sleep_enter s w lo = Ok (w', lo', s') \<Longrightarrow> keeps p s s'" "sleep_leave s lo = Ok (lo', s') \<Longrightarrow> keeps p s s'"
  using assms
  by (auto simp: sleep_enter_def sleep_leave_def mytask_def split: option.splits if_splits
      dest!: keeps_task(2,3) [OF assms(2)] keeps_tag(2) [of _ _ _ p] intro: keeps_trans [OF _ keeps_status] keeps_trans [OF keeps_trans keeps_status])

lemma keeps_suspend:
  assumes "current s = Some t" and "t \<noteq> p" and "suspend_current_and_run_next s = Ok s'"
  shows "keeps p s s'"
proof -
  obtain s1 s2 where s: "lock_task s t = Ok s1" "unlock_task (set_status s1 t Ready) t = Ok s2" "task_add s2 t = Ok s'"
    using assms(1,3) by (auto simp: suspend_current_and_run_next_def mytask_def)
  show ?thesis
    using keeps_task(2) [OF assms(2) s(1)] keeps_status [of Ready p s1 t] keeps_task(3) [OF assms(2) s(2)] keeps_add [OF s(3), of p]
    by (auto intro: keeps_trans)
qed

lemma keeps_exit:
  assumes "current s = Some t" and "t \<noteq> p" and "tcb_lock (tasks s p)" and "exit_begin s code = Ok (t', s1)" and "exit_end s1 t' = Ok s'"
  shows "keeps p s s'"
proof -
  let ?z = "\<lambda>s. set_task s t ((tasks s t)\<lparr>task_status := Zombie, exit_code := code\<rparr>)"
  let ?move = "\<lambda>s. let cs = child (tasks s t);
                   s = s\<lparr>tasks := (\<lambda>c. if c \<in> set cs then (tasks s c)\<lparr>parent := Some INITPROC\<rparr> else tasks s c)\<rparr>;
                   s = set_task s t ((tasks s t)\<lparr>child := []\<rparr>)
               in set_task s INITPROC ((tasks s INITPROC)\<lparr>child := child (tasks s INITPROC) @ cs\<rparr>)"
  obtain a b where s: "lock_task s t = Ok a" "lock_task (?z a) INITPROC = Ok b" "unlock_task (?move b) INITPROC = Ok s1" "t' = t"
    using assms(1,4) by (auto simp: exit_begin_def mytask_def Let_def split: if_splits)
  have 1: "keeps p s (?z a)" using keeps_task(1,2) [OF assms(2)] s(1) by (blast intro: keeps_trans)
  then have "tcb_lock (tasks (?z a) p)" using assms(3) by (simp add: keeps_def)
  then have "INITPROC \<noteq> p" using s(2) by (auto simp: lock_task_def lock_acquire_def)
  note i = keeps_task [OF this]
  have 2: "keeps p b (?move b)" by (auto simp: keeps_def Let_def)
  have 3: "keeps p s s1" using 1 i(2) [OF s(2)] 2 i(3) [OF s(3)] by (blast intro: keeps_trans)
  obtain s2 where "unlock_task s1 t = Ok s2" "s' = s2 \<or> (\<exists>x. wakeup_fromsv s2 x = Ok s')"
    using assms(5) s(4) by (auto simp: exit_end_def Let_def split: option.splits)
  then show ?thesis using 3 keeps_task(3) [OF assms(2)] keeps_wake(2) by (blast intro: keeps_trans)
qed

lemma keeps_wait:
  assumes "current s = Some t" and "t \<noteq> p" and "wait_turn u s pd addr opts f = Ok (r, u', s')"
  shows "keeps p s s'"
proof -
  obtain found g where sc: "wait_scan s pd f (child (tasks s t)) = Ok (found, g)"
    using assms(1,3) by (auto simp: wait_turn_def mytask_def)
  show ?thesis
  proof (cases found)
    case None
    then consider "unlock_task s t = Ok s'" | w lo s1 where "sleep_enter s (sleep_vec s) None = Ok (w, lo, s1)" "s' = s1\<lparr>sleep_vec := w\<rparr>" | "s' = s"
      using assms(1,3) sc by (auto simp: wait_turn_def mytask_def split: if_splits)
    then show ?thesis
      using keeps_task(3) [OF assms(2)] keeps_sleep(1) [OF assms(1,2)] by cases auto
  next
    case (Some c)
    let ?e = "set_task s c ((tasks s c)\<lparr>exit_code := push_bit 8 (exit_code (tasks s c))\<rparr>)"
    let ?r = "set_task ?e t ((tasks ?e t)\<lparr>child := remove1 c (child (tasks ?e t))\<rparr>)"
    have "keeps p s ?e" by (auto simp: keeps_def)
    moreover have "keeps p ?e ?r" using keeps_task(1) [OF assms(2)] .
    moreover have "unlock_task ?e t = Ok s' \<or> unlock_task ?r t = Ok s'"
      using assms(1,3) sc Some by (auto simp: wait_turn_def mytask_def Let_def split: if_splits)
    ultimately show ?thesis using keeps_task(3) [OF assms(2)] by (blast intro: keeps_trans)
  qed
qed

definition asleep_locked :: "nat \<Rightarrow> config \<Rightarrow> bool" where
  "asleep_locked p c = (case c of (m, s, q) \<Rightarrow>
     tcb_lock (tasks s p) \<and> task_status (tasks s p) \<noteq> UNINIT \<and> (m = Busy \<longrightarrow> current s \<noteq> None \<and> current s \<noteq> Some p))"

lemma asleep_keeps:
  "asleep_locked p (m, s, q) \<Longrightarrow> keeps p s s' \<Longrightarrow> m' = Busy \<longrightarrow> m = Busy \<Longrightarrow> asleep_locked p (m', s', q')"
  by (auto simp: asleep_locked_def keeps_def)

lemma asleep_step:
  assumes "sched_step c e c'" and "asleep_locked p c" and "e \<noteq> Dispatch p"
  shows "asleep_locked p c'"
  using assms
proof (induction rule: sched_step.induct)
  case (dispatch s t s' q)
  then show ?case using keeps_turn [OF dispatch.hyps] by (auto simp: asleep_locked_def)
next
  case (turn s s' q)
  then show ?case using keeps_turn(1,2) [OF turn.hyps] by (auto simp: asleep_locked_def)
next
  case (yield s s' q)
  then obtain t where "current s = Some t" "t \<noteq> p" by (auto simp: asleep_locked_def)
  then show ?case using keeps_suspend yield.hyps asleep_keeps [OF yield.prems(1)] by auto
next
  case (sleep_on s q i l wq l' s')
  then obtain t where "current s = Some t" "t \<noteq> p" by (auto simp: asleep_locked_def)
  then show ?case using keeps_sleep(1) sleep_on.hyps asleep_keeps [OF sleep_on.prems(1)] by auto
next
  case (awake s l l' s' q)
  then obtain t where "current s = Some t" "t \<noteq> p" by (auto simp: asleep_locked_def)
  then show ?case using keeps_sleep(2) awake.hyps asleep_keeps [OF awake.prems(1)] by auto
next
  case (wake_from s q i wq s')
  then show ?case using keeps_wake(1) asleep_keeps by blast
next
  case (wait u s pd addr opts r u' s' q)
  then obtain t where t: "current s = Some t" "t \<noteq> p" by (auto simp: asleep_locked_def)
  then obtain s1 where s1: "lock_task s t = Ok s1" "wait_turn u s1 pd addr opts False = Ok (r, u', s')"
    using wait.hyps by (auto simp: waitpid_def mytask_def)
  have k: "keeps p s s1" using keeps_task(2) [OF t(2) s1(1)] .
  then have "current s1 = Some t" using t(1) by (simp add: keeps_def)
  then show ?case using keeps_trans [OF k keeps_wait [OF _ t(2) s1(2)]] asleep_keeps [OF wait.prems(1)] by auto
next
  case (waited u s pd addr opts r u' s' q)
  then obtain t where "current s = Some t" "t \<noteq> p" by (auto simp: asleep_locked_def)
  then show ?case using keeps_wait waited.hyps asleep_keeps [OF waited.prems(1)] by auto
next
  case (exit s code t s1 s' q)
  then obtain t' where "current s = Some t'" "t' \<noteq> p" "tcb_lock (tasks s p)" by (auto simp: asleep_locked_def)
  then show ?case using keeps_exit exit.hyps asleep_keeps [OF exit.prems(1)] by auto
next
  case (spawn s t d s' q)
  then have "t \<noteq> p" by (auto simp: asleep_locked_def new_task_def)
  then show ?case using keeps_trans [OF keeps_task(1) keeps_add [OF spawn.hyps(2)]] asleep_keeps [OF spawn.prems(1)] by blast
next
  case (create s t d s' q)
  then have "t \<noteq> p" by (auto simp: asleep_locked_def new_task_def)
  then show ?case using keeps_trans [OF keeps_task(1) keeps_create [OF create.hyps(2)]] asleep_keeps [OF create.prems(1)] by blast
qed

lemma asleep_run:
  "sched_run c es c' \<Longrightarrow> asleep_locked p c \<Longrightarrow> Dispatch p \<notin> set es \<Longrightarrow> asleep_locked p c'"
  by (induction rule: sched_run.induct) (auto dest: asleep_step)

text \<open>What the search through the children finds, and that it stops at a child that is locked.\<close>

lemma wait_scan_none:
  assumes "wait_scan s pd f cs = Ok (found, g)" and "\<forall>c \<in> set cs. (pd = - 1 \<or> pd = pid (tasks s c)) \<longrightarrow> task_status (tasks s c) \<noteq> Zombie"
  shows "found = None \<and> (g \<longleftrightarrow> f \<or> (\<exists>c \<in> set cs. pd = - 1 \<or> pd = pid (tasks s c)))"
  using assms by (induction cs arbitrary: f) (auto split: if_splits)

lemma wait_scan_locked:
  assumes "tcb_lock (tasks s p)" and "\<forall>c \<in> set xs. (pd = - 1 \<or> pd = pid (tasks s c)) \<longrightarrow> task_status (tasks s c) \<noteq> Zombie"
  shows "wait_scan s pd f (xs @ p # ys) = Fail (Panic ''dead lock'')"
  using assms by (induction xs arbitrary: f) (auto simp: lock_acquire_def)

lemma waitpid_locked_child:
  assumes "current s = Some t" and "t \<noteq> p" and "tcb_lock (tasks s p)" and "child (tasks s t) = xs @ p # ys"
    and "\<forall>c \<in> set xs. (pd = - 1 \<or> pd = pid (tasks s c)) \<longrightarrow> task_status (tasks s c) \<noteq> Zombie"
  shows "waitpid u s pd addr opts = Fail (Panic ''dead lock'')"
proof (cases "tcb_lock (tasks s t)")
  case False
  let ?s = "set_task s t ((tasks s t)\<lparr>tcb_lock := True\<rparr>)"
  have "wait_scan ?s pd False (xs @ p # ys) = Fail (Panic ''dead lock'')"
    using assms(2,3,5) by (intro wait_scan_locked) auto
  then show ?thesis using False assms(1,4) by (simp add: waitpid_def wait_turn_def mytask_def lock_task_def)
qed (use assms(1) in \<open>simp add: waitpid_def mytask_def lock_task_def\<close>)

lemma exit_locked_init:
  assumes "current s = Some t" and "t \<noteq> INITPROC" and "tcb_lock (tasks s INITPROC)"
  shows "exit_begin s code = Fail (Panic ''dead lock'')"
  using assms by (cases "tcb_lock (tasks s t)") (simp_all add: exit_begin_def mytask_def lock_task_def)

text \<open>Going to sleep in \<^verbatim>\<open>waitpid\<close>, and leaving it with an option set.\<close>

lemma waitpid_asleep:
  assumes "waitpid u s pd addr opts = Ok (Blocked, u1, s1)" and "current s = Some p"
  shows "asleep_locked p (Idle, s1, q)"
proof -
  let ?s = "set_task s p ((tasks s p)\<lparr>tcb_lock := True\<rparr>)"
  obtain w lo s2 where "sleep_enter ?s (sleep_vec ?s) None = Ok (w, lo, s2)" "s1 = s2\<lparr>sleep_vec := w\<rparr>"
    using assms by (auto simp: waitpid_def wait_turn_def mytask_def lock_task_def lock_acquire_def Let_def split: option.splits if_splits)
  then show ?thesis
    using assms(2) by (auto simp: asleep_locked_def sleep_enter_def mytask_def link_tag_def set_status_def split: if_splits)
qed

lemma waitpid_option:
  assumes "waitpid u s pd addr opts = Ok (r, u1, s1)" and "current s = Some p" and "opts \<noteq> 0"
    and "task_status (tasks s p) \<noteq> Zombie" and "\<exists>c \<in> set (child (tasks s p)). pd = - 1 \<or> pd = pid (tasks s c)"
    and "\<forall>c \<in> set (child (tasks s p)). (pd = - 1 \<or> pd = pid (tasks s c)) \<longrightarrow> task_status (tasks s c) \<noteq> Zombie"
  shows "r = Return 0 \<and> current s1 = Some p \<and> tcb_lock (tasks s1 p)"
proof -
  let ?s = "set_task s p ((tasks s p)\<lparr>tcb_lock := True\<rparr>)"
  have run: "wait_turn u ?s pd addr opts False = Ok (r, u1, s1)"
    using assms(1,2) by (auto simp: waitpid_def mytask_def lock_task_def lock_acquire_def split: if_splits)
  then obtain found g where sc: "wait_scan ?s pd False (child (tasks s p)) = Ok (found, g)"
    using assms(2) by (auto simp: wait_turn_def mytask_def)
  have "\<forall>c \<in> set (child (tasks s p)). (pd = - 1 \<or> pd = pid (tasks ?s c)) \<longrightarrow> task_status (tasks ?s c) \<noteq> Zombie" using assms(6) by simp
  then have f: "found = None" "g" using wait_scan_none [OF sc] assms(5) by auto
  show ?thesis using run sc f assms(2-4) by (auto simp: wait_turn_def mytask_def)
qed

section \<open>Properties\<close>

text \<open>The machine after \<^verbatim>\<open>procinit\<close> and \<^verbatim>\<open>add_initproc\<close>: \<^verbatim>\<open>INITPROC\<close> is ready and the other control blocks are unused.\<close>

definition blank_tcb :: tcb where
  "blank_tcb = \<lparr>pid = 0, tcb_lock = False, task_status = UNINIT, exit_code = 0, parent = None, child = [], tag_linked = False, stimes = 0, utimes = 0\<rparr>"

definition boot :: "sched res" where
  "boot = task_add (tm_init \<lparr>tm_lock = False, ready_queue = [], sleep_vec = [], all_task = [],
     tasks = (\<lambda>_. blank_tcb)(INITPROC := blank_tcb\<lparr>pid := 1, task_status := Ready\<rparr>), current = None\<rparr>) INITPROC"

lemma boot_inv: "\<exists>s. boot = Ok s \<and> sched_inv (Idle, s, \<lambda>_. [])"
proof -
  define ts where "ts = (\<lambda>_. blank_tcb)(INITPROC := blank_tcb\<lparr>pid := 1, task_status := Ready\<rparr>)"
  let ?s = "tm_init \<lparr>tm_lock = False, ready_queue = [], sleep_vec = [], all_task = [], tasks = ts, current = None\<rparr>"
  have v: "view ?s = (False, [], [], [], (\<lambda>_. UNINIT)(INITPROC := Ready), \<lambda>_. False, None)"
    by (auto simp: view_eq tm_init_def stf_def lnf_def ts_def blank_tcb_def fun_eq_iff)
  obtain s where "task_add ?s INITPROC = Ok s" "view s = (False, [INITPROC], [], [], (\<lambda>_. UNINIT)(INITPROC := Ready), (\<lambda>_. False)(INITPROC := True), None)"
    using task_add_view [OF v] by auto
  moreover have "places Idle [INITPROC] [] [] (\<lambda>_. []) ((\<lambda>_. UNINIT)(INITPROC := Ready)) ((\<lambda>_. False)(INITPROC := True)) None"
    by (auto simp: places_def apart_def waiting_def)
  ultimately show ?thesis by (auto simp: boot_def ts_def sched_inv_view)
qed

lemma boot_ok: "boot = Ok s \<Longrightarrow> sched_inv (Idle, s, \<lambda>_. [])"
  using boot_inv by (metis res.inject(1))

lemma sched_run_inv: "sched_run c es c' \<Longrightarrow> sched_inv c \<Longrightarrow> sched_inv c'"
  by (induction rule: sched_run.induct) (auto dest: sched_step_inv)

text \<open>C22: in every state that the scheduler can reach, each ready task is in the ready queue or among
  the tasks not yet started and nowhere else, each sleeping task is in exactly one wait queue, the
  running one is in none. In these states a turn of the idle loop succeeds and takes the head of the ready queue, and \<^verbatim>\<open>wakeup_fromwq\<close> on
  each wait queue and \<^verbatim>\<open>wakeup_fromsv\<close> on each task succeed, so that they do not meet the panics of the code. Nothing is said about the
  panics of \<^verbatim>\<open>waitpid\<close>, \<^verbatim>\<open>exit\<close> and \<^verbatim>\<open>suspend\<close> (C24): a call that panics is no step.\<close>

theorem sched_invariant:
  assumes "boot = Ok s0" and "sched_run (Idle, s0, \<lambda>_. []) es (m, s, q)"
  shows "distinct (ready_queue s @ all_task s) \<and> (\<forall>t. task_status (tasks s t) = Ready \<longleftrightarrow> t \<in> set (ready_queue s @ all_task s))
    \<and> apart (sleep_vec s) q \<and> (\<forall>t. task_status (tasks s t) = Sleeping \<longleftrightarrow> t \<in> waiting (sleep_vec s) q)
    \<and> (\<forall>t. task_status (tasks s t) = Running \<longleftrightarrow> m = Busy \<and> current s = Some t)
    \<and> (m = Idle \<longrightarrow> (\<exists>task s'. run_turn s = Ok (task, s') \<and> task = (if ready_queue s = [] then None else Some (hd (ready_queue s)))))
    \<and> (\<forall>i. \<exists>s'. wakeup_fromwq s (q i) = Ok (tl (q i), s')) \<and> (\<forall>p. \<exists>s'. wakeup_fromsv s p = Ok s')"
proof -
  have "sched_inv (m, s, q)" using sched_run_inv [OF assms(2) boot_ok [OF assms(1)]] .
  then obtain R V A st ln cur where v: "view s = (False, R, V, A, st, ln, cur)" and P: "places m R V A q st ln cur" by (auto simp: sched_inv_view)
  note d = placesD [OF P]
  have f: "ready_queue s = R" "all_task s = A" "sleep_vec s = V" "current s = cur" "\<And>t. task_status (tasks s t) = st t"
    using v by (auto simp: view_eq stf_def)
  have "\<exists>task s'. run_turn s = Ok (task, s') \<and> task = (if R = [] then None else Some (hd R))" if "m = Idle"
    using run_turn_view [OF v, of q] P that by (auto split: option.splits)
  moreover have "\<exists>s'. wakeup_fromwq s (q i) = Ok (tl (q i), s')" for i
  proof (cases "q i")
    case (Cons t ts)
    then have "st t = Sleeping" using d(6) [of t] by (auto simp: waiting_def intro!: exI [of _ i])
    then show ?thesis using wakeup_wq_view [OF v, of t ts] Cons by auto
  qed (simp add: wakeup_fromwq_def)
  moreover have "\<exists>s'. wakeup_fromsv s p = Ok s'" for p using wakeup_sv_view [OF v, of p] by blast
  ultimately show ?thesis unfolding f using d by (intro conjI) auto
qed

text \<open>A short run: \<^verbatim>\<open>INITPROC\<close> runs, starts task 1 and yields, task 1 runs.\<close>

definition child_tcb :: "u64 \<Rightarrow> nat \<Rightarrow> tcb" where
  "child_tcb n p = blank_tcb\<lparr>pid := n, task_status := Ready, parent := Some p\<rparr>"

definition demo :: "(nat list \<times> nat option \<times> bool \<times> nat option) res" where
  "demo = bind_res boot (\<lambda>s0. bind_res (run_turn s0) (\<lambda>(a, s1). bind_res (task_add (set_task s1 1 (child_tcb 2 0)) 1) (\<lambda>s2.
     bind_res (suspend_current_and_run_next s2) (\<lambda>s3. bind_res (run_turn s3) (\<lambda>(b, s4). Ok (ready_queue s0, a, task_status (tasks s1 1) = UNINIT, b))))))"

lemma demo_run:
  "\<exists>s0 s1 s4. boot = Ok s0 \<and> run_turn s0 = Ok (Some 0, s1) \<and> ready_queue s0 = [0]
     \<and> sched_run (Idle, s0, \<lambda>_. []) [Dispatch 0, Spawn 1 (child_tcb 2 0), Yield, Dispatch 1] (Busy, s4, \<lambda>_. [])"
proof -
  have "demo = Ok ([0], Some 0, True, Some 1)" by code_simp
  then obtain s0 s1 s2 s3 s4 where d: "boot = Ok s0" "run_turn s0 = Ok (Some 0, s1)" "task_status (tasks s1 1) = UNINIT"
    "task_add (set_task s1 1 (child_tcb 2 0)) 1 = Ok s2" "suspend_current_and_run_next s2 = Ok s3" "run_turn s3 = Ok (Some 1, s4)"
    "ready_queue s0 = [0]" by (auto simp: demo_def)
  have "new_task s1 1 (child_tcb 2 0)" using d(3) by (simp add: new_task_def child_tcb_def blank_tcb_def)
  then have "sched_run (Idle, s0, \<lambda>_. []) [Dispatch 0, Spawn 1 (child_tcb 2 0), Yield, Dispatch 1] (Busy, s4, \<lambda>_. [])"
    using d by (blast intro: sched_step.intros sched_run.intros)
  then show ?thesis using d(1,2,7) by blast
qed

theorem sched_invariant_witness:
  "\<exists>s0 s. boot = Ok s0 \<and> sched_run (Idle, s0, \<lambda>_. []) [Dispatch 0, Spawn 1 (child_tcb 2 0), Yield, Dispatch 1] (Busy, s, \<lambda>_. [])
     \<and> distinct (ready_queue s @ all_task s) \<and> (\<forall>p. \<exists>s'. wakeup_fromsv s p = Ok s')"
  using demo_run sched_invariant by blast

text \<open>C23: bounded waiting: from any reachable state, the task at place \<open>i\<close> of the ready queue is the one that the
  \<open>i\<close>-th of the following dispatches runs, whatever else the running tasks do in between.\<close>

theorem ready_queue_fair:
  assumes "boot = Ok s0" and "sched_run (Idle, s0, \<lambda>_. []) es0 (m, s, q)"
    and "sched_run (m, s, q) es c" and "i < length (ready_queue s)" "i < length (filter is_dispatch es)"
  shows "filter is_dispatch es ! i = Dispatch (ready_queue s ! i)"
proof -
  have "sched_inv (m, s, q)" using sched_run_inv [OF assms(2) boot_ok [OF assms(1)]] .
  then show ?thesis using served_in_order [OF assms(3) refl _ assms(4,5)] by blast
qed

theorem ready_queue_fair_witness:
  "\<exists>s0 c. boot = Ok s0 \<and> ready_queue s0 = [0]
     \<and> sched_run (Idle, s0, \<lambda>_. []) [Dispatch 0, Spawn 1 (child_tcb 2 0), Yield, Dispatch 1] c
     \<and> filter is_dispatch [Dispatch 0, Spawn 1 (child_tcb 2 0), Yield, Dispatch 1] ! 0 = Dispatch (ready_queue s0 ! 0)"
proof -
  obtain s0 s4 where d: "boot = Ok s0" "ready_queue s0 = [0]"
    "sched_run (Idle, s0, \<lambda>_. []) [Dispatch 0, Spawn 1 (child_tcb 2 0), Yield, Dispatch 1] (Busy, s4, \<lambda>_. [])" using demo_run by blast
  have "filter is_dispatch [Dispatch 0, Spawn 1 (child_tcb 2 0), Yield, Dispatch 1] ! 0 = Dispatch (ready_queue s0 ! 0)"
    by (rule ready_queue_fair [OF d(1) sched_run.run_nil d(3)]) (simp_all add: d(2))
  then show ?thesis using d by blast
qed

text \<open>Three tasks: 1 is a child of \<^verbatim>\<open>INITPROC\<close> and 2 a child of 1; \<open>as_task\<close> lets a given one run.\<close>

definition family :: sched where
  "family = \<lparr>tm_lock = False, ready_queue = [], sleep_vec = [], all_task = [],
     tasks = (\<lambda>_. blank_tcb)(0 := (child_tcb 1 0)\<lparr>task_status := Running, child := [1], parent := None\<rparr>,
       1 := (child_tcb 2 0)\<lparr>task_status := Running, child := [2]\<rparr>, 2 := (child_tcb 3 1)\<lparr>task_status := Running\<rparr>), current = Some 0\<rparr>"

definition as_task :: "nat \<Rightarrow> sched \<Rightarrow> sched" where
  "as_task t s = s\<lparr>current := Some t\<rparr>"

definition no_user :: ucx where
  "no_user = \<lparr>umem = (\<lambda>_. 0), upt = \<lparr>root_ppn = 0, fnode = []\<rparr>, usz = 0, upid = None\<rparr>"

text \<open>C24: a task \<open>p\<close> that sleeps in \<^verbatim>\<open>waitpid\<close> keeps its own lock. From any state and until \<open>p\<close> runs again, whatever the other
  tasks do in between: if \<open>p\<close> is \<^verbatim>\<open>INITPROC\<close>, the exit of any task panics; and a \<^verbatim>\<open>waitpid\<close> of any task that has \<open>p\<close> among its children panics, unless it
  finds a zombie that it asks for before it looks at \<open>p\<close>. With an option set, a \<^verbatim>\<open>waitpid\<close> that finds no zombie among the children that it asks for
  returns 0 without releasing the lock, so that the next \<^verbatim>\<open>waitpid\<close> of the task panics, and so does giving up the processor.\<close>

theorem waitpid_deadlocks:
  assumes "waitpid u s pd addr opts = Ok (r, u1, s1)" and "current s = Some p"
  shows "(r = Blocked \<longrightarrow> (\<forall>es q s2 q2 t. sched_run (Idle, s1, q) es (Busy, s2, q2) \<longrightarrow> Dispatch p \<notin> set es \<longrightarrow> current s2 = Some t \<longrightarrow>
        (p = INITPROC \<longrightarrow> (\<forall>code. exit_begin s2 code = Fail (Panic ''dead lock'')))
        \<and> (\<forall>xs ys u' pd' addr' opts'. child (tasks s2 t) = xs @ p # ys \<longrightarrow>
            (\<forall>c \<in> set xs. (pd' = - 1 \<or> pd' = pid (tasks s2 c)) \<longrightarrow> task_status (tasks s2 c) \<noteq> Zombie) \<longrightarrow>
            waitpid u' s2 pd' addr' opts' = Fail (Panic ''dead lock''))))
    \<and> (opts \<noteq> 0 \<and> task_status (tasks s p) \<noteq> Zombie \<and> (\<exists>c \<in> set (child (tasks s p)). pd = - 1 \<or> pd = pid (tasks s c))
        \<and> (\<forall>c \<in> set (child (tasks s p)). (pd = - 1 \<or> pd = pid (tasks s c)) \<longrightarrow> task_status (tasks s c) \<noteq> Zombie) \<longrightarrow>
        r = Return 0 \<and> (\<forall>u' pd' addr' opts'. waitpid u' s1 pd' addr' opts' = Fail (Panic ''dead lock''))
        \<and> suspend_current_and_run_next s1 = Fail (Panic ''dead lock''))"
proof (intro conjI impI allI)
  fix es q s2 q2 t
  assume b: "r = Blocked" and run: "sched_run (Idle, s1, q) es (Busy, s2, q2)" "Dispatch p \<notin> set es" and t: "current s2 = Some t"
  have "asleep_locked p (Busy, s2, q2)" using asleep_run [OF run(1) _ run(2)] waitpid_asleep assms b by blast
  then have p: "tcb_lock (tasks s2 p)" "t \<noteq> p" using t by (auto simp: asleep_locked_def)
  show "exit_begin s2 code = Fail (Panic ''dead lock'')" if "p = INITPROC" for code
    using exit_locked_init [OF t] p that by simp
  show "waitpid u' s2 pd' addr' opts' = Fail (Panic ''dead lock'')" if "child (tasks s2 t) = xs @ p # ys"
    "\<forall>c \<in> set xs. (pd' = - 1 \<or> pd' = pid (tasks s2 c)) \<longrightarrow> task_status (tasks s2 c) \<noteq> Zombie" for xs ys u' pd' addr' opts'
    using waitpid_locked_child [OF t p(2,1) that] .
next
  assume h: "opts \<noteq> 0 \<and> task_status (tasks s p) \<noteq> Zombie \<and> (\<exists>c \<in> set (child (tasks s p)). pd = - 1 \<or> pd = pid (tasks s c))
        \<and> (\<forall>c \<in> set (child (tasks s p)). (pd = - 1 \<or> pd = pid (tasks s c)) \<longrightarrow> task_status (tasks s c) \<noteq> Zombie)"
  then have o: "r = Return 0" "current s1 = Some p" "tcb_lock (tasks s1 p)" using waitpid_option [OF assms] by blast+
  show "r = Return 0" by (rule o)
  show "waitpid u' s1 pd' addr' opts' = Fail (Panic ''dead lock'')" for u' pd' addr' opts'
    using o by (simp add: waitpid_def mytask_def lock_task_def)
  show "suspend_current_and_run_next s1 = Fail (Panic ''dead lock'')"
    using o by (simp add: suspend_current_and_run_next_def mytask_def lock_task_def)
qed

text \<open>\<^verbatim>\<open>INITPROC\<close> runs and has the child 1, which is ready.\<close>

definition ready_child :: sched where
  "ready_child = \<lparr>tm_lock = False, ready_queue = [1], sleep_vec = [], all_task = [],
     tasks = (\<lambda>_. blank_tcb)(0 := (child_tcb 1 0)\<lparr>task_status := Running, child := [1], parent := None\<rparr>,
       1 := (child_tcb 2 0)\<lparr>tag_linked := True\<rparr>), current = Some 0\<rparr>"

text \<open>\<^verbatim>\<open>INITPROC\<close> waits, and its child runs and exits; and it calls \<^verbatim>\<open>waitpid\<close> twice with an option.\<close>

theorem waitpid_deadlocks_witness:
  "(\<exists>u1 s1 s2. waitpid no_user ready_child (- 1) 0 0 = Ok (Blocked, u1, s1) \<and> sched_run (Idle, s1, \<lambda>_. []) [Dispatch 1] (Busy, s2, \<lambda>_. [])
      \<and> exit_begin s2 0 = Fail (Panic ''dead lock''))
   \<and> (\<exists>u1 s1. waitpid no_user ready_child (- 1) 0 1 = Ok (Return 0, u1, s1) \<and> waitpid no_user s1 (- 1) 0 1 = Fail (Panic ''dead lock''))"
proof (rule conjI)
  have "bind_res (waitpid no_user ready_child (- 1) 0 0) (\<lambda>(r, u, s). bind_res (run_turn s) (\<lambda>(a, s). Ok (r, a))) = Ok (Blocked, Some 1)" by code_simp
  then obtain u1 s1 s2 where w: "waitpid no_user ready_child (- 1) 0 0 = Ok (Blocked, u1, s1)" "run_turn s1 = Ok (Some 1, s2)" by auto
  have r: "sched_run (Idle, s1, \<lambda>_. []) [Dispatch 1] (Busy, s2, \<lambda>_. [])" using w(2) by (blast intro: sched_step.intros sched_run.intros)
  have "current s2 = Some 1" using keeps_turn(3) [OF w(2)] by simp
  then have "exit_begin s2 0 = Fail (Panic ''dead lock'')"
    using waitpid_deadlocks [OF w(1), of 0] r by (fastforce simp: ready_child_def INITPROC_def)
  with w(1) r show "\<exists>u1 s1 s2. waitpid no_user ready_child (- 1) 0 0 = Ok (Blocked, u1, s1) \<and> sched_run (Idle, s1, \<lambda>_. []) [Dispatch 1] (Busy, s2, \<lambda>_. [])
      \<and> exit_begin s2 0 = Fail (Panic ''dead lock'')" by blast
next
  have "map_res (\<lambda>_. ()) (waitpid no_user ready_child (- 1) 0 1) = Ok ()" by code_simp
  then obtain r u1 s1 where w: "waitpid no_user ready_child (- 1) 0 1 = Ok (r, u1, s1)" by (cases "waitpid no_user ready_child (- 1) 0 1") auto
  have "r = Return 0 \<and> waitpid no_user s1 (- 1) 0 1 = Fail (Panic ''dead lock'')"
    using waitpid_deadlocks [OF w, of 0] by (simp add: ready_child_def child_tcb_def blank_tcb_def)
  then show "\<exists>u1 s1. waitpid no_user ready_child (- 1) 0 1 = Ok (Return 0, u1, s1) \<and> waitpid no_user s1 (- 1) 0 1 = Fail (Panic ''dead lock'')"
    using w by blast
qed

end
