(* ===== verification/Pipe.thy ===== *)
theory Pipe
  imports Sched
begin

text \<open>
  Pipes (\<^verbatim>\<open>fs_pipe.c\<close>): a ring of 512 bytes with counters that wrap, and the two queues of tasks that
  wait for data or for room. A call that puts its task to sleep ends here with \<open>Blocked\<close> and
  says how far it has come; it goes on from there when the task runs again. The theorems: a
  pipe is a queue of bytes, no byte is lost or reordered between its ends, and closing it wakes one
  of the waiting tasks only.
\<close>

section \<open>The code\<close>

definition PIPESIZE :: nat where "PIPESIZE = 512"

record pipe =
  plock :: klock
  pdata :: "u8 list"
  nread :: u32
  nwrite :: u32
  readopen :: bool
  writeopen :: bool
  rwaiter :: "nat list"
  wwaiter :: "nat list"

text \<open>What \<^verbatim>\<open>pipealloc\<close> makes of the block it gets from the heap.\<close>

definition pipe_init :: "pipe \<Rightarrow> pipe" where
  "pipe_init pi = pi\<lparr>plock := False, nread := 0, nwrite := 0, readopen := True, writeopen := True, rwaiter := [], wwaiter := []\<rparr>"

text \<open>The result says whether the pipe has been given back to the heap.\<close>

definition pipeclose :: "sched \<Rightarrow> pipe \<Rightarrow> bool \<Rightarrow> (bool \<times> sched \<times> pipe) res" where
  "pipeclose s pi writable =
     bind_res (lock_acquire (plock pi)) (\<lambda>l.
     let pi = pi\<lparr>plock := l\<rparr>
     in bind_res (if writable
                  then bind_res (wakeup_fromwq s (rwaiter pi)) (\<lambda>(wq, s). Ok (s, pi\<lparr>writeopen := False, rwaiter := wq\<rparr>))
                  else bind_res (wakeup_fromwq s (wwaiter pi)) (\<lambda>(wq, s). Ok (s, pi\<lparr>readopen := False, wwaiter := wq\<rparr>))) (\<lambda>(s, pi).
        bind_res (lock_release (plock pi)) (\<lambda>l.
        Ok (\<not> readopen pi \<and> \<not> writeopen pi, s, pi\<lparr>plock := l\<rparr>))))"

text \<open>The number of rounds of a loop up to the signed \<^verbatim>\<open>n\<close>.\<close>

definition rounds :: "u32 \<Rightarrow> nat" where
  "rounds n = nat (sint n)"

definition write_end :: "sched \<Rightarrow> pipe \<Rightarrow> nat \<Rightarrow> (int outcome \<times> nat \<times> sched \<times> pipe) res" where
  "write_end s pi i =
     bind_res (wakeup_fromwq s (rwaiter pi)) (\<lambda>(wq, s).
     bind_res (lock_release (plock pi)) (\<lambda>l. Ok (Return (int i), i, s, pi\<lparr>rwaiter := wq, plock := l\<rparr>)))"

text \<open>The loop with the lock held, \<open>i\<close> bytes written and \<open>k\<close> left. It also is what follows a sleep.\<close>

primrec pipewrite_loop :: "ucx \<Rightarrow> sched \<Rightarrow> pipe \<Rightarrow> u64 \<Rightarrow> nat \<Rightarrow> nat \<Rightarrow> (int outcome \<times> nat \<times> sched \<times> pipe) res" where
  "pipewrite_loop u s pi addr i 0 = write_end s pi i"
| "pipewrite_loop u s pi addr i (Suc k) =
     (if nwrite pi = nread pi + of_nat PIPESIZE
      then (case mytask s of
              None \<Rightarrow> Fail Null_pointer
            | Some p \<Rightarrow>
                if \<not> readopen pi \<or> task_status (tasks s p) = Zombie
                then bind_res (lock_release (plock pi)) (\<lambda>l. Ok (Return (- 1), i, s, pi\<lparr>plock := l\<rparr>))
                else bind_res (wakeup_fromwq s (rwaiter pi)) (\<lambda>(wq, s).
                     bind_res (sleep_enter s (wwaiter pi) (Some (plock pi))) (\<lambda>(ww, lo, s).
                     Ok (Blocked, i, s, pi\<lparr>rwaiter := wq, wwaiter := ww, plock := the lo\<rparr>))))
      else bind_res (copyin2 (umem u) (upt u) (addr + of_nat i) 1) (\<lambda>(r, bs).
           if r = - 1 then write_end s pi i
           else pipewrite_loop u s (pi\<lparr>pdata := (pdata pi)[unat (nwrite pi) mod PIPESIZE := hd bs], nwrite := nwrite pi + 1\<rparr>) addr (i + 1) k))"

definition pipewrite :: "ucx \<Rightarrow> sched \<Rightarrow> pipe \<Rightarrow> u64 \<Rightarrow> u32 \<Rightarrow> (int outcome \<times> nat \<times> sched \<times> pipe) res" where
  "pipewrite u s pi addr n =
     bind_res (lock_acquire (plock pi)) (\<lambda>l. pipewrite_loop u s (pi\<lparr>plock := l\<rparr>) addr 0 (rounds n))"

text \<open>After the task has been woken it takes the lock again and goes on.\<close>

definition pipewrite_resume :: "ucx \<Rightarrow> sched \<Rightarrow> pipe \<Rightarrow> u64 \<Rightarrow> u32 \<Rightarrow> nat \<Rightarrow> (int outcome \<times> nat \<times> sched \<times> pipe) res" where
  "pipewrite_resume u s pi addr n i =
     bind_res (sleep_leave s (Some (plock pi))) (\<lambda>(lo, s). pipewrite_loop u s (pi\<lparr>plock := the lo\<rparr>) addr i (rounds n - i))"

text \<open>The copying loop of \<^verbatim>\<open>piperead\<close>: a byte leaves the pipe before it is copied to the user.\<close>

primrec piperead_loop :: "ucx \<Rightarrow> pipe \<Rightarrow> u64 \<Rightarrow> nat \<Rightarrow> nat \<Rightarrow> (nat \<times> ucx \<times> pipe) res" where
  "piperead_loop u pi addr i 0 = Ok (i, u, pi)"
| "piperead_loop u pi addr i (Suc k) =
     (if nread pi = nwrite pi then Ok (i, u, pi)
      else let ch = pdata pi ! (unat (nread pi) mod PIPESIZE); pi = pi\<lparr>nread := nread pi + 1\<rparr>
           in bind_res (copyout2 (usz u) (umem u) (upt u) (addr + of_nat i) [ch] 1) (\<lambda>(r, m).
              if r = - 1 then Ok (i, u\<lparr>umem := m\<rparr>, pi)
              else piperead_loop (u\<lparr>umem := m\<rparr>) pi addr (i + 1) k))"

text \<open>The body with the lock held, which also is what follows a sleep.\<close>

definition piperead_body :: "ucx \<Rightarrow> sched \<Rightarrow> pipe \<Rightarrow> u64 \<Rightarrow> u32 \<Rightarrow> (int outcome \<times> ucx \<times> sched \<times> pipe) res" where
  "piperead_body u s pi addr n =
     (if nread pi = nwrite pi \<and> writeopen pi
      then (case mytask s of
              None \<Rightarrow> Fail Null_pointer
            | Some p \<Rightarrow>
                if task_status (tasks s p) = Zombie
                then bind_res (lock_release (plock pi)) (\<lambda>l. Ok (Return (- 1), u, s, pi\<lparr>plock := l\<rparr>))
                else bind_res (sleep_enter s (rwaiter pi) (Some (plock pi))) (\<lambda>(wq, lo, s).
                     Ok (Blocked, u, s, pi\<lparr>rwaiter := wq, plock := the lo\<rparr>)))
      else bind_res (piperead_loop u pi addr 0 (rounds n)) (\<lambda>(i, u, pi).
           bind_res (wakeup_fromwq s (wwaiter pi)) (\<lambda>(wq, s).
           bind_res (lock_release (plock pi)) (\<lambda>l. Ok (Return (int i), u, s, pi\<lparr>wwaiter := wq, plock := l\<rparr>)))))"

definition piperead :: "ucx \<Rightarrow> sched \<Rightarrow> pipe \<Rightarrow> u64 \<Rightarrow> u32 \<Rightarrow> (int outcome \<times> ucx \<times> sched \<times> pipe) res" where
  "piperead u s pi addr n = bind_res (lock_acquire (plock pi)) (\<lambda>l. piperead_body u s (pi\<lparr>plock := l\<rparr>) addr n)"

definition piperead_resume :: "ucx \<Rightarrow> sched \<Rightarrow> pipe \<Rightarrow> u64 \<Rightarrow> u32 \<Rightarrow> (int outcome \<times> ucx \<times> sched \<times> pipe) res" where
  "piperead_resume u s pi addr n =
     bind_res (sleep_leave s (Some (plock pi))) (\<lambda>(lo, s). piperead_body u s (pi\<lparr>plock := the lo\<rparr>) addr n)"

section \<open>A pipe is a queue\<close>

definition plen :: "pipe \<Rightarrow> nat" where
  "plen pi = unat (nwrite pi - nread pi)"

definition contents :: "pipe \<Rightarrow> u8 list" where
  "contents pi = map (\<lambda>k. pdata pi ! ((unat (nread pi) + k) mod PIPESIZE)) [0..<plen pi]"

definition pipe_ok :: "pipe \<Rightarrow> bool" where
  "pipe_ok pi \<longleftrightarrow> length (pdata pi) = PIPESIZE \<and> plen pi \<le> PIPESIZE"

lemma length_contents [simp]: "length (contents pi) = plen pi"
  by (simp add: contents_def)

text \<open>The counters wrap at a multiple of the size of the ring.\<close>

lemma wrap_mod: "unat (x + of_nat k :: u32) mod PIPESIZE = (unat x + k) mod PIPESIZE"
proof -
  have "unat (x + of_nat k :: u32) = (unat x + k) mod 2 ^ 32"
    by (simp add: unat_word_ariths unat_of_nat mod_simps take_bit_eq_mod)
  moreover have "(512::nat) dvd 2 ^ 32" by simp
  ultimately show ?thesis by (simp add: PIPESIZE_def mod_mod_cancel)
qed

lemma unat_u32_of_nat: "n < 2 ^ 32 \<Longrightarrow> unat (of_nat n :: u32) = n"
  by (simp add: unat_of_nat take_bit_nat_eq_self)

lemma nwrite_eq: "nwrite pi = nread pi + of_nat (plen pi)"
  by (simp add: plen_def)

lemma nwrite_mod: "unat (nwrite pi) mod PIPESIZE = (unat (nread pi) + plen pi) mod PIPESIZE"
  using wrap_mod [of "nread pi" "plen pi"] nwrite_eq [of pi] by simp

lemma nread_mod: "unat (nread pi + 1) mod PIPESIZE = (unat (nread pi) + 1) mod PIPESIZE"
  using wrap_mod [of "nread pi" 1] by simp

lemma plen_full: "pipe_ok pi \<Longrightarrow> nwrite pi = nread pi + of_nat PIPESIZE \<longleftrightarrow> plen pi = PIPESIZE"
proof -
  assume "pipe_ok pi"
  have "nwrite pi = nread pi + of_nat PIPESIZE \<longleftrightarrow> nwrite pi - nread pi = of_nat PIPESIZE" by (auto simp: algebra_simps)
  also have "\<dots> \<longleftrightarrow> plen pi = unat (of_nat PIPESIZE :: u32)" by (simp add: plen_def word_unat_eq_iff)
  finally show ?thesis by (simp add: PIPESIZE_def)
qed

lemma plen_empty: "nread pi = nwrite pi \<longleftrightarrow> plen pi = 0"
  by (auto simp: plen_def unat_eq_0)

lemma ring_distinct:
  assumes "k < l" "l < PIPESIZE"
  shows "(a + k) mod PIPESIZE \<noteq> (a + l) mod PIPESIZE"
proof
  assume "(a + k) mod PIPESIZE = (a + l) mod PIPESIZE"
  then have "PIPESIZE dvd (a + l) - (a + k)" using mod_eq_dvd_iff_nat [of "a + k" "a + l" PIPESIZE] assms(1) by simp
  then show False using assms by (auto dest: dvd_imp_le)
qed

lemma pipe_push:
  fixes b :: u8
  assumes ok: "pipe_ok pi" and room: "plen pi < PIPESIZE"
  defines "pi' \<equiv> pi\<lparr>pdata := (pdata pi)[unat (nwrite pi) mod PIPESIZE := b], nwrite := nwrite pi + 1\<rparr>"
  shows "pipe_ok pi'" "contents pi' = contents pi @ [b]"
proof -
  let ?a = "unat (nread pi)" and ?l = "plen pi"
  have len: "length (pdata pi) = PIPESIZE" using ok by (simp add: pipe_ok_def)
  have d: "nwrite pi + 1 - nread pi = of_nat (Suc ?l)" using nwrite_eq [of pi] by (simp add: algebra_simps)
  have "unat (of_nat (Suc ?l) :: u32) = Suc ?l" using room by (intro unat_u32_of_nat) (simp add: PIPESIZE_def)
  then have l': "plen pi' = Suc ?l" using d unfolding pi'_def by (simp add: plen_def del: of_nat_Suc)
  then show "pipe_ok pi'" using room len by (simp add: pipe_ok_def pi'_def)
  have old: "pdata pi' ! ((?a + k) mod PIPESIZE) = pdata pi ! ((?a + k) mod PIPESIZE)" if "k < ?l" for k
    using ring_distinct [OF that room, of ?a] nwrite_mod [of pi] by (simp add: pi'_def)
  have new: "pdata pi' ! ((?a + ?l) mod PIPESIZE) = b"
    using len nwrite_mod [of pi] by (simp add: pi'_def PIPESIZE_def)
  have "contents pi' = map (\<lambda>k. pdata pi' ! ((?a + k) mod PIPESIZE)) [0..<Suc ?l]"
    unfolding contents_def l' by (simp add: pi'_def)
  also have "\<dots> = contents pi @ [b]" using old new by (simp add: contents_def)
  finally show "contents pi' = contents pi @ [b]" .
qed

lemma pipe_pop:
  assumes ok: "pipe_ok pi" and ne: "0 < plen pi"
  shows "pipe_ok (pi\<lparr>nread := nread pi + 1\<rparr>)" "contents pi = pdata pi ! (unat (nread pi) mod PIPESIZE) # contents (pi\<lparr>nread := nread pi + 1\<rparr>)"
proof -
  let ?a = "unat (nread pi)" and ?l = "plen pi" and ?pi = "pi\<lparr>nread := nread pi + 1\<rparr>"
  have "nwrite pi - (nread pi + 1) = of_nat ?l - 1" using nwrite_eq [of pi] by (simp add: algebra_simps)
  also have "\<dots> = of_nat (?l - 1)" using ne by (simp add: of_nat_diff)
  finally have d: "nwrite pi - (nread pi + 1) = of_nat (?l - 1)" .
  have "?l - 1 < 2 ^ 32" using ok by (auto simp: pipe_ok_def PIPESIZE_def)
  then have "unat (of_nat (?l - 1) :: u32) = ?l - 1" by (rule unat_u32_of_nat)
  then have l': "plen ?pi = ?l - 1" using d by (simp add: plen_def)
  then show "pipe_ok ?pi" using ok by (auto simp: pipe_ok_def)
  have "[0..<?l] = 0 # map Suc [0..<?l - 1]" using ne upt_rec [of 0 ?l] map_Suc_upt [of 0 "?l - 1"] by simp
  moreover have "(unat (nread pi + 1) + k) mod PIPESIZE = (?a + Suc k) mod PIPESIZE" for k
    using nread_mod [of pi] by (metis add_Suc_right add_Suc_shift mod_add_left_eq plus_1_eq_Suc add.commute)
  ultimately show "contents pi = pdata pi ! (?a mod PIPESIZE) # contents ?pi" by (simp add: contents_def l' comp_def)
qed

lemma contents_other [simp]:
  "contents (pi\<lparr>plock := x\<rparr>) = contents pi" "contents (pi\<lparr>rwaiter := y\<rparr>) = contents pi" "contents (pi\<lparr>wwaiter := y\<rparr>) = contents pi"
  "pipe_ok (pi\<lparr>plock := x\<rparr>) = pipe_ok pi" "pipe_ok (pi\<lparr>rwaiter := y\<rparr>) = pipe_ok pi" "pipe_ok (pi\<lparr>wwaiter := y\<rparr>) = pipe_ok pi"
  "contents (pi\<lparr>readopen := x\<rparr>) = contents pi" "contents (pi\<lparr>writeopen := x\<rparr>) = contents pi"
  "pipe_ok (pi\<lparr>readopen := x\<rparr>) = pipe_ok pi" "pipe_ok (pi\<lparr>writeopen := x\<rparr>) = pipe_ok pi"
  by (simp_all add: contents_def pipe_ok_def plen_def)

lemma pipe_init_ok: "length (pdata pi) = PIPESIZE \<Longrightarrow> pipe_ok (pipe_init pi) \<and> contents (pipe_init pi) = []"
  by (simp add: pipe_init_def pipe_ok_def contents_def plen_def)

section \<open>What the calls do to the queue\<close>

text \<open>The bytes that \<^verbatim>\<open>copyin2\<close> finds at an address, one by one.\<close>

definition user_bytes :: "ucx \<Rightarrow> u64 \<Rightarrow> u8 list \<Rightarrow> bool" where
  "user_bytes u addr bs \<longleftrightarrow> (\<forall>i < length bs. copyin2 (umem u) (upt u) (addr + of_nat i) 1 = Ok (0, [bs ! i]))"

text \<open>Whatever the outcome, \<open>j\<close> tells how many bytes of the user have been appended.\<close>

lemma write_end_contents:
  "write_end s pi i = Ok (r, j, s', pi') \<Longrightarrow> j = i \<and> contents pi' = contents pi \<and> pipe_ok pi' = pipe_ok pi \<and> r = Return (int i)"
  by (auto simp: write_end_def)

lemma pipewrite_loop_contents:
  assumes "pipe_ok pi" and "user_bytes u addr bs" and "i + k = length bs" and "pipewrite_loop u s pi addr i k = Ok (r, j, s', pi')"
  shows "pipe_ok pi' \<and> i \<le> j \<and> j \<le> length bs \<and> contents pi' = contents pi @ take (j - i) (drop i bs)
    \<and> (\<forall>n. r = Return n \<longrightarrow> n = - 1 \<or> n = int (length bs) \<and> j = length bs)
    \<and> (r = Blocked \<longrightarrow> length (contents pi') = PIPESIZE)"
  using assms
proof (induction k arbitrary: pi i)
  case 0
  then show ?case using write_end_contents by fastforce
next
  case (Suc k)
  show ?case
  proof (cases "nwrite pi = nread pi + of_nat PIPESIZE")
    case True
    moreover have "plen pi = PIPESIZE" using plen_full [OF Suc.prems(1)] True by simp
    then have "length (contents pi) = PIPESIZE" by simp
    ultimately show ?thesis using Suc.prems by (auto simp del: length_contents split: option.splits if_splits)
  next
    case False
    let ?pi = "pi\<lparr>pdata := (pdata pi)[unat (nwrite pi) mod PIPESIZE := bs ! i], nwrite := nwrite pi + 1\<rparr>"
    have room: "plen pi < PIPESIZE" using plen_full [OF Suc.prems(1)] False Suc.prems(1) by (simp add: pipe_ok_def)
    note p = pipe_push [OF Suc.prems(1) room, of "bs ! i"]
    have i: "i < length bs" using Suc.prems(3) by simp
    then have "pipewrite_loop u s ?pi addr (i + 1) k = Ok (r, j, s', pi')"
      using Suc.prems(2,4) False by (auto simp: user_bytes_def)
    moreover have "i + 1 + k = length bs" using Suc.prems(3) by simp
    ultimately have ih: "pipe_ok pi' \<and> i + 1 \<le> j \<and> j \<le> length bs \<and> contents pi' = (contents pi @ [bs ! i]) @ take (j - (i + 1)) (drop (i + 1) bs)
      \<and> (\<forall>n. r = Return n \<longrightarrow> n = - 1 \<or> n = int (length bs) \<and> j = length bs) \<and> (r = Blocked \<longrightarrow> length (contents pi') = PIPESIZE)"
      using Suc.IH [OF p(1) Suc.prems(2)] unfolding p(2) by blast
    have "i + 1 \<le> j" using ih by blast
    then have "j - i = Suc (j - (i + 1))" by simp
    then have "take (j - i) (drop i bs) = bs ! i # take (j - (i + 1)) (drop (i + 1) bs)"
      using i by (simp add: Cons_nth_drop_Suc [symmetric])
    then show ?thesis using ih by (metis Suc_eq_plus1 Suc_leD append.assoc append_Cons append_Nil)
  qed
qed

text \<open>Bytes handed to the user one by one, until a copy fails: how many have arrived, and how many have left.\<close>

primrec deliver :: "ucx \<Rightarrow> u64 \<Rightarrow> nat \<Rightarrow> u8 list \<Rightarrow> (nat \<times> nat \<times> ucx) res" where
  "deliver u addr i [] = Ok (i, 0, u)"
| "deliver u addr i (b # bs) =
     bind_res (copyout2 (usz u) (umem u) (upt u) (addr + of_nat i) [b] 1) (\<lambda>(r, m).
     if r = - 1 then Ok (i, 1, u\<lparr>umem := m\<rparr>)
     else bind_res (deliver (u\<lparr>umem := m\<rparr>) addr (i + 1) bs) (\<lambda>(j, k, u). Ok (j, Suc k, u)))"

lemma piperead_loop_contents:
  assumes "pipe_ok pi" and "piperead_loop u pi addr i n = Ok (j, u', pi')"
  shows "\<exists>k. deliver u addr i (take n (contents pi)) = Ok (j, k, u') \<and> pipe_ok pi' \<and> contents pi = take k (contents pi) @ contents pi'
    \<and> k \<le> plen pi \<and> plock pi' = plock pi \<and> rwaiter pi' = rwaiter pi \<and> wwaiter pi' = wwaiter pi"
  using assms
proof (induction n arbitrary: pi u i)
  case 0
  then show ?case by (intro exI [of _ 0]) simp
next
  case (Suc n)
  show ?case
  proof (cases "nread pi = nwrite pi")
    case True
    then have "contents pi = []" using plen_empty by (metis length_0_conv length_contents)
    then show ?thesis using Suc.prems True by (intro exI [of _ 0]) simp
  next
    case False
    then have ne: "0 < plen pi" using plen_empty by auto
    let ?pi = "pi\<lparr>nread := nread pi + 1\<rparr>" and ?ch = "pdata pi ! (unat (nread pi) mod PIPESIZE)"
    note p = pipe_pop [OF Suc.prems(1) ne]
    obtain r m where c: "copyout2 (usz u) (umem u) (upt u) (addr + of_nat i) [?ch] 1 = Ok (r, m)"
      using Suc.prems(2) False by (auto simp: Let_def)
    show ?thesis
    proof (cases "r = - 1")
      case True
      then have "pi' = ?pi" "j = i" "u' = u\<lparr>umem := m\<rparr>" using Suc.prems(2) False c by (auto simp: Let_def)
      then show ?thesis using True c p ne by (intro exI [of _ 1]) simp
    next
      case ok: False
      then have "piperead_loop (u\<lparr>umem := m\<rparr>) ?pi addr (i + 1) n = Ok (j, u', pi')" using Suc.prems(2) False c by (auto simp: Let_def)
      from Suc.IH [OF p(1) this] obtain k where k: "deliver (u\<lparr>umem := m\<rparr>) addr (i + 1) (take n (contents ?pi)) = Ok (j, k, u')"
        "pipe_ok pi'" "contents ?pi = take k (contents ?pi) @ contents pi'" "k \<le> plen ?pi"
        "plock pi' = plock pi" "rwaiter pi' = rwaiter pi" "wwaiter pi' = wwaiter pi" by auto
      have "plen pi = Suc (plen ?pi)" using arg_cong [OF p(2), of length] by simp
      then show ?thesis using k c ok p(2) by (intro exI [of _ "Suc k"]) auto
    qed
  qed
qed

section \<open>Properties\<close>

lemma pipeclose_contents:
  assumes "pipeclose s pi w = Ok (f, s', pi')"
  shows "contents pi' = contents pi" "pipe_ok pi' = pipe_ok pi"
  using assms by (cases w; auto simp: pipeclose_def Let_def contents_def pipe_ok_def plen_def)+

text \<open>C25: a pipe is a queue of at most 512 bytes. A write appends the first \<open>j\<close> bytes of the user's
  buffer, all of them when it returns their number, and blocks only on a full pipe; a read hands the
  longest part of the queue that the user asked for to the user in order and removes it, and blocks
  only on an empty pipe with an open write end; closing an end changes nothing of it.\<close>

theorem pipe_refines_queue:
  assumes ok: "pipe_ok pi"
  shows "(user_bytes u addr bs \<and> rounds n = length bs \<and> pipewrite u s pi addr n = Ok (r, j, s', pi') \<longrightarrow>
      pipe_ok pi' \<and> j \<le> length bs \<and> contents pi' = contents pi @ take j bs \<and> length (contents pi') \<le> PIPESIZE
      \<and> (r = Blocked \<longrightarrow> length (contents pi') = PIPESIZE)
      \<and> (\<forall>k. r = Return k \<longrightarrow> k = - 1 \<or> k = int (length bs) \<and> j = length bs))
    \<and> (piperead u s pi addr n = Ok (r, u', s', pi') \<longrightarrow>
      (case r of
         Return k \<Rightarrow> (k = - 1 \<and> contents pi' = contents pi)
           \<or> (\<exists>j l. k = int j \<and> deliver u addr 0 (take (rounds n) (contents pi)) = Ok (j, l, u')
                 \<and> contents pi = take l (contents pi) @ contents pi' \<and> pipe_ok pi')
       | Blocked \<Rightarrow> contents pi = [] \<and> contents pi' = [] \<and> writeopen pi))
    \<and> (pipeclose s pi w = Ok (f, s', pi') \<longrightarrow> contents pi' = contents pi \<and> pipe_ok pi')"
proof (intro conjI impI; (elim conjE)?)
  assume a: "user_bytes u addr bs" "rounds n = length bs" "pipewrite u s pi addr n = Ok (r, j, s', pi')"
  have run: "pipewrite_loop u s (pi\<lparr>plock := True\<rparr>) addr 0 (length bs) = Ok (r, j, s', pi')"
    using a(2,3) by (auto simp: pipewrite_def lock_acquire_def split: if_splits)
  have ok': "pipe_ok (pi\<lparr>plock := True\<rparr>)" using ok by simp
  note c = pipewrite_loop_contents [OF ok' a(1) add_0 run, unfolded contents_other diff_zero drop_0]
  show w: "pipe_ok pi'" "j \<le> length bs" "contents pi' = contents pi @ take j bs" "r = Blocked \<Longrightarrow> length (contents pi') = PIPESIZE"
    "\<forall>k. r = Return k \<longrightarrow> k = - 1 \<or> k = int (length bs) \<and> j = length bs"
    using c by blast+
  show "length (contents pi') \<le> PIPESIZE" using w(1) by (simp add: pipe_ok_def)
next
  assume a: "piperead u s pi addr n = Ok (r, u', s', pi')"
  let ?pi = "pi\<lparr>plock := True\<rparr>"
  have b: "piperead_body u s ?pi addr n = Ok (r, u', s', pi')" using a by (auto simp: piperead_def lock_acquire_def split: if_splits)
  show "case r of Return k \<Rightarrow> (k = - 1 \<and> contents pi' = contents pi)
           \<or> (\<exists>j l. k = int j \<and> deliver u addr 0 (take (rounds n) (contents pi)) = Ok (j, l, u')
                 \<and> contents pi = take l (contents pi) @ contents pi' \<and> pipe_ok pi')
       | Blocked \<Rightarrow> contents pi = [] \<and> contents pi' = [] \<and> writeopen pi"
  proof (cases "nread pi = nwrite pi \<and> writeopen pi")
    case True
    then have "contents pi = []" using plen_empty [of pi] by (metis length_0_conv length_contents)
    then show ?thesis using True b by (auto simp: piperead_body_def split: option.splits if_splits outcome.splits)
  next
    case False
    then obtain i u1 pi1 wq s1 where l: "piperead_loop u ?pi addr 0 (rounds n) = Ok (i, u1, pi1)" "wakeup_fromwq s (wwaiter pi1) = Ok (wq, s1)"
      "r = Return (int i)" "u' = u1" "contents pi' = contents pi1" "pipe_ok pi' = pipe_ok pi1"
      using b by (auto simp: piperead_body_def)
    have ok': "pipe_ok ?pi" using ok by simp
    obtain k where k: "deliver u addr 0 (take (rounds n) (contents ?pi)) = Ok (i, k, u1)" "pipe_ok pi1" "contents ?pi = take k (contents ?pi) @ contents pi1"
      using piperead_loop_contents [OF ok' l(1)] by (elim exE conjE)
    show ?thesis unfolding l(3-6) outcome.case
      by (rule disjI2, rule exI [of _ i], rule exI [of _ k]) (intro conjI refl k [unfolded contents_other])
  qed
next
  assume a: "pipeclose s pi w = Ok (f, s', pi')"
  then show "contents pi' = contents pi" "pipe_ok pi'" using ok by (simp_all only: pipeclose_contents)
qed


text \<open>A pipe with two bytes.\<close>

definition ex_pipe :: pipe where
  "ex_pipe = \<lparr>plock = False, pdata = [7, 8] @ replicate 510 0, nread = 0, nwrite = 2, readopen = True, writeopen = True, rwaiter = [], wwaiter = []\<rparr>"

lemma ex_pipe_ok: "pipe_ok ex_pipe" "contents ex_pipe = [7, 8]"
  by (simp_all add: pipe_ok_def contents_def plen_def ex_pipe_def PIPESIZE_def upt_rec)

theorem pipe_refines_queue_witness:
  "pipe_ok ex_pipe \<and> (\<exists>s' pi'. pipewrite no_user family ex_pipe 0 0 = Ok (Return 0, 0, s', pi') \<and> contents pi' = [7, 8])
   \<and> (\<exists>s' pi'. pipeclose family ex_pipe True = Ok (False, s', pi') \<and> contents pi' = [7, 8])"
proof -
  have "map_res (\<lambda>(r, j, s, pi). (r, j)) (pipewrite no_user family ex_pipe 0 0) = Ok (Return 0, 0)"
    "map_res fst (pipeclose family ex_pipe True) = Ok False" by code_simp+
  then obtain s' pi' s1 pi1 where w: "pipewrite no_user family ex_pipe 0 0 = Ok (Return 0, 0, s', pi')" "pipeclose family ex_pipe True = Ok (False, s1, pi1)"
    by (cases "pipewrite no_user family ex_pipe 0 0"; cases "pipeclose family ex_pipe True") auto
  have "rounds 0 = length ([] :: u8 list)" "user_bytes no_user 0 []" by (simp_all add: rounds_def user_bytes_def)
  then show ?thesis using w ex_pipe_ok pipe_refines_queue [OF ex_pipe_ok(1), of no_user 0 "[]" 0 family "Return 0" 0 s' pi']
    pipe_refines_queue [OF ex_pipe_ok(1), of no_user 0 "[]" 0 family "Return 0" 0 s1 pi1 _ True False] by auto
qed

definition two_readers :: "(nat list \<times> TaskStatus \<times> bool) res" where
  "two_readers =
     bind_res (piperead no_user (as_task 1 family) (pipe_init ex_pipe) 0 1) (\<lambda>(r, u, s, pi).
     bind_res (piperead no_user (as_task 2 s) pi 0 1) (\<lambda>(r, u, s, pi).
     bind_res (pipeclose (as_task 0 s) pi True) (\<lambda>(f, s, pi).
     Ok (rwaiter pi, task_status (tasks s 2), writeopen pi))))"

text \<open>Closing the write end wakes one waiting reader only: of two readers asleep on an empty pipe the second
  stays asleep, although no one is left who could write or close.\<close>

theorem pipeclose_wakes_one:
  "two_readers = Ok ([2], Sleeping, False)"
  by code_simp

end
