(* ===== verification/Open_Files.thy ===== *)
theory Open_Files
  imports Pipe Fat_Content Fat_Dir
begin

text \<open>
  Open files (\<^verbatim>\<open>fs_file.c\<close>, \<^verbatim>\<open>pipealloc\<close> of \<^verbatim>\<open>fs_pipe.c\<close>) and the system calls on descriptors
  (\<^verbatim>\<open>syscall.c\<close>): the table of file structures with its reference counts, the descriptors of the
  tasks, and reading, writing, opening, duplicating and closing through them, over the pipes, the
  scheduler and the file system of the other theories. A pointer to a file structure is its index in
  the table; a pipe is known by the block of the heap it lies in.

  The theorems: a structure that a descriptor refers to is never free, over every sequence of
  calls; what \<^verbatim>\<open>fork\<close> and \<^verbatim>\<open>dup3\<close> do to descriptors and counts; and the panic of \<^verbatim>\<open>openat\<close>.
\<close>

section \<open>The state\<close>

definition NOFILE :: nat where "NOFILE = 101"
definition NFILE :: nat where "NFILE = 128"
definition NDEV :: int where "NDEV = 10"
definition AT_FDCWD :: int where "AT_FDCWD = - 100"

definition O_RDONLY :: u32 where "O_RDONLY = 0"
definition O_WRONLY :: u32 where "O_WRONLY = 1"
definition O_RDWR :: u32 where "O_RDWR = 2"
definition O_APPEND :: u32 where "O_APPEND = 4"
definition O_CREATE :: u32 where "O_CREATE = 0x40"
definition O_TRUNC :: u32 where "O_TRUNC = 0x400"

datatype ftype = FD_NONE | FD_PIPE | FD_ENTRY | FD_DEVICE

datatype mktype = T_DIR | T_FILE

record kfile =
  f_type :: ftype
  f_ref :: int
  f_readable :: bool
  f_writable :: bool
  f_pipe :: "nat option"
  f_ep :: "nat option"
  f_off :: u32
  f_major :: int

text \<open>
  The kernel as the calls see it: scheduler, file system (with the user side of the running task),
  pipes by block, the file table with its lock, and the descriptors and current directory of each task.
\<close>

record kstate =
  ksched :: sched
  kfs :: fs
  kpipes :: "nat \<rightharpoonup> pipe"
  ft_lock :: klock
  ftable :: "kfile list"
  ofile :: "nat \<Rightarrow> nat option list"
  kcwd :: "nat \<Rightarrow> nat option"

text \<open>A device: its read and write functions, null when it has none.\<close>

type_synonym devop = "kstate \<Rightarrow> u64 \<Rightarrow> u32 \<Rightarrow> (int \<times> kstate) res"
type_synonym devsw = "int \<Rightarrow> devop option \<times> devop option"

definition set_file :: "kstate \<Rightarrow> nat \<Rightarrow> kfile \<Rightarrow> kstate" where
  "set_file k f x = k\<lparr>ftable := (ftable k)[f := x]\<rparr>"

definition set_fd :: "kstate \<Rightarrow> nat \<Rightarrow> nat \<Rightarrow> nat option \<Rightarrow> kstate" where
  "set_fd k t fd v = k\<lparr>ofile := (ofile k)(t := (ofile k t)[fd := v])\<rparr>"

section \<open>File structures\<close>

definition zero_file :: kfile where
  "zero_file = \<lparr>f_type = FD_NONE, f_ref = 0, f_readable = False, f_writable = False, f_pipe = None, f_ep = None, f_off = 0, f_major = 0\<rparr>"

definition fileinit :: "kstate \<Rightarrow> kstate" where
  "fileinit k = k\<lparr>ft_lock := False,
     ftable := map (\<lambda>i. if i < 3 then zero_file\<lparr>f_major := 1, f_ref := 1, f_type := FD_DEVICE, f_writable := True, f_readable := True\<rparr>
                        else zero_file) [0..<NFILE]\<rparr>"

definition filealloc :: "kstate \<Rightarrow> (nat option \<times> kstate) res" where
  "filealloc k =
     bind_res (lock_acquire (ft_lock k)) (\<lambda>l.
     case find (\<lambda>f. f_ref (ftable k ! f) = 0) [0..<length (ftable k)] of
       Some f \<Rightarrow>
         let k = set_file k f ((ftable k ! f)\<lparr>f_ref := 1\<rparr>)
         in bind_res (lock_release l) (\<lambda>l. Ok (Some f, k\<lparr>ft_lock := l\<rparr>))
     | None \<Rightarrow> bind_res (lock_release l) (\<lambda>l. Ok (None, k\<lparr>ft_lock := l\<rparr>)))"

definition filedup :: "kstate \<Rightarrow> nat \<Rightarrow> kstate res" where
  "filedup k f =
     bind_res (lock_acquire (ft_lock k)) (\<lambda>l.
     if f_ref (ftable k ! f) < 1 then Fail (Panic ''filedup'')
     else let k = set_file k f ((ftable k ! f)\<lparr>f_ref := f_ref (ftable k ! f) + 1\<rparr>)
          in bind_res (lock_release l) (\<lambda>l. Ok (k\<lparr>ft_lock := l\<rparr>)))"

text \<open>What happens to the object behind the last reference.\<close>

definition close_object :: "nat \<Rightarrow> kstate \<Rightarrow> kfile \<Rightarrow> kstate res" where
  "close_object g k ff =
     (case f_type ff of
        FD_PIPE \<Rightarrow>
          (case f_pipe ff of None \<Rightarrow> Fail Null_pointer
           | Some b \<Rightarrow> (case kpipes k b of None \<Rightarrow> Fail Null_pointer
             | Some pi \<Rightarrow> bind_res (pipeclose (ksched k) pi (f_writable ff)) (\<lambda>(freed, s, pi).
                 Ok (k\<lparr>ksched := s, kpipes := (kpipes k)(b := if freed then None else Some pi)\<rparr>))))
      | FD_ENTRY \<Rightarrow>
          (case f_ep ff of None \<Rightarrow> Fail Null_pointer
           | Some e \<Rightarrow> bind_res (eput g (kfs k) e) (\<lambda>s. Ok (k\<lparr>kfs := s\<rparr>)))
      | _ \<Rightarrow> Ok k)"

definition fileclose :: "nat \<Rightarrow> kstate \<Rightarrow> nat \<Rightarrow> kstate res" where
  "fileclose g k f =
     bind_res (lock_acquire (ft_lock k)) (\<lambda>l.
     let x = ftable k ! f
     in if f_ref x < 1 then Fail (Panic ''fileclose'')
        else let x = x\<lparr>f_ref := f_ref x - 1\<rparr>; k = set_file k f x
             in if f_ref x > 0 then bind_res (lock_release l) (\<lambda>l. Ok (k\<lparr>ft_lock := l\<rparr>))
                else let ff = x; k = set_file k f (x\<lparr>f_ref := 0, f_type := FD_NONE\<rparr>)
                     in bind_res (lock_release l) (\<lambda>l. close_object g (k\<lparr>ft_lock := l\<rparr>) ff))"

section \<open>Reading and writing\<close>

definition fileread :: "devsw \<Rightarrow> kstate \<Rightarrow> nat \<Rightarrow> u64 \<Rightarrow> u32 \<Rightarrow> (int outcome \<times> kstate) res" where
  "fileread dev k f addr n =
     (let x = ftable k ! f
      in if \<not> f_readable x then Ok (Return (- 1), k)
         else case f_type x of
           FD_PIPE \<Rightarrow>
             (case f_pipe x of None \<Rightarrow> Fail Null_pointer
              | Some b \<Rightarrow> (case kpipes k b of None \<Rightarrow> Fail Null_pointer
                | Some pi \<Rightarrow> bind_res (piperead (ux (kfs k)) (ksched k) pi addr n) (\<lambda>(r, u, s, pi).
                    Ok (r, k\<lparr>ksched := s, kfs := (kfs k)\<lparr>ux := u\<rparr>, kpipes := (kpipes k)(b := Some pi)\<rparr>))))
         | FD_DEVICE \<Rightarrow>
             (if f_major x < 0 \<or> f_major x \<ge> NDEV then Ok (Return (- 1), k)
              else case fst (dev (f_major x)) of None \<Rightarrow> Ok (Return (- 1), k)
              | Some rd \<Rightarrow> bind_res (rd k addr n) (\<lambda>(r, k). Ok (Return r, k)))
         | FD_ENTRY \<Rightarrow>
             (case f_ep x of None \<Rightarrow> Fail (Panic ''elock'')
              | Some e \<Rightarrow>
                 bind_res (elock (kfs k) (Some e)) (\<lambda>s.
                 bind_res (eread s e (User addr) (f_off x) n) (\<lambda>(r, s, b).
                 let k = (if r > 0 then set_file k f (x\<lparr>f_off := f_off x + word_of_int r\<rparr>) else k)
                 in bind_res (eunlock s (Some e)) (\<lambda>s. Ok (Return r, k\<lparr>kfs := s\<rparr>)))))
         | FD_NONE \<Rightarrow> Fail (Panic ''fileread''))"

definition filewrite :: "devsw \<Rightarrow> kstate \<Rightarrow> nat \<Rightarrow> u64 \<Rightarrow> u32 \<Rightarrow> (int outcome \<times> kstate) res" where
  "filewrite dev k f addr n =
     (let x = ftable k ! f
      in if \<not> f_writable x then Ok (Return (- 1), k)
         else case f_type x of
           FD_PIPE \<Rightarrow>
             (case f_pipe x of None \<Rightarrow> Fail Null_pointer
              | Some b \<Rightarrow> (case kpipes k b of None \<Rightarrow> Fail Null_pointer
                | Some pi \<Rightarrow> bind_res (pipewrite (ux (kfs k)) (ksched k) pi addr n) (\<lambda>(r, i, s, pi).
                    Ok (r, k\<lparr>ksched := s, kpipes := (kpipes k)(b := Some pi)\<rparr>))))
         | FD_DEVICE \<Rightarrow>
             (if f_major x < 0 \<or> f_major x \<ge> NDEV then Ok (Return (- 1), k)
              else case snd (dev (f_major x)) of None \<Rightarrow> Ok (Return (- 1), k)
              | Some wr \<Rightarrow> bind_res (wr k addr n) (\<lambda>(r, k). Ok (Return r, k)))
         | FD_ENTRY \<Rightarrow>
             (case f_ep x of None \<Rightarrow> Fail (Panic ''elock'')
              | Some e \<Rightarrow>
                 bind_res (elock (kfs k) (Some e)) (\<lambda>s.
                 bind_res (ewrite s e (User addr) (f_off x) n) (\<lambda>(r, s).
                 let ok = (r = sint n);
                     k = (if ok then set_file k f (x\<lparr>f_off := f_off x + n\<rparr>) else k)
                 in bind_res (eunlock s (Some e)) (\<lambda>s. Ok (Return (if ok then sint n else - 1), k\<lparr>kfs := s\<rparr>)))))
         | FD_NONE \<Rightarrow> Fail (Panic ''filewrite''))"

section \<open>Descriptors\<close>

text \<open>The first free descriptor from 3 on.\<close>

definition fdalloc :: "kstate \<Rightarrow> nat \<Rightarrow> (int \<times> kstate) res" where
  "fdalloc k f =
     (case mytask (ksched k) of None \<Rightarrow> Fail Null_pointer
      | Some t \<Rightarrow> (case find (\<lambda>fd. ofile k t ! fd = None) [3..<NOFILE] of
          Some fd \<Rightarrow> Ok (int fd, set_fd k t fd (Some f))
        | None \<Rightarrow> Ok (- 1, k)))"

text \<open>The descriptor is not compared with the bounds of the array.\<close>

definition fdalloc2 :: "kstate \<Rightarrow> nat \<Rightarrow> int \<Rightarrow> (int \<times> kstate) res" where
  "fdalloc2 k f newfd =
     (case mytask (ksched k) of None \<Rightarrow> Fail Null_pointer
      | Some t \<Rightarrow>
         if newfd < 0 \<or> newfd \<ge> int NOFILE then Fail Out_of_bounds
         else if ofile k t ! nat newfd = None then Ok (newfd, set_fd k t (nat newfd) (Some f))
         else Ok (- 1, k))"

text \<open>\<open>g\<close> is the fuel of the path and directory walks.\<close>

definition create :: "nat \<Rightarrow> fs \<Rightarrow> nat option \<Rightarrow> u8 list \<Rightarrow> mktype \<Rightarrow> u32 \<Rightarrow> (nat option \<times> fs) res" where
  "create g s cwd path type mode =
     bind_res (enameparent g s cwd path) (\<lambda>(dp, name, s).
     case dp of None \<Rightarrow> Ok (None, s)
     | Some dp \<Rightarrow>
        let mode = (if type = T_DIR then ATTR_DIRECTORY else if mode AND O_RDONLY \<noteq> 0 then ATTR_READ_ONLY else 0)
        in bind_res (elock s (Some dp)) (\<lambda>s.
           bind_res (ealloc g s dp name mode) (\<lambda>(ep, s).
           case ep of
             None \<Rightarrow> bind_res (eunlock s (Some dp)) (\<lambda>s. bind_res (eput g s dp) (\<lambda>s. Ok (None, s)))
           | Some ep \<Rightarrow>
              if type = T_DIR \<and> attribute (ent s ep) AND ATTR_DIRECTORY = 0
                \<or> type = T_FILE \<and> attribute (ent s ep) AND ATTR_DIRECTORY \<noteq> 0
              then bind_res (eunlock s (Some dp)) (\<lambda>s. bind_res (eput g s ep) (\<lambda>s. bind_res (eput g s dp) (\<lambda>s. Ok (None, s))))
              else bind_res (eunlock s (Some dp)) (\<lambda>s. bind_res (eput g s dp) (\<lambda>s.
                   bind_res (elock s (Some ep)) (\<lambda>s. Ok (Some ep, s)))))))"

text \<open>The second half of \<^verbatim>\<open>fileopen\<close>, the same in both branches: \<open>ep\<close> is locked.\<close>

definition open_entry :: "nat \<Rightarrow> kstate \<Rightarrow> nat \<Rightarrow> u32 \<Rightarrow> (int \<times> kstate) res" where
  "open_entry g k ep omode =
     bind_res (filealloc k) (\<lambda>(f, k).
     bind_res (case f of None \<Rightarrow> Ok (- 1, k) | Some f \<Rightarrow> fdalloc k f) (\<lambda>(fd, k).
     if f = None \<or> fd < 0
     then bind_res (case f of None \<Rightarrow> Ok k | Some f \<Rightarrow> fileclose g k f) (\<lambda>k.
          bind_res (eunlock (kfs k) (Some ep)) (\<lambda>s. bind_res (eput g s ep) (\<lambda>s. Ok (- 1, k\<lparr>kfs := s\<rparr>))))
     else bind_res (if attribute (ent (kfs k) ep) AND ATTR_DIRECTORY = 0 \<and> omode AND O_TRUNC \<noteq> 0 then etrunc (kfs k) ep
                    else Ok (kfs k)) (\<lambda>s.
          let x = (ftable k ! the f)\<lparr>f_type := FD_ENTRY, f_off := (if omode AND O_APPEND \<noteq> 0 then file_size (ent s ep) else 0),
                     f_ep := Some ep, f_readable := (omode AND O_WRONLY = 0),
                     f_writable := (omode AND O_WRONLY \<noteq> 0 \<or> omode AND O_RDWR \<noteq> 0)\<rparr>
          in bind_res (eunlock s (Some ep)) (\<lambda>s. Ok (fd, (set_file k (the f) x)\<lparr>kfs := s\<rparr>)))))"

text \<open>
  With a directory descriptor the new name is looked up in that directory when it is to be
  created; otherwise no entry is looked up at all and \<^verbatim>\<open>ep\<close> stays null. The local \<^verbatim>\<open>mode\<close> is not
  initialised, but its only use is \<^verbatim>\<open>mode & O_RDONLY\<close>, which is 0.
\<close>

definition fileopen :: "nat \<Rightarrow> kstate \<Rightarrow> int \<Rightarrow> u8 list \<Rightarrow> u32 \<Rightarrow> (int \<times> kstate) res" where
  "fileopen g k dfd path omode =
     (case mytask (ksched k) of None \<Rightarrow> Fail Null_pointer
      | Some t \<Rightarrow>
        if dfd = AT_FDCWD
        then bind_res (if omode AND O_CREATE \<noteq> 0 then create g (kfs k) (kcwd k t) path T_FILE omode
                       else bind_res (ename g (kfs k) (kcwd k t) path) (\<lambda>(ep, s).
                            case ep of None \<Rightarrow> Ok (None, s)
                            | Some e \<Rightarrow> bind_res (elock s (Some e)) (\<lambda>s. Ok (Some e, s)))) (\<lambda>(ep, s).
             let k = k\<lparr>kfs := s\<rparr>
             in case ep of None \<Rightarrow> Ok (- 1, k) | Some ep \<Rightarrow> open_entry g k ep omode)
        else if dfd < 0 \<or> dfd \<ge> int NOFILE then Fail Out_of_bounds
        else if omode AND O_CREATE = 0 then bind_res (elock (kfs k) None) (\<lambda>s. Ok (- 1, k))
        else case ofile k t ! nat dfd of None \<Rightarrow> Fail Null_pointer
        | Some f \<Rightarrow> (case f_ep (ftable k ! f) of None \<Rightarrow> Fail (Panic ''elock'')
          | Some dp \<Rightarrow>
             bind_res (elock (kfs k) (Some dp)) (\<lambda>s.
             bind_res (ealloc g s dp path 0) (\<lambda>(ep, s).
             case ep of
               None \<Rightarrow> bind_res (eunlock s (Some dp)) (\<lambda>s. bind_res (eput g s dp) (\<lambda>s. Ok (- 1, k\<lparr>kfs := s\<rparr>)))
             | Some ep \<Rightarrow>
                if attribute (ent s ep) AND ATTR_DIRECTORY \<noteq> 0
                then bind_res (eunlock s (Some dp)) (\<lambda>s. bind_res (eput g s ep) (\<lambda>s. bind_res (eput g s dp) (\<lambda>s.
                     Ok (- 1, k\<lparr>kfs := s\<rparr>))))
                else bind_res (eunlock s (Some dp)) (\<lambda>s. bind_res (elock s (Some ep)) (\<lambda>s.
                     open_entry g (k\<lparr>kfs := s\<rparr>) ep omode))))))"

section \<open>Pipes as files\<close>

text \<open>\<open>blk\<close> is what the kernel heap returns for the pipe: the block with what its bytes are at that moment, or none.\<close>

definition pipealloc :: "nat \<Rightarrow> kstate \<Rightarrow> (nat \<times> pipe) option \<Rightarrow> ((nat \<times> nat) option \<times> kstate) res" where
  "pipealloc g k blk =
     bind_res (filealloc k) (\<lambda>(f0, k).
     bind_res (if f0 = None then Ok (None, k) else filealloc k) (\<lambda>(f1, k).
     case (f0, f1, blk) of
       (Some f0, Some f1, Some (b, old)) \<Rightarrow>
         let k = k\<lparr>kpipes := (kpipes k)(b \<mapsto> pipe_init old)\<rparr>;
             k = set_file k f0 ((ftable k ! f0)\<lparr>f_type := FD_PIPE, f_readable := True, f_writable := False, f_pipe := Some b\<rparr>);
             k = set_file k f1 ((ftable k ! f1)\<lparr>f_type := FD_PIPE, f_readable := False, f_writable := True, f_pipe := Some b\<rparr>)
         in Ok (Some (f0, f1), k)
     | _ \<Rightarrow>
         bind_res (case f0 of None \<Rightarrow> Ok k | Some f \<Rightarrow> fileclose g k f) (\<lambda>k.
         bind_res (case f1 of None \<Rightarrow> Ok k | Some f \<Rightarrow> fileclose g k f) (\<lambda>k. Ok (None, k)))))"

section \<open>System calls\<close>

text \<open>
  The arguments of a call: the registers \<^verbatim>\<open>a0\<close>, \<^verbatim>\<open>a1\<close>, ... of the trap context. The sixth argument is taken from
  \<^verbatim>\<open>a6\<close>, not \<^verbatim>\<open>a5\<close>.
\<close>

type_synonym regs = "nat \<Rightarrow> u64"

definition argraw :: "regs \<Rightarrow> nat \<Rightarrow> u64 res" where
  "argraw a n = (if n < 5 then Ok (a n) else if n = 5 then Ok (a 6) else Fail (Panic ''argraw''))"

definition argint :: "regs \<Rightarrow> nat \<Rightarrow> u32 res" where
  "argint a n = bind_res (argraw a n) (\<lambda>x. Ok (ucast x))"

definition argaddr :: "regs \<Rightarrow> nat \<Rightarrow> u64 res" where
  "argaddr a n = argraw a n"

text \<open>The descriptor and its file, \<open>None\<close> for the result -1.\<close>

definition argfd :: "regs \<Rightarrow> nat \<Rightarrow> kstate \<Rightarrow> (nat \<times> nat) option res" where
  "argfd a n k =
     bind_res (argint a n) (\<lambda>fd.
     if sint fd < 0 \<or> sint fd \<ge> int NOFILE then Ok None
     else case mytask (ksched k) of None \<Rightarrow> Fail Null_pointer
     | Some t \<Rightarrow> (case ofile k t ! nat (sint fd) of None \<Rightarrow> Ok None | Some f \<Rightarrow> Ok (Some (nat (sint fd), f))))"

text \<open>A string of at most \<open>mx\<close> bytes at a user address: \<open>None\<close> for a negative result.\<close>

definition argstr :: "regs \<Rightarrow> nat \<Rightarrow> kstate \<Rightarrow> u64 \<Rightarrow> u8 list option res" where
  "argstr a n k mx =
     bind_res (argaddr a n) (\<lambda>addr.
     bind_res (copyinstr2 (usz (ux (kfs k))) (umem (ux (kfs k))) (upt (ux (kfs k))) addr mx) (\<lambda>(r, bs).
     Ok (if r < 0 then None else Some (takeWhile (\<lambda>c. c \<noteq> 0) bs))))"

definition sys_read :: "devsw \<Rightarrow> regs \<Rightarrow> kstate \<Rightarrow> (int outcome \<times> kstate) res" where
  "sys_read dev a k =
     bind_res (argfd a 0 k) (\<lambda>d. case d of None \<Rightarrow> Ok (Return (- 1), k)
     | Some (fd, f) \<Rightarrow> bind_res (argint a 2) (\<lambda>n. bind_res (argaddr a 1) (\<lambda>p. fileread dev k f p n)))"

definition sys_write :: "devsw \<Rightarrow> regs \<Rightarrow> kstate \<Rightarrow> (int outcome \<times> kstate) res" where
  "sys_write dev a k =
     bind_res (argfd a 0 k) (\<lambda>d. case d of None \<Rightarrow> Ok (Return (- 1), k)
     | Some (fd, f) \<Rightarrow> bind_res (argint a 2) (\<lambda>n. bind_res (argaddr a 1) (\<lambda>p. filewrite dev k f p n)))"

definition FAT32_MAX_PATH :: u64 where "FAT32_MAX_PATH = 260"

definition sys_open :: "nat \<Rightarrow> regs \<Rightarrow> kstate \<Rightarrow> (int \<times> kstate) res" where
  "sys_open g a k =
     bind_res (argstr a 1 k FAT32_MAX_PATH) (\<lambda>p. case p of None \<Rightarrow> Ok (- 1, k)
     | Some path \<Rightarrow> bind_res (argint a 0) (\<lambda>fd. bind_res (argint a 2) (\<lambda>flags. fileopen g k (sint fd) path flags)))"

definition sys_close :: "nat \<Rightarrow> regs \<Rightarrow> kstate \<Rightarrow> (int \<times> kstate) res" where
  "sys_close g a k =
     bind_res (argfd a 0 k) (\<lambda>d. case d of None \<Rightarrow> Ok (- 1, k)
     | Some (fd, f) \<Rightarrow> (case mytask (ksched k) of None \<Rightarrow> Fail Null_pointer
       | Some t \<Rightarrow> bind_res (fileclose g (set_fd k t fd None) f) (\<lambda>k. Ok (0, k))))"

definition sys_dup :: "regs \<Rightarrow> kstate \<Rightarrow> (int \<times> kstate) res" where
  "sys_dup a k =
     bind_res (argfd a 0 k) (\<lambda>d. case d of None \<Rightarrow> Ok (- 1, k)
     | Some (fd0, f) \<Rightarrow> bind_res (fdalloc k f) (\<lambda>(fd, k).
         if fd < 0 then Ok (- 1, k) else bind_res (filedup k f) (\<lambda>k. Ok (fd, k))))"

definition sys_dup3 :: "regs \<Rightarrow> kstate \<Rightarrow> (int \<times> kstate) res" where
  "sys_dup3 a k =
     bind_res (argint a 0) (\<lambda>oldfd.
     bind_res (argfd a 0 k) (\<lambda>d. case d of None \<Rightarrow> Ok (- 1, k)
     | Some (fd0, f) \<Rightarrow> bind_res (argint a 1) (\<lambda>newfd.
         if oldfd = newfd then Ok (sint newfd, k)
         else bind_res (fdalloc2 k f (sint newfd)) (\<lambda>(newfd, k).
              if newfd \<noteq> - 1 then bind_res (filedup k f) (\<lambda>k. Ok (newfd, k)) else Ok (newfd, k)))))"

text \<open>The four bytes of a descriptor stored at a user address.\<close>

definition put_fd :: "kstate \<Rightarrow> u64 \<Rightarrow> int \<Rightarrow> (int \<times> kstate) res" where
  "put_fd k addr fd =
     bind_res (copyout2 (usz (ux (kfs k))) (umem (ux (kfs k))) (upt (ux (kfs k))) addr (le_bytes 4 (word_of_int fd)) 4) (\<lambda>(r, m).
     Ok (r, k\<lparr>kfs := (kfs k)\<lparr>ux := (ux (kfs k))\<lparr>umem := m\<rparr>\<rparr>\<rparr>))"

definition close_both :: "nat \<Rightarrow> kstate \<Rightarrow> nat \<Rightarrow> nat \<Rightarrow> (int \<times> kstate) res" where
  "close_both g k rf wfl = bind_res (fileclose g k rf) (\<lambda>k. bind_res (fileclose g k wfl) (\<lambda>k. Ok (- 1, k)))"

definition sys_pipe :: "nat \<Rightarrow> (nat \<times> pipe) option \<Rightarrow> regs \<Rightarrow> kstate \<Rightarrow> (int \<times> kstate) res" where
  "sys_pipe g blk a k =
     (case mytask (ksched k) of None \<Rightarrow> Fail Null_pointer
      | Some t \<Rightarrow>
        bind_res (argaddr a 0) (\<lambda>fdarray.
        bind_res (pipealloc g k blk) (\<lambda>(p, k). case p of None \<Rightarrow> Ok (- 1, k)
        | Some (rf, wfl) \<Rightarrow>
           bind_res (fdalloc k rf) (\<lambda>(fd0, k).
           if fd0 < 0 then close_both g k rf wfl
           else bind_res (fdalloc k wfl) (\<lambda>(fd1, k).
             if fd1 < 0 then close_both g (set_fd k t (nat fd0) None) rf wfl
             else bind_res (put_fd k fdarray fd0) (\<lambda>(r, k).
               let undo = (\<lambda>k. close_both g (set_fd (set_fd k t (nat fd0) None) t (nat fd1) None) rf wfl)
               in if r < 0 then undo k
                  else bind_res (put_fd k (fdarray + 4) fd1) (\<lambda>(r, k). if r < 0 then undo k else Ok (0, k))))))))"

text \<open>The loops over the descriptors in \<^verbatim>\<open>fork\<close> and in \<^verbatim>\<open>exit_current_and_run_next\<close>, the latter from descriptor 3 on.\<close>

primrec fork_files :: "nat list \<Rightarrow> kstate \<Rightarrow> nat \<Rightarrow> nat \<Rightarrow> kstate res" where
  "fork_files [] k p c = Ok k"
| "fork_files (i # is) k p c =
     (case ofile k p ! i of None \<Rightarrow> fork_files is k p c
      | Some f \<Rightarrow> bind_res (filedup k f) (\<lambda>k. fork_files is (set_fd k c i (Some f)) p c))"

primrec exit_files :: "nat \<Rightarrow> nat list \<Rightarrow> kstate \<Rightarrow> nat \<Rightarrow> kstate res" where
  "exit_files g [] k t = Ok k"
| "exit_files g (fd # fds) k t =
     (case ofile k t ! fd of None \<Rightarrow> exit_files g fds k t
      | Some f \<Rightarrow> bind_res (fileclose g k f) (\<lambda>k. exit_files g fds (set_fd k t fd None) t))"

text \<open>
  The same loops of \<^verbatim>\<open>tcb_new\<close> and \<^verbatim>\<open>add_initproc\<close>: the first three descriptors are the console. \<^verbatim>\<open>fork\<close> writes
  only the descriptors that the parent has open: the others of the child are null because the heap
  clears the block of a new task.
\<close>

primrec std_files :: "nat list \<Rightarrow> kstate \<Rightarrow> nat \<Rightarrow> kstate res" where
  "std_files [] k t = Ok k"
| "std_files (i # is) k t = bind_res (filedup k i) (\<lambda>k. std_files is (set_fd k t i (Some i)) t)"

definition std_fds :: "kstate \<Rightarrow> nat \<Rightarrow> kstate res" where
  "std_fds k t = bind_res (std_files [0..<3] k t) (\<lambda>k. Ok (fold (\<lambda>i k. set_fd k t i None) [3..<NOFILE] k))"

definition fork_fds :: "kstate \<Rightarrow> nat \<Rightarrow> nat \<Rightarrow> kstate res" where
  "fork_fds k p c = fork_files [0..<NOFILE] k p c"

definition exit_fds :: "nat \<Rightarrow> kstate \<Rightarrow> nat \<Rightarrow> kstate res" where
  "exit_fds g k t = exit_files g [3..<NOFILE] k t"

section \<open>Reference counts\<close>

text \<open>How many descriptors of the tasks \<open>T\<close> refer to the file \<open>f\<close>.\<close>

definition refs :: "nat set \<Rightarrow> kstate \<Rightarrow> nat \<Rightarrow> nat" where
  "refs T k f = (\<Sum>t\<in>T. count_list (ofile k t) (Some f))"

text \<open>
  The invariant, with \<open>x f\<close> references to \<open>f\<close> that a call holds in its hands at the moment: the tables
  have their sizes, the lock is free, only the tasks of \<open>T\<close> have descriptors, and every file has at
  least as many references counted as there are.
\<close>

definition fd_inv :: "nat set \<Rightarrow> (nat \<Rightarrow> nat) \<Rightarrow> kstate \<Rightarrow> bool" where
  "fd_inv T x k \<longleftrightarrow> finite T \<and> \<not> ft_lock k \<and> length (ftable k) = NFILE \<and> (\<forall>t. length (ofile k t) = NOFILE)
     \<and> (\<forall>t. t \<notin> T \<longrightarrow> set (ofile k t) \<subseteq> {None}) \<and> (\<forall>t f. Some f \<in> set (ofile k t) \<longrightarrow> f < NFILE)
     \<and> (\<forall>f < NFILE. int (refs T k f + x f) \<le> f_ref (ftable k ! f))"

lemma fd_invD:
  assumes "fd_inv T x k"
  shows "finite T" and "\<not> ft_lock k" and "length (ftable k) = NFILE" and "\<And>t. length (ofile k t) = NOFILE"
    and "\<And>t. t \<notin> T \<Longrightarrow> set (ofile k t) \<subseteq> {None}" and "\<And>t f. Some f \<in> set (ofile k t) \<Longrightarrow> f < NFILE"
    and "\<And>f. f < NFILE \<Longrightarrow> int (refs T k f + x f) \<le> f_ref (ftable k ! f)"
  using assms unfolding fd_inv_def by blast+

lemma count_list_update:
  assumes "i < length xs"
  shows "count_list (xs[i := v]) y + (if xs ! i = y then 1 else 0) = count_list xs y + (if v = y then 1 else 0)"
  using assms
proof (induction xs arbitrary: i)
  case Nil
  then show ?case by simp
next
  case (Cons a xs)
  show ?case
  proof (cases i)
    case 0
    then show ?thesis by simp
  next
    case (Suc j)
    then show ?thesis using Cons.IH [of j] Cons.prems by (auto split: if_splits)
  qed
qed

lemma refs_set_fd:
  assumes "finite T" and "t \<in> T" and "fd < length (ofile k t)"
  shows "refs T (set_fd k t fd v) f + (if ofile k t ! fd = Some f then 1 else 0) = refs T k f + (if v = Some f then 1 else 0)"
proof -
  have "refs T (set_fd k t fd v) f = count_list ((ofile k t)[fd := v]) (Some f) + (\<Sum>u\<in>T - {t}. count_list (ofile k u) (Some f))"
    unfolding refs_def by (subst sum.remove [OF assms(1,2)]) (simp add: set_fd_def)
  moreover have "refs T k f = count_list (ofile k t) (Some f) + (\<Sum>u\<in>T - {t}. count_list (ofile k u) (Some f))"
    unfolding refs_def by (rule sum.remove [OF assms(1,2)])
  ultimately show ?thesis using count_list_update [OF assms(3), of v "Some f"] by simp
qed

text \<open>A descriptor that is in use is counted.\<close>

lemma refs_pos:
  assumes "fd_inv T x k" and "fd < NOFILE" and "ofile k t ! fd = Some f"
  shows "1 \<le> refs T k f" and "t \<in> T" and "f < NFILE"
proof -
  note d = fd_invD [OF assms(1)]
  have m: "Some f \<in> set (ofile k t)" using assms(2,3) d(4) [of t] by (metis nth_mem)
  then show "f < NFILE" using d(6) by blast
  show t: "t \<in> T" using d(5) m by blast
  have "count_list (ofile k t) (Some f) \<noteq> 0" using m by (simp add: count_list_0_iff)
  then have "1 \<le> count_list (ofile k t) (Some f)" by simp
  also have "\<dots> \<le> refs T k f" unfolding refs_def by (rule member_le_sum [OF t _ d(1)]) simp
  finally show "1 \<le> refs T k f" .
qed

text \<open>Changes that the invariant does not see.\<close>

lemma fd_inv_other:
  assumes "fd_inv T x k" and "ftable k' = ftable k" and "ofile k' = ofile k" and "ft_lock k' = ft_lock k"
  shows "fd_inv T x k'"
  using assms by (simp add: fd_inv_def refs_def)

lemma fd_inv_more:
  assumes "fd_inv T x k" and "\<And>f. y f \<le> x f"
  shows "fd_inv T y k"
proof -
  note d = fd_invD [OF assms(1)]
  have "int (refs T k f + y f) \<le> f_ref (ftable k ! f)" if "f < NFILE" for f
    using d(7) [OF that] assms(2) [of f] by linarith
  then show ?thesis using assms(1) by (simp add: fd_inv_def)
qed

lemma fd_inv_file:
  assumes "fd_inv T x k" and "f < NFILE" and "f_ref n = f_ref (ftable k ! f)"
  shows "fd_inv T x (set_file k f n)"
  using assms by (auto simp: fd_inv_def set_file_def refs_def nth_list_update)

lemma fd_inv_off:
  assumes "fd_inv T x k" and "f < NFILE"
  shows "fd_inv T x ((set_file k f ((ftable k ! f)\<lparr>f_off := off\<rparr>))\<lparr>kfs := s\<rparr>)"
  by (rule fd_inv_other [OF fd_inv_file [OF assms]]) simp_all

lemma close_object_keeps:
  assumes "close_object g k ff = Ok k'"
  shows "ftable k' = ftable k" and "ofile k' = ofile k" and "ft_lock k' = ft_lock k"
  using assms by (auto simp: close_object_def split: ftype.splits option.splits)

lemma filealloc_ok:
  assumes inv: "fd_inv T x k"
  shows "\<exists>r k'. filealloc k = Ok (r, k') \<and> (case r of None \<Rightarrow> fd_inv T x k' \<and> ofile k' = ofile k
    | Some f \<Rightarrow> f < NFILE \<and> x f = 0 \<and> fd_inv T (x(f := 1)) k' \<and> ofile k' = ofile k \<and> f_type (ftable k' ! f) = f_type (ftable k ! f))
    \<and> ksched k' = ksched k \<and> kfs k' = kfs k \<and> kpipes k' = kpipes k"
proof -
  note d = fd_invD [OF inv]
  show ?thesis
  proof (cases "find (\<lambda>f. f_ref (ftable k ! f) = 0) [0..<length (ftable k)]")
    case None
    then have "filealloc k = Ok (None, k\<lparr>ft_lock := False\<rparr>)" using d(2) by (simp add: filealloc_def)
    moreover have "fd_inv T x (k\<lparr>ft_lock := False\<rparr>)" using fd_inv_other [OF inv] d(2) by simp
    ultimately show ?thesis by auto
  next
    case (Some f)
    then have f: "f < NFILE" "f_ref (ftable k ! f) = 0" using d(3) by (auto simp: find_Some_iff)
    let ?k = "(set_file k f ((ftable k ! f)\<lparr>f_ref := 1\<rparr>))\<lparr>ft_lock := False\<rparr>"
    have run: "filealloc k = Ok (Some f, ?k)" using Some d(2) by (simp add: filealloc_def)
    have z: "refs T k f = 0" "x f = 0" using d(7) [OF f(1)] f(2) by simp_all
    have "fd_inv T (x(f := 1)) ?k"
      using inv f(1) z d(3) by (auto simp: fd_inv_def set_file_def refs_def nth_list_update)
    then show ?thesis using run f(1) z(2) d(3) by (auto simp: set_file_def)
  qed
qed

lemma filedup_ok:
  assumes inv: "fd_inv T x k" and f: "f < NFILE" "1 \<le> refs T k f + x f"
  shows "\<exists>k'. filedup k f = Ok k' \<and> fd_inv T (x(f := x f + 1)) k' \<and> ofile k' = ofile k \<and> ksched k' = ksched k"
proof -
  note d = fd_invD [OF inv]
  have "1 \<le> f_ref (ftable k ! f)" using d(7) [OF f(1)] f(2) by linarith
  then have "filedup k f = Ok ((set_file k f ((ftable k ! f)\<lparr>f_ref := f_ref (ftable k ! f) + 1\<rparr>))\<lparr>ft_lock := False\<rparr>)"
    using d(2) by (simp add: filedup_def Let_def)
  moreover have "fd_inv T (x(f := x f + 1)) ((set_file k f ((ftable k ! f)\<lparr>f_ref := f_ref (ftable k ! f) + 1\<rparr>))\<lparr>ft_lock := False\<rparr>)"
    using inv f(1) d(3) by (auto simp: fd_inv_def set_file_def refs_def nth_list_update)
  ultimately show ?thesis by (auto simp: set_file_def)
qed

text \<open>Closing a reference that a call holds: the structure itself is never the cause of a failure.\<close>

lemma fileclose_ok:
  assumes inv: "fd_inv T x k" and f: "f < NFILE" "1 \<le> x f"
  shows "\<exists>k1. (fileclose g k f = Ok k1 \<or> fileclose g k f = close_object g k1 ((ftable k ! f)\<lparr>f_ref := 0\<rparr>))
    \<and> fd_inv T (x(f := x f - 1)) k1 \<and> ofile k1 = ofile k"
proof -
  note d = fd_invD [OF inv]
  have r: "1 \<le> f_ref (ftable k ! f)" using d(7) [OF f(1)] f(2) by linarith
  let ?y = "(ftable k ! f)\<lparr>f_ref := f_ref (ftable k ! f) - 1\<rparr>"
  show ?thesis
  proof (cases "f_ref (ftable k ! f) - 1 > 0")
    case True
    then have "fileclose g k f = Ok ((set_file k f ?y)\<lparr>ft_lock := False\<rparr>)"
      using r d(2) by (simp add: fileclose_def Let_def)
    moreover have "fd_inv T (x(f := x f - 1)) ((set_file k f ?y)\<lparr>ft_lock := False\<rparr>)"
      using inv f d(3) by (fastforce simp: fd_inv_def set_file_def refs_def nth_list_update)
    ultimately show ?thesis by (auto simp: set_file_def)
  next
    case False
    then have one: "f_ref (ftable k ! f) = 1" using r by linarith
    let ?k = "(set_file k f ((ftable k ! f)\<lparr>f_ref := 0, f_type := FD_NONE\<rparr>))\<lparr>ft_lock := False\<rparr>"
    have z: "refs T k f = 0" "x f = 1" using d(7) [OF f(1)] one f(2) by linarith+
    have "fileclose g k f = close_object g ?k ((ftable k ! f)\<lparr>f_ref := 0\<rparr>)"
      using one d(2) by (simp add: fileclose_def Let_def set_file_def)
    moreover have "fd_inv T (x(f := x f - 1)) ?k"
      using inv f z d(3) by (auto simp: fd_inv_def set_file_def refs_def nth_list_update)
    ultimately show ?thesis by (auto simp: set_file_def)
  qed
qed

lemma fileclose_inv:
  assumes inv: "fd_inv T x k" and f: "f < NFILE" "1 \<le> x f" and c: "fileclose g k f = Ok k'"
  shows "fd_inv T (x(f := x f - 1)) k'" and "ofile k' = ofile k"
proof -
  obtain k1 where k1: "fileclose g k f = Ok k1 \<or> fileclose g k f = close_object g k1 ((ftable k ! f)\<lparr>f_ref := 0\<rparr>)"
    "fd_inv T (x(f := x f - 1)) k1" "ofile k1 = ofile k"
    using fileclose_ok [OF inv f] by blast
  have "ftable k' = ftable k1 \<and> ofile k' = ofile k1 \<and> ft_lock k' = ft_lock k1"
    using k1(1) c close_object_keeps by fastforce
  then show "fd_inv T (x(f := x f - 1)) k'" and "ofile k' = ofile k" using fd_inv_other [OF k1(2)] k1(3) by auto
qed

text \<open>Handing a held reference to a free descriptor, and taking one back.\<close>

lemma set_fd_give:
  assumes inv: "fd_inv T x k" and t: "t \<in> T" "fd < NOFILE" "ofile k t ! fd = None" and f: "f < NFILE" "1 \<le> x f"
  shows "fd_inv T (x(f := x f - 1)) (set_fd k t fd (Some f))"
proof -
  note d = fd_invD [OF inv]
  have r: "refs T (set_fd k t fd (Some f)) h = refs T k h + (if f = h then 1 else 0)" for h
    using refs_set_fd [OF d(1) t(1), of fd k "Some f" h] t(2,3) d(4) by simp
  have "int (refs T (set_fd k t fd (Some f)) h + (x(f := x f - 1)) h) \<le> f_ref (ftable (set_fd k t fd (Some f)) ! h)" if "h < NFILE" for h
    using d(7) [OF that] f(2) r [of h] by (auto simp: set_fd_def)
  moreover have "Some h \<in> set (ofile (set_fd k t fd (Some f)) u) \<Longrightarrow> h < NFILE" for u h
    using d(6) [of h u] f(1) set_update_subset_insert [of "ofile k t" fd "Some f"] by (auto simp: set_fd_def split: if_splits)
  moreover have "set (ofile (set_fd k t fd (Some f)) u) \<subseteq> {None}" if "u \<notin> T" for u
    using d(5) [OF that] that t(1) by (auto simp: set_fd_def)
  ultimately show ?thesis using d(1-4) by (auto simp: fd_inv_def set_fd_def)
qed

lemma set_fd_take:
  assumes inv: "fd_inv T x k" and t: "fd < NOFILE" "ofile k t ! fd = Some f"
  shows "fd_inv T (x(f := x f + 1)) (set_fd k t fd None)"
proof -
  note d = fd_invD [OF inv] and p = refs_pos [OF inv t]
  have r: "refs T (set_fd k t fd None) h + (if f = h then 1 else 0) = refs T k h" for h
    using refs_set_fd [OF d(1) p(2), of fd k None h] t d(4) by simp
  have "int (refs T (set_fd k t fd None) h + (x(f := x f + 1)) h) \<le> f_ref (ftable (set_fd k t fd None) ! h)" if "h < NFILE" for h
    using d(7) [OF that] r [of h] by (auto simp: set_fd_def)
  moreover have "Some h \<in> set (ofile (set_fd k t fd None) u) \<Longrightarrow> h < NFILE" for u h
    using d(6) [of h u] set_update_subset_insert [of "ofile k t" fd None] d(6) [of h t]
    by (auto simp: set_fd_def split: if_splits)
  moreover have "set (ofile (set_fd k t fd None) u) \<subseteq> {None}" if "u \<notin> T" for u
    using d(5) [OF that] that p(2) by (auto simp: set_fd_def)
  ultimately show ?thesis using d(1-4) by (auto simp: fd_inv_def set_fd_def)
qed

text \<open>The reference counts do not look at the descriptors, so the two kinds of step commute.\<close>

lemma filedup_set_fd: "filedup (set_fd k t fd v) f = bind_res (filedup k f) (\<lambda>k. Ok (set_fd k t fd v))"
  by (cases "ft_lock k") (simp_all add: filedup_def set_fd_def set_file_def)

lemma close_object_set_fd: "close_object g (set_fd k t fd v) ff = bind_res (close_object g k ff) (\<lambda>k. Ok (set_fd k t fd v))"
proof (cases "f_type ff")
  case FD_PIPE
  show ?thesis
  proof (cases "Option.bind (f_pipe ff) (kpipes k)")
    case None
    then show ?thesis using FD_PIPE by (auto simp: close_object_def set_fd_def bind_eq_None_conv split: option.splits)
  next
    case (Some pi)
    then show ?thesis using FD_PIPE
      by (cases "pipeclose (ksched k) pi (f_writable ff)") (auto simp: close_object_def set_fd_def bind_eq_Some_conv)
  qed
next
  case FD_ENTRY
  then show ?thesis
    by (cases "f_ep ff"; cases "eput g (kfs k) (the (f_ep ff))") (simp_all add: close_object_def set_fd_def)
qed (simp_all add: close_object_def)

lemma set_fd_commute:
  "set_file (set_fd k t fd v) f y = set_fd (set_file k f y) t fd v" "(set_fd k t fd v)\<lparr>ft_lock := l\<rparr> = set_fd (k\<lparr>ft_lock := l\<rparr>) t fd v"
  "ft_lock (set_fd k t fd v) = ft_lock k" "ftable (set_fd k t fd v) = ftable k" "ksched (set_fd k t fd v) = ksched k"
  by (simp_all add: set_fd_def set_file_def)

lemma fileclose_set_fd: "fileclose g (set_fd k t fd v) f = bind_res (fileclose g k f) (\<lambda>k. Ok (set_fd k t fd v))"
  by (cases "ft_lock k") (simp_all add: fileclose_def Let_def set_fd_commute close_object_set_fd)

lemma fd_dup:
  assumes inv: "fd_inv T x k" and t: "t \<in> T" "i < NOFILE" "ofile k t ! i = None" and f: "f < NFILE" "1 \<le> refs T k f + x f"
  shows "\<exists>k'. filedup (set_fd k t i (Some f)) f = Ok k' \<and> fd_inv T x k' \<and> ofile k' = (ofile k)(t := (ofile k t)[i := Some f]) \<and> ksched k' = ksched k"
proof -
  obtain k1 where k1: "filedup k f = Ok k1" "fd_inv T (x(f := x f + 1)) k1" "ofile k1 = ofile k" "ksched k1 = ksched k"
    using filedup_ok [OF inv f] by blast
  have "fd_inv T ((x(f := x f + 1))(f := (x(f := x f + 1)) f - 1)) (set_fd k1 t i (Some f))"
    by (rule set_fd_give [OF k1(2) t(1,2) _ f(1)]) (simp_all add: k1(3) t(3))
  then have "fd_inv T x (set_fd k1 t i (Some f))" by simp
  then show ?thesis using k1 by (simp add: filedup_set_fd) (simp add: set_fd_def)
qed

lemma fd_close:
  assumes inv: "fd_inv T x k" and t: "fd < NOFILE" "ofile k t ! fd = Some f" and c: "fileclose g (set_fd k t fd None) f = Ok k'"
  shows "fd_inv T x k'" and "ofile k' = (ofile k)(t := (ofile k t)[fd := None])"
proof -
  have one: "1 \<le> (x(f := x f + 1)) f" by simp
  note c = fileclose_inv [OF set_fd_take [OF inv t] refs_pos(3) [OF inv t] one c]
  have "(x(f := x f + 1))(f := (x(f := x f + 1)) f - 1) = x" by auto
  then show "fd_inv T x k'" using c(1) by metis
  show "ofile k' = (ofile k)(t := (ofile k t)[fd := None])" using c(2) by (simp add: set_fd_def)
qed

lemma fdalloc_cases:
  assumes "fdalloc k f = Ok (fd, k')"
  obtains "fd = - 1" and "k' = k"
  | t i where "mytask (ksched k) = Some t" "fd = int i" "i < NOFILE" "ofile k t ! i = None" "k' = set_fd k t i (Some f)"
proof -
  from assms obtain t where t: "mytask (ksched k) = Some t" by (cases "mytask (ksched k)") (auto simp: fdalloc_def)
  show thesis
  proof (cases "find (\<lambda>fd. ofile k t ! fd = None) [3..<NOFILE]")
    case None
    then show thesis using assms t that(1) by (simp add: fdalloc_def)
  next
    case (Some i)
    then obtain j where "j < length [3..<NOFILE]" "i = [3..<NOFILE] ! j" "ofile k t ! i = None"
      unfolding find_Some_iff by metis
    then have i: "i < NOFILE" "ofile k t ! i = None" by auto
    have "fd = int i" "k' = set_fd k t i (Some f)" using assms t Some by (simp_all add: fdalloc_def)
    then show thesis using that(2) t i by blast
  qed
qed

text \<open>The tasks that run are among those of \<open>T\<close>.\<close>

definition runs_in :: "nat set \<Rightarrow> kstate \<Rightarrow> bool" where
  "runs_in T k \<longleftrightarrow> (case mytask (ksched k) of None \<Rightarrow> True | Some t \<Rightarrow> t \<in> T)"

lemma argfd_cases:
  assumes "bind_res (argfd a n k) (\<lambda>d. case d of None \<Rightarrow> Ok y | Some (fd, f) \<Rightarrow> h fd f) = Ok z"
  obtains "z = y" | fd f t where "fd < NOFILE" "mytask (ksched k) = Some t" "ofile k t ! fd = Some f" "h fd f = Ok z"
proof -
  from assms obtain d where d: "argfd a n k = Ok d" "(case d of None \<Rightarrow> Ok y | Some (fd, f) \<Rightarrow> h fd f) = Ok z" by auto
  show thesis
  proof (cases d)
    case None
    then show thesis using d(2) that(1) by simp
  next
    case (Some e)
    obtain fd f where e: "e = (fd, f)" by fastforce
    have "fd < NOFILE" "\<exists>t. mytask (ksched k) = Some t \<and> ofile k t ! fd = Some f"
      using d(1) Some e by (auto simp: argfd_def split: if_splits option.splits)
    then show thesis using that(2) d(2) Some e by auto
  qed
qed

lemma sys_dup_inv:
  assumes inv: "fd_inv T x k" and c: "sys_dup a k = Ok (r, k')"
  shows "fd_inv T x k'"
  using c unfolding sys_dup_def
proof (cases rule: argfd_cases)
  case (2 fd f u)
  note p = refs_pos [OF inv 2(1,3)]
  from 2(4) obtain i k1 where k1: "fdalloc k f = Ok (i, k1)" "(if i < 0 then Ok (- 1, k1) else bind_res (filedup k1 f) (\<lambda>k. Ok (i, k))) = Ok (r, k')" by auto
  from k1(1) show ?thesis
  proof (cases rule: fdalloc_cases)
    case 1
    then show ?thesis using k1(2) inv by simp
  next
    case (2 t j)
    then have "t \<in> T" using p(2) \<open>mytask (ksched k) = Some u\<close> by simp
    then show ?thesis using fd_dup [OF inv _ 2(3,4) p(3)] p(1) k1(2) 2 by auto
  qed
qed (use inv in simp)

lemma sys_dup3_inv:
  assumes inv: "fd_inv T x k" and c: "sys_dup3 a k = Ok (r, k')"
  shows "fd_inv T x k'"
proof -
  from c obtain old where "bind_res (argfd a 0 k) (\<lambda>d. case d of None \<Rightarrow> Ok (- 1, k)
     | Some (fd0, f) \<Rightarrow> bind_res (argint a 1) (\<lambda>newfd.
         if old = newfd then Ok (sint newfd, k)
         else bind_res (fdalloc2 k f (sint newfd)) (\<lambda>(newfd, k).
              if newfd \<noteq> - 1 then bind_res (filedup k f) (\<lambda>k. Ok (newfd, k)) else Ok (newfd, k)))) = Ok (r, k')"
    unfolding sys_dup3_def bind_res_eq_Ok by blast
  then show ?thesis
  proof (cases rule: argfd_cases)
    case (2 fd f u)
    note p = refs_pos [OF inv 2(1,3)]
    from 2(4) consider "k' = k" | new i k1 where "fdalloc2 k f new = Ok (i, k1)" "(if i \<noteq> - 1 then bind_res (filedup k1 f) (\<lambda>k. Ok (i, k)) else Ok (i, k1)) = Ok (r, k')"
      by (auto split: if_splits)
    then show ?thesis
    proof cases
      case (2 new i k1)
      show ?thesis
      proof (cases "i = - 1")
        case True
        then show ?thesis using 2 inv \<open>mytask (ksched k) = Some u\<close> by (auto simp: fdalloc2_def split: if_splits)
      next
        case False
        then have "nat new < NOFILE" "ofile k u ! nat new = None" "k1 = set_fd k u (nat new) (Some f)"
          using 2(1) \<open>mytask (ksched k) = Some u\<close> by (auto simp: fdalloc2_def split: if_splits)
        then show ?thesis using fd_dup [OF inv p(2) _ _ p(3), of "nat new"] p(1) 2(2) False by auto
      qed
    qed (use inv in simp)
  qed (use inv in simp)
qed

lemma sys_close_inv:
  assumes inv: "fd_inv T x k" and c: "sys_close g a k = Ok (r, k')"
  shows "fd_inv T x k'"
  using c unfolding sys_close_def
proof (cases rule: argfd_cases)
  case (2 fd f t)
  then show ?thesis using fd_close(1) [OF inv 2(1,3)] by auto
qed (use inv in simp)

text \<open>A new file structure is held until it has a descriptor.\<close>

lemma fdalloc_inv:
  assumes inv: "fd_inv T x k" and run: "runs_in T k" and f: "f < NFILE" "1 \<le> x f" and c: "fdalloc k f = Ok (fd, k')"
  shows "if fd < 0 then k' = k
    else nat fd < NOFILE \<and> fd_inv T (x(f := x f - 1)) k' \<and> (\<exists>t. mytask (ksched k) = Some t \<and> t \<in> T \<and> ofile k t ! nat fd = None \<and> k' = set_fd k t (nat fd) (Some f))"
  using c
proof (cases rule: fdalloc_cases)
  case (2 t i)
  then have "t \<in> T" using run by (simp add: runs_in_def)
  then show ?thesis using set_fd_give [OF inv _ 2(3,4) f] 2 by simp
qed simp

lemma runs_in_keeps: "ksched k' = ksched k \<Longrightarrow> runs_in T k' = runs_in T k"
  by (simp add: runs_in_def)

lemma filealloc_inv:
  assumes inv: "fd_inv T x k" and c: "filealloc k = Ok (r, k')"
  shows "ksched k' = ksched k" "ofile k' = ofile k" "r = None \<Longrightarrow> fd_inv T x k'"
    "r = Some f \<Longrightarrow> f < NFILE" "r = Some f \<Longrightarrow> x f = 0" "r = Some f \<Longrightarrow> fd_inv T (x(f := 1)) k'"
  using filealloc_ok [OF inv] c by (auto split: option.splits)

lemma upd_back: "x f = 0 \<Longrightarrow> (x(f := 1))(f := (x(f := 1)) f - 1) = x" for x :: "nat \<Rightarrow> nat"
  by auto

lemma open_entry_inv:
  assumes inv: "fd_inv T x k" and run: "runs_in T k" and c: "open_entry g k ep omode = Ok (r, k')"
  shows "fd_inv T x k'"
proof -
  from c obtain fo k1 where a: "filealloc k = Ok (fo, k1)" by (auto simp: open_entry_def)
  note A = filealloc_inv [OF inv a]
  show ?thesis
  proof (cases fo)
    case None
    obtain s where "k' = k1\<lparr>kfs := s\<rparr>" using c a None by (auto simp: open_entry_def)
    then show ?thesis using fd_inv_other [OF A(3) [OF None]] by simp
  next
    case (Some f)
    note f = A(4-6) [OF Some]
    from c obtain fd k2 where d: "fdalloc k1 f = Ok (fd, k2)" using a Some by (auto simp: open_entry_def)
    have one: "1 \<le> (x(f := 1)) f" by simp
    note D = fdalloc_inv [OF f(3) _ f(1) one d] runs_in_keeps [OF A(1)]
    show ?thesis
    proof (cases "fd < 0")
      case True
      then have "k2 = k1" using D run by simp
      then obtain k3 s where k3: "fileclose g k1 f = Ok k3" "k' = k3\<lparr>kfs := s\<rparr>"
        using c a d Some True by (auto simp: open_entry_def)
      have "fd_inv T x k3" using fileclose_inv(1) [OF f(3,1) one k3(1)] unfolding upd_back [of x f, OF f(2)] .
      then show ?thesis using fd_inv_other k3(2) by simp
    next
      case False
      then have k2: "fd_inv T x k2" using D run upd_back [of x f, OF f(2)] by simp
      obtain s1 s2 where k': "k' = (set_file k2 f ((ftable k2 ! f)\<lparr>f_type := FD_ENTRY, f_off := (if omode AND O_APPEND \<noteq> 0 then file_size (ent s1 ep) else 0),
          f_ep := Some ep, f_readable := (omode AND O_WRONLY = 0), f_writable := (omode AND O_WRONLY \<noteq> 0 \<or> omode AND O_RDWR \<noteq> 0)\<rparr>))\<lparr>kfs := s2\<rparr>"
        using c a d Some False by (auto simp: open_entry_def Let_def)
      show ?thesis unfolding k' by (rule fd_inv_other [OF fd_inv_file [OF k2 f(1)]]) simp_all
    qed
  qed
qed

lemma fileopen_cases:
  assumes "fileopen g k dfd path omode = Ok (r, k')"
  obtains s where "k' = k\<lparr>kfs := s\<rparr>" | s ep where "open_entry g (k\<lparr>kfs := s\<rparr>) ep omode = Ok (r, k')"
proof (cases "dfd = AT_FDCWD")
  case True
  obtain t where t: "mytask (ksched k) = Some t" using assms by (cases "mytask (ksched k)") (auto simp: fileopen_def)
  from assms obtain ep s where "(case ep of None \<Rightarrow> Ok (- 1, k\<lparr>kfs := s\<rparr>) | Some ep \<Rightarrow> open_entry g (k\<lparr>kfs := s\<rparr>) ep omode) = Ok (r, k')"
    unfolding fileopen_def by (simp add: True t Let_def) blast
  then show thesis using that by (auto split: option.splits)
next
  case False
  have none: "elock (kfs k) None \<noteq> Ok s" for s by (simp add: elock_def)
  obtain t where t: "mytask (ksched k) = Some t" using assms by (cases "mytask (ksched k)") (auto simp: fileopen_def)
  show thesis using assms that none by (auto simp: fileopen_def False t split: if_splits option.splits)
qed

lemma sys_open_inv:
  assumes inv: "fd_inv T x k" and run: "runs_in T k" and c: "sys_open g a k = Ok (r, k')"
  shows "fd_inv T x k'"
proof -
  from c consider "k' = k" | dfd path omode where "fileopen g k dfd path omode = Ok (r, k')"
    by (auto simp: sys_open_def split: option.splits)
  then show ?thesis
  proof cases
    case 2
    then show ?thesis
    proof (cases rule: fileopen_cases)
      case (1 s)
      then show ?thesis using fd_inv_other [OF inv] by simp
    next
      case (2 s ep)
      have "fd_inv T x (k\<lparr>kfs := s\<rparr>)" "runs_in T (k\<lparr>kfs := s\<rparr>)" using fd_inv_other [OF inv] run by (simp_all add: runs_in_def)
      then show ?thesis using open_entry_inv 2 by blast
    qed
  qed (use inv in simp)
qed

lemma close_both_inv:
  assumes inv: "fd_inv T x k" and f: "f < NFILE" "h < NFILE" "f \<noteq> h" "1 \<le> x f" "1 \<le> x h" and c: "close_both g k f h = Ok (r, k')"
  shows "fd_inv T (x(f := x f - 1, h := x h - 1)) k'" and "r = - 1"
proof -
  from c obtain k1 where k1: "fileclose g k f = Ok k1" "fileclose g k1 h = Ok k'" "r = - 1" by (auto simp: close_both_def)
  then show "r = - 1" by simp
  have one: "1 \<le> (x(f := x f - 1)) h" using f(3,5) by simp
  have "fd_inv T ((x(f := x f - 1))(h := (x(f := x f - 1)) h - 1)) k'"
    by (rule fileclose_inv(1) [OF fileclose_inv(1) [OF inv f(1,4) k1(1)] f(2) one k1(2)])
  then show "fd_inv T (x(f := x f - 1, h := x h - 1)) k'" using f(3) by simp
qed

lemma pipealloc_inv:
  assumes inv: "fd_inv T x k" and c: "pipealloc g k blk = Ok (r, k')"
  shows "case r of None \<Rightarrow> fd_inv T x k'
    | Some (f, h) \<Rightarrow> f < NFILE \<and> h < NFILE \<and> f \<noteq> h \<and> x f = 0 \<and> x h = 0 \<and> fd_inv T (x(f := 1, h := 1)) k' \<and> ksched k' = ksched k \<and> ofile k' = ofile k"
proof -
  from c obtain f0 k1 where a0: "filealloc k = Ok (f0, k1)" by (auto simp: pipealloc_def)
  note A = filealloc_inv [OF inv a0]
  show ?thesis
  proof (cases f0)
    case None
    then show ?thesis using c a0 A(3) by (auto simp: pipealloc_def)
  next
    case (Some f)
    note f = A(4,6) [OF Some]
    from c obtain f1 k2 where a1: "filealloc k1 = Ok (f1, k2)" using a0 Some by (auto simp: pipealloc_def)
    note B = filealloc_inv [OF f(2) a1]
    have one: "1 \<le> (x(f := 1)) f" by simp
    show ?thesis
    proof (cases f1)
      case None
      then obtain k3 where k3: "fileclose g k2 f = Ok k3" "r = None" "k' = k3" using c a0 a1 Some by (auto simp: pipealloc_def)
      then show ?thesis using fileclose_inv(1) [OF B(3) [OF None] f(1) one k3(1)] k3(2,3) unfolding upd_back [of x f, OF A(5) [OF Some]] by simp
    next
      case S1: (Some h)
      note h = B(4,6) [OF S1]
      have ne: "f \<noteq> h" and xh: "x h = 0" using B(5) [OF S1] by (auto split: if_splits)
      show ?thesis
      proof (cases blk)
        case None
        then have "close_both g k2 f h = Ok (- 1, k')" and r: "r = None" using c a0 a1 Some S1 by (auto simp: pipealloc_def close_both_def)
        then have "fd_inv T ((x(f := 1, h := 1))(f := (x(f := 1, h := 1)) f - 1, h := (x(f := 1, h := 1)) h - 1)) k'"
          using close_both_inv(1) [OF h(2) f(1) h(1) ne] ne by simp
        moreover have "(x(f := 1, h := 1))(f := (x(f := 1, h := 1)) f - 1, h := (x(f := 1, h := 1)) h - 1) = x"
          using ne A(5) [OF \<open>f0 = Some f\<close>] xh by auto
        ultimately show ?thesis using r by simp
      next
        case (Some b)
        then obtain y z p where k': "k' = set_file (set_file (k2\<lparr>kpipes := p\<rparr>) f y) h z" "r = Some (f, h)"
          "f_ref y = f_ref (ftable (k2\<lparr>kpipes := p\<rparr>) ! f)" "f_ref z = f_ref (ftable (set_file (k2\<lparr>kpipes := p\<rparr>) f y) ! h)"
          using c a0 a1 \<open>f0 = Some f\<close> S1 by (cases b) (auto simp: pipealloc_def Let_def)
        have "fd_inv T (x(f := 1, h := 1)) (k2\<lparr>kpipes := p\<rparr>)" using fd_inv_other [OF h(2)] by simp
        then have "fd_inv T (x(f := 1, h := 1)) k'" unfolding k'(1) by (intro fd_inv_file f(1) h(1) k'(3,4))
        then show ?thesis using k'(1,2) f(1) h(1) ne A(1,2) B(1,2) A(5) [OF \<open>f0 = Some f\<close>] xh by (simp add: set_file_def)
      qed
    qed
  qed
qed

lemma put_fd_keeps:
  assumes "put_fd k addr fd = Ok (r, k')"
  shows "ftable k' = ftable k" "ofile k' = ofile k" "ft_lock k' = ft_lock k" "ksched k' = ksched k"
  using assms by (auto simp: put_fd_def)

text \<open>The way back of \<^verbatim>\<open>sys_pipe\<close>: both descriptors are taken away and both structures closed.\<close>

lemma undo_pipe_inv:
  assumes inv: "fd_inv T x k" and f: "f < NFILE" "h < NFILE" "f \<noteq> h" and i: "i < NOFILE" "ofile k t ! i = Some f" and j: "j < NOFILE" "ofile k t ! j = Some h"
    and c: "close_both g (set_fd (set_fd k t i None) t j None) f h = Ok (r, k')"
  shows "fd_inv T x k'"
proof -
  let ?k = "set_fd k t i None"
  have ij: "i \<noteq> j" using i(2) j(2) f(3) by auto
  have "fd_inv T (x(f := x f + 1)) ?k" by (rule set_fd_take [OF inv i])
  moreover have "ofile ?k t ! j = Some h" using j(2) ij by (simp add: set_fd_def)
  ultimately have "fd_inv T ((x(f := x f + 1))(h := (x(f := x f + 1)) h + 1)) (set_fd ?k t j None)" using set_fd_take j(1) by blast
  moreover have "(x(f := x f + 1))(h := (x(f := x f + 1)) h + 1) = x(f := x f + 1, h := x h + 1)" using f(3) by auto
  ultimately have "fd_inv T ((x(f := x f + 1, h := x h + 1))(f := (x(f := x f + 1, h := x h + 1)) f - 1, h := (x(f := x f + 1, h := x h + 1)) h - 1)) k'"
    using close_both_inv(1) [OF _ f _ _ c, of T "x(f := x f + 1, h := x h + 1)"] f(3) by simp
  moreover have "(x(f := x f + 1, h := x h + 1))(f := (x(f := x f + 1, h := x h + 1)) f - 1, h := (x(f := x f + 1, h := x h + 1)) h - 1) = x"
    using f(3) by auto
  ultimately show ?thesis by metis
qed

lemma pipe_reply_inv:
  assumes inv: "fd_inv T x k" and f: "f < NFILE" "h < NFILE" "f \<noteq> h" and i: "i < NOFILE" "ofile k t ! i = Some f" and j: "j < NOFILE" "ofile k t ! j = Some h"
    and c: "bind_res (put_fd k addr fd0) (\<lambda>(r, k).
      let undo = (\<lambda>k. close_both g (set_fd (set_fd k t i None) t j None) f h)
      in if r < 0 then undo k
         else bind_res (put_fd k (addr + 4) fd1) (\<lambda>(r, k). if r < 0 then undo k else Ok (0, k))) = Ok (r, k')"
  shows "fd_inv T x k'"
proof -
  have undo: "fd_inv T x k'" if "ftable kk = ftable k" "ofile kk = ofile k" "ft_lock kk = ft_lock k"
    and "close_both g (set_fd (set_fd kk t i None) t j None) f h = Ok (r, k')" for kk
    using undo_pipe_inv [OF fd_inv_other [OF inv that(1-3)] f i(1) _ j(1) _ that(4)] that(2) i j by simp
  from c obtain r4 k4 where k4: "put_fd k addr fd0 = Ok (r4, k4)" by auto
  note P4 = put_fd_keeps [OF k4]
  show ?thesis
  proof (cases "r4 < 0")
    case True
    then show ?thesis using undo [OF P4(1-3)] c k4 by simp
  next
    case F4: False
    from c obtain r5 k5 where k5: "put_fd k4 (addr + 4) fd1 = Ok (r5, k5)" using k4 F4 by auto
    note P5 = put_fd_keeps [OF k5]
    show ?thesis
    proof (cases "r5 < 0")
      case True
      then show ?thesis using undo [of k5] P4 P5 c k4 F4 k5 by simp
    next
      case False
      then have "k' = k5" using c k4 F4 k5 by simp
      then show ?thesis using fd_inv_other [OF inv, of k5] P4 P5 by simp
    qed
  qed
qed

lemma sys_pipe_inv:
  assumes inv: "fd_inv T x k" and run: "runs_in T k" and c: "sys_pipe g blk a k = Ok (r, k')"
  shows "fd_inv T x k'"
proof -
  from c obtain t where t: "mytask (ksched k) = Some t" by (cases "mytask (ksched k)") (auto simp: sys_pipe_def)
  from c obtain addr p k1 where p: "argaddr a 0 = Ok addr" "pipealloc g k blk = Ok (p, k1)" by (auto simp: sys_pipe_def t)
  note P = pipealloc_inv [OF inv p(2)]
  show ?thesis
  proof (cases p)
    case None
    then show ?thesis using c t p P by (simp add: sys_pipe_def)
  next
    case (Some fh)
    obtain f h where fh: "fh = (f, h)" by fastforce
    have f: "f < NFILE" "h < NFILE" "f \<noteq> h" and z: "x f = 0" "x h = 0" and k1: "fd_inv T (x(f := 1, h := 1)) k1" "ksched k1 = ksched k"
      using P Some fh by auto
    have r1: "runs_in T k1" using run k1(2) runs_in_keeps by blast
    have bk: "(x(f := 1, h := 1))(f := (x(f := 1, h := 1)) f - 1, h := (x(f := 1, h := 1)) h - 1) = x" using z f(3) by auto
    from c obtain fd0 k2 where d0: "fdalloc k1 f = Ok (fd0, k2)" by (auto simp: sys_pipe_def t p Some fh)
    have o1: "1 \<le> (x(f := 1, h := 1)) f" "1 \<le> (x(f := 1, h := 1)) h" using f(3) by auto
    note D0 = fdalloc_inv [OF k1(1) r1 f(1) o1(1) d0]
    show ?thesis
    proof (cases "fd0 < 0")
      case True
      then have "close_both g k1 f h = Ok (r, k')" using c t p Some fh d0 D0 by (simp add: sys_pipe_def)
      then show ?thesis using close_both_inv(1) [OF k1(1) f o1] unfolding bk by blast
    next
      case False
      have up: "(x(f := 1, h := 1))(f := (x(f := 1, h := 1)) f - 1) = x(h := 1)" using z f(3) by auto
      have k2: "fd_inv T (x(h := 1)) k2" "nat fd0 < NOFILE" "ofile k1 t ! nat fd0 = None" "k2 = set_fd k1 t (nat fd0) (Some f)"
        using D0 False t k1(2) unfolding up by auto
      have r2: "runs_in T k2" using r1 runs_in_keeps [of k2 k1 T] k2(4) by (simp add: set_fd_def)
      have at0: "ofile k2 t ! nat fd0 = Some f" using k2(2,4) fd_invD(4) [OF k1(1), of t] by (simp add: set_fd_def)
      have o2: "1 \<le> (x(h := 1)) h" by simp
      from c obtain fd1 k3 where d1: "fdalloc k2 h = Ok (fd1, k3)" using t p Some fh d0 False by (auto simp: sys_pipe_def)
      note D1 = fdalloc_inv [OF k2(1) r2 f(2) o2 d1]
      show ?thesis
      proof (cases "fd1 < 0")
        case True
        then have cb: "close_both g (set_fd k2 t (nat fd0) None) f h = Ok (r, k')" using c t p Some fh d0 False d1 D1 by (simp add: sys_pipe_def)
        have "(x(h := 1))(f := (x(h := 1)) f + 1) = x(f := 1, h := 1)" using z f(3) by auto
        then have "fd_inv T (x(f := 1, h := 1)) (set_fd k2 t (nat fd0) None)" using set_fd_take [OF k2(1,2) at0] by metis
        then show ?thesis using close_both_inv(1) [OF _ f o1 cb] unfolding bk by blast
      next
        case F1: False
        have k3: "fd_inv T x k3" "nat fd1 < NOFILE" "ofile k2 t ! nat fd1 = None" "k3 = set_fd k2 t (nat fd1) (Some h)"
          using D1 F1 t k1(2) k2(4) unfolding upd_back [of x h, OF z(2)] by (auto simp: set_fd_def)
        have at: "ofile k3 t ! nat fd0 = Some f" "ofile k3 t ! nat fd1 = Some h"
          using k3(2-4) at0 fd_invD(4) [OF k2(1), of t] by (auto simp: set_fd_def nth_list_update)
        show ?thesis using pipe_reply_inv [OF k3(1) f k2(2) at(1) k3(2) at(2)] c t p Some fh d0 False d1 F1 by (simp add: sys_pipe_def)
      qed
    qed
  qed
qed

text \<open>The driver of a device leaves the file table and the descriptors alone.\<close>

definition dev_ok :: "devsw \<Rightarrow> bool" where
  "dev_ok dev \<longleftrightarrow> (\<forall>mj op k addr n r k'. fst (dev mj) = Some op \<or> snd (dev mj) = Some op \<longrightarrow> op k addr n = Ok (r, k') \<longrightarrow>
     ftable k' = ftable k \<and> ofile k' = ofile k \<and> ft_lock k' = ft_lock k)"

lemma dev_okD:
  assumes "dev_ok dev" and "fst (dev mj) = Some op \<or> snd (dev mj) = Some op" and "op k addr n = Ok (r, k')"
  shows "fd_inv T x k \<Longrightarrow> fd_inv T x k'"
  using assms fd_inv_other unfolding dev_ok_def by blast

lemma fileread_inv:
  assumes dev: "dev_ok dev" and inv: "fd_inv T x k" and f: "f < NFILE" and c: "fileread dev k f addr n = Ok (r, k')"
  shows "fd_inv T x k'"
proof (cases "f_readable (ftable k ! f)")
  case True
  show ?thesis
  proof (cases "f_type (ftable k ! f)")
    case FD_PIPE
    then show ?thesis using c True fd_inv_other [OF inv] by (auto simp: fileread_def split: option.splits)
  next
    case FD_DEVICE
    then consider "k' = k" | op m where "fst (dev (f_major (ftable k ! f))) = Some op" "op k addr n = Ok (m, k')"
      using c True by (cases "fst (dev (f_major (ftable k ! f)))") (auto simp: fileread_def Let_def split: if_splits)
    then show ?thesis by cases (use inv in simp, blast intro: dev_okD [OF dev] inv)
  next
    case FD_ENTRY
    then obtain e where e: "f_ep (ftable k ! f) = Some e" using c True by (cases "f_ep (ftable k ! f)") (auto simp: fileread_def)
    from c obtain m s where "k' = (if m > 0 then set_file k f ((ftable k ! f)\<lparr>f_off := f_off (ftable k ! f) + word_of_int m\<rparr>) else k)\<lparr>kfs := s\<rparr>"
      using True FD_ENTRY e by (auto simp: fileread_def Let_def)
    then show ?thesis using fd_inv_other [OF inv] fd_inv_off [OF inv f] by simp
  qed (use c True in \<open>simp add: fileread_def\<close>)
qed (use c inv in \<open>simp add: fileread_def\<close>)

lemma filewrite_inv:
  assumes dev: "dev_ok dev" and inv: "fd_inv T x k" and f: "f < NFILE" and c: "filewrite dev k f addr n = Ok (r, k')"
  shows "fd_inv T x k'"
proof (cases "f_writable (ftable k ! f)")
  case True
  show ?thesis
  proof (cases "f_type (ftable k ! f)")
    case FD_PIPE
    then show ?thesis using c True fd_inv_other [OF inv] by (auto simp: filewrite_def split: option.splits)
  next
    case FD_DEVICE
    then consider "k' = k" | op m where "snd (dev (f_major (ftable k ! f))) = Some op" "op k addr n = Ok (m, k')"
      using c True by (cases "snd (dev (f_major (ftable k ! f)))") (auto simp: filewrite_def Let_def split: if_splits)
    then show ?thesis by cases (use inv in simp, blast intro: dev_okD [OF dev] inv)
  next
    case FD_ENTRY
    then obtain e where e: "f_ep (ftable k ! f) = Some e" using c True by (cases "f_ep (ftable k ! f)") (auto simp: filewrite_def)
    from c obtain b s where "k' = (if b then set_file k f ((ftable k ! f)\<lparr>f_off := f_off (ftable k ! f) + n\<rparr>) else k)\<lparr>kfs := s\<rparr>"
      using True FD_ENTRY e by (auto simp: filewrite_def Let_def)
    then show ?thesis using fd_inv_other [OF inv] fd_inv_off [OF inv f] by simp
  qed (use c True in \<open>simp add: filewrite_def\<close>)
qed (use c inv in \<open>simp add: filewrite_def\<close>)

lemma sys_rw_inv:
  assumes dev: "dev_ok dev" and inv: "fd_inv T x k" and c: "sys_read dev a k = Ok (r, k') \<or> sys_write dev a k = Ok (r, k')"
  shows "fd_inv T x k'"
  using c
proof
  assume "sys_read dev a k = Ok (r, k')"
  then show ?thesis unfolding sys_read_def
  proof (cases rule: argfd_cases)
    case (2 fd f t)
    then show ?thesis using fileread_inv [OF dev inv refs_pos(3) [OF inv 2(1,3)]] by auto
  qed (use inv in simp)
next
  assume "sys_write dev a k = Ok (r, k')"
  then show ?thesis unfolding sys_write_def
  proof (cases rule: argfd_cases)
    case (2 fd f t)
    then show ?thesis using filewrite_inv [OF dev inv refs_pos(3) [OF inv 2(1,3)]] by auto
  qed (use inv in simp)
qed

section \<open>Descriptors of a new and of an ending task\<close>

lemma std_files_ok:
  assumes "fd_inv T x k" and "t \<in> T" and "set is \<subseteq> {..<3}" and "distinct is" and "\<And>i. i < 3 \<Longrightarrow> 1 \<le> x i" and "\<And>i. i \<in> set is \<Longrightarrow> ofile k t ! i = None"
  shows "\<exists>k'. std_files is k t = Ok k' \<and> fd_inv T x k' \<and> (\<forall>i < NOFILE. ofile k' t ! i = (if i \<in> set is then Some i else ofile k t ! i))
    \<and> (\<forall>u. u \<noteq> t \<longrightarrow> ofile k' u = ofile k u)"
  using assms
proof (induction "is" arbitrary: k)
  case (Cons i "is")
  have i: "i < NFILE" "i < NOFILE" "1 \<le> refs T k i + x i" using Cons.prems(3,5) by (auto simp: NFILE_def NOFILE_def intro: trans_le_add2)
  obtain k1 where k1: "filedup (set_fd k t i (Some i)) i = Ok k1" "fd_inv T x k1" "ofile k1 = (ofile k)(t := (ofile k t)[i := Some i])"
    using fd_dup [OF Cons.prems(1,2) i(2) _ i(1,3)] Cons.prems(6) by auto
  then obtain k0 where k0: "filedup k i = Ok k0" "k1 = set_fd k0 t i (Some i)" by (auto simp: filedup_set_fd)
  have len: "length (ofile k t) = NOFILE" by (rule fd_invD(4) [OF Cons.prems(1)])
  have "ofile k1 t ! j = None" if "j \<in> set is" for j
  proof -
    have "j \<noteq> i" using that Cons.prems(4) by auto
    then show ?thesis using Cons.prems(6) [of j] that k1(3) by simp
  qed
  then obtain k' where "std_files is k1 t = Ok k'" "fd_inv T x k'" "\<forall>j < NOFILE. ofile k' t ! j = (if j \<in> set is then Some j else ofile k1 t ! j)"
    "\<forall>u. u \<noteq> t \<longrightarrow> ofile k' u = ofile k1 u"
    using Cons.IH [OF k1(2) Cons.prems(2)] Cons.prems(3-5) by auto
  then show ?case using k0 k1(3) len by (auto simp: nth_list_update)
qed simp

text \<open>What \<^verbatim>\<open>fork\<close> gives the child: the open descriptors of the parent, the others left as they are.\<close>

lemma fork_files_ok:
  assumes "fd_inv T x k" and "c \<in> T" and "c \<noteq> p" and "set is \<subseteq> {..<NOFILE}" and "distinct is"
    and "\<And>i. i \<in> set is \<Longrightarrow> ofile k p ! i \<noteq> None \<Longrightarrow> ofile k c ! i = None"
  shows "\<exists>k'. fork_files is k p c = Ok k' \<and> fd_inv T x k' \<and> (\<forall>u. u \<noteq> c \<longrightarrow> ofile k' u = ofile k u)
    \<and> (\<forall>i < NOFILE. ofile k' c ! i = (if i \<in> set is \<and> ofile k p ! i \<noteq> None then ofile k p ! i else ofile k c ! i))"
  using assms
proof (induction "is" arbitrary: k)
  case (Cons i "is")
  have i: "i < NOFILE" using Cons.prems(4) by simp
  show ?case
  proof (cases "ofile k p ! i")
    case None
    have "\<And>j. j \<in> set is \<Longrightarrow> ofile k p ! j \<noteq> None \<Longrightarrow> ofile k c ! j = None" using Cons.prems(6) by simp
    then obtain k' where "fork_files is k p c = Ok k'" "fd_inv T x k'" "\<forall>u. u \<noteq> c \<longrightarrow> ofile k' u = ofile k u"
      "\<forall>j < NOFILE. ofile k' c ! j = (if j \<in> set is \<and> ofile k p ! j \<noteq> None then ofile k p ! j else ofile k c ! j)"
      using Cons.IH [OF Cons.prems(1-3)] Cons.prems(4,5) by fastforce
    then show ?thesis using None by auto
  next
    case (Some f)
    note p = refs_pos [OF Cons.prems(1) i Some]
    obtain k1 where k1: "filedup (set_fd k c i (Some f)) f = Ok k1" "fd_inv T x k1" "ofile k1 = (ofile k)(c := (ofile k c)[i := Some f])"
      using fd_dup [OF Cons.prems(1,2) i _ p(3)] p(1) Cons.prems(6) [of i] Some by auto
    then obtain k0 where k0: "filedup k f = Ok k0" "k1 = set_fd k0 c i (Some f)" by (auto simp: filedup_set_fd)
    have len: "length (ofile k c) = NOFILE" by (rule fd_invD(4) [OF Cons.prems(1)])
    have "ofile k1 c ! j = None" if "j \<in> set is" "ofile k1 p ! j \<noteq> None" for j
    proof -
      have "j \<noteq> i" using that(1) Cons.prems(5) by auto
      then show ?thesis using Cons.prems(3) Cons.prems(6) [of j] that k1(3) by simp
    qed
    then obtain k' where "fork_files is k1 p c = Ok k'" "fd_inv T x k'" "\<forall>u. u \<noteq> c \<longrightarrow> ofile k' u = ofile k1 u"
      "\<forall>j < NOFILE. ofile k' c ! j = (if j \<in> set is \<and> ofile k1 p ! j \<noteq> None then ofile k1 p ! j else ofile k1 c ! j)"
      using Cons.IH [OF k1(2) Cons.prems(2,3)] Cons.prems(4,5) by fastforce
    then show ?thesis using k0 k1(3) len Some Cons.prems(3) i by (auto simp: nth_list_update)
  qed
qed simp

lemma exit_files_inv:
  assumes "fd_inv T x k" and "set fds \<subseteq> {..<NOFILE}" and "distinct fds" and "exit_files g fds k t = Ok k'"
  shows "fd_inv T x k' \<and> (\<forall>fd < NOFILE. ofile k' t ! fd = (if fd \<in> set fds then None else ofile k t ! fd)) \<and> (\<forall>u. u \<noteq> t \<longrightarrow> ofile k' u = ofile k u)"
  using assms
proof (induction fds arbitrary: k)
  case (Cons fd fds)
  have fd: "fd < NOFILE" using Cons.prems(2) by simp
  show ?case
  proof (cases "ofile k t ! fd")
    case None
    then show ?thesis using Cons.IH [OF Cons.prems(1)] Cons.prems(2-4) by auto
  next
    case (Some f)
    from Cons.prems(4) Some obtain k0 where k0: "fileclose g k f = Ok k0" "exit_files g fds (set_fd k0 t fd None) t = Ok k'" by auto
    then have c: "fileclose g (set_fd k t fd None) f = Ok (set_fd k0 t fd None)" by (simp add: fileclose_set_fd)
    note C = fd_close [OF Cons.prems(1) fd Some c]
    have len: "length (ofile k t) = NOFILE" by (rule fd_invD(4) [OF Cons.prems(1)])
    show ?thesis using Cons.IH [OF C(1) _ _ k0(2)] Cons.prems(2,3) C(2) len by (auto simp: nth_list_update)
  qed
qed simp

section \<open>Every sequence of calls\<close>

text \<open>
  The steps of the kernel that concern files: the system calls of the running task, the
  descriptors of a task that is made, forked or ends, a task that disappears with its table, and
  everything that leaves files and descriptors alone. A task that is made or forked has a cleared table.
\<close>

inductive fd_step :: "devsw \<Rightarrow> nat \<Rightarrow> nat set \<Rightarrow> kstate \<Rightarrow> kstate \<Rightarrow> bool" for dev g T where
  dup: "sys_dup a k = Ok (r, k') \<Longrightarrow> fd_step dev g T k k'"
| dup3: "sys_dup3 a k = Ok (r, k') \<Longrightarrow> fd_step dev g T k k'"
| close: "sys_close g a k = Ok (r, k') \<Longrightarrow> fd_step dev g T k k'"
| openat: "runs_in T k \<Longrightarrow> sys_open g a k = Ok (r, k') \<Longrightarrow> fd_step dev g T k k'"
| pipe: "runs_in T k \<Longrightarrow> sys_pipe g blk a k = Ok (r, k') \<Longrightarrow> fd_step dev g T k k'"
| rd: "sys_read dev a k = Ok (v, k') \<Longrightarrow> fd_step dev g T k k'"
| wr: "sys_write dev a k = Ok (v, k') \<Longrightarrow> fd_step dev g T k k'"
| make: "t \<in> T \<Longrightarrow> set (ofile k t) \<subseteq> {None} \<Longrightarrow> std_fds k t = Ok k' \<Longrightarrow> fd_step dev g T k k'"
| fork: "c \<in> T \<Longrightarrow> c \<noteq> p \<Longrightarrow> set (ofile k c) \<subseteq> {None} \<Longrightarrow> fork_fds k p c = Ok k' \<Longrightarrow> fd_step dev g T k k'"
| exit: "exit_fds g k t = Ok k' \<Longrightarrow> fd_step dev g T k k'"
| gone: "fd_step dev g T k (k\<lparr>ofile := (ofile k)(t := replicate NOFILE None)\<rparr>)"
| other: "fd_step dev g T k (k\<lparr>ksched := s, kfs := v, kpipes := p, kcwd := w\<rparr>)"

text \<open>The three console files keep the reference that \<^verbatim>\<open>fileinit\<close> gives them.\<close>

definition console_held :: "nat \<Rightarrow> nat" where
  "console_held f = (if f < 3 then 1 else 0)"

definition fd_boot :: "kstate \<Rightarrow> bool" where
  "fd_boot k \<longleftrightarrow> (\<exists>k0. (\<forall>t. ofile k0 t = replicate NOFILE None) \<and> k = fileinit k0)"

lemma fd_boot_inv:
  assumes "fd_boot k" and "finite T"
  shows "fd_inv T console_held k"
proof -
  have c: "count_list (replicate n None) (Some f) = 0" for n f by (induction n) auto
  obtain k0 where k0: "\<forall>t. ofile k0 t = replicate NOFILE None" "k = fileinit k0" using assms(1) unfolding fd_boot_def by blast
  have o: "ofile k t = replicate NOFILE None" for t using k0 by (simp add: fileinit_def)
  have "int (refs T k f + console_held f) \<le> f_ref (ftable k ! f)" if "f < NFILE" for f
    using that k0 by (simp add: refs_def o c) (simp add: fileinit_def console_held_def zero_file_def)
  moreover have "\<not> ft_lock k" "length (ftable k) = NFILE" using k0(2) by (simp_all add: fileinit_def)
  ultimately show ?thesis using assms(2) o by (auto simp: fd_inv_def)
qed

lemma no_fd: "set xs \<subseteq> {None} \<Longrightarrow> i < length xs \<Longrightarrow> xs ! i = None"
  using nth_mem by fastforce

lemma std_fds_ok:
  assumes inv: "fd_inv T console_held k" and t: "t \<in> T" "set (ofile k t) \<subseteq> {None}"
  shows "\<exists>k'. std_fds k t = Ok k' \<and> fd_inv T console_held k' \<and> (\<forall>i < NOFILE. ofile k' t ! i = (if i < 3 then Some i else None))
    \<and> (\<forall>u. u \<noteq> t \<longrightarrow> ofile k' u = ofile k u)"
proof -
  have no: "ofile k t ! i = None" if "i < NOFILE" for i using no_fd [OF t(2)] fd_invD(4) [OF inv, of t] that by simp
  obtain k1 where k1: "std_files [0..<3] k t = Ok k1" "fd_inv T console_held k1"
    "\<forall>i < NOFILE. ofile k1 t ! i = (if i < 3 then Some i else None)" "\<forall>u. u \<noteq> t \<longrightarrow> ofile k1 u = ofile k u"
    using std_files_ok [OF inv t(1), of "[0..<3]"] no by (auto simp: console_held_def NOFILE_def subset_iff)
  have clear: "fold (\<lambda>i k. set_fd k t i None) is kk = kk" if "\<And>i. i \<in> set is \<Longrightarrow> i < length (ofile kk t) \<and> ofile kk t ! i = None" for "is" kk
    using that
  proof (induction "is")
    case (Cons i "is")
    have "(ofile kk t)[i := None] = ofile kk t" using Cons.prems [of i] by (metis list.set_intros(1) list_update_id)
    then have "set_fd kk t i None = kk" by (cases kk) (simp add: set_fd_def fun_upd_idem)
    then show ?case using Cons by simp
  qed simp
  have "std_fds k t = Ok k1" using k1(1,3) clear [of "[3..<NOFILE]" k1] fd_invD(4) [OF k1(2), of t] by (simp add: std_fds_def)
  then show ?thesis using k1 by blast
qed

lemma std_fds_inv:
  assumes "fd_inv T console_held k" and "t \<in> T" and "set (ofile k t) \<subseteq> {None}" and "std_fds k t = Ok k'"
  shows "fd_inv T console_held k'"
  using std_fds_ok [OF assms(1-3)] assms(4) by auto

lemma fork_fds_inv:
  assumes inv: "fd_inv T x k" and cp: "c \<in> T" "c \<noteq> p" "set (ofile k c) \<subseteq> {None}" and f: "fork_fds k p c = Ok k'"
  shows "fd_inv T x k'"
proof -
  have no: "ofile k c ! i = None" if "i < NOFILE" for i using no_fd [OF cp(3)] fd_invD(4) [OF inv, of c] that by simp
  then show ?thesis using fork_files_ok [OF inv cp(1,2), of "[0..<NOFILE]"] f by (auto simp: fork_fds_def subset_iff)
qed

lemma fd_inv_gone:
  assumes inv: "fd_inv T x k"
  shows "fd_inv T x (k\<lparr>ofile := (ofile k)(t := replicate NOFILE None)\<rparr>)"
proof -
  note d = fd_invD [OF inv]
  let ?k = "k\<lparr>ofile := (ofile k)(t := replicate NOFILE None)\<rparr>"
  have "count_list (replicate n None) (Some f) = 0" for n f by (induction n) auto
  then have le: "refs T ?k f \<le> refs T k f" for f unfolding refs_def by (intro sum_mono) auto
  have "int (refs T ?k f + x f) \<le> f_ref (ftable ?k ! f)" if "f < NFILE" for f
    using d(7) [OF that] le [of f] by simp
  then show ?thesis using inv by (auto simp: fd_inv_def)
qed

lemma fd_step_inv:
  assumes "fd_step dev g T k k'" and "dev_ok dev" and "fd_inv T console_held k"
  shows "fd_inv T console_held k'"
  using assms(1)
proof cases
  case (exit t)
  then show ?thesis using exit_files_inv [OF assms(3), of "[3..<NOFILE]"] by (auto simp: exit_fds_def subset_iff)
next
  case (gone t)
  then show ?thesis using fd_inv_gone [OF assms(3)] by simp
next
  case (other s v p w)
  then show ?thesis using fd_inv_other [OF assms(3)] by simp
qed (rule sys_dup_inv sys_dup3_inv sys_close_inv sys_open_inv sys_pipe_inv sys_rw_inv [OF assms(2) _ disjI1]
    sys_rw_inv [OF assms(2) _ disjI2] std_fds_inv fork_fds_inv, rule assms(3), assumption+)+

text \<open>The counts that the loop of \<^verbatim>\<open>fork\<close> adds.\<close>

lemma filedup_count:
  assumes "filedup k f = Ok k'" and "f < length (ftable k)"
  shows "length (ftable k') = length (ftable k)" "ofile k' = ofile k"
    "h < length (ftable k) \<Longrightarrow> f_ref (ftable k' ! h) = f_ref (ftable k ! h) + (if f = h then 1 else 0)"
  using assms by (cases "ft_lock k"; auto simp: filedup_def set_file_def nth_list_update split: if_splits)+

lemma fork_files_count:
  assumes "fork_files is k p c = Ok k'" and "c \<noteq> p" and "\<And>i f. i \<in> set is \<Longrightarrow> ofile k p ! i = Some f \<Longrightarrow> f < length (ftable k)" and "h < length (ftable k)"
  shows "f_ref (ftable k' ! h) = f_ref (ftable k ! h) + int (length (filter (\<lambda>i. ofile k p ! i = Some h) is))"
  using assms
proof (induction "is" arbitrary: k)
  case (Cons i "is")
  have bd: "\<And>j f. j \<in> set is \<Longrightarrow> ofile k p ! j = Some f \<Longrightarrow> f < length (ftable k)" using Cons.prems(3) list.set_intros(2) by metis
  show ?case
  proof (cases "ofile k p ! i")
    case None
    then show ?thesis using Cons.IH [OF _ Cons.prems(2) bd Cons.prems(4)] Cons.prems(1) by simp
  next
    case (Some f)
    with Cons.prems(1) obtain k1 where k1: "filedup k f = Ok k1" "fork_files is (set_fd k1 c i (Some f)) p c = Ok k'" by auto
    note d = filedup_count [OF k1(1) Cons.prems(3) [OF list.set_intros(1) Some]]
    have p: "ofile (set_fd k1 c i (Some f)) p = ofile k p" "ftable (set_fd k1 c i (Some f)) = ftable k1"
      using Cons.prems(2) d(2) by (simp_all add: set_fd_def)
    have "f_ref (ftable k' ! h) = f_ref (ftable k1 ! h) + int (length (filter (\<lambda>i. ofile k p ! i = Some h) is))"
      using Cons.IH [OF k1(2) Cons.prems(2)] bd Cons.prems(4) d(1) unfolding p by metis
    then show ?thesis using d(3) [OF Cons.prems(4)] Some by simp
  qed
qed simp

lemma filter_upt_count: "length (filter (\<lambda>i. xs ! i = y) [0..<length xs]) = count_list xs y"
  by (simp add: count_list_eq_length_filter length_filter_conv_card) (rule arg_cong [where f = card], auto)

lemma fd_reach_inv:
  assumes "(fd_step dev g T)\<^sup>*\<^sup>* k k'" and "dev_ok dev" and "fd_inv T console_held k"
  shows "fd_inv T console_held k'"
  using assms(1) by (induction) (use assms(2,3) fd_step_inv in auto)

section \<open>Properties\<close>

text \<open>C30: In every state that the kernel reaches from its start by calls on files, task creation, fork, exit and task
  switches, a descriptor in use refers to a file structure whose reference count is at least the number of
  descriptors that refer to it (one more for the three console files): so \<^verbatim>\<open>filedup\<close> succeeds on it, and \<^verbatim>\<open>filealloc\<close>
  never hands it out again.\<close>

theorem open_file_never_free:
  assumes "fd_boot k0" and "finite T" and "dev_ok dev" and "(fd_step dev g T)\<^sup>*\<^sup>* k0 k" and "fd < NOFILE" and "ofile k t ! fd = Some f"
  shows "f < NFILE \<and> 1 \<le> refs T k f \<and> int (refs T k f + console_held f) \<le> f_ref (ftable k ! f)
    \<and> (\<exists>k'. filedup k f = Ok k') \<and> (\<forall>h k'. filealloc k = Ok (Some h, k') \<longrightarrow> h \<noteq> f)"
proof -
  have inv: "fd_inv T console_held k" by (rule fd_reach_inv [OF assms(4,3) fd_boot_inv [OF assms(1,2)]])
  note p = refs_pos [OF inv assms(5,6)]
  have c: "int (refs T k f + console_held f) \<le> f_ref (ftable k ! f)" by (rule fd_invD(7) [OF inv p(3)])
  have "h \<noteq> f" if h: "filealloc k = Ok (Some h, k')" for h k'
  proof -
    have "find (\<lambda>f. f_ref (ftable k ! f) = 0) [0..<length (ftable k)] = Some h"
      using h fd_invD(2) [OF inv] by (auto simp: filealloc_def split: option.splits)
    then have "f_ref (ftable k ! h) = 0" unfolding find_Some_iff by metis
    then show ?thesis using c p(1) by auto
  qed
  moreover have "\<exists>k'. filedup k f = Ok k'" using filedup_ok [OF inv p(3)] p(1) by auto
  ultimately show ?thesis using p c by blast
qed

definition ex_kernel :: kstate where
  "ex_kernel = \<lparr>ksched = family, kfs = ex_vol, kpipes = Map.empty, ft_lock = False, ftable = [], ofile = (\<lambda>t. replicate NOFILE None), kcwd = (\<lambda>t. None)\<rparr>"

definition no_dev :: devsw where
  "no_dev mj = (None, None)"

lemma ex_boot: "fd_boot (fileinit ex_kernel)" "fd_inv {0, 1} console_held (fileinit ex_kernel)" "dev_ok no_dev"
proof -
  show "fd_boot (fileinit ex_kernel)" unfolding fd_boot_def by (rule exI [of _ ex_kernel]) (simp add: ex_kernel_def)
  then show "fd_inv {0, 1} console_held (fileinit ex_kernel)" by (rule fd_boot_inv) simp
  show "dev_ok no_dev" by (simp add: dev_ok_def no_dev_def)
qed

lemma ex_make: "\<exists>k. fd_step no_dev 0 {0, 1} (fileinit ex_kernel) k \<and> fd_inv {0, 1} console_held k
  \<and> (\<forall>i < NOFILE. ofile k 0 ! i = (if i < 3 then Some i else None)) \<and> ofile k 1 = replicate NOFILE None"
proof -
  have o: "ofile (fileinit ex_kernel) t = replicate NOFILE None" for t by (simp add: fileinit_def ex_kernel_def)
  then have n: "set (ofile (fileinit ex_kernel) t) \<subseteq> {None}" for t by auto
  have z: "0 \<in> {0, 1::nat}" by simp
  obtain k where k: "std_fds (fileinit ex_kernel) 0 = Ok k" "fd_inv {0, 1} console_held k" "\<forall>i < NOFILE. ofile k 0 ! i = (if i < 3 then Some i else None)"
    "\<forall>u. u \<noteq> 0 \<longrightarrow> ofile k u = ofile (fileinit ex_kernel) u"
    using std_fds_ok [OF ex_boot(2) z n] by blast
  have "fd_step no_dev 0 {0, 1} (fileinit ex_kernel) k" by (rule fd_step.make [OF z n k(1)])
  moreover have "ofile k 1 = replicate NOFILE None" using k(4) o [of 1] by simp
  ultimately show ?thesis using k(2,3) by (intro exI [of _ k] conjI)
qed

theorem open_file_never_free_witness:
  "\<exists>k. (fd_step no_dev 0 {0, 1})\<^sup>*\<^sup>* (fileinit ex_kernel) k \<and> ofile k 0 ! 2 = Some 2 \<and> int (refs {0, 1} k 2 + 1) \<le> f_ref (ftable k ! 2)
    \<and> (\<exists>k'. filedup k 2 = Ok k')"
proof -
  obtain k where k: "fd_step no_dev 0 {0, 1} (fileinit ex_kernel) k" "\<forall>i < NOFILE. ofile k 0 ! i = (if i < 3 then Some i else None)"
    using ex_make by blast
  have two: "ofile k 0 ! 2 = Some 2" "(2::nat) < NOFILE" using k(2) by (auto simp: NOFILE_def)
  have r: "(fd_step no_dev 0 {0, 1})\<^sup>*\<^sup>* (fileinit ex_kernel) k" using k(1) by blast
  show ?thesis using open_file_never_free [OF ex_boot(1) _ ex_boot(3) r two(2,1)] r two by (auto simp: console_held_def)
qed

text \<open>\<^verbatim>\<open>fork\<close>, on the block of a new task, which the heap has cleared: the child has exactly the descriptors of the
  parent, no other task is touched, the count of each file grows by the number of descriptors the parent has on it,
  and the references stay counted.\<close>

theorem fork_descriptors:
  assumes "fd_inv T x k" and "c \<in> T" and "c \<noteq> p" and "ofile k c = replicate NOFILE None"
  shows "\<exists>k'. fork_fds k p c = Ok k' \<and> fd_inv T x k' \<and> ofile k' = (ofile k)(c := ofile k p)
    \<and> (\<forall>f < NFILE. f_ref (ftable k' ! f) = f_ref (ftable k ! f) + int (count_list (ofile k p) (Some f)))"
proof -
  note d = fd_invD [OF assms(1)]
  obtain k' where k': "fork_fds k p c = Ok k'" "fd_inv T x k'" "\<forall>u. u \<noteq> c \<longrightarrow> ofile k' u = ofile k u"
    "\<forall>i < NOFILE. ofile k' c ! i = (if i \<in> set [0..<NOFILE] \<and> ofile k p ! i \<noteq> None then ofile k p ! i else ofile k c ! i)"
    using fork_files_ok [OF assms(1-3), of "[0..<NOFILE]"] assms(4) unfolding fork_fds_def by (auto simp: subset_iff)
  have "f_ref (ftable k' ! f) = f_ref (ftable k ! f) + int (count_list (ofile k p) (Some f))" if "f < NFILE" for f
    using fork_files_count [OF k'(1) [unfolded fork_fds_def] assms(3), of f] refs_pos(3) [OF assms(1)] d(3) that
      filter_upt_count [of "ofile k p" "Some f"] d(4) [of p] by auto
  moreover have "ofile k' c = ofile k p"
    using k'(4) assms(4) d(4) [of p] fd_invD(4) [OF k'(2), of c] by (intro nth_equalityI) auto
  then have "ofile k' = (ofile k)(c := ofile k p)" using k'(3) by auto
  ultimately show ?thesis using k' by blast
qed

theorem fork_descriptors_witness:
  "\<exists>k k'. fork_fds k 0 1 = Ok k' \<and> ofile k' 1 ! 2 = Some 2 \<and> ofile k' 1 ! 7 = None \<and> f_ref (ftable k' ! 2) = f_ref (ftable k ! 2) + int (count_list (ofile k 0) (Some 2))"
proof -
  obtain k where k: "fd_inv {0, 1} console_held k" "\<forall>i < NOFILE. ofile k 0 ! i = (if i < 3 then Some i else None)" "ofile k 1 = replicate NOFILE None"
    using ex_make by blast
  obtain k' where "fork_fds k 0 1 = Ok k'" "ofile k' = (ofile k)(1 := ofile k 0)"
    "\<forall>f < NFILE. f_ref (ftable k' ! f) = f_ref (ftable k ! f) + int (count_list (ofile k 0) (Some f))"
    using fork_descriptors [OF k(1) _ _ k(3), of 0] by auto
  then show ?thesis using k(2) by (intro exI [of _ k] exI [of _ k']) (auto simp: NOFILE_def NFILE_def)
qed

text \<open>\<^verbatim>\<open>dup3\<close> on an open descriptor. A free target gets the file, with one reference more, and no other descriptor
  changes; a target in use, other than the source, is refused with -1 and nothing is closed; a target outside the
  array is not rejected: the array is written out of its bounds.\<close>

theorem dup3_targets:
  assumes "fd_inv T x k" and "mytask (ksched k) = Some t" and "old < NOFILE" and "ofile k t ! old = Some f"
    and "sint (ucast (a 0) :: u32) = int old" and "sint (ucast (a 1) :: u32) = new" and "new \<noteq> int old"
  shows "if new < 0 \<or> new \<ge> int NOFILE then sys_dup3 a k = Fail Out_of_bounds
    else if ofile k t ! nat new = None
    then \<exists>k'. sys_dup3 a k = Ok (new, k') \<and> fd_inv T x k' \<and> ofile k' = (ofile k)(t := (ofile k t)[nat new := Some f])
      \<and> f_ref (ftable k' ! f) = f_ref (ftable k ! f) + 1
    else sys_dup3 a k = Ok (- 1, k)"
proof -
  note p = refs_pos [OF assms(1,3,4)]
  have ne: "(ucast (a 0) :: u32) \<noteq> ucast (a 1)" using assms(5-7) by metis
  have arg: "argfd a 0 k = Ok (Some (old, f))" using assms(2-5) by (simp add: argfd_def argint_def argraw_def)
  have run: "sys_dup3 a k = bind_res (fdalloc2 k f new) (\<lambda>(newfd, k). if newfd \<noteq> - 1 then bind_res (filedup k f) (\<lambda>k. Ok (newfd, k)) else Ok (newfd, k))"
    using arg ne assms(6) by (simp add: sys_dup3_def argint_def argraw_def)
  have "\<exists>k'. sys_dup3 a k = Ok (new, k') \<and> fd_inv T x k' \<and> ofile k' = (ofile k)(t := (ofile k t)[nat new := Some f])
      \<and> f_ref (ftable k' ! f) = f_ref (ftable k ! f) + 1" if new: "0 \<le> new" "new < int NOFILE" "ofile k t ! nat new = None"
  proof -
    let ?k = "set_fd k t (nat new) (Some f)"
    have "nat new < NOFILE" using new by simp
    then obtain k' where k': "filedup ?k f = Ok k'" "fd_inv T x k'" "ofile k' = (ofile k)(t := (ofile k t)[nat new := Some f])"
      using fd_dup [OF assms(1) p(2) _ new(3) p(3)] p(1) by auto
    have "f_ref (ftable k' ! f) = f_ref (ftable k ! f) + 1"
      using filedup_count(3) [OF k'(1), of f] p(3) fd_invD(3) [OF assms(1)] by (simp add: set_fd_commute)
    then show ?thesis using run k' new assms(2) by (simp add: fdalloc2_def)
  qed
  then show ?thesis using run assms(2) by (simp add: fdalloc2_def not_le)
qed

theorem dup3_targets_witness:
  "\<exists>k k'. fd_inv {0, 1} console_held k \<and> sys_dup3 (\<lambda>i. if i = 0 then 1 else 50) k = Ok (50, k') \<and> ofile k' 0 ! 50 = Some 1
    \<and> sys_dup3 (\<lambda>i. if i = 0 then 1 else 2) k = Ok (- 1, k) \<and> sys_dup3 (\<lambda>i. if i = 0 then 1 else 101) k = Fail Out_of_bounds"
proof -
  obtain k0 where k0: "fd_inv {0, 1} console_held k0" "\<forall>i < NOFILE. ofile k0 0 ! i = (if i < 3 then Some i else None)" using ex_make by blast
  let ?k = "k0\<lparr>ksched := family\<rparr>"
  have k: "fd_inv {0, 1} console_held ?k" by (rule fd_inv_other [OF k0(1)]) simp_all
  have t: "mytask (ksched ?k) = Some 0" by (simp add: mytask_def family_def)
  have one: "1 < NOFILE" "ofile ?k 0 ! 1 = Some 1" using k0(2) by (auto simp: NOFILE_def)
  note d = dup3_targets [OF k t one]
  have "\<exists>k'. sys_dup3 (\<lambda>i. if i = 0 then 1 else 50) ?k = Ok (50, k') \<and> ofile k' 0 ! 50 = Some 1"
    using d [of "\<lambda>i. if i = 0 then 1 else 50" 50] k0(2) fd_invD(4) [OF k0(1), of 0] by (auto simp: NOFILE_def)
  moreover have "sys_dup3 (\<lambda>i. if i = 0 then 1 else 2) ?k = Ok (- 1, ?k)"
    using d [of "\<lambda>i. if i = 0 then 1 else 2" 2] k0(2) by (auto simp: NOFILE_def)
  moreover have "sys_dup3 (\<lambda>i. if i = 0 then 1 else 101) ?k = Fail Out_of_bounds"
    using d [of "\<lambda>i. if i = 0 then 1 else 101" 101] by (auto simp: NOFILE_def)
  ultimately show ?thesis using k by blast
qed

text \<open>\<^verbatim>\<open>openat\<close> relative to a descriptor never opens an existing file: without \<^verbatim>\<open>O_CREATE\<close> no entry is looked up and the
  lock of the null entry is taken, which panics, whatever the path is; with \<^verbatim>\<open>O_CREATE\<close> on a descriptor that is not a
  file of the volume, such as a pipe or the console, the same.\<close>

theorem openat_panics:
  assumes "mytask (ksched k) = Some t" and "0 \<le> dfd" and "dfd < int NOFILE"
    and "omode AND O_CREATE = 0 \<or> ofile k t ! nat dfd = Some f \<and> f_ep (ftable k ! f) = None"
  shows "fileopen g k dfd path omode = Fail (Panic ''elock'')"
proof -
  have none: "elock (kfs k) None = Fail (Panic ''elock'')" by (simp add: elock_def)
  have "dfd \<noteq> AT_FDCWD" using assms(2) by (simp add: AT_FDCWD_def)
  then show ?thesis using assms none by (cases "omode AND O_CREATE = 0") (simp_all add: fileopen_def)
qed

theorem openat_panics_witness:
  "fileopen 0 ex_kernel 3 [0x61] O_RDONLY = Fail (Panic ''elock'')"
  by (rule openat_panics [where t = 0 and f = 0])
    (simp_all add: ex_kernel_def mytask_def family_def NOFILE_def O_RDONLY_def)

end
