(* ===== verification/Memory_Set.thy ===== *)
theory Memory_Set
  imports Page_Table
begin

text \<open>
  Address spaces (\<^verbatim>\<open>mm_memoryset.c\<close>, \<^verbatim>\<open>include/mm.h\<close>, \<^verbatim>\<open>include/elf.h\<close>): logical areas that map a
  range of pages to frames of their own or identically, the address space as a page table
  with its areas, its construction for the kernel, for the first process and from an ELF
  image, the copy that \<^verbatim>\<open>fork\<close> makes, the growth by \<^verbatim>\<open>brk\<close>, and the release.

  An address space works on \<^typ>\<open>kmem\<close>, the physical memory with the frame allocator. The
  descriptors (\<^verbatim>\<open>struct MapArea\<close>, \<^verbatim>\<open>struct vpmap\<close>, \<^verbatim>\<open>struct MemorySet\<close>) are objects of the kernel
  heap that nothing else points into; they are records here and the lists of areas, whose
  operations \<open>Klist\<close> shows to be those of a queue, are lists.
\<close>

section \<open>Areas\<close>

datatype MapType = Identical | Framed | EMPTY

definition VM_R :: u8 where "VM_R = 0x02"
definition VM_W :: u8 where "VM_W = 0x04"
definition VM_X :: u8 where "VM_X = 0x08"
definition VM_U :: u8 where "VM_U = 0x10"

text \<open>
  \<open>dataframe\<close> lists the nodes of the ring behind its head node. The pointer \<^verbatim>\<open>dataframe_tail\<close>
  is the head of an empty ring, the last node, or a node that has been taken out and freed:
  \<open>tail_freed\<close> tells the last case.
\<close>

record vpmap =
  vp_vpn :: vpn
  vp_ppn :: ppn

record MapArea =
  map_type :: MapType
  map_perm :: u8
  vm_start :: vpn
  vm_end :: vpn
  dataframe :: "vpmap list"
  tail_freed :: bool
  ma_file :: "nat option"
  ma_off :: u64
  ma_length :: u64
  ma_flags :: int

definition ma_new :: "vaddr \<Rightarrow> vaddr \<Rightarrow> MapType \<Rightarrow> u8 \<Rightarrow> MapArea" where
  "ma_new start_va end_va type perm =
     \<lparr>map_type = type, map_perm = perm, vm_start = va_floor start_va, vm_end = va_ceil end_va,
      dataframe = [], tail_freed = False, ma_file = None, ma_off = 0, ma_length = 0, ma_flags = 0\<rparr>"

text \<open>A push behind a freed tail writes into freed memory.\<close>

definition vpmap_push :: "MapArea \<Rightarrow> vpmap \<Rightarrow> MapArea res" where
  "vpmap_push self node =
     (if tail_freed self then Fail Null_pointer
      else Ok (self\<lparr>dataframe := dataframe self @ [node]\<rparr>))"

primrec vpmap_remove_loop :: "vpmap list \<Rightarrow> vpn \<Rightarrow> (vpmap \<times> vpmap list) option" where
  "vpmap_remove_loop [] node = None"
| "vpmap_remove_loop (p # ps) node =
     (if vp_vpn p = node then Some (p, ps)
      else case vpmap_remove_loop ps node of None \<Rightarrow> None | Some (q, qs) \<Rightarrow> Some (q, p # qs))"

text \<open>The node found is unlinked; the tail pointer is left as it is.\<close>

definition vpmap_remove :: "MapArea \<Rightarrow> vpn \<Rightarrow> (vpmap \<times> MapArea) option" where
  "vpmap_remove self node =
     (case vpmap_remove_loop (dataframe self) node of
        None \<Rightarrow> None
      | Some (p, rest) \<Rightarrow> Some (p, self\<lparr>dataframe := rest,
          tail_freed := tail_freed self \<or> node \<notin> vp_vpn ` set (butlast (dataframe self))\<rparr>))"

definition ma_map_one :: "kmem \<Rightarrow> MapArea \<Rightarrow> PageTable \<Rightarrow> vpn \<Rightarrow> (kmem \<times> MapArea \<times> PageTable) res" where
  "ma_map_one s self pt v =
     (case map_type self of
        Framed \<Rightarrow>
          bind_res (frame_alloc (frames s)) (\<lambda>(frame, fa).
          let s = \<lparr>phys = memset (phys s) (get_byte_array frame) 0 PAGE_SIZE, frames = fa\<rparr>
          in bind_res (vpmap_push self \<lparr>vp_vpn = v, vp_ppn = frame\<rparr>) (\<lambda>self.
             bind_res (map_page s pt v frame (map_perm self)) (\<lambda>(s, pt). Ok (s, self, pt))))
      | Identical \<Rightarrow> bind_res (map_page s pt v v (map_perm self)) (\<lambda>(s, pt). Ok (s, self, pt))
      | EMPTY \<Rightarrow> bind_res (map_page s pt v 0 (map_perm self)) (\<lambda>(s, pt). Ok (s, self, pt)))"

definition ma_unmap_one :: "kmem \<Rightarrow> MapArea \<Rightarrow> PageTable \<Rightarrow> vpn \<Rightarrow> (kmem \<times> MapArea \<times> PageTable) res" where
  "ma_unmap_one s self pt v =
     (if map_type self = Framed
      then (case vpmap_remove self v of
              None \<Rightarrow> Fail (Panic ''unknow fault!'')
            | Some (node, self) \<Rightarrow>
                bind_res (frame_dealloc (frames s) (vp_ppn node)) (\<lambda>fa.
                bind_res (unmap_page (s\<lparr>frames := fa\<rparr>) pt v) (\<lambda>(s, pt). Ok (s, self, pt))))
      else bind_res (unmap_page s pt v) (\<lambda>(s, pt). Ok (s, self, pt)))"

text \<open>The loops over the pages of an area, from the page \<open>v\<close> on.\<close>

function ma_map_loop :: "kmem \<Rightarrow> MapArea \<Rightarrow> PageTable \<Rightarrow> vpn \<Rightarrow> vpn \<Rightarrow> (kmem \<times> MapArea \<times> PageTable) res" where
  "ma_map_loop s self pt v e =
     (if v < e then bind_res (ma_map_one s self pt v) (\<lambda>(s, self, pt). ma_map_loop s self pt (v + 1) e)
      else Ok (s, self, pt))"
  by pat_completeness auto
termination
  by (relation "measure (\<lambda>(s, self, pt, v, e). unat e - unat v)") (auto simp: word_succ_less word_less_nat_alt)

definition ma_map :: "kmem \<Rightarrow> MapArea \<Rightarrow> PageTable \<Rightarrow> (kmem \<times> MapArea \<times> PageTable) res" where
  "ma_map s self pt = ma_map_loop s self pt (vm_start self) (vm_end self)"

function ma_unmap_loop :: "kmem \<Rightarrow> MapArea \<Rightarrow> PageTable \<Rightarrow> vpn \<Rightarrow> vpn \<Rightarrow> (kmem \<times> MapArea \<times> PageTable) res" where
  "ma_unmap_loop s self pt v e =
     (if v < e then bind_res (ma_unmap_one s self pt v) (\<lambda>(s, self, pt). ma_unmap_loop s self pt (v + 1) e)
      else Ok (s, self, pt))"
  by pat_completeness auto
termination
  by (relation "measure (\<lambda>(s, self, pt, v, e). unat e - unat v)") (auto simp: word_succ_less word_less_nat_alt)

definition ma_unmap :: "kmem \<Rightarrow> MapArea \<Rightarrow> PageTable \<Rightarrow> (kmem \<times> MapArea \<times> PageTable) res" where
  "ma_unmap s self pt = ma_unmap_loop s self pt (vm_start self) (vm_end self)"

definition from_another :: "MapArea \<Rightarrow> MapArea" where
  "from_another a =
     \<lparr>map_type = map_type a, map_perm = map_perm a, vm_start = vm_start a, vm_end = vm_end a,
      dataframe = [], tail_freed = False, ma_file = None, ma_off = 0, ma_length = 0, ma_flags = 0\<rparr>"

declare ma_map_loop.simps [simp del] ma_unmap_loop.simps [simp del]

section \<open>Address spaces\<close>

record MemorySet =
  page_table :: PageTable
  vma :: "MapArea list"
  areas :: "MapArea list"

definition ms_init :: "kmem \<Rightarrow> (MemorySet \<times> kmem) res" where
  "ms_init s = bind_res (pt_new s) (\<lambda>(pt, s). Ok (\<lparr>page_table = pt, vma = [], areas = []\<rparr>, s))"

primrec ms_ma_free_loop :: "MapArea list \<Rightarrow> kmem \<Rightarrow> PageTable \<Rightarrow> (kmem \<times> PageTable) res" where
  "ms_ma_free_loop [] s pt = Ok (s, pt)"
| "ms_ma_free_loop (p # ps) s pt = bind_res (ma_unmap s p pt) (\<lambda>(s, _, pt). ms_ma_free_loop ps s pt)"

definition ms_ma_free :: "kmem \<Rightarrow> MemorySet \<Rightarrow> (kmem \<times> MemorySet) res" where
  "ms_ma_free s self =
     bind_res (ms_ma_free_loop (areas self) s (page_table self)) (\<lambda>(s, pt).
       Ok (s, self\<lparr>page_table := pt, areas := []\<rparr>))"

definition ms_free :: "kmem \<Rightarrow> MemorySet \<Rightarrow> (kmem \<times> MemorySet) res" where
  "ms_free s self = bind_res (pt_free s (page_table self)) (\<lambda>s. ms_ma_free s self)"

definition ms_token :: "MemorySet \<Rightarrow> u64" where
  "ms_token self = token (page_table self)"

text \<open>\<^verbatim>\<open>*(find_pte(pt, vpn))\<close>.\<close>

definition deref_pte :: "mem \<Rightarrow> PageTable \<Rightarrow> vpn \<Rightarrow> pte res" where
  "deref_pte m pt v = (case find_pte m pt v of None \<Rightarrow> Fail Null_pointer | Some a \<Rightarrow> Ok (ru64 m a))"

function push_data :: "mem \<Rightarrow> PageTable \<Rightarrow> u64 \<Rightarrow> u64 \<Rightarrow> vpn \<Rightarrow> vpn \<Rightarrow> mem res" where
  "push_data m pt data off v e =
     (if v < e
      then bind_res (deref_pte m pt v) (\<lambda>pte.
           push_data (memmove m (pte_get_pa pte) (data + off) (ucast PAGE_SIZE)) pt data (off + PAGE_SIZE) (v + 1) e)
      else Ok m)"
  by pat_completeness auto
termination
  by (relation "measure (\<lambda>(m, pt, data, off, v, e). unat e - unat v)") (auto simp: word_succ_less word_less_nat_alt)

declare push_data.simps [simp del]

text \<open>\<open>data\<close> is the address of the contents, 0 for none.\<close>

definition ms_push :: "kmem \<Rightarrow> MemorySet \<Rightarrow> MapArea \<Rightarrow> u64 \<Rightarrow> u32 \<Rightarrow> (kmem \<times> MemorySet) res" where
  "ms_push s self map_area data sz =
     bind_res (ma_map s map_area (page_table self)) (\<lambda>(s, map_area, pt).
     bind_res (if data \<noteq> 0
               then if ucast sz < PAGE_SIZE
                    then bind_res (deref_pte (phys s) pt (vm_start map_area)) (\<lambda>pte.
                         Ok (s\<lparr>phys := memmove (phys s) (pte_get_pa pte) data (ucast PAGE_SIZE)\<rparr>))
                    else bind_res (push_data (phys s) pt data 0 (vm_start map_area) (vm_end map_area)) (\<lambda>m.
                         Ok (s\<lparr>phys := m\<rparr>))
               else Ok s) (\<lambda>s.
     Ok (s, self\<lparr>page_table := pt, areas := areas self @ [map_area]\<rparr>)))"

definition insert_framed_area :: "kmem \<Rightarrow> MemorySet \<Rightarrow> vaddr \<Rightarrow> vaddr \<Rightarrow> u8 \<Rightarrow> (kmem \<times> MemorySet) res" where
  "insert_framed_area s self start_va end_va perm = ms_push s self (ma_new start_va end_va Framed perm) 0 0"

text \<open>
  \<^verbatim>\<open>brk\<close> on the \<open>base_size\<close> and the address space of the current task. Its argument is
  unsigned, so the branch for a negative one is never taken.
\<close>

definition brk :: "kmem \<Rightarrow> u64 \<Rightarrow> MemorySet \<Rightarrow> u64 \<Rightarrow> (kmem \<times> u64 \<times> MemorySet) res" where
  "brk s base_size ms n =
     (let newsize = base_size
      in if n > 0
         then if va_ceil newsize = va_ceil (newsize + n) then Ok (s, newsize + n, ms)
              else bind_res (ms_push s ms (ma_new newsize (newsize + n) Framed (VM_R OR VM_U OR VM_X OR VM_W)) 0 0)
                     (\<lambda>(s, ms). Ok (s, newsize + n, ms))
         else Ok (s, newsize + n, ms))"

definition ms_map_trampoline :: "kmem \<Rightarrow> MemorySet \<Rightarrow> u64 \<Rightarrow> (kmem \<times> MemorySet) res" where
  "ms_map_trampoline s self strampoline =
     bind_res (map_page s (page_table self) (va2vpn TRAMPOLINE) (pa2ppn strampoline) (PTE_R OR PTE_X)) (\<lambda>(s, pt).
       Ok (s, self\<lparr>page_table := pt\<rparr>))"

text \<open>The copy of the contents of an area, page by page.\<close>

function copy_pages :: "mem \<Rightarrow> PageTable \<Rightarrow> PageTable \<Rightarrow> vpn \<Rightarrow> vpn \<Rightarrow> mem res" where
  "copy_pages m from to v e =
     (if v < e
      then bind_res (deref_pte m from v) (\<lambda>src. bind_res (deref_pte m to v) (\<lambda>dst.
           copy_pages (memmove m (pte_get_pa dst) (pte_get_pa src) (ucast PAGE_SIZE)) from to (v + 1) e))
      else Ok m)"
  by pat_completeness auto
termination
  by (relation "measure (\<lambda>(m, from, to, v, e). unat e - unat v)") (auto simp: word_succ_less word_less_nat_alt)

declare copy_pages.simps [simp del]

primrec copy_areas :: "MapArea list \<Rightarrow> PageTable \<Rightarrow> kmem \<Rightarrow> MemorySet \<Rightarrow> (kmem \<times> MemorySet) res" where
  "copy_areas [] from s ms = Ok (s, ms)"
| "copy_areas (ma # mas) from s ms =
     bind_res (ms_push s ms (from_another ma) 0 0) (\<lambda>(s, ms).
     bind_res (copy_pages (phys s) from (page_table ms) (vm_start ma) (vm_end ma)) (\<lambda>m.
     copy_areas mas from (s\<lparr>phys := m\<rparr>) ms))"

definition from_existed_user :: "kmem \<Rightarrow> MemorySet \<Rightarrow> u64 \<Rightarrow> (kmem \<times> MemorySet) res" where
  "from_existed_user s a strampoline =
     bind_res (ms_init s) (\<lambda>(ms, s).
     bind_res (ms_map_trampoline s ms strampoline) (\<lambda>(s, ms).
     copy_areas (areas a) (page_table a) s ms))"

section \<open>The spaces the kernel builds\<close>

text \<open>Addresses that the linker script and the assembly files define.\<close>

record ksyms =
  strampoline :: u64
  skernel :: u64
  stext :: u64
  etext :: u64
  srodata :: u64
  erodata :: u64
  sdata :: u64
  edata :: u64
  sbss_with_stack :: u64
  ebss :: u64
  ekernel :: u64
  boot_stack_top :: u64
  e_dispatch_addr :: u64

definition RUSTSBI_BASE :: u64 where "RUSTSBI_BASE = 0x80000000"

text \<open>
  \<^verbatim>\<open>struct context\<close>: 32 registers, four control registers, then the three fields the kernel
  fills in; offsets in bytes.
\<close>

definition cx_sp :: u64 where "cx_sp = 8 * 2"
definition cx_status :: u64 where "cx_status = 8 * 32"
definition cx_epc :: u64 where "cx_epc = 8 * 33"
definition cx_kernel_satp :: u64 where "cx_kernel_satp = 8 * 36"
definition cx_kernel_sp :: u64 where "cx_kernel_sp = 8 * 37"
definition cx_trap_handle :: u64 where "cx_trap_handle = 8 * 38"

definition ms_map_kcontext :: "kmem \<Rightarrow> MemorySet \<Rightarrow> ksyms \<Rightarrow> (kmem \<times> MemorySet \<times> u64) res" where
  "ms_map_kcontext s self k =
     bind_res (frame_alloc (frames s)) (\<lambda>(f, fa).
     let kernelcon = ppn2pa f;
         m = wu64 (phys s) (kernelcon + cx_kernel_satp) (token (page_table self));
         m = wu64 m (kernelcon + cx_kernel_sp) (boot_stack_top k);
         m = wu64 m (kernelcon + cx_trap_handle) (e_dispatch_addr k)
     in bind_res (map_page \<lparr>phys = m, frames = fa\<rparr> (page_table self) (va2vpn TRAP_CONTEXT) f (PTE_R OR PTE_W)) (\<lambda>(s, pt).
        Ok (s, self\<lparr>page_table := pt\<rparr>, kernelcon)))"

text \<open>The table has no line for the index 13, which C fills with zeros.\<close>

definition k210_memmap :: "(u64 \<times> u64) list" where
  "k210_memmap =
     [(0x02000000, 0x10000), (0x0C000000, 0x3000), (0x0C200000, 0x1000), (0x10000000, 0x1000),
      (0x10001000, 0x1000), (0x38000000, 0x1000), (0x38001000, 0x1000), (0x50200000, 0x1000),
      (0x50240000, 0x1000), (0x502B0000, 0x1000), (0x502D0000, 0x1000), (0x502E0000, 0x1000),
      (0x502F0000, 0x1000), (0, 0), (0x50440000, 0x1000), (0x52000000, 0x1000),
      (0x53000000, 0x1000), (0x54000000, 0x1000), (0x50000000, 0x1000), (0x50460000, 0x1000)]"

primrec push_devices :: "nat list \<Rightarrow> kmem \<Rightarrow> MemorySet \<Rightarrow> (kmem \<times> MemorySet) res" where
  "push_devices [] s ms = Ok (s, ms)"
| "push_devices (i # is) s ms =
     (if i \<noteq> 1 \<and> i \<noteq> 4 \<and> i \<noteq> 3
      then let (base, sz) = k210_memmap ! i
           in bind_res (ms_push s ms (ma_new base (base + sz) Identical (VM_R OR VM_W)) 0 0) (\<lambda>(s, ms).
              push_devices is s ms)
      else push_devices is s ms)"

definition new_kenel :: "kmem \<Rightarrow> ksyms \<Rightarrow> (kmem \<times> MemorySet \<times> u64) res" where
  "new_kenel s k =
     bind_res (ms_init s) (\<lambda>(ms, s).
     bind_res (ms_map_trampoline s ms (strampoline k)) (\<lambda>(s, ms).
     bind_res (ms_map_kcontext s ms k) (\<lambda>(s, ms, kernelcon).
     bind_res (ms_push s ms (ma_new RUSTSBI_BASE (skernel k) Identical (VM_R OR VM_X)) 0 0) (\<lambda>(s, ms).
     bind_res (ms_push s ms (ma_new (stext k) (etext k) Identical (VM_R OR VM_X)) 0 0) (\<lambda>(s, ms).
     bind_res (ms_push s ms (ma_new (srodata k) (erodata k) Identical VM_R) 0 0) (\<lambda>(s, ms).
     bind_res (ms_push s ms (ma_new (sdata k) (edata k) Identical (VM_R OR VM_W)) 0 0) (\<lambda>(s, ms).
     bind_res (ms_push s ms (ma_new (sbss_with_stack k) (ebss k) Identical (VM_R OR VM_W)) 0 0) (\<lambda>(s, ms).
     bind_res (ms_push s ms (ma_new (ekernel k) MEMORY_END Identical (VM_R OR VM_W)) 0 0) (\<lambda>(s, ms).
     bind_res (push_devices [0..<length k210_memmap] s ms) (\<lambda>(s, ms). Ok (s, ms, kernelcon)))))))))))"

definition ms_map_uinit :: "kmem \<Rightarrow> u64 \<Rightarrow> u64 \<Rightarrow> u32 \<Rightarrow> u64 \<Rightarrow> u32 \<Rightarrow> (kmem \<times> MemorySet) res" where
  "ms_map_uinit s stramp initcode icsize trap_cx cxsize =
     bind_res (ms_init s) (\<lambda>(ums, s).
     bind_res (ms_map_trampoline s ums stramp) (\<lambda>(s, ums).
     bind_res (ms_push s ums (ma_new TRAP_CONTEXT TRAMPOLINE Framed (VM_R OR VM_W)) trap_cx cxsize) (\<lambda>(s, ums).
     bind_res (ms_push s ums (ma_new 0 (ucast icsize) Framed (VM_R OR VM_W OR VM_X OR VM_U)) initcode icsize) (\<lambda>(s, ums).
     let user_stack_bottom = vpn2va (va_ceil (ucast icsize + PAGE_SIZE));
         user_stack_top = user_stack_bottom + USER_STACK_SIZE
     in ms_push s ums (ma_new user_stack_bottom user_stack_top Framed (VM_R OR VM_W OR VM_U)) 0 0))))"

section \<open>ELF images\<close>

definition ru16 :: "mem \<Rightarrow> u64 \<Rightarrow> u64" where
  "ru16 m a = le_word (rbytes m a 2)"

definition ru32 :: "mem \<Rightarrow> u64 \<Rightarrow> u64" where
  "ru32 m a = le_word (rbytes m a 4)"

text \<open>The fields that the loader uses, at their offsets in the two headers.\<close>

record elfhdr =
  eh_entry :: u64
  eh_phoff :: u64
  eh_phnum :: u64

definition read_elfhdr :: "mem \<Rightarrow> u64 \<Rightarrow> elfhdr" where
  "read_elfhdr m a = \<lparr>eh_entry = ru64 m (a + 24), eh_phoff = ru64 m (a + 32), eh_phnum = ru16 m (a + 56)\<rparr>"

record proghdr =
  ph_type :: u64
  ph_flags :: u64
  ph_off :: u64
  ph_vaddr :: u64
  ph_filesz :: u64
  ph_memsz :: u64

definition read_proghdr :: "mem \<Rightarrow> u64 \<Rightarrow> proghdr" where
  "read_proghdr m a =
     \<lparr>ph_type = ru32 m a, ph_flags = ru32 m (a + 4), ph_off = ru64 m (a + 8), ph_vaddr = ru64 m (a + 16),
      ph_filesz = ru64 m (a + 32), ph_memsz = ru64 m (a + 40)\<rparr>"

definition PH_SIZE :: u64 where "PH_SIZE = 56"
definition ELF_PROG_LOAD :: u64 where "ELF_PROG_LOAD = 1"
definition ELF_PROG_FLAG_EXEC :: u64 where "ELF_PROG_FLAG_EXEC = 1"
definition ELF_PROG_FLAG_WRITE :: u64 where "ELF_PROG_FLAG_WRITE = 2"
definition ELF_PROG_FLAG_READ :: u64 where "ELF_PROG_FLAG_READ = 4"

definition elf_perm :: "u64 \<Rightarrow> u8" where
  "elf_perm fl =
     (let p = VM_U;
          p = (if fl AND ELF_PROG_FLAG_EXEC \<noteq> 0 then p OR VM_X else p);
          p = (if fl AND ELF_PROG_FLAG_READ \<noteq> 0 then p OR VM_R else p);
          p = (if fl AND ELF_PROG_FLAG_WRITE \<noteq> 0 then p OR VM_W else p)
      in p)"

text \<open>
  The loop over the \<open>n\<close> program headers that are left, the next one at offset \<open>off\<close>; it
  carries the end of the segment loaded last.
\<close>

primrec elf_segments :: "nat \<Rightarrow> u64 \<Rightarrow> u64 \<Rightarrow> kmem \<Rightarrow> MemorySet \<Rightarrow> vpn \<Rightarrow> (kmem \<times> MemorySet \<times> vpn) res" where
  "elf_segments 0 elf_data off s ms max_end_vpn = Ok (s, ms, max_end_vpn)"
| "elf_segments (Suc n) elf_data off s ms max_end_vpn =
     (let ph = read_proghdr (phys s) (elf_data + off)
      in if ph_type ph = ELF_PROG_LOAD
         then if ph_memsz ph < ph_filesz ph then Fail (Panic ''memsize < filesize'')
              else let ma = ma_new (ph_vaddr ph) (ph_vaddr ph + ph_memsz ph) Framed (elf_perm (ph_flags ph))
                   in bind_res (ms_push s ms ma (elf_data + ph_off ph) (ucast (ph_filesz ph))) (\<lambda>(s, ms).
                      elf_segments n elf_data (off + PH_SIZE) s ms (vm_end ma))
         else elf_segments n elf_data (off + PH_SIZE) s ms max_end_vpn)"

definition from_elf :: "kmem \<Rightarrow> u64 \<Rightarrow> u64 \<Rightarrow> (kmem \<times> MemorySet \<times> u64 \<times> u64) res" where
  "from_elf s stramp elf_data =
     bind_res (ms_init s) (\<lambda>(ms, s).
     bind_res (ms_map_trampoline s ms stramp) (\<lambda>(s, ms).
     let eh = read_elfhdr (phys s) elf_data
     in bind_res (elf_segments (unat (eh_phnum eh)) elf_data (eh_phoff eh) s ms 0) (\<lambda>(s, ms, max_end_vpn).
        let max_end_va = vpn2va max_end_vpn;
            user_stack_bottom = max_end_va + PAGE_SIZE;
            user_stack_top = user_stack_bottom + USER_STACK_SIZE
        in bind_res (ms_push s ms (ma_new user_stack_bottom (user_stack_top + PAGE_SIZE) Framed (VM_R OR VM_W OR VM_U)) 0 0) (\<lambda>(s, ms).
           bind_res (ms_push s ms (ma_new TRAP_CONTEXT TRAMPOLINE Framed (VM_R OR VM_W)) 0 0) (\<lambda>(s, ms).
           Ok (s, ms, user_stack_top, eh_entry eh))))))"

section \<open>Mapping the pages of an area\<close>

text \<open>The pages from \<open>v\<close> up to \<open>e\<close>.\<close>

definition vpns :: "vpn \<Rightarrow> vpn \<Rightarrow> vpn list" where
  "vpns v e = map of_nat [unat v..<unat e]"

lemma vpns_step: "v < e \<Longrightarrow> vpns v e = v # vpns (v + 1) e"
  by (simp add: vpns_def word_less_nat_alt upt_conv_Cons word_succ_less [of v e])

lemma vpns_none: "\<not> v < e \<Longrightarrow> vpns v e = []"
  by (simp add: vpns_def word_less_nat_alt)

lemma length_vpns: "length (vpns v e) = unat e - unat v"
  by (simp add: vpns_def)

lemma set_vpns: "set (vpns v e) = {v..<e}"
proof -
  have "x \<in> of_nat ` {unat v..<unat e} \<longleftrightarrow> unat v \<le> unat x \<and> unat x < unat e" for x :: u64
  proof
    assume "x \<in> of_nat ` {unat v..<unat e}"
    then obtain n where "x = of_nat n" "unat v \<le> n" "n < unat e" by auto
    moreover then have "n < 2 ^ 64" using unsigned_less [of e, where ?'a = nat] by simp
    ultimately show "unat v \<le> unat x \<and> unat x < unat e" by (simp add: unat_of_nat)
  next
    assume "unat v \<le> unat x \<and> unat x < unat e"
    then show "x \<in> of_nat ` {unat v..<unat e}" by (intro image_eqI [of _ _ "unat x"]) auto
  qed
  then show ?thesis unfolding vpns_def set_map set_upt
    by (intro set_eqI) (simp add: word_le_nat_alt word_less_nat_alt)
qed

text \<open>Pages that agree in the 27 bits the hardware looks at have one translation.\<close>

lemma pt_lookup_cong: "take_bit 27 u = take_bit 27 v \<Longrightarrow> pt_lookup m pt u = pt_lookup m pt v"
  using same_indexes_iff [of u v] by (simp add: pt_lookup_def)

text \<open>
  \<open>mapped lo s pt vs es qs s' pt'\<close>: from \<open>(s, pt)\<close> to \<open>(s', pt')\<close> the pages \<open>vs\<close>, not mapped
  before, got the entries \<open>es\<close>, every other page kept its own; the data frames \<open>qs\<close>, all of them
  free before, are taken and cleared, and nothing was written but tables of \<open>pt\<close> and pages that were free.
\<close>

definition mapped ::
  "ppn \<Rightarrow> kmem \<Rightarrow> PageTable \<Rightarrow> vpn list \<Rightarrow> pte list \<Rightarrow> ppn list \<Rightarrow> kmem \<Rightarrow> PageTable \<Rightarrow> bool" where
  "mapped lo s pt vs es qs s' pt' \<longleftrightarrow>
     pt_inv lo s' pt' \<and> root_ppn pt' = root_ppn pt \<and> distinct qs \<and> set qs \<subseteq> fa_free (frames s)
     \<and> set (fnode pt) \<subseteq> set (fnode pt') \<and> set (fnode pt') \<subseteq> set (fnode pt) \<union> fa_free (frames s)
     \<and> set qs \<inter> set (fnode pt') = {}
     \<and> fa_allocated lo (frames s') = fa_allocated lo (frames s) \<union> set (fnode pt') \<union> set qs
     \<and> fa_free (frames s') \<subseteq> fa_free (frames s)
     \<and> card (fa_free (frames s)) \<le> card (fa_free (frames s')) + 3 * length vs
     \<and> (\<forall>v \<in> set vs. pt_lookup (phys s) pt v = None)
     \<and> list_all2 (\<lambda>v e. pt_lookup (phys s') pt' v = Some e) vs es
     \<and> (\<forall>u. take_bit 27 u \<notin> take_bit 27 ` set vs \<longrightarrow> pt_lookup (phys s') pt' u = pt_lookup (phys s) pt u)
     \<and> (\<forall>x. pa2ppn x \<in> set qs \<longrightarrow> phys s' x = 0)
     \<and> (\<forall>x. pa2ppn x \<notin> set (fnode pt) \<union> fa_free (frames s) \<longrightarrow> phys s' x = phys s x)"

lemma mappedD:
  assumes "mapped lo s pt vs es qs s' pt'"
  shows "pt_inv lo s' pt'" and "root_ppn pt' = root_ppn pt" and "distinct qs" and "set qs \<subseteq> fa_free (frames s)"
    and "set (fnode pt) \<subseteq> set (fnode pt')" and "set (fnode pt') \<subseteq> set (fnode pt) \<union> fa_free (frames s)"
    and "set qs \<inter> set (fnode pt') = {}"
    and "fa_allocated lo (frames s') = fa_allocated lo (frames s) \<union> set (fnode pt') \<union> set qs"
    and "fa_free (frames s') \<subseteq> fa_free (frames s)"
    and "card (fa_free (frames s)) \<le> card (fa_free (frames s')) + 3 * length vs"
    and "\<And>v. v \<in> set vs \<Longrightarrow> pt_lookup (phys s) pt v = None"
    and "list_all2 (\<lambda>v e. pt_lookup (phys s') pt' v = Some e) vs es"
    and "\<And>u. take_bit 27 u \<notin> take_bit 27 ` set vs \<Longrightarrow> pt_lookup (phys s') pt' u = pt_lookup (phys s) pt u"
    and "\<And>x. pa2ppn x \<in> set qs \<Longrightarrow> phys s' x = 0"
    and "\<And>x. pa2ppn x \<notin> set (fnode pt) \<union> fa_free (frames s) \<Longrightarrow> phys s' x = phys s x"
  using assms unfolding mapped_def by blast+

lemma mapped_Nil: "pt_inv lo s pt \<Longrightarrow> mapped lo s pt [] [] [] s pt"
  using pt_inv_tables(2) [of lo s pt] by (auto simp: mapped_def)

lemma mapped_lookup:
  assumes "mapped lo s pt vs es qs s' pt'" and "v \<in> set vs"
  shows "pt_lookup (phys s') pt' v \<noteq> None"
  using mappedD(12) [OF assms(1)] assms(2) by (auto simp: list_all2_conv_all_nth in_set_conv_nth)

text \<open>Pages in use and pages that are free never meet.\<close>

lemma used_not_free: "pt_inv lo s pt \<Longrightarrow> p \<in> fa_allocated lo (frames s) \<Longrightarrow> p \<notin> fa_free (frames s)"
  using pf.disjoint [of lo "frames s"] pt_inv_tables(3) [of lo s pt] by blast

lemma mapped_append:
  assumes 1: "mapped lo s pt vs es qs s1 pt1" and 2: "mapped lo s1 pt1 ws gs rs s2 pt2"
  shows "mapped lo s pt (vs @ ws) (es @ gs) (qs @ rs) s2 pt2"
proof -
  note m1 = mappedD [OF 1] and m2 = mappedD [OF 2]
  have q1: "set qs \<subseteq> fa_allocated lo (frames s1)" using m1(8) by auto
  have apart: "set qs \<inter> fa_free (frames s1) = {}" using q1 used_not_free [OF m1(1)] by blast
  have new: "take_bit 27 v \<notin> take_bit 27 ` set ws" if "v \<in> set vs" for v
    using mapped_lookup [OF 1 that] m2(11) pt_lookup_cong [of v _ "phys s1" pt1] by force
  have old: "pt_lookup (phys s) pt w = None" if w: "w \<in> set ws" for w
  proof -
    have "take_bit 27 w \<noteq> take_bit 27 v" if "v \<in> set vs" for v
      using new [OF that] imageI [OF w, of "take_bit 27"] by auto
    then have "take_bit 27 w \<notin> take_bit 27 ` set vs" by blast
    then show ?thesis using m1(13) m2(11) [OF w] by simp
  qed
  have keep: "list_all2 (\<lambda>v e. pt_lookup (phys s2) pt2 v = Some e) vs es"
    using m1(12) m2(13) new by (auto simp: list_all2_conv_all_nth)
  have zero: "phys s2 x = 0" if "pa2ppn x \<in> set qs" for x
    using m1(14) [OF that] m2(15) [of x] that apart m1(7) by auto
  have same: "phys s2 x = phys s x" if "pa2ppn x \<notin> set (fnode pt) \<union> fa_free (frames s)" for x
    using m1(15) [OF that] m2(15) [of x] that m1(6,9) by auto
  have fn: "set qs \<inter> set (fnode pt2) = {}" using m2(6) m1(7) apart by blast
  have oth: "pt_lookup (phys s2) pt2 u = pt_lookup (phys s) pt u"
    if "take_bit 27 u \<notin> take_bit 27 ` set (vs @ ws)" for u
    using m1(13) m2(13) that by (simp add: image_Un)
  have al: "fa_allocated lo (frames s2) = fa_allocated lo (frames s) \<union> set (fnode pt2) \<union> set (qs @ rs)"
    using m1(8) m2(5,8) by auto
  have qr: "distinct (qs @ rs)" using m1(3) m2(3,4) apart by auto
  have fr: "set (qs @ rs) \<subseteq> fa_free (frames s)" using m1(4,9) m2(4) by auto
  have f2: "set (fnode pt2) \<subseteq> set (fnode pt) \<union> fa_free (frames s)" using m1(6,9) m2(6) by blast
  have disj: "set (qs @ rs) \<inter> set (fnode pt2) = {}" using fn m2(7) by auto
  have c: "card (fa_free (frames s)) \<le> card (fa_free (frames s2)) + 3 * length (vs @ ws)"
    using m1(10) m2(10) by simp
  show ?thesis
    unfolding mapped_def
  proof (intro conjI)
    show "pt_inv lo s2 pt2" by (rule m2(1))
    show "root_ppn pt2 = root_ppn pt" using m1(2) m2(2) by simp
    show "set (fnode pt) \<subseteq> set (fnode pt2)" using m1(5) m2(5) by (rule subset_trans)
    show "fa_free (frames s2) \<subseteq> fa_free (frames s)" using m2(9) m1(9) by (rule subset_trans)
    show "\<forall>v\<in>set (vs @ ws). pt_lookup (phys s) pt v = None" using m1(11) old by auto
    show "list_all2 (\<lambda>v e. pt_lookup (phys s2) pt2 v = Some e) (vs @ ws) (es @ gs)"
      using keep m2(12) by (rule list_all2_appendI)
    show "\<forall>x. pa2ppn x \<in> set (qs @ rs) \<longrightarrow> phys s2 x = 0" using zero m2(14) by auto
  qed (use qr fr f2 disj al c oth same in blast)+
qed

text \<open>A page table does not depend on other frames.\<close>

lemma pt_inv_frames:
  assumes inv: "pt_inv lo s pt" and fa: "fa_inv lo fa" "fend fa \<le> 2 ^ 44" "set (fnode pt) \<subseteq> fa_allocated lo fa"
    and same: "\<And>x. pa2ppn x \<in> set (fnode pt) \<Longrightarrow> m x = phys s x"
  shows "pt_inv lo \<lparr>phys = m, frames = fa\<rparr> pt"
proof -
  have "pt_inv lo (s\<lparr>phys := m\<rparr>) pt" using pt_inv_stable [OF inv same] .
  then show ?thesis using fa unfolding pt_inv_def by simp
qed

lemma pt_lookup_stable:
  assumes inv: "pt_inv lo s pt" and same: "\<And>x. pa2ppn x \<in> set (fnode pt) \<Longrightarrow> m x = phys s x"
  shows "pt_lookup m pt v = pt_lookup (phys s) pt v"
proof -
  let ?is = "[drop_bit 18 v AND 511, drop_bit 9 v AND 511]"
  have path: "tpath ?is" by (simp add: idx_less)
  have t: "tab m (root_ppn pt) ?is = tab (phys s) (root_ppn pt) ?is" using tab_stable [OF inv same path] .
  have "entry m p (v AND 511) = entry (phys s) p (v AND 511)" if "tab (phys s) (root_ppn pt) ?is = Some p" for p
    using table_entry_stable [OF inv same tablesI [OF path that] idx_less] .
  then show ?thesis
    unfolding pt_lookup_def leaf_def t by (cases "tab (phys s) (root_ppn pt) ?is") (simp_all del: tab.simps)
qed

lemma fend_small: "pt_inv lo s pt \<Longrightarrow> fend (frames s) \<le> 2 ^ 44"
  by (simp add: pt_inv_def)

lemma frame_small:
  assumes "pt_inv lo s pt" and "p \<in> fa_free (frames s) \<or> p \<in> fa_allocated lo (frames s)"
  shows "p < 2 ^ 44" and "p < 2 ^ 52"
proof -
  have "p < fend (frames s)"
    using assms fa_free_compl [OF pt_inv_tables(3) [OF assms(1)]] fa_allocated_below [OF pt_inv_tables(3) [OF assms(1)]] by auto
  then show "p < 2 ^ 44" using fend_small [OF assms(1)] by (rule order.strict_trans2)
  then show "p < 2 ^ 52" by (rule order.strict_trans) simp
qed

text \<open>Taking a frame and clearing it, seen from a page table.\<close>

lemma take_frame:
  assumes inv: "pt_inv lo s pt" and free: "fa_free (frames s) \<noteq> {}"
  shows "\<exists>q fa. frame_alloc (frames s) = Ok (q, fa) \<and> q \<in> fa_free (frames s) \<and> q \<notin> set (fnode pt)
    \<and> pt_inv lo \<lparr>phys = memset (phys s) (get_byte_array q) 0 PAGE_SIZE, frames = fa\<rparr> pt
    \<and> fa_allocated lo fa = insert q (fa_allocated lo (frames s)) \<and> fa_free fa = fa_free (frames s) - {q}
    \<and> (\<forall>x. memset (phys s) (get_byte_array q) 0 PAGE_SIZE x = (if pa2ppn x = q then 0 else phys s x))"
proof -
  note fi = pt_inv_tables [OF inv]
  obtain q fa where al: "frame_alloc (frames s) = Ok (q, fa)" "fend fa = fend (frames s)"
    using frame_alloc_ok [OF fi(3) free] by blast
  note c = pf.alloc_cases [OF fi(3) al(1)]
  have q: "q < 2 ^ 52" using frame_small(2) [OF inv] c(2) by blast
  have qn: "q \<notin> set (fnode pt)" using c(3) fi(2) by blast
  have bytes: "memset (phys s) (get_byte_array q) 0 PAGE_SIZE x = (if pa2ppn x = q then 0 else phys s x)" for x
    by (rule memset_page [OF q])
  have "pt_inv lo \<lparr>phys = memset (phys s) (get_byte_array q) 0 PAGE_SIZE, frames = fa\<rparr> pt"
    using inv c(1) al(2) fend_small [OF inv] fi(2) c(4) qn by (intro pt_inv_frames) (auto simp: bytes)
  then show ?thesis using al(1) c qn bytes by blast
qed

lemma map_page_mapped:
  assumes inv: "pt_inv lo s pt" and free: "2 \<le> card (fa_free (frames s))" and new: "pt_lookup (phys s) pt v = None"
  shows "\<exists>s' pt'. map_page s pt v p fl = Ok (s', pt') \<and> mapped lo s pt [v] [pte_new p (fl OR PTE_V)] [] s' pt'
    \<and> card (fa_free (frames s)) \<le> card (fa_free (frames s')) + 2"
proof -
  obtain s' pt' where m: "map_page s pt v p fl = Ok (s', pt')" "pt_inv lo s' pt'" "root_ppn pt' = root_ppn pt"
    "\<And>u. pt_lookup (phys s') pt' u = (if take_bit 27 u = take_bit 27 v then Some (pte_new p (fl OR PTE_V))
             else pt_lookup (phys s) pt u)"
    "set (fnode pt) \<subseteq> set (fnode pt')" "set (fnode pt') \<subseteq> set (fnode pt) \<union> fa_free (frames s)"
    "fa_allocated lo (frames s') = fa_allocated lo (frames s) \<union> set (fnode pt')"
    "card (fa_free (frames s)) \<le> card (fa_free (frames s')) + 2" "fa_free (frames s') \<subseteq> fa_free (frames s)"
    "\<And>x. pa2ppn x \<notin> set (fnode pt') \<Longrightarrow> phys s' x = phys s x"
    using map_page_ok [OF inv free new, of p fl] by blast
  have "phys s' x = phys s x" if "pa2ppn x \<notin> set (fnode pt) \<union> fa_free (frames s)" for x
    using m(6) that by (intro m(10)) blast
  then have "mapped lo s pt [v] [pte_new p (fl OR PTE_V)] [] s' pt'"
    using m(2,3,5,6,7,8,9) new unfolding mapped_def by (simp add: m(4))
  then show ?thesis using m(1,8) by blast
qed

lemma ma_map_one_framed:
  assumes inv: "pt_inv lo s pt" and free: "3 \<le> card (fa_free (frames s))" and new: "pt_lookup (phys s) pt v = None"
    and a: "map_type a = Framed" "\<not> tail_freed a"
  shows "\<exists>s' pt' q. ma_map_one s a pt v = Ok (s', a\<lparr>dataframe := dataframe a @ [\<lparr>vp_vpn = v, vp_ppn = q\<rparr>]\<rparr>, pt')
    \<and> mapped lo s pt [v] [pte_new q (map_perm a OR PTE_V)] [q] s' pt'"
proof -
  have "fa_free (frames s) \<noteq> {}" using free by auto
  then obtain q fa where q: "frame_alloc (frames s) = Ok (q, fa)" "q \<in> fa_free (frames s)" "q \<notin> set (fnode pt)"
    "pt_inv lo \<lparr>phys = memset (phys s) (get_byte_array q) 0 PAGE_SIZE, frames = fa\<rparr> pt"
    "fa_allocated lo fa = insert q (fa_allocated lo (frames s))" "fa_free fa = fa_free (frames s) - {q}"
    and bytes: "\<And>x. memset (phys s) (get_byte_array q) 0 PAGE_SIZE x = (if pa2ppn x = q then 0 else phys s x)"
    using take_frame [OF inv] by blast
  define s1 where "s1 = \<lparr>phys = memset (phys s) (get_byte_array q) 0 PAGE_SIZE, frames = fa\<rparr>"
  have s1: "phys s1 = memset (phys s) (get_byte_array q) 0 PAGE_SIZE" "frames s1 = fa" by (simp_all add: s1_def)
  have inv1: "pt_inv lo s1 pt" using q(4) by (simp add: s1_def)
  have look: "pt_lookup (phys s1) pt u = pt_lookup (phys s) pt u" for u
    using q(3) by (intro pt_lookup_stable [OF inv]) (auto simp: s1 bytes)
  have card1: "card (fa_free (frames s)) = card (fa_free (frames s1)) + 1"
    using q(2,6) free card_Suc_Diff1 [of "fa_free (frames s)" q] by (simp add: s1)
  then obtain s' pt' where m: "map_page s1 pt v q (map_perm a) = Ok (s', pt')"
    "mapped lo s1 pt [v] [pte_new q (map_perm a OR PTE_V)] [] s' pt'"
    "card (fa_free (frames s1)) \<le> card (fa_free (frames s')) + 2"
    using map_page_mapped [OF inv1, of v q "map_perm a"] free new look by auto
  have run: "ma_map_one s a pt v = Ok (s', a\<lparr>dataframe := dataframe a @ [\<lparr>vp_vpn = v, vp_ppn = q\<rparr>]\<rparr>, pt')"
    using a q(1) m(1) by (simp add: ma_map_one_def vpmap_push_def s1_def Let_def)
  note d = mappedD [OF m(2)]
  have q1: "q \<notin> set (fnode pt) \<union> fa_free (frames s1)" using q(3,6) by (simp add: s1)
  have qn: "q \<notin> set (fnode pt')" using d(6) q1 by blast
  have z: "phys s' x = 0" if "pa2ppn x = q" for x using d(15) [of x] q1 that bytes [of x] by (simp add: s1)
  have same: "phys s' x = phys s x" if "pa2ppn x \<notin> set (fnode pt) \<union> fa_free (frames s)" for x
  proof -
    have "pa2ppn x \<noteq> q" "pa2ppn x \<notin> set (fnode pt) \<union> fa_free (frames s1)" using that q(2,6) by (auto simp: s1)
    then show ?thesis using d(15) [of x] bytes [of x] by (simp add: s1)
  qed
  have "mapped lo s pt [v] [pte_new q (map_perm a OR PTE_V)] [q] s' pt'"
    unfolding mapped_def
  proof (intro conjI)
    show "set (fnode pt') \<subseteq> set (fnode pt) \<union> fa_free (frames s)" using d(6) q(6) by (auto simp: s1)
    show "fa_allocated lo (frames s') = fa_allocated lo (frames s) \<union> set (fnode pt') \<union> set [q]"
      using d(8) q(5) by (auto simp: s1)
    show "fa_free (frames s') \<subseteq> fa_free (frames s)" using d(9) q(6) by (auto simp: s1)
    show "card (fa_free (frames s)) \<le> card (fa_free (frames s')) + 3 * length [v]" using card1 m(3) by simp
    show "\<forall>u. take_bit 27 u \<notin> take_bit 27 ` set [v] \<longrightarrow> pt_lookup (phys s') pt' u = pt_lookup (phys s) pt u"
      using d(13) look by simp
  qed (use d(1,2,5,12) q(2) qn z same new in auto)
  then show ?thesis using run by blast
qed

text \<open>
  The pages of an area as the loops see them: the entries an area gives to its pages, and
  the frames it takes.
\<close>

definition framed :: "vpn list \<Rightarrow> ppn list \<Rightarrow> vpmap list" where
  "framed vs qs = map2 (\<lambda>v q. \<lparr>vp_vpn = v, vp_ppn = q\<rparr>) vs qs"

definition entries :: "u8 \<Rightarrow> ppn list \<Rightarrow> pte list" where
  "entries fl ps = map (\<lambda>p. pte_new p (fl OR PTE_V)) ps"

text \<open>No two pages of the list share a table entry.\<close>

definition apart :: "vpn list \<Rightarrow> bool" where
  "apart vs \<longleftrightarrow> distinct (map (take_bit 27) vs)"

lemma apart_Cons: "apart (v # vs) \<longleftrightarrow> take_bit 27 v \<notin> take_bit 27 ` set vs \<and> apart vs"
  by (simp add: apart_def)

lemma apart_append:
  "apart (vs @ ws) \<longleftrightarrow> apart vs \<and> apart ws \<and> take_bit 27 ` set vs \<inter> take_bit 27 ` set ws = {}"
  by (simp add: apart_def)

lemma mapped_keeps_absent:
  assumes "mapped lo s pt vs es qs s' pt'" and "pt_lookup (phys s) pt w = None" and "apart (vs @ ws)" and "w \<in> set ws"
  shows "pt_lookup (phys s') pt' w = None"
proof -
  have "take_bit 27 w \<notin> take_bit 27 ` set vs" using assms(3,4) by (auto simp: apart_append)
  then show ?thesis using mappedD(13) [OF assms(1)] assms(2) by simp
qed

lemma ma_map_loop_framed:
  assumes "pt_inv lo s pt" and "3 * (unat e - unat v) \<le> card (fa_free (frames s))"
    and "\<forall>u \<in> set (vpns v e). pt_lookup (phys s) pt u = None" and "apart (vpns v e)"
    and "map_type a = Framed" and "\<not> tail_freed a"
  shows "\<exists>s' pt' qs. ma_map_loop s a pt v e
      = Ok (s', a\<lparr>dataframe := dataframe a @ framed (vpns v e) qs\<rparr>, pt')
    \<and> length qs = unat e - unat v \<and> mapped lo s pt (vpns v e) (entries (map_perm a) qs) qs s' pt'"
  using assms
proof (induction "unat e - unat v" arbitrary: s pt v a)
  case 0
  then have "\<not> v < e" by (simp add: word_less_nat_alt)
  then show ?case using mapped_Nil [OF "0.prems"(1)] "0.hyps"
    by (simp add: ma_map_loop.simps [of s a pt v e] vpns_none framed_def entries_def)
next
  case (Suc n)
  then have less: "v < e" by (simp add: word_less_nat_alt)
  have step: "vpns v e = v # vpns (v + 1) e" using vpns_step [OF less] .
  have cnt: "unat e - unat (v + 1) = n" "n = unat e - unat (v + 1)" using Suc.hyps(2) word_succ_less [OF less] by simp_all
  obtain s1 pt1 q where one: "ma_map_one s a pt v = Ok (s1, a\<lparr>dataframe := dataframe a @ [\<lparr>vp_vpn = v, vp_ppn = q\<rparr>]\<rparr>, pt1)"
    "mapped lo s pt [v] [pte_new q (map_perm a OR PTE_V)] [q] s1 pt1"
    using ma_map_one_framed [OF Suc.prems(1) _ _ Suc.prems(5,6), of v] Suc.prems(2,3) Suc.hyps(2) step by auto
  let ?a = "a\<lparr>dataframe := dataframe a @ [\<lparr>vp_vpn = v, vp_ppn = q\<rparr>]\<rparr>"
  note d = mappedD [OF one(2)]
  have room: "3 * (unat e - unat (v + 1)) \<le> card (fa_free (frames s1))"
    unfolding cnt(1) using Suc.prems(2) d(10) unfolding Suc.hyps(2) [symmetric] by simp
  have new: "\<forall>u \<in> set (vpns (v + 1) e). pt_lookup (phys s1) pt1 u = None"
    using mapped_keeps_absent [OF one(2), where ws = "vpns (v + 1) e"] Suc.prems(3,4) step by simp
  have ap: "apart (vpns (v + 1) e)" using Suc.prems(4) step by (simp add: apart_Cons)
  obtain s2 pt2 qs where r: "ma_map_loop s1 ?a pt1 (v + 1) e
      = Ok (s2, ?a\<lparr>dataframe := dataframe ?a @ framed (vpns (v + 1) e) qs\<rparr>, pt2)" "length qs = n"
    "mapped lo s1 pt1 (vpns (v + 1) e) (entries (map_perm ?a) qs) qs s2 pt2"
    using Suc.hyps(1) [OF cnt(2) d(1) room new ap, of ?a] Suc.prems(5,6) cnt(1) by auto
  have "ma_map_loop s a pt v e = Ok (s2, a\<lparr>dataframe := dataframe a @ framed (vpns v e) (q # qs)\<rparr>, pt2)"
    using less one(1) r(1) by (simp add: ma_map_loop.simps [of s a pt v e] step framed_def)
  moreover have "mapped lo s pt (vpns v e) (entries (map_perm a) (q # qs)) (q # qs) s2 pt2"
    using mapped_append [OF one(2) r(3)] by (simp add: step entries_def)
  ultimately show ?case using r(2) Suc.hyps(2) by (metis length_Cons)
qed

lemma ma_map_loop_identical:
  assumes "pt_inv lo s pt" and "3 * (unat e - unat v) \<le> card (fa_free (frames s))"
    and "\<forall>u \<in> set (vpns v e). pt_lookup (phys s) pt u = None" and "apart (vpns v e)" and "map_type a = Identical"
  shows "\<exists>s' pt'. ma_map_loop s a pt v e = Ok (s', a, pt')
    \<and> mapped lo s pt (vpns v e) (entries (map_perm a) (vpns v e)) [] s' pt'"
  using assms
proof (induction "unat e - unat v" arbitrary: s pt v)
  case 0
  then have "\<not> v < e" by (simp add: word_less_nat_alt)
  then show ?case using mapped_Nil [OF "0.prems"(1)]
    by (simp add: ma_map_loop.simps [of s a pt v e] vpns_none entries_def)
next
  case (Suc n)
  then have less: "v < e" by (simp add: word_less_nat_alt)
  have step: "vpns v e = v # vpns (v + 1) e" using vpns_step [OF less] .
  have cnt: "unat e - unat (v + 1) = n" "n = unat e - unat (v + 1)" using Suc.hyps(2) word_succ_less [OF less] by simp_all
  obtain s1 pt1 where one: "map_page s pt v v (map_perm a) = Ok (s1, pt1)"
    "mapped lo s pt [v] [pte_new v (map_perm a OR PTE_V)] [] s1 pt1"
    using map_page_mapped [OF Suc.prems(1), of v v "map_perm a"] Suc.prems(2,3) Suc.hyps(2) step by auto
  note d = mappedD [OF one(2)]
  have room: "3 * (unat e - unat (v + 1)) \<le> card (fa_free (frames s1))"
    unfolding cnt(1) using Suc.prems(2) d(10) unfolding Suc.hyps(2) [symmetric] by simp
  have new: "\<forall>u \<in> set (vpns (v + 1) e). pt_lookup (phys s1) pt1 u = None"
    using mapped_keeps_absent [OF one(2), where ws = "vpns (v + 1) e"] Suc.prems(3,4) step by simp
  have ap: "apart (vpns (v + 1) e)" using Suc.prems(4) step by (simp add: apart_Cons)
  obtain s2 pt2 where r: "ma_map_loop s1 a pt1 (v + 1) e = Ok (s2, a, pt2)"
    "mapped lo s1 pt1 (vpns (v + 1) e) (entries (map_perm a) (vpns (v + 1) e)) [] s2 pt2"
    using Suc.hyps(1) [OF cnt(2) d(1) room new ap Suc.prems(5)] by blast
  have "ma_map_loop s a pt v e = Ok (s2, a, pt2)"
    using less one(1) r(1) Suc.prems(5) by (simp add: ma_map_loop.simps [of s a pt v e] ma_map_one_def)
  moreover have "mapped lo s pt (vpns v e) (entries (map_perm a) (vpns v e)) [] s2 pt2"
    using mapped_append [OF one(2) r(2)] by (simp add: step entries_def)
  ultimately show ?case by blast
qed

section \<open>The invariant of an address space\<close>

definition area_pages :: "MapArea \<Rightarrow> vpn list" where
  "area_pages a = vpns (vm_start a) (vm_end a)"

definition area_frames :: "MapArea \<Rightarrow> ppn list" where
  "area_frames a = map vp_ppn (dataframe a)"

text \<open>
  What the page table knows of an area: a framed area has one node per page, in order, and
  maps the page to its frame; an identical one maps every page to itself.
\<close>

definition area_inv :: "mem \<Rightarrow> PageTable \<Rightarrow> MapArea \<Rightarrow> bool" where
  "area_inv m pt a \<longleftrightarrow>
     (case map_type a of
        Framed \<Rightarrow> map vp_vpn (dataframe a) = area_pages a
          \<and> list_all2 (\<lambda>v e. pt_lookup m pt v = Some e) (area_pages a) (entries (map_perm a) (area_frames a))
      | Identical \<Rightarrow> dataframe a = []
          \<and> list_all2 (\<lambda>v e. pt_lookup m pt v = Some e) (area_pages a) (entries (map_perm a) (area_pages a))
      | EMPTY \<Rightarrow> False)"

definition ms_pages :: "MemorySet \<Rightarrow> vpn list" where
  "ms_pages ms = concat (map area_pages (areas ms))"

definition ms_frames :: "MemorySet \<Rightarrow> ppn list" where
  "ms_frames ms = concat (map area_frames (areas ms))"

text \<open>
  The table is well-formed, every area is mapped, no two pages of areas share a table entry,
  and the data frames are pages in use, each of them once, that are not tables.
\<close>

definition ms_inv :: "ppn \<Rightarrow> kmem \<Rightarrow> MemorySet \<Rightarrow> bool" where
  "ms_inv lo s ms \<longleftrightarrow> pt_inv lo s (page_table ms)
     \<and> (\<forall>a \<in> set (areas ms). area_inv (phys s) (page_table ms) a)
     \<and> apart (ms_pages ms) \<and> distinct (ms_frames ms)
     \<and> set (ms_frames ms) \<subseteq> fa_allocated lo (frames s) - set (fnode (page_table ms))"

lemma ms_invD:
  assumes "ms_inv lo s ms"
  shows "pt_inv lo s (page_table ms)" and "\<And>a. a \<in> set (areas ms) \<Longrightarrow> area_inv (phys s) (page_table ms) a"
    and "apart (ms_pages ms)" and "distinct (ms_frames ms)"
    and "set (ms_frames ms) \<subseteq> fa_allocated lo (frames s)" and "set (ms_frames ms) \<inter> set (fnode (page_table ms)) = {}"
  using assms unfolding ms_inv_def by blast+

lemma list_all2_lookup_cong:
  assumes "list_all2 (\<lambda>v e. f v = Some e) vs es" and "\<And>v. v \<in> set vs \<Longrightarrow> g v = f v"
  shows "list_all2 (\<lambda>v e. g v = Some e) vs es"
  using assms by (induction vs es rule: list_all2_induct) auto

lemma area_inv_cong:
  assumes "area_inv m pt a" and "\<And>v. v \<in> set (area_pages a) \<Longrightarrow> pt_lookup m' pt' v = pt_lookup m pt v"
  shows "area_inv m' pt' a"
  using assms list_all2_lookup_cong [of "pt_lookup m pt" "area_pages a" _ "pt_lookup m' pt'"]
  by (simp add: area_inv_def split: MapType.splits)

lemma area_inv_mapped: "area_inv m pt a \<Longrightarrow> v \<in> set (area_pages a) \<Longrightarrow> pt_lookup m pt v \<noteq> None"
  by (auto simp: area_inv_def list_all2_conv_all_nth in_set_conv_nth split: MapType.splits)

lemma ms_pages_mapped:
  assumes "ms_inv lo s ms" and "v \<in> set (ms_pages ms)"
  shows "pt_lookup (phys s) (page_table ms) v \<noteq> None"
  using assms area_inv_mapped [OF ms_invD(2) [OF assms(1)]] by (auto simp: ms_pages_def)

text \<open>An address space does not notice what happens to pages it does not own.\<close>

lemma ms_inv_other:
  assumes inv: "ms_inv lo s ms" and fa: "fa_inv lo (frames s')" "fend (frames s') \<le> 2 ^ 44"
    "fa_allocated lo (frames s) \<subseteq> fa_allocated lo (frames s')"
    and same: "\<And>x. pa2ppn x \<in> set (fnode (page_table ms)) \<Longrightarrow> phys s' x = phys s x"
  shows "ms_inv lo s' ms" and "pt_lookup (phys s') (page_table ms) v = pt_lookup (phys s) (page_table ms) v"
proof -
  note d = ms_invD [OF inv]
  have look: "pt_lookup (phys s') (page_table ms) u = pt_lookup (phys s) (page_table ms) u" for u
    using pt_lookup_stable [OF d(1) same] .
  have "set (fnode (page_table ms)) \<subseteq> fa_allocated lo (frames s')" using pt_inv_tables(2) [OF d(1)] fa(3) by blast
  then have "pt_inv lo \<lparr>phys = phys s', frames = frames s'\<rparr> (page_table ms)"
    using pt_inv_frames [where m = "phys s'", OF d(1) fa(1,2) _ same] by blast
  then have "pt_inv lo s' (page_table ms)" by (cases s') simp
  then show "ms_inv lo s' ms"
    unfolding ms_inv_def using d(2-6) fa(3) area_inv_cong [OF d(2)] look by blast
  show "pt_lookup (phys s') (page_table ms) v = pt_lookup (phys s) (page_table ms) v" by (rule look)
qed

text \<open>
  From \<open>(s, ms)\<close> to \<open>(s', ms')\<close> the address space has grown: it took only free pages, wrote
  only to its tables and to pages that were free, and no page outside \<open>ws\<close> changed its translation.
\<close>

definition ms_grown :: "ppn \<Rightarrow> kmem \<Rightarrow> MemorySet \<Rightarrow> vpn list \<Rightarrow> kmem \<Rightarrow> MemorySet \<Rightarrow> bool" where
  "ms_grown lo s ms ws s' ms' \<longleftrightarrow> ms_inv lo s' ms'
     \<and> set (fnode (page_table ms)) \<subseteq> set (fnode (page_table ms'))
     \<and> set (fnode (page_table ms')) \<subseteq> set (fnode (page_table ms)) \<union> fa_free (frames s)
     \<and> set (ms_frames ms) \<subseteq> set (ms_frames ms') \<and> set (ms_frames ms') \<subseteq> set (ms_frames ms) \<union> fa_free (frames s)
     \<and> fa_allocated lo (frames s') = fa_allocated lo (frames s) \<union> set (fnode (page_table ms')) \<union> set (ms_frames ms')
     \<and> fa_free (frames s') \<subseteq> fa_free (frames s)
     \<and> card (fa_free (frames s)) \<le> card (fa_free (frames s')) + 3 * length ws
     \<and> (\<forall>u. take_bit 27 u \<notin> take_bit 27 ` set ws \<longrightarrow>
          pt_lookup (phys s') (page_table ms') u = pt_lookup (phys s) (page_table ms) u)
     \<and> (\<forall>x. pa2ppn x \<notin> set (fnode (page_table ms)) \<union> fa_free (frames s) \<longrightarrow> phys s' x = phys s x)"

lemma ms_grownD:
  assumes "ms_grown lo s ms ws s' ms'"
  shows "ms_inv lo s' ms'"
    and "set (fnode (page_table ms)) \<subseteq> set (fnode (page_table ms'))"
    and "set (fnode (page_table ms')) \<subseteq> set (fnode (page_table ms)) \<union> fa_free (frames s)"
    and "set (ms_frames ms) \<subseteq> set (ms_frames ms')" and "set (ms_frames ms') \<subseteq> set (ms_frames ms) \<union> fa_free (frames s)"
    and "fa_allocated lo (frames s') = fa_allocated lo (frames s) \<union> set (fnode (page_table ms')) \<union> set (ms_frames ms')"
    and "fa_free (frames s') \<subseteq> fa_free (frames s)"
    and "card (fa_free (frames s)) \<le> card (fa_free (frames s')) + 3 * length ws"
    and "\<And>u. take_bit 27 u \<notin> take_bit 27 ` set ws \<Longrightarrow>
          pt_lookup (phys s') (page_table ms') u = pt_lookup (phys s) (page_table ms) u"
    and "\<And>x. pa2ppn x \<notin> set (fnode (page_table ms)) \<union> fa_free (frames s) \<Longrightarrow> phys s' x = phys s x"
  using assms unfolding ms_grown_def by blast+

lemma ms_grown_refl: "ms_inv lo s ms \<Longrightarrow> ms_grown lo s ms [] s ms"
  using pt_inv_tables(2) [OF ms_invD(1)] ms_invD(5) by (fastforce simp: ms_grown_def)

lemma ms_grown_trans:
  assumes 1: "ms_grown lo s ms vs s1 ms1" and 2: "ms_grown lo s1 ms1 ws s2 ms2"
  shows "ms_grown lo s ms (vs @ ws) s2 ms2"
proof -
  note g1 = ms_grownD [OF 1] and g2 = ms_grownD [OF 2]
  have same: "phys s2 x = phys s x" if x: "pa2ppn x \<notin> set (fnode (page_table ms)) \<union> fa_free (frames s)" for x
  proof -
    have "pa2ppn x \<notin> set (fnode (page_table ms1)) \<union> fa_free (frames s1)" using x g1(3,7) by blast
    then show ?thesis using g1(10) [OF x] g2(10) by simp
  qed
  have look: "pt_lookup (phys s2) (page_table ms2) u = pt_lookup (phys s) (page_table ms) u"
    if "take_bit 27 u \<notin> take_bit 27 ` set (vs @ ws)" for u
    using g1(9) g2(9) that by (simp add: image_Un)
  have al: "fa_allocated lo (frames s2) = fa_allocated lo (frames s) \<union> set (fnode (page_table ms2)) \<union> set (ms_frames ms2)"
    using g1(6) g2(2,4,6) by auto
  have c: "card (fa_free (frames s)) \<le> card (fa_free (frames s2)) + 3 * length (vs @ ws)"
    using g1(8) g2(8) by simp
  show ?thesis
    unfolding ms_grown_def
  proof (intro conjI)
    show "set (fnode (page_table ms2)) \<subseteq> set (fnode (page_table ms)) \<union> fa_free (frames s)"
      using g1(3,7) g2(3) by blast
    show "set (ms_frames ms2) \<subseteq> set (ms_frames ms) \<union> fa_free (frames s)" using g1(5,7) g2(5) by blast
  qed (use g1(2,4,7) g2(1,2,4,7) same look al c in blast)+
qed

section \<open>Adding an area\<close>

lemma map_vpn_framed: "length qs = length vs \<Longrightarrow> map vp_vpn (framed vs qs) = vs"
  by (induction vs qs rule: list_induct2') (simp_all add: framed_def)

lemma map_ppn_framed: "length qs = length vs \<Longrightarrow> map vp_ppn (framed vs qs) = qs"
  by (induction vs qs rule: list_induct2') (simp_all add: framed_def)

lemma apart_new_area:
  assumes inv: "ms_inv lo s ms" and new: "\<forall>v \<in> set vs. pt_lookup (phys s) (page_table ms) v = None" and vs: "apart vs"
  shows "apart (ms_pages ms @ vs)"
proof -
  have "take_bit 27 u \<noteq> take_bit 27 v" if "u \<in> set (ms_pages ms)" "v \<in> set vs" for u v
    using ms_pages_mapped [OF inv that(1)] new that(2) pt_lookup_cong [of u v] by auto
  then show ?thesis using ms_invD(3) [OF inv] vs by (auto simp: apart_append)
qed

text \<open>A space with one more area whose pages have just been mapped.\<close>

lemma ms_grown_area:
  assumes inv: "ms_inv lo s ms" and m: "mapped lo s (page_table ms) (area_pages a) es (area_frames a) s' pt'"
    and a: "area_inv (phys s') pt' a" and ap: "apart (area_pages a)"
  shows "ms_grown lo s ms (area_pages a) s' (ms\<lparr>page_table := pt', areas := areas ms @ [a]\<rparr>)"
proof -
  let ?ms = "ms\<lparr>page_table := pt', areas := areas ms @ [a]\<rparr>"
  note d = mappedD [OF m] and i = ms_invD [OF inv]
  have fr: "ms_frames ?ms = ms_frames ms @ area_frames a" by (simp add: ms_frames_def)
  have pg: "ms_pages ?ms = ms_pages ms @ area_pages a" by (simp add: ms_pages_def)
  have ap2: "apart (ms_pages ms @ area_pages a)" using apart_new_area [OF inv _ ap] d(11) by blast
  have old: "take_bit 27 u \<notin> take_bit 27 ` set (area_pages a)" if "b \<in> set (areas ms)" "u \<in> set (area_pages b)" for b u
    using ap2 that by (auto simp: apart_append ms_pages_def)
  have oldinv: "area_inv (phys s') pt' b" if "b \<in> set (areas ms)" for b
    using area_inv_cong [OF i(2) [OF that]] d(13) old [OF that] by blast
  have nf: "set (ms_frames ms) \<inter> fa_free (frames s) = {}" using i(5) used_not_free [OF i(1)] by blast
  have dist: "distinct (ms_frames ms @ area_frames a)" using i(4) d(3,4) nf by auto
  have sub: "set (ms_frames ms @ area_frames a) \<subseteq> fa_allocated lo (frames s') - set (fnode pt')"
    using i(5,6) d(6,7,8) nf by auto
  have ms: "ms_inv lo s' ?ms"
    unfolding ms_inv_def fr pg using d(1) a oldinv ap2 dist sub by auto
  show ?thesis
    unfolding ms_grown_def fr
  proof (intro conjI)
    show "fa_allocated lo (frames s') = fa_allocated lo (frames s) \<union> set (fnode (page_table ?ms)) \<union> set (ms_frames ms @ area_frames a)"
      using d(8) i(5) by auto
    show "\<forall>u. take_bit 27 u \<notin> take_bit 27 ` set (area_pages a) \<longrightarrow>
          pt_lookup (phys s') (page_table ?ms) u = pt_lookup (phys s) (page_table ms) u" using d(13) by simp
    show "\<forall>x. pa2ppn x \<notin> set (fnode (page_table ms)) \<union> fa_free (frames s) \<longrightarrow> phys s' x = phys s x" using d(15) by blast
    show "set (ms_frames ms @ area_frames a) \<subseteq> set (ms_frames ms) \<union> fa_free (frames s)" using d(4) by auto
  qed (use ms d(5,6,9,10) in auto)
qed

text \<open>A new area, as \<^verbatim>\<open>ma_new\<close> and \<^verbatim>\<open>from_another\<close> make it.\<close>

definition fresh_area :: "MapArea \<Rightarrow> bool" where
  "fresh_area a \<longleftrightarrow> dataframe a = [] \<and> \<not> tail_freed a"

lemma fresh_new [simp]: "fresh_area (ma_new b e t p)" "fresh_area (from_another a)"
  by (simp_all add: fresh_area_def ma_new_def from_another_def)

definition pushable :: "kmem \<Rightarrow> MemorySet \<Rightarrow> MapArea \<Rightarrow> bool" where
  "pushable s ms a \<longleftrightarrow> fresh_area a \<and> 3 * length (area_pages a) \<le> card (fa_free (frames s)) \<and> apart (area_pages a)
     \<and> (\<forall>v \<in> set (area_pages a). pt_lookup (phys s) (page_table ms) v = None)"

lemma ms_push_framed:
  assumes inv: "ms_inv lo s ms" and t: "map_type a = Framed" and p: "pushable s ms a"
  shows "\<exists>s' ms' qs. ms_push s ms a 0 sz = Ok (s', ms') \<and> ms_grown lo s ms (area_pages a) s' ms'
    \<and> length qs = length (area_pages a) \<and> areas ms' = areas ms @ [a\<lparr>dataframe := framed (area_pages a) qs\<rparr>]
    \<and> (\<forall>x. pa2ppn x \<in> set qs \<longrightarrow> phys s' x = 0) \<and> set qs \<subseteq> fa_free (frames s)
    \<and> list_all2 (\<lambda>v e. pt_lookup (phys s') (page_table ms') v = Some e) (area_pages a) (entries (map_perm a) qs)"
proof -
  have a: "dataframe a = []" "\<not> tail_freed a" "3 * (unat (vm_end a) - unat (vm_start a)) \<le> card (fa_free (frames s))"
    "\<forall>v \<in> set (area_pages a). pt_lookup (phys s) (page_table ms) v = None" "apart (area_pages a)"
    using p by (simp_all add: pushable_def fresh_area_def area_pages_def length_vpns)
  obtain s' pt' qs where m: "ma_map s a (page_table ms) = Ok (s', a\<lparr>dataframe := framed (area_pages a) qs\<rparr>, pt')"
    "length qs = length (area_pages a)" "mapped lo s (page_table ms) (area_pages a) (entries (map_perm a) qs) qs s' pt'"
    using ma_map_loop_framed [OF ms_invD(1) [OF inv] a(3) _ _ t a(2)] a(1,4,5)
    by (auto simp: ma_map_def area_pages_def length_vpns)
  define b where "b = a\<lparr>dataframe := framed (area_pages a) qs\<rparr>"
  have b: "area_pages b = area_pages a" "area_frames b = qs" "map_type b = Framed" "map_perm b = map_perm a"
    using m(2) t by (simp_all add: b_def area_pages_def area_frames_def map_ppn_framed)
  have "area_inv (phys s') pt' b"
    using mappedD(12) [OF m(3)] m(2) by (simp add: area_inv_def b) (simp add: b_def map_vpn_framed)
  then have g: "ms_grown lo s ms (area_pages a) s' (ms\<lparr>page_table := pt', areas := areas ms @ [b]\<rparr>)"
    using ms_grown_area [OF inv, of b "entries (map_perm a) qs" s' pt'] m(3) a(5) by (simp add: b)
  have "ms_push s ms a 0 sz = Ok (s', ms\<lparr>page_table := pt', areas := areas ms @ [b]\<rparr>)"
    using m(1) by (simp add: ms_push_def b_def)
  then show ?thesis using g m(2) mappedD(4,12,14) [OF m(3)] by (force simp: b_def)
qed

lemma ms_push_identical:
  assumes inv: "ms_inv lo s ms" and t: "map_type a = Identical" and p: "pushable s ms a"
  shows "\<exists>s' ms'. ms_push s ms a 0 sz = Ok (s', ms') \<and> ms_grown lo s ms (area_pages a) s' ms'
    \<and> areas ms' = areas ms @ [a]"
proof -
  have a: "dataframe a = []" "3 * (unat (vm_end a) - unat (vm_start a)) \<le> card (fa_free (frames s))"
    "\<forall>v \<in> set (area_pages a). pt_lookup (phys s) (page_table ms) v = None" "apart (area_pages a)"
    using p by (simp_all add: pushable_def fresh_area_def area_pages_def length_vpns)
  obtain s' pt' where m: "ma_map s a (page_table ms) = Ok (s', a, pt')"
    "mapped lo s (page_table ms) (area_pages a) (entries (map_perm a) (area_pages a)) (area_frames a) s' pt'"
    using ma_map_loop_identical [OF ms_invD(1) [OF inv] a(2) _ _ t] a(1,3,4)
    by (auto simp: ma_map_def area_pages_def area_frames_def)
  have "area_inv (phys s') pt' a" using mappedD(12) [OF m(2)] a(1) t by (simp add: area_inv_def)
  then have "ms_grown lo s ms (area_pages a) s' (ms\<lparr>page_table := pt', areas := areas ms @ [a]\<rparr>)"
    using ms_grown_area [OF inv m(2)] a(4) by blast
  moreover have "ms_push s ms a 0 sz = Ok (s', ms\<lparr>page_table := pt', areas := areas ms @ [a]\<rparr>)"
    using m(1) by (simp add: ms_push_def)
  ultimately show ?thesis by simp
qed

section \<open>Copying pages\<close>

lemma deref_pte_lookup: "pt_lookup m pt v = Some e \<Longrightarrow> deref_pte m pt v = Ok e"
  by (auto simp: deref_pte_def find_pte_tab pt_lookup_def leaf_def pte_at_entry simp del: tab.simps
      split: option.splits if_splits)

lemma unat_ppn2pa: "p < 2 ^ 52 \<Longrightarrow> unat (ppn2pa p) = unat p * 4096"
  using byte_page(2) [of p 0] by simp

lemma addr_in_page: "pa2ppn x = p \<Longrightarrow> x = ppn2pa p + of_nat (unat (get_offset x))"
  using addr_split_add [of x] by (simp add: vpn2va_def va2vpn_def)

lemma page_copy:
  assumes p: "p < 2 ^ 44" and q: "q < 2 ^ 44"
  shows "memmove m (ppn2pa q) (ppn2pa p) (ucast PAGE_SIZE) x = (if pa2ppn x = q then m (ppn2pa p + get_offset x) else m x)"
proof -
  have q52: "q < 2 ^ 52" and p52: "p < 2 ^ 52"
    using order.strict_trans [OF q, of "2 ^ 52"] order.strict_trans [OF p, of "2 ^ 52"] by simp_all
  have "unat p * 4096 + 4096 < 2 ^ 64" "unat q * 4096 + 4096 < 2 ^ 64"
    using p q by (simp_all add: word_less_nat_alt)
  then have w: "memmove m (ppn2pa q) (ppn2pa p) (ucast PAGE_SIZE) = wbytes m (ppn2pa q) (rbytes m (ppn2pa p) 4096)"
    using memmove_wbytes [of "ppn2pa q" "ucast PAGE_SIZE" "ppn2pa p" m]
    unfolding unat_ppn2pa [OF p52] unat_ppn2pa [OF q52] by (simp add: PAGE_SIZE_def)
  show ?thesis
  proof (cases "pa2ppn x = q")
    case True
    let ?k = "unat (get_offset x)"
    have k: "?k < 4096" by (rule get_offset_less)
    have x: "x = ppn2pa q + of_nat ?k" using addr_in_page [OF True] .
    have "wbytes m (ppn2pa q) (rbytes m (ppn2pa p) 4096) (ppn2pa q + of_nat ?k) = m (ppn2pa p + of_nat ?k)"
      using k by (subst wbytes_in) simp_all
    then have "wbytes m (ppn2pa q) (rbytes m (ppn2pa p) 4096) x = m (ppn2pa p + get_offset x)" using x by simp
    then show ?thesis using True w by simp
  next
    case False
    then have "wbytes m (ppn2pa q) (rbytes m (ppn2pa p) 4096) x = m x"
      using byte_page(1) [OF q52] by (intro wbytes_out) auto
    then show ?thesis using False w by simp
  qed
qed

text \<open>Page \<open>q\<close> of \<open>m'\<close> has the bytes of page \<open>p\<close> of \<open>m\<close>.\<close>

definition same_bytes :: "mem \<Rightarrow> ppn \<Rightarrow> mem \<Rightarrow> ppn \<Rightarrow> bool" where
  "same_bytes m p m' q \<longleftrightarrow> (\<forall>k < 4096. m' (ppn2pa q + of_nat k) = m (ppn2pa p + of_nat k))"

lemma copy_pages_ok:
  assumes "pt_inv lo \<lparr>phys = m, frames = fa\<rparr> from" and "pt_inv lo \<lparr>phys = m, frames = fa\<rparr> to"
    and "list_all2 (\<lambda>v p. \<exists>fl. pt_lookup m from v = Some (pte_new p fl)) (vpns v e) ps"
    and "list_all2 (\<lambda>v q. \<exists>fl. pt_lookup m to v = Some (pte_new q fl)) (vpns v e) qs"
    and "distinct qs" and "set qs \<inter> set ps = {}" and "set qs \<inter> (set (fnode from) \<union> set (fnode to)) = {}"
    and "\<forall>p \<in> set ps \<union> set qs. p < 2 ^ 44"
  shows "\<exists>m'. copy_pages m from to v e = Ok m' \<and> (\<forall>x. pa2ppn x \<notin> set qs \<longrightarrow> m' x = m x)
    \<and> list_all2 (\<lambda>p q. same_bytes m p m' q) ps qs"
  using assms
proof (induction "unat e - unat v" arbitrary: m v ps qs)
  case 0
  then have "\<not> v < e" by (simp add: word_less_nat_alt)
  then show ?case using "0.prems"(3,4) by (simp add: copy_pages.simps [of m] vpns_none)
next
  case (Suc n)
  then have less: "v < e" by (simp add: word_less_nat_alt)
  have step: "vpns v e = v # vpns (v + 1) e" using vpns_step [OF less] .
  have cnt: "n = unat e - unat (v + 1)" using Suc.hyps(2) word_succ_less [OF less] by simp
  obtain p ps' q qs' where l: "ps = p # ps'" "qs = q # qs'" using Suc.prems(3,4) step by (auto simp: list_all2_Cons1)
  obtain f g where fg: "pt_lookup m from v = Some (pte_new p f)" "pt_lookup m to v = Some (pte_new q g)"
    using Suc.prems(3,4) step l by auto
  have sm: "p < 2 ^ 44" "q < 2 ^ 44" using Suc.prems(8) l by auto
  have q52: "q < 2 ^ 52" and p52: "p < 2 ^ 52"
    using order.strict_trans [OF sm(2), of "2 ^ 52"] order.strict_trans [OF sm(1), of "2 ^ 52"] by simp_all
  define m1 where "m1 = memmove m (ppn2pa q) (ppn2pa p) (ucast PAGE_SIZE)"
  have m1: "m1 x = (if pa2ppn x = q then m (ppn2pa p + get_offset x) else m x)" for x
    unfolding m1_def by (rule page_copy [OF sm])
  have inv: "pt_inv lo \<lparr>phys = m1, frames = fa\<rparr> pt" and look: "pt_lookup m1 pt u = pt_lookup m pt u"
    if "pt_inv lo \<lparr>phys = m, frames = fa\<rparr> pt" "q \<notin> set (fnode pt)" for pt u
  proof -
    have same: "m1 x = phys \<lparr>phys = m, frames = fa\<rparr> x" if "pa2ppn x \<in> set (fnode pt)" for x
      using m1 [of x] that \<open>q \<notin> set (fnode pt)\<close> by auto
    show "pt_inv lo \<lparr>phys = m1, frames = fa\<rparr> pt" using pt_inv_stable [OF that(1) same] by simp
    show "pt_lookup m1 pt u = pt_lookup m pt u" using pt_lookup_stable [OF that(1) same] by simp
  qed
  have qn: "q \<notin> set (fnode from)" "q \<notin> set (fnode to)" using Suc.prems(7) l by auto
  note i1 = inv [OF Suc.prems(1) qn(1)] look [OF Suc.prems(1) qn(1)]
  note i2 = inv [OF Suc.prems(2) qn(2)] look [OF Suc.prems(2) qn(2)]
  obtain m' where r: "copy_pages m1 from to (v + 1) e = Ok m'" "\<And>x. pa2ppn x \<notin> set qs' \<Longrightarrow> m' x = m1 x"
    "list_all2 (\<lambda>p q. same_bytes m1 p m' q) ps' qs'"
    using Suc.hyps(1) [OF cnt i1(1) i2(1), of ps' qs'] Suc.prems(3-8) i1(2) i2(2) l step by auto
  have run: "copy_pages m from to v e = Ok m'"
    using less fg r(1) by (simp add: copy_pages.simps [of m] deref_pte_lookup pte_get_pa_def pte_new_ppn [OF sm(1)] pte_new_ppn [OF sm(2)] m1_def)
  have keep: "m' x = m x" if "pa2ppn x \<notin> set qs" for x using r(2) [of x] m1 [of x] that l by simp
  have first: "same_bytes m p m' q"
  proof -
    have "m' (ppn2pa q + of_nat k) = m (ppn2pa p + of_nat k)" if k: "k < 4096" for k
    proof -
      have pg: "pa2ppn (ppn2pa q + of_nat k) = q" using byte_page(1) [OF q52 k] .
      have "unat (ppn2pa q + of_nat k) = unat (ppn2pa q + get_offset (ppn2pa q + of_nat k))"
        using addr_in_page [OF pg] by simp
      then have "get_offset (ppn2pa q + of_nat k) = of_nat k" by (simp add: unat_arith_simps(3) [symmetric])
      then show ?thesis using r(2) [of "ppn2pa q + of_nat k"] m1 [of "ppn2pa q + of_nat k"] pg Suc.prems(5) l by simp
    qed
    then show ?thesis by (simp add: same_bytes_def)
  qed
  have rest: "list_all2 (\<lambda>p q. same_bytes m p m' q) ps' qs'"
  proof (rule list_all2_mono [OF list_all2_all_nthI [of ps' qs' "\<lambda>p q. p \<in> set ps' \<and> same_bytes m1 p m' q"]])
    show "length ps' = length qs'" using r(3) by (rule list_all2_lengthD)
    show "ps' ! i \<in> set ps' \<and> same_bytes m1 (ps' ! i) m' (qs' ! i)" if "i < length ps'" for i
      using r(3) that by (simp add: list_all2_conv_all_nth)
    fix p' q' assume a: "p' \<in> set ps' \<and> same_bytes m1 p' m' q'"
    have "p' < 2 ^ 44" "p' \<noteq> q" using a Suc.prems(6,8) l by auto
    then have "pa2ppn (ppn2pa p' + of_nat k) \<noteq> q" if "k < 4096" for k
      using byte_page(1) [of p' k] that order.strict_trans [of p' "2 ^ 44" "2 ^ 52"] by simp
    then show "same_bytes m p' m' q'" using a by (simp add: same_bytes_def m1)
  qed
  show ?case using run keep first rest l by auto
qed

section \<open>The copy of an address space\<close>

text \<open>
  Page \<open>v\<close> of the space \<open>a\<close> and page \<open>v\<close> of its copy: frames of the two spaces, the same
  permissions, the same bytes.
\<close>

definition cloned :: "mem \<Rightarrow> MemorySet \<Rightarrow> mem \<Rightarrow> MemorySet \<Rightarrow> vpn \<Rightarrow> bool" where
  "cloned m a m' ms v \<longleftrightarrow> (\<exists>p q fl. p \<in> set (ms_frames a) \<and> q \<in> set (ms_frames ms)
     \<and> pt_lookup m (page_table a) v = Some (pte_new p fl) \<and> pt_lookup m' (page_table ms) v = Some (pte_new q fl)
     \<and> same_bytes m p m' q)"

lemma same_bytes_cong:
  assumes "same_bytes m p m' q" and "p < 2 ^ 52" and "q < 2 ^ 52"
    and "\<And>x. pa2ppn x = p \<Longrightarrow> m2 x = m x" and "\<And>x. pa2ppn x = q \<Longrightarrow> m2' x = m' x"
  shows "same_bytes m2 p m2' q"
  using assms(1,4,5) byte_page(1) [OF assms(2)] byte_page(1) [OF assms(3)] by (simp add: same_bytes_def)

lemma area_inv_frames:
  assumes "area_inv m pt a" and "map_type a = Framed"
  shows "list_all2 (\<lambda>v p. pt_lookup m pt v = Some (pte_new p (map_perm a OR PTE_V))) (area_pages a) (area_frames a)"
  using assms by (simp add: area_inv_def entries_def list.rel_map)

text \<open>Growing a space after a page has been copied does not touch the copy.\<close>

lemma cloned_grown:
  assumes c: "cloned m a (phys s) ms v" and inv: "ms_inv lo s ms" and g: "ms_grown lo s ms ws s' ms'"
    and v: "take_bit 27 v \<notin> take_bit 27 ` set ws" and a: "\<forall>p \<in> set (ms_frames a). p < 2 ^ 52"
  shows "cloned m a (phys s') ms' v"
proof -
  obtain p q fl where pq: "p \<in> set (ms_frames a)" "q \<in> set (ms_frames ms)"
    "pt_lookup m (page_table a) v = Some (pte_new p fl)" "pt_lookup (phys s) (page_table ms) v = Some (pte_new q fl)"
    "same_bytes m p (phys s) q"
    using c by (auto simp: cloned_def)
  note i = ms_invD [OF inv] and d = ms_grownD [OF g]
  have q: "q \<in> fa_allocated lo (frames s)" "q \<notin> set (fnode (page_table ms))" using pq(2) i(5,6) by auto
  have qn: "q \<notin> set (fnode (page_table ms)) \<union> fa_free (frames s)" using q used_not_free [OF i(1)] by blast
  have q52: "q < 2 ^ 52" using frame_small(2) [OF i(1)] q(1) by blast
  have p52: "p < 2 ^ 52" using a pq(1) by blast
  have "same_bytes m p (phys s') q"
    by (rule same_bytes_cong [OF pq(5) p52 q52 refl]) (use d(10) qn in blast)
  moreover have "q \<in> set (ms_frames ms')" using d(4) pq(2) by blast
  ultimately show ?thesis using pq(1,3,4) d(9) [OF v] unfolding cloned_def by metis
qed

text \<open>Nor does it matter from which of two equal images of the original the copy was made.\<close>

lemma cloned_rebase:
  assumes c: "cloned m1 a m' ms v" and a: "\<forall>p \<in> set (ms_frames a). p < 2 ^ 52" and ms: "\<forall>q \<in> set (ms_frames ms). q < 2 ^ 52"
    and look: "pt_lookup m1 (page_table a) v = pt_lookup m (page_table a) v"
    and eq: "\<And>x. pa2ppn x \<in> set (ms_frames a) \<Longrightarrow> m1 x = m x"
  shows "cloned m a m' ms v"
proof -
  obtain p q fl where pq: "p \<in> set (ms_frames a)" "q \<in> set (ms_frames ms)"
    "pt_lookup m1 (page_table a) v = Some (pte_new p fl)" "pt_lookup m' (page_table ms) v = Some (pte_new q fl)"
    "same_bytes m1 p m' q"
    using c by (auto simp: cloned_def)
  have e: "m x = m1 x" if "pa2ppn x = p" for x using eq [of x] that pq(1) by simp
  have "same_bytes m p m' q"
    by (rule same_bytes_cong [OF pq(5) bspec [OF a pq(1)] bspec [OF ms pq(2)] e refl])
  then show ?thesis using pq(1-4) look unfolding cloned_def by auto
qed

lemma ms_frames_small: "ms_inv lo s ms \<Longrightarrow> \<forall>p \<in> set (ms_frames ms). p < 2 ^ 52"
  using frame_small(2) [OF ms_invD(1) disjI2] ms_invD(5) by blast

text \<open>Writing to data frames that were free before keeps a growth.\<close>

lemma ms_grown_write:
  assumes g: "ms_grown lo s ms ws s' ms'" and qs: "set qs \<subseteq> set (ms_frames ms')" "set qs \<subseteq> fa_free (frames s)"
    and m: "\<And>x. pa2ppn x \<notin> set qs \<Longrightarrow> m x = phys s' x"
  shows "ms_grown lo s ms ws (s'\<lparr>phys := m\<rparr>) ms'"
    and "pt_lookup m (page_table ms') u = pt_lookup (phys s') (page_table ms') u"
proof -
  note d = ms_grownD [OF g]
  note i = ms_invD [OF d(1)]
  have t: "m x = phys s' x" if "pa2ppn x \<in> set (fnode (page_table ms'))" for x
    using m [of x] that qs(1) i(6) by blast
  have inv: "ms_inv lo (s'\<lparr>phys := m\<rparr>) ms'"
    using pt_inv_tables(3) [OF i(1)] fend_small [OF i(1)] t by (intro ms_inv_other(1) [OF d(1)]) simp_all
  show look: "pt_lookup m (page_table ms') u = pt_lookup (phys s') (page_table ms') u" for u
    using pt_lookup_stable [OF i(1) t] .
  have "m x = phys s x" if "pa2ppn x \<notin> set (fnode (page_table ms)) \<union> fa_free (frames s)" for x
    using d(10) [OF that] m [of x] that qs(2) by auto
  then show "ms_grown lo s ms ws (s'\<lparr>phys := m\<rparr>) ms'"
    unfolding ms_grown_def using inv d(2-9) look by simp
qed

text \<open>One area: a new area of the same pages, its contents copied.\<close>

lemma copy_area_ok:
  assumes par: "ms_inv lo s a" and b: "b \<in> set (areas a)" "map_type b = Framed" and inv: "ms_inv lo s ms"
    and dis: "set (ms_frames a) \<inter> set (fnode (page_table ms)) = {}"
      "set (fnode (page_table a)) \<inter> set (fnode (page_table ms)) = {}"
    and p: "pushable s ms (from_another b)"
  shows "\<exists>s1 ms1 m. ms_push s ms (from_another b) 0 0 = Ok (s1, ms1)
    \<and> copy_pages (phys s1) (page_table a) (page_table ms1) (vm_start b) (vm_end b) = Ok m
    \<and> ms_grown lo s ms (area_pages b) (s1\<lparr>phys := m\<rparr>) ms1
    \<and> map from_another (areas ms1) = map from_another (areas ms) @ [from_another b]
    \<and> (\<forall>v \<in> set (area_pages b). cloned (phys s) a m ms1 v)"
proof -
  let ?b = "from_another b"
  have bp: "area_pages ?b = area_pages b" "map_type ?b = Framed" "map_perm ?b = map_perm b"
    using b(2) by (simp_all add: from_another_def area_pages_def)
  obtain s1 ms1 qs where r: "ms_push s ms ?b 0 0 = Ok (s1, ms1)" "ms_grown lo s ms (area_pages b) s1 ms1"
    "length qs = length (area_pages b)" "areas ms1 = areas ms @ [?b\<lparr>dataframe := framed (area_pages b) qs\<rparr>]"
    "set qs \<subseteq> fa_free (frames s)"
    "list_all2 (\<lambda>v e. pt_lookup (phys s1) (page_table ms1) v = Some e) (area_pages b) (entries (map_perm b) qs)"
    using ms_push_framed [OF inv bp(2) p, of 0] unfolding bp by blast
  note d = ms_grownD [OF r(2)] and ia = ms_invD [OF par] and i1 = ms_invD [OF ms_grownD(1) [OF r(2)]]
  have fr: "ms_frames ms1 = ms_frames ms @ qs" using r(3,4) by (simp add: ms_frames_def area_frames_def map_ppn_framed)
  have qd: "distinct qs" "set qs \<subseteq> set (ms_frames ms1)" using i1(4) fr by simp_all
  have ta: "phys s1 x = phys s x" if "pa2ppn x \<in> set (fnode (page_table a)) \<union> set (ms_frames a)" for x
  proof (rule d(10))
    have "pa2ppn x \<in> fa_allocated lo (frames s)" using that ia(5) pt_inv_tables(2) [OF ia(1)] by blast
    then show "pa2ppn x \<notin> set (fnode (page_table ms)) \<union> fa_free (frames s)"
      using that dis used_not_free [OF ia(1)] by blast
  qed
  have al: "fa_allocated lo (frames s) \<subseteq> fa_allocated lo (frames s1)" using d(6) by blast
  note oth = ms_inv_other [where s' = s1, OF par pt_inv_tables(3) [OF i1(1)] fend_small [OF i1(1)] al ta]
  have par1: "ms_inv lo s1 a" and look: "\<And>v. pt_lookup (phys s1) (page_table a) v = pt_lookup (phys s) (page_table a) v"
    using oth by auto
  have used: "set (ms_frames a) \<union> set (fnode (page_table a)) \<subseteq> fa_allocated lo (frames s)"
    using ia(5) pt_inv_tables(2) [OF ia(1)] by blast
  then have qa: "set qs \<inter> (set (ms_frames a) \<union> set (fnode (page_table a))) = {}"
    using r(5) used_not_free [OF ia(1)] by blast
  have bf: "set (area_frames b) \<subseteq> set (ms_frames a)" using b(1) by (auto simp: ms_frames_def)
  have small: "\<forall>p \<in> set (area_frames b) \<union> set qs. p < 2 ^ 44"
    using frame_small(1) [OF ia(1)] r(5) bf ia(5) by blast
  have src: "list_all2 (\<lambda>v p. pt_lookup (phys s1) (page_table a) v = Some (pte_new p (map_perm b OR PTE_V))) (area_pages b) (area_frames b)"
    using area_inv_frames [OF ms_invD(2) [OF par1 b(1)] b(2)] .
  have dst: "list_all2 (\<lambda>v q. pt_lookup (phys s1) (page_table ms1) v = Some (pte_new q (map_perm b OR PTE_V))) (area_pages b) qs"
    using r(6) by (simp add: entries_def list.rel_map)
  have pts: "pt_inv lo \<lparr>phys = phys s1, frames = frames s1\<rparr> (page_table a)"
    "pt_inv lo \<lparr>phys = phys s1, frames = frames s1\<rparr> (page_table ms1)"
    using ms_invD(1) [OF par1] i1(1) by (cases s1; simp)+
  have ex1: "list_all2 (\<lambda>v p. \<exists>fl. pt_lookup (phys s1) (page_table a) v = Some (pte_new p fl)) (vpns (vm_start b) (vm_end b)) (area_frames b)"
    by (rule list_all2_mono [OF src [unfolded area_pages_def]]) (rule exI)
  have ex2: "list_all2 (\<lambda>v q. \<exists>fl. pt_lookup (phys s1) (page_table ms1) v = Some (pte_new q fl)) (vpns (vm_start b) (vm_end b)) qs"
    by (rule list_all2_mono [OF dst [unfolded area_pages_def]]) (rule exI)
  have sep: "set qs \<inter> set (area_frames b) = {}" "set qs \<inter> (set (fnode (page_table a)) \<union> set (fnode (page_table ms1))) = {}"
    using qa bf i1(6) qd(2) by blast+
  obtain m where m: "copy_pages (phys s1) (page_table a) (page_table ms1) (vm_start b) (vm_end b) = Ok m"
    "\<And>x. pa2ppn x \<notin> set qs \<Longrightarrow> m x = phys s1 x" "list_all2 (\<lambda>p q. same_bytes (phys s1) p m q) (area_frames b) qs"
    using copy_pages_ok [OF pts ex1 ex2 qd(1) sep small] by blast
  note g = ms_grown_write [OF r(2) qd(2) r(5) m(2)]
  have "cloned (phys s) a m ms1 v" if v: "v \<in> set (area_pages b)" for v
  proof -
    obtain i where i: "i < length (area_pages b)" "v = area_pages b ! i" using v by (auto simp: in_set_conv_nth)
    have l: "length (area_frames b) = length (area_pages b)" using src by (simp add: list_all2_lengthD)
    let ?p = "area_frames b ! i" and ?q = "qs ! i"
    have pq: "?p \<in> set (ms_frames a)" "?q \<in> set (ms_frames ms1)" using i(1) l r(3) bf qd(2) by (auto simp: in_mono)
    have sb: "same_bytes (phys s1) ?p m ?q" using m(3) i(1) l by (simp add: list_all2_conv_all_nth)
    have p52: "?p < 2 ^ 52" by (rule frame_small(2) [OF ia(1) disjI2 [OF subsetD [OF ia(5) pq(1)]]])
    have q52: "?q < 2 ^ 52" by (rule frame_small(2) [OF i1(1) disjI2 [OF subsetD [OF i1(5) pq(2)]]])
    have eq: "phys s x = phys s1 x" if "pa2ppn x = ?p" for x using ta [of x] that pq(1) by simp
    have "same_bytes (phys s) ?p m ?q" by (rule same_bytes_cong [OF sb p52 q52 eq refl])
    moreover have "pt_lookup (phys s) (page_table a) v = Some (pte_new ?p (map_perm b OR PTE_V))"
      using list_all2_nthD [OF src i(1)] look i(2) by simp
    moreover have "pt_lookup m (page_table ms1) v = Some (pte_new ?q (map_perm b OR PTE_V))"
      using list_all2_nthD [OF dst i(1)] g(2) i(2) by simp
    ultimately show ?thesis using pq unfolding cloned_def by blast
  qed
  moreover have "map from_another (areas ms1) = map from_another (areas ms) @ [?b]"
    using r(4) by (simp add: from_another_def)
  ultimately show ?thesis using r(1) m(1) g(1) by blast
qed

definition pages_of :: "MapArea list \<Rightarrow> vpn list" where
  "pages_of as = concat (map area_pages as)"

lemma pages_of_simps [simp]: "pages_of [] = []" "pages_of (b # bs) = area_pages b @ pages_of bs"
  by (simp_all add: pages_of_def)

lemma ms_pages_of: "ms_pages ms = pages_of (areas ms)"
  by (simp add: ms_pages_def pages_of_def)

text \<open>The space that is copied does not notice the growth of the copy.\<close>

lemma ms_grown_other:
  assumes g: "ms_grown lo s ms ws s' ms'" and par: "ms_inv lo s a"
    and dis: "(set (ms_frames a) \<union> set (fnode (page_table a))) \<inter> set (fnode (page_table ms)) = {}"
  shows "ms_inv lo s' a" and "\<And>v. pt_lookup (phys s') (page_table a) v = pt_lookup (phys s) (page_table a) v"
    and "\<And>x. pa2ppn x \<in> set (ms_frames a) \<union> set (fnode (page_table a)) \<Longrightarrow> phys s' x = phys s x"
    and "(set (ms_frames a) \<union> set (fnode (page_table a))) \<inter> (set (fnode (page_table ms')) \<union> (set (ms_frames ms') - set (ms_frames ms))) = {}"
proof -
  note d = ms_grownD [OF g] and i = ms_invD [OF par]
  have used: "set (ms_frames a) \<union> set (fnode (page_table a)) \<subseteq> fa_allocated lo (frames s)"
    using i(5) pt_inv_tables(2) [OF i(1)] by blast
  then have nf: "(set (ms_frames a) \<union> set (fnode (page_table a))) \<inter> fa_free (frames s) = {}"
    using used_not_free [OF i(1)] by blast
  show same: "phys s' x = phys s x" if "pa2ppn x \<in> set (ms_frames a) \<union> set (fnode (page_table a))" for x
    using d(10) [of x] that nf dis by blast
  have al: "fa_allocated lo (frames s) \<subseteq> fa_allocated lo (frames s')" using d(6) by blast
  note i' = ms_invD(1) [OF d(1)]
  have t: "phys s' x = phys s x" if "pa2ppn x \<in> set (fnode (page_table a))" for x using same that by blast
  note o = ms_inv_other [where s' = s', OF par pt_inv_tables(3) [OF i'] fend_small [OF i'] al t]
  show "ms_inv lo s' a" by (rule o(1))
  show "pt_lookup (phys s') (page_table a) v = pt_lookup (phys s) (page_table a) v" for v by (rule o(2))
  show "(set (ms_frames a) \<union> set (fnode (page_table a))) \<inter> (set (fnode (page_table ms')) \<union> (set (ms_frames ms') - set (ms_frames ms))) = {}"
    using d(3,5) nf dis by blast
qed

lemma from_another_fields [simp]:
  "area_pages (from_another b) = area_pages b" "map_type (from_another b) = map_type b"
  "map_perm (from_another b) = map_perm b"
  by (simp_all add: from_another_def area_pages_def)

lemma copy_areas_ok:
  assumes "ms_inv lo s a" and "set mas \<subseteq> set (areas a)" and "\<forall>b \<in> set mas. map_type b = Framed" and "ms_inv lo s ms"
    and "(set (ms_frames a) \<union> set (fnode (page_table a))) \<inter> set (fnode (page_table ms)) = {}"
    and "3 * length (pages_of mas) \<le> card (fa_free (frames s))" and "apart (pages_of mas)"
    and "\<forall>v \<in> set (pages_of mas). pt_lookup (phys s) (page_table ms) v = None"
  shows "\<exists>s' ms'. copy_areas mas (page_table a) s ms = Ok (s', ms') \<and> ms_grown lo s ms (pages_of mas) s' ms'
    \<and> map from_another (areas ms') = map from_another (areas ms) @ map from_another mas
    \<and> (\<forall>v \<in> set (pages_of mas). cloned (phys s) a (phys s') ms' v)"
  using assms
proof (induction mas arbitrary: s ms)
  case Nil
  then show ?case using ms_grown_refl by auto
next
  case (Cons b mas)
  have push: "pushable s ms (from_another b)"
    using Cons.prems(6-8) by (simp add: pushable_def apart_append)
  obtain s1 ms1 m where c: "ms_push s ms (from_another b) 0 0 = Ok (s1, ms1)"
    "copy_pages (phys s1) (page_table a) (page_table ms1) (vm_start b) (vm_end b) = Ok m"
    "ms_grown lo s ms (area_pages b) (s1\<lparr>phys := m\<rparr>) ms1"
    "map from_another (areas ms1) = map from_another (areas ms) @ [from_another b]"
    "\<forall>v \<in> set (area_pages b). cloned (phys s) a m ms1 v"
    using copy_area_ok [OF Cons.prems(1) _ _ Cons.prems(4) _ _ push] Cons.prems(2,3,5) by auto
  define s2 where "s2 = s1\<lparr>phys := m\<rparr>"
  have p2: "phys s2 = m" by (simp add: s2_def)
  have g2: "ms_grown lo s ms (area_pages b) s2 ms1" using c(3) by (simp add: s2_def)
  note d2 = ms_grownD [OF g2] and o2 = ms_grown_other [OF g2 Cons.prems(1,5)]
  have dis2: "(set (ms_frames a) \<union> set (fnode (page_table a))) \<inter> set (fnode (page_table ms1)) = {}" using o2(4) by blast
  have room: "3 * length (pages_of mas) \<le> card (fa_free (frames s2))" using d2(8) Cons.prems(6) by simp
  have ap: "take_bit 27 u \<notin> take_bit 27 ` set (area_pages b)" if "u \<in> set (pages_of mas)" for u
    using Cons.prems(7) that by (auto simp: apart_append)
  have ap2: "take_bit 27 u \<notin> take_bit 27 ` set (pages_of mas)" if "u \<in> set (area_pages b)" for u
    using Cons.prems(7) that by (auto simp: apart_append)
  have new: "\<forall>v \<in> set (pages_of mas). pt_lookup (phys s2) (page_table ms1) v = None"
    using d2(9) ap Cons.prems(8) by simp
  obtain s' ms' where r: "copy_areas mas (page_table a) s2 ms1 = Ok (s', ms')" "ms_grown lo s2 ms1 (pages_of mas) s' ms'"
    "map from_another (areas ms') = map from_another (areas ms1) @ map from_another mas"
    "\<forall>v \<in> set (pages_of mas). cloned (phys s2) a (phys s') ms' v"
    using Cons.IH [OF o2(1) _ _ d2(1) dis2 room _ new] Cons.prems(2,3,7) by (auto simp: apart_append)
  have small: "\<forall>p \<in> set (ms_frames a). p < 2 ^ 52" by (rule ms_frames_small [OF Cons.prems(1)])
  have first: "cloned (phys s) a (phys s') ms' v" if "v \<in> set (area_pages b)" for v
    using cloned_grown [OF _ d2(1) r(2) ap2 [OF that] small] c(5) that p2 by simp
  have rest: "cloned (phys s) a (phys s') ms' v" if "v \<in> set (pages_of mas)" for v
    using r(4) that o2(3) by (intro cloned_rebase [OF _ small ms_frames_small [OF ms_grownD(1) [OF r(2)]] o2(2)]) blast+
  have "copy_areas (b # mas) (page_table a) s ms = Ok (s', ms')" using c(1,2) r(1) by (simp add: s2_def)
  moreover have "ms_grown lo s ms (pages_of (b # mas)) s' ms'" using ms_grown_trans [OF g2 r(2)] by simp
  ultimately show ?case using first rest r(3) c(4) by auto
qed

text \<open>The empty space with the trampoline, which every space starts from.\<close>

lemma ms_init_ok:
  assumes "fa_inv lo (frames s)" and "fend (frames s) \<le> 2 ^ 44" and "fa_free (frames s) \<noteq> {}"
  shows "\<exists>ms s'. ms_init s = Ok (ms, s') \<and> ms_inv lo s' ms \<and> areas ms = [] \<and> vma ms = []
    \<and> (\<forall>v. pt_lookup (phys s') (page_table ms) v = None)
    \<and> set (fnode (page_table ms)) \<subseteq> fa_free (frames s) \<and> fa_free (frames s') \<subseteq> fa_free (frames s)
    \<and> fa_allocated lo (frames s') = fa_allocated lo (frames s) \<union> set (fnode (page_table ms))
    \<and> card (fa_free (frames s)) \<le> card (fa_free (frames s')) + 1
    \<and> (\<forall>x. pa2ppn x \<notin> fa_free (frames s) \<longrightarrow> phys s' x = phys s x)"
proof -
  obtain pt s' where p: "pt_new s = Ok (pt, s')" "pt_inv lo s' pt" "\<forall>v. pt_lookup (phys s') pt v = None"
    "root_ppn pt \<in> fa_free (frames s)" "fa_allocated lo (frames s') = insert (root_ppn pt) (fa_allocated lo (frames s))"
    "fa_free (frames s') = fa_free (frames s) - {root_ppn pt}" "\<forall>x. pa2ppn x \<noteq> root_ppn pt \<longrightarrow> phys s' x = phys s x"
    using pt_new_ok [OF assms] by blast
  have f: "fnode pt = [root_ppn pt]" using p(1) by (auto simp: pt_new_def fvec_init_def Let_def)
  let ?ms = "\<lparr>page_table = pt, vma = [], areas = []\<rparr>"
  have "ms_init s = Ok (?ms, s')" using p(1) by (simp add: ms_init_def)
  moreover have "ms_inv lo s' ?ms" using p(2) by (simp add: ms_inv_def ms_pages_def ms_frames_def apart_def)
  moreover have "card (fa_free (frames s)) \<le> card (fa_free (frames s')) + 1"
    unfolding p(6) using p(4) by (simp add: card_Diff_singleton)
  moreover have "phys s' x = phys s x" if "pa2ppn x \<notin> fa_free (frames s)" for x using p(4,7) that by metis
  ultimately show ?thesis using p(3-6) f by (intro exI [of _ ?ms] exI [of _ s']) auto
qed

text \<open>A page mapped on its own, outside every area.\<close>

lemma ms_grown_page:
  assumes inv: "ms_inv lo s ms" and m: "mapped lo s (page_table ms) [v] es [] s' pt'"
  shows "ms_grown lo s ms [v] s' (ms\<lparr>page_table := pt'\<rparr>)"
proof -
  let ?ms = "ms\<lparr>page_table := pt'\<rparr>"
  note d = mappedD [OF m] and i = ms_invD [OF inv]
  have pf: "ms_pages ?ms = ms_pages ms" "ms_frames ?ms = ms_frames ms" by (simp_all add: ms_pages_def ms_frames_def)
  have ap: "apart (ms_pages ms @ [v])" using apart_new_area [OF inv, of "[v]"] d(11) by (simp add: apart_def)
  have oldinv: "area_inv (phys s') pt' b" if "b \<in> set (areas ms)" for b
  proof (rule area_inv_cong [OF i(2) [OF that]], rule d(13))
    fix u assume "u \<in> set (area_pages b)"
    then have "u \<in> set (ms_pages ms)" using that by (auto simp: ms_pages_def)
    then have "take_bit 27 u \<in> take_bit 27 ` set (ms_pages ms)" by (rule imageI)
    then show "take_bit 27 u \<notin> take_bit 27 ` set [v]" using ap by (auto simp: apart_append)
  qed
  have nf: "set (ms_frames ms) \<inter> fa_free (frames s) = {}" using i(5) used_not_free [OF i(1)] by blast
  have sub: "set (ms_frames ms) \<subseteq> fa_allocated lo (frames s') - set (fnode pt')"
    using i(5,6) d(6,8) nf by auto
  have ms: "ms_inv lo s' ?ms" unfolding ms_inv_def pf using d(1) oldinv i(3,4) sub by auto
  show ?thesis
    unfolding ms_grown_def pf
  proof (intro conjI)
    show "fa_allocated lo (frames s') = fa_allocated lo (frames s) \<union> set (fnode (page_table ?ms)) \<union> set (ms_frames ms)"
      using d(8) i(5) by auto
    show "\<forall>u. take_bit 27 u \<notin> take_bit 27 ` set [v] \<longrightarrow>
          pt_lookup (phys s') (page_table ?ms) u = pt_lookup (phys s) (page_table ms) u" using d(13) by simp
    show "\<forall>x. pa2ppn x \<notin> set (fnode (page_table ms)) \<union> fa_free (frames s) \<longrightarrow> phys s' x = phys s x" using d(15) by blast
  qed (use ms d(5,6,9,10) in auto)
qed

lemma trampoline_ok:
  assumes inv: "ms_inv lo s ms" and free: "2 \<le> card (fa_free (frames s))"
    and new: "pt_lookup (phys s) (page_table ms) (va2vpn TRAMPOLINE) = None"
  shows "\<exists>s' ms'. ms_map_trampoline s ms st = Ok (s', ms') \<and> ms_grown lo s ms [va2vpn TRAMPOLINE] s' ms'
    \<and> areas ms' = areas ms \<and> vma ms' = vma ms
    \<and> pt_lookup (phys s') (page_table ms') (va2vpn TRAMPOLINE) = Some (pte_new (pa2ppn st) (PTE_R OR PTE_X OR PTE_V))"
proof -
  obtain s' pt' where m: "map_page s (page_table ms) (va2vpn TRAMPOLINE) (pa2ppn st) (PTE_R OR PTE_X) = Ok (s', pt')"
    "mapped lo s (page_table ms) [va2vpn TRAMPOLINE] [pte_new (pa2ppn st) ((PTE_R OR PTE_X) OR PTE_V)] [] s' pt'"
    using map_page_mapped [OF ms_invD(1) [OF inv] free new] by blast
  have "ms_map_trampoline s ms st = Ok (s', ms\<lparr>page_table := pt'\<rparr>)" using m(1) by (simp add: ms_map_trampoline_def)
  moreover have "pt_lookup (phys s') pt' (va2vpn TRAMPOLINE) = Some (pte_new (pa2ppn st) (PTE_R OR PTE_X OR PTE_V))"
    using mappedD(12) [OF m(2)] by (simp add: or.assoc)
  ultimately show ?thesis using ms_grown_page [OF inv m(2)] by auto
qed

text \<open>
  The start of every user space: \<^verbatim>\<open>ms_init\<close> and the trampoline. It takes free pages for its
  tables and leaves every space there is as it was.
\<close>

definition new_space :: "kmem \<Rightarrow> u64 \<Rightarrow> (kmem \<times> MemorySet) res" where
  "new_space s st = bind_res (ms_init s) (\<lambda>(ms, s). ms_map_trampoline s ms st)"

lemma new_space_ok:
  assumes fa: "fa_inv lo (frames s)" "fend (frames s) \<le> 2 ^ 44" and room: "4 \<le> card (fa_free (frames s))"
  shows "\<exists>s' ms. new_space s st = Ok (s', ms) \<and> ms_inv lo s' ms \<and> areas ms = [] \<and> vma ms = []
    \<and> pt_lookup (phys s') (page_table ms) (va2vpn TRAMPOLINE) = Some (pte_new (pa2ppn st) (PTE_R OR PTE_X OR PTE_V))
    \<and> (\<forall>u. take_bit 27 u \<noteq> take_bit 27 (va2vpn TRAMPOLINE) \<longrightarrow> pt_lookup (phys s') (page_table ms) u = None)
    \<and> set (fnode (page_table ms)) \<subseteq> fa_free (frames s) \<and> fa_free (frames s') \<subseteq> fa_free (frames s)
    \<and> fa_allocated lo (frames s') = fa_allocated lo (frames s) \<union> set (fnode (page_table ms))
    \<and> card (fa_free (frames s)) \<le> card (fa_free (frames s')) + 4
    \<and> (\<forall>x. pa2ppn x \<notin> fa_free (frames s) \<longrightarrow> phys s' x = phys s x)"
proof -
  let ?T = "va2vpn TRAMPOLINE"
  have ne: "fa_free (frames s) \<noteq> {}" using room by auto
  obtain ms0 s0 where 0: "ms_init s = Ok (ms0, s0)" "ms_inv lo s0 ms0" "areas ms0 = []" "vma ms0 = []"
    "\<And>v. pt_lookup (phys s0) (page_table ms0) v = None" "set (fnode (page_table ms0)) \<subseteq> fa_free (frames s)"
    "fa_free (frames s0) \<subseteq> fa_free (frames s)"
    "fa_allocated lo (frames s0) = fa_allocated lo (frames s) \<union> set (fnode (page_table ms0))"
    "card (fa_free (frames s)) \<le> card (fa_free (frames s0)) + 1"
    "\<And>x. pa2ppn x \<notin> fa_free (frames s) \<Longrightarrow> phys s0 x = phys s x"
    using ms_init_ok [OF fa ne] by blast
  have "2 \<le> card (fa_free (frames s0))" using 0(9) room by linarith
  then obtain s1 ms1 where 1: "ms_map_trampoline s0 ms0 st = Ok (s1, ms1)" "ms_grown lo s0 ms0 [?T] s1 ms1" "areas ms1 = []"
    "vma ms1 = []" "pt_lookup (phys s1) (page_table ms1) ?T = Some (pte_new (pa2ppn st) (PTE_R OR PTE_X OR PTE_V))"
    using trampoline_ok [OF 0(2), of st] 0(3,4,5) by auto
  note d = ms_grownD [OF 1(2)]
  have "ms_frames ms1 = []" by (simp add: ms_frames_def 1(3))
  then have "fa_allocated lo (frames s1) = fa_allocated lo (frames s) \<union> set (fnode (page_table ms1))"
    using d(2,6) 0(8) by auto
  moreover have "phys s1 x = phys s x" if "pa2ppn x \<notin> fa_free (frames s)" for x
    using d(10) [of x] 0(6,7) 0(10) [OF that] that by auto
  moreover have "new_space s st = Ok (s1, ms1)" using 0(1) 1(1) by (simp add: new_space_def)
  ultimately show ?thesis using d 1 0(5-9) by (intro exI [of _ s1] exI [of _ ms1]) auto
qed

text \<open>A space in use does not notice what is done with pages that were free.\<close>

lemma untouched:
  assumes a: "ms_inv lo s a" and s': "pt_inv lo s' pt" and al: "fa_allocated lo (frames s) \<subseteq> fa_allocated lo (frames s')"
    and same: "\<And>x. pa2ppn x \<notin> fa_free (frames s) \<Longrightarrow> phys s' x = phys s x"
  shows "ms_inv lo s' a" and "\<And>v. pt_lookup (phys s') (page_table a) v = pt_lookup (phys s) (page_table a) v"
    and "\<And>x. pa2ppn x \<in> set (ms_frames a) \<Longrightarrow> phys s' x = phys s x"
    and "(set (ms_frames a) \<union> set (fnode (page_table a))) \<inter> fa_free (frames s) = {}"
proof -
  note ia = ms_invD [OF a]
  have "set (ms_frames a) \<union> set (fnode (page_table a)) \<subseteq> fa_allocated lo (frames s)"
    using ia(5) pt_inv_tables(2) [OF ia(1)] by blast
  then show nf: "(set (ms_frames a) \<union> set (fnode (page_table a))) \<inter> fa_free (frames s) = {}"
    using used_not_free [OF ia(1)] by blast
  have t: "phys s' x = phys s x" if "pa2ppn x \<in> set (fnode (page_table a))" for x using same that nf by blast
  note o = ms_inv_other [where s' = s', OF a pt_inv_tables(3) [OF s'] fend_small [OF s'] al t]
  show "ms_inv lo s' a" by (rule o(1))
  show "pt_lookup (phys s') (page_table a) v = pt_lookup (phys s) (page_table a) v" for v by (rule o(2))
  show "phys s' x = phys s x" if "pa2ppn x \<in> set (ms_frames a)" for x using same that nf by blast
qed

lemma from_existed_user_ok:
  assumes par: "ms_inv lo s a" and fr: "\<forall>b \<in> set (areas a). map_type b = Framed"
    and room: "3 * length (ms_pages a) + 4 \<le> card (fa_free (frames s))"
    and tr: "take_bit 27 (va2vpn TRAMPOLINE) \<notin> take_bit 27 ` set (ms_pages a)"
  shows "\<exists>s' ms. from_existed_user s a st = Ok (s', ms) \<and> ms_inv lo s' ms \<and> ms_inv lo s' a
    \<and> map from_another (areas ms) = map from_another (areas a)
    \<and> (\<forall>v \<in> set (ms_pages a). cloned (phys s) a (phys s') ms v)
    \<and> pt_lookup (phys s') (page_table ms) (va2vpn TRAMPOLINE) = Some (pte_new (pa2ppn st) (PTE_R OR PTE_X OR PTE_V))
    \<and> (\<forall>u. take_bit 27 u \<notin> take_bit 27 ` set (va2vpn TRAMPOLINE # ms_pages a) \<longrightarrow> pt_lookup (phys s') (page_table ms) u = None)
    \<and> set (ms_frames ms) \<union> set (fnode (page_table ms)) \<subseteq> fa_free (frames s)
    \<and> fa_allocated lo (frames s') = fa_allocated lo (frames s) \<union> set (ms_frames ms) \<union> set (fnode (page_table ms))
    \<and> (\<forall>x. pa2ppn x \<notin> fa_free (frames s) \<longrightarrow> phys s' x = phys s x)
    \<and> card (fa_free (frames s)) \<le> card (fa_free (frames s')) + (3 * length (ms_pages a) + 4)"
proof -
  let ?T = "va2vpn TRAMPOLINE"
  note ia = ms_invD [OF par]
  have room4: "4 \<le> card (fa_free (frames s))" using room by linarith
  obtain s1 ms1 where 1: "new_space s st = Ok (s1, ms1)" "ms_inv lo s1 ms1" "areas ms1 = []"
    "pt_lookup (phys s1) (page_table ms1) ?T = Some (pte_new (pa2ppn st) (PTE_R OR PTE_X OR PTE_V))"
    "\<And>u. take_bit 27 u \<noteq> take_bit 27 ?T \<Longrightarrow> pt_lookup (phys s1) (page_table ms1) u = None"
    "set (fnode (page_table ms1)) \<subseteq> fa_free (frames s)" "fa_free (frames s1) \<subseteq> fa_free (frames s)"
    "fa_allocated lo (frames s1) = fa_allocated lo (frames s) \<union> set (fnode (page_table ms1))"
    "card (fa_free (frames s)) \<le> card (fa_free (frames s1)) + 4"
    "\<And>x. pa2ppn x \<notin> fa_free (frames s) \<Longrightarrow> phys s1 x = phys s x"
    using new_space_ok [OF pt_inv_tables(3) [OF ia(1)] fend_small [OF ia(1)] room4, of st] by blast
  have al1: "fa_allocated lo (frames s) \<subseteq> fa_allocated lo (frames s1)" using 1(8) by blast
  note o1 = untouched [where s' = s1, OF par ms_invD(1) [OF 1(2)] al1 1(10)]
  have dis1: "(set (ms_frames a) \<union> set (fnode (page_table a))) \<inter> set (fnode (page_table ms1)) = {}"
    using o1(4) 1(6) by blast
  have room1: "3 * length (pages_of (areas a)) \<le> card (fa_free (frames s1))" using 1(9) room by (simp add: ms_pages_of)
  have new1: "\<forall>v \<in> set (pages_of (areas a)). pt_lookup (phys s1) (page_table ms1) v = None"
    using tr 1(5) by (metis imageI ms_pages_of)
  have ap: "apart (pages_of (areas a))" using ia(3) by (simp add: ms_pages_of)
  obtain s' ms where 2: "copy_areas (areas a) (page_table a) s1 ms1 = Ok (s', ms)" "ms_grown lo s1 ms1 (ms_pages a) s' ms"
    "map from_another (areas ms) = map from_another (areas a)"
    "\<forall>v \<in> set (ms_pages a). cloned (phys s1) a (phys s') ms v"
    using copy_areas_ok [OF o1(1) subset_refl fr 1(2) dis1 room1 ap new1] 1(3) by (auto simp: ms_pages_of)
  note d = ms_grownD [OF 2(2)] and o2 = ms_grown_other [OF 2(2) o1(1) dis1]
  have run: "from_existed_user s a st = Ok (s', ms)"
    using 1(1) 2(1) by (auto simp: from_existed_user_def new_space_def)
  have cl: "cloned (phys s) a (phys s') ms v" if "v \<in> set (ms_pages a)" for v
    using 2(4) that o1(3) by (intro cloned_rebase [OF _ ms_frames_small [OF par] ms_frames_small [OF d(1)] o1(2)]) blast+
  have tramp: "pt_lookup (phys s') (page_table ms) ?T = Some (pte_new (pa2ppn st) (PTE_R OR PTE_X OR PTE_V))"
    using d(9) tr 1(4) by simp
  have none: "pt_lookup (phys s') (page_table ms) u = None"
    if "take_bit 27 u \<notin> take_bit 27 ` set (?T # ms_pages a)" for u
    using d(9) [of u] 1(5) [of u] that by auto
  have f1: "ms_frames ms1 = []" by (simp add: ms_frames_def 1(3))
  have own: "set (ms_frames ms) \<union> set (fnode (page_table ms)) \<subseteq> fa_free (frames s)"
    using d(3,5) f1 1(6,7) by auto
  have all: "fa_allocated lo (frames s') = fa_allocated lo (frames s) \<union> set (ms_frames ms) \<union> set (fnode (page_table ms))"
    using d(2,6) 1(8) by auto
  have bytes: "phys s' x = phys s x" if "pa2ppn x \<notin> fa_free (frames s)" for x
    using d(10) [of x] 1(6,7) 1(10) [OF that] that by auto
  have cards: "card (fa_free (frames s)) \<le> card (fa_free (frames s')) + (3 * length (ms_pages a) + 4)" using 1(9) d(8) by simp
  show ?thesis using run d(1) o2(1) 2(3) cl tramp none own all bytes cards by blast
qed

section \<open>Releasing areas\<close>

text \<open>
  From \<open>s\<close> to \<open>s'\<close> the pages \<open>vs\<close> lost their entries and the frames \<open>qs\<close> were given back. The
  tables are read and written but not allocated: \<open>fa\<close> is an allocator in whose view they are in
  use, which the current one need not share.
\<close>

definition released :: "ppn \<Rightarrow> FrameAllocator \<Rightarrow> PageTable \<Rightarrow> kmem \<Rightarrow> vpn list \<Rightarrow> ppn list \<Rightarrow> kmem \<Rightarrow> bool" where
  "released lo fa pt s vs qs s' \<longleftrightarrow> pt_inv lo \<lparr>phys = phys s', frames = fa\<rparr> pt \<and> fa_inv lo (frames s')
     \<and> fend (frames s') = fend (frames s)
     \<and> fa_allocated lo (frames s') = fa_allocated lo (frames s) - set qs
     \<and> fa_free (frames s') = fa_free (frames s) \<union> set qs
     \<and> (\<forall>u. pt_lookup (phys s') pt u = (if take_bit 27 u \<in> take_bit 27 ` set vs then None else pt_lookup (phys s) pt u))
     \<and> (\<forall>x. pa2ppn x \<notin> set (fnode pt) \<longrightarrow> phys s' x = phys s x)"

lemma releasedD:
  assumes "released lo fa pt s vs qs s'"
  shows "pt_inv lo \<lparr>phys = phys s', frames = fa\<rparr> pt" and "fa_inv lo (frames s')"
    and "fend (frames s') = fend (frames s)"
    and "fa_allocated lo (frames s') = fa_allocated lo (frames s) - set qs"
    and "fa_free (frames s') = fa_free (frames s) \<union> set qs"
    and "\<And>u. pt_lookup (phys s') pt u = (if take_bit 27 u \<in> take_bit 27 ` set vs then None else pt_lookup (phys s) pt u)"
    and "\<And>x. pa2ppn x \<notin> set (fnode pt) \<Longrightarrow> phys s' x = phys s x"
  using assms unfolding released_def by blast+

lemma released_Nil:
  "pt_inv lo \<lparr>phys = phys s, frames = fa\<rparr> pt \<Longrightarrow> fa_inv lo (frames s) \<Longrightarrow> released lo fa pt s [] [] s"
  by (simp add: released_def)

lemma released_append:
  assumes 1: "released lo fa pt s vs qs s1" and 2: "released lo fa pt s1 ws rs s2"
  shows "released lo fa pt s (vs @ ws) (qs @ rs) s2"
  using releasedD [OF 1] releasedD [OF 2] by (auto simp: released_def)

lemma unmap_released:
  assumes inv: "pt_inv lo \<lparr>phys = phys s, frames = fa\<rparr> pt" and fi: "fa_inv lo (frames s)"
    and old: "pt_lookup (phys s) pt v \<noteq> None"
  shows "\<exists>s'. unmap_page s pt v = Ok (s', pt) \<and> released lo fa pt s [v] [] s'"
proof -
  obtain m where m: "unmap_page s pt v = Ok (s\<lparr>phys := m\<rparr>, pt)" "pt_inv lo \<lparr>phys = m, frames = fa\<rparr> pt"
    "\<And>u. pt_lookup m pt u = (if take_bit 27 u = take_bit 27 v then None else pt_lookup (phys s) pt u)"
    "\<And>x. pa2ppn x \<notin> set (fnode pt) \<Longrightarrow> m x = phys s x"
    using unmap_page_present [OF inv old] by blast
  have "released lo fa pt s [v] [] (s\<lparr>phys := m\<rparr>)" using m(2,4) fi by (simp add: released_def m(3))
  then show ?thesis using m(1) by blast
qed

lemma ma_unmap_one_framed:
  assumes inv: "pt_inv lo \<lparr>phys = phys s, frames = fa\<rparr> pt" and fi: "fa_inv lo (frames s)"
    and old: "pt_lookup (phys s) pt v \<noteq> None" and a: "map_type a = Framed" "dataframe a = \<lparr>vp_vpn = v, vp_ppn = q\<rparr> # ns"
    and q: "q \<in> fa_allocated lo (frames s)"
  shows "\<exists>s' a'. ma_unmap_one s a pt v = Ok (s', a', pt) \<and> released lo fa pt s [v] [q] s'
    \<and> map_type a' = Framed \<and> dataframe a' = ns"
proof -
  obtain fa1 where d: "frame_dealloc (frames s) q = Ok fa1" "fa_inv lo fa1" "fend fa1 = fend (frames s)"
    "fa_allocated lo fa1 = fa_allocated lo (frames s) - {q}"
    using frame_dealloc_ok [OF fi q] by blast
  have fr: "fa_free fa1 = fa_free (frames s) \<union> {q}" using pf.dealloc_ok [OF fi q] d(1) by auto
  obtain s' where u: "unmap_page (s\<lparr>frames := fa1\<rparr>) pt v = Ok (s', pt)" "released lo fa pt (s\<lparr>frames := fa1\<rparr>) [v] [] s'"
    using unmap_released [of lo "s\<lparr>frames := fa1\<rparr>" fa pt v] inv old d(2) by auto
  have "released lo fa pt s [v] [q] s'" using releasedD [OF u(2)] d(3,4) fr by (auto simp: released_def)
  then show ?thesis using d(1) u(1) a by (auto simp: ma_unmap_one_def vpmap_remove_def)
qed

lemma ma_unmap_loop_framed:
  assumes "pt_inv lo \<lparr>phys = phys s, frames = fa\<rparr> pt" and "fa_inv lo (frames s)" and "map_type a = Framed"
    and "dataframe a = framed (vpns v e) qs" and "length qs = length (vpns v e)" and "apart (vpns v e)"
    and "\<forall>u \<in> set (vpns v e). pt_lookup (phys s) pt u \<noteq> None"
    and "distinct qs" and "set qs \<subseteq> fa_allocated lo (frames s)"
  shows "\<exists>s' a'. ma_unmap_loop s a pt v e = Ok (s', a', pt) \<and> released lo fa pt s (vpns v e) qs s'"
  using assms
proof (induction "unat e - unat v" arbitrary: s v a qs)
  case 0
  then have "\<not> v < e" by (simp add: word_less_nat_alt)
  then show ?case using released_Nil [OF "0.prems"(1,2)] "0.prems"(5) by (simp add: ma_unmap_loop.simps [of s] vpns_none)
next
  case (Suc n)
  then have less: "v < e" by (simp add: word_less_nat_alt)
  have step: "vpns v e = v # vpns (v + 1) e" using vpns_step [OF less] .
  have cnt: "n = unat e - unat (v + 1)" using Suc.hyps(2) word_succ_less [OF less] by simp
  obtain q qs' where q: "qs = q # qs'" using Suc.prems(5) step by (cases qs) auto
  have df: "dataframe a = \<lparr>vp_vpn = v, vp_ppn = q\<rparr> # framed (vpns (v + 1) e) qs'"
    using Suc.prems(4) step q by (simp add: framed_def)
  obtain s1 a1 where one: "ma_unmap_one s a pt v = Ok (s1, a1, pt)" "released lo fa pt s [v] [q] s1"
    "map_type a1 = Framed" "dataframe a1 = framed (vpns (v + 1) e) qs'"
    using ma_unmap_one_framed [OF Suc.prems(1,2) _ Suc.prems(3) df] Suc.prems(7,9) step q by auto
  note d = releasedD [OF one(2)]
  have ap: "apart (vpns (v + 1) e)" and away: "take_bit 27 v \<notin> take_bit 27 ` set (vpns (v + 1) e)"
    using Suc.prems(6) step by (simp_all add: apart_Cons)
  have look: "pt_lookup (phys s1) pt u \<noteq> None" if u: "u \<in> set (vpns (v + 1) e)" for u
    using d(6) [of u] Suc.prems(7) step u away by (auto simp: image_iff)
  have l: "length qs' = length (vpns (v + 1) e)" using Suc.prems(5) step q by simp
  have sub: "set qs' \<subseteq> fa_allocated lo (frames s1)" using Suc.prems(8,9) d(4) q by auto
  obtain s' a' where r: "ma_unmap_loop s1 a1 pt (v + 1) e = Ok (s', a', pt)" "released lo fa pt s1 (vpns (v + 1) e) qs' s'"
    using Suc.hyps(1) [OF cnt d(1,2) one(3,4) l ap _ _ sub] look Suc.prems(8) q by auto
  have "ma_unmap_loop s a pt v e = Ok (s', a', pt)" using less one(1) r(1) by (simp add: ma_unmap_loop.simps [of s])
  moreover have "released lo fa pt s (vpns v e) qs s'" using released_append [OF one(2) r(2)] by (simp add: step q)
  ultimately show ?case by blast
qed

lemma ma_unmap_loop_identical:
  assumes "pt_inv lo \<lparr>phys = phys s, frames = fa\<rparr> pt" and "fa_inv lo (frames s)" and "map_type a = Identical"
    and "apart (vpns v e)" and "\<forall>u \<in> set (vpns v e). pt_lookup (phys s) pt u \<noteq> None"
  shows "\<exists>s'. ma_unmap_loop s a pt v e = Ok (s', a, pt) \<and> released lo fa pt s (vpns v e) [] s'"
  using assms
proof (induction "unat e - unat v" arbitrary: s v)
  case 0
  then have "\<not> v < e" by (simp add: word_less_nat_alt)
  then show ?case using released_Nil [OF "0.prems"(1,2)] by (simp add: ma_unmap_loop.simps [of s] vpns_none)
next
  case (Suc n)
  then have less: "v < e" by (simp add: word_less_nat_alt)
  have step: "vpns v e = v # vpns (v + 1) e" using vpns_step [OF less] .
  have cnt: "n = unat e - unat (v + 1)" using Suc.hyps(2) word_succ_less [OF less] by simp
  obtain s1 where one: "unmap_page s pt v = Ok (s1, pt)" "released lo fa pt s [v] [] s1"
    using unmap_released [OF Suc.prems(1,2), of v] Suc.prems(5) step by auto
  note d = releasedD [OF one(2)]
  have ap: "apart (vpns (v + 1) e)" and away: "take_bit 27 v \<notin> take_bit 27 ` set (vpns (v + 1) e)"
    using Suc.prems(4) step by (simp_all add: apart_Cons)
  have look: "pt_lookup (phys s1) pt u \<noteq> None" if u: "u \<in> set (vpns (v + 1) e)" for u
    using d(6) [of u] Suc.prems(5) step u away by (auto simp: image_iff)
  obtain s' where r: "ma_unmap_loop s1 a pt (v + 1) e = Ok (s', a, pt)" "released lo fa pt s1 (vpns (v + 1) e) [] s'"
    using Suc.hyps(1) [OF cnt d(1,2) Suc.prems(3) ap] look by auto
  have "ma_unmap_loop s a pt v e = Ok (s', a, pt)"
    using less one(1) r(1) Suc.prems(3) by (simp add: ma_unmap_loop.simps [of s] ma_unmap_one_def)
  moreover have "released lo fa pt s (vpns v e) [] s'" using released_append [OF one(2) r(2)] by (simp add: step)
  ultimately show ?case by blast
qed

lemma framed_self: "framed (map vp_vpn ns) (map vp_ppn ns) = ns"
  by (induction ns) (simp_all add: framed_def)

lemma area_framed:
  "area_inv m pt a \<Longrightarrow> map_type a = Framed \<Longrightarrow> dataframe a = framed (area_pages a) (area_frames a)"
  using framed_self [of "dataframe a"] by (simp add: area_inv_def area_frames_def)

lemma ma_unmap_ok:
  assumes inv: "pt_inv lo \<lparr>phys = phys s, frames = fa\<rparr> pt" and fi: "fa_inv lo (frames s)"
    and a: "area_inv (phys s) pt a" and ap: "apart (area_pages a)"
    and fr: "distinct (area_frames a)" "set (area_frames a) \<subseteq> fa_allocated lo (frames s)"
  shows "\<exists>s' a'. ma_unmap s a pt = Ok (s', a', pt) \<and> released lo fa pt s (area_pages a) (area_frames a) s'"
proof -
  have look: "\<forall>u \<in> set (vpns (vm_start a) (vm_end a)). pt_lookup (phys s) pt u \<noteq> None"
    using area_inv_mapped [OF a] unfolding area_pages_def by blast
  consider (f) "map_type a = Framed" | (i) "map_type a = Identical"
    using a by (auto simp: area_inv_def split: MapType.splits)
  then show ?thesis
  proof cases
    case f
    have l: "length (area_frames a) = length (area_pages a)"
      using list_all2_lengthD [OF area_inv_frames [OF a f]] by simp
    show ?thesis
      using ma_unmap_loop_framed [OF inv fi f area_framed [OF a f, unfolded area_pages_def] l [unfolded area_pages_def]
          ap [unfolded area_pages_def] look fr] by (simp add: ma_unmap_def area_pages_def)
  next
    case i
    have "area_frames a = []" using a i by (simp add: area_inv_def area_frames_def)
    then show ?thesis
      using ma_unmap_loop_identical [OF inv fi i ap [unfolded area_pages_def] look] by (auto simp: ma_unmap_def area_pages_def)
  qed
qed

definition frames_of :: "MapArea list \<Rightarrow> ppn list" where
  "frames_of as = concat (map area_frames as)"

lemma frames_of_simps [simp]: "frames_of [] = []" "frames_of (b # bs) = area_frames b @ frames_of bs"
  by (simp_all add: frames_of_def)

lemma ms_ma_free_loop_ok:
  assumes "pt_inv lo \<lparr>phys = phys s, frames = fa\<rparr> pt" and "fa_inv lo (frames s)"
    and "\<forall>a \<in> set as. area_inv (phys s) pt a" and "apart (pages_of as)"
    and "distinct (frames_of as)" and "set (frames_of as) \<subseteq> fa_allocated lo (frames s)"
  shows "\<exists>s'. ms_ma_free_loop as s pt = Ok (s', pt) \<and> released lo fa pt s (pages_of as) (frames_of as) s'"
  using assms
proof (induction as arbitrary: s)
  case Nil
  then show ?case using released_Nil by simp
next
  case (Cons a as)
  obtain s1 a1 where 1: "ma_unmap s a pt = Ok (s1, a1, pt)" "released lo fa pt s (area_pages a) (area_frames a) s1"
    using ma_unmap_ok [OF Cons.prems(1,2), of a] Cons.prems(3-6) by (auto simp: apart_append)
  note d = releasedD [OF 1(2)]
  have away: "take_bit 27 u \<notin> take_bit 27 ` set (area_pages a)" if "b \<in> set as" "u \<in> set (area_pages b)" for b u
    using Cons.prems(4) that by (auto simp: apart_append pages_of_def)
  have inv1: "\<forall>b \<in> set as. area_inv (phys s1) pt b"
    using Cons.prems(3) away d(6) by (auto intro!: area_inv_cong [of "phys s" pt _ "phys s1"])
  have sub: "set (frames_of as) \<subseteq> fa_allocated lo (frames s1)" using Cons.prems(5,6) d(4) by auto
  have ap: "apart (pages_of as)" "distinct (frames_of as)" using Cons.prems(4,5) by (simp_all add: apart_append)
  obtain s' where r: "ms_ma_free_loop as s1 pt = Ok (s', pt)" "released lo fa pt s1 (pages_of as) (frames_of as) s'"
    using Cons.IH [OF d(1,2) inv1 ap sub] by blast
  then show ?case using 1(1) released_append [OF 1(2) r(2)] by auto
qed

lemma ms_frames_of: "ms_frames ms = frames_of (areas ms)"
  by (simp add: ms_frames_def frames_of_def)

lemma ms_ma_free_ok:
  assumes inv: "ms_inv lo s ms"
  shows "\<exists>s'. ms_ma_free s ms = Ok (s', ms\<lparr>areas := []\<rparr>) \<and> ms_inv lo s' (ms\<lparr>areas := []\<rparr>)
    \<and> released lo (frames s) (page_table ms) s (ms_pages ms) (ms_frames ms) s'"
proof -
  note i = ms_invD [OF inv]
  have pt: "pt_inv lo \<lparr>phys = phys s, frames = frames s\<rparr> (page_table ms)" using i(1) by (cases s) simp
  obtain s' where r: "ms_ma_free_loop (areas ms) s (page_table ms) = Ok (s', page_table ms)"
    "released lo (frames s) (page_table ms) s (ms_pages ms) (ms_frames ms) s'"
    using ms_ma_free_loop_ok [OF pt pt_inv_tables(3) [OF i(1)] _ i(3) [unfolded ms_pages_of] i(4,5) [unfolded ms_frames_of]] i(2)
    by (auto simp: ms_frames_of ms_pages_of)
  note d = releasedD [OF r(2)]
  have "set (fnode (page_table ms)) \<subseteq> fa_allocated lo (frames s')" using d(4) pt_inv_tables(2) [OF i(1)] i(6) by blast
  then have "pt_inv lo \<lparr>phys = phys s', frames = frames s'\<rparr> (page_table ms)"
    using pt_inv_frames [OF d(1) d(2), of "phys s'"] d(3) fend_small [OF i(1)] by simp
  then have "pt_inv lo s' (page_table ms)" by (cases s') simp
  then have "ms_inv lo s' (ms\<lparr>areas := []\<rparr>)" by (simp add: ms_inv_def ms_pages_def ms_frames_def apart_def)
  moreover have "ms\<lparr>page_table := page_table ms, areas := []\<rparr> = ms\<lparr>areas := []\<rparr>" by simp
  ultimately show ?thesis using r by (simp add: ms_ma_free_def)
qed

lemma ms_free_ok:
  assumes inv: "ms_inv lo s ms"
  shows "\<exists>s' ms'. ms_free s ms = Ok (s', ms') \<and> fa_inv lo (frames s')
    \<and> fa_allocated lo (frames s') = fa_allocated lo (frames s) - (set (fnode (page_table ms)) \<union> set (ms_frames ms))
    \<and> fa_free (frames s') = fa_free (frames s) \<union> (set (fnode (page_table ms)) \<union> set (ms_frames ms))
    \<and> (\<forall>x. pa2ppn x \<notin> set (fnode (page_table ms)) \<longrightarrow> phys s' x = phys s x)"
proof -
  note i = ms_invD [OF inv]
  obtain s1 where 1: "pt_free s (page_table ms) = Ok s1" "phys s1 = phys s" "fa_inv lo (frames s1)"
    "fa_allocated lo (frames s1) = fa_allocated lo (frames s) - set (fnode (page_table ms))"
    "fa_free (frames s1) = fa_free (frames s) \<union> set (fnode (page_table ms))"
    using pt_free_ok [OF i(1)] by blast
  have pt: "pt_inv lo \<lparr>phys = phys s1, frames = frames s\<rparr> (page_table ms)" using i(1) 1(2) by (cases s) simp
  have sub: "set (frames_of (areas ms)) \<subseteq> fa_allocated lo (frames s1)" using i(5,6) 1(4) by (auto simp: ms_frames_of)
  obtain s' where r: "ms_ma_free_loop (areas ms) s1 (page_table ms) = Ok (s', page_table ms)"
    "released lo (frames s) (page_table ms) s1 (ms_pages ms) (ms_frames ms) s'"
    using ms_ma_free_loop_ok [OF pt 1(3) _ i(3) [unfolded ms_pages_of] i(4) [unfolded ms_frames_of] sub] i(2) 1(2)
    by (auto simp: ms_frames_of ms_pages_of)
  note d = releasedD [OF r(2)]
  have "ms_free s ms = Ok (s', ms\<lparr>page_table := page_table ms, areas := []\<rparr>)"
    using 1(1) r(1) by (simp add: ms_free_def ms_ma_free_def)
  then show ?thesis using d(2,4,5,7) 1(2,4,5) by auto
qed

end
