(* ===== verification/Address_Space.thy ===== *)
theory Address_Space
  imports Memory_Set
begin

text \<open>
  The properties of address spaces: the copy that \<^verbatim>\<open>fork\<close> makes, the release of a space, the
  growth by \<^verbatim>\<open>brk\<close> and the loading of ELF segments. The library they
  rest on (\<open>mapped\<close>, \<open>ms_grown\<close>, \<open>released\<close>, \<open>ms_inv\<close>) is in \<open>Memory_Set\<close>.
\<close>

section \<open>Page numbers of addresses\<close>

lemma unat_va_floor: "unat (va_floor x) = unat x div 4096"
  by (simp add: va_floor_def pa_floor_def PAGE_SIZE_def unat_div)

lemma unat_va_ceil:
  assumes "unat x + 4095 < 2 ^ 64"
  shows "unat (va_ceil x) = (unat x + 4095) div 4096"
proof -
  have "unat (x + 4095) = unat x + 4095" using assms by (subst unat_word_ariths) simp
  then have "unat (x + PAGE_SIZE - 1) = unat x + 4095" by (simp add: PAGE_SIZE_def add.commute)
  moreover have "unat PAGE_SIZE = 4096" by (simp add: PAGE_SIZE_def)
  ultimately show ?thesis by (simp add: va_ceil_def pa_ceil_def unat_div)
qed

lemma unat_add_u64: "unat x + unat y < 2 ^ 64 \<Longrightarrow> unat (x + y :: u64) = unat x + unat y"
  by (subst unat_word_ariths) simp

lemma unat_get_offset: "unat (get_offset x) = unat x mod 4096"
  by (simp add: get_offset_mask take_bit_eq_mod unat_mod)

text \<open>Fewer pages in a row than a table tree has entries never share one.\<close>

lemma apart_vpns:
  assumes "unat e - unat v \<le> 2 ^ 27"
  shows "apart (vpns v e)"
proof -
  have "inj_on (take_bit 27) {v..<e}"
  proof (rule inj_onI)
    fix x y :: u64
    assume x: "x \<in> {v..<e}" and y: "y \<in> {v..<e}" and eq: "take_bit 27 x = take_bit 27 y"
    have "unat (take_bit 27 x) = unat (take_bit 27 y)" using eq by simp
    then have m: "unat x mod 2 ^ 27 = unat y mod 2 ^ 27" by (simp add: take_bit_eq_mod unat_mod)
    have b: "unat v \<le> unat x" "unat x < unat e" "unat v \<le> unat y" "unat y < unat e"
      using x y by (simp_all add: word_le_nat_alt word_less_nat_alt)
    have "unat x = unat y"
    proof (rule ccontr)
      assume ne: "unat x \<noteq> unat y"
      have "2 ^ 27 dvd (max (unat x) (unat y) - min (unat x) (unat y))"
        using m by (metis max_def min_def mod_eq_dvd_iff_nat nat_le_linear)
      moreover have "0 < max (unat x) (unat y) - min (unat x) (unat y)" using ne by auto
      moreover have "max (unat x) (unat y) - min (unat x) (unat y) < 2 ^ 27" using b assms by auto
      ultimately show False using nat_dvd_not_less by blast
    qed
    then show "x = y" by (rule unsigned_word_eqI)
  qed
  moreover have "distinct (vpns v e)"
  proof -
    have "inj_on (of_nat :: nat \<Rightarrow> u64) {unat v..<unat e}"
      using unsigned_less [of e, where ?'a = nat] by (intro inj_onI) (auto simp: word_unat_eq_iff unat_of_nat)
    then show ?thesis by (simp add: vpns_def distinct_map)
  qed
  ultimately show ?thesis by (simp add: apart_def distinct_map set_vpns)
qed

section \<open>The copy for fork\<close>

lemma cloned_read:
  assumes c: "cloned m a m' ms (va2vpn va)"
    and sm: "\<forall>p \<in> set (ms_frames a). p < 2 ^ 44" "\<forall>q \<in> set (ms_frames ms). q < 2 ^ 44"
  shows "\<exists>pa pa'. va2pa m (page_table a) va = Ok pa \<and> va2pa m' (page_table ms) va = Ok pa'
    \<and> pa2ppn pa \<in> set (ms_frames a) \<and> pa2ppn pa' \<in> set (ms_frames ms) \<and> m' pa' = m pa"
proof -
  obtain p q fl where pq: "p \<in> set (ms_frames a)" "q \<in> set (ms_frames ms)"
    "pt_lookup m (page_table a) (va2vpn va) = Some (pte_new p fl)"
    "pt_lookup m' (page_table ms) (va2vpn va) = Some (pte_new q fl)" "same_bytes m p m' q"
    using c by (auto simp: cloned_def)
  let ?k = "unat (get_offset va)"
  have k: "?k < 4096" by (rule get_offset_less)
  have p44: "p < 2 ^ 44" and q44: "q < 2 ^ 44" using sm pq by auto
  have p: "p < 2 ^ 52" and q: "q < 2 ^ 52"
    using order.strict_trans [OF p44, of "2 ^ 52"] order.strict_trans [OF q44, of "2 ^ 52"] by simp_all
  have "va2pa m (page_table a) va = Ok (ppn2pa p + of_nat ?k)" "va2pa m' (page_table ms) va = Ok (ppn2pa q + of_nat ?k)"
    using va2pa_mapped [OF pq(3)] va2pa_mapped [OF pq(4)]
    unfolding pte_get_pa_def pte_new_ppn [OF p44] pte_new_ppn [OF q44] or_offset_add by simp_all
  moreover have "m' (ppn2pa q + of_nat ?k) = m (ppn2pa p + of_nat ?k)" using pq(5) k unfolding same_bytes_def by blast
  ultimately show ?thesis using byte_page(1) [OF p k] byte_page(1) [OF q k] pq(1,2) by auto
qed

lemma ms_frames_44: "ms_inv lo s ms \<Longrightarrow> \<forall>p \<in> set (ms_frames ms). p < 2 ^ 44"
  using frame_small(1) [OF ms_invD(1) disjI2] ms_invD(5) by blast

text \<open>\<^verbatim>\<open>from_existed_user\<close>, the copy of an address space for \<^verbatim>\<open>fork\<close>, with enough free pages:
  the child has the areas of the parent; every address of them is mapped in both, in the child to a
  page that was free, with the same byte; the child translates nothing else but the trampoline;
  the parent, and every page in use, is as it was; exactly the child's pages are taken.\<close>

theorem fork_copies_space:
  assumes "ms_inv lo s a" and "\<forall>b \<in> set (areas a). map_type b = Framed"
    and "3 * length (ms_pages a) + 4 \<le> card (fa_free (frames s))"
    and "take_bit 27 (va2vpn TRAMPOLINE) \<notin> take_bit 27 ` set (ms_pages a)"
  shows "\<exists>s' ms. from_existed_user s a st = Ok (s', ms) \<and> ms_inv lo s' ms \<and> ms_inv lo s' a
    \<and> map from_another (areas ms) = map from_another (areas a)
    \<and> (\<forall>va. va2vpn va \<in> set (ms_pages a) \<longrightarrow> (\<exists>pa pa'. va2pa (phys s) (page_table a) va = Ok pa
          \<and> va2pa (phys s') (page_table ms) va = Ok pa' \<and> pa2ppn pa' \<in> fa_free (frames s) \<and> phys s' pa' = phys s pa))
    \<and> (\<forall>u. take_bit 27 u \<notin> take_bit 27 ` set (va2vpn TRAMPOLINE # ms_pages a) \<longrightarrow> pt_lookup (phys s') (page_table ms) u = None)
    \<and> pt_lookup (phys s') (page_table ms) (va2vpn TRAMPOLINE) = Some (pte_new (pa2ppn st) (PTE_R OR PTE_X OR PTE_V))
    \<and> fa_allocated lo (frames s') = fa_allocated lo (frames s) \<union> set (ms_frames ms) \<union> set (fnode (page_table ms))
    \<and> (\<forall>x. pa2ppn x \<notin> fa_free (frames s) \<longrightarrow> phys s' x = phys s x)"
proof -
  obtain s' ms where r: "from_existed_user s a st = Ok (s', ms)" "ms_inv lo s' ms" "ms_inv lo s' a"
    "map from_another (areas ms) = map from_another (areas a)"
    "\<forall>v \<in> set (ms_pages a). cloned (phys s) a (phys s') ms v"
    "pt_lookup (phys s') (page_table ms) (va2vpn TRAMPOLINE) = Some (pte_new (pa2ppn st) (PTE_R OR PTE_X OR PTE_V))"
    "\<forall>u. take_bit 27 u \<notin> take_bit 27 ` set (va2vpn TRAMPOLINE # ms_pages a) \<longrightarrow> pt_lookup (phys s') (page_table ms) u = None"
    "set (ms_frames ms) \<union> set (fnode (page_table ms)) \<subseteq> fa_free (frames s)"
    "fa_allocated lo (frames s') = fa_allocated lo (frames s) \<union> set (ms_frames ms) \<union> set (fnode (page_table ms))"
    "\<forall>x. pa2ppn x \<notin> fa_free (frames s) \<longrightarrow> phys s' x = phys s x"
    using from_existed_user_ok [OF assms, of st] by blast
  have "\<exists>pa pa'. va2pa (phys s) (page_table a) va = Ok pa \<and> va2pa (phys s') (page_table ms) va = Ok pa'
      \<and> pa2ppn pa' \<in> fa_free (frames s) \<and> phys s' pa' = phys s pa" if "va2vpn va \<in> set (ms_pages a)" for va
    using cloned_read [OF bspec [OF r(5) that] ms_frames_44 [OF assms(1)] ms_frames_44 [OF r(2)]] r(8) by blast
  then show ?thesis using r(1-4,6,7,9,10) by blast
qed

text \<open>A space with one area, as \<^verbatim>\<open>ms_init\<close> and \<^verbatim>\<open>ms_push\<close> make it, to apply the properties to.\<close>

definition fa_60 :: FrameAllocator where
  "fa_60 = \<lparr>fcurrent = 2, fend = 62, recycled = \<lparr>heapArray = replicate 60 0, CurrentSize = 0, MaxSize = 60\<rparr>\<rparr>"

lemma fa_60_inv: "fa_inv 2 fa_60" "card (fa_free fa_60) = 60" "fend fa_60 \<le> 2 ^ 44"
  by (simp_all add: fa_inv_def fa_60_def heap_wf_def heap_ordered_def fa_free_def card_word_interval)

lemma ex_pages: "area_pages (ma_new 0x1000 0x3000 Framed VM_R) = [1, 2]"
  by (simp add: area_pages_def ma_new_def va_floor_def va_ceil_def pa_floor_def pa_ceil_def PAGE_SIZE_def vpns_def upt_rec)

lemma tramp_vpn: "va2vpn TRAMPOLINE = 0xfffffffffffff"
  by (simp add: va2vpn_def pa2ppn_def pa_floor_def TRAMPOLINE_def ULONG_MAX_def PAGE_SIZE_def)

lemma ex_space_mem:
  "\<exists>s a. ms_inv 2 s a \<and> ms_pages a = [1, 2] \<and> (\<forall>b \<in> set (areas a). map_type b = Framed)
    \<and> 50 \<le> card (fa_free (frames s)) \<and> (\<forall>u. take_bit 27 u \<notin> {1, 2, 0x7ffffff} \<longrightarrow> pt_lookup (phys s) (page_table a) u = None)
    \<and> (\<forall>x. pa2ppn x \<notin> {2..<62} \<longrightarrow> phys s x = m x) \<and> fa_free (frames s) \<union> set (fnode (page_table a)) \<subseteq> {2..<62}"
proof -
  let ?s = "\<lparr>phys = m, frames = fa_60\<rparr>" and ?a = "ma_new 0x1000 0x3000 Framed VM_R"
  have T: "take_bit 27 (va2vpn TRAMPOLINE) = 0x7ffffff" by (simp add: tramp_vpn)
  have F: "fa_free fa_60 = {2..<62}" by (simp add: fa_free_def fa_60_def)
  have "4 \<le> card (fa_free (frames ?s))" using fa_60_inv(2) by simp
  then obtain s1 ms1 where 1: "ms_inv 2 s1 ms1" "areas ms1 = []"
    "\<And>u. take_bit 27 u \<noteq> take_bit 27 (va2vpn TRAMPOLINE) \<Longrightarrow> pt_lookup (phys s1) (page_table ms1) u = None"
    "card (fa_free (frames ?s)) \<le> card (fa_free (frames s1)) + 4"
    "set (fnode (page_table ms1)) \<subseteq> fa_free (frames ?s)" "fa_free (frames s1) \<subseteq> fa_free (frames ?s)"
    "\<And>x. pa2ppn x \<notin> fa_free (frames ?s) \<Longrightarrow> phys s1 x = phys ?s x"
    using new_space_ok [of 2 ?s] fa_60_inv(1,3) by (metis kmem.select_convs(2))
  have c1: "56 \<le> card (fa_free (frames s1))" using 1(4) fa_60_inv(2) by simp
  have push: "pushable s1 ms1 ?a"
    using c1 1(3) by (simp add: pushable_def ex_pages apart_def T)
  have t: "map_type ?a = Framed" by (simp add: ma_new_def)
  obtain s2 ms2 qs where 2: "ms_grown 2 s1 ms1 [1, 2] s2 ms2" "areas ms2 = [?a\<lparr>dataframe := framed [1, 2] qs\<rparr>]"
    using ms_push_framed [OF 1(1) t push, of 0] 1(2) unfolding ex_pages by auto
  note d = ms_grownD [OF 2(1)]
  have pg: "ms_pages ms2 = [1, 2]" using ex_pages by (simp add: ms_pages_def 2(2) area_pages_def)
  have fr: "\<forall>b \<in> set (areas ms2). map_type b = Framed" by (simp add: 2(2) ma_new_def)
  have c: "50 \<le> card (fa_free (frames s2))" using d(8) c1 by simp
  have look: "pt_lookup (phys s2) (page_table ms2) u = None" if "take_bit 27 u \<notin> {1, 2, 0x7ffffff}" for u
    using d(9) [of u] 1(3) [of u] that T by simp
  have sub: "set (fnode (page_table ms1)) \<union> fa_free (frames s1) \<subseteq> {2..<62}" using 1(5,6) F by simp
  have mem: "phys s2 x = m x" if x: "pa2ppn x \<notin> {2..<62}" for x
  proof -
    have "pa2ppn x \<notin> set (fnode (page_table ms1)) \<union> fa_free (frames s1)" using x sub by blast
    then show ?thesis using d(10) [of x] 1(7) [of x] x F by simp
  qed
  have "fa_free (frames s2) \<union> set (fnode (page_table ms2)) \<subseteq> {2..<62}" using d(3,7) 1(5,6) F by auto
  then show ?thesis using d(1) pg fr c look mem by blast
qed

lemma ex_space:
  "\<exists>s a. ms_inv 2 s a \<and> ms_pages a = [1, 2] \<and> (\<forall>b \<in> set (areas a). map_type b = Framed)
    \<and> 50 \<le> card (fa_free (frames s)) \<and> (\<forall>u. take_bit 27 u \<notin> {1, 2, 0x7ffffff} \<longrightarrow> pt_lookup (phys s) (page_table a) u = None)"
  using ex_space_mem [of "\<lambda>_. 7"] by blast

theorem fork_copies_space_witness:
  "\<exists>s a s' ms. ms_inv 2 s a \<and> ms_pages a = [1, 2] \<and> from_existed_user s a 0x80200000 = Ok (s', ms) \<and> ms_inv 2 s' ms
    \<and> (\<exists>pa pa'. va2pa (phys s) (page_table a) 0x1234 = Ok pa \<and> va2pa (phys s') (page_table ms) 0x1234 = Ok pa'
         \<and> phys s' pa' = phys s pa)"
proof -
  obtain s a where a: "ms_inv 2 s a" "ms_pages a = [1, 2]" "\<forall>b \<in> set (areas a). map_type b = Framed"
    "50 \<le> card (fa_free (frames s))"
    using ex_space by blast
  have v: "va2vpn 0x1234 \<in> set (ms_pages a)" by (simp add: a(2) va2vpn_def pa2ppn_def pa_floor_def PAGE_SIZE_def)
  have h: "3 * length (ms_pages a) + 4 \<le> card (fa_free (frames s))"
    "take_bit 27 (va2vpn TRAMPOLINE) \<notin> take_bit 27 ` set (ms_pages a)"
    using a(2,4) by (simp_all add: tramp_vpn)
  show ?thesis using fork_copies_space [OF a(1,3) h, of "0x80200000"] v a(1,2) by blast
qed

section \<open>Release\<close>

text \<open>C27: The release of an address space: \<^verbatim>\<open>ms_ma_free\<close>, which \<^verbatim>\<open>exit\<close> calls, gives back exactly the
  data frames, each once, unmaps exactly the pages of the areas and keeps the tables;
  \<^verbatim>\<open>ms_free\<close> gives back the tables and the data frames, although it frees the tables first and
  walks them afterwards. Neither ever panics, and no byte outside the tables changes.\<close>

theorem ms_release_frames:
  assumes "ms_inv lo s ms"
  shows "(\<exists>s'. ms_ma_free s ms = Ok (s', ms\<lparr>areas := []\<rparr>) \<and> ms_inv lo s' (ms\<lparr>areas := []\<rparr>)
      \<and> fa_allocated lo (frames s') = fa_allocated lo (frames s) - set (ms_frames ms)
      \<and> fa_free (frames s') = fa_free (frames s) \<union> set (ms_frames ms)
      \<and> pt_lookup (phys s') (page_table ms) = (\<lambda>u. if take_bit 27 u \<in> take_bit 27 ` set (ms_pages ms) then None
           else pt_lookup (phys s) (page_table ms) u)
      \<and> (\<forall>x. pa2ppn x \<notin> set (fnode (page_table ms)) \<longrightarrow> phys s' x = phys s x))
    \<and> (\<exists>s' ms'. ms_free s ms = Ok (s', ms') \<and> fa_inv lo (frames s')
      \<and> fa_allocated lo (frames s') = fa_allocated lo (frames s) - (set (fnode (page_table ms)) \<union> set (ms_frames ms))
      \<and> fa_free (frames s') = fa_free (frames s) \<union> (set (fnode (page_table ms)) \<union> set (ms_frames ms))
      \<and> (\<forall>x. pa2ppn x \<notin> set (fnode (page_table ms)) \<longrightarrow> phys s' x = phys s x))"
proof -
  obtain s' where r: "ms_ma_free s ms = Ok (s', ms\<lparr>areas := []\<rparr>)" "ms_inv lo s' (ms\<lparr>areas := []\<rparr>)"
    "released lo (frames s) (page_table ms) s (ms_pages ms) (ms_frames ms) s'"
    using ms_ma_free_ok [OF assms] by blast
  have "pt_lookup (phys s') (page_table ms) = (\<lambda>u. if take_bit 27 u \<in> take_bit 27 ` set (ms_pages ms) then None
           else pt_lookup (phys s) (page_table ms) u)" using releasedD(6) [OF r(3)] by (rule ext)
  then show ?thesis using r releasedD(4,5,7) [OF r(3)] ms_free_ok [OF assms] by blast
qed

theorem ms_release_frames_witness:
  "\<exists>s ms s' ms'. ms_inv 2 s ms \<and> ms_pages ms = [1, 2] \<and> ms_free s ms = Ok (s', ms')
     \<and> fa_free (frames s') = fa_free (frames s) \<union> (set (fnode (page_table ms)) \<union> set (ms_frames ms))"
proof -
  obtain s ms where i: "ms_inv 2 s ms" "ms_pages ms = [1, 2]" using ex_space by blast
  then show ?thesis using ms_release_frames [OF i(1)] by blast
qed

section \<open>brk\<close>

lemma va_ceil_add:
  assumes "unat b + unat n + 4095 < 2 ^ 64"
  shows "unat (va_ceil (b + n)) = (unat b + unat n + 4095) div 4096" and "unat (va_floor (b + n)) = (unat b + unat n) div 4096"
proof -
  have a: "unat (b + n) = unat b + unat n" using assms by (intro unat_add_u64) simp
  show "unat (va_floor (b + n)) = (unat b + unat n) div 4096" by (simp add: unat_va_floor a)
  have "unat (b + n) + 4095 < 2 ^ 64" using assms a by simp
  then show "unat (va_ceil (b + n)) = (unat b + unat n + 4095) div 4096" using unat_va_ceil [of "b + n"] a by simp
qed

lemma ceil_arith:
  shows "(x::nat) mod 4096 = 0 \<Longrightarrow> (x + 4095) div 4096 = x div 4096"
    and "(x::nat) mod 4096 \<noteq> 0 \<Longrightarrow> (x + 4095) div 4096 = x div 4096 + 1"
proof -
  have x: "x + 4095 = x mod 4096 + 4095 + x div 4096 * 4096" by simp
  have d: "(x + 4095) div 4096 = x div 4096 + (x mod 4096 + 4095) div 4096"
    by (subst x) (rule div_mult_self1, simp)
  then show "x mod 4096 = 0 \<Longrightarrow> (x + 4095) div 4096 = x div 4096" by simp
  have "x mod 4096 < 4096" by simp
  then have "(x mod 4096 + 4095) div 4096 = 1" if "x mod 4096 \<noteq> 0" using that by (intro div_nat_eqI) auto
  then show "x mod 4096 \<noteq> 0 \<Longrightarrow> (x + 4095) div 4096 = x div 4096 + 1" using d by simp
qed

lemma va2pa_frame:
  assumes "pt_lookup m pt (va2vpn va) = Some (pte_new p fl)" and "p < 2 ^ 44"
  shows "\<exists>pa. va2pa m pt va = Ok pa \<and> pa2ppn pa = p"
proof -
  have p: "p < 2 ^ 52" using order.strict_trans [OF assms(2), of "2 ^ 52"] by simp
  have "va2pa m pt va = Ok (ppn2pa p + of_nat (unat (get_offset va)))"
    using va2pa_mapped [OF assms(1)] unfolding pte_get_pa_def pte_new_ppn [OF assms(2)] or_offset_add by simp
  then show ?thesis using byte_page(1) [OF p get_offset_less] by blast
qed

lemma va2vpn_range: "b \<le> va \<Longrightarrow> va < e \<Longrightarrow> unat e + 4095 < 2 ^ 64 \<Longrightarrow> va2vpn va \<in> set (vpns (va_floor b) (va_ceil e))"
proof -
  assume a: "b \<le> va" "va < e" "unat e + 4095 < 2 ^ 64"
  have "va2vpn va = va_floor va" by (simp add: va2vpn_def pa2ppn_def va_floor_def)
  moreover have "unat b div 4096 \<le> unat va div 4096" using a(1) by (intro div_le_mono) (simp add: word_le_nat_alt)
  moreover have "unat va div 4096 < (unat e + 4095) div 4096"
    using a(2) by (simp add: word_less_nat_alt)
  ultimately show ?thesis
    using unat_va_ceil [OF a(3)] by (simp add: set_vpns word_le_nat_alt word_less_nat_alt unat_va_floor)
qed

text \<open>An area whose first page is mapped already fails the assertion of \<^verbatim>\<open>map\<close>.\<close>

lemma ms_push_mapped:
  assumes inv: "ms_inv lo s ms" and free: "3 \<le> card (fa_free (frames s))"
    and a: "map_type a = Framed" "fresh_area a" "vm_start a < vm_end a"
    and old: "pt_lookup (phys s) (page_table ms) (vm_start a) \<noteq> None"
  shows "ms_push s ms a d sz = Fail Assert_failed"
proof -
  note i = ms_invD(1) [OF inv]
  have "fa_free (frames s) \<noteq> {}" using free by auto
  then obtain q fa where q: "frame_alloc (frames s) = Ok (q, fa)" "q \<in> fa_free (frames s)" "q \<notin> set (fnode (page_table ms))"
    "pt_inv lo \<lparr>phys = memset (phys s) (get_byte_array q) 0 PAGE_SIZE, frames = fa\<rparr> (page_table ms)"
    "fa_free fa = fa_free (frames s) - {q}"
    "\<And>x. memset (phys s) (get_byte_array q) 0 PAGE_SIZE x = (if pa2ppn x = q then 0 else phys s x)"
    using take_frame [OF i] by blast
  define s1 where "s1 = \<lparr>phys = memset (phys s) (get_byte_array q) 0 PAGE_SIZE, frames = fa\<rparr>"
  have "pt_lookup (phys s1) (page_table ms) (vm_start a) = pt_lookup (phys s) (page_table ms) (vm_start a)"
    using q(3,6) by (intro pt_lookup_stable [OF i]) (auto simp: s1_def)
  moreover have "2 \<le> card (fa_free (frames s1))" using free q(2,5) by (simp add: s1_def card_Diff_singleton)
  ultimately have "map_page s1 (page_table ms) (vm_start a) q (map_perm a) = Fail Assert_failed"
    using map_page_twice [of lo s1 "page_table ms" "vm_start a" q "map_perm a"] q(4) old by (simp add: s1_def)
  then have "ma_map_one s a (page_table ms) (vm_start a) = Fail Assert_failed"
    using a(1,2) q(1) by (simp add: ma_map_one_def vpmap_push_def fresh_area_def s1_def Let_def)
  then show ?thesis using a(3) by (simp add: ms_push_def ma_map_def ma_map_loop.simps [of s])
qed

definition brk_area :: "u64 \<Rightarrow> u64 \<Rightarrow> MapArea" where
  "brk_area b n = ma_new b (b + n) Framed (VM_R OR VM_U OR VM_X OR VM_W)"

lemma brk_area_fields:
  "map_type (brk_area b n) = Framed" "fresh_area (brk_area b n)" "vm_start (brk_area b n) = va_floor b"
  "vm_end (brk_area b n) = va_ceil (b + n)"
  by (simp_all add: brk_area_def) (simp_all add: ma_new_def)

text \<open>C29: \<^verbatim>\<open>brk\<close> from a base on a page boundary adds zeroed pages up to the new base and nothing else.
  When the new base is not on a page boundary, its page is mapped, and the next call that needs a
  further page starts with that page again: the assertion in \<^verbatim>\<open>map\<close> fails and the kernel panics.\<close>

theorem brk_second_growth_panics:
  assumes "ms_inv lo s ms" and "is_aligned b" and "\<not> is_aligned (b + n)" and "unat b + unat n + unat k + 4095 < 2 ^ 64"
    and "pushable s ms (brk_area b n)" and "3 * length (area_pages (brk_area b n)) + 3 \<le> card (fa_free (frames s))"
    and "va_ceil (b + n) < va_ceil (b + n + k)"
  shows "\<exists>s' ms'. brk s b ms n = Ok (s', b + n, ms') \<and> ms_inv lo s' ms'
    \<and> (\<forall>va. b \<le> va \<longrightarrow> va < b + n \<longrightarrow> (\<exists>pa. va2pa (phys s') (page_table ms') va = Ok pa
          \<and> pa2ppn pa \<in> fa_free (frames s) \<and> phys s' pa = 0))
    \<and> brk s' (b + n) ms' k = Fail Assert_failed"
proof -
  let ?a = "brk_area b n"
  have bn: "unat (b + n) = unat b + unat n" using assms(4) by (intro unat_add_u64) simp
  have al: "unat b mod 4096 = 0" and nal: "(unat b + unat n) mod 4096 \<noteq> 0"
    using assms(2,3) unat_get_offset [of b] unat_get_offset [of "b + n"] bn
    by (auto simp: is_aligned_def simp flip: unat_eq_zero)
  have c: "unat (va_ceil b) = unat b div 4096" "unat (va_ceil (b + n)) = (unat b + unat n) div 4096 + 1"
    "unat (va_floor b) = unat b div 4096" "unat (va_floor (b + n)) = (unat b + unat n) div 4096"
    using unat_va_ceil [of b] va_ceil_add [of b n] unat_va_floor [of b] assms(4) ceil_arith(1) [OF al] ceil_arith(2) [OF nal]
    by simp_all
  have n0: "n > 0" using al nal by (cases "n = 0") (simp_all add: word_neq_0_conv)
  have le: "unat b div 4096 \<le> (unat b + unat n) div 4096" by (intro div_le_mono) simp
  have ne: "va_ceil b \<noteq> va_ceil (b + n)" using c(1,2) le by auto
  obtain s' ms' qs where p: "ms_push s ms ?a 0 0 = Ok (s', ms')" "ms_grown lo s ms (area_pages ?a) s' ms'"
    "length qs = length (area_pages ?a)" "\<forall>x. pa2ppn x \<in> set qs \<longrightarrow> phys s' x = 0" "set qs \<subseteq> fa_free (frames s)"
    "list_all2 (\<lambda>v e. pt_lookup (phys s') (page_table ms') v = Some e) (area_pages ?a) (entries (map_perm ?a) qs)"
    using ms_push_framed [OF assms(1) brk_area_fields(1) assms(5), of 0] by blast
  have pages: "area_pages ?a = vpns (va_floor b) (va_ceil (b + n))" by (simp add: area_pages_def brk_area_fields)
  have look: "\<exists>q \<in> set qs. pt_lookup (phys s') (page_table ms') v = Some (pte_new q (map_perm ?a OR PTE_V))"
    if "v \<in> set (area_pages ?a)" for v
    using p(6) that by (fastforce simp: entries_def list_all2_conv_all_nth in_set_conv_nth)
  have run: "brk s b ms n = Ok (s', b + n, ms')" using n0 ne p(1) by (simp add: brk_def brk_area_def)
  have zero: "\<exists>pa. va2pa (phys s') (page_table ms') va = Ok pa \<and> pa2ppn pa \<in> fa_free (frames s) \<and> phys s' pa = 0"
    if "b \<le> va" "va < b + n" for va
  proof -
    have "va2vpn va \<in> set (area_pages ?a)" using va2vpn_range [OF that] assms(4) bn by (simp add: pages)
    then obtain q where q: "q \<in> set qs" "pt_lookup (phys s') (page_table ms') (va2vpn va) = Some (pte_new q (map_perm ?a OR PTE_V))"
      using look by blast
    have "q < 2 ^ 44" using frame_small(1) [OF ms_invD(1) [OF assms(1)]] p(5) q(1) by blast
    then obtain pa where "va2pa (phys s') (page_table ms') va = Ok pa" "pa2ppn pa = q" using va2pa_frame [OF q(2)] by blast
    then show ?thesis using p(4,5) q(1) by blast
  qed
  have "va_floor (b + n) \<in> set (area_pages ?a)"
    using c le by (simp add: pages set_vpns word_le_nat_alt word_less_nat_alt)
  then have old: "pt_lookup (phys s') (page_table ms') (va_floor (b + n)) \<noteq> None" using look by force
  have room: "3 \<le> card (fa_free (frames s'))" using ms_grownD(8) [OF p(2)] assms(6) by linarith
  have k1: "va_ceil (b + n) \<noteq> va_ceil (b + n + k)" using assms(7) by (rule less_imp_neq)
  then have k0: "k > 0" by (cases "k = 0") (simp_all add: word_neq_0_conv)
  have lt: "va_floor (b + n) < va_ceil (b + n + k)" using assms(7) c by (simp add: word_less_nat_alt)
  have "ms_push s' ms' (brk_area (b + n) k) 0 0 = Fail Assert_failed"
    using ms_push_mapped [OF ms_grownD(1) [OF p(2)] room brk_area_fields(1,2), of "b + n" k] old lt by (simp add: brk_area_fields)
  then have "brk s' (b + n) ms' k = Fail Assert_failed" using k0 k1 by (simp add: brk_def brk_area_def)
  then show ?thesis using run ms_grownD(1) [OF p(2)] zero by blast
qed

theorem brk_second_growth_panics_witness:
  "\<exists>s ms s' ms'. ms_inv 2 s ms \<and> brk s 0x5000 ms 100 = Ok (s', 0x5064, ms') \<and> ms_inv 2 s' ms'
     \<and> brk s' 0x5064 ms' 0x1000 = Fail Assert_failed"
proof -
  obtain s ms where i: "ms_inv 2 s ms" "50 \<le> card (fa_free (frames s))"
    "\<forall>u. take_bit 27 u \<notin> {1, 2, 0x7ffffff} \<longrightarrow> pt_lookup (phys s) (page_table ms) u = None"
    using ex_space by blast
  have pg: "area_pages (brk_area 0x5000 100) = [5]"
    by (simp add: area_pages_def brk_area_def ma_new_def va_floor_def va_ceil_def pa_floor_def pa_ceil_def PAGE_SIZE_def vpns_def)
  have push: "pushable s ms (brk_area 0x5000 100)"
    using i(2,3) by (simp add: pushable_def pg apart_def brk_area_fields)
  have al: "is_aligned 0x5000" "\<not> is_aligned (0x5000 + 100)" by (simp_all add: is_aligned_def get_offset_def PAGE_SIZE_def)
  have c: "va_ceil (0x5000 + 100) < va_ceil (0x5000 + 100 + 0x1000)" by (simp add: va_ceil_def pa_ceil_def PAGE_SIZE_def)
  have room: "3 * length (area_pages (brk_area 0x5000 100)) + 3 \<le> card (fa_free (frames s))" using i(2) by (simp add: pg)
  show ?thesis using brk_second_growth_panics [OF i(1) al _ push room c] i(1) by auto
qed

section \<open>Loading contents\<close>

text \<open>The copy of a whole page from an address that need not be on a page boundary.\<close>

lemma page_fill:
  assumes q: "q < 2 ^ 44" and d: "unat d + 4096 < 2 ^ 64"
  shows "memmove m (ppn2pa q) d (ucast PAGE_SIZE) x = (if pa2ppn x = q then m (d + get_offset x) else m x)"
proof -
  have q52: "q < 2 ^ 52" using order.strict_trans [OF q, of "2 ^ 52"] by simp
  have "unat q * 4096 + 4096 < 2 ^ 64" using q by (simp add: word_less_nat_alt)
  then have w: "memmove m (ppn2pa q) d (ucast PAGE_SIZE) = wbytes m (ppn2pa q) (rbytes m d 4096)"
    using memmove_wbytes [of "ppn2pa q" "ucast PAGE_SIZE" d m] d
    unfolding unat_ppn2pa [OF q52] by (simp add: PAGE_SIZE_def)
  show ?thesis
  proof (cases "pa2ppn x = q")
    case True
    let ?k = "unat (get_offset x)"
    have k: "?k < 4096" by (rule get_offset_less)
    have x: "x = ppn2pa q + of_nat ?k" using addr_in_page [OF True] .
    have "wbytes m (ppn2pa q) (rbytes m d 4096) (ppn2pa q + of_nat ?k) = m (d + of_nat ?k)"
      using k by (subst wbytes_in) simp_all
    then have "wbytes m (ppn2pa q) (rbytes m d 4096) x = m (d + get_offset x)" using x by simp
    then show ?thesis using True w by simp
  next
    case False
    then have "wbytes m (ppn2pa q) (rbytes m d 4096) x = m x"
      using byte_page(1) [OF q52] by (intro wbytes_out) auto
    then show ?thesis using False w by simp
  qed
qed

text \<open>Frame \<open>q\<close> of \<open>m'\<close> has the 4096 bytes at \<open>d\<close> of \<open>m\<close>.\<close>

definition filled :: "mem \<Rightarrow> u64 \<Rightarrow> mem \<Rightarrow> ppn \<Rightarrow> bool" where
  "filled m d m' q \<longleftrightarrow> (\<forall>x. pa2ppn x = q \<longrightarrow> m' x = m (d + get_offset x))"

text \<open>The addresses of the \<open>n\<close> pages of contents from \<open>d\<close> on.\<close>

definition chunks :: "u64 \<Rightarrow> nat \<Rightarrow> u64 list" where
  "chunks d n = map (\<lambda>i. d + of_nat (4096 * i)) [0..<n]"

lemma chunks_Suc: "chunks d (Suc n) = d # chunks (d + 4096) n"
  by (simp add: chunks_def upt_conv_Cons map_Suc_upt [symmetric] algebra_simps del: upt_Suc)

text \<open>The contents lie outside the frames that are filled.\<close>

definition source_ok :: "u64 \<Rightarrow> nat \<Rightarrow> ppn set \<Rightarrow> bool" where
  "source_ok d n P \<longleftrightarrow> unat d + 4096 * n < 2 ^ 64 \<and> (\<forall>i < 4096 * n. pa2ppn (d + of_nat i) \<notin> P)"

lemma source_step:
  assumes "source_ok d (Suc n) P"
  shows "unat d + 4096 < 2 ^ 64" and "source_ok (d + 4096) n P" and "\<And>x. pa2ppn (d + get_offset x) \<notin> P"
proof -
  have u: "unat d + 4096 * Suc n < 2 ^ 64" and p: "\<And>i. i < 4096 * Suc n \<Longrightarrow> pa2ppn (d + of_nat i) \<notin> P"
    using assms unfolding source_ok_def by blast+
  show d: "unat d + 4096 < 2 ^ 64" using u by simp
  have "unat (d + 4096) = unat d + 4096" using d by (subst unat_word_ariths) simp
  moreover have "pa2ppn (d + 4096 + of_nat i) \<notin> P" if "i < 4096 * n" for i
    using p [of "4096 + i"] that by (simp add: add.assoc)
  ultimately show "source_ok (d + 4096) n P" using u by (simp add: source_ok_def)
  show "pa2ppn (d + get_offset x) \<notin> P" for x using p [of "unat (get_offset x)"] get_offset_less [of x] by simp
qed

lemma push_data_ok:
  assumes "pt_inv lo \<lparr>phys = m, frames = fa\<rparr> pt"
    and "list_all2 (\<lambda>v q. \<exists>fl. pt_lookup m pt v = Some (pte_new q fl)) (vpns v e) qs"
    and "distinct qs" and "set qs \<inter> set (fnode pt) = {}" and "\<forall>q \<in> set qs. q < 2 ^ 44"
    and "source_ok (d + off) (length qs) (set qs)"
  shows "\<exists>m'. push_data m pt d off v e = Ok m' \<and> (\<forall>x. pa2ppn x \<notin> set qs \<longrightarrow> m' x = m x)
    \<and> list_all2 (\<lambda>c q. filled m c m' q) (chunks (d + off) (length qs)) qs"
  using assms
proof (induction "unat e - unat v" arbitrary: m v qs off)
  case 0
  then have "\<not> v < e" by (simp add: word_less_nat_alt)
  then show ?case using "0.prems"(2) by (simp add: push_data.simps [of m] vpns_none chunks_def)
next
  case (Suc n)
  then have less: "v < e" by (simp add: word_less_nat_alt)
  have step: "vpns v e = v # vpns (v + 1) e" using vpns_step [OF less] .
  have cnt: "n = unat e - unat (v + 1)" using Suc.hyps(2) word_succ_less [OF less] by simp
  obtain q qs' where l: "qs = q # qs'" using Suc.prems(2) step by (auto simp: list_all2_Cons1)
  obtain g where g: "pt_lookup m pt v = Some (pte_new q g)" using Suc.prems(2) step l by auto
  have q44: "q < 2 ^ 44" using Suc.prems(5) l by simp
  have qn: "q \<notin> set (fnode pt)" using Suc.prems(4) l by simp
  have "source_ok (d + off) (Suc (length qs')) (set qs)" using Suc.prems(6) l by simp
  note src = source_step [OF this]
  define m1 where "m1 = memmove m (ppn2pa q) (d + off) (ucast PAGE_SIZE)"
  have m1: "m1 x = (if pa2ppn x = q then m (d + off + get_offset x) else m x)" for x
    unfolding m1_def by (rule page_fill [OF q44 src(1)])
  have same: "m1 x = phys \<lparr>phys = m, frames = fa\<rparr> x" if "pa2ppn x \<in> set (fnode pt)" for x using m1 [of x] that qn by auto
  have inv: "pt_inv lo \<lparr>phys = m1, frames = fa\<rparr> pt" using pt_inv_stable [OF Suc.prems(1) same] by simp
  have look: "pt_lookup m1 pt u = pt_lookup m pt u" for u using pt_lookup_stable [OF Suc.prems(1) same] by simp
  have src2: "source_ok (d + (off + PAGE_SIZE)) (length qs') (set qs')"
    using src(2) l by (auto simp: source_ok_def PAGE_SIZE_def add.assoc)
  obtain m' where r: "push_data m1 pt d (off + PAGE_SIZE) (v + 1) e = Ok m'" "\<And>x. pa2ppn x \<notin> set qs' \<Longrightarrow> m' x = m1 x"
    "list_all2 (\<lambda>c q. filled m1 c m' q) (chunks (d + (off + PAGE_SIZE)) (length qs')) qs'"
    using Suc.hyps(1) [OF cnt inv _ _ _ _ src2] Suc.prems(2-5) look l step by auto
  have run: "push_data m pt d off v e = Ok m'"
    using less g r(1) by (simp add: push_data.simps [of m] deref_pte_lookup pte_get_pa_def pte_new_ppn [OF q44] m1_def)
  have keep: "m' x = m x" if "pa2ppn x \<notin> set qs" for x using r(2) [of x] m1 [of x] that l by simp
  have first: "filled m (d + off) m' q" using r(2) m1 Suc.prems(3) l by (simp add: filled_def)
  have rest: "filled m (chunks (d + off + 4096) (length qs') ! i) m' (qs' ! i)" if i: "i < length qs'" for i
  proof -
    let ?c = "chunks (d + off + 4096) (length qs') ! i"
    have "filled m1 ?c m' (qs' ! i)" using list_all2_nthD2 [OF r(3) i] by (simp add: PAGE_SIZE_def add.assoc)
    moreover have "m1 (?c + get_offset x) = m (?c + get_offset x)" for x
    proof -
      have "4096 * i + unat (get_offset x) < 4096 * length qs'" using i get_offset_less [of x] by linarith
      then have "pa2ppn (d + off + 4096 + of_nat (4096 * i + unat (get_offset x))) \<notin> set qs"
        using src(2) unfolding source_ok_def by blast
      then have "pa2ppn (?c + get_offset x) \<noteq> q" using l i by (simp add: chunks_def add.assoc)
      then show ?thesis by (simp add: m1)
    qed
    ultimately show ?thesis by (simp add: filled_def)
  qed
  have "list_all2 (\<lambda>c q. filled m c m' q) (chunks (d + off + 4096) (length qs')) qs'"
    using rest by (intro list_all2_all_nthI) (simp_all add: chunks_def)
  then have "list_all2 (\<lambda>c q. filled m c m' q) (chunks (d + off) (length qs)) qs" using first by (simp add: l chunks_Suc)
  then show ?case using run keep by blast
qed

text \<open>
  \<^verbatim>\<open>ms_push\<close> with contents of at least a page. Every page of the area is filled from the contents, in
  order, whatever their size.
\<close>

lemma ms_push_data:
  assumes inv: "ms_inv lo s ms" and t: "map_type a = Framed" and p: "pushable s ms a"
    and d: "d \<noteq> 0" "source_ok d (length (area_pages a)) (set (fnode (page_table ms)) \<union> fa_free (frames s))"
    and sz: "PAGE_SIZE \<le> ucast sz"
  shows "\<exists>s' ms' qs. ms_push s ms a d sz = Ok (s', ms') \<and> ms_grown lo s ms (area_pages a) s' ms'
    \<and> length qs = length (area_pages a) \<and> set qs \<subseteq> fa_free (frames s)
    \<and> areas ms' = areas ms @ [a\<lparr>dataframe := framed (area_pages a) qs\<rparr>]
    \<and> list_all2 (\<lambda>v q. pt_lookup (phys s') (page_table ms') v = Some (pte_new q (map_perm a OR PTE_V))) (area_pages a) qs
    \<and> list_all2 (\<lambda>c q. filled (phys s) c (phys s') q) (chunks d (length qs)) qs"
proof -
  have a0: "dataframe a = []" using p by (simp add: pushable_def fresh_area_def)
  obtain s1 ms1 qs where r: "ms_push s ms a 0 sz = Ok (s1, ms1)" "ms_grown lo s ms (area_pages a) s1 ms1"
    "length qs = length (area_pages a)" "areas ms1 = areas ms @ [a\<lparr>dataframe := framed (area_pages a) qs\<rparr>]"
    "set qs \<subseteq> fa_free (frames s)"
    "list_all2 (\<lambda>v e. pt_lookup (phys s1) (page_table ms1) v = Some e) (area_pages a) (entries (map_perm a) qs)"
    using ms_push_framed [OF inv t p, of sz] by blast
  note g = ms_grownD [OF r(2)]
  note i1 = ms_invD [OF g(1)]
  have fr: "ms_frames ms1 = ms_frames ms @ qs" using r(3,4) by (simp add: ms_frames_def area_frames_def map_ppn_framed)
  have qd: "distinct qs" "set qs \<subseteq> set (ms_frames ms1)" using i1(4) fr by simp_all
  have dst: "list_all2 (\<lambda>v q. pt_lookup (phys s1) (page_table ms1) v = Some (pte_new q (map_perm a OR PTE_V))) (area_pages a) qs"
    using r(6) by (simp add: entries_def list.rel_map)
  have ex: "list_all2 (\<lambda>v q. \<exists>fl. pt_lookup (phys s1) (page_table ms1) v = Some (pte_new q fl)) (vpns (vm_start a) (vm_end a)) qs"
    by (rule list_all2_mono [OF dst [unfolded area_pages_def]]) (rule exI)
  have small: "\<forall>q \<in> set qs. q < 2 ^ 44" using ms_frames_44 [OF g(1)] qd(2) by blast
  have sep: "set qs \<inter> set (fnode (page_table ms1)) = {}" using i1(6) qd(2) by blast
  have src: "source_ok (d + 0) (length qs) (set qs)" using d(2) r(3,5) unfolding source_ok_def by auto
  have pt: "pt_inv lo \<lparr>phys = phys s1, frames = frames s1\<rparr> (page_table ms1)" using i1(1) by (cases s1) simp
  obtain m where m: "push_data (phys s1) (page_table ms1) d 0 (vm_start a) (vm_end a) = Ok m"
    "\<And>x. pa2ppn x \<notin> set qs \<Longrightarrow> m x = phys s1 x" "list_all2 (\<lambda>c q. filled (phys s1) c m q) (chunks d (length qs)) qs"
    using push_data_ok [OF pt ex qd(1) sep small src] by auto
  note w = ms_grown_write [OF r(2) qd(2) r(5) m(2)]
  obtain a1 pt1 where mm: "ma_map s a (page_table ms) = Ok (s1, a1, pt1)" "ms1 = ms\<lparr>page_table := pt1, areas := areas ms @ [a1]\<rparr>"
    using r(1) by (auto simp: ms_push_def)
  have a1: "vm_start a1 = vm_start a" "vm_end a1 = vm_end a" using r(4) mm(2) by simp_all
  have run: "ms_push s ms a d sz = Ok (s1\<lparr>phys := m\<rparr>, ms1)"
    using mm m(1) d(1) leD [OF sz] a1 by (simp add: ms_push_def)
  have bytes: "phys s1 (c + get_offset x) = phys s (c + get_offset x)" if c: "c \<in> set (chunks d (length qs))" for c x
  proof -
    obtain i where i: "i < length qs" "c = d + of_nat (4096 * i)" using c by (auto simp: chunks_def)
    have "4096 * i + unat (get_offset x) < 4096 * length (area_pages a)" using i(1) get_offset_less [of x] r(3) by linarith
    then have "pa2ppn (d + of_nat (4096 * i + unat (get_offset x))) \<notin> set (fnode (page_table ms)) \<union> fa_free (frames s)"
      using d(2) unfolding source_ok_def by blast
    then show ?thesis using g(10) i(2) by (simp add: add.assoc)
  qed
  have "list_all2 (\<lambda>c q. filled (phys s) c m q) (chunks d (length qs)) qs"
    using m(3) bytes by (auto simp: list_all2_conv_all_nth filled_def)
  moreover have "list_all2 (\<lambda>v q. pt_lookup m (page_table ms1) v = Some (pte_new q (map_perm a OR PTE_V))) (area_pages a) qs"
    using dst w(2) by simp
  ultimately show ?thesis using run w(1) r(3,4,5) by (intro exI [of _ "s1\<lparr>phys := m\<rparr>"] exI [of _ ms1] exI [of _ qs]) simp
qed

text \<open>The byte that the user sees at an address of a page filled from the contents.\<close>

lemma filled_read:
  assumes v: "i < length vs" "va2vpn va = vs ! i" and l: "length qs = length vs" and small: "\<forall>q \<in> set qs. q < 2 ^ 44"
    and look: "list_all2 (\<lambda>v q. pt_lookup m' pt v = Some (pte_new q fl)) vs qs"
    and fill: "list_all2 (\<lambda>c q. filled m c m' q) (chunks d (length qs)) qs"
  shows "\<exists>pa. va2pa m' pt va = Ok pa \<and> m' pa = m (d + of_nat (4096 * i) + get_offset va)"
proof -
  let ?q = "qs ! i" and ?k = "unat (get_offset va)"
  have q44: "?q < 2 ^ 44" using small v(1) l by simp
  have q: "?q < 2 ^ 52" using order.strict_trans [OF q44, of "2 ^ 52"] by simp
  have e: "pt_lookup m' pt (va2vpn va) = Some (pte_new ?q fl)" using list_all2_nthD [OF look v(1)] v(2) by simp
  have pa: "va2pa m' pt va = Ok (ppn2pa ?q + of_nat ?k)"
    using va2pa_mapped [OF e] unfolding pte_get_pa_def pte_new_ppn [OF q44] or_offset_add by simp
  have pg: "pa2ppn (ppn2pa ?q + of_nat ?k) = ?q" by (rule byte_page(1) [OF q get_offset_less])
  have off: "get_offset (ppn2pa ?q + of_nat ?k) = get_offset va"
    using addr_in_page [OF pg] by simp
  have "filled m (chunks d (length qs) ! i) m' ?q" using list_all2_nthD2 [OF fill] v(1) l by simp
  then have "m' (ppn2pa ?q + of_nat ?k) = m (d + of_nat (4096 * i) + get_offset va)"
    using pg off v(1) l by (simp add: filled_def chunks_def)
  then show ?thesis using pa by blast
qed

text \<open>The address of byte \<open>j\<close> of an area, counted from the start of its first page.\<close>

lemma area_addr:
  assumes v: "v < e" and e: "unat e < 2 ^ 52" and j: "j < 4096 * (unat e - unat v)"
  shows "j div 4096 < length (vpns v e)" and "va2vpn (vpn2va v + of_nat j) = vpns v e ! (j div 4096)"
    and "get_offset (vpn2va v + of_nat j) = of_nat (j mod 4096)"
proof -
  let ?i = "j div 4096" and ?k = "j mod 4096"
  have i: "?i < unat e - unat v" using j by (simp add: less_mult_imp_div_less mult.commute)
  then show "?i < length (vpns v e)" by (simp add: length_vpns)
  define w :: u64 where "w = of_nat (unat v + ?i)"
  have b: "unat v + ?i < 2 ^ 52" using i e by linarith
  then have uw: "unat w = unat v + ?i" unfolding w_def by (subst unat_of_nat_u64) simp_all
  have w: "w < 2 ^ 52" using b uw by (simp add: word_less_nat_alt)
  have v52: "v < 2 ^ 52" using e v by (simp add: word_less_nat_alt)
  have eq: "vpn2va v + of_nat j = ppn2pa w + of_nat ?k"
  proof (rule unsigned_word_eqI [where ?'a = nat])
    have "unat (vpn2va v) = unat v * 4096" using unat_ppn2pa [OF v52] by (simp add: vpn2va_def)
    moreover have "unat v * 4096 + j < 4096 * unat e" using j v by (simp add: word_less_nat_alt diff_mult_distrib2)
    then have jb: "unat v * 4096 + j < 2 ^ 64" using e by simp
    moreover have "unat (of_nat j :: u64) = j" using jb by (intro unat_of_nat_u64) linarith
    ultimately have "unat (vpn2va v + of_nat j) = unat v * 4096 + j" by (subst unat_add_u64) simp_all
    also have "\<dots> = unat w * 4096 + ?k" unfolding uw by (simp add: algebra_simps)
    also have "\<dots> = unat (ppn2pa w + of_nat ?k)" using byte_page(2) [OF w, of ?k] by simp
    finally show "unat (vpn2va v + of_nat j) = unat (ppn2pa w + of_nat ?k)" .
  qed
  have pg: "pa2ppn (ppn2pa w + of_nat ?k) = w" using byte_page(1) [OF w, of ?k] by simp
  have "vpns v e ! ?i = w" using i by (simp add: vpns_def w_def)
  then show "va2vpn (vpn2va v + of_nat j) = vpns v e ! ?i" using pg eq by (simp add: va2vpn_def)
  have "ppn2pa w + of_nat ?k = ppn2pa w + get_offset (ppn2pa w + of_nat ?k)" using addr_in_page [OF pg] by simp
  then show "get_offset (vpn2va v + of_nat j) = of_nat ?k" using eq by simp
qed

lemma ucast_u32_id: "(x::u64) < 2 ^ 32 \<Longrightarrow> ucast (ucast x :: u32) = x"
  by (intro unsigned_word_eqI [where ?'a = nat]) (simp add: unsigned_ucast_eq unsigned_take_bit_eq take_bit_nat_eq_self word_less_nat_alt)

text \<open>The space of a program that is being loaded, and a header to load: its area, where its
  contents lie.\<close>

definition seg_area :: "proghdr \<Rightarrow> MapArea" where
  "seg_area ph = ma_new (ph_vaddr ph) (ph_vaddr ph + ph_memsz ph) Framed (elf_perm (ph_flags ph))"

text \<open>C28: Loading a segment of an ELF image whose file size is at least a page: the area gets pages of its own,
  with the permissions of the header, and byte \<open>j\<close> of the area, counted from the start of its first page,
  becomes byte \<open>j\<close> of the segment in the image. For a segment on a page boundary this is right up to
  the file size; behind it, up to the end of the last page, the area does not hold zeros but what
  follows in the image, and a segment that starts inside a page is placed at the start of that page.\<close>

theorem elf_segment_contents:
  assumes inv: "ms_inv lo s ms" and ph: "ph = read_proghdr (phys s) (elf_data + off)" "ph_type ph = ELF_PROG_LOAD"
    "ph_filesz ph \<le> ph_memsz ph" "PAGE_SIZE \<le> ph_filesz ph" "ph_filesz ph < 2 ^ 32"
    and a: "pushable s ms (seg_area ph)" "unat (vm_end (seg_area ph)) < 2 ^ 52"
    and d: "elf_data + ph_off ph \<noteq> 0"
      "source_ok (elf_data + ph_off ph) (length (area_pages (seg_area ph))) (set (fnode (page_table ms)) \<union> fa_free (frames s))"
  shows "\<exists>s' ms'. elf_segments (Suc n) elf_data off s ms mx
        = elf_segments n elf_data (off + PH_SIZE) s' ms' (vm_end (seg_area ph))
    \<and> ms_grown lo s ms (area_pages (seg_area ph)) s' ms'
    \<and> (\<forall>v \<in> set (area_pages (seg_area ph)). \<exists>q. pt_lookup (phys s') (page_table ms') v
          = Some (pte_new q (elf_perm (ph_flags ph) OR PTE_V)) \<and> q \<in> fa_free (frames s))
    \<and> (\<forall>j < 4096 * length (area_pages (seg_area ph)).
         \<exists>pa. va2pa (phys s') (page_table ms') (vpn2va (vm_start (seg_area ph)) + of_nat j) = Ok pa
           \<and> phys s' pa = phys s (elf_data + ph_off ph + of_nat j))"
proof -
  let ?a = "seg_area ph" and ?d = "elf_data + ph_off ph"
  have t: "map_type ?a = Framed" "map_perm ?a = elf_perm (ph_flags ph)" by (simp_all add: seg_area_def ma_new_def)
  have "ucast (ucast (ph_filesz ph) :: u32) = ph_filesz ph" by (rule ucast_u32_id [OF ph(5)])
  then have sz: "PAGE_SIZE \<le> ucast (ucast (ph_filesz ph) :: u32)" using ph(4) by simp
  obtain s' ms' qs where r: "ms_push s ms ?a ?d (ucast (ph_filesz ph)) = Ok (s', ms')" "ms_grown lo s ms (area_pages ?a) s' ms'"
    "length qs = length (area_pages ?a)" "set qs \<subseteq> fa_free (frames s)"
    "list_all2 (\<lambda>v q. pt_lookup (phys s') (page_table ms') v = Some (pte_new q (map_perm ?a OR PTE_V))) (area_pages ?a) qs"
    "list_all2 (\<lambda>c q. filled (phys s) c (phys s') q) (chunks ?d (length qs)) qs"
    using ms_push_data [OF inv t(1) a(1) d sz] by blast
  have run: "elf_segments (Suc n) elf_data off s ms mx = elf_segments n elf_data (off + PH_SIZE) s' ms' (vm_end ?a)"
    using ph(1-3) r(1) by (simp add: Let_def seg_area_def not_less [symmetric] leD)
  have perm: "\<exists>q. pt_lookup (phys s') (page_table ms') v = Some (pte_new q (elf_perm (ph_flags ph) OR PTE_V)) \<and> q \<in> fa_free (frames s)"
    if v: "v \<in> set (area_pages ?a)" for v
  proof -
    obtain i where "i < length (area_pages ?a)" "v = area_pages ?a ! i" using v by (auto simp: in_set_conv_nth)
    then show ?thesis using list_all2_nthD [OF r(5)] r(3,4) t(2) by (metis nth_mem subsetD)
  qed
  have small: "\<forall>q \<in> set qs. q < 2 ^ 44" using r(4) frame_small(1) [OF ms_invD(1) [OF inv] disjI1] by blast
  have bytes: "\<exists>pa. va2pa (phys s') (page_table ms') (vpn2va (vm_start ?a) + of_nat j) = Ok pa \<and> phys s' pa = phys s (?d + of_nat j)"
    if j: "j < 4096 * length (area_pages ?a)" for j
  proof -
    have len: "length (area_pages ?a) = unat (vm_end ?a) - unat (vm_start ?a)" by (simp add: area_pages_def length_vpns)
    have lt: "vm_start ?a < vm_end ?a" using j len by (simp add: word_less_nat_alt)
    note ad = area_addr [OF lt a(2), of j, folded area_pages_def] 
    have j': "j < 4096 * (unat (vm_end ?a) - unat (vm_start ?a))" using j len by simp
    have idx: "j div 4096 < length (area_pages ?a)" "va2vpn (vpn2va (vm_start ?a) + of_nat j) = area_pages ?a ! (j div 4096)"
      using ad(1,2) [OF j'] by (simp_all add: area_pages_def)
    have "of_nat j = (of_nat (4096 * (j div 4096)) + of_nat (j mod 4096) :: u64)" unfolding of_nat_add [symmetric] by simp
    then show ?thesis
      using filled_read [OF idx r(3) small r(5,6)] ad(3) [OF j'] by (simp add: add.assoc)
  qed
  show ?thesis using run r(2) perm bytes by blast
qed

text \<open>An image with one program header: a segment of 0x1800 bytes at 0x10000, the first 0x1000 of them
  from offset 0x1000 of the image.\<close>

definition ex_image :: mem where
  "ex_image = (\<lambda>x. 0)(0x100000 := 1, 0x100004 := 5, 0x100009 := 0x10, 0x100012 := 1, 0x100021 := 0x10, 0x100029 := 0x18)"

lemma read_proghdr_cong:
  assumes "\<And>i. i < 56 \<Longrightarrow> m' (a + of_nat i) = m (a + of_nat i)"
  shows "read_proghdr m' a = read_proghdr m a"
proof -
  have r: "rbytes m' (a + of_nat k) n = rbytes m (a + of_nat k) n" if "k + n \<le> 56" for k n
    using that assms [of "k + _"] by (intro rbytes_cong) (simp add: add.assoc)
  show ?thesis
    using r [of 0 4] r [of 4 4] r [of 8 8] r [of 16 8] r [of 32 8] r [of 40 8]
    by (simp add: read_proghdr_def ru32_def ru64_def)
qed

lemma ex_image_header:
  "read_proghdr ex_image 0x100000
     = \<lparr>ph_type = 1, ph_flags = 5, ph_off = 0x1000, ph_vaddr = 0x10000, ph_filesz = 0x1000, ph_memsz = 0x1800\<rparr>"
  by (simp add: read_proghdr_def ru32_def ru64_def rbytes_def ex_image_def upt_rec)

theorem elf_segment_contents_witness:
  "\<exists>s ms s' ms' pa. ms_inv 2 s ms \<and> read_proghdr (phys s) 0x100000 = read_proghdr ex_image 0x100000
     \<and> elf_segments 1 0x100000 0 s ms 0 = Ok (s', ms', 0x12)
     \<and> va2pa (phys s') (page_table ms') 0x11810 = Ok pa \<and> phys s' pa = phys s 0x102810"
proof -
  obtain s ms where i: "ms_inv 2 s ms" "50 \<le> card (fa_free (frames s))"
    "\<forall>u. take_bit 27 u \<notin> {1, 2, 0x7ffffff} \<longrightarrow> pt_lookup (phys s) (page_table ms) u = None"
    "\<forall>x. pa2ppn x \<notin> {2..<62} \<longrightarrow> phys s x = ex_image x" "fa_free (frames s) \<union> set (fnode (page_table ms)) \<subseteq> {2..<62}"
    using ex_space_mem [of ex_image] by blast
  have out: "pa2ppn (0x100000 + of_nat j) \<notin> {2..<62}" if "j < 0x10000" for j
  proof -
    have "unat (0x100000 + of_nat j :: u64) = 0x100000 + j"
      using that by (subst unat_add_u64) (simp_all add: unat_of_nat_u64)
    then have "unat (pa2ppn (0x100000 + of_nat j)) = (0x100000 + j) div 4096"
      by (simp add: pa2ppn_def pa_floor_def PAGE_SIZE_def unat_div)
    then have "256 \<le> unat (pa2ppn (0x100000 + of_nat j))" by simp
    then show ?thesis by (simp add: word_less_nat_alt)
  qed
  have "read_proghdr (phys s) 0x100000 = read_proghdr ex_image 0x100000"
    using i(4) out by (intro read_proghdr_cong) simp
  then have ph: "read_proghdr (phys s) (0x100000 + 0)
     = \<lparr>ph_type = 1, ph_flags = 5, ph_off = 0x1000, ph_vaddr = 0x10000, ph_filesz = 0x1000, ph_memsz = 0x1800\<rparr>"
    using ex_image_header by simp
  define ph where "ph = \<lparr>ph_type = 1, ph_flags = 5, ph_off = 0x1000, ph_vaddr = 0x10000, ph_filesz = 0x1000, ph_memsz = 0x1800\<rparr>"
  have ar: "vm_start (seg_area ph) = 0x10" "vm_end (seg_area ph) = 0x12" "area_pages (seg_area ph) = [0x10, 0x11]"
    by (simp_all add: ph_def seg_area_def area_pages_def ma_new_def va_floor_def va_ceil_def pa_floor_def pa_ceil_def
        PAGE_SIZE_def vpns_def upt_rec)
  have po: "ph_off ph = 0x1000" by (simp add: ph_def)
  have push: "pushable s ms (seg_area ph)"
    using i(2,3) by (simp add: pushable_def ar apart_def) (simp add: seg_area_def)
  have src: "source_ok (0x100000 + ph_off ph) (length (area_pages (seg_area ph))) (set (fnode (page_table ms)) \<union> fa_free (frames s))"
    unfolding source_ok_def
  proof (intro conjI allI impI)
    fix j assume "j < 4096 * length (area_pages (seg_area ph))"
    then have "pa2ppn (0x100000 + of_nat (0x1000 + j)) \<notin> {2..<62}" by (intro out) (simp add: ar)
    then show "pa2ppn (0x100000 + ph_off ph + of_nat j) \<notin> set (fnode (page_table ms)) \<union> fa_free (frames s)"
      using i(5) by (auto simp: ph_def)
  next
    show "unat (0x100000 + ph_off ph) + 4096 * length (area_pages (seg_area ph)) < 2 ^ 64"
      unfolding ar(3) by (simp add: ph_def)
  qed
  obtain s' ms' where r: "elf_segments (Suc 0) 0x100000 0 s ms 0 = elf_segments 0 0x100000 (0 + PH_SIZE) s' ms' (vm_end (seg_area ph))"
    "\<forall>j < 4096 * length (area_pages (seg_area ph)).
         \<exists>pa. va2pa (phys s') (page_table ms') (vpn2va (vm_start (seg_area ph)) + of_nat j) = Ok pa
           \<and> phys s' pa = phys s (0x100000 + ph_off ph + of_nat j)"
    using elf_segment_contents [OF i(1) _ _ _ _ _ push _ _ src, of 0 0 0] ph
    by (auto simp: ph_def ELF_PROG_LOAD_def PAGE_SIZE_def ar(2) [unfolded ph_def])
  have "\<exists>pa. va2pa (phys s') (page_table ms') 0x11810 = Ok pa \<and> phys s' pa = phys s 0x102810"
    using r(2) [rule_format, of "0x1810"] unfolding ar po by (simp add: vpn2va_def ppn2pa_def PAGE_OFFSET_BITS_def)
  moreover have "elf_segments 1 0x100000 0 s ms 0 = Ok (s', ms', 0x12)"
    using r(1) unfolding ar(2) One_nat_def elf_segments.simps(1) .
  moreover have "read_proghdr (phys s) 0x100000 = read_proghdr ex_image 0x100000" using ph ex_image_header by simp
  ultimately show ?thesis using i(1) by blast
qed

end
