(* ===== verification/Mapped_Files.thy ===== *)
theory Mapped_Files
  imports Open_Files Address_Space
begin

text \<open>
  Files in memory: \<^verbatim>\<open>sys_mmap\<close> and \<^verbatim>\<open>sys_munmap\<close> (\<^verbatim>\<open>syscall.c\<close>) and the page fault handler of mapped files
  (\<^verbatim>\<open>mmap_handler\<close> of \<^verbatim>\<open>mm_memoryset.c\<close>), which joins the address spaces, the open files and the file
  system: an area is reserved behind the last one, a page of it gets a frame at the first access, and
  the frame is filled from the file.

  The theorems: the areas stay apart and every address of a new one is found by the handler; the
  contents of a page after a fault.
\<close>

section \<open>Reserving an area\<close>

definition PROT_READ :: u32 where "PROT_READ = 1"
definition PROT_WRITE :: u32 where "PROT_WRITE = 2"
definition MAP_PRIVATE :: u32 where "MAP_PRIVATE = 2"

text \<open>
  The descriptor is used as an index without a test. \<open>ms\<close> is the address space of the running task;
  the result is the address, or the word -1.
\<close>

definition sys_mmap :: "regs \<Rightarrow> kstate \<Rightarrow> MemorySet \<Rightarrow> (u64 \<times> kstate \<times> MemorySet) res" where
  "sys_mmap a k ms =
     bind_res (argaddr a 0) (\<lambda>addr. bind_res (argaddr a 1) (\<lambda>length.
     bind_res (argint a 2) (\<lambda>prot. bind_res (argint a 3) (\<lambda>flags.
     bind_res (argint a 4) (\<lambda>fd. bind_res (argaddr a 5) (\<lambda>offset.
     case mytask (ksched k) of None \<Rightarrow> Fail Null_pointer
     | Some p \<Rightarrow>
       if sint fd < 0 \<or> sint fd \<ge> int NOFILE then Fail Out_of_bounds
       else case ofile k p ! nat (sint fd) of None \<Rightarrow> Fail Null_pointer
       | Some f \<Rightarrow>
          if prot AND PROT_WRITE \<noteq> 0 \<and> \<not> f_writable (ftable k ! f) \<and> flags AND MAP_PRIVATE = 0 then Ok (- 1, k, ms)
          else let perm = (if prot AND PROT_WRITE \<noteq> 0 then VM_U OR VM_W else VM_U)
               in if prot AND PROT_READ \<noteq> 0 \<and> \<not> f_readable (ftable k ! f) then Ok (- 1, k, ms)
                  else let perm = (if prot AND PROT_READ \<noteq> 0 then perm OR VM_R else perm);
                           start = (if vma ms = [] then VMA_START else vpn2va (vm_end (last (vma ms))));
                           ma = (ma_new start (start + length) Framed perm)\<lparr>ma_length := length, ma_off := offset, ma_file := Some f, ma_flags := sint flags\<rparr>;
                           k = set_file k f ((ftable k ! f)\<lparr>f_off := 0\<rparr>)
                       in bind_res (filedup k f) (\<lambda>k. Ok (vpn2va (vm_start ma), k, ms\<lparr>vma := vma ms @ [ma]\<rparr>))))))))"

text \<open>Nothing is unmapped, written back or closed.\<close>

definition sys_munmap :: "regs \<Rightarrow> kstate \<Rightarrow> MemorySet \<Rightarrow> (u64 \<times> kstate \<times> MemorySet) res" where
  "sys_munmap a k ms = bind_res (argaddr a 0) (\<lambda>addr. bind_res (argint a 1) (\<lambda>length. Ok (0, k, ms)))"

section \<open>The page fault\<close>

text \<open>The search in the list of areas: those before the area, the area, those behind it.\<close>

primrec find_vma :: "MapArea list \<Rightarrow> vaddr \<Rightarrow> (MapArea list \<times> MapArea \<times> MapArea list) option" where
  "find_vma [] va = None"
| "find_vma (t # ts) va =
     (if va \<ge> vpn2va (vm_start t) \<and> va < vpn2va (vm_end t) then Some ([], t, ts)
      else case find_vma ts va of None \<Rightarrow> None | Some (us, u, ws) \<Rightarrow> Some (t # us, u, ws))"

text \<open>
  \<open>s\<close> is the physical memory with the frame allocator. \<^verbatim>\<open>eread\<close> works on the bytes of the page, which are
  put back; the offset is cut to the 32 bits of its parameter.
\<close>

definition mmap_handler :: "kstate \<Rightarrow> kmem \<Rightarrow> MemorySet \<Rightarrow> vaddr \<Rightarrow> int \<Rightarrow> (int \<times> kstate \<times> kmem \<times> MemorySet) res" where
  "mmap_handler k s ms va scause =
     (case find_vma (vma ms) va of
        None \<Rightarrow> Ok (- 1, k, s, ms)
      | Some (us, t, ws) \<Rightarrow>
          if (scause = 13 \<or> scause = 5) \<and> map_perm t AND PTE_R = 0 then Ok (- 2, k, s, ms)
          else if (scause = 15 \<or> scause = 7) \<and> map_perm t AND PTE_W = 0 then Ok (- 3, k, s, ms)
          else bind_res (ma_map_one s t (page_table ms) (va2vpn va)) (\<lambda>(s, t, pt).
               bind_res (deref_pte (phys s) pt (va2vpn va)) (\<lambda>pte.
               let pa = pte_get_pa pte
               in case ma_file t of None \<Rightarrow> Fail Null_pointer
               | Some f \<Rightarrow> (case f_ep (ftable k ! f) of None \<Rightarrow> Fail Null_pointer
                 | Some e \<Rightarrow>
                    bind_res (eread (kfs k) e (Kern (rbytes (phys s) pa 4096)) (ucast (ma_off t + va - vpn2va (vm_start t))) (ucast PAGE_SIZE)) (\<lambda>(r, v, d).
                    Ok (0, k\<lparr>kfs := v\<rparr>, (case d of Kern bs \<Rightarrow> s\<lparr>phys := wbytes (phys s) pa bs\<rparr> | User _ \<Rightarrow> s),
                        ms\<lparr>page_table := pt, vma := us @ t # ws\<rparr>))))))"

section \<open>The areas\<close>

text \<open>Areas one behind the other, from \<^const>\<open>VMA_START\<close> on.\<close>

fun vma_ok :: "vaddr \<Rightarrow> MapArea list \<Rightarrow> bool" where
  "vma_ok lo [] = True"
| "vma_ok lo (t # ts) \<longleftrightarrow> lo \<le> vpn2va (vm_start t) \<and> vpn2va (vm_start t) \<le> vpn2va (vm_end t) \<and> vma_ok (vpn2va (vm_end t)) ts"

definition vma_top :: "vaddr \<Rightarrow> MapArea list \<Rightarrow> vaddr" where
  "vma_top lo ts = (if ts = [] then lo else vpn2va (vm_end (last ts)))"

lemma vma_ok_append: "vma_ok lo (ts @ us) \<longleftrightarrow> vma_ok lo ts \<and> vma_ok (vma_top lo ts) us"
proof (induction ts arbitrary: lo)
  case (Cons t ts)
  have "vma_top lo (t # ts) = vma_top (vpn2va (vm_end t)) ts" by (simp add: vma_top_def)
  then show ?case using Cons.IH [of "vpn2va (vm_end t)"] by auto
qed (simp add: vma_top_def)

lemma vma_ok_le: "vma_ok lo ts \<Longrightarrow> lo \<le> vma_top lo ts"
proof (induction ts arbitrary: lo)
  case (Cons t ts)
  then have "lo \<le> vpn2va (vm_end t)" "vpn2va (vm_end t) \<le> vma_top (vpn2va (vm_end t)) ts" by auto
  then show ?case using order.trans by (auto simp: vma_top_def)
qed (simp add: vma_top_def)

text \<open>An address at or above the top is in none of the areas.\<close>

lemma find_vma_above: "vma_ok lo ts \<Longrightarrow> vma_top lo ts \<le> va \<Longrightarrow> find_vma (ts @ us) va = map_option (\<lambda>(bs, t, ws). (ts @ bs, t, ws)) (find_vma us va)"
proof (induction ts arbitrary: lo)
  case (Cons t ts)
  have top: "vma_top lo (t # ts) = vma_top (vpn2va (vm_end t)) ts" by (simp add: vma_top_def)
  have "vpn2va (vm_end t) \<le> vma_top (vpn2va (vm_end t)) ts" using vma_ok_le Cons.prems(1) by simp
  then have "\<not> va < vpn2va (vm_end t)" using Cons.prems(2) top by (metis leD order.trans)
  then show ?case using Cons.IH [of "vpn2va (vm_end t)"] Cons.prems top by (auto split: option.splits)
next
  case Nil
  have "(\<lambda>(bs, t, ws). ([] @ bs, t, ws)) = (\<lambda>x. x)" by (auto simp: fun_eq_iff)
  then show ?case by (simp add: option.map_ident)
qed

lemma unat_vpn2va: "unat v < 2 ^ 52 \<Longrightarrow> unat (vpn2va v) = unat v * 4096"
  using unat_ppn2pa [of v] by (simp add: vpn2va_def word_less_nat_alt)

lemma vpn2va_floor: "va_floor (vpn2va v) = v" if "unat v < 2 ^ 52"
proof -
  have "unat (va_floor (vpn2va v)) = unat v" using that by (simp add: unat_va_floor unat_vpn2va)
  then show ?thesis by (simp add: word_unat_eq_iff)
qed

lemma vpn2va_idem: "vpn2va (va_floor (vpn2va v)) = vpn2va v"
  by (rule bit_word_eqI) (auto simp: vpn2va_def ppn2pa_def va_floor_def pa_floor_drop PAGE_OFFSET_BITS_def bit_simps)

text \<open>What a successful call adds to the list.\<close>

definition new_vma :: "vaddr \<Rightarrow> u64 \<Rightarrow> u8 \<Rightarrow> nat \<Rightarrow> u64 \<Rightarrow> int \<Rightarrow> MapArea" where
  "new_vma start len perm f off flags = (ma_new start (start + len) Framed perm)\<lparr>ma_length := len, ma_off := off, ma_file := Some f, ma_flags := flags\<rparr>"

lemma new_vma_sel [simp]:
  "vm_start (new_vma start len perm f off flags) = va_floor start" "vm_end (new_vma start len perm f off flags) = va_ceil (start + len)"
  "ma_file (new_vma start len perm f off flags) = Some f" "ma_off (new_vma start len perm f off flags) = off"
  "map_type (new_vma start len perm f off flags) = Framed" "map_perm (new_vma start len perm f off flags) = perm"
  "tail_freed (new_vma start len perm f off flags) = False"
  by (simp_all add: new_vma_def ma_new_def)

lemma sys_mmap_cases:
  assumes "sys_mmap a k ms = Ok (r, k', ms')" and "r \<noteq> - 1"
  obtains f fd t perm flags where "fd < NOFILE" "mytask (ksched k) = Some t" "ofile k t ! fd = Some f"
    "vma ms' = vma ms @ [new_vma (vma_top VMA_START (vma ms)) (a 1) perm f (a 6) flags]" "page_table ms' = page_table ms" "areas ms' = areas ms"
    "r = vpn2va (va_floor (vma_top VMA_START (vma ms)))" "filedup (set_file k f ((ftable k ! f)\<lparr>f_off := 0\<rparr>)) f = Ok k'"
proof -
  let ?fd = "sint (ucast (a 4) :: u32)"
  from assms obtain t where t: "mytask (ksched k) = Some t" "\<not> (?fd < 0 \<or> ?fd \<ge> int NOFILE)"
    by (auto simp: sys_mmap_def argaddr_def argint_def argraw_def split: option.splits if_splits)
  with assms obtain f where f: "ofile k t ! nat ?fd = Some f"
    by (cases "ofile k t ! nat ?fd") (auto simp: sys_mmap_def argaddr_def argint_def argraw_def)
  have top: "(if vma ms = [] then VMA_START else vpn2va (vm_end (last (vma ms)))) = vma_top VMA_START (vma ms)" by (simp add: vma_top_def)
  have fd: "nat ?fd < NOFILE" using t(2) by auto
  show thesis
    using assms t f unfolding sys_mmap_def argaddr_def argint_def argraw_def top
    by (auto simp: Let_def new_vma_def [symmetric] split: if_splits intro!: that [OF fd t(1) f])
qed

text \<open>C32: a successful \<^verbatim>\<open>mmap\<close> reserves an area behind all others, so the areas stay disjoint, takes a reference on the
  file, and returns the start of the area; from then on the page fault handler finds that area, with the file
  and the offset of the call, for every address of the range.\<close>

theorem mmap_reserves:
  assumes inv: "fd_inv T x k" and ok: "vma_ok VMA_START (vma ms)" and c: "sys_mmap a k ms = Ok (r, k', ms')" "r \<noteq> - 1"
    and room: "unat (vma_top VMA_START (vma ms)) + unat (a 1) + 4095 < 2 ^ 64"
  shows "\<exists>f ma. vma ms' = vma ms @ [ma] \<and> ma_file ma = Some f \<and> ma_off ma = a 6 \<and> r = vma_top VMA_START (vma ms)
    \<and> vma_ok VMA_START (vma ms') \<and> fd_inv T (x(f := x f + 1)) k'
    \<and> (\<forall>va. r \<le> va \<and> va < r + a 1 \<longrightarrow> find_vma (vma ms') va = Some (vma ms, ma, []))"
  using c
proof (cases rule: sys_mmap_cases)
  case (1 f fd t perm flags)
  let ?s = "vma_top VMA_START (vma ms)"
  let ?ma = "new_vma ?s (a 1) perm f (a 6) flags"
  note p = refs_pos [OF inv 1(1,3)]
  have r: "r = ?s" using 1(7) vpn2va_idem by (auto simp: vma_top_def VMA_START_def vpn2va_def ppn2pa_def va_floor_def pa_floor_def PAGE_SIZE_def PAGE_OFFSET_BITS_def)
  have u: "unat (?s + a 1) = unat ?s + unat (a 1)" using room by (intro unat_add_u64) simp
  have ce: "unat (va_ceil (?s + a 1)) = (unat ?s + unat (a 1) + 4095) div 4096" by (rule va_ceil_add(1)) (rule room)
  then have "unat (va_ceil (?s + a 1)) < 2 ^ 52" using room by simp
  then have e: "unat (vpn2va (va_ceil (?s + a 1))) = (unat ?s + unat (a 1) + 4095) div 4096 * 4096" using ce by (simp add: unat_vpn2va)
  have end_ge: "?s + a 1 \<le> vpn2va (va_ceil (?s + a 1))" unfolding word_le_nat_alt e u by simp
  have start: "vpn2va (vm_start ?ma) = ?s" using 1(7) r by simp
  have le: "?s \<le> vpn2va (vm_end ?ma)" using e by (simp add: word_le_nat_alt)
  have vok: "vma_ok VMA_START (vma ms')" using ok start le by (simp add: 1(4) vma_ok_append)
  have find: "find_vma (vma ms') va = Some (vma ms, ?ma, [])" if "r \<le> va" "va < r + a 1" for va
  proof -
    have "va < vpn2va (vm_end ?ma)" using that(2) end_ge r by simp
    then show ?thesis using find_vma_above [OF ok, of va "[?ma]"] that(1) r start by (simp add: 1(4))
  qed
  have i1: "fd_inv T x (set_file k f ((ftable k ! f)\<lparr>f_off := 0\<rparr>))" by (rule fd_inv_file [OF inv p(3)]) simp
  have "1 \<le> refs T (set_file k f ((ftable k ! f)\<lparr>f_off := 0\<rparr>)) f + x f" using p(1) by (simp add: refs_def set_file_def)
  then have "fd_inv T (x(f := x f + 1)) k'" using filedup_ok [OF i1 p(3)] 1(8) by auto
  then show ?thesis using 1(4) r vok find by (intro exI [of _ f] exI [of _ ?ma]) simp
qed

theorem mmap_reserves_witness:
  "\<exists>k k' ms'. fd_inv {0, 1} console_held k
    \<and> sys_mmap (\<lambda>i. if i = 1 then 5000 else 0) k \<lparr>page_table = \<lparr>root_ppn = 0, fnode = []\<rparr>, vma = [], areas = []\<rparr> = Ok (VMA_START, k', ms')
    \<and> find_vma (vma ms') (VMA_START + 4999) \<noteq> None \<and> fd_inv {0, 1} (console_held(0 := 2)) k'"
proof -
  obtain k0 where k0: "fd_inv {0, 1} console_held k0" "\<forall>i < NOFILE. ofile k0 0 ! i = (if i < 3 then Some i else None)" using ex_make by blast
  let ?k = "k0\<lparr>ksched := family\<rparr>" and ?ms = "\<lparr>page_table = \<lparr>root_ppn = 0, fnode = []\<rparr>, vma = [], areas = []\<rparr>" and ?a = "\<lambda>i. if i = 1 then 5000 else 0 :: u64"
  have k: "fd_inv {0, 1} console_held ?k" by (rule fd_inv_other [OF k0(1)]) simp_all
  have t: "mytask (ksched ?k) = Some 0" by (simp add: mytask_def family_def)
  have o: "ofile ?k 0 ! 0 = Some 0" "0 < NOFILE" using k0(2) by (auto simp: NOFILE_def)
  have "fd_inv {0, 1} console_held (set_file ?k 0 ((ftable ?k ! 0)\<lparr>f_off := 0\<rparr>))" by (rule fd_inv_file [OF k]) (simp_all add: NFILE_def)
  then obtain k' where k': "filedup (set_file ?k 0 ((ftable ?k ! 0)\<lparr>f_off := 0\<rparr>)) 0 = Ok k'"
    using filedup_ok [of _ _ _ 0] by (fastforce simp: NFILE_def console_held_def)
  then obtain ms' where m: "sys_mmap ?a ?k ?ms = Ok (VMA_START, k', ms')"
    using t o by (auto simp: sys_mmap_def argaddr_def argint_def argraw_def Let_def ma_new_def vpn2va_def ppn2pa_def va_floor_def pa_floor_def page_consts VMA_START_def)
  obtain f ma where r: "vma ms' = vma ?ms @ [ma]" "ma_file ma = Some f" "fd_inv {0, 1} (console_held(f := console_held f + 1)) k'"
    "\<forall>va. VMA_START \<le> va \<and> va < VMA_START + ?a 1 \<longrightarrow> find_vma (vma ms') va = Some (vma ?ms, ma, [])"
    using mmap_reserves [OF k _ m] by (auto simp: VMA_START_def vma_top_def)
  have "vma ms' = [new_vma VMA_START 5000 VM_U 0 0 0]"
    using m t o k' by (auto simp: sys_mmap_def argaddr_def argint_def argraw_def Let_def PROT_READ_def PROT_WRITE_def new_vma_def)
  then have "f = 0" using r(1,2) by auto
  then have "fd_inv {0, 1} (console_held(0 := 2)) k'" using r(3) by (simp add: console_held_def numeral_2_eq_2)
  moreover have "find_vma (vma ms') (VMA_START + 4999) \<noteq> None" using spec [OF r(4), of "VMA_START + 4999"] by (simp add: VMA_START_def)
  ultimately show ?thesis using k m by blast
qed

section \<open>The contents of a page\<close>

lemma wbytes_page:
  assumes p: "p < 2 ^ 52" and bs: "length bs = 4096"
  shows "wbytes m (ppn2pa p) bs x = (if pa2ppn x = p then bs ! unat (get_offset x) else m x)"
proof (cases "pa2ppn x = p")
  case True
  let ?k = "unat (get_offset x)"
  have k: "?k < 4096" by (rule get_offset_less)
  have x: "x = ppn2pa p + of_nat ?k" using addr_in_page [OF True] .
  have "wbytes m (ppn2pa p) bs (ppn2pa p + of_nat ?k) = bs ! ?k" using k bs by (intro wbytes_in) simp_all
  then show ?thesis using True x by simp
next
  case False
  then have "wbytes m (ppn2pa p) bs x = m x" using byte_page(1) [OF p] bs by (intro wbytes_out) auto
  then show ?thesis using False by simp
qed

lemma va2pa_page:
  assumes "pt_lookup m pt (va2vpn va) = Some (pte_new p fl)" and "p < 2 ^ 44"
  shows "\<exists>pa. va2pa m pt va = Ok pa \<and> pa2ppn pa = p \<and> get_offset pa = get_offset va"
proof -
  have p: "p < 2 ^ 52" using order.strict_trans [OF assms(2), of "2 ^ 52"] by simp
  have "va2pa m pt va = Ok (ppn2pa p + of_nat (unat (get_offset va)))"
    using va2pa_mapped [OF assms(1)] unfolding pte_get_pa_def pte_new_ppn [OF assms(2)] or_offset_add by simp
  moreover have "unat (get_offset (ppn2pa p + of_nat (unat (get_offset va)))) = unat (get_offset va)"
    using byte_page(2) [OF p get_offset_less, of va] get_offset_less [of va] unfolding unat_get_offset [of "ppn2pa p + _"] by simp
  then have "get_offset (ppn2pa p + of_nat (unat (get_offset va))) = get_offset va" by (rule word_unat_eq_iff [THEN iffD2])
  ultimately show ?thesis using byte_page(1) [OF p get_offset_less] by blast
qed

text \<open>C33: the first access to a page of a mapped file, at the address \<open>va\<close>: the handler gives the page a frame with the
  permissions of the area, touches no other page, and the user finds at each address of the page the bytes of the
  file from the offset on that belongs to \<open>va\<close> itself, zeros behind its end. That is what belongs there when \<open>va\<close>
  is the start of the page; after a fault inside the page, its contents are shifted.\<close>

theorem mmap_fault_contents:
  assumes inv: "pt_inv lo s (page_table ms)" and free: "3 \<le> card (fa_free (frames s))" and new: "pt_lookup (phys s) (page_table ms) (va2vpn va) = None"
    and vma: "find_vma (vma ms) va = Some (us, t, ws)" and t: "map_type t = Framed" "\<not> tail_freed t"
    and perm: "scause \<in> {13, 5} \<longrightarrow> map_perm t AND PTE_R \<noteq> 0" "scause \<in> {15, 7} \<longrightarrow> map_perm t AND PTE_W \<noteq> 0"
    and f: "ma_file t = Some f" "f_ep (ftable k ! f) = Some e"
    and vol: "vol_ok (kfs k)" "file_ok (kfs k) e cs" "attribute (ent (kfs k) e) AND ATTR_DIRECTORY = 0"
    and offd: "off = ma_off t + va - vpn2va (vm_start t)" and datad: "data = file_data (kfs k) e cs"
    and off: "unat off \<le> unat (file_size (ent (kfs k) e))" "unat off + 4096 < 2 ^ 32"
  shows "\<exists>k' s' ms'. mmap_handler k s ms va scause = Ok (0, k', s', ms')
    \<and> (\<forall>u. va2vpn u = va2vpn va \<longrightarrow> (\<exists>pa. va2pa (phys s') (page_table ms') u = Ok pa
        \<and> phys s' pa = (let i = unat off + unat (get_offset u) in if i < length data then data ! i else 0)))
    \<and> (\<forall>v. take_bit 27 v \<noteq> take_bit 27 (va2vpn va) \<longrightarrow> pt_lookup (phys s') (page_table ms') v = pt_lookup (phys s) (page_table ms) v)
    \<and> (\<forall>a. pa2ppn a \<notin> set (fnode (page_table ms)) \<union> fa_free (frames s) \<longrightarrow> phys s' a = phys s a)
    \<and> file_data (kfs k') e cs = data"
proof -
  let ?v = "va2vpn va"
  obtain s1 pt1 q where m: "ma_map_one s t (page_table ms) ?v = Ok (s1, t\<lparr>dataframe := dataframe t @ [\<lparr>vp_vpn = ?v, vp_ppn = q\<rparr>]\<rparr>, pt1)"
    "mapped lo s (page_table ms) [?v] [pte_new q (map_perm t OR PTE_V)] [q] s1 pt1"
    using ma_map_one_framed [OF inv free new t] by blast
  note d = mappedD [OF m(2)]
  have q: "q < 2 ^ 44" "q < 2 ^ 52" using frame_small [OF inv, of q] d(4) by auto
  have look: "pt_lookup (phys s1) pt1 ?v = Some (pte_new q (map_perm t OR PTE_V))" using d(12) by simp
  have pa: "pte_get_pa (pte_new q (map_perm t OR PTE_V)) = ppn2pa q" by (simp add: pte_get_pa_def pte_new_ppn [OF q(1)])
  have off32: "unat (ucast off :: u32) = unat off" using off(2) by (simp add: unsigned_ucast_eq take_bit_nat_eq_self)
  let ?bs = "rbytes (phys s1) (ppn2pa q) 4096" and ?part = "take 4096 (drop (unat off) data)"
  have n: "unat (ucast PAGE_SIZE :: u32) = 4096" by (simp add: PAGE_SIZE_def)
  have o: "ucast off \<le> file_size (ent (kfs k) e)" "unat (ucast off :: u32) + unat (ucast PAGE_SIZE :: u32) < 2 ^ 32" "unat (ucast PAGE_SIZE :: u32) \<le> length ?bs"
    using off off32 n by (simp_all add: word_le_nat_alt)
  obtain v where v: "eread (kfs k) e (Kern ?bs) (ucast off) (ucast PAGE_SIZE) = Ok (int (length ?part), v, Kern (patch ?bs 0 ?part))"
    "file_data v e cs = data"
    using eread_ok [OF vol o] unfolding n off32 datad by blast
  define bs where "bs = patch ?bs 0 ?part"
  have lb: "length bs = 4096" by (simp add: bs_def patch_def)
  have z: "?bs ! i = 0" if "i < 4096" for i using d(14) [of "ppn2pa q + of_nat i"] byte_page(1) [OF q(2) that] that by simp
  have nth: "bs ! i = (if unat off + i < length data then data ! (unat off + i) else 0)" if "i < 4096" for i
    using that z by (auto simp: bs_def patch_def nth_append)
  define s' where "s' = s1\<lparr>phys := wbytes (phys s1) (ppn2pa q) bs\<rparr>"
  have mem: "phys s' x = (if pa2ppn x = q then bs ! unat (get_offset x) else phys s1 x)" for x
    using wbytes_page [OF q(2) lb] by (simp add: s'_def)
  have keep: "pt_lookup (phys s') pt1 u = pt_lookup (phys s1) pt1 u" for u
    using d(7) by (intro pt_lookup_stable [OF d(1)]) (auto simp: mem)
  let ?ms = "ms\<lparr>page_table := pt1, vma := us @ t\<lparr>dataframe := dataframe t @ [\<lparr>vp_vpn = ?v, vp_ppn = q\<rparr>]\<rparr> # ws\<rparr>"
  have v1: "eread (kfs k) e (Kern ?bs) (ucast (ma_off t + va - vpn2va (vm_start t))) (ucast PAGE_SIZE) = Ok (int (length ?part), v, Kern bs)"
    unfolding bs_def offd [symmetric] by (rule v(1))
  have "mmap_handler k s ms va scause = Ok (0, k\<lparr>kfs := v\<rparr>, s', ?ms)"
    using vma perm m(1) deref_pte_lookup [OF look] f v1 by (auto simp: mmap_handler_def pa Let_def s'_def)
  moreover have "\<exists>pa. va2pa (phys s') pt1 u = Ok pa \<and> phys s' pa = (let i = unat off + unat (get_offset u) in if i < length data then data ! i else 0)"
    if "va2vpn u = ?v" for u
  proof -
    have "pt_lookup (phys s') pt1 (va2vpn u) = Some (pte_new q (map_perm t OR PTE_V))" using look keep that by simp
    then obtain pa where "va2pa (phys s') pt1 u = Ok pa" "pa2ppn pa = q" "get_offset pa = get_offset u" using va2pa_page [OF _ q(1)] by blast
    then show ?thesis using mem nth [OF get_offset_less] by (simp add: Let_def)
  qed
  moreover have "phys s' a = phys s a" if "pa2ppn a \<notin> set (fnode (page_table ms)) \<union> fa_free (frames s)" for a
    using d(15) [OF that] that d(4) by (auto simp: mem)
  ultimately show ?thesis using d(13) keep v(2) by (intro exI [of _ "k\<lparr>kfs := v\<rparr>"] exI [of _ s'] exI [of _ ?ms]) simp
qed

theorem mmap_fault_contents_witness:
  "\<exists>k s ms k' s' ms' cs pa. file_data (kfs k) 0 cs = [7, 8, 9] \<and> vma ms = [new_vma VMA_START 4096 (VM_U OR VM_R) 0 0 0]
    \<and> mmap_handler k s ms (VMA_START + 1) 13 = Ok (0, k', s', ms') \<and> va2pa (phys s') (page_table ms') VMA_START = Ok pa \<and> phys s' pa = 8"
proof -
  obtain s a where a: "ms_inv 2 s a" "50 \<le> card (fa_free (frames s))"
    "\<forall>u. take_bit 27 u \<notin> {1, 2, 0x7ffffff} \<longrightarrow> pt_lookup (phys s) (page_table a) u = None"
    using ex_space by blast
  let ?t = "new_vma VMA_START 4096 (VM_U OR VM_R) 0 0 0"
  let ?ms = "a\<lparr>vma := [?t]\<rparr>"
  have z: "file_data ex_vol 0 [] = []" by (simp add: file_data_def file_bytes_def)
  have "attribute (ent ex_vol 0) AND ATTR_READ_ONLY = 0" "0 \<le> file_size (ent ex_vol 0)"
    "unat (0::u32) + unat (3::u32) \<le> (length ([]::u32 list) + card (free_clusters ex_vol)) * unat (byts_per_clus (fat ex_vol))"
    using ex_entry ex_vol_ok(4) by simp_all
  then obtain v cs where v: "vol_ok v" "file_ok v 0 cs" "attribute (ent v 0) = attribute (ent ex_vol 0)" "file_data v 0 cs = [7, 8, 9]"
    using ewrite_ok [OF ex_vol_ok(1-3), of 0 3 "[7, 8, 9]"] z by auto
  let ?k = "ex_kernel\<lparr>kfs := v, ftable := [zero_file\<lparr>f_ep := Some 0\<rparr>]\<rparr>"
  have "length (file_data v 0 cs) \<le> unat (file_size (ent v 0))" by (simp add: file_data_def)
  then have sz: "3 \<le> unat (file_size (ent v 0))" using v(4) by simp
  have pg: "va2vpn VMA_START = 0x40000" "va2vpn (VMA_START + 1) = 0x40000" "vpn2va (vm_start ?t) = VMA_START" "vpn2va (vm_end ?t) = VMA_START + 4096"
    by (simp_all add: va2vpn_def pa2ppn_def pa_floor_def va_floor_def va_ceil_def pa_ceil_def vpn2va_def ppn2pa_def page_consts VMA_START_def)
  have find: "find_vma (vma ?ms) (VMA_START + 1) = Some ([], ?t, [])" using pg(3,4) by (simp add: VMA_START_def)
  have inv: "pt_inv 2 s (page_table ?ms)" using ms_invD(1) [OF a(1)] by simp
  have new: "pt_lookup (phys s) (page_table ?ms) (va2vpn (VMA_START + 1)) = None" using a(3) pg(2) by simp
  have r: "map_perm ?t AND PTE_R \<noteq> 0" by (simp add: VM_U_def VM_R_def PTE_R_def)
  have off: "(1::u64) = ma_off ?t + (VMA_START + 1) - vpn2va (vm_start ?t)" using pg(3) by simp
  have fr: "3 \<le> card (fa_free (frames s))" using a(2) by simp
  have F: "ma_file ?t = Some 0" "f_ep (ftable ?k ! 0) = Some 0" by simp_all
  have V: "vol_ok (kfs ?k)" "file_ok (kfs ?k) 0 cs" "attribute (ent (kfs ?k) 0) AND ATTR_DIRECTORY = 0" "unat (1::u64) \<le> unat (file_size (ent (kfs ?k) 0))"
    using v sz ex_entry by simp_all
  have D: "[7, 8, 9] = file_data (kfs ?k) 0 cs" using v(4) by simp
  have P: "map_type ?t = Framed" "\<not> tail_freed ?t" "(13::int) \<in> {13, 5} \<longrightarrow> map_perm ?t AND PTE_R \<noteq> 0"
    "(13::int) \<in> {15, 7} \<longrightarrow> map_perm ?t AND PTE_W \<noteq> 0" using r by simp_all
  have get_offset_start: "get_offset VMA_START = 0" by (simp add: get_offset_def VMA_START_def PAGE_SIZE_def)
  obtain k' s' ms' where H: "mmap_handler ?k s ?ms (VMA_START + 1) 13 = Ok (0, k', s', ms')"
    and B: "\<forall>u. va2vpn u = va2vpn (VMA_START + 1) \<longrightarrow> (\<exists>pa. va2pa (phys s') (page_table ms') u = Ok pa
        \<and> phys s' pa = (let i = unat (1::u64) + unat (get_offset u) in if i < length [7, 8, 9 :: u8] then [7, 8, 9] ! i else 0))"
    using mmap_fault_contents [OF inv fr new find P F V(1-3) off D V(4)] by auto
  obtain pa where "va2pa (phys s') (page_table ms') VMA_START = Ok pa" "phys s' pa = 8"
    using spec [OF B, of VMA_START] pg(1,2) get_offset_start by (auto simp: Let_def)
  then show ?thesis using H D by (intro exI [of _ ?k] exI [of _ s] exI [of _ ?ms] exI [of _ k'] exI [of _ s'] exI [of _ ms'] exI [of _ cs] exI [of _ pa]) simp
qed

end
