(* ===== verification/Clock.thy ===== *)
theory Clock
  imports Sched "HOL-Library.Signed_Division"
begin

text \<open>
  Time: the real-time clock (\<^verbatim>\<open>d_rtc.c\<close>), the time stamp and the tick of the timer (\<^verbatim>\<open>timer.c\<close>), and the waiting
  loops (\<^verbatim>\<open>sleep.c\<close>).

  The registers of the clock are a record, a field of \<open>w\<close> bits being stored modulo \<open>2 ^ w\<close>; the wait in
  \<^verbatim>\<open>rtc_timer_set_mode\<close> that lets the hardware settle has no effect and is left out, as are the reserved bits and
  \<^verbatim>\<open>leap_year\<close>, which the driver never sets. Division and remainder are those of C, towards zero.

  The theorems compare with the calendar: the number of days since 1 January 1970 as a sum of the lengths of years and months.
\<close>

section \<open>The registers\<close>

definition bits :: "nat \<Rightarrow> int \<Rightarrow> int" where
  "bits w v = v mod 2 ^ w"

datatype rtc_timer_mode = RTC_TIMER_PAUSE | RTC_TIMER_RUNNING | RTC_TIMER_SETTING | RTC_TIMER_MAX

record rtc_date =
  rd_week :: int
  rd_day :: int
  rd_month :: int
  rd_year :: int

record rtc_time =
  rt_second :: int
  rt_minute :: int
  rt_hour :: int

record rtc_ctrl =
  read_enable :: bool
  write_enable :: bool
  timer_mask :: int
  alarm_mask :: int
  initial_count_mask :: bool
  interrupt_register_mask :: bool

record rtc =
  rdate :: rtc_date
  rtime :: rtc_time
  alarm_date :: rtc_date
  alarm_time :: rtc_time
  initial_count :: u32
  current_count :: u32
  register_ctrl :: rtc_ctrl
  century :: int

record tm =
  tm_sec :: int
  tm_min :: int
  tm_hour :: int
  tm_mday :: int
  tm_mon :: int
  tm_year :: int
  tm_wday :: int
  tm_yday :: int
  tm_isdst :: int

section \<open>The driver\<close>

definition rtc_timer_set_mode :: "rtc \<Rightarrow> rtc_timer_mode \<Rightarrow> rtc" where
  "rtc_timer_set_mode r m =
     (let c = register_ctrl r;
          c = (case m of RTC_TIMER_PAUSE \<Rightarrow> c\<lparr>read_enable := False, write_enable := False\<rparr>
               | RTC_TIMER_RUNNING \<Rightarrow> c\<lparr>read_enable := True, write_enable := False\<rparr>
               | RTC_TIMER_SETTING \<Rightarrow> c\<lparr>read_enable := False, write_enable := True\<rparr>
               | RTC_TIMER_MAX \<Rightarrow> c\<lparr>read_enable := False, write_enable := False\<rparr>)
      in r\<lparr>register_ctrl := c\<rparr>)"

definition rtc_timer_get_mode :: "rtc \<Rightarrow> rtc_timer_mode \<times> rtc" where
  "rtc_timer_get_mode r =
     (let c = register_ctrl r
      in if \<not> read_enable c \<and> \<not> write_enable c then (RTC_TIMER_PAUSE, r)
         else if read_enable c \<and> \<not> write_enable c then (RTC_TIMER_RUNNING, r)
         else if \<not> read_enable c \<and> write_enable c then (RTC_TIMER_RUNNING, r)
         else (RTC_TIMER_PAUSE, rtc_timer_set_mode r RTC_TIMER_PAUSE))"

definition rtc_in_range :: "int \<Rightarrow> int \<Rightarrow> int \<Rightarrow> bool" where
  "rtc_in_range v lo hi \<longleftrightarrow> v \<ge> lo \<and> v \<le> hi"

definition rtc_timer_set_tm :: "rtc \<Rightarrow> tm option \<Rightarrow> int \<times> rtc" where
  "rtc_timer_set_tm r t =
     (case t of None \<Rightarrow> (0, r)
      | Some t \<Rightarrow>
         if \<not> rtc_in_range (tm_sec t) 0 59 then (- 1, r)
         else if \<not> rtc_in_range (tm_min t) 0 59 then (- 1, r)
         else if \<not> rtc_in_range (tm_hour t) 0 23 then (- 1, r)
         else if \<not> rtc_in_range (tm_mday t) 1 31 then (- 1, r)
         else if \<not> rtc_in_range (tm_mon t) 0 11 then (- 1, r)
         else let human_year = tm_year t + 1900; rtc_year = human_year smod 100; rtc_century = human_year sdiv 100
         in if \<not> (rtc_in_range rtc_year 0 99 \<and> rtc_in_range rtc_century 0 31) then (- 1, r)
         else if \<not> rtc_in_range (tm_wday t) 0 6 then (- 1, r)
         else let r = rtc_timer_set_mode r RTC_TIMER_SETTING;
                  r = r\<lparr>rdate := \<lparr>rd_week = bits 3 (tm_wday t), rd_day = bits 5 (tm_mday t), rd_month = bits 4 (tm_mon t + 1), rd_year = bits 12 rtc_year\<rparr>\<rparr>;
                  r = r\<lparr>rtime := \<lparr>rt_second = bits 6 (tm_sec t), rt_minute = bits 6 (tm_min t), rt_hour = bits 5 (tm_hour t)\<rparr>\<rparr>;
                  r = r\<lparr>century := bits 5 rtc_century\<rparr>
              in (0, rtc_timer_set_mode r RTC_TIMER_RUNNING))"

definition rtc_alarm_set_tm :: "rtc \<Rightarrow> tm option \<Rightarrow> int \<times> rtc" where
  "rtc_alarm_set_tm r t =
     (case t of None \<Rightarrow> (0, r)
      | Some t \<Rightarrow>
         if \<not> rtc_in_range (tm_sec t) 0 59 then (- 1, r)
         else if \<not> rtc_in_range (tm_min t) 0 59 then (- 1, r)
         else if \<not> rtc_in_range (tm_hour t) 0 23 then (- 1, r)
         else if \<not> rtc_in_range (tm_mday t) 1 31 then (- 1, r)
         else if \<not> rtc_in_range (tm_mon t) 0 11 then (- 1, r)
         else let human_year = tm_year t + 1900; rtc_year = human_year smod 100; rtc_century = human_year sdiv 100
         in if \<not> (rtc_in_range rtc_year 0 99 \<and> rtc_in_range rtc_century 0 31) then (- 1, r)
         else if \<not> rtc_in_range (tm_wday t) 0 6 then (- 1, r)
         else let r = rtc_timer_set_mode r RTC_TIMER_SETTING;
                  r = r\<lparr>alarm_date := \<lparr>rd_week = bits 3 (tm_wday t), rd_day = bits 5 (tm_mday t), rd_month = bits 4 (tm_mon t + 1), rd_year = bits 12 rtc_year\<rparr>\<rparr>;
                  r = r\<lparr>alarm_time := \<lparr>rt_second = bits 6 (tm_sec t), rt_minute = bits 6 (tm_min t), rt_hour = bits 5 (tm_hour t)\<rparr>\<rparr>
              in (0, rtc_timer_set_mode r RTC_TIMER_RUNNING))"

definition rtc_year_is_leap :: "int \<Rightarrow> bool" where
  "rtc_year_is_leap year \<longleftrightarrow> year smod 4 = 0 \<and> year smod 100 \<noteq> 0 \<or> year smod 400 = 0"

definition yday_table :: "bool \<Rightarrow> int list" where
  "yday_table leap = (if leap then [0, 0, 31, 60, 91, 121, 152, 182, 213, 244, 274, 305, 335]
                      else [0, 0, 31, 59, 90, 120, 151, 181, 212, 243, 273, 304, 334])"

definition rtc_get_yday :: "int \<Rightarrow> int \<Rightarrow> int \<Rightarrow> int res" where
  "rtc_get_yday year month day =
     (if month < 0 \<or> month > 12 then Fail Out_of_bounds
      else Ok (yday_table (rtc_year_is_leap year) ! nat month + day))"

definition rtc_get_wday :: "int \<Rightarrow> int \<Rightarrow> int \<Rightarrow> int" where
  "rtc_get_wday year month day =
     (let day = day + (if month < 3 then year else year - 2);
          year = (if month < 3 then year - 1 else year)
      in ((23 * month) sdiv 9 + day + 4 + year sdiv 4 - year sdiv 100 + year sdiv 400) smod 7)"

text \<open>What \<^verbatim>\<open>rtc_timer_get_tm\<close> and \<^verbatim>\<open>rtc_alarm_get_tm\<close> make of a date and a time; a month register of 0 gives \<^verbatim>\<open>tm_mon\<close> = -1 in C.\<close>

definition tm_of :: "rtc_date \<Rightarrow> rtc_time \<Rightarrow> int \<Rightarrow> tm res" where
  "tm_of d t c =
     (let mon = (rd_month d - 1) smod 12; yr = rd_year d mod 100 + c * 100 - 1900; mday = rd_day d mod 32
      in bind_res (rtc_get_yday (yr + 1900) (mon + 1) mday) (\<lambda>yd.
         Ok \<lparr>tm_sec = rt_second t mod 61, tm_min = rt_minute t mod 60, tm_hour = rt_hour t mod 24, tm_mday = mday, tm_mon = mon,
             tm_year = yr, tm_wday = rd_week d mod 7, tm_yday = yd smod 366, tm_isdst = - 1\<rparr>))"

definition rtc_timer_get_tm :: "rtc \<Rightarrow> (tm option \<times> rtc) res" where
  "rtc_timer_get_tm r =
     (let (m, r) = rtc_timer_get_mode r
      in if m \<noteq> RTC_TIMER_RUNNING then Ok (None, r)
         else bind_res (tm_of (rdate r) (rtime r) (century r)) (\<lambda>t. Ok (Some t, r)))"

definition rtc_alarm_get_tm :: "rtc \<Rightarrow> (tm option \<times> rtc) res" where
  "rtc_alarm_get_tm r =
     (let (m, r) = rtc_timer_get_mode r
      in if m \<noteq> RTC_TIMER_RUNNING then Ok (None, r)
         else bind_res (tm_of (alarm_date r) (alarm_time r) (century r)) (\<lambda>t. Ok (Some t, r)))"

definition date_tm :: "int \<Rightarrow> int \<Rightarrow> int \<Rightarrow> int \<Rightarrow> int \<Rightarrow> int \<Rightarrow> tm res" where
  "date_tm year month day hour minute second =
     bind_res (rtc_get_yday year month day) (\<lambda>yd.
     Ok \<lparr>tm_sec = second, tm_min = minute, tm_hour = hour, tm_mday = day, tm_mon = month - 1, tm_year = year - 1900,
         tm_wday = rtc_get_wday year month day, tm_yday = yd, tm_isdst = - 1\<rparr>)"

definition rtc_timer_set :: "rtc \<Rightarrow> int \<Rightarrow> int \<Rightarrow> int \<Rightarrow> int \<Rightarrow> int \<Rightarrow> int \<Rightarrow> (int \<times> rtc) res" where
  "rtc_timer_set r year month day hour minute second =
     bind_res (date_tm year month day hour minute second) (\<lambda>t. Ok (rtc_timer_set_tm r (Some t)))"

definition rtc_alarm_set :: "rtc \<Rightarrow> int \<Rightarrow> int \<Rightarrow> int \<Rightarrow> int \<Rightarrow> int \<Rightarrow> int \<Rightarrow> (int \<times> rtc) res" where
  "rtc_alarm_set r year month day hour minute second =
     bind_res (date_tm year month day hour minute second) (\<lambda>t. Ok (rtc_alarm_set_tm r (Some t)))"

text \<open>The six values, \<open>None\<close> for the result -1.\<close>

definition six :: "tm \<Rightarrow> int \<times> int \<times> int \<times> int \<times> int \<times> int" where
  "six t = (tm_year t + 1900, tm_mon t + 1, tm_mday t, tm_hour t, tm_min t, tm_sec t)"

definition rtc_timer_get :: "rtc \<Rightarrow> ((int \<times> int \<times> int \<times> int \<times> int \<times> int) option \<times> rtc) res" where
  "rtc_timer_get r = bind_res (rtc_timer_get_tm r) (\<lambda>(t, r). Ok (map_option six t, r))"

definition rtc_alarm_get :: "rtc \<Rightarrow> ((int \<times> int \<times> int \<times> int \<times> int \<times> int) option \<times> rtc) res" where
  "rtc_alarm_get r = bind_res (rtc_alarm_get_tm r) (\<lambda>(t, r). Ok (map_option six t, r))"

definition rtc_timer_set_clock_frequency :: "rtc \<Rightarrow> u32 \<Rightarrow> rtc" where
  "rtc_timer_set_clock_frequency r f =
     (let r = rtc_timer_set_mode r RTC_TIMER_SETTING; r = r\<lparr>initial_count := f\<rparr> in rtc_timer_set_mode r RTC_TIMER_RUNNING)"

definition rtc_timer_get_clock_frequency :: "rtc \<Rightarrow> u32" where
  "rtc_timer_get_clock_frequency r = initial_count r"

definition rtc_timer_set_clock_count_value :: "rtc \<Rightarrow> u32 \<Rightarrow> rtc" where
  "rtc_timer_set_clock_count_value r n =
     (let r = rtc_timer_set_mode r RTC_TIMER_SETTING; r = r\<lparr>current_count := n\<rparr> in rtc_timer_set_mode r RTC_TIMER_RUNNING)"

definition rtc_timer_get_clock_count_value :: "rtc \<Rightarrow> u32" where
  "rtc_timer_get_clock_count_value r = current_count r"

text \<open>The masks are bytes: seven flags above a reserved bit.\<close>

definition rtc_protect_set :: "rtc \<Rightarrow> bool \<Rightarrow> rtc" where
  "rtc_protect_set r enable =
     (let c = register_ctrl r
      in r\<lparr>register_ctrl :=
        (if enable then c\<lparr>timer_mask := 0, alarm_mask := 0, initial_count_mask := False, interrupt_register_mask := False\<rparr>
         else c\<lparr>timer_mask := 254, alarm_mask := 254, initial_count_mask := True, interrupt_register_mask := True\<rparr>)\<rparr>)"

text \<open>\<open>freq\<close> is the frequency of the crystal; reset and clock gate of the chip are not part of the model.\<close>

definition rtc_init :: "rtc \<Rightarrow> u32 \<Rightarrow> rtc" where
  "rtc_init r freq =
     (let r = rtc_protect_set r False; r = rtc_timer_set_clock_frequency r freq; r = rtc_timer_set_clock_count_value r 1
      in rtc_timer_set_mode r RTC_TIMER_RUNNING)"

definition sys_time_init :: "rtc \<Rightarrow> int \<Rightarrow> int \<Rightarrow> int \<Rightarrow> int \<Rightarrow> int \<Rightarrow> int \<Rightarrow> (int \<times> rtc) res" where
  "sys_time_init r year month day hour minute second = rtc_timer_set r year month day hour minute second"

definition sys_time_get :: "rtc \<Rightarrow> (tm option \<times> rtc) res" where
  "sys_time_get r = rtc_timer_get_tm r"

section \<open>Time stamps, ticks and waiting\<close>

definition mon_days :: "int list" where
  "mon_days = [31, 28, 31, 30, 31, 30, 31, 31, 30, 31, 30, 31]"

text \<open>Seconds and microseconds; the sum is a \<^verbatim>\<open>long\<close>, stored unsigned. A month above 11 reads behind the table.\<close>

definition tm2tamp :: "tm \<Rightarrow> int \<Rightarrow> (u64 \<times> u64) res" where
  "tm2tamp t utc_diff =
     (let ryear = tm_year t + 1900;
          is_leap = (ryear smod 100 \<noteq> 0 \<and> ryear smod 4 = 0 \<or> ryear smod 400 = 0);
          tyears = tm_year t - 70;
          leap_years = (if tm_mon t < 1 \<and> is_leap then (tyears + 2) sdiv 4 - 1 else (tyears + 2) sdiv 4)
      in if tm_mon t > 12 then Fail Out_of_bounds
         else let tdays = sum_list (take (nat (tm_mon t)) mon_days) + (tm_mday t - 1) + (tyears * 365 + leap_years);
                  utc_hrs = tm_hour t - utc_diff
              in Ok (word_of_int (tdays * 86400 + utc_hrs * 3600 + tm_min t * 60 + tm_sec t), 0))"

record timer =
  tickslock :: klock
  TICKS :: u64
  next_trigger :: u64

definition INTERVAL :: u64 where "INTERVAL = 390000000 div 200"

definition set_next_trigger :: "timer \<Rightarrow> u64 \<Rightarrow> timer" where
  "set_next_trigger t now = t\<lparr>next_trigger := now + INTERVAL\<rparr>"

text \<open>\<open>user\<close> says that the tick came while the task ran in user mode, \<open>now\<close> is the reading of the counter at the end.\<close>

definition timer_handle :: "timer \<Rightarrow> sched \<Rightarrow> bool \<Rightarrow> u64 \<Rightarrow> (timer \<times> sched) res" where
  "timer_handle t s user now =
     bind_res (lock_acquire (tickslock t)) (\<lambda>l.
     let t = t\<lparr>TICKS := TICKS t + 1\<rparr>
     in bind_res (lock_release l) (\<lambda>l.
        let t = t\<lparr>tickslock := l\<rparr>
        in case mytask s of None \<Rightarrow> Ok (set_next_trigger t now, s)
        | Some p \<Rightarrow>
           bind_res (lock_acquire (tcb_lock (tasks s p))) (\<lambda>l.
           let d = (if user then (tasks s p)\<lparr>utimes := utimes (tasks s p) + 1\<rparr> else (tasks s p)\<lparr>stimes := stimes (tasks s p) + 1\<rparr>)
           in bind_res (lock_release l) (\<lambda>l. Ok (set_next_trigger t now, set_task s p (d\<lparr>tcb_lock := l\<rparr>))))))"

text \<open>
  The waiting loop over the successive readings of the cycle counter: the number of readings it makes
  before it ends, \<open>None\<close> when these are not enough.
\<close>

primrec wait_loop :: "u64 list \<Rightarrow> u64 \<Rightarrow> u64 \<Rightarrow> nat option" where
  "wait_loop [] cycle nop_all = None"
| "wait_loop (c # cs) cycle nop_all =
     (if c - cycle \<ge> nop_all then Some 0 else map_option Suc (wait_loop cs cycle nop_all))"

definition usleep :: "u64 \<Rightarrow> u64 \<Rightarrow> u64 list \<Rightarrow> u64 \<Rightarrow> nat option" where
  "usleep freq cycle readings usec = wait_loop readings cycle (usec * freq div 1000000)"

definition msleep :: "u64 \<Rightarrow> u64 \<Rightarrow> u64 list \<Rightarrow> u64 \<Rightarrow> nat option" where
  "msleep freq cycle readings msec = usleep freq cycle readings (msec * 1000)"

definition ksleep :: "u64 \<Rightarrow> u64 \<Rightarrow> u64 list \<Rightarrow> u32 \<Rightarrow> nat option" where
  "ksleep freq cycle readings seconds = msleep freq cycle readings (ucast (seconds * 1000))"

section \<open>The calendar\<close>

definition leap :: "int \<Rightarrow> bool" where
  "leap y \<longleftrightarrow> 4 dvd y \<and> (\<not> 100 dvd y \<or> 400 dvd y)"

definition year_len :: "int \<Rightarrow> int" where
  "year_len y = (if leap y then 366 else 365)"

definition month_len :: "int \<Rightarrow> int \<Rightarrow> int" where
  "month_len y m = (if m = 2 then if leap y then 29 else 28 else if m \<in> {4, 6, 9, 11} then 30 else 31)"

text \<open>Days since 1 January 1970, which was a Thursday.\<close>

definition epoch_day :: "int \<Rightarrow> int \<Rightarrow> int \<Rightarrow> int" where
  "epoch_day y m d = sum_list (map year_len [1970..y - 1]) + sum_list (map (month_len y) [1..m - 1]) + (d - 1)"

definition valid_date :: "int \<Rightarrow> int \<Rightarrow> int \<Rightarrow> bool" where
  "valid_date y m d \<longleftrightarrow> 1970 \<le> y \<and> 1 \<le> m \<and> m \<le> 12 \<and> 1 \<le> d \<and> d \<le> month_len y m"

lemma c_div: "0 \<le> (x::int) \<Longrightarrow> 0 < k \<Longrightarrow> x sdiv k = x div k" "0 \<le> (x::int) \<Longrightarrow> 0 < k \<Longrightarrow> x smod k = x mod k"
  by (simp_all add: signed_divide_int_def signed_modulo_int_def sgn_if minus_div_mult_eq_mod)

lemma is_leap: "0 \<le> y \<Longrightarrow> rtc_year_is_leap y = leap y"
proof -
  assume "0 \<le> y"
  then have "rtc_year_is_leap y \<longleftrightarrow> 4 dvd y \<and> \<not> 100 dvd y \<or> 400 dvd y" by (simp add: rtc_year_is_leap_def c_div dvd_eq_mod_eq_0)
  moreover have "400 dvd y \<Longrightarrow> 4 dvd y" by (rule dvd_trans [of _ 400]) simp_all
  ultimately show ?thesis by (auto simp: leap_def)
qed

text \<open>Leap years up to a year.\<close>

definition leaps :: "int \<Rightarrow> int" where
  "leaps y = y div 4 - y div 100 + y div 400"

lemma div_step: "0 < k \<Longrightarrow> (y::int) div k = (y - 1) div k + (if k dvd y then 1 else 0)"
proof -
  assume k: "0 < k"
  show ?thesis
  proof (cases "k dvd y")
    case True
    then obtain q where "y = k * q" by blast
    moreover have "(k * q - 1) div k = q - 1"
      using k by (intro int_div_pos_eq [of _ k "q - 1" "k - 1"]) (auto simp: algebra_simps)
    ultimately show ?thesis using k True by simp
  next
    case False
    then have "0 < y mod k" using k by (metis dvd_eq_mod_eq_0 order_le_less pos_mod_sign)
    moreover have "y mod k < k" using k by simp
    moreover have "y - 1 = k * (y div k) + (y mod k - 1)" by (simp add: algebra_simps)
    ultimately have "(y - 1) div k = y div k" by (intro int_div_pos_eq [of "y - 1" k "y div k" "y mod k - 1"]) auto
    then show ?thesis using False by simp
  qed
qed

lemma leaps_step: "leaps y = leaps (y - 1) + (if leap y then 1 else 0)"
proof -
  have "100 dvd y \<Longrightarrow> 4 dvd y" "400 dvd y \<Longrightarrow> 100 dvd y" by (auto intro: dvd_trans [of _ 100] dvd_trans [of _ 400])
  then consider "400 dvd y" "100 dvd y" "4 dvd y" | "\<not> 400 dvd y" "100 dvd y" "4 dvd y" | "\<not> 400 dvd y" "\<not> 100 dvd y" "4 dvd y"
    | "\<not> 400 dvd y" "\<not> 100 dvd y" "\<not> 4 dvd y" by blast
  then show ?thesis
    by cases (use div_step [of 4 y] div_step [of 100 y] div_step [of 400 y] in \<open>simp_all only: leaps_def leap_def if_True if_False simp_thms zero_less_numeral\<close>)
qed

lemma years_sum: "1970 \<le> y \<Longrightarrow> sum_list (map year_len [1970..y - 1]) = 365 * (y - 1970) + leaps (y - 1) - 477"
proof (induction "nat (y - 1970)" arbitrary: y)
  case 0
  then have "y = 1970" by simp
  then show ?case by (simp add: leaps_def)
next
  case (Suc n)
  then have "1970 \<le> y - 1" "n = nat (y - 1 - 1970)" by auto
  then have ih: "sum_list (map year_len [1970..y - 1 - 1]) = 365 * (y - 1 - 1970) + leaps (y - 1 - 1) - 477" using Suc.hyps(1) by blast
  have "[1970..y - 1] = [1970..y - 1 - 1] @ [y - 1]" using \<open>1970 \<le> y - 1\<close> by (rule upto_rec2)
  then show ?case using ih leaps_step [of "y - 1"] by (simp add: year_len_def)
qed

lemma month_cases:
  assumes "1 \<le> (m::int)" and "m \<le> 12"
  shows "m = 1 \<or> m = 2 \<or> m = 3 \<or> m = 4 \<or> m = 5 \<or> m = 6 \<or> m = 7 \<or> m = 8 \<or> m = 9 \<or> m = 10 \<or> m = 11 \<or> m = 12"
  using assms by presburger

lemma months_sum:
  assumes "1 \<le> m" and "m \<le> 12"
  shows "sum_list (map (month_len y) [1..m - 1]) = yday_table (leap y) ! nat m"
  using month_cases [OF assms] by (elim disjE) (simp_all add: month_len_def yday_table_def upto_rec1)

text \<open>The table of the days before a month, and the one that \<^verbatim>\<open>tm2tamp\<close> adds up.\<close>

lemma month_table:
  assumes "1 \<le> m" and "m \<le> 12"
  shows "yday_table l ! nat m = sum_list (take (nat (m - 1)) mon_days) + (if l \<and> 3 \<le> m then 1 else 0)"
  using month_cases [OF assms] by (elim disjE) (simp_all add: yday_table_def mon_days_def)

lemma epoch_day_closed:
  assumes "1970 \<le> y" and "1 \<le> m" and "m \<le> 12"
  shows "epoch_day y m d = 365 * (y - 1970) + leaps (if 3 \<le> m then y else y - 1) - 477 + sum_list (take (nat (m - 1)) mon_days) + (d - 1)"
  using years_sum [OF assms(1)] months_sum [OF assms(2,3), of y] month_table [OF assms(2,3), of "leap y"] leaps_step [of y]
  by (simp add: epoch_day_def)

lemma bits_id: "0 \<le> v \<Longrightarrow> v < 2 ^ w \<Longrightarrow> bits w v = v"
  by (simp add: bits_def)

lemma leaps_nonneg: "0 \<le> y \<Longrightarrow> 0 \<le> leaps y"
  unfolding leaps_def using zdiv_mono2 [of y 4 100] pos_imp_zdiv_nonneg_iff [of 400 y] by simp

text \<open>The formula for the weekday with the ordinary division, from the year 1 on.\<close>

lemma wday_formula:
  fixes y m d :: int
  assumes "1 \<le> y" and "1 \<le> m" and "1 \<le> d"
  defines "Y \<equiv> (if m < 3 then y - 1 else y)" and "D \<equiv> d + (if m < 3 then y else y - 2)"
  shows "rtc_get_wday y m d = (23 * m div 9 + D + 4 + leaps Y) mod 7"
proof -
  have nn: "0 \<le> Y" "0 \<le> D" using assms by (auto simp: Y_def D_def)
  have a: "0 \<le> 23 * m div 9 + D + 4 + leaps Y" using nn leaps_nonneg [OF nn(1)] assms(2) pos_imp_zdiv_nonneg_iff [of 9 "23 * m"] by simp
  have "rtc_get_wday y m d = (23 * m div 9 + D + 4 + leaps Y) smod 7"
    using nn assms(2) by (simp add: rtc_get_wday_def Let_def Y_def [symmetric] D_def [symmetric] c_div leaps_def algebra_simps)
  then show ?thesis using c_div(2) [OF a] by simp
qed

section \<open>Properties\<close>

text \<open>C34: the formula of \<^verbatim>\<open>rtc_get_wday\<close> is the weekday of the calendar, 0 for Sunday, for every date from 1970 on.\<close>

theorem wday_correct:
  assumes "valid_date y m d"
  shows "rtc_get_wday y m d = (epoch_day y m d + 4) mod 7"
proof -
  have v: "1970 \<le> y" "1 \<le> m" "m \<le> 12" "1 \<le> d" using assms by (auto simp: valid_date_def)
  define Y where "Y = (if m < 3 then y - 1 else y)"
  define D where "D = d + (if m < 3 then y else y - 2)"
  have w: "rtc_get_wday y m d = (23 * m div 9 + D + 4 + leaps Y) mod 7"
    using wday_formula [of y m d] v by (simp add: Y_def D_def)
  have e: "epoch_day y m d = 365 * (y - 1970) + leaps Y - 477 + sum_list (take (nat (m - 1)) mon_days) + (d - 1)"
    using epoch_day_closed [OF v(1-3), of d] by (simp add: Y_def not_less)
  have "sum_list (take (nat (m - 1)) mon_days) = 23 * m div 9 + 7 * (4 * m - 5) + (if m < 3 then 5 else 3)"
    using month_cases [OF v(2,3)] by (elim disjE) (simp_all add: mon_days_def)
  then have e4: "epoch_day y m d + 4 = 23 * m div 9 + D + 4 + leaps Y + 7 * (52 * y + 4 * m - 102794)"
    unfolding e D_def by simp
  show ?thesis unfolding w e4 by (simp only: mod_mult_self2)
qed

theorem wday_correct_witness: "rtc_get_wday 2021 5 28 = 5 \<and> (epoch_day 2021 5 28 + 4) mod 7 = 5"
proof -
  have v: "valid_date 2021 5 28" by (simp add: valid_date_def month_len_def)
  have "rtc_get_wday 2021 5 28 = 5" by (simp add: rtc_get_wday_def c_div)
  then show ?thesis using wday_correct [OF v] by simp
qed

text \<open>Setting the clock to a date and time in range and reading it back gives the six values again, with the
  weekday in its register; a value out of range is refused with -1 and no register changes. The range of the
  day is 1 to 31 in every month, that of the year 1 to 3199.\<close>

theorem rtc_set_get:
  assumes "0 \<le> m" and "m \<le> 12" and "1 \<le> y"
  shows "if y < 3200 \<and> 1 \<le> m \<and> 1 \<le> d \<and> d \<le> 31 \<and> 0 \<le> h \<and> h \<le> 23 \<and> 0 \<le> mi \<and> mi \<le> 59 \<and> 0 \<le> sec \<and> sec \<le> 59
    then \<exists>r'. rtc_timer_set r y m d h mi sec = Ok (0, r') \<and> rtc_timer_get r' = Ok (Some (y, m, d, h, mi, sec), r')
      \<and> rd_week (rdate r') = rtc_get_wday y m d \<and> alarm_date r' = alarm_date r \<and> alarm_time r' = alarm_time r
    else rtc_timer_set r y m d h mi sec = Ok (- 1, r)"
proof -
  obtain yd where yd: "rtc_get_yday y m d = Ok yd" using assms by (simp add: rtc_get_yday_def)
  let ?t = "\<lparr>tm_sec = sec, tm_min = mi, tm_hour = h, tm_mday = d, tm_mon = m - 1, tm_year = y - 1900, tm_wday = rtc_get_wday y m d, tm_yday = yd, tm_isdst = - 1\<rparr>"
  have set: "rtc_timer_set r y m d h mi sec = Ok (rtc_timer_set_tm r (Some ?t))" by (simp add: rtc_timer_set_def date_tm_def yd)
  have yr: "y smod 100 = y mod 100" "y sdiv 100 = y div 100" "0 \<le> y div 100" "y < 3200 \<longleftrightarrow> y div 100 \<le> 31" "y mod 100 + y div 100 * 100 = y"
    using assms(3) by (auto simp: c_div)
  have ym: "0 \<le> y mod 100" "y mod 100 \<le> 99" "y mod 100 < 4096" using pos_mod_sign [of 100 y] pos_mod_bound [of 100 y] by simp_all
  show ?thesis
  proof (cases "y < 3200 \<and> 1 \<le> m \<and> 1 \<le> d \<and> d \<le> 31 \<and> 0 \<le> h \<and> h \<le> 23 \<and> 0 \<le> mi \<and> mi \<le> 59 \<and> 0 \<le> sec \<and> sec \<le> 59")
    case True
    have w: "0 \<le> rtc_get_wday y m d" "rtc_get_wday y m d \<le> 6" using wday_formula [of y m d] True assms(3) by auto
    let ?r = "rtc_timer_set_mode ((rtc_timer_set_mode r RTC_TIMER_SETTING)\<lparr>rdate := \<lparr>rd_week = rtc_get_wday y m d, rd_day = d, rd_month = m, rd_year = y mod 100\<rparr>,
        rtime := \<lparr>rt_second = sec, rt_minute = mi, rt_hour = h\<rparr>, century := y div 100\<rparr>) RTC_TIMER_RUNNING"
    have run: "rtc_timer_set_tm r (Some ?t) = (0, ?r)"
      using True w yr(1-4) ym assms by (simp add: rtc_timer_set_tm_def rtc_in_range_def Let_def bits_id)
    have "(m - 1) smod 12 = m - 1" using True assms(2) by (simp add: c_div)
    then obtain t where "tm_of (rdate ?r) (rtime ?r) (century ?r) = Ok t" "six t = (y, m, d, h, mi, sec)"
      using True assms yr(5) by (auto simp: tm_of_def rtc_get_yday_def six_def rtc_timer_set_mode_def)
    then have "rtc_timer_get ?r = Ok (Some (y, m, d, h, mi, sec), ?r)"
      by (simp add: rtc_timer_get_def rtc_timer_get_tm_def rtc_timer_get_mode_def rtc_timer_set_mode_def)
    then have "\<exists>r'. rtc_timer_set r y m d h mi sec = Ok (0, r') \<and> rtc_timer_get r' = Ok (Some (y, m, d, h, mi, sec), r')
      \<and> rd_week (rdate r') = rtc_get_wday y m d \<and> alarm_date r' = alarm_date r \<and> alarm_time r' = alarm_time r"
      using set run by (intro exI [of _ ?r]) (simp add: rtc_timer_set_mode_def)
    then show ?thesis using True by simp
  next
    case False
    then have "rtc_timer_set_tm r (Some ?t) = (- 1, r)" using yr ym assms by (auto simp: rtc_timer_set_tm_def rtc_in_range_def Let_def)
    then show ?thesis using False set by auto
  qed
qed

theorem rtc_set_get_witness:
  "\<forall>r. \<exists>r'. rtc_timer_set r 2021 5 28 22 37 0 = Ok (0, r') \<and> rtc_timer_get r' = Ok (Some (2021, 5, 28, 22, 37, 0), r') \<and> rd_week (rdate r') = 5"
proof
  fix r
  have "rtc_get_wday 2021 5 28 = 5" by (simp add: rtc_get_wday_def c_div)
  then show "\<exists>r'. rtc_timer_set r 2021 5 28 22 37 0 = Ok (0, r') \<and> rtc_timer_get r' = Ok (Some (2021, 5, 28, 22, 37, 0), r') \<and> rd_week (rdate r') = 5"
    using rtc_set_get [of 5 2021 28 22 37 0 r] by auto
qed

text \<open>The count of leap years from 1970 on by which \<^verbatim>\<open>tm2tamp\<close> goes is right up to 2099.\<close>

lemma leaps_until_2099:
  assumes "1970 \<le> y" and "y \<le> 2099"
  shows "leaps y = (y - 1968) div 4 + 477"
proof -
  have "(y - 1968) div 4 = y div 4 - 492" by simp
  moreover have "y div 400 - y div 100 = - 15"
  proof (cases "y < 2000")
    case True
    then have "y div 400 = 4" "y div 100 = 19" using assms(1) by presburger+
    then show ?thesis by simp
  next
    case False
    then have "y div 400 = 5" "y div 100 = 20" using assms(2) by presburger+
    then show ?thesis by simp
  qed
  ultimately show ?thesis unfolding leaps_def by simp
qed

text \<open>C36: the time stamp of a date from 1970 to 2099 and a time, with the difference to UTC in hours: the seconds since
  the start of 1970, one day too many in the February of a leap year, since the test for the months before the leap
  day compares the zero-based month with 1. So 29 February and 1 March get the same stamp.\<close>

theorem tm2tamp_reference:
  assumes "valid_date y m d" and "y \<le> 2099" and "tm_year t = y - 1900" and "tm_mon t = m - 1" and "tm_mday t = d"
  shows "tm2tamp t z = Ok (word_of_int ((epoch_day y m d + (if leap y \<and> m = 2 then 1 else 0)) * 86400
      + (tm_hour t - z) * 3600 + tm_min t * 60 + tm_sec t), 0)"
proof -
  have v: "1970 \<le> y" "1 \<le> m" "m \<le> 12" using assms(1) by (auto simp: valid_date_def)
  have l: "(y smod 100 \<noteq> 0 \<and> y smod 4 = 0 \<or> y smod 400 = 0) = leap y" using is_leap [of y] v(1) by (auto simp: rtc_year_is_leap_def)
  have yr: "tm_year t + 1900 = y" "\<not> tm_mon t > 12" "(tm_mon t < 1) = (m - 1 < 1)" using assms(3,4) v(3) by simp_all
  have dv: "(tm_year t - 70 + 2) sdiv 4 = leaps y - 477" using leaps_until_2099 [OF v(1) assms(2)] v(1) assms(3) by (simp add: c_div)
  have "(if m - 1 < 1 \<and> leap y then leaps y - 477 - 1 else leaps y - 477)
      = leaps (if 3 \<le> m then y else y - 1) - 477 + (if leap y \<and> m = 2 then 1 else 0)"
    using leaps_step [of y] v(2) by auto
  then have "sum_list (take (nat (tm_mon t)) mon_days) + (tm_mday t - 1) + ((tm_year t - 70) * 365 + (if m - 1 < 1 \<and> leap y then leaps y - 477 - 1 else leaps y - 477))
      = epoch_day y m d + (if leap y \<and> m = 2 then 1 else 0)"
    using epoch_day_closed [OF v, of d] assms(3-5) by simp
  then show ?thesis unfolding tm2tamp_def Let_def yr(1,3) dv l using yr(2) by (simp only: if_False)
qed

theorem tm2tamp_reference_witness:
  "\<exists>t u. tm_mon t = 1 \<and> tm_mday t = 29 \<and> tm_mon u = 2 \<and> tm_mday u = 1 \<and> tm_year t = 124 \<and> tm_year u = 124 \<and> tm2tamp t 0 = tm2tamp u 0"
proof -
  let ?t = "\<lparr>tm_sec = 0, tm_min = 0, tm_hour = 0, tm_mday = 29, tm_mon = 1, tm_year = 124, tm_wday = 4, tm_yday = 60, tm_isdst = - 1\<rparr>"
  let ?u = "\<lparr>tm_sec = 0, tm_min = 0, tm_hour = 0, tm_mday = 1, tm_mon = 2, tm_year = 124, tm_wday = 5, tm_yday = 61, tm_isdst = - 1\<rparr>"
  have l: "leap 2024" by (simp add: leap_def)
  have v: "valid_date 2024 2 29" "valid_date 2024 3 1" by (simp_all add: valid_date_def month_len_def l)
  have "epoch_day 2024 2 29 + 1 = epoch_day 2024 3 1" by (simp add: epoch_day_def month_len_def l upto_rec1)
  then have "tm2tamp ?t 0 = tm2tamp ?u 0" using tm2tamp_reference [OF v(1), of ?t 0] tm2tamp_reference [OF v(2), of ?u 0] l by simp
  then show ?thesis by (intro exI [of _ ?t] exI [of _ ?u]) simp
qed

text \<open>The first reading that is late enough ends the loop.\<close>

lemma wait_loop_Some: "wait_loop cs c w = Some n \<longleftrightarrow> n < length cs \<and> w \<le> cs ! n - c \<and> (\<forall>i < n. cs ! i - c < w)"
proof (induction cs arbitrary: n)
  case (Cons x cs)
  show ?case
  proof (cases "w \<le> x - c")
    case True
    then show ?thesis using leD by (cases n) (auto simp: All_less_Suc2)
  next
    case False
    then show ?thesis using Cons.IH by (cases n) (auto simp: All_less_Suc2 not_le)
  qed
qed simp

text \<open>\<^verbatim>\<open>ksleep\<close> waits for the first reading of the cycle counter that lies the given seconds after the start, and
  ends when there is one, as long as neither of its two products overflows: the milliseconds in 32 bits, the
  microseconds times the frequency in 64. Beyond that it ends too early: 4294968 seconds take as long as 704
  milliseconds.\<close>

theorem ksleep_duration:
  assumes "unat s * 1000 < 2 ^ 32" and "unat s * 1000000 * unat freq < 2 ^ 64"
  shows "(ksleep freq c cs s = Some n \<longleftrightarrow> n < length cs \<and> unat s * unat freq \<le> unat (cs ! n - c) \<and> (\<forall>i < n. unat (cs ! i - c) < unat s * unat freq))
    \<and> ksleep freq c cs 4294968 = msleep freq c cs 704"
proof -
  have m: "unat (ucast (s * 1000) :: u64) = unat s * 1000"
    using assms(1) by (simp add: unsigned_ucast_eq unat_word_ariths take_bit_nat_eq_self)
  have "unat s * 1000 * 1000 < 2 ^ 64" using assms(1) by simp
  then have u: "unat (ucast (s * 1000) * 1000 :: u64) = unat s * 1000000" unfolding unat_word_ariths m by simp
  have "unat (ucast (s * 1000) * 1000 * freq :: u64) = unat s * 1000000 * unat freq"
    using assms(2) unfolding unat_word_ariths(2) [of "ucast (s * 1000) * 1000" freq] u by simp
  then have w: "unat (ucast (s * 1000) * 1000 * freq div 1000000 :: u64) = unat s * unat freq" by (simp add: unat_div mult.assoc)
  have "ksleep freq c cs 4294968 = msleep freq c cs 704" by (simp add: ksleep_def)
  then show ?thesis
    unfolding ksleep_def [of freq c cs s] msleep_def usleep_def wait_loop_Some word_le_nat_alt word_less_nat_alt w by simp
qed

theorem ksleep_duration_witness:
  "ksleep 403000000 5 [6, 403000004, 403000005, 806000005] 1 = Some (Suc (Suc 0))"
  using ksleep_duration [of 1 403000000 5 "[6, 403000004, 403000005, 806000005]" "Suc (Suc 0)"] by (simp add: All_less_Suc2)

end
