(* ===== verification/Console.thy ===== *)
theory Console
  imports Open_Files Kstring
begin

text \<open>
  The console (\<^verbatim>\<open>console.c\<close>), formatted printing on it (\<^verbatim>\<open>stdio.c\<close>) and the message of a panic
  (\<^verbatim>\<open>panic.c\<close>). What the firmware prints is the list of bytes sent to it so far, \<open>out\<close>. A pointer
  into a character array is the rest of the array from there on, its zero byte included: to read
  past the end of the list is to read outside the array.

  The theorems: numbers are printed so that \<^verbatim>\<open>atoi\<close> reads them back; a format prints what a
  reading of it character by character gives; and what a read from the console does.
\<close>

section \<open>Characters and strings\<close>

definition BACKSPACE :: int where "BACKSPACE = 0x100"

definition cons_putc :: "u8 list \<Rightarrow> int \<Rightarrow> u8 list" where
  "cons_putc out c = (if c = BACKSPACE then out @ [8, 32, 8] else out @ [word_of_int c])"

definition cputch :: "u8 list \<Rightarrow> int \<Rightarrow> nat \<Rightarrow> u8 list \<times> nat" where
  "cputch out c cnt = (cons_putc out c, cnt + 1)"

primrec puts_loop :: "u8 list \<Rightarrow> nat \<Rightarrow> u8 list \<Rightarrow> (nat \<times> u8 list) res" where
  "puts_loop out cnt [] = Fail Out_of_bounds"
| "puts_loop out cnt (c # str) =
     (if c \<noteq> 0 then (let (out, cnt) = cputch out (uint c) cnt in puts_loop out cnt str) else Ok (cnt, out))"

definition cons_puts :: "u8 list \<Rightarrow> u8 list \<Rightarrow> (nat \<times> u8 list) res" where
  "cons_puts out str = puts_loop out 0 str"

primrec puts_n_loop :: "u8 list \<Rightarrow> nat \<Rightarrow> nat \<Rightarrow> u8 list \<Rightarrow> (nat \<times> u8 list) res" where
  "puts_n_loop out cnt n [] = Fail Out_of_bounds"
| "puts_n_loop out cnt n (c # str) =
     (if c \<noteq> 0 \<and> cnt < n then (let (out, cnt) = cputch out (uint c) cnt in puts_n_loop out cnt n str) else Ok (cnt, out))"

definition cons_puts_n :: "u8 list \<Rightarrow> u8 list \<Rightarrow> nat \<Rightarrow> (nat \<times> u8 list) res" where
  "cons_puts_n out str n = puts_n_loop out 0 n str"

section \<open>Numbers\<close>

definition digits :: "u8 list" where
  "digits = [48, 49, 50, 51, 52, 53, 54, 55, 56, 57, 97, 98, 99, 100, 101, 102, 0]"

text \<open>The loop that fills the buffer from its end, at the index \<open>i\<close>; it leaves the next index.\<close>

function printint_loop :: "u8 list \<Rightarrow> int \<Rightarrow> u32 \<Rightarrow> u32 \<Rightarrow> (u8 list \<times> int) res" where
  "printint_loop buf i x base =
     (if i < 0 then Fail Out_of_bounds
      else bind_res (aread digits (unat (x mod base))) (\<lambda>d.
           bind_res (awrite buf (nat i) d) (\<lambda>buf.
           let x = x div base in if x \<noteq> 0 then printint_loop buf (i - 1) x base else Ok (buf, i - 1))))"
  by pat_completeness auto
termination by (relation "measure (\<lambda>(buf, i, x, base). nat (i + 1))") auto

declare printint_loop.simps [simp del]

text \<open>The buffer is not initialised: \<open>junk\<close> is what the stack held.\<close>

definition printint :: "u8 list \<Rightarrow> u8 list \<Rightarrow> u32 \<Rightarrow> u32 \<Rightarrow> bool \<Rightarrow> u8 list res" where
  "printint junk out xx base sign =
     (let sign = (sign \<and> sint xx < 0);
          x = (if sign then - xx else xx);
          buf = (take 17 junk)[16 := 0]
      in bind_res (printint_loop buf 15 x base) (\<lambda>(buf, i).
         bind_res (if sign then (if i < 0 then Fail Out_of_bounds else bind_res (awrite buf (nat i) 45) (\<lambda>buf. Ok (buf, i - 1)))
                   else Ok (buf, i)) (\<lambda>(buf, i).
         let i = i + 1
         in bind_res (cons_puts out (drop (nat i) buf)) (\<lambda>(cnt, out). Ok out))))"

primrec printptr_loop :: "nat \<Rightarrow> u8 list \<Rightarrow> nat \<Rightarrow> u64 \<Rightarrow> (u8 list \<times> nat) res" where
  "printptr_loop 0 buf i x = Ok (buf, i)"
| "printptr_loop (Suc j) buf i x =
     bind_res (aread digits (unat (drop_bit 60 x))) (\<lambda>d.
     bind_res (awrite buf i d) (\<lambda>buf. printptr_loop j buf (i + 1) (push_bit 4 x)))"

definition printptr :: "u8 list \<Rightarrow> u8 list \<Rightarrow> u64 \<Rightarrow> u8 list res" where
  "printptr junk out x =
     bind_res (awrite (take 33 junk) 0 48) (\<lambda>buf.
     bind_res (awrite buf 1 120) (\<lambda>buf.
     bind_res (printptr_loop 16 buf 2 x) (\<lambda>(buf, i).
     bind_res (awrite buf i 0) (\<lambda>buf.
     bind_res (cons_puts out buf) (\<lambda>(cnt, out). Ok out)))))"

section \<open>Formats\<close>

text \<open>The arguments of a call, with the types they are passed at; a null string is \<open>None\<close>.\<close>

datatype vararg = V_int u32 | V_ptr u64 | V_str "u8 list option"

text \<open>The text up to a percent sign or the end.\<close>

primrec skip_text :: "u8 list \<Rightarrow> u8 list res" where
  "skip_text [] = Fail Out_of_bounds"
| "skip_text (c # s) = (if c \<noteq> 0 \<and> c \<noteq> 37 then skip_text s else Ok (c # s))"

text \<open>The doubled percent signs after it: how many pairs, and what follows.\<close>

fun skip_pairs :: "u8 list \<Rightarrow> nat \<Rightarrow> (nat \<times> u8 list) res" where
  "skip_pairs [] z = Fail Out_of_bounds"
| "skip_pairs (c # s) z =
     (if c \<noteq> 37 then Ok (z, c # s)
      else case s of [] \<Rightarrow> Fail Out_of_bounds
      | d # s' \<Rightarrow> if d = 37 then skip_pairs s' (z + 1) else Ok (z, c # s))"

definition null_text :: "u8 list" where
  "null_text = [40, 110, 117, 108, 108, 41, 0]"

text \<open>One conversion, with the arguments that are left.\<close>

definition conversion :: "u8 list \<Rightarrow> u8 list \<Rightarrow> u8 \<Rightarrow> vararg list \<Rightarrow> (u8 list \<times> vararg list) res" where
  "conversion junk out c ap =
     (if c = 100 then (case ap of V_int v # ap \<Rightarrow> bind_res (printint junk out v 10 True) (\<lambda>out. Ok (out, ap)) | _ \<Rightarrow> Fail Out_of_bounds)
      else if c = 120 then (case ap of V_int v # ap \<Rightarrow> bind_res (printint junk out v 16 True) (\<lambda>out. Ok (out, ap)) | _ \<Rightarrow> Fail Out_of_bounds)
      else if c = 112 then (case ap of V_ptr v # ap \<Rightarrow> bind_res (printptr junk out v) (\<lambda>out. Ok (out, ap)) | _ \<Rightarrow> Fail Out_of_bounds)
      else if c = 115 then (case ap of
          V_str a # ap \<Rightarrow> bind_res (cons_puts out (case a of None \<Rightarrow> null_text | Some a \<Rightarrow> a)) (\<lambda>(cnt, out). Ok (out, ap))
        | _ \<Rightarrow> Fail Out_of_bounds)
      else Ok (cons_putc (cons_putc out 37) (uint c), ap))"

lemma skip_text_length: "skip_text s = Ok s' \<Longrightarrow> length s' \<le> length s"
  by (induction s) (auto split: if_splits)

lemma skip_pairs_length: "skip_pairs s z = Ok (z', s') \<Longrightarrow> length s' \<le> length s \<and> z \<le> z' \<and> (z < z' \<longrightarrow> length s' < length s)"
  by (induction s z arbitrary: z' s' rule: skip_pairs.induct) (fastforce split: if_splits list.splits)+

function vprintk :: "u8 list \<Rightarrow> u8 list \<Rightarrow> u8 list \<Rightarrow> vararg list \<Rightarrow> u8 list res" where
  "vprintk junk out s ap =
     bind_res (aread s 0) (\<lambda>c.
     if c = 0 then Ok out
     else bind_res (skip_text s) (\<lambda>s1.
          bind_res (skip_pairs s1 0) (\<lambda>(z, s2).
          let l = length s - length s1 + z
          in bind_res (cons_puts_n out s l) (\<lambda>(cnt, out).
             if l \<noteq> 0 then vprintk junk out s2 ap
             else bind_res (aread s2 1) (\<lambda>c.
                  if c = 0 then Ok out
                  else bind_res (conversion junk out c ap) (\<lambda>(out, ap). vprintk junk out (drop 2 s2) ap))))))"
  by pat_completeness auto
termination
  by (relation "measure (\<lambda>(junk, out, s, ap). length s)")
    (auto simp: aread_eq_Ok dest!: skip_text_length skip_pairs_length)

declare vprintk.simps [simp del]

definition printk :: "u8 list \<Rightarrow> u8 list \<Rightarrow> u8 list \<Rightarrow> vararg list \<Rightarrow> u8 list res" where
  "printk junk out fmt ap = vprintk junk out fmt ap"

section \<open>Panics\<close>

text \<open>The format \<^verbatim>\<open>kernel panic at %s:%d:\<close> with its two spaces.\<close>

definition panic_format :: "u8 list" where
  "panic_format = [107, 101, 114, 110, 101, 108, 32, 112, 97, 110, 105, 99, 32, 97, 116, 32, 37, 115, 58, 37, 100, 58, 32, 32, 0]"

text \<open>What \<^verbatim>\<open>__panic\<close> prints before it turns the machine off, and \<^verbatim>\<open>__warn\<close>.\<close>

definition panic_report :: "u8 list \<Rightarrow> u8 list \<Rightarrow> u8 list option \<Rightarrow> u32 \<Rightarrow> u8 list \<Rightarrow> vararg list \<Rightarrow> u8 list res" where
  "panic_report junk out fname line fmt ap =
     bind_res (printk junk out panic_format [V_str fname, V_int line]) (\<lambda>out.
     bind_res (vprintk junk out fmt ap) (\<lambda>out.
     bind_res (cons_puts out [10, 0]) (\<lambda>(cnt, out). Ok out)))"

definition warn :: "u8 list \<Rightarrow> u8 list \<Rightarrow> u8 list \<Rightarrow> vararg list \<Rightarrow> u8 list res" where
  "warn junk out fmt ap =
     bind_res (vprintk junk out fmt ap) (\<lambda>out.
     bind_res (cons_puts out [10, 0]) (\<lambda>(cnt, out). Ok out))"

section \<open>The console as a device\<close>

definition INPUT_BUF :: nat where "INPUT_BUF = 128"

record cons =
  cons_lock :: klock
  cons_buf :: "u8 list"
  cons_r :: u32
  cons_w :: u32
  cons_e :: u32
  cons_waitr :: "nat list"

definition consoleinit :: "cons \<Rightarrow> cons" where
  "consoleinit c = c\<lparr>cons_lock := False, cons_waitr := [], cons_e := 0, cons_w := 0, cons_r := 0\<rparr>"

primrec consolewrite_loop :: "ucx \<Rightarrow> u8 list \<Rightarrow> kbuf \<Rightarrow> nat \<Rightarrow> nat \<Rightarrow> (nat \<times> u8 list) res" where
  "consolewrite_loop u out src i 0 = Ok (i, out)"
| "consolewrite_loop u out src i (Suc k) =
     bind_res (either_copyin u src i 1) (\<lambda>(r, cs).
     if r = - 1 then Ok (i, out)
     else bind_res (aread cs 0) (\<lambda>c. consolewrite_loop u (out @ [c]) src (i + 1) k))"

definition consolewrite :: "ucx \<Rightarrow> u8 list \<Rightarrow> kbuf \<Rightarrow> u32 \<Rightarrow> (nat \<times> u8 list) res" where
  "consolewrite u out src n = consolewrite_loop u out src 0 (rounds n)"

text \<open>
  \<open>i\<close> bytes have been read and \<open>k\<close> are still wanted. A reader that finds no input sleeps.
\<close>

primrec consoleread_loop :: "ucx \<Rightarrow> sched \<Rightarrow> cons \<Rightarrow> kbuf \<Rightarrow> nat \<Rightarrow> nat \<Rightarrow> (int outcome \<times> nat \<times> ucx \<times> sched \<times> cons \<times> kbuf) res" where
  "consoleread_loop u s c dst i 0 = Ok (Return (int i), i, u, s, c, dst)"
| "consoleread_loop u s c dst i (Suc k) =
     (if cons_r c = cons_w c
      then (case mytask s of
              None \<Rightarrow> Fail Null_pointer
            | Some p \<Rightarrow>
                if task_status (tasks s p) = Zombie
                then bind_res (lock_release (cons_lock c)) (\<lambda>l. Ok (Return (- 1), i, u, s, c\<lparr>cons_lock := l\<rparr>, dst))
                else bind_res (sleep_enter s (cons_waitr c) (Some (cons_lock c))) (\<lambda>(wq, lo, s).
                     Ok (Blocked, i, u, s, c\<lparr>cons_waitr := wq, cons_lock := the lo\<rparr>, dst)))
      else let ch = cons_buf c ! (unat (cons_r c) mod INPUT_BUF); c = c\<lparr>cons_r := cons_r c + 1\<rparr>
           in if ch = 4 then Ok (Return (int i), i, u, s, if 0 < i then c\<lparr>cons_r := cons_r c - 1\<rparr> else c, dst)
              else bind_res (either_copyout u dst i [ch]) (\<lambda>(r, u, dst).
                   if r = - 1 then Ok (Return (int i), i, u, s, c, dst)
                   else if ch = 10 then Ok (Return (int (i + 1)), i + 1, u, s, c, dst)
                   else consoleread_loop u s c dst (i + 1) k))"

definition consoleread :: "ucx \<Rightarrow> sched \<Rightarrow> cons \<Rightarrow> kbuf \<Rightarrow> u32 \<Rightarrow> (int outcome \<times> nat \<times> ucx \<times> sched \<times> cons \<times> kbuf) res" where
  "consoleread u s c dst n = consoleread_loop u s c dst 0 (rounds n)"

text \<open>A reader that has been woken takes the lock and looks again.\<close>

definition consoleread_resume :: "ucx \<Rightarrow> sched \<Rightarrow> cons \<Rightarrow> kbuf \<Rightarrow> u32 \<Rightarrow> nat \<Rightarrow> (int outcome \<times> nat \<times> ucx \<times> sched \<times> cons \<times> kbuf) res" where
  "consoleread_resume u s c dst n i =
     bind_res (sleep_leave s (Some (cons_lock c))) (\<lambda>(lo, s). consoleread_loop u s (c\<lparr>cons_lock := the lo\<rparr>) dst i (rounds n - i))"

section \<open>What is printed\<close>

lemma cons_putc_byte [simp]: "cons_putc out (uint (c::u8)) = out @ [c]"
proof -
  have "uint c < 256" using uint_lt2p [of c] by simp
  then show ?thesis by (simp add: cons_putc_def BACKSPACE_def)
qed

lemma cputch_byte [simp]: "cputch out (uint (c::u8)) n = (out @ [c], n + 1)"
  by (simp add: cputch_def)

lemma puts_loop_ok: "0 \<notin> set cs \<Longrightarrow> puts_loop out cnt (cs @ 0 # rest) = Ok (cnt + length cs, out @ cs)"
  by (induction cs arbitrary: out cnt) auto

lemma cons_puts_ok: "0 \<notin> set cs \<Longrightarrow> cons_puts out (cs @ 0 # rest) = Ok (length cs, out @ cs)"
  by (simp add: cons_puts_def puts_loop_ok)

lemma puts_n_loop_ok:
  "0 \<notin> set cs \<Longrightarrow> rest \<noteq> [] \<Longrightarrow> puts_n_loop out cnt (cnt + length cs) (cs @ rest) = Ok (cnt + length cs, out @ cs)"
proof (induction cs arbitrary: out cnt)
  case Nil
  then show ?case by (cases rest) simp_all
next
  case (Cons c cs)
  then show ?case using Cons.IH [of "out @ [c]" "cnt + 1"] by simp
qed

lemma cons_puts_n_ok:
  "0 \<notin> set cs \<Longrightarrow> rest \<noteq> [] \<Longrightarrow> cons_puts_n out (cs @ rest) (length cs) = Ok (length cs, out @ cs)"
  using puts_n_loop_ok [of cs rest out 0] by (simp add: cons_puts_n_def)

text \<open>The numeral of a number to a base of at most sixteen.\<close>

fun numeral_text :: "nat \<Rightarrow> nat \<Rightarrow> u8 list" where
  "numeral_text b n = (if n < b \<or> b < 2 then [digits ! n] else numeral_text b (n div b) @ [digits ! (n mod b)])"

declare numeral_text.simps [simp del]

lemma numeral_text_small: "n < b \<Longrightarrow> numeral_text b n = [digits ! n]"
  by (subst numeral_text.simps) simp

lemma numeral_text_step: "b \<le> n \<Longrightarrow> 2 \<le> b \<Longrightarrow> numeral_text b n = numeral_text b (n div b) @ [digits ! (n mod b)]"
  by (subst numeral_text.simps) simp

lemma length_numeral_text:
  "2 \<le> b \<Longrightarrow> n < b ^ k \<Longrightarrow> 0 < k \<Longrightarrow> length (numeral_text b n) \<le> k"
proof (induction k arbitrary: n)
  case (Suc k)
  show ?case
  proof (cases "n < b")
    case False
    with Suc.prems have k: "0 < k" by (cases k) auto
    have "n div b < b ^ k" using Suc.prems by (simp add: less_mult_imp_div_less mult.commute)
    then have "length (numeral_text b (n div b)) \<le> k" using Suc.IH Suc.prems(1) k by blast
    then show ?thesis using False Suc.prems(1) by (simp add: numeral_text_step)
  qed (simp add: numeral_text_small)
qed simp

lemma numeral_text_nonempty [simp]: "numeral_text b n \<noteq> []"
  by (subst numeral_text.simps) simp

lemma length_numeral_pos [simp]: "0 < length (numeral_text b n)"
  by (simp only: length_greater_0_conv) simp

lemma digits_range:
  assumes "n < 16"
  shows "digits ! n \<noteq> 0 \<and> (n < 10 \<longrightarrow> unat (digits ! n) = 48 + n)"
proof -
  have "n \<in> set [0..<16]" using assms by simp
  then show ?thesis by (simp add: digits_def upt_rec del: set_upt) auto
qed

lemma length_digits [simp]: "length digits = 17"
  by (simp add: digits_def)

lemma numeral_text_nonzero: "2 \<le> b \<Longrightarrow> b \<le> 16 \<Longrightarrow> 0 \<notin> set (numeral_text b n)"
proof (induction b n rule: numeral_text.induct)
  case (1 b n)
  have m: "n mod b < 16" using 1(2,3) mod_less_divisor [of b n] by linarith
  show ?case
  proof (cases "n < b")
    case True
    then show ?thesis using digits_range [of n] 1 by (auto simp: numeral_text_small)
  next
    case False
    then show ?thesis using 1 digits_range [OF m] by (auto simp: numeral_text_step)
  qed
qed

lemma patch_front:
  assumes "i < length bs" and "length xs \<le> i"
  shows "patch (bs[i := d]) (i - length xs) xs = patch bs (i - length xs) (xs @ [d])"
  using assms by (intro nth_equalityI) (auto simp: nth_patch nth_append nth_list_update)

lemma printint_loop_ok:
  assumes "2 \<le> unat base" and "unat base \<le> 16" and "i < length buf"
    and "length (numeral_text (unat base) (unat x)) \<le> i + 1"
  shows "printint_loop buf (int i) x base =
    Ok (patch buf (i + 1 - length (numeral_text (unat base) (unat x))) (numeral_text (unat base) (unat x)),
        int i - int (length (numeral_text (unat base) (unat x))))"
  using assms
proof (induction i arbitrary: buf x rule: less_induct)
  case (less i)
  let ?b = "unat base"
  have m: "unat (x mod base) = unat x mod ?b" and d: "unat (x div base) = unat x div ?b"
    by (simp_all add: unat_mod unat_div)
  have lt: "unat x mod ?b < 17" using less.prems(1,2) mod_less_divisor [of ?b "unat x"] by linarith
  show ?case
  proof (cases "unat x < ?b")
    case True
    then have "x div base = 0" using d by (simp add: unat_eq_zero)
    then show ?thesis using True lt less.prems(3) m
      by (subst printint_loop.simps) (simp add: numeral_text_small patch_def upd_conv_take_nth_drop)
  next
    case False
    let ?t = "numeral_text ?b (unat x div ?b)"
    have t: "numeral_text ?b (unat x) = ?t @ [digits ! (unat x mod ?b)]"
      using False less.prems(1) by (simp add: numeral_text_step)
    have l: "length ?t \<le> i" using less.prems(4) t by simp
    then have i: "0 < i" using length_numeral_pos [of ?b "unat x div ?b"] by linarith
    have nz: "x div base \<noteq> 0" 
    proof
      assume "x div base = 0"
      then have "unat x div ?b = 0" using d by simp
      then show False using False less.prems(1) by (simp add: div_eq_0_iff)
    qed
    have "printint_loop (buf[i := digits ! (unat x mod ?b)]) (int (i - 1)) (x div base) base =
      Ok (patch (buf[i := digits ! (unat x mod ?b)]) (i - length ?t) ?t, int (i - 1) - int (length ?t))"
      using less.IH [of "i - 1" "buf[i := digits ! (unat x mod ?b)]" "x div base"] less.prems i l by (simp add: d)
    moreover have "int (i - 1) = int i - 1" using i by simp
    ultimately show ?thesis using lt less.prems(3) m nz l
      by (subst printint_loop.simps) (simp add: t patch_front)
  qed
qed

lemma printint_ok:
  assumes "base = 10 \<or> base = 16" and "17 \<le> length junk"
  shows "printint junk out xx base sign =
    Ok (out @ (if sign \<and> sint xx < 0 then [45] else [])
            @ numeral_text (unat base) (unat (if sign \<and> sint xx < 0 then - xx else xx)))"
proof -
  define neg where "neg \<longleftrightarrow> sign \<and> sint xx < 0"
  define x where "x = (if neg then - xx else xx)"
  define t where "t = numeral_text (unat base) (unat x)"
  define buf where "buf = (take 17 junk)[16 := (0::u8)]"
  have b: "2 \<le> unat base" "unat base \<le> 16" using assms(1) by auto
  have "unat x < 2 ^ 32" using unsigned_less [of x, where ?'a = nat] by simp
  then have "unat x < unat base ^ 10" using assms(1) by auto
  then have lt: "length t \<le> 10" using length_numeral_text [OF b(1)] by (simp add: t_def)
  have nz: "0 \<notin> set t" using numeral_text_nonzero [OF b] by (simp add: t_def)
  have lb: "length buf = 17" and b16: "buf ! 16 = 0" using assms(2) by (simp_all add: buf_def)
  have loop: "printint_loop buf 15 x base = Ok (patch buf (16 - length t) t, 15 - int (length t))"
    using printint_loop_ok [OF b, of 15 buf x] lb lt by (simp add: t_def)
  have d16: "drop 16 buf = [0]"
    using lb b16 by (intro nth_equalityI) auto
  have p0: "drop (16 - length t) (patch buf (16 - length t) t) = t @ [0]"
    using lb lt d16 by (simp add: patch_def)
  have p1: "drop (15 - length t) ((patch buf (16 - length t) t)[15 - length t := 45]) = 45 # t @ [0]"
  proof -
    have "drop (15 - length t) ((patch buf (16 - length t) t)[15 - length t := 45])
        = 45 # drop (Suc (15 - length t)) (patch buf (16 - length t) t)"
      using lb lt by (subst Cons_nth_drop_Suc [symmetric]) simp_all
    moreover have "Suc (15 - length t) = 16 - length t" using lt by simp
    ultimately show ?thesis using p0 by simp
  qed
  have n: "nat (16 - int (length t)) = 16 - length t" "nat (15 - int (length t)) = 15 - length t" by simp_all
  have s: "printint junk out xx base sign =
    (if neg then bind_res (cons_puts out (45 # t @ [0])) (\<lambda>(c, out). Ok out)
     else bind_res (cons_puts out (t @ [0])) (\<lambda>(c, out). Ok out))"
    using loop lb lt p0 p1 n
    by (auto simp: printint_def neg_def [symmetric] x_def [symmetric] buf_def [symmetric] Let_def)
  show ?thesis unfolding s using cons_puts_ok [of t out "[]"] cons_puts_ok [of "45 # t" out "[]"] nz
    by (simp add: neg_def [symmetric] x_def [symmetric] t_def [symmetric])
qed

section \<open>Printing and reading back\<close>

definition int_text :: "nat \<Rightarrow> u32 \<Rightarrow> u8 list" where
  "int_text b v = (if sint v < 0 then [45] else []) @ numeral_text b (nat \<bar>sint v\<bar>)"

lemma unat_abs: "unat (if sint v < 0 then - v else v) = nat \<bar>sint (v::u32)\<bar>"
proof (cases "sint v < 0")
  case True
  have "- (2 ^ 31) \<le> sint v" using sint_ge [of v] by simp
  moreover have "uint (word_of_int k :: u32) = k" if "0 \<le> k" "k < 2 ^ 32" for k
    using that by (simp add: unsigned_of_int take_bit_int_eq_self)
  from this [of "- sint v"] have "0 \<le> - sint v \<Longrightarrow> - sint v < 2 ^ 32 \<Longrightarrow> uint (- v) = - sint v" by simp
  ultimately have "uint (- v) = - sint v" using True by simp
  then show ?thesis using True by (simp add: unat_eq_nat_uint)
next
  case False
  moreover have "sint v < 2 ^ 31" using sint_lt [of v] by simp
  ultimately have "uint v = sint v" by (simp add: uint_sint take_bit_int_eq_self)
  then show ?thesis using False by (simp add: unat_eq_nat_uint)
qed

lemma printint_signed:
  assumes "base = 10 \<or> base = 16" and "17 \<le> length junk"
  shows "printint junk out v base True = Ok (out @ int_text (unat base) v)"
  using printint_ok [OF assms, of out v True] unat_abs [of v] by (simp add: int_text_def)

lemma digits_value_snoc: "digits_value (ds @ [d]) = 10 * digits_value ds + (uint d - 48)"
  by (simp add: digits_value_def)

lemma decimal_digit: "n < 10 \<Longrightarrow> isdigit (digits ! n) \<and> uint (digits ! n) - 48 = int n"
  using digits_range [of n] by (simp add: isdigit_iff uint_nat)

lemma decimal_value: "digits_value (numeral_text 10 n) = int n \<and> (\<forall>c \<in> set (numeral_text 10 n). isdigit c)"
proof (induction n rule: less_induct)
  case (less n)
  show ?case
  proof (cases "n < 10")
    case True
    then show ?thesis using decimal_digit [of n] by (simp add: numeral_text_small digits_value_def)
  next
    case False
    then have "n div 10 < n" by simp
    then show ?thesis using False less.IH [of "n div 10"] decimal_digit [of "n mod 10"]
      by (auto simp: numeral_text_step digits_value_snoc zdiv_int zmod_int)
  qed
qed

text \<open>The sixteen digits of a pointer.\<close>

definition ptr_text :: "u64 \<Rightarrow> u8 list" where
  "ptr_text x = [48, 120] @ map (\<lambda>j. digits ! unat (take_bit 4 (drop_bit (60 - 4 * j) x))) [0..<16]"

lemma top_nibble: "j < 16 \<Longrightarrow> drop_bit 60 (push_bit (4 * j) x) = take_bit 4 (drop_bit (60 - 4 * j) (x::u64))"
  by (rule bit_eqI) (auto simp: bit_simps)

lemma nibble_small: "unat (take_bit 4 (x::u64)) < 16"
proof -
  have "unat (take_bit 4 x) = take_bit 4 (unat x)" by (simp add: unsigned_take_bit_eq)
  then show ?thesis using take_bit_nat_less_exp [of 4 "unat x"] by simp
qed

lemma printptr_loop_ok:
  assumes "m \<le> 16" and "i + m \<le> length buf"
  shows "printptr_loop m buf i (push_bit (4 * (16 - m)) x) =
    Ok (patch buf i (map (\<lambda>j. digits ! unat (take_bit 4 (drop_bit (60 - 4 * j) x))) [16 - m..<16]), i + m)"
  using assms
proof (induction m arbitrary: buf i)
  case (Suc m)
  let ?d = "\<lambda>j. digits ! unat (take_bit 4 (drop_bit (60 - 4 * j) x))"
  define q where "q = 16 - Suc m"
  have j: "q < 16" and q: "16 - m = Suc q" using Suc.prems(1) by (simp_all add: q_def)
  have top: "drop_bit 60 (push_bit (4 * q) x) = take_bit 4 (drop_bit (60 - 4 * q) x)"
    using top_nibble [OF j] .
  have sh: "push_bit 4 (push_bit (4 * q) x) = push_bit (4 * Suc q) x"
    by (simp add: push_bit_push_bit)
  have up: "[q..<16] = q # [Suc q..<16]" using upt_conv_Cons [OF j] .
  have pa: "patch (buf[i := d]) (i + 1) ds = patch buf i (d # ds)" if "length ds = m" for d ds
    using that Suc.prems(2) by (intro nth_equalityI) (auto simp: nth_patch nth_list_update nth_Cons')
  have "printptr_loop (Suc m) buf i (push_bit (4 * q) x) =
    printptr_loop m (buf[i := ?d q]) (i + 1) (push_bit (4 * Suc q) x)"
    using Suc.prems(2) nibble_small [of "drop_bit (60 - 4 * q) x"] unfolding printptr_loop.simps top sh by simp
  also have "\<dots> = Ok (patch (buf[i := ?d q]) (i + 1) (map ?d [Suc q..<16]), i + 1 + m)"
    using Suc.IH [of "i + 1" "buf[i := ?d q]"] Suc.prems unfolding q by simp
  finally show ?case using pa [of "map ?d [Suc q..<16]" "?d q"] Suc.prems(1) q
    unfolding q_def [symmetric] up by simp
qed simp

lemma printptr_ok:
  assumes "33 \<le> length junk"
  shows "printptr junk out x = Ok (out @ ptr_text x)"
proof -
  let ?ds = "map (\<lambda>j. digits ! unat (take_bit 4 (drop_bit (60 - 4 * j) x))) [0..<16]"
  let ?b = "(take 33 junk)[0 := 48, 1 := (120::u8)]"
  have lb: "length ?b = 33" using assms by simp
  have b2: "take 2 ?b = [48, 120]"
    using assms by (intro nth_equalityI) (auto simp: less_Suc_eq numeral_2_eq_2)
  have loop: "printptr_loop 16 ?b 2 x = Ok (patch ?b 2 ?ds, 18)"
    using printptr_loop_ok [of 16 2 ?b x] lb by simp
  have nz: "0 \<notin> set ?ds" using nibble_small digits_range by fastforce
  have le: "18 \<le> length (take 2 ?b @ ?ds)" using b2 by simp
  have "(patch ?b 2 ?ds)[18 := 0] = [48, 120] @ ?ds @ 0 # drop 19 ?b"
  proof -
    have "patch ?b 2 ?ds = ([48, 120] @ ?ds) @ drop 18 ?b" unfolding patch_def b2 by simp
    moreover have "length ([48, 120] @ ?ds) = 18" by simp
    moreover have "drop 18 ?b = ?b ! 18 # drop 19 ?b" using lb by (subst Cons_nth_drop_Suc [symmetric]) simp_all
    ultimately show ?thesis by (simp only: list_update_length) (simp add: list_update_append)
  qed
  then have "cons_puts out ((patch ?b 2 ?ds)[18 := 0]) = Ok (18, out @ ptr_text x)"
    using cons_puts_ok [of "[48, 120] @ ?ds" out "drop 19 ?b"] nz by (simp add: ptr_text_def)
  then show ?thesis using loop assms lb by (simp add: printptr_def)
qed

section \<open>Formats, character by character\<close>

fun conv_text :: "u8 \<Rightarrow> vararg list \<Rightarrow> (u8 list \<times> vararg list) option" where
  "conv_text c ap =
     (if c = 100 then (case ap of V_int v # ap \<Rightarrow> Some (int_text 10 v, ap) | _ \<Rightarrow> None)
      else if c = 120 then (case ap of V_int v # ap \<Rightarrow> Some (int_text 16 v, ap) | _ \<Rightarrow> None)
      else if c = 112 then (case ap of V_ptr v # ap \<Rightarrow> Some (ptr_text v, ap) | _ \<Rightarrow> None)
      else if c = 115 then (case ap of
          V_str None # ap \<Rightarrow> Some (butlast null_text, ap)
        | V_str (Some a) # ap \<Rightarrow> if 0 \<in> set a then Some (takeWhile (\<lambda>c. c \<noteq> 0) a, ap) else None
        | _ \<Rightarrow> None)
      else Some ([37, c], ap))"

declare conv_text.simps [simp del]

text \<open>
  The text of a format read one character at a time: \<open>None\<close> when an argument is missing or has
  the wrong type, or a string argument is not terminated. A single percent sign at the end prints nothing.
\<close>

fun render :: "u8 list \<Rightarrow> vararg list \<Rightarrow> u8 list option" where
  "render [] ap = Some []"
| "render [c] ap = Some (if c = 37 then [] else [c])"
| "render (c # d # s) ap =
     (if c \<noteq> 37 then map_option ((#) c) (render (d # s) ap)
      else if d = 37 then map_option ((#) 37) (render s ap)
      else (case conv_text d ap of None \<Rightarrow> None | Some (t, ap) \<Rightarrow> map_option ((@) t) (render s ap)))"

lemma render_text: "37 \<notin> set t \<Longrightarrow> render (t @ s) ap = map_option ((@) t) (render s ap)"
proof (induction t)
  case Nil
  show ?case by (simp add: option.map_ident [unfolded id_def])
next
  case (Cons c t)
  then have "render ((c # t) @ s) ap = map_option ((#) c) (render (t @ s) ap)"
    by (cases "t @ s") auto
  then show ?case using Cons by (simp add: option.map_comp comp_def)
qed

lemma render_pairs: "render (replicate (2 * z) 37 @ s) ap = map_option ((@) (replicate z 37)) (render s ap)"
proof (induction z)
  case 0
  show ?case by (simp add: option.map_ident [unfolded id_def])
next
  case (Suc z)
  then show ?case by (simp add: option.map_comp comp_def)
qed

lemma skip_text_ok: "0 \<notin> set s \<Longrightarrow> skip_text (s @ [0]) = Ok (dropWhile (\<lambda>c. c \<noteq> 37) s @ [0])"
  by (induction s) auto

text \<open>After the pairs comes the end, another character, a lone percent sign or a conversion.\<close>

fun unpaired :: "u8 list \<Rightarrow> bool" where
  "unpaired (c # d # s) \<longleftrightarrow> c \<noteq> 37 \<or> d \<noteq> 37"
| "unpaired s \<longleftrightarrow> True"

lemma skip_pairs_ok:
  "0 \<notin> set s \<Longrightarrow> \<exists>n s'. s = replicate (2 * n) 37 @ s' \<and> unpaired s' \<and> skip_pairs (s @ [0]) z = Ok (z + n, s' @ [0])"
proof (induction s arbitrary: z rule: induct_list012)
  case 1
  show ?case by (intro exI [of _ 0] exI [of _ "[]"]) simp
next
  case (2 c)
  then show ?case by (intro exI [of _ 0] exI [of _ "[c]"]) simp
next
  case (3 c d s)
  show ?case
  proof (cases "c = 37 \<and> d = 37")
    case True
    obtain n s' where "s = replicate (2 * n) 37 @ s'" "unpaired s'" "skip_pairs (s @ [0]) (z + 1) = Ok (z + 1 + n, s' @ [0])"
      using 3(1) [of "z + 1"] 3(3) by auto
    then show ?thesis using True by (intro exI [of _ "Suc n"] exI [of _ s']) simp
  next
    case False
    then show ?thesis by (intro exI [of _ 0] exI [of _ "c # d # s"]) auto
  qed
qed

lemma conversion_ok:
  assumes "conv_text c ap = Some (t, ap')" and "33 \<le> length junk"
  shows "conversion junk out c ap = Ok (out @ t, ap')"
proof -
  have str: "cons_puts out a = Ok (length (takeWhile (\<lambda>c. c \<noteq> 0) a), out @ takeWhile (\<lambda>c. c \<noteq> 0) a)" if "0 \<in> set a" for a :: "u8 list"
  proof -
    have d: "dropWhile (\<lambda>c. c \<noteq> 0) a \<noteq> []" using that by simp
    then obtain r where "dropWhile (\<lambda>c. c \<noteq> 0) a = 0 # r" using hd_dropWhile [OF d] by (metis list.collapse)
    then have "a = takeWhile (\<lambda>c. c \<noteq> 0) a @ 0 # r" by (metis takeWhile_dropWhile_id)
    moreover have "0 \<notin> set (takeWhile (\<lambda>c. c \<noteq> 0) a)" by (metis (mono_tags) set_takeWhileD)
    ultimately show ?thesis by (metis cons_puts_ok)
  qed
  have nul: "cons_puts out null_text = Ok (6, out @ butlast null_text)"
    using cons_puts_ok [of "butlast null_text" out "[]"] by (simp add: null_text_def)
  have p: "cons_putc (cons_putc out 37) (uint c) = out @ [37, c]"
    using cons_putc_byte [of out 37] by simp
  show ?thesis using assms str nul p
    by (auto simp: conv_text.simps conversion_def printint_signed printptr_ok
        split: if_splits list.splits vararg.splits option.splits)
qed

lemma vprintk_end [simp]: "vprintk junk out [0] ap = Ok out"
  by (simp add: vprintk.simps)

text \<open>One round of the loop on a format that is not empty: the text and the pairs in front of it.\<close>

lemma vprintk_step:
  assumes "s \<noteq> []" and "0 \<notin> set s"
  shows "\<exists>p r. render s ap = map_option ((@) p) (render r ap) \<and> 0 \<notin> set r \<and> unpaired r
    \<and> length p + length r \<le> length s \<and> (p = [] \<longrightarrow> r = s \<and> hd s = 37)
    \<and> vprintk junk out (s @ [0]) ap =
      (if length p \<noteq> 0 then vprintk junk (out @ p) (r @ [0]) ap
       else bind_res (aread (r @ [0]) 1) (\<lambda>c. if c = 0 then Ok (out @ p)
            else bind_res (conversion junk (out @ p) c ap) (\<lambda>(out, ap). vprintk junk out (drop 2 (r @ [0])) ap)))"
proof -
  let ?t = "takeWhile (\<lambda>c. c \<noteq> 37) s"
  let ?r = "dropWhile (\<lambda>c. c \<noteq> 37) s"
  have s: "s = ?t @ ?r" by simp
  have nz: "0 \<notin> set ?t" "0 \<notin> set ?r" and nt: "37 \<notin> set ?t"
    using assms(2) by (auto dest: set_takeWhileD set_dropWhileD)
  obtain n r' where r: "?r = replicate (2 * n) 37 @ r'" "unpaired r'" and sk: "skip_pairs (?r @ [0]) 0 = Ok (n, r' @ [0])"
    using skip_pairs_ok [OF nz(2), of 0] by auto
  define p where "p = ?t @ replicate n (37::u8)"
  have sp: "s @ [0] = p @ (replicate n 37 @ r' @ [0])"
  proof -
    have "s = ?t @ replicate (n + n) 37 @ r'" using s unfolding r(1) mult_2 .
    then show ?thesis by (rule trans [OF arg_cong [of _ _ "\<lambda>x. x @ [0]"]]) (simp add: p_def replicate_add)
  qed
  have zp: "0 \<notin> set p" using nz(1) by (auto simp: p_def)
  have h0: "hd s \<noteq> 0" using assms(2) hd_in_set [OF assms(1)] by metis
  have hd: "aread (s @ [0]) 0 = Ok (hd s)" using assms(1) by (simp add: aread_def hd_conv_nth nth_append)
  have l: "length (s @ [0]) - length (?r @ [0]) + n = length p"
  proof -
    have "length s = length ?t + length ?r" using s by (metis length_append)
    then show ?thesis by (simp add: p_def)
  qed
  have pr: "cons_puts_n out (s @ [0]) (length p) = Ok (length p, out @ p)"
    unfolding sp by (rule cons_puts_n_ok [OF zp]) simp
  have step: "vprintk junk out (s @ [0]) ap =
    (if length p \<noteq> 0 then vprintk junk (out @ p) (r' @ [0]) ap
     else bind_res (aread (r' @ [0]) 1) (\<lambda>c. if c = 0 then Ok (out @ p)
          else bind_res (conversion junk (out @ p) c ap) (\<lambda>(out, ap). vprintk junk out (drop 2 (r' @ [0])) ap)))"
    unfolding vprintk.simps [of junk out "s @ [0]"] hd skip_text_ok [OF assms(2)] bind_res.simps sk prod.case Let_def l pr
    using h0 by simp
  have ren: "render s ap = map_option ((@) p) (render r' ap)"
  proof -
    have "render s ap = map_option ((@) ?t) (render ?r ap)"
      using render_text [OF nt, of ?r ap] by (simp only: takeWhile_dropWhile_id)
    also have "render ?r ap = map_option ((@) (replicate n 37)) (render r' ap)"
      by (simp only: r(1) render_pairs)
    finally show ?thesis by (cases "render r' ap") (simp_all add: p_def)
  qed
  have z: "0 \<notin> set r'" using nz(2) r(1) by auto
  have len: "length p + length r' \<le> length s" using arg_cong [OF sp, of length] by simp
  have emp: "r' = s \<and> hd s = 37" if "p = []"
  proof -
    have tn: "?t = []" "n = 0" using that by (simp_all add: p_def)
    have "?r = s" using tn(1) takeWhile_dropWhile_id [of "\<lambda>c. c \<noteq> 37" s] by (simp only: append_Nil)
    then show ?thesis using r(1) tn assms(1) by (simp add: takeWhile_eq_Nil_iff)
  qed
  show ?thesis using ren z r(2) len emp step by (intro exI [of _ p] exI [of _ r']) blast
qed

lemma vprintk_ok:
  assumes "render s ap = Some t" and "0 \<notin> set s" and "33 \<le> length junk"
  shows "vprintk junk out (s @ [0]) ap = Ok (out @ t)"
  using assms(1,2)
proof (induction s arbitrary: out ap t rule: length_induct)
  case (1 s)
  show ?case
  proof (cases "s = []")
    case False
    obtain p r where ren: "render s ap = map_option ((@) p) (render r ap)" and r: "0 \<notin> set r" "unpaired r"
      and len: "length p + length r \<le> length s" and emp: "p = [] \<longrightarrow> r = s \<and> hd s = 37"
      and step: "vprintk junk out (s @ [0]) ap =
        (if length p \<noteq> 0 then vprintk junk (out @ p) (r @ [0]) ap
         else bind_res (aread (r @ [0]) 1) (\<lambda>c. if c = 0 then Ok (out @ p)
              else bind_res (conversion junk (out @ p) c ap) (\<lambda>(out, ap). vprintk junk out (drop 2 (r @ [0])) ap)))"
      using vprintk_step [OF False 1(3), of ap junk out] by auto
    show ?thesis
    proof (cases "p = []")
      case True
      then obtain q where q: "s = 37 # q" using False emp by (metis list.collapse)
      show ?thesis
      proof (cases q)
        case Nil
        then show ?thesis using 1(2) step True emp q by (simp add: aread_def)
      next
        case (Cons d q')
        then have d: "d \<noteq> 37" "d \<noteq> 0" using r(2) True emp q 1(3) by auto
        then obtain u ap' v where u: "conv_text d ap = Some (u, ap')" "render q' ap' = Some v" "t = u @ v"
          using 1(2) q Cons by (auto split: option.splits)
        have "vprintk junk (out @ u) (q' @ [0]) ap' = Ok ((out @ u) @ v)"
          using 1(1) u(2) 1(3) q Cons by simp
        then show ?thesis using step True emp q Cons d conversion_ok [OF u(1) assms(3), of out] u(3)
          by (simp add: aread_def)
      qed
    next
      case pn: False
      obtain v where v: "render r ap = Some v" "t = p @ v" using 1(2) ren by auto
      have "length r < length s" using len pn by (cases p) auto
      then have "vprintk junk (out @ p) (r @ [0]) ap = Ok ((out @ p) @ v)" using 1(1) v(1) r(1) by blast
      then show ?thesis using step pn v(2) by simp
    qed
  qed (use 1 in simp)
qed

section \<open>Reading from the console\<close>

text \<open>The entry of the console in the table of devices, on the console \<open>c\<close>; the write side is \<open>wr\<close>.\<close>

definition CONSOLE :: int where "CONSOLE = 1"

definition console_dev :: "cons \<Rightarrow> devop option \<Rightarrow> devsw" where
  "console_dev c wr m =
     (if m = CONSOLE
      then (Some (\<lambda>k addr n. bind_res (consoleread (ux (kfs k)) (ksched k) c (User addr) n) (\<lambda>(r, i, u, s, c, b).
              case r of Return v \<Rightarrow> Ok (v, k\<lparr>ksched := s, kfs := (kfs k)\<lparr>ux := u\<rparr>\<rparr>) | Blocked \<Rightarrow> Fail Spin_forever)), wr)
      else (None, None))"

lemma consoleread_idle:
  assumes "0 < sint n" and "cons_r c = cons_w c" and "\<not> cons_lock c" and "mytask s = Some t" and "\<not> tcb_lock (tasks s t)"
  shows "consoleread u s c dst n = Fail (Panic ''?????'')"
proof -
  obtain m where "rounds n = Suc m" using assms(1) by (cases "rounds n") (auto simp: rounds_def)
  then show ?thesis using assms by (simp add: consoleread_def sleep_enter_def lock_task_def)
qed

lemma consolewrite_loop_ok:
  assumes "i + k \<le> length bs"
  shows "consolewrite_loop u out (Kern bs) i k = Ok (i + k, out @ take k (drop i bs))"
  using assms
proof (induction k arbitrary: i out)
  case (Suc k)
  have "take (Suc k) (drop i bs) = bs ! i # take k (drop (Suc i) bs)"
    using Suc.prems by (simp add: Cons_nth_drop_Suc [symmetric])
  moreover have "take 1 (drop i bs) = [bs ! i]" using Suc.prems by (simp add: Cons_nth_drop_Suc [symmetric])
  ultimately show ?case using Suc by (simp add: either_copyin_def aread_def)
qed simp

lemma consolewrite_kernel:
  assumes "rounds n \<le> length bs"
  shows "consolewrite u out (Kern bs) n = Ok (rounds n, out @ take (rounds n) bs)"
  using consolewrite_loop_ok [of 0 "rounds n" bs u out] assms by (simp add: consolewrite_def)

lemma cstr_prefix: "cstr m a cs \<Longrightarrow> rbytes m a (length cs) = cs"
  by (induction cs arbitrary: a) (auto simp: rbytes_Suc)

section \<open>Properties\<close>

text \<open>C38: \<^verbatim>\<open>printint\<close> in base 10 stays inside its buffer and prints a string that \<^verbatim>\<open>atoi\<close> reads back
  as the same number, for every 32 bit integer, the smallest one included.\<close>

theorem printint_atoi:
  assumes "17 \<le> length junk"
  shows "\<exists>txt. printint junk out v 10 True = Ok (out @ txt) \<and> (\<forall>m a. cstr m a txt \<longrightarrow> atoi m a = Some (sint v))"
proof -
  have "atoi m a = Some (sint v)" if c: "cstr m a (int_text 10 v)" for m a
  proof -
    let ?sg = "if sint v < 0 then [45] else [] :: u8 list"
    let ?ds = "numeral_text 10 (nat \<bar>sint v\<bar>)"
    have p: "rbytes m a (length ([] @ ?sg @ ?ds)) = [] @ ?sg @ ?ds" and e: "m (a + of_nat (length ([] @ ?sg @ ?ds))) = 0"
      using cstr_prefix [OF c] cstr_end [OF c] unfolding int_text_def append_Nil by this+
    have "\<not> isdigit (m (a + of_nat (length ([] @ ?sg @ ?ds))))" unfolding e by (simp add: isdigit_iff)
    then have "atoi m a = Some (if ?sg = [45] then - digits_value ?ds else digits_value ?ds)"
      using decimal_value [of "nat \<bar>sint v\<bar>"] by (intro atoi_ok [OF p]) simp_all
    then show ?thesis using decimal_value [of "nat \<bar>sint v\<bar>"] by simp
  qed
  moreover have "printint junk out v 10 True = Ok (out @ int_text 10 v)" using printint_signed [of 10 junk out v] assms by simp
  ultimately show ?thesis by blast
qed

theorem printint_atoi_witness:
  "\<exists>txt. printint (replicate 17 7) [] (- 2147483648) 10 True = Ok ([] @ txt)
    \<and> (\<forall>m a. cstr m a txt \<longrightarrow> atoi m a = Some (- 2147483648))"
  using printint_atoi [of "replicate 17 7" "[]" "- 2147483648"] by simp

text \<open>C37: \<^verbatim>\<open>vprintk\<close>, which prints the text between conversions in one piece and takes the doubled percent
  signs behind it along, terminates and prints exactly what a reading of the format character by character
  gives: the text, one percent sign for each pair, and the converted arguments in their order.\<close>

theorem vprintk_reference:
  assumes "render s ap = Some t" and "0 \<notin> set s" and "33 \<le> length junk"
  shows "vprintk junk out (s @ [0]) ap = Ok (out @ t)"
  using vprintk_ok [OF assms] .

theorem vprintk_reference_witness:
  "vprintk (replicate 33 7) [] ([97, 37, 37, 37, 100, 58, 37, 115, 37] @ [0]) [V_int (- 42), V_str (Some [104, 105, 0])]
     = Ok ([] @ [97, 37, 45, 52, 50, 58, 104, 105])"
  by (rule vprintk_reference)
    (simp_all add: conv_text.simps int_text_def numeral_text_step numeral_text_small digits_def)

text \<open>C39: reading from the console takes the machine down. On the console as \<^verbatim>\<open>consoleinit\<close> leaves it, and nothing
  ever puts input into it, a read of at least one byte by any task from any descriptor of the console ends in
  the panic of \<^verbatim>\<open>release\<close>: \<^verbatim>\<open>sleep\<close> gives up the console lock, which \<^verbatim>\<open>consoleread\<close> has not taken.\<close>

theorem console_read_panics:
  assumes "argfd a 0 k = Ok (Some (fd, f))" and "f_type (ftable k ! f) = FD_DEVICE" and "f_major (ftable k ! f) = CONSOLE"
    and "f_readable (ftable k ! f)" and "0 < sint (ucast (a 2) :: u32)"
    and "mytask (ksched k) = Some t" and "\<not> tcb_lock (tasks (ksched k) t)"
  shows "sys_read (console_dev (consoleinit c) wr) a k = Fail (Panic ''?????'')"
proof -
  have "consoleread (ux (kfs k)) (ksched k) (consoleinit c) (User (a 1)) (ucast (a 2)) = Fail (Panic ''?????'')"
    using assms(5-7) by (intro consoleread_idle) (simp_all add: consoleinit_def)
  then show ?thesis using assms
    by (simp add: sys_read_def argint_def argaddr_def argraw_def fileread_def console_dev_def CONSOLE_def NDEV_def Let_def)
qed

theorem console_read_panics_witness:
  "sys_read (console_dev (consoleinit \<lparr>cons_lock = False, cons_buf = replicate 128 0, cons_r = 0, cons_w = 0, cons_e = 0, cons_waitr = []\<rparr>) None)
     (\<lambda>i. if i = 2 then 10 else 0) (set_fd (fileinit ex_kernel) 0 0 (Some 0)) = Fail (Panic ''?????'')"
proof (rule console_read_panics [of _ _ 0 0 0])
  show "argfd (\<lambda>i. if i = 2 then 10 else 0) 0 (set_fd (fileinit ex_kernel) 0 0 (Some 0)) = Ok (Some (0, 0))"
    by (simp add: argfd_def argint_def argraw_def set_fd_def fileinit_def ex_kernel_def family_def mytask_def NOFILE_def)
qed (simp_all add: set_fd_def fileinit_def ex_kernel_def family_def mytask_def NFILE_def CONSOLE_def child_tcb_def blank_tcb_def)

end
