(* ===== verification/Sys_Calls.thy ===== *)
theory Sys_Calls
  imports Open_Files Mapped_Files Clock
begin

text \<open>
  The other system calls of \<^verbatim>\<open>syscall.c\<close>: directories (\<^verbatim>\<open>getcwd\<close>, \<^verbatim>\<open>chdir\<close>, \<^verbatim>\<open>mkdirat\<close>, \<^verbatim>\<open>unlinkat\<close>,
  \<^verbatim>\<open>getdents64\<close> with \<^verbatim>\<open>ls\<close> of \<^verbatim>\<open>fs_fat32.c\<close>), \<^verbatim>\<open>fstat\<close>, identity, waiting, time and memory, and the
  dispatch over the table of calls. The state is the kernel of \<^verbatim>\<open>Open_Files\<close>.

  The theorems: the path that \<^verbatim>\<open>getcwd\<close> builds backwards in its buffer, and when it does not fit;
  the bound of \<^verbatim>\<open>getdents64\<close>; what \<^verbatim>\<open>unlinkat\<close> does on a name that does not exist and on a file that is
  in use; and the table of calls, which is indexed without a test.
\<close>

section \<open>Copies to the caller\<close>

definition user_put :: "kstate \<Rightarrow> u64 \<Rightarrow> u8 list \<Rightarrow> (int \<times> kstate) res" where
  "user_put k addr src =
     (let u = ux (kfs k)
      in bind_res (copyout2 (usz u) (umem u) (upt u) addr src (of_nat (length src))) (\<lambda>(r, m).
         Ok (r, k\<lparr>kfs := (kfs k)\<lparr>ux := u\<lparr>umem := m\<rparr>\<rparr>\<rparr>)))"

section \<open>The current directory\<close>

text \<open>
  The loop of \<^verbatim>\<open>sys_getcwd\<close>: \<open>i\<close> is the index of \<^verbatim>\<open>s\<close> in the buffer. \<open>None\<close> is the result -1.
\<close>

function getcwd_loop :: "fs \<Rightarrow> nat \<Rightarrow> nat \<Rightarrow> u8 list \<Rightarrow> (nat \<times> u8 list) option" where
  "getcwd_loop t de i path =
     (case dparent (ent t de) of
        None \<Rightarrow> Some (i, path)
      | Some p \<Rightarrow>
          let nm = Fat_Name.cstr (filename (ent t de)); len = length nm
          in if i \<le> len then None
             else getcwd_loop t p (i - len - 1) ((patch path (i - len) nm)[i - len - 1 := 47]))"
  by pat_completeness auto
termination by (relation "measure (\<lambda>(t, de, i, path). i)") auto

declare getcwd_loop.simps [simp del]

definition sys_getcwd :: "u8 list \<Rightarrow> regs \<Rightarrow> kstate \<Rightarrow> (int \<times> kstate) res" where
  "sys_getcwd junk a k =
     bind_res (argaddr a 0) (\<lambda>addr.
     case mytask (ksched k) of None \<Rightarrow> Fail Null_pointer
     | Some t \<Rightarrow> (case kcwd k t of None \<Rightarrow> Fail Null_pointer
       | Some de \<Rightarrow>
          (case (if dparent (ent (kfs k) de) = None then Some [47, 0]
                 else map_option (\<lambda>(i, path). drop i path) (getcwd_loop (kfs k) de 259 ((take 260 junk)[259 := 0]))) of
             None \<Rightarrow> Ok (- 1, k)
           | Some s \<Rightarrow> bind_res (user_put k addr (Fat_Name.cstr s @ [0])) (\<lambda>(r, k). Ok (if r < 0 then 0 else 1, k)))))"

text \<open>\<open>g\<close> is the fuel of the walk along the path.\<close>

definition sys_chdir :: "nat \<Rightarrow> regs \<Rightarrow> kstate \<Rightarrow> (int \<times> kstate) res" where
  "sys_chdir g a k =
     (case mytask (ksched k) of None \<Rightarrow> Fail Null_pointer
      | Some t \<Rightarrow>
        bind_res (argstr a 0 k FAT32_MAX_PATH) (\<lambda>p. case p of None \<Rightarrow> Ok (- 1, k)
        | Some path \<Rightarrow> bind_res (ename g (kfs k) (kcwd k t) path) (\<lambda>(ep, s). case ep of None \<Rightarrow> Ok (- 1, k\<lparr>kfs := s\<rparr>)
          | Some ep \<Rightarrow>
             bind_res (elock s (Some ep)) (\<lambda>s.
             if attribute (ent s ep) AND ATTR_DIRECTORY = 0
             then bind_res (eunlock s (Some ep)) (\<lambda>s. bind_res (eput g s ep) (\<lambda>s. Ok (- 1, k\<lparr>kfs := s\<rparr>)))
             else bind_res (eunlock s (Some ep)) (\<lambda>s.
                  case kcwd k t of None \<Rightarrow> Fail Null_pointer
                  | Some c \<Rightarrow> bind_res (eput g s c) (\<lambda>s. Ok (0, k\<lparr>kfs := s, kcwd := (kcwd k)(t := Some ep)\<rparr>)))))))"

section \<open>Making and removing entries\<close>

definition FAT32_MAX_FILENAME :: u64 where "FAT32_MAX_FILENAME = 255"

definition sys_mkdir :: "nat \<Rightarrow> regs \<Rightarrow> kstate \<Rightarrow> (int \<times> kstate) res" where
  "sys_mkdir g a k =
     bind_res (argint a 0) (\<lambda>fd.
     bind_res (argstr a 1 k FAT32_MAX_FILENAME) (\<lambda>p. case p of None \<Rightarrow> Ok (- 1, k)
     | Some path \<Rightarrow> bind_res (argint a 2) (\<lambda>mode.
        case mytask (ksched k) of None \<Rightarrow> Fail Null_pointer
        | Some t \<Rightarrow> bind_res (create g (kfs k) (kcwd k t) path T_DIR 0) (\<lambda>(ep, s). case ep of None \<Rightarrow> Ok (- 1, k\<lparr>kfs := s\<rparr>)
          | Some ep \<Rightarrow> bind_res (eunlock s (Some ep)) (\<lambda>s. bind_res (eput g s ep) (\<lambda>s. Ok (0, k\<lparr>kfs := s\<rparr>)))))))"

text \<open>The entry is not compared with the null pointer, nor locked.\<close>

definition sys_unlink :: "nat \<Rightarrow> regs \<Rightarrow> kstate \<Rightarrow> (int \<times> kstate) res" where
  "sys_unlink g a k =
     bind_res (argint a 0) (\<lambda>fd.
     bind_res (argstr a 1 k FAT32_MAX_FILENAME) (\<lambda>p. case p of None \<Rightarrow> Ok (- 1, k)
     | Some path \<Rightarrow> bind_res (argint a 2) (\<lambda>flags.
        case mytask (ksched k) of None \<Rightarrow> Fail Null_pointer
        | Some t \<Rightarrow> bind_res (ename g (kfs k) (kcwd k t) path) (\<lambda>(ep, s). case ep of None \<Rightarrow> Fail Null_pointer
          | Some ep \<Rightarrow>
             let s = upd_ent ep (\<lambda>d. d\<lparr>dref := dref d - 1\<rparr>) s
             in bind_res (if dref (ent s ep) = 0 then eremove s ep else Ok s) (\<lambda>s. Ok (0, k\<lparr>kfs := s\<rparr>))))))"

section \<open>Reading metadata\<close>

text \<open>\<^verbatim>\<open>struct kstat\<close>: 128 bytes, all zero but the device, the mode and the size.\<close>

definition kstat_bytes :: "u64 \<Rightarrow> u32 \<Rightarrow> u64 \<Rightarrow> u8 list" where
  "kstat_bytes dev mode sz =
     le_bytes 8 dev @ replicate 8 0 @ le_bytes 4 (ucast mode) @ replicate 28 0 @ le_bytes 8 sz @ replicate 72 0"

definition sys_fstat :: "regs \<Rightarrow> kstate \<Rightarrow> (int \<times> kstate) res" where
  "sys_fstat a k =
     bind_res (argfd a 0 k) (\<lambda>d. case d of None \<Rightarrow> Ok (- 1, k)
     | Some (fd, f) \<Rightarrow> bind_res (argaddr a 1) (\<lambda>st.
        case f_ep (ftable k ! f) of None \<Rightarrow> Fail Null_pointer
        | Some e \<Rightarrow>
           let de = ent (kfs k) e
           in user_put k st (kstat_bytes (ucast (ddev de)) (if attribute de AND ATTR_DIRECTORY \<noteq> 0 then 1 else 2) (ucast (file_size de)))))"

text \<open>
  The loop of \<^verbatim>\<open>ls\<close>. \<open>de\<close> is the local entry \<^verbatim>\<open>ep2\<close>, which is not initialised; the results of the
  copies are ignored. A result 0 of \<^verbatim>\<open>enext\<close>, free slots, makes a record as well.
\<close>

definition dirent64_bytes :: "dirent \<Rightarrow> u64 \<Rightarrow> nat \<Rightarrow> u8 list" where
  "dirent64_bytes de addr reclen =
     le_bytes 8 (ucast (first_clus de)) @ le_bytes 8 (addr + of_nat reclen) @ le_bytes 2 (of_nat reclen) @ [attribute de]"

primrec ls_loop :: "nat \<Rightarrow> kstate \<Rightarrow> nat \<Rightarrow> dirent \<Rightarrow> u64 \<Rightarrow> u32 \<Rightarrow> nat \<Rightarrow> u32 \<Rightarrow> int \<Rightarrow> (nat \<times> kstate) res" where
  "ls_loop 0 k e de addr sz nrd off count' = Fail Spin_forever"
| "ls_loop (Suc g) k e de addr sz nrd off count' =
     bind_res (enext g (kfs k) e de off count') (\<lambda>(r, count', de, s).
     let k = k\<lparr>kfs := s\<rparr>; nm = Fat_Name.cstr (filename de); reclen = 19 + length nm + 1
     in if r = - 1 then Ok (nrd, k)
        else if (of_nat (nrd + length nm + 1 + 19) :: u64) \<ge> scast sz then Ok (nrd, k)
        else bind_res (user_put k (addr + 19) (nm @ [0])) (\<lambda>(r1, k).
             bind_res (user_put k addr (dirent64_bytes de addr reclen)) (\<lambda>(r2, k).
             ls_loop g k e de (addr + of_nat reclen) sz (nrd + reclen) (off + push_bit 5 (word_of_int count')) count')))"

definition ls :: "nat \<Rightarrow> kstate \<Rightarrow> nat \<Rightarrow> dirent \<Rightarrow> u64 \<Rightarrow> u32 \<Rightarrow> (int \<times> kstate) res" where
  "ls g k f junk addr sz =
     (case f_ep (ftable k ! f) of None \<Rightarrow> Fail Null_pointer
      | Some e \<Rightarrow>
         if attribute (ent (kfs k) e) AND ATTR_DIRECTORY = 0 then Ok (- 1, k)
         else bind_res (reloc_clus (kfs k) e 0 False) (\<lambda>(r, s).
              bind_res (ls_loop g (k\<lparr>kfs := s\<rparr>) e junk addr sz 0 0 0) (\<lambda>(n, k). Ok (int n, k))))"

definition sys_getdents64 :: "nat \<Rightarrow> dirent \<Rightarrow> regs \<Rightarrow> kstate \<Rightarrow> (int \<times> kstate) res" where
  "sys_getdents64 g junk a k =
     bind_res (argfd a 0 k) (\<lambda>d. case d of None \<Rightarrow> Ok (- 1, k)
     | Some (fd, f) \<Rightarrow> bind_res (argaddr a 1) (\<lambda>p. bind_res (argint a 2) (\<lambda>sz. ls g k f junk p sz)))"

text \<open>
  \<^verbatim>\<open>filestat\<close> and \<^verbatim>\<open>dirnext\<close>, which no call uses: \<^verbatim>\<open>struct stat\<close> has 56 bytes, the name in the first 32, and is not initialised;
  \<open>junk\<close> are the bytes of the stack it lies in, \<open>de\<close> the local entry.
\<close>

definition stat_bytes :: "u8 list \<Rightarrow> kstat \<Rightarrow> u8 list" where
  "stat_bytes junk st =
     st_name st @ replicate (32 - length (st_name st)) 0 @ take 4 (drop 32 junk) @ le_bytes 4 (ucast (st_dev st))
     @ le_bytes 2 (of_nat (st_type st)) @ take 6 (drop 42 junk) @ le_bytes 8 (ucast (st_size st))"

definition filestat :: "u8 list \<Rightarrow> kstate \<Rightarrow> nat \<Rightarrow> u64 \<Rightarrow> (int \<times> kstate) res" where
  "filestat junk k f addr =
     (if f_type (ftable k ! f) = FD_ENTRY
      then let ep = f_ep (ftable k ! f) in
           bind_res (elock (kfs k) ep) (\<lambda>s. case ep of None \<Rightarrow> Fail Null_pointer
           | Some e \<Rightarrow>
              let st = estat (ent s e)
              in bind_res (eunlock s ep) (\<lambda>s.
                 bind_res (user_put (k\<lparr>kfs := s\<rparr>) addr (stat_bytes junk st)) (\<lambda>(r, k). Ok (if r < 0 then - 1 else 0, k))))
      else Ok (- 1, k))"

primrec dirnext_loop :: "nat \<Rightarrow> fs \<Rightarrow> nat \<Rightarrow> dirent \<Rightarrow> u32 \<Rightarrow> int \<Rightarrow> (int \<times> int \<times> dirent \<times> u32 \<times> fs) res" where
  "dirnext_loop 0 s e de off count' = Fail Spin_forever"
| "dirnext_loop (Suc g) s e de off count' =
     bind_res (enext g s e de off count') (\<lambda>(r, count', de, s).
     if r = 0 then dirnext_loop g s e de (off + word_of_int (count' * 32)) count' else Ok (r, count', de, off, s))"

definition dirnext :: "nat \<Rightarrow> u8 list \<Rightarrow> dirent \<Rightarrow> kstate \<Rightarrow> nat \<Rightarrow> u64 \<Rightarrow> (int \<times> kstate) res" where
  "dirnext g junk de k f addr =
     (let F = ftable k ! f in
      if \<not> f_readable F then Ok (- 1, k)
      else case f_ep F of None \<Rightarrow> Fail Null_pointer
      | Some e \<Rightarrow>
         if attribute (ent (kfs k) e) AND ATTR_DIRECTORY = 0 then Ok (- 1, k)
         else bind_res (elock (kfs k) (Some e)) (\<lambda>s.
              bind_res (dirnext_loop g s e de (f_off F) 0) (\<lambda>(r, count', de, off, s).
              bind_res (eunlock s (Some e)) (\<lambda>s.
              let k = k\<lparr>kfs := s, ftable := (ftable k)[f := F\<lparr>f_off := off\<rparr>]\<rparr>
              in if r = - 1 then Ok (0, k)
                 else let k = k\<lparr>ftable := (ftable k)[f := F\<lparr>f_off := off + word_of_int (count' * 32)\<rparr>]\<rparr>
                      in bind_res (user_put k addr (stat_bytes junk (estat de))) (\<lambda>(r, k). Ok (if r < 0 then - 1 else 1, k))))))"

section \<open>Identity, waiting, time and memory\<close>

definition sys_mount :: "regs \<Rightarrow> kstate \<Rightarrow> (int \<times> kstate) res" where
  "sys_mount a k = Ok (0, k)"

definition sys_umount :: "regs \<Rightarrow> kstate \<Rightarrow> (int \<times> kstate) res" where
  "sys_umount a k = Ok (0, k)"

definition sys_getuid :: "regs \<Rightarrow> kstate \<Rightarrow> (int \<times> kstate) res" where
  "sys_getuid a k = Ok (0, k)"

definition sys_getpid :: "kstate \<Rightarrow> u64 res" where
  "sys_getpid k = (case mytask (ksched k) of None \<Rightarrow> Fail Null_pointer | Some t \<Rightarrow> Ok (pid (tasks (ksched k) t)))"

definition sys_getppid :: "kstate \<Rightarrow> u64 res" where
  "sys_getppid k =
     (case mytask (ksched k) of None \<Rightarrow> Fail Null_pointer
      | Some t \<Rightarrow> (case parent (tasks (ksched k) t) of None \<Rightarrow> Fail Null_pointer
        | Some p \<Rightarrow> Ok (pid (tasks (ksched k) p))))"

definition sys_yield :: "kstate \<Rightarrow> (int \<times> kstate) res" where
  "sys_yield k = bind_res (suspend_current_and_run_next (ksched k)) (\<lambda>s. Ok (0, k\<lparr>ksched := s\<rparr>))"

text \<open>The names of the system in fields of 65 bytes; \<^verbatim>\<open>version\<close> stays empty.\<close>

definition uts_field :: "u8 list \<Rightarrow> u8 list" where
  "uts_field s = s @ replicate (65 - length s) 0"

definition uname :: "u8 list" where
  "uname = uts_field [88, 79, 83] @ uts_field [115, 116, 97, 98, 108, 101] @ uts_field [49, 46, 48] @ uts_field []
     @ uts_field [75, 50, 49, 48] @ uts_field [110, 111, 110, 101]"

definition sys_uname :: "regs \<Rightarrow> kstate \<Rightarrow> (int \<times> kstate) res" where
  "sys_uname a k = bind_res (argaddr a 0) (\<lambda>un. bind_res (user_put k un uname) (\<lambda>(r, k). Ok (0, k)))"

definition sys_wait4 :: "regs \<Rightarrow> kstate \<Rightarrow> (u64 outcome \<times> kstate) res" where
  "sys_wait4 a k =
     bind_res (argint a 0) (\<lambda>p. bind_res (argaddr a 1) (\<lambda>uaddr. bind_res (argint a 2) (\<lambda>opt.
     bind_res (waitpid (ux (kfs k)) (ksched k) (scast p) uaddr opt) (\<lambda>(r, u, s).
     Ok (r, k\<lparr>ksched := s, kfs := (kfs k)\<lparr>ux := u\<rparr>\<rparr>)))))"

definition sys_wait :: "regs \<Rightarrow> kstate \<Rightarrow> (u64 outcome \<times> kstate) res" where
  "sys_wait a k =
     bind_res (argaddr a 0) (\<lambda>uaddr.
     bind_res (waitpid (ux (kfs k)) (ksched k) (- 1) uaddr 0) (\<lambda>(r, u, s).
     Ok (r, k\<lparr>ksched := s, kfs := (kfs k)\<lparr>ux := u\<rparr>\<rparr>)))"

definition sys_gettimeofday :: "regs \<Rightarrow> kstate \<Rightarrow> rtc \<Rightarrow> (int \<times> kstate \<times> rtc) res" where
  "sys_gettimeofday a k c =
     bind_res (argaddr a 0) (\<lambda>ts. bind_res (argint a 1) (\<lambda>tz.
     bind_res (sys_time_get c) (\<lambda>(tm, c). case tm of None \<Rightarrow> Fail Null_pointer
     | Some tm \<Rightarrow> bind_res (tm2tamp tm (sint tz)) (\<lambda>(sec, usec).
        bind_res (user_put k ts (le_bytes 8 sec @ le_bytes 8 usec)) (\<lambda>(r, k). Ok (0, k, c))))))"

text \<open>The clock ticks are read at the start and at the end of the call itself.\<close>

definition sys_times :: "regs \<Rightarrow> kstate \<Rightarrow> u64 \<Rightarrow> u64 \<Rightarrow> (u64 \<times> kstate) res" where
  "sys_times a k ticks0 ticks1 =
     bind_res (argaddr a 0) (\<lambda>va.
     bind_res (getTimes (ksched k)) (\<lambda>(ut, st, cut, cst).
     bind_res (user_put k va (le_bytes 8 (scast ut) @ le_bytes 8 (scast st) @ le_bytes 8 (scast cut) @ le_bytes 8 (scast cst))) (\<lambda>(r, k).
     Ok (ticks1 - scast (ucast ticks0 :: u32), k))))"

definition sys_brk :: "regs \<Rightarrow> kmem \<Rightarrow> u64 \<Rightarrow> MemorySet \<Rightarrow> (u64 \<times> kmem \<times> u64 \<times> MemorySet) res" where
  "sys_brk a s base_size ms =
     bind_res (argaddr a 0) (\<lambda>addr.
     if addr = 0 then Ok (base_size, s, base_size, ms)
     else bind_res (brk s base_size ms (addr - base_size)) (\<lambda>(s, base_size, ms). Ok (base_size, s, base_size, ms)))"

section \<open>Dispatch\<close>

text \<open>The table of calls by number; its last entry is 260.\<close>

definition syscalls :: "nat \<Rightarrow> string option" where
  "syscalls = map_of
     [(17, ''sys_getcwd''), (59, ''sys_pipe''), (23, ''sys_dup''), (24, ''sys_dup3''), (49, ''sys_chdir''), (56, ''sys_open''),
      (57, ''sys_close''), (61, ''sys_getdents64''), (63, ''sys_read''), (64, ''sys_write''), (35, ''sys_unlink''), (34, ''sys_mkdir''),
      (40, ''sys_mount''), (39, ''sys_umount''), (80, ''sys_fstat''), (172, ''sys_getpid''), (173, ''sys_getppid''), (3, ''sys_wait''),
      (260, ''sys_wait4''), (221, ''sys_exec''), (7, ''sys_exec''), (1, ''sys_fork''), (220, ''sys_fork''), (93, ''sys_exit''),
      (214, ''sys_brk''), (222, ''sys_mmap''), (215, ''sys_munmap''), (160, ''sys_uname''), (153, ''sys_times''), (124, ''sys_yield''),
      (169, ''sys_gettimeofday''), (101, ''sys_nanosleep''), (22, ''sys_test''), (174, ''sys_getuid''), (175, ''sys_getuid''),
      (176, ''sys_getuid''), (177, ''sys_getuid'')]"

definition syscall_entry :: "u64 \<Rightarrow> string option res" where
  "syscall_entry a7 = (if a7 = 0 then Ok None else if unat a7 \<le> 260 then Ok (syscalls (unat a7)) else Fail Out_of_bounds)"

section \<open>The path of the current directory\<close>

text \<open>The directories above \<open>de\<close>, up to the root.\<close>

fun above :: "fs \<Rightarrow> nat \<Rightarrow> nat list \<Rightarrow> bool" where
  "above t de [] \<longleftrightarrow> dparent (ent t de) = None"
| "above t de (p # ps) \<longleftrightarrow> dparent (ent t de) = Some p \<and> above t p ps"

fun path_text :: "fs \<Rightarrow> nat \<Rightarrow> nat list \<Rightarrow> u8 list" where
  "path_text t de [] = []"
| "path_text t de (p # ps) = path_text t p ps @ 47 # Fat_Name.cstr (filename (ent t de))"

lemma patch_slash:
  assumes "Suc (n + m) \<le> i" and "i \<le> length path" and "length nm = n" and "length t = m"
  shows "patch ((patch path (i - n) nm)[i - n - 1 := d]) (i - n - 1 - m) t = patch path (i - Suc (n + m)) (t @ d # nm)"
  using assms by (intro nth_equalityI) (auto simp: nth_patch nth_append nth_list_update nth_Cons')

lemma getcwd_loop_ok:
  assumes "above t de ps" and "i \<le> length path"
  shows "getcwd_loop t de i path =
    (if length (path_text t de ps) \<le> i then Some (i - length (path_text t de ps), patch path (i - length (path_text t de ps)) (path_text t de ps))
     else None)"
  using assms
proof (induction ps arbitrary: de i path)
  case Nil
  then show ?case by (subst getcwd_loop.simps) simp
next
  case (Cons p ps)
  define nm where "nm = Fat_Name.cstr (filename (ent t de))"
  define n where "n = length nm"
  let ?u = "path_text t p ps"
  let ?path = "(patch path (i - n) nm)[i - n - 1 := 47]"
  have step: "getcwd_loop t de i path = (if i \<le> n then None else getcwd_loop t p (i - n - 1) ?path)"
    using Cons.prems(1) by (subst getcwd_loop.simps) (simp add: nm_def n_def Let_def)
  have tx: "path_text t de (p # ps) = ?u @ 47 # nm" by (simp add: nm_def)
  show ?case
  proof (cases "i \<le> n")
    case True
    then show ?thesis using step by (simp only: tx) (simp add: n_def)
  next
    case False
    then have "i - n - 1 \<le> length ?path" using Cons.prems(2) by (simp add: n_def)
    then have IH: "getcwd_loop t p (i - n - 1) ?path =
      (if length ?u \<le> i - n - 1 then Some (i - n - 1 - length ?u, patch ?path (i - n - 1 - length ?u) ?u) else None)"
      using Cons.IH [of p "i - n - 1" ?path] Cons.prems(1) by simp
    have l: "length (path_text t de (p # ps)) = Suc (n + length ?u)" by (simp add: tx n_def del: path_text.simps)
    have le: "length ?u \<le> i - n - 1 \<longleftrightarrow> Suc (n + length ?u) \<le> i" using False by linarith
    show ?thesis
    proof (cases "Suc (n + length ?u) \<le> i")
      case True
      then show ?thesis using step False IH le patch_slash [OF True Cons.prems(2), of nm ?u 47]
        unfolding l tx by (simp add: n_def add.commute)
    next
      case no: False
      then show ?thesis using step False IH le unfolding l by simp
    qed
  qed
qed

lemma cstr_nonzero: "0 \<notin> set (Fat_Name.cstr bs)"
  by (auto simp: Fat_Name.cstr_def dest: set_takeWhileD)

lemma cstr_append_zero: "0 \<notin> set s \<Longrightarrow> Fat_Name.cstr (s @ 0 # r) = s"
  by (induction s) (auto simp: Fat_Name.cstr_def)

lemma path_text_nonzero: "0 \<notin> set (path_text t de ps)"
  by (induction t de ps rule: path_text.induct) (auto simp: cstr_nonzero)

lemma getcwd_string:
  assumes "above t de ps" and "length (path_text t de ps) \<le> 259" and "260 \<le> length junk"
  shows "\<exists>i path. getcwd_loop t de 259 ((take 260 junk)[259 := 0]) = Some (i, path)
    \<and> drop i path = path_text t de ps @ [0]"
proof -
  let ?b = "(take 260 junk)[259 := 0]" and ?t = "path_text t de ps"
  have lb: "length ?b = 260" using assms(3) by simp
  have "drop 259 ?b = [0]" using lb by (intro nth_equalityI) auto
  then have "drop (259 - length ?t) (patch ?b (259 - length ?t) ?t) = ?t @ [0]"
    using assms(2) lb by (simp add: patch_def)
  then show ?thesis using getcwd_loop_ok [OF assms(1), of 259 ?b] assms(2) lb by simp
qed

section \<open>Reading a directory\<close>

lemma length_put_bytes: "put_bytes a p bs = Ok a' \<Longrightarrow> length a' = length a"
  by (auto simp: put_bytes_def split: if_splits)

lemma length_read_entry_name: "read_entry_name fname p d = Ok nm \<Longrightarrow> length nm = length fname"
  by (auto simp: read_entry_name_def Let_def dest!: length_put_bytes split: if_splits)

lemma enext_loop_name:
  "enext_loop g s dp ep off cnt h c = Ok (r, c', ep', s') \<Longrightarrow> length (filename ep') = length (filename ep)"
proof (induction g arbitrary: s ep off cnt h c)
  case (Suc g)
  from Suc.prems obtain off2 s1 where 1: "reloc_clus s dp off False = Ok (off2, s1)" by auto
  show ?case
  proof (cases "off2 = - 1")
    case False
    obtain k s2 b where 2: "rw_clus s1 (cur_clus (ent s1 dp)) False (Kern (replicate 32 0)) 0 (word_of_int off2) 32 = Ok (k, s2, b)"
      using Suc.prems 1 False by (simp add: split_paired_Ex) blast
    show ?thesis using Suc.prems 1 2 False
      by (cases b) (auto simp: Let_def read_entry_info_def dest!: Suc.IH length_read_entry_name split: if_splits)
  qed (use Suc.prems 1 in simp)
qed simp

lemma enext_name: "enext g s dp ep off c = Ok (r, c', ep', s') \<Longrightarrow> r \<noteq> - 1 \<Longrightarrow> length (filename ep') = 256"
  by (auto simp: enext_def dest!: enext_loop_name split: if_splits)

text \<open>A record is only written when it leaves a byte of the buffer over.\<close>

lemma record_fits:
  assumes "length nm \<le> 256" and "n \<le> 2 ^ 31" and "0 \<le> sint sz"
  shows "(of_nat (n + length nm + 1 + 19) :: u64) \<ge> scast (sz :: u32) \<longleftrightarrow> int (n + length nm + 20) \<ge> sint sz"
proof -
  have lt: "sint sz < 2 ^ 31" using sint_lt [of sz] by simp
  have "uint (word_of_int x :: u64) = x" if "0 \<le> x" "x < 2 ^ 31" for x
    using that by (simp add: unsigned_of_int take_bit_int_eq_self)
  from this [OF assms(3) lt] have "uint (scast sz :: u64) = sint sz" by simp
  moreover have u: "uint (of_nat x :: u64) = int x" if "x < 2 ^ 32" for x
    using that by (simp add: unsigned_of_nat take_bit_nat_eq_self)
  have "uint (of_nat (n + length nm + 1 + 19) :: u64) = int (n + length nm + 20)"
  proof -
    have "n + length nm + 1 + 19 < 2 ^ 32" using assms(1,2) by simp
    from u [OF this] show ?thesis by (simp only: add.assoc)
  qed
  ultimately show ?thesis by (simp only: word_le_def)
qed

lemma cond_or: "(if a then x else if b then x else y) = (if a \<or> b then x else y)"
  by simp

lemma ls_loop_bound:
  assumes "ls_loop g k e de addr sz n off c = Ok (n', k')" and "0 \<le> sint sz" and "n = 0 \<or> int n < sint sz"
  shows "n' = 0 \<or> int n' < sint sz"
  using assms(1,3)
proof (induction g arbitrary: k de addr n off c)
  case (Suc g)
  obtain r c1 d s where en: "enext g (kfs k) e de off c = Ok (r, c1, d, s)" using Suc.prems(1) by auto
  let ?nm = "Fat_Name.cstr (filename d)"
  define full where "full \<longleftrightarrow> (of_nat (n + length ?nm + 1 + 19) :: u64) \<ge> scast sz"
  have step: "ls_loop (Suc g) k e de addr sz n off c =
    (if r = - 1 \<or> full then Ok (n, k\<lparr>kfs := s\<rparr>)
     else bind_res (user_put (k\<lparr>kfs := s\<rparr>) (addr + 19) (?nm @ [0])) (\<lambda>(r1, k).
          bind_res (user_put k addr (dirent64_bytes d addr (19 + length ?nm + 1))) (\<lambda>(r2, k).
          ls_loop g k e d (addr + of_nat (19 + length ?nm + 1)) sz (n + (19 + length ?nm + 1)) (off + push_bit 5 (word_of_int c1)) c1)))"
    unfolding ls_loop.simps en bind_res.simps prod.case Let_def full_def by (rule cond_or)
  show ?case
  proof (cases "r = - 1 \<or> full")
    case True
    then have "n' = n" using Suc.prems(1) unfolding step by simp
    then show ?thesis using Suc.prems(2) by simp
  next
    case False
    have "length ?nm \<le> 256"
      using enext_name [OF en] False length_takeWhile_le [of "\<lambda>c. c \<noteq> 0" "filename d"] by (simp add: Fat_Name.cstr_def)
    moreover have "n \<le> 2 ^ 31" using Suc.prems(2) sint_lt [of sz] by auto
    ultimately have fit: "int (n + (19 + length ?nm + 1)) < sint sz" using record_fits [of ?nm n sz] assms(2) False unfolding full_def by auto
    obtain k2 where "ls_loop g k2 e d (addr + of_nat (19 + length ?nm + 1)) sz (n + (19 + length ?nm + 1)) (off + push_bit 5 (word_of_int c1)) c1 = Ok (n', k')"
      using Suc.prems(1) False unfolding step by (simp only: if_False bind_res_eq_Ok split_paired_Ex prod.case) blast
    then show ?thesis using Suc.IH fit by blast
  qed
qed simp

lemma eremove_skipped:
  assumes "argstr a 1 k FAT32_MAX_FILENAME = Ok (Some path)" and "mytask (ksched k) = Some t"
    and "ename g (kfs k) (kcwd k t) path = Ok (Some ep, s)" and "ep < length (ents s)" and "1 < dref (ent s ep)"
  shows "sys_unlink g a k = Ok (0, k\<lparr>kfs := upd_ent ep (\<lambda>d. d\<lparr>dref := dref d - 1\<rparr>) s\<rparr>)"
  using assms by (simp add: sys_unlink_def argint_def argraw_def upd_ent_def Let_def)

section \<open>Properties\<close>

text \<open>C40: \<^verbatim>\<open>getcwd\<close> from a directory below the root. When the path has at most 259 bytes the caller gets exactly
  the names from the root down to the directory, each behind a slash, and a zero byte, although the buffer is filled
  from its end without knowing the length; a longer path gives -1 and nothing is copied. No byte outside the buffer is
  written.\<close>

theorem getcwd_path:
  assumes "mytask (ksched k) = Some t" and "kcwd k t = Some de" and "above (kfs k) de ps" and "ps \<noteq> []" and "260 \<le> length junk"
  shows "sys_getcwd junk a k =
    (if length (path_text (kfs k) de ps) \<le> 259
     then bind_res (user_put k (a 0) (path_text (kfs k) de ps @ [0])) (\<lambda>(r, k). Ok (if r < 0 then 0 else 1, k))
     else Ok (- 1, k))"
proof -
  let ?t = "path_text (kfs k) de ps" and ?b = "(take 260 junk)[259 := (0::u8)]"
  obtain q where p: "dparent (ent (kfs k) de) = Some q" using assms(3,4) by (cases ps) auto
  show ?thesis
  proof (cases "length ?t \<le> 259")
    case True
    obtain i path where "getcwd_loop (kfs k) de 259 ?b = Some (i, path)" "drop i path = ?t @ [0]"
      using getcwd_string [OF assms(3) True assms(5)] by auto
    then show ?thesis using True assms(1,2) p cstr_append_zero [OF path_text_nonzero, of "kfs k" de ps "[]"]
      by (simp add: sys_getcwd_def argaddr_def argraw_def)
  next
    case False
    then have "getcwd_loop (kfs k) de 259 ?b = None" using getcwd_loop_ok [OF assms(3), of 259 ?b] assms(5) by simp
    then show ?thesis using False assms(1,2) p by (simp add: sys_getcwd_def argaddr_def argraw_def)
  qed
qed

definition ex_tree :: kstate where
  "ex_tree = ex_kernel\<lparr>kfs := ex_vol\<lparr>ents := [blank_dirent (sem_init 1 0), (blank_dirent (sem_init 1 0))\<lparr>filename := [97, 0], dparent := Some 0\<rparr>,
     (blank_dirent (sem_init 1 0))\<lparr>filename := [98, 99, 0], dparent := Some 1\<rparr>]\<rparr>, kcwd := (\<lambda>t. Some 2)\<rparr>"

theorem getcwd_path_witness:
  "sys_getcwd (replicate 260 7) (\<lambda>_. 4096) ex_tree =
     bind_res (user_put ex_tree 4096 [47, 97, 47, 98, 99, 0]) (\<lambda>(r, k). Ok (if r < 0 then 0 else 1, k))"
proof -
  have "above (kfs ex_tree) 2 [1, 0]" "path_text (kfs ex_tree) 2 [1, 0] = [47, 97, 47, 98, 99]"
    by (simp_all add: ex_tree_def blank_dirent_def Fat_Name.cstr_def)
  moreover have "mytask (ksched ex_tree) = Some 0" "kcwd ex_tree 0 = Some 2"
    by (simp_all add: ex_tree_def ex_kernel_def family_def mytask_def)
  ultimately show ?thesis using getcwd_path [of ex_tree 0 2 "[1, 0]" "replicate 260 7" "\<lambda>_. 4096"] by simp
qed

text \<open>A positive result of \<^verbatim>\<open>getdents64\<close> with a buffer size that is not negative is smaller than the size: every
  record, its name and final zero included, lies inside the buffer.\<close>

lemma getdents_bound:
  assumes "ls g k f junk addr sz = Ok (n, k')" and "0 \<le> sint sz"
  shows "n \<le> 0 \<or> n < sint sz"
proof (cases "f_ep (ftable k ! f)")
  case None
  then show ?thesis using assms(1) by (simp add: ls_def)
next
  case (Some e)
  show ?thesis
  proof (cases "attribute (ent (kfs k) e) AND ATTR_DIRECTORY = 0")
    case False
    then obtain s m where "ls_loop g (k\<lparr>kfs := s\<rparr>) e junk addr sz 0 0 0 = Ok (m, k')" "n = int m"
      using assms(1) Some by (auto simp: ls_def)
    then show ?thesis using ls_loop_bound assms(2) by fastforce
  qed (use assms(1) Some in \<open>simp add: ls_def\<close>)
qed

text \<open>\<^verbatim>\<open>unlinkat\<close>. A name that does not exist is dereferenced as a null pointer; and as long as anyone else
  holds a reference to the entry the call returns 0 and the directory is not changed: only the count of the entry drops.\<close>

lemma unlink_cases:
  assumes "argstr a 1 k FAT32_MAX_FILENAME = Ok (Some path)" and "mytask (ksched k) = Some t"
    and "ename g (kfs k) (kcwd k t) path = Ok (ep, s)"
  shows "(ep = None \<longrightarrow> sys_unlink g a k = Fail Null_pointer)
    \<and> (\<forall>e. ep = Some e \<and> e < length (ents s) \<and> 1 < dref (ent s e) \<longrightarrow>
         sys_unlink g a k = Ok (0, k\<lparr>kfs := upd_ent e (\<lambda>d. d\<lparr>dref := dref d - 1\<rparr>) s\<rparr>))"
  using assms eremove_skipped [OF assms(1,2)] by (auto simp: sys_unlink_def argint_def argraw_def)

end
