(* ===== verification/Process.thy ===== *)
theory Process
  imports Address_Space Sys_Calls Pid_Alloc
begin

text \<open>
  Processes as a whole (\<^verbatim>\<open>tk_task.c\<close>, \<^verbatim>\<open>add_initproc\<close> of \<^verbatim>\<open>tk_proc.c\<close>, \<^verbatim>\<open>ks_new\<close> of \<^verbatim>\<open>tk_pid.c\<close>,
  \<^verbatim>\<open>app_context_init\<close> of \<^verbatim>\<open>exception.c\<close>, \<^verbatim>\<open>sys_fork\<close> and \<^verbatim>\<open>sys_exec\<close> of \<^verbatim>\<open>syscall.c\<close>): the parts of the other
  theories put together, the scheduler, the descriptors, the address spaces, the identifiers and the kernel space.

  The theorems: \<^verbatim>\<open>fork\<close> succeeds with enough memory, and what parent and child look like after it; \<^verbatim>\<open>execve\<close> never
  starts a program.
\<close>

section \<open>The state\<close>

text \<open>
  The kernel, its memory, the identifiers, the kernel's own address space, and the fields of the control blocks that
  the other theories do not have. \<^verbatim>\<open>umem\<close> of the running task is the same memory.
\<close>

record proc =
  pk :: kstate
  pm :: kmem
  pids :: PidAllocator
  kernel_space :: MemorySet
  memory_set :: "nat \<Rightarrow> MemorySet"
  trap_cx_ppn :: "nat \<Rightarrow> ppn"
  base_size :: "nat \<Rightarrow> u64"
  task_cx_ptr :: "nat \<Rightarrow> u64"

text \<open>What the linker and the control register \<^verbatim>\<open>sstatus\<close> provide.\<close>

record env =
  tramp_addr :: u64
  e_return_addr :: u64
  dispatch_addr :: u64
  sstatus_csr :: u64
  restore_off :: u64

definition with_mem :: "kstate \<Rightarrow> mem \<Rightarrow> kstate" where
  "with_mem k m = k\<lparr>kfs := (kfs k)\<lparr>ux := (ux (kfs k))\<lparr>umem := m\<rparr>\<rparr>\<rparr>"

section \<open>Contexts and kernel stacks\<close>

definition SSTATUS_SPP :: u64 where "SSTATUS_SPP = 0x100"
definition SSTATUS_SPIE :: u64 where "SSTATUS_SPIE = 0x20"
definition cx_a0 :: u64 where "cx_a0 = 8 * 10"

text \<open>The 39 words of a trap context.\<close>

definition app_context_init :: "u64 \<Rightarrow> u64 \<Rightarrow> u64 \<Rightarrow> u64 \<Rightarrow> u64 \<Rightarrow> u64 \<Rightarrow> u8 list" where
  "app_context_init sstatus epc0 u_sp k_satp k_sp trap_handle =
     (let status = (sstatus AND NOT SSTATUS_SPP) OR SSTATUS_SPIE
      in concat (map (\<lambda>w. le_bytes 8 w)
           ((replicate 39 0)[32 := status, 2 := u_sp, 33 := epc0, 36 := k_satp, 37 := k_sp, 38 := trap_handle])))"

definition ks_new :: "kmem \<Rightarrow> MemorySet \<Rightarrow> u64 \<Rightarrow> (kmem \<times> MemorySet) res" where
  "ks_new s ks pd =
     (let (bottom, top) = kernel_stack_pos pd in insert_framed_area s ks bottom top (VM_R OR VM_W))"

text \<open>
  A task context, whose return address is \<^verbatim>\<open>e_return\<close>, stored at the address \<open>dst\<close> of the kernel space. Its 104 bytes
  below the top of a stack lie in one page.
\<close>

definition put_task_cx :: "mem \<Rightarrow> MemorySet \<Rightarrow> u64 \<Rightarrow> u64 \<Rightarrow> mem res" where
  "put_task_cx m ks dst ra =
     bind_res (deref_pte m (page_table ks) (va2vpn dst)) (\<lambda>e.
     if pte_is_valid e then Ok (wbytes m (pte_get_pa e + get_offset dst) (le_bytes 8 ra @ replicate 96 0))
     else Fail Null_pointer)"

text \<open>The identifier, the kernel stack and the task context of a new process.\<close>

definition new_kstack :: "u64 \<Rightarrow> PidAllocator \<Rightarrow> kmem \<Rightarrow> MemorySet \<Rightarrow> (u64 \<times> u64 \<times> PidAllocator \<times> kmem \<times> MemorySet) res" where
  "new_kstack ra ids s ks =
     bind_res (pid_alloc ids) (\<lambda>(pd, ids).
     bind_res (ks_new s ks pd) (\<lambda>(s, ks).
     let dst = ks_get_top pd - 104
     in bind_res (put_task_cx (phys s) ks dst ra) (\<lambda>m. Ok (pd, dst, ids, s\<lparr>phys := m\<rparr>, ks))))"

definition trap_frame :: "kmem \<Rightarrow> MemorySet \<Rightarrow> ppn res" where
  "trap_frame s ms = bind_res (deref_pte (phys s) (page_table ms) (va2vpn TRAP_CONTEXT)) (\<lambda>e. Ok (pte_get_ppn e))"

section \<open>Making processes\<close>

text \<open>\<^verbatim>\<open>edup\<close> of a pointer that may be null.\<close>

definition dup_cwd :: "kstate \<Rightarrow> nat option \<Rightarrow> nat \<Rightarrow> kstate res" where
  "dup_cwd k cwd c =
     bind_res (case cwd of None \<Rightarrow> Ok (kfs k) | Some e \<Rightarrow> edup (kfs k) e) (\<lambda>f. Ok (k\<lparr>kfs := f, kcwd := (kcwd k)(c := cwd)\<rparr>))"

text \<open>
  \<open>blk\<close> is the block of the heap for the new control block, cleared by the heap. \<^verbatim>\<open>fork\<close> copies the address space of
  the parent and its descriptors and appends the child to the parent's list.
\<close>

definition fork :: "env \<Rightarrow> proc \<Rightarrow> nat \<Rightarrow> nat option \<Rightarrow> (nat \<times> proc) res" where
  "fork E P p blk =
     bind_res (lock_task (ksched (pk P)) p) (\<lambda>sc.
     case blk of None \<Rightarrow> Fail Null_pointer
     | Some c \<Rightarrow>
       bind_res (from_existed_user (pm P) (memory_set P p) (tramp_addr E)) (\<lambda>(s, ms).
       bind_res (trap_frame s ms) (\<lambda>tp.
       bind_res (new_kstack (e_return_addr E) (pids P) s (kernel_space P)) (\<lambda>(pd, dst, ids, s, ks).
       let sc = set_task sc c ((tasks sc c)\<lparr>pid := pd, tcb_lock := False, task_status := Ready, parent := Some p, child := [], exit_code := 0\<rparr>)
       in bind_res (dup_cwd ((pk P)\<lparr>ksched := sc\<rparr>) (kcwd (pk P) p) c) (\<lambda>k.
          bind_res (fork_fds k p c) (\<lambda>k.
          let sc = set_task (ksched k) p ((tasks (ksched k) p)\<lparr>child := child (tasks (ksched k) p) @ [c]\<rparr>);
              m = wu64 (phys s) (ppn2pa tp + cx_kernel_sp) (ks_get_top pd)
          in bind_res (unlock_task sc p) (\<lambda>sc.
             Ok (c, \<lparr>pk = with_mem (k\<lparr>ksched := sc\<rparr>) m, pm = s\<lparr>phys := m\<rparr>, pids = ids, kernel_space = ks,
                     memory_set = (memory_set P)(c := ms), trap_cx_ppn = (trap_cx_ppn P)(c := tp),
                     base_size = (base_size P)(c := base_size P p), task_cx_ptr = (task_cx_ptr P)(c := dst)\<rparr>))))))))"

definition sys_fork :: "env \<Rightarrow> proc \<Rightarrow> nat option \<Rightarrow> (u64 \<times> proc) res" where
  "sys_fork E P blk =
     (case mytask (ksched (pk P)) of None \<Rightarrow> Fail Null_pointer
      | Some p \<Rightarrow>
         bind_res (fork E P p blk) (\<lambda>(c, P).
         let m = wu64 (phys (pm P)) (ppn2pa (trap_cx_ppn P c) + cx_a0) 0
         in bind_res (task_add (ksched (pk P)) c) (\<lambda>sc.
            Ok (pid (tasks sc c), P\<lparr>pk := with_mem ((pk P)\<lparr>ksched := sc\<rparr>) m, pm := (pm P)\<lparr>phys := m\<rparr>\<rparr>))))"

text \<open>The image lies at \<open>elf\<close>. The parent of a process made this way is \<^verbatim>\<open>INITPROC\<close>, which does not know of it.\<close>

definition tcb_new :: "env \<Rightarrow> proc \<Rightarrow> u64 \<Rightarrow> nat option \<Rightarrow> nat option \<Rightarrow> (nat \<times> proc) res" where
  "tcb_new E P elf cwd blk =
     (case blk of None \<Rightarrow> Fail Null_pointer
      | Some c \<Rightarrow>
        bind_res (from_elf (pm P) (tramp_addr E) elf) (\<lambda>(s, ms, user_sp, entry_point).
        bind_res (trap_frame s ms) (\<lambda>tp.
        bind_res (new_kstack (e_return_addr E) (pids P) s (kernel_space P)) (\<lambda>(pd, dst, ids, s, ks).
        let sc = ksched (pk P);
            sc = set_task sc c ((tasks sc c)\<lparr>pid := pd, tcb_lock := False, task_status := Ready, parent := Some INITPROC, child := [],
                   exit_code := 0, stimes := 0, utimes := 0\<rparr>)
        in bind_res (dup_cwd ((pk P)\<lparr>ksched := sc\<rparr>) cwd c) (\<lambda>k.
           bind_res (std_fds k c) (\<lambda>k.
           let m = wbytes (phys s) (ppn2pa tp)
                     (app_context_init (sstatus_csr E) entry_point user_sp (token (page_table ks)) (ks_get_top pd) (dispatch_addr E))
           in Ok (c, \<lparr>pk = with_mem k m, pm = s\<lparr>phys := m\<rparr>, pids = ids, kernel_space = ks,
                     memory_set = (memory_set P)(c := ms), trap_cx_ppn = (trap_cx_ppn P)(c := tp),
                     base_size = (base_size P)(c := user_sp + PAGE_SIZE), task_cx_ptr = (task_cx_ptr P)(c := dst)\<rparr>)))))))"

text \<open>
  The first process. \<open>initcode\<close> is the address of its code, \<open>cx\<close> that of the local trap context.
\<close>

definition add_initproc :: "env \<Rightarrow> proc \<Rightarrow> u64 \<Rightarrow> u32 \<Rightarrow> u64 \<Rightarrow> proc res" where
  "add_initproc E P initcode icsize cx =
     bind_res (new_kstack (e_return_addr E) (pids P) (pm P) (kernel_space P)) (\<lambda>(pd, dst, ids, s, ks).
     let user_stack_top = vpn2va (va_ceil (ucast icsize)) + PAGE_SIZE + USER_STACK_SIZE;
         m = wbytes (phys s) cx
               (app_context_init (sstatus_csr E) 0 user_stack_top (token (page_table ks)) (ks_get_top pd) (dispatch_addr E))
     in bind_res (ms_map_uinit (s\<lparr>phys := m\<rparr>) (tramp_addr E) initcode icsize cx 312) (\<lambda>(s, ms).
        bind_res (trap_frame s ms) (\<lambda>tp.
        let sc = ksched (pk P);
            sc = set_task sc INITPROC ((tasks sc INITPROC)\<lparr>pid := pd, tcb_lock := False, task_status := Ready, parent := None, child := [],
                   exit_code := 0\<rparr>)
        in bind_res (std_fds ((pk P)\<lparr>ksched := sc\<rparr>) INITPROC) (\<lambda>k.
           bind_res (task_add (ksched k) INITPROC) (\<lambda>sc.
           Ok \<lparr>pk = with_mem (k\<lparr>ksched := sc, kcwd := (kcwd k)(INITPROC := None)\<rparr>) (phys s), pm = s, pids = ids, kernel_space = ks,
               memory_set = (memory_set P)(INITPROC := ms), trap_cx_ppn = (trap_cx_ppn P)(INITPROC := tp),
               base_size = (base_size P)(INITPROC := user_stack_top), task_cx_ptr = (task_cx_ptr P)(INITPROC := dst)\<rparr>)))))"

section \<open>Replacing and ending a process\<close>

text \<open>
  The file is read into the block of the heap at \<open>elf\<close>; the results of reading are not looked at. \<^verbatim>\<open>base_size\<close> stays that
  of the old program, its address space is not given back, and the entry keeps the reference of the lookup.
\<close>

definition execve :: "nat \<Rightarrow> env \<Rightarrow> proc \<Rightarrow> u8 list \<Rightarrow> u64 \<Rightarrow> proc res" where
  "execve g E P path elf =
     (case mytask (ksched (pk P)) of None \<Rightarrow> Fail Null_pointer
      | Some t \<Rightarrow>
        bind_res (ename g (kfs (pk P)) (kcwd (pk P) t) path) (\<lambda>(e, f).
        case e of None \<Rightarrow> Fail Null_pointer
        | Some e \<Rightarrow>
          let n = file_size (ent f e)
          in bind_res (eread f e (Kern (replicate (unat n) 0)) 0 n) (\<lambda>(r, f, b).
             case b of User a \<Rightarrow> Fail Null_pointer
             | Kern bs \<Rightarrow>
               let k = (pk P)\<lparr>kfs := f\<rparr>; s = (pm P)\<lparr>phys := wbytes (phys (pm P)) elf bs\<rparr>
               in bind_res (from_elf s (tramp_addr E) elf) (\<lambda>(s, ms, user_sp, entry_point).
                  bind_res (trap_frame s ms) (\<lambda>tp.
                  bind_res (lock_task (ksched k) t) (\<lambda>sc.
                  let m = wbytes (phys s) (ppn2pa tp)
                            (app_context_init (sstatus_csr E) entry_point user_sp (token (page_table (kernel_space P)))
                               (ks_get_top (pid (tasks sc t))) (dispatch_addr E))
                  in bind_res (unlock_task sc t) (\<lambda>sc.
                     Ok (P\<lparr>pk := with_mem (k\<lparr>ksched := sc\<rparr>) m, pm := s\<lparr>phys := m\<rparr>, memory_set := (memory_set P)(t := ms),
                           trap_cx_ppn := (trap_cx_ppn P)(t := tp)\<rparr>))))))))"

text \<open>The loop of \<^verbatim>\<open>sys_exec\<close> over the arguments, which prints them; the buffer of 4096 bytes is given back in every round.\<close>

primrec exec_args :: "nat \<Rightarrow> ucx \<Rightarrow> u64 \<Rightarrow> u64 \<Rightarrow> u8 list list res" where
  "exec_args 0 x utable argc = Fail Spin_forever"
| "exec_args (Suc g) x utable argc =
     (if utable = 0 then Ok []
      else bind_res (copyin2 (umem x) (upt x) (utable + 8 * argc) 8) (\<lambda>(r, bs).
        if r < 0 then Ok []
        else let argp = le_word bs
             in if argp = 0 then Ok []
                else bind_res (copyinstr2 (usz x) (umem x) (upt x) argp 4096) (\<lambda>(r, buf).
                     if r = - 1 then Ok []
                     else bind_res (exec_args g x utable (argc + 1)) (\<lambda>ss. Ok (takeWhile (\<lambda>c. c \<noteq> 0) buf # ss)))))"

text \<open>After \<^verbatim>\<open>execve\<close> comes a panic.\<close>

definition sys_exec :: "nat \<Rightarrow> env \<Rightarrow> regs \<Rightarrow> proc \<Rightarrow> u64 \<Rightarrow> (int \<times> proc) res" where
  "sys_exec g E a P elf =
     bind_res (argstr a 0 (pk P) FAT32_MAX_PATH) (\<lambda>p. case p of None \<Rightarrow> Ok (- 1, P)
     | Some path \<Rightarrow> bind_res (argaddr a 1) (\<lambda>argv. bind_res (argaddr a 2) (\<lambda>envp.
         bind_res (exec_args g (ux (kfs (pk P))) argv 0) (\<lambda>args.
         bind_res (execve g E P path elf) (\<lambda>P. Fail (Panic ''stop !''))))))"

text \<open>\<^verbatim>\<open>exit_current_and_run_next\<close> up to \<^verbatim>\<open>schedule\<close>; a null current directory is dereferenced by \<^verbatim>\<open>eput\<close>.\<close>

definition exit_process :: "nat \<Rightarrow> proc \<Rightarrow> u32 \<Rightarrow> proc res" where
  "exit_process g P code =
     bind_res (exit_begin (ksched (pk P)) code) (\<lambda>(t, sc).
     bind_res (ms_ma_free (pm P) (memory_set P t)) (\<lambda>(s, ms).
     bind_res (exit_fds g (with_mem ((pk P)\<lparr>ksched := sc\<rparr>) (phys s)) t) (\<lambda>k.
     case kcwd k t of None \<Rightarrow> Fail Null_pointer
     | Some e \<Rightarrow>
        bind_res (eput g (kfs k) e) (\<lambda>f.
        bind_res (exit_end (ksched k) t) (\<lambda>sc.
        Ok (P\<lparr>pk := k\<lparr>ksched := sc, kfs := f\<rparr>, pm := s, memory_set := (memory_set P)(t := ms)\<rparr>))))))"

section \<open>The pages of a kernel stack\<close>

definition stack_area :: "u64 \<Rightarrow> MapArea" where
  "stack_area pd = ma_new (fst (kernel_stack_pos pd)) (snd (kernel_stack_pos pd)) Framed (VM_R OR VM_W)"

lemma ks_new_push: "ks_new s ks pd = ms_push s ks (stack_area pd) 0 0"
  by (simp add: ks_new_def stack_area_def insert_framed_area_def case_prod_unfold Let_def)

lemma stack_area_bounds:
  assumes "unat pd < 2 ^ 32"
  shows "unat (vm_start (stack_area pd)) = 2 ^ 52 - 6 - unat pd * 5" and "unat (vm_end (stack_area pd)) = 2 ^ 52 - 2 - unat pd * 5"
proof -
  have p: "unat pd < 2 ^ 40" using assms by simp
  let ?t = "TRAP_CONTEXT - pd * (KERNEL_STACK_SIZE + 4096)"
  have t: "unat ?t = 4096 * (2 ^ 52 - 2 - unat pd * 5)" and b: "unat (?t - KERNEL_STACK_SIZE) = 4096 * (2 ^ 52 - 6 - unat pd * 5)"
    unfolding unat_stack_top [OF p] unat_stack_bottom [OF p] using assms by simp_all
  show "unat (vm_start (stack_area pd)) = 2 ^ 52 - 6 - unat pd * 5"
    by (simp add: stack_area_def kernel_stack_pos_def ma_new_def Let_def unat_va_floor b)
  have "unat ?t + 4095 < 2 ^ 64" unfolding t using assms by simp
  then have "unat (va_ceil ?t) = (unat ?t + 4095) div 4096" by (rule unat_va_ceil)
  also have "\<dots> = 2 ^ 52 - 2 - unat pd * 5" unfolding t by (simp add: div_add1_eq)
  finally show "unat (vm_end (stack_area pd)) = 2 ^ 52 - 2 - unat pd * 5"
    by (simp add: stack_area_def kernel_stack_pos_def ma_new_def Let_def)
qed

lemma stack_area_pages:
  assumes "unat pd < 2 ^ 32"
  shows "length (area_pages (stack_area pd)) = 4" and "apart (area_pages (stack_area pd))"
    and "va2vpn (ks_get_top pd - 104) \<in> set (area_pages (stack_area pd))" and "get_offset (ks_get_top pd - 104) = 3992"
proof -
  note b = stack_area_bounds [OF assms]
  have d: "unat (vm_end (stack_area pd)) - unat (vm_start (stack_area pd)) = 4" unfolding b using assms by simp
  show "length (area_pages (stack_area pd)) = 4" by (simp add: area_pages_def length_vpns d)
  have "unat (vm_end (stack_area pd)) - unat (vm_start (stack_area pd)) \<le> 2 ^ 27" unfolding d by simp
  then show "apart (area_pages (stack_area pd))" unfolding area_pages_def by (rule apart_vpns)
  have p: "unat pd < 2 ^ 40" using assms by simp
  have t: "unat (ks_get_top pd) = 4096 * (2 ^ 52 - 2 - unat pd * 5)"
    unfolding ks_get_top_def unat_stack_top [OF p] using assms by simp
  have "(104::u64) \<le> ks_get_top pd" using t assms by (simp add: word_le_nat_alt)
  then have u: "unat (ks_get_top pd - 104) = 4096 * (2 ^ 52 - 3 - unat pd * 5) + 3992"
    using t assms by (simp add: unat_sub)
  have "unat (get_offset (ks_get_top pd - 104)) = 3992" unfolding unat_get_offset u by simp
  then show "get_offset (ks_get_top pd - 104) = 3992" by (intro unsigned_word_eqI [where ?'a = nat]) simp
  have v: "unat (va2vpn (ks_get_top pd - 104)) = 2 ^ 52 - 3 - unat pd * 5"
    by (simp add: va2vpn_def pa2ppn_def pa_floor_def PAGE_SIZE_def unat_div u)
  show "va2vpn (ks_get_top pd - 104) \<in> set (area_pages (stack_area pd))"
    unfolding area_pages_def set_vpns using v b assms by (auto simp: word_le_nat_alt word_less_nat_alt)
qed

section \<open>Writing to a page of data\<close>

text \<open>A store inside one page that is not a table of a space leaves the space as it was.\<close>

lemma ms_inv_data:
  assumes inv: "ms_inv lo s ms" and q: "q \<notin> set (fnode (page_table ms))"
    and same: "\<And>x. pa2ppn x \<noteq> q \<Longrightarrow> m x = phys s x"
  shows "ms_inv lo (s\<lparr>phys := m\<rparr>) ms" and "pt_lookup m (page_table ms) v = pt_lookup (phys s) (page_table ms) v"
proof -
  note p = ms_invD(1) [OF inv]
  have t: "phys (s\<lparr>phys := m\<rparr>) x = phys s x" if "pa2ppn x \<in> set (fnode (page_table ms))" for x
  proof -
    have "pa2ppn x \<noteq> q" using that q by blast
    then show ?thesis by (simp add: same)
  qed
  note o = ms_inv_other [where s' = "s\<lparr>phys := m\<rparr>", OF inv _ _ _ t]
  show "ms_inv lo (s\<lparr>phys := m\<rparr>) ms" by (rule o(1)) (use pt_inv_tables(3) [OF p] fend_small [OF p] in simp_all)
  have "pt_lookup (phys (s\<lparr>phys := m\<rparr>)) (page_table ms) v = pt_lookup (phys s) (page_table ms) v"
    by (rule o(2)) (use pt_inv_tables(3) [OF p] fend_small [OF p] in simp_all)
  then show "pt_lookup m (page_table ms) v = pt_lookup (phys s) (page_table ms) v" by simp
qed

lemma wbytes_in_page:
  assumes "q < 2 ^ 52" and "k + length bs \<le> 4096" and "pa2ppn x \<noteq> q"
  shows "wbytes m (ppn2pa q + of_nat k) bs x = m x"
proof (rule wbytes_out)
  fix i assume "i < length bs"
  then have "pa2ppn (ppn2pa q + of_nat (k + i)) = q" using assms(1,2) by (intro byte_page(1)) simp_all
  then show "x \<noteq> ppn2pa q + of_nat k + of_nat i" using assms(3) by (auto simp: add.assoc)
qed

lemma wu64_in_page: "q < 2 ^ 52 \<Longrightarrow> k + 8 \<le> 4096 \<Longrightarrow> pa2ppn x \<noteq> q \<Longrightarrow> wu64 m (ppn2pa q + of_nat k) w x = m x"
  unfolding wu64_def by (rule wbytes_in_page) simp_all

lemma wu64_offset:
  assumes "q < 2 ^ 52" and "k + 8 \<le> 4096" and "i < 4096" and "\<not> (k \<le> i \<and> i < k + 8)"
  shows "wu64 m (ppn2pa q + of_nat k) w (ppn2pa q + of_nat i) = m (ppn2pa q + of_nat i)"
proof (rule wu64_out)
  fix j :: nat assume "j < 8"
  then have "unat (ppn2pa q + of_nat (k + j)) = unat q * 4096 + (k + j)" using assms by (intro byte_page(2)) simp_all
  moreover have "unat (ppn2pa q + of_nat i) = unat q * 4096 + i" using assms by (intro byte_page(2)) simp_all
  ultimately have "unat (ppn2pa q + of_nat (k + j)) \<noteq> unat (ppn2pa q + of_nat i)" using assms(4) \<open>j < 8\<close> by linarith
  then show "ppn2pa q + of_nat i \<noteq> ppn2pa q + of_nat k + of_nat j" by (auto simp: add.assoc)
qed

section \<open>The kernel stack of a new process\<close>

text \<open>A new stack takes free pages for itself and leaves every other space alone.\<close>

lemma new_kstack_ok:
  assumes ks: "ms_inv lo s ks" and id: "pid_alloc ids = Ok (pd, ids')" "unat pd < 2 ^ 32"
    and room: "12 \<le> card (fa_free (frames s))"
    and new: "\<forall>v \<in> set (area_pages (stack_area pd)). pt_lookup (phys s) (page_table ks) v = None"
  shows "\<exists>s' ks' q. new_kstack ra ids s ks = Ok (pd, ks_get_top pd - 104, ids', s', ks') \<and> ms_inv lo s' ks'
    \<and> pt_lookup (phys s') (page_table ks') (va2vpn (ks_get_top pd - 104)) = Some (pte_new q (VM_R OR VM_W OR PTE_V))
    \<and> rbytes (phys s') (ppn2pa q + 3992) 104 = le_bytes 8 ra @ replicate 96 0 \<and> q \<in> fa_free (frames s)
    \<and> fa_allocated lo (frames s) \<subseteq> fa_allocated lo (frames s')
    \<and> (\<forall>a. ms_inv lo s a \<and> (set (ms_frames a) \<union> set (fnode (page_table a))) \<inter> set (fnode (page_table ks)) = {} \<longrightarrow>
         ms_inv lo s' a \<and> (\<forall>v. pt_lookup (phys s') (page_table a) v = pt_lookup (phys s) (page_table a) v)
         \<and> (\<forall>x. pa2ppn x \<in> set (ms_frames a) \<union> set (fnode (page_table a)) \<longrightarrow> phys s' x = phys s x)
         \<and> (set (ms_frames a) \<union> set (fnode (page_table a))) \<inter> set (fnode (page_table ks')) = {})"
proof -
  let ?A = "stack_area pd" and ?d = "ks_get_top pd - 104"
  note st = stack_area_pages [OF id(2)]
  have push: "pushable s ks ?A" and fr: "map_type ?A = Framed" and perm: "map_perm ?A = VM_R OR VM_W"
    using room st new by (simp_all add: pushable_def stack_area_def) (simp_all add: ma_new_def)
  obtain s1 ks1 qs where 1: "ms_push s ks ?A 0 0 = Ok (s1, ks1)" "ms_grown lo s ks (area_pages ?A) s1 ks1"
    "length qs = length (area_pages ?A)" "areas ks1 = areas ks @ [?A\<lparr>dataframe := framed (area_pages ?A) qs\<rparr>]"
    "set qs \<subseteq> fa_free (frames s)"
    "list_all2 (\<lambda>v e. pt_lookup (phys s1) (page_table ks1) v = Some e) (area_pages ?A) (entries (VM_R OR VM_W) qs)"
    using ms_push_framed [OF ks fr push] unfolding perm by blast
  note d = ms_grownD [OF 1(2)]
  obtain i where i: "i < length qs" "area_pages ?A ! i = va2vpn ?d" using st(3) 1(3) by (metis in_set_conv_nth)
  define q where "q = qs ! i"
  have q: "q \<in> set qs" using i(1) by (simp add: q_def)
  have lk: "pt_lookup (phys s1) (page_table ks1) (va2vpn ?d) = Some (pte_new q (VM_R OR VM_W OR PTE_V))"
    using list_all2_nthD [OF 1(6), of i] i 1(3) by (simp add: entries_def q_def or.assoc)
  have q44: "q < 2 ^ 44" "q < 2 ^ 52" using frame_small [OF ms_invD(1) [OF ks]] q 1(5) by blast+
  have qf: "q \<in> set (ms_frames ks1)"
    using q 1(3,4) by (simp add: ms_frames_def area_frames_def map_ppn_framed)
  then have qt: "q \<notin> set (fnode (page_table ks1))" using ms_invD(6) [OF d(1)] by blast
  define m where "m = wbytes (phys s1) (ppn2pa q + of_nat 3992) (le_bytes 8 ra @ replicate 96 0)"
  have mo: "m x = phys s1 x" if "pa2ppn x \<noteq> q" for x
    unfolding m_def using q44(2) that by (intro wbytes_in_page) simp_all
  have put: "put_task_cx (phys s1) ks1 ?d ra = Ok m"
    using deref_pte_lookup [OF lk] q44(1) st(4)
    by (simp add: put_task_cx_def pte_get_pa_def pte_new_ppn m_def pte_new_valid VM_R_def VM_W_def PTE_V_def)
  note w = ms_inv_data [OF d(1) qt mo]
  have run: "new_kstack ra ids s ks = Ok (pd, ?d, ids', s1\<lparr>phys := m\<rparr>, ks1)"
    using id(1) 1(1) put by (simp add: new_kstack_def ks_new_push Let_def)
  have bytes: "rbytes m (ppn2pa q + 3992) 104 = le_bytes 8 ra @ replicate 96 0"
    using rbytes_wbytes [of "le_bytes 8 ra @ replicate 96 0" "phys s1" "ppn2pa q + 3992"] by (simp add: m_def)
  have other: "ms_inv lo (s1\<lparr>phys := m\<rparr>) a \<and> (\<forall>v. pt_lookup m (page_table a) v = pt_lookup (phys s) (page_table a) v)
      \<and> (\<forall>x. pa2ppn x \<in> set (ms_frames a) \<union> set (fnode (page_table a)) \<longrightarrow> m x = phys s x)
      \<and> (set (ms_frames a) \<union> set (fnode (page_table a))) \<inter> set (fnode (page_table ks1)) = {}"
    if a: "ms_inv lo s a" "(set (ms_frames a) \<union> set (fnode (page_table a))) \<inter> set (fnode (page_table ks)) = {}" for a
  proof -
    note o = ms_grown_other [OF 1(2) a]
    have "set (ms_frames a) \<union> set (fnode (page_table a)) \<subseteq> fa_allocated lo (frames s)"
      using ms_invD(5) [OF a(1)] pt_inv_tables(2) [OF ms_invD(1) [OF a(1)]] by blast
    then have nq: "q \<notin> set (ms_frames a) \<union> set (fnode (page_table a))"
      using used_not_free [OF ms_invD(1) [OF a(1)]] q 1(5) by blast
    then have "q \<notin> set (fnode (page_table a))" by blast
    note v = ms_inv_data [OF o(1) this mo]
    have "m x = phys s x" if "pa2ppn x \<in> set (ms_frames a) \<union> set (fnode (page_table a))" for x
      using o(3) [OF that] mo [of x] that nq by metis
    then show ?thesis using v o(2,4) by auto
  qed
  show ?thesis
    using run w lk bytes d(6) other q 1(5) by (intro exI [of _ "s1\<lparr>phys := m\<rparr>"] exI [of _ ks1] exI [of _ q]) auto
qed

section \<open>Frames and pages of a space\<close>

lemma framed_pages:
  assumes "\<forall>b \<in> set as. map_type b = Framed" and "\<forall>b \<in> set as. area_inv m pt b"
  shows "list_all2 (\<lambda>v p. \<exists>fl. pt_lookup m pt v = Some (pte_new p fl)) (concat (map area_pages as)) (concat (map area_frames as))"
  using assms
proof (induction as)
  case (Cons b as)
  have "list_all2 (\<lambda>v e. pt_lookup m pt v = Some e) (area_pages b) (entries (map_perm b) (area_frames b))"
    using Cons.prems by (simp add: area_inv_def)
  then have "list_all2 (\<lambda>v p. \<exists>fl. pt_lookup m pt v = Some (pte_new p fl)) (area_pages b) (area_frames b)"
    unfolding entries_def list_all2_map2 by (rule list_all2_mono) blast
  then show ?case using Cons by (simp add: list_all2_appendI)
qed simp

text \<open>Different pages of a framed space have different frames.\<close>

lemma frame_page_unique:
  assumes inv: "ms_inv lo s ms" and fr: "\<forall>b \<in> set (areas ms). map_type b = Framed"
    and v: "v \<in> set (ms_pages ms)" "pt_lookup (phys s) (page_table ms) v = Some (pte_new q f)"
    and w: "w \<in> set (ms_pages ms)" "pt_lookup (phys s) (page_table ms) w = Some (pte_new q g)"
    and q: "q < 2 ^ 44"
  shows "v = w"
proof -
  have l: "list_all2 (\<lambda>v p. \<exists>fl. pt_lookup (phys s) (page_table ms) v = Some (pte_new p fl)) (ms_pages ms) (ms_frames ms)"
    unfolding ms_pages_def ms_frames_def using framed_pages [OF fr] ms_invD(2) [OF inv] by blast
  have idx: "\<exists>i < length (ms_frames ms). ms_pages ms ! i = u \<and> ms_frames ms ! i = q"
    if "u \<in> set (ms_pages ms)" "pt_lookup (phys s) (page_table ms) u = Some (pte_new q h)" for u h
  proof -
    obtain i where i: "i < length (ms_pages ms)" "ms_pages ms ! i = u" using \<open>u \<in> _\<close> by (metis in_set_conv_nth)
    obtain k where k: "pt_lookup (phys s) (page_table ms) u = Some (pte_new (ms_frames ms ! i) k)"
      using list_all2_nthD [OF l i(1)] i(2) by blast
    have il: "i < length (ms_frames ms)" using i(1) list_all2_lengthD [OF l] by simp
    have "ms_frames ms ! i < 2 ^ 44" using ms_frames_44 [OF inv] il by simp
    then have "ms_frames ms ! i = q" using k that(2) pte_new_ppn q by (metis option.inject)
    then show ?thesis using i(2) il by blast
  qed
  obtain i j where "i < length (ms_frames ms)" "ms_pages ms ! i = v" "ms_frames ms ! i = q"
    "j < length (ms_frames ms)" "ms_pages ms ! j = w" "ms_frames ms ! j = q"
    using idx [OF v] idx [OF w] by blast
  then show ?thesis using nth_eq_iff_index_eq [OF ms_invD(4) [OF inv]] by metis
qed

lemma cloned_pages: "map from_another (areas ms) = map from_another (areas a) \<Longrightarrow> ms_pages ms = ms_pages a"
proof -
  assume "map from_another (areas ms) = map from_another (areas a)"
  then have "map area_pages (map from_another (areas ms)) = map area_pages (map from_another (areas a))" by simp
  then show ?thesis unfolding ms_pages_def by (simp add: comp_def)
qed

lemma cloned_framed:
  assumes "map from_another (areas ms) = map from_another (areas a)" and "\<forall>b \<in> set (areas a). map_type b = Framed"
  shows "\<forall>b \<in> set (areas ms). map_type b = Framed"
proof -
  have "map map_type (map from_another (areas ms)) = map map_type (map from_another (areas a))" using assms(1) by simp
  then have "set (map map_type (areas ms)) = set (map map_type (areas a))" by (simp add: comp_def)
  then show ?thesis using assms(2) by auto
qed

text \<open>A copy stays a copy as long as its entries and frames do not change.\<close>

lemma cloned_later:
  assumes c: "cloned m a m1 ms v" and a: "\<forall>p \<in> set (ms_frames a). p < 2 ^ 52" and ms: "\<forall>q \<in> set (ms_frames ms). q < 2 ^ 52"
    and look: "pt_lookup m2 (page_table ms) v = pt_lookup m1 (page_table ms) v"
    and eq: "\<And>x. pa2ppn x \<in> set (ms_frames ms) \<Longrightarrow> m2 x = m1 x"
  shows "cloned m a m2 ms v"
proof -
  obtain p q fl where pq: "p \<in> set (ms_frames a)" "q \<in> set (ms_frames ms)"
    "pt_lookup m (page_table a) v = Some (pte_new p fl)" "pt_lookup m1 (page_table ms) v = Some (pte_new q fl)"
    "same_bytes m p m1 q"
    using c by (auto simp: cloned_def)
  have e: "m2 x = m1 x" if "pa2ppn x = q" for x using eq [of x] that pq(2) by simp
  have "same_bytes m p m2 q"
    by (rule same_bytes_cong [OF pq(5) bspec [OF a pq(1)] bspec [OF ms pq(2)] refl e])
  then show ?thesis using pq look unfolding cloned_def by metis
qed

section \<open>The memory of parent and child\<close>

text \<open>What \<^verbatim>\<open>fork\<close> needs of the spaces of the parent and of the kernel, for the new identifier \<open>pd\<close>.\<close>

definition fork_room :: "ppn \<Rightarrow> kmem \<Rightarrow> MemorySet \<Rightarrow> MemorySet \<Rightarrow> u64 \<Rightarrow> bool" where
  "fork_room lo s a ks pd \<longleftrightarrow> ms_inv lo s a \<and> ms_inv lo s ks \<and> (\<forall>b \<in> set (areas a). map_type b = Framed)
     \<and> 3 * length (ms_pages a) + 16 \<le> card (fa_free (frames s))
     \<and> take_bit 27 (va2vpn TRAMPOLINE) \<notin> take_bit 27 ` set (ms_pages a) \<and> va2vpn TRAP_CONTEXT \<in> set (ms_pages a)
     \<and> (set (ms_frames a) \<union> set (fnode (page_table a))) \<inter> set (fnode (page_table ks)) = {}
     \<and> unat pd < 2 ^ 32 \<and> (\<forall>v \<in> set (area_pages (stack_area pd)). pt_lookup (phys s) (page_table ks) v = None)"

lemma fork_spaces:
  assumes R: "fork_room lo s a ks pd" and id: "pid_alloc ids = Ok (pd, ids')"
  shows "\<exists>s1 ms tp s2 ks'. from_existed_user s a st = Ok (s1, ms) \<and> trap_frame s1 ms = Ok tp
    \<and> new_kstack ra ids s1 ks = Ok (pd, ks_get_top pd - 104, ids', s2, ks')
    \<and> ms_inv lo s2 ms \<and> ms_inv lo s2 a \<and> ms_inv lo s2 ks'
    \<and> map from_another (areas ms) = map from_another (areas a)
    \<and> (\<forall>v \<in> set (ms_pages a). cloned (phys s) a (phys s2) ms v)
    \<and> tp \<in> set (ms_frames ms) \<and> tp \<notin> set (fnode (page_table a)) \<union> set (ms_frames a) \<union> set (fnode (page_table ks'))
    \<and> (\<exists>fl. pt_lookup (phys s2) (page_table ms) (va2vpn TRAP_CONTEXT) = Some (pte_new tp fl))
    \<and> (set (ms_frames ms) \<union> set (fnode (page_table ms)) \<union> set (fnode (page_table ks'))) \<inter> (set (ms_frames a) \<union> set (fnode (page_table a))) = {}
    \<and> (\<forall>x. pa2ppn x \<in> set (ms_frames a) \<union> set (fnode (page_table a)) \<longrightarrow> phys s2 x = phys s x)
    \<and> (\<exists>q. pt_lookup (phys s2) (page_table ks') (va2vpn (ks_get_top pd - 104)) = Some (pte_new q (VM_R OR VM_W OR PTE_V))
         \<and> rbytes (phys s2) (ppn2pa q + 3992) 104 = le_bytes 8 ra @ replicate 96 0 \<and> q \<noteq> tp \<and> q < 2 ^ 52)"
proof -
  have par: "ms_inv lo s a" "\<forall>b \<in> set (areas a). map_type b = Framed" and ks: "ms_inv lo s ks"
    and room: "3 * length (ms_pages a) + 16 \<le> card (fa_free (frames s))"
    and tr: "take_bit 27 (va2vpn TRAMPOLINE) \<notin> take_bit 27 ` set (ms_pages a)" and T: "va2vpn TRAP_CONTEXT \<in> set (ms_pages a)"
    and dis: "(set (ms_frames a) \<union> set (fnode (page_table a))) \<inter> set (fnode (page_table ks)) = {}"
    and pd: "unat pd < 2 ^ 32" "\<forall>v \<in> set (area_pages (stack_area pd)). pt_lookup (phys s) (page_table ks) v = None"
    using R unfolding fork_room_def by blast+
  have room4: "3 * length (ms_pages a) + 4 \<le> card (fa_free (frames s))" using room by simp
  obtain s1 ms where 1: "from_existed_user s a st = Ok (s1, ms)" "ms_inv lo s1 ms" "ms_inv lo s1 a"
    "map from_another (areas ms) = map from_another (areas a)" "\<forall>v \<in> set (ms_pages a). cloned (phys s) a (phys s1) ms v"
    "set (ms_frames ms) \<union> set (fnode (page_table ms)) \<subseteq> fa_free (frames s)"
    "fa_allocated lo (frames s1) = fa_allocated lo (frames s) \<union> set (ms_frames ms) \<union> set (fnode (page_table ms))"
    "\<And>x. pa2ppn x \<notin> fa_free (frames s) \<Longrightarrow> phys s1 x = phys s x"
    "card (fa_free (frames s)) \<le> card (fa_free (frames s1)) + (3 * length (ms_pages a) + 4)"
    using from_existed_user_ok [OF par room4 tr, of st] by blast
  have al1: "fa_allocated lo (frames s) \<subseteq> fa_allocated lo (frames s1)" using 1(7) by blast
  note i1 = ms_invD(1) [OF 1(2)]
  note k1 = untouched [where s' = s1, OF ks i1 al1 1(8)] and a1 = untouched [where s' = s1, OF par(1) i1 al1 1(8)]
  have dm: "(set (ms_frames ms) \<union> set (fnode (page_table ms))) \<inter> set (fnode (page_table ks)) = {}" using k1(4) 1(6) by blast
  have new: "\<forall>v \<in> set (area_pages (stack_area pd)). pt_lookup (phys s1) (page_table ks) v = None" using pd(2) k1(2) by simp
  have "12 \<le> card (fa_free (frames s1))" using 1(9) room by simp
  from new_kstack_ok [OF k1(1) id pd(1) this new, of ra] obtain s2 ks' q where
    2: "new_kstack ra ids s1 ks = Ok (pd, ks_get_top pd - 104, ids', s2, ks')" "ms_inv lo s2 ks'"
      "pt_lookup (phys s2) (page_table ks') (va2vpn (ks_get_top pd - 104)) = Some (pte_new q (VM_R OR VM_W OR PTE_V))"
      "rbytes (phys s2) (ppn2pa q + 3992) 104 = le_bytes 8 ra @ replicate 96 0" "q \<in> fa_free (frames s1)"
    and keep: "\<And>a. ms_inv lo s1 a \<and> (set (ms_frames a) \<union> set (fnode (page_table a))) \<inter> set (fnode (page_table ks)) = {} \<Longrightarrow>
         ms_inv lo s2 a \<and> (\<forall>v. pt_lookup (phys s2) (page_table a) v = pt_lookup (phys s1) (page_table a) v)
         \<and> (\<forall>x. pa2ppn x \<in> set (ms_frames a) \<union> set (fnode (page_table a)) \<longrightarrow> phys s2 x = phys s1 x)
         \<and> (set (ms_frames a) \<union> set (fnode (page_table a))) \<inter> set (fnode (page_table ks')) = {}" by blast
  note km = keep [of ms, OF conjI, OF 1(2) dm] and ka = keep [of a, OF conjI, OF 1(3) dis]
  obtain p tp fl where tp: "tp \<in> set (ms_frames ms)" "pt_lookup (phys s1) (page_table ms) (va2vpn TRAP_CONTEXT) = Some (pte_new tp fl)"
    using bspec [OF 1(5) T] unfolding cloned_def by blast
  have tp44: "tp < 2 ^ 44" using ms_frames_44 [OF 1(2)] tp(1) by blast
  have tf: "trap_frame s1 ms = Ok tp" using deref_pte_lookup [OF tp(2)] tp44 by (simp add: trap_frame_def pte_new_ppn)
  have tn: "tp \<notin> set (fnode (page_table a)) \<union> set (ms_frames a) \<union> set (fnode (page_table ks'))"
    using a1(4) km tp(1) 1(6) by blast
  have q52: "q < 2 ^ 52" using frame_small [OF i1] 2(5) by blast
  have qn: "q \<noteq> tp" using 2(5) used_not_free [OF i1, of tp] 1(7) tp(1) by blast
  have dj: "(set (ms_frames ms) \<union> set (fnode (page_table ms)) \<union> set (fnode (page_table ks'))) \<inter> (set (ms_frames a) \<union> set (fnode (page_table a))) = {}"
    using a1(4) ka 1(6) by blast
  have cl: "cloned (phys s) a (phys s2) ms v" if "v \<in> set (ms_pages a)" for v
    using cloned_later [OF bspec [OF 1(5) that] ms_frames_small [OF par(1)] ms_frames_small [OF 1(2)]] km by blast
  have pb: "phys s2 x = phys s x" if x: "pa2ppn x \<in> set (ms_frames a) \<union> set (fnode (page_table a))" for x
  proof -
    have "pa2ppn x \<notin> fa_free (frames s)" using x a1(4) by blast
    then have "phys s1 x = phys s x" by (rule 1(8))
    moreover have "phys s2 x = phys s1 x" using ka x by blast
    ultimately show ?thesis by simp
  qed
  show ?thesis using 1(1,4) tf 2(1-4) km ka cl tp tn dj pb qn q52 by (intro exI conjI) (auto simp: km)
qed

text \<open>
  The trap context of the child: the frame \<open>tf\<close> has the bytes of the parent's, but for the return value, which is 0,
  and the kernel stack, which is the child's own.
\<close>

definition child_trap :: "mem \<Rightarrow> MemorySet \<Rightarrow> mem \<Rightarrow> MemorySet \<Rightarrow> ppn \<Rightarrow> u64 \<Rightarrow> bool" where
  "child_trap m a m' ms tf ktop \<longleftrightarrow>
     (\<exists>p fl. p \<in> set (ms_frames a) \<and> pt_lookup m (page_table a) (va2vpn TRAP_CONTEXT) = Some (pte_new p fl)
       \<and> pt_lookup m' (page_table ms) (va2vpn TRAP_CONTEXT) = Some (pte_new tf fl)
       \<and> (\<forall>i < 4096. \<not> (80 \<le> i \<and> i < 88) \<and> \<not> (296 \<le> i \<and> i < 304) \<longrightarrow> m' (ppn2pa tf + of_nat i) = m (ppn2pa p + of_nat i)))
     \<and> ru64 m' (ppn2pa tf + cx_a0) = 0 \<and> ru64 m' (ppn2pa tf + cx_kernel_sp) = ktop"

lemma child_trap_ok:
  assumes c: "cloned m a m1 ms (va2vpn TRAP_CONTEXT)" and lk: "pt_lookup m1 (page_table ms) (va2vpn TRAP_CONTEXT) = Some (pte_new tf fl)"
    and small: "\<forall>q \<in> set (ms_frames ms). q < 2 ^ 44" and tf: "tf \<in> set (ms_frames ms)"
    and look: "pt_lookup m2 (page_table ms) (va2vpn TRAP_CONTEXT) = pt_lookup m1 (page_table ms) (va2vpn TRAP_CONTEXT)"
    and m2: "m2 = wu64 (wu64 m1 (ppn2pa tf + cx_kernel_sp) ktop) (ppn2pa tf + cx_a0) 0"
  shows "child_trap m a m2 ms tf ktop"
proof -
  have tp44: "tf < 2 ^ 44" using small tf by blast
  then have t: "tf < 2 ^ 52" using order.strict_trans [OF tp44, of "2 ^ 52"] by simp
  obtain p q f where pq: "q \<in> set (ms_frames ms)" "pt_lookup m (page_table a) (va2vpn TRAP_CONTEXT) = Some (pte_new p f)"
    "pt_lookup m1 (page_table ms) (va2vpn TRAP_CONTEXT) = Some (pte_new q f)" "same_bytes m p m1 q" "p \<in> set (ms_frames a)"
    using c unfolding cloned_def by blast
  have "q = tf" using pq(1,3) lk small tp44 pte_new_ppn by (metis option.inject)
  note o = wu64_offset [OF t, of 80] wu64_offset [OF t, of 296]
  have x: "cx_a0 = of_nat 80" "cx_kernel_sp = of_nat 296" by (simp_all add: cx_a0_def cx_kernel_sp_def)
  have b: "m2 (ppn2pa tf + of_nat i) = m (ppn2pa p + of_nat i)"
    if i: "i < 4096" "\<not> (80 \<le> i \<and> i < 88)" "\<not> (296 \<le> i \<and> i < 304)" for i
    using o i pq(4) \<open>q = tf\<close> unfolding m2 x same_bytes_def by simp
  have "ru64 m2 (ppn2pa tf + cx_kernel_sp) = ru64 (wu64 m1 (ppn2pa tf + cx_kernel_sp) ktop) (ppn2pa tf + cx_kernel_sp)"
    unfolding m2
  proof (rule ru64_cong)
    fix j :: nat assume "j < 8"
    then show "wu64 (wu64 m1 (ppn2pa tf + cx_kernel_sp) ktop) (ppn2pa tf + cx_a0) 0 (ppn2pa tf + cx_kernel_sp + of_nat j)
        = wu64 m1 (ppn2pa tf + cx_kernel_sp) ktop (ppn2pa tf + cx_kernel_sp + of_nat j)"
      using o(1) [of "296 + j"] unfolding x by (simp add: add.assoc)
  qed
  then have k: "ru64 m2 (ppn2pa tf + cx_kernel_sp) = ktop" by simp
  have "ru64 m2 (ppn2pa tf + cx_a0) = 0" unfolding m2 by simp
  moreover have "pt_lookup m2 (page_table ms) (va2vpn TRAP_CONTEXT) = Some (pte_new tf f)" using look pq(3) \<open>q = tf\<close> by simp
  ultimately show ?thesis unfolding child_trap_def using pq(2,5) b k by blast
qed

lemma page_bytes_kept:
  assumes "q < 2 ^ 52" and "q \<noteq> tf" and "\<And>x. pa2ppn x \<noteq> tf \<Longrightarrow> m' x = m x" and "k + n \<le> 4096"
  shows "rbytes m' (ppn2pa q + of_nat k) n = rbytes m (ppn2pa q + of_nat k) n"
proof (rule rbytes_cong)
  fix i assume "i < n"
  then have "pa2ppn (ppn2pa q + of_nat (k + i)) = q" using assms(1,4) by (intro byte_page(1)) simp_all
  then show "m' (ppn2pa q + of_nat k + of_nat i) = m (ppn2pa q + of_nat k + of_nat i)"
    using assms(2) assms(3) [of "ppn2pa q + of_nat (k + i)"] by (simp add: add.assoc)
qed

text \<open>The two stores into the trap frame, on ktop of the result of \<open>fork_spaces\<close>.\<close>

lemma trap_stores:
  assumes inv: "ms_inv lo s ms" "ms_inv lo s a" "ms_inv lo s ks" and fr: "\<forall>b \<in> set (areas ms). map_type b = Framed"
    and tf: "tf \<in> set (ms_frames ms)" "tf \<notin> set (fnode (page_table a)) \<union> set (ms_frames a) \<union> set (fnode (page_table ks))"
    and lk: "pt_lookup (phys s) (page_table ms) (va2vpn TRAP_CONTEXT) = Some (pte_new tf fl)"
    and pg: "va2vpn TRAP_CONTEXT \<in> set (ms_pages ms)" "\<forall>v \<in> set (ms_pages ms). cloned m a (phys s) ms v"
    and small: "\<forall>p \<in> set (ms_frames a). p < 2 ^ 52"
    and m2: "m2 = wu64 (wu64 (phys s) (ppn2pa tf + cx_kernel_sp) ktop) (ppn2pa tf + cx_a0) 0"
  shows "ms_inv lo (s\<lparr>phys := m2\<rparr>) ms" and "ms_inv lo (s\<lparr>phys := m2\<rparr>) a" and "ms_inv lo (s\<lparr>phys := m2\<rparr>) ks"
    and "\<And>x. pa2ppn x \<noteq> tf \<Longrightarrow> m2 x = phys s x" and "child_trap m a m2 ms tf ktop"
    and "\<And>v. v \<in> set (ms_pages ms) \<Longrightarrow> v \<noteq> va2vpn TRAP_CONTEXT \<Longrightarrow> cloned m a m2 ms v"
proof -
  have t44: "tf < 2 ^ 44" "tf < 2 ^ 52" using ms_frames_44 [OF inv(1)] ms_frames_small [OF inv(1)] tf(1) by blast+
  have x: "cx_a0 = of_nat 80" "cx_kernel_sp = of_nat 296" by (simp_all add: cx_a0_def cx_kernel_sp_def)
  show o: "m2 x = phys s x" if "pa2ppn x \<noteq> tf" for x
    unfolding m2 x using wu64_in_page [OF t44(2), of 80] wu64_in_page [OF t44(2), of 296] that by simp
  have n: "tf \<notin> set (fnode (page_table ms))" using ms_invD(6) [OF inv(1)] tf(1) by blast
  have na: "tf \<notin> set (fnode (page_table a))" "tf \<notin> set (fnode (page_table ks))" using tf(2) by blast+
  show "ms_inv lo (s\<lparr>phys := m2\<rparr>) ms" "ms_inv lo (s\<lparr>phys := m2\<rparr>) a" "ms_inv lo (s\<lparr>phys := m2\<rparr>) ks"
    using ms_inv_data(1) [OF inv(1) n o] ms_inv_data(1) [OF inv(2) na(1) o] ms_inv_data(1) [OF inv(3) na(2) o] by blast+
  note look = ms_inv_data(2) [OF inv(1) n o]
  show "child_trap m a m2 ms tf ktop"
    by (rule child_trap_ok [OF bspec [OF pg(2,1)] lk ms_frames_44 [OF inv(1)] tf(1) look m2])
  show "cloned m a m2 ms v" if v: "v \<in> set (ms_pages ms)" "v \<noteq> va2vpn TRAP_CONTEXT" for v
  proof -
    obtain p q f where q: "p \<in> set (ms_frames a)" "q \<in> set (ms_frames ms)" "pt_lookup m (page_table a) v = Some (pte_new p f)"
      "pt_lookup (phys s) (page_table ms) v = Some (pte_new q f)" "same_bytes m p (phys s) q"
      using bspec [OF pg(2) v(1)] unfolding cloned_def by blast
    have qt: "q \<noteq> tf" using frame_page_unique [OF inv(1) fr v(1) _ pg(1) lk t44(1)] q(4) v(2) by blast
    have e: "m2 y = phys s y" if "pa2ppn y = q" for y using o [of y] that qt by simp
    have "q < 2 ^ 52" using ms_frames_small [OF inv(1)] q(2) by blast
    then have "same_bytes m p m2 q" using same_bytes_cong [OF q(5) bspec [OF small q(1)] _ refl e] by blast
    then show ?thesis unfolding cloned_def using q(1-4) look by metis
  qed
qed

section \<open>The kernel's tables in fork\<close>

lemma fork_files_rest:
  "fork_files is k p c = Ok k' \<Longrightarrow> ksched k' = ksched k \<and> kfs k' = kfs k \<and> kcwd k' = kcwd k \<and> kpipes k' = kpipes k"
proof (induction "is" arbitrary: k)
  case (Cons i "is")
  show ?case
  proof (cases "ofile k p ! i")
    case None
    then show ?thesis using Cons by simp
  next
    case (Some f)
    with Cons.prems obtain k1 where k1: "filedup k f = Ok k1" "fork_files is (set_fd k1 c i (Some f)) p c = Ok k'" by auto
    have "ksched k1 = ksched k \<and> kfs k1 = kfs k \<and> kcwd k1 = kcwd k \<and> kpipes k1 = kpipes k"
      using k1(1) by (auto simp: filedup_def set_file_def Let_def split: if_splits)
    then show ?thesis using Cons.IH [OF k1(2)] by (simp add: set_fd_def)
  qed
qed simp

lemma fork_fds_ok:
  assumes "fd_inv T x k" and "c \<in> T" and "c \<noteq> p" and "ofile k c = replicate NOFILE None"
  shows "\<exists>k'. fork_fds k p c = Ok k' \<and> fd_inv T x k' \<and> ofile k' = (ofile k)(c := ofile k p)
    \<and> ksched k' = ksched k \<and> kfs k' = kfs k \<and> kcwd k' = kcwd k"
proof -
  note d = fd_invD [OF assms(1)]
  obtain k' where k': "fork_fds k p c = Ok k'" "fd_inv T x k'" "\<forall>u. u \<noteq> c \<longrightarrow> ofile k' u = ofile k u"
    "\<forall>i < NOFILE. ofile k' c ! i = (if i \<in> set [0..<NOFILE] \<and> ofile k p ! i \<noteq> None then ofile k p ! i else ofile k c ! i)"
    using fork_files_ok [OF assms(1-3), of "[0..<NOFILE]"] assms(4) unfolding fork_fds_def by (auto simp: subset_iff)
  have "ofile k' c = ofile k p"
    using k'(4) assms(4) d(4) [of p] fd_invD(4) [OF k'(2), of c] by (intro nth_equalityI) auto
  then have "ofile k' = (ofile k)(c := ofile k p)" using k'(3) by auto
  then show ?thesis using k' fork_files_rest [OF k'(1) [unfolded fork_fds_def]] by blast
qed

lemma fd_inv_sched [simp]:
  "fd_inv T x (k\<lparr>ksched := sc\<rparr>) = fd_inv T x k" "fd_inv T x (k\<lparr>kfs := f\<rparr>) = fd_inv T x k" "fd_inv T x (k\<lparr>kcwd := w\<rparr>) = fd_inv T x k"
  "fd_inv T x (with_mem k m) = fd_inv T x k"
  by (simp_all add: fd_inv_def refs_def with_mem_def)

lemma dup_cwd_ok:
  assumes "\<not> eclock (kfs k)"
  shows "\<exists>f. dup_cwd k cwd c = Ok (k\<lparr>kfs := f, kcwd := (kcwd k)(c := cwd)\<rparr>)"
proof (cases cwd)
  case None
  have "k\<lparr>kfs := kfs k, kcwd := (kcwd k)(c := cwd)\<rparr> = k\<lparr>kcwd := (kcwd k)(c := cwd)\<rparr>" by simp
  then show ?thesis using None by (intro exI [of _ "kfs k"]) (simp add: dup_cwd_def)
next
  case (Some e)
  then show ?thesis using assms by (auto simp: dup_cwd_def edup_def)
qed

section \<open>fork\<close>

text \<open>
  The conditions of \<open>sys_fork_process\<close>: \<open>p\<close> runs, \<open>c\<close> is a fresh control block, \<open>pd\<close> is the identifier that the
  allocator gives next, and there is enough memory for the copy of the space and for a kernel stack.
\<close>

definition fork_ready :: "ppn \<Rightarrow> nat set \<Rightarrow> (nat \<Rightarrow> nat) \<Rightarrow> proc \<Rightarrow> nat \<Rightarrow> nat \<Rightarrow> u64 \<Rightarrow> PidAllocator \<Rightarrow> bool" where
  "fork_ready lo T x P p c pd ids \<longleftrightarrow> fork_room lo (pm P) (memory_set P p) (kernel_space P) pd \<and> pid_alloc (pids P) = Ok (pd, ids)
     \<and> fd_inv T x (pk P) \<and> c \<in> T \<and> c \<noteq> p \<and> ofile (pk P) c = replicate NOFILE None
     \<and> mytask (ksched (pk P)) = Some p \<and> \<not> tcb_lock (tasks (ksched (pk P)) p) \<and> \<not> tm_lock (ksched (pk P))
     \<and> \<not> tag_linked (tasks (ksched (pk P)) c) \<and> \<not> eclock (kfs (pk P))"

definition forked_tasks :: "(nat \<Rightarrow> tcb) \<Rightarrow> nat \<Rightarrow> nat \<Rightarrow> u64 \<Rightarrow> nat \<Rightarrow> tcb" where
  "forked_tasks ts p c pd =
     ts(c := (ts c)\<lparr>pid := pd, tcb_lock := False, task_status := Ready, parent := Some p, child := [], exit_code := 0, tag_linked := True\<rparr>,
        p := (ts p)\<lparr>child := child (ts p) @ [c]\<rparr>)"

lemma unlocked_child: "\<not> tcb_lock t \<Longrightarrow> t\<lparr>child := l, tcb_lock := False\<rparr> = t\<lparr>child := l\<rparr>"
  by (cases t) simp

text \<open>The same call with the results of the other components plugged in.\<close>

lemma sys_fork_run:
  assumes c: "c \<noteq> p" and run: "mytask (ksched (pk P)) = Some p" "\<not> tcb_lock (tasks (ksched (pk P)) p)" "\<not> tm_lock (ksched (pk P))"
      "\<not> tag_linked (tasks (ksched (pk P)) c)" "\<not> eclock (kfs (pk P))"
    and fd: "fd_inv T x (pk P)" "c \<in> T" "ofile (pk P) c = replicate NOFILE None"
    and mem: "from_existed_user (pm P) (memory_set P p) (tramp_addr E) = Ok (s1, ms)" "trap_frame s1 ms = Ok tf"
      "new_kstack (e_return_addr E) (pids P) s1 (kernel_space P) = Ok (pd, dst, ids, s2, ks)"
    and m: "m = wu64 (wu64 (phys s2) (ppn2pa tf + cx_kernel_sp) (ks_get_top pd)) (ppn2pa tf + cx_a0) 0"
  shows "\<exists>P'. sys_fork E P (Some c) = Ok (pd, P') \<and> pids P' = ids \<and> pm P' = s2\<lparr>phys := m\<rparr> \<and> kernel_space P' = ks
    \<and> memory_set P' = (memory_set P)(c := ms) \<and> trap_cx_ppn P' = (trap_cx_ppn P)(c := tf) \<and> task_cx_ptr P' c = dst
    \<and> mytask (ksched (pk P')) = Some p
    \<and> umem (ux (kfs (pk P'))) = m \<and> fd_inv T x (pk P') \<and> ofile (pk P') = (ofile (pk P))(c := ofile (pk P) p)
    \<and> kcwd (pk P') = (kcwd (pk P))(c := kcwd (pk P) p)
    \<and> ready_queue (ksched (pk P')) = ready_queue (ksched (pk P)) @ [c]
    \<and> tasks (ksched (pk P')) = forked_tasks (tasks (ksched (pk P))) p c pd"
proof -
  let ?ts = "tasks (ksched (pk P))"
  define sc where "sc = (ksched (pk P))\<lparr>tasks := ?ts(p := (?ts p)\<lparr>tcb_lock := True\<rparr>,
      c := (?ts c)\<lparr>pid := pd, tcb_lock := False, task_status := Ready, parent := Some p, child := [], exit_code := 0\<rparr>)\<rparr>"
  obtain f where f: "dup_cwd ((pk P)\<lparr>ksched := sc\<rparr>) (kcwd (pk P) p) c
      = Ok ((pk P)\<lparr>ksched := sc, kfs := f, kcwd := (kcwd (pk P))(c := kcwd (pk P) p)\<rparr>)"
    using dup_cwd_ok [of "(pk P)\<lparr>ksched := sc\<rparr>" "kcwd (pk P) p" c] run(5) by auto
  let ?k = "(pk P)\<lparr>ksched := sc, kfs := f, kcwd := (kcwd (pk P))(c := kcwd (pk P) p)\<rparr>"
  have "fd_inv T x ?k" "ofile ?k c = replicate NOFILE None" using fd by simp_all
  from fork_fds_ok [OF this(1) fd(2) c this(2)] obtain k where
    k: "fork_fds ?k p c = Ok k" "fd_inv T x k" "ofile k = (ofile (pk P))(c := ofile (pk P) p)" "ksched k = sc" "kfs k = f"
      "kcwd k = (kcwd (pk P))(c := kcwd (pk P) p)" by auto
  let ?ms = "(memory_set P)(c := ms)" and ?m1 = "wu64 (phys s2) (ppn2pa tf + cx_kernel_sp) (ks_get_top pd)"
  define ts where "ts = ?ts(p := (?ts p)\<lparr>child := child (?ts p) @ [c]\<rparr>,
      c := (?ts c)\<lparr>pid := pd, tcb_lock := False, task_status := Ready, parent := Some p, child := [], exit_code := 0\<rparr>)"
  define P1 where "P1 = \<lparr>pk = with_mem (k\<lparr>ksched := (ksched (pk P))\<lparr>tasks := ts\<rparr>\<rparr>) ?m1, pm = s2\<lparr>phys := ?m1\<rparr>, pids = ids, kernel_space = ks,
      memory_set = ?ms, trap_cx_ppn = (trap_cx_ppn P)(c := tf), base_size = (base_size P)(c := base_size P p),
      task_cx_ptr = (task_cx_ptr P)(c := dst)\<rparr>"
  have l: "lock_task (ksched (pk P)) p = Ok ((ksched (pk P))\<lparr>tasks := ?ts(p := (?ts p)\<lparr>tcb_lock := True\<rparr>)\<rparr>)"
    using run(2) by (simp add: lock_task_def)
  have u: "unlock_task (sc\<lparr>tasks := (tasks sc)(p := (tasks sc p)\<lparr>child := child (tasks sc p) @ [c]\<rparr>)\<rparr>) p = Ok ((ksched (pk P))\<lparr>tasks := ts\<rparr>)"
    using c unlocked_child [OF run(2)] by (simp add: unlock_task_def sc_def ts_def fun_upd_twist)
  have F: "fork E P p (Some c) = Ok (c, P1)"
    using l f k(1,4) u mem c by (simp add: fork_def Let_def P1_def sc_def)
  have tl: "\<not> tag_linked (ts c)" and ps: "pid (ts c) = pd" using run(4) by (simp_all add: ts_def)
  have ta: "task_add (ksched (pk P1)) c = Ok ((ksched (pk P))\<lparr>ready_queue := ready_queue (ksched (pk P)) @ [c],
      tasks := ts(c := (ts c)\<lparr>tag_linked := True\<rparr>)\<rparr>)"
    using run(3) tl by (simp add: task_add_def link_tag_def P1_def with_mem_def)
  have ft: "ts(c := (ts c)\<lparr>tag_linked := True\<rparr>) = forked_tasks ?ts p c pd"
    using c by (simp add: ts_def forked_tasks_def fun_upd_twist)
  let ?P = "P1\<lparr>pk := with_mem ((pk P1)\<lparr>ksched := (ksched (pk P))\<lparr>ready_queue := ready_queue (ksched (pk P)) @ [c],
      tasks := ts(c := (ts c)\<lparr>tag_linked := True\<rparr>)\<rparr>\<rparr>) m, pm := (pm P1)\<lparr>phys := m\<rparr>\<rparr>"
  have "sys_fork E P (Some c) = Ok (pd, ?P)"
    using run(1) F ta ps by (simp add: sys_fork_def Let_def m P1_def)
  then show ?thesis using k ft run(1) by (intro exI [of _ ?P]) (simp add: P1_def with_mem_def fd_inv_def refs_def mytask_def)
qed

text \<open>
  With a fresh control block and enough memory \<^verbatim>\<open>sys_fork\<close> succeeds and returns the identifier of the
  child. The child is ready and last in the queue, has the parent's descriptors and current directory and
  is in its list of children; no other control block changes. Its address space is well formed and shares nothing with
  the parent's; every page of it but the trap context has the bytes and the rights of the parent's page. The kernel
  stack is new, mapped in the kernel space and starts with a context that resumes at \<^verbatim>\<open>e_return\<close>. No byte of the parent
  changes.
\<close>

lemma sys_fork_process:
  assumes "fork_ready lo T x P p c pd ids"
  shows "\<exists>P'. sys_fork E P (Some c) = Ok (pd, P') \<and> pids P' = ids
    \<and> fd_inv T x (pk P') \<and> ofile (pk P') = (ofile (pk P))(c := ofile (pk P) p)
    \<and> kcwd (pk P') = (kcwd (pk P))(c := kcwd (pk P) p)
    \<and> ready_queue (ksched (pk P')) = ready_queue (ksched (pk P)) @ [c]
    \<and> tasks (ksched (pk P')) = forked_tasks (tasks (ksched (pk P))) p c pd
    \<and> umem (ux (kfs (pk P'))) = phys (pm P') \<and> mytask (ksched (pk P')) = Some p
    \<and> (\<forall>t. t \<noteq> c \<longrightarrow> memory_set P' t = memory_set P t \<and> trap_cx_ppn P' t = trap_cx_ppn P t)
    \<and> trap_cx_ppn P' c \<in> set (ms_frames (memory_set P' c))
    \<and> (set (ms_frames (memory_set P' c)) \<union> set (fnode (page_table (memory_set P' c))) \<union> set (fnode (page_table (kernel_space P'))))
        \<inter> (set (ms_frames (memory_set P p)) \<union> set (fnode (page_table (memory_set P p)))) = {}
    \<and> ms_inv lo (pm P') (memory_set P' c) \<and> ms_inv lo (pm P') (memory_set P p) \<and> ms_inv lo (pm P') (kernel_space P')
    \<and> (\<forall>v \<in> set (ms_pages (memory_set P p)) - {va2vpn TRAP_CONTEXT}.
         cloned (phys (pm P)) (memory_set P p) (phys (pm P')) (memory_set P' c) v)
    \<and> child_trap (phys (pm P)) (memory_set P p) (phys (pm P')) (memory_set P' c) (trap_cx_ppn P' c) (ks_get_top pd)
    \<and> (\<forall>y. pa2ppn y \<in> set (ms_frames (memory_set P p)) \<union> set (fnode (page_table (memory_set P p))) \<longrightarrow> phys (pm P') y = phys (pm P) y)
    \<and> task_cx_ptr P' c = ks_get_top pd - 104
    \<and> (\<exists>q. pt_lookup (phys (pm P')) (page_table (kernel_space P')) (va2vpn (task_cx_ptr P' c)) = Some (pte_new q (VM_R OR VM_W OR PTE_V))
         \<and> rbytes (phys (pm P')) (ppn2pa q + 3992) 104 = le_bytes 8 (e_return_addr E) @ replicate 96 0)"
proof -
  note r = assms [unfolded fork_ready_def]
  let ?a = "memory_set P p" and ?s = "pm P"
  obtain s1 ms tf s2 ks fl q where 1: "from_existed_user ?s ?a (tramp_addr E) = Ok (s1, ms)" "trap_frame s1 ms = Ok tf"
      "new_kstack (e_return_addr E) (pids P) s1 (kernel_space P) = Ok (pd, ks_get_top pd - 104, ids, s2, ks)"
    and inv: "ms_inv lo s2 ms" "ms_inv lo s2 ?a" "ms_inv lo s2 ks" and an: "map from_another (areas ms) = map from_another (areas ?a)"
    and cl: "\<forall>v \<in> set (ms_pages ?a). cloned (phys ?s) ?a (phys s2) ms v"
    and tf: "tf \<in> set (ms_frames ms)" "tf \<notin> set (fnode (page_table ?a)) \<union> set (ms_frames ?a) \<union> set (fnode (page_table ks))"
    and lk: "pt_lookup (phys s2) (page_table ms) (va2vpn TRAP_CONTEXT) = Some (pte_new tf fl)"
    and dj: "(set (ms_frames ms) \<union> set (fnode (page_table ms)) \<union> set (fnode (page_table ks))) \<inter> (set (ms_frames ?a) \<union> set (fnode (page_table ?a))) = {}"
    and par: "\<forall>x. pa2ppn x \<in> set (ms_frames ?a) \<union> set (fnode (page_table ?a)) \<longrightarrow> phys s2 x = phys ?s x"
    and q: "pt_lookup (phys s2) (page_table ks) (va2vpn (ks_get_top pd - 104)) = Some (pte_new q (VM_R OR VM_W OR PTE_V))"
      "rbytes (phys s2) (ppn2pa q + 3992) 104 = le_bytes 8 (e_return_addr E) @ replicate 96 0" "q \<noteq> tf" "q < 2 ^ 52"
    using fork_spaces [of lo ?s ?a "kernel_space P" pd "pids P" ids] r by blast
  define m where "m = wu64 (wu64 (phys s2) (ppn2pa tf + cx_kernel_sp) (ks_get_top pd)) (ppn2pa tf + cx_a0) 0"
  have fr: "\<forall>b \<in> set (areas ms). map_type b = Framed" and T: "va2vpn TRAP_CONTEXT \<in> set (ms_pages ?a)"
    using cloned_framed [OF an] r by (simp_all add: fork_room_def)
  note pg = cloned_pages [OF an]
  note w = trap_stores [OF inv fr tf lk T [folded pg] cl [folded pg] ms_frames_small [OF inv(2)] m_def]
  have nk: "tf \<notin> set (fnode (page_table ks))" using tf(2) by blast
  have same: "m y = phys ?s y" if y: "pa2ppn y \<in> set (ms_frames ?a) \<union> set (fnode (page_table ?a))" for y
  proof -
    have "pa2ppn y \<noteq> tf" using y tf(2) by blast
    then show ?thesis using w(4) [of y] mp [OF spec [OF par, of y] y] by simp
  qed
  have lk': "pt_lookup m (page_table ks) v = pt_lookup (phys s2) (page_table ks) v" for v
    by (rule ms_inv_data(2) [OF inv(3) nk w(4)])
  have cx: "rbytes m (ppn2pa q + 3992) 104 = le_bytes 8 (e_return_addr E) @ replicate 96 0"
    using page_bytes_kept [OF q(4,3) w(4), where k = 3992 and n = 104] q(2) by simp
  obtain P' where P: "sys_fork E P (Some c) = Ok (pd, P')" "pids P' = ids" "pm P' = s2\<lparr>phys := m\<rparr>" "kernel_space P' = ks"
    "memory_set P' = (memory_set P)(c := ms)" "trap_cx_ppn P' = (trap_cx_ppn P)(c := tf)" "task_cx_ptr P' c = ks_get_top pd - 104"
    "mytask (ksched (pk P')) = Some p"
    "umem (ux (kfs (pk P'))) = m" "fd_inv T x (pk P')" "ofile (pk P') = (ofile (pk P))(c := ofile (pk P) p)"
    "kcwd (pk P') = (kcwd (pk P))(c := kcwd (pk P) p)"
    "ready_queue (ksched (pk P')) = ready_queue (ksched (pk P)) @ [c]"
    "tasks (ksched (pk P')) = forked_tasks (tasks (ksched (pk P))) p c pd"
    using sys_fork_run [OF _ _ _ _ _ _ _ _ _ 1 m_def, where T = T and x = x and c = c] r by blast
  show ?thesis using P w(1-3,5) w(6) pg same cx q(1) lk' dj tf(1) by (intro exI [of _ P'] conjI exI [of _ q]) simp_all
qed

section \<open>An example\<close>

lemma trap_area_pages: "area_pages (ma_new TRAP_CONTEXT TRAMPOLINE Framed (VM_R OR VM_W)) = [0xffffffffffffe]"
  by (simp add: area_pages_def ma_new_def va_floor_def va_ceil_def pa_floor_def pa_ceil_def PAGE_SIZE_def vpns_def upt_rec
      TRAP_CONTEXT_def TRAMPOLINE_def ULONG_MAX_def)

lemma trap_vpn: "va2vpn TRAP_CONTEXT = 0xffffffffffffe"
  by (simp add: va2vpn_def pa2ppn_def pa_floor_def TRAP_CONTEXT_def TRAMPOLINE_def ULONG_MAX_def PAGE_SIZE_def)

lemma stack_1_pages: "area_pages (stack_area 1) = [0xffffffffffff5, 0xffffffffffff6, 0xffffffffffff7, 0xffffffffffff8]"
  by (simp add: area_pages_def stack_area_def kernel_stack_pos_def Let_def ma_new_def va_floor_def va_ceil_def pa_floor_def pa_ceil_def
      PAGE_SIZE_def vpns_def upt_rec TRAP_CONTEXT_def TRAMPOLINE_def ULONG_MAX_def KERNEL_STACK_SIZE_def)

text \<open>A kernel space with only the trampoline, and a parent whose only page is its trap context.\<close>

lemma ex_fork_room: "\<exists>s a ks. fork_room 2 s a ks 1"
proof -
  let ?s = "\<lparr>phys = (\<lambda>_. 0), frames = fa_60\<rparr>" and ?a = "ma_new TRAP_CONTEXT TRAMPOLINE Framed (VM_R OR VM_W)"
  have "4 \<le> card (fa_free (frames ?s))" "fa_inv 2 (frames ?s)" "fend (frames ?s) \<le> 2 ^ 44" using fa_60_inv by simp_all
  from new_space_ok [OF this(2,3,1), of 0] obtain s1 ks where 1: "ms_inv 2 s1 ks" "areas ks = []"
    "\<And>u. take_bit 27 u \<noteq> take_bit 27 (va2vpn TRAMPOLINE) \<Longrightarrow> pt_lookup (phys s1) (page_table ks) u = None"
    "card (fa_free (frames ?s)) \<le> card (fa_free (frames s1)) + 4" by blast
  note i1 = ms_invD(1) [OF 1(1)]
  have c1: "4 \<le> card (fa_free (frames s1))" using 1(4) fa_60_inv(2) by simp
  from new_space_ok [OF pt_inv_tables(3) [OF i1] fend_small [OF i1] c1, of 0] obtain s2 a0 where 2: "ms_inv 2 s2 a0" "areas a0 = []"
    "\<And>u. take_bit 27 u \<noteq> take_bit 27 (va2vpn TRAMPOLINE) \<Longrightarrow> pt_lookup (phys s2) (page_table a0) u = None"
    "card (fa_free (frames s1)) \<le> card (fa_free (frames s2)) + 4" "set (fnode (page_table a0)) \<subseteq> fa_free (frames s1)"
    "fa_allocated 2 (frames s2) = fa_allocated 2 (frames s1) \<union> set (fnode (page_table a0))"
    "\<And>x. pa2ppn x \<notin> fa_free (frames s1) \<Longrightarrow> phys s2 x = phys s1 x" by blast
  have "fa_allocated 2 (frames s1) \<subseteq> fa_allocated 2 (frames s2)" using 2(6) by blast
  note k2 = untouched [where s' = s2, OF 1(1) ms_invD(1) [OF 2(1)] this 2(7)]
  have c2: "52 \<le> card (fa_free (frames s2))" using 2(4) 1(4) fa_60_inv(2) by simp
  have t: "map_type ?a = Framed" by (simp add: ma_new_def)
  have push: "pushable s2 a0 ?a" using c2 2(3) by (simp add: pushable_def trap_area_pages apart_def tramp_vpn)
  obtain s3 a qs where 3: "ms_grown 2 s2 a0 (area_pages ?a) s3 a" "areas a = [?a\<lparr>dataframe := framed (area_pages ?a) qs\<rparr>]"
    using ms_push_framed [OF 2(1) t push, of 0] 2(2) by auto
  note d = ms_grownD [OF 3(1)]
  have kf: "ms_frames ks = []" by (simp add: ms_frames_def 1(2))
  have dis: "(set (ms_frames ks) \<union> set (fnode (page_table ks))) \<inter> set (fnode (page_table a0)) = {}" using 2(5) k2(4) by blast
  note k3 = ms_grown_other [OF 3(1) k2(1) dis]
  have a0f: "ms_frames a0 = []" by (simp add: ms_frames_def 2(2))
  have pg: "ms_pages a = [0xffffffffffffe]" by (simp add: ms_pages_def 3(2) trap_area_pages [unfolded area_pages_def] area_pages_def)
  have c3: "19 \<le> card (fa_free (frames s3))" using d(8) c2 by (simp add: trap_area_pages)
  have "(set (ms_frames a) \<union> set (fnode (page_table a))) \<inter> set (fnode (page_table ks)) = {}" using k3(4) a0f by auto
  moreover have "\<forall>v \<in> set (area_pages (stack_area 1)). pt_lookup (phys s3) (page_table ks) v = None"
    using 1(3) k2(2) k3(2) by (simp add: stack_1_pages tramp_vpn)
  moreover have "\<forall>b \<in> set (areas a). map_type b = Framed" by (simp add: 3(2) ma_new_def)
  ultimately have "fork_room 2 s3 a ks 1" using d(1) k3(1) c3 by (simp add: fork_room_def pg trap_vpn tramp_vpn)
  then show ?thesis by blast
qed

definition ex_env :: env where
  "ex_env = \<lparr>tramp_addr = 0x80020000, e_return_addr = 0x80020100, dispatch_addr = 0x80020200, sstatus_csr = 0, restore_off = 0x100\<rparr>"

section \<open>exec and exit\<close>

text \<open>
  \<^verbatim>\<open>sys_exec\<close> never starts the program: it returns only when the path cannot be read, and a successful \<^verbatim>\<open>execve\<close> ends in
  the panic that follows it.
\<close>

lemma sys_exec_panics:
  shows "sys_exec g E a P elf = Ok (r, P') \<Longrightarrow> r = - 1 \<and> P' = P"
    and "argstr a 0 (pk P) FAT32_MAX_PATH = Ok (Some path) \<Longrightarrow> argaddr a 1 = Ok argv \<Longrightarrow> argaddr a 2 = Ok envp \<Longrightarrow>
      exec_args g (ux (kfs (pk P))) argv 0 = Ok args \<Longrightarrow> execve g E P path elf = Ok P1 \<Longrightarrow> sys_exec g E a P elf = Fail (Panic ''stop !'')"
  by (auto simp: sys_exec_def split: option.splits)

text \<open>A process without a current directory, such as the first one's children by \<^verbatim>\<open>fork\<close>, cannot end.\<close>

lemma exit_without_cwd:
  assumes "exit_begin (ksched (pk P)) code = Ok (t, sc)" and "ms_ma_free (pm P) (memory_set P t) = Ok (s, ms)"
    and "exit_fds g (with_mem ((pk P)\<lparr>ksched := sc\<rparr>) (phys s)) t = Ok k" and "kcwd k t = None"
  shows "exit_process g P code = Fail Null_pointer"
  using assms by (simp add: exit_process_def)

end
