(* ===== verification/Trap.thy ===== *)
theory Trap
  imports Process Mapped_Files
begin

text \<open>
  Traps (\<^verbatim>\<open>exception.c\<close>, \<^verbatim>\<open>syscall_handler\<close> of \<^verbatim>\<open>syscall.c\<close>, \<^verbatim>\<open>mytask_token\<close> and \<^verbatim>\<open>mytask_trap_cx\<close> of \<^verbatim>\<open>tk_proc.c\<close>): from the
  cause in the trap context of the running task to the handler, for a system call through the table to the call
  itself on the whole kernel, and back to user mode.

  The theorems: what a system call \<^verbatim>\<open>fork\<close> leaves in the registers and the memory of parent and child; which causes
  come back to the task.
\<close>

section \<open>The machine\<close>

record machine =
  mp :: proc
  mt :: timer
  mc :: rtc

text \<open>
  What one trap gets from elsewhere: the devices, the fuel of the walks through the volume, the old bytes of
  local buffers, the blocks that the heap gives, the readings of the counters, and whether the trap came from user mode.
\<close>

record inputs =
  in_dev :: devsw
  in_fuel :: nat
  in_path :: "u8 list"
  in_entry :: dirent
  in_pipe :: "(nat \<times> pipe) option"
  in_tcb :: "nat option"
  in_elf :: u64
  in_now :: u64
  in_ticks :: "u64 \<times> u64"
  in_freq :: u64
  in_cycle :: u64
  in_readings :: "u64 list"
  in_user :: bool

datatype trap_end = Resume u64 u64 u64 | Switch

definition cx_a7 :: u64 where "cx_a7 = 8 * 17"
definition cx_tval :: u64 where "cx_tval = 8 * 34"
definition cx_cause :: u64 where "cx_cause = 8 * 35"

definition IRQ_S_TIMER :: u64 where "IRQ_S_TIMER = 5"
definition EXC_INST_ACCESS_FAULT :: u64 where "EXC_INST_ACCESS_FAULT = 1"
definition EXC_ILLEGAL_INST :: u64 where "EXC_ILLEGAL_INST = 2"
definition EXC_BREAKPOINT :: u64 where "EXC_BREAKPOINT = 3"
definition EXC_LOAD_ACCESS_FAULT :: u64 where "EXC_LOAD_ACCESS_FAULT = 5"
definition EXC_STORE_ACCESS_FAULT :: u64 where "EXC_STORE_ACCESS_FAULT = 7"
definition EXC_SYSCALL :: u64 where "EXC_SYSCALL = 8"
definition EXC_INST_PAGE_FAULT :: u64 where "EXC_INST_PAGE_FAULT = 12"
definition EXC_LOAD_PAGE_FAULT :: u64 where "EXC_LOAD_PAGE_FAULT = 13"
definition EXC_STORE_PAGE_FAULT :: u64 where "EXC_STORE_PAGE_FAULT = 15"

lemmas causes = IRQ_S_TIMER_def EXC_INST_ACCESS_FAULT_def EXC_ILLEGAL_INST_def EXC_BREAKPOINT_def EXC_LOAD_ACCESS_FAULT_def
  EXC_STORE_ACCESS_FAULT_def EXC_SYSCALL_def EXC_INST_PAGE_FAULT_def EXC_LOAD_PAGE_FAULT_def EXC_STORE_PAGE_FAULT_def

definition mytask_token :: "proc \<Rightarrow> u64" where
  "mytask_token P =
     (case mytask (ksched (pk P)) of None \<Rightarrow> token (page_table (kernel_space P)) | Some t \<Rightarrow> token (page_table (memory_set P t)))"

text \<open>The place of the context in memory; without a task it is a page of the kernel space.\<close>

definition mytask_trap_cx :: "proc \<Rightarrow> u64 res" where
  "mytask_trap_cx P =
     (case mytask (ksched (pk P)) of
        None \<Rightarrow> va2pa (phys (pm P)) (page_table (kernel_space P)) TRAP_CONTEXT
      | Some t \<Rightarrow> Ok (ppn2pa (trap_cx_ppn P t)))"

definition store :: "proc \<Rightarrow> u64 \<Rightarrow> u64 \<Rightarrow> proc" where
  "store P a w = (let m = wu64 (phys (pm P)) a w in P\<lparr>pk := with_mem (pk P) m, pm := (pm P)\<lparr>phys := m\<rparr>\<rparr>)"

section \<open>The system calls on the whole kernel\<close>

text \<open>
  The user side of the task \<open>t\<close> as the calls on the kernel see it, and the kernel put back.
\<close>

definition user_view :: "proc \<Rightarrow> nat \<Rightarrow> kstate" where
  "user_view P t =
     (pk P)\<lparr>kfs := (kfs (pk P))\<lparr>ux := \<lparr>umem = phys (pm P), upt = page_table (memory_set P t), usz = base_size P t,
       upid = Some (pid (tasks (ksched (pk P)) t))\<rparr>\<rparr>\<rparr>"

definition put_back :: "proc \<Rightarrow> kstate \<Rightarrow> proc" where
  "put_back P k = P\<lparr>pk := k, pm := (pm P)\<lparr>phys := umem (ux (kfs k))\<rparr>\<rparr>"

definition on_kernel :: "machine \<Rightarrow> nat \<Rightarrow> (kstate \<Rightarrow> ('a \<times> kstate) res) \<Rightarrow> ('a \<times> machine) res" where
  "on_kernel M t f = bind_res (f (user_view (mp M) t)) (\<lambda>(r, k). Ok (r, M\<lparr>mp := put_back (mp M) k\<rparr>))"

definition ret_int :: "(int \<times> machine) res \<Rightarrow> (u64 outcome \<times> machine) res" where
  "ret_int x = bind_res x (\<lambda>(r, M). Ok (Return (word_of_int r), M))"

definition ret_word :: "(u64 \<times> machine) res \<Rightarrow> (u64 outcome \<times> machine) res" where
  "ret_word x = bind_res x (\<lambda>(r, M). Ok (Return r, M))"

definition ret_out :: "(int outcome \<times> machine) res \<Rightarrow> (u64 outcome \<times> machine) res" where
  "ret_out x = bind_res x (\<lambda>(r, M). Ok (case r of Return v \<Rightarrow> Return (word_of_int v) | Blocked \<Rightarrow> Blocked, M))"

text \<open>A task that ends never comes back from the call.\<close>

definition sys_exit :: "nat \<Rightarrow> regs \<Rightarrow> machine \<Rightarrow> (u64 outcome \<times> machine) res" where
  "sys_exit g a M =
     bind_res (argint a 0) (\<lambda>exit_code. bind_res (exit_process g (mp M) exit_code) (\<lambda>P. Ok (Blocked, M\<lparr>mp := P\<rparr>)))"

definition sys_nanosleep :: "inputs \<Rightarrow> regs \<Rightarrow> kstate \<Rightarrow> (int \<times> kstate) res" where
  "sys_nanosleep I a k =
     bind_res (argaddr a 0) (\<lambda>tv.
     bind_res (copyin2 (umem (ux (kfs k))) (upt (ux (kfs k))) tv 16) (\<lambda>(r, bs).
     let sec = le_word (take 8 bs)
     in if sec \<ge> 1000000000 then Ok (- 1, k)
        else case ksleep (in_freq I) (in_cycle I) (in_readings I) (ucast sec) of
          None \<Rightarrow> Fail Spin_forever
        | Some n \<Rightarrow> bind_res (user_put k tv (le_bytes 8 0 @ drop 8 bs)) (\<lambda>(r, k). Ok (0, k))))"

definition sys_test :: "regs \<Rightarrow> kstate \<Rightarrow> (int \<times> kstate) res" where
  "sys_test a k = bind_res (argint a 0) (\<lambda>n. bind_res (sys_getpid k) (\<lambda>p. Ok (0, k)))"

text \<open>The function of the table with this name.\<close>

definition run_call :: "env \<Rightarrow> inputs \<Rightarrow> string \<Rightarrow> regs \<Rightarrow> nat \<Rightarrow> machine \<Rightarrow> (u64 outcome \<times> machine) res" where
  "run_call E I nm a t M =
     (let P = mp M; g = in_fuel I; k = (\<lambda>f. ret_int (on_kernel M t f)) in
      if nm = ''sys_getcwd'' then k (sys_getcwd (in_path I) a)
      else if nm = ''sys_pipe'' then k (sys_pipe g (in_pipe I) a)
      else if nm = ''sys_dup'' then k (sys_dup a)
      else if nm = ''sys_dup3'' then k (sys_dup3 a)
      else if nm = ''sys_chdir'' then k (sys_chdir g a)
      else if nm = ''sys_open'' then k (sys_open g a)
      else if nm = ''sys_close'' then k (sys_close g a)
      else if nm = ''sys_getdents64'' then k (sys_getdents64 g (in_entry I) a)
      else if nm = ''sys_read'' then ret_out (on_kernel M t (sys_read (in_dev I) a))
      else if nm = ''sys_write'' then ret_out (on_kernel M t (sys_write (in_dev I) a))
      else if nm = ''sys_unlink'' then k (sys_unlink g a)
      else if nm = ''sys_mkdir'' then k (sys_mkdir g a)
      else if nm = ''sys_mount'' then k (sys_mount a)
      else if nm = ''sys_umount'' then k (sys_umount a)
      else if nm = ''sys_fstat'' then k (sys_fstat a)
      else if nm = ''sys_getpid'' then ret_word (on_kernel M t (\<lambda>k. bind_res (sys_getpid k) (\<lambda>r. Ok (r, k))))
      else if nm = ''sys_getppid'' then ret_word (on_kernel M t (\<lambda>k. bind_res (sys_getppid k) (\<lambda>r. Ok (r, k))))
      else if nm = ''sys_wait'' then on_kernel M t (sys_wait a)
      else if nm = ''sys_wait4'' then on_kernel M t (sys_wait4 a)
      else if nm = ''sys_exec'' then ret_int (bind_res (sys_exec g E a (put_back P (user_view P t)) (in_elf I)) (\<lambda>(r, P). Ok (r, M\<lparr>mp := P\<rparr>)))
      else if nm = ''sys_fork'' then ret_word (bind_res (sys_fork E P (in_tcb I)) (\<lambda>(r, P). Ok (r, M\<lparr>mp := P\<rparr>)))
      else if nm = ''sys_exit'' then sys_exit g a M
      else if nm = ''sys_brk'' then
        ret_word (bind_res (sys_brk a (pm P) (base_size P t) (memory_set P t)) (\<lambda>(r, s, b, ms).
          Ok (r, M\<lparr>mp := P\<lparr>pm := s, pk := with_mem (pk P) (phys s), base_size := (base_size P)(t := b), memory_set := (memory_set P)(t := ms)\<rparr>\<rparr>)))
      else if nm = ''sys_mmap'' then
        ret_word (bind_res (sys_mmap a (pk P) (memory_set P t)) (\<lambda>(r, k, ms). Ok (r, M\<lparr>mp := P\<lparr>pk := k, memory_set := (memory_set P)(t := ms)\<rparr>\<rparr>)))
      else if nm = ''sys_munmap'' then
        ret_word (bind_res (sys_munmap a (pk P) (memory_set P t)) (\<lambda>(r, k, ms). Ok (r, M\<lparr>mp := P\<lparr>pk := k, memory_set := (memory_set P)(t := ms)\<rparr>\<rparr>)))
      else if nm = ''sys_uname'' then k (sys_uname a)
      else if nm = ''sys_times'' then ret_word (on_kernel M t (\<lambda>k. sys_times a k (fst (in_ticks I)) (snd (in_ticks I))))
      else if nm = ''sys_yield'' then k sys_yield
      else if nm = ''sys_gettimeofday'' then
        ret_int (bind_res (sys_gettimeofday a (user_view P t) (mc M)) (\<lambda>(r, k, c). Ok (r, M\<lparr>mp := put_back P k, mc := c\<rparr>)))
      else if nm = ''sys_nanosleep'' then k (sys_nanosleep I a)
      else if nm = ''sys_test'' then k (sys_test a)
      else if nm = ''sys_getuid'' then k (sys_getuid a)
      else Fail Null_pointer)"

text \<open>
  The arguments are read from the context at \<open>f\<close>. The result goes into the context of the running task, which
  \<^verbatim>\<open>execve\<close> may have replaced; a call that blocks stores it when the task runs again.
\<close>

definition args_at :: "mem \<Rightarrow> u64 \<Rightarrow> regs" where
  "args_at m f i = ru64 m (f + cx_a0 + 8 * of_nat i)"

definition syscall_handler :: "env \<Rightarrow> inputs \<Rightarrow> machine \<Rightarrow> (bool \<times> machine) res" where
  "syscall_handler E I M =
     bind_res (mytask_trap_cx (mp M)) (\<lambda>ff.
     let P = store (mp M) (ff + cx_epc) (ru64 (phys (pm (mp M))) (ff + cx_epc) + 4); M = M\<lparr>mp := P\<rparr>
     in bind_res (syscall_entry (ru64 (phys (pm P)) (ff + cx_a7))) (\<lambda>c.
        bind_res (case c of None \<Rightarrow> Ok (Return 0, M)
                  | Some nm \<Rightarrow> (case mytask (ksched (pk P)) of None \<Rightarrow> Fail Null_pointer
                      | Some t \<Rightarrow> run_call E I nm (args_at (phys (pm P)) ff) t M)) (\<lambda>(r, M).
        case r of Blocked \<Rightarrow> Ok (False, M)
        | Return v \<Rightarrow> bind_res (mytask_trap_cx (mp M)) (\<lambda>ff. Ok (True, M\<lparr>mp := store (mp M) (ff + cx_a0) v\<rparr>)))))"

section \<open>Dispatch\<close>

text \<open>The control registers that lead a trap to the trampoline.\<close>

record csrs =
  sscratch :: u64
  stvec :: u64

definition idt_init :: "csrs \<Rightarrow> csrs" where
  "idt_init r = r\<lparr>sscratch := TRAP_CONTEXT, stvec := TRAMPOLINE\<rparr>"

definition set_sp :: "proc \<Rightarrow> u64 \<Rightarrow> u64 \<Rightarrow> proc" where
  "set_sp P f sp' = store P (f + 8 * 2) sp'"

definition breakpoint :: "proc \<Rightarrow> u64 \<Rightarrow> proc" where
  "breakpoint P f = store P (f + cx_epc) (ru64 (phys (pm P)) (f + cx_epc) + 2)"

definition irq_handler :: "inputs \<Rightarrow> machine \<Rightarrow> u64 \<Rightarrow> machine res" where
  "irq_handler I M f =
     (let c = drop_bit 1 (push_bit 1 (ru64 (phys (pm (mp M))) (f + cx_cause)))
      in if c = IRQ_S_TIMER
         then bind_res (timer_handle (mt M) (ksched (pk (mp M))) (in_user I) (in_now I)) (\<lambda>(t, sc).
              Ok (M\<lparr>mt := t, mp := (mp M)\<lparr>pk := (pk (mp M))\<lparr>ksched := sc\<rparr>\<rparr>\<rparr>))
         else Ok M)"

text \<open>The result says whether the task goes on; a task that is ended does not reach the statement behind the call.\<close>

definition fault_exit :: "nat \<Rightarrow> machine \<Rightarrow> u32 \<Rightarrow> (bool \<times> machine) res" where
  "fault_exit g M code = bind_res (exit_process g (mp M) code) (\<lambda>P. Ok (False, M\<lparr>mp := P\<rparr>))"

definition exc_handler :: "env \<Rightarrow> inputs \<Rightarrow> machine \<Rightarrow> u64 \<Rightarrow> (bool \<times> machine) res" where
  "exc_handler E I M f =
     (let P = mp M; cause = ru64 (phys (pm P)) (f + cx_cause)
      in if cause = EXC_BREAKPOINT then Ok (True, M\<lparr>mp := breakpoint P f\<rparr>)
         else if cause = EXC_SYSCALL then syscall_handler E I M
         else if cause \<in> {EXC_INST_ACCESS_FAULT, EXC_STORE_PAGE_FAULT, EXC_LOAD_PAGE_FAULT, EXC_INST_PAGE_FAULT}
         then fault_exit (in_fuel I) M (- 2)
         else if cause = EXC_ILLEGAL_INST then fault_exit (in_fuel I) M (- 3)
         else if cause = EXC_STORE_ACCESS_FAULT \<or> cause = EXC_LOAD_ACCESS_FAULT
         then case mytask (ksched (pk P)) of None \<Rightarrow> Fail Null_pointer
              | Some t \<Rightarrow>
                 bind_res (mmap_handler (pk P) (pm P) (memory_set P t) (ru64 (phys (pm P)) (f + cx_tval)) (sint (ucast cause :: u32))) (\<lambda>(r, k, s, ms).
                 let M = M\<lparr>mp := P\<lparr>pk := with_mem k (phys s), pm := s, memory_set := (memory_set P)(t := ms)\<rparr>\<rparr>
                 in if r \<noteq> 0 then fault_exit (in_fuel I) M (- 2) else Ok (True, M))
         else Fail (Panic ''epc cause''))"

text \<open>Back to the trampoline, with the address of the context and the table of the task.\<close>

definition e_return :: "env \<Rightarrow> proc \<Rightarrow> trap_end" where
  "e_return E P = Resume (restore_off E + TRAMPOLINE) TRAP_CONTEXT (mytask_token P)"

definition e_dispatch :: "env \<Rightarrow> inputs \<Rightarrow> machine \<Rightarrow> (trap_end \<times> machine) res" where
  "e_dispatch E I M =
     bind_res (mytask_trap_cx (mp M)) (\<lambda>f.
     bind_res (if sint (ru64 (phys (pm (mp M))) (f + cx_cause)) < 0
               then bind_res (irq_handler I M f) (\<lambda>M. Ok (True, M)) else exc_handler E I M f) (\<lambda>(go, M).
     Ok (if go then e_return E (mp M) else Switch, M)))"

section \<open>Words of a context\<close>

lemma ru64_kept:
  assumes "q < 2 ^ 52" and "q \<noteq> tf" and "\<And>x. pa2ppn x \<noteq> tf \<Longrightarrow> m' x = m x" and "k + 8 \<le> 4096"
  shows "ru64 m' (ppn2pa q + of_nat k) = ru64 m (ppn2pa q + of_nat k)"
  using page_bytes_kept [OF assms] by (simp add: ru64_def)

lemma ru64_wu64_apart:
  assumes "q < 2 ^ 52" and "k + 8 \<le> 4096" and "j + 8 \<le> 4096" and "j + 8 \<le> k \<or> k + 8 \<le> j"
  shows "ru64 (wu64 m (ppn2pa q + of_nat k) w) (ppn2pa q + of_nat j) = ru64 m (ppn2pa q + of_nat j)"
proof (rule ru64_cong)
  fix i :: nat assume "i < 8"
  then have "j + i < 4096" "\<not> (k \<le> j + i \<and> j + i < k + 8)" using assms(3,4) by auto
  from wu64_offset [OF assms(1,2) this]
  show "wu64 m (ppn2pa q + of_nat k) w (ppn2pa q + of_nat j + of_nat i) = m (ppn2pa q + of_nat j + of_nat i)" by (simp add: add.assoc)
qed

lemma ru64_page:
  assumes "\<And>i. k \<le> i \<Longrightarrow> i < k + 8 \<Longrightarrow> m' (ppn2pa q' + of_nat i) = m (ppn2pa q + of_nat i)"
  shows "ru64 m' (ppn2pa q' + of_nat k) = ru64 m (ppn2pa q + of_nat k)"
proof -
  have "rbytes m' (ppn2pa q' + of_nat k) 8 = rbytes m (ppn2pa q + of_nat k) 8"
    unfolding rbytes_def
  proof (rule map_cong [OF refl])
    fix i assume "i \<in> set [0..<8]"
    then show "m' (ppn2pa q' + of_nat k + of_nat i) = m (ppn2pa q + of_nat k + of_nat i)"
      using assms [of "k + i"] by (simp add: add.assoc)
  qed
  then show ?thesis by (simp add: ru64_def)
qed

lemma cx_offsets:
  "cx_a0 = of_nat 80" "cx_a7 = of_nat 136" "cx_epc = of_nat 264" "cx_tval = of_nat 272" "cx_cause = of_nat 280" "cx_kernel_sp = of_nat 296"
  by (simp_all add: cx_a0_def cx_a7_def cx_epc_def cx_tval_def cx_cause_def cx_kernel_sp_def)

section \<open>A store into a context\<close>

lemma store_sel [simp]:
  "phys (pm (store P a w)) = wu64 (phys (pm P)) a w" "frames (pm (store P a w)) = frames (pm P)"
  "memory_set (store P a w) = memory_set P" "kernel_space (store P a w) = kernel_space P" "trap_cx_ppn (store P a w) = trap_cx_ppn P"
  "pids (store P a w) = pids P" "ksched (pk (store P a w)) = ksched (pk P)" "ofile (pk (store P a w)) = ofile (pk P)"
  "kcwd (pk (store P a w)) = kcwd (pk P)" "eclock (kfs (pk (store P a w))) = eclock (kfs (pk P))" "task_cx_ptr (store P a w) = task_cx_ptr P"
  "fd_inv T x (pk (store P a w)) = fd_inv T x (pk P)" "umem (ux (kfs (pk (store P a w)))) = phys (pm (store P a w))"
  by (simp_all add: store_def Let_def) (simp_all add: with_mem_def)

lemma store_mem: "pm (store P a w) = (pm P)\<lparr>phys := wu64 (phys (pm P)) a w\<rparr>"
  by (simp add: store_def Let_def)

lemma store_space:
  assumes "ms_inv lo (pm P) a" and "q < 2 ^ 52" and "q \<notin> set (fnode (page_table a))" and "k + 8 \<le> 4096"
  shows "ms_inv lo (pm (store P (ppn2pa q + of_nat k) w)) a"
    and "pt_lookup (phys (pm (store P (ppn2pa q + of_nat k) w))) (page_table a) v = pt_lookup (phys (pm P)) (page_table a) v"
proof -
  have o: "wu64 (phys (pm P)) (ppn2pa q + of_nat k) w x = phys (pm P) x" if "pa2ppn x \<noteq> q" for x
    using wu64_in_page [OF assms(2,4) that] .
  show "ms_inv lo (pm (store P (ppn2pa q + of_nat k) w)) a" unfolding store_mem by (rule ms_inv_data(1) [OF assms(1,3) o])
  show "pt_lookup (phys (pm (store P (ppn2pa q + of_nat k) w))) (page_table a) v = pt_lookup (phys (pm P)) (page_table a) v"
    unfolding store_sel by (rule ms_inv_data(2) [OF assms(1,3) o])
qed

lemma fork_ready_store:
  assumes r: "fork_ready lo T x P p c pd ids" and q: "q \<in> set (ms_frames (memory_set P p))" and k: "k + 8 \<le> 4096"
  shows "fork_ready lo T x (store P (ppn2pa q + of_nat k) w) p c pd ids"
proof -
  note R = r [unfolded fork_ready_def fork_room_def]
  have inv: "ms_inv lo (pm P) (memory_set P p)" "ms_inv lo (pm P) (kernel_space P)" using R by blast+
  have q52: "q < 2 ^ 52" using ms_frames_small [OF inv(1)] q by blast
  have n: "q \<notin> set (fnode (page_table (memory_set P p)))" using ms_invD(6) [OF inv(1)] q by blast
  have nk: "q \<notin> set (fnode (page_table (kernel_space P)))" using R q by blast
  note s = store_space [OF inv(1) q52 n k, of w] store_space [OF inv(2) q52 nk k, of w]
  show ?thesis using R s by (simp add: fork_ready_def fork_room_def)
qed

section \<open>A system call fork\<close>

text \<open>
  The parent \<open>p\<close> has called \<^verbatim>\<open>fork\<close> or \<^verbatim>\<open>clone\<close>: cause and number are in its trap context, which is the page that its table
  maps at \<^const>\<open>TRAP_CONTEXT\<close>.
\<close>

definition fork_trap_ready :: "ppn \<Rightarrow> nat set \<Rightarrow> (nat \<Rightarrow> nat) \<Rightarrow> proc \<Rightarrow> nat \<Rightarrow> nat \<Rightarrow> u64 \<Rightarrow> PidAllocator \<Rightarrow> bool" where
  "fork_trap_ready lo T x P p c pd ids \<longleftrightarrow> fork_ready lo T x P p c pd ids
     \<and> (let q = trap_cx_ppn P p; m = phys (pm P)
        in (\<exists>fl. pt_lookup m (page_table (memory_set P p)) (va2vpn TRAP_CONTEXT) = Some (pte_new q fl)) \<and> q \<in> set (ms_frames (memory_set P p))
          \<and> ru64 m (ppn2pa q + cx_cause) = EXC_SYSCALL \<and> ru64 m (ppn2pa q + cx_a7) \<in> {1, 220})"

text \<open>The call itself: the handler moves the parent behind the instruction, makes the child and stores the result.\<close>

lemma fork_trap_run:
  assumes r: "fork_trap_ready lo T x (mp M) p c pd ids" and I: "in_tcb I = Some c"
    and P1: "P1 = store (mp M) (ppn2pa (trap_cx_ppn (mp M) p) + cx_epc) (ru64 (phys (pm (mp M))) (ppn2pa (trap_cx_ppn (mp M) p) + cx_epc) + 4)"
    and f: "sys_fork E P1 (Some c) = Ok (pd, P2)" "mytask (ksched (pk P2)) = Some p" "trap_cx_ppn P2 p = trap_cx_ppn (mp M) p"
      "memory_set P2 p = memory_set (mp M) p"
  shows "e_dispatch E I M = Ok (Resume (restore_off E + TRAMPOLINE) TRAP_CONTEXT (token (page_table (memory_set (mp M) p))),
    M\<lparr>mp := store P2 (ppn2pa (trap_cx_ppn (mp M) p) + cx_a0) pd\<rparr>)"
proof -
  let ?q = "trap_cx_ppn (mp M) p" and ?m = "phys (pm (mp M))"
  have t: "mytask (ksched (pk (mp M))) = Some p" and inv: "ms_inv lo (pm (mp M)) (memory_set (mp M) p)"
    and q: "?q \<in> set (ms_frames (memory_set (mp M) p))" and c: "ru64 ?m (ppn2pa ?q + cx_cause) = EXC_SYSCALL"
    and n: "ru64 ?m (ppn2pa ?q + cx_a7) \<in> {1, 220}"
    using r by (simp_all add: fork_trap_ready_def fork_ready_def fork_room_def Let_def)
  have q52: "?q < 2 ^ 52" using ms_frames_small [OF inv] q by blast
  have n1: "ru64 (phys (pm P1)) (ppn2pa ?q + cx_a7) = ru64 ?m (ppn2pa ?q + cx_a7)"
    unfolding P1 store_sel cx_offsets by (rule ru64_wu64_apart [OF q52]) simp_all
  have e: "syscall_entry (ru64 (phys (pm P1)) (ppn2pa ?q + cx_a7)) = Ok (Some ''sys_fork'')"
    using n unfolding n1 by (auto simp: syscall_entry_def syscalls_def)
  have t1: "mytask (ksched (pk P1)) = Some p" using t by (simp add: P1)
  have run: "run_call E I ''sys_fork'' a p (M\<lparr>mp := P1\<rparr>) = Ok (Return pd, M\<lparr>mp := P2\<rparr>)" for a
    using f(1) I by (simp add: run_call_def ret_word_def Let_def)
  have "syscall_handler E I M = Ok (True, M\<lparr>mp := store P2 (ppn2pa ?q + cx_a0) pd\<rparr>)"
    using t t1 e f(2,3) run unfolding P1 by (simp add: syscall_handler_def mytask_trap_cx_def Let_def)
  then have "exc_handler E I M (ppn2pa ?q) = Ok (True, M\<lparr>mp := store P2 (ppn2pa ?q + cx_a0) pd\<rparr>)"
    using c by (simp add: exc_handler_def Let_def causes)
  then show ?thesis
    using t c f(2,4) by (simp add: e_dispatch_def mytask_trap_cx_def e_return_def mytask_token_def causes)
qed

text \<open>The bytes of the two contexts, when the parent's words are stored before and after the copy.\<close>

lemma fork_contexts:
  assumes q: "q < 2 ^ 52" "tf < 2 ^ 52" "q \<noteq> tf" and small: "\<forall>p \<in> set (ms_frames a). p < 2 ^ 44" "q \<in> set (ms_frames a)"
    and lk: "pt_lookup m1 (page_table a) (va2vpn TRAP_CONTEXT) = Some (pte_new q fl)"
    and m1: "m1 = wu64 m (ppn2pa q + cx_epc) (old + 4)" and ct: "child_trap m1 a m2 ms tf ktop"
    and same: "\<And>y. pa2ppn y = q \<Longrightarrow> m2 y = m1 y" and m3: "m3 = wu64 m2 (ppn2pa q + cx_a0) pd"
  shows "ru64 m3 (ppn2pa q + cx_a0) = pd" and "ru64 m3 (ppn2pa tf + cx_a0) = 0"
    and "ru64 m3 (ppn2pa q + cx_epc) = old + 4" and "ru64 m3 (ppn2pa tf + cx_epc) = old + 4"
    and "ru64 m3 (ppn2pa tf + cx_kernel_sp) = ktop"
    and "i < 4096 \<Longrightarrow> i \<notin> {80..<88} \<union> {264..<272} \<Longrightarrow> m3 (ppn2pa q + of_nat i) = m (ppn2pa q + of_nat i)"
    and "i < 4096 \<Longrightarrow> i \<notin> {80..<88} \<union> {264..<272} \<union> {296..<304} \<Longrightarrow> m3 (ppn2pa tf + of_nat i) = m (ppn2pa q + of_nat i)"
proof -
  obtain p f where p: "p \<in> set (ms_frames a)" "pt_lookup m1 (page_table a) (va2vpn TRAP_CONTEXT) = Some (pte_new p f)"
    and b: "\<And>i. i < 4096 \<Longrightarrow> \<not> (80 \<le> i \<and> i < 88) \<Longrightarrow> \<not> (296 \<le> i \<and> i < 304) \<Longrightarrow> m2 (ppn2pa tf + of_nat i) = m1 (ppn2pa p + of_nat i)"
    and z: "ru64 m2 (ppn2pa tf + cx_a0) = 0" "ru64 m2 (ppn2pa tf + cx_kernel_sp) = ktop"
    using ct unfolding child_trap_def by blast
  have pq: "p = q" using p lk small pte_new_ppn by (metis option.inject)
  have out: "m3 y = m2 y" if "pa2ppn y \<noteq> q" for y
    unfolding m3 cx_offsets using that by (intro wu64_in_page [OF q(1)]) simp_all
  have t3: "m3 (ppn2pa tf + of_nat i) = m2 (ppn2pa tf + of_nat i)" if "i < 4096" for i
    using out byte_page(1) [OF q(2) that] q(3) by simp
  have q2: "m2 (ppn2pa q + of_nat i) = m1 (ppn2pa q + of_nat i)" if "i < 4096" for i
    using same byte_page(1) [OF q(1) that] by simp
  note w1 = wu64_offset [OF q(1), of 264 _ m "old + 4"] and w3 = wu64_offset [OF q(1), of 80 _ m2 pd]
  show "ru64 m3 (ppn2pa q + cx_a0) = pd" unfolding m3 by simp
  show "ru64 m3 (ppn2pa tf + cx_a0) = 0" "ru64 m3 (ppn2pa tf + cx_kernel_sp) = ktop"
    using z t3 ru64_page [of 80 m3 tf m2 tf] ru64_page [of 296 m3 tf m2 tf] unfolding cx_offsets by simp_all
  have e1: "ru64 m1 (ppn2pa q + cx_epc) = old + 4" unfolding m1 by simp
  have "ru64 m3 (ppn2pa q + cx_epc) = ru64 m2 (ppn2pa q + cx_epc)"
    unfolding m3 cx_offsets by (rule ru64_wu64_apart [OF q(1)]) simp_all
  also have "\<dots> = ru64 m1 (ppn2pa q + cx_epc)" unfolding cx_offsets by (rule ru64_page) (simp add: q2)
  finally show "ru64 m3 (ppn2pa q + cx_epc) = old + 4" unfolding e1 .
  have "ru64 m3 (ppn2pa tf + cx_epc) = ru64 m1 (ppn2pa q + cx_epc)" unfolding cx_offsets by (rule ru64_page) (simp add: t3 b pq)
  then show "ru64 m3 (ppn2pa tf + cx_epc) = old + 4" unfolding e1 .
  show "m3 (ppn2pa q + of_nat i) = m (ppn2pa q + of_nat i)" if "i < 4096" "i \<notin> {80..<88} \<union> {264..<272}"
    using that w3 [of i] w1 [of i] q2 [of i] unfolding m3 m1 cx_offsets by auto
  show "m3 (ppn2pa tf + of_nat i) = m (ppn2pa q + of_nat i)" if "i < 4096" "i \<notin> {80..<88} \<union> {264..<272} \<union> {296..<304}"
    using that t3 [of i] b [of i] w1 [of i] pq unfolding m1 cx_offsets by auto
qed

text \<open>The other pages: the stores are in the parent's context only.\<close>

lemma fork_other_pages:
  assumes inv: "ms_inv lo s a" "ms_inv lo s2 ms" and fr: "\<forall>b \<in> set (areas a). map_type b = Framed"
    and q: "q < 2 ^ 44" "q \<notin> set (ms_frames ms)" and T: "w \<in> set (ms_pages a)" "pt_lookup (phys s) (page_table a) w = Some (pte_new q fl)"
    and v: "v \<in> set (ms_pages a)" "v \<noteq> w" and c: "cloned m1 a (phys s2) ms v"
    and m1: "\<And>y. pa2ppn y \<noteq> q \<Longrightarrow> m1 y = phys s y" "pt_lookup m1 (page_table a) v = pt_lookup (phys s) (page_table a) v"
    and m3: "\<And>y. pa2ppn y \<noteq> q \<Longrightarrow> m3 y = phys s2 y" "pt_lookup m3 (page_table ms) v = pt_lookup (phys s2) (page_table ms) v"
  shows "cloned (phys s) a m3 ms v"
proof -
  obtain p p' f where p: "p \<in> set (ms_frames a)" "p' \<in> set (ms_frames ms)" "pt_lookup m1 (page_table a) v = Some (pte_new p f)"
    "pt_lookup (phys s2) (page_table ms) v = Some (pte_new p' f)" "same_bytes m1 p (phys s2) p'"
    using c unfolding cloned_def by blast
  have n: "p \<noteq> q" using frame_page_unique [OF inv(1) fr v(1) _ T q(1)] p(3) m1(2) v(2) by metis
  have n': "p' \<noteq> q" using p(2) q(2) by blast
  have s: "p < 2 ^ 52" "p' < 2 ^ 52" using ms_frames_small [OF inv(1)] ms_frames_small [OF inv(2)] p(1,2) by blast+
  have "same_bytes (phys s) p m3 p'"
    by (rule same_bytes_cong [OF p(5) s]) (use m1(1) m3(1) n n' in auto)
  then show ?thesis unfolding cloned_def using p(1-4) m1(2) m3(2) by metis
qed

text \<open>C6: a trap of a parent that calls \<^verbatim>\<open>fork\<close>, from \<^verbatim>\<open>e_dispatch\<close> to \<^verbatim>\<open>e_return\<close>. With a fresh control block and enough memory the
  parent goes back to user mode in its own address space, behind the instruction, with the identifier of the child as
  result and every other byte of its context as it was. The child is last in the queue, with the parent's descriptors
  and directory; its context is that of the parent, behind the instruction too, but with result 0 and its own kernel
  stack, and each of its other pages has the bytes and the rights of the parent's page. The three address spaces
  stay well formed, and those of parent and child share no page.\<close>

theorem fork_trap:
  assumes "fork_trap_ready lo T x (mp M) p c pd ids" and "in_tcb I = Some c"
  shows "\<exists>M'. e_dispatch E I M = Ok (Resume (restore_off E + TRAMPOLINE) TRAP_CONTEXT (token (page_table (memory_set (mp M) p))), M')
    \<and> (let P = mp M; P' = mp M'; a = memory_set P p; ms = memory_set P' c; m = phys (pm P); m' = phys (pm P');
           F = ppn2pa (trap_cx_ppn P p); F' = ppn2pa (trap_cx_ppn P' c); old = ru64 m (F + cx_epc)
       in ru64 m' (F + cx_a0) = pd \<and> ru64 m' (F' + cx_a0) = 0 \<and> ru64 m' (F + cx_epc) = old + 4 \<and> ru64 m' (F' + cx_epc) = old + 4
        \<and> ru64 m' (F' + cx_kernel_sp) = ks_get_top pd
        \<and> (\<forall>i < 4096. i \<notin> {80..<88} \<union> {264..<272} \<longrightarrow> m' (F + of_nat i) = m (F + of_nat i))
        \<and> (\<forall>i < 4096. i \<notin> {80..<88} \<union> {264..<272} \<union> {296..<304} \<longrightarrow> m' (F' + of_nat i) = m (F + of_nat i))
        \<and> (\<exists>fl. pt_lookup m' (page_table ms) (va2vpn TRAP_CONTEXT) = Some (pte_new (trap_cx_ppn P' c) fl))
        \<and> (\<forall>v \<in> set (ms_pages a) - {va2vpn TRAP_CONTEXT}. cloned m a m' ms v)
        \<and> memory_set P' p = a \<and> ms_inv lo (pm P') a \<and> ms_inv lo (pm P') ms \<and> ms_inv lo (pm P') (kernel_space P')
        \<and> (set (ms_frames ms) \<union> set (fnode (page_table ms))) \<inter> (set (ms_frames a) \<union> set (fnode (page_table a))) = {}
        \<and> tasks (ksched (pk P')) = forked_tasks (tasks (ksched (pk P))) p c pd
        \<and> ready_queue (ksched (pk P')) = ready_queue (ksched (pk P)) @ [c]
        \<and> fd_inv T x (pk P') \<and> ofile (pk P') c = ofile (pk P) p \<and> kcwd (pk P') c = kcwd (pk P) p)"
proof -
  let ?P = "mp M"
  define q where "q = trap_cx_ppn ?P p"
  define a where "a = memory_set ?P p"
  define m where "m = phys (pm ?P)"
  define P1 where "P1 = store ?P (ppn2pa q + cx_epc) (ru64 m (ppn2pa q + cx_epc) + 4)"
  define m1 where "m1 = phys (pm P1)"
  have r: "fork_ready lo T x ?P p c pd ids" and q: "q \<in> set (ms_frames a)" and c: "c \<noteq> p" and inv: "ms_inv lo (pm ?P) a"
    and fr: "\<forall>b \<in> set (areas a). map_type b = Framed" and T: "va2vpn TRAP_CONTEXT \<in> set (ms_pages a)"
    using assms(1) by (simp_all add: fork_trap_ready_def fork_ready_def fork_room_def Let_def q_def a_def)
  obtain fl0 where lk: "pt_lookup m (page_table a) (va2vpn TRAP_CONTEXT) = Some (pte_new q fl0)"
    using assms(1) by (auto simp: fork_trap_ready_def Let_def q_def a_def m_def)
  have q44: "q < 2 ^ 44" and q52: "q < 2 ^ 52" using ms_frames_44 [OF inv] ms_frames_small [OF inv] q by blast+
  have r1: "fork_ready lo T x P1 p c pd ids"
    unfolding P1_def cx_offsets using q by (intro fork_ready_store [OF r]) (simp_all add: a_def)
  have s1: "memory_set P1 = memory_set ?P" "trap_cx_ppn P1 = trap_cx_ppn ?P" "ksched (pk P1) = ksched (pk ?P)" "ofile (pk P1) = ofile (pk ?P)"
    "kcwd (pk P1) = kcwd (pk ?P)" by (simp_all add: P1_def)
  obtain P2 where f: "sys_fork E P1 (Some c) = Ok (pd, P2)" "fd_inv T x (pk P2)" "ofile (pk P2) = (ofile (pk ?P))(c := ofile (pk ?P) p)"
    "kcwd (pk P2) = (kcwd (pk ?P))(c := kcwd (pk ?P) p)" "ready_queue (ksched (pk P2)) = ready_queue (ksched (pk ?P)) @ [c]"
    "tasks (ksched (pk P2)) = forked_tasks (tasks (ksched (pk ?P))) p c pd" "mytask (ksched (pk P2)) = Some p"
    "\<forall>t. t \<noteq> c \<longrightarrow> memory_set P2 t = memory_set ?P t \<and> trap_cx_ppn P2 t = trap_cx_ppn ?P t"
    "trap_cx_ppn P2 c \<in> set (ms_frames (memory_set P2 c))"
    "(set (ms_frames (memory_set P2 c)) \<union> set (fnode (page_table (memory_set P2 c))) \<union> set (fnode (page_table (kernel_space P2))))
        \<inter> (set (ms_frames a) \<union> set (fnode (page_table a))) = {}"
    "ms_inv lo (pm P2) (memory_set P2 c)" "ms_inv lo (pm P2) a" "ms_inv lo (pm P2) (kernel_space P2)"
    "\<forall>v \<in> set (ms_pages a) - {va2vpn TRAP_CONTEXT}. cloned m1 a (phys (pm P2)) (memory_set P2 c) v"
    "child_trap m1 a (phys (pm P2)) (memory_set P2 c) (trap_cx_ppn P2 c) (ks_get_top pd)"
    "\<forall>y. pa2ppn y \<in> set (ms_frames a) \<union> set (fnode (page_table a)) \<longrightarrow> phys (pm P2) y = m1 y"
    using sys_fork_process [OF r1, of E] unfolding s1 a_def m1_def by blast
  define P3 where "P3 = store P2 (ppn2pa q + cx_a0) pd"
  have run: "e_dispatch E I M = Ok (Resume (restore_off E + TRAMPOLINE) TRAP_CONTEXT (token (page_table a)), M\<lparr>mp := P3\<rparr>)"
    using fork_trap_run [OF assms P1_def [unfolded q_def m_def] f(1,7)] f(8) c unfolding P3_def q_def a_def by metis
  let ?ms = "memory_set P2 c" and ?tf = "trap_cx_ppn P2 c"
  have n: "q \<notin> set (fnode (page_table a))" "q \<notin> set (fnode (page_table ?ms))" "q \<notin> set (fnode (page_table (kernel_space P2)))"
    "q \<notin> set (ms_frames ?ms)" "q \<noteq> ?tf"
    using ms_invD(6) [OF inv] q f(10) f(9) by blast+
  have tf: "?tf < 2 ^ 52" using ms_frames_small [OF f(11)] f(9) by blast
  have l1: "pt_lookup m1 (page_table a) v = pt_lookup m (page_table a) v" for v
    using store_space(2) [OF inv q52 n(1), of 264] unfolding m1_def m_def P1_def cx_offsets by simp
  have l3: "pt_lookup (phys (pm P3)) (page_table ?ms) v = pt_lookup (phys (pm P2)) (page_table ?ms) v" for v
    using store_space(2) [OF f(11) q52 n(2), of 80] unfolding P3_def cx_offsets by simp
  have m1e: "m1 = wu64 m (ppn2pa q + cx_epc) (ru64 m (ppn2pa q + cx_epc) + 4)" by (simp add: m1_def P1_def m_def)
  have m3e: "phys (pm P3) = wu64 (phys (pm P2)) (ppn2pa q + cx_a0) pd" by (simp add: P3_def)
  have o1: "m1 y = m y" if "pa2ppn y \<noteq> q" for y unfolding m1e cx_offsets by (rule wu64_in_page [OF q52 _ that]) simp
  have o3: "phys (pm P3) y = phys (pm P2) y" if "pa2ppn y \<noteq> q" for y unfolding m3e cx_offsets by (rule wu64_in_page [OF q52 _ that]) simp
  have lk1: "pt_lookup m1 (page_table a) (va2vpn TRAP_CONTEXT) = Some (pte_new q fl0)" using lk l1 by simp
  have sm: "phys (pm P2) y = m1 y" if "pa2ppn y = q" for y using f(16) q that by blast
  note ctx = fork_contexts [OF q52 tf n(5) ms_frames_44 [OF inv] q lk1 m1e f(15) sm m3e]
  have i3: "ms_inv lo (pm P3) a" "ms_inv lo (pm P3) ?ms" "ms_inv lo (pm P3) (kernel_space P2)"
    using store_space(1) [OF f(12) q52 n(1), of 80] store_space(1) [OF f(11) q52 n(2), of 80] store_space(1) [OF f(13) q52 n(3), of 80]
    unfolding P3_def cx_offsets by simp_all
  have cl: "cloned m a (phys (pm P3)) ?ms v" if "v \<in> set (ms_pages a) - {va2vpn TRAP_CONTEXT}" for v
    using fork_other_pages [OF inv f(11) fr q44 n(4) T lk [unfolded m_def] _ _ bspec [OF f(14) that]] that o1 o3 l1 l3 unfolding m_def by blast
  have tl: "\<exists>fl. pt_lookup (phys (pm P3)) (page_table ?ms) (va2vpn TRAP_CONTEXT) = Some (pte_new ?tf fl)"
    using f(15) unfolding l3 child_trap_def by blast
  have s3: "memory_set P3 = memory_set P2" "trap_cx_ppn P3 = trap_cx_ppn P2" "kernel_space P3 = kernel_space P2"
    "ksched (pk P3) = ksched (pk P2)" "ofile (pk P3) = ofile (pk P2)" "kcwd (pk P3) = kcwd (pk P2)" "fd_inv T x (pk P3)" "memory_set P2 p = a"
    using f(2,8) c by (simp_all add: P3_def a_def)
  have dj: "(set (ms_frames ?ms) \<union> set (fnode (page_table ?ms))) \<inter> (set (ms_frames a) \<union> set (fnode (page_table a))) = {}" using f(10) by blast
  show ?thesis
    unfolding a_def [symmetric] Let_def
    by (intro exI [of _ "M\<lparr>mp := P3\<rparr>"] conjI)
      (use run s3 i3 tl cl dj ctx f(3-6) in \<open>simp_all add: q_def [symmetric] m_def [symmetric]\<close>)
qed

lemma page_frame:
  assumes "ms_inv lo s a" and "\<forall>b \<in> set (areas a). map_type b = Framed" and "v \<in> set (ms_pages a)"
  shows "\<exists>q fl. q \<in> set (ms_frames a) \<and> pt_lookup (phys s) (page_table a) v = Some (pte_new q fl)"
proof -
  have l: "list_all2 (\<lambda>v p. \<exists>fl. pt_lookup (phys s) (page_table a) v = Some (pte_new p fl)) (ms_pages a) (ms_frames a)"
    unfolding ms_pages_def ms_frames_def using framed_pages [OF assms(2)] ms_invD(2) [OF assms(1)] by blast
  obtain i where i: "i < length (ms_pages a)" "ms_pages a ! i = v" using assms(3) by (metis in_set_conv_nth)
  then have "ms_frames a ! i \<in> set (ms_frames a)" using list_all2_lengthD [OF l] by simp
  then show ?thesis using list_all2_nthD [OF l i(1)] i(2) by blast
qed

lemma ex_fork_trap: "\<exists>P ids. fork_trap_ready 2 {0, 1} console_held P 0 1 1 ids \<and> ready_queue (ksched (pk P)) = []"
proof -
  obtain s a ks where r: "fork_room 2 s a ks 1" using ex_fork_room by blast
  note R = r [unfolded fork_room_def]
  obtain q fl where q: "q \<in> set (ms_frames a)" "pt_lookup (phys s) (page_table a) (va2vpn TRAP_CONTEXT) = Some (pte_new q fl)"
    using page_frame [of 2 s a] R by blast
  have q52: "q < 2 ^ 52" using ms_frames_small [of 2 s a] R q(1) by blast
  define P0 where "P0 = \<lparr>pk = fileinit ex_kernel, pm = s, pids = pid_init (replicate 31 0), kernel_space = ks, memory_set = (\<lambda>_. a),
    trap_cx_ppn = (\<lambda>_. q), base_size = (\<lambda>_. 0), task_cx_ptr = (\<lambda>_. 0)\<rparr>"
  obtain ids where i: "pid_alloc (pids P0) = Ok (1, ids)" by (simp add: P0_def pid_alloc_def pid_init_def Let_def)
  have "ofile (pk P0) 1 = replicate NOFILE None" "\<not> eclock (kfs (pk P0))" "ksched (pk P0) = family"
    by (simp_all add: P0_def fileinit_def ex_kernel_def ex_vol_def)
  then have r0: "fork_ready 2 {0, 1} console_held P0 0 1 1 ids"
    using r i ex_boot(2) by (simp add: fork_ready_def P0_def family_def mytask_def child_tcb_def blank_tcb_def)
  define P1 where "P1 = store P0 (ppn2pa q + of_nat 280) 8"
  define P2 where "P2 = store P1 (ppn2pa q + of_nat 136) 220"
  have r1: "fork_ready 2 {0, 1} console_held P1 0 1 1 ids"
    unfolding P1_def by (rule fork_ready_store [OF r0]) (simp_all add: P0_def q(1))
  have r2: "fork_ready 2 {0, 1} console_held P2 0 1 1 ids"
    unfolding P2_def by (rule fork_ready_store [OF r1]) (simp_all add: P1_def P0_def q(1))
  have inv: "ms_inv 2 (pm P0) a" "ms_inv 2 (pm P1) a" using r0 r1 by (simp_all add: fork_ready_def fork_room_def P0_def P1_def)
  have n: "q \<notin> set (fnode (page_table a))" using ms_invD(6) [OF inv(1)] q(1) by blast
  have "pt_lookup (phys (pm P2)) (page_table a) (va2vpn TRAP_CONTEXT) = Some (pte_new q fl)"
    using store_space(2) [OF inv(2) q52 n, of 136 220] store_space(2) [OF inv(1) q52 n, of 280 8] q(2) unfolding P2_def P1_def by (simp add: P0_def)
  moreover have "ru64 (phys (pm P2)) (ppn2pa q + of_nat 280) = 8"
    using ru64_wu64_apart [OF q52, of 136 280 "phys (pm P1)" 220] by (simp add: P2_def P1_def)
  moreover have "ru64 (phys (pm P2)) (ppn2pa q + of_nat 136) = 220" by (simp add: P2_def)
  moreover have "memory_set P2 0 = a" "trap_cx_ppn P2 0 = q" "ready_queue (ksched (pk P2)) = []"
    by (simp_all add: P2_def P1_def P0_def fileinit_def ex_kernel_def family_def)
  ultimately have "fork_trap_ready 2 {0, 1} console_held P2 0 1 1 ids" "ready_queue (ksched (pk P2)) = []"
    using r2 q(1) by (auto simp: fork_trap_ready_def Let_def cx_offsets EXC_SYSCALL_def)
  then show ?thesis by blast
qed

theorem fork_trap_witness:
  "\<forall>t r I. \<exists>P M'. e_dispatch ex_env (I\<lparr>in_tcb := Some 1\<rparr>) \<lparr>mp = P, mt = t, mc = r\<rparr>
       = Ok (Resume (0x100 + TRAMPOLINE) TRAP_CONTEXT (token (page_table (memory_set P 0))), M')
     \<and> ru64 (phys (pm (mp M'))) (ppn2pa (trap_cx_ppn P 0) + cx_a0) = 1
     \<and> ru64 (phys (pm (mp M'))) (ppn2pa (trap_cx_ppn (mp M') 1) + cx_a0) = 0
     \<and> ready_queue (ksched (pk (mp M'))) = [1]"
proof (intro allI)
  fix t r and I :: inputs
  obtain P ids where P: "fork_trap_ready 2 {0, 1} console_held P 0 1 1 ids" "ready_queue (ksched (pk P)) = []" using ex_fork_trap by blast
  define M where "M = \<lparr>mp = P, mt = t, mc = r\<rparr>"
  have R: "fork_trap_ready 2 {0, 1} console_held (mp M) 0 1 1 ids" "restore_off ex_env = 0x100" using P(1) by (simp_all add: M_def ex_env_def)
  show "\<exists>P M'. e_dispatch ex_env (I\<lparr>in_tcb := Some 1\<rparr>) \<lparr>mp = P, mt = t, mc = r\<rparr>
       = Ok (Resume (0x100 + TRAMPOLINE) TRAP_CONTEXT (token (page_table (memory_set P 0))), M')
     \<and> ru64 (phys (pm (mp M'))) (ppn2pa (trap_cx_ppn P 0) + cx_a0) = 1
     \<and> ru64 (phys (pm (mp M'))) (ppn2pa (trap_cx_ppn (mp M') 1) + cx_a0) = 0
     \<and> ready_queue (ksched (pk (mp M'))) = [1]"
    using fork_trap [OF R(1), of "I\<lparr>in_tcb := Some 1\<rparr>" ex_env] P(2) R(2) unfolding Let_def by (intro exI [of _ P]) (auto simp: M_def)
qed

section \<open>The other causes\<close>

text \<open>A tick of the timer is counted, for the machine and for the task, and the task goes on; other interrupts change nothing.\<close>

lemma trap_interrupt:
  assumes t: "mytask (ksched (pk (mp M))) = Some p" and l: "\<not> tickslock (mt M)" "\<not> tcb_lock (tasks (ksched (pk (mp M))) p)"
    and c: "cause = ru64 (phys (pm (mp M))) (ppn2pa (trap_cx_ppn (mp M) p) + cx_cause)" "sint cause < 0"
  shows "\<exists>M'. e_dispatch E I M = Ok (Resume (restore_off E + TRAMPOLINE) TRAP_CONTEXT (token (page_table (memory_set (mp M) p))), M')
    \<and> pm (mp M') = pm (mp M) \<and> (take_bit 63 cause \<noteq> IRQ_S_TIMER \<longrightarrow> M' = M)
    \<and> (take_bit 63 cause = IRQ_S_TIMER \<longrightarrow> TICKS (mt M') = TICKS (mt M) + 1 \<and> next_trigger (mt M') = in_now I + INTERVAL
         \<and> (let d = tasks (ksched (pk (mp M))) p; d' = tasks (ksched (pk (mp M'))) p
            in utimes d' = utimes d + (if in_user I then 1 else 0) \<and> stimes d' = stimes d + (if in_user I then 0 else 1)))"
proof -
  have "drop_bit n (push_bit n cause) = take_bit (64 - n) cause" for n by (rule bit_word_eqI) (auto simp: bit_simps)
  from this [of 1] have s: "drop_bit 1 (push_bit 1 cause) = take_bit 63 cause" by simp
  show ?thesis
  proof (cases "take_bit 63 cause = IRQ_S_TIMER")
    case True
    then show ?thesis using t l c s
      by (auto simp: e_dispatch_def mytask_trap_cx_def irq_handler_def timer_handle_def Let_def e_return_def mytask_token_def set_next_trigger_def)
        (auto simp: mytask_def)
  next
    case False
    then show ?thesis using t l c s
      by (simp add: e_dispatch_def mytask_trap_cx_def irq_handler_def Let_def e_return_def mytask_token_def)
  qed
qed

text \<open>
  Page faults, faults of the instruction fetch and illegal instructions never come back to the task: the mapped
  files are looked at for access faults only. Causes that the table does not have are a panic.
\<close>

lemma trap_fault:
  assumes t: "mytask (ksched (pk (mp M))) = Some p"
    and c: "cause = ru64 (phys (pm (mp M))) (ppn2pa (trap_cx_ppn (mp M) p) + cx_cause)" "0 \<le> sint cause"
  shows "cause \<in> {1, 2, 12, 13, 15} \<Longrightarrow> e_dispatch E I M = Ok (e, M') \<Longrightarrow> e = Switch \<and> exit_process (in_fuel I) (mp M) (if cause = 2 then - 3 else - 2) = Ok (mp M')"
    and "cause \<notin> {1, 2, 3, 5, 7, 8, 12, 13, 15} \<Longrightarrow> e_dispatch E I M = Fail (Panic ''epc cause'')"
    and "cause = 3 \<Longrightarrow> \<exists>M'. e_dispatch E I M = Ok (Resume (restore_off E + TRAMPOLINE) TRAP_CONTEXT (token (page_table (memory_set (mp M) p))), M')
      \<and> ru64 (phys (pm (mp M'))) (ppn2pa (trap_cx_ppn (mp M) p) + cx_epc) = ru64 (phys (pm (mp M))) (ppn2pa (trap_cx_ppn (mp M) p) + cx_epc) + 2"
  using t c
  by (auto simp: e_dispatch_def mytask_trap_cx_def exc_handler_def fault_exit_def causes Let_def e_return_def mytask_token_def breakpoint_def)

end
