(* ===== verification/Device.thy ===== *)
theory Device
  imports K_Prelude Complex_Main "HOL-Library.Log_Nat"
begin

text \<open>
  The devices below the file system (\<^verbatim>\<open>d_utils.c\<close>, \<^verbatim>\<open>d_sysctl.c\<close>, \<^verbatim>\<open>d_fpioa.c\<close>, \<^verbatim>\<open>d_gpiohs.c\<close>, \<^verbatim>\<open>d_clint.c\<close>): registers behind a
  bus, fields of registers, the gates of the clocks, the functions of the pins and the general input and output.

  The hardware is a parameter: a bus is a pair of functions, what reading an address gives and how writing it
  changes the hardware. Frequencies are computed with the rounding of \<^verbatim>\<open>float\<close>. \<open>plain\<close> is the bus whose registers hold what was written; system controller and pin array are such
  registers. The theorems: which gates \<^verbatim>\<open>sysctl_clock_enable\<close> opens, and that a function is on one pin at most.
\<close>

section \<open>The bus\<close>

record 'h bus =
  rd :: "u64 \<Rightarrow> 'h \<Rightarrow> u64 \<times> 'h"
  wr :: "u64 \<Rightarrow> u64 \<Rightarrow> 'h \<Rightarrow> 'h"

definition rd32 :: "'h bus \<Rightarrow> u64 \<Rightarrow> 'h \<Rightarrow> u32 \<times> 'h" where
  "rd32 B a h = (let (v, h) = rd B a h in (ucast v, h))"

definition wr32 :: "'h bus \<Rightarrow> u64 \<Rightarrow> u32 \<Rightarrow> 'h \<Rightarrow> 'h" where
  "wr32 B a w = wr B a (ucast w)"

text \<open>Read, change, write: an assignment to a bit field, or to one of a 64-bit register.\<close>

definition upd32 :: "'h bus \<Rightarrow> u64 \<Rightarrow> (u32 \<Rightarrow> u32) \<Rightarrow> 'h \<Rightarrow> 'h" where
  "upd32 B a f h = (let (v, h) = rd32 B a h in wr32 B a (f v) h)"

definition upd64 :: "'h bus \<Rightarrow> u64 \<Rightarrow> (u64 \<Rightarrow> u64) \<Rightarrow> 'h \<Rightarrow> 'h" where
  "upd64 B a f h = (let (v, h) = rd B a h in wr B a (f v) h)"

definition get_field :: "nat \<Rightarrow> nat \<Rightarrow> 'w::len word \<Rightarrow> 'w word" where
  "get_field off n w = take_bit n (drop_bit off w)"

definition put_field :: "nat \<Rightarrow> nat \<Rightarrow> 'w::len word \<Rightarrow> 'w word \<Rightarrow> 'w word" where
  "put_field off n v w = (w AND NOT (push_bit off (mask n))) OR push_bit off (take_bit n v)"

definition plain :: "(u64 \<Rightarrow> u64) bus" where
  "plain = \<lparr>rd = (\<lambda>a h. (h a, h)), wr = (\<lambda>a w h. h(a := w))\<rparr>"

section \<open>Bits of registers\<close>

definition set_bit_reg :: "'h bus \<Rightarrow> u64 \<Rightarrow> u32 \<Rightarrow> u32 \<Rightarrow> 'h \<Rightarrow> 'h" where
  "set_bit_reg B a m value h =
     (let (v, h) = rd32 B a h; org = v AND NOT m in wr32 B a (org OR (value AND m)) h)"

definition set_bit_offset :: "'h bus \<Rightarrow> u64 \<Rightarrow> u32 \<Rightarrow> nat \<Rightarrow> u32 \<Rightarrow> 'h \<Rightarrow> 'h" where
  "set_bit_offset B a m offset value = set_bit_reg B a (push_bit offset m) (push_bit offset value)"

definition set_gpio_bit :: "'h bus \<Rightarrow> u64 \<Rightarrow> nat \<Rightarrow> u32 \<Rightarrow> 'h \<Rightarrow> 'h" where
  "set_gpio_bit B a offset value = set_bit_offset B a 1 offset value"

definition get_bit_reg :: "'h bus \<Rightarrow> u64 \<Rightarrow> u32 \<Rightarrow> nat \<Rightarrow> 'h \<Rightarrow> u32 \<times> 'h" where
  "get_bit_reg B a m offset h = (let (v, h) = rd32 B a h in (drop_bit offset (v AND push_bit offset m), h))"

definition get_gpio_bit :: "'h bus \<Rightarrow> u64 \<Rightarrow> nat \<Rightarrow> 'h \<Rightarrow> u32 \<times> 'h" where
  "get_gpio_bit B a offset = get_bit_reg B a 1 offset"

section \<open>The system controller\<close>

definition SYSCTL_V :: u64 where "SYSCTL_V = 0x50440000"

datatype sysctl_clock =
    SYSCTL_CLOCK_PLL0 | SYSCTL_CLOCK_PLL1 | SYSCTL_CLOCK_PLL2 | SYSCTL_CLOCK_CPU | SYSCTL_CLOCK_SRAM0 | SYSCTL_CLOCK_SRAM1
  | SYSCTL_CLOCK_APB0 | SYSCTL_CLOCK_APB1 | SYSCTL_CLOCK_APB2 | SYSCTL_CLOCK_ROM | SYSCTL_CLOCK_DMA | SYSCTL_CLOCK_AI | SYSCTL_CLOCK_DVP
  | SYSCTL_CLOCK_FFT | SYSCTL_CLOCK_GPIO | SYSCTL_CLOCK_SPI0 | SYSCTL_CLOCK_SPI1 | SYSCTL_CLOCK_SPI2 | SYSCTL_CLOCK_SPI3
  | SYSCTL_CLOCK_I2S0 | SYSCTL_CLOCK_I2S1 | SYSCTL_CLOCK_I2S2 | SYSCTL_CLOCK_I2C0 | SYSCTL_CLOCK_I2C1 | SYSCTL_CLOCK_I2C2
  | SYSCTL_CLOCK_UART1 | SYSCTL_CLOCK_UART2 | SYSCTL_CLOCK_UART3 | SYSCTL_CLOCK_AES | SYSCTL_CLOCK_FPIOA | SYSCTL_CLOCK_TIMER0
  | SYSCTL_CLOCK_TIMER1 | SYSCTL_CLOCK_TIMER2 | SYSCTL_CLOCK_WDT0 | SYSCTL_CLOCK_WDT1 | SYSCTL_CLOCK_SHA | SYSCTL_CLOCK_OTP
  | SYSCTL_CLOCK_RTC | SYSCTL_CLOCK_ACLK | SYSCTL_CLOCK_HCLK | SYSCTL_CLOCK_IN0 | SYSCTL_CLOCK_MAX

datatype sysctl_pll = SYSCTL_PLL0 | SYSCTL_PLL1 | SYSCTL_PLL2 | SYSCTL_PLL_MAX

datatype sysctl_source = SYSCTL_SOURCE_IN0 | SYSCTL_SOURCE_PLL0 | SYSCTL_SOURCE_PLL1 | SYSCTL_SOURCE_PLL2 | SYSCTL_SOURCE_ACLK | SYSCTL_SOURCE_MAX

datatype sysctl_select =
    SYSCTL_CLOCK_SELECT_PLL0_BYPASS | SYSCTL_CLOCK_SELECT_PLL1_BYPASS | SYSCTL_CLOCK_SELECT_PLL2_BYPASS | SYSCTL_CLOCK_SELECT_PLL2
  | SYSCTL_CLOCK_SELECT_ACLK | SYSCTL_CLOCK_SELECT_SPI3 | SYSCTL_CLOCK_SELECT_TIMER0 | SYSCTL_CLOCK_SELECT_TIMER1
  | SYSCTL_CLOCK_SELECT_TIMER2 | SYSCTL_CLOCK_SELECT_SPI3_SAMPLE | SYSCTL_CLOCK_SELECT_MAX

definition sysctl_get_git_id :: "'h bus \<Rightarrow> 'h \<Rightarrow> u32 \<times> 'h" where
  "sysctl_get_git_id B = rd32 B SYSCTL_V"

definition sysctl_get_freq :: "'h bus \<Rightarrow> 'h \<Rightarrow> u32 \<times> 'h" where
  "sysctl_get_freq B = rd32 B (SYSCTL_V + 4)"

text \<open>A gate is a bit of a register of the controller: \<^verbatim>\<open>clk_en_cent\<close> at 0x28, \<^verbatim>\<open>clk_en_peri\<close> at 0x2c, \<^verbatim>\<open>pll0\<close> at 8 and so on.\<close>

fun bus_gate :: "sysctl_clock \<Rightarrow> (u64 \<times> nat) option" where
  "bus_gate SYSCTL_CLOCK_GPIO = Some (0x28, 3)"
| "bus_gate SYSCTL_CLOCK_SPI2 = Some (0x28, 3)"
| "bus_gate SYSCTL_CLOCK_I2S0 = Some (0x28, 3)"
| "bus_gate SYSCTL_CLOCK_I2S1 = Some (0x28, 3)"
| "bus_gate SYSCTL_CLOCK_I2S2 = Some (0x28, 3)"
| "bus_gate SYSCTL_CLOCK_I2C0 = Some (0x28, 3)"
| "bus_gate SYSCTL_CLOCK_I2C1 = Some (0x28, 3)"
| "bus_gate SYSCTL_CLOCK_I2C2 = Some (0x28, 3)"
| "bus_gate SYSCTL_CLOCK_UART1 = Some (0x28, 3)"
| "bus_gate SYSCTL_CLOCK_UART2 = Some (0x28, 3)"
| "bus_gate SYSCTL_CLOCK_UART3 = Some (0x28, 3)"
| "bus_gate SYSCTL_CLOCK_FPIOA = Some (0x28, 3)"
| "bus_gate SYSCTL_CLOCK_TIMER0 = Some (0x28, 3)"
| "bus_gate SYSCTL_CLOCK_TIMER1 = Some (0x28, 3)"
| "bus_gate SYSCTL_CLOCK_TIMER2 = Some (0x28, 3)"
| "bus_gate SYSCTL_CLOCK_SHA = Some (0x28, 3)"
| "bus_gate SYSCTL_CLOCK_AES = Some (0x28, 4)"
| "bus_gate SYSCTL_CLOCK_WDT0 = Some (0x28, 4)"
| "bus_gate SYSCTL_CLOCK_WDT1 = Some (0x28, 4)"
| "bus_gate SYSCTL_CLOCK_OTP = Some (0x28, 4)"
| "bus_gate SYSCTL_CLOCK_RTC = Some (0x28, 4)"
| "bus_gate SYSCTL_CLOCK_SPI0 = Some (0x28, 5)"
| "bus_gate SYSCTL_CLOCK_SPI1 = Some (0x28, 5)"
| "bus_gate c = None"

fun device_gate :: "sysctl_clock \<Rightarrow> (u64 \<times> nat) option" where
  "device_gate SYSCTL_CLOCK_PLL0 = Some (8, 25)"
| "device_gate SYSCTL_CLOCK_PLL1 = Some (0xc, 25)"
| "device_gate SYSCTL_CLOCK_PLL2 = Some (0x10, 25)"
| "device_gate SYSCTL_CLOCK_CPU = Some (0x28, 0)"
| "device_gate SYSCTL_CLOCK_SRAM0 = Some (0x28, 1)"
| "device_gate SYSCTL_CLOCK_SRAM1 = Some (0x28, 2)"
| "device_gate SYSCTL_CLOCK_APB0 = Some (0x28, 3)"
| "device_gate SYSCTL_CLOCK_APB1 = Some (0x28, 4)"
| "device_gate SYSCTL_CLOCK_APB2 = Some (0x28, 5)"
| "device_gate SYSCTL_CLOCK_ROM = Some (0x2c, 0)"
| "device_gate SYSCTL_CLOCK_DMA = Some (0x2c, 1)"
| "device_gate SYSCTL_CLOCK_AI = Some (0x2c, 2)"
| "device_gate SYSCTL_CLOCK_DVP = Some (0x2c, 3)"
| "device_gate SYSCTL_CLOCK_FFT = Some (0x2c, 4)"
| "device_gate SYSCTL_CLOCK_SPI3 = Some (0x2c, 9)"
| "device_gate SYSCTL_CLOCK_GPIO = Some (0x2c, 5)"
| "device_gate SYSCTL_CLOCK_SPI2 = Some (0x2c, 8)"
| "device_gate SYSCTL_CLOCK_I2S0 = Some (0x2c, 10)"
| "device_gate SYSCTL_CLOCK_I2S1 = Some (0x2c, 11)"
| "device_gate SYSCTL_CLOCK_I2S2 = Some (0x2c, 12)"
| "device_gate SYSCTL_CLOCK_I2C0 = Some (0x2c, 13)"
| "device_gate SYSCTL_CLOCK_I2C1 = Some (0x2c, 14)"
| "device_gate SYSCTL_CLOCK_I2C2 = Some (0x2c, 15)"
| "device_gate SYSCTL_CLOCK_UART1 = Some (0x2c, 16)"
| "device_gate SYSCTL_CLOCK_UART2 = Some (0x2c, 17)"
| "device_gate SYSCTL_CLOCK_UART3 = Some (0x2c, 18)"
| "device_gate SYSCTL_CLOCK_FPIOA = Some (0x2c, 20)"
| "device_gate SYSCTL_CLOCK_TIMER0 = Some (0x2c, 21)"
| "device_gate SYSCTL_CLOCK_TIMER1 = Some (0x2c, 22)"
| "device_gate SYSCTL_CLOCK_TIMER2 = Some (0x2c, 23)"
| "device_gate SYSCTL_CLOCK_SHA = Some (0x2c, 26)"
| "device_gate SYSCTL_CLOCK_AES = Some (0x2c, 19)"
| "device_gate SYSCTL_CLOCK_WDT0 = Some (0x2c, 24)"
| "device_gate SYSCTL_CLOCK_WDT1 = Some (0x2c, 25)"
| "device_gate SYSCTL_CLOCK_OTP = Some (0x2c, 27)"
| "device_gate SYSCTL_CLOCK_RTC = Some (0x2c, 29)"
| "device_gate SYSCTL_CLOCK_SPI0 = Some (0x2c, 6)"
| "device_gate SYSCTL_CLOCK_SPI1 = Some (0x2c, 7)"
| "device_gate c = None"

definition sysctl_clock_bus_en :: "'h bus \<Rightarrow> sysctl_clock \<Rightarrow> u8 \<Rightarrow> 'h \<Rightarrow> 'h" where
  "sysctl_clock_bus_en B clock en h =
     (if en \<noteq> 0
      then case bus_gate clock of None \<Rightarrow> h | Some (r, b) \<Rightarrow> upd32 B (SYSCTL_V + r) (put_field b 1 (ucast en)) h
      else h)"

definition sysctl_clock_device_en :: "'h bus \<Rightarrow> sysctl_clock \<Rightarrow> u8 \<Rightarrow> 'h \<Rightarrow> 'h" where
  "sysctl_clock_device_en B clock en h =
     (case device_gate clock of None \<Rightarrow> h | Some (r, b) \<Rightarrow> upd32 B (SYSCTL_V + r) (put_field b 1 (ucast en)) h)"

definition sysctl_clock_enable :: "'h bus \<Rightarrow> sysctl_clock \<Rightarrow> 'h \<Rightarrow> int \<times> 'h" where
  "sysctl_clock_enable B clock h =
     (if clock = SYSCTL_CLOCK_MAX then (- 1, h)
      else (0, sysctl_clock_device_en B clock 1 (sysctl_clock_bus_en B clock 1 h)))"

text \<open>The fields of a PLL register: reset at bit 20, power at 21, bypass at 23, output at 25.\<close>

definition pll_start :: "'h bus \<Rightarrow> u64 \<Rightarrow> 'h \<Rightarrow> 'h" where
  "pll_start B a h =
     (let h = upd32 B a (put_field 23 1 0) h; h = upd32 B a (put_field 21 1 1) h;
          h = upd32 B a (put_field 20 1 0) h; h = upd32 B a (put_field 20 1 1) h
      in upd32 B a (put_field 20 1 0) h)"

definition sysctl_pll_enable :: "'h bus \<Rightarrow> sysctl_pll \<Rightarrow> 'h \<Rightarrow> int \<times> 'h" where
  "sysctl_pll_enable B pll h =
     (case pll of
        SYSCTL_PLL_MAX \<Rightarrow> (- 1, h)
      | SYSCTL_PLL0 \<Rightarrow> (0, pll_start B (SYSCTL_V + 8) h)
      | SYSCTL_PLL1 \<Rightarrow> (0, pll_start B (SYSCTL_V + 0xc) h)
      | SYSCTL_PLL2 \<Rightarrow> (0, pll_start B (SYSCTL_V + 0x10) h))"

text \<open>The channels are numbered; a negative number is none of them.\<close>

definition sysctl_dma_select :: "'h bus \<Rightarrow> int \<Rightarrow> nat \<Rightarrow> 'h \<Rightarrow> int \<times> 'h" where
  "sysctl_dma_select B channel select h =
     (let (s0, h) = rd32 B (SYSCTL_V + 0x64) h; (s1, h) = rd32 B (SYSCTL_V + 0x68) h
      in if channel < 0 \<or> channel > 5 then (- 1, h)
         else let s0 = (if channel < 5 then put_field (6 * nat channel) 6 (of_nat select) s0 else s0);
                  s1 = (if channel = 5 then put_field 0 6 (of_nat select) s1 else s1)
              in (0, wr32 B (SYSCTL_V + 0x68) s1 (wr32 B (SYSCTL_V + 0x64) s0 h)))"

definition sysctl_clock_get_clock_select :: "'h bus \<Rightarrow> sysctl_select \<Rightarrow> 'h \<Rightarrow> int \<times> 'h" where
  "sysctl_clock_get_clock_select B which h =
     (let f = (\<lambda>r off n. let (v, h) = rd32 B (SYSCTL_V + r) h in (uint (get_field off n v), h))
      in case which of
        SYSCTL_CLOCK_SELECT_PLL0_BYPASS \<Rightarrow> f 8 23 1
      | SYSCTL_CLOCK_SELECT_PLL1_BYPASS \<Rightarrow> f 0xc 23 1
      | SYSCTL_CLOCK_SELECT_PLL2_BYPASS \<Rightarrow> f 0x10 23 1
      | SYSCTL_CLOCK_SELECT_PLL2 \<Rightarrow> f 0x10 26 2
      | SYSCTL_CLOCK_SELECT_ACLK \<Rightarrow> f 0x20 0 1
      | SYSCTL_CLOCK_SELECT_SPI3 \<Rightarrow> f 0x20 12 1
      | SYSCTL_CLOCK_SELECT_TIMER0 \<Rightarrow> f 0x20 13 1
      | SYSCTL_CLOCK_SELECT_TIMER1 \<Rightarrow> f 0x20 14 1
      | SYSCTL_CLOCK_SELECT_TIMER2 \<Rightarrow> f 0x20 15 1
      | SYSCTL_CLOCK_SELECT_SPI3_SAMPLE \<Rightarrow> f 0x24 0 1
      | SYSCTL_CLOCK_SELECT_MAX \<Rightarrow> (0, h))"

datatype sysctl_threshold =
    SYSCTL_THRESHOLD_ACLK | SYSCTL_THRESHOLD_APB0 | SYSCTL_THRESHOLD_APB1 | SYSCTL_THRESHOLD_APB2 | SYSCTL_THRESHOLD_SRAM0
  | SYSCTL_THRESHOLD_SRAM1 | SYSCTL_THRESHOLD_AI | SYSCTL_THRESHOLD_DVP | SYSCTL_THRESHOLD_ROM | SYSCTL_THRESHOLD_SPI0
  | SYSCTL_THRESHOLD_SPI1 | SYSCTL_THRESHOLD_SPI2 | SYSCTL_THRESHOLD_SPI3 | SYSCTL_THRESHOLD_TIMER0 | SYSCTL_THRESHOLD_TIMER1
  | SYSCTL_THRESHOLD_TIMER2 | SYSCTL_THRESHOLD_I2S0 | SYSCTL_THRESHOLD_I2S1 | SYSCTL_THRESHOLD_I2S2 | SYSCTL_THRESHOLD_I2S0_M
  | SYSCTL_THRESHOLD_I2S1_M | SYSCTL_THRESHOLD_I2S2_M | SYSCTL_THRESHOLD_I2C0 | SYSCTL_THRESHOLD_I2C1 | SYSCTL_THRESHOLD_I2C2
  | SYSCTL_THRESHOLD_WDT0 | SYSCTL_THRESHOLD_WDT1 | SYSCTL_THRESHOLD_MAX

definition sysctl_clock_get_threshold :: "'h bus \<Rightarrow> sysctl_threshold \<Rightarrow> 'h \<Rightarrow> int \<times> 'h" where
  "sysctl_clock_get_threshold B which h =
     (if which = SYSCTL_THRESHOLD_ACLK then let (v, h) = rd32 B (SYSCTL_V + 0x20) h in (uint (get_field 1 2 v), h) else (0, h))"

text \<open>Only the reset of the clock has a case; the other peripherals are one constructor here. Between setting and clearing
  it \<^verbatim>\<open>usleep\<close> waits.\<close>

datatype sysctl_reset_id = SYSCTL_RESET_RTC | SYSCTL_RESET_OTHER nat

definition sysctl_reset_ctl :: "'h bus \<Rightarrow> sysctl_reset_id \<Rightarrow> u8 \<Rightarrow> 'h \<Rightarrow> 'h" where
  "sysctl_reset_ctl B r rst_value h =
     (if r = SYSCTL_RESET_RTC then upd32 B (SYSCTL_V + 0x34) (put_field 29 1 (ucast rst_value)) h else h)"

definition sysctl_reset :: "'h bus \<Rightarrow> sysctl_reset_id \<Rightarrow> 'h \<Rightarrow> 'h" where
  "sysctl_reset B r h = sysctl_reset_ctl B r 0 (sysctl_reset_ctl B r 1 h)"

section \<open>Frequencies\<close>

text \<open>
  The frequency of a PLL is computed with numbers of type \<^verbatim>\<open>float\<close>: the value of an operation is the exact one rounded
  to 24 significant bits, to the nearest and on a tie to the even one. All values here lie between 1 and \<open>2 ^ 32\<close>, where the
  exponent of the format is never exceeded.
\<close>

definition round_even :: "rat \<Rightarrow> int" where
  "round_even x = (let n = \<lfloor>x\<rfloor>; d = x - of_int n in if d < 1 / 2 \<or> (d = 1 / 2 \<and> even n) then n else n + 1)"

definition float32 :: "rat \<Rightarrow> rat" where
  "float32 x =
     (let b = floorlog 2 (nat \<lfloor>x\<rfloor>)
      in if b \<le> 24 then of_int (round_even (x * 2 ^ (24 - b))) / 2 ^ (24 - b) else of_int (round_even (x / 2 ^ (b - 24))) * 2 ^ (b - 24))"

definition SYSCTRL_CLOCK_FREQ_IN0 :: u32 where "SYSCTRL_CLOCK_FREQ_IN0 = 26000000"

definition pll_frequency :: "rat \<Rightarrow> rat \<Rightarrow> rat \<Rightarrow> rat \<Rightarrow> u32" where
  "pll_frequency freq_in nr nf od = of_int \<lfloor>float32 (float32 (float32 (float32 freq_in / nr) * nf) / od)\<rfloor>"

text \<open>For the other PLLs the code divides 0 by 0 and converts the result to an integer, which is undefined: \<open>None\<close>.\<close>

definition sysctl_pll_get_freq :: "'h bus \<Rightarrow> sysctl_pll \<Rightarrow> 'h \<Rightarrow> (u32 \<times> 'h) option" where
  "sysctl_pll_get_freq B pll h =
     (case pll of
        SYSCTL_PLL_MAX \<Rightarrow> Some (0, h)
      | SYSCTL_PLL0 \<Rightarrow>
          let (v, h) = rd32 B (SYSCTL_V + 8) h; nr = get_field 0 4 v + 1;
              (v, h) = rd32 B (SYSCTL_V + 8) h; nf = get_field 4 6 v + 1;
              (v, h) = rd32 B (SYSCTL_V + 8) h; od = get_field 10 4 v + 1
          in Some (pll_frequency (of_nat (unat SYSCTRL_CLOCK_FREQ_IN0)) (of_nat (unat nr)) (of_nat (unat nf)) (of_nat (unat od)), h)
      | _ \<Rightarrow> None)"

definition sysctl_clock_source_get_freq :: "'h bus \<Rightarrow> sysctl_source \<Rightarrow> 'h \<Rightarrow> (u32 \<times> 'h) option" where
  "sysctl_clock_source_get_freq B input h =
     (case input of
        SYSCTL_SOURCE_IN0 \<Rightarrow> Some (SYSCTRL_CLOCK_FREQ_IN0, h)
      | SYSCTL_SOURCE_PLL0 \<Rightarrow> sysctl_pll_get_freq B SYSCTL_PLL0 h
      | _ \<Rightarrow> Some (0, h))"

text \<open>The source of the processor is divided as a 64-bit number by 2, 4, 8 or 16.\<close>

definition sysctl_clock_get_freq :: "'h bus \<Rightarrow> sysctl_clock \<Rightarrow> 'h \<Rightarrow> (u32 \<times> 'h) option" where
  "sysctl_clock_get_freq B clock h =
     (case clock of
        SYSCTL_CLOCK_IN0 \<Rightarrow> sysctl_clock_source_get_freq B SYSCTL_SOURCE_IN0 h
      | SYSCTL_CLOCK_PLL0 \<Rightarrow> sysctl_clock_source_get_freq B SYSCTL_SOURCE_PLL0 h
      | SYSCTL_CLOCK_CPU \<Rightarrow>
          let (s, h) = sysctl_clock_get_clock_select B SYSCTL_CLOCK_SELECT_ACLK h
          in if s = 0 then sysctl_clock_source_get_freq B SYSCTL_SOURCE_IN0 h
             else if s = 1 then
               case sysctl_clock_source_get_freq B SYSCTL_SOURCE_PLL0 h of
                 None \<Rightarrow> None
               | Some (f, h) \<Rightarrow> let (t, h) = sysctl_clock_get_threshold B SYSCTL_THRESHOLD_ACLK h
                              in Some (ucast ((ucast f :: u64) div push_bit (nat t) 2), h)
             else Some (0, h)
      | _ \<Rightarrow> Some (0, h))"

section \<open>The pin array\<close>

definition FPIOA_V :: u64 where "FPIOA_V = 0x502B0000"
definition FPIOA_NUM_IO :: nat where "FPIOA_NUM_IO = 48"
definition FUNC_MAX :: nat where "FUNC_MAX = 256"
definition FUNC_RESV0 :: int where "FUNC_RESV0 = 120"

text \<open>An entry of the table without its \<^verbatim>\<open>ch_sel\<close>; the reserved fields and \<^verbatim>\<open>pad_di\<close> are 0 in all entries.\<close>

record fpioa_assign =
  f_ds :: u32
  f_oe_en :: bool
  f_oe_inv :: bool
  f_do_sel :: bool
  f_do_inv :: bool
  f_pu :: bool
  f_pd :: bool
  f_sl :: bool
  f_ie_en :: bool
  f_ie_inv :: bool
  f_di_inv :: bool
  f_st :: bool
  f_tie_en :: bool
  f_tie_val :: bool

text \<open>The ten settings that occur in the table.\<close>

definition io_in :: fpioa_assign where
  "io_in = \<lparr>f_ds = 0, f_oe_en = False, f_oe_inv = False, f_do_sel = False, f_do_inv = False,
     f_pu = False, f_pd = False, f_sl = False, f_ie_en = True, f_ie_inv = False, f_di_inv = False,
     f_st = True, f_tie_en = False, f_tie_val = False\<rparr>"

definition io_out :: fpioa_assign where
  "io_out = \<lparr>f_ds = 15, f_oe_en = True, f_oe_inv = False, f_do_sel = False, f_do_inv = False,
     f_pu = False, f_pd = False, f_sl = False, f_ie_en = False, f_ie_inv = False, f_di_inv = False,
     f_st = False, f_tie_en = False, f_tie_val = False\<rparr>"

definition io_bus :: fpioa_assign where
  "io_bus = \<lparr>f_ds = 15, f_oe_en = True, f_oe_inv = True, f_do_sel = False, f_do_inv = False,
     f_pu = False, f_pd = False, f_sl = False, f_ie_en = True, f_ie_inv = True, f_di_inv = False,
     f_st = True, f_tie_en = False, f_tie_val = False\<rparr>"

definition io_tied :: fpioa_assign where
  "io_tied = \<lparr>f_ds = 0, f_oe_en = False, f_oe_inv = False, f_do_sel = False, f_do_inv = False,
     f_pu = False, f_pd = False, f_sl = False, f_ie_en = True, f_ie_inv = False, f_di_inv = False,
     f_st = True, f_tie_en = True, f_tie_val = True\<rparr>"

definition io_both :: fpioa_assign where
  "io_both = \<lparr>f_ds = 15, f_oe_en = True, f_oe_inv = False, f_do_sel = False, f_do_inv = False,
     f_pu = False, f_pd = False, f_sl = False, f_ie_en = True, f_ie_inv = False, f_di_inv = False,
     f_st = True, f_tie_en = False, f_tie_val = False\<rparr>"

definition io_none :: fpioa_assign where
  "io_none = \<lparr>f_ds = 0, f_oe_en = False, f_oe_inv = False, f_do_sel = False, f_do_inv = False,
     f_pu = False, f_pd = False, f_sl = False, f_ie_en = False, f_ie_inv = False, f_di_inv = False,
     f_st = False, f_tie_en = False, f_tie_val = False\<rparr>"

definition io_scl :: fpioa_assign where
  "io_scl = \<lparr>f_ds = 0, f_oe_en = True, f_oe_inv = False, f_do_sel = False, f_do_inv = False,
     f_pu = True, f_pd = False, f_sl = True, f_ie_en = True, f_ie_inv = False, f_di_inv = False,
     f_st = True, f_tie_en = False, f_tie_val = False\<rparr>"

definition io_pair :: fpioa_assign where
  "io_pair = \<lparr>f_ds = 0, f_oe_en = True, f_oe_inv = True, f_do_sel = False, f_do_inv = False,
     f_pu = True, f_pd = False, f_sl = True, f_ie_en = True, f_ie_inv = False, f_di_inv = False,
     f_st = True, f_tie_en = False, f_tie_val = False\<rparr>"

definition io_pull :: fpioa_assign where
  "io_pull = \<lparr>f_ds = 0, f_oe_en = False, f_oe_inv = False, f_do_sel = False, f_do_inv = False,
     f_pu = True, f_pd = False, f_sl = False, f_ie_en = True, f_ie_inv = False, f_di_inv = False,
     f_st = True, f_tie_en = False, f_tie_val = False\<rparr>"

definition io_strong :: fpioa_assign where
  "io_strong = \<lparr>f_ds = 15, f_oe_en = True, f_oe_inv = False, f_do_sel = False, f_do_inv = False,
     f_pu = True, f_pd = False, f_sl = True, f_ie_en = True, f_ie_inv = False, f_di_inv = False,
     f_st = True, f_tie_en = False, f_tie_val = False\<rparr>"

lemmas io_settings = io_in_def io_out_def io_bus_def io_tied_def io_both_def io_none_def io_scl_def io_pair_def io_pull_def io_strong_def

text \<open>The table of the 256 functions in 32 rows of 8 entries: \<^verbatim>\<open>ch_sel\<close> and setting.\<close>

definition function_config_0 :: "(nat \<times> fpioa_assign) list" where
  "function_config_0 = [(0, io_in), (1, io_in), (2, io_in), (3, io_out),
     (4, io_bus), (5, io_bus), (6, io_bus), (7, io_bus)]"

definition function_config_1 :: "(nat \<times> fpioa_assign) list" where
  "function_config_1 = [(8, io_bus), (9, io_bus), (10, io_bus), (11, io_bus),
     (12, io_out), (13, io_out), (14, io_out), (15, io_out)]"

definition function_config_2 :: "(nat \<times> fpioa_assign) list" where
  "function_config_2 = [(16, io_tied), (17, io_out), (18, io_in), (19, io_out),
     (20, io_in), (21, io_in), (22, io_out), (23, io_out)]"

definition function_config_3 :: "(nat \<times> fpioa_assign) list" where
  "function_config_3 = [(24, io_both), (25, io_both), (26, io_both), (27, io_both),
     (28, io_both), (29, io_both), (30, io_both), (31, io_both)]"

definition function_config_4 :: "(nat \<times> fpioa_assign) list" where
  "function_config_4 = [(32, io_both), (33, io_both), (34, io_both), (35, io_both),
     (36, io_both), (37, io_both), (38, io_both), (39, io_both)]"

definition function_config_5 :: "(nat \<times> fpioa_assign) list" where
  "function_config_5 = [(40, io_both), (41, io_both), (42, io_both), (43, io_both),
     (44, io_both), (45, io_both), (46, io_both), (47, io_both)]"

definition function_config_6 :: "(nat \<times> fpioa_assign) list" where
  "function_config_6 = [(48, io_both), (49, io_both), (50, io_both), (51, io_both),
     (52, io_both), (53, io_both), (54, io_both), (55, io_both)]"

definition function_config_7 :: "(nat \<times> fpioa_assign) list" where
  "function_config_7 = [(56, io_both), (57, io_both), (58, io_both), (59, io_both),
     (60, io_both), (61, io_both), (62, io_both), (63, io_both)]"

definition function_config_8 :: "(nat \<times> fpioa_assign) list" where
  "function_config_8 = [(64, io_in), (65, io_out), (66, io_in), (67, io_out),
     (68, io_in), (69, io_out), (70, io_bus), (71, io_bus)]"

definition function_config_9 :: "(nat \<times> fpioa_assign) list" where
  "function_config_9 = [(72, io_bus), (73, io_bus), (74, io_bus), (75, io_bus),
     (76, io_bus), (77, io_bus), (78, io_out), (79, io_out)]"

definition function_config_10 :: "(nat \<times> fpioa_assign) list" where
  "function_config_10 = [(80, io_out), (81, io_out), (82, io_tied), (83, io_out),
     (84, io_bus), (85, io_in), (86, io_in), (87, io_out)]"

definition function_config_11 :: "(nat \<times> fpioa_assign) list" where
  "function_config_11 = [(88, io_out), (89, io_out), (90, io_in), (91, io_in),
     (92, io_in), (93, io_in), (94, io_out), (95, io_out)]"

definition function_config_12 :: "(nat \<times> fpioa_assign) list" where
  "function_config_12 = [(96, io_out), (97, io_out), (98, io_out), (99, io_out),
     (100, io_out), (101, io_in), (102, io_in), (103, io_in)]"

definition function_config_13 :: "(nat \<times> fpioa_assign) list" where
  "function_config_13 = [(104, io_in), (105, io_out), (106, io_out), (107, io_out),
     (108, io_out), (109, io_out), (110, io_out), (111, io_out)]"

definition function_config_14 :: "(nat \<times> fpioa_assign) list" where
  "function_config_14 = [(112, io_in), (113, io_in), (114, io_in), (115, io_in),
     (116, io_out), (117, io_out), (118, io_out), (119, io_out)]"

definition function_config_15 :: "(nat \<times> fpioa_assign) list" where
  "function_config_15 = [(120, io_none), (121, io_none), (122, io_none), (123, io_none),
     (124, io_none), (125, io_none), (126, io_scl), (127, io_scl)]"

definition function_config_16 :: "(nat \<times> fpioa_assign) list" where
  "function_config_16 = [(128, io_scl), (129, io_scl), (130, io_scl), (131, io_scl),
     (132, io_out), (133, io_out), (134, io_out), (135, io_in)]"

definition function_config_17 :: "(nat \<times> fpioa_assign) list" where
  "function_config_17 = [(136, io_in), (137, io_in), (138, io_in), (139, io_in),
     (140, io_in), (141, io_in), (142, io_in), (143, io_in)]"

definition function_config_18 :: "(nat \<times> fpioa_assign) list" where
  "function_config_18 = [(144, io_in), (145, io_in), (146, io_pair), (147, io_pair),
     (148, io_in), (149, io_in), (150, io_in), (151, io_in)]"

definition function_config_19 :: "(nat \<times> fpioa_assign) list" where
  "function_config_19 = [(152, io_in), (153, io_out), (154, io_out), (155, io_out),
     (156, io_out), (157, io_out), (158, io_out), (159, io_out)]"

definition function_config_20 :: "(nat \<times> fpioa_assign) list" where
  "function_config_20 = [(160, io_out), (161, io_out), (162, io_in), (163, io_in),
     (164, io_in), (165, io_in), (166, io_in), (167, io_out)]"

definition function_config_21 :: "(nat \<times> fpioa_assign) list" where
  "function_config_21 = [(168, io_out), (169, io_out), (170, io_out), (171, io_out),
     (172, io_out), (173, io_out), (174, io_out), (175, io_out)]"

definition function_config_22 :: "(nat \<times> fpioa_assign) list" where
  "function_config_22 = [(176, io_in), (177, io_in), (178, io_in), (179, io_in),
     (180, io_in), (181, io_out), (182, io_out), (183, io_out)]"

definition function_config_23 :: "(nat \<times> fpioa_assign) list" where
  "function_config_23 = [(184, io_out), (185, io_out), (186, io_out), (187, io_out),
     (188, io_out), (189, io_out), (190, io_out), (191, io_out)]"

definition function_config_24 :: "(nat \<times> fpioa_assign) list" where
  "function_config_24 = [(192, io_out), (193, io_out), (194, io_out), (195, io_out),
     (196, io_out), (197, io_out), (198, io_out), (199, io_out)]"

definition function_config_25 :: "(nat \<times> fpioa_assign) list" where
  "function_config_25 = [(200, io_out), (201, io_out), (202, io_out), (203, io_out),
     (204, io_out), (205, io_out), (206, io_out), (207, io_out)]"

definition function_config_26 :: "(nat \<times> fpioa_assign) list" where
  "function_config_26 = [(208, io_out), (209, io_out), (210, io_out), (211, io_out),
     (212, io_out), (213, io_in), (214, io_in), (215, io_in)]"

definition function_config_27 :: "(nat \<times> fpioa_assign) list" where
  "function_config_27 = [(216, io_in), (217, io_pull), (218, io_strong), (219, io_in),
     (220, io_in), (221, io_in), (222, io_none), (223, io_in)]"

definition function_config_28 :: "(nat \<times> fpioa_assign) list" where
  "function_config_28 = [(224, io_out), (225, io_out), (226, io_out), (227, io_out),
     (228, io_out), (229, io_out), (230, io_out), (231, io_out)]"

definition function_config_29 :: "(nat \<times> fpioa_assign) list" where
  "function_config_29 = [(232, io_out), (233, io_out), (234, io_out), (235, io_out),
     (236, io_out), (237, io_out), (238, io_out), (239, io_out)]"

definition function_config_30 :: "(nat \<times> fpioa_assign) list" where
  "function_config_30 = [(240, io_out), (241, io_out), (242, io_out), (243, io_out),
     (244, io_out), (245, io_out), (246, io_out), (247, io_out)]"

definition function_config_31 :: "(nat \<times> fpioa_assign) list" where
  "function_config_31 = [(248, io_out), (249, io_out), (250, io_out), (251, io_out),
     (252, io_out), (253, io_out), (254, io_out), (255, io_out)]"

definition function_config :: "(nat \<times> fpioa_assign) list" where
  "function_config =
     function_config_0 @ function_config_1 @ function_config_2 @ function_config_3 @ function_config_4 @
     function_config_5 @ function_config_6 @ function_config_7 @ function_config_8 @ function_config_9 @
     function_config_10 @ function_config_11 @ function_config_12 @ function_config_13 @ function_config_14 @
     function_config_15 @ function_config_16 @ function_config_17 @ function_config_18 @ function_config_19 @
     function_config_20 @ function_config_21 @ function_config_22 @ function_config_23 @ function_config_24 @
     function_config_25 @ function_config_26 @ function_config_27 @ function_config_28 @ function_config_29 @
     function_config_30 @ function_config_31"

lemmas function_configs = function_config_def
  function_config_0_def function_config_1_def function_config_2_def function_config_3_def function_config_4_def
  function_config_5_def function_config_6_def function_config_7_def function_config_8_def function_config_9_def
  function_config_10_def function_config_11_def function_config_12_def function_config_13_def
  function_config_14_def function_config_15_def function_config_16_def function_config_17_def
  function_config_18_def function_config_19_def function_config_20_def function_config_21_def
  function_config_22_def function_config_23_def function_config_24_def function_config_25_def
  function_config_26_def function_config_27_def function_config_28_def function_config_29_def
  function_config_30_def function_config_31_def

text \<open>A pin register as a word.\<close>

definition io_word :: "nat \<Rightarrow> fpioa_assign \<Rightarrow> u32" where
  "io_word ch_sel c =
     put_field 0 8 (of_nat ch_sel) (put_field 8 4 (f_ds c) (put_field 12 1 (of_bool (f_oe_en c)) (put_field 13 1 (of_bool (f_oe_inv c))
     (put_field 14 1 (of_bool (f_do_sel c)) (put_field 15 1 (of_bool (f_do_inv c)) (put_field 16 1 (of_bool (f_pu c))
     (put_field 17 1 (of_bool (f_pd c)) (put_field 19 1 (of_bool (f_sl c)) (put_field 20 1 (of_bool (f_ie_en c))
     (put_field 21 1 (of_bool (f_ie_inv c)) (put_field 22 1 (of_bool (f_di_inv c)) (put_field 23 1 (of_bool (f_st c)) 0))))))))))))"

definition io_reg :: "nat \<Rightarrow> u64" where
  "io_reg i = FPIOA_V + 4 * of_nat i"

definition fpioa_set_function_raw :: "'h bus \<Rightarrow> int \<Rightarrow> int \<Rightarrow> 'h \<Rightarrow> int \<times> 'h" where
  "fpioa_set_function_raw B number function h =
     (if number < 0 \<or> number \<ge> int FPIOA_NUM_IO \<or> function < 0 \<or> function \<ge> int FUNC_MAX then (- 1, h)
      else (0, wr32 B (io_reg (nat number)) (case_prod io_word (function_config ! nat function)) h))"

text \<open>The loop takes the function from every other pin that has it.\<close>

primrec take_function :: "'h bus \<Rightarrow> nat list \<Rightarrow> int \<Rightarrow> int \<Rightarrow> 'h \<Rightarrow> 'h" where
  "take_function B [] number function h = h"
| "take_function B (i # is) number function h =
     (let (v, h) = rd32 B (io_reg i) h
      in take_function B is number function
           (if uint (get_field 0 8 v) = function \<and> int i \<noteq> number then snd (fpioa_set_function_raw B (int i) FUNC_RESV0 h) else h))"

definition fpioa_set_function :: "'h bus \<Rightarrow> int \<Rightarrow> int \<Rightarrow> 'h \<Rightarrow> int \<times> 'h" where
  "fpioa_set_function B number function h =
     (if number < 0 \<or> number \<ge> int FPIOA_NUM_IO \<or> function < 0 \<or> function \<ge> int FUNC_MAX then (- 1, h)
      else if function = FUNC_RESV0 then (0, snd (fpioa_set_function_raw B number FUNC_RESV0 h))
      else let h = take_function B [0..<FPIOA_NUM_IO] number function h
           in (0, snd (fpioa_set_function_raw B number function h)))"

primrec find_function :: "'h bus \<Rightarrow> nat list \<Rightarrow> int \<Rightarrow> 'h \<Rightarrow> int \<times> 'h" where
  "find_function B [] function h = (- 1, h)"
| "find_function B (i # is) function h =
     (let (v, h) = rd32 B (io_reg i) h
      in if uint (get_field 0 8 v) = function then (int i, h) else find_function B is function h)"

definition fpioa_get_io_by_function :: "'h bus \<Rightarrow> int \<Rightarrow> 'h \<Rightarrow> int \<times> 'h" where
  "fpioa_get_io_by_function B function h = find_function B [0..<FPIOA_NUM_IO] function h"

datatype fpioa_pull = FPIOA_PULL_NONE | FPIOA_PULL_DOWN | FPIOA_PULL_UP | FPIOA_PULL_MAX

definition fpioa_set_io_pull :: "'h bus \<Rightarrow> int \<Rightarrow> fpioa_pull \<Rightarrow> 'h \<Rightarrow> int \<times> 'h" where
  "fpioa_set_io_pull B number pull h =
     (if number < 0 \<or> number \<ge> int FPIOA_NUM_IO \<or> pull = FPIOA_PULL_MAX then (- 1, h)
      else let (cfg, h) = rd32 B (io_reg (nat number)) h;
               cfg = (case pull of FPIOA_PULL_NONE \<Rightarrow> put_field 16 1 0 (put_field 17 1 0 cfg)
                      | FPIOA_PULL_DOWN \<Rightarrow> put_field 16 1 0 (put_field 17 1 1 cfg)
                      | FPIOA_PULL_UP \<Rightarrow> put_field 16 1 1 (put_field 17 1 0 cfg) | FPIOA_PULL_MAX \<Rightarrow> cfg)
           in (0, wr32 B (io_reg (nat number)) cfg h))"

text \<open>The pins of the card: 27 clock, 28 data out, 26 data in, 32 the select line as output 7, 29 the select of the controller.\<close>

definition fpioa_pin_init :: "'h bus \<Rightarrow> 'h \<Rightarrow> 'h" where
  "fpioa_pin_init B h =
     (let h = snd (fpioa_set_function B 27 17 h); h = snd (fpioa_set_function B 28 4 h); h = snd (fpioa_set_function B 26 5 h);
          h = snd (fpioa_set_function B 32 31 h)
      in snd (fpioa_set_function B 29 15 h))"

section \<open>General input and output\<close>

definition GPIOHS_V :: u64 where "GPIOHS_V = 0x38001000"

datatype gpio_drive_mode = GPIO_DM_INPUT | GPIO_DM_INPUT_PULL_DOWN | GPIO_DM_INPUT_PULL_UP | GPIO_DM_OUTPUT

definition gpiohs_set_drive_mode :: "'h bus \<Rightarrow> u8 \<Rightarrow> gpio_drive_mode \<Rightarrow> 'h \<Rightarrow> 'h" where
  "gpiohs_set_drive_mode B pin mode h =
     (let (io_number, h) = fpioa_get_io_by_function B (24 + uint pin) h;
          (pull, dir) = (case mode of GPIO_DM_INPUT \<Rightarrow> (FPIOA_PULL_NONE, False) | GPIO_DM_INPUT_PULL_DOWN \<Rightarrow> (FPIOA_PULL_DOWN, False)
             | GPIO_DM_INPUT_PULL_UP \<Rightarrow> (FPIOA_PULL_UP, False) | GPIO_DM_OUTPUT \<Rightarrow> (FPIOA_PULL_DOWN, True));
          h = snd (fpioa_set_io_pull B io_number pull h);
          reg = (if dir then GPIOHS_V + 8 else GPIOHS_V + 4); reg_d = (if \<not> dir then GPIOHS_V + 8 else GPIOHS_V + 4);
          h = set_gpio_bit B reg_d (unat pin) 0 h
      in set_gpio_bit B reg (unat pin) 1 h)"

definition gpiohs_set_pin :: "'h bus \<Rightarrow> u8 \<Rightarrow> u32 \<Rightarrow> 'h \<Rightarrow> 'h" where
  "gpiohs_set_pin B pin value h = set_gpio_bit B (GPIOHS_V + 0xc) (unat pin) value h"

section \<open>The core-local timer\<close>

definition clint_get_time :: "'h bus \<Rightarrow> 'h \<Rightarrow> u64 \<times> 'h" where
  "clint_get_time B h = rd B 0x0200BFF8 h"

text \<open>The timer counts every fiftieth tick of the processor.\<close>

definition clint_timer_get_freq :: "'h bus \<Rightarrow> 'h \<Rightarrow> (u64 \<times> 'h) option" where
  "clint_timer_get_freq B h =
     (case sysctl_clock_get_freq B SYSCTL_CLOCK_CPU h of None \<Rightarrow> None | Some (f, h) \<Rightarrow> Some (ucast (f div 50), h))"

section \<open>The gates of the clocks\<close>

lemma plain_sel [simp]:
  "rd plain a h = (h a, h)" "wr plain a w h = h(a := w)" "rd32 plain a h = (ucast (h a), h)" "wr32 plain a v h = h(a := ucast v)"
  "upd32 plain a f h = h(a := ucast (f (ucast (h a))))"
  by (simp_all add: plain_def rd32_def wr32_def upd32_def)

lemma bit_put_field: "b < LENGTH('w::len) \<Longrightarrow> bit (put_field off n v (w::'w word)) b = (if off \<le> b \<and> b < off + n then bit v (b - off) else bit w b)"
  by (auto simp: put_field_def bit_simps)

definition gate_open :: "(u64 \<Rightarrow> u64) \<Rightarrow> u64 \<times> nat \<Rightarrow> bool" where
  "gate_open h g = bit (h (SYSCTL_V + fst g)) (snd g)"

definition gated_clocks :: "sysctl_clock list" where
  "gated_clocks = [SYSCTL_CLOCK_PLL0, SYSCTL_CLOCK_PLL1, SYSCTL_CLOCK_PLL2, SYSCTL_CLOCK_CPU, SYSCTL_CLOCK_SRAM0,
     SYSCTL_CLOCK_SRAM1, SYSCTL_CLOCK_APB0, SYSCTL_CLOCK_APB1, SYSCTL_CLOCK_APB2, SYSCTL_CLOCK_ROM, SYSCTL_CLOCK_DMA,
     SYSCTL_CLOCK_AI, SYSCTL_CLOCK_DVP, SYSCTL_CLOCK_FFT, SYSCTL_CLOCK_SPI3, SYSCTL_CLOCK_GPIO, SYSCTL_CLOCK_SPI2,
     SYSCTL_CLOCK_I2S0, SYSCTL_CLOCK_I2S1, SYSCTL_CLOCK_I2S2, SYSCTL_CLOCK_I2C0, SYSCTL_CLOCK_I2C1,
     SYSCTL_CLOCK_I2C2, SYSCTL_CLOCK_UART1, SYSCTL_CLOCK_UART2, SYSCTL_CLOCK_UART3, SYSCTL_CLOCK_FPIOA,
     SYSCTL_CLOCK_TIMER0, SYSCTL_CLOCK_TIMER1, SYSCTL_CLOCK_TIMER2, SYSCTL_CLOCK_SHA, SYSCTL_CLOCK_AES,
     SYSCTL_CLOCK_WDT0, SYSCTL_CLOCK_WDT1, SYSCTL_CLOCK_OTP, SYSCTL_CLOCK_RTC, SYSCTL_CLOCK_SPI0, SYSCTL_CLOCK_SPI1]"

lemma gates_distinct: "distinct (map device_gate gated_clocks)"
  by (simp add: gated_clocks_def)

lemma gated: "device_gate c \<noteq> None \<Longrightarrow> c \<in> set gated_clocks"
  by (cases c) (simp_all add: gated_clocks_def)

lemma device_gate_inj: "device_gate c = Some g \<Longrightarrow> device_gate d = Some g \<Longrightarrow> c = d"
  using gates_distinct gated [of c] gated [of d] unfolding distinct_map inj_on_def by simp

lemma gate_bits: "device_gate c = Some (r, b) \<Longrightarrow> b < 32"
  by (cases c) auto

lemma bus_gate_bits: "bus_gate c = Some (r, b) \<Longrightarrow> b < 32"
  by (cases c) auto

lemma open_gate:
  assumes "b < 32" and "b' < 32"
  shows "gate_open (upd32 plain (SYSCTL_V + r) (put_field b 1 1) h) (r', b') = (gate_open h (r', b') \<or> (r', b') = (r, b))"
  using assms by (auto simp: gate_open_def bit_put_field bit_simps)

text \<open>\<^verbatim>\<open>sysctl_clock_enable\<close> opens the gate of the clock and the gate of its bus and no other; the two registers of
  the table of 38 gates never give two clocks the same bit.\<close>

theorem clock_enable_gates:
  assumes "c \<noteq> SYSCTL_CLOCK_MAX" and "device_gate d = Some g"
  shows "fst (sysctl_clock_enable plain c h) = 0
    \<and> (gate_open (snd (sysctl_clock_enable plain c h)) g \<longleftrightarrow> gate_open h g \<or> d = c \<or> bus_gate c = Some g)"
proof -
  obtain r b where g: "g = (r, b)" "b < 32" using gate_bits assms(2) by (cases g) blast
  let ?h1 = "sysctl_clock_bus_en plain c 1 h"
  have 1: "gate_open ?h1 g \<longleftrightarrow> gate_open h g \<or> bus_gate c = Some g"
    using open_gate [OF bus_gate_bits g(2)] g(1) by (auto simp: sysctl_clock_bus_en_def simp del: plain_sel split: option.splits)
  have "gate_open (sysctl_clock_device_en plain c 1 ?h1) g \<longleftrightarrow> gate_open ?h1 g \<or> device_gate c = Some g"
    using open_gate [OF gate_bits g(2)] g(1) by (auto simp: sysctl_clock_device_en_def simp del: plain_sel split: option.splits)
  moreover have "device_gate c = Some g \<longleftrightarrow> d = c" using device_gate_inj assms(2) by blast
  ultimately show ?thesis using assms(1) 1 by (auto simp: sysctl_clock_enable_def)
qed

theorem clock_enable_gates_witness:
  "gate_open (snd (sysctl_clock_enable plain SYSCTL_CLOCK_SPI0 (\<lambda>_. 0))) (0x28, 5)
     \<and> \<not> gate_open (snd (sysctl_clock_enable plain SYSCTL_CLOCK_SPI0 (\<lambda>_. 0))) (0x2c, 7)"
  using clock_enable_gates [of SYSCTL_CLOCK_SPI0 SYSCTL_CLOCK_APB2 "(0x28, 5)" "\<lambda>_. 0"]
    clock_enable_gates [of SYSCTL_CLOCK_SPI0 SYSCTL_CLOCK_SPI1 "(0x2c, 7)" "\<lambda>_. 0"]
  by (simp add: gate_open_def)

section \<open>Functions and pins\<close>

lemma table_ch_sel: "map fst function_config = [0..<256]"
  by (simp add: function_configs upt_rec)

lemma ch_sel: "i < 256 \<Longrightarrow> fst (function_config ! i) = i"
proof -
  assume i: "i < 256"
  have "length function_config = 256" using arg_cong [OF table_ch_sel, of length] by simp
  then show ?thesis using arg_cong [OF table_ch_sel, of "\<lambda>xs. xs ! i"] i by simp
qed

lemma get_put_same: "off + n \<le> LENGTH('w::len) \<Longrightarrow> get_field off n (put_field off n v (w::'w word)) = take_bit n v"
  by (rule bit_word_eqI) (auto simp: get_field_def put_field_def bit_simps)

lemma ch_sel_word: "c < 256 \<Longrightarrow> uint (get_field 0 8 (io_word c a)) = int c"
proof -
  assume c: "c < 256"
  have "uint (get_field 0 8 (io_word c a)) = uint (take_bit 8 (of_nat c :: u32))"
    by (simp only: io_word_def get_put_same) (simp add: get_put_same)
  also have "\<dots> = int c" using c by (simp add: unsigned_take_bit_eq uint_word_of_int flip: uint_nat) (simp add: unsigned_of_nat take_bit_eq_mod)
  finally show ?thesis .
qed

definition assigned :: "(u64 \<Rightarrow> u64) \<Rightarrow> nat \<Rightarrow> int" where
  "assigned h i = uint (get_field 0 8 (ucast (h (io_reg i)) :: u32))"

lemma io_reg_inj: "i < 48 \<Longrightarrow> j < 48 \<Longrightarrow> io_reg i = io_reg j \<longleftrightarrow> i = j"
proof -
  assume ij: "i < 48" "j < 48"
  have u: "unat (4 * of_nat k :: u64) = 4 * k" if "k < 48" for k
  proof -
    have "unat (of_nat (4 * k) :: u64) = 4 * k" using that by (simp only: unsigned_of_nat) (simp add: take_bit_eq_mod)
    then show ?thesis by simp
  qed
  have "io_reg i = io_reg j \<longleftrightarrow> (4 * of_nat i :: u64) = 4 * of_nat j" by (simp add: io_reg_def)
  then show ?thesis using u [OF ij(1)] u [OF ij(2)] by (metis mult_left_cancel zero_neq_numeral)
qed

lemma back32 [simp]: "ucast (ucast (w::u32) :: u64) = w"
  by (rule bit_word_eqI) (auto simp: bit_simps)

lemma filter_one: "n < m \<Longrightarrow> filter (\<lambda>i. i = n) [0..<m] = [n]"
  by (induction m) (auto simp: less_Suc_eq filter_empty_conv)

lemma find_function_plain:
  "fst (find_function plain is f h) = (case filter (\<lambda>i. assigned h i = f) is of [] \<Rightarrow> - 1 | i # _ \<Rightarrow> int i)"
  "snd (find_function plain is f h) = h"
  by (induction "is") (simp_all add: assigned_def)

lemma raw_plain:
  assumes "i < 48" and "0 \<le> f" and "f < 256"
  shows "assigned (snd (fpioa_set_function_raw plain (int i) f h)) i = f"
    and "io_reg j \<noteq> io_reg i \<Longrightarrow> snd (fpioa_set_function_raw plain (int i) f h) (io_reg j) = h (io_reg j)"
proof -
  have "assigned (snd (fpioa_set_function_raw plain (int i) f h)) i = uint (get_field 0 8 (case_prod io_word (function_config ! nat f)))"
    using assms by (simp add: fpioa_set_function_raw_def FPIOA_NUM_IO_def FUNC_MAX_def assigned_def)
  also have "\<dots> = int (fst (function_config ! nat f))"
    using ch_sel [of "nat f"] ch_sel_word [of "fst (function_config ! nat f)" "snd (function_config ! nat f)"] assms by (simp add: split_beta)
  also have "\<dots> = f" using ch_sel [of "nat f"] assms by simp
  finally show "assigned (snd (fpioa_set_function_raw plain (int i) f h)) i = f" .
  show "io_reg j \<noteq> io_reg i \<Longrightarrow> snd (fpioa_set_function_raw plain (int i) f h) (io_reg j) = h (io_reg j)"
    using assms by (simp add: fpioa_set_function_raw_def FPIOA_NUM_IO_def FUNC_MAX_def)
qed

lemma assigned_cong: "h (io_reg i) = h' (io_reg i) \<Longrightarrow> assigned h i = assigned h' i"
  by (simp add: assigned_def)

text \<open>After the loop only the pin itself may have the function; pins without it keep their registers.\<close>

lemma take_function_plain:
  assumes "set is \<subseteq> {..<48}" and "distinct is" and "f \<noteq> 120"
  shows "\<forall>i < 48. if i \<in> set is \<and> assigned h i = f \<and> int i \<noteq> n then assigned (take_function plain is n f h) i = 120
    else take_function plain is n f h (io_reg i) = h (io_reg i)"
  using assms(1,2)
proof (induction "is" arbitrary: h)
  case (Cons j js)
  let ?h = "if assigned h j = f \<and> int j \<noteq> n then snd (fpioa_set_function_raw plain (int j) FUNC_RESV0 h) else h"
  have j: "j < 48" "j \<notin> set js" using Cons.prems by auto
  have eq: "take_function plain (j # js) n f h = take_function plain js n f ?h" by (simp add: assigned_def)
  have R: "assigned (snd (fpioa_set_function_raw plain (int j) FUNC_RESV0 h)) j = 120"
    using raw_plain(1) [OF j(1), of FUNC_RESV0] by (simp add: FUNC_RESV0_def)
  have other: "?h (io_reg i) = h (io_reg i)" if "i < 48" "i \<noteq> j" for i
    using raw_plain(2) [OF j(1), of FUNC_RESV0 i h] io_reg_inj [OF that(1) j(1)] that(2) by (simp add: FUNC_RESV0_def)
  have IH: "\<forall>i < 48. if i \<in> set js \<and> assigned ?h i = f \<and> int i \<noteq> n then assigned (take_function plain js n f ?h) i = 120
    else take_function plain js n f ?h (io_reg i) = ?h (io_reg i)"
    using Cons.prems by (intro Cons.IH) auto
  show ?case
  proof (intro allI impI)
    fix i :: nat assume i: "i < 48"
    note I = IH [rule_format, OF i]
    show "if i \<in> set (j # js) \<and> assigned h i = f \<and> int i \<noteq> n then assigned (take_function plain (j # js) n f h) i = 120
      else take_function plain (j # js) n f h (io_reg i) = h (io_reg i)"
    proof (cases "i = j")
      case True
      then have "take_function plain js n f ?h (io_reg i) = ?h (io_reg i)" using I j(2) by simp
      then show ?thesis unfolding eq using True R assigned_cong [of "take_function plain js n f ?h" i ?h] by (auto split: if_splits)
    next
      case False
      then have "assigned ?h i = assigned h i" using other [OF i] by (intro assigned_cong) simp
      then show ?thesis unfolding eq using I False other [OF i False] by (simp split: if_splits)
    qed
  qed
qed simp

text \<open>C31: after \<^verbatim>\<open>fpioa_set_function\<close> the pin has the function, no other pin has it, \<^verbatim>\<open>fpioa_get_io_by_function\<close> finds the pin, and
  the registers of all pins that did not have the function stay as they were; this rests on the table of the 256
  functions, whose entry for each function selects just this function.\<close>

theorem function_on_one_pin:
  assumes "n < FPIOA_NUM_IO" and "0 \<le> f" and "f < int FUNC_MAX" and "f \<noteq> FUNC_RESV0"
  shows "fst (fpioa_set_function plain (int n) f h) = 0
    \<and> (let h' = snd (fpioa_set_function plain (int n) f h)
       in fpioa_get_io_by_function plain f h' = (int n, h')
        \<and> (\<forall>i < FPIOA_NUM_IO. (assigned h' i = f \<longleftrightarrow> i = n) \<and> (assigned h i \<noteq> f \<and> i \<noteq> n \<longrightarrow> h' (io_reg i) = h (io_reg i))))"
proof -
  have n: "n < 48" and f: "f < 256" "f \<noteq> 120" using assms by (simp_all add: FPIOA_NUM_IO_def FUNC_MAX_def FUNC_RESV0_def)
  let ?t = "take_function plain [0..<FPIOA_NUM_IO] (int n) f h"
  define h' where "h' = snd (fpioa_set_function_raw plain (int n) f ?t)"
  have T: "\<forall>i < 48. if i \<in> set [0..<FPIOA_NUM_IO] \<and> assigned h i = f \<and> int i \<noteq> int n then assigned ?t i = 120 else ?t (io_reg i) = h (io_reg i)"
    by (rule take_function_plain) (use f(2) in \<open>auto simp: FPIOA_NUM_IO_def\<close>)
  have N: "assigned h' n = f" unfolding h'_def by (rule raw_plain(1) [OF n assms(2) f(1)])
  have O: "h' (io_reg i) = ?t (io_reg i)" if "i < 48" "i \<noteq> n" for i
    unfolding h'_def using raw_plain(2) [OF n assms(2) f(1)] io_reg_inj [OF that(1) n] that(2) by blast
  have A: "assigned h' i = f \<longleftrightarrow> i = n" if i: "i < 48" for i
  proof (cases "i = n")
    case False
    then have "assigned h' i = assigned ?t i" using O [OF i] by (intro assigned_cong) simp
    moreover have "assigned ?t i \<noteq> f"
      using T [rule_format, OF i] i False f(2) assigned_cong [of ?t i h] by (auto simp: FPIOA_NUM_IO_def split: if_splits)
    ultimately show ?thesis using False by simp
  qed (simp add: N)
  have K: "h' (io_reg i) = h (io_reg i)" if "i < 48" "assigned h i \<noteq> f" "i \<noteq> n" for i
    using O [OF that(1,3)] T [rule_format, OF that(1)] that(2) by simp
  have "filter (\<lambda>i. assigned h' i = f) [0..<48] = filter (\<lambda>i. i = n) [0..<48]" using A by (intro filter_cong) auto
  also have "\<dots> = [n]" using n by (rule filter_one)
  finally have "fpioa_get_io_by_function plain f h' = (int n, h')"
    using find_function_plain [of "[0..<48]" f h'] by (simp add: fpioa_get_io_by_function_def FPIOA_NUM_IO_def prod_eq_iff)
  moreover have "fpioa_set_function plain (int n) f h = (0, h')"
    using assms n by (simp add: fpioa_set_function_def h'_def Let_def FPIOA_NUM_IO_def FUNC_MAX_def)
  ultimately show ?thesis using A K by (simp add: FPIOA_NUM_IO_def)
qed

theorem function_on_one_pin_witness:
  "(let h' = snd (fpioa_set_function plain 32 31 (\<lambda>_. 31)) in fpioa_get_io_by_function plain 31 h' = (32, h') \<and> assigned h' 7 \<noteq> 31)"
  using function_on_one_pin [of 32 31 "\<lambda>_. 31"] by (simp add: FPIOA_NUM_IO_def FUNC_MAX_def FUNC_RESV0_def Let_def)

section \<open>The error of the frequency\<close>

lemma round_even_error: "\<bar>of_int (round_even x) - x\<bar> \<le> 1 / 2"
proof -
  have "of_int \<lfloor>x\<rfloor> \<le> x" "x < of_int \<lfloor>x\<rfloor> + 1" by linarith+
  then show ?thesis by (simp add: round_even_def Let_def abs_le_iff)
qed

lemma float32_error:
  assumes "1 \<le> x"
  shows "\<bar>float32 x - x\<bar> \<le> x / 2 ^ 24"
proof -
  let ?n = "nat \<lfloor>x\<rfloor>"
  define b where "b = floorlog 2 ?n"
  have n: "0 < ?n" using assms by simp
  have b0: "0 < b" using n by (simp add: b_def floorlog_def)
  have "2 ^ (b - 1) \<le> ?n" using floorlog_bounds [of ?n 2] n by (simp add: b_def)
  then have "(2::rat) ^ (b - 1) \<le> of_nat ?n" by (metis of_nat_le_iff of_nat_numeral of_nat_power)
  also have "\<dots> = of_int \<lfloor>x\<rfloor>" using assms by simp
  also have "\<dots> \<le> x" by simp
  finally have x: "(2::rat) ^ (b - 1) \<le> x" .
  show ?thesis
  proof (cases "b \<le> 24")
    case True
    define s :: rat where "s = 2 ^ (24 - b)"
    have s: "0 < s" "2 ^ (b - 1) * s = 2 ^ 23" using True b0 by (simp_all add: s_def flip: power_add)
    have "\<bar>float32 x - x\<bar> = \<bar>(of_int (round_even (x * s)) - x * s) / s\<bar>"
      using True s(1) by (simp add: float32_def Let_def s_def diff_divide_distrib flip: b_def)
    also have "\<dots> \<le> (1 / 2) / s" using divide_right_mono [OF round_even_error [of "x * s"], of s] s(1) by (simp add: abs_divide)
    also have "\<dots> = 2 ^ (b - 1) / 2 ^ 24" using s by (simp add: field_simps)
    also have "\<dots> \<le> x / 2 ^ 24" using x by (simp add: divide_right_mono)
    finally show ?thesis .
  next
    case False
    define s :: rat where "s = 2 ^ (b - 24)"
    have "b - 1 = 23 + (b - 24)" using False by simp
    then have s: "0 < s" "2 ^ 23 * s = 2 ^ (b - 1)" by (simp_all only: s_def power_add) simp
    have "\<bar>float32 x - x\<bar> = \<bar>(of_int (round_even (x / s)) - x / s) * s\<bar>"
      using False s(1) by (simp add: float32_def Let_def s_def left_diff_distrib flip: b_def)
    also have "\<dots> \<le> (1 / 2) * s" using round_even_error [of "x / s"] s(1) by (simp add: abs_mult mult_right_mono)
    also have "\<dots> = 2 ^ (b - 1) / 2 ^ 24" using s by (simp add: field_simps)
    also have "\<dots> \<le> x / 2 ^ 24" using x by (simp add: divide_right_mono)
    finally show ?thesis .
  qed
qed

lemma float32_step:
  assumes "1 \<le> a" and "\<bar>a - e\<bar> \<le> c * e" and "0 \<le> e" and "0 \<le> c"
  shows "\<bar>float32 a - e\<bar> \<le> (c + (1 + c) / 2 ^ 24) * e"
proof -
  have "a \<le> (1 + c) * e" using assms(2) by (simp add: abs_le_iff algebra_simps)
  then have "a / 2 ^ 24 \<le> ((1 + c) * e) / 2 ^ 24" by (rule divide_right_mono) simp
  then have "\<bar>float32 a - a\<bar> \<le> ((1 + c) * e) / 2 ^ 24" using float32_error [OF assms(1)] by (rule order_trans [rotated])
  then have "\<bar>float32 a - a\<bar> + \<bar>a - e\<bar> \<le> ((1 + c) * e) / 2 ^ 24 + c * e" using assms(2) by linarith
  moreover have "\<bar>float32 a - e\<bar> \<le> \<bar>float32 a - a\<bar> + \<bar>a - e\<bar>" by linarith
  ultimately show ?thesis by (simp add: algebra_simps add_divide_distrib)
qed

lemma near_one: "\<bar>a - e\<bar> \<le> c * e \<Longrightarrow> c \<le> 1 / 2 \<Longrightarrow> 2 \<le> e \<Longrightarrow> 1 \<le> (a :: rat)"
  using mult_right_mono [of c "1 / 2" e] unfolding abs_le_iff by linarith

lemma float_chain:
  fixes F nr nf od :: rat
  assumes "32 \<le> F / nr" and "1 \<le> nf" and "1 \<le> od" and "od \<le> 16"
  shows "\<bar>float32 (float32 (float32 (F / nr) * nf) / od) - F * nf / (nr * od)\<bar> \<le> (F * nf / (nr * od)) / 2 ^ 22"
proof -
  let ?e1 = "F / nr" and ?c1 = "1 / 2 ^ 24 :: rat" and ?c2 = "1 / 2 ^ 24 + (1 + 1 / 2 ^ 24) / 2 ^ 24 :: rat"
  let ?f1 = "float32 ?e1" and ?e2 = "?e1 * nf" let ?f2 = "float32 (?f1 * nf)" and ?e3 = "?e2 / od"
  have e2: "32 \<le> ?e2" using mult_mono [of 32 ?e1 1 nf] assms by simp
  have "2 * od \<le> ?e2" using e2 assms(4) by linarith
  then have e3: "2 \<le> ?e3" using assms(3) by (subst pos_le_divide_eq) linarith+
  have "\<bar>?f1 - ?e1\<bar> \<le> ?c1 * ?e1" using float32_step [of ?e1 ?e1 0] assms(1) by simp
  then have "\<bar>?f1 - ?e1\<bar> * nf \<le> ?c1 * ?e1 * nf" using assms(2) by (intro mult_right_mono) auto
  then have 2: "\<bar>?f1 * nf - ?e2\<bar> \<le> ?c1 * ?e2"
    using assms(2) abs_mult [of "?f1 - ?e1" nf] unfolding left_diff_distrib by (simp only: abs_of_nonneg)
  have "\<bar>?f2 - ?e2\<bar> \<le> ?c2 * ?e2" using float32_step [OF near_one [OF 2] 2] e2 by simp
  then have "\<bar>?f2 - ?e2\<bar> / od \<le> ?c2 * ?e2 / od" using assms(3) by (intro divide_right_mono) auto
  then have 3: "\<bar>?f2 / od - ?e3\<bar> \<le> ?c2 * ?e3" using assms(3) unfolding diff_divide_distrib [symmetric] abs_divide by simp
  have "\<bar>float32 (?f2 / od) - ?e3\<bar> \<le> (?c2 + (1 + ?c2) / 2 ^ 24) * ?e3" using float32_step [OF near_one [OF 3] 3] e3 by simp
  also have "\<dots> \<le> (1 / 2 ^ 22) * ?e3" using e3 by (intro mult_right_mono) simp_all
  finally show ?thesis by simp
qed

lemma float32_in0: "float32 (of_nat (unat SYSCTRL_CLOCK_FREQ_IN0)) = 26000000"
proof -
  have "floorlog 2 26000000 = 25" by (intro antisym floorlog_leI floorlog_geI) simp_all
  then show ?thesis by (simp add: float32_def SYSCTRL_CLOCK_FREQ_IN0_def round_even_def Let_def)
qed

lemma field_count:
  fixes v :: u32
  assumes "n \<le> 6"
  shows "unat (get_field off n v + 1) \<in> {1..2 ^ n}"
proof -
  have l: "unat (get_field off n v) < 2 ^ n" by (simp add: get_field_def unsigned_take_bit_eq)
  have "(2::nat) ^ n \<le> 2 ^ 6" using assms by (intro power_increasing) simp_all
  then have "get_field off n v < 64" using l by (simp add: word_less_nat_alt)
  then show ?thesis using word_succ_less [of "get_field off n v" 64] l by simp
qed

lemma word_of_floor:
  fixes x :: rat
  assumes "0 \<le> x" and "x < 4294967295"
  shows "(of_nat (unat (of_int \<lfloor>x\<rfloor> :: u32)) :: rat) = of_int \<lfloor>x\<rfloor>"
proof -
  have "0 \<le> \<lfloor>x\<rfloor>" "\<lfloor>x\<rfloor> < 2 ^ 32" using assms by (simp_all add: floor_less_iff)
  then have "uint (of_int \<lfloor>x\<rfloor> :: u32) = \<lfloor>x\<rfloor>" by (simp add: uint_word_of_int)
  then have "int (unat (of_int \<lfloor>x\<rfloor> :: u32)) = \<lfloor>x\<rfloor>" by simp
  then show ?thesis by (metis of_int_of_nat_eq)
qed

text \<open>The frequency that \<^verbatim>\<open>sysctl_pll_get_freq\<close> gives for PLL0 is 26 MHz times \<^verbatim>\<open>nf\<close> divided by \<^verbatim>\<open>nr\<close> and \<^verbatim>\<open>od\<close>, with an error of less
  than one part in four millions and one Hertz, for every content of the register.\<close>

lemma pll_frequency_error:
  fixes v :: u32
  defines "nr \<equiv> unat (get_field 0 4 v + 1)" and "nf \<equiv> unat (get_field 4 6 v + 1)" and "od \<equiv> unat (get_field 10 4 v + 1)"
  assumes "ucast (h (SYSCTL_V + 8)) = v"
  shows "\<exists>f. sysctl_pll_get_freq plain SYSCTL_PLL0 h = Some (f, h)
    \<and> \<bar>of_nat (unat f) - 26000000 * of_nat nf / (of_nat nr * of_nat od)\<bar> \<le> (26000000 * of_nat nf / (of_nat nr * of_nat od)) / 2 ^ 22 + (1 :: rat)"
proof -
  have r: "1 \<le> nr" "nr \<le> 16" "1 \<le> nf" "nf \<le> 64" "1 \<le> od" "od \<le> 16"
    using field_count [of 4 0 v] field_count [of 6 4 v] field_count [of 4 10 v] by (simp_all add: nr_def nf_def od_def)
  define q :: rat where "q = 26000000 * of_nat nf / (of_nat nr * of_nat od)"
  define x where "x = float32 (float32 (float32 (26000000 / of_nat nr) * of_nat nf) / of_nat od)"
  have c: "1 \<le> (of_nat nf :: rat)" "1 \<le> (of_nat od :: rat)" "of_nat od \<le> (16 :: rat)" "(of_nat nr :: rat) \<le> 16" "0 < (of_nat nr :: rat)" "of_nat nf \<le> (64 :: rat)"
    using r(1) by (simp_all add: of_nat_mono [OF r(3), where 'a = rat, simplified] of_nat_mono [OF r(5), where 'a = rat, simplified]
      of_nat_mono [OF r(6), where 'a = rat, simplified] of_nat_mono [OF r(2), where 'a = rat, simplified] of_nat_mono [OF r(4), where 'a = rat, simplified])
  have "32 \<le> 26000000 / (of_nat nr :: rat)" using c(4,5) by (simp add: pos_le_divide_eq)
  then have e: "\<bar>x - q\<bar> \<le> q / 2 ^ 22" unfolding x_def q_def by (rule float_chain) (use c in simp_all)
  have p: "1 \<le> (of_nat nr * of_nat od :: rat)" using mult_mono [of 1 "of_nat nr" 1 "of_nat od :: rat"] of_nat_mono [OF r(1), where 'a = rat] c(2) by simp
  have "0 \<le> q" using p c by (simp add: q_def)
  have "q \<le> 26000000 * of_nat nf" unfolding q_def using p c by (subst pos_divide_le_eq) (simp_all add: mult_le_cancel_left1)
  then have "q \<le> 1664000000" using c(6) by linarith
  moreover have "\<bar>x - q\<bar> \<le> q / 4194304" using e by simp
  ultimately have "x < 4294967295" "0 \<le> x" using \<open>0 \<le> q\<close> by linarith+
  then have u: "(of_nat (unat (of_int \<lfloor>x\<rfloor> :: u32)) :: rat) = of_int \<lfloor>x\<rfloor>" by (intro word_of_floor)
  have "\<bar>of_int \<lfloor>x\<rfloor> - x\<bar> \<le> 1" by linarith
  then have b: "\<bar>of_nat (unat (of_int \<lfloor>x\<rfloor> :: u32)) - q\<bar> \<le> q / 2 ^ 22 + 1" using e unfolding u by linarith
  have "sysctl_pll_get_freq plain SYSCTL_PLL0 h = Some (of_int \<lfloor>x\<rfloor>, h)"
    unfolding x_def nr_def nf_def od_def
    by (simp add: sysctl_pll_get_freq_def assms(4) pll_frequency_def float32_in0 [simplified])
  then show ?thesis using b unfolding q_def by blast
qed

end
