(* ===== verification/Spi.thy ===== *)
theory Spi
  imports Device Phys_Mem
begin

text \<open>
  The controllers of the serial bus and of direct memory access (\<^verbatim>\<open>d_spi.c\<close>, \<^verbatim>\<open>d_dmac.c\<close>), over a bus: every access to a
  register, and to the buffers that the DMA controller shares, is one access of the bus, in the order of the code. Buffers
  that only the code sees are lists of bytes with their address. Waiting loops take fuel.

  The theorem: with a queue of 32 entries that loses what is written while it is full, and that drains at its own pace, the loop of
  \<^verbatim>\<open>spi_send_data_normal\<close> hands over the bytes of the buffer in order, each once, and loses none.
\<close>

section \<open>Waiting\<close>

primrec poll :: "nat \<Rightarrow> 'h bus \<Rightarrow> u64 \<Rightarrow> (u64 \<Rightarrow> bool) \<Rightarrow> 'h \<Rightarrow> 'h res" where
  "poll 0 B a P h = Fail Spin_forever"
| "poll (Suc g) B a P h = (let (v, h) = rd B a h in if P v then Ok h else poll g B a P h)"

section \<open>Direct memory access\<close>

definition DMAC_V :: u64 where "DMAC_V = 0x50000000"

definition is_memory :: "u64 \<Rightarrow> bool" where
  "is_memory address \<longleftrightarrow> (address \<ge> 0x80000000 \<and> address < 0x80000000 + 6 * 1024 * 1024)
     \<or> (address \<ge> 0x40000000 \<and> address < 0x40000000 + 8 * 1024 * 1024) \<or> address = 0x50450040"

definition chan_reg :: "nat \<Rightarrow> u64 \<Rightarrow> u64" where
  "chan_reg channel_num off = DMAC_V + 0x100 + 0x100 * of_nat channel_num + off"

definition dmac_read_id :: "'h bus \<Rightarrow> 'h \<Rightarrow> u64 \<times> 'h" where "dmac_read_id B = rd B DMAC_V"
definition dmac_read_version :: "'h bus \<Rightarrow> 'h \<Rightarrow> u64 \<times> 'h" where "dmac_read_version B = rd B (DMAC_V + 8)"
definition dmac_read_channel_id :: "'h bus \<Rightarrow> nat \<Rightarrow> 'h \<Rightarrow> u64 \<times> 'h" where
  "dmac_read_channel_id B n = rd B (chan_reg n 0x58)"

definition dmac_enable :: "'h bus \<Rightarrow> 'h \<Rightarrow> 'h" where
  "dmac_enable B = upd64 B (DMAC_V + 0x10) (\<lambda>v. put_field 1 1 1 (put_field 0 1 1 v))"

definition dmac_disable :: "'h bus \<Rightarrow> 'h \<Rightarrow> 'h" where
  "dmac_disable B = upd64 B (DMAC_V + 0x10) (\<lambda>v. put_field 1 1 0 (put_field 0 1 0 v))"

definition dmac_channel_enable :: "'h bus \<Rightarrow> nat \<Rightarrow> 'h \<Rightarrow> 'h" where
  "dmac_channel_enable B n = upd64 B (DMAC_V + 0x18) (\<lambda>v. if n < 6 then put_field (8 + n) 1 1 (put_field n 1 1 v) else v)"

definition dmac_channel_disable :: "'h bus \<Rightarrow> nat \<Rightarrow> 'h \<Rightarrow> 'h" where
  "dmac_channel_disable B n = upd64 B (DMAC_V + 0x18) (\<lambda>v. if n < 6 then put_field (8 + n) 1 1 (put_field n 1 0 v) else v)"

text \<open>The five error bits of the common registers: 0 to 3 and 8.\<close>

definition set_errors :: "u64 \<Rightarrow> u64" where
  "set_errors v = put_field 8 1 1 (put_field 3 1 1 (put_field 2 1 1 (put_field 1 1 1 (put_field 0 1 1 v))))"

definition dmac_enable_common_interrupt_status :: "'h bus \<Rightarrow> 'h \<Rightarrow> 'h" where
  "dmac_enable_common_interrupt_status B = upd64 B (DMAC_V + 0x40) set_errors"

definition dmac_enable_common_interrupt_signal :: "'h bus \<Rightarrow> 'h \<Rightarrow> 'h" where
  "dmac_enable_common_interrupt_signal B = upd64 B (DMAC_V + 0x48) set_errors"

definition dmac_enable_channel_interrupt :: "'h bus \<Rightarrow> nat \<Rightarrow> 'h \<Rightarrow> 'h" where
  "dmac_enable_channel_interrupt B n h = wr B (chan_reg n 0x80) 2 (wr B (chan_reg n 0x98) 0xffffffff h)"

definition dmac_disable_channel_interrupt :: "'h bus \<Rightarrow> nat \<Rightarrow> 'h \<Rightarrow> 'h" where
  "dmac_disable_channel_interrupt B n = wr B (chan_reg n 0x80) 0"

definition dmac_chanel_interrupt_clear :: "'h bus \<Rightarrow> nat \<Rightarrow> 'h \<Rightarrow> 'h" where
  "dmac_chanel_interrupt_clear B n = wr B (chan_reg n 0x98) 0xffffffff"

definition flow_control :: "bool \<Rightarrow> bool \<Rightarrow> u64" where
  "flow_control mem_src mem_dest = (if \<not> mem_src \<and> \<not> mem_dest then 3 else if mem_src \<and> \<not> mem_dest then 1 else if \<not> mem_src \<and> mem_dest then 2 else 0)"

definition dmac_set_channel_param :: "'h bus \<Rightarrow> nat \<Rightarrow> u64 \<Rightarrow> u64 \<Rightarrow> u64 \<Rightarrow> u64 \<Rightarrow> u64 \<Rightarrow> u64 \<Rightarrow> u32 \<Rightarrow> 'h \<Rightarrow> 'h" where
  "dmac_set_channel_param B n src dest src_inc dest_inc burst width blockSize h =
     (let ms = is_memory src; md = is_memory dest;
          h = upd64 B (chan_reg n 0x20) (\<lambda>v. put_field 2 2 0 (put_field 0 2 0 (put_field 44 4 (of_nat n) (put_field 39 4 (of_nat n)
                (put_field 36 1 (if md then 1 else 0) (put_field 35 1 (if ms then 1 else 0) (put_field 32 3 (flow_control ms md) v))))))) h;
          h = wr B (chan_reg n 0) src h; h = wr B (chan_reg n 8) dest h;
          h = upd64 B (chan_reg n 0x18) (\<lambda>v. put_field 18 4 burst (put_field 14 4 burst (put_field 11 3 width (put_field 8 3 width
                (put_field 6 1 dest_inc (put_field 4 1 src_inc (put_field 2 1 1 (put_field 0 1 0 v)))))))) h
      in wr B (chan_reg n 0x10) (ucast (blockSize - 1)) h)"

definition dmac_is_idle :: "'h bus \<Rightarrow> nat \<Rightarrow> 'h \<Rightarrow> bool \<times> 'h" where
  "dmac_is_idle B n h = (let (v, h) = rd B (DMAC_V + 0x18) h in (\<not> bit v n, h))"

definition dmac_wait_idle :: "nat \<Rightarrow> 'h bus \<Rightarrow> nat \<Rightarrow> 'h \<Rightarrow> 'h res" where
  "dmac_wait_idle g B n h = poll g B (DMAC_V + 0x18) (\<lambda>v. \<not> bit v n) h"

definition dmac_wait_done :: "nat \<Rightarrow> 'h bus \<Rightarrow> nat \<Rightarrow> 'h \<Rightarrow> 'h res" where
  "dmac_wait_done g B n h = dmac_wait_idle g B n h"

definition dmac_is_done :: "'h bus \<Rightarrow> nat \<Rightarrow> 'h \<Rightarrow> int \<times> 'h" where
  "dmac_is_done B n h = (let (v, h) = rd B (chan_reg n 0x88) h in (if v AND 2 \<noteq> 0 then 1 else 0, h))"

definition dmac_set_single_mode :: "nat \<Rightarrow> 'h bus \<Rightarrow> nat \<Rightarrow> u64 \<Rightarrow> u64 \<Rightarrow> u64 \<Rightarrow> u64 \<Rightarrow> u64 \<Rightarrow> u64 \<Rightarrow> u64 \<Rightarrow> 'h \<Rightarrow> 'h res" where
  "dmac_set_single_mode g B n src dest src_inc dest_inc burst width block_size h =
     bind_res (dmac_wait_idle g B n (dmac_channel_disable B n (dmac_chanel_interrupt_clear B n h))) (\<lambda>h.
     let h = dmac_set_channel_param B n src dest src_inc dest_inc burst width (ucast block_size) h
     in Ok (dmac_channel_enable B n (dmac_enable_channel_interrupt B n (dmac_enable B h))))"

definition dmac_init :: "nat \<Rightarrow> 'h bus \<Rightarrow> 'h \<Rightarrow> 'h res" where
  "dmac_init g B h =
     (let h = snd (sysctl_clock_enable B SYSCTL_CLOCK_DMA h); h = upd64 B (DMAC_V + 0x58) (put_field 0 1 1) h
      in bind_res (poll g B (DMAC_V + 0x58) (\<lambda>v. \<not> bit v 0) h) (\<lambda>h.
         let h = upd64 B (DMAC_V + 0x38) set_errors h; h = upd64 B (DMAC_V + 0x10) (\<lambda>v. put_field 1 1 0 (put_field 0 1 0 v)) h
         in bind_res (poll g B (DMAC_V + 0x10) (\<lambda>v. v = 0) h) (\<lambda>h.
            Ok (dmac_enable B (upd64 B (DMAC_V + 0x18) (\<lambda>v. v AND NOT 0xf) h)))))"

section \<open>The serial bus\<close>

definition spi_regs :: "nat \<Rightarrow> u64" where
  "spi_regs n = [0x52000000, 0x53000000, 0x50240000, 0x54000000] ! n"

definition dfs_offset :: "nat \<Rightarrow> nat" where "dfs_offset n = (if n = 0 \<or> n = 1 then 16 else 0)"
definition frf_offset :: "nat \<Rightarrow> nat" where "frf_offset n = (if n = 0 \<or> n = 1 then 21 else if n = 2 then 0 else 22)"
definition work_mode_offset :: "nat \<Rightarrow> nat" where "work_mode_offset n = (if n = 0 \<or> n = 1 then 6 else if n = 2 then 0 else 8)"
definition tmod_offset :: "nat \<Rightarrow> nat" where "tmod_offset n = (if n \<le> 2 then 8 else 10)"

definition spi_init :: "'h bus \<Rightarrow> nat \<Rightarrow> u32 \<Rightarrow> u32 \<Rightarrow> u64 \<Rightarrow> u32 \<Rightarrow> 'h \<Rightarrow> 'h" where
  "spi_init B n work_mode frame_format data_bit_length endian h =
     (let s = spi_regs n; (b, h) = rd32 B (s + 0x14) h; h = (if b = 0 then wr32 B (s + 0x14) 0x14 h else h);
          h = wr32 B (s + 0x4c) 0 (wr32 B (s + 0x2c) 0 h); h = wr32 B (s + 0x54) 0 (wr32 B (s + 0x50) 0x10 h);
          h = wr32 B (s + 8) 0 (wr32 B (s + 0x10) 0 h);
          h = wr32 B s (push_bit (work_mode_offset n) work_mode OR push_bit (frf_offset n) frame_format
                        OR ucast (push_bit (dfs_offset n) (data_bit_length - 1))) h
      in wr32 B (s + 0x118) endian (wr32 B (s + 0xf4) 0 h))"

definition spi_set_tmod :: "'h bus \<Rightarrow> nat \<Rightarrow> u32 \<Rightarrow> 'h \<Rightarrow> 'h" where
  "spi_set_tmod B n tmod h = set_bit_reg B (spi_regs n) (push_bit (tmod_offset n) 3) (push_bit (tmod_offset n) tmod) h"

datatype spi_width = SPI_TRANS_CHAR | SPI_TRANS_SHORT | SPI_TRANS_INT

definition wbytes_of :: "spi_width \<Rightarrow> nat" where
  "wbytes_of w = (case w of SPI_TRANS_CHAR \<Rightarrow> 1 | SPI_TRANS_SHORT \<Rightarrow> 2 | SPI_TRANS_INT \<Rightarrow> 4)"

definition spi_get_frame_size :: "u32 \<Rightarrow> spi_width" where
  "spi_get_frame_size data_bit_length =
     (if data_bit_length < 8 then SPI_TRANS_CHAR else if data_bit_length < 16 then SPI_TRANS_SHORT else SPI_TRANS_INT)"

text \<open>The width that the control register is set to.\<close>

definition frame_width :: "'h bus \<Rightarrow> nat \<Rightarrow> 'h \<Rightarrow> spi_width \<times> 'h" where
  "frame_width B n h = (let (c, h) = rd32 B (spi_regs n) h in (spi_get_frame_size (drop_bit (dfs_offset n) c AND 0x1F), h))"

primrec put_words :: "'h bus \<Rightarrow> u64 \<Rightarrow> u32 list \<Rightarrow> 'h \<Rightarrow> 'h" where
  "put_words B s [] h = h"
| "put_words B s (w # ws) h = put_words B s ws (wr32 B (s + 0x60) w h)"

definition buf_word :: "nat \<Rightarrow> u8 list \<Rightarrow> nat \<Rightarrow> u32" where
  "buf_word k bs i = ucast (le_word (take k (drop i bs)))"

text \<open>
  The words of one round of sending, and the index behind them. The index counts bytes when the buffer is
  misaligned and words when it is not; the local word keeps its upper half when two bytes are copied into it.
\<close>

definition round_words :: "spi_width \<Rightarrow> bool \<Rightarrow> u32 \<Rightarrow> u8 list \<Rightarrow> nat \<Rightarrow> nat \<Rightarrow> u32 list \<times> nat" where
  "round_words w misaligned junk bs i fifo_len =
     (case w of
        SPI_TRANS_INT \<Rightarrow>
          if misaligned then (map (\<lambda>j. buf_word 4 bs (i + 4 * j)) [0..<fifo_len div 4], i + fifo_len)
          else (map (\<lambda>j. buf_word 4 bs (4 * (i + j))) [0..<fifo_len div 4], i + fifo_len div 4)
      | SPI_TRANS_SHORT \<Rightarrow>
          if misaligned then (map (\<lambda>j. (junk AND NOT 0xffff) OR buf_word 2 bs (i + 2 * j)) [0..<fifo_len div 2], i + fifo_len)
          else (map (\<lambda>j. buf_word 2 bs (2 * (i + j))) [0..<fifo_len div 2], i + fifo_len div 2)
      | SPI_TRANS_CHAR \<Rightarrow> (map (\<lambda>j. buf_word 1 bs (i + j)) [0..<fifo_len], i + fifo_len))"

primrec send_loop :: "nat \<Rightarrow> 'h bus \<Rightarrow> u64 \<Rightarrow> spi_width \<Rightarrow> bool \<Rightarrow> u32 \<Rightarrow> u8 list \<Rightarrow> nat \<Rightarrow> nat \<Rightarrow> 'h \<Rightarrow> 'h res" where
  "send_loop 0 B s w misaligned junk bs i tx_len h = Fail Spin_forever"
| "send_loop (Suc g) B s w misaligned junk bs i tx_len h =
     (if tx_len = 0 then Ok h
      else let (v, h) = rd32 B (s + 0x20) h; fifo_len = min (unat (32 - v)) tx_len; fifo_len = fifo_len div wbytes_of w * wbytes_of w;
               (ws, i) = round_words w misaligned junk bs i fifo_len
           in send_loop g B s w misaligned junk bs i (tx_len - fifo_len) (put_words B s ws h))"

definition spi_send_data_normal :: "nat \<Rightarrow> 'h bus \<Rightarrow> u32 \<Rightarrow> nat \<Rightarrow> nat \<Rightarrow> u64 \<Rightarrow> u8 list \<Rightarrow> 'h \<Rightarrow> 'h res" where
  "spi_send_data_normal g B junk n chip_select tx_buff bs h =
     (let s = spi_regs n; h = spi_set_tmod B n 1 h; (w, h) = frame_width B n h;
          misaligned = (unat tx_buff mod wbytes_of w \<noteq> 0);
          h = wr32 B (s + 0x10) (push_bit chip_select 1) (wr32 B (s + 8) 1 h)
      in bind_res (send_loop g B s w misaligned junk bs 0 (length bs) h) (\<lambda>h.
         bind_res (poll g B (s + 0x28) (\<lambda>v. v AND 5 = 4) h) (\<lambda>h. Ok (wr32 B (s + 8) 0 (wr32 B (s + 0x10) 0 h)))))"

text \<open>Command and data are put into one block of the heap, which \<open>v_buf\<close> is the address of.\<close>

definition spi_send_data_standard :: "nat \<Rightarrow> 'h bus \<Rightarrow> u32 \<Rightarrow> u64 \<Rightarrow> nat \<Rightarrow> nat \<Rightarrow> u8 list \<Rightarrow> u8 list \<Rightarrow> 'h \<Rightarrow> 'h res" where
  "spi_send_data_standard g B junk v_buf n chip_select cmd tx h = spi_send_data_normal g B junk n chip_select v_buf (cmd @ tx) h"

section \<open>Receiving\<close>

text \<open>The command, \<open>v_cmd_len\<close> words from index \<open>i\<close> on; the slave is selected after the first words are in the queue.\<close>

primrec cmd_loop :: "nat \<Rightarrow> 'h bus \<Rightarrow> u64 \<Rightarrow> nat \<Rightarrow> nat \<Rightarrow> u8 list \<Rightarrow> nat \<Rightarrow> nat \<Rightarrow> 'h \<Rightarrow> 'h res" where
  "cmd_loop 0 B s chip_select k cmd i v_cmd_len h = Fail Spin_forever"
| "cmd_loop (Suc g) B s chip_select k cmd i v_cmd_len h =
     (if v_cmd_len = 0 then Ok h
      else let (v, h) = rd32 B (s + 0x20) h; fifo_len = min (unat (32 - v)) v_cmd_len;
               h = put_words B s (map (\<lambda>j. buf_word k cmd (k * (i + j))) [0..<fifo_len]) h
           in cmd_loop g B s chip_select k cmd (i + fifo_len) (v_cmd_len - fifo_len) (wr32 B (s + 0x10) (push_bit chip_select 1) h))"

primrec get_words :: "'h bus \<Rightarrow> u64 \<Rightarrow> nat \<Rightarrow> 'h \<Rightarrow> u32 list \<times> 'h" where
  "get_words B s 0 h = ([], h)"
| "get_words B s (Suc n) h = (let (v, h) = rd32 B (s + 0x60) h; (ws, h) = get_words B s n h in (v # ws, h))"

primrec rx_loop :: "nat \<Rightarrow> 'h bus \<Rightarrow> u64 \<Rightarrow> nat \<Rightarrow> 'h \<Rightarrow> (u32 list \<times> 'h) res" where
  "rx_loop 0 B s v_rx_len h = Fail Spin_forever"
| "rx_loop (Suc g) B s v_rx_len h =
     (if v_rx_len = 0 then Ok ([], h)
      else let (v, h) = rd32 B (s + 0x24) h; fifo_len = min (unat v) v_rx_len; (ws, h) = get_words B s fifo_len h
           in bind_res (rx_loop g B s (v_rx_len - fifo_len) h) (\<lambda>(us, h). Ok (ws @ us, h)))"

text \<open>The bytes of the buffer: each word cut to the width.\<close>

definition words_bytes :: "nat \<Rightarrow> u32 list \<Rightarrow> u8 list" where
  "words_bytes k ws = concat (map (\<lambda>w. le_bytes k (ucast w)) ws)"

definition spi_receive_data_standard :: "nat \<Rightarrow> 'h bus \<Rightarrow> nat \<Rightarrow> nat \<Rightarrow> u8 list \<Rightarrow> nat \<Rightarrow> 'h \<Rightarrow> (u8 list \<times> 'h) res" where
  "spi_receive_data_standard g B n chip_select cmd rx_len h =
     (let s = spi_regs n; h = spi_set_tmod B n (if cmd = [] then 2 else 3) h; (w, h) = frame_width B n h; k = wbytes_of w;
          v_rx_len = unat (of_nat (rx_len div k) :: u32);
          h = wr32 B (s + 8) 1 (wr32 B (s + 4) (of_nat v_rx_len - 1) h)
      in bind_res (cmd_loop g B s chip_select k cmd 0 (length cmd div k) h) (\<lambda>h.
         let h = (if cmd = [] then wr32 B (s + 0x10) (push_bit chip_select 1) (wr32 B (s + 0x60) 0xffffffff h) else h)
         in bind_res (rx_loop g B s v_rx_len h) (\<lambda>(ws, h).
            Ok (words_bytes k ws, wr32 B (s + 8) 0 (wr32 B (s + 0x10) 0 h)))))"

section \<open>With direct memory access\<close>

definition spi_get_frame_format :: "'h bus \<Rightarrow> nat \<Rightarrow> 'h \<Rightarrow> u32 \<times> 'h" where
  "spi_get_frame_format B n h = (let (c, h) = rd32 B (spi_regs n) h in (drop_bit (frf_offset n) c AND 3, h))"

text \<open>The buffers are blocks of the heap at the given addresses, arrays of 32-bit words.\<close>

primrec fill_words :: "'h bus \<Rightarrow> u64 \<Rightarrow> u32 list \<Rightarrow> 'h \<Rightarrow> 'h" where
  "fill_words B a [] h = h"
| "fill_words B a (w # ws) h = fill_words B (a + 4) ws (wr32 B a w h)"

primrec load_words :: "'h bus \<Rightarrow> u64 \<Rightarrow> nat \<Rightarrow> 'h \<Rightarrow> u32 list \<times> 'h" where
  "load_words B a 0 h = ([], h)"
| "load_words B a (Suc n) h = (let (v, h) = rd32 B a h; (ws, h) = load_words B (a + 4) n h in (v # ws, h))"

definition bytes_words :: "nat \<Rightarrow> u8 list \<Rightarrow> u32 list" where
  "bytes_words k bs = map (\<lambda>i. buf_word k bs (k * i)) [0..<length bs div k]"

definition spi_receive_data_normal_dma :: "nat \<Rightarrow> 'h bus \<Rightarrow> int \<Rightarrow> nat \<Rightarrow> nat \<Rightarrow> nat \<Rightarrow> u64 \<Rightarrow> nat \<Rightarrow> u64 \<Rightarrow> nat \<Rightarrow> 'h \<Rightarrow> 'h res" where
  "spi_receive_data_normal_dma g B send_chan recv_chan n chip_select cmd_buff cmd_len rx_buff rx_len h =
     (let s = spi_regs n; h = spi_set_tmod B n (if cmd_len = 0 then 2 else 3) h;
          h = wr32 B (s + 8) 1 (wr32 B (s + 0x4c) 3 (wr32 B (s + 4) (of_nat rx_len - 1) h));
          h = (if cmd_len \<noteq> 0 then snd (sysctl_dma_select B send_chan (1 + n * 2) h) else h);
          h = snd (sysctl_dma_select B (int recv_chan) (n * 2) h)
      in bind_res (dmac_set_single_mode g B recv_chan (s + 0x60) rx_buff 1 0 0 2 (of_nat rx_len) h) (\<lambda>h.
         bind_res (if cmd_len \<noteq> 0 then dmac_set_single_mode g B (nat send_chan) cmd_buff (s + 0x60) 0 1 1 2 (of_nat cmd_len) h else Ok h) (\<lambda>h.
         let (f, h) = (if cmd_len = 0 then spi_get_frame_format B n h else (1, h));
             h = (if cmd_len = 0 \<and> f = 0 then wr32 B (s + 0x60) 0xffffffff h else h);
             h = wr32 B (s + 0x10) (push_bit chip_select 1) h
         in bind_res (if cmd_len \<noteq> 0 then dmac_wait_done g B (nat send_chan) h else Ok h) (\<lambda>h.
            bind_res (dmac_wait_done g B recv_chan h) (\<lambda>h. Ok (wr32 B (s + 8) 0 (wr32 B (s + 0x10) 0 h)))))))"

text \<open>With 8 or 16 bits the elements \<open>xs\<close> of the buffer are first spread to the words of the block at \<open>blk\<close>; with 32 bits the buffer is used.\<close>

definition spi_send_data_normal_dma :: "nat \<Rightarrow> 'h bus \<Rightarrow> nat \<Rightarrow> nat \<Rightarrow> nat \<Rightarrow> u64 \<Rightarrow> u32 list \<Rightarrow> u64 \<Rightarrow> nat \<Rightarrow> spi_width \<Rightarrow> 'h \<Rightarrow> 'h res" where
  "spi_send_data_normal_dma g B chan n chip_select tx_buff xs blk tx_len width h =
     (let s = spi_regs n; h = spi_set_tmod B n 1 h;
          (buf, h) = (if width = SPI_TRANS_INT then (tx_buff, h) else (blk, fill_words B blk xs h));
          h = wr32 B (s + 8) 1 (wr32 B (s + 0x4c) 2 h);
          h = snd (sysctl_dma_select B (int chan) (1 + n * 2) h)
      in bind_res (dmac_set_single_mode g B chan buf (s + 0x60) 0 1 1 2 (of_nat tx_len) h) (\<lambda>h.
         let h = wr32 B (s + 0x10) (push_bit chip_select 1) h
         in bind_res (dmac_wait_done g B chan h) (\<lambda>h.
            bind_res (poll g B (s + 0x28) (\<lambda>v. v AND 5 = 4) h) (\<lambda>h. Ok (wr32 B (s + 8) 0 (wr32 B (s + 0x10) 0 h))))))"

definition spi_receive_data_standard_dma :: "nat \<Rightarrow> 'h bus \<Rightarrow> int \<Rightarrow> nat \<Rightarrow> nat \<Rightarrow> nat \<Rightarrow> u8 list \<Rightarrow> u64 \<Rightarrow> nat \<Rightarrow> 'h \<Rightarrow> (u8 list \<times> 'h) res" where
  "spi_receive_data_standard_dma g B send_chan recv_chan n chip_select cmd write_cmd rx_len h =
     (let (w, h) = frame_width B n h; k = wbytes_of w; cs = bytes_words k cmd; h = fill_words B write_cmd cs h;
          read_buf = write_cmd + 4 * of_nat (length cs); v_recv_len = rx_len div k
      in bind_res (spi_receive_data_normal_dma g B send_chan recv_chan n chip_select write_cmd (length cs) read_buf v_recv_len h) (\<lambda>h.
         let (ws, h) = load_words B read_buf v_recv_len h in Ok (words_bytes k ws, h)))"

definition spi_send_data_standard_dma :: "nat \<Rightarrow> 'h bus \<Rightarrow> nat \<Rightarrow> nat \<Rightarrow> nat \<Rightarrow> u8 list \<Rightarrow> u8 list \<Rightarrow> u64 \<Rightarrow> 'h \<Rightarrow> 'h res" where
  "spi_send_data_standard_dma g B chan n chip_select cmd tx buf h =
     (let (w, h) = frame_width B n h; k = wbytes_of w;
          h = fill_words B buf (bytes_words k cmd @ bytes_words k tx) h
      in spi_send_data_normal_dma g B chan n chip_select buf [] 0 ((length cmd + length tx) div k) SPI_TRANS_INT h)"

section \<open>Sending in order\<close>

text \<open>
  What the loop relies on, in the states \<open>P\<close> of the controller. \<open>space\<close> is the number of free entries of the transmit queue. Reading
  the fill level changes nothing that has been accepted and reports at most 32, a full queue; as many entries as it reports free, or more, are free
  afterwards, since the queue drains meanwhile. A write to the data register is accepted, and takes at most one entry, only when an
  entry is free: what happens to a word written to a full queue is left open, and it may be lost. \<open>stall\<close>, at most \<open>slack\<close>, bounds how often
  in a row there can be no room for \<open>k\<close> bytes: it gets smaller whenever the level says so.
\<close>

definition tx_queue :: "'h bus \<Rightarrow> u64 \<Rightarrow> nat \<Rightarrow> ('h \<Rightarrow> bool) \<Rightarrow> (u32 \<Rightarrow> 'e) \<Rightarrow> ('h \<Rightarrow> 'e list) \<Rightarrow> ('h \<Rightarrow> nat) \<Rightarrow> ('h \<Rightarrow> nat) \<Rightarrow> nat \<Rightarrow> bool" where
  "tx_queue B s k P event sent space stall slack \<longleftrightarrow>
     (\<forall>h. P h \<longrightarrow> (let (v, h') = rd32 B (s + 0x20) h
        in P h' \<and> sent h' = sent h \<and> v \<le> 32 \<and> 32 - unat v \<le> space h' \<and> (32 - unat v < k \<longrightarrow> stall h' < stall h)))
     \<and> (\<forall>h w. P h \<longrightarrow> P (wr32 B (s + 0x60) w h)
        \<and> (0 < space h \<longrightarrow> sent (wr32 B (s + 0x60) w h) = sent h @ [event w] \<and> space h \<le> Suc (space (wr32 B (s + 0x60) w h))))
     \<and> (\<forall>h. P h \<longrightarrow> stall h \<le> slack)"

lemma tx_queue_level:
  assumes "tx_queue B s k P event sent space stall slack" and "P h" and "rd32 B (s + 0x20) h = (v, h')"
  shows "P h'" "sent h' = sent h" "v \<le> 32" "32 - unat v \<le> space h'" "32 - unat v < k \<Longrightarrow> stall h' < stall h"
  using assms unfolding tx_queue_def by fastforce+

lemma tx_queue_stall: "tx_queue B s k P event sent space stall slack \<Longrightarrow> P h \<Longrightarrow> stall h \<le> slack"
  by (simp add: tx_queue_def)

text \<open>As many words as there is room for are accepted.\<close>

lemma put_words_sent:
  assumes "tx_queue B s k P event sent space stall slack"
  shows "P h \<Longrightarrow> length ws \<le> space h \<Longrightarrow> P (put_words B s ws h) \<and> sent (put_words B s ws h) = sent h @ map event ws"
proof (induction ws arbitrary: h)
  case (Cons w ws)
  let ?h = "wr32 B (s + 0x60) w h"
  have "P ?h" "sent ?h = sent h @ [event w]" "space h \<le> Suc (space ?h)" using assms Cons.prems unfolding tx_queue_def by simp_all
  then show ?case using Cons.IH [of ?h] Cons.prems by simp
qed simp

text \<open>The words of a buffer, from word \<open>j\<close> to word \<open>n\<close>, as the data register sees them.\<close>

definition sent_word :: "spi_width \<Rightarrow> bool \<Rightarrow> u32 \<Rightarrow> u8 list \<Rightarrow> nat \<Rightarrow> u32" where
  "sent_word w misaligned junk bs j =
     (if w = SPI_TRANS_SHORT \<and> misaligned then (junk AND NOT 0xffff) OR buf_word 2 bs (2 * j) else buf_word (wbytes_of w) bs (wbytes_of w * j))"

text \<open>The index of the code at word \<open>j\<close>.\<close>

definition word_index :: "spi_width \<Rightarrow> bool \<Rightarrow> nat \<Rightarrow> nat" where
  "word_index w misaligned j = (if misaligned then wbytes_of w * j else j)"

lemma round_words_sent:
  "round_words w mis junk bs (word_index w mis j) (wbytes_of w * n) = (map (sent_word w mis junk bs) [j..<j + n], word_index w mis (j + n))"
proof -
  have "map (sent_word w mis junk bs) [j..<j + n] = map (\<lambda>i. sent_word w mis junk bs (j + i)) [0..<n]"
    by (intro nth_equalityI) simp_all
  then show ?thesis
    by (cases w; cases mis) (simp_all add: round_words_def wbytes_of_def word_index_def sent_word_def algebra_simps)
qed

lemma send_round:
  assumes q: "tx_queue B s (wbytes_of w) P event sent space stall slack" and P: "P h" and n: "0 < n"
  shows "\<exists>m h'. m \<le> n \<and> P h' \<and> sent h' = sent h @ map (\<lambda>i. event (sent_word w mis junk bs i)) [j..<j + m]
    \<and> (n - m) * (slack + 1) + stall h' < n * (slack + 1) + stall h
    \<and> send_loop (Suc g) B s w mis junk bs (word_index w mis j) (wbytes_of w * n) h
      = send_loop g B s w mis junk bs (word_index w mis (j + m)) (wbytes_of w * (n - m)) h'"
proof -
  let ?k = "wbytes_of w"
  obtain v h1 where v: "rd32 B (s + 0x20) h = (v, h1)" by (cases "rd32 B (s + 0x20) h")
  note L = tx_queue_level [OF q P v]
  have r: "unat (32 - v) = 32 - unat v" using L(3) by (subst unat_sub) (simp_all add: word_le_nat_alt)
  define m where "m = min (unat (32 - v)) (?k * n) div ?k"
  have k: "0 < ?k" by (cases w; simp add: wbytes_of_def)
  have mn: "m \<le> n" unfolding m_def using k div_le_mono [of "min (unat (32 - v)) (?k * n)" "?k * n" ?k] by simp
  have "m \<le> min (unat (32 - v)) (?k * n)" unfolding m_def by (rule div_le_dividend)
  then have room: "m \<le> space h1" using L(4) r by simp
  let ?h = "put_words B s (map (sent_word w mis junk bs) [j..<j + m]) h1"
  have h: "P ?h" "sent ?h = sent h @ map (\<lambda>i. event (sent_word w mis junk bs i)) [j..<j + m]"
    using put_words_sent [OF q L(1), of "map (sent_word w mis junk bs) [j..<j + m]"] L(2) room by simp_all
  have less: "(n - m) * (slack + 1) + stall ?h < n * (slack + 1) + stall h"
  proof (cases "m = 0")
    case True
    then have "min (unat (32 - v)) (?k * n) < ?k" using k by (simp add: m_def div_eq_0_iff)
    then have "32 - unat v < ?k" using n r by (simp add: min_less_iff_disj)
    then show ?thesis using L(5) True by simp
  next
    case False
    then have "(n - m) * (slack + 1) \<le> (n - 1) * (slack + 1)" by (intro mult_right_mono) simp_all
    moreover have "(n - 1) * (slack + 1) + (slack + 1) = n * (slack + 1)" using n by (cases n) simp_all
    ultimately show ?thesis using tx_queue_stall [OF q h(1)] by linarith
  qed
  have e: "?k * n - ?k * m = ?k * (n - m)" by (simp add: diff_mult_distrib2)
  have c: "min (unat (32 - v)) (?k * n) div ?k * ?k = ?k * m" by (simp add: m_def mult.commute)
  have "send_loop (Suc g) B s w mis junk bs (word_index w mis j) (?k * n) h
      = send_loop g B s w mis junk bs (word_index w mis (j + m)) (?k * (n - m)) ?h"
    using n k v round_words_sent [of w mis junk bs j m] by (simp add: Let_def c flip: e)
  then show ?thesis using mn h less by blast
qed

lemma send_loop_ok:
  assumes q: "tx_queue B s (wbytes_of w) P event sent space stall slack" and "n * (slack + 1) + stall h < g" and "P h"
  shows "\<exists>h'. send_loop g B s w mis junk bs (word_index w mis j) (wbytes_of w * n) h = Ok h' \<and> P h'
    \<and> sent h' = sent h @ map (\<lambda>i. event (sent_word w mis junk bs i)) [j..<j + n]"
  using assms(2,3)
proof (induction g arbitrary: j n h)
  case (Suc g)
  show ?case
  proof (cases "n = 0")
    case False
    then obtain m h1 where m: "m \<le> n" "P h1" "sent h1 = sent h @ map (\<lambda>i. event (sent_word w mis junk bs i)) [j..<j + m]"
      "(n - m) * (slack + 1) + stall h1 < n * (slack + 1) + stall h"
      "send_loop (Suc g) B s w mis junk bs (word_index w mis j) (wbytes_of w * n) h
        = send_loop g B s w mis junk bs (word_index w mis (j + m)) (wbytes_of w * (n - m)) h1"
      using send_round [OF q Suc.prems(2)] by blast
    have "(n - m) * (slack + 1) + stall h1 < g" using m(4) Suc.prems(1) by linarith
    from Suc.IH [OF this m(2), of "j + m"] obtain h' where
      "send_loop g B s w mis junk bs (word_index w mis (j + m)) (wbytes_of w * (n - m)) h1 = Ok h'" "P h'"
      "sent h' = sent h1 @ map (\<lambda>i. event (sent_word w mis junk bs i)) [j + m..<j + m + (n - m)]"
      by blast
    moreover have "[j..<j + n] = [j..<j + m] @ [j + m..<j + m + (n - m)]" using upt_add_eq_append [of j "j + m" "n - m"] m(1) by simp
    ultimately show ?thesis using m(3,5) by simp
  qed (use Suc.prems in simp)
qed simp

text \<open>C13: with a transmit queue of 32 entries, at any fill level, a full queue included, which drains at any pace and loses what is
  written to it while it is full, and whether or not the buffer is aligned, the loop of \<^verbatim>\<open>spi_send_data_normal\<close> ends and the queue has
  accepted the words of the buffer, in order, each once, and no other; with 16 bits and a misaligned buffer the upper half of each word is what the
  local variable held before. The loop takes at most \<open>slack\<close> rounds without room between two rounds that hand over a word, where \<open>slack\<close> is the
  bound on how often in a row the queue has no room for a word.\<close>

theorem spi_send_in_order:
  assumes "tx_queue B s (wbytes_of w) P event sent space stall slack" and "P h" and "length bs = wbytes_of w * n"
    and "n * (slack + 1) + stall h < g"
  shows "\<exists>h'. send_loop g B s w misaligned junk bs 0 (length bs) h = Ok h' \<and> P h'
    \<and> sent h' = sent h @ map (\<lambda>j. event (if w = SPI_TRANS_SHORT \<and> misaligned then (junk AND NOT 0xffff) OR buf_word 2 bs (2 * j)
        else buf_word (wbytes_of w) bs (wbytes_of w * j))) [0..<n]"
proof -
  have "word_index w misaligned 0 = 0" by (simp add: word_index_def)
  then show ?thesis using send_loop_ok [OF assms(1,4,2), of misaligned junk bs 0] unfolding assms(3) by (simp add: sent_word_def [abs_def])
qed

text \<open>
  A controller with a queue of 32 entries: what it has accepted, and how many entries are taken. A word written to the full queue is lost,
  and one entry is sent out whenever the level is read.
\<close>

definition queue_bus :: "(u32 list \<times> nat) bus" where
  "queue_bus = \<lparr>rd = (\<lambda>a (l, q). if a = 0x52000020 then (of_nat (min 32 q), (l, min 32 q - 1)) else (0, (l, q))),
     wr = (\<lambda>a w (l, q). if a = 0x52000060 \<and> q < 32 then (l @ [ucast w], Suc q) else (l, q))\<rparr>"

lemma queue_bus_ok: "tx_queue queue_bus 0x52000000 4 (\<lambda>_. True) id fst (\<lambda>(l, q). 32 - q) (\<lambda>(l, q). min 32 q - 28) 4"
proof -
  have "unat (of_nat (min 32 q) :: u32) = min 32 q" for q by (simp add: unsigned_of_nat take_bit_eq_mod)
  moreover have "(ucast (of_nat (min 32 q) :: u64) :: u32) = of_nat (min 32 q)" for q by (simp add: unsigned_of_nat take_bit_eq_mod)
  ultimately show ?thesis by (auto simp: tx_queue_def queue_bus_def rd32_def wr32_def word_le_nat_alt)
qed

text \<open>The queue is full at the beginning.\<close>

theorem spi_send_in_order_witness:
  "let bs = [1, 2, 3, 4, 5, 6, 7, 8]
   in \<exists>h'. send_loop 20 queue_bus 0x52000000 SPI_TRANS_INT True 0 bs 0 (length bs) ([], 32) = Ok h' \<and> fst h' = [0x4030201, 0x8070605]"
proof -
  have "tx_queue queue_bus 0x52000000 (wbytes_of SPI_TRANS_INT) (\<lambda>_. True) id fst (\<lambda>(l, q). 32 - q) (\<lambda>(l, q). min 32 q - 28) 4"
    using queue_bus_ok by (simp add: wbytes_of_def)
  from spi_send_in_order [OF this, where bs = "[1, 2, 3, 4, 5, 6, 7, 8]" and n = 2 and g = 20 and h = "([], 32)" and misaligned = True and junk = 0]
  show ?thesis by (simp add: Let_def wbytes_of_def buf_word_def upt_rec)
qed

text \<open>With 16 or 32 bits and a length that is no multiple of the word, the loop never ends.\<close>

lemma send_loop_spins:
  assumes "\<And>h. fst (rd32 B (s + 0x20) h) \<le> 32" and "0 < r" and "r < wbytes_of w"
  shows "send_loop g B s w mis junk bs i r h = Fail Spin_forever"
proof (induction g arbitrary: h i)
  case (Suc g)
  obtain v h1 where v: "rd32 B (s + 0x20) h = (v, h1)" by (cases "rd32 B (s + 0x20) h")
  have "min (unat (32 - v)) r div wbytes_of w = 0" using assms(3) by simp
  moreover have "round_words w mis junk bs i 0 = ([], i)" by (cases w) (simp_all add: round_words_def)
  ultimately show ?case using Suc.IH assms(2) v by (simp add: Let_def)
qed simp

end
