(* ===== verification/Sdcard.thy ===== *)
theory Sdcard
  imports Spi Semaphore
begin

text \<open>
  The driver of the SD card (\<^verbatim>\<open>d_sdcard.c\<close>) over the serial bus: commands and responses, the initialisation of the card,
  reading and writing a sector, and the start of the devices in \<^verbatim>\<open>main\<close>. The bus, the fuel of the waiting loops, the address of
  the block that the heap gives to each transfer and the local word of \<^verbatim>\<open>spi_send_data_normal\<close> are the record \<open>sd_env\<close>. The
  messages printed on a failure are not part of the model; an array filled by the card is the list of its bytes. The
  theorems are in \<open>Sd_Wire\<close>.
\<close>

section \<open>The wire\<close>

record 'h sd_env =
  sbus :: "'h bus"
  sfuel :: nat
  sblock :: u64
  sjunk :: u32

definition SD_CS_HIGH :: "'h sd_env \<Rightarrow> 'h \<Rightarrow> 'h" where
  "SD_CS_HIGH E = gpiohs_set_pin (sbus E) 7 1"

definition SD_CS_LOW :: "'h sd_env \<Rightarrow> 'h \<Rightarrow> 'h" where
  "SD_CS_LOW E = gpiohs_set_pin (sbus E) 7 0"

definition sd_lowlevel_init :: "'h sd_env \<Rightarrow> 'h \<Rightarrow> 'h" where
  "sd_lowlevel_init E = gpiohs_set_drive_mode (sbus E) 7 GPIO_DM_OUTPUT"

definition sd_write_data :: "'h sd_env \<Rightarrow> u8 list \<Rightarrow> 'h \<Rightarrow> 'h res" where
  "sd_write_data E data h =
     spi_send_data_standard (sfuel E) (sbus E) (sjunk E) (sblock E) 0 3 [] data (spi_init (sbus E) 0 0 0 8 0 h)"

definition sd_read_data :: "'h sd_env \<Rightarrow> nat \<Rightarrow> 'h \<Rightarrow> (u8 list \<times> 'h) res" where
  "sd_read_data E n h = spi_receive_data_standard (sfuel E) (sbus E) 0 3 [] n (spi_init (sbus E) 0 0 0 8 0 h)"

definition sd_write_data_dma :: "'h sd_env \<Rightarrow> u8 list \<Rightarrow> 'h \<Rightarrow> 'h res" where
  "sd_write_data_dma E data h = spi_send_data_standard_dma (sfuel E) (sbus E) 0 0 3 [] data (sblock E) (spi_init (sbus E) 0 0 0 8 0 h)"

definition sd_read_data_dma :: "'h sd_env \<Rightarrow> nat \<Rightarrow> 'h \<Rightarrow> (u8 list \<times> 'h) res" where
  "sd_read_data_dma E n h =
     spi_receive_data_standard_dma (sfuel E) (sbus E) (- 1) 0 0 3 [] (sblock E) n (spi_init (sbus E) 0 0 0 8 0 h)"

section \<open>Commands and responses\<close>

definition cmd_frame :: "u8 \<Rightarrow> u32 \<Rightarrow> u8 \<Rightarrow> u8 list" where
  "cmd_frame cmd arg crc = [cmd OR 0x40, ucast (drop_bit 24 arg), ucast (drop_bit 16 arg), ucast (drop_bit 8 arg), ucast arg, crc]"

definition sd_send_cmd :: "'h sd_env \<Rightarrow> u8 \<Rightarrow> u32 \<Rightarrow> u8 \<Rightarrow> 'h \<Rightarrow> 'h res" where
  "sd_send_cmd E cmd arg crc h = sd_write_data E (cmd_frame cmd arg crc) (SD_CS_LOW E h)"

definition sd_end_cmd :: "'h sd_env \<Rightarrow> 'h \<Rightarrow> 'h res" where
  "sd_end_cmd E h = sd_write_data E [0xff] (SD_CS_HIGH E h)"

primrec response_loop :: "nat \<Rightarrow> 'h sd_env \<Rightarrow> 'h \<Rightarrow> (u8 \<times> 'h) res" where
  "response_loop 0 E h = Ok (0xff, h)"
| "response_loop (Suc timeout) E h =
     bind_res (sd_read_data E 1 h) (\<lambda>(r, h). if hd r \<noteq> 0xff then Ok (hd r, h) else response_loop timeout E h)"

definition sd_get_response_R1 :: "'h sd_env \<Rightarrow> 'h \<Rightarrow> (u8 \<times> 'h) res" where
  "sd_get_response_R1 E h = response_loop 0xff E h"

definition sd_get_response_R3_rest :: "'h sd_env \<Rightarrow> 'h \<Rightarrow> (u8 list \<times> 'h) res" where
  "sd_get_response_R3_rest E h = sd_read_data E 4 h"

definition sd_get_response_R7_rest :: "'h sd_env \<Rightarrow> 'h \<Rightarrow> (u8 list \<times> 'h) res" where
  "sd_get_response_R7_rest E h = sd_read_data E 4 h"

text \<open>A command with a response of one byte, as all the loops below send it.\<close>

definition command_R1 :: "'h sd_env \<Rightarrow> u8 \<Rightarrow> u32 \<Rightarrow> u8 \<Rightarrow> 'h \<Rightarrow> (u8 \<times> 'h) res" where
  "command_R1 E cmd arg crc h =
     bind_res (sd_send_cmd E cmd arg crc h) (\<lambda>h. bind_res (sd_get_response_R1 E h) (\<lambda>(r, h). bind_res (sd_end_cmd E h) (\<lambda>h. Ok (r, h))))"

section \<open>Initialisation\<close>

text \<open>A loop \<^verbatim>\<open>while (--timeout)\<close> that starts at \<open>n + 1\<close> makes \<open>n\<close> rounds and fails after the last.\<close>

primrec switch_loop :: "nat \<Rightarrow> 'h sd_env \<Rightarrow> 'h \<Rightarrow> (int \<times> 'h) res" where
  "switch_loop 0 E h = Ok (0xff, h)"
| "switch_loop (Suc n) E h = bind_res (command_R1 E 0 0 0x95 h) (\<lambda>(r, h). if r = 1 then Ok (0, h) else switch_loop n E h)"

definition switch_to_SPI_mode :: "'h sd_env \<Rightarrow> 'h \<Rightarrow> (int \<times> 'h) res" where
  "switch_to_SPI_mode E h = switch_loop 0xfe E h"

definition verify_operation_condition :: "'h sd_env \<Rightarrow> 'h \<Rightarrow> (int \<times> 'h) res" where
  "verify_operation_condition E h =
     bind_res (sd_send_cmd E 8 0x01aa 0x87 h) (\<lambda>h.
     bind_res (sd_get_response_R1 E h) (\<lambda>(result, h).
     bind_res (sd_get_response_R7_rest E h) (\<lambda>(frame, h).
     bind_res (sd_end_cmd E h) (\<lambda>h.
     Ok (if result = 0x09 then 0xff
         else if result = 1 \<and> frame ! 2 AND 0x0f = 1 \<and> frame ! 3 = 0xaa then 0 else 0xff, h)))))"

primrec ocr_loop :: "nat \<Rightarrow> 'h sd_env \<Rightarrow> 'h \<Rightarrow> (int \<times> 'h) res" where
  "ocr_loop 0 E h = Ok (0xff, h)"
| "ocr_loop (Suc n) E h =
     bind_res (sd_send_cmd E 58 0 0 h) (\<lambda>h.
     bind_res (sd_get_response_R1 E h) (\<lambda>(result, h).
     bind_res (sd_get_response_R3_rest E h) (\<lambda>(ocr, h).
     bind_res (sd_end_cmd E h) (\<lambda>h.
     if result = 1 \<and> ocr ! 1 AND 0x1f \<noteq> 0 \<and> ocr ! 2 AND 0x80 \<noteq> 0 then Ok (0, h) else ocr_loop n E h))))"

definition read_OCR :: "'h sd_env \<Rightarrow> 'h \<Rightarrow> (int \<times> 'h) res" where
  "read_OCR E h = ocr_loop 0xfe E h"

primrec capacity_loop :: "nat \<Rightarrow> 'h sd_env \<Rightarrow> 'h \<Rightarrow> (int \<times> 'h) res" where
  "capacity_loop 0 E h = Ok (0xff, h)"
| "capacity_loop (Suc n) E h =
     bind_res (command_R1 E 55 0 0 h) (\<lambda>(r, h).
     if r \<noteq> 1 then Ok (0xff, h)
     else bind_res (command_R1 E 41 0x40000000 0 h) (\<lambda>(r, h). if r = 0 then Ok (0, h) else capacity_loop n E h))"

definition set_SDXC_capacity :: "'h sd_env \<Rightarrow> 'h \<Rightarrow> (int \<times> 'h) res" where
  "set_SDXC_capacity E h = capacity_loop 0xffe E h"

text \<open>The inner loop of \<^verbatim>\<open>check_block_size\<close>, and the outer one, which also says whether the card is of the first type.\<close>

primrec block_loop :: "nat \<Rightarrow> 'h sd_env \<Rightarrow> 'h \<Rightarrow> (bool \<times> 'h) res" where
  "block_loop 0 E h = Ok (False, h)"
| "block_loop (Suc n) E h = bind_res (command_R1 E 16 512 0 h) (\<lambda>(r, h). if r = 0 then Ok (True, h) else block_loop n E h)"

primrec check_loop :: "nat \<Rightarrow> 'h sd_env \<Rightarrow> bool \<times> 'h \<Rightarrow> (int \<times> bool \<times> 'h) res" where
  "check_loop 0 E sh = Ok (0xff, sh)"
| "check_loop (Suc n) E sh =
     bind_res (sd_send_cmd E 58 0 0 (snd sh)) (\<lambda>h.
     bind_res (sd_get_response_R1 E h) (\<lambda>(result, h).
     bind_res (sd_get_response_R3_rest E h) (\<lambda>(ocr, h).
     bind_res (sd_end_cmd E h) (\<lambda>h.
     if result = 0 then
       if ocr ! 0 AND 0x40 \<noteq> 0 then Ok (0, False, h)
       else bind_res (block_loop 0xfe E h) (\<lambda>(done, h). if done then Ok (0, True, h) else Ok (0xff, fst sh, h))
     else check_loop n E (fst sh, h)))))"

definition check_block_size :: "'h sd_env \<Rightarrow> bool \<times> 'h \<Rightarrow> (int \<times> bool \<times> 'h) res" where
  "check_block_size E sh = check_loop 0xff E sh"

definition sd_init :: "'h sd_env \<Rightarrow> bool \<times> 'h \<Rightarrow> (int \<times> bool \<times> 'h) res" where
  "sd_init E sh =
     (let standard = fst sh in
      bind_res (sd_write_data E (replicate 10 0xff) (SD_CS_LOW E (sd_lowlevel_init E (snd sh)))) (\<lambda>h.
      bind_res (switch_to_SPI_mode E h) (\<lambda>(r, h). if r \<noteq> 0 then Ok (0xff, standard, h) else
      bind_res (verify_operation_condition E h) (\<lambda>(r, h). if r \<noteq> 0 then Ok (0xff, standard, h) else
      bind_res (read_OCR E h) (\<lambda>(r, h). if r \<noteq> 0 then Ok (0xff, standard, h) else
      bind_res (set_SDXC_capacity E h) (\<lambda>(r, h). if r \<noteq> 0 then Ok (0xff, standard, h) else
      bind_res (check_block_size E (standard, h)) (\<lambda>(r, sh). if r \<noteq> 0 then Ok (0xff, sh) else Ok (0, sh))))))))"

section \<open>Sectors\<close>

record 'h sdcard =
  sd_dev :: 'h
  is_standard_sd :: bool
  sdcard_lock :: semaphore

text \<open>\<open>pid\<close> is the identifier that \<^verbatim>\<open>sem_init\<close> finds in its structure.\<close>

definition sdcard_init :: "'h sd_env \<Rightarrow> u64 \<Rightarrow> bool \<times> 'h \<Rightarrow> 'h sdcard res" where
  "sdcard_init E pid sh =
     bind_res (sd_init E sh) (\<lambda>(result, standard, h).
     if result \<noteq> 0 then Fail (Panic ''sdcard_init failed'')
     else Ok \<lparr>sd_dev = h, is_standard_sd = standard, sdcard_lock = sem_init 1 pid\<rparr>)"

definition sector_address :: "'h sdcard \<Rightarrow> u32 \<Rightarrow> u32" where
  "sector_address s sectorno = (if is_standard_sd s then push_bit 9 sectorno else sectorno)"

text \<open>Bytes are read until one of them is wanted; no result when there are no rounds left.\<close>

primrec wait_byte :: "nat \<Rightarrow> (u8 \<Rightarrow> bool) \<Rightarrow> 'h sd_env \<Rightarrow> 'h \<Rightarrow> (bool \<times> 'h) res" where
  "wait_byte 0 wanted E h = Ok (False, h)"
| "wait_byte (Suc n) wanted E h =
     bind_res (sd_read_data E 1 h) (\<lambda>(r, h). if wanted (hd r) then Ok (True, h) else wait_byte n wanted E h)"

definition sdcard_read_sector :: "'h sd_env \<Rightarrow> u64 option \<Rightarrow> 'h sdcard \<Rightarrow> u32 \<Rightarrow> (u8 list \<times> nat list \<times> 'h sdcard) res" where
  "sdcard_read_sector E me s sectorno =
     bind_res (sem_wait me (sdcard_lock s)) (\<lambda>lk.
     bind_res (sd_send_cmd E 17 (sector_address s sectorno) 0 (sd_dev s)) (\<lambda>h.
     bind_res (sd_get_response_R1 E h) (\<lambda>(result, h).
     if result \<noteq> 0 then bind_res (sem_signal lk) (\<lambda>_. Fail (Panic ''sdcard: fail to read''))
     else
       bind_res (wait_byte 0xfffffe (\<lambda>b. b = 0xfe) E h) (\<lambda>(found, h).
       if \<not> found then Fail (Panic ''sdcard: timeout waiting for reading'')
       else
         bind_res (sd_read_data_dma E 512 h) (\<lambda>(buf, h).
         bind_res (sd_read_data E 2 h) (\<lambda>(crc, h).
         bind_res (sd_end_cmd E h) (\<lambda>h.
         bind_res (sem_signal lk) (\<lambda>(woken, lk). Ok (buf, woken, s\<lparr>sd_dev := h, sdcard_lock := lk\<rparr>)))))))))"

definition sdcard_write_sector :: "'h sd_env \<Rightarrow> u64 option \<Rightarrow> 'h sdcard \<Rightarrow> u8 list \<Rightarrow> u32 \<Rightarrow> (nat list \<times> 'h sdcard) res" where
  "sdcard_write_sector E me s buf sectorno =
     bind_res (sem_wait me (sdcard_lock s)) (\<lambda>lk.
     let failed = \<lambda>msg. bind_res (sem_signal lk) (\<lambda>_. Fail (Panic msg)) in
     bind_res (sd_send_cmd E 24 (sector_address s sectorno) 0 (sd_dev s)) (\<lambda>h.
     bind_res (sd_get_response_R1 E h) (\<lambda>(r, h).
     if r \<noteq> 0 then failed ''sdcard: fail to write''
     else
       bind_res (sd_write_data E [0xfe] h) (\<lambda>h.
       bind_res (sd_write_data_dma E buf h) (\<lambda>h.
       bind_res (sd_write_data E [0xff, 0xff] h) (\<lambda>h.
       bind_res (wait_byte 0xffe (\<lambda>b. b AND 0x1f = 5) E h) (\<lambda>(found, h).
       if \<not> found then failed ''sdcard: invalid response token''
       else
         bind_res (wait_byte 0xfffffe (\<lambda>b. b \<noteq> 0) E h) (\<lambda>(found, h).
         if \<not> found then failed ''sdcard: timeout waiting for response''
         else
           bind_res (sd_end_cmd E h) (\<lambda>h.
           bind_res (sd_send_cmd E 13 0 0 h) (\<lambda>h.
           bind_res (sd_get_response_R1 E h) (\<lambda>(result, h).
           bind_res (sd_read_data E 1 h) (\<lambda>(error_code, h).
           bind_res (sd_end_cmd E h) (\<lambda>h.
           if result \<noteq> 0 \<or> hd error_code \<noteq> 0 then failed ''sdcard: an error occurs when writing''
           else bind_res (sem_signal lk) (\<lambda>(woken, lk). Ok (woken, s\<lparr>sd_dev := h, sdcard_lock := lk\<rparr>)))))))))))))))"

section \<open>Starting the devices\<close>

text \<open>What \<^verbatim>\<open>main\<close> does to the devices before the file system starts: the clock of the third memory bank, the pins of the card, the DMA
  controller and, first in \<^verbatim>\<open>disk_init\<close>, the card.\<close>

definition start_devices :: "'h sd_env \<Rightarrow> u64 \<Rightarrow> bool \<times> 'h \<Rightarrow> 'h sdcard res" where
  "start_devices E pid sh =
     (let B = sbus E; h = snd (sysctl_pll_enable B SYSCTL_PLL1 (snd sh)); h = snd (sysctl_clock_enable B SYSCTL_CLOCK_PLL1 h);
          h = fpioa_pin_init B h
      in bind_res (dmac_init (sfuel E) B h) (\<lambda>h. sdcard_init E pid (fst sh, h)))"

end
