(* ===== verification/Sd_Wire.thy ===== *)
theory Sd_Wire
  imports Sdcard
begin

text \<open>
  What the driver of the card puts on the wire and reads from it. The hardware is described by the locale \<open>sd_controller\<close>:
  the registers, what has passed over the wire, and whether a transfer of the DMA controller is under way. The card
  is a function from what has passed over the wire to the next byte it sends. Inside the locale every operation of the driver
  is described by the wire before and after it; \<open>sd_hw_env\<close> is a bus that behaves like that, on which the locale is interpreted.
  The theorems say which bytes reading and writing a sector exchange with the card, for every card and every timing.
\<close>

section \<open>The hardware\<close>

text \<open>What passes over the wire: the select line, a byte to the card, a byte from the card.\<close>

datatype wire = Cs bool | Out u8 | In u8

text \<open>The bytes that the card sends when \<open>n\<close> bytes are read after \<open>l\<close>.\<close>

primrec wire_read :: "(wire list \<Rightarrow> u8) \<Rightarrow> wire list \<Rightarrow> nat \<Rightarrow> u8 list" where
  "wire_read reply l 0 = []"
| "wire_read reply l (Suc n) = reply l # wire_read reply (l @ [In (reply l)]) n"

lemma wire_read_add: "wire_read f l (m + n) = wire_read f l m @ wire_read f (l @ map In (wire_read f l m)) n"
  by (induction m arbitrary: l) simp_all

lemma length_wire_read [simp]: "length (wire_read f l n) = n"
  by (induction n arbitrary: l) simp_all

lemma byte_casts [simp]:
  "(ucast (ucast (b :: u8) :: u64) :: u8) = b" "(ucast (ucast (v :: u64) :: u32) :: u8) = ucast v" "(ucast (ucast (w :: u32) :: u64) :: u8) = ucast w"
  by (rule bit_word_eqI; auto simp: bit_simps)+

text \<open>The registers that hold what is written: the mode of the first serial controller, and whether the card is selected there.\<close>

definition tmod_of :: "(u64 \<Rightarrow> u64) \<Rightarrow> u64" where
  "tmod_of R = get_field 8 2 (R 0x52000000)"

definition selected :: "(u64 \<Rightarrow> u64) \<Rightarrow> bool" where
  "selected R \<longleftrightarrow> R 0x52000008 = 1 \<and> R 0x52000010 = 8"

text \<open>A program of channel 0 of the DMA controller: from \<open>src\<close>, \<open>dest\<close> words of 32 bits, \<open>n\<close> of them, with the direction \<open>fc\<close>, the request line \<open>req\<close>
  and the address that stays (1) or counts (0).\<close>

definition dma_program :: "(u64 \<Rightarrow> u64) \<Rightarrow> u64 \<Rightarrow> u64 \<Rightarrow> nat \<Rightarrow> u64 \<Rightarrow> u64 \<Rightarrow> bool" where
  "dma_program R src dest n fc req \<longleftrightarrow> R 0x50000100 = src \<and> R 0x50000108 = dest \<and> R 0x50000110 = of_nat n - 1
     \<and> get_field 4 1 (R 0x50000118) = (if fc = 2 then 1 else 0) \<and> get_field 6 1 (R 0x50000118) = (if fc = 2 then 0 else 1)
     \<and> get_field 8 3 (R 0x50000118) = 2 \<and> get_field 11 3 (R 0x50000118) = 2
     \<and> get_field 32 3 (R 0x50000120) = fc \<and> get_field (if fc = 2 then 35 else 36) 1 (R 0x50000120) = 0
     \<and> get_field (if fc = 2 then 39 else 44) 4 (R 0x50000120) = 0
     \<and> get_field 0 2 (R 0x50000010) = 3 \<and> get_field 0 6 (R 0x50440064) = req"

definition dma_receives :: "(u64 \<Rightarrow> u64) \<Rightarrow> u64 \<Rightarrow> nat \<Rightarrow> bool" where
  "dma_receives R buf n \<longleftrightarrow> tmod_of R = 2 \<and> selected R \<and> R 0x52000004 = of_nat n - 1 \<and> bit (R 0x5200004c) 0
     \<and> dma_program R 0x52000060 buf n 2 0"

definition dma_sends :: "(u64 \<Rightarrow> u64) \<Rightarrow> u64 \<Rightarrow> nat \<Rightarrow> bool" where
  "dma_sends R buf n \<longleftrightarrow> tmod_of R = 1 \<and> selected R \<and> bit (R 0x5200004c) 1 \<and> dma_program R buf 0x52000060 n 1 1"

definition unchanged :: "('h \<Rightarrow> u64 \<Rightarrow> u64) \<Rightarrow> ('h \<Rightarrow> wire list) \<Rightarrow> ('h \<Rightarrow> bool) \<Rightarrow> 'h \<Rightarrow> 'h \<Rightarrow> bool" where
  "unchanged regs wires busy h h' \<longleftrightarrow> regs h' = regs h \<and> wires h' = wires h \<and> busy h' = busy h"

text \<open>
  What the driver relies on. \<open>regs\<close> are the registers and the memory shared with the DMA controller, \<open>wires\<close> is what has passed
  over the wire, \<open>busy\<close> whether channel 0 is enabled. The queues, the status and the channel register are not among \<open>regs\<close>.
  The two queues of 32 entries are seen through \<open>space\<close>, the free entries of the transmit queue, and \<open>held\<close>, the bytes that wait in the
  receive queue: at least as many entries are free, and at least as many bytes wait, as the controller reports, as the queues go on draining and
  filling; a byte written to the data register goes to the card only when an entry is free, and is lost or not
  otherwise; a byte read from it is the next byte of the card only when one waits, and anything otherwise. \<open>stall\<close>, at most \<open>slack\<close>, bounds how often in a row
  the transmit queue is reported as full or the receive queue as empty.
\<close>

locale sd_controller =
  fixes E :: "'h sd_env" and reply :: "wire list \<Rightarrow> u8"
    and regs :: "'h \<Rightarrow> u64 \<Rightarrow> u64" and wires :: "'h \<Rightarrow> wire list" and busy :: "'h \<Rightarrow> bool"
    and space :: "'h \<Rightarrow> nat" and held :: "'h \<Rightarrow> nat" and stall :: "'h \<Rightarrow> nat" and slack :: nat
  assumes reads: "a \<notin> {0x52000020, 0x52000024, 0x52000028, 0x52000060, 0x50000018} \<Longrightarrow>
      fst (rd (sbus E) a h) = regs h a \<and> unchanged regs wires busy h (snd (rd (sbus E) a h))"
    and writes: "a \<notin> {0x52000060, 0x50000018, 0x3800100c} \<Longrightarrow>
      regs (wr (sbus E) a w h) = (regs h)(a := w) \<and> wires (wr (sbus E) a w h) = wires h \<and> busy (wr (sbus E) a w h) = busy h"
    and select: "regs (wr (sbus E) 0x3800100c w h) = (regs h)(0x3800100c := w)
      \<and> wires (wr (sbus E) 0x3800100c w h) = wires h @ [Cs (bit w 7)] \<and> busy (wr (sbus E) 0x3800100c w h) = busy h"
    and send: "regs (wr (sbus E) 0x52000060 w h) = regs h \<and> busy (wr (sbus E) 0x52000060 w h) = busy h
      \<and> (tmod_of (regs h) = 1 \<and> selected (regs h) \<and> 0 < space h \<longrightarrow> wires (wr (sbus E) 0x52000060 w h) = wires h @ [Out (ucast w)]
          \<and> space h \<le> Suc (space (wr (sbus E) 0x52000060 w h)))
      \<and> (tmod_of (regs h) = 2 \<longrightarrow> wires (wr (sbus E) 0x52000060 w h) = wires h)"
    and room: "rd32 (sbus E) 0x52000020 h = (v, h') \<Longrightarrow> unchanged regs wires busy h h' \<and> v \<le> 32 \<and> 32 - unat v \<le> space h'
      \<and> (v = 32 \<longrightarrow> stall h' < stall h)"
    and level: "rd32 (sbus E) 0x52000024 h = (v, h') \<Longrightarrow> unchanged regs wires busy h h' \<and> unat v \<le> held h'
      \<and> (v = 0 \<longrightarrow> stall h' < stall h)"
    and stall: "stall h \<le> slack"
    and receive: "tmod_of (regs h) = 2 \<and> selected (regs h) \<Longrightarrow> 0 < held h \<Longrightarrow>
      (ucast (fst (rd (sbus E) 0x52000060 h)) :: u8) = reply (wires h)
      \<and> wires (snd (rd (sbus E) 0x52000060 h)) = wires h @ [In (reply (wires h))]
      \<and> regs (snd (rd (sbus E) 0x52000060 h)) = regs h \<and> busy (snd (rd (sbus E) 0x52000060 h)) = busy h
      \<and> held h \<le> Suc (held (snd (rd (sbus E) 0x52000060 h)))"
    and idle_bus: "\<exists>h'. poll (sfuel E) (sbus E) 0x52000028 (\<lambda>v. v AND 5 = 4) h = Ok h' \<and> unchanged regs wires busy h h'"
    and channels: "\<not> busy h \<Longrightarrow> unchanged regs wires busy h (snd (rd (sbus E) 0x50000018 h))"
    and enable: "bit w 8 \<Longrightarrow> regs (wr (sbus E) 0x50000018 w h) = regs h \<and> wires (wr (sbus E) 0x50000018 w h) = wires h
      \<and> busy (wr (sbus E) 0x50000018 w h) = bit w 0"
    and idle_dma: "\<not> busy h \<Longrightarrow> \<exists>h'. dmac_wait_idle (sfuel E) (sbus E) 0 h = Ok h' \<and> unchanged regs wires busy h h'"
    and dma_in: "busy h \<Longrightarrow> dma_receives (regs h) (sblock E) n \<Longrightarrow> n \<le> 512 \<Longrightarrow>
      \<exists>h'. dmac_wait_idle (sfuel E) (sbus E) 0 h = Ok h' \<and> \<not> busy h'
        \<and> wires h' = wires h @ map In (wire_read reply (wires h) n)
        \<and> (\<forall>i < n. (ucast (regs h' (sblock E + 4 * of_nat i)) :: u8) = wire_read reply (wires h) n ! i)"
    and dma_out: "busy h \<Longrightarrow> dma_sends (regs h) (sblock E) n \<Longrightarrow> n \<le> 512 \<Longrightarrow>
      \<exists>h'. dmac_wait_idle (sfuel E) (sbus E) 0 h = Ok h' \<and> \<not> busy h' \<and> regs h' = regs h
        \<and> wires h' = wires h @ map (\<lambda>i. Out (ucast (regs h (sblock E + 4 * of_nat i)))) [0..<n]"
    and block: "0x80000000 \<le> sblock E" "sblock E \<le> 0x805ff000"
    and fuel: "600 * (slack + 1) < sfuel E"

begin

lemma read32: "fst (rd32 (sbus E) a h) = ucast (fst (rd (sbus E) a h))" "snd (rd32 (sbus E) a h) = snd (rd (sbus E) a h)"
  by (simp_all add: rd32_def split_beta)

lemma plain_read:
  assumes "a \<notin> {0x52000020, 0x52000024, 0x52000028, 0x52000060, 0x50000018}"
  shows "fst (rd (sbus E) a h) = regs h a" "regs (snd (rd (sbus E) a h)) = regs h" "wires (snd (rd (sbus E) a h)) = wires h"
    "busy (snd (rd (sbus E) a h)) = busy h"
  using reads [OF assms, of h] by (simp_all add: unchanged_def)

lemma plain_write:
  assumes "a \<notin> {0x52000060, 0x50000018, 0x3800100c}"
  shows "regs (wr (sbus E) a w h) = (regs h)(a := w)" "wires (wr (sbus E) a w h) = wires h" "busy (wr (sbus E) a w h) = busy h"
    "regs (wr32 (sbus E) a v h) = (regs h)(a := ucast v)" "wires (wr32 (sbus E) a v h) = wires h" "busy (wr32 (sbus E) a v h) = busy h"
  using writes [OF assms] by (simp_all add: wr32_def)

lemmas plain_access = plain_read plain_write read32

lemma plain_update:
  assumes "a \<notin> {0x52000020, 0x52000024, 0x52000028, 0x52000060, 0x50000018, 0x3800100c}"
  shows "regs (upd64 (sbus E) a f h) = (regs h)(a := f (regs h a))" "wires (upd64 (sbus E) a f h) = wires h" "busy (upd64 (sbus E) a f h) = busy h"
  using assms by (simp_all add: upd64_def split_beta plain_access)

lemma init_view:
  "regs (spi_init (sbus E) 0 0 0 8 0 h) 0x52000000 = 0x70000" "wires (spi_init (sbus E) 0 0 0 8 0 h) = wires h"
  "busy (spi_init (sbus E) 0 0 0 8 0 h) = busy h"
  by (simp_all add: spi_init_def spi_regs_def split_beta Let_def plain_access work_mode_offset_def frf_offset_def dfs_offset_def)

lemma tmod_view:
  "regs (spi_set_tmod (sbus E) 0 t h) = (regs h)(0x52000000 := ucast ((ucast (regs h 0x52000000) AND NOT 0x300) OR (push_bit 8 t AND 0x300)))"
  "wires (spi_set_tmod (sbus E) 0 t h) = wires h" "busy (spi_set_tmod (sbus E) 0 t h) = busy h"
  by (simp_all add: spi_set_tmod_def set_bit_reg_def spi_regs_def tmod_offset_def split_beta Let_def plain_access push_bit_eq_mult)

lemma cs_view:
  "wires (gpiohs_set_pin (sbus E) 7 v h) = wires h @ [Cs (bit v 0)]" "busy (gpiohs_set_pin (sbus E) 7 v h) = busy h"
  by (simp_all add: gpiohs_set_pin_def set_gpio_bit_def set_bit_offset_def set_bit_reg_def GPIOHS_V_def split_beta Let_def plain_access
      wr32_def select bit_simps)


text \<open>With a control register for frames of 8 bits.\<close>

lemma frame_view:
  assumes "regs h 0x52000000 = c" and "c \<in> {0x70000, 0x70100, 0x70200}"
  shows "fst (frame_width (sbus E) 0 h) = SPI_TRANS_CHAR" "regs (snd (frame_width (sbus E) 0 h)) = regs h"
    "wires (snd (frame_width (sbus E) 0 h)) = wires h" "busy (snd (frame_width (sbus E) 0 h)) = busy h"
  using assms by (auto simp: frame_width_def spi_regs_def dfs_offset_def split_beta Let_def plain_access spi_get_frame_size_def)

lemma tmod_values: "c = 0x70100 \<Longrightarrow> get_field 8 2 (c :: u64) = 1" "c = 0x70200 \<Longrightarrow> get_field 8 2 (c :: u64) = 2"
  by (simp_all add: get_field_def)

lemma init_tmod:
  fixes h :: 'h
  assumes "t = 1 \<or> t = 2"
  defines "h' \<equiv> spi_set_tmod (sbus E) 0 t (spi_init (sbus E) 0 0 0 8 0 h)"
  shows "regs h' 0x52000000 = (if t = 1 then 0x70100 else 0x70200)" "wires h' = wires h" "busy h' = busy h"
  using assms(1) by (auto simp: h'_def tmod_view init_view)

lemma transmit_queue:
  "tx_queue (sbus E) 0x52000000 1 (\<lambda>h. tmod_of (regs h) = 1 \<and> selected (regs h) \<and> busy h = b) (\<lambda>w. Out (ucast w)) wires space stall slack"
proof -
  have full: "32 - unat v < 1 \<Longrightarrow> v \<le> 32 \<Longrightarrow> v = 32" for v :: u32
    by (simp add: word_le_nat_alt word_unat_eq_iff)
  have "let (v, h') = rd32 (sbus E) (0x52000000 + 0x20) h
      in (tmod_of (regs h') = 1 \<and> selected (regs h') \<and> busy h' = b) \<and> wires h' = wires h \<and> v \<le> 32 \<and> 32 - unat v \<le> space h'
        \<and> (32 - unat v < 1 \<longrightarrow> stall h' < stall h)"
    if "tmod_of (regs h) = 1 \<and> selected (regs h) \<and> busy h = b" for h
  proof -
    obtain v h' where v: "rd32 (sbus E) 0x52000020 h = (v, h')" by (cases "rd32 (sbus E) 0x52000020 h")
    show ?thesis using room [OF v] that full [of v] by (simp add: v unchanged_def del: One_nat_def)
  qed
  then show ?thesis using send stall by (simp add: tx_queue_def wr32_def del: One_nat_def)
qed

lemma send_setup:
  fixes h :: 'h
  defines "h1 \<equiv> spi_set_tmod (sbus E) 0 1 (spi_init (sbus E) 0 0 0 8 0 h)"
  defines "h2 \<equiv> snd (frame_width (sbus E) 0 h1)"
  defines "h3 \<equiv> wr32 (sbus E) 0x52000010 8 (wr32 (sbus E) 0x52000008 1 h2)"
  shows "fst (frame_width (sbus E) 0 h1) = SPI_TRANS_CHAR" "tmod_of (regs h3) = 1 \<and> selected (regs h3) \<and> busy h3 = busy h" "wires h3 = wires h"
proof -
  have 1: "regs h1 0x52000000 = 0x70100" "wires h1 = wires h" "busy h1 = busy h" by (simp_all add: h1_def init_tmod)
  have f: "fst (frame_width (sbus E) 0 h1) = SPI_TRANS_CHAR" "regs h2 = regs h1" "wires h2 = wires h1" "busy h2 = busy h1"
    unfolding h2_def by (rule frame_view [OF 1(1)]; simp)+
  show "fst (frame_width (sbus E) 0 h1) = SPI_TRANS_CHAR" by (rule f)
  show "tmod_of (regs h3) = 1 \<and> selected (regs h3) \<and> busy h3 = busy h" "wires h3 = wires h"
    by (simp_all add: h3_def tmod_of_def selected_def plain_access f 1 tmod_values)
qed

lemma send_unfold:
  fixes h :: 'h
  defines "h1 \<equiv> spi_set_tmod (sbus E) 0 1 (spi_init (sbus E) 0 0 0 8 0 h)"
  defines "h3 \<equiv> wr32 (sbus E) 0x52000010 8 (wr32 (sbus E) 0x52000008 1 (snd (frame_width (sbus E) 0 h1)))"
  assumes "fst (frame_width (sbus E) 0 h1) = SPI_TRANS_CHAR"
  shows "sd_write_data E data h =
    bind_res (send_loop (sfuel E) (sbus E) 0x52000000 SPI_TRANS_CHAR False (sjunk E) data 0 (length data) h3) (\<lambda>h.
    bind_res (poll (sfuel E) (sbus E) 0x52000028 (\<lambda>v. v AND 5 = 4) h) (\<lambda>h.
    Ok (wr32 (sbus E) 0x52000008 0 (wr32 (sbus E) 0x52000010 0 h))))"
  unfolding h3_def using assms(3)
  by (simp add: sd_write_data_def spi_send_data_standard_def spi_send_data_normal_def spi_regs_def Let_def split_beta wbytes_of_def flip: h1_def)

lemma send_data:
  assumes "length data \<le> 590"
  shows "\<exists>h'. sd_write_data E data h = Ok h' \<and> wires h' = wires h @ map Out data \<and> busy h' = busy h"
proof -
  define h3 where "h3 = wr32 (sbus E) 0x52000010 8 (wr32 (sbus E) 0x52000008 1
    (snd (frame_width (sbus E) 0 (spi_set_tmod (sbus E) 0 1 (spi_init (sbus E) 0 0 0 8 0 h)))))"
  note prep = send_setup [of h, folded h3_def]
  have "length data * (slack + 1) \<le> 590 * (slack + 1)" using assms by (rule mult_right_mono) simp
  then have g: "length data * (slack + 1) + stall h3 < sfuel E" using fuel stall [of h3] by simp
  obtain h4 where h4: "send_loop (sfuel E) (sbus E) 0x52000000 SPI_TRANS_CHAR False (sjunk E) data 0 (length data) h3 = Ok h4"
      "busy h4 = busy h" "wires h4 = wires h @ map (\<lambda>i. Out (ucast (sent_word SPI_TRANS_CHAR False (sjunk E) data i))) [0..<length data]"
    using send_loop_ok [where w = SPI_TRANS_CHAR, unfolded wbytes_of_def spi_width.case, OF transmit_queue g prep(2), of False "sjunk E" data 0] unfolding prep(3)
    by (auto simp: word_index_def wbytes_of_def)
  have "ucast (sent_word SPI_TRANS_CHAR False (sjunk E) data i) = data ! i" if "i < length data" for i
    using that by (simp add: sent_word_def wbytes_of_def buf_word_def take_Suc_conv_app_nth hd_drop_conv_nth)
  then have w: "wires h4 = wires h @ map Out data" unfolding h4(3) by (simp add: map_equality_iff)
  obtain h5 where h5: "poll (sfuel E) (sbus E) 0x52000028 (\<lambda>v. v AND 5 = 4) h4 = Ok h5" "unchanged regs wires busy h4 h5"
    using idle_bus by blast
  have "sd_write_data E data h = Ok (wr32 (sbus E) 0x52000008 0 (wr32 (sbus E) 0x52000010 0 h5))"
    using h4(1) h5(1) send_unfold [OF prep(1), of data] by (simp flip: h3_def)
  moreover have "wires (wr32 (sbus E) 0x52000008 0 (wr32 (sbus E) 0x52000010 0 h5)) = wires h @ map Out data"
    "busy (wr32 (sbus E) 0x52000008 0 (wr32 (sbus E) 0x52000010 0 h5)) = busy h"
    using w h4(2) h5(2) by (simp_all add: plain_access unchanged_def)
  ultimately show ?thesis by blast
qed


lemma get_words_view:
  assumes "tmod_of (regs h) = 2 \<and> selected (regs h)" and "n \<le> held h"
  shows "\<exists>ws h'. get_words (sbus E) 0x52000000 n h = (ws, h') \<and> map ucast ws = wire_read reply (wires h) n \<and> length ws = n
    \<and> wires h' = wires h @ map In (wire_read reply (wires h) n) \<and> regs h' = regs h \<and> busy h' = busy h"
  using assms
proof (induction n arbitrary: h)
  case (Suc n)
  let ?h = "snd (rd (sbus E) 0x52000060 h)"
  have "0 < held h" using Suc.prems(2) by simp
  note r = receive [OF Suc.prems(1) this]
  from r Suc.prems have "tmod_of (regs ?h) = 2 \<and> selected (regs ?h)" "n \<le> held ?h" by simp_all
  from Suc.IH [OF this] r obtain ws h' where
    "get_words (sbus E) 0x52000000 n ?h = (ws, h')" "map ucast ws = wire_read reply (wires h @ [In (reply (wires h))]) n" "length ws = n"
    "wires h' = (wires h @ [In (reply (wires h))]) @ map In (wire_read reply (wires h @ [In (reply (wires h))]) n)" "regs h' = regs h" "busy h' = busy h"
    by auto
  then show ?case using r by (simp add: split_beta read32)
qed simp

lemma rx_loop_view:
  assumes "tmod_of (regs h) = 2 \<and> selected (regs h)" and "n * (slack + 1) + stall h < g"
  shows "\<exists>ws h'. rx_loop g (sbus E) 0x52000000 n h = Ok (ws, h') \<and> map ucast ws = wire_read reply (wires h) n
    \<and> wires h' = wires h @ map In (wire_read reply (wires h) n) \<and> regs h' = regs h \<and> busy h' = busy h"
  using assms
proof (induction g arbitrary: n h)
  case (Suc g)
  show ?case
  proof (cases "n = 0")
    case False
    obtain v h1 where v: "rd32 (sbus E) 0x52000024 h = (v, h1)" by (cases "rd32 (sbus E) 0x52000024 h")
    let ?m = "min (unat v) n"
    have L: "regs h1 = regs h" "wires h1 = wires h" "busy h1 = busy h" "?m \<le> held h1" "v = 0 \<Longrightarrow> stall h1 < stall h"
      using level [OF v] by (auto simp: unchanged_def)
    obtain ws h2 where w: "get_words (sbus E) 0x52000000 ?m h1 = (ws, h2)" "map ucast ws = wire_read reply (wires h) ?m"
      "wires h2 = wires h @ map In (wire_read reply (wires h) ?m)" "regs h2 = regs h" "busy h2 = busy h"
      using get_words_view [of h1 ?m] Suc.prems(1) L by auto
    have "(n - ?m) * (slack + 1) + stall h2 < g"
    proof (cases "?m = 0")
      case True
      then have "unat v = 0" using False by (simp only: min_def split: if_splits)
      then have "v = 0" by (simp only: unat_eq_zero)
      moreover have "h2 = h1" using w(1) True by simp
      ultimately show ?thesis using Suc.prems(2) L(5) True by simp
    next
      case False
      then have "n - ?m \<le> n - 1" by linarith
      then have "(n - ?m) * (slack + 1) \<le> (n - 1) * (slack + 1)" by (rule mult_right_mono) simp
      moreover have "(n - 1) * (slack + 1) + (slack + 1) = n * (slack + 1)" using \<open>n \<noteq> 0\<close> by (cases n) simp_all
      ultimately show ?thesis using stall [of h2] Suc.prems(2) by linarith
    qed
    with Suc.IH [of h2 "n - ?m"] Suc.prems(1) w obtain us h' where
      "rx_loop g (sbus E) 0x52000000 (n - ?m) h2 = Ok (us, h')" "map ucast us = wire_read reply (wires h2) (n - ?m)"
      "wires h' = wires h2 @ map In (wire_read reply (wires h2) (n - ?m))" "regs h' = regs h" "busy h' = busy h"
      by auto
    then show ?thesis using w v False wire_read_add [of reply "wires h" ?m "n - ?m"] by simp
  qed simp
qed simp


lemma cmd_loop_empty: "0 < g \<Longrightarrow> cmd_loop g B s cs k c i 0 h = Ok h"
  by (cases g) simp_all

lemma recv_setup:
  fixes h :: 'h and n :: nat
  defines "h1 \<equiv> spi_set_tmod (sbus E) 0 2 (spi_init (sbus E) 0 0 0 8 0 h)"
  defines "h2 \<equiv> wr32 (sbus E) 0x52000008 1 (wr32 (sbus E) 0x52000004 (of_nat n - 1) (snd (frame_width (sbus E) 0 h1)))"
  defines "h3 \<equiv> wr32 (sbus E) 0x52000010 8 (wr32 (sbus E) 0x52000060 0xffffffff h2)"
  shows "fst (frame_width (sbus E) 0 h1) = SPI_TRANS_CHAR" "tmod_of (regs h3) = 2 \<and> selected (regs h3)" "wires h3 = wires h" "busy h3 = busy h"
proof -
  have 1: "regs h1 0x52000000 = 0x70200" "wires h1 = wires h" "busy h1 = busy h" by (simp_all add: h1_def init_tmod)
  have f: "fst (frame_width (sbus E) 0 h1) = SPI_TRANS_CHAR" "regs (snd (frame_width (sbus E) 0 h1)) = regs h1"
    "wires (snd (frame_width (sbus E) 0 h1)) = wires h1" "busy (snd (frame_width (sbus E) 0 h1)) = busy h1"
    by (rule frame_view [OF 1(1)]; simp)+
  show "fst (frame_width (sbus E) 0 h1) = SPI_TRANS_CHAR" by (rule f)
  have 2: "tmod_of (regs h2) = 2" "regs h2 0x52000008 = 1" "wires h2 = wires h" "busy h2 = busy h"
    by (simp_all add: h2_def tmod_of_def plain_access f 1 tmod_values)
  have 3: "regs (wr32 (sbus E) 0x52000060 0xffffffff h2) = regs h2" "wires (wr32 (sbus E) 0x52000060 0xffffffff h2) = wires h2"
    "busy (wr32 (sbus E) 0x52000060 0xffffffff h2) = busy h2"
    using send [of _ h2] 2(1) by (simp_all add: wr32_def)
  show "tmod_of (regs h3) = 2 \<and> selected (regs h3)" "wires h3 = wires h" "busy h3 = busy h"
    using 2 by (simp_all add: h3_def tmod_of_def selected_def plain_access 3)
qed

lemma recv_unfold:
  fixes h :: 'h and n :: nat
  defines "h1 \<equiv> spi_set_tmod (sbus E) 0 2 (spi_init (sbus E) 0 0 0 8 0 h)"
  defines "h2 \<equiv> wr32 (sbus E) 0x52000008 1 (wr32 (sbus E) 0x52000004 (of_nat n - 1) (snd (frame_width (sbus E) 0 h1)))"
  defines "h3 \<equiv> wr32 (sbus E) 0x52000010 8 (wr32 (sbus E) 0x52000060 0xffffffff h2)"
  assumes "fst (frame_width (sbus E) 0 h1) = SPI_TRANS_CHAR" and "n < 2 ^ 32"
  shows "sd_read_data E n h = bind_res (rx_loop (sfuel E) (sbus E) 0x52000000 n h3) (\<lambda>(ws, h).
    Ok (words_bytes 1 ws, wr32 (sbus E) 0x52000008 0 (wr32 (sbus E) 0x52000010 0 h)))"
proof -
  have n: "unat (of_nat n :: u32) = n" using assms(5) by (simp add: unsigned_of_nat take_bit_eq_mod)
  have g: "0 < sfuel E" using fuel by simp
  show ?thesis unfolding h3_def h2_def using assms(4)
    by (simp add: sd_read_data_def spi_receive_data_standard_def spi_regs_def Let_def split_beta wbytes_of_def n cmd_loop_empty [OF g] flip: h1_def)
qed

lemma words_bytes_1: "words_bytes 1 ws = map ucast ws"
proof -
  show ?thesis by (induction ws) (simp_all add: words_bytes_def)
qed

lemma receive_data:
  assumes "n \<le> 4"
  shows "\<exists>h'. sd_read_data E n h = Ok (wire_read reply (wires h) n, h')
    \<and> wires h' = wires h @ map In (wire_read reply (wires h) n) \<and> busy h' = busy h"
proof -
  define h3 where "h3 = wr32 (sbus E) 0x52000010 8 (wr32 (sbus E) 0x52000060 0xffffffff (wr32 (sbus E) 0x52000008 1
    (wr32 (sbus E) 0x52000004 (of_nat n - 1) (snd (frame_width (sbus E) 0 (spi_set_tmod (sbus E) 0 2 (spi_init (sbus E) 0 0 0 8 0 h)))))))"
  note prep = recv_setup(2-4) [of n h, folded h3_def]
  have "n * (slack + 1) \<le> 4 * (slack + 1)" using assms by (rule mult_right_mono) simp
  then have g: "n * (slack + 1) + stall h3 < sfuel E" using fuel stall [of h3] by simp
  obtain ws h4 where r: "rx_loop (sfuel E) (sbus E) 0x52000000 n h3 = Ok (ws, h4)" "map ucast ws = wire_read reply (wires h) n"
      "wires h4 = wires h @ map In (wire_read reply (wires h) n)" "busy h4 = busy h"
    using rx_loop_view [OF prep(1) g] unfolding prep(2,3) by blast
  have "n < 2 ^ 32" using assms by simp
  then have "sd_read_data E n h = Ok (wire_read reply (wires h) n, wr32 (sbus E) 0x52000008 0 (wr32 (sbus E) 0x52000010 0 h4))"
    using r(1,2) recv_unfold [OF recv_setup(1)] by (simp add: words_bytes_1 del: One_nat_def flip: h3_def)
  then show ?thesis using r(3,4) by (auto simp: plain_access)
qed

end

lemma get_put_other:
  "off + n \<le> off' \<or> off' + n' \<le> off \<Longrightarrow> get_field off n (put_field off' n' v w) = get_field off n (w :: 'w::len word)"
  by (rule bit_word_eqI) (auto simp: get_field_def put_field_def bit_simps dest: bit_imp_le_length)

lemma bit_put_bit: "i < LENGTH('w::len) \<Longrightarrow> bit (put_field off 1 v w) i = (if i = off then odd v else bit (w :: 'w word) i)"
  by (auto simp: put_field_def bit_simps)

context sd_controller
begin

lemma block_memory: "is_memory (sblock E)"
  using block by (simp add: is_memory_def word_le_nat_alt word_less_nat_alt)

lemma channel_off:
  assumes "\<not> busy h"
  shows "regs (dmac_channel_disable (sbus E) 0 h) = regs h" "wires (dmac_channel_disable (sbus E) 0 h) = wires h" "\<not> busy (dmac_channel_disable (sbus E) 0 h)"
  using channels [OF assms]
  by (simp_all add: dmac_channel_disable_def upd64_def DMAC_V_def split_beta enable bit_put_bit unchanged_def del: One_nat_def)

lemma channel_on:
  assumes "\<not> busy h"
  shows "regs (dmac_channel_enable (sbus E) 0 h) = regs h" "wires (dmac_channel_enable (sbus E) 0 h) = wires h" "busy (dmac_channel_enable (sbus E) 0 h)"
  using channels [OF assms]
  by (simp_all add: dmac_channel_enable_def upd64_def DMAC_V_def split_beta enable bit_put_bit unchanged_def del: One_nat_def)


lemma param_view:
  fixes h :: 'h and burst :: u64
  assumes "(src = 0x52000060 \<and> dest = sblock E \<and> si = 1 \<and> di = 0 \<and> fc = 2) \<or> (src = sblock E \<and> dest = 0x52000060 \<and> si = 0 \<and> di = 1 \<and> fc = 1)"
  defines "h' \<equiv> dmac_set_channel_param (sbus E) 0 src dest si di burst 2 512 h"
  shows "wires h' = wires h" "busy h' = busy h"
    "a \<notin> {0x50000100, 0x50000108, 0x50000110, 0x50000118, 0x50000120} \<Longrightarrow> regs h' a = regs h a"
    "\<forall>x \<in> {0x50000100, 0x50000108, 0x50000110, 0x50000118, 0x50000120}. R x = regs h' x \<Longrightarrow>
      get_field 0 2 (R 0x50000010) = 3 \<Longrightarrow> get_field 0 6 (R 0x50440064) = req \<Longrightarrow> dma_program R src dest 512 fc req"
proof -
  let ?f = "\<lambda>v. put_field 2 2 0 (put_field 0 2 0 (put_field 44 4 0 (put_field 39 4 0
        (put_field 36 1 (if is_memory dest then 1 else 0) (put_field 35 1 (if is_memory src then 1 else 0)
          (put_field 32 3 (flow_control (is_memory src) (is_memory dest)) v)))))) :: u64"
  let ?g = "\<lambda>v. put_field 18 4 burst (put_field 14 4 burst (put_field 11 3 2 (put_field 8 3 2
        (put_field 6 1 di (put_field 4 1 si (put_field 2 1 1 (put_field 0 1 0 v))))))) :: u64"
  have r: "regs h' = (regs h)(0x50000120 := ?f (regs h 0x50000120), 0x50000100 := src, 0x50000108 := dest,
      0x50000118 := ?g (regs h 0x50000118), 0x50000110 := 511)"
    by (simp add: h'_def dmac_set_channel_param_def chan_reg_def DMAC_V_def Let_def plain_access plain_update)
  show "wires h' = wires h" "busy h' = busy h"
    by (simp_all add: h'_def dmac_set_channel_param_def chan_reg_def DMAC_V_def Let_def plain_access plain_update)
  show "a \<notin> {0x50000100, 0x50000108, 0x50000110, 0x50000118, 0x50000120} \<Longrightarrow> regs h' a = regs h a"
    by (simp add: r)
  have "\<not> is_memory 0x52000060" by (simp add: is_memory_def)
  then have m: "(is_memory src \<longleftrightarrow> fc = 1)" "(is_memory dest \<longleftrightarrow> fc = 2)" "fc = 1 \<or> fc = 2" using assms(1) block_memory by auto
  assume R: "\<forall>x \<in> {0x50000100, 0x50000108, 0x50000110, 0x50000118, 0x50000120}. R x = regs h' x"
    and c: "get_field 0 2 (R 0x50000010) = 3" "get_field 0 6 (R 0x50440064) = req"
  have v: "R 0x50000100 = src" "R 0x50000108 = dest" "R 0x50000110 = 511" "R 0x50000118 = ?g (regs h 0x50000118)" "R 0x50000120 = ?f (regs h 0x50000120)"
    using R by (simp_all add: r)
  show "dma_program R src dest 512 fc req"
    unfolding dma_program_def v c using assms(1) m by (auto simp: get_put_same get_put_other flow_control_def)
qed

lemma single_mode:
  fixes h :: 'h
  assumes "\<not> busy h"
    and "(src = 0x52000060 \<and> dest = sblock E \<and> si = 1 \<and> di = 0 \<and> fc = 2) \<or> (src = sblock E \<and> dest = 0x52000060 \<and> si = 0 \<and> di = 1 \<and> fc = 1)"
  shows "\<exists>h'. dmac_set_single_mode (sfuel E) (sbus E) 0 src dest si di burst 2 512 h = Ok h' \<and> busy h' \<and> wires h' = wires h
    \<and> (\<forall>a. a \<notin> {0x50000100, 0x50000108, 0x50000110, 0x50000118, 0x50000120, 0x50000180, 0x50000198, 0x50000010} \<longrightarrow> regs h' a = regs h a)
    \<and> dma_program (regs h') src dest 512 fc (get_field 0 6 (regs h 0x50440064))"
proof -
  define h1 where "h1 = dmac_channel_disable (sbus E) 0 (dmac_chanel_interrupt_clear (sbus E) 0 h)"
  have c: "regs (dmac_chanel_interrupt_clear (sbus E) 0 h) = (regs h)(0x50000198 := 0xffffffff)"
    "wires (dmac_chanel_interrupt_clear (sbus E) 0 h) = wires h" "\<not> busy (dmac_chanel_interrupt_clear (sbus E) 0 h)"
    using assms(1) by (simp_all add: dmac_chanel_interrupt_clear_def chan_reg_def DMAC_V_def plain_access)
  have 1: "regs h1 = (regs h)(0x50000198 := 0xffffffff)" "wires h1 = wires h" "\<not> busy h1"
    unfolding h1_def using channel_off [OF c(3)] c by simp_all
  obtain h2 where 2: "dmac_wait_idle (sfuel E) (sbus E) 0 h1 = Ok h2" "regs h2 = regs h1" "wires h2 = wires h1" "\<not> busy h2"
    using idle_dma [OF 1(3)] 1(3) by (auto simp: unchanged_def)
  define h3 where "h3 = dmac_set_channel_param (sbus E) 0 src dest si di burst 2 512 h2"
  note p = param_view [OF assms(2), where h = h2 and burst = burst, folded h3_def]
  define h4 where "h4 = dmac_enable_channel_interrupt (sbus E) 0 (dmac_enable (sbus E) h3)"
  have 4: "regs h4 = (regs h3)(0x50000010 := put_field 1 1 1 (put_field 0 1 1 (regs h3 0x50000010)), 0x50000198 := 0xffffffff, 0x50000180 := 2)"
    "wires h4 = wires h3" "busy h4 = busy h3"
    by (simp_all add: h4_def dmac_enable_channel_interrupt_def dmac_enable_def chan_reg_def DMAC_V_def plain_access plain_update)
  have b4: "\<not> busy h4" using 4 p 2 by simp
  define h5 where "h5 = dmac_channel_enable (sbus E) 0 h4"
  have 5: "regs h5 = regs h4" "wires h5 = wires h4" "busy h5" unfolding h5_def using channel_on [OF b4] by simp_all
  have "dmac_set_single_mode (sfuel E) (sbus E) 0 src dest si di burst 2 512 h = Ok h5"
    using 2(1) by (simp add: dmac_set_single_mode_def h5_def h4_def h3_def h1_def)
  moreover have "regs h5 a = regs h a"
    if "a \<notin> {0x50000100, 0x50000108, 0x50000110, 0x50000118, 0x50000120, 0x50000180, 0x50000198, 0x50000010}" for a
    using that p(3) [where a = a] by (simp add: 5 4 2 1)
  moreover have "dma_program (regs h5) src dest 512 fc (get_field 0 6 (regs h 0x50440064))"
  proof -
    have e: "get_field 0 2 (put_field 1 1 1 (put_field 0 1 1 v)) = (3 :: u64)" for v
    proof -
      have "get_field 0 2 (put_field 1 1 1 (put_field 0 1 1 v)) = (mask 2 :: u64)"
        by (rule bit_word_eqI) (auto simp: get_field_def bit_put_bit bit_simps less_2_cases_iff simp del: One_nat_def)
      then show ?thesis by (simp add: mask_eq_exp_minus_1)
    qed
    show ?thesis
    proof (rule p(4))
      show "\<forall>x \<in> {0x50000100, 0x50000108, 0x50000110, 0x50000118, 0x50000120}. regs h5 x = regs h3 x" by (simp add: 5 4)
      show "get_field 0 2 (regs h5 0x50000010) = 3" by (simp add: 5 4 e del: One_nat_def)
      show "get_field 0 6 (regs h5 0x50440064) = get_field 0 6 (regs h 0x50440064)" using p(3) [where a = "0x50440064"] by (simp add: 5 4 2 1)
    qed
  qed
  ultimately show ?thesis using 5 4 p 2 1 by auto
qed

end

text \<open>The address of a word of a block.\<close>

definition cell :: "u64 \<Rightarrow> nat \<Rightarrow> u64" where
  "cell b i = b + 4 * of_nat i"

lemma cell_next: "cell b i + 4 = cell b (Suc i)" "b = cell b 0"
  by (simp_all add: cell_def)

context sd_controller
begin

lemma unat_cell: "i \<le> 512 \<Longrightarrow> unat (cell (sblock E) i) = unat (sblock E) + 4 * i"
proof -
  assume i: "i \<le> 512"
  have "unat (of_nat (4 * i) :: u64) = 4 * i" using i by (simp only: unsigned_of_nat) (simp add: take_bit_eq_mod)
  moreover have "unat (sblock E) \<le> 0x805ff000" using block(2) by (simp add: word_le_nat_alt)
  ultimately show ?thesis using i by (simp add: cell_def unat_word_ariths)
qed

lemma cell_above: "i \<le> 512 \<Longrightarrow> 0x80000000 \<le> cell (sblock E) i"
  using unat_cell [of i] block(1) by (simp add: word_le_nat_alt)

lemma cell_apart: "i \<le> 512 \<Longrightarrow> r < 0x80000000 \<Longrightarrow> cell (sblock E) i \<noteq> r"
  using cell_above [of i] by (metis leD)

lemma cell_eq: "i \<le> 512 \<Longrightarrow> j \<le> 512 \<Longrightarrow> cell (sblock E) i = cell (sblock E) j \<longleftrightarrow> i = j"
  using unat_cell [of i] unat_cell [of j] by (metis add_left_cancel mult_left_cancel zero_neq_numeral)

lemma load_view:
  assumes "i + n \<le> 512"
  shows "fst (load_words (sbus E) (cell (sblock E) i) n h) = map (\<lambda>j. ucast (regs h (cell (sblock E) j))) [i..<i + n]
    \<and> wires (snd (load_words (sbus E) (cell (sblock E) i) n h)) = wires h \<and> busy (snd (load_words (sbus E) (cell (sblock E) i) n h)) = busy h"
  using assms
proof (induction n arbitrary: i h)
  case (Suc n)
  let ?a = "cell (sblock E) i"
  have a: "?a \<notin> {0x52000020, 0x52000024, 0x52000028, 0x52000060, 0x50000018}" using cell_apart [of i] Suc.prems by simp
  have "[i..<i + Suc n] = i # [Suc i..<Suc i + n]" by (simp add: upt_rec)
  moreover have "Suc i + n \<le> 512" using Suc.prems by simp
  ultimately show ?case using Suc.IH [of "Suc i" "snd (rd (sbus E) ?a h)"] plain_read [OF a, of h]
    by (simp add: split_beta read32 cell_next del: upt_Suc)
qed simp

lemma fill_view:
  assumes "i + length ws \<le> 512"
  shows "(\<forall>j < length ws. regs (fill_words (sbus E) (cell (sblock E) i) ws h) (cell (sblock E) (i + j)) = ucast (ws ! j))
    \<and> (\<forall>a. a \<notin> cell (sblock E) ` {i..<i + length ws} \<longrightarrow> regs (fill_words (sbus E) (cell (sblock E) i) ws h) a = regs h a)
    \<and> wires (fill_words (sbus E) (cell (sblock E) i) ws h) = wires h \<and> busy (fill_words (sbus E) (cell (sblock E) i) ws h) = busy h"
  using assms
proof (induction ws arbitrary: i h)
  case (Cons w ws)
  let ?a = "cell (sblock E) i" let ?h = "wr32 (sbus E) ?a w h"
  have a: "?a \<notin> {0x52000060, 0x50000018, 0x3800100c}" using cell_apart [of i] Cons.prems by simp
  note W = plain_write(4-6) [OF a, of w h]
  have I: "(\<forall>j < length ws. regs (fill_words (sbus E) (cell (sblock E) (Suc i)) ws ?h) (cell (sblock E) (Suc i + j)) = ucast (ws ! j))
    \<and> (\<forall>a. a \<notin> cell (sblock E) ` {Suc i..<Suc i + length ws} \<longrightarrow> regs (fill_words (sbus E) (cell (sblock E) (Suc i)) ws ?h) a = regs ?h a)
    \<and> wires (fill_words (sbus E) (cell (sblock E) (Suc i)) ws ?h) = wires ?h \<and> busy (fill_words (sbus E) (cell (sblock E) (Suc i)) ws ?h) = busy ?h"
    using Cons.prems by (intro Cons.IH) simp
  have "?a \<noteq> cell (sblock E) j" if "j \<in> {Suc i..<Suc i + length ws}" for j using cell_eq [of i j] that Cons.prems by simp
  then have "?a \<notin> cell (sblock E) ` {Suc i..<Suc i + length ws}" by (blast elim!: imageE)
  then have 0: "regs (fill_words (sbus E) (cell (sblock E) (Suc i)) ws ?h) ?a = ucast w" using I W by simp
  have "{i..<i + length (w # ws)} = insert i {Suc i..<Suc i + length ws}" by auto
  moreover have "regs (fill_words (sbus E) (cell (sblock E) (Suc i)) ws ?h) (cell (sblock E) (i + j)) = ucast ((w # ws) ! j)"
    if "j < length (w # ws)" for j
    using that 0 I by (cases j) simp_all
  ultimately show ?case using I W by (simp add: cell_next)
qed simp


lemma select_view:
  fixes h :: 'h and r :: nat
  defines "h' \<equiv> snd (sysctl_dma_select (sbus E) 0 r h)"
  shows "\<exists>v w. regs h' = (regs h)(0x50440064 := ucast (put_field 0 6 (of_nat r) (v :: u32)), 0x50440068 := w)" "wires h' = wires h" "busy h' = busy h"
  by (auto simp: h'_def sysctl_dma_select_def SYSCTL_V_def split_beta Let_def plain_access)

lemma request_line: "r < 64 \<Longrightarrow> get_field 0 6 (ucast (put_field 0 6 (of_nat r) (v :: u32)) :: u64) = of_nat r"
proof -
  assume r: "r < 64"
  have "get_field 0 6 (ucast (put_field 0 6 (of_nat r) v) :: u64) = take_bit 6 (of_nat r)"
    by (rule bit_word_eqI) (auto simp: get_field_def put_field_def bit_simps)
  also have "\<dots> = of_nat (take_bit 6 r)" by (rule take_bit_of_nat)
  also have "take_bit 6 r = r" using r by (simp add: take_bit_nat_eq_self)
  finally show ?thesis .
qed

lemma recv_dma_state:
  fixes h :: 'h
  defines "h1 \<equiv> spi_set_tmod (sbus E) 0 2 (snd (frame_width (sbus E) 0 (spi_init (sbus E) 0 0 0 8 0 h)))"
  defines "h2 \<equiv> snd (sysctl_dma_select (sbus E) 0 0 (wr32 (sbus E) 0x52000008 1 (wr32 (sbus E) 0x5200004c 3 (wr32 (sbus E) 0x52000004 511 h1))))"
  shows "fst (frame_width (sbus E) 0 (spi_init (sbus E) 0 0 0 8 0 h)) = SPI_TRANS_CHAR"
    "regs h2 0x52000000 = 0x70200" "regs h2 0x52000004 = 511" "regs h2 0x5200004c = 3" "regs h2 0x52000008 = 1" "get_field 0 6 (regs h2 0x50440064) = 0"
    "wires h2 = wires h" "busy h2 = busy h"
proof -
  let ?h0 = "spi_init (sbus E) 0 0 0 8 0 h"
  have f: "fst (frame_width (sbus E) 0 ?h0) = SPI_TRANS_CHAR" "regs (snd (frame_width (sbus E) 0 ?h0)) = regs ?h0"
    "wires (snd (frame_width (sbus E) 0 ?h0)) = wires ?h0" "busy (snd (frame_width (sbus E) 0 ?h0)) = busy ?h0"
    by (rule frame_view [OF init_view(1)]; simp)+
  show "fst (frame_width (sbus E) 0 ?h0) = SPI_TRANS_CHAR" by (rule f)
  have 1: "regs h1 0x52000000 = 0x70200" "wires h1 = wires h" "busy h1 = busy h"
    by (simp_all add: h1_def tmod_view f init_view)
  define h3 where "h3 = wr32 (sbus E) 0x52000008 1 (wr32 (sbus E) 0x5200004c 3 (wr32 (sbus E) 0x52000004 511 h1))"
  have 3: "regs h3 = (regs h1)(0x52000004 := 511, 0x5200004c := 3, 0x52000008 := 1)" "wires h3 = wires h" "busy h3 = busy h"
    using 1 by (simp_all add: h3_def plain_access)
  obtain v w where s: "regs h2 = (regs h3)(0x50440064 := ucast (put_field 0 6 (of_nat 0) (v :: u32)), 0x50440068 := w)" "wires h2 = wires h3" "busy h2 = busy h3"
    using select_view [of 0 h3] unfolding h2_def h3_def by blast
  show "regs h2 0x52000000 = 0x70200" "regs h2 0x52000004 = 511" "regs h2 0x5200004c = 3" "regs h2 0x52000008 = 1"
    "get_field 0 6 (regs h2 0x50440064) = 0" "wires h2 = wires h" "busy h2 = busy h"
    using request_line [of 0 v] by (simp_all add: s 3 1)
qed

lemma recv_dma_unfold:
  fixes h :: 'h
  defines "h1 \<equiv> spi_set_tmod (sbus E) 0 2 (snd (frame_width (sbus E) 0 (spi_init (sbus E) 0 0 0 8 0 h)))"
  defines "h2 \<equiv> snd (sysctl_dma_select (sbus E) 0 0 (wr32 (sbus E) 0x52000008 1 (wr32 (sbus E) 0x5200004c 3 (wr32 (sbus E) 0x52000004 511 h1))))"
  assumes "fst (frame_width (sbus E) 0 (spi_init (sbus E) 0 0 0 8 0 h)) = SPI_TRANS_CHAR"
  shows "sd_read_data_dma E 512 h =
    bind_res (dmac_set_single_mode (sfuel E) (sbus E) 0 0x52000060 (sblock E) 1 0 0 2 512 h2) (\<lambda>h.
    let (f, h) = spi_get_frame_format (sbus E) 0 h;
        h = wr32 (sbus E) 0x52000010 8 (if f = 0 then wr32 (sbus E) 0x52000060 0xffffffff h else h)
    in bind_res (dmac_wait_idle (sfuel E) (sbus E) 0 h) (\<lambda>h.
       let (ws, h) = load_words (sbus E) (sblock E) 512 (wr32 (sbus E) 0x52000008 0 (wr32 (sbus E) 0x52000010 0 h))
       in Ok (words_bytes 1 ws, h)))"
  unfolding h2_def using assms(3)
  by (simp add: sd_read_data_dma_def spi_receive_data_standard_dma_def spi_receive_data_normal_dma_def dmac_wait_done_def spi_regs_def Let_def
      split_beta wbytes_of_def bytes_words_def bind_res_assoc cong: if_cong flip: h1_def)


lemma frame_format_view:
  assumes "regs h 0x52000000 = 0x70200"
  shows "fst (spi_get_frame_format (sbus E) 0 h) = 0" "regs (snd (spi_get_frame_format (sbus E) 0 h)) = regs h"
    "wires (snd (spi_get_frame_format (sbus E) 0 h)) = wires h" "busy (snd (spi_get_frame_format (sbus E) 0 h)) = busy h"
  using assms by (simp_all add: spi_get_frame_format_def spi_regs_def frf_offset_def split_beta Let_def plain_access)

lemma receive_block:
  fixes h :: 'h
  assumes "\<not> busy h"
  shows "\<exists>h'. sd_read_data_dma E 512 h = Ok (wire_read reply (wires h) 512, h')
    \<and> wires h' = wires h @ map In (wire_read reply (wires h) 512) \<and> \<not> busy h'"
proof -
  define h2 where "h2 = snd (sysctl_dma_select (sbus E) 0 0 (wr32 (sbus E) 0x52000008 1 (wr32 (sbus E) 0x5200004c 3 (wr32 (sbus E) 0x52000004 511
    (spi_set_tmod (sbus E) 0 2 (snd (frame_width (sbus E) 0 (spi_init (sbus E) 0 0 0 8 0 h))))))))"
  note S = recv_dma_state(2-8) [of h, folded h2_def]
  note U = recv_dma_unfold [of h, folded h2_def, OF recv_dma_state(1)]
  have "\<not> busy h2" using S(7) assms by simp
  from single_mode [OF this, of "0x52000060" "sblock E" 1 0 2 0] obtain h3 where
    3: "dmac_set_single_mode (sfuel E) (sbus E) 0 0x52000060 (sblock E) 1 0 0 2 512 h2 = Ok h3" "busy h3" "wires h3 = wires h2"
      "\<And>a. a \<notin> {0x50000100, 0x50000108, 0x50000110, 0x50000118, 0x50000120, 0x50000180, 0x50000198, 0x50000010} \<Longrightarrow> regs h3 a = regs h2 a"
      "dma_program (regs h3) 0x52000060 (sblock E) 512 2 0"
    using S(5) by auto
  have r3: "regs h3 0x52000000 = 0x70200" "regs h3 0x52000004 = 511" "regs h3 0x5200004c = 3" "regs h3 0x52000008 = 1"
    using S by (simp_all add: 3(4))
  define h4 where "h4 = wr32 (sbus E) 0x52000060 0xffffffff (snd (spi_get_frame_format (sbus E) 0 h3))"
  note ff = frame_format_view [OF r3(1)]
  have "tmod_of (regs h3) = 2" using r3(1) by (simp add: tmod_of_def tmod_values)
  then have 4: "regs h4 = regs h3" "wires h4 = wires h" "busy h4"
    using send [of _ "snd (spi_get_frame_format (sbus E) 0 h3)"] S(6) 3(2,3) by (simp_all add: h4_def wr32_def ff)
  define h5 where "h5 = wr32 (sbus E) 0x52000010 8 h4"
  have 5: "regs h5 = (regs h3)(0x52000010 := 8)" "wires h5 = wires h" "busy h5" using 4 by (simp_all add: h5_def plain_access)
  have "dma_receives (regs h5) (sblock E) 512"
    using 3(5) r3 by (simp add: dma_receives_def 5 tmod_of_def selected_def tmod_values dma_program_def)
  from dma_in [OF 5(3) this order_refl] obtain h6 where
    6: "dmac_wait_idle (sfuel E) (sbus E) 0 h5 = Ok h6" "\<not> busy h6" "wires h6 = wires h @ map In (wire_read reply (wires h) 512)"
      "\<And>i. i < 512 \<Longrightarrow> (ucast (regs h6 (cell (sblock E) i)) :: u8) = wire_read reply (wires h) 512 ! i"
    unfolding 5(2) cell_def by blast
  define h7 where "h7 = wr32 (sbus E) 0x52000008 0 (wr32 (sbus E) 0x52000010 0 h6)"
  have 7: "regs h7 = (regs h6)(0x52000010 := 0, 0x52000008 := 0)" "wires h7 = wires h6" "busy h7 = busy h6"
    by (simp_all add: h7_def plain_access)
  define L where "L = load_words (sbus E) (sblock E) 512 h7"
  have L: "fst L = map (\<lambda>j. ucast (regs h7 (cell (sblock E) j))) [0..<512]" "wires (snd L) = wires h6" "busy (snd L) = busy h6"
    using load_view [of 0 512 h7] by (simp_all add: L_def 7 flip: cell_next(2))
  have "(ucast (ucast (regs h7 (cell (sblock E) j)) :: u32) :: u8) = wire_read reply (wires h) 512 ! j" if "j < 512" for j
  proof -
    have "regs h7 (cell (sblock E) j) = regs h6 (cell (sblock E) j)" using cell_apart [of j] that by (simp add: 7)
    then show ?thesis using 6(4) [OF that] by simp
  qed
  then have "words_bytes 1 (fst L) = wire_read reply (wires h) 512"
    unfolding words_bytes_1 L(1) by (intro nth_equalityI) simp_all
  then have "sd_read_data_dma E 512 h = Ok (wire_read reply (wires h) 512, snd L)"
    unfolding U using 3(1) 6(1) by (simp add: split_beta Let_def ff(1) L_def h7_def flip: h4_def h5_def)
  then show ?thesis using L 6 by auto
qed


lemma send_dma_unfold:
  fixes h :: 'h and data :: "u8 list"
  defines "h1 \<equiv> spi_set_tmod (sbus E) 0 1 (fill_words (sbus E) (sblock E) (bytes_words 1 data)
      (snd (frame_width (sbus E) 0 (spi_init (sbus E) 0 0 0 8 0 h))))"
  defines "h2 \<equiv> snd (sysctl_dma_select (sbus E) 0 1 (wr32 (sbus E) 0x52000008 1 (wr32 (sbus E) 0x5200004c 2 h1)))"
  assumes "fst (frame_width (sbus E) 0 (spi_init (sbus E) 0 0 0 8 0 h)) = SPI_TRANS_CHAR" and "length data = 512"
  shows "sd_write_data_dma E data h =
    bind_res (dmac_set_single_mode (sfuel E) (sbus E) 0 (sblock E) 0x52000060 0 1 1 2 512 h2) (\<lambda>h.
    bind_res (dmac_wait_idle (sfuel E) (sbus E) 0 (wr32 (sbus E) 0x52000010 8 h)) (\<lambda>h.
    bind_res (poll (sfuel E) (sbus E) 0x52000028 (\<lambda>v. v AND 5 = 4) h) (\<lambda>h.
    Ok (wr32 (sbus E) 0x52000008 0 (wr32 (sbus E) 0x52000010 0 h)))))"
proof -
  have "bytes_words 1 [] @ bytes_words 1 data = bytes_words 1 data" by (simp add: bytes_words_def)
  then show ?thesis unfolding h2_def h1_def using assms(3,4)
    by (simp add: sd_write_data_dma_def spi_send_data_standard_dma_def spi_send_data_normal_dma_def dmac_wait_done_def spi_regs_def Let_def
        split_beta wbytes_of_def cong: if_cong)
qed

lemma send_dma_state:
  fixes h :: 'h
  assumes "length data = 512"
  defines "h1 \<equiv> spi_set_tmod (sbus E) 0 1 (fill_words (sbus E) (sblock E) (bytes_words 1 data)
      (snd (frame_width (sbus E) 0 (spi_init (sbus E) 0 0 0 8 0 h))))"
  defines "h2 \<equiv> snd (sysctl_dma_select (sbus E) 0 1 (wr32 (sbus E) 0x52000008 1 (wr32 (sbus E) 0x5200004c 2 h1)))"
  shows "regs h2 0x52000000 = 0x70100" "regs h2 0x5200004c = 2" "regs h2 0x52000008 = 1" "get_field 0 6 (regs h2 0x50440064) = 1"
    "wires h2 = wires h" "busy h2 = busy h" "i < 512 \<Longrightarrow> (ucast (regs h2 (cell (sblock E) i)) :: u8) = data ! i"
proof -
  let ?h0 = "spi_init (sbus E) 0 0 0 8 0 h"
  let ?b = "bytes_words 1 data"
  have f: "regs (snd (frame_width (sbus E) 0 ?h0)) = regs ?h0"
    "wires (snd (frame_width (sbus E) 0 ?h0)) = wires ?h0" "busy (snd (frame_width (sbus E) 0 ?h0)) = busy ?h0"
    by (rule frame_view [OF init_view(1)]; simp)+
  define hf where "hf = fill_words (sbus E) (sblock E) ?b (snd (frame_width (sbus E) 0 ?h0))"
  have lb: "length ?b = 512" using assms(1) by (simp add: bytes_words_def)
  have F: "\<And>j. j < 512 \<Longrightarrow> regs hf (cell (sblock E) j) = ucast (?b ! j)"
    "\<And>a. a \<notin> cell (sblock E) ` {0..<512} \<Longrightarrow> regs hf a = regs ?h0 a" "wires hf = wires h" "busy hf = busy h"
    using fill_view [of 0 ?b "snd (frame_width (sbus E) 0 ?h0)"] by (simp_all add: hf_def lb f init_view del: One_nat_def flip: cell_next(2))
  have "0x52000000 \<notin> cell (sblock E) ` {0..<512}" using cell_apart [of _ "0x52000000"] by (auto simp: eq_commute)
  then have c: "regs hf 0x52000000 = 0x70000" using F(2) init_view(1) by simp
  define hs where "hs = wr32 (sbus E) 0x52000008 1 (wr32 (sbus E) 0x5200004c 2 h1)"
  have s: "regs hs = (regs hf)(0x52000000 := 0x70100, 0x5200004c := 2, 0x52000008 := 1)" "wires hs = wires h" "busy hs = busy h"
    using c F(3,4) by (simp_all add: hs_def h1_def plain_access tmod_view del: One_nat_def flip: hf_def)
  obtain v w where d: "regs h2 = (regs hs)(0x50440064 := ucast (put_field 0 6 (of_nat 1) (v :: u32)), 0x50440068 := w)" "wires h2 = wires hs" "busy h2 = busy hs"
    using select_view [of 1 hs] unfolding h2_def hs_def by blast
  show "regs h2 0x52000000 = 0x70100" "regs h2 0x5200004c = 2" "regs h2 0x52000008 = 1" "get_field 0 6 (regs h2 0x50440064) = 1"
    "wires h2 = wires h" "busy h2 = busy h"
    using request_line [of 1 v] by (simp_all add: d s del: One_nat_def)
  assume i: "i < 512"
  have "regs h2 (cell (sblock E) i) = regs hf (cell (sblock E) i)" using cell_apart [of i] i by (simp add: d s)
  also have "\<dots> = ucast (buf_word 1 data i)" using F(1) [OF i] i assms(1) by (simp add: bytes_words_def)
  finally have e: "regs h2 (cell (sblock E) i) = ucast (buf_word 1 data i)" .
  show "(ucast (regs h2 (cell (sblock E) i)) :: u8) = data ! i"
    unfolding e using i assms(1) by (simp add: buf_word_def take_Suc_conv_app_nth hd_drop_conv_nth)
qed

lemma send_block:
  fixes h :: 'h
  assumes "\<not> busy h" and "length data = 512"
  shows "\<exists>h'. sd_write_data_dma E data h = Ok h' \<and> wires h' = wires h @ map Out data \<and> \<not> busy h'"
proof -
  define h2 where "h2 = snd (sysctl_dma_select (sbus E) 0 1 (wr32 (sbus E) 0x52000008 1 (wr32 (sbus E) 0x5200004c 2
    (spi_set_tmod (sbus E) 0 1 (fill_words (sbus E) (sblock E) (bytes_words 1 data)
      (snd (frame_width (sbus E) 0 (spi_init (sbus E) 0 0 0 8 0 h))))))))"
  note S = send_dma_state [OF assms(2), where h = h, folded h2_def]
  have U: "sd_write_data_dma E data h =
    bind_res (dmac_set_single_mode (sfuel E) (sbus E) 0 (sblock E) 0x52000060 0 1 1 2 512 h2) (\<lambda>h.
    bind_res (dmac_wait_idle (sfuel E) (sbus E) 0 (wr32 (sbus E) 0x52000010 8 h)) (\<lambda>h.
    bind_res (poll (sfuel E) (sbus E) 0x52000028 (\<lambda>v. v AND 5 = 4) h) (\<lambda>h.
    Ok (wr32 (sbus E) 0x52000008 0 (wr32 (sbus E) 0x52000010 0 h)))))"
    unfolding h2_def by (rule send_dma_unfold [OF recv_dma_state(1) assms(2)])
  have "\<not> busy h2" using S(6) assms(1) by simp
  from single_mode [OF this, of "sblock E" "0x52000060" 0 1 1 1] obtain h3 where
    3: "dmac_set_single_mode (sfuel E) (sbus E) 0 (sblock E) 0x52000060 0 1 1 2 512 h2 = Ok h3" "busy h3" "wires h3 = wires h2"
      "\<And>a. a \<notin> {0x50000100, 0x50000108, 0x50000110, 0x50000118, 0x50000120, 0x50000180, 0x50000198, 0x50000010} \<Longrightarrow> regs h3 a = regs h2 a"
      "dma_program (regs h3) (sblock E) 0x52000060 512 1 1"
    using S(4) by auto
  have r3: "regs h3 0x52000000 = 0x70100" "regs h3 0x5200004c = 2" "regs h3 0x52000008 = 1" using S by (simp_all add: 3(4))
  define h5 where "h5 = wr32 (sbus E) 0x52000010 8 h3"
  have 5: "regs h5 = (regs h3)(0x52000010 := 8)" "wires h5 = wires h" "busy h5" using 3 S(5) by (simp_all add: h5_def plain_access)
  have "dma_sends (regs h5) (sblock E) 512"
    using 3(5) r3 by (simp add: dma_sends_def 5 tmod_of_def selected_def tmod_values dma_program_def)
  from dma_out [OF 5(3) this order_refl] obtain h6 where
    6: "dmac_wait_idle (sfuel E) (sbus E) 0 h5 = Ok h6" "\<not> busy h6"
      "wires h6 = wires h @ map (\<lambda>i. Out (ucast (regs h5 (cell (sblock E) i)))) [0..<512]"
    unfolding 5(2) cell_def by blast
  have "(ucast (regs h5 (cell (sblock E) i)) :: u8) = data ! i" if "i < 512" for i
  proof -
    have "regs h5 (cell (sblock E) i) = regs h2 (cell (sblock E) i)" using cell_apart [of i] that by (simp add: 5 3(4))
    then show ?thesis using S(7) [OF that] by simp
  qed
  then have w: "wires h6 = wires h @ map Out data" unfolding 6(3) using assms(2) by (simp add: map_equality_iff)
  obtain h7 where 7: "poll (sfuel E) (sbus E) 0x52000028 (\<lambda>v. v AND 5 = 4) h6 = Ok h7" "unchanged regs wires busy h6 h7"
    using idle_bus by blast
  have "sd_write_data_dma E data h = Ok (wr32 (sbus E) 0x52000008 0 (wr32 (sbus E) 0x52000010 0 h7))"
    unfolding U using 3(1) 6(1) 7(1) by (simp flip: h5_def)
  then show ?thesis using w 6(2) 7(2) by (auto simp: plain_access unchanged_def)
qed

end

section \<open>Commands on the wire\<close>

text \<open>The card answers \<open>xs\<close> after \<open>l\<close>.\<close>

definition says :: "(wire list \<Rightarrow> u8) \<Rightarrow> wire list \<Rightarrow> u8 list \<Rightarrow> bool" where
  "says reply l xs \<longleftrightarrow> wire_read reply l (length xs) = xs"

lemma says_append: "says reply l (xs @ ys) \<longleftrightarrow> says reply l xs \<and> says reply (l @ map In xs) ys"
  by (auto simp: says_def wire_read_add)

lemma says_Cons: "says reply l (x # xs) \<longleftrightarrow> reply l = x \<and> says reply (l @ [In x]) xs"
  by (auto simp: says_def)

context sd_controller
begin

lemma cs_lines:
  "wires (SD_CS_HIGH E h) = wires h @ [Cs True]" "wires (SD_CS_LOW E h) = wires h @ [Cs False]"
  "busy (SD_CS_HIGH E h) = busy h" "busy (SD_CS_LOW E h) = busy h"
  by (simp_all add: SD_CS_HIGH_def SD_CS_LOW_def cs_view)

lemma send_cmd:
  "\<exists>h'. sd_send_cmd E c a r h = Ok h' \<and> wires h' = wires h @ Cs False # map Out (cmd_frame c a r) \<and> busy h' = busy h"
  using send_data [of "cmd_frame c a r" "SD_CS_LOW E h"] by (simp add: sd_send_cmd_def cs_lines cmd_frame_def)

lemma end_cmd: "\<exists>h'. sd_end_cmd E h = Ok h' \<and> wires h' = wires h @ [Cs True, Out 0xff] \<and> busy h' = busy h"
  using send_data [of "[0xff]" "SD_CS_HIGH E h"] by (simp add: sd_end_cmd_def cs_lines)

lemma read_bytes:
  assumes "says reply (wires h) xs" and "length xs \<le> 4"
  shows "\<exists>h'. sd_read_data E (length xs) h = Ok (xs, h') \<and> wires h' = wires h @ map In xs \<and> busy h' = busy h"
  using receive_data [OF assms(2), of h] assms(1) by (simp add: says_def)

lemma read_byte:
  assumes "says reply (wires h) (x # xs)"
  shows "\<exists>h'. sd_read_data E 1 h = Ok ([x], h') \<and> wires h' = wires h @ [In x] \<and> busy h' = busy h \<and> says reply (wires h') xs"
proof -
  have "says reply (wires h) [x]" "says reply (wires h @ [In x]) xs" using assms by (simp_all add: says_Cons) (simp add: says_def)
  then show ?thesis using read_bytes [of h "[x]"] by auto
qed

lemma response:
  assumes "says reply (wires h) (replicate k 0xff @ [r])" and "r \<noteq> 0xff" and "k < n"
  shows "\<exists>h'. response_loop n E h = Ok (r, h') \<and> wires h' = wires h @ map In (replicate k 0xff @ [r]) \<and> busy h' = busy h"
  using assms(1,3)
proof (induction n arbitrary: h k)
  case (Suc n)
  show ?case
  proof (cases k)
    case 0
    then obtain h1 where "sd_read_data E 1 h = Ok ([r], h1)" "wires h1 = wires h @ [In r]" "busy h1 = busy h"
      using read_byte [of h r "[]"] Suc.prems(1) by auto
    then show ?thesis using 0 assms(2) by (intro exI [of _ h1]) (simp del: bind_res_eq_Ok)
  next
    case (Suc k')
    then obtain h1 where 1: "sd_read_data E 1 h = Ok ([0xff], h1)" "wires h1 = wires h @ [In 0xff]" "busy h1 = busy h"
      "says reply (wires h1) (replicate k' 0xff @ [r])" using read_byte [of h "0xff" "replicate k' 0xff @ [r]"] Suc.prems(1) by auto
    then show ?thesis using Suc.IH [OF 1(4)] Suc.prems(2) Suc by auto
  qed
qed simp

lemma silent:
  assumes "says reply (wires h) (replicate n 0xff)"
  shows "\<exists>h'. response_loop n E h = Ok (0xff, h')"
  using assms
proof (induction n arbitrary: h)
  case (Suc n)
  then obtain h1 where "sd_read_data E 1 h = Ok ([0xff], h1)" "says reply (wires h1) (replicate n 0xff)"
    using read_byte [of h "0xff" "replicate n 0xff"] by auto
  then show ?case using Suc.IH by auto
qed simp

lemma wait_found:
  assumes "says reply (wires h) (xs @ [b])" and "wanted b" and "\<forall>x \<in> set xs. \<not> wanted x" and "length xs < n"
  shows "\<exists>h'. wait_byte n wanted E h = Ok (True, h') \<and> wires h' = wires h @ map In (xs @ [b]) \<and> busy h' = busy h"
  using assms(1,3,4)
proof (induction n arbitrary: h xs)
  case (Suc n)
  show ?case
  proof (cases xs)
    case Nil
    then obtain h1 where "sd_read_data E 1 h = Ok ([b], h1)" "wires h1 = wires h @ [In b]" "busy h1 = busy h"
      using read_byte [of h b "[]"] Suc.prems(1) by auto
    then show ?thesis using Nil assms(2) by (intro exI [of _ h1]) (simp del: bind_res_eq_Ok)
  next
    case (Cons x xs')
    then obtain h1 where 1: "sd_read_data E 1 h = Ok ([x], h1)" "wires h1 = wires h @ [In x]" "busy h1 = busy h"
      "says reply (wires h1) (xs' @ [b])" using read_byte [of h x "xs' @ [b]"] Suc.prems(1) by auto
    then show ?thesis using Suc.IH [OF 1(4)] Suc.prems(2,3) Cons by auto
  qed
qed simp


lemma R1: "says reply (wires h) (replicate k 0xff @ [r]) \<Longrightarrow> r \<noteq> 0xff \<Longrightarrow> k < 255 \<Longrightarrow>
    \<exists>h'. sd_get_response_R1 E h = Ok (r, h') \<and> wires h' = wires h @ map In (replicate k 0xff @ [r]) \<and> busy h' = busy h"
  unfolding sd_get_response_R1_def by (rule response)

lemma read_sector:
  fixes s :: "'h sdcard" and n :: u32
  defines "l \<equiv> wires (sd_dev s) @ Cs False # map Out (cmd_frame 17 (sector_address s n) 0)"
  assumes b: "\<not> busy (sd_dev s)" and f: "sem_free (sdcard_lock s)"
    and r: "says reply l (replicate k 0xff @ 0 # fill @ 0xfe # data @ crc)"
    and k: "k < 255" and w: "length fill < 0xfffffe" "0xfe \<notin> set fill" and d: "length data = 512" "length crc = 2"
  shows "\<exists>s'. sdcard_read_sector E me s n = Ok (data, [], s') \<and> sem_free (sdcard_lock s') \<and> is_standard_sd s' = is_standard_sd s
    \<and> \<not> busy (sd_dev s') \<and> wires (sd_dev s') = l @ map In (replicate k 0xff @ 0 # fill @ 0xfe # data @ crc) @ [Cs True, Out 0xff]"
proof -
  obtain lk where lk: "sem_wait me (sdcard_lock s) = Ok lk" "sem_mine me lk" using sem_wait_free [OF f] by blast
  obtain lk' where lk': "sem_signal lk = Ok ([], lk')" "sem_free lk'" using sem_signal_mine [OF lk(2)] by blast
  obtain h1 where 1: "sd_send_cmd E 17 (sector_address s n) 0 (sd_dev s) = Ok h1" "wires h1 = l" "\<not> busy h1"
    using send_cmd [of 17 "sector_address s n" 0 "sd_dev s"] b by (auto simp: l_def)
  have "says reply (wires h1) ((replicate k 0xff @ [0]) @ (fill @ [0xfe]) @ data @ crc)" using r 1(2) by simp
  then have s1: "says reply (wires h1) (replicate k 0xff @ [0])"
    and s2: "says reply (wires h1 @ map In (replicate k 0xff @ [0])) ((fill @ [0xfe]) @ data @ crc)" by (simp_all only: says_append)
  obtain h2 where 2: "sd_get_response_R1 E h1 = Ok (0, h2)" "wires h2 = wires h1 @ map In (replicate k 0xff @ [0])" "\<not> busy h2"
    using R1 [OF s1 _ k] 1(3) by auto
  have s3: "says reply (wires h2) (fill @ [0xfe])" and s4: "says reply (wires h2 @ map In (fill @ [0xfe])) (data @ crc)"
    using s2 unfolding 2(2) by (simp_all only: says_append)
  obtain h3 where 3: "wait_byte 0xfffffe (\<lambda>b. b = 0xfe) E h2 = Ok (True, h3)" "wires h3 = wires h2 @ map In (fill @ [0xfe])" "\<not> busy h3"
    using wait_found [OF s3, of "\<lambda>b. b = 0xfe" "0xfffffe"] w 2(3) by auto
  have s5: "says reply (wires h3) data" and s6: "says reply (wires h3 @ map In data) crc"
    using s4 unfolding 3(2) by (simp_all only: says_append)
  obtain h4 where 4: "sd_read_data_dma E 512 h3 = Ok (data, h4)" "wires h4 = wires h3 @ map In data" "\<not> busy h4"
    using receive_block [OF 3(3)] s5 d(1) by (auto simp: says_def)
  obtain h5 where 5: "sd_read_data E 2 h4 = Ok (crc, h5)" "wires h5 = wires h4 @ map In crc" "\<not> busy h5"
    using read_bytes [of h4 crc] s6 d(2) 4(2,3) by auto
  obtain h6 where 6: "sd_end_cmd E h5 = Ok h6" "wires h6 = wires h5 @ [Cs True, Out 0xff]" "\<not> busy h6"
    using end_cmd [of h5] 5(3) by auto
  have "sdcard_read_sector E me s n = Ok (data, [], s\<lparr>sd_dev := h6, sdcard_lock := lk'\<rparr>)"
    by (simp add: sdcard_read_sector_def lk 1 2(1) 3(1) 4(1) 5(1) 6(1) lk' del: bind_res_eq_Ok)
  then show ?thesis using 1(2) 2(2) 3(2) 4(2) 5(2) 6 lk'(2) by simp
qed


lemma write_sector:
  fixes s :: "'h sdcard" and n :: u32 and data skip :: "u8 list" and k m j :: nat and token ready :: u8
  defines "l \<equiv> wires (sd_dev s) @ Cs False # map Out (cmd_frame 24 (sector_address s n) 0)"
  defines "l1 \<equiv> l @ map In (replicate k 0xff @ [0]) @ map Out (0xfe # data @ [0xff, 0xff])"
  defines "l2 \<equiv> l1 @ map In (skip @ token # replicate m 0 @ [ready]) @ [Cs True, Out 0xff, Cs False] @ map Out (cmd_frame 13 0 0)"
  assumes b: "\<not> busy (sd_dev s)" and f: "sem_free (sdcard_lock s)" and d: "length data = 512"
    and r: "says reply l (replicate k 0xff @ [0])" "k < 255"
    and t: "says reply l1 (skip @ token # replicate m 0 @ [ready])" "token AND 0x1f = 5" "\<forall>x \<in> set skip. x AND 0x1f \<noteq> 5" "length skip < 0xffe"
      "ready \<noteq> 0" "m < 0xfffffe"
    and c: "says reply l2 (replicate j 0xff @ [0, 0])" "j < 255"
  shows "\<exists>s'. sdcard_write_sector E me s data n = Ok ([], s') \<and> sem_free (sdcard_lock s') \<and> is_standard_sd s' = is_standard_sd s
    \<and> \<not> busy (sd_dev s') \<and> wires (sd_dev s') = l2 @ map In (replicate j 0xff @ [0, 0]) @ [Cs True, Out 0xff]"
proof -
  obtain lk where lk: "sem_wait me (sdcard_lock s) = Ok lk" "sem_mine me lk" using sem_wait_free [OF f] by blast
  obtain lk' where lk': "sem_signal lk = Ok ([], lk')" "sem_free lk'" using sem_signal_mine [OF lk(2)] by blast
  obtain h1 where 1: "sd_send_cmd E 24 (sector_address s n) 0 (sd_dev s) = Ok h1" "wires h1 = l" "\<not> busy h1"
    using send_cmd [of 24 "sector_address s n" 0 "sd_dev s"] b by (auto simp: l_def)
  obtain h2 where 2: "sd_get_response_R1 E h1 = Ok (0, h2)" "wires h2 = l @ map In (replicate k 0xff @ [0])" "\<not> busy h2"
    using R1 [of h1 k 0] r 1(2,3) by auto
  obtain h3 where 3: "sd_write_data E [0xfe] h2 = Ok h3" "wires h3 = wires h2 @ [Out 0xfe]" "\<not> busy h3"
    using send_data [of "[0xfe]" h2] 2(3) by auto
  obtain h4 where 4: "sd_write_data_dma E data h3 = Ok h4" "wires h4 = wires h3 @ map Out data" "\<not> busy h4"
    using send_block [OF 3(3) d] by auto
  obtain h5 where 5: "sd_write_data E [0xff, 0xff] h4 = Ok h5" "wires h5 = wires h4 @ [Out 0xff, Out 0xff]" "\<not> busy h5"
    using send_data [of "[0xff, 0xff]" h4] 4(3) by auto
  have l1: "wires h5 = l1" by (simp add: l1_def 5(2) 4(2) 3(2) 2(2))
  have "says reply (wires h5) ((skip @ [token]) @ (replicate m 0 @ [ready]))" using t(1) l1 by simp
  then have t1: "says reply (wires h5) (skip @ [token])" and t2: "says reply (wires h5 @ map In (skip @ [token])) (replicate m 0 @ [ready])"
    by (simp_all only: says_append)
  obtain h6 where 6: "wait_byte 0xffe (\<lambda>b. b AND 0x1f = 5) E h5 = Ok (True, h6)" "wires h6 = wires h5 @ map In (skip @ [token])" "\<not> busy h6"
    using wait_found [OF t1, of "\<lambda>b. b AND 0x1f = 5" "0xffe"] t(2-4) 5(3) by auto
  obtain h7 where 7: "wait_byte 0xfffffe (\<lambda>b. b \<noteq> 0) E h6 = Ok (True, h7)" "wires h7 = wires h6 @ map In (replicate m 0 @ [ready])" "\<not> busy h7"
    using wait_found [of h6 "replicate m 0" ready "\<lambda>b. b \<noteq> 0" "0xfffffe"] t(5,6) t2 6(2,3) by auto
  obtain h8 where 8: "sd_end_cmd E h7 = Ok h8" "wires h8 = wires h7 @ [Cs True, Out 0xff]" "\<not> busy h8"
    using end_cmd [of h7] 7(3) by auto
  obtain h9 where 9: "sd_send_cmd E 13 0 0 h8 = Ok h9" "wires h9 = wires h8 @ Cs False # map Out (cmd_frame 13 0 0)" "\<not> busy h9"
    using send_cmd [of 13 0 0 h8] 8(3) by auto
  have l2: "wires h9 = l2" by (simp add: l2_def 9(2) 8(2) 7(2) 6(2) l1)
  have "says reply (wires h9) ((replicate j 0xff @ [0]) @ [0])" using c(1) l2 by simp
  then have c1: "says reply (wires h9) (replicate j 0xff @ [0])" and c2: "says reply (wires h9 @ map In (replicate j 0xff @ [0])) [0]"
    by (simp_all only: says_append)
  obtain h10 where 10: "sd_get_response_R1 E h9 = Ok (0, h10)" "wires h10 = wires h9 @ map In (replicate j 0xff @ [0])" "\<not> busy h10"
    using R1 [OF c1 _ c(2)] 9(3) by auto
  obtain h11 where 11: "sd_read_data E 1 h10 = Ok ([0], h11)" "wires h11 = wires h10 @ [In 0]" "\<not> busy h11"
    using read_byte [of h10 0 "[]"] c2 10(2,3) by auto
  obtain h12 where 12: "sd_end_cmd E h11 = Ok h12" "wires h12 = wires h11 @ [Cs True, Out 0xff]" "\<not> busy h12"
    using end_cmd [of h11] 11(3) by auto
  have "sdcard_write_sector E me s data n = Ok ([], s\<lparr>sd_dev := h12, sdcard_lock := lk'\<rparr>)"
    by (simp add: sdcard_write_sector_def lk 1 2(1) 3(1) 4(1) 5(1) 6(1) 7(1) 8(1) 9(1) 10(1) 11(1) 12(1) lk' Let_def
        del: bind_res_eq_Ok One_nat_def)
  then show ?thesis using l2 10(2) 11(2) 12 lk'(2) by simp
qed

text \<open>A card that refuses, or is silent for 255 bytes.\<close>

lemma refused_R1:
  assumes "says reply (wires h) (replicate k 0xff @ [r])" and "(r \<noteq> 0 \<and> r \<noteq> 0xff \<and> k < 255) \<or> (r = 0xff \<and> k = 254)"
  shows "\<exists>h'. sd_get_response_R1 E h = Ok (r, h')"
proof (cases "r = 0xff")
  case True
  then have "says reply (wires h) (replicate 255 0xff)" using assms by (simp add: replicate_append_same flip: replicate_Suc)
  then show ?thesis using silent [of h 255] True by (simp add: sd_get_response_R1_def)
next
  case False
  then show ?thesis using R1 [OF assms(1)] assms(2) by blast
qed

lemma refused:
  fixes s :: "'h sdcard" and n :: u32
  assumes f: "sem_free (sdcard_lock s)" and r: "(r \<noteq> 0 \<and> r \<noteq> 0xff \<and> k < 255) \<or> (r = 0xff \<and> k = 254)"
  shows "says reply (wires (sd_dev s) @ Cs False # map Out (cmd_frame 17 (sector_address s n) 0)) (replicate k 0xff @ [r]) \<Longrightarrow>
      sdcard_read_sector E me s n = Fail (Panic ''sdcard: fail to read'')"
    and "says reply (wires (sd_dev s) @ Cs False # map Out (cmd_frame 24 (sector_address s n) 0)) (replicate k 0xff @ [r]) \<Longrightarrow>
      sdcard_write_sector E me s data n = Fail (Panic ''sdcard: fail to write'')"
proof -
  have r0: "r \<noteq> 0" using r by auto
  obtain lk where lk: "sem_wait me (sdcard_lock s) = Ok lk" "sem_mine me lk" using sem_wait_free [OF f] by blast
  obtain lk' where lk': "sem_signal lk = Ok ([], lk')" using sem_signal_mine [OF lk(2)] by blast
  show "sdcard_read_sector E me s n = Fail (Panic ''sdcard: fail to read'')"
    if y: "says reply (wires (sd_dev s) @ Cs False # map Out (cmd_frame 17 (sector_address s n) 0)) (replicate k 0xff @ [r])"
  proof -
    obtain h1 where 1: "sd_send_cmd E 17 (sector_address s n) 0 (sd_dev s) = Ok h1"
      "wires h1 = wires (sd_dev s) @ Cs False # map Out (cmd_frame 17 (sector_address s n) 0)" using send_cmd by blast
    obtain h2 where "sd_get_response_R1 E h1 = Ok (r, h2)" using refused_R1 [OF _ r, of h1] y 1(2) by auto
    then show ?thesis using r0 by (simp add: sdcard_read_sector_def lk 1 lk')
  qed
  show "sdcard_write_sector E me s data n = Fail (Panic ''sdcard: fail to write'')"
    if y: "says reply (wires (sd_dev s) @ Cs False # map Out (cmd_frame 24 (sector_address s n) 0)) (replicate k 0xff @ [r])"
  proof -
    obtain h1 where 1: "sd_send_cmd E 24 (sector_address s n) 0 (sd_dev s) = Ok h1"
      "wires h1 = wires (sd_dev s) @ Cs False # map Out (cmd_frame 24 (sector_address s n) 0)" using send_cmd by blast
    obtain h2 where "sd_get_response_R1 E h1 = Ok (r, h2)" using refused_R1 [OF _ r, of h1] y 1(2) by auto
    then show ?thesis using r0 by (simp add: sdcard_write_sector_def lk 1 lk' Let_def)
  qed
qed

end

section \<open>A bus of this kind\<close>

text \<open>
  Two queues of 32 entries: \<open>hw_tx\<close> entries of the transmit queue are taken, one less after each look at its level, and a byte
  written to the full queue is lost; \<open>hw_rx\<close> bytes wait in the receive queue, one more after each look at its level, and reading the empty queue gives 0. The status is
  always idle, and transfers take place when the channel register is read.
\<close>

record sd_hw =
  hw_regs :: "u64 \<Rightarrow> u64"
  hw_wires :: "wire list"
  hw_busy :: bool
  hw_tx :: nat
  hw_rx :: nat

definition hw_store :: "u64 \<Rightarrow> u8 list \<Rightarrow> (u64 \<Rightarrow> u64) \<Rightarrow> u64 \<Rightarrow> u64" where
  "hw_store buf bs R = fold (\<lambda>i R. R(cell buf i := ucast (bs ! i))) [0..<length bs] R"

definition hw_transfer :: "(wire list \<Rightarrow> u8) \<Rightarrow> sd_hw \<Rightarrow> sd_hw" where
  "hw_transfer reply h =
     (let R = hw_regs h; n = unat (R 0x50000110 + 1)
      in if R 0x50000100 = 0x52000060
         then let bs = wire_read reply (hw_wires h) n
              in h\<lparr>hw_regs := hw_store (R 0x50000108) bs R, hw_wires := hw_wires h @ map In bs, hw_busy := False\<rparr>
         else h\<lparr>hw_wires := hw_wires h @ map (\<lambda>i. Out (ucast (R (cell (R 0x50000100) i)))) [0..<n], hw_busy := False\<rparr>)"

definition hw_read :: "(wire list \<Rightarrow> u8) \<Rightarrow> u64 \<Rightarrow> sd_hw \<Rightarrow> u64 \<times> sd_hw" where
  "hw_read reply a h =
     (if a = 0x52000020 then (of_nat (min 32 (hw_tx h)), h\<lparr>hw_tx := min 32 (hw_tx h) - 1\<rparr>)
      else if a = 0x52000024 then (of_nat (min 32 (hw_rx h)), h\<lparr>hw_rx := min 32 (Suc (hw_rx h))\<rparr>)
      else if a = 0x52000028 then (4, h)
      else if a = 0x52000060 then if hw_rx h = 0 then (0, h)
        else (ucast (reply (hw_wires h)), h\<lparr>hw_wires := hw_wires h @ [In (reply (hw_wires h))], hw_rx := hw_rx h - 1\<rparr>)
      else if a = 0x50000018 then (0, if hw_busy h then hw_transfer reply h else h)
      else (hw_regs h a, h))"

definition hw_write :: "u64 \<Rightarrow> u64 \<Rightarrow> sd_hw \<Rightarrow> sd_hw" where
  "hw_write a w h =
     (if a = 0x52000060 then if tmod_of (hw_regs h) = 1 \<and> hw_tx h < 32 then h\<lparr>hw_wires := hw_wires h @ [Out (ucast w)], hw_tx := Suc (hw_tx h)\<rparr> else h
      else if a = 0x50000018 then if bit w 8 then h\<lparr>hw_busy := bit w 0\<rparr> else h
      else let h = h\<lparr>hw_regs := (hw_regs h)(a := w)\<rparr> in if a = 0x3800100c then h\<lparr>hw_wires := hw_wires h @ [Cs (bit w 7)]\<rparr> else h)"

definition sd_hw_env :: "(wire list \<Rightarrow> u8) \<Rightarrow> sd_hw sd_env" where
  "sd_hw_env reply = \<lparr>sbus = \<lparr>rd = hw_read reply, wr = hw_write\<rparr>, sfuel = 1801, sblock = 0x80100000, sjunk = 0\<rparr>"

lemma sd_hw_env_sel [simp]:
  "rd (sbus (sd_hw_env reply)) = hw_read reply" "wr (sbus (sd_hw_env reply)) = hw_write" "sfuel (sd_hw_env reply) = 1801" "sblock (sd_hw_env reply) = 0x80100000"
  by (simp_all add: sd_hw_env_def)

lemma poll_now: "0 < g \<Longrightarrow> P (fst (rd B a h)) \<Longrightarrow> poll g B a P h = Ok (snd (rd B a h))"
  by (cases g) (simp_all add: split_beta)

lemma cell_inj: "i < 512 \<Longrightarrow> j < 512 \<Longrightarrow> cell b i = cell b j \<longleftrightarrow> i = j"
proof -
  assume ij: "i < 512" "j < 512"
  have u: "unat (4 * of_nat k :: u64) = 4 * k" if "k < 512" for k
  proof -
    have "unat (of_nat (4 * k) :: u64) = 4 * k" using that by (simp only: unsigned_of_nat) (simp add: take_bit_eq_mod)
    then show ?thesis by simp
  qed
  have "cell b i = cell b j \<longleftrightarrow> (4 * of_nat i :: u64) = 4 * of_nat j" by (simp add: cell_def)
  then show ?thesis using u [OF ij(1)] u [OF ij(2)] by (metis mult_left_cancel zero_neq_numeral)
qed

lemma hw_store_at:
  assumes "length bs \<le> 512" and "i < length bs"
  shows "hw_store buf bs R (cell buf i) = ucast (bs ! i)"
proof -
  have "n \<le> length bs \<Longrightarrow> i < n \<Longrightarrow> fold (\<lambda>i R. R(cell buf i := ucast (bs ! i))) [0..<n] R (cell buf i) = ucast (bs ! i)" for n
    using assms by (induction n) (auto simp: cell_inj less_Suc_eq)
  then show ?thesis using assms by (simp add: hw_store_def)
qed

lemma hw_idle:
  "\<not> hw_busy h \<Longrightarrow> dmac_wait_idle 1801 (sbus (sd_hw_env reply)) 0 h = Ok h"
  "hw_busy h \<Longrightarrow> dmac_wait_idle 1801 (sbus (sd_hw_env reply)) 0 h = Ok (hw_transfer reply h)"
  by (simp_all add: dmac_wait_idle_def DMAC_V_def poll_now hw_read_def)

lemma hw_in:
  fixes reply :: "wire list \<Rightarrow> u8"
  assumes "hw_busy h" and "dma_receives (hw_regs h) buf n" and "n \<le> 512"
  defines "h' \<equiv> hw_transfer reply h"
  shows "\<not> hw_busy h' \<and> hw_wires h' = hw_wires h @ map In (wire_read reply (hw_wires h) n)
    \<and> (\<forall>i < n. (ucast (hw_regs h' (buf + 4 * of_nat i)) :: u8) = wire_read reply (hw_wires h) n ! i)"
proof -
  have p: "hw_regs h 0x50000100 = 0x52000060" "hw_regs h 0x50000108 = buf" "hw_regs h 0x50000110 = of_nat n - 1"
    using assms(2) by (simp_all add: dma_receives_def dma_program_def)
  have n: "unat (of_nat n :: u64) = n" using assms(3) by (simp only: unsigned_of_nat) (simp add: take_bit_eq_mod)
  show ?thesis using assms(3)
    by (simp add: h'_def hw_transfer_def Let_def p n hw_store_at flip: cell_def)
qed

lemma hw_out:
  fixes reply :: "wire list \<Rightarrow> u8"
  assumes "hw_busy h" and "dma_sends (hw_regs h) buf n" and "n \<le> 512" and "buf \<noteq> 0x52000060"
  defines "h' \<equiv> hw_transfer reply h"
  shows "\<not> hw_busy h' \<and> hw_regs h' = hw_regs h \<and> hw_wires h' = hw_wires h @ map (\<lambda>i. Out (ucast (hw_regs h (buf + 4 * of_nat i)))) [0..<n]"
proof -
  have p: "hw_regs h 0x50000100 = buf" "hw_regs h 0x50000110 = of_nat n - 1"
    using assms(2) by (simp_all add: dma_sends_def dma_program_def)
  have n: "unat (of_nat n :: u64) = n" using assms(3) by (simp only: unsigned_of_nat) (simp add: take_bit_eq_mod)
  show ?thesis using assms(4) by (simp add: h'_def hw_transfer_def Let_def p n cell_def)
qed

lemma level_casts: "unat (of_nat (min 32 n) :: u32) = min 32 n" "(ucast (of_nat (min 32 n) :: u64) :: u32) = of_nat (min 32 n)"
  by (simp_all add: unsigned_of_nat take_bit_eq_mod)

definition hw_stall :: "sd_hw \<Rightarrow> nat" where
  "hw_stall h = (if 32 \<le> hw_tx h then 1 else 0) + (if hw_rx h = 0 then 1 else 0)"

lemma hw_levels:
  assumes "rd32 (sbus (sd_hw_env reply)) a h = (v, h')"
  shows "a = 0x52000020 \<Longrightarrow> unchanged hw_regs hw_wires hw_busy h h' \<and> v \<le> 32 \<and> 32 - unat v \<le> 32 - hw_tx h' \<and> (v = 32 \<longrightarrow> hw_stall h' < hw_stall h)"
    and "a = 0x52000024 \<Longrightarrow> unchanged hw_regs hw_wires hw_busy h h' \<and> unat v \<le> hw_rx h' \<and> (v = 0 \<longrightarrow> hw_stall h' < hw_stall h)"
proof -
  have u: "v = 32 \<longleftrightarrow> unat v = 32" "v = 0 \<longleftrightarrow> unat v = 0" by (simp_all add: word_unat_eq_iff)
  show "unchanged hw_regs hw_wires hw_busy h h' \<and> v \<le> 32 \<and> 32 - unat v \<le> 32 - hw_tx h' \<and> (v = 32 \<longrightarrow> hw_stall h' < hw_stall h)"
    if "a = 0x52000020"
  proof -
    have "unat v = min 32 (hw_tx h)" "h' = h\<lparr>hw_tx := min 32 (hw_tx h) - 1\<rparr>"
      using assms that by (auto simp: rd32_def hw_read_def level_casts)
    then show ?thesis unfolding u by (cases "32 \<le> hw_tx h") (simp_all add: unchanged_def hw_stall_def word_le_nat_alt min_def)
  qed
  show "unchanged hw_regs hw_wires hw_busy h h' \<and> unat v \<le> hw_rx h' \<and> (v = 0 \<longrightarrow> hw_stall h' < hw_stall h)"
    if "a = 0x52000024"
  proof -
    have "unat v = min 32 (hw_rx h)" "h' = h\<lparr>hw_rx := min 32 (Suc (hw_rx h))\<rparr>"
      using assms that by (auto simp: rd32_def hw_read_def level_casts)
    then show ?thesis unfolding u by (simp add: unchanged_def hw_stall_def min_def)
  qed
qed

interpretation sd_hw: sd_controller "sd_hw_env reply" reply hw_regs hw_wires hw_busy "\<lambda>h. 32 - hw_tx h" hw_rx hw_stall 2 for reply
proof unfold_locales
  fix h :: sd_hw and n :: nat
  show "\<exists>h'. poll (sfuel (sd_hw_env reply)) (sbus (sd_hw_env reply)) 0x52000028 (\<lambda>v. v AND 5 = 4) h = Ok h' \<and> unchanged hw_regs hw_wires hw_busy h h'"
    by (simp add: poll_now hw_read_def unchanged_def)
  show "\<not> hw_busy h \<Longrightarrow> \<exists>h'. dmac_wait_idle (sfuel (sd_hw_env reply)) (sbus (sd_hw_env reply)) 0 h = Ok h' \<and> unchanged hw_regs hw_wires hw_busy h h'"
    by (simp add: hw_idle unchanged_def)
  show "hw_busy h \<Longrightarrow> dma_receives (hw_regs h) (sblock (sd_hw_env reply)) n \<Longrightarrow> n \<le> 512 \<Longrightarrow>
      \<exists>h'. dmac_wait_idle (sfuel (sd_hw_env reply)) (sbus (sd_hw_env reply)) 0 h = Ok h' \<and> \<not> hw_busy h'
        \<and> hw_wires h' = hw_wires h @ map In (wire_read reply (hw_wires h) n)
        \<and> (\<forall>i < n. (ucast (hw_regs h' (sblock (sd_hw_env reply) + 4 * of_nat i)) :: u8) = wire_read reply (hw_wires h) n ! i)"
    using hw_in [of h "0x80100000" n reply] by (simp add: hw_idle)
  show "hw_busy h \<Longrightarrow> dma_sends (hw_regs h) (sblock (sd_hw_env reply)) n \<Longrightarrow> n \<le> 512 \<Longrightarrow>
      \<exists>h'. dmac_wait_idle (sfuel (sd_hw_env reply)) (sbus (sd_hw_env reply)) 0 h = Ok h' \<and> \<not> hw_busy h' \<and> hw_regs h' = hw_regs h
        \<and> hw_wires h' = hw_wires h @ map (\<lambda>i. Out (ucast (hw_regs h (sblock (sd_hw_env reply) + 4 * of_nat i)))) [0..<n]"
    using hw_out [of h "0x80100000" n reply] by (simp add: hw_idle)
  fix v h'
  show "rd32 (sbus (sd_hw_env reply)) 0x52000020 h = (v, h') \<Longrightarrow> unchanged hw_regs hw_wires hw_busy h h' \<and> v \<le> 32 \<and> 32 - unat v \<le> 32 - hw_tx h'
      \<and> (v = 32 \<longrightarrow> hw_stall h' < hw_stall h)"
    by (rule hw_levels(1)) simp_all
  show "rd32 (sbus (sd_hw_env reply)) 0x52000024 h = (v, h') \<Longrightarrow> unchanged hw_regs hw_wires hw_busy h h' \<and> unat v \<le> hw_rx h' \<and> (v = 0 \<longrightarrow> hw_stall h' < hw_stall h)"
    by (rule hw_levels(2)) simp_all
  show "hw_stall h \<le> 2" by (simp add: hw_stall_def)
qed (auto simp: hw_read_def hw_write_def unchanged_def Let_def)

text \<open>A card that sends given bytes, whatever it receives.\<close>

definition reads_of :: "wire list \<Rightarrow> nat" where
  "reads_of l = length (filter (\<lambda>w. case w of In _ \<Rightarrow> True | _ \<Rightarrow> False) l)"


lemma reads_of_simps [simp]:
  "reads_of [] = 0" "reads_of (l @ l') = reads_of l + reads_of l'" "reads_of (In b # l) = Suc (reads_of l)" "reads_of (Out b # l) = reads_of l"
  "reads_of (Cs c # l) = reads_of l" "reads_of (map In xs) = length xs" "reads_of (map Out xs) = 0"
  by (simp_all add: reads_of_def filter_map comp_def)




section \<open>A sector\<close>





end
