(* ===== verification/Spec2Isabelle.thy ===== *)
theory Spec2Isabelle
  imports Frame_Alloc Klist Buddy Kstring Page_Table Bitmap Pid_Alloc Fat_Content Fat_Dir Pipe Mapped_Files Clock Console Sys_Calls Process Trap Sd_Wire
begin

text \<open>
  A verification library for the kernel under \<^verbatim>\<open>src/src\<close>: a small Unix-like system for the K210, with
  paging, processes, pipes, a FAT32 file system on an SD card and a clock.

  \<^bold>\<open>Shape of the model.\<close> Every operation of the C code is a function of the state it reads and writes. The
  kernel never unwinds, so a function that can panic, fail an assertion or make a wild access has the
  result type \<open>res\<close> of \<open>K_Prelude\<close>: \<open>Ok\<close> with the result and the new state, or \<open>Fail\<close> with the reason. Integers
  of C are words of their width wherever they can wrap; indexes into arrays that cannot are natural
  numbers. Structures are records, pointers into a table are indexes, pointers to heap objects that nothing else
  points into are the objects themselves. Tasks run on one hart: hart 0 enters \<^verbatim>\<open>task_run\<close>, which does not
  return, before the line of \<^verbatim>\<open>main\<close> that lets the other one out of its first loop. So the components use the abstract lock
  \<open>klock\<close> (held or not); \<open>Spinlock\<close> proves that \<^verbatim>\<open>acquire\<close> and \<^verbatim>\<open>release\<close> implement it and, apart from that, that
  the lock excludes all other harts in every interleaving.

  \<^bold>\<open>Theories, from the bottom.\<close>
  \<^item> \<open>K_Prelude\<close>: word types, faults, \<open>bind_res\<close>, array accesses that can fail, generic lemmas.
  \<^item> \<open>Max_Heap\<close> (\<^verbatim>\<open>max_heap.c\<close>), \<open>Addr\<close> (\<^verbatim>\<open>include/mm.h\<close>), \<open>Frame_Alloc\<close> (\<^verbatim>\<open>mm_frame_allocator.c\<close>): the allocator of
    physical pages. The heap is a bounded queue of page numbers (locale \<open>bounded_max_queue\<close>); the allocator is a set
    of free and a set of held pages (locale \<open>page_frames\<close>), which page tables and address spaces build on.
  \<^item> \<open>Spinlock\<close> (\<^verbatim>\<open>sync_spinlock.c\<close>), \<open>Klist\<close> (\<^verbatim>\<open>list.c\<close>, locale \<open>fifo_queue\<close>), \<open>Semaphore\<close> (\<^verbatim>\<open>sync_sem.c\<close>), \<open>Bitmap\<close>
    (\<^verbatim>\<open>bitmap.c\<close>), \<open>Pid_Alloc\<close> (\<^verbatim>\<open>tk_pid.c\<close>), \<open>Buddy\<close> (\<^verbatim>\<open>bitmap_buddy.c\<close>, locale \<open>block_heap\<close>): \<open>tree_ok\<close> holds
    as long as nothing is released, \<open>sizes_ok\<close> also after releases, which merge the wrong halves.
  \<^item> \<open>Phys_Mem\<close> and \<open>Kstring\<close> (\<^verbatim>\<open>string.c\<close>): memory as a function from addresses to bytes; the block and string
    functions, word at a time as in the source, against plain byte loops.
  \<^item> \<open>Page_Table\<close> (\<^verbatim>\<open>mm_page_table.c\<close>): the tables in memory. The invariant \<open>pt_inv\<close> says that the tables form a tree of
    distinct held pages; \<open>pt_lookup\<close> is the abstract map from pages to entries that \<^verbatim>\<open>map\<close> and \<^verbatim>\<open>unmap\<close> update; the copies
    between user and kernel are byte by byte translations.
  \<^item> \<open>Memory_Set\<close> (\<^verbatim>\<open>mm_memoryset.c\<close>, \<^verbatim>\<open>include/elf.h\<close>): areas and address spaces. \<open>mapped\<close> and \<open>ms_grown\<close> describe what a
    sequence of mappings did, \<open>released\<close> what unmapping did, \<open>ms_inv\<close> is the invariant of a space. \<open>Address_Space\<close>: the copy
    for \<^verbatim>\<open>fork\<close>, the release, \<^verbatim>\<open>brk\<close>, and the segments of an ELF image.
  \<^item> \<open>Bcache\<close> (\<^verbatim>\<open>fs_buf.c\<close>, \<^verbatim>\<open>fs_disk.c\<close>, locale \<open>sector_store\<close>): the buffer cache is transparent. \<open>Ucopy\<close> (\<^verbatim>\<open>tk_proc.c\<close>):
    copies to a user or a kernel address.
  \<^item> \<open>Fat_Table\<close>, \<open>Fat_File\<close>, \<open>Fat_Content\<close>, \<open>Fat_Name\<close>, \<open>Fat_Dir\<close> (\<^verbatim>\<open>fs_fat32.c\<close>): the allocation table as an array, files as
    chains of clusters, their contents under reading, writing and truncation, long names in slots, directories, the cache
    of entries and paths.
  \<^item> \<open>Sched\<close> (\<^verbatim>\<open>tk_manage.c\<close>, \<^verbatim>\<open>tk_proc.c\<close>, \<^verbatim>\<open>tk_task.c\<close>): the scheduler as a state machine (\<open>sched_step\<close>); \<^verbatim>\<open>__switch\<close> is the
    change between a task and the idle loop. Invariant: every task is in exactly the place its status says, so that taking the
    next task and waking do not panic (a call that panics is no step: \<^verbatim>\<open>waitpid\<close> and the exit of a task can); the ready
    queue is served in order; \<open>asleep_locked\<close> is what holds of a task that waits until it runs again. \<open>Pipe\<close> (\<^verbatim>\<open>fs_pipe.c\<close>): a pipe is a bounded queue of bytes.
  \<^item> \<open>Open_Files\<close> (\<^verbatim>\<open>fs_file.c\<close>, \<^verbatim>\<open>pipealloc\<close>, the calls on descriptors of \<^verbatim>\<open>syscall.c\<close>, the loops over descriptors of
    \<^verbatim>\<open>tcb_new\<close>, \<^verbatim>\<open>fork\<close> and \<^verbatim>\<open>exit_current_and_run_next\<close>): the state \<open>kstate\<close> joins scheduler, file system, pipes, file table
    and descriptors. \<open>fd_inv T x\<close> is the invariant: each file has at least as many references counted as there are
    descriptors of the tasks \<open>T\<close> on it, with \<open>x\<close> further ones that a call holds; \<open>fd_step\<close> are the steps.
  \<^item> \<open>Mapped_Files\<close> (\<^verbatim>\<open>sys_mmap\<close>, \<^verbatim>\<open>mmap_handler\<close>): joins address spaces, open files and the file system.
  \<^item> \<open>Clock\<close> (\<^verbatim>\<open>d_rtc.c\<close>, \<^verbatim>\<open>timer.c\<close>, \<^verbatim>\<open>sleep.c\<close>): the registers of the clock; dates against the calendar.
  \<^item> \<open>Console\<close> (\<^verbatim>\<open>console.c\<close>, \<^verbatim>\<open>stdio.c\<close>, the messages of \<^verbatim>\<open>panic.c\<close>): what is printed, as the list of bytes sent to the
    firmware; numbers, formats, and the console as a device. \<open>render\<close> is the reading of a format character by character.
  \<^item> \<open>Sys_Calls\<close> (\<^verbatim>\<open>syscall.c\<close>, \<^verbatim>\<open>ls\<close> of \<^verbatim>\<open>fs_fat32.c\<close>): the calls on directories, metadata, identity, waiting, times and
    memory, and the table of calls.
  \<^item> \<open>Process\<close> (\<^verbatim>\<open>tk_task.c\<close>, \<^verbatim>\<open>add_initproc\<close>, \<^verbatim>\<open>ks_new\<close>, \<^verbatim>\<open>app_context_init\<close>, \<^verbatim>\<open>sys_fork\<close>, \<^verbatim>\<open>sys_exec\<close>): the state \<open>proc\<close> joins \<open>kstate\<close>
    with the memory, the address space of every task, the kernel space and the identifiers; making, replacing and
    ending a process. \<open>Trap\<close> (\<^verbatim>\<open>exception.c\<close>, \<^verbatim>\<open>syscall_handler\<close>): from the cause of a trap to the handler, through the table to
    the calls of all other theories (\<open>run_call\<close>), and back to user mode.
  \<^item> \<open>Device\<close> (\<^verbatim>\<open>d_utils.c\<close>, \<^verbatim>\<open>d_sysctl.c\<close>, \<^verbatim>\<open>d_fpioa.c\<close>, \<^verbatim>\<open>d_gpiohs.c\<close>, \<^verbatim>\<open>d_clint.c\<close>) and \<open>Spi\<close> (\<^verbatim>\<open>d_spi.c\<close>, \<^verbatim>\<open>d_dmac.c\<close>): the
    drivers, over a record \<open>bus\<close> of what reading and writing a register does to the hardware; the state of the hardware is
    a type variable. \<open>Sdcard\<close> (\<^verbatim>\<open>d_sdcard.c\<close>, the start of the devices in \<^verbatim>\<open>main\<close>) and \<open>Sd_Wire\<close>: the card. The locale
    \<open>sd_controller\<close> says what the driver relies on in the hardware, and each operation is described by what passes over the
    wire; a sector that the buffer cache reads is the block that the card sends for it. The queues of the controller hold 32 entries
    (\<open>tx_queue\<close>): what is written while the queue is full may be lost, and what is read while it is empty is anything.

  \<^bold>\<open>What the theorems show.\<close> Contracts of the allocators (pages, blocks, clusters, identifiers): what is handed out
  is free, disjoint from all that is held, and what is released is free again. Refinement: locks, page tables, buffer
  cache and pipes implement an abstract lock, map, disk and queue. Round trips: user copies, file contents, clock,
  printed numbers. The wire: which bytes reading and writing a sector exchange with the card. Equivalence with references: string functions, formats, the calendar, the path of a directory.
  Invariants over all sequences of steps: mutual exclusion, the places of tasks, references to files, identifiers.
  Termination and fairness: truncation of any chain, even a cyclic one; waiting in the ready queue. Composition: a
  system call \<^verbatim>\<open>fork\<close>, from the trap to the return to user mode, with the registers, memory, descriptors and places of parent
  and child; a mapped page holds the bytes of its file. And, where
  the code does something else than it means to, the exact behaviour: each such theorem says what happens and on
  which inputs. The dates of \<open>Clock\<close>, the value that \<^verbatim>\<open>atoi\<close> accumulates and the count of references of a file are
  unbounded integers; they leave the range of \<open>int\<close> only on inputs that the theorems exclude.

  \<^bold>\<open>Bounds and fuel.\<close> Loops of the C code are total functions, with a measure where the recursion is not
  structural. Those that can run forever are \<open>partial_function (option)\<close> (strings without an end, where \<open>None\<close> is
  not returning) or take fuel and fail with \<open>Spin_forever\<close> (chains, directories and paths; a chain of a volume
  with \<open>n\<close> clusters needs at most \<open>n + 1\<close> steps, which the theorems on truncation use). Mapping a page needs at most two
  new tables and one frame for the data, so the theorems that map pages ask for three free frames per page. The
  positions of the buddy tree are natural numbers: its heap is smaller than \<open>2 ^ 31\<close> bytes. The waiting loops of
  the drivers take fuel as well: \<open>sd_controller\<close> asks for 600 rounds, one for each byte of the longest transfer, and for each of them one more for each
  time that a queue can be found without room, or empty, in a row. Descriptors and
  files are 101 per task and 128 in all, as in \<^verbatim>\<open>include/file.h\<close>.

  \<^bold>\<open>Parameters.\<close> Linker symbols are the record \<open>ksyms\<close>; the device functions are the argument \<open>dev\<close> of \<open>fileread\<close> and
  \<open>filewrite\<close>, of which \<open>dev_ok\<close> says that they leave the file table alone; the sectors of the card are a function from
  numbers to bytes; the readings of the cycle counter are a list. Arrays on the stack that are not initialised start with
  an argument \<open>junk\<close>. What the linker and \<^verbatim>\<open>sstatus\<close>
  provide to a new process is the record \<open>env\<close>; the blocks that the heap gives to a system call, and the readings of the
  counters during it, are the record \<open>inputs\<close>. The hardware behind the registers is the record \<open>bus\<close>; the blocks of the heap that a driver takes are
  given by their addresses.

  \<^bold>\<open>Not modelled.\<close> Assembly (entry, trampoline, \<^verbatim>\<open>__switch\<close>); the writing of \<^verbatim>\<open>satp\<close>; \<^verbatim>\<open>sbi.c\<close>, calls of the firmware; functions
  that only test or list the volume on the console (\<^verbatim>\<open>file_search\<close>); what is printed by the driver of the card; the interrupts of the drivers, which are not used.

  \<^bold>\<open>Open.\<close> The identity mapping of \<^verbatim>\<open>new_kenel\<close> is modelled without a theorem on its success, which needs a count of the tables shared
  by neighbouring pages; nothing is proved about a path looked up again after \<^verbatim>\<open>getcwd\<close>; the
  initialisation of the card is modelled without a theorem on the cards that pass it.
\<close>

end
